(* ===== verification/Breaker.thy ===== *)
theory Breaker
  imports Prelude
begin

text \<open>
  The circuit breaker of \<^verbatim>\<open>clients/breaker.rs\<close>. Every method takes the mutex for its whole body,
  so a concurrent execution is a sequence of atomic operations; \<^verbatim>\<open>Instant::now()\<close> is an argument of
  the operations that read the clock (nanoseconds, as \<^typ>\<open>nat\<close>), and the counters are \<^verbatim>\<open>u32\<close>.
\<close>

section \<open>State and operations\<close>

datatype CircuitState = Closed | Open | HalfOpen

record CircuitBreakerConfig =
  failure_threshold :: u32
  success_threshold :: u32
  max_half_open :: u32
  timeout :: nat

definition default_config :: CircuitBreakerConfig where
  "default_config = \<lparr>failure_threshold = 5, success_threshold = 2, max_half_open = 1,
     timeout = 30 * 1000000000\<rparr>"

record State =
  circuit :: CircuitState
  failures :: u32
  successes :: u32
  half_open_in_flight :: u32
  opened_at :: "nat option"

datatype CircuitOpenError = CircuitOpenError

definition breaker_new :: State where
  "breaker_new = \<lparr>circuit = Closed, failures = 0, successes = 0, half_open_in_flight = 0,
     opened_at = None\<rparr>"

definition trip :: "nat \<Rightarrow> State \<Rightarrow> State" where
  "trip now s = s\<lparr>circuit := Open, opened_at := Some now, failures := 0, successes := 0,
     half_open_in_flight := 0\<rparr>"

text \<open>\<^verbatim>\<open>t.elapsed()\<close> saturates at zero, as subtraction on \<^typ>\<open>nat\<close> does; a missing
  \<open>opened_at\<close> counts as no time elapsed (\<^verbatim>\<open>unwrap_or_default\<close>).\<close>

definition elapsed :: "nat \<Rightarrow> nat option \<Rightarrow> nat" where
  "elapsed now t = (case t of None \<Rightarrow> 0 | Some t0 \<Rightarrow> now - t0)"

definition can_execute ::
  "CircuitBreakerConfig \<Rightarrow> nat \<Rightarrow> State \<Rightarrow> (unit, CircuitOpenError) result \<times> State" where
  "can_execute cfg now s = (case circuit s of
     Closed \<Rightarrow> (Ok (), s)
   | Open \<Rightarrow>
       if elapsed now (opened_at s) \<ge> timeout cfg
       then (Ok (), s\<lparr>circuit := HalfOpen, successes := 0, half_open_in_flight := 1\<rparr>)
       else (Err CircuitOpenError, s)
   | HalfOpen \<Rightarrow>
       if half_open_in_flight s < max_half_open cfg
       then (Ok (), s\<lparr>half_open_in_flight := half_open_in_flight s + 1\<rparr>)
       else (Err CircuitOpenError, s))"

definition on_execution :: "CircuitBreakerConfig \<Rightarrow> nat \<Rightarrow> bool \<Rightarrow> State \<Rightarrow> State" where
  "on_execution cfg now success s = (case circuit s of
     Closed \<Rightarrow>
       if success then s\<lparr>failures := 0\<rparr>
       else let s = s\<lparr>failures := failures s + 1\<rparr>
            in if failures s \<ge> failure_threshold cfg then trip now s else s
   | HalfOpen \<Rightarrow>
       let s = s\<lparr>half_open_in_flight := saturating_sub (half_open_in_flight s) 1\<rparr>
       in if success
          then let s = s\<lparr>successes := successes s + 1\<rparr>
               in if successes s \<ge> success_threshold cfg
                  then s\<lparr>circuit := Closed, failures := 0, successes := 0, opened_at := None\<rparr>
                  else s
          else trip now s
   | Open \<Rightarrow> if \<not> success then s\<lparr>opened_at := Some now\<rparr> else s)"

text \<open>The calls a client makes, with the clock reading at which each runs.\<close>

datatype breaker_op = Can_execute nat | On_execution nat bool

text \<open>One call gives its answer, if it has one, and the next state; a sequence of calls gives the
  answers in order.\<close>

fun breaker_io :: "CircuitBreakerConfig \<Rightarrow> State \<Rightarrow> breaker_op \<Rightarrow> (unit, CircuitOpenError) result option \<times> State" where
  "breaker_io cfg s (Can_execute now) = (let (r, s1) = can_execute cfg now s in (Some r, s1))"
| "breaker_io cfg s (On_execution now ok) = (None, on_execution cfg now ok s)"

fun run_io :: "('s \<Rightarrow> 'x \<Rightarrow> 'a \<times> 's) \<Rightarrow> 's \<Rightarrow> 'x list \<Rightarrow> 'a list \<times> 's" where
  "run_io step s [] = ([], s)"
| "run_io step s (x # xs) = (let (a, s1) = step s x; (as, s2) = run_io step s1 xs in (a # as, s2))"

definition breaker_step :: "CircuitBreakerConfig \<Rightarrow> State \<Rightarrow> breaker_op \<Rightarrow> State" where
  "breaker_step cfg s x = snd (breaker_io cfg s x)"

lemma breaker_step_simps [simp]:
  "breaker_step cfg s (Can_execute now) = snd (can_execute cfg now s)"
  "breaker_step cfg s (On_execution now ok) = on_execution cfg now ok s"
  by (simp_all add: breaker_step_def split: prod.split)

lemma run_io_append:
  "run_io step s (xs @ ys) = (let (as, s1) = run_io step s xs; (bs, s2) = run_io step s1 ys in (as @ bs, s2))"
  by (induction xs arbitrary: s) (simp_all add: Let_def split_beta)

lemma snd_run_io: "snd (run_io step s xs) = run (\<lambda>s x. snd (step s x)) s xs"
  by (induction xs arbitrary: s) (simp_all add: Let_def split_beta)

lemmas breaker_defs = can_execute_def on_execution_def trip_def Let_def

section \<open>Invariant\<close>

text \<open>
  The counters stay below their thresholds, an open breaker knows when it opened, and the number of
  admitted trials stays within the bound (one trial is always admitted when the cooldown ends, even
  for \<open>max_half_open = 0\<close>).
\<close>

definition breaker_inv :: "CircuitBreakerConfig \<Rightarrow> State \<Rightarrow> bool" where
  "breaker_inv cfg s \<longleftrightarrow>
     (circuit s = Closed \<longrightarrow> failures s = 0 \<or> failures s < failure_threshold cfg) \<and>
     (circuit s = Open \<longrightarrow> opened_at s \<noteq> None \<and> failures s = 0) \<and>
     (circuit s = HalfOpen \<longrightarrow> (successes s = 0 \<or> successes s < success_threshold cfg) \<and>
        half_open_in_flight s \<le> max 1 (max_half_open cfg))"

lemma breaker_inv_new: "breaker_inv cfg breaker_new"
  by (simp add: breaker_inv_def breaker_new_def)

lemma can_execute_inv:
  assumes "breaker_inv cfg s"
  shows "breaker_inv cfg (snd (can_execute cfg now s))"
  using assms inc_le_word
  by (auto simp: breaker_inv_def can_execute_def le_max_iff_disj split: CircuitState.splits)

lemma on_execution_inv:
  assumes "breaker_inv cfg s"
  shows "breaker_inv cfg (on_execution cfg now ok s)"
  using assms saturating_sub_le [of "half_open_in_flight s" 1]
  by (auto simp: breaker_inv_def breaker_defs not_le split: CircuitState.splits)

interpretation cb: state_machine "\<lambda>s. s = breaker_new" "breaker_step cfg" "breaker_inv cfg"
  for cfg
proof unfold_locales
  show "breaker_inv cfg s" if "s = breaker_new" for s
    using that by (simp add: breaker_inv_new)
  show "breaker_inv cfg (breaker_step cfg s x)" if "breaker_inv cfg s" for s x
    using that by (cases x) (simp_all add: can_execute_inv on_execution_inv)
qed

section \<open>Abstract specification\<close>

text \<open>
  What the breaker promises, over unbounded numbers and with only the data each phase needs: the
  consecutive failures while closed, the opening time while open, the trials in flight and the
  successful trials while half-open. A request is admitted while closed, once the cooldown is over,
  and while fewer than \<open>max_half_open\<close> trials are in flight; it is refused otherwise.
\<close>

datatype phase = Counting nat | Cooling nat | Probing nat nat

fun abs_io :: "CircuitBreakerConfig \<Rightarrow> phase \<Rightarrow> breaker_op \<Rightarrow> (unit, CircuitOpenError) result option \<times> phase" where
  "abs_io cfg (Counting n) (Can_execute now) = (Some (Ok ()), Counting n)"
| "abs_io cfg (Counting n) (On_execution now True) = (None, Counting 0)"
| "abs_io cfg (Counting n) (On_execution now False) =
     (None, if Suc n \<ge> unat (failure_threshold cfg) then Cooling now else Counting (Suc n))"
| "abs_io cfg (Cooling t) (Can_execute now) =
     (if now - t \<ge> timeout cfg then (Some (Ok ()), Probing 1 0)
      else (Some (Err CircuitOpenError), Cooling t))"
| "abs_io cfg (Cooling t) (On_execution now ok) = (None, Cooling (if ok then t else now))"
| "abs_io cfg (Probing p k) (Can_execute now) =
     (if p < unat (max_half_open cfg) then (Some (Ok ()), Probing (Suc p) k)
      else (Some (Err CircuitOpenError), Probing p k))"
| "abs_io cfg (Probing p k) (On_execution now True) =
     (None, if Suc k \<ge> unat (success_threshold cfg) then Counting 0 else Probing (p - 1) (Suc k))"
| "abs_io cfg (Probing p k) (On_execution now False) = (None, Cooling now)"

definition abs_step :: "CircuitBreakerConfig \<Rightarrow> phase \<Rightarrow> breaker_op \<Rightarrow> phase" where
  "abs_step cfg p x = snd (abs_io cfg p x)"

definition abs_phase :: "State \<Rightarrow> phase" where
  "abs_phase s = (case circuit s of
     Closed \<Rightarrow> Counting (unat (failures s))
   | Open \<Rightarrow> Cooling (case opened_at s of None \<Rightarrow> 0 | Some t \<Rightarrow> t)
   | HalfOpen \<Rightarrow> Probing (unat (half_open_in_flight s)) (unat (successes s)))"

text \<open>Below its threshold a counter cannot wrap.\<close>

lemma unat_counter_inc:
  fixes n t :: u32
  assumes "n = 0 \<or> n < t"
  shows "unat (n + 1) = Suc (unat n)"
  using assms by (auto simp: unat_inc)

lemma counter_reaches:
  fixes n t :: u32
  assumes "n = 0 \<or> n < t"
  shows "t \<le> n + 1 \<longleftrightarrow> unat t \<le> Suc (unat n)"
  by (simp add: word_le_nat_alt unat_counter_inc [OF assms])

lemma breaker_io_refines:
  assumes inv: "breaker_inv cfg s"
  shows "map_prod id abs_phase (breaker_io cfg s x) = abs_io cfg (abs_phase s) x"
proof (cases x)
  case (Can_execute now)
  with inv show ?thesis
    by (auto simp: abs_phase_def breaker_defs breaker_inv_def elapsed_def unat_inc
        word_less_nat_alt split: CircuitState.splits)
next
  case (On_execution now ok)
  with inv unat_counter_inc [of "failures s" "failure_threshold cfg"]
    unat_counter_inc [of "successes s" "success_threshold cfg"]
  show ?thesis
    by (cases ok) (auto simp: abs_phase_def breaker_defs breaker_inv_def counter_reaches
        split: CircuitState.splits)
qed

lemma breaker_run_io_refines:
  assumes "breaker_inv cfg s"
  shows "map_prod id abs_phase (run_io (breaker_io cfg) s xs) = run_io (abs_io cfg) (abs_phase s) xs"
  using assms
proof (induction xs arbitrary: s)
  case (Cons x xs)
  obtain a s1 where x: "breaker_io cfg s x = (a, s1)" by fastforce
  have "abs_io cfg (abs_phase s) x = (a, abs_phase s1)"
    using breaker_io_refines [OF Cons.prems, of x] x by simp
  moreover have "breaker_inv cfg s1"
    using cb.step_inv [OF Cons.prems, of x] x by (simp add: breaker_step_def)
  ultimately show ?case
    using Cons.IH [of s1] x by (cases "run_io (breaker_io cfg) s1 xs") (auto simp: Let_def split: prod.splits)
qed simp

lemma breaker_run_refines:
  assumes "breaker_inv cfg s"
  shows "abs_phase (run (breaker_step cfg) s xs) = run (abs_step cfg) (abs_phase s) xs"
  using breaker_run_io_refines [OF assms, THEN arg_cong, of snd]
  by (simp add: snd_run_io breaker_step_def [abs_def] abs_step_def [abs_def])

lemma abs_phase_new [simp]: "abs_phase breaker_new = Counting 0"
  by (simp add: abs_phase_def breaker_new_def)

section \<open>Runs of the abstract machine\<close>

fun failed_reports :: "breaker_op list \<Rightarrow> nat" where
  "failed_reports [] = 0"
| "failed_reports (On_execution now False # xs) = Suc (failed_reports xs)"
| "failed_reports (_ # xs) = failed_reports xs"

definition no_success :: "breaker_op list \<Rightarrow> bool" where
  "no_success xs \<longleftrightarrow> (\<forall>x \<in> set xs. \<forall>now. x \<noteq> On_execution now True)"

lemma no_success_Nil [simp]: "no_success []"
  by (simp add: no_success_def)

lemma no_success_Cons [simp]:
  "no_success (x # xs) \<longleftrightarrow> (\<forall>now. x \<noteq> On_execution now True) \<and> no_success xs"
  by (auto simp: no_success_def)

lemma abs_run_counts:
  assumes "no_success xs" and "n + failed_reports xs < unat (failure_threshold cfg)"
  shows "run (abs_step cfg) (Counting n) xs = Counting (n + failed_reports xs)"
  using assms by (induction xs arbitrary: n rule: failed_reports.induct) (auto simp: abs_step_def)

text \<open>Trials one at a time, each admitted at one moment and reporting success at another.\<close>

definition trials :: "(nat \<times> nat) list \<Rightarrow> breaker_op list" where
  "trials ts = concat (map (\<lambda>(a, b). [Can_execute a, On_execution b True]) ts)"

definition admitted :: "nat \<Rightarrow> (unit, CircuitOpenError) result option list" where
  "admitted n = concat (replicate n [Some (Ok ()), None])"

lemma trials_simps [simp]:
  "trials [] = []" "trials ((a, b) # ts) = Can_execute a # On_execution b True # trials ts"
  by (simp_all add: trials_def)

lemma admitted_simps [simp]:
  "admitted 0 = []" "admitted (Suc n) = Some (Ok ()) # None # admitted n"
  by (simp_all add: admitted_def)

lemma abs_trials_probing:
  assumes "0 < max_half_open cfg" and "k < unat (success_threshold cfg)"
    and "k + length ts \<le> unat (success_threshold cfg)"
  shows "run_io (abs_io cfg) (Probing 0 k) (trials ts) = (admitted (length ts),
    if k + length ts = unat (success_threshold cfg) then Counting 0 else Probing 0 (k + length ts))"
  using assms(2,3)
proof (induction ts arbitrary: k)
  case (Cons x ts)
  obtain a b where x: "x = (a, b)" by fastforce
  have m: "0 < unat (max_half_open cfg)" using assms(1) by (simp add: word_less_nat_alt)
  show ?case
  proof (cases "Suc k < unat (success_threshold cfg)")
    case True
    then show ?thesis using Cons.IH [of "Suc k"] Cons.prems m x by simp
  next
    case False
    then have "length ts = 0" and "unat (success_threshold cfg) = Suc k"
      using Cons.prems unfolding list.size by linarith+
    then show ?thesis using m x by simp
  qed
qed simp

lemma abs_trials_cooling:
  assumes "timeout cfg \<le> a - t" and "0 < max_half_open cfg"
    and "length ((a, b) # ts) \<le> max 1 (unat (success_threshold cfg))"
  shows "run_io (abs_io cfg) (Cooling t) (trials ((a, b) # ts)) = (admitted (Suc (length ts)),
    if Suc (length ts) = max 1 (unat (success_threshold cfg)) then Counting 0
    else Probing 0 (Suc (length ts)))"
proof (cases "1 < unat (success_threshold cfg)")
  case True
  then show ?thesis using assms abs_trials_probing [OF assms(2), of 1 ts] by simp
next
  case False
  then show ?thesis using assms by simp
qed

lemma abs_phase_simps:
  "abs_phase s = Counting n \<longleftrightarrow> circuit s = Closed \<and> unat (failures s) = n"
  "abs_phase s = Probing p k \<longleftrightarrow>
     circuit s = HalfOpen \<and> unat (half_open_in_flight s) = p \<and> unat (successes s) = k"
  by (auto simp: abs_phase_def split: CircuitState.splits)

section \<open>Properties\<close>

text \<open>C6: Whatever sequence of admissions and reports is interleaved, and whatever the clock reads,
  the breaker gives exactly the answers of the abstract three-phase machine over unbounded counters,
  admission or refusal call by call, and its state stands for that machine's phase: in particular
  no \<^verbatim>\<open>u32\<close> counter ever overflows.\<close>

theorem breaker_refines:
  "map_prod id abs_phase (run_io (breaker_io cfg) breaker_new xs) = run_io (abs_io cfg) (Counting 0) xs"
  using breaker_run_io_refines [OF breaker_inv_new] by simp

text \<open>In every reachable state the counted failures stay below the threshold, the
  half-open trial counter never exceeds the configured maximum (or one), and an open breaker has
  recorded when it opened.\<close>

theorem breaker_reachable_inv:
  "breaker_inv cfg (run (breaker_step cfg) breaker_new xs)"
  by (rule cb.reachable_inv) simp

text \<open>While the cooldown runs every admission is refused without changing the state; the first
  request at or after the end of the cooldown is admitted as the single half-open trial.\<close>

theorem breaker_open_rejects_until_timeout:
  assumes "circuit s = Open" and "opened_at s = Some t"
    and "\<forall>now \<in> set ns. now - t < timeout cfg" and "t + timeout cfg \<le> m"
  shows "run (breaker_step cfg) s (map Can_execute ns) = s \<and>
    (\<forall>now \<in> set ns. fst (can_execute cfg now s) = Err CircuitOpenError) \<and>
    fst (can_execute cfg m s) = Ok () \<and> circuit (snd (can_execute cfg m s)) = HalfOpen \<and>
    half_open_in_flight (snd (can_execute cfg m s)) = 1"
proof -
  have reject: "can_execute cfg now s = (Err CircuitOpenError, s)" if "now \<in> set ns" for now
    using assms(1-3) that by (auto simp: can_execute_def elapsed_def)
  have "run (breaker_step cfg) s (map Can_execute ns) = s"
    using reject by (induction ns) simp_all
  moreover have "timeout cfg \<le> m - t" using assms(4) by simp
  ultimately show ?thesis using reject assms(1,2) by (simp add: can_execute_def elapsed_def)
qed

text \<open>Starting closed, fewer than \<open>failure_threshold\<close> failures without an intervening success
  leave the breaker closed, whatever admissions are interleaved, and the failure that reaches the
  threshold opens it at the moment it is reported.\<close>

theorem breaker_trips_at_threshold:
  assumes "no_success xs" and "Suc (failed_reports xs) = unat (failure_threshold cfg)"
  shows "circuit (run (breaker_step cfg) breaker_new xs) = Closed \<and>
    abs_phase (run (breaker_step cfg) breaker_new (xs @ [On_execution now False])) = Cooling now"
proof -
  have "abs_phase (run (breaker_step cfg) breaker_new xs) = Counting (failed_reports xs)"
    using abs_run_counts [of xs 0 cfg] assms
    by (simp add: breaker_run_refines [OF breaker_inv_new])
  moreover have "run (abs_step cfg) (Counting 0) xs = Counting (failed_reports xs)"
    using abs_run_counts [of xs 0 cfg] assms by simp
  ultimately show ?thesis
    using assms(2) breaker_run_refines [OF breaker_inv_new, of cfg "xs @ [On_execution now False]"]
    by (simp add: abs_phase_simps abs_step_def)
qed

text \<open>C31: Once the cooldown has elapsed an open breaker recovers: of trials made one at a time and
  all succeeding, the first after the cooldown, every one is admitted, and the breaker is closed with
  a zero failure count after exactly \<open>success_threshold\<close> of them (one, for a threshold of zero) and
  half-open after fewer.\<close>

theorem breaker_recovers:
  assumes "breaker_inv cfg s" and "circuit s = Open" and "opened_at s = Some t"
    and "timeout cfg \<le> a - t" and "0 < max_half_open cfg"
    and "Suc (length ts) \<le> max 1 (unat (success_threshold cfg))"
    and "run_io (breaker_io cfg) s (trials ((a, b) # ts)) = (answers, s')"
  shows "answers = concat (replicate (Suc (length ts)) [Some (Ok ()), None]) \<and>
    (if Suc (length ts) = max 1 (unat (success_threshold cfg))
     then circuit s' = Closed \<and> failures s' = 0 else circuit s' = HalfOpen)"
proof -
  have abs: "abs_phase s = Cooling t" using assms(2,3) by (simp add: abs_phase_def)
  have "(answers, abs_phase s') = (admitted (Suc (length ts)),
      if Suc (length ts) = max 1 (unat (success_threshold cfg)) then Counting 0
      else Probing 0 (Suc (length ts)))"
    using breaker_run_io_refines [OF assms(1), of "trials ((a, b) # ts)"] assms(6,7)
      abs_trials_cooling [OF assms(4,5), of b ts] abs by simp
  then show ?thesis by (auto simp: abs_phase_simps unsigned_eq_0_iff admitted_def split: if_splits)
qed

theorem breaker_recovers_witness:
  "fst (run_io (breaker_io default_config) (trip 5 breaker_new)
     (trials [(5 + 30 * 1000000000, 70 * 1000000000), (80 * 1000000000, 90 * 1000000000)])) =
     [Some (Ok ()), None, Some (Ok ()), None] \<and>
   circuit (snd (run_io (breaker_io default_config) (trip 5 breaker_new)
     (trials [(5 + 30 * 1000000000, 70 * 1000000000), (80 * 1000000000, 90 * 1000000000)]))) = Closed"
proof -
  obtain r s' where r: "run_io (breaker_io default_config) (trip 5 breaker_new)
     (trials [(5 + 30 * 1000000000, 70 * 1000000000), (80 * 1000000000, 90 * 1000000000)]) = (r, s')"
    by fastforce
  have "unat (success_threshold default_config) = 2" by (simp add: default_config_def)
  then show ?thesis
    using breaker_recovers [OF _ _ _ _ _ _ r, of 5] r
    by (simp add: breaker_inv_def trip_def default_config_def)
qed

text \<open>The trial counter does not know which request a report belongs to. With
  \<open>max_half_open = 1\<close>, the late success of a request admitted while the breaker was still closed is
  counted as the outcome of the running trial, and a second trial is admitted while the first is
  still in flight.\<close>

theorem stale_report_admits_second_trial:
  "let cfg = \<lparr>failure_threshold = 1, success_threshold = 2, max_half_open = 1, timeout = 10\<rparr>;
       s = run (breaker_step cfg) breaker_new
             [Can_execute 0, Can_execute 0, On_execution 1 False, Can_execute 11]
   in circuit s = HalfOpen \<and> half_open_in_flight s = 1 \<and>
      fst (can_execute cfg 12 s) = Err CircuitOpenError \<and>
      fst (can_execute cfg 12 (on_execution cfg 12 True s)) = Ok ()"
  by (simp add: breaker_new_def breaker_defs elapsed_def saturating_sub_def)

end
