(* ===== verification/Retry.thy ===== *)
theory Retry
  imports Prelude
begin

text \<open>
  The retry driver of \<^verbatim>\<open>clients/retry.rs\<close>. A \<^verbatim>\<open>Duration\<close> is its number of nanoseconds. The
  operation is an \<^verbatim>\<open>FnMut\<close>, so it is modelled as a function of a world it may change; the loop
  also records the sleeps it performs.
\<close>

section \<open>Policy\<close>

record RetryPolicy =
  max_retries :: u32
  wait :: nat
  exponential :: bool
  max_backoff :: "nat option"

definition default_policy :: RetryPolicy where
  "default_policy = \<lparr>max_retries = 3, wait = 200 * 1000000, exponential = True,
     max_backoff = Some (10 * 1000000000)\<rparr>"

definition fixed :: "u32 \<Rightarrow> nat \<Rightarrow> RetryPolicy" where
  "fixed n w = \<lparr>max_retries = n, wait = w, exponential = False, max_backoff = None\<rparr>"

text \<open>\<^verbatim>\<open>Duration::MAX\<close> is \<^verbatim>\<open>u64::MAX\<close> seconds and 999999999 nanoseconds.\<close>

definition duration_max :: nat where
  "duration_max = (2 ^ 64 - 1) * 1000000000 + 999999999"

definition saturating_pow2 :: "u32 \<Rightarrow> nat" where
  "saturating_pow2 n = min (2 ^ unat n) (2 ^ 32 - 1)"

definition duration_saturating_mul :: "nat \<Rightarrow> nat \<Rightarrow> nat" where
  "duration_saturating_mul d k = min (d * k) duration_max"

definition backoff_for :: "RetryPolicy \<Rightarrow> u32 \<Rightarrow> nat" where
  "backoff_for p attempt =
     (if \<not> exponential p then wait p
      else let scaled = duration_saturating_mul (wait p) (saturating_pow2 attempt)
           in case max_backoff p of
                Some cap \<Rightarrow> if scaled > cap then cap else scaled
              | None \<Rightarrow> scaled)"

section \<open>The loop\<close>

type_synonym ('w, 't, 'e) operation = "'w \<Rightarrow> ('t, 'e) result \<times> 'w"

function retry_loop ::
  "RetryPolicy \<Rightarrow> ('e \<Rightarrow> bool) \<Rightarrow> ('w, 't, 'e) operation \<Rightarrow> u32 \<Rightarrow> 'w \<Rightarrow>
   ('t, 'e) result \<times> 'w \<times> nat list" where
  "retry_loop p retry_if opn attempt w =
     (case opn w of
        (Ok v, w') \<Rightarrow> (Ok v, w', [])
      | (Err e, w') \<Rightarrow>
          if attempt \<ge> max_retries p \<or> \<not> retry_if e then (Err e, w', [])
          else (case retry_loop p retry_if opn (attempt + 1) w' of
                  (r, w'', sleeps) \<Rightarrow> (r, w'', backoff_for p attempt # sleeps)))"
  by pat_completeness auto
termination
proof (relation "measure (\<lambda>(p, _, _, a, _). unat (max_retries p) - unat a)")
  fix p :: RetryPolicy and retry_if :: "'e \<Rightarrow> bool" and opn :: "('w, 't, 'e) operation"
    and attempt w r w' e
  assume "\<not> (max_retries p \<le> attempt \<or> \<not> retry_if e)"
  then have less: "attempt < max_retries p" by (simp add: not_le)
  then have "unat (attempt + 1) = unat attempt + 1" by (rule unat_inc)
  then show "((p, retry_if, opn, attempt + 1, w'), p, retry_if, opn, attempt, w)
      \<in> measure (\<lambda>(p, _, _, a, _). unat (max_retries p) - unat a)"
    using less by (simp add: word_less_nat_alt)
qed simp

declare retry_loop.simps [simp del]

definition retry ::
  "RetryPolicy \<Rightarrow> ('e \<Rightarrow> bool) \<Rightarrow> ('w, 't, 'e) operation \<Rightarrow> 'w \<Rightarrow>
   ('t, 'e) result \<times> 'w \<times> nat list" where
  "retry p retry_if opn w = retry_loop p retry_if opn 0 w"

section \<open>What the loop computes\<close>

text \<open>\<open>outcome opn w i\<close> is the result of the call number \<open>i\<close> (from zero) when the operation is called
  again and again from world \<open>w\<close>.\<close>

definition world :: "('w, 't, 'e) operation \<Rightarrow> 'w \<Rightarrow> nat \<Rightarrow> 'w" where
  "world opn w i = ((snd \<circ> opn) ^^ i) w"

definition outcome :: "('w, 't, 'e) operation \<Rightarrow> 'w \<Rightarrow> nat \<Rightarrow> ('t, 'e) result" where
  "outcome opn w i = fst (opn (world opn w i))"

lemma world_0 [simp]: "world opn w 0 = w"
  by (simp add: world_def)

lemma world_Suc: "world opn w (Suc i) = world opn (snd (opn w)) i"
  by (simp add: world_def funpow_swap1)

lemma outcome_Suc: "outcome opn w (Suc i) = outcome opn (snd (opn w)) i"
  by (simp add: outcome_def world_Suc)

definition retryable :: "('e \<Rightarrow> bool) \<Rightarrow> ('t, 'e) result \<Rightarrow> bool" where
  "retryable retry_if r \<longleftrightarrow> (case r of Inl e \<Rightarrow> retry_if e | Inr _ \<Rightarrow> False)"

lemma retryable_simps [simp]: "retryable f (Err e) = f e" "\<not> retryable f (Ok v)"
  by (simp_all add: retryable_def)

lemma retry_loop_stop:
  assumes "\<not> retryable retry_if (fst (opn w)) \<or> max_retries p \<le> attempt"
  shows "retry_loop p retry_if opn attempt w = (fst (opn w), snd (opn w), [])"
  using assms by (subst retry_loop.simps) (auto split: prod.splits sum.splits)

lemma retry_loop_again:
  assumes "retryable retry_if (fst (opn w))" and "attempt < max_retries p"
  shows "retry_loop p retry_if opn attempt w =
    (let (r, w', sleeps) = retry_loop p retry_if opn (attempt + 1) (snd (opn w))
     in (r, w', backoff_for p attempt # sleeps))"
  using assms by (subst retry_loop.simps) (auto split: prod.splits sum.splits)

lemma retry_loop_spec:
  "\<exists>n. unat a + n \<le> max (unat a) (unat (max_retries p)) \<and>
     (\<forall>i < n. retryable retry_if (outcome opn w i)) \<and>
     (\<not> retryable retry_if (outcome opn w n) \<or> unat (max_retries p) \<le> unat a + n) \<and>
     retry_loop p retry_if opn a w =
       (outcome opn w n, world opn w (Suc n),
        map (\<lambda>i. backoff_for p (a + of_nat i)) [0..<n])"
proof (induction p retry_if opn a w rule: retry_loop.induct)
  case (1 p retry_if opn a w)
  show ?case
  proof (cases "retryable retry_if (fst (opn w)) \<and> a < max_retries p")
    case False
    then have "retry_loop p retry_if opn a w = (fst (opn w), snd (opn w), [])"
      by (intro retry_loop_stop) auto
    moreover have "\<not> retryable retry_if (outcome opn w 0) \<or> unat (max_retries p) \<le> unat a"
      using False by (auto simp: outcome_def not_less word_le_nat_alt)
    ultimately show ?thesis
      by (intro exI [of _ 0]) (simp add: outcome_def world_Suc)
  next
    case True
    then obtain e w' where opw: "opn w = (Err e, w')" and e: "retry_if e"
      by (cases "opn w"; cases "fst (opn w)") auto
    have inc: "unat (a + 1) = unat a + 1" using True by (intro unat_inc) auto
    have le: "unat a + 1 \<le> unat (max_retries p)"
      using True by (simp add: word_less_nat_alt)
    from "1.IH" [OF opw [symmetric] refl] True e obtain n where
      n: "unat (a + 1) + n \<le> max (unat (a + 1)) (unat (max_retries p))"
      and before: "\<forall>i < n. retryable retry_if (outcome opn w' i)"
      and stop: "\<not> retryable retry_if (outcome opn w' n) \<or> unat (max_retries p) \<le> unat (a + 1) + n"
      and res: "retry_loop p retry_if opn (a + 1) w' =
        (outcome opn w' n, world opn w' (Suc n), map (\<lambda>i. backoff_for p (a + 1 + of_nat i)) [0..<n])"
      by fastforce
    have "\<forall>i < Suc n. retryable retry_if (outcome opn w i)"
      using before opw e by (auto simp: less_Suc_eq_0_disj outcome_Suc outcome_def [of opn w 0])
    moreover have "map (\<lambda>i. backoff_for p (a + of_nat i)) [0..<Suc n] =
        backoff_for p a # map (\<lambda>i. backoff_for p (a + 1 + of_nat i)) [0..<n]"
      by (simp add: upt_conv_Cons map_Suc_upt [symmetric] add.assoc del: upt_Suc)
    moreover have "world opn w (Suc (Suc n)) = world opn w' (Suc n)"
      using opw by (simp add: world_Suc)
    ultimately show ?thesis
      using n stop inc le res True opw retry_loop_again [of retry_if opn w a p]
      by (intro exI [of _ "Suc n"]) (simp add: outcome_Suc)
  qed
qed

section \<open>Properties\<close>

text \<open>C7: \<open>retry\<close> calls the operation \<open>n + 1\<close> times for some \<open>n\<close> of at most \<open>max_retries\<close>: the first
  \<open>n\<close> outcomes are retryable errors, the last one is returned, and it is a success, an error the
  predicate refuses to retry, or the outcome after the last allowed retry. Between the calls it
  sleeps the back-off of the retries \<open>0, 1, \<dots>, n - 1\<close> in this order.\<close>

theorem retry_correct:
  "\<exists>n \<le> unat (max_retries p).
     (\<forall>i < n. retryable retry_if (outcome opn w i)) \<and>
     (\<not> retryable retry_if (outcome opn w n) \<or> n = unat (max_retries p)) \<and>
     retry p retry_if opn w =
       (outcome opn w n, world opn w (Suc n), map (\<lambda>i. backoff_for p (of_nat i)) [0..<n])"
  using retry_loop_spec [of 0 p retry_if opn w] by (auto simp: retry_def)

definition flaky :: "(nat, nat, unit) operation" where
  "flaky w = (if w < 2 then Err () else Ok w, Suc w)"

theorem retry_correct_witness:
  "retry (fixed 5 7) (\<lambda>_. True) flaky 0 = (Ok 2, 3, [7, 7])"
proof -
  have w: "world flaky 0 i = i" for i
    by (induction i) (simp_all add: world_def flaky_def)
  have o: "outcome flaky 0 i = (if i < 2 then Err () else Ok i)" for i
    by (simp add: outcome_def w flaky_def)
  from retry_correct [of "fixed 5 7" "\<lambda>_. True" flaky 0] obtain n where
    n: "\<forall>i < n. retryable (\<lambda>_. True) (outcome flaky 0 i)"
      "\<not> retryable (\<lambda>_. True) (outcome flaky 0 n) \<or> n = unat (max_retries (fixed 5 7))"
    and res: "retry (fixed 5 7) (\<lambda>_. True) flaky 0 =
      (outcome flaky 0 n, world flaky 0 (Suc n), map (\<lambda>i. backoff_for (fixed 5 7) (of_nat i)) [0..<n])"
    by blast
  have "n = 2"
    using n(1) [rule_format, of 2] n(2)
    by (cases n "2::nat" rule: linorder_cases) (auto simp: o fixed_def split: if_splits)
  then show ?thesis
    using res by (simp add: o w backoff_for_def fixed_def numeral_2_eq_2 upt_rec)
qed

text \<open>The back-off before retry \<open>n\<close> is the doubled wait, saturated at the largest duration and
  limited by the cap; it never decreases from one retry to the next.\<close>

theorem backoff_bounds:
  assumes "exponential p" and "max_backoff p = Some cap"
  shows "backoff_for p n \<le> cap \<and> backoff_for p n \<le> wait p * 2 ^ unat n \<and>
    (n \<le> m \<longrightarrow> backoff_for p n \<le> backoff_for p m) \<and>
    (unat n < 32 \<and> wait p * 2 ^ unat n \<le> min cap duration_max \<longrightarrow>
       backoff_for p n = wait p * 2 ^ unat n)"
proof -
  have b: "backoff_for p k = min cap (duration_saturating_mul (wait p) (saturating_pow2 k))" for k
    using assms by (auto simp: backoff_for_def Let_def min_def)
  have mono: "duration_saturating_mul (wait p) (saturating_pow2 n) \<le>
      duration_saturating_mul (wait p) (saturating_pow2 m)" if "n \<le> m"
  proof -
    have "(2::nat) ^ unat n \<le> 2 ^ unat m"
      using that by (simp add: word_le_nat_alt)
    then have "saturating_pow2 n \<le> saturating_pow2 m"
      unfolding saturating_pow2_def by (rule min.mono) simp
    then have "wait p * saturating_pow2 n \<le> wait p * saturating_pow2 m" by (rule mult_le_mono2)
    then show ?thesis unfolding duration_saturating_mul_def by (rule min.mono) simp
  qed
  have exact: "saturating_pow2 n = 2 ^ unat n" if "unat n < 32"
    using power_increasing [of "unat n" 31 "2::nat"] that
    by (auto simp: saturating_pow2_def min_def)
  have "wait p * saturating_pow2 n \<le> wait p * 2 ^ unat n"
    by (rule mult_le_mono2) (simp add: saturating_pow2_def)
  then have "duration_saturating_mul (wait p) (saturating_pow2 n) \<le> wait p * 2 ^ unat n"
    by (simp add: duration_saturating_mul_def min.coboundedI1)
  then show ?thesis
    unfolding b using mono exact
    by (auto simp: duration_saturating_mul_def intro: min.coboundedI2 min.mono)
qed

end
