(* ===== verification/Lifecycle_Graph.thy ===== *)
theory Lifecycle_Graph
  imports Prelude "HOL-Library.Char_ord" "HOL-Library.List_Lexorder" "HOL-Library.Multiset"
begin

text \<open>
  The dependency graph of \<^verbatim>\<open>lifecycle/manager.rs\<close>: Kahn's algorithm and the two closures. A
  \<^verbatim>\<open>HashMap\<close> is an association list with distinct keys and a \<^verbatim>\<open>HashSet\<close> a distinct list; the order of
  the list stands for the unspecified iteration order, so every theorem holds for all orders.
  A panic (\<^verbatim>\<open>unwrap\<close> on a missing key, \<^verbatim>\<open>usize\<close> underflow) is the value \<open>None\<close>.
\<close>

lemma sort_distinct: "distinct xs \<Longrightarrow> sort xs = sorted_list_of_set (set xs)"
  using sorted_list_of_set_sort_remdups [of xs] by (simp add: distinct_remdups_id)

section \<open>The graph\<close>

type_synonym id = string
type_synonym deps = "(id \<times> id list) list"

definition deps_of :: "deps \<Rightarrow> id \<Rightarrow> id list" where
  "deps_of deps n = (case map_of deps n of None \<Rightarrow> [] | Some ds \<Rightarrow> ds)"

definition nodes :: "deps \<Rightarrow> id set" where
  "nodes deps = fst ` set deps \<union> (\<Union>(k, ds) \<in> set deps. set ds)"

definition wf_deps :: "deps \<Rightarrow> bool" where
  "wf_deps deps \<longleftrightarrow> distinct (map fst deps) \<and> (\<forall>(k, ds) \<in> set deps. distinct ds)"

text \<open>The edge \<open>(a, b)\<close> reads: \<open>a\<close> depends on \<open>b\<close>.\<close>

definition edges :: "deps \<Rightarrow> (id \<times> id) set" where
  "edges deps = {(a, b). b \<in> set (deps_of deps a)}"

lemma deps_of_Cons:
  "deps_of ((k, ds) # deps) n = (if n = k then ds else deps_of deps n)"
  by (simp add: deps_of_def)

lemma deps_of_Nil [simp]: "deps_of [] n = []"
  by (simp add: deps_of_def)

lemma deps_of_mem:
  assumes "distinct (map fst deps)" and "(k, ds) \<in> set deps"
  shows "deps_of deps k = ds"
  using assms by (simp add: deps_of_def)

lemma deps_of_not_key: "n \<notin> fst ` set deps \<Longrightarrow> deps_of deps n = []"
  by (simp add: deps_of_def map_of_eq_None_iff [THEN iffD2] split: option.splits)

lemma key_in_nodes: "n \<in> fst ` set deps \<Longrightarrow> n \<in> nodes deps"
  by (simp add: nodes_def)

lemma deps_of_not_node: "n \<notin> nodes deps \<Longrightarrow> deps_of deps n = []"
  using key_in_nodes deps_of_not_key by blast

lemma deps_of_nodes:
  assumes "d \<in> set (deps_of deps n)"
  shows "d \<in> nodes deps \<and> n \<in> nodes deps"
proof -
  from assms obtain ds where "map_of deps n = Some ds" and "d \<in> set ds"
    by (cases "map_of deps n") (auto simp: deps_of_def)
  then have "(n, ds) \<in> set deps" and "d \<in> set ds" by (auto dest: map_of_SomeD)
  then show ?thesis by (force simp: nodes_def)
qed

lemma finite_nodes [simp]: "finite (nodes deps)"
  by (auto simp: nodes_def)

lemma edges_nodes: "edges deps \<subseteq> nodes deps \<times> nodes deps"
  by (auto simp: edges_def dest: deps_of_nodes)

lemma finite_edges [simp]: "finite (edges deps)"
  by (rule finite_subset [OF edges_nodes]) simp

lemma distinct_deps_of: "wf_deps deps \<Longrightarrow> distinct (deps_of deps n)"
  by (auto simp: wf_deps_def deps_of_def split: option.splits dest: map_of_SomeD)

section \<open>Kahn's algorithm\<close>

definition or_insert :: "'k \<Rightarrow> 'v \<Rightarrow> ('k \<times> 'v) list \<Rightarrow> ('k \<times> 'v) list" where
  "or_insert k v m = (if map_of m k = None then AList.update k v m else m)"

definition get_or :: "'v \<Rightarrow> ('k \<times> 'v) list \<Rightarrow> 'k \<Rightarrow> 'v" where
  "get_or v m k = (case map_of m k of None \<Rightarrow> v | Some x \<Rightarrow> x)"

type_synonym degrees = "(id \<times> nat) list"
type_synonym dependents = "(id \<times> id list) list"

text \<open>The body of the inner loop that builds \<^verbatim>\<open>in_degree\<close> and \<^verbatim>\<open>dependents\<close>.\<close>

definition add_edge :: "id \<Rightarrow> id \<Rightarrow> degrees \<times> dependents \<Rightarrow> degrees \<times> dependents" where
  "add_edge k d s =
     (let indeg = AList.update k (get_or 0 (fst s) k + 1) (fst s);
          dependents = AList.update d (get_or [] (snd s) d @ [k]) (snd s)
      in (or_insert d 0 indeg, dependents))"

definition add_node :: "id \<times> id list \<Rightarrow> degrees \<times> dependents \<Rightarrow> degrees \<times> dependents" where
  "add_node e s = fold (add_edge (fst e)) (snd e) (or_insert (fst e) 0 (fst s), snd s)"

definition build_degrees :: "deps \<Rightarrow> degrees \<times> dependents" where
  "build_degrees deps = fold add_node deps ([], [])"

text \<open>The loop over the dependents of a popped node: decrement each, collect those that reach zero.\<close>

fun release :: "id list \<Rightarrow> degrees \<Rightarrow> id list \<Rightarrow> (degrees \<times> id list) option" where
  "release [] indeg ready = Some (indeg, ready)"
| "release (m # ms) indeg ready =
     (case map_of indeg m of
        None \<Rightarrow> None
      | Some 0 \<Rightarrow> None
      | Some (Suc e) \<Rightarrow>
          release ms (AList.update m e indeg) (if e = 0 then ready @ [m] else ready))"

definition positive :: "degrees \<Rightarrow> nat" where
  "positive indeg = length (filter (\<lambda>(_, e). 0 < e) indeg)"

lemma positive_update:
  assumes "map_of indeg m = Some (Suc e)"
  shows "positive (AList.update m e indeg) + (if e = 0 then 1 else 0) = positive indeg"
  using assms by (induction indeg) (auto simp: positive_def split: if_splits)

lemma release_positive:
  assumes "release ms indeg ready = Some (indeg', ready')"
  shows "positive indeg' + length ready' = positive indeg + length ready"
  using assms
proof (induction ms arbitrary: indeg ready)
  case (Cons m ms)
  then obtain e where e: "map_of indeg m = Some (Suc e)"
    and rel: "release ms (AList.update m e indeg) (if e = 0 then ready @ [m] else ready) =
      Some (indeg', ready')"
    by (auto split: option.splits nat.splits)
  show ?case using Cons.IH [OF rel] positive_update [OF e] by (auto split: if_splits)
qed simp

text \<open>Each iteration pops one node; a node enters the queue when its degree leaves the positives.\<close>

function kahn :: "dependents \<Rightarrow> id list \<Rightarrow> degrees \<Rightarrow> id list \<Rightarrow> (degrees \<times> id list) option" where
  "kahn dependents [] indeg order = Some (indeg, order)"
| "kahn dependents (n # queue) indeg order =
     (case map_of dependents n of
        None \<Rightarrow> kahn dependents queue indeg (order @ [n])
      | Some ms \<Rightarrow>
          (case release ms indeg [] of
             None \<Rightarrow> None
           | Some (indeg', ready) \<Rightarrow>
               kahn dependents (queue @ sort ready) indeg' (order @ [n])))"
  by pat_completeness auto
termination
  by (relation "measure (\<lambda>(_, queue, indeg, _). length queue + positive indeg)")
    (auto dest!: release_positive)

datatype LifecycleError =
    ComponentNotFound id
  | ComponentAlreadyStarted id
  | CyclicDependency string
  | Timeout id
  | ComponentFailure id string

fun join :: "string \<Rightarrow> string list \<Rightarrow> string" where
  "join sep [] = []"
| "join sep [x] = x"
| "join sep (x # y # xs) = x @ sep @ join sep (y # xs)"

definition seed :: "degrees \<Rightarrow> id list" where
  "seed indeg = sort (map fst (filter (\<lambda>(_, d). d = 0) indeg))"

definition topo_order :: "deps \<Rightarrow> (id list, LifecycleError) result option" where
  "topo_order deps =
     (let (indeg, dependents) = build_degrees deps
      in case kahn dependents (seed indeg) indeg [] of
           None \<Rightarrow> None
         | Some (indeg', order) \<Rightarrow>
             Some (if length order \<noteq> length indeg'
                   then Err (CyclicDependency (join '', ''
                          (map fst (filter (\<lambda>(_, d). d > 0) indeg'))))
                   else Ok order))"

section \<open>The degree tables represent the graph\<close>

definition rdeps :: "deps \<Rightarrow> id \<Rightarrow> id list" where
  "rdeps deps d = map fst (filter (\<lambda>(k, ds). d \<in> set ds) deps)"

definition represents :: "degrees \<times> dependents \<Rightarrow> deps \<Rightarrow> bool" where
  "represents s deps \<longleftrightarrow> distinct (map fst (fst s)) \<and>
     (\<forall>n. map_of (fst s) n = (if n \<in> nodes deps then Some (length (deps_of deps n)) else None)) \<and>
     (\<forall>d. get_or [] (snd s) d = rdeps deps d)"

lemma nodes_snoc: "nodes (ps @ [(k, ds)]) = insert k (nodes ps \<union> set ds)"
  by (auto simp: nodes_def)

lemma deps_of_snoc:
  "deps_of (ps @ [(k, ds)]) n =
     (if n \<in> fst ` set ps then deps_of ps n else if n = k then ds else [])"
  by (auto simp: deps_of_def map_of_eq_None_iff map_add_def split: option.splits
      dest: map_of_SomeD)
    (metis map_of_eq_None_iff option.distinct(1))+

lemma rdeps_snoc: "rdeps (ps @ [(k, ds)]) d = rdeps ps d @ (if d \<in> set ds then [k] else [])"
  by (simp add: rdeps_def)

lemma map_of_or_insert: "map_of (or_insert k v m) = (case map_of m k of None \<Rightarrow> (map_of m)(k \<mapsto> v) | Some _ \<Rightarrow> map_of m)"
  by (simp add: or_insert_def update_conv' split: option.splits)

lemma distinct_or_insert: "distinct (map fst m) \<Longrightarrow> distinct (map fst (or_insert k v m))"
  by (simp add: or_insert_def distinct_update)

lemma get_or_update: "get_or v (AList.update k x m) j = (if j = k then x else get_or v m j)"
  by (simp add: get_or_def update_conv')

lemma represents_node:
  assumes "represents s ps" and "k \<notin> fst ` set ps"
  shows "represents (or_insert k 0 (fst s), snd s) (ps @ [(k, [])])"
  using assms
  by (auto simp: represents_def map_of_or_insert nodes_snoc deps_of_snoc rdeps_snoc
      distinct_or_insert deps_of_not_key split: option.splits if_splits)

lemma represents_edge:
  assumes "represents s (ps @ [(k, es)])" and "k \<notin> fst ` set ps" and "d \<notin> set es"
  shows "represents (add_edge k d s) (ps @ [(k, es @ [d])])"
proof -
  have keys: "k \<in> nodes (ps @ [(k, es)])" by (simp add: nodes_snoc)
  have "distinct (map fst (fst (add_edge k d s)))"
    using assms(1) by (simp add: represents_def add_edge_def Let_def distinct_or_insert distinct_update)
  moreover have "map_of (fst (add_edge k d s)) n =
      (if n \<in> nodes (ps @ [(k, es @ [d])]) then Some (length (deps_of (ps @ [(k, es @ [d])]) n))
       else None)" for n
    using assms keys
    by (auto simp: represents_def add_edge_def Let_def map_of_or_insert update_conv' get_or_def
        nodes_snoc deps_of_snoc deps_of_not_key deps_of_not_node split: option.splits if_splits)
  moreover have "get_or [] (snd (add_edge k d s)) x = rdeps (ps @ [(k, es @ [d])]) x" for x
    using assms by (auto simp: represents_def add_edge_def Let_def get_or_update rdeps_snoc)
  ultimately show ?thesis by (simp add: represents_def)
qed

lemma represents_edges:
  assumes "represents s (ps @ [(k, es)])" and "k \<notin> fst ` set ps" and "distinct (es @ ds)"
  shows "represents (fold (add_edge k) ds s) (ps @ [(k, es @ ds)])"
  using assms
proof (induction ds arbitrary: es s)
  case (Cons d ds)
  then have "represents (add_edge k d s) (ps @ [(k, es @ [d])])"
    by (intro represents_edge) auto
  then show ?case using Cons.IH [of "add_edge k d s" "es @ [d]"] Cons.prems by simp
qed simp

lemma represents_build:
  assumes "wf_deps deps"
  shows "represents (build_degrees deps) deps"
  using assms
proof (induction deps rule: rev_induct)
  case Nil
  show ?case by (simp add: represents_def build_degrees_def nodes_def get_or_def rdeps_def)
next
  case (snoc e ps)
  obtain k ds where e: "e = (k, ds)" by (cases e)
  from snoc.prems have wf: "wf_deps ps" "k \<notin> fst ` set ps" "distinct ds"
    by (auto simp: wf_deps_def e)
  have "represents (or_insert k 0 (fst (build_degrees ps)), snd (build_degrees ps)) (ps @ [(k, [])])"
    using wf snoc.IH by (intro represents_node)
  then show ?case
    using represents_edges [of _ ps k "[]" ds] wf
    by (simp add: build_degrees_def add_node_def e)
qed

section \<open>Correctness of the main loop\<close>

definition kahn_inv :: "deps \<Rightarrow> id list \<Rightarrow> degrees \<Rightarrow> id list \<Rightarrow> bool" where
  "kahn_inv deps queue indeg order \<longleftrightarrow>
     distinct (order @ queue) \<and> distinct (map fst indeg) \<and>
     (\<forall>n. map_of indeg n =
        (if n \<in> nodes deps then Some (card (set (deps_of deps n) - set order)) else None)) \<and>
     (\<forall>n. n \<in> set order \<union> set queue \<longleftrightarrow> n \<in> nodes deps \<and> set (deps_of deps n) \<subseteq> set order) \<and>
     (\<forall>i < length order. set (deps_of deps (order ! i)) \<subseteq> set (take i order))"

lemma release_spec:
  assumes "distinct ms" and "\<forall>m \<in> set ms. \<exists>e. map_of indeg m = Some (Suc e)"
    and "distinct (map fst indeg)"
  shows "\<exists>indeg'. release ms indeg ready =
      Some (indeg', ready @ filter (\<lambda>m. map_of indeg m = Some 1) ms) \<and>
    map_of indeg' = (\<lambda>n. if n \<in> set ms then map_option (\<lambda>e. e - 1) (map_of indeg n) else map_of indeg n) \<and>
    distinct (map fst indeg')"
  using assms
proof (induction ms arbitrary: indeg ready)
  case (Cons m ms)
  then obtain e where e: "map_of indeg m = Some (Suc e)" by auto
  have upd: "map_of (AList.update m e indeg) n = map_of indeg n" if "n \<in> set ms" for n
    using that Cons.prems(1) by (auto simp: update_conv')
  have "\<exists>indeg'. release ms (AList.update m e indeg) (if e = 0 then ready @ [m] else ready) =
      Some (indeg', (if e = 0 then ready @ [m] else ready) @
        filter (\<lambda>m'. map_of (AList.update m e indeg) m' = Some 1) ms) \<and>
    map_of indeg' = (\<lambda>n. if n \<in> set ms then map_option (\<lambda>e. e - 1) (map_of (AList.update m e indeg) n)
      else map_of (AList.update m e indeg) n) \<and> distinct (map fst indeg')"
    using Cons.prems upd by (intro Cons.IH) (auto simp: distinct_update)
  moreover have "filter (\<lambda>m'. map_of (AList.update m e indeg) m' = Some 1) ms =
      filter (\<lambda>m'. map_of indeg m' = Some 1) ms"
    using upd by (intro filter_cong) auto
  ultimately show ?case
    using e Cons.prems(1) by (auto simp: update_conv' fun_eq_iff)
qed simp

lemma set_rdeps: "wf_deps deps \<Longrightarrow> set (rdeps deps n) = {m. n \<in> set (deps_of deps m)}"
  by (force simp: rdeps_def wf_deps_def deps_of_def split: option.splits dest: map_of_SomeD)

lemma distinct_rdeps: "wf_deps deps \<Longrightarrow> distinct (rdeps deps n)"
  by (auto simp: rdeps_def wf_deps_def distinct_map intro: inj_on_subset)

text \<open>The nodes released by \<open>n\<close>, as a function of the graph alone.\<close>

definition released :: "deps \<Rightarrow> id list \<Rightarrow> id \<Rightarrow> id set" where
  "released deps order n =
     {m. n \<in> set (deps_of deps m) \<and> set (deps_of deps m) \<subseteq> insert n (set order)}"

lemma kahn_unfold:
  assumes "\<And>d. get_or [] dependents d = rdeps deps d"
  shows "kahn dependents (n # queue) indeg order =
    (case release (rdeps deps n) indeg [] of None \<Rightarrow> None
     | Some (indeg', ready) \<Rightarrow> kahn dependents (queue @ sort ready) indeg' (order @ [n]))"
  using assms [of n] by (auto simp: get_or_def split: option.splits)

lemma kahn_step:
  assumes inv: "kahn_inv deps (n # queue) indeg order" and wf: "wf_deps deps"
    and rep: "\<And>d. get_or [] dependents d = rdeps deps d"
  shows "\<exists>indeg'. kahn dependents (n # queue) indeg order =
      kahn dependents (queue @ sorted_list_of_set (released deps order n)) indeg' (order @ [n]) \<and>
    kahn_inv deps (queue @ sorted_list_of_set (released deps order n)) indeg' (order @ [n])"
proof -
  let ?D = "\<lambda>m. set (deps_of deps m)" and ?ms = "rdeps deps n"
  from inv have dist: "distinct (order @ n # queue)" "distinct (map fst indeg)"
    and deg: "\<And>m. map_of indeg m = (if m \<in> nodes deps then Some (card (?D m - set order)) else None)"
    and mem: "\<And>m. m \<in> set order \<union> set (n # queue) \<longleftrightarrow> m \<in> nodes deps \<and> ?D m \<subseteq> set order"
    and first: "\<forall>i < length order. ?D (order ! i) \<subseteq> set (take i order)"
    by (auto simp: kahn_inv_def)
  have ms: "set ?ms = {m. n \<in> ?D m}" "distinct ?ms"
    using wf by (simp_all add: set_rdeps distinct_rdeps)
  have pos: "card (?D m - set order) = Suc (card (?D m - set (order @ [n])))" if "n \<in> ?D m" for m
  proof -
    have "?D m - set order = insert n (?D m - set (order @ [n]))" using that dist(1) by auto
    then have "card (?D m - set order) = card (insert n (?D m - set (order @ [n])))"
      by (rule arg_cong)
    also have "\<dots> = Suc (card (?D m - set (order @ [n])))" by simp
    finally show ?thesis .
  qed
  have degm: "map_of indeg m = Some (Suc (card (?D m - set (order @ [n]))))" if "n \<in> ?D m" for m
    using deg [of m] pos [OF that] deps_of_nodes [OF that] by simp
  then have "\<forall>m \<in> set ?ms. \<exists>e. map_of indeg m = Some (Suc e)"
    using ms(1) by blast
  then obtain indeg' where
    rel: "release ?ms indeg [] = Some (indeg', filter (\<lambda>m. map_of indeg m = Some 1) ?ms)"
    and deg': "map_of indeg' =
      (\<lambda>m. if m \<in> set ?ms then map_option (\<lambda>e. e - 1) (map_of indeg m) else map_of indeg m)"
    and dist': "distinct (map fst indeg')"
    using release_spec [OF ms(2) _ dist(2), of "[]"] by auto
  let ?ready = "filter (\<lambda>m. map_of indeg m = Some 1) ?ms"
  have "map_of indeg m = Some 1 \<longleftrightarrow> ?D m \<subseteq> insert n (set order)" if "n \<in> ?D m" for m
    using degm [OF that] by auto
  then have ready: "set ?ready = released deps order n"
    using ms(1) by (auto simp: released_def)
  have "sort ?ready = sorted_list_of_set (released deps order n)"
    unfolding ready [symmetric] using ms(2) by (intro sort_distinct) simp
  then have run: "kahn dependents (n # queue) indeg order =
      kahn dependents (queue @ sorted_list_of_set (released deps order n)) indeg' (order @ [n])"
    using rel kahn_unfold [OF rep] by simp
  have fin: "finite (released deps order n)" using ready by (metis List.finite_set)
  have "map_of indeg' m = (if m \<in> nodes deps then Some (card (?D m - set (order @ [n]))) else None)" for m
    using deg [of m] deg' ms(1) pos [of m] deps_of_nodes [of n deps m]
    by (cases "n \<in> ?D m") simp_all
  moreover have "m \<in> set (order @ [n]) \<union> set (queue @ sorted_list_of_set (released deps order n)) \<longleftrightarrow>
      m \<in> nodes deps \<and> ?D m \<subseteq> set (order @ [n])" for m
    using mem [of m] fin deps_of_nodes [of n deps m] by (auto simp: released_def)
  moreover have "distinct ((order @ [n]) @ queue @ sorted_list_of_set (released deps order n))"
    using dist(1) mem fin by (auto simp: released_def)
  moreover have "\<forall>i < length (order @ [n]). ?D ((order @ [n]) ! i) \<subseteq> set (take i (order @ [n]))"
    using first mem [of n] by (auto simp: nth_append less_Suc_eq)
  ultimately have "kahn_inv deps (queue @ sorted_list_of_set (released deps order n)) indeg' (order @ [n])"
    unfolding kahn_inv_def using dist' by blast
  with run show ?thesis by blast
qed

text \<open>The loop never panics, and ends in a state that still satisfies the invariant.\<close>

lemma kahn_total:
  assumes "kahn_inv deps queue indeg order" and "wf_deps deps"
    and rep: "\<And>d. get_or [] dependents d = rdeps deps d"
  shows "\<exists>indeg' order'. kahn dependents queue indeg order = Some (indeg', order') \<and>
    kahn_inv deps [] indeg' order'"
  using assms(1,2)
proof (induction "card (nodes deps - set order)" arbitrary: queue indeg order rule: less_induct)
  case less
  show ?case
  proof (cases queue)
    case Nil
    with less.prems show ?thesis by simp
  next
    case (Cons n q)
    obtain indeg' where step: "kahn dependents queue indeg order =
        kahn dependents (q @ sorted_list_of_set (released deps order n)) indeg' (order @ [n])"
      and inv: "kahn_inv deps (q @ sorted_list_of_set (released deps order n)) indeg' (order @ [n])"
      using kahn_step [OF _ less.prems(2) rep, of n q indeg order] less.prems(1) Cons by blast
    have "n \<in> nodes deps - set order" using less.prems(1) Cons by (auto simp: kahn_inv_def)
    then have "card (nodes deps - set (order @ [n])) < card (nodes deps - set order)"
      by (intro psubset_card_mono) auto
    from less.hyps [OF this inv less.prems(2)] step show ?thesis by simp
  qed
qed

lemma kahn_deterministic:
  assumes "kahn_inv deps queue indeg order" and "kahn_inv deps' queue indeg' order"
    and wf: "wf_deps deps" "wf_deps deps'"
    and same: "nodes deps = nodes deps'" "\<And>n. set (deps_of deps n) = set (deps_of deps' n)"
    and rep: "\<And>d. get_or [] dependents d = rdeps deps d"
      "\<And>d. get_or [] dependents' d = rdeps deps' d"
  shows "map_option snd (kahn dependents queue indeg order) =
    map_option snd (kahn dependents' queue indeg' order)"
  using assms(1,2)
proof (induction "card (nodes deps - set order)" arbitrary: queue indeg indeg' order rule: less_induct)
  case less
  show ?case
  proof (cases queue)
    case (Cons n q)
    let ?q = "q @ sorted_list_of_set (released deps order n)"
    have rel: "released deps order n = released deps' order n"
      using same(2) by (simp add: released_def)
    obtain i where i: "kahn dependents queue indeg order = kahn dependents ?q i (order @ [n])"
      "kahn_inv deps ?q i (order @ [n])"
      using kahn_step [OF _ wf(1) rep(1), of n q indeg order] less.prems(1) Cons by blast
    obtain i' where i': "kahn dependents' queue indeg' order = kahn dependents' ?q i' (order @ [n])"
      "kahn_inv deps' ?q i' (order @ [n])"
      using kahn_step [OF _ wf(2) rep(2), of n q indeg' order] less.prems(2) Cons rel by auto
    have "n \<in> nodes deps - set order" using less.prems(1) Cons by (auto simp: kahn_inv_def)
    then have "card (nodes deps - set (order @ [n])) < card (nodes deps - set order)"
      by (intro psubset_card_mono) auto
    from less.hyps [OF this i(2) i'(2)] i(1) i'(1) show ?thesis by simp
  qed simp
qed

lemma seed_eq:
  assumes "represents s deps"
  shows "seed (fst s) = sorted_list_of_set {n \<in> nodes deps. deps_of deps n = []}"
proof -
  let ?l = "map fst (filter (\<lambda>(_, d). d = 0) (fst s))"
  from assms have d: "distinct (map fst (fst s))" by (simp add: represents_def)
  have mem: "n \<in> set ?l \<longleftrightarrow> map_of (fst s) n = Some 0" for n
    using d by (force simp: map_of_eq_Some_iff)
  have rep: "map_of (fst s) n = (if n \<in> nodes deps then Some (length (deps_of deps n)) else None)" for n
    using assms by (simp add: represents_def)
  have "n \<in> set ?l \<longleftrightarrow> n \<in> nodes deps \<and> deps_of deps n = []" for n
    unfolding mem rep by simp
  then have "set ?l = {n \<in> nodes deps. deps_of deps n = []}" by blast
  moreover have "distinct ?l" using d by (metis distinct_map_filter)
  ultimately show ?thesis unfolding seed_def by (simp only: sort_distinct)
qed

lemma kahn_inv_start:
  assumes "represents s deps" and "wf_deps deps"
  shows "kahn_inv deps (seed (fst s)) (fst s) []"
proof -
  have "card (set (deps_of deps n)) = length (deps_of deps n)" for n
    using assms(2) by (intro distinct_card distinct_deps_of)
  then show ?thesis
    using assms(1) unfolding kahn_inv_def seed_eq [OF assms(1)] by (simp add: represents_def)
qed

section \<open>The contract of the ordering\<close>

definition deps_first :: "deps \<Rightarrow> id list \<Rightarrow> bool" where
  "deps_first deps order \<longleftrightarrow>
     (\<forall>i < length order. \<forall>d \<in> set (deps_of deps (order ! i)). d \<in> set (take i order))"

lemma kahn_final:
  assumes "kahn_inv deps [] indeg order"
  shows "distinct order" "deps_first deps order" "set order \<subseteq> nodes deps"
    and "n \<in> nodes deps \<Longrightarrow> set (deps_of deps n) \<subseteq> set order \<Longrightarrow> n \<in> set order"
    and "distinct (map fst indeg)" "set (map fst indeg) = nodes deps"
proof -
  from assms have mem: "\<And>n. n \<in> set order \<longleftrightarrow> n \<in> nodes deps \<and> set (deps_of deps n) \<subseteq> set order"
    and keys: "\<And>n. map_of indeg n =
      (if n \<in> nodes deps then Some (card (set (deps_of deps n) - set order)) else None)"
    and first: "\<And>i. i < length order \<Longrightarrow> set (deps_of deps (order ! i)) \<subseteq> set (take i order)"
    by (simp_all add: kahn_inv_def)
  show "distinct order" "distinct (map fst indeg)" using assms by (simp_all add: kahn_inv_def)
  show "deps_first deps order" using first by (auto simp: deps_first_def)
  show "set order \<subseteq> nodes deps" using mem by blast
  show "n \<in> nodes deps \<Longrightarrow> set (deps_of deps n) \<subseteq> set order \<Longrightarrow> n \<in> set order" using mem by blast
  have "n \<in> set (map fst indeg) \<longleftrightarrow> map_of indeg n \<noteq> None" for n
    by (simp add: map_of_eq_None_iff)
  then have "n \<in> set (map fst indeg) \<longleftrightarrow> n \<in> nodes deps" for n
    unfolding keys by simp
  then show "set (map fst indeg) = nodes deps" by blast
qed

lemma kahn_complete:
  assumes inv: "kahn_inv deps [] indeg order" and acyc: "acyclic (edges deps)"
  shows "set order = nodes deps"
proof (rule ccontr)
  assume "set order \<noteq> nodes deps"
  then obtain x where x: "x \<in> nodes deps - set order" using kahn_final(3) [OF inv] by blast
  have "wf ((edges deps)\<inverse>)"
    using acyc by (intro finite_acyclic_wf) (auto simp: acyclic_converse)
  then obtain z where z: "z \<in> nodes deps - set order"
    and min: "\<And>y. (y, z) \<in> (edges deps)\<inverse> \<Longrightarrow> y \<notin> nodes deps - set order"
    using x by (rule wfE_min) blast
  have "set (deps_of deps z) \<subseteq> set order"
    using min deps_of_nodes [of _ deps z] by (auto simp: edges_def)
  with z kahn_final(4) [OF inv] show False by blast
qed

lemma deps_first_acyclic:
  assumes "deps_first deps order" and "distinct order" and "set order = nodes deps"
  shows "acyclic (edges deps)"
proof -
  have "\<forall>n \<in> set order. \<exists>i. i < length order \<and> order ! i = n" by (auto simp: in_set_conv_nth)
  then obtain pos where pos: "\<And>n. n \<in> set order \<Longrightarrow> pos n < length order \<and> order ! pos n = n"
    by metis
  have "pos b < pos a" if e: "(a, b) \<in> edges deps" for a b
  proof -
    have ab: "a \<in> set order" "b \<in> set order" using e edges_nodes assms(3) by blast+
    have "b \<in> set (take (pos a) order)"
      using assms(1) e pos [OF ab(1)] by (auto simp: deps_first_def edges_def)
    then obtain j where "j < pos a" "j < length order" "order ! j = b"
      by (auto simp: in_set_conv_nth)
    then show ?thesis using pos [OF ab(2)] assms(2) nth_eq_iff_index_eq by metis
  qed
  then have "(edges deps)\<inverse> \<subseteq> measure pos" by auto
  then show ?thesis by (metis acyclic_converse wf_acyclic wf_measure wf_subset)
qed

lemma topo_order_cases:
  assumes wf: "wf_deps deps"
  shows "\<exists>indeg order. kahn_inv deps [] indeg order \<and> topo_order deps =
    Some (if set order = nodes deps then Ok order
          else Err (CyclicDependency (join '', '' (map fst (filter (\<lambda>(_, d). d > 0) indeg)))))"
proof -
  obtain indeg dependents where build: "build_degrees deps = (indeg, dependents)" by fastforce
  have rep: "represents (indeg, dependents) deps" using represents_build [OF wf] build by simp
  then have "\<And>d. get_or [] dependents d = rdeps deps d" by (simp add: represents_def)
  then obtain indeg' order where k: "kahn dependents (seed indeg) indeg [] = Some (indeg', order)"
    and inv: "kahn_inv deps [] indeg' order"
    using kahn_total [OF _ wf] kahn_inv_start [OF rep wf] by fastforce
  note fin = kahn_final [OF inv]
  have len: "length indeg' = card (nodes deps)"
    using fin(5,6) by (metis distinct_card length_map)
  from fin(1,3)
  have "length order = length indeg' \<longleftrightarrow> set order = nodes deps"
    using len by (metis card_subset_eq distinct_card finite_nodes)
  then show ?thesis
    using inv build k by (intro exI [of _ indeg'] exI [of _ order]) (auto simp: topo_order_def)
qed

text \<open>What the component manager relies on: a sorter that is total on well-formed graphs, fails
  exactly on the cyclic ones, and otherwise lists every node once, dependencies first.\<close>

locale dependency_sorter =
  fixes sorter :: "deps \<Rightarrow> (id list, LifecycleError) result option"
  assumes sorter_ok: "wf_deps deps \<Longrightarrow> sorter deps = Some (Ok order) \<Longrightarrow>
      distinct order \<and> set order = nodes deps \<and> deps_first deps order"
    and sorter_complete: "wf_deps deps \<Longrightarrow> acyclic (edges deps) \<Longrightarrow>
      \<exists>order. sorter deps = Some (Ok order)"
    and sorter_total: "wf_deps deps \<Longrightarrow> sorter deps \<noteq> None"
begin

lemma sorter_iff_acyclic:
  assumes "wf_deps deps"
  shows "(\<exists>order. sorter deps = Some (Ok order)) \<longleftrightarrow> acyclic (edges deps)"
  using sorter_ok [OF assms] sorter_complete [OF assms] deps_first_acyclic by blast

lemma sorter_err:
  assumes "wf_deps deps" and "\<not> acyclic (edges deps)"
  shows "\<exists>e. sorter deps = Some (Err e)"
proof -
  obtain r where r: "sorter deps = Some r" using sorter_total [OF assms(1)] by blast
  then show ?thesis using assms sorter_iff_acyclic by (cases r) auto
qed

end

interpretation topo: dependency_sorter topo_order
proof
  fix deps order assume wf: "wf_deps deps"
  from topo_order_cases [OF wf] obtain indeg ord where inv: "kahn_inv deps [] indeg ord"
    and eq: "topo_order deps = Some (if set ord = nodes deps then Ok ord
      else Err (CyclicDependency (join '', '' (map fst (filter (\<lambda>(_, d). d > 0) indeg)))))"
    by blast
  show "topo_order deps \<noteq> None" using eq by simp
  show "acyclic (edges deps) \<Longrightarrow> \<exists>order. topo_order deps = Some (Ok order)"
    using eq kahn_complete [OF inv] by simp
  assume "topo_order deps = Some (Ok order)"
  then have "order = ord \<and> set ord = nodes deps" using eq by (auto split: if_splits)
  then show "distinct order \<and> set order = nodes deps \<and> deps_first deps order"
    using kahn_final [OF inv] by blast
qed

section \<open>Closures\<close>

text \<open>
  \<^verbatim>\<open>dependency_closure\<close> and \<^verbatim>\<open>dependent_closure\<close> are the same worklist loop over two successor
  functions. The head of the list is the top of the Rust stack: pushing \<open>d1, \<dots>, dk\<close> leaves \<open>dk\<close> on top.
\<close>

datatype direction = Dependencies | Dependents

fun succs :: "direction \<Rightarrow> deps \<Rightarrow> id \<Rightarrow> id list" where
  "succs Dependencies deps n = deps_of deps n"
| "succs Dependents deps n = rdeps deps n"

lemma succs_nodes: "x \<in> set (succs dir deps n) \<Longrightarrow> x \<in> nodes deps"
  by (cases dir) (auto simp: rdeps_def nodes_def dest: deps_of_nodes intro: rev_image_eqI)

function closure_loop :: "direction \<Rightarrow> deps \<Rightarrow> id list \<Rightarrow> id list \<Rightarrow> id list" where
  "closure_loop dir deps seen [] = seen"
| "closure_loop dir deps seen (n # stack) =
     (if n \<in> set seen then closure_loop dir deps seen stack
      else closure_loop dir deps (n # seen) (rev (succs dir deps n) @ stack))"
  by pat_completeness auto
termination
proof (relation "measures [\<lambda>(dir, deps, seen, stack). card ((nodes deps \<union> set stack) - set seen),
    \<lambda>(dir, deps, seen, stack). length stack]")
  fix dir :: direction and deps :: deps and seen stack :: "id list" and n
  show "((dir, deps, seen, stack), dir, deps, seen, n # stack)
      \<in> measures [\<lambda>(dir, deps, seen, stack). card ((nodes deps \<union> set stack) - set seen),
          \<lambda>(dir, deps, seen, stack). length stack]" if "n \<in> set seen"
  proof -
    have "(nodes deps \<union> set (n # stack)) - set seen = (nodes deps \<union> set stack) - set seen"
      using that by auto
    then show ?thesis by simp
  qed
  show "((dir, deps, n # seen, rev (succs dir deps n) @ stack), dir, deps, seen, n # stack)
      \<in> measures [\<lambda>(dir, deps, seen, stack). card ((nodes deps \<union> set stack) - set seen),
          \<lambda>(dir, deps, seen, stack). length stack]" if "n \<notin> set seen"
  proof -
    have "(nodes deps \<union> set (rev (succs dir deps n) @ stack)) - set (n # seen) \<subset>
        (nodes deps \<union> set (n # stack)) - set seen"
      using that succs_nodes [of _ dir deps n] by auto
    then have "card ((nodes deps \<union> set (rev (succs dir deps n) @ stack)) - set (n # seen)) <
        card ((nodes deps \<union> set (n # stack)) - set seen)"
      by (intro psubset_card_mono) auto
    then show ?thesis by simp
  qed
qed simp

definition dependency_closure :: "deps \<Rightarrow> id \<Rightarrow> id list" where
  "dependency_closure deps n = closure_loop Dependencies deps [] [n]"

definition dependent_closure :: "deps \<Rightarrow> id \<Rightarrow> id list" where
  "dependent_closure deps n = closure_loop Dependents deps [] [n]"

definition step_rel :: "direction \<Rightarrow> deps \<Rightarrow> (id \<times> id) set" where
  "step_rel dir deps = {(a, b). b \<in> set (succs dir deps a)}"

lemma closure_loop_sound:
  "set (closure_loop dir deps seen stack) \<subseteq> set seen \<union> (step_rel dir deps)\<^sup>* `` set stack"
proof (induction dir deps seen stack rule: closure_loop.induct)
  case (2 dir deps seen n stack)
  show ?case
  proof (cases "n \<in> set seen")
    case True
    with 2(1) show ?thesis by auto
  next
    case False
    have "(step_rel dir deps)\<^sup>* `` set (succs dir deps n) \<subseteq> (step_rel dir deps)\<^sup>* `` {n}"
      by (auto simp: step_rel_def intro: converse_rtrancl_into_rtrancl)
    with 2(2) False show ?thesis by (auto simp: Image_Un)
  qed
qed simp

lemma closure_loop_closed:
  assumes "\<forall>x \<in> set seen. set (succs dir deps x) \<subseteq> set seen \<union> set stack"
  shows "set seen \<union> set stack \<subseteq> set (closure_loop dir deps seen stack) \<and>
    (\<forall>x \<in> set (closure_loop dir deps seen stack).
       set (succs dir deps x) \<subseteq> set (closure_loop dir deps seen stack))"
  using assms
proof (induction dir deps seen stack rule: closure_loop.induct)
  case (2 dir deps seen n stack)
  show ?case
  proof (cases "n \<in> set seen")
    case True
    with 2(1) 2(3) show ?thesis by auto
  next
    case False
    then have "\<forall>x \<in> set (n # seen). set (succs dir deps x) \<subseteq>
        set (n # seen) \<union> set (rev (succs dir deps n) @ stack)"
      using 2(3) by auto
    from 2(2) [OF False this] False show ?thesis by auto
  qed
qed simp

lemma closure_loop_reach:
  "set (closure_loop dir deps [] [n]) = {m. (n, m) \<in> (step_rel dir deps)\<^sup>*}"
proof
  show "set (closure_loop dir deps [] [n]) \<subseteq> {m. (n, m) \<in> (step_rel dir deps)\<^sup>*}"
    using closure_loop_sound [of dir deps "[]" "[n]"] by auto
  have closed: "n \<in> set (closure_loop dir deps [] [n])"
    "\<forall>x \<in> set (closure_loop dir deps [] [n]). set (succs dir deps x) \<subseteq> set (closure_loop dir deps [] [n])"
    using closure_loop_closed [of "[]" dir deps "[n]"] by auto
  have "m \<in> set (closure_loop dir deps [] [n])" if "(n, m) \<in> (step_rel dir deps)\<^sup>*" for m
    using that by (induction rule: rtrancl_induct) (use closed in \<open>auto simp: step_rel_def\<close>)
  then show "{m. (n, m) \<in> (step_rel dir deps)\<^sup>*} \<subseteq> set (closure_loop dir deps [] [n])" by blast
qed

lemma step_rel_Dependencies: "step_rel Dependencies deps = edges deps"
  by (simp add: step_rel_def edges_def)

lemma step_rel_Dependents: "wf_deps deps \<Longrightarrow> step_rel Dependents deps = (edges deps)\<inverse>"
  by (auto simp: step_rel_def edges_def set_rdeps)

lemma set_dependency_closure: "set (dependency_closure deps n) = {m. (n, m) \<in> (edges deps)\<^sup>*}"
  unfolding dependency_closure_def closure_loop_reach by (simp add: step_rel_Dependencies)

lemma set_dependent_closure:
  "wf_deps deps \<Longrightarrow> set (dependent_closure deps n) = {m. (m, n) \<in> (edges deps)\<^sup>*}"
  unfolding dependent_closure_def closure_loop_reach
  by (simp add: step_rel_Dependents rtrancl_converse)

section \<open>Properties\<close>

definition diamond :: deps where
  "diamond = [(''api'', [''db'', ''cache'']), (''db'', [''net'']), (''cache'', [''net'']), (''net'', [])]"

text \<open>On every well-formed dependency table Kahn's loop ends without a panic. It returns an
  order exactly when the dependency relation has no cycle, and the order lists every component that
  occurs in the table once, each after all components it depends on.\<close>

theorem topo_order_correct:
  assumes "wf_deps deps"
  shows "(\<exists>order. topo_order deps = Some (Ok order) \<and> acyclic (edges deps) \<and> distinct order \<and>
      set order = nodes deps \<and> deps_first deps order) \<or>
    (\<exists>msg. topo_order deps = Some (Err (CyclicDependency msg)) \<and> \<not> acyclic (edges deps))"
proof (cases "acyclic (edges deps)")
  case True
  then show ?thesis
    using topo.sorter_complete [OF assms True] topo.sorter_ok [OF assms] by blast
next
  case False
  from topo_order_cases [OF assms] obtain msg where
    "(\<exists>order. topo_order deps = Some (Ok order)) \<or>
     topo_order deps = Some (Err (CyclicDependency msg))" by (auto split: if_splits)
  then show ?thesis using False topo.sorter_iff_acyclic [OF assms] by blast
qed

text \<open>The returned order does not depend on the iteration order of the hash tables: two tables
  that hold the same components with the same dependency sets give the same order.\<close>

theorem topo_order_deterministic:
  assumes "wf_deps deps" and "wf_deps deps'" and "nodes deps = nodes deps'"
    and "\<forall>n \<in> nodes deps. set (deps_of deps n) = set (deps_of deps' n)"
    and "topo_order deps = Some (Ok order)"
  shows "topo_order deps' = Some (Ok order)"
proof -
  have same: "set (deps_of deps n) = set (deps_of deps' n)" for n
    using assms(3,4) deps_of_not_node by (cases "n \<in> nodes deps") auto
  obtain indeg dependents where b: "build_degrees deps = (indeg, dependents)" by fastforce
  obtain indeg' dependents' where b': "build_degrees deps' = (indeg', dependents')" by fastforce
  have rep: "represents (indeg, dependents) deps" "represents (indeg', dependents') deps'"
    using represents_build [OF assms(1)] represents_build [OF assms(2)] b b' by simp_all
  have "{n \<in> nodes deps. deps_of deps n = []} = {n \<in> nodes deps'. deps_of deps' n = []}"
    using same assms(3) by (metis set_empty)
  then have seed: "seed indeg = seed indeg'" using rep [THEN seed_eq] by simp
  have "map_option snd (kahn dependents (seed indeg) indeg []) =
      map_option snd (kahn dependents' (seed indeg) indeg' [])"
    using kahn_inv_start [OF rep(1) assms(1)] kahn_inv_start [OF rep(2) assms(2)] seed rep
    by (intro kahn_deterministic [OF _ _ assms(1,2,3) same]) (simp_all add: represents_def)
  moreover obtain d where "kahn dependents (seed indeg) indeg [] = Some (d, order)"
    using assms(5) b by (auto simp: topo_order_def split: option.splits prod.splits if_splits)
  ultimately obtain d' where "kahn dependents' (seed indeg') indeg' [] = Some (d', order)"
    using seed by (cases "kahn dependents' (seed indeg') indeg' []") auto
  then have "\<exists>r. topo_order deps' = Some r \<and> (\<forall>o'. r = Ok o' \<longrightarrow> o' = order)"
    using b' by (simp add: topo_order_def)
  moreover have "edges deps = edges deps'" using same by (simp add: edges_def)
  then have "\<exists>o'. topo_order deps' = Some (Ok o')"
    using assms(5) topo.sorter_iff_acyclic assms(1,2) by metis
  ultimately show ?thesis by auto
qed

text \<open>The two closures the manager starts and stops by are exact: everything the component
  transitively depends on, and everything that transitively depends on it, itself included.\<close>

theorem closures_exact:
  assumes "wf_deps deps"
  shows "set (dependency_closure deps n) = {m. (n, m) \<in> (edges deps)\<^sup>*} \<and>
    set (dependent_closure deps n) = {m. (m, n) \<in> (edges deps)\<^sup>*}"
  by (simp add: set_dependency_closure set_dependent_closure [OF assms])

end
