(* ===== verification/Lifecycle.thy ===== *)
theory Lifecycle
  imports Lifecycle_Graph
begin

text \<open>
  The component manager of \<^verbatim>\<open>lifecycle/manager.rs\<close>: registration, dependency edges, ordered start
  and stop. A component's own \<^verbatim>\<open>start\<close> and \<^verbatim>\<open>stop\<close> are user code, so they are parameters that act on
  a world \<open>'w\<close>; running a method to its end without another task in between is one application of
  its definition. \<open>published\<close> lists what the \<^verbatim>\<open>watch\<close> channels sent, in order.
\<close>

section \<open>State\<close>

datatype ComponentState = Unknown | Error | Stopped | Stopping | Running | Starting

definition is_running :: "ComponentState \<Rightarrow> bool" where
  "is_running s \<longleftrightarrow> s = Running"

record 'c manager =
  components :: "(id \<times> 'c) list"
  dep_table :: deps
  watchers :: "(id \<times> ComponentState) list"
  published :: "(id \<times> ComponentState) list"
  shutdown_notices :: nat

record ('c, 'w) component_code =
  start_fn :: "'c \<Rightarrow> 'w \<Rightarrow> (unit, LifecycleError) result \<times> 'w"
  stop_fn :: "'c \<Rightarrow> 'w \<Rightarrow> (unit, LifecycleError) result \<times> 'w"
  stop_within :: "nat \<Rightarrow> 'c \<Rightarrow> 'w \<Rightarrow> (unit, LifecycleError) result option \<times> 'w"

text \<open>\<open>stop_within t\<close> is \<^verbatim>\<open>tokio::time::timeout(t, comp.stop())\<close>: \<open>None\<close> when the deadline passes
  first and the future is dropped.\<close>

definition manager_new :: "'c manager" where
  "manager_new = \<lparr>components = [], dep_table = [], watchers = [], published = [],
     shutdown_notices = 0\<rparr>"

section \<open>Registration and edges\<close>

definition register :: "id \<Rightarrow> 'c \<Rightarrow> 'c manager \<Rightarrow> 'c manager" where
  "register i c m = m\<lparr>watchers := AList.update i Unknown (watchers m),
     dep_table := or_insert i [] (dep_table m),
     components := AList.update i c (components m)\<rparr>"

definition unregister :: "id \<Rightarrow> 'c manager \<Rightarrow> 'c manager" where
  "unregister i m = m\<lparr>components := AList.delete i (components m),
     watchers := AList.delete i (watchers m),
     dep_table := map (\<lambda>(k, ds). (k, removeAll i ds)) (AList.delete i (dep_table m))\<rparr>"

definition set_insert :: "'a \<Rightarrow> 'a list \<Rightarrow> 'a list" where
  "set_insert x xs = (if x \<in> set xs then xs else xs @ [x])"

definition add_dependency ::
  "id \<Rightarrow> id \<Rightarrow> 'c manager \<Rightarrow> ((unit, LifecycleError) result \<times> 'c manager) option" where
  "add_dependency i d m =
     (if map_of (components m) i = None then Some (Err (ComponentNotFound i), m)
      else if map_of (components m) d = None then Some (Err (ComponentNotFound d), m)
      else
        let table = AList.update i (set_insert d (get_or [] (dep_table m) i)) (dep_table m)
        in case topo_order table of
             None \<Rightarrow> None
           | Some (Err _) \<Rightarrow>
               Some (Err (CyclicDependency (i @ '' -> '' @ d)),
                 m\<lparr>dep_table := AList.update i (removeAll d (get_or [] table i)) table\<rparr>)
           | Some (Ok _) \<Rightarrow> Some (Ok (), m\<lparr>dep_table := table\<rparr>))"

definition get_state :: "'c manager \<Rightarrow> id \<Rightarrow> ComponentState option" where
  "get_state m i = map_of (watchers m) i"

definition list_ids :: "'c manager \<Rightarrow> id list" where
  "list_ids m = map fst (components m)"

definition transition :: "id \<Rightarrow> ComponentState \<Rightarrow> 'c manager \<Rightarrow> 'c manager" where
  "transition i new m = (case map_of (watchers m) i of
     None \<Rightarrow> m
   | Some cur \<Rightarrow> m\<lparr>watchers := AList.update i new (watchers m),
       published := published m @ (if cur \<noteq> new then [(i, new)] else [])\<rparr>)"

section \<open>Starting and stopping one component\<close>

type_synonym ('c, 'w) env = "'c manager \<times> 'w"

definition start_one ::
  "('c, 'w) component_code \<Rightarrow> id \<Rightarrow> ('c, 'w) env \<Rightarrow> (unit, LifecycleError) result \<times> ('c, 'w) env" where
  "start_one code i e = (case map_of (components (fst e)) i of
     None \<Rightarrow> (Err (ComponentNotFound i), e)
   | Some c \<Rightarrow> (case map_of (watchers (fst e)) i of
       None \<Rightarrow> (Ok (), e)
     | Some cur \<Rightarrow>
         if cur = Running \<or> cur = Starting then (Ok (), e)
         else let m1 = transition i Starting (fst e)
              in case start_fn code c (snd e) of
                   (Ok _, w') \<Rightarrow> (Ok (), (transition i Running m1, w'))
                 | (Err er, w') \<Rightarrow> (Err er, (transition i Error m1, w'))))"

definition nothing_to_stop :: "ComponentState option \<Rightarrow> bool" where
  "nothing_to_stop s \<longleftrightarrow> (case s of None \<Rightarrow> True | Some st \<Rightarrow> st = Stopped \<or> st = Unknown)"

definition stop_one ::
  "('c, 'w) component_code \<Rightarrow> id \<Rightarrow> ('c, 'w) env \<Rightarrow> (unit, LifecycleError) result \<times> ('c, 'w) env" where
  "stop_one code i e = (case map_of (components (fst e)) i of
     None \<Rightarrow> (Err (ComponentNotFound i), e)
   | Some c \<Rightarrow>
       if nothing_to_stop (map_of (watchers (fst e)) i) then (Ok (), e)
       else let m1 = transition i Stopping (fst e)
            in case stop_fn code c (snd e) of
                 (Ok _, w') \<Rightarrow> (Ok (), (transition i Stopped m1, w'))
               | (Err er, w') \<Rightarrow> (Err er, (transition i Error m1, w')))"

text \<open>\<^verbatim>\<open>with_timeout(&id, per_component, self.stop_one(&id))\<close>: a deadline that passes while the
  component's \<^verbatim>\<open>stop\<close> is pending drops the rest of \<open>stop_one\<close>.\<close>

definition stop_one_timed ::
  "('c, 'w) component_code \<Rightarrow> nat \<Rightarrow> id \<Rightarrow> ('c, 'w) env \<Rightarrow>
   (unit, LifecycleError) result \<times> ('c, 'w) env" where
  "stop_one_timed code t i e = (case map_of (components (fst e)) i of
     None \<Rightarrow> (Err (ComponentNotFound i), e)
   | Some c \<Rightarrow>
       if nothing_to_stop (map_of (watchers (fst e)) i) then (Ok (), e)
       else let m1 = transition i Stopping (fst e)
            in case stop_within code t c (snd e) of
                 (Some (Ok _), w') \<Rightarrow> (Ok (), (transition i Stopped m1, w'))
               | (Some (Err er), w') \<Rightarrow> (Err er, (transition i Error m1, w'))
               | (None, w') \<Rightarrow> (Err (Timeout i), (m1, w')))"

section \<open>Ordered start and stop\<close>

text \<open>A \<^verbatim>\<open>for\<close> loop whose body ends in \<^verbatim>\<open>?\<close>: it stops at the first error.\<close>

fun try_each :: "(id \<Rightarrow> 's \<Rightarrow> (unit, 'e) result \<times> 's) \<Rightarrow> id list \<Rightarrow> 's \<Rightarrow> (unit, 'e) result \<times> 's" where
  "try_each f [] s = (Ok (), s)"
| "try_each f (i # is) s =
     (case f i s of (Ok _, s') \<Rightarrow> try_each f is s' | (Err e, s') \<Rightarrow> (Err e, s'))"

definition start_order_for :: "'c manager \<Rightarrow> id \<Rightarrow> (id list, LifecycleError) result option" where
  "start_order_for m i =
     (let closure = dependency_closure (dep_table m) i
      in map_option (map_sum id (filter (\<lambda>n. n \<in> set closure))) (topo_order (dep_table m)))"

definition stop_order_for :: "'c manager \<Rightarrow> id \<Rightarrow> (id list, LifecycleError) result option" where
  "stop_order_for m i =
     (let dependents = dependent_closure (dep_table m) i
      in map_option (map_sum id (filter (\<lambda>n. n \<in> set dependents))) (topo_order (dep_table m)))"

text \<open>Continue with an order, passing an ordering error on; \<open>None\<close> is a panic.\<close>

definition with_order ::
  "(id list, LifecycleError) result option \<Rightarrow> 's \<Rightarrow>
   (id list \<Rightarrow> (unit, LifecycleError) result \<times> 's) \<Rightarrow>
   ((unit, LifecycleError) result \<times> 's) option" where
  "with_order r s k = (case r of
     None \<Rightarrow> None
   | Some (Err e) \<Rightarrow> Some (Err e, s)
   | Some (Ok order) \<Rightarrow> Some (k order))"

definition start ::
  "('c, 'w) component_code \<Rightarrow> id \<Rightarrow> ('c, 'w) env \<Rightarrow>
   ((unit, LifecycleError) result \<times> ('c, 'w) env) option" where
  "start code i e = (case get_state (fst e) i of
     None \<Rightarrow> Some (Err (ComponentNotFound i), e)
   | Some Running \<Rightarrow> Some (Err (ComponentAlreadyStarted i), e)
   | Some _ \<Rightarrow> with_order (start_order_for (fst e) i) e (\<lambda>order. try_each (start_one code) order e))"

definition start_all ::
  "('c, 'w) component_code \<Rightarrow> ('c, 'w) env \<Rightarrow>
   ((unit, LifecycleError) result \<times> ('c, 'w) env) option" where
  "start_all code e =
     with_order (topo_order (dep_table (fst e))) e (\<lambda>order. try_each (start_one code) order e)"

definition stop ::
  "('c, 'w) component_code \<Rightarrow> id \<Rightarrow> ('c, 'w) env \<Rightarrow>
   ((unit, LifecycleError) result \<times> ('c, 'w) env) option" where
  "stop code i e =
     (if get_state (fst e) i = None then Some (Err (ComponentNotFound i), e)
      else with_order (stop_order_for (fst e) i) e
             (\<lambda>order. try_each (stop_one code) (rev order) e))"

definition notify_waiters :: "('c, 'w) env \<Rightarrow> ('c, 'w) env" where
  "notify_waiters e = ((fst e)\<lparr>shutdown_notices := Suc (shutdown_notices (fst e))\<rparr>, snd e)"

definition stop_all ::
  "('c, 'w) component_code \<Rightarrow> ('c, 'w) env \<Rightarrow>
   ((unit, LifecycleError) result \<times> ('c, 'w) env) option" where
  "stop_all code e = with_order (topo_order (dep_table (fst e))) e
     (\<lambda>order. case try_each (stop_one code) (rev order) e of
        (Ok _, e') \<Rightarrow> (Ok (), notify_waiters e')
      | (Err er, e') \<Rightarrow> (Err er, e'))"

text \<open>The sweep of \<^verbatim>\<open>stop_all_with_timeout\<close> remembers the first error and goes on.\<close>

fun stop_sweep ::
  "('c, 'w) component_code \<Rightarrow> nat \<Rightarrow> id list \<Rightarrow> LifecycleError option \<Rightarrow> ('c, 'w) env \<Rightarrow>
   LifecycleError option \<times> ('c, 'w) env" where
  "stop_sweep code t [] first_err e = (first_err, e)"
| "stop_sweep code t (i # is) first_err e =
     (case stop_one_timed code t i e of
        (Ok _, e') \<Rightarrow> stop_sweep code t is first_err e'
      | (Err er, e') \<Rightarrow>
          stop_sweep code t is (case first_err of None \<Rightarrow> Some er | Some x \<Rightarrow> Some x)
            (transition i Error (fst e'), snd e'))"

definition stop_all_with_timeout ::
  "('c, 'w) component_code \<Rightarrow> nat \<Rightarrow> ('c, 'w) env \<Rightarrow>
   ((unit, LifecycleError) result \<times> ('c, 'w) env) option" where
  "stop_all_with_timeout code t e = with_order (topo_order (dep_table (fst e))) e
     (\<lambda>order. case stop_sweep code t (rev order) None e of
        (Some er, e') \<Rightarrow> (Err er, notify_waiters e')
      | (None, e') \<Rightarrow> (Ok (), notify_waiters e'))"

section \<open>The invariant\<close>

definition manager_inv :: "'c manager \<Rightarrow> bool" where
  "manager_inv m \<longleftrightarrow> wf_deps (dep_table m) \<and> acyclic (edges (dep_table m)) \<and>
     distinct (map fst (components m)) \<and> distinct (map fst (watchers m)) \<and>
     fst ` set (components m) = fst ` set (dep_table m) \<and>
     fst ` set (watchers m) = fst ` set (dep_table m) \<and>
     nodes (dep_table m) = fst ` set (dep_table m)"

lemma manager_inv_new: "manager_inv manager_new"
  by (auto simp: manager_inv_def manager_new_def wf_deps_def nodes_def edges_def acyclic_def)

lemma manager_invD:
  assumes "manager_inv m"
  shows "wf_deps (dep_table m)" "acyclic (edges (dep_table m))"
    and "i \<in> nodes (dep_table m) \<longleftrightarrow> map_of (components m) i \<noteq> None"
    and "map_of (watchers m) i = None \<longleftrightarrow> map_of (components m) i = None"
  using assms by (simp_all add: manager_inv_def map_of_eq_None_iff)

lemma topo_order_manager:
  assumes "manager_inv m"
  obtains order where "topo_order (dep_table m) = Some (Ok order)" and "distinct order"
    and "set order = nodes (dep_table m)" and "deps_first (dep_table m) order"
  using topo.sorter_complete [OF manager_invD(1,2) [OF assms]]
    topo.sorter_ok [OF manager_invD(1) [OF assms]] by blast

lemma keys_update: "fst ` set (AList.update k v al) = insert k (fst ` set al)"
  by (simp add: dom_update)

lemma transition_frame [simp]:
  "components (transition i s m) = components m"
  "dep_table (transition i s m) = dep_table m"
  "fst ` set (watchers (transition i s m)) = fst ` set (watchers m)"
  "shutdown_notices (transition i s m) = shutdown_notices m"
  "distinct (map fst (watchers m)) \<Longrightarrow> distinct (map fst (watchers (transition i s m)))"
proof -
  show "fst ` set (watchers (transition i s m)) = fst ` set (watchers m)"
  proof (cases "map_of (watchers m) i")
    case (Some c)
    then have "i \<in> fst ` set (watchers m)" by (force dest: map_of_SomeD)
    then show ?thesis using Some by (simp add: transition_def keys_update insert_absorb)
  qed (simp add: transition_def)
qed (simp_all add: transition_def distinct_update split: option.splits)

lemma get_state_transition:
  "get_state (transition i s m) j =
     (if j = i \<and> get_state m i \<noteq> None then Some s else get_state m j)"
  by (auto simp: get_state_def transition_def update_conv' split: option.splits)

lemma transition_inv: "manager_inv m \<Longrightarrow> manager_inv (transition i s m)"
  by (simp add: manager_inv_def)

text \<open>Dependency tables, seen through \<open>deps_of\<close>.\<close>

lemma wf_deps_alt: "wf_deps t \<longleftrightarrow> distinct (map fst t) \<and> (\<forall>n. distinct (deps_of t n))"
proof
  assume "distinct (map fst t) \<and> (\<forall>n. distinct (deps_of t n))"
  then show "wf_deps t" by (fastforce simp: wf_deps_def dest: deps_of_mem)
qed (simp add: distinct_deps_of, simp add: wf_deps_def)

lemma nodes_alt: "distinct (map fst t) \<Longrightarrow> nodes t = fst ` set t \<union> (\<Union>n. set (deps_of t n))"
proof
  assume d: "distinct (map fst t)"
  then show "nodes t \<subseteq> fst ` set t \<union> (\<Union>n. set (deps_of t n))"
    using deps_of_mem [OF d] by (fastforce simp: nodes_def)
  show "fst ` set t \<union> (\<Union>n. set (deps_of t n)) \<subseteq> nodes t"
    using key_in_nodes [of _ t] by (auto dest: deps_of_nodes)
qed

lemma deps_of_update: "deps_of (AList.update i ds t) n = (if n = i then ds else deps_of t n)"
  by (simp add: deps_of_def update_conv')

lemma deps_of_or_insert [simp]: "deps_of (or_insert i [] t) n = deps_of t n"
  by (simp add: deps_of_def map_of_or_insert split: option.splits)

lemma keys_or_insert: "fst ` set (or_insert i v t) = insert i (fst ` set t)"
proof (cases "map_of t i")
  case (Some x)
  then have "i \<in> fst ` set t" by (force dest: map_of_SomeD)
  then show ?thesis using Some by (simp add: or_insert_def insert_absorb)
qed (simp add: or_insert_def keys_update)

lemma register_inv: "manager_inv m \<Longrightarrow> manager_inv (register i c m)"
  by (auto simp: manager_inv_def register_def keys_update keys_or_insert distinct_update
      distinct_or_insert wf_deps_alt nodes_alt edges_def)

definition drop_node :: "id \<Rightarrow> deps \<Rightarrow> deps" where
  "drop_node i t = map (\<lambda>(k, ds). (k, removeAll i ds)) (AList.delete i t)"

lemma keys_delete: "fst ` set (AList.delete i t) = fst ` set t - {i}"
proof -
  have "set (map fst (AList.delete i t)) = set (removeAll i (map fst t))"
    by (simp only: delete_keys)
  then show ?thesis by simp
qed

lemma keys_drop_node: "fst ` set (drop_node i t) = fst ` set t - {i}"
proof -
  have "fst ` set (drop_node i t) = fst ` set (AList.delete i t)"
    by (simp add: drop_node_def image_image case_prod_beta)
  then show ?thesis by (simp add: keys_delete)
qed

lemma distinct_drop_node: "distinct (map fst t) \<Longrightarrow> distinct (map fst (drop_node i t))"
  by (simp add: drop_node_def comp_def case_prod_beta distinct_delete)

lemma deps_of_drop_node:
  "deps_of (drop_node i t) n = (if n = i then [] else removeAll i (deps_of t n))"
  by (induction t) (auto simp: drop_node_def deps_of_Cons)

lemma unregister_inv:
  assumes "manager_inv m"
  shows "manager_inv (unregister i m)"
proof -
  have "edges (drop_node i (dep_table m)) \<subseteq> edges (dep_table m)"
    by (auto simp: edges_def deps_of_drop_node split: if_splits)
  then have "acyclic (edges (drop_node i (dep_table m)))"
    by (rule acyclic_subset [OF manager_invD(2) [OF assms]])
  moreover have "unregister i m = m\<lparr>components := AList.delete i (components m),
      watchers := AList.delete i (watchers m), dep_table := drop_node i (dep_table m)\<rparr>"
    by (simp add: unregister_def drop_node_def)
  moreover have "set (deps_of (dep_table m) n) \<subseteq> fst ` set (dep_table m)" for n
    using assms deps_of_nodes [of _ "dep_table m" n] by (auto simp: manager_inv_def)
  then have "nodes (drop_node i (dep_table m)) = fst ` set (drop_node i (dep_table m))"
    using assms by (auto simp: manager_inv_def wf_deps_def nodes_alt distinct_drop_node
        keys_drop_node deps_of_drop_node split: if_splits)
  ultimately show ?thesis
    using assms
    by (simp add: manager_inv_def wf_deps_alt keys_drop_node keys_delete distinct_drop_node
        deps_of_drop_node distinct_delete distinct_removeAll)
qed

section \<open>Adding an edge\<close>

lemma get_or_deps_of: "get_or [] t i = deps_of t i"
  by (simp add: get_or_def deps_of_def)

lemma set_set_insert [simp]: "set (set_insert x xs) = insert x (set xs)"
  by (auto simp: set_insert_def)

lemma distinct_set_insert [simp]: "distinct xs \<Longrightarrow> distinct (set_insert x xs)"
  by (simp add: set_insert_def)

abbreviation with_edge :: "id \<Rightarrow> id \<Rightarrow> deps \<Rightarrow> deps" where
  "with_edge i d t \<equiv> AList.update i (set_insert d (deps_of t i)) t"

lemma edges_with_edge: "edges (with_edge i d t) = insert (i, d) (edges t)"
  by (auto simp: edges_def deps_of_update split: if_splits)

lemma wf_with_edge: "wf_deps t \<Longrightarrow> wf_deps (with_edge i d t)"
  by (simp add: wf_deps_alt distinct_update deps_of_update)

lemma with_edge_inv:
  assumes "manager_inv m" and "map_of (components m) i \<noteq> None" "map_of (components m) d \<noteq> None"
    and "(d, i) \<notin> (edges (dep_table m))\<^sup>*"
  shows "manager_inv (m\<lparr>dep_table := with_edge i d (dep_table m)\<rparr>)"
proof -
  obtain K where K: "fst ` set (dep_table m) = K" by blast
  have keys: "i \<in> K" "d \<in> K"
    using assms(1-3) by (simp_all add: manager_inv_def map_of_eq_None_iff K)
  have sub: "set (deps_of (dep_table m) n) \<subseteq> K" for n
    using assms(1) deps_of_nodes [of _ "dep_table m" n] K by (auto simp: manager_inv_def)
  have "distinct (map fst (dep_table m))" using assms(1) by (simp add: manager_inv_def wf_deps_def)
  then have "nodes (with_edge i d (dep_table m)) =
      insert i K \<union> (\<Union>n. set (if n = i then set_insert d (deps_of (dep_table m) i)
        else deps_of (dep_table m) n))"
    by (simp add: nodes_alt distinct_update keys_update deps_of_update K)
  also have "\<dots> = K" using keys subsetD [OF sub] by (auto split: if_splits)
  finally have "nodes (with_edge i d (dep_table m)) = K" .
  moreover have "acyclic (insert (i, d) (edges (dep_table m)))"
    using assms(1,4) by (simp add: manager_inv_def acyclic_insert)
  ultimately show ?thesis
    using assms(1) keys wf_with_edge [of "dep_table m" i d]
    by (simp add: manager_inv_def edges_with_edge keys_update K insert_absorb)
qed

lemma add_dependency_eq:
  assumes inv: "manager_inv m"
  shows "add_dependency i d m = Some (
    if map_of (components m) i = None then (Err (ComponentNotFound i), m)
    else if map_of (components m) d = None then (Err (ComponentNotFound d), m)
    else if (d, i) \<in> (edges (dep_table m))\<^sup>* then (Err (CyclicDependency (i @ '' -> '' @ d)), m)
    else (Ok (), m\<lparr>dep_table := with_edge i d (dep_table m)\<rparr>))"
proof (cases "map_of (components m) i = None \<or> map_of (components m) d = None")
  case True
  then show ?thesis by (auto simp: add_dependency_def)
next
  case reg: False
  let ?t = "dep_table m" and ?t' = "with_edge i d (dep_table m)"
  have wf: "wf_deps ?t'" using manager_invD(1) [OF inv] by (rule wf_with_edge)
  have acyc: "acyclic (edges ?t') \<longleftrightarrow> (d, i) \<notin> (edges ?t)\<^sup>*"
    using manager_invD(2) [OF inv] by (simp add: edges_with_edge acyclic_insert)
  show ?thesis
  proof (cases "(d, i) \<in> (edges ?t)\<^sup>*")
    case False
    then obtain order where "topo_order ?t' = Some (Ok order)"
      using topo.sorter_complete [OF wf] acyc by blast
    then show ?thesis using reg False by (simp add: add_dependency_def get_or_deps_of)
  next
    case cyc: True
    then obtain er where err: "topo_order ?t' = Some (Err er)"
      using topo.sorter_err [OF wf] acyc by blast
    have d: "d \<notin> set (deps_of ?t i)"
    proof
      assume "d \<in> set (deps_of ?t i)"
      then have "(i, d) \<in> edges ?t" by (simp add: edges_def)
      with cyc manager_invD(2) [OF inv] show False by (meson acyclic_def rtrancl_into_trancl2)
    qed
    obtain ds where "map_of ?t i = Some ds"
      using inv reg by (metis manager_inv_def map_of_eq_None_iff option.exhaust)
    then have "AList.update i (deps_of ?t i) ?t = ?t" by (simp add: deps_of_def update_triv)
    then have "AList.update i (removeAll d (deps_of ?t' i)) ?t' = ?t"
      using d by (simp add: deps_of_update set_insert_def)
    then show ?thesis using reg cyc err by (simp add: add_dependency_def get_or_deps_of)
  qed
qed

section \<open>Sweeps over an order\<close>

text \<open>
  Starting and stopping are both a sweep: one operation per component that touches the state of no
  other component and, when it succeeds, leaves its component in the goal state. The contract is
  stated once and both operations are proved against it.
\<close>

locale ordered_sweep =
  fixes f :: "id \<Rightarrow> 's \<Rightarrow> (unit, 'e) result \<times> 's"
    and state_of :: "'s \<Rightarrow> id \<Rightarrow> 'x"
    and ok :: "'s \<Rightarrow> bool"
    and goal :: "'x \<Rightarrow> bool"
  assumes frame: "ok s \<Longrightarrow> f i s = (r, s') \<Longrightarrow> j \<noteq> i \<Longrightarrow> state_of s' j = state_of s j"
    and ok_kept: "ok s \<Longrightarrow> f i s = (r, s') \<Longrightarrow> ok s'"
    and reaches: "ok s \<Longrightarrow> f i s = (Ok u, s') \<Longrightarrow> goal (state_of s' i)"
begin

lemma sweep_ok_kept: "ok s \<Longrightarrow> try_each f xs s = (r, s') \<Longrightarrow> ok s'"
  by (induction xs arbitrary: s) (auto split: prod.splits sum.splits dest: ok_kept)

lemma sweep_frame:
  "ok s \<Longrightarrow> try_each f xs s = (r, s') \<Longrightarrow> j \<notin> set xs \<Longrightarrow> state_of s' j = state_of s j"
proof (induction xs arbitrary: s)
  case (Cons x xs)
  obtain r1 s1 where f: "f x s = (r1, s1)" by fastforce
  then have "ok s1" "state_of s1 j = state_of s j"
    using Cons.prems ok_kept frame by auto
  then show ?case using Cons f by (cases r1) auto
qed simp

lemma sweep_reaches:
  "ok s \<Longrightarrow> try_each f xs s = (Ok u, s') \<Longrightarrow> i \<in> set xs \<Longrightarrow> goal (state_of s' i)"
proof (induction xs arbitrary: s)
  case (Cons x xs)
  then obtain u1 s1 where f: "f x s = (Ok u1, s1)" and rest: "try_each f xs s1 = (Ok u, s')"
    by (auto split: prod.splits sum.splits)
  have ok: "ok s1" using Cons.prems(1) f ok_kept by blast
  show ?case
  proof (cases "i \<in> set xs")
    case True
    then show ?thesis using Cons.IH [OF ok rest] by simp
  next
    case False
    then have "i = x" using Cons.prems(3) by simp
    then show ?thesis using False reaches [OF Cons.prems(1) f] sweep_frame [OF ok rest] by simp
  qed
qed simp

lemma sweep_error:
  "try_each f xs s = (Err e, s') \<Longrightarrow>
   \<exists>ys i zs s1. xs = ys @ i # zs \<and> try_each f ys s = (Ok (), s1) \<and> f i s1 = (Err e, s')"
proof (induction xs arbitrary: s)
  case (Cons x xs)
  show ?case
  proof (cases "f x s")
    case (Pair r1 s1)
    show ?thesis
    proof (cases r1)
      case (Inl e1)
      with Cons.prems Pair have
        "x # xs = [] @ x # xs \<and> try_each f [] s = (Ok (), s) \<and> f x s = (Err e, s')" by simp
      then show ?thesis by blast
    next
      case (Inr u)
      with Cons.prems Pair have "try_each f xs s1 = (Err e, s')" by simp
      then obtain ys i zs s2 where
        "xs = ys @ i # zs" "try_each f ys s1 = (Ok (), s2)" "f i s2 = (Err e, s')"
        using Cons.IH by blast
      then have "x # xs = (x # ys) @ i # zs \<and> try_each f (x # ys) s = (Ok (), s2) \<and>
          f i s2 = (Err e, s')"
        using Pair Inr by simp
      then show ?thesis by blast
    qed
  qed
qed simp

end

definition settled :: "'c manager \<Rightarrow> bool" where
  "settled m \<longleftrightarrow> (\<forall>i. get_state m i \<noteq> Some Starting)"

text \<open>The outcome of \<open>start_one\<close> and \<open>stop_one\<close> on every branch.\<close>

lemma start_one_cases:
  assumes "start_one code i e = (r, e')"
  obtains (missing) "map_of (components (fst e)) i = None" "r = Err (ComponentNotFound i)" "e' = e"
  | (idle) "r = Ok ()" "e' = e" "get_state (fst e) i \<in> {None, Some Running, Some Starting}"
  | (started) w where "r = Ok ()" "e' = (transition i Running (transition i Starting (fst e)), w)"
      "get_state (fst e) i \<noteq> None"
  | (failed) er w where "r = Err er" "e' = (transition i Error (transition i Starting (fst e)), w)"
      "get_state (fst e) i \<noteq> None"
  using assms
  by (auto simp: start_one_def get_state_def Let_def split: option.splits if_splits prod.splits sum.splits)

lemma stop_one_cases:
  assumes "stop_one code i e = (r, e')"
  obtains (missing) "map_of (components (fst e)) i = None" "r = Err (ComponentNotFound i)" "e' = e"
  | (idle) "r = Ok ()" "e' = e" "nothing_to_stop (get_state (fst e) i)"
  | (stopped) w where "r = Ok ()" "e' = (transition i Stopped (transition i Stopping (fst e)), w)"
      "get_state (fst e) i \<noteq> None"
  | (failed) er w where "r = Err er" "e' = (transition i Error (transition i Stopping (fst e)), w)"
      "get_state (fst e) i \<noteq> None"
  using assms
  by (auto simp: stop_one_def get_state_def nothing_to_stop_def Let_def
      split: option.splits if_splits prod.splits sum.splits)

interpretation starting: ordered_sweep "start_one code" "\<lambda>e. get_state (fst e)"
  "\<lambda>e. manager_inv (fst e) \<and> settled (fst e)" "\<lambda>s. s = Some Running" for code :: "('c, 'w) component_code"
proof
  fix e :: "('c, 'w) env" and i j r e' u
  assume ok: "manager_inv (fst e) \<and> settled (fst e)"
  show "get_state (fst e') j = get_state (fst e) j" if "start_one code i e = (r, e')" "j \<noteq> i"
    using that(1) by (cases rule: start_one_cases) (simp_all add: get_state_transition that(2))
  show "manager_inv (fst e') \<and> settled (fst e')" if "start_one code i e = (r, e')"
    using that ok by (cases rule: start_one_cases)
      (auto simp: transition_inv settled_def get_state_transition)
  show "get_state (fst e') i = Some Running" if st: "start_one code i e = (Ok u, e')"
  proof -
    have "map_of (components (fst e)) i \<noteq> None"
      using st by (cases "map_of (components (fst e)) i") (simp_all add: start_one_def)
    then have "get_state (fst e) i \<noteq> None"
      using manager_invD(4) [of "fst e" i] ok by (simp add: get_state_def)
    with st ok show ?thesis
      by (cases rule: start_one_cases) (auto simp: settled_def get_state_transition)
  qed
qed

interpretation stopping: ordered_sweep "stop_one code" "\<lambda>e. get_state (fst e)"
  "\<lambda>e. manager_inv (fst e)" nothing_to_stop for code :: "('c, 'w) component_code"
proof
  fix e :: "('c, 'w) env" and i j r e' u
  assume ok: "manager_inv (fst e)"
  show "get_state (fst e') j = get_state (fst e) j" if "stop_one code i e = (r, e')" "j \<noteq> i"
    using that(1) by (cases rule: stop_one_cases) (simp_all add: get_state_transition that(2))
  show "manager_inv (fst e')" if "stop_one code i e = (r, e')"
    using that ok by (cases rule: stop_one_cases) (auto simp: transition_inv)
  show "nothing_to_stop (get_state (fst e') i)" if "stop_one code i e = (Ok u, e')"
    using that by (cases rule: stop_one_cases) (auto simp: get_state_transition nothing_to_stop_def)
qed

lemma stop_one_timed_cases:
  assumes "stop_one_timed code t i e = (r, e')"
  obtains (missing) "map_of (components (fst e)) i = None" "r = Err (ComponentNotFound i)" "e' = e"
  | (idle) "r = Ok ()" "e' = e" "nothing_to_stop (get_state (fst e) i)"
  | (stopped) w where "r = Ok ()" "e' = (transition i Stopped (transition i Stopping (fst e)), w)"
      "get_state (fst e) i \<noteq> None"
  | (failed) er w where "r = Err er" "e' = (transition i Error (transition i Stopping (fst e)), w)"
      "get_state (fst e) i \<noteq> None"
  | (hung) w where "r = Err (Timeout i)" "e' = (transition i Stopping (fst e), w)"
      "get_state (fst e) i \<noteq> None"
  using assms
  by (auto simp: stop_one_timed_def get_state_def nothing_to_stop_def Let_def
      split: option.splits if_splits prod.splits sum.splits)

definition at_rest :: "ComponentState option \<Rightarrow> bool" where
  "at_rest s \<longleftrightarrow> nothing_to_stop s \<or> s = Some Error"

lemma stop_sweep_spec:
  assumes "manager_inv (fst e)" and "stop_sweep code t is first_err e = (fe, e')"
  shows "manager_inv (fst e') \<and> (\<forall>i \<in> set is. at_rest (get_state (fst e') i)) \<and>
    (\<forall>j. j \<notin> set is \<longrightarrow> get_state (fst e') j = get_state (fst e) j) \<and>
    shutdown_notices (fst e') = shutdown_notices (fst e) \<and>
    (first_err \<noteq> None \<longrightarrow> fe = first_err)"
  using assms
proof (induction "is" arbitrary: first_err e)
  case (Cons i "is")
  obtain r e1 where r: "stop_one_timed code t i e = (r, e1)"
    by (cases "stop_one_timed code t i e")
  define e2 where "e2 = (case r of Inl _ \<Rightarrow> (transition i Error (fst e1), snd e1) | Inr _ \<Rightarrow> e1)"
  have step: "manager_inv (fst e2) \<and> at_rest (get_state (fst e2) i) \<and>
      shutdown_notices (fst e2) = shutdown_notices (fst e) \<and>
      (\<forall>j. j \<noteq> i \<longrightarrow> get_state (fst e2) j = get_state (fst e) j)"
    using r Cons.prems(1)
    by (cases rule: stop_one_timed_cases) (auto simp: e2_def transition_inv get_state_transition
        at_rest_def nothing_to_stop_def)
  obtain fe1 where rest: "stop_sweep code t is fe1 e2 = (fe, e')"
    and fe1: "first_err \<noteq> None \<longrightarrow> fe1 = first_err"
    using Cons.prems(2) r by (auto simp: e2_def split: sum.splits option.splits)
  from Cons.IH [OF _ rest] step fe1 show ?case by (cases "i \<in> set is") auto
qed simp

section \<open>Operations of a client\<close>

datatype 'c manager_op =
    Register id 'c
  | Unregister id
  | Add_dependency id id
  | Start id
  | Start_all
  | Stop id
  | Stop_all
  | Stop_all_with_timeout nat

text \<open>A panic would leave the state as it is; \<open>manager_never_panics\<close> shows there is none.\<close>

definition env_of :: "'s \<Rightarrow> ('r \<times> 's) option \<Rightarrow> 's" where
  "env_of e r = (case r of None \<Rightarrow> e | Some (_, e') \<Rightarrow> e')"

fun manager_step :: "('c, 'w) component_code \<Rightarrow> ('c, 'w) env \<Rightarrow> 'c manager_op \<Rightarrow> ('c, 'w) env" where
  "manager_step code e (Register i c) = (register i c (fst e), snd e)"
| "manager_step code e (Unregister i) = (unregister i (fst e), snd e)"
| "manager_step code e (Add_dependency i d) = (env_of (fst e) (add_dependency i d (fst e)), snd e)"
| "manager_step code e (Start i) = env_of e (start code i e)"
| "manager_step code e Start_all = env_of e (start_all code e)"
| "manager_step code e (Stop i) = env_of e (stop code i e)"
| "manager_step code e Stop_all = env_of e (stop_all code e)"
| "manager_step code e (Stop_all_with_timeout t) = env_of e (stop_all_with_timeout code t e)"

lemma try_each_start_inv:
  assumes "manager_inv (fst e)" and "try_each (start_one code) is e = (r, e')"
  shows "manager_inv (fst e')"
  using assms
proof (induction "is" arbitrary: e)
  case (Cons i "is")
  obtain r1 e1 where f: "start_one code i e = (r1, e1)" by (cases "start_one code i e")
  then have "manager_inv (fst e1)"
    using Cons.prems(1) by (cases rule: start_one_cases) (auto simp: transition_inv)
  then show ?case using Cons f by (cases r1) auto
qed simp

lemma notify_waiters_simps [simp]:
  "manager_inv (fst (notify_waiters e)) = manager_inv (fst e)"
  "get_state (fst (notify_waiters e)) = get_state (fst e)"
  by (simp_all add: notify_waiters_def manager_inv_def get_state_def fun_eq_iff)

lemma with_order_env:
  assumes "P e" and "\<And>order r e'. k order = (r, e') \<Longrightarrow> P e'"
  shows "P (env_of e (with_order ord e k))"
proof (cases "with_order ord e k")
  case (Some x)
  obtain r e' where "x = (r, e')" by (cases x)
  with Some assms show ?thesis
    by (auto simp: with_order_def env_of_def split: option.splits sum.splits)
qed (simp add: env_of_def assms(1))

lemma manager_step_inv:
  assumes inv: "manager_inv (fst e)"
  shows "manager_inv (fst (manager_step code e x))"
proof (cases x)
  case (Add_dependency i d)
  then show ?thesis
    using inv with_edge_inv [OF inv, of i d] by (auto simp: add_dependency_eq [OF inv] env_of_def)
next
  case (Start i)
  have "manager_inv (fst (env_of e (with_order (start_order_for (fst e) i) e
      (\<lambda>order. try_each (start_one code) order e))))"
    by (rule with_order_env) (rule inv, rule try_each_start_inv [OF inv])
  then show ?thesis
    using inv Start by (auto simp: start_def env_of_def split: option.splits ComponentState.splits)
next
  case Start_all
  show ?thesis unfolding Start_all manager_step.simps start_all_def
    by (rule with_order_env) (rule inv, rule try_each_start_inv [OF inv])
next
  case (Stop i)
  have "manager_inv (fst (env_of e (with_order (stop_order_for (fst e) i) e
      (\<lambda>order. try_each (stop_one code) (rev order) e))))"
    by (rule with_order_env) (rule inv, rule stopping.sweep_ok_kept [OF inv])
  then show ?thesis using inv Stop by (auto simp: stop_def env_of_def)
next
  case Stop_all
  show ?thesis unfolding Stop_all manager_step.simps stop_all_def
    by (rule with_order_env)
      (use inv stopping.sweep_ok_kept [OF inv] in \<open>auto split: prod.splits sum.splits\<close>)
next
  case (Stop_all_with_timeout t)
  show ?thesis unfolding Stop_all_with_timeout manager_step.simps stop_all_with_timeout_def
    by (rule with_order_env)
      (use inv stop_sweep_spec [OF inv] in \<open>auto split: prod.splits option.splits\<close>)
qed (use inv in \<open>simp_all add: register_inv unregister_inv\<close>)

interpretation mgr: state_machine "\<lambda>e. fst e = manager_new" "manager_step code"
  "\<lambda>e. manager_inv (fst e)" for code :: "('c, 'w) component_code"
  by unfold_locales (simp_all add: manager_inv_new manager_step_inv)

section \<open>Positions in an order\<close>

lemma deps_first_before:
  assumes "deps_first t (xs @ i # ys)"
  shows "set (deps_of t i) \<subseteq> set xs"
  using assms [unfolded deps_first_def, rule_format, of "length xs"] by auto

lemma deps_first_after:
  assumes "deps_first t (xs @ i # ys)" and "distinct (xs @ i # ys)" and "i \<in> set (deps_of t k)"
    and "k \<in> set (xs @ i # ys)"
  shows "k \<in> set ys"
proof (rule ccontr)
  assume "k \<notin> set ys"
  with assms(4) consider "k = i" | "k \<in> set xs" by auto
  then show False
  proof cases
    case 1
    then show ?thesis using deps_first_before [OF assms(1)] assms(2,3) by auto
  next
    case 2
    then obtain us vs where "xs = us @ k # vs" by (auto simp: in_set_conv_decomp)
    then show ?thesis
      using deps_first_before [of t us k "vs @ i # ys"] assms(1-3) by auto
  qed
qed

lemma filter_split:
  "filter P zs = xs @ i # ys \<Longrightarrow> \<exists>us vs. zs = us @ i # vs \<and> filter P us = xs \<and> P i"
proof (induction zs arbitrary: xs)
  case (Cons z zs)
  show ?case
  proof (cases "P z \<and> xs = []")
    case True
    with Cons.prems have "z # zs = [] @ i # zs \<and> filter P [] = xs \<and> P i" by auto
    then show ?thesis by blast
  next
    case False
    with Cons.prems obtain xs' where xs': "filter P zs = xs' @ i # ys"
      "xs = (if P z then z # xs' else xs')" by (cases xs) (auto split: if_splits)
    then obtain us vs where "zs = us @ i # vs \<and> filter P us = xs' \<and> P i" using Cons.IH by blast
    then have "z # zs = (z # us) @ i # vs \<and> filter P (z # us) = xs \<and> P i" using xs'(2) by auto
    then show ?thesis by blast
  qed
qed simp

lemma deps_first_filter:
  assumes "deps_first t order" and "\<And>i d. i \<in> A \<Longrightarrow> d \<in> set (deps_of t i) \<Longrightarrow> d \<in> A"
    and "filter (\<lambda>n. n \<in> A) order = xs @ i # ys"
  shows "set (deps_of t i) \<subseteq> set xs"
proof -
  obtain us vs where order: "order = us @ i # vs" and xs: "filter (\<lambda>n. n \<in> A) us = xs"
    and "i \<in> A"
    using filter_split [OF assms(3)] by blast
  then show ?thesis using deps_first_before [of t us i vs] assms(1,2) order xs by auto
qed

section \<open>Properties\<close>

text \<open>C33: Whatever operations a client performs from an empty manager, with whatever component code,
  the three tables agree on the registered components, the dependency table is well-formed and
  acyclic, and none of the operations can panic.\<close>

theorem manager_never_panics:
  "let e = run (manager_step code) (manager_new, w) xs
   in manager_inv (fst e) \<and> add_dependency i d (fst e) \<noteq> None \<and> start code i e \<noteq> None \<and>
      start_all code e \<noteq> None \<and> stop code i e \<noteq> None \<and> stop_all code e \<noteq> None \<and>
      stop_all_with_timeout code t e \<noteq> None"
proof -
  define e where "e = run (manager_step code) (manager_new, w) xs"
  have inv: "manager_inv (fst e)"
    unfolding e_def by (rule mgr.reachable_inv) simp
  obtain order where "topo_order (dep_table (fst e)) = Some (Ok order)"
    using topo_order_manager [OF inv] by blast
  with inv show ?thesis
    unfolding e_def [symmetric]
    by (simp add: add_dependency_eq start_def start_all_def stop_def stop_all_def
        stop_all_with_timeout_def start_order_for_def stop_order_for_def with_order_def
        split: option.split ComponentState.split del: not_None_eq)
qed

text \<open>\<open>add_dependency\<close> succeeds exactly when both components are registered and the new edge
  closes no cycle; then it adds that one edge. On every error the manager is left unchanged.\<close>

theorem add_dependency_spec:
  assumes "manager_inv m"
  shows "case add_dependency i d m of
      None \<Rightarrow> False
    | Some (Ok _, m') \<Rightarrow>
        i \<in> set (list_ids m) \<and> d \<in> set (list_ids m) \<and> (d, i) \<notin> (edges (dep_table m))\<^sup>* \<and>
        edges (dep_table m') = insert (i, d) (edges (dep_table m)) \<and>
        m' = m\<lparr>dep_table := dep_table m'\<rparr> \<and> manager_inv m'
    | Some (Err er, m') \<Rightarrow> m' = m \<and>
        (er = ComponentNotFound i \<and> i \<notin> set (list_ids m) \<or>
         er = ComponentNotFound d \<and> d \<notin> set (list_ids m) \<or>
         er = CyclicDependency (i @ '' -> '' @ d) \<and> (d, i) \<in> (edges (dep_table m))\<^sup>*)"
proof -
  have reg: "j \<in> set (list_ids m) \<longleftrightarrow> map_of (components m) j \<noteq> None" for j
    by (simp add: list_ids_def map_of_eq_None_iff)
  show ?thesis
    using with_edge_inv [OF assms, of i d]
    by (auto simp: add_dependency_eq [OF assms] reg edges_with_edge)
qed

text \<open>A small system: a component carries its name, starting appends it to a log, and one name
  fails to start.\<close>

definition demo_code :: "(id, id list) component_code" where
  "demo_code = \<lparr>
     start_fn = (\<lambda>c w. (if c = ''bad'' then Err (ComponentFailure c ''boom'') else Ok (), w @ [c])),
     stop_fn = (\<lambda>c w. (Ok (), w @ [''-'' @ c])),
     stop_within = (\<lambda>t c w. (if c = ''db'' then None else Some (Ok ()), w @ [''-'' @ c]))\<rparr>"

definition demo :: "(id, id list) env" where
  "demo = run (manager_step demo_code) (manager_new, [])
     [Register ''api'' ''api'', Register ''db'' ''db'', Register ''net'' ''net'',
      Add_dependency ''api'' ''db'', Add_dependency ''db'' ''net'']"

lemma demo_inv: "manager_inv (fst demo)"
  unfolding demo_def by (rule mgr.reachable_inv) simp

lemma demo_eq: "demo =
  (\<lparr>components = [(''api'', ''api''), (''db'', ''db''), (''net'', ''net'')],
    dep_table = [(''api'', [''db'']), (''db'', [''net'']), (''net'', [])],
    watchers = [(''api'', Unknown), (''db'', Unknown), (''net'', Unknown)],
    published = [], shutdown_notices = 0\<rparr>, [])"
  by code_simp

lemma demo_settled: "settled (fst demo)"
  by (simp add: settled_def get_state_def demo_eq)

text \<open>C8: Starting everything goes in dependency order: when the turn of a component comes, all
  components it depends on are running. If all starts succeed every registered component is running
  at the end; otherwise the components before the failing one are running, the failing one is in
  state \<open>Error\<close> and the later ones are untouched.\<close>

theorem start_all_correct:
  assumes inv: "manager_inv (fst e)" and set: "settled (fst e)"
  shows "\<exists>order. topo_order (dep_table (fst e)) = Some (Ok order) \<and>
    (\<forall>pre i post e1. order = pre @ i # post \<and> try_each (start_one code) pre e = (Ok (), e1) \<longrightarrow>
       (\<forall>d \<in> set (deps_of (dep_table (fst e)) i). get_state (fst e1) d = Some Running)) \<and>
    (case start_all code e of
       None \<Rightarrow> False
     | Some (Ok _, e') \<Rightarrow> \<forall>i \<in> set (list_ids (fst e)). get_state (fst e') i = Some Running
     | Some (Err er, e') \<Rightarrow> \<exists>pre i post. order = pre @ i # post \<and>
         (\<forall>j \<in> set pre. get_state (fst e') j = Some Running) \<and>
         get_state (fst e') i = Some Error \<and>
         (\<forall>j \<in> set post. get_state (fst e') j = get_state (fst e) j))"
proof -
  obtain order where order: "topo_order (dep_table (fst e)) = Some (Ok order)" "distinct order"
    "set order = nodes (dep_table (fst e))" "deps_first (dep_table (fst e)) order"
    using topo_order_manager [OF inv] by blast
  have ok: "manager_inv (fst e) \<and> settled (fst e)" using inv set by simp
  obtain r e' where run: "try_each (start_one code) order e = (r, e')"
    by (cases "try_each (start_one code) order e")
  have all: "start_all code e = Some (r, e')" by (simp add: start_all_def with_order_def order(1) run)
  have "\<forall>d \<in> set (deps_of (dep_table (fst e)) i). get_state (fst e1) d = Some Running"
    if "order = pre @ i # post" "try_each (start_one code) pre e = (Ok (), e1)" for pre i post e1
    using starting.sweep_reaches [OF ok that(2)] deps_first_before [of _ pre i post] order(4) that(1)
    by blast
  moreover have "case r of
      Inr _ \<Rightarrow> \<forall>i \<in> set (list_ids (fst e)). get_state (fst e') i = Some Running
    | Inl er \<Rightarrow> \<exists>pre i post. order = pre @ i # post \<and>
        (\<forall>j \<in> set pre. get_state (fst e') j = Some Running) \<and> get_state (fst e') i = Some Error \<and>
        (\<forall>j \<in> set post. get_state (fst e') j = get_state (fst e) j)"
  proof (cases r)
    case (Inr u)
    have "i \<in> set order" if "i \<in> set (list_ids (fst e))" for i
      using that order(3) inv by (simp add: manager_inv_def list_ids_def)
    then show ?thesis using starting.sweep_reaches [OF ok run [unfolded Inr]] Inr by simp
  next
    case (Inl er)
    obtain pre i post e1 where split: "order = pre @ i # post"
      and pre: "try_each (start_one code) pre e = (Ok (), e1)"
      and fail: "start_one code i e1 = (Err er, e')"
      using starting.sweep_error [OF run [unfolded Inl]] by blast
    have ok1: "manager_inv (fst e1) \<and> settled (fst e1)" by (rule starting.sweep_ok_kept [OF ok pre])
    have apart: "i \<notin> set pre" "i \<notin> set post" "set pre \<inter> set post = {}"
      using order(2) split by auto
    have before: "get_state (fst e') j = Some Running" if "j \<in> set pre" for j
      using starting.sweep_reaches [OF ok pre that] starting.frame [OF ok1 fail, of j] apart(1) that
      by metis
    have after: "get_state (fst e') j = get_state (fst e) j" if "j \<in> set post" for j
      using starting.sweep_frame [OF ok pre, of j] starting.frame [OF ok1 fail, of j] apart(2,3) that
      by (metis disjoint_iff)
    have "i \<in> nodes (dep_table (fst e))" using split order(3) [symmetric] by simp
    then have "get_state (fst e) i \<noteq> None"
      using manager_invD(3,4) [OF inv] by (simp add: get_state_def)
    then have known: "get_state (fst e1) i \<noteq> None"
      using starting.sweep_frame [OF ok pre, of i] order(2) split by auto
    then have "map_of (components (fst e1)) i \<noteq> None"
      using manager_invD(4) [of "fst e1" i] ok1 by (simp add: get_state_def)
    with fail known have "get_state (fst e') i = Some Error"
      by (cases rule: start_one_cases) (auto simp: get_state_transition)
    then have "order = pre @ i # post \<and> (\<forall>j \<in> set pre. get_state (fst e') j = Some Running) \<and>
        get_state (fst e') i = Some Error \<and>
        (\<forall>j \<in> set post. get_state (fst e') j = get_state (fst e) j)"
      using split before after by blast
    then show ?thesis unfolding Inl by auto
  qed
  ultimately show ?thesis using order(1) all by (auto split: sum.splits)
qed

theorem start_all_correct_witness:
  "map (get_state (fst (snd (the (start_all demo_code demo))))) [''api'', ''db'', ''net''] =
     [Some Running, Some Running, Some Running]"
proof -
  have "map_option fst (start_all demo_code demo) = Some (Ok ())" by code_simp
  then obtain e where "start_all demo_code demo = Some (Ok (), e)" by auto
  moreover have "set (list_ids (fst demo)) = {''api'', ''db'', ''net''}"
    by (simp add: list_ids_def demo_eq)
  ultimately show ?thesis
    using start_all_correct [OF demo_inv demo_settled, of demo_code] by auto
qed

text \<open>C32: Stopping everything goes the other way: when the turn of a component comes, no component
  that depends on it is left to stop. If all stops succeed, nothing is left to stop; otherwise the
  sweep ended at the first component whose own stop failed.\<close>

theorem stop_all_correct:
  assumes inv: "manager_inv (fst e)"
  shows "\<exists>order. topo_order (dep_table (fst e)) = Some (Ok order) \<and>
    (\<forall>pre i post e1. rev order = pre @ i # post \<and> try_each (stop_one code) pre e = (Ok (), e1) \<longrightarrow>
       (\<forall>k. i \<in> set (deps_of (dep_table (fst e)) k) \<longrightarrow> nothing_to_stop (get_state (fst e1) k))) \<and>
    (case stop_all code e of
       None \<Rightarrow> False
     | Some (Ok _, e') \<Rightarrow>
         (\<forall>i \<in> set (list_ids (fst e)). nothing_to_stop (get_state (fst e') i)) \<and>
         manager_inv (fst e')
     | Some (Err er, e') \<Rightarrow> \<exists>pre i post e1. rev order = pre @ i # post \<and>
         try_each (stop_one code) pre e = (Ok (), e1) \<and> stop_one code i e1 = (Err er, e'))"
proof -
  obtain order where order: "topo_order (dep_table (fst e)) = Some (Ok order)" "distinct order"
    "set order = nodes (dep_table (fst e))" "deps_first (dep_table (fst e)) order"
    using topo_order_manager [OF inv] by blast
  obtain r e' where run: "try_each (stop_one code) (rev order) e = (r, e')"
    by (cases "try_each (stop_one code) (rev order) e")
  have "nothing_to_stop (get_state (fst e1) k)"
    if split: "rev order = pre @ i # post" and pre: "try_each (stop_one code) pre e = (Ok (), e1)"
      and k: "i \<in> set (deps_of (dep_table (fst e)) k)" for pre i post e1 k
  proof -
    have eq: "order = rev post @ i # rev pre" using split by (metis rev.simps(2) rev_append rev_swap append.assoc append_Cons append_Nil)
    have "k \<in> set order" using deps_of_nodes [OF k] order(3) by simp
    then have "k \<in> set (rev pre)"
      using deps_first_after [of _ "rev post" i "rev pre" k] order(2,4) k unfolding eq by blast
    then show ?thesis using stopping.sweep_reaches [OF inv pre] by simp
  qed
  moreover have "\<exists>pre i post e1. rev order = pre @ i # post \<and>
      try_each (stop_one code) pre e = (Ok (), e1) \<and> stop_one code i e1 = (Err er, e')"
    if "r = Err er" for er
    using stopping.sweep_error [OF run [unfolded that]] .
  moreover have "(\<forall>i \<in> set (list_ids (fst e)). nothing_to_stop (get_state (fst e') i)) \<and>
      manager_inv (fst e')" if "r = Ok u" for u
  proof -
    have "set (list_ids (fst e)) = set order"
      using order(3) inv by (simp add: manager_inv_def list_ids_def)
    then show ?thesis
      using stopping.sweep_reaches [OF inv run [unfolded that]] stopping.sweep_ok_kept [OF inv run] by simp
  qed
  moreover have "stop_all code e =
      Some (case r of Inr _ \<Rightarrow> (Ok (), notify_waiters e') | Inl er \<Rightarrow> (Err er, e'))"
    using order(1) run by (simp add: stop_all_def with_order_def)
  ultimately show ?thesis
    using order(1) by (intro exI [of _ order] conjI) (blast, blast, cases r, simp_all)
qed

theorem stop_all_correct_witness:
  "list_all (\<lambda>i. nothing_to_stop (get_state (fst (snd (the (stop_all demo_code
     (snd (the (start_all demo_code demo))))))) i)) [''api'', ''db'', ''net'']"
proof -
  let ?e = "snd (the (start_all demo_code demo))"
  have "map_option fst (start_all demo_code demo) = Some (Ok ())" by code_simp
  then have "?e = manager_step demo_code demo Start_all" by (auto simp: env_of_def)
  then have inv: "manager_inv (fst ?e)"
    using manager_step_inv [OF demo_inv, of demo_code Start_all] by simp
  have "map_option fst (stop_all demo_code ?e) = Some (Ok ())" by code_simp
  then obtain e' where "stop_all demo_code ?e = Some (Ok (), e')" by auto
  moreover have "set (list_ids (fst ?e)) = {''api'', ''db'', ''net''}" by code_simp
  ultimately show ?thesis using stop_all_correct [OF inv, of demo_code] by auto
qed

text \<open>The timed sweep attempts every component even if some hang or fail: afterwards each
  registered component is stopped, was never started, or is marked \<open>Error\<close>, and the waiters are
  notified exactly once.\<close>

theorem stop_all_with_timeout_sweeps:
  assumes inv: "manager_inv (fst e)"
  shows "\<exists>r e'. stop_all_with_timeout code t e = Some (r, e') \<and> manager_inv (fst e') \<and>
    (\<forall>i \<in> set (list_ids (fst e)). at_rest (get_state (fst e') i)) \<and>
    shutdown_notices (fst e') = Suc (shutdown_notices (fst e))"
proof -
  obtain order where order: "topo_order (dep_table (fst e)) = Some (Ok order)"
    "set order = nodes (dep_table (fst e))"
    by (rule topo_order_manager [OF inv])
  obtain fe e' where sweep: "stop_sweep code t (rev order) None e = (fe, e')"
    by (cases "stop_sweep code t (rev order) None e")
  have ids: "set (list_ids (fst e)) = set (rev order)"
    using order(2) inv by (simp add: manager_inv_def list_ids_def)
  have rest: "at_rest (get_state (fst (notify_waiters e')) i)" if "i \<in> set (list_ids (fst e))" for i
    using stop_sweep_spec [OF inv sweep] that ids by simp
  moreover have "shutdown_notices (fst (notify_waiters e')) = Suc (shutdown_notices (fst e))"
    using stop_sweep_spec [OF inv sweep] by (simp add: notify_waiters_def)
  moreover have "manager_inv (fst (notify_waiters e'))"
    using stop_sweep_spec [OF inv sweep] by simp
  moreover have "stop_all_with_timeout code t e =
      Some (case fe of None \<Rightarrow> Ok () | Some er \<Rightarrow> Err er, notify_waiters e')"
    using order(1) sweep by (simp add: stop_all_with_timeout_def with_order_def split: option.splits)
  ultimately show ?thesis by blast
qed

text \<open>Starting one component touches nothing outside its transitive dependencies, starts each of
  those only when its own dependencies run, and on success leaves all of them running.\<close>

theorem start_correct:
  assumes inv: "manager_inv (fst e)" and set: "settled (fst e)"
    and st: "get_state (fst e) i = Some st" "st \<noteq> Running"
  shows "\<exists>order r e'. start_order_for (fst e) i = Some (Ok order) \<and>
    set order = {j. (i, j) \<in> (edges (dep_table (fst e)))\<^sup>*} \<and>
    start code i e = Some (r, e') \<and>
    (\<forall>pre j post e1. order = pre @ j # post \<and> try_each (start_one code) pre e = (Ok (), e1) \<longrightarrow>
       (\<forall>d \<in> set (deps_of (dep_table (fst e)) j). get_state (fst e1) d = Some Running)) \<and>
    (is_ok r \<longrightarrow> (\<forall>j \<in> set order. get_state (fst e') j = Some Running)) \<and>
    (\<forall>j. j \<notin> set order \<longrightarrow> get_state (fst e') j = get_state (fst e) j)"
proof -
  let ?t = "dep_table (fst e)" and ?A = "{j. (i, j) \<in> (edges (dep_table (fst e)))\<^sup>*}"
  obtain full where full: "topo_order ?t = Some (Ok full)" "set full = nodes ?t" "deps_first ?t full"
    by (rule topo_order_manager [OF inv])
  define order where "order = filter (\<lambda>n. n \<in> ?A) full"
  have ord: "start_order_for (fst e) i = Some (Ok order)"
    by (simp add: start_order_for_def full(1) set_dependency_closure order_def)
  have "i \<in> nodes ?t" 
    using st(1) manager_invD(3) [OF inv, of i] manager_invD(4) [OF inv, of i]
    by (simp add: get_state_def)
  then have "?A \<subseteq> nodes ?t" using edges_nodes [of ?t] by (auto elim: rtranclE)
  then have set_order: "set order = ?A" using full(2) by (auto simp: order_def)
  have ok: "manager_inv (fst e) \<and> settled (fst e)" using inv set by simp
  obtain r e' where run: "try_each (start_one code) order e = (r, e')"
    by (cases "try_each (start_one code) order e")
  have start: "start code i e = Some (r, e')"
    using st by (simp add: start_def ord with_order_def run split: ComponentState.split)
  have "\<forall>d \<in> set (deps_of ?t j). get_state (fst e1) d = Some Running"
    if "order = pre @ j # post" "try_each (start_one code) pre e = (Ok (), e1)" for pre j post e1
  proof -
    have "set (deps_of ?t j) \<subseteq> set pre"
      by (rule deps_first_filter [OF full(3) _ that(1) [unfolded order_def]])
        (auto simp: edges_def intro: rtrancl_into_rtrancl)
    then show ?thesis using starting.sweep_reaches [OF ok that(2)] by blast
  qed
  moreover have "\<forall>j \<in> set order. get_state (fst e') j = Some Running" if "is_ok r"
    using starting.sweep_reaches [OF ok] run that by (auto simp: is_ok_conv)
  moreover have "\<forall>j. j \<notin> set order \<longrightarrow> get_state (fst e') j = get_state (fst e) j"
    using starting.sweep_frame [OF ok run] by blast
  ultimately show ?thesis
    by (intro exI [of _ order] exI [of _ r] exI [of _ e'] conjI ord set_order start) blast+
qed

text \<open>The guarantee needs the manager to be settled. While another task is still starting a
  dependency (its state is \<open>Starting\<close>), \<open>start\<close> treats that dependency as done and calls the
  dependent's own start code at once.\<close>

theorem start_ignores_dependency_still_starting:
  "let e = (transition ''db'' Starting (fst demo), [])
   in start demo_code ''api'' e \<noteq> None \<and>
      get_state (fst (snd (the (start demo_code ''api'' e)))) ''db'' = Some Starting \<and>
      get_state (fst (snd (the (start demo_code ''api'' e)))) ''api'' = Some Running \<and>
      snd (snd (the (start demo_code ''api'' e))) = [''net'', ''api'']"
  by code_simp

end
