(* ===== verification/Codec_Value.thy ===== *)
theory Codec_Value
  imports Prelude
begin

text \<open>
  The data model of \<^verbatim>\<open>codec/value.rs\<close> and \<^verbatim>\<open>codec/error.rs\<close>, the scalar writers of
  \<^verbatim>\<open>codec/fmt.rs\<close>, and what the codecs use of the standard library's integer parsers. A Rust
  \<^verbatim>\<open>String\<close> is its list of UTF-8 bytes, each byte a \<^typ>\<open>char\<close>. A signed 64-bit integer is a
  \<^typ>\<open>64 word\<close> read by \<^const>\<open>sint\<close>. The type of floating-point numbers is a parameter \<open>'f\<close>
  together with the operations the codecs use of it.
\<close>

section \<open>Values\<close>

type_synonym i64 = "64 word"

datatype 'f Value =
    Null
  | Bool bool
  | IntV i64
  | UInt u64
  | Float 'f
  | Str string
  | Bytes bytes
  | Array "'f Value list"
  | Object "(string \<times> 'f Value) list"

datatype CodecError =
    UnsupportedContentType string
  | Parse string
  | Expected string
  | MissingField string
  | UnknownVariant string
  | OutOfRange string
  | Message string

fun as_object :: "'f Value \<Rightarrow> (string \<times> 'f Value) list option" where
  "as_object (Object o1) = Some o1"
| "as_object _ = None"

fun as_array :: "'f Value \<Rightarrow> 'f Value list option" where
  "as_array (Array a) = Some a"
| "as_array _ = None"

fun as_str :: "'f Value \<Rightarrow> string option" where
  "as_str (Str s) = Some s"
| "as_str _ = None"

fun as_bool :: "'f Value \<Rightarrow> bool option" where
  "as_bool (Bool b) = Some b"
| "as_bool _ = None"

text \<open>\<^verbatim>\<open>i64::try_from(u)\<close> fails above \<^verbatim>\<open>i64::MAX\<close>; \<^verbatim>\<open>i as u64\<close> keeps the bits.\<close>

fun as_i64 :: "'f Value \<Rightarrow> i64 option" where
  "as_i64 (IntV i) = Some i"
| "as_i64 (UInt u) = (if unat u < 2 ^ 63 then Some u else None)"
| "as_i64 _ = None"

fun as_u64 :: "'f Value \<Rightarrow> u64 option" where
  "as_u64 (UInt u) = Some u"
| "as_u64 (IntV i) = (if sint i \<ge> 0 then Some i else None)"
| "as_u64 _ = None"

fun is_null :: "'f Value \<Rightarrow> bool" where
  "is_null Null = True"
| "is_null _ = False"

text \<open>\<^verbatim>\<open>obj.iter().rev().find(..)\<close>: on duplicate keys the last entry wins.\<close>

definition find_key :: "(string \<times> 'f Value) list \<Rightarrow> string \<Rightarrow> 'f Value option" where
  "find_key obj key = map_option snd (find (\<lambda>(k, _). k = key) (rev obj))"

definition get :: "'f Value \<Rightarrow> string \<Rightarrow> 'f Value option" where
  "get v key = Option.bind (as_object v) (\<lambda>o1. find_key o1 key)"

definition get_index :: "'f Value \<Rightarrow> nat \<Rightarrow> 'f Value option" where
  "get_index v i = Option.bind (as_array v) (\<lambda>a. if i < length a then Some (a ! i) else None)"

section \<open>Scalar writers\<close>

definition digit_char :: "nat \<Rightarrow> char" where
  "digit_char d = char_of (48 + d)"

text \<open>The loop of \<^verbatim>\<open>write_u64\<close>: \<open>acc\<close> is \<^verbatim>\<open>buf[i..]\<close>, filled from the end.\<close>

function write_u64_loop :: "nat \<Rightarrow> string \<Rightarrow> string" where
  "write_u64_loop n acc =
     (let acc = digit_char (n mod 10) # acc; n = n div 10
      in if n = 0 then acc else write_u64_loop n acc)"
  by pat_completeness auto
termination by (relation "measure fst") (auto simp: div_eq_0_iff)

declare write_u64_loop.simps [simp del]

definition write_u64 :: "string \<Rightarrow> u64 \<Rightarrow> string" where
  "write_u64 out u = out @ write_u64_loop (unat u) []"

definition unsigned_abs :: "i64 \<Rightarrow> u64" where
  "unsigned_abs i = (if sint i < 0 then - i else i)"

definition write_i64 :: "string \<Rightarrow> i64 \<Rightarrow> string" where
  "write_i64 out i = write_u64 (if sint i < 0 then out @ ''-'' else out) (unsigned_abs i)"

text \<open>What the codecs use of \<^verbatim>\<open>f64\<close>: \<^verbatim>\<open>is_finite\<close>, \<^verbatim>\<open>Display\<close> and \<^verbatim>\<open>FromStr\<close>.\<close>

record 'f float_ops =
  f_finite :: "'f \<Rightarrow> bool"
  f_display :: "'f \<Rightarrow> string"
  f_parse :: "string \<Rightarrow> 'f option"

definition write_f64 :: "'f float_ops \<Rightarrow> string \<Rightarrow> 'f \<Rightarrow> string" where
  "write_f64 F out f = (if f_finite F f then out @ f_display F f else out @ ''null'')"

definition write_json_f64 :: "'f float_ops \<Rightarrow> string \<Rightarrow> 'f \<Rightarrow> string" where
  "write_json_f64 F out f =
     (if \<not> f_finite F f then out @ ''null''
      else let t = f_display F f
           in if \<not> list_ex (\<lambda>b. b \<in> set ''.eEni'') t then out @ t @ ''.0'' else out @ t)"

section \<open>Integer parsers\<close>

definition is_digit :: "char \<Rightarrow> bool" where
  "is_digit c \<longleftrightarrow> 48 \<le> (of_char c :: nat) \<and> (of_char c :: nat) \<le> 57"

definition digit_val :: "char \<Rightarrow> nat" where
  "digit_val c = of_char c - 48"

definition nat_of_digits :: "string \<Rightarrow> nat" where
  "nat_of_digits s = foldl (\<lambda>v c. 10 * v + digit_val c) 0 s"

definition all_digits :: "string \<Rightarrow> bool" where
  "all_digits s \<longleftrightarrow> s \<noteq> [] \<and> list_all is_digit s"

text \<open>\<^verbatim>\<open>text.parse::<u64>()\<close> and \<^verbatim>\<open>text.parse::<i64>()\<close>: an optional sign, at least one digit, and a value
  in range.\<close>

definition strip_plus :: "string \<Rightarrow> string" where
  "strip_plus s = (case s of c # r \<Rightarrow> if c = CHR ''+'' then r else s | [] \<Rightarrow> s)"

definition parse_u64 :: "string \<Rightarrow> u64 option" where
  "parse_u64 s =
     (let d = strip_plus s
      in if all_digits d \<and> nat_of_digits d < 2 ^ 64 then Some (of_nat (nat_of_digits d)) else None)"

definition parse_i64 :: "string \<Rightarrow> i64 option" where
  "parse_i64 s =
     (if s \<noteq> [] \<and> hd s = CHR ''-'' then
        let d = tl s
        in if all_digits d \<and> nat_of_digits d \<le> 2 ^ 63 then Some (- of_nat (nat_of_digits d)) else None
      else
        let d = strip_plus s
        in if all_digits d \<and> nat_of_digits d < 2 ^ 63 then Some (of_nat (nat_of_digits d)) else None)"

section \<open>The writers against a reference printer\<close>

fun decimal :: "nat \<Rightarrow> string" where
  "decimal n = (if n < 10 then [digit_char n] else decimal (n div 10) @ [digit_char (n mod 10)])"

declare decimal.simps [simp del]

lemma write_u64_loop_decimal: "write_u64_loop n acc = decimal n @ acc"
proof (induction n acc rule: write_u64_loop.induct)
  case (1 n acc)
  show ?case
  proof (cases "n div 10 = 0")
    case True
    then show ?thesis by (subst write_u64_loop.simps, subst decimal.simps) (simp add: div_eq_0_iff)
  next
    case False
    then have "write_u64_loop (n div 10) (digit_char (n mod 10) # acc) =
        decimal (n div 10) @ digit_char (n mod 10) # acc"
      by (intro "1.IH") auto
    with False show ?thesis
      by (simp add: write_u64_loop.simps [of n acc] decimal.simps [of n] Let_def div_eq_0_iff)
  qed
qed

lemma write_u64_eq: "write_u64 out u = out @ decimal (unat u)"
  by (simp add: write_u64_def write_u64_loop_decimal)

lemma digit_char_props:
  assumes "d < 10"
  shows "is_digit (digit_char d)" "digit_val (digit_char d) = d"
  using assms by (simp_all add: is_digit_def digit_val_def digit_char_def take_bit_eq_mod)

lemma digits_of_decimal: "all_digits (decimal n)"
proof (induction n rule: decimal.induct)
  case (1 n)
  then show ?case
    by (subst decimal.simps) (auto simp: all_digits_def digit_char_props)
qed

lemma nat_of_digits_snoc: "nat_of_digits (s @ [c]) = 10 * nat_of_digits s + digit_val c"
  by (simp add: nat_of_digits_def)

lemma nat_of_digits_decimal [simp]: "nat_of_digits (decimal n) = n"
proof (induction n rule: decimal.induct)
  case (1 n)
  show ?case
  proof (cases "n < 10")
    case True
    then show ?thesis
      by (subst decimal.simps) (simp add: nat_of_digits_def digit_char_props)
  next
    case False
    with "1.IH" show ?thesis
      by (subst decimal.simps) (simp add: nat_of_digits_snoc digit_char_props)
  qed
qed

lemma decimal_ne_Nil [simp]: "decimal n \<noteq> []"
  using digits_of_decimal [of n] by (auto simp: all_digits_def)

lemma length_decimal: "n < 10 ^ Suc k \<Longrightarrow> length (decimal n) \<le> Suc k"
proof (induction k arbitrary: n)
  case 0
  then show ?case by (subst decimal.simps) simp
next
  case (Suc k)
  show ?case
  proof (cases "n < 10")
    case True
    then show ?thesis by (subst decimal.simps) simp
  next
    case False
    have "n div 10 < 10 ^ Suc k" using Suc.prems by (simp add: div_less_iff_less_mult)
    then show ?thesis using Suc.IH False by (subst decimal.simps) simp
  qed
qed

lemma hd_decimal: "decimal n = c # r \<Longrightarrow> is_digit c"
  using digits_of_decimal [of n] by (simp add: all_digits_def)

lemma strip_plus_decimal [simp]: "strip_plus (decimal n) = decimal n"
  by (cases "decimal n") (auto simp: strip_plus_def is_digit_def dest: hd_decimal)

lemma parse_u64_decimal:
  "parse_u64 (decimal n) = (if n < 2 ^ 64 then Some (of_nat n) else None)"
  by (simp add: parse_u64_def digits_of_decimal)

lemma parse_i64_decimal:
  "parse_i64 (decimal n) = (if n < 2 ^ 63 then Some (of_nat n) else None)"
proof -
  obtain c r where c: "decimal n = c # r" by (cases "decimal n") simp
  then have "c \<noteq> CHR ''-''" using hd_decimal [OF c] by (auto simp: is_digit_def)
  then have "parse_i64 (decimal n) =
      (let d = strip_plus (decimal n)
       in if all_digits d \<and> nat_of_digits d < 2 ^ 63 then Some (of_nat (nat_of_digits d)) else None)"
    by (simp add: parse_i64_def c)
  then show ?thesis by (simp add: digits_of_decimal)
qed

lemma parse_i64_minus_decimal:
  "parse_i64 (CHR ''-'' # decimal n) = (if n \<le> 2 ^ 63 then Some (- of_nat n) else None)"
  by (simp add: parse_i64_def digits_of_decimal)

end
