(* ===== verification/Codec_Json.thy ===== *)
theory Codec_Json
  imports Codec_Value
begin

text \<open>
  The JSON codec of \<^verbatim>\<open>codec/json.rs\<close> with \<^verbatim>\<open>emit_value\<close> of \<^verbatim>\<open>codec/traits.rs\<close>. The encoder is the
  streaming \<^verbatim>\<open>JsonEncoder\<close> with its stack of first-entry flags (the head of the list is the last
  element of the \<^verbatim>\<open>Vec\<close>). The parser state is the input that remains: \<^verbatim>\<open>self.pos\<close> only ever moves
  forward, and every slice \<^verbatim>\<open>input[start..pos]\<close> is what was consumed in between.
\<close>

section \<open>Encoder\<close>

record JsonEncoder =
  out :: string
  first :: "bool list"

definition encoder_new :: JsonEncoder where
  "encoder_new = \<lparr>out = [], first = []\<rparr>"

definition push_str :: "string \<Rightarrow> JsonEncoder \<Rightarrow> JsonEncoder" where
  "push_str s e = e\<lparr>out := out e @ s\<rparr>"

definition sep :: "JsonEncoder \<Rightarrow> JsonEncoder" where
  "sep e = (case first e of
     [] \<Rightarrow> e
   | b # bs \<Rightarrow> if b then e\<lparr>first := False # bs\<rparr> else push_str '','' e)"

definition hex_digit :: "nat \<Rightarrow> char" where
  "hex_digit d = (if d < 10 then char_of (48 + d) else char_of (87 + d))"

text \<open>\<^verbatim>\<open>{:04x}\<close> of a value below 256.\<close>

definition hex4 :: "nat \<Rightarrow> string" where
  "hex4 n = [hex_digit (n div 4096 mod 16), hex_digit (n div 256 mod 16), hex_digit (n div 16 mod 16), hex_digit (n mod 16)]"

definition escape :: "char \<Rightarrow> string" where
  "escape b =
     (if b = CHR 0x22 then [CHR 0x5C, CHR 0x22]
      else if b = CHR 0x5C then [CHR 0x5C, CHR 0x5C]
      else if b = CHR 0x0A then [CHR 0x5C, CHR ''n'']
      else if b = CHR 0x0D then [CHR 0x5C, CHR ''r'']
      else if b = CHR 0x09 then [CHR 0x5C, CHR ''t'']
      else if b = CHR 0x08 then [CHR 0x5C, CHR ''b'']
      else if b = CHR 0x0C then [CHR 0x5C, CHR ''f'']
      else if of_char b < (32 :: nat) then [CHR 0x5C, CHR ''u''] @ hex4 (of_char b)
      else [b])"

text \<open>The loop of \<^verbatim>\<open>write_string\<close>: \<open>clean\<close> is the clean run \<^verbatim>\<open>s[start..i]\<close> not yet copied.\<close>

fun write_string_loop :: "string \<Rightarrow> string \<Rightarrow> string \<Rightarrow> string" where
  "write_string_loop o1 clean [] = o1 @ clean"
| "write_string_loop o1 clean (b # bs) =
     (if escape b = [b] then write_string_loop o1 (clean @ [b]) bs
      else write_string_loop (o1 @ clean @ escape b) [] bs)"

definition write_string :: "string \<Rightarrow> string \<Rightarrow> string" where
  "write_string o1 s = write_string_loop (o1 @ [CHR 0x22]) [] s @ [CHR 0x22]"

fun encode_bytes_loop :: "string \<Rightarrow> nat \<Rightarrow> bytes \<Rightarrow> string" where
  "encode_bytes_loop o1 i [] = o1"
| "encode_bytes_loop o1 i (b # bs) =
     encode_bytes_loop (write_u64 (if i > 0 then o1 @ '','' else o1) (ucast b)) (Suc i) bs"

definition encode_bytes :: "bytes \<Rightarrow> JsonEncoder \<Rightarrow> JsonEncoder" where
  "encode_bytes v e = e\<lparr>out := encode_bytes_loop (out e @ ''['') 0 v @ '']''\<rparr>"

definition begin_seq :: "JsonEncoder \<Rightarrow> JsonEncoder" where
  "begin_seq e = (push_str ''['' e)\<lparr>first := True # first e\<rparr>"

definition end_seq :: "JsonEncoder \<Rightarrow> JsonEncoder" where
  "end_seq e = (push_str '']'' e)\<lparr>first := tl (first e)\<rparr>"

definition begin_map :: "JsonEncoder \<Rightarrow> JsonEncoder" where
  "begin_map e = (push_str ''{'' e)\<lparr>first := True # first e\<rparr>"

definition end_map :: "JsonEncoder \<Rightarrow> JsonEncoder" where
  "end_map e = (push_str ''}'' e)\<lparr>first := tl (first e)\<rparr>"

fun emit_value :: "'f float_ops \<Rightarrow> 'f Value \<Rightarrow> JsonEncoder \<Rightarrow> JsonEncoder"
  and seq_entries :: "'f float_ops \<Rightarrow> 'f Value list \<Rightarrow> JsonEncoder \<Rightarrow> JsonEncoder"
  and map_entries :: "'f float_ops \<Rightarrow> (string \<times> 'f Value) list \<Rightarrow> JsonEncoder \<Rightarrow> JsonEncoder" where
  "emit_value F Null e = push_str ''null'' e"
| "emit_value F (Bool b) e = push_str (if b then ''true'' else ''false'') e"
| "emit_value F (IntV i) e = e\<lparr>out := write_i64 (out e) i\<rparr>"
| "emit_value F (UInt u) e = e\<lparr>out := write_u64 (out e) u\<rparr>"
| "emit_value F (Float f) e = e\<lparr>out := write_json_f64 F (out e) f\<rparr>"
| "emit_value F (Str s) e = e\<lparr>out := write_string (out e) s\<rparr>"
| "emit_value F (Bytes b) e = encode_bytes b e"
| "emit_value F (Array a) e = end_seq (seq_entries F a (begin_seq e))"
| "emit_value F (Object kvs) e = end_map (map_entries F kvs (begin_map e))"
| "seq_entries F [] e = e"
| "seq_entries F (v # vs) e = seq_entries F vs (emit_value F v (sep e))"
| "map_entries F [] e = e"
| "map_entries F ((k, v) # kvs) e =
     map_entries F kvs (emit_value F v
       (push_str '':'' (let e = sep e in e\<lparr>out := write_string (out e) k\<rparr>)))"

definition to_string :: "'f float_ops \<Rightarrow> 'f Value \<Rightarrow> string" where
  "to_string F v = out (emit_value F v encoder_new)"

section \<open>Parser\<close>

definition max_depth :: nat where
  "max_depth = 128"

type_synonym 'a parsed = "('a \<times> string, CodecError) result"

definition is_ws :: "char \<Rightarrow> bool" where
  "is_ws b \<longleftrightarrow> b = CHR '' '' \<or> b = CHR 0x09 \<or> b = CHR 0x0A \<or> b = CHR 0x0D"

definition skip_ws :: "string \<Rightarrow> string" where
  "skip_ws r = dropWhile is_ws r"

text \<open>UTF-8 encoding of a code point, and \<^verbatim>\<open>char::from_u32\<close>.\<close>

definition utf8 :: "nat \<Rightarrow> string" where
  "utf8 c =
     (if c < 128 then [char_of c]
      else if c < 2048 then [char_of (192 + c div 64), char_of (128 + c mod 64)]
      else if c < 65536 then
        [char_of (224 + c div 4096), char_of (128 + c div 64 mod 64), char_of (128 + c mod 64)]
      else [char_of (240 + c div 262144), char_of (128 + c div 4096 mod 64),
            char_of (128 + c div 64 mod 64), char_of (128 + c mod 64)])"

definition from_u32 :: "nat \<Rightarrow> nat option" where
  "from_u32 c = (if c < 55296 \<or> 57344 \<le> c \<and> c < 1114112 then Some c else None)"

definition expect :: "char \<Rightarrow> string \<Rightarrow> unit parsed" where
  "expect b r = (case r of
     c # r' \<Rightarrow> if c = b then Ok ((), r') else Err (Parse (''expected '' @ [CHR 0x27, b, CHR 0x27]))
   | [] \<Rightarrow> Err (Parse (''expected '' @ [CHR 0x27, b, CHR 0x27])))"

text \<open>Consume the next byte if it is \<open>b\<close>.\<close>

definition eat :: "char \<Rightarrow> string \<Rightarrow> string option" where
  "eat b r = (case r of c # r' \<Rightarrow> if c = b then Some r' else None | [] \<Rightarrow> None)"

definition to_digit16 :: "char \<Rightarrow> nat option" where
  "to_digit16 b =
     (let c = of_char b
      in if 48 \<le> c \<and> c \<le> 57 then Some (c - 48)
         else if 97 \<le> c \<and> c \<le> 102 then Some (c - 87)
         else if 65 \<le> c \<and> c \<le> 70 then Some (c - 55)
         else None)"

fun read_hex :: "nat \<Rightarrow> nat \<Rightarrow> string \<Rightarrow> nat parsed" where
  "read_hex 0 v r = Ok (v, r)"
| "read_hex (Suc n) v [] = Err (Parse ''short unicode escape'')"
| "read_hex (Suc n) v (b # r) =
     (case to_digit16 b of
        None \<Rightarrow> Err (Parse ''invalid hex digit'')
      | Some d \<Rightarrow> read_hex n (v * 16 + d) r)"

definition read_hex4 :: "string \<Rightarrow> nat parsed" where
  "read_hex4 r = read_hex 4 0 r"

definition parse_unicode_escape :: "string \<Rightarrow> nat parsed" where
  "parse_unicode_escape r = (case read_hex4 r of
     Err e \<Rightarrow> Err e
   | Ok (high, r1) \<Rightarrow>
       if 55296 \<le> high \<and> high \<le> 56319 then
         (case r1 of
            b # c # r2 \<Rightarrow>
              if b \<noteq> CHR 0x5C \<or> c \<noteq> CHR ''u'' then Err (Parse ''expected low surrogate'')
              else (case read_hex4 r2 of
                Err e \<Rightarrow> Err e
              | Ok (low, r3) \<Rightarrow>
                  if \<not> (56320 \<le> low \<and> low \<le> 57343) then Err (Parse ''invalid low surrogate'')
                  else (case from_u32 (65536 + (high - 55296) * 1024 + (low - 56320)) of
                    None \<Rightarrow> Err (Parse ''invalid surrogate pair'')
                  | Some c \<Rightarrow> Ok (c, r3)))
          | _ \<Rightarrow> Err (Parse ''expected low surrogate''))
       else (case from_u32 high of
         None \<Rightarrow> Err (Parse ''invalid unicode escape'')
       | Some c \<Rightarrow> Ok (c, r1)))"

lemma read_hex_length: "read_hex n v r = Ok (x, r') \<Longrightarrow> length r' + n = length r"
  by (induction n v r rule: read_hex.induct) (auto split: option.splits)

lemma parse_unicode_escape_length:
  "parse_unicode_escape r = Ok (x, r') \<Longrightarrow> length r' < length r"
  by (auto simp: parse_unicode_escape_def read_hex4_def
      split: sum.splits if_splits list.splits option.splits dest!: read_hex_length)

text \<open>The slow path: \<open>s\<close> is what has been decoded, including the current clean run.\<close>

definition simple_escape :: "char \<Rightarrow> char option" where
  "simple_escape b =
     (if b = CHR 0x22 then Some (CHR 0x22)
      else if b = CHR 0x5C then Some (CHR 0x5C)
      else if b = CHR ''/'' then Some (CHR ''/'')
      else if b = CHR ''n'' then Some (CHR 0x0A)
      else if b = CHR ''t'' then Some (CHR 0x09)
      else if b = CHR ''r'' then Some (CHR 0x0D)
      else if b = CHR ''b'' then Some (CHR 0x08)
      else if b = CHR ''f'' then Some (CHR 0x0C)
      else None)"

function parse_string_escaped :: "string \<Rightarrow> string \<Rightarrow> string parsed" where
  "parse_string_escaped s [] = Err (Parse ''unterminated string'')"
| "parse_string_escaped s (b # r) =
     (if b = CHR 0x22 then Ok (s, r)
      else if b = CHR 0x5C then
        (case r of
           [] \<Rightarrow> Err (Parse ''invalid escape sequence'')
         | c # r1 \<Rightarrow>
             (case simple_escape c of
                Some d \<Rightarrow> parse_string_escaped (s @ [d]) r1
              | None \<Rightarrow>
                  if c = CHR ''u'' then
                    (case parse_unicode_escape r1 of
                       Err e \<Rightarrow> Err e
                     | Ok (cp, r2) \<Rightarrow> parse_string_escaped (s @ utf8 cp) r2)
                  else Err (Parse ''invalid escape sequence'')))
      else parse_string_escaped (s @ [b]) r)"
  by pat_completeness auto
termination
  by (relation "measure (\<lambda>(_, r). length r)") (auto dest: parse_unicode_escape_length)

text \<open>The fast path: a string without escapes is the slice up to the closing quote.\<close>

definition plain_byte :: "char \<Rightarrow> bool" where
  "plain_byte b \<longleftrightarrow> b \<noteq> CHR 0x22 \<and> b \<noteq> CHR 0x5C"

definition parse_string :: "string \<Rightarrow> string parsed" where
  "parse_string r = (case expect (CHR 0x22) r of
     Err e \<Rightarrow> Err e
   | Ok (_, r1) \<Rightarrow>
       let clean = takeWhile plain_byte r1; r2 = dropWhile plain_byte r1
       in case r2 of
            [] \<Rightarrow> Err (Parse ''unterminated string'')
          | b # r3 \<Rightarrow> if b = CHR 0x22 then Ok (clean, r3) else parse_string_escaped clean r2)"

definition take_literal :: "string \<Rightarrow> string \<Rightarrow> string option" where
  "take_literal lit r = (if take (length lit) r = lit then Some (drop (length lit) r) else None)"

definition parse_bool :: "string \<Rightarrow> 'f Value parsed" where
  "parse_bool r = (case take_literal ''true'' r of
     Some r' \<Rightarrow> Ok (Bool True, r')
   | None \<Rightarrow> (case take_literal ''false'' r of
       Some r' \<Rightarrow> Ok (Bool False, r')
     | None \<Rightarrow> Err (Parse ''invalid literal'')))"

definition parse_null :: "string \<Rightarrow> 'f Value parsed" where
  "parse_null r = (case take_literal ''null'' r of
     Some r' \<Rightarrow> Ok (Null, r')
   | None \<Rightarrow> Err (Parse ''invalid literal''))"

definition float_mark :: "char \<Rightarrow> bool" where
  "float_mark b \<longleftrightarrow> b \<in> set ''.eE+-''"

text \<open>The tail of \<^verbatim>\<open>parse_number\<close>: what the scanned text denotes.\<close>

definition number_value :: "'f float_ops \<Rightarrow> bool \<Rightarrow> string \<Rightarrow> ('f Value, CodecError) result" where
  "number_value F is_float text =
     (let as_float = (case f_parse F text of
            Some f \<Rightarrow> Ok (Float f)
          | None \<Rightarrow> Err (Parse (''invalid number: '' @ text)))
      in if is_float then as_float
         else case parse_i64 text of
                Some i \<Rightarrow> Ok (IntV i)
              | None \<Rightarrow> (case parse_u64 text of Some u \<Rightarrow> Ok (UInt u) | None \<Rightarrow> as_float))"

definition number_sign :: "string \<Rightarrow> string" where
  "number_sign r = (case r of b # _ \<Rightarrow> if b = CHR ''-'' then [b] else [] | [] \<Rightarrow> [])"

definition parse_number :: "'f float_ops \<Rightarrow> string \<Rightarrow> 'f Value parsed" where
  "parse_number F r =
     (let sign = number_sign r;
          body = takeWhile (\<lambda>b. is_digit b \<or> float_mark b) (drop (length sign) r);
          r2 = dropWhile (\<lambda>b. is_digit b \<or> float_mark b) (drop (length sign) r)
      in map_sum id (\<lambda>v. (v, r2)) (number_value F (list_ex float_mark body) (sign @ body)))"

text \<open>
  The recursive descent. \<open>depth\<close> is \<^verbatim>\<open>self.depth\<close> on entry, which every return restores. The
  first argument is fuel; \<open>None\<close> means it ran out, and \<open>from_str\<close> provides twice the length of
  the input and two, which is shown to be enough.
\<close>

fun parse_value :: "nat \<Rightarrow> 'f float_ops \<Rightarrow> nat \<Rightarrow> string \<Rightarrow> 'f Value parsed option"
  and parse_members :: "nat \<Rightarrow> 'f float_ops \<Rightarrow> nat \<Rightarrow> (string \<times> 'f Value) list \<Rightarrow> string \<Rightarrow>
    'f Value parsed option"
  and parse_elements :: "nat \<Rightarrow> 'f float_ops \<Rightarrow> nat \<Rightarrow> 'f Value list \<Rightarrow> string \<Rightarrow>
    'f Value parsed option" where
  "parse_value 0 F depth r = None"
| "parse_value (Suc fuel) F depth r = (case skip_ws r of
     [] \<Rightarrow> Some (Err (Parse ''unexpected end of input''))
   | b # r1 \<Rightarrow>
       if b = CHR ''{'' then
         if depth + 1 > max_depth then Some (Err (Parse ''nesting too deep''))
         else (case eat (CHR ''}'') (skip_ws r1) of
           Some r2 \<Rightarrow> Some (Ok (Object [], r2))
         | None \<Rightarrow> parse_members fuel F (depth + 1) [] (skip_ws r1))
       else if b = CHR ''['' then
         if depth + 1 > max_depth then Some (Err (Parse ''nesting too deep''))
         else (case eat (CHR '']'') (skip_ws r1) of
           Some r2 \<Rightarrow> Some (Ok (Array [], r2))
         | None \<Rightarrow> parse_elements fuel F (depth + 1) [] (skip_ws r1))
       else if b = CHR 0x22 then
         Some (case parse_string (b # r1) of Err e \<Rightarrow> Err e | Ok (s, r2) \<Rightarrow> Ok (Str s, r2))
       else if b = CHR ''t'' \<or> b = CHR ''f'' then Some (parse_bool (b # r1))
       else if b = CHR ''n'' then Some (parse_null (b # r1))
       else if b = CHR ''-'' \<or> is_digit b then Some (parse_number F (b # r1))
       else Some (Err (Parse (''unexpected character '' @ [CHR 0x27] @ utf8 (of_char b) @ [CHR 0x27]))))"
| "parse_members 0 F depth entries r = None"
| "parse_members (Suc fuel) F depth entries r =
     (case parse_string (skip_ws r) of
        Err e \<Rightarrow> Some (Err e)
      | Ok (key, r1) \<Rightarrow>
          (case expect (CHR '':'') (skip_ws r1) of
             Err e \<Rightarrow> Some (Err e)
           | Ok (_, r2) \<Rightarrow>
               (case parse_value fuel F depth r2 of
                  None \<Rightarrow> None
                | Some (Err e) \<Rightarrow> Some (Err e)
                | Some (Ok (v, r3)) \<Rightarrow>
                    (case eat (CHR '','') (skip_ws r3) of
                       Some r4 \<Rightarrow> parse_members fuel F depth (entries @ [(key, v)]) r4
                     | None \<Rightarrow> (case eat (CHR ''}'') (skip_ws r3) of
                         Some r4 \<Rightarrow> Some (Ok (Object (entries @ [(key, v)]), r4))
                       | None \<Rightarrow> Some (Err (Parse (''expected '' @ [CHR 0x27] @ '','' @ [CHR 0x27] @
                           '' or '' @ [CHR 0x27] @ ''}'' @ [CHR 0x27] @ '' in object''))))))))"
| "parse_elements 0 F depth items r = None"
| "parse_elements (Suc fuel) F depth items r =
     (case parse_value fuel F depth r of
        None \<Rightarrow> None
      | Some (Err e) \<Rightarrow> Some (Err e)
      | Some (Ok (v, r1)) \<Rightarrow>
          (case eat (CHR '','') (skip_ws r1) of
             Some r2 \<Rightarrow> parse_elements fuel F depth (items @ [v]) r2
           | None \<Rightarrow> (case eat (CHR '']'') (skip_ws r1) of
               Some r2 \<Rightarrow> Some (Ok (Array (items @ [v]), r2))
             | None \<Rightarrow> Some (Err (Parse (''expected '' @ [CHR 0x27] @ '','' @ [CHR 0x27] @ '' or '' @
                 [CHR 0x27] @ '']'' @ [CHR 0x27] @ '' in array''))))))"

definition from_str :: "'f float_ops \<Rightarrow> string \<Rightarrow> ('f Value, CodecError) result option" where
  "from_str F input = (case parse_value (2 * length input + 2) F 0 (skip_ws input) of
     None \<Rightarrow> None
   | Some (Err e) \<Rightarrow> Some (Err e)
   | Some (Ok (v, r)) \<Rightarrow>
       Some (if skip_ws r \<noteq> [] then Err (Parse ''trailing characters after JSON value'') else Ok v))"

end
