(* ===== verification/Codec_Json_Correct.thy ===== *)
theory Codec_Json_Correct
  imports Codec_Json
begin

text \<open>
  Correctness of the JSON codec: the streaming encoder prints the reference text, the parser ends on
  every input with the fuel it is given, and parsing what was printed returns the value, up to the
  representation changes the format makes (small unsigned integers come back signed, byte strings
  as arrays, non-finite floats as null).
\<close>

section \<open>Consumption and fuel\<close>

lemma skip_ws_length: "length (skip_ws r) \<le> length r"
  by (simp add: skip_ws_def length_dropWhile_le)

lemma eat_Some: "eat b r = Some r' \<longleftrightarrow> r = b # r'"
  by (auto simp: eat_def split: list.splits)

lemma expect_Ok: "expect b r = Ok (u, r') \<longleftrightarrow> r = b # r'"
  by (auto simp: expect_def split: list.splits)

lemma parse_string_escaped_length:
  "parse_string_escaped s r = Ok (x, r') \<Longrightarrow> length r' < length r"
proof (induction s r rule: parse_string_escaped.induct)
  case (2 s b r)
  show ?case
  proof (cases "b = CHR 0x22 \<or> b \<noteq> CHR 0x5C")
    case True
    then show ?thesis using 2 by (auto split: if_splits)
  next
    case False
    then obtain c r1 where r: "r = c # r1" using 2(4) by (cases r) auto
    show ?thesis
      using 2 False r
      by (fastforce split: option.splits if_splits sum.splits dest: parse_unicode_escape_length)
  qed
qed simp

lemma parse_string_length:
  assumes "parse_string r = Ok (x, r')"
  shows "length r' < length r"
proof -
  obtain r1 where r: "r = CHR 0x22 # r1"
    using assms by (auto simp: parse_string_def expect_def split: sum.splits list.splits if_splits)
  have "length r' < length (dropWhile plain_byte r1)"
  proof (cases "dropWhile plain_byte r1")
    case Nil
    have "parse_string r = Err (Parse ''unterminated string'')"
      by (simp add: r parse_string_def expect_def Let_def Nil del: dropWhile_eq_Nil_conv)
    then show ?thesis using assms by simp
  next
    case (Cons b r3)
    show ?thesis
    proof (cases "b = CHR 0x22")
      case True
      then show ?thesis using assms r Cons by (simp add: parse_string_def expect_def)
    next
      case False
      then have "parse_string_escaped (takeWhile plain_byte r1) (b # r3) = Ok (x, r')"
        using assms r Cons
        by (simp add: parse_string_def expect_def Let_def del: parse_string_escaped.simps)
      then show ?thesis unfolding Cons by (rule parse_string_escaped_length)
    qed
  qed
  also have "\<dots> \<le> length r1" by (rule length_dropWhile_le)
  finally show ?thesis using r by simp
qed

lemma take_literal_length:
  "take_literal lit r = Some r' \<Longrightarrow> lit \<noteq> [] \<Longrightarrow> length r' < length r"
  by (cases r) (auto simp: take_literal_def split: if_splits)

lemma parse_bool_length: "parse_bool r = Ok (x, r') \<Longrightarrow> length r' < length r"
  by (auto simp: parse_bool_def split: option.splits dest: take_literal_length)

lemma parse_null_length: "parse_null r = Ok (x, r') \<Longrightarrow> length r' < length r"
  by (auto simp: parse_null_def split: option.splits dest: take_literal_length)

lemma parse_number_length:
  assumes "parse_number F (b # r) = Ok (x, r')" and "b = CHR ''-'' \<or> is_digit b"
  shows "length r' < length (b # r)"
proof -
  have "r' = dropWhile (\<lambda>b. is_digit b \<or> float_mark b) (drop (length (number_sign (b # r))) (b # r))"
    using assms(1) by (auto simp: parse_number_def Let_def map_sum_def split: sum.splits)
  then have "r' = dropWhile (\<lambda>b. is_digit b \<or> float_mark b) (if b = CHR ''-'' then r else b # r)"
    by (simp add: number_sign_def)
  moreover have "length (dropWhile (\<lambda>b. is_digit b \<or> float_mark b) r) \<le> length r"
    by (rule length_dropWhile_le)
  ultimately show ?thesis using assms(2) by (auto split: if_splits)
qed

lemmas lengths = parse_string_length parse_bool_length parse_null_length parse_number_length

lemma parse_consumes:
  "parse_value fuel F depth r = Some (Ok (v, r')) \<Longrightarrow> length r' < length r"
  "parse_members fuel F depth entries r = Some (Ok (v, r')) \<Longrightarrow> length r' < length r"
  "parse_elements fuel F depth items r = Some (Ok (v, r')) \<Longrightarrow> length r' < length r"
proof (induction fuel F depth r and fuel F depth entries r and fuel F depth items r
    arbitrary: v r' and v r' and v r' rule: parse_value_parse_members_parse_elements.induct)
  case (2 fuel F depth r)
  from 2(3) obtain b r1 where ws: "skip_ws r = b # r1" by (cases "skip_ws r") auto
  have le: "length (b # r1) \<le> length r" using skip_ws_length [of r] ws by simp
  have "length r' < length (b # r1)"
  proof -
    consider (obj) "b = CHR ''{''" | (arr) "b = CHR ''[''" | (str) "b = CHR 0x22"
      | (bool) "b = CHR ''t'' \<or> b = CHR ''f''" | (null) "b = CHR ''n''"
      | (num) "b = CHR ''-'' \<or> is_digit b" "b \<notin> set ''{[tfn'' \<union> {CHR 0x22}"
      using 2(3) ws by (auto split: if_splits)
    then show ?thesis
    proof cases
      case obj
      with 2(3) ws have d: "\<not> depth + 1 > max_depth" by (auto split: if_splits)
      show ?thesis
      proof (cases "eat (CHR ''}'') (skip_ws r1)")
        case None
        with 2(3) ws obj d have "parse_members fuel F (depth + 1) [] (skip_ws r1) = Some (Ok (v, r'))"
          by simp
        then have "length r' < length (skip_ws r1)" using 2(1) [OF ws obj d None] by simp
        then show ?thesis using skip_ws_length [of r1] by simp
      next
        case (Some r2)
        with 2(3) ws obj d show ?thesis using skip_ws_length [of r1] by (simp add: eat_Some)
      qed
    next
      case arr
      with 2(3) ws have d: "\<not> depth + 1 > max_depth" by (auto split: if_splits)
      have nb: "b \<noteq> CHR ''{''" using arr by simp
      show ?thesis
      proof (cases "eat (CHR '']'') (skip_ws r1)")
        case None
        with 2(3) ws arr d have "parse_elements fuel F (depth + 1) [] (skip_ws r1) = Some (Ok (v, r'))"
          by simp
        then have "length r' < length (skip_ws r1)" using 2(2) [OF ws nb arr d None] by simp
        then show ?thesis using skip_ws_length [of r1] by simp
      next
        case (Some r2)
        with 2(3) ws arr d show ?thesis using skip_ws_length [of r1] by (simp add: eat_Some)
      qed
    next
      case str
      with 2(3) ws show ?thesis by (auto split: sum.splits dest: parse_string_length)
    next
      case bool
      with 2(3) ws have "parse_bool (b # r1) = Ok (v, r')" by auto
      then show ?thesis by (rule parse_bool_length)
    next
      case null
      with 2(3) ws have "parse_null (b # r1) = Ok (v, r')" by auto
      then show ?thesis by (rule parse_null_length)
    next
      case num
      with 2(3) ws have "parse_number F (b # r1) = Ok (v, r')" by auto
      then show ?thesis by (rule parse_number_length) (rule num(1))
    qed
  qed
  then show ?case using le by simp
next
  case (4 fuel F depth entries r)
  from 4(3) obtain key r1 where k: "parse_string (skip_ws r) = Ok (key, r1)"
    by (auto split: sum.splits)
  with 4(3) obtain u r2 where c: "expect (CHR '':'') (skip_ws r1) = Ok (u, r2)"
    by (auto split: sum.splits)
  with 4(3) k obtain w r3 where p: "parse_value fuel F depth r2 = Some (Ok (w, r3))"
    by (auto split: option.splits sum.splits)
  have "length r1 < length r" using parse_string_length [OF k] skip_ws_length [of r] by simp
  moreover have "length r2 < length r1" using c skip_ws_length [of r1] by (simp add: expect_Ok)
  moreover have "length r3 < length r2" by (rule 4(1) [OF k refl c refl p])
  moreover have "length r' < length r3"
  proof (cases "eat (CHR '','') (skip_ws r3)")
    case None
    then show ?thesis using 4(3) k c p skip_ws_length [of r3]
      by (auto simp: eat_Some split: option.splits)
  next
    case (Some r4)
    then have "length r' < length r4"
      using 4(3) 4(2) [OF k refl c refl p refl refl Some] k c p by simp
    then show ?thesis using Some skip_ws_length [of r3] by (simp add: eat_Some)
  qed
  ultimately show ?case by simp
next
  case (6 fuel F depth items r)
  from 6(3) obtain w r1 where p: "parse_value fuel F depth r = Some (Ok (w, r1))"
    by (auto split: option.splits sum.splits)
  have "length r1 < length r" by (rule 6(1) [OF p])
  moreover have "length r' < length r1"
  proof (cases "eat (CHR '','') (skip_ws r1)")
    case None
    then show ?thesis using 6(3) p skip_ws_length [of r1]
      by (auto simp: eat_Some split: option.splits)
  next
    case (Some r2)
    then have "length r' < length r2" using 6(3) 6(2) [OF p refl refl Some] p by simp
    then show ?thesis using Some skip_ws_length [of r1] by (simp add: eat_Some)
  qed
  ultimately show ?case by simp
qed simp_all

lemma parse_total:
  "2 * length r < fuel \<Longrightarrow> parse_value fuel F depth r \<noteq> None"
  "2 * length r + 1 < fuel \<Longrightarrow> parse_members fuel F depth entries r \<noteq> None"
  "2 * length r + 1 < fuel \<Longrightarrow> parse_elements fuel F depth items r \<noteq> None"
proof (induction fuel F depth r and fuel F depth entries r and fuel F depth items r
    rule: parse_value_parse_members_parse_elements.induct)
  case (2 fuel F depth r)
  show ?case
  proof (cases "skip_ws r")
    case (Cons b r1)
    have le: "2 * length (skip_ws r1) + 1 < fuel"
      using 2(3) skip_ws_length [of r] skip_ws_length [of r1] Cons by simp
    have m: "parse_members fuel F (depth + 1) [] (skip_ws r1) \<noteq> None"
      if "b = CHR ''{''" "\<not> max_depth < depth + 1" "eat (CHR ''}'') (skip_ws r1) = None"
      using 2(1) [OF Cons that le] .
    have e: "parse_elements fuel F (depth + 1) [] (skip_ws r1) \<noteq> None"
      if "b \<noteq> CHR ''{''" "b = CHR ''[''" "\<not> max_depth < depth + 1" "eat (CHR '']'') (skip_ws r1) = None"
      using 2(2) [OF Cons that le] .
    show ?thesis using m e Cons by (simp split: option.split del: not_None_eq)
  qed simp
next
  case (4 fuel F depth entries r)
  show ?case
  proof (cases "parse_string (skip_ws r)")
    case (Inr kr)
    obtain key r1 where kr: "kr = (key, r1)" by (cases kr)
    note k = Inr [unfolded kr]
    show ?thesis
    proof (cases "expect (CHR '':'') (skip_ws r1)")
      case (Inr ur)
      obtain u r2 where ur: "ur = (u, r2)" by (cases ur)
      note c = Inr [unfolded ur]
      have "length r2 + 1 < length r"
        using parse_string_length [OF k] c skip_ws_length [of r] skip_ws_length [of r1]
        by (simp add: expect_Ok)
      then have "parse_value fuel F depth r2 \<noteq> None"
        using 4(1) [OF k refl c refl] 4(3) by simp
      then obtain res where res: "parse_value fuel F depth r2 = Some res" by blast
      show ?thesis
      proof (cases res)
        case (Inl e)
        then show ?thesis using k c res by simp
      next
        case (Inr vr)
        obtain v r3 where vr: "vr = (v, r3)" by (cases vr)
        note p = res [unfolded Inr vr]
        have r3: "length r3 < length r2" by (rule parse_consumes(1) [OF p])
        show ?thesis
        proof (cases "eat (CHR '','') (skip_ws r3)")
          case None
          then show ?thesis using k c p by (simp split: option.split)
        next
          case (Some r4)
          then have "2 * length r4 + 1 < fuel"
            using 4(3) r3 \<open>length r2 + 1 < length r\<close> skip_ws_length [of r3] by (simp add: eat_Some)
          then show ?thesis using 4(2) [OF k refl c refl p refl refl Some] k c p Some by simp
        qed
      qed
    qed (use k in simp)
  qed simp
next
  case (6 fuel F depth items r)
  have "parse_value fuel F depth r \<noteq> None" using 6(1,3) by simp
  then obtain res where res: "parse_value fuel F depth r = Some res" by blast
  show ?case
  proof (cases res)
    case (Inl e)
    then show ?thesis using res by simp
  next
    case (Inr vr)
    obtain v r1 where vr: "vr = (v, r1)" by (cases vr)
    note p = res [unfolded Inr vr]
    have r1: "length r1 < length r" by (rule parse_consumes(1) [OF p])
    show ?thesis
    proof (cases "eat (CHR '','') (skip_ws r1)")
      case None
      then show ?thesis using p by (simp split: option.split)
    next
      case (Some r2)
      then have "2 * length r2 + 1 < fuel"
        using 6(3) r1 skip_ws_length [of r1] by (simp add: eat_Some)
      then show ?thesis using 6(2) [OF p refl refl Some] p Some by simp
    qed
  qed
qed simp_all

section \<open>The encoder prints the reference text\<close>

definition quote :: "string \<Rightarrow> string" where
  "quote s = [CHR 0x22] @ concat (map escape s) @ [CHR 0x22]"

lemma write_string_loop_eq:
  "write_string_loop o1 clean s = o1 @ clean @ concat (map escape s)"
  by (induction o1 clean s rule: write_string_loop.induct) auto

lemma write_string_eq: "write_string o1 s = o1 @ quote s"
  by (simp add: write_string_def write_string_loop_eq quote_def)

fun bytes_text :: "bytes \<Rightarrow> string" where
  "bytes_text [] = []"
| "bytes_text (b # bs) = decimal (unat b) @ (if bs = [] then [] else '','' @ bytes_text bs)"

definition int_text :: "i64 \<Rightarrow> string" where
  "int_text i = (if sint i < 0 then ''-'' else []) @ decimal (unat (unsigned_abs i))"

definition float_text :: "'f float_ops \<Rightarrow> 'f \<Rightarrow> string" where
  "float_text F f = write_json_f64 F [] f"

fun json_text :: "'f float_ops \<Rightarrow> 'f Value \<Rightarrow> string"
  and elems_text :: "'f float_ops \<Rightarrow> 'f Value list \<Rightarrow> string"
  and members_text :: "'f float_ops \<Rightarrow> (string \<times> 'f Value) list \<Rightarrow> string" where
  "json_text F Null = ''null''"
| "json_text F (Bool b) = (if b then ''true'' else ''false'')"
| "json_text F (IntV i) = int_text i"
| "json_text F (UInt u) = decimal (unat u)"
| "json_text F (Float f) = float_text F f"
| "json_text F (Str s) = quote s"
| "json_text F (Bytes bs) = ''['' @ bytes_text bs @ '']''"
| "json_text F (Array vs) = ''['' @ elems_text F vs @ '']''"
| "json_text F (Object kvs) = ''{'' @ members_text F kvs @ ''}''"
| "elems_text F [] = []"
| "elems_text F (v # vs) = json_text F v @ (if vs = [] then [] else '','' @ elems_text F vs)"
| "members_text F [] = []"
| "members_text F ((k, v) # kvs) =
     quote k @ '':'' @ json_text F v @ (if kvs = [] then [] else '','' @ members_text F kvs)"

lemma write_i64_eq: "write_i64 o1 i = o1 @ int_text i"
  by (simp add: write_i64_def write_u64_eq int_text_def)

lemma write_json_f64_eq: "write_json_f64 F o1 f = o1 @ float_text F f"
  by (simp add: write_json_f64_def float_text_def Let_def)

lemma unat_ucast_byte: "unat (ucast b :: u64) = unat (b :: u8)"
proof -
  have "unat b < 2 ^ 8" using unsigned_less [of b] by simp
  then have "unat b < 2 ^ 64" by simp
  then show ?thesis by (simp add: unsigned_ucast_eq take_bit_nat_eq_self)
qed

lemma encode_bytes_loop_eq:
  "encode_bytes_loop o1 i bs = o1 @ (if bs \<noteq> [] \<and> i > 0 then '','' else []) @ bytes_text bs"
  by (induction o1 i bs rule: encode_bytes_loop.induct)
    (auto simp: write_u64_eq unat_ucast_byte)

text \<open>Within a container the flag on top of the stack says whether a separator is due.\<close>

lemma emit_eq:
  "emit_value F v e = e\<lparr>out := out e @ json_text F v\<rparr>"
  "first e = b # bs \<Longrightarrow> seq_entries F vs e =
     e\<lparr>out := out e @ (if vs \<noteq> [] \<and> \<not> b then '','' else []) @ elems_text F vs,
       first := (if vs = [] then b else False) # bs\<rparr>"
  "first e = b # bs \<Longrightarrow> map_entries F kvs e =
     e\<lparr>out := out e @ (if kvs \<noteq> [] \<and> \<not> b then '','' else []) @ members_text F kvs,
       first := (if kvs = [] then b else False) # bs\<rparr>"
proof (induction F v e and F vs e and F kvs e arbitrary: and b bs and b bs
    rule: emit_value_seq_entries_map_entries.induct)
  case (11 F v vs e)
  then show ?case by (auto simp: sep_def push_str_def)
next
  case (13 F k v kvs e)
  then show ?case by (auto simp: sep_def push_str_def Let_def write_string_eq)
qed (simp_all add: push_str_def write_i64_eq write_u64_eq write_json_f64_eq write_string_eq
    encode_bytes_def encode_bytes_loop_eq begin_seq_def end_seq_def begin_map_def end_map_def)

lemma to_string_eq: "to_string F v = json_text F v"
  by (simp add: to_string_def emit_eq(1) encoder_new_def)

section \<open>Parsing what was printed\<close>

text \<open>A number token ends where the next byte cannot continue it.\<close>

definition stops :: "string \<Rightarrow> bool" where
  "stops r \<longleftrightarrow> (case r of [] \<Rightarrow> True | c # _ \<Rightarrow> \<not> is_digit c \<and> \<not> float_mark c)"

lemma stops_simps [simp]: "stops []" "stops (c # r) \<longleftrightarrow> \<not> is_digit c \<and> \<not> float_mark c"
  by (simp_all add: stops_def)

lemma token_split:
  assumes "list_all (\<lambda>b. is_digit b \<or> float_mark b) t" and "stops r"
  shows "takeWhile (\<lambda>b. is_digit b \<or> float_mark b) (t @ r) = t"
    "dropWhile (\<lambda>b. is_digit b \<or> float_mark b) (t @ r) = r"
  using assms by (cases r; auto simp: list_all_iff)+

lemma digits_no_mark: "all_digits t \<Longrightarrow> \<not> list_ex float_mark t"
  by (auto simp: all_digits_def list_all_iff list_ex_iff is_digit_def float_mark_def)

lemma digit_not_minus: "is_digit c \<Longrightarrow> c \<noteq> CHR ''-''"
  by (auto simp: is_digit_def)

lemma parse_number_token:
  assumes "sg = [] \<or> sg = ''-''" and "list_all (\<lambda>b. is_digit b \<or> float_mark b) (c # t)"
    and "is_digit c" and "stops r"
  shows "parse_number F (sg @ c # t @ r) =
    map_sum id (\<lambda>v. (v, r)) (number_value F (list_ex float_mark (c # t)) (sg @ c # t))"
proof -
  have "number_sign (sg @ c # t @ r) = sg"
    using assms(1,3) by (auto simp: number_sign_def digit_not_minus)
  moreover have "drop (length sg) (sg @ c # t @ r) = (c # t) @ r" by simp
  ultimately show ?thesis
    unfolding parse_number_def Let_def using token_split [OF assms(2,4)] by presburger
qed

lemma parse_number_digits:
  assumes "sg = [] \<or> sg = ''-''" and "all_digits t" and "stops r"
  shows "parse_number F (sg @ t @ r) =
    map_sum id (\<lambda>v. (v, r)) (number_value F False (sg @ t))"
proof -
  obtain c t' where t: "t = c # t'" and c: "is_digit c"
    using assms(2) by (cases t) (auto simp: all_digits_def)
  have all: "list_all (\<lambda>b. is_digit b \<or> float_mark b) (c # t')"
    using assms(2) t by (auto simp: all_digits_def list_all_iff)
  show ?thesis
    using parse_number_token [OF assms(1) all c assms(3), of F] digits_no_mark [OF assms(2)] t by simp
qed

text \<open>Values as they come back from JSON text.\<close>

fun normal :: "'f float_ops \<Rightarrow> 'f Value \<Rightarrow> 'f Value"
  and normal_list :: "'f float_ops \<Rightarrow> 'f Value list \<Rightarrow> 'f Value list"
  and normal_entries :: "'f float_ops \<Rightarrow> (string \<times> 'f Value) list \<Rightarrow> (string \<times> 'f Value) list" where
  "normal F Null = Null"
| "normal F (Bool b) = Bool b"
| "normal F (IntV i) = IntV i"
| "normal F (UInt u) = (if unat u < 2 ^ 63 then IntV u else UInt u)"
| "normal F (Float f) = (if f_finite F f then Float f else Null)"
| "normal F (Str s) = Str s"
| "normal F (Bytes bs) = Array (map (\<lambda>b. IntV (ucast b)) bs)"
| "normal F (Array vs) = Array (normal_list F vs)"
| "normal F (Object kvs) = Object (normal_entries F kvs)"
| "normal_list F [] = []"
| "normal_list F (v # vs) = normal F v # normal_list F vs"
| "normal_entries F [] = []"
| "normal_entries F ((k, v) # kvs) = (k, normal F v) # normal_entries F kvs"

fun depth_of :: "'f Value \<Rightarrow> nat"
  and depth_list :: "'f Value list \<Rightarrow> nat"
  and depth_entries :: "(string \<times> 'f Value) list \<Rightarrow> nat" where
  "depth_of (Bytes bs) = 1"
| "depth_of (Array vs) = Suc (depth_list vs)"
| "depth_of (Object kvs) = Suc (depth_entries kvs)"
| "depth_of _ = 0"
| "depth_list [] = 0"
| "depth_list (v # vs) = max (depth_of v) (depth_list vs)"
| "depth_entries [] = 0"
| "depth_entries ((k, v) # kvs) = max (depth_of v) (depth_entries kvs)"

text \<open>What the codec relies on from \<^verbatim>\<open>f64\<close>: \<^verbatim>\<open>Display\<close> prints an optional sign, digits and an optional
  fraction, and \<^verbatim>\<open>FromStr\<close> reads it back, also with \<^verbatim>\<open>.0\<close> appended to an integral one.\<close>

definition float_form :: "'f float_ops \<Rightarrow> 'f \<Rightarrow> string \<Rightarrow> string \<Rightarrow> string \<Rightarrow> bool" where
  "float_form F f sg ip fp \<longleftrightarrow> (sg = [] \<or> sg = ''-'') \<and> all_digits ip \<and>
     (fp = [] \<or> hd fp = CHR ''.'' \<and> all_digits (tl fp)) \<and>
     f_display F f = sg @ ip @ fp \<and> f_parse F (sg @ ip @ fp) = Some f \<and>
     (fp = [] \<longrightarrow> f_parse F (sg @ ip @ ''.0'') = Some f)"

definition float_ok :: "'f float_ops \<Rightarrow> bool" where
  "float_ok F \<longleftrightarrow> (\<forall>f. f_finite F f \<longrightarrow> (\<exists>sg ip fp. float_form F f sg ip fp))"

lemma float_text_shape:
  assumes "float_ok F" and "f_finite F f"
  obtains sg ip ds where "sg = [] \<or> sg = ''-''" "all_digits ip" "all_digits ds"
    "float_text F f = sg @ ip @ CHR ''.'' # ds" "f_parse F (sg @ ip @ CHR ''.'' # ds) = Some f"
proof -
  from assms obtain sg ip fp where form: "float_form F f sg ip fp"
    unfolding float_ok_def by blast
  note form = form [unfolded float_form_def]
  from form have sg: "sg = [] \<or> sg = ''-''" and ip: "all_digits ip" and disp: "f_display F f = sg @ ip @ fp"
    by blast+
  have no: "\<not> list_ex (\<lambda>b. b \<in> set ''.eEni'') (sg @ ip)"
    using sg ip by (auto simp: all_digits_def list_all_iff list_ex_iff is_digit_def)
  show ?thesis
  proof (cases "fp = []")
    case True
    have "float_text F f = sg @ ip @ CHR ''.'' # ''0''"
      using assms(2) no True disp by (simp add: float_text_def write_json_f64_def Let_def)
    moreover have "all_digits ''0''" by (simp add: all_digits_def is_digit_def)
    moreover have "f_parse F (sg @ ip @ CHR ''.'' # ''0'') = Some f" using form True by blast
    ultimately show ?thesis using that [of sg ip "''0''"] sg ip by blast
  next
    case False
    then obtain ds where ds: "fp = CHR ''.'' # ds" "all_digits ds" using form by (cases fp) auto
    have "float_text F f = sg @ ip @ CHR ''.'' # ds"
      using assms(2) ds(1) disp by (simp add: float_text_def write_json_f64_def Let_def)
    moreover have "f_parse F (sg @ ip @ CHR ''.'' # ds) = Some f" using form ds(1) by blast
    ultimately show ?thesis using that [of sg ip ds] sg ip ds(2) by blast
  qed
qed

lemma parse_number_float:
  assumes "sg = [] \<or> sg = ''-''" and "all_digits ip" "all_digits ds" and "stops r"
    and parse: "f_parse F (sg @ ip @ CHR ''.'' # ds) = Some f"
  shows "parse_number F (sg @ ip @ CHR ''.'' # ds @ r) = Ok (Float f, r)"
proof -
  obtain c ip' where ip: "ip = c # ip'" and c: "is_digit c"
    using assms(2) by (cases ip) (auto simp: all_digits_def)
  have all: "list_all (\<lambda>b. is_digit b \<or> float_mark b) (c # ip' @ CHR ''.'' # ds)"
    using assms(2,3) ip by (auto simp: all_digits_def list_all_iff float_mark_def)
  have "list_ex float_mark (c # ip' @ CHR ''.'' # ds)" by (simp add: float_mark_def)
  then show ?thesis
    using parse_number_token [OF assms(1) all c assms(4), of F] ip parse
    by (simp add: number_value_def)
qed

subsection \<open>Strings\<close>

lemma to_digit16_hex_digit: "d < 16 \<Longrightarrow> to_digit16 (hex_digit d) = Some d"
  by (auto simp: to_digit16_def hex_digit_def Let_def of_char_of)

lemma read_hex_step: "d < 16 \<Longrightarrow> read_hex (Suc n) v (hex_digit d # r) = read_hex n (v * 16 + d) r"
  by (simp add: to_digit16_hex_digit)

lemma read_hex4_hex4:
  assumes "n < 256"
  shows "read_hex4 (hex4 n @ r) = Ok (n, r)"
proof -
  have "n div 16 < 16" using assms by (simp add: div_less_iff_less_mult)
  moreover have z: "n div 4096 = 0" "n div 256 = 0" using assms by simp_all
  ultimately have "n div 16 mod 16 * 16 + n mod 16 = n"
    using div_mult_mod_eq [of n 16] by simp
  moreover have "read_hex4 s = read_hex (Suc (Suc (Suc (Suc 0)))) 0 s" for s
    by (simp add: read_hex4_def numeral_eq_Suc)
  ultimately show ?thesis
    by (simp add: hex4_def z read_hex_step del: read_hex.simps(2,3))
qed

lemma parse_control:
  assumes "n < 32"
  shows "parse_string_escaped acc (CHR 0x5C # CHR ''u'' # hex4 n @ r) = parse_string_escaped (acc @ [char_of n]) r"
proof -
  have "parse_unicode_escape (hex4 n @ r) = Ok (n, r)"
    using assms by (simp add: parse_unicode_escape_def read_hex4_hex4 from_u32_def)
  moreover have "utf8 n = [char_of n]" using assms by (simp add: utf8_def)
  moreover have "simple_escape (CHR ''u'') = None" by (simp add: simple_escape_def)
  ultimately show ?thesis by simp
qed

lemma parse_simple:
  assumes "simple_escape c = Some d"
  shows "parse_string_escaped acc (CHR 0x5C # c # r) = parse_string_escaped (acc @ [d]) r"
  using assms by simp

lemma parse_plain:
  assumes "c \<noteq> CHR 0x22" "c \<noteq> CHR 0x5C"
  shows "parse_string_escaped acc (c # r) = parse_string_escaped (acc @ [c]) r"
  using assms by simp

lemma simple_escapes:
  "simple_escape (CHR 0x22) = Some (CHR 0x22)" "simple_escape (CHR 0x5C) = Some (CHR 0x5C)"
  "simple_escape (CHR ''n'') = Some (CHR 0x0A)" "simple_escape (CHR ''r'') = Some (CHR 0x0D)"
  "simple_escape (CHR ''t'') = Some (CHR 0x09)" "simple_escape (CHR ''b'') = Some (CHR 0x08)"
  "simple_escape (CHR ''f'') = Some (CHR 0x0C)"
  by (simp_all add: simple_escape_def)

lemma parse_escape:
  "parse_string_escaped acc (escape c @ r) = parse_string_escaped (acc @ [c]) r"
  by (simp add: escape_def parse_simple simple_escapes parse_control parse_plain
      del: parse_string_escaped.simps)

lemma parse_escapes:
  "parse_string_escaped acc (concat (map escape s) @ r) = parse_string_escaped (acc @ s) r"
  by (induction s arbitrary: acc) (simp_all add: parse_escape)

lemma parse_string_escaped_clean:
  "parse_string_escaped s r =
     parse_string_escaped (s @ takeWhile plain_byte r) (dropWhile plain_byte r)"
  by (induction r arbitrary: s) (simp_all add: plain_byte_def)

lemma parse_string_slow: "parse_string (CHR 0x22 # t) = parse_string_escaped [] t"
proof (cases "dropWhile plain_byte t")
  case Nil
  then show ?thesis using parse_string_escaped_clean [of "[]" t]
    by (simp add: parse_string_def expect_def Let_def del: dropWhile_eq_Nil_conv)
next
  case (Cons b r3)
  then show ?thesis using parse_string_escaped_clean [of "[]" t]
    by (simp add: parse_string_def expect_def Let_def)
qed

lemma parse_string_quote: "parse_string (quote s @ r) = Ok (s, r)"
  by (simp add: quote_def parse_string_slow parse_escapes)

subsection \<open>Values\<close>

lemma sint_i64: "sint (i :: i64) = (if unat i < 2 ^ 63 then int (unat i) else int (unat i) - 2 ^ 64)"
proof -
  have u: "uint i = int (unat i)" "unat i < 2 ^ 64"
    using unsigned_less [of i] by (simp_all add: nat_less_iff)
  have "odd (unat i div 2 ^ 63) \<longleftrightarrow> 2 ^ 63 \<le> unat i"
  proof -
    have "unat i div 2 ^ 63 < 2" using u(2) by (simp add: div_less_iff_less_mult)
    then have "odd (unat i div 2 ^ 63) \<longleftrightarrow> unat i div 2 ^ 63 \<noteq> 0" by (auto simp: less_2_cases_iff)
    then show ?thesis by (auto simp: div_eq_0_iff)
  qed
  then have "bit (uint i) 63 \<longleftrightarrow> 2 ^ 63 \<le> unat i"
    unfolding u(1) bit_of_nat_iff_bit by (simp only: bit_iff_odd)
  moreover have "take_bit 64 (uint i) = uint i"
    using u(2) unfolding u(1) by (simp only: take_bit_of_nat) (simp add: take_bit_nat_eq_self)
  ultimately show ?thesis
    by (simp add: sint_uint signed_take_bit_eq_take_bit_minus u(1) [symmetric])
qed

lemma unsigned_abs_bounds:
  "sint i < 0 \<Longrightarrow> unat (unsigned_abs i) \<le> 2 ^ 63"
  "\<not> sint i < 0 \<Longrightarrow> unat (unsigned_abs i) < 2 ^ 63"
proof -
  assume neg: "sint i < 0"
  then have i: "2 ^ 63 \<le> unat i" by (simp add: sint_i64 split: if_splits)
  have lt: "unat i < 2 ^ 64" using unsigned_less [of i] by simp
  have "uint (- i) = (- int (unat i)) mod 2 ^ 64" by (simp add: uint_word_ariths)
  also have "\<dots> = 2 ^ 64 - int (unat i)"
  proof -
    have "uint i < 2 ^ LENGTH(64)" by (rule unsigned_less)
    then have "int (unat i) mod 2 ^ 64 = int (unat i)" by (intro mod_pos_pos_trivial) simp_all
    moreover have "int (unat i) \<noteq> 0" using i by (intro notI) (simp only: of_nat_eq_0_iff, simp)
    ultimately show ?thesis by (simp only: zmod_zminus1_eq_if if_False)
  qed
  finally have "int (unat (- i)) = 2 ^ 64 - int (unat i)" by simp
  then have "int (unat (- i) + unat i) = int (2 ^ 64)" by simp
  then have "unat (- i) + unat i = 2 ^ 64" by (simp only: of_nat_eq_iff)
  then show "unat (unsigned_abs i) \<le> 2 ^ 63" using neg i by (simp add: unsigned_abs_def)
next
  assume pos: "\<not> sint i < 0"
  have "int (unat i) < 2 ^ 64" using uint_lt2p [of i] by simp
  then have "unat i < 2 ^ 63" using pos unfolding sint_i64 by (auto simp del: of_nat_unat split: if_splits)
  then show "unat (unsigned_abs i) < 2 ^ 63" using pos by (simp add: unsigned_abs_def)
qed

lemma number_value_int:
  "number_value F False (int_text i) = Ok (IntV i)"
proof (cases "sint i < 0")
  case True
  then have "- unsigned_abs i = i" by (simp add: unsigned_abs_def)
  then show ?thesis using unsigned_abs_bounds(1) [OF True]
    by (simp add: int_text_def number_value_def parse_i64_minus_decimal True)
next
  case False
  then have "unsigned_abs i = i" by (simp add: unsigned_abs_def)
  then show ?thesis using unsigned_abs_bounds(2) [OF False]
    by (simp add: int_text_def number_value_def parse_i64_decimal False)
qed

lemma number_value_nat:
  "number_value F False (decimal (unat u)) = Ok (if unat u < 2 ^ 63 then IntV u else UInt u)"
proof -
  have "unat u < 2 ^ 64" using unsigned_less [of u] by simp
  then show ?thesis by (simp add: number_value_def parse_i64_decimal parse_u64_decimal)
qed

lemma parse_number_int:
  assumes "stops r"
  shows "parse_number F (int_text i @ r) = Ok (IntV i, r)"
  using parse_number_digits [of "if sint i < 0 then ''-'' else []", OF _ digits_of_decimal assms, of F "unat (unsigned_abs i)"]
    number_value_int [of F i] by (simp add: int_text_def)

lemma parse_number_nat:
  assumes "stops r"
  shows "parse_number F (decimal (unat u) @ r) = Ok (if unat u < 2 ^ 63 then IntV u else UInt u, r)"
  using parse_number_digits [of "[]", OF _ digits_of_decimal assms, of F "unat u"]
  by (simp add: number_value_nat)

lemma parse_value_number:
  assumes "b = CHR ''-'' \<or> is_digit b"
  shows "parse_value (Suc fuel) F d (b # r) = Some (parse_number F (b # r))"
proof -
  have "b \<notin> set ''{[tfn'' \<union> {CHR 0x22}" and "\<not> is_ws b"
    using assms by (auto simp: is_digit_def is_ws_def)
  then show ?thesis using assms by (auto simp: skip_ws_def)
qed

text \<open>The first byte of a printed value is neither white space nor a closing bracket.\<close>

definition opens :: "char \<Rightarrow> bool" where
  "opens b \<longleftrightarrow> \<not> is_ws b \<and> b \<noteq> CHR '']'' \<and> b \<noteq> CHR ''}''"

lemma number_opens: "b = CHR ''-'' \<or> is_digit b \<Longrightarrow> opens b"
  by (auto simp: opens_def is_digit_def is_ws_def)

lemma signed_digits_head:
  assumes "sg = [] \<or> sg = ''-''" and "all_digits t"
  obtains b s where "sg @ t @ r = b # s" "b = CHR ''-'' \<or> is_digit b"
  using assms by (cases t) (auto simp: all_digits_def)

lemma json_text_head:
  assumes "float_ok F"
  obtains b t where "json_text F v = b # t" "opens b"
proof (cases v)
  case (IntV i)
  obtain b s where "json_text F v = b # s" "b = CHR ''-'' \<or> is_digit b"
    by (rule signed_digits_head [of "if sint i < 0 then ''-'' else []" "decimal (unat (unsigned_abs i))" "[]"])
      (simp_all add: IntV int_text_def digits_of_decimal)
  then show ?thesis using that number_opens by blast
next
  case (UInt u)
  obtain b s where "json_text F v = b # s" "b = CHR ''-'' \<or> is_digit b"
    by (rule signed_digits_head [of "[]" "decimal (unat u)" "[]"])
      (simp_all add: UInt digits_of_decimal)
  then show ?thesis using that number_opens by blast
next
  case (Float f)
  show ?thesis
  proof (cases "f_finite F f")
    case True
    obtain sg ip ds where t: "sg = [] \<or> sg = ''-''" "all_digits ip" "float_text F f = sg @ ip @ CHR ''.'' # ds"
      by (rule float_text_shape [OF assms True])
    obtain b s where "json_text F v = b # s" "b = CHR ''-'' \<or> is_digit b"
      by (rule signed_digits_head [OF t(1,2), of "CHR ''.'' # ds"]) (simp add: Float t(3))
    then show ?thesis using that number_opens by blast
  next
    case False
    then show ?thesis using that
      by (simp add: Float float_text_def write_json_f64_def opens_def is_ws_def)
  qed
next
  case (Bool b)
  then show ?thesis using that by (cases b) (simp_all add: opens_def is_ws_def)
next
  case Null
  then show ?thesis using that by (simp add: opens_def is_ws_def)
next
  case (Str s)
  then show ?thesis using that by (simp add: quote_def opens_def is_ws_def)
next
  case (Bytes bs)
  then show ?thesis using that by (simp add: opens_def is_ws_def)
next
  case (Array vs)
  then show ?thesis using that by (simp add: opens_def is_ws_def)
next
  case (Object kvs)
  then show ?thesis using that by (simp add: opens_def is_ws_def)
qed

lemma skip_ws_solid [simp]: "\<not> is_ws b \<Longrightarrow> skip_ws (b # r) = b # r"
  by (simp add: skip_ws_def)

lemma eat_simps [simp]: "eat c (b # r) = (if b = c then Some r else None)"
  by (simp add: eat_def)

lemma solid [simp]: "\<not> is_ws (CHR '','')" "\<not> is_ws (CHR '']'')" "\<not> is_ws (CHR ''}'')" "\<not> is_ws (CHR '':'')"
    "\<not> is_ws (CHR ''['')" "\<not> is_ws (CHR ''{'')" "\<not> is_ws (CHR 0x22)"
  by (simp_all add: is_ws_def)

lemma parse_value_open:
  assumes "d < max_depth" and "opens b"
  shows "parse_value (Suc fuel) F d (CHR ''['' # b # r) = parse_elements fuel F (Suc d) [] (b # r)"
    "parse_value (Suc fuel) F d (CHR ''{'' # b # r) = parse_members fuel F (Suc d) [] (b # r)"
  using assms by (simp_all add: opens_def)

lemma parse_value_empty:
  assumes "d < max_depth"
  shows "parse_value (Suc fuel) F d (''[]'' @ r) = Some (Ok (Array [], r))"
    "parse_value (Suc fuel) F d (''{}'' @ r) = Some (Ok (Object [], r))"
  using assms by simp_all

lemma parse_value_byte:
  assumes "stops r"
  shows "parse_value (Suc fuel) F d (decimal (unat (b :: u8)) @ r) = Some (Ok (IntV (ucast b), r))"
proof -
  obtain c t where c: "decimal (unat b) = c # t" by (cases "decimal (unat b)") simp
  have "unat b < 2 ^ LENGTH(8)" by (rule unsigned_less)
  then have "unat b < 2 ^ 63" by simp
  then have "parse_number F (decimal (unat b) @ r) = Ok (IntV (ucast b), r)"
    using parse_number_nat [OF assms, of F "ucast b"] by (simp add: unat_ucast_byte)
  then show ?thesis using parse_value_number [of c fuel F d] hd_decimal [OF c] c by simp
qed

lemma parse_elements_step:
  assumes "parse_value fuel F d r = Some (Ok (v, r1))"
  shows "r1 = CHR '','' # r2 \<Longrightarrow>
      parse_elements (Suc fuel) F d items r = parse_elements fuel F d (items @ [v]) r2"
    "r1 = CHR '']'' # r2 \<Longrightarrow>
      parse_elements (Suc fuel) F d items r = Some (Ok (Array (items @ [v]), r2))"
  using assms by simp_all

lemma parse_members_step:
  assumes "parse_value fuel F d r = Some (Ok (v, r1))"
  shows "r1 = CHR '','' # r2 \<Longrightarrow>
      parse_members (Suc fuel) F d entries (quote k @ CHR '':'' # r) = parse_members fuel F d (entries @ [(k, v)]) r2"
    "r1 = CHR ''}'' # r2 \<Longrightarrow>
      parse_members (Suc fuel) F d entries (quote k @ CHR '':'' # r) = Some (Ok (Object (entries @ [(k, v)]), r2))"
proof -
  have q: "skip_ws (quote k @ s) = quote k @ s" for s
    by (simp add: quote_def)
  have c: "expect (CHR '':'') (CHR '':'' # r) = Ok ((), r)"
    by (simp add: expect_def)
  show "parse_members (Suc fuel) F d entries (quote k @ CHR '':'' # r) = parse_members fuel F d (entries @ [(k, v)]) r2"
    if "r1 = CHR '','' # r2"
    using assms that by (simp add: q c parse_string_quote)
  show "parse_members (Suc fuel) F d entries (quote k @ CHR '':'' # r) = Some (Ok (Object (entries @ [(k, v)]), r2))"
    if "r1 = CHR ''}'' # r2"
    using assms that by (simp add: q c parse_string_quote)
qed

lemma stops_separators [simp]: "\<not> is_digit (CHR '','')" "\<not> is_digit (CHR '']'')" "\<not> is_digit (CHR ''}'')"
    "\<not> float_mark (CHR '','')" "\<not> float_mark (CHR '']'')" "\<not> float_mark (CHR ''}'')"
  by (simp_all add: is_digit_def float_mark_def)

lemma parse_bytes:
  assumes "bs \<noteq> []"
  shows "length bs < fuel \<Longrightarrow>
    parse_elements fuel F d items (bytes_text bs @ CHR '']'' # r) =
      Some (Ok (Array (items @ map (\<lambda>b. IntV (ucast b)) bs), r))"
  using assms
proof (induction bs arbitrary: fuel items)
  case (Cons b bs)
  obtain f where f: "fuel = Suc (Suc f)"
    using Cons(2) by (cases fuel; cases "fuel - 1") simp_all
  show ?case
  proof (cases "bs = []")
    case True
    note step = parse_elements_step(2) [OF parse_value_byte refl]
    show ?thesis using True unfolding f by (simp add: step del: parse_elements.simps)
  next
    case False
    note step = parse_elements_step(1) [OF parse_value_byte refl]
    show ?thesis using False Cons.IH [of "Suc f" "items @ [IntV (ucast b)]"] Cons(2)
      unfolding f by (simp add: step del: parse_elements.simps)
  qed
qed simp

lemma length_bytes_text: "length bs \<le> length (bytes_text bs)"
proof (induction bs)
  case (Cons b bs)
  have "Suc 0 \<le> length (decimal (unat b))" by (simp add: Suc_le_eq)
  then show ?case using Cons by (cases bs) simp_all
qed simp

lemma parse_value_bytes:
  assumes "2 * length (bytes_text bs) + 4 < fuel" and "d < max_depth"
  shows "parse_value fuel F d (''['' @ bytes_text bs @ '']'' @ r) =
    Some (Ok (Array (map (\<lambda>b. IntV (ucast b)) bs), r))"
proof -
  obtain f where f: "fuel = Suc f" using assms(1) by (cases fuel) auto
  show ?thesis
  proof (cases bs)
    case Nil
    then show ?thesis using assms(2) parse_value_empty(1) [of d f F r] by (simp add: f)
  next
    case (Cons b bs')
    obtain c t where c: "bytes_text bs = c # t" "is_digit c"
      using Cons by (cases "decimal (unat b)") (auto dest: hd_decimal)
    have "length bs < f" using assms(1) length_bytes_text [of bs] f by simp
    then have "parse_elements f F (Suc d) [] (bytes_text bs @ CHR '']'' # r) =
        Some (Ok (Array (map (\<lambda>b. IntV (ucast b)) bs), r))"
      using parse_bytes [of bs f F "Suc d" "[]" r] Cons by simp
    then show ?thesis
      using parse_value_open(1) [OF assms(2) number_opens, of c f F "t @ CHR '']'' # r"] c f
      by (simp del: parse_value.simps parse_elements.simps)
  qed
qed

lemma parse_value_string:
  "parse_value (Suc fuel) F d (quote s @ r) = Some (Ok (Str s, r))"
proof -
  have "quote s @ r = CHR 0x22 # concat (map escape s) @ CHR 0x22 # r" by (simp add: quote_def)
  then show ?thesis using parse_string_quote [of s r] by simp
qed

lemma parse_value_float:
  assumes "float_ok F" and "stops r"
  shows "parse_value (Suc fuel) F d (float_text F f @ r) = Some (Ok (normal F (Float f), r))"
proof (cases "f_finite F f")
  case True
  obtain sg ip ds where t: "sg = [] \<or> sg = ''-''" "all_digits ip" "all_digits ds"
    "float_text F f = sg @ ip @ CHR ''.'' # ds" "f_parse F (sg @ ip @ CHR ''.'' # ds) = Some f"
    by (rule float_text_shape [OF assms(1) True])
  obtain b s where b: "sg @ ip @ CHR ''.'' # ds @ r = b # s" "b = CHR ''-'' \<or> is_digit b"
    by (rule signed_digits_head [OF t(1,2)])
  show ?thesis
    using parse_value_number [OF b(2), of fuel F d s] parse_number_float [OF t(1-3) assms(2) t(5)] b(1) t(4) True
    by (simp del: parse_value.simps)
next
  case False
  then show ?thesis
    by (simp add: float_text_def write_json_f64_def parse_null_def take_literal_def skip_ws_def is_ws_def)
qed

lemma parse_value_int:
  assumes "stops r"
  shows "parse_value (Suc fuel) F d (int_text i @ r) = Some (Ok (IntV i, r))"
proof -
  obtain b s where b: "int_text i @ r = b # s" "b = CHR ''-'' \<or> is_digit b"
    by (rule signed_digits_head [of "if sint i < 0 then ''-'' else []" "decimal (unat (unsigned_abs i))" r])
      (simp_all add: int_text_def digits_of_decimal)
  show ?thesis
    using parse_value_number [OF b(2), of fuel F d s] parse_number_int [OF assms, of F i] b(1) by simp
qed

lemma parse_value_nat:
  assumes "stops r"
  shows "parse_value (Suc fuel) F d (decimal (unat u) @ r) = Some (Ok (normal F (UInt u), r))"
proof -
  obtain b s where b: "decimal (unat u) @ r = b # s" "is_digit b"
    by (cases "decimal (unat u)") (auto dest: hd_decimal)
  show ?thesis
    using parse_value_number [of b fuel F d s] parse_number_nat [OF assms, of F u] b by simp
qed

lemma parse_printed:
  assumes F: "float_ok F"
  shows "stops r \<Longrightarrow> d + depth_of v \<le> max_depth \<Longrightarrow> 2 * length (json_text F v) < fuel \<Longrightarrow>
      parse_value fuel F d (json_text F v @ r) = Some (Ok (normal F v, r))"
    "vs \<noteq> [] \<Longrightarrow> d + depth_list vs \<le> max_depth \<Longrightarrow> 2 * length (elems_text F vs) + 1 < fuel \<Longrightarrow>
      parse_elements fuel F d items (elems_text F vs @ CHR '']'' # r) =
        Some (Ok (Array (items @ normal_list F vs), r))"
    "kvs \<noteq> [] \<Longrightarrow> d + depth_entries kvs \<le> max_depth \<Longrightarrow> 2 * length (members_text F kvs) + 1 < fuel \<Longrightarrow>
      parse_members fuel F d entries (members_text F kvs @ CHR ''}'' # r) =
        Some (Ok (Object (entries @ normal_entries F kvs), r))"
proof (induction v and vs and kvs arbitrary: fuel d r and fuel d items r and fuel d entries r
    rule: depth_of_depth_list_depth_entries.induct)
  case (1 bs)
  then show ?case using parse_value_bytes [of bs fuel d F r] by simp
next
  case (2 vs)
  then obtain f where f: "fuel = Suc f" by (cases fuel) auto
  show ?case
  proof (cases "vs = []")
    case True
    then show ?thesis using parse_value_empty(1) [of d f F r] 2 f by simp
  next
    case False
    obtain b t where b: "elems_text F vs = b # t" "opens b"
    proof -
      obtain w ws where vs: "vs = w # ws" using False by (cases vs) auto
      show ?thesis by (rule json_text_head [OF F, of w]) (use that vs in auto)
    qed
    show ?thesis
      using parse_value_open(1) [OF _ b(2), of d f F "t @ CHR '']'' # r"] 2 False b(1) f
      by (simp del: parse_value.simps parse_elements.simps)
  qed
next
  case (3 kvs)
  then obtain f where f: "fuel = Suc f" by (cases fuel) auto
  show ?case
  proof (cases kvs)
    case Nil
    then show ?thesis using parse_value_empty(2) [of d f F r] 3 f by simp
  next
    case (Cons kv kvs')
    obtain b t where b: "members_text F kvs = b # t" "opens b"
      using Cons by (cases kv) (auto simp: quote_def opens_def)
    show ?thesis
      using parse_value_open(2) [OF _ b(2), of d f F "t @ CHR ''}'' # r"] 3 Cons b(1) f
      by (simp del: parse_value.simps parse_members.simps)
  qed
next
  case (6 v vs)
  then obtain f where f: "fuel = Suc f" by (cases fuel) auto
  have v: "parse_value f F d (json_text F v @ s) = Some (Ok (normal F v, s))" if "stops s" for s
    using 6 f that by simp
  show ?case
  proof (cases "vs = []")
    case True
    then show ?thesis using parse_elements_step(2) [OF v refl] f by simp
  next
    case False
    have "parse_elements f F d (items @ [normal F v]) (elems_text F vs @ CHR '']'' # r) =
        Some (Ok (Array (items @ normal_list F (v # vs)), r))"
      using 6(2) [of d f "items @ [normal F v]" r] 6(4,5) False f by simp
    then show ?thesis using parse_elements_step(1) [OF v refl] f False by simp
  qed
next
  case (8 k v kvs)
  then obtain f where f: "fuel = Suc f" by (cases fuel) auto
  have v: "parse_value f F d (json_text F v @ s) = Some (Ok (normal F v, s))" if "stops s" for s
    using 8 f that by simp
  show ?case
  proof (cases "kvs = []")
    case True
    then show ?thesis using parse_members_step(2) [OF v refl] f by simp
  next
    case False
    have "parse_members f F d (entries @ [(k, normal F v)]) (members_text F kvs @ CHR ''}'' # r) =
        Some (Ok (Object (entries @ normal_entries F ((k, v) # kvs)), r))"
      using 8(2) [of d f "entries @ [(k, normal F v)]" r] 8(4,5) False f by simp
    then show ?thesis using parse_members_step(1) [OF v refl] f False by simp
  qed
next
  case "4_1"
  then show ?case by (cases fuel) (simp_all add: parse_null_def take_literal_def skip_ws_def is_ws_def)
next
  case "4_2"
  then show ?case by (cases fuel) (simp_all add: parse_bool_def take_literal_def skip_ws_def is_ws_def)
next
  case "4_3"
  then show ?case by (cases fuel) (simp_all add: parse_value_int del: parse_value.simps)
next
  case "4_4"
  then show ?case by (cases fuel) (simp_all add: parse_value_nat del: parse_value.simps normal.simps)
next
  case "4_5"
  then show ?case by (cases fuel) (simp_all add: parse_value_float [OF F] del: parse_value.simps normal.simps)
next
  case "4_6"
  then show ?case by (cases fuel) (simp_all add: parse_value_string del: parse_value.simps)
qed simp_all

section \<open>The contract of a text codec\<close>

text \<open>
  What a client of a codec relies on: text that was printed for an accepted value reads back as the
  value's normal form, and the normal form prints the same text.
\<close>

locale codec =
  fixes enc :: "'v \<Rightarrow> 't" and dec :: "'t \<Rightarrow> ('v, 'e) result option"
    and norm :: "'v \<Rightarrow> 'v" and accepts :: "'v \<Rightarrow> bool"
  assumes dec_enc: "accepts v \<Longrightarrow> dec (enc v) = Some (Ok (norm v))"
begin

lemma enc_determines: "accepts v \<Longrightarrow> accepts w \<Longrightarrow> enc v = enc w \<Longrightarrow> norm v = norm w"
  using dec_enc [of v] dec_enc [of w] by simp

end

text \<open>A codec whose text does not depend on the choice between a value and its normal form.\<close>

locale text_codec = codec +
  assumes enc_norm: "enc (norm v) = enc v"
    and accepts_norm: "accepts v \<Longrightarrow> accepts (norm v)"
begin

lemma norm_idem: "accepts v \<Longrightarrow> norm (norm v) = norm v"
  using dec_enc [of v] dec_enc [of "norm v"] accepts_norm [of v] by (simp add: enc_norm)

lemma reencode: "accepts v \<Longrightarrow> dec (enc v) = Some (Ok w) \<Longrightarrow> enc w = enc v"
  by (auto simp: dec_enc enc_norm)

lemma enc_eq_iff: "accepts v \<Longrightarrow> accepts w \<Longrightarrow> enc v = enc w \<longleftrightarrow> norm v = norm w"
proof
  assume "accepts v" "accepts w" "enc v = enc w"
  then show "norm v = norm w" using dec_enc [of v] dec_enc [of w] by simp
next
  assume "norm v = norm w"
  then have "enc (norm v) = enc (norm w)" by simp
  then show "enc v = enc w" by (simp only: enc_norm)
qed

end

lemma bytes_as_elems: "elems_text F (map (\<lambda>b. IntV (ucast b)) bs) = bytes_text bs"
proof (induction bs)
  case (Cons b bs)
  have "unat b < 2 ^ LENGTH(8)" by (rule unsigned_less)
  then have "\<not> sint (ucast b :: i64) < 0"
    by (simp add: sint_i64 unat_ucast_byte del: of_nat_unat)
  then have "int_text (ucast b) = decimal (unat b)"
    by (simp add: int_text_def unsigned_abs_def unat_ucast_byte)
  then show ?case using Cons by (cases bs) simp_all
qed simp

lemma nat_as_int_text: "unat u < 2 ^ 63 \<Longrightarrow> int_text u = decimal (unat u)"
  by (simp add: int_text_def unsigned_abs_def sint_i64 del: of_nat_unat)

lemma normal_empty [simp]: "normal_list F vs = [] \<longleftrightarrow> vs = []" "normal_entries F kvs = [] \<longleftrightarrow> kvs = []"
  by (cases vs; simp) (cases kvs; auto)

lemma text_normal:
  "json_text F (normal F v) = json_text F v"
  "elems_text F (normal_list F vs) = elems_text F vs"
  "members_text F (normal_entries F kvs) = members_text F kvs"
proof (induction F v and F vs and F kvs rule: normal_normal_list_normal_entries.induct)
  case (4 F u)
  then show ?case by (simp add: nat_as_int_text)
next
  case (5 F f)
  then show ?case by (simp add: float_text_def write_json_f64_def)
qed (simp_all add: bytes_as_elems)

lemma depth_ints: "depth_list (map (\<lambda>b. IntV (g b)) bs) = 0"
  by (induction bs) simp_all

lemma depth_normal:
  "depth_of (normal F v) = depth_of v"
  "depth_list (normal_list F vs) = depth_list vs"
  "depth_entries (normal_entries F kvs) = depth_entries kvs"
  by (induction F v and F vs and F kvs rule: normal_normal_list_normal_entries.induct)
    (simp_all add: depth_ints)

lemma from_str_printed:
  assumes "float_ok F" and "depth_of v \<le> max_depth"
  shows "from_str F (to_string F v) = Some (Ok (normal F v))"
proof -
  obtain b t where b: "json_text F v = b # t" "opens b" by (rule json_text_head [OF assms(1)])
  have "parse_value (2 * length (json_text F v) + 2) F 0 (json_text F v) = Some (Ok (normal F v, []))"
    using parse_printed(1) [OF assms(1), of "[]" 0 v] assms(2) by (simp del: parse_value.simps)
  then show ?thesis
    using b by (simp add: from_str_def to_string_eq opens_def skip_ws_def del: parse_value.simps)
qed

interpretation json: text_codec "to_string F" "from_str F" "normal F" "\<lambda>v. float_ok F \<and> depth_of v \<le> max_depth"
  by unfold_locales (simp_all add: from_str_printed, simp_all add: to_string_eq text_normal(1) depth_normal(1))

text \<open>A concrete number type for the witnesses: the integers, printed in decimal.\<close>

definition int_floats :: "nat float_ops" where
  "int_floats = \<lparr>f_finite = (\<lambda>_. True), f_display = decimal,
     f_parse = (\<lambda>s. let d = takeWhile is_digit s
                    in if all_digits d \<and> (drop (length d) s = [] \<or> drop (length d) s = ''.0'')
                       then Some (nat_of_digits d) else None)\<rparr>"

lemma int_floats_ok: "float_ok int_floats"
  unfolding float_ok_def
proof (intro allI impI)
  fix n
  have d: "list_all is_digit (decimal n)" using digits_of_decimal [of n] by (simp add: all_digits_def)
  have t: "takeWhile is_digit (decimal n @ r) = decimal n @ takeWhile is_digit r" for r
    using d by (simp add: list_all_iff takeWhile_append2)
  have t0: "takeWhile is_digit (decimal n) = decimal n" using t [of "[]"] by (simp only: append_Nil2 takeWhile.simps)
  have dot: "\<not> is_digit (CHR ''.'')" by (simp add: is_digit_def)
  have "float_form int_floats n [] (decimal n) []"
    using t [of "''.0''"] digits_of_decimal [of n] dot
    by (simp add: float_form_def int_floats_def Let_def t0)
  then show "\<exists>sg ip fp. float_form int_floats n sg ip fp" by blast
qed

section \<open>Properties\<close>

text \<open>C1: Round trip of the JSON codec: every value nested at most 128 deep is printed to text that parses
  back to its normal form (unsigned integers below \<open>2^63\<close> come back signed, byte strings as arrays of
  integers, non-finite floats as null, everything else unchanged), and printing that result again
  gives the same text.\<close>

theorem json_round_trip:
  assumes "float_ok F" and "depth_of v \<le> max_depth"
  shows "from_str F (to_string F v) = Some (Ok (normal F v)) \<and>
    to_string F (normal F v) = to_string F v \<and> normal F (normal F v) = normal F v"
  using json.dec_enc [of F v] json.enc_norm [of F v] json.norm_idem [of F v] assms by blast

theorem json_round_trip_witness:
  "from_str int_floats (to_string int_floats (Object [(''k'', Array [UInt 7, Null]), (''s'', Str [CHR 0x22, CHR 0x0A])])) =
     Some (Ok (Object [(''k'', Array [IntV 7, Null]), (''s'', Str [CHR 0x22, CHR 0x0A])]))"
  using json_round_trip [OF int_floats_ok, of "Object [(''k'', Array [UInt 7, Null]), (''s'', Str [CHR 0x22, CHR 0x0A])]"]
  by (simp add: max_depth_def)

text \<open>The recursive-descent parser ends on every input: the fuel that \<open>from_str\<close> provides is always
  enough, so each input gives a value or a parse error.\<close>

theorem json_parse_total: "\<exists>res. from_str F input = Some res"
proof -
  have "2 * length (skip_ws input) < 2 * length input + 2" using skip_ws_length [of input] by simp
  then have "parse_value (2 * length input + 2) F 0 (skip_ws input) \<noteq> None"
    by (rule parse_total(1))
  then show ?thesis
    unfolding from_str_def by (auto split: option.split sum.split simp del: parse_value.simps)
qed

text \<open>The streaming encoder with its stack of first-entry flags prints the reference text and leaves
  the stack as it found it, whatever container it is called in.\<close>

theorem json_encoder_reference:
  "out (emit_value F v e) = out e @ json_text F v \<and> first (emit_value F v e) = first e"
  by (simp_all add: emit_eq(1))

lemma parse_value_nested:
  "d + n > max_depth \<Longrightarrow> d \<le> max_depth \<Longrightarrow> 2 * n < fuel \<Longrightarrow>
     parse_value fuel F d (replicate n (CHR ''['') @ r) = Some (Err (Parse ''nesting too deep''))"
proof (induction n arbitrary: d fuel)
  case (Suc n)
  then obtain f where f: "fuel = Suc (Suc f)" by (cases fuel; cases "fuel - 1") auto
  show ?case
  proof (cases "d = max_depth")
    case True
    then show ?thesis using f by simp
  next
    case False
    then obtain m where m: "n = Suc m" using Suc.prems by (cases n) auto
    have "parse_value f F (Suc d) (replicate n (CHR ''['') @ r) = Some (Err (Parse ''nesting too deep''))"
      using Suc.IH [of "Suc d" f] Suc.prems False f by simp
    then have "parse_elements (Suc f) F (Suc d) [] (replicate n (CHR ''['') @ r) = Some (Err (Parse ''nesting too deep''))"
      by simp
    then show ?thesis
      using parse_value_open(1) [of d "CHR ''[''" "Suc f" F "replicate m (CHR ''['') @ r"] Suc.prems False f m
      by (simp add: opens_def del: parse_value.simps parse_elements.simps)
  qed
qed simp

text \<open>Input nested deeper than 128 is refused with \<^verbatim>\<open>nesting too deep\<close>, whatever follows the brackets.\<close>

theorem json_depth_limit:
  assumes "n > max_depth"
  shows "from_str F (replicate n (CHR ''['') @ rest) = Some (Err (Parse ''nesting too deep''))"
proof -
  have "skip_ws (replicate n (CHR ''['') @ rest) = replicate n (CHR ''['') @ rest"
    using assms by (cases n) simp_all
  then show ?thesis
    using parse_value_nested [of 0 n "2 * length (replicate n (CHR ''['') @ rest) + 2" F rest] assms
    by (simp add: from_str_def del: parse_value.simps)
qed

text \<open>String literals: the fast path without escapes agrees with the escape-decoding path on every
  input, and a quoted string reads back exactly, leaving what follows.\<close>

theorem json_strings:
  "parse_string (CHR 0x22 # r) = parse_string_escaped [] r \<and>
   parse_string (write_string [] s @ r) = Ok (s, r)"
  by (simp_all add: parse_string_slow write_string_eq parse_string_quote del: parse_string_escaped.simps)

text \<open>The integer writers fit their 20-byte buffer and their digits parse back to the same integer,
  \<^verbatim>\<open>i64::MIN\<close> included.\<close>

theorem integer_text_round_trip:
  "parse_u64 (write_u64 [] u) = Some u \<and> parse_i64 (write_i64 [] i) = Some i \<and>
   length (write_u64 [] u) \<le> 20 \<and> length (write_i64 [] i) \<le> 20"
proof (intro conjI)
  have u: "unat u < 10 ^ Suc 19" using unsigned_less [of u, where ?'a = nat] by simp
  then show "length (write_u64 [] u) \<le> 20" using length_decimal [OF u] by (simp add: write_u64_eq)
  have "unat u < 2 ^ LENGTH(64)" by (rule unsigned_less)
  then show "parse_u64 (write_u64 [] u) = Some u" by (simp add: write_u64_eq parse_u64_decimal)
  show "parse_i64 (write_i64 [] i) = Some i"
    using unsigned_abs_bounds [of i]
    by (cases "sint i < 0")
      (auto simp: write_i64_eq int_text_def parse_i64_decimal parse_i64_minus_decimal, auto simp: unsigned_abs_def)
  have "unat (unsigned_abs i) < 10 ^ Suc 18" using unsigned_abs_bounds [of i] by (cases "sint i < 0") simp_all
  from length_decimal [OF this] show "length (write_i64 [] i) \<le> 20" by (simp add: write_i64_eq int_text_def)
qed

end
