(* ===== verification/Utf8.thy ===== *)
theory Utf8
  imports Prelude
begin

text \<open>
  UTF-8 as the standard library checks it: \<^verbatim>\<open>str::from_utf8\<close> and \<^verbatim>\<open>String::from_utf8_lossy\<close>, which
  replaces every maximal invalid prefix by U+FFFD.
\<close>

text \<open>The ranges that the bytes after a leading byte must lie in; \<open>None\<close> if it cannot lead.\<close>

definition cont :: "nat \<times> nat" where
  "cont = (0x80, 0xBF)"

definition follow :: "u8 \<Rightarrow> (nat \<times> nat) list option" where
  "follow b =
     (let n = unat b
      in if n < 0x80 then Some []
         else if 0xC2 \<le> n \<and> n \<le> 0xDF then Some [cont]
         else if n = 0xE0 then Some [(0xA0, 0xBF), cont]
         else if 0xE1 \<le> n \<and> n \<le> 0xEC \<or> n = 0xEE \<or> n = 0xEF then Some [cont, cont]
         else if n = 0xED then Some [(0x80, 0x9F), cont]
         else if n = 0xF0 then Some [(0x90, 0xBF), cont, cont]
         else if 0xF1 \<le> n \<and> n \<le> 0xF3 then Some [cont, cont, cont]
         else if n = 0xF4 then Some [(0x80, 0x8F), cont, cont]
         else None)"

fun matching :: "(nat \<times> nat) list \<Rightarrow> bytes \<Rightarrow> nat" where
  "matching ((l, h) # rs) (b # bs) = (if l \<le> unat b \<and> unat b \<le> h then Suc (matching rs bs) else 0)"
| "matching _ _ = 0"

definition replacement :: bytes where
  "replacement = [0xEF, 0xBF, 0xBD]"

function utf8_lossy :: "bytes \<Rightarrow> bytes" where
  "utf8_lossy [] = []"
| "utf8_lossy (b # bs) = (case follow b of
     None \<Rightarrow> replacement @ utf8_lossy bs
   | Some rs \<Rightarrow>
       let k = matching rs bs
       in (if k = length rs then b # take k bs else replacement) @ utf8_lossy (drop k bs))"
  by pat_completeness auto
termination by (relation "measure length") auto

function utf8_valid :: "bytes \<Rightarrow> bool" where
  "utf8_valid [] = True"
| "utf8_valid (b # bs) = (case follow b of
     None \<Rightarrow> False
   | Some rs \<Rightarrow> matching rs bs = length rs \<and> utf8_valid (drop (length rs) bs))"
  by pat_completeness auto
termination by (relation "measure length") auto

lemma utf8_lossy_id: "utf8_valid bs \<Longrightarrow> utf8_lossy bs = bs"
proof (induction bs rule: utf8_valid.induct)
  case (2 b bs)
  then obtain rs where "follow b = Some rs" by (cases "follow b") simp_all
  then show ?case using 2 by (simp add: Let_def)
qed simp

lemma matching_le: "matching rs bs \<le> length rs" "matching rs bs \<le> length bs"
  by (induction rs bs rule: matching.induct) auto

lemma follow_ascii: "unat b < 0x80 \<Longrightarrow> follow b = Some []"
  by (simp add: follow_def Let_def)

lemma utf8_ascii: "list_all (\<lambda>b. unat b < 0x80) bs \<Longrightarrow> utf8_valid bs"
  by (induction bs) (simp_all add: follow_ascii)

text \<open>Decoding always gives valid text, and never more than three bytes per received byte.\<close>

lemma matching_take: "matching rs bs = k \<Longrightarrow> matching rs (take k bs @ cs) \<ge> k"
  by (induction rs bs arbitrary: k rule: matching.induct) auto

lemma utf8_valid_chunk:
  assumes "follow b = Some rs" and "matching rs bs = length rs" and "utf8_valid cs"
  shows "utf8_valid (b # take (length rs) bs @ cs)"
proof -
  have "length (take (length rs) bs) = length rs" using matching_le(2) [of rs bs] assms(2) by simp
  moreover have "matching rs (take (length rs) bs @ cs) = length rs"
    using matching_take [OF assms(2), of cs] matching_le(1) [of rs "take (length rs) bs @ cs"] by simp
  ultimately show ?thesis using assms(1,3) by simp
qed

lemma utf8_valid_replacement: "utf8_valid cs \<Longrightarrow> utf8_valid (replacement @ cs)"
proof -
  assume "utf8_valid cs"
  moreover have "follow 0xEF = Some [cont, cont]" by (simp add: follow_def)
  moreover have "matching [cont, cont] ([0xBF, 0xBD] @ cs) = length [cont, cont]" by (simp add: cont_def)
  ultimately show ?thesis using utf8_valid_chunk [of "0xEF" "[cont, cont]" "[0xBF, 0xBD] @ cs" cs]
    by (simp add: replacement_def del: utf8_valid.simps)
qed

lemma utf8_lossy_valid: "utf8_valid (utf8_lossy bs)"
proof (induction bs rule: utf8_lossy.induct)
  case (2 b bs)
  show ?case
  proof (cases "follow b")
    case None
    then show ?thesis using 2(1) [OF None] by (simp add: utf8_valid_replacement del: utf8_valid.simps)
  next
    case (Some rs)
    let ?k = "matching rs bs"
    have ih: "utf8_valid (utf8_lossy (drop ?k bs))" using 2(2) [OF Some] by simp
    show ?thesis
    proof (cases "?k = length rs")
      case True
      then show ?thesis using Some utf8_valid_chunk [OF Some True ih] by (simp add: Let_def del: utf8_valid.simps)
    next
      case False
      then show ?thesis using Some utf8_valid_replacement [OF ih] by (simp add: Let_def del: utf8_valid.simps)
    qed
  qed
qed simp

lemma length_utf8_lossy: "length (utf8_lossy bs) \<le> 3 * length bs"
proof (induction bs rule: utf8_lossy.induct)
  case (2 b bs)
  show ?case
  proof (cases "follow b")
    case None
    then show ?thesis using 2(1) [OF None] by (simp add: replacement_def)
  next
    case (Some rs)
    have "length (utf8_lossy (drop (matching rs bs) bs)) \<le> 3 * (length bs - matching rs bs)"
      using 2(2) [OF Some refl] by simp
    then show ?thesis using Some matching_le(2) [of rs bs]
      by (cases "matching rs bs = length rs") (simp_all add: Let_def replacement_def)
  qed
qed simp

section \<open>Strings and their bytes\<close>

definition to_bytes :: "string \<Rightarrow> bytes" where
  "to_bytes s = map of_char s"

definition of_bytes :: "bytes \<Rightarrow> string" where
  "of_bytes bs = map (\<lambda>b. char_of (unat b)) bs"

lemma unat_of_char [simp]: "unat (of_char c :: u8) = of_char c"
proof -
  have "(of_char c :: u8) = of_nat (of_char c)" by (simp add: of_char_def)
  moreover have "of_char c < (256 :: nat)" using of_char_mod_256 [of c, where ?'a = nat] by (metis mod_less_divisor zero_less_numeral)
  ultimately show ?thesis by (simp add: unsigned_of_nat take_bit_nat_eq_self)
qed

lemma of_bytes_to_bytes [simp]: "of_bytes (to_bytes s) = s"
  by (simp add: of_bytes_def to_bytes_def o_def)

lemma to_bytes_append [simp]: "to_bytes (a @ b) = to_bytes a @ to_bytes b"
  by (simp add: to_bytes_def)

lemma to_bytes_simps [simp]: "to_bytes [] = []" "to_bytes (c # s) = of_char c # to_bytes s"
  by (simp_all add: to_bytes_def)

lemma matching_append: "matching rs bs = length rs \<Longrightarrow> matching rs (bs @ cs) = length rs"
  by (induction rs bs rule: matching.induct) (auto split: if_splits)

lemma utf8_valid_append: "utf8_valid a \<Longrightarrow> utf8_valid b \<Longrightarrow> utf8_valid (a @ b)"
proof (induction a rule: utf8_valid.induct)
  case (2 x xs)
  then obtain rs where rs: "follow x = Some rs" "matching rs xs = length rs" "utf8_valid (drop (length rs) xs)"
    by (cases "follow x") auto
  have "length rs \<le> length xs" using matching_le(2) [of rs xs] rs(2) by simp
  then show ?case using 2 rs matching_append [OF rs(2), of b] by simp
qed simp

definition ascii :: "string \<Rightarrow> bool" where
  "ascii s \<longleftrightarrow> list_all (\<lambda>c. of_char c < (128 :: nat)) s"

lemma ascii_valid: "ascii s \<Longrightarrow> utf8_valid (to_bytes s)"
  by (intro utf8_ascii) (simp add: ascii_def to_bytes_def list_all_iff)

lemma ascii_simps [simp]:
  "ascii []" "ascii (c # s) \<longleftrightarrow> of_char c < (128 :: nat) \<and> ascii s" "ascii (a @ b) \<longleftrightarrow> ascii a \<and> ascii b"
  by (simp_all add: ascii_def)

text \<open>\<^verbatim>\<open>String::from_utf8_lossy\<close> on received bytes.\<close>

definition lossy :: "string \<Rightarrow> string" where
  "lossy s = of_bytes (utf8_lossy (to_bytes s))"

lemma lossy_id: "utf8_valid (to_bytes s) \<Longrightarrow> lossy s = s"
  by (simp add: lossy_def utf8_lossy_id)

end
