(* ===== verification/Codec_Text.thy ===== *)
theory Codec_Text
  imports Codec_Json_Correct Utf8
begin

text \<open>
  JSON as bytes: \<^verbatim>\<open>json::from_slice\<close>, and that the encoder keeps the invariant of Rust strings, valid
  UTF-8, when the strings of the value have it.
\<close>

text \<open>\<open>msg\<close> renders the error of \<^verbatim>\<open>std::str::from_utf8\<close>.\<close>

definition from_slice :: "(bytes \<Rightarrow> string) \<Rightarrow> 'f float_ops \<Rightarrow> bytes \<Rightarrow> ('f Value, CodecError) result option" where
  "from_slice msg F input = (if utf8_valid input then from_str F (of_bytes input) else Some (Err (Parse (msg input))))"

section \<open>Valid UTF-8 is preserved\<close>

lemma hex_digit_ascii: "d < 16 \<Longrightarrow> of_char (hex_digit d) < (128 :: nat)"
  by (simp add: hex_digit_def of_char_of)

lemma hex4_ascii: "ascii (hex4 n)"
  by (simp add: hex4_def hex_digit_ascii)

lemma escape_ascii: "of_char c < (128 :: nat) \<Longrightarrow> ascii (escape c)"
proof -
  assume "of_char c < (128 :: nat)"
  then have "ascii [c]" by simp
  moreover have "ascii ([CHR 0x5C, CHR ''u''] @ hex4 n)" for n by (simp add: hex4_ascii)
  moreover have "ascii [CHR 0x5C, CHR 0x22]" "ascii [CHR 0x5C, CHR 0x5C]" "ascii [CHR 0x5C, CHR ''n'']"
    "ascii [CHR 0x5C, CHR ''r'']" "ascii [CHR 0x5C, CHR ''t'']" "ascii [CHR 0x5C, CHR ''b'']"
    "ascii [CHR 0x5C, CHR ''f'']" by simp_all
  ultimately show ?thesis unfolding escape_def by presburger
qed

lemma escape_high: "\<not> of_char c < (128 :: nat) \<Longrightarrow> escape c = [c]"
proof -
  assume high: "\<not> of_char c < (128 :: nat)"
  then have "c \<noteq> CHR 0x22" "c \<noteq> CHR 0x5C" "c \<noteq> CHR 0x0A" "c \<noteq> CHR 0x0D" "c \<noteq> CHR 0x09"
    "c \<noteq> CHR 0x08" "c \<noteq> CHR 0x0C" by (rule contrapos_nn, simp)+
  moreover have "\<not> of_char c < (32 :: nat)" using high by simp
  ultimately show ?thesis unfolding escape_def by presburger
qed

lemma follow_ranges: "follow b = Some rs \<Longrightarrow> list_all (\<lambda>(l, h). 128 \<le> l) rs"
  by (auto simp: follow_def Let_def cont_def split: if_splits)

lemma matching_high:
  "matching rs bs = length rs \<Longrightarrow> list_all (\<lambda>(l, h). 128 \<le> l) rs \<Longrightarrow> list_all (\<lambda>b. 128 \<le> unat b) (take (length rs) bs)"
  by (induction rs bs rule: matching.induct) (auto split: if_splits)

lemma follow_low: "follow b = Some rs \<Longrightarrow> unat b < 128 \<Longrightarrow> rs = []"
  by (simp add: follow_def Let_def)

text \<open>The contract of an escape table: ASCII text for an ASCII byte, any other byte as it is. Escaping then keeps text valid.\<close>

locale byte_escape =
  fixes esc :: "char \<Rightarrow> string"
  assumes esc_ascii: "of_char c < (128 :: nat) \<Longrightarrow> ascii (esc c)"
    and esc_high: "\<not> of_char c < (128 :: nat) \<Longrightarrow> esc c = [c]"
begin

lemma esc_high_run: "list_all (\<lambda>b. 128 \<le> unat b) (to_bytes s) \<Longrightarrow> concat (map esc s) = s"
  by (induction s) (auto simp: esc_high)

lemma esc_valid: "utf8_valid (to_bytes s) \<Longrightarrow> utf8_valid (to_bytes (concat (map esc s)))"
proof (induction s rule: length_induct)
  case (1 s)
  show ?case
  proof (cases s)
    case (Cons c t)
    from 1(2) Cons obtain rs where rs: "follow (of_char c) = Some rs" "matching rs (to_bytes t) = length rs"
        "utf8_valid (drop (length rs) (to_bytes t))"
      by (cases "follow (of_char c)") auto
    have len: "length rs \<le> length t" using matching_le(2) [of rs "to_bytes t"] rs(2) by (simp add: to_bytes_def)
    have "drop (length rs) (to_bytes t) = to_bytes (drop (length rs) t)" by (simp add: to_bytes_def drop_map)
    then have ih: "utf8_valid (to_bytes (concat (map esc (drop (length rs) t))))"
      using 1(1) rs(3) Cons by simp
    show ?thesis
    proof (cases "of_char c < (128 :: nat)")
      case True
      then have "rs = []" using follow_low [OF rs(1)] by simp
      then show ?thesis
        using ih Cons utf8_valid_append [OF ascii_valid [OF esc_ascii [OF True]], of "to_bytes (concat (map esc t))"]
        by simp
    next
      case False
      have "list_all (\<lambda>b. 128 \<le> unat b) (to_bytes (take (length rs) t))"
        using matching_high [OF rs(2) follow_ranges [OF rs(1)]] by (simp add: to_bytes_def take_map)
      then have "concat (map esc (take (length rs) t)) = take (length rs) t" by (rule esc_high_run)
      then have "concat (map esc t) = take (length rs) t @ concat (map esc (drop (length rs) t))"
        by (metis append_take_drop_id concat_append map_append)
      then have "to_bytes (concat (map esc s)) =
          of_char c # take (length rs) (to_bytes t) @ to_bytes (concat (map esc (drop (length rs) t)))"
        using Cons esc_high [OF False] by (simp add: to_bytes_def take_map)
      then show ?thesis using utf8_valid_chunk [OF rs(1,2) ih] by (simp only:)
    qed
  qed simp
qed

end

interpretation json_escape: byte_escape escape
  by unfold_locales (simp_all add: escape_ascii escape_high)

lemma quote_valid: "utf8_valid (to_bytes s) \<Longrightarrow> utf8_valid (to_bytes (quote s))"
  using utf8_valid_append [OF utf8_valid_append [OF ascii_valid json_escape.esc_valid] ascii_valid, of "[CHR 0x22]" s "[CHR 0x22]"]
  by (simp add: quote_def)

lemma digits_ascii: "all_digits s \<Longrightarrow> ascii s"
  by (auto simp: all_digits_def ascii_def list_all_iff is_digit_def)

lemma decimal_ascii: "ascii (decimal n)"
  by (rule digits_ascii) (rule digits_of_decimal)

lemma float_text_ascii: "float_ok F \<Longrightarrow> ascii (float_text F f)"
proof (cases "f_finite F f")
  case True
  assume ok: "float_ok F"
  obtain sg ip ds where "sg = [] \<or> sg = ''-''" "all_digits ip" "all_digits ds"
    "float_text F f = sg @ ip @ CHR ''.'' # ds"
    by (rule float_text_shape [OF ok True])
  then show ?thesis using digits_ascii [of ip] digits_ascii [of ds] by auto
qed (simp add: float_text_def write_json_f64_def)

lemma int_text_ascii: "ascii (int_text i)"
  by (simp add: int_text_def decimal_ascii)

lemma bytes_text_ascii: "ascii (bytes_text bs)"
  by (induction bs) (simp_all add: decimal_ascii)

text \<open>The strings of a value are Rust strings.\<close>

fun strings_valid :: "'f Value \<Rightarrow> bool"
  and strings_valid_list :: "'f Value list \<Rightarrow> bool"
  and strings_valid_entries :: "(string \<times> 'f Value) list \<Rightarrow> bool" where
  "strings_valid (Str s) = utf8_valid (to_bytes s)"
| "strings_valid (Array vs) = strings_valid_list vs"
| "strings_valid (Object kvs) = strings_valid_entries kvs"
| "strings_valid _ = True"
| "strings_valid_list [] = True"
| "strings_valid_list (v # vs) = (strings_valid v \<and> strings_valid_list vs)"
| "strings_valid_entries [] = True"
| "strings_valid_entries ((k, v) # kvs) = (utf8_valid (to_bytes k) \<and> strings_valid v \<and> strings_valid_entries kvs)"

abbreviation text_valid :: "string \<Rightarrow> bool" where "text_valid s \<equiv> utf8_valid (to_bytes s)"

lemma text_valid_append: "text_valid a \<Longrightarrow> text_valid b \<Longrightarrow> text_valid (a @ b)"
  by (simp add: utf8_valid_append del: utf8_valid.simps)

lemma json_text_valid:
  assumes "float_ok F"
  shows "strings_valid v \<Longrightarrow> text_valid (json_text F v)"
    "strings_valid_list vs \<Longrightarrow> text_valid (elems_text F vs)"
    "strings_valid_entries kvs \<Longrightarrow> text_valid (members_text F kvs)"
proof (induction v and vs and kvs rule: strings_valid_strings_valid_list_strings_valid_entries.induct)
  case (2 vs)
  then show ?case using text_valid_append [OF text_valid_append [OF ascii_valid _] ascii_valid, of "''[''" _ "'']''"] by simp
next
  case (3 kvs)
  then show ?case using text_valid_append [OF text_valid_append [OF ascii_valid _] ascii_valid, of "''{''" _ "''}''"] by simp
next
  case (6 v vs)
  then show ?case
    using text_valid_append [OF _ text_valid_append [OF ascii_valid], of "json_text F v" "'',''" "elems_text F vs"]
    by simp
next
  case (8 k v kvs)
  have kv: "text_valid (quote k @ '':'' @ json_text F v)"
    by (rule text_valid_append [OF quote_valid text_valid_append [OF ascii_valid]]) (use 8 in simp_all)
  then show ?case
    using 8 text_valid_append [OF kv text_valid_append [OF ascii_valid, of "'',''" "members_text F kvs"]] by simp
qed (auto simp: quote_valid intro!: ascii_valid int_text_ascii decimal_ascii float_text_ascii [OF assms]
    simp: bytes_text_ascii decimal_ascii simp del: utf8_valid.simps to_bytes_simps)

lemma from_slice_printed:
  assumes "float_ok F" and "depth_of v \<le> max_depth" and "strings_valid v"
  shows "from_slice msg F (to_bytes (to_string F v)) = Some (Ok (normal F v))"
  using assms json_text_valid(1) [OF assms(1,3)] by (simp add: from_slice_def to_string_eq from_str_printed [unfolded to_string_eq])

end
