(* ===== verification/Codec_Toml.thy ===== *)
theory Codec_Toml
  imports Codec_Json Rust_Str
begin

text \<open>
  The TOML codec of \<^verbatim>\<open>codec/toml.rs\<close>. The encoder appends to \<open>out\<close> in the order of the code. The
  parser state is the input that remains, as in \<open>Codec_Json\<close>; \<open>n\<close> is the length of the whole input, so
  that \<^verbatim>\<open>self.pos\<close> is \<open>n\<close> less what remains. The document tree helpers return mutable references into
  the tree; here they take the use that is made of the reference as a function and return the whole
  updated tree. A slice that cuts a character in two makes the program panic: \<open>TPanic\<close>.
\<close>

section \<open>What the codec uses of f64\<close>

record 'f toml_ops = "'f float_ops" +
  f_is_nan :: "'f \<Rightarrow> bool"
  f_is_infinite :: "'f \<Rightarrow> bool"
  f_negative :: "'f \<Rightarrow> bool"
  f_nan :: 'f
  f_inf :: 'f
  f_neg_inf :: 'f

type_synonym 'f table = "(string \<times> 'f Value) list"

section \<open>Encoder\<close>

definition hex_upper :: "nat \<Rightarrow> char" where
  "hex_upper d = (if d < 10 then char_of (48 + d) else char_of (55 + d))"

text \<open>\<^verbatim>\<open>{:04X}\<close>\<close>

definition hex4_upper :: "nat \<Rightarrow> string" where
  "hex4_upper n = [hex_upper (n div 4096 mod 16), hex_upper (n div 256 mod 16), hex_upper (n div 16 mod 16), hex_upper (n mod 16)]"

definition toml_escape :: "char \<Rightarrow> string" where
  "toml_escape b =
     (if b = CHR 0x22 then [CHR 0x5C, CHR 0x22]
      else if b = CHR 0x5C then [CHR 0x5C, CHR 0x5C]
      else if b = CHR 0x0A then [CHR 0x5C, CHR ''n'']
      else if b = CHR 0x0D then [CHR 0x5C, CHR ''r'']
      else if b = CHR 0x09 then [CHR 0x5C, CHR ''t'']
      else if b = CHR 0x08 then [CHR 0x5C, CHR ''b'']
      else if b = CHR 0x0C then [CHR 0x5C, CHR ''f'']
      else if of_char b < (32 :: nat) then [CHR 0x5C, CHR ''u''] @ hex4_upper (of_char b)
      else [b])"

text \<open>The loop: \<open>clean\<close> is the run \<^verbatim>\<open>s[start..i]\<close> not yet copied.\<close>

fun write_basic_string_loop :: "string \<Rightarrow> string \<Rightarrow> string \<Rightarrow> string" where
  "write_basic_string_loop o1 clean [] = o1 @ clean"
| "write_basic_string_loop o1 clean (b # bs) =
     (if toml_escape b = [b] then write_basic_string_loop o1 (clean @ [b]) bs
      else write_basic_string_loop (o1 @ clean @ toml_escape b) [] bs)"

definition write_basic_string :: "string \<Rightarrow> string \<Rightarrow> string" where
  "write_basic_string o1 s = write_basic_string_loop (o1 @ [CHR 0x22]) [] s @ [CHR 0x22]"

definition is_ascii_alphanumeric :: "char \<Rightarrow> bool" where
  "is_ascii_alphanumeric b \<longleftrightarrow>
     (let c = (of_char b :: nat) in 48 \<le> c \<and> c \<le> 57 \<or> 65 \<le> c \<and> c \<le> 90 \<or> 97 \<le> c \<and> c \<le> 122)"

definition bare_byte :: "char \<Rightarrow> bool" where
  "bare_byte b \<longleftrightarrow> is_ascii_alphanumeric b \<or> b = CHR ''_'' \<or> b = CHR ''-''"

definition key_repr :: "string \<Rightarrow> string" where
  "key_repr k = (if k \<noteq> [] \<and> list_all bare_byte k then k else write_basic_string [] k)"

definition write_key :: "string \<Rightarrow> string \<Rightarrow> string" where
  "write_key o1 k = o1 @ key_repr k"

definition header_join :: "string \<Rightarrow> string \<Rightarrow> string" where
  "header_join pre k = (let key = key_repr k in if pre = [] then key else pre @ ''.'' @ key)"

definition write_float :: "'f toml_ops \<Rightarrow> string \<Rightarrow> 'f \<Rightarrow> string" where
  "write_float F o1 f =
     (if f_is_nan F f then o1 @ ''nan''
      else if f_is_infinite F f then o1 @ (if f_negative F f then ''-inf'' else ''inf'')
      else let t = f_display F f
           in if list_ex (\<lambda>b. b \<in> set ''.eE'') t then o1 @ t else o1 @ t @ ''.0'')"

fun is_object :: "'f Value \<Rightarrow> bool" where
  "is_object (Object _) = True"
| "is_object _ = False"

definition is_array_of_tables :: "'f Value list \<Rightarrow> bool" where
  "is_array_of_tables a \<longleftrightarrow> a \<noteq> [] \<and> list_all is_object a"

fun is_section :: "'f Value \<Rightarrow> bool" where
  "is_section (Object o1) = (o1 \<noteq> [])"
| "is_section (Array a) = is_array_of_tables a"
| "is_section _ = False"

fun write_inline_bytes :: "string \<Rightarrow> nat \<Rightarrow> bytes \<Rightarrow> string" where
  "write_inline_bytes o1 i [] = o1"
| "write_inline_bytes o1 i (x # xs) =
     write_inline_bytes (write_u64 (if i > 0 then o1 @ '', '' else o1) (ucast x)) (Suc i) xs"

fun write_inline :: "'f toml_ops \<Rightarrow> string \<Rightarrow> 'f Value \<Rightarrow> string"
  and inline_elems :: "'f toml_ops \<Rightarrow> string \<Rightarrow> nat \<Rightarrow> 'f Value list \<Rightarrow> string"
  and inline_entries :: "'f toml_ops \<Rightarrow> string \<Rightarrow> bool \<Rightarrow> 'f table \<Rightarrow> string" where
  "write_inline F o1 Null = o1 @ [CHR 0x22, CHR 0x22]"
| "write_inline F o1 (Bool b) = o1 @ (if b then ''true'' else ''false'')"
| "write_inline F o1 (IntV i) = write_i64 o1 i"
| "write_inline F o1 (UInt u) = write_u64 o1 u"
| "write_inline F o1 (Float f) = write_float F o1 f"
| "write_inline F o1 (Str s) = write_basic_string o1 s"
| "write_inline F o1 (Bytes b) = write_inline_bytes (o1 @ ''['') 0 b @ '']''"
| "write_inline F o1 (Array a) = inline_elems F (o1 @ ''['') 0 a @ '']''"
| "write_inline F o1 (Object kvs) =
     (if list_all (\<lambda>(_, val). is_null val) kvs then o1 @ ''{}''
      else inline_entries F (o1 @ ''{ '') True kvs @ '' }'')"
| "inline_elems F o1 i [] = o1"
| "inline_elems F o1 i (e # es) =
     inline_elems F (write_inline F (if i > 0 then o1 @ '', '' else o1) e) (Suc i) es"
| "inline_entries F o1 fst1 [] = o1"
| "inline_entries F o1 fst1 ((k, val) # kvs) =
     (if is_null val then inline_entries F o1 fst1 kvs
      else inline_entries F
        (write_inline F (write_key (if fst1 then o1 else o1 @ '', '') k @ '' = '') val) False kvs)"

fun write_scalars :: "'f toml_ops \<Rightarrow> string \<Rightarrow> 'f table \<Rightarrow> string" where
  "write_scalars F o1 [] = o1"
| "write_scalars F o1 ((k, v) # kvs) =
     (if is_null v \<or> is_section v then write_scalars F o1 kvs
      else write_scalars F (write_inline F (write_key o1 k @ '' = '') v @ [CHR 0x0A]) kvs)"

text \<open>The second loop of \<^verbatim>\<open>write_table\<close>, the loop over the elements of an array of tables, and \<^verbatim>\<open>write_table\<close>.\<close>

function write_sections :: "'f toml_ops \<Rightarrow> string \<Rightarrow> 'f table \<Rightarrow> string \<Rightarrow> string"
  and write_items :: "'f toml_ops \<Rightarrow> string \<Rightarrow> 'f Value list \<Rightarrow> string \<Rightarrow> string"
  and write_table :: "'f toml_ops \<Rightarrow> string \<Rightarrow> 'f table \<Rightarrow> string \<Rightarrow> string" where
  "write_sections F o1 [] pre = o1"
| "write_sections F o1 ((k, v) # kvs) pre =
     write_sections F
       (case v of
          Object t \<Rightarrow>
            if t \<noteq> [] then
              let header = header_join pre k
              in write_table F (o1 @ [CHR 0x0A] @ ''['' @ header @ '']'' @ [CHR 0x0A]) t header
            else o1
        | Array a \<Rightarrow> if is_array_of_tables a then write_items F o1 a (header_join pre k) else o1
        | _ \<Rightarrow> o1) kvs pre"
| "write_items F o1 [] header = o1"
| "write_items F o1 (item # items) header =
     write_items F
       (case item of
          Object t \<Rightarrow> write_table F (o1 @ [CHR 0x0A] @ ''[['' @ header @ '']]'' @ [CHR 0x0A]) t header
        | _ \<Rightarrow> o1) items header"
| "write_table F o1 entries pre = write_sections F (write_scalars F o1 entries) entries pre"
  by pat_completeness auto
termination
  by (relation "measure (\<lambda>x. case x of
        Inl (_, _, kvs, _) \<Rightarrow> 2 * size_list (size_prod (\<lambda>_. 0) size) kvs
      | Inr (Inl (_, _, items, _)) \<Rightarrow> 2 * size_list size items
      | Inr (Inr (_, _, kvs, _)) \<Rightarrow> 2 * size_list (size_prod (\<lambda>_. 0) size) kvs + 1)")
    auto

text \<open>\<^verbatim>\<open>encode\<close> of a value: a document is a table, anything else goes under the key \<^verbatim>\<open>value\<close>.\<close>

definition toml_encode :: "'f toml_ops \<Rightarrow> 'f Value \<Rightarrow> string" where
  "toml_encode F v = (case v of
     Object entries \<Rightarrow> write_table F [] entries []
   | _ \<Rightarrow> write_inline F ''value = '' v @ [CHR 0x0A])"

section \<open>Parser\<close>

datatype toml_stop = TErr CodecError | TPanic

type_synonym 'a tparsed = "('a \<times> string, toml_stop) result"

abbreviation tfail :: "string \<Rightarrow> ('a, toml_stop) result" where
  "tfail msg \<equiv> Err (TErr (Parse msg))"

text \<open>Rust's \<^verbatim>\<open>?\<close> on a parser step, and on one that may run out of fuel.\<close>

definition step_then :: "'a tparsed \<Rightarrow> ('a \<Rightarrow> string \<Rightarrow> ('b, toml_stop) result) \<Rightarrow> ('b, toml_stop) result" where
  "step_then m f = (case m of Err e \<Rightarrow> Err e | Ok (x, r) \<Rightarrow> f x r)"

definition step_thenM ::
  "'a tparsed \<Rightarrow> ('a \<Rightarrow> string \<Rightarrow> ('b, toml_stop) result option) \<Rightarrow> ('b, toml_stop) result option" where
  "step_thenM m f = (case m of Err e \<Rightarrow> Some (Err e) | Ok (x, r) \<Rightarrow> f x r)"

definition fuel_thenM ::
  "'a tparsed option \<Rightarrow> ('a \<Rightarrow> string \<Rightarrow> ('b, toml_stop) result option) \<Rightarrow> ('b, toml_stop) result option" where
  "fuel_thenM m f = (case m of None \<Rightarrow> None | Some q \<Rightarrow> step_thenM q f)"

lemma step_then_simps [simp]:
  "step_then (Ok (x, r)) f = f x r" "step_then (Err e) f = Err e"
  by (simp_all add: step_then_def)

lemma step_thenM_simps [simp]:
  "step_thenM (Ok (x, r)) f = f x r" "step_thenM (Err e) f = Some (Err e)"
  by (simp_all add: step_thenM_def)

lemma fuel_thenM_simps [simp]:
  "fuel_thenM None f = None" "fuel_thenM (Some q) f = step_thenM q f"
  by (simp_all add: fuel_thenM_def)

lemma step_then_Ok: "step_then m f = Ok y \<longleftrightarrow> (\<exists>x r. m = Ok (x, r) \<and> f x r = Ok y)"
  by (auto simp: step_then_def split: sum.splits)

lemma step_thenM_Ok: "step_thenM m f = Some (Ok y) \<longleftrightarrow> (\<exists>x r. m = Ok (x, r) \<and> f x r = Some (Ok y))"
  by (auto simp: step_thenM_def split: sum.splits)

lemma fuel_thenM_Ok: "fuel_thenM m f = Some (Ok y) \<longleftrightarrow> (\<exists>x r. m = Some (Ok (x, r)) \<and> f x r = Some (Ok y))"
  by (auto simp: fuel_thenM_def step_thenM_Ok split: option.splits)

lemmas step_Ok = step_then_Ok step_thenM_Ok fuel_thenM_Ok

lemma step_thenM_cong [fundef_cong]:
  "m = m' \<Longrightarrow> (\<And>x r. m' = Ok (x, r) \<Longrightarrow> f x r = g x r) \<Longrightarrow> step_thenM m f = step_thenM m' g"
  by (auto simp: step_thenM_def split: sum.splits)

lemma fuel_thenM_cong [fundef_cong]:
  "m = m' \<Longrightarrow> (\<And>x r. m' = Some (Ok (x, r)) \<Longrightarrow> f x r = g x r) \<Longrightarrow> fuel_thenM m f = fuel_thenM m' g"
  by (auto simp: fuel_thenM_def step_thenM_def split: sum.splits option.splits)

lemma step_then_cong [fundef_cong]:
  "m = m' \<Longrightarrow> (\<And>x r. m' = Ok (x, r) \<Longrightarrow> f x r = g x r) \<Longrightarrow> step_then m f = step_then m' g"
  by (auto simp: step_then_def split: sum.splits)

subsection \<open>White space and punctuation\<close>

definition inline_ws :: "char \<Rightarrow> bool" where
  "inline_ws b \<longleftrightarrow> b = CHR '' '' \<or> b = CHR 0x09 \<or> b = CHR 0x0D"

definition skip_inline_ws :: "string \<Rightarrow> string" where
  "skip_inline_ws r = dropWhile inline_ws r"

text \<open>A comment runs up to the end of the line.\<close>

definition skip_comment :: "string \<Rightarrow> string" where
  "skip_comment r = dropWhile (\<lambda>b. b \<noteq> CHR 0x0A) r"

function skip_ws_nl_comments :: "string \<Rightarrow> string" where
  "skip_ws_nl_comments [] = []"
| "skip_ws_nl_comments (b # r) =
     (if inline_ws b \<or> b = CHR 0x0A then skip_ws_nl_comments r
      else if b = CHR ''#'' then skip_ws_nl_comments (skip_comment (b # r))
      else b # r)"
  by pat_completeness auto
termination
  by (relation "measure length") (auto simp: skip_comment_def less_Suc_eq_le length_dropWhile_le)

text \<open>\<^verbatim>\<open>self.pos\<close>, and a byte shown \<^verbatim>\<open>as char\<close>\<close>

definition at_byte :: "nat \<Rightarrow> string \<Rightarrow> string" where
  "at_byte n r = '' at byte '' @ decimal (n - length r)"

definition shown :: "char \<Rightarrow> string" where
  "shown c = [CHR 0x27] @ utf8 (of_char c) @ [CHR 0x27]"

definition toml_expect :: "nat \<Rightarrow> char \<Rightarrow> string \<Rightarrow> unit tparsed" where
  "toml_expect n c r =
     (let r = skip_inline_ws r
      in case eat c r of
           Some r' \<Rightarrow> Ok ((), r')
         | None \<Rightarrow> tfail (''expected '' @ shown c @ at_byte n r))"

definition finish_line :: "nat \<Rightarrow> string \<Rightarrow> unit tparsed" where
  "finish_line n r =
     (let r = skip_inline_ws r;
          r = (if eat (CHR ''#'') r \<noteq> None then skip_comment r else r)
      in case r of
           [] \<Rightarrow> Ok ((), r)
         | c # r' \<Rightarrow>
             if c = CHR 0x0A then Ok ((), r')
             else tfail (''unexpected trailing input '' @ shown c @ at_byte n r))"

subsection \<open>Strings\<close>

definition to_digit :: "nat \<Rightarrow> char \<Rightarrow> nat option" where
  "to_digit radix b = (case to_digit16 b of Some d \<Rightarrow> if d < radix then Some d else None | None \<Rightarrow> None)"

fun digits_val :: "nat \<Rightarrow> nat \<Rightarrow> string \<Rightarrow> nat option" where
  "digits_val radix v [] = Some v"
| "digits_val radix v (b # r) = (case to_digit radix b of None \<Rightarrow> None | Some d \<Rightarrow> digits_val radix (v * radix + d) r)"

definition nat_radix :: "nat \<Rightarrow> string \<Rightarrow> nat option" where
  "nat_radix radix s = (if s = [] then None else digits_val radix 0 s)"

text \<open>\<^verbatim>\<open>u32::from_str_radix\<close>, \<^verbatim>\<open>u64::from_str_radix\<close> (\<open>w\<close> bits) and \<^verbatim>\<open>i64::from_str_radix\<close>: they take a sign.\<close>

definition unsigned_from_radix :: "nat \<Rightarrow> nat \<Rightarrow> string \<Rightarrow> nat option" where
  "unsigned_from_radix w radix s =
     Option.bind (nat_radix radix (strip_plus s)) (\<lambda>v. if v < 2 ^ w then Some v else None)"

definition i64_from_radix :: "nat \<Rightarrow> string \<Rightarrow> i64 option" where
  "i64_from_radix radix s =
     (if s \<noteq> [] \<and> hd s = CHR ''-'' then
        Option.bind (nat_radix radix (tl s)) (\<lambda>v. if v \<le> 2 ^ 63 then Some (- of_nat v) else None)
      else Option.bind (nat_radix radix (strip_plus s)) (\<lambda>v. if v < 2 ^ 63 then Some (of_nat v) else None))"

text \<open>\<^verbatim>\<open>is_char_boundary\<close>: the next byte does not continue a character.\<close>

definition char_boundary :: "string \<Rightarrow> bool" where
  "char_boundary r \<longleftrightarrow> (case r of [] \<Rightarrow> True | b # _ \<Rightarrow> \<not> (128 \<le> (of_char b :: nat) \<and> (of_char b :: nat) < 192))"

definition toml_hex :: "nat \<Rightarrow> string \<Rightarrow> nat tparsed" where
  "toml_hex k r =
     (if length r < k then tfail ''truncated unicode escape''
      else if \<not> char_boundary (drop k r) then Err TPanic
      else case unsigned_from_radix 32 16 (take k r) of
             None \<Rightarrow> tfail ''invalid unicode escape''
           | Some code \<Rightarrow> (case from_u32 code of
               None \<Rightarrow> tfail ''invalid unicode scalar''
             | Some ch \<Rightarrow> Ok (ch, drop k r)))"

definition toml_simple_escape :: "char \<Rightarrow> nat option" where
  "toml_simple_escape c =
     (if c = CHR 0x22 then Some 0x22
      else if c = CHR 0x5C then Some 0x5C
      else if c = CHR ''b'' then Some 0x08
      else if c = CHR ''t'' then Some 0x09
      else if c = CHR ''n'' then Some 0x0A
      else if c = CHR ''f'' then Some 0x0C
      else if c = CHR ''r'' then Some 0x0D
      else None)"

definition toml_parse_escape :: "string \<Rightarrow> nat tparsed" where
  "toml_parse_escape r = (case r of
     [] \<Rightarrow> tfail ''unterminated escape''
   | c # r1 \<Rightarrow>
       (case toml_simple_escape c of
          Some ch \<Rightarrow> Ok (ch, r1)
        | None \<Rightarrow>
            if c = CHR ''u'' then toml_hex 4 r1
            else if c = CHR ''U'' then toml_hex 8 r1
            else tfail (''invalid escape '' @ [CHR 0x27, CHR 0x5C] @ utf8 (of_char c) @ [CHR 0x27])))"

definition basic_byte :: "char \<Rightarrow> bool" where
  "basic_byte b \<longleftrightarrow> b \<noteq> CHR 0x22 \<and> b \<noteq> CHR 0x5C \<and> b \<noteq> CHR 0x0A"

lemma toml_parse_escape_length: "toml_parse_escape r = Ok (x, r') \<Longrightarrow> length r' < length r"
  by (auto simp: toml_parse_escape_def toml_hex_def split: list.splits option.splits if_splits)

text \<open>What follows the opening quote.\<close>

function basic_string_loop :: "string \<Rightarrow> string \<Rightarrow> string tparsed" where
  "basic_string_loop o1 r =
     (let o1 = o1 @ takeWhile basic_byte r
      in case dropWhile basic_byte r of
           [] \<Rightarrow> tfail ''unterminated string''
         | b # r1 \<Rightarrow>
             if b = CHR 0x0A then tfail ''unterminated string''
             else if b = CHR 0x22 then Ok (o1, r1)
             else step_then (toml_parse_escape r1) (\<lambda>ch r2. basic_string_loop (o1 @ utf8 ch) r2))"
  by pat_completeness auto
termination
proof (relation "measure (length \<circ> snd)", goal_cases)
  case (2 o1 r o2 b r1 ch r2)
  have "length r2 < length r1" using 2(5) by (rule toml_parse_escape_length)
  also have "\<dots> < length r" using 2(2) length_dropWhile_le [of basic_byte r] by simp
  finally show ?case by simp
qed simp

declare basic_string_loop.simps [simp del]

definition toml_basic_string :: "string \<Rightarrow> string tparsed" where
  "toml_basic_string r = basic_string_loop [] (tl r)"

definition toml_literal_string :: "string \<Rightarrow> string tparsed" where
  "toml_literal_string r =
     (let lit = (\<lambda>b. b \<noteq> CHR 0x27 \<and> b \<noteq> CHR 0x0A)
      in case eat (CHR 0x27) (dropWhile lit (tl r)) of
           None \<Rightarrow> tfail ''unterminated literal string''
         | Some r' \<Rightarrow> Ok (takeWhile lit (tl r), r'))"

subsection \<open>Keys\<close>

definition parse_key_segment :: "nat \<Rightarrow> string \<Rightarrow> string tparsed" where
  "parse_key_segment n r =
     (if eat (CHR 0x22) r \<noteq> None then toml_basic_string r
      else if eat (CHR 0x27) r \<noteq> None then toml_literal_string r
      else if takeWhile bare_byte r = [] then tfail (''expected key'' @ at_byte n r)
      else Ok (takeWhile bare_byte r, dropWhile bare_byte r))"

lemma basic_string_loop_length: "basic_string_loop o1 r = Ok (s, r') \<Longrightarrow> length r' < length r"
proof (induction o1 r rule: basic_string_loop.induct)
  case (1 o1 r)
  obtain b r1 where d: "dropWhile basic_byte r = b # r1"
    using 1(2) by (subst (asm) basic_string_loop.simps) (auto simp: Let_def split: list.splits)
  then have le: "length r1 < length r" using length_dropWhile_le [of basic_byte r] by simp
  show ?case
  proof (cases "b = CHR 0x22")
    case True
    then show ?thesis using 1(2) d le by (subst (asm) basic_string_loop.simps) simp
  next
    case False
    moreover have "b \<noteq> CHR 0x0A" using 1(2) d by (subst (asm) basic_string_loop.simps) (auto split: if_splits)
    moreover from calculation obtain ch r2 where "toml_parse_escape r1 = Ok (ch, r2)"
        "basic_string_loop ((o1 @ takeWhile basic_byte r) @ utf8 ch) r2 = Ok (s, r')"
      using 1(2) d by (subst (asm) basic_string_loop.simps) (auto simp: step_Ok)
    ultimately show ?thesis using 1(1) [OF refl d] toml_parse_escape_length le by fastforce
  qed
qed

lemma quoted_length:
  "toml_basic_string r = Ok (s, r') \<Longrightarrow> r \<noteq> [] \<Longrightarrow> length r' < length r"
  "toml_literal_string r = Ok (s, r') \<Longrightarrow> r \<noteq> [] \<Longrightarrow> length r' < length r"
proof -
  show "toml_basic_string r = Ok (s, r') \<Longrightarrow> r \<noteq> [] \<Longrightarrow> length r' < length r"
    by (cases r) (auto simp: toml_basic_string_def dest: basic_string_loop_length)
  assume "toml_literal_string r = Ok (s, r')" "r \<noteq> []"
  then have "Suc (length r') = length (dropWhile (\<lambda>b. b \<noteq> CHR 0x27 \<and> b \<noteq> CHR 0x0A) (tl r))"
    by (auto simp: toml_literal_string_def Let_def eat_def split: option.splits list.splits if_splits)
  also have "\<dots> \<le> length (tl r)" by (rule length_dropWhile_le)
  finally show "length r' < length r" by simp
qed

lemma parse_key_segment_length: "parse_key_segment n r = Ok (s, r') \<Longrightarrow> length r' < length r"
proof -
  assume seg: "parse_key_segment n r = Ok (s, r')"
  consider "toml_basic_string r = Ok (s, r')" "r \<noteq> []" | "toml_literal_string r = Ok (s, r')" "r \<noteq> []"
    | "takeWhile bare_byte r \<noteq> []" "r' = dropWhile bare_byte r"
    using seg by (auto simp: parse_key_segment_def eat_def split: if_splits list.splits)
  then show ?thesis
  proof cases
    case 3
    then show ?thesis
      by (metis add_gr_0 length_append length_greater_0_conv less_add_same_cancel2 takeWhile_dropWhile_id)
  qed (auto dest: quoted_length)
qed

function key_path_loop :: "nat \<Rightarrow> string list \<Rightarrow> string \<Rightarrow> string list tparsed" where
  "key_path_loop n path r =
     step_then (parse_key_segment n (skip_inline_ws r)) (\<lambda>seg r1.
       case eat (CHR ''.'') (skip_inline_ws r1) of
         Some r2 \<Rightarrow> key_path_loop n (path @ [seg]) r2
       | None \<Rightarrow> Ok (path @ [seg], skip_inline_ws r1))"
  by pat_completeness auto
termination
proof (relation "measure (\<lambda>(n, path, r). length r)", goal_cases)
  case (2 n path r seg r1 r2)
  then have "skip_inline_ws r1 = CHR ''.'' # r2" by (auto simp: eat_def split: list.splits if_splits)
  then have "length r2 < length r1" using length_dropWhile_le [of inline_ws r1] by (simp add: skip_inline_ws_def)
  also have "\<dots> < length r"
    using parse_key_segment_length [OF 2(1)] length_dropWhile_le [of inline_ws r] by (simp add: skip_inline_ws_def)
  finally show ?case by simp
qed simp

declare key_path_loop.simps [simp del]

definition parse_key_path :: "nat \<Rightarrow> string \<Rightarrow> string list tparsed" where
  "parse_key_path n r = key_path_loop n [] r"

subsection \<open>Document tree\<close>

definition not_a_table :: "string \<Rightarrow> ('a, toml_stop) result" where
  "not_a_table seg = tfail ([CHR 0x27] @ seg @ [CHR 0x27] @ '' is not a table'')"

text \<open>\<open>use1\<close> is what the caller does with the \<^verbatim>\<open>&mut\<close> table it is given.\<close>

definition descend ::
  "'f Value \<Rightarrow> string \<Rightarrow> ('f table \<Rightarrow> ('f table, toml_stop) result) \<Rightarrow> ('f Value, toml_stop) result" where
  "descend v seg use1 = (case v of
     Object t \<Rightarrow> map_sum id Object (use1 t)
   | Array a \<Rightarrow>
       if a = [] then not_a_table seg
       else (case last a of
         Object t \<Rightarrow> map_sum id (\<lambda>t'. Array (butlast a @ [Object t'])) (use1 t)
       | _ \<Rightarrow> not_a_table seg)
   | _ \<Rightarrow> not_a_table seg)"

fun position :: "string \<Rightarrow> 'f table \<Rightarrow> nat option" where
  "position seg [] = None"
| "position seg ((k, _) # t) = (if k = seg then Some 0 else map_option Suc (position seg t))"

fun resolve ::
  "'f table \<Rightarrow> string list \<Rightarrow> ('f table \<Rightarrow> ('f table, toml_stop) result) \<Rightarrow> ('f table, toml_stop) result" where
  "resolve cur [] use1 = use1 cur"
| "resolve cur (seg # path) use1 = (case position seg cur of
     None \<Rightarrow> tfail (''no such table '' @ [CHR 0x27] @ seg @ [CHR 0x27])
   | Some i \<Rightarrow> map_sum id (\<lambda>v. cur[i := (fst (cur ! i), v)])
       (descend (snd (cur ! i)) seg (\<lambda>t. resolve t path use1)))"

fun get_or_create ::
  "'f table \<Rightarrow> string list \<Rightarrow> ('f table \<Rightarrow> ('f table, toml_stop) result) \<Rightarrow> ('f table, toml_stop) result" where
  "get_or_create cur [] use1 = use1 cur"
| "get_or_create cur (seg # path) use1 =
     (let (i, cur) = (case position seg cur of
            Some i \<Rightarrow> (i, cur)
          | None \<Rightarrow> (length cur, cur @ [(seg, Object [])]))
      in map_sum id (\<lambda>v. cur[i := (fst (cur ! i), v)])
           (descend (snd (cur ! i)) seg (\<lambda>t. get_or_create t path use1)))"

definition append_array_table :: "'f table \<Rightarrow> string list \<Rightarrow> ('f table, toml_stop) result" where
  "append_array_table root path =
     (if path = [] then tfail ''empty table header''
      else get_or_create root (butlast path) (\<lambda>base.
        case position (last path) base of
          Some i \<Rightarrow> (case snd (base ! i) of
            Array a \<Rightarrow> Ok (base[i := (fst (base ! i), Array (a @ [Object []]))])
          | _ \<Rightarrow> tfail ([CHR 0x27] @ last path @ [CHR 0x27] @ '' is not an array of tables''))
        | None \<Rightarrow> Ok (base @ [(last path, Array [Object []])])))"

definition set_nested :: "'f table \<Rightarrow> string list \<Rightarrow> 'f Value \<Rightarrow> ('f table, toml_stop) result" where
  "set_nested base keypath val =
     (if keypath = [] then tfail ''empty key''
      else get_or_create base (butlast keypath) (\<lambda>tbl.
        if list_ex (\<lambda>(k, _). k = last keypath) tbl
        then tfail (''duplicate key '' @ [CHR 0x27] @ last keypath @ [CHR 0x27])
        else Ok (tbl @ [(last keypath, val)])))"

subsection \<open>Values\<close>

definition radix_int :: "string \<Rightarrow> 'f Value option" where
  "radix_int tok =
     Option.bind
       (case strip_prefix ''0x'' tok of
          Some r \<Rightarrow> Some (r, 16)
        | None \<Rightarrow> (case strip_prefix ''0o'' tok of
            Some r \<Rightarrow> Some (r, 8)
          | None \<Rightarrow> map_option (\<lambda>r. (r, 2)) (strip_prefix ''0b'' tok)))
       (\<lambda>(rest, radix).
          let digits = filter (\<lambda>c. c \<noteq> CHR ''_'') rest
          in case i64_from_radix radix digits of
               Some i \<Rightarrow> Some (IntV i)
             | None \<Rightarrow> map_option (\<lambda>u. UInt (of_nat u)) (unsigned_from_radix 64 radix digits))"

definition floaty :: "string \<Rightarrow> bool" where
  "floaty s \<longleftrightarrow> list_ex (\<lambda>c. c = CHR ''.'' \<or> c = CHR ''e'' \<or> c = CHR ''E'') s"

definition number_atom :: "'f toml_ops \<Rightarrow> string \<Rightarrow> 'f Value" where
  "number_atom F tok =
     (let cleaned = filter (\<lambda>c. c \<noteq> CHR ''_'') tok;
          as_float = (case f_parse F cleaned of
            Some f \<Rightarrow> if floaty cleaned then Float f else Str tok
          | None \<Rightarrow> Str tok)
      in if \<not> floaty cleaned then
           (case parse_i64 cleaned of
              Some i \<Rightarrow> IntV i
            | None \<Rightarrow> (case parse_u64 cleaned of Some u \<Rightarrow> UInt u | None \<Rightarrow> as_float))
         else as_float)"

definition atom :: "'f toml_ops \<Rightarrow> string \<Rightarrow> 'f Value" where
  "atom F tok =
     (if tok = ''true'' then Bool True
      else if tok = ''false'' then Bool False
      else if tok = ''inf'' \<or> tok = ''+inf'' then Float (f_inf F)
      else if tok = ''-inf'' then Float (f_neg_inf F)
      else if tok = ''nan'' \<or> tok = ''+nan'' \<or> tok = ''-nan'' then Float (f_nan F)
      else case radix_int tok of Some v \<Rightarrow> v | None \<Rightarrow> number_atom F tok)"

definition atom_byte :: "char \<Rightarrow> bool" where
  "atom_byte b \<longleftrightarrow> \<not> inline_ws b \<and> b \<noteq> CHR 0x0A \<and> b \<noteq> CHR '','' \<and> b \<noteq> CHR '']'' \<and> b \<noteq> CHR ''}'' \<and> b \<noteq> CHR ''#''"

definition parse_atom :: "nat \<Rightarrow> 'f toml_ops \<Rightarrow> string \<Rightarrow> 'f Value tparsed" where
  "parse_atom n F r =
     (let tok = trim (takeWhile atom_byte r)
      in if tok = [] then tfail (''expected a value'' @ at_byte n r)
         else Ok (atom F tok, dropWhile atom_byte r))"

definition separator_expected :: "char \<Rightarrow> string \<Rightarrow> ('a, toml_stop) result" where
  "separator_expected c wher = tfail (''expected '' @ [CHR 0x27] @ '','' @ [CHR 0x27] @ '' or '' @ [CHR 0x27, c, CHR 0x27] @ wher)"

text \<open>The branches of \<^verbatim>\<open>parse_value\<close> that do not recurse: strings and atoms.\<close>

definition parse_scalar :: "nat \<Rightarrow> 'f toml_ops \<Rightarrow> char \<Rightarrow> string \<Rightarrow> 'f Value tparsed" where
  "parse_scalar n F b r1 =
     (if b = CHR 0x22 then
        if prefix [CHR 0x22, CHR 0x22, CHR 0x22] (b # r1) then tfail ''multi-line strings are not supported''
        else step_then (toml_basic_string (b # r1)) (\<lambda>s r2. Ok (Str s, r2))
      else if b = CHR 0x27 then
        if prefix [CHR 0x27, CHR 0x27, CHR 0x27] (b # r1) then tfail ''multi-line strings are not supported''
        else step_then (toml_literal_string (b # r1)) (\<lambda>s r2. Ok (Str s, r2))
      else parse_atom n F (b # r1))"

text \<open>
  The recursive descent; the first argument is fuel, of which \<open>toml_from_str\<close> provides enough.
\<close>

function toml_value :: "nat \<Rightarrow> nat \<Rightarrow> 'f toml_ops \<Rightarrow> nat \<Rightarrow> string \<Rightarrow> 'f Value tparsed option"
  and toml_array :: "nat \<Rightarrow> nat \<Rightarrow> 'f toml_ops \<Rightarrow> nat \<Rightarrow> 'f Value list \<Rightarrow> string \<Rightarrow> 'f Value tparsed option"
  and toml_inline_table :: "nat \<Rightarrow> nat \<Rightarrow> 'f toml_ops \<Rightarrow> nat \<Rightarrow> 'f table \<Rightarrow> string \<Rightarrow> 'f Value tparsed option" where
  "toml_value 0 n F depth r = None"
| "toml_value (Suc fuel) n F depth r =
     (if depth > max_depth then Some (tfail ''nesting too deep'')
      else case skip_inline_ws r of
        [] \<Rightarrow> Some (tfail ''expected a value'')
      | b # r1 \<Rightarrow>
          if b = CHR ''['' then toml_array fuel n F depth [] r1
          else if b = CHR ''{'' then
            (case eat (CHR ''}'') (skip_ws_nl_comments r1) of
               Some r2 \<Rightarrow> Some (Ok (Object [], r2))
             | None \<Rightarrow> toml_inline_table fuel n F depth [] (skip_ws_nl_comments r1))
          else Some (parse_scalar n F b r1))"
| "toml_array 0 n F depth items r = None"
| "toml_array (Suc fuel) n F depth items r =
     (case eat (CHR '']'') (skip_ws_nl_comments r) of
        Some r1 \<Rightarrow> Some (Ok (Array items, r1))
      | None \<Rightarrow>
          fuel_thenM (toml_value fuel n F (depth + 1) (skip_ws_nl_comments r)) (\<lambda>v r1.
            let r2 = skip_ws_nl_comments r1; items = items @ [v]
            in case eat (CHR '','') r2 of
                 Some r3 \<Rightarrow> toml_array fuel n F depth items r3
               | None \<Rightarrow> (case eat (CHR '']'') r2 of
                   Some r3 \<Rightarrow> Some (Ok (Array items, r3))
                 | None \<Rightarrow> Some (separator_expected (CHR '']'') '' in array''))))"
| "toml_inline_table 0 n F depth entries r = None"
| "toml_inline_table (Suc fuel) n F depth entries r =
     step_thenM (parse_key_path n (skip_ws_nl_comments r)) (\<lambda>keypath r1.
       step_thenM (toml_expect n (CHR ''='') r1) (\<lambda>_ r2.
         fuel_thenM (toml_value fuel n F (depth + 1) (skip_inline_ws r2)) (\<lambda>val r3.
           case set_nested entries keypath val of
             Err e \<Rightarrow> Some (Err e)
           | Ok entries \<Rightarrow>
               let r4 = skip_ws_nl_comments r3
               in case eat (CHR '','') r4 of
                    Some r5 \<Rightarrow> toml_inline_table fuel n F depth entries r5
                  | None \<Rightarrow> (case eat (CHR ''}'') r4 of
                      Some r5 \<Rightarrow> Some (Ok (Object entries, r5))
                    | None \<Rightarrow> Some (separator_expected (CHR ''}'') '' in inline table'')))))"
  by pat_completeness auto
termination
  by (relation "measure (\<lambda>x. case x of Inl (k, _) \<Rightarrow> k | Inr (Inl (k, _)) \<Rightarrow> k | Inr (Inr (k, _)) \<Rightarrow> k)") simp_all

subsection \<open>Documents\<close>

text \<open>One statement of \<^verbatim>\<open>parse\<close>: the tree and the current table after it. \<open>r\<close> is not empty.\<close>

definition parse_header :: "nat \<Rightarrow> 'f table \<Rightarrow> string \<Rightarrow> ('f table \<times> string list) tparsed" where
  "parse_header n root r =
     (case eat (CHR ''['') (tl r) of
        Some r1 \<Rightarrow>
          step_then (parse_key_path n r1) (\<lambda>path r2.
            step_then (toml_expect n (CHR '']'') r2) (\<lambda>_ r3.
              step_then (toml_expect n (CHR '']'') r3) (\<lambda>_ r4.
                case append_array_table root path of
                  Err e \<Rightarrow> Err e
                | Ok root \<Rightarrow> step_then (finish_line n r4) (\<lambda>_ r5. Ok ((root, path), r5)))))
      | None \<Rightarrow>
          step_then (parse_key_path n (tl r)) (\<lambda>path r2.
            step_then (toml_expect n (CHR '']'') r2) (\<lambda>_ r3.
              case get_or_create root path Ok of
                Err e \<Rightarrow> Err e
              | Ok root \<Rightarrow> step_then (finish_line n r3) (\<lambda>_ r4. Ok ((root, path), r4)))))"

definition parse_pair ::
  "nat \<Rightarrow> 'f toml_ops \<Rightarrow> 'f table \<Rightarrow> string list \<Rightarrow> string \<Rightarrow> ('f table \<times> string list) tparsed option" where
  "parse_pair n F root current r =
     step_thenM (parse_key_path n r) (\<lambda>keypath r1.
       step_thenM (toml_expect n (CHR ''='') (skip_inline_ws r1)) (\<lambda>_ r2.
         fuel_thenM (toml_value (2 * length r2 + 2) n F 0 (skip_inline_ws r2)) (\<lambda>val r3.
           case resolve root current (\<lambda>base. set_nested base keypath val) of
             Err e \<Rightarrow> Some (Err e)
           | Ok root \<Rightarrow> Some (step_then (finish_line n r3) (\<lambda>_ r4. Ok ((root, current), r4))))))"

definition parse_statement ::
  "nat \<Rightarrow> 'f toml_ops \<Rightarrow> 'f table \<Rightarrow> string list \<Rightarrow> string \<Rightarrow> ('f table \<times> string list) tparsed option" where
  "parse_statement n F root current r =
     (if eat (CHR ''['') r \<noteq> None then Some (parse_header n root r) else parse_pair n F root current r)"

fun parse_doc :: "nat \<Rightarrow> nat \<Rightarrow> 'f toml_ops \<Rightarrow> 'f table \<Rightarrow> string list \<Rightarrow> string \<Rightarrow> ('f Value, toml_stop) result option" where
  "parse_doc 0 n F root current r = None"
| "parse_doc (Suc fuel) n F root current r =
     (let r = skip_ws_nl_comments r
      in if r = [] then Some (Ok (Object root))
         else fuel_thenM (parse_statement n F root current r) (\<lambda>(root, current) r. parse_doc fuel n F root current r))"

definition toml_from_str :: "'f toml_ops \<Rightarrow> string \<Rightarrow> ('f Value, toml_stop) result option" where
  "toml_from_str F input = parse_doc (length input + 1) (length input) F [] [] input"

end
