(* ===== verification/Codec_Toml_Total.thy ===== *)
theory Codec_Toml_Total
  imports Codec_Toml Codec_Text
begin

text \<open>
  The TOML parser ends on every input, and panics only on a unicode escape that cuts a character in two.
\<close>

section \<open>Consumption\<close>

lemma skip_inline_ws_suffix [intro]: "suffix (skip_inline_ws r) r"
  unfolding skip_inline_ws_def by (rule suffix_dropWhile)

lemma skip_comment_suffix [intro]: "suffix (skip_comment r) r"
  unfolding skip_comment_def by (rule suffix_dropWhile)

lemma skip_ws_nl_comments_suffix [intro]: "suffix (skip_ws_nl_comments r) r"
proof (induction r rule: skip_ws_nl_comments.induct)
  case (2 b r)
  have "suffix (skip_comment (b # r)) (b # r)" by (rule skip_comment_suffix)
  with 2 show ?case by (auto intro: suffix_ConsI dest: suffix_order.trans)
qed simp

lemma eat_suffix: "eat c r = Some r' \<Longrightarrow> strict_suffix r' r"
  by (auto simp: eat_Some strict_suffix_def suffix_def)

lemma suffix_lengths: "suffix a b \<Longrightarrow> length a \<le> length b" "strict_suffix a b \<Longrightarrow> length a < length b"
  by (auto simp: suffix_length_le suffix_length_less)

lemma skip_lengths [simp]: "length (skip_inline_ws r) \<le> length r" "length (skip_ws_nl_comments r) \<le> length r"
  by (rule suffix_lengths(1), blast)+

text \<open>The remaining input after a step is a suffix of the input before it.\<close>

lemma strict_suffix_Cons: "suffix (c # r') r \<Longrightarrow> strict_suffix r' r"
  by (metis strict_suffix_def suffix_ConsD not_Cons_self2 suffix_order.antisym suffix_ConsI suffix_order.refl)

lemma eat_after: "suffix s r \<Longrightarrow> eat c s = Some r' \<Longrightarrow> strict_suffix r' r"
  by (auto simp: eat_Some intro: strict_suffix_Cons)

lemma toml_expect_suffix: "toml_expect n c r = Ok (x, r') \<Longrightarrow> strict_suffix r' r"
  by (auto simp: toml_expect_def Let_def split: option.splits intro: eat_after)

lemma finish_line_suffix: "finish_line n r = Ok (x, r') \<Longrightarrow> suffix r' r"
proof -
  assume fin: "finish_line n r = Ok (x, r')"
  define s where "s = (if eat (CHR ''#'') (skip_inline_ws r) \<noteq> None then skip_comment (skip_inline_ws r) else skip_inline_ws r)"
  have s: "suffix s r"
    by (auto simp: s_def intro: suffix_order.trans [OF skip_comment_suffix])
  have "r' = s \<or> s = CHR 0x0A # r'"
    using fin unfolding finish_line_def Let_def s_def [symmetric] by (auto split: list.splits if_splits)
  then show ?thesis using s strict_suffix_Cons [of _ r' r] by (auto simp: strict_suffix_def)
qed

lemma toml_parse_escape_suffix: "toml_parse_escape r = Ok (x, r') \<Longrightarrow> suffix r' r"
  by (auto simp: toml_parse_escape_def toml_hex_def split: list.splits option.splits if_splits
      intro: suffix_ConsI suffix_drop)

lemma basic_string_loop_suffix: "basic_string_loop o1 r = Ok (s, r') \<Longrightarrow> suffix r' r"
proof (induction o1 r rule: basic_string_loop.induct)
  case (1 o1 r)
  note step = 1(2) [unfolded basic_string_loop.simps [of o1 r] Let_def]
  then obtain b r1 where d: "dropWhile basic_byte r = b # r1" by (auto split: list.splits)
  have r1: "suffix r1 r" using suffix_dropWhile [of basic_byte r] d by (auto dest: suffix_ConsD)
  show ?case
  proof (cases "b = CHR 0x22")
    case True
    then show ?thesis using step d r1 by simp
  next
    case False
    moreover have "b \<noteq> CHR 0x0A" using step d by auto
    moreover from calculation obtain ch r2 where "toml_parse_escape r1 = Ok (ch, r2)"
        "basic_string_loop ((o1 @ takeWhile basic_byte r) @ utf8 ch) r2 = Ok (s, r')"
      using step d by (auto simp: step_Ok)
    ultimately show ?thesis
      using 1(1) [OF refl d] r1 toml_parse_escape_suffix [of r1 ch r2] by (meson suffix_order.trans)
  qed
qed

lemma suffix_tl: "suffix (tl r) r"
  by (cases r) (simp_all add: suffix_ConsI)

lemma quoted_suffix:
  "toml_basic_string r = Ok (s, r') \<Longrightarrow> suffix r' r"
  "toml_literal_string r = Ok (s, r') \<Longrightarrow> suffix r' r"
proof -
  show "toml_basic_string r = Ok (s, r') \<Longrightarrow> suffix r' r"
    unfolding toml_basic_string_def by (rule suffix_order.trans [OF basic_string_loop_suffix suffix_tl])
  assume "toml_literal_string r = Ok (s, r')"
  then have "eat (CHR 0x27) (dropWhile (\<lambda>b. b \<noteq> CHR 0x27 \<and> b \<noteq> CHR 0x0A) (tl r)) = Some r'"
    by (auto simp: toml_literal_string_def Let_def split: option.splits)
  then have "strict_suffix r' (tl r)" by (rule eat_after [OF suffix_dropWhile])
  then show "suffix r' r" using suffix_tl [of r] by (meson strict_suffix_def suffix_order.trans)
qed

lemma parse_key_segment_suffix: "parse_key_segment n r = Ok (s, r') \<Longrightarrow> strict_suffix r' r"
proof -
  assume seg: "parse_key_segment n r = Ok (s, r')"
  then have "suffix r' r"
    by (auto simp: parse_key_segment_def split: if_splits dest: quoted_suffix intro: suffix_dropWhile)
  then show ?thesis using parse_key_segment_length [OF seg] by (auto simp: strict_suffix_def)
qed

lemma key_path_loop_suffix: "key_path_loop n path r = Ok (p, r') \<Longrightarrow> strict_suffix r' r"
proof (induction n path r rule: key_path_loop.induct)
  case (1 n path r)
  from 1(2) obtain seg r1 where seg: "parse_key_segment n (skip_inline_ws r) = Ok (seg, r1)"
    and k: "(case eat (CHR ''.'') (skip_inline_ws r1) of
         Some r2 \<Rightarrow> key_path_loop n (path @ [seg]) r2
       | None \<Rightarrow> Ok (path @ [seg], skip_inline_ws r1)) = Ok (p, r')"
    by (subst (asm) key_path_loop.simps) (auto simp: step_Ok)
  have r1: "strict_suffix r1 r"
    using parse_key_segment_suffix [OF seg] skip_inline_ws_suffix [of r] by (rule suffix_order.less_le_trans)
  show ?case
  proof (cases "eat (CHR ''.'') (skip_inline_ws r1)")
    case None
    then show ?thesis using k r1 skip_inline_ws_suffix [of r1] by (auto intro: suffix_order.le_less_trans)
  next
    case (Some r2)
    then have "strict_suffix r' r2" using 1(1) [OF seg Some] k by simp
    moreover have "strict_suffix r2 r1" by (rule eat_after [OF skip_inline_ws_suffix Some])
    ultimately show ?thesis using r1 by (meson suffix_order.less_trans)
  qed
qed

lemma parse_key_path_suffix: "parse_key_path n r = Ok (p, r') \<Longrightarrow> strict_suffix r' r"
  unfolding parse_key_path_def by (rule key_path_loop_suffix)

lemma parse_scalar_suffix: "parse_scalar n F b r = Ok (v, r') \<Longrightarrow> suffix r' (b # r)"
  by (auto simp: parse_scalar_def parse_atom_def Let_def step_Ok split: if_splits dest: quoted_suffix
      intro: suffix_dropWhile simp del: dropWhile.simps takeWhile.simps)

lemma case_Ok:
  "(case m of Err e \<Rightarrow> Err e | Ok x \<Rightarrow> f x) = Ok y \<longleftrightarrow> (\<exists>x. m = Ok x \<and> f x = Ok y)"
  "(case m of Err e \<Rightarrow> Some (Err e) | Ok x \<Rightarrow> g x) = Some (Ok y) \<longleftrightarrow> (\<exists>x. m = Ok x \<and> g x = Some (Ok y))"
  by (cases m; simp)+

lemmas toml_induct = toml_value_toml_array_toml_inline_table.induct

text \<open>Chains of suffixes, oldest last.\<close>

lemmas suffix_chain = suffix_order.trans suffix_order.less_imp_le

lemma toml_value_suffix:
  "toml_value fuel n F depth r = Some (Ok (v, r')) \<Longrightarrow> suffix r' r"
  "toml_array fuel n F depth items r = Some (Ok (v, r')) \<Longrightarrow> suffix r' r"
  "toml_inline_table fuel n F depth entries r = Some (Ok (v, r')) \<Longrightarrow> suffix r' r"
proof (induction fuel n F depth r and fuel n F depth items r and fuel n F depth entries r
    arbitrary: v r' and v r' and v r' rule: toml_induct)
  case (2 fuel n F depth r)
  then obtain b r1 where ws: "skip_inline_ws r = b # r1" and d: "\<not> depth > max_depth"
    by (cases "skip_inline_ws r") (auto split: if_splits)
  have r1: "suffix r1 r" using skip_inline_ws_suffix [of r] ws by (auto dest: suffix_ConsD)
  consider (arr) "b = CHR ''[''" "toml_array fuel n F depth [] r1 = Some (Ok (v, r'))"
    | (empty) "eat (CHR ''}'') (skip_ws_nl_comments r1) = Some r'"
    | (tab) "b = CHR ''{''" "eat (CHR ''}'') (skip_ws_nl_comments r1) = None"
        "toml_inline_table fuel n F depth [] (skip_ws_nl_comments r1) = Some (Ok (v, r'))"
    | (scalar) "parse_scalar n F b r1 = Ok (v, r')"
    using 2(3) ws d by (auto split: if_splits option.splits)
  then show ?case
  proof cases
    case arr
    then show ?thesis using 2(1) [OF d ws] r1 by (blast intro: suffix_order.trans)
  next
    case empty
    then show ?thesis using eat_after [OF skip_ws_nl_comments_suffix] r1 by (blast intro: suffix_chain)
  next
    case tab
    then show ?thesis using 2(2) [OF d ws _ tab(1,2)] skip_ws_nl_comments_suffix [of r1] r1
      by (auto dest: suffix_order.trans)
  next
    case scalar
    then show ?thesis using parse_scalar_suffix skip_inline_ws_suffix [of r] ws by (metis suffix_order.trans)
  qed
next
  case (4 fuel n F depth items r)
  note sfx = skip_ws_nl_comments_suffix [of r]
  show ?case
  proof (cases "eat (CHR '']'') (skip_ws_nl_comments r)")
    case (Some r1)
    then show ?thesis using 4(3) eat_after [OF sfx Some] by (auto intro: suffix_order.less_imp_le)
  next
    case None
    with 4(3) obtain w r1 where w: "toml_value fuel n F (depth + 1) (skip_ws_nl_comments r) = Some (Ok (w, r1))"
      and k: "(case eat (CHR '','') (skip_ws_nl_comments r1) of
                 Some r3 \<Rightarrow> toml_array fuel n F depth (items @ [w]) r3
               | None \<Rightarrow> (case eat (CHR '']'') (skip_ws_nl_comments r1) of
                   Some r3 \<Rightarrow> Some (Ok (Array (items @ [w]), r3))
                 | None \<Rightarrow> Some (separator_expected (CHR '']'') '' in array''))) = Some (Ok (v, r'))"
      by (auto simp: step_Ok Let_def)
    have r1: "suffix r1 r" using 4(1) [OF None w] sfx by (rule suffix_order.trans)
    have r3: "suffix r3 r" if "eat c (skip_ws_nl_comments r1) = Some r3" for c r3
      using eat_after [OF skip_ws_nl_comments_suffix that] r1 by (blast intro: suffix_chain)
    show ?thesis
      using k r3 4(2) [OF None w refl refl]
      by (auto simp: separator_expected_def split: option.splits) (blast intro: suffix_order.trans)+
  qed
next
  case (6 fuel n F depth entries r)
  note sfx = skip_ws_nl_comments_suffix [of r]
  from 6(3) obtain kp r1 u r2 w r3 es where k: "parse_key_path n (skip_ws_nl_comments r) = Ok (kp, r1)"
    and e: "toml_expect n (CHR ''='') r1 = Ok (u, r2)"
    and w: "toml_value fuel n F (depth + 1) (skip_inline_ws r2) = Some (Ok (w, r3))"
    and es: "set_nested entries kp w = Ok es"
    and c: "(case eat (CHR '','') (skip_ws_nl_comments r3) of
                    Some r5 \<Rightarrow> toml_inline_table fuel n F depth es r5
                  | None \<Rightarrow> (case eat (CHR ''}'') (skip_ws_nl_comments r3) of
                      Some r5 \<Rightarrow> Some (Ok (Object es, r5))
                    | None \<Rightarrow> Some (separator_expected (CHR ''}'') '' in inline table''))) = Some (Ok (v, r'))"
    by (auto simp: step_Ok case_Ok Let_def)
  have "suffix r2 r"
    using parse_key_path_suffix [OF k] toml_expect_suffix [OF e] sfx by (meson suffix_chain)
  moreover have "suffix r3 r2" using 6(1) [OF k e w] skip_inline_ws_suffix by (rule suffix_order.trans)
  ultimately have r3: "suffix r3 r" by (meson suffix_order.trans)
  have r5: "suffix r5 r" if "eat c (skip_ws_nl_comments r3) = Some r5" for c r5
    using eat_after [OF skip_ws_nl_comments_suffix that] r3 by (blast intro: suffix_chain)
  show ?case
    using c r5 6(2) [OF k e w es refl]
    by (auto simp: separator_expected_def split: option.splits) (blast intro: suffix_order.trans)+
qed simp_all

lemma toml_value_total:
  "2 * length r < fuel \<Longrightarrow> toml_value fuel n F depth r \<noteq> None"
  "2 * length r + 1 < fuel \<Longrightarrow> toml_array fuel n F depth items r \<noteq> None"
  "2 * length r + 1 < fuel \<Longrightarrow> toml_inline_table fuel n F depth entries r \<noteq> None"
proof (induction fuel n F depth r and fuel n F depth items r and fuel n F depth entries r rule: toml_induct)
  case (2 fuel n F depth r)
  have *: "2 * length r1 + 1 < fuel \<and> 2 * length (skip_ws_nl_comments r1) + 1 < fuel" if "skip_inline_ws r = b # r1" for b r1
  proof -
    have "Suc (length r1) \<le> length r" using that skip_lengths(1) [of r] by simp
    moreover have "length (skip_ws_nl_comments r1) \<le> length r1" by simp
    ultimately show ?thesis using 2(3) by linarith
  qed
  show ?case
    using 2(1,2) * by (auto split: list.splits option.splits simp del: not_None_eq)
next
  case (4 fuel n F depth items r)
  have len: "length (skip_ws_nl_comments r) \<le> length r" by simp
  show ?case
  proof (cases "eat (CHR '']'') (skip_ws_nl_comments r)")
    case None
    have "toml_value fuel n F (depth + 1) (skip_ws_nl_comments r) \<noteq> None" using 4(1) [OF None] 4(3) len by simp
    then obtain res where res: "toml_value fuel n F (depth + 1) (skip_ws_nl_comments r) = Some res" by blast
    show ?thesis
    proof (cases res)
      case (Inr vr)
      obtain v r1 where vr: "vr = (v, r1)" by (cases vr)
      note w = res [unfolded Inr vr]
      have r3: "2 * length r3 + 1 < fuel" if "eat c (skip_ws_nl_comments r1) = Some r3" for c r3
        using 4(3) suffix_lengths(1) [OF toml_value_suffix(1) [OF w]] len
          suffix_lengths(2) [OF eat_after [OF skip_ws_nl_comments_suffix that]] by linarith
      show ?thesis
        using None w r3 4(2) [OF None w refl refl] by (auto simp: Let_def split: option.splits simp del: not_None_eq)
    qed (use None res in simp)
  qed simp
next
  case (6 fuel n F depth entries r)
  show ?case
  proof (cases "parse_key_path n (skip_ws_nl_comments r)")
    case (Inr kr)
    obtain kp r1 where k: "parse_key_path n (skip_ws_nl_comments r) = Ok (kp, r1)" using Inr by (cases kr) simp
    have r1: "length r1 < length r"
      using suffix_lengths(2) [OF parse_key_path_suffix [OF k]] skip_lengths(2) [of r] by linarith
    show ?thesis
    proof (cases "toml_expect n (CHR ''='') r1")
      case (Inr ur)
      obtain u r2 where e: "toml_expect n (CHR ''='') r1 = Ok (u, r2)" using Inr by (cases ur) simp
      have r2: "length (skip_inline_ws r2) < length r"
        using suffix_lengths(2) [OF toml_expect_suffix [OF e]] skip_lengths(1) [of r2] r1 by linarith
      have "toml_value fuel n F (depth + 1) (skip_inline_ws r2) \<noteq> None" using 6(1) [OF k e] 6(3) r2 by simp
      then obtain res where res: "toml_value fuel n F (depth + 1) (skip_inline_ws r2) = Some res" by blast
      show ?thesis
      proof (cases res)
        case (Inr vr)
        obtain v r3 where vr: "vr = (v, r3)" by (cases vr)
        note w = res [unfolded Inr vr]
        have r5: "2 * length r5 + 1 < fuel" if "eat c (skip_ws_nl_comments r3) = Some r5" for c r5
          using 6(3) suffix_lengths(1) [OF toml_value_suffix(1) [OF w]] r2
            suffix_lengths(2) [OF eat_after [OF skip_ws_nl_comments_suffix that]] by linarith
        show ?thesis
          using k e w r5 6(2) [OF k e w _ refl]
          by (auto simp: Let_def split: option.splits sum.splits simp del: not_None_eq)
      qed (use k e res in simp)
    qed (use k in simp)
  qed simp
qed simp_all

lemma parse_header_suffix: "parse_header n root r = Ok (x, r') \<Longrightarrow> r \<noteq> [] \<Longrightarrow> strict_suffix r' r"
proof -
  assume h: "parse_header n root r = Ok (x, r')" and ne: "r \<noteq> []"
  have "\<exists>p1 path p2. suffix p1 (tl r) \<and> parse_key_path n p1 = Ok (path, p2) \<and> suffix r' p2"
  proof (cases "eat (CHR ''['') (tl r)")
    case None
    with h obtain path p2 u p3 v where "parse_key_path n (tl r) = Ok (path, p2)"
        "toml_expect n (CHR '']'') p2 = Ok (u, p3)" "finish_line n p3 = Ok (v, r')"
      by (auto simp: parse_header_def step_Ok case_Ok)
    then show ?thesis by (meson toml_expect_suffix finish_line_suffix suffix_chain suffix_order.refl)
  next
    case (Some r1)
    with h obtain path p2 u p3 u' p4 v where "parse_key_path n r1 = Ok (path, p2)"
        "toml_expect n (CHR '']'') p2 = Ok (u, p3)" "toml_expect n (CHR '']'') p3 = Ok (u', p4)" "finish_line n p4 = Ok (v, r')"
      by (auto simp: parse_header_def step_Ok case_Ok)
    then show ?thesis using eat_suffix [OF Some] by (meson toml_expect_suffix finish_line_suffix suffix_chain)
  qed
  then have "strict_suffix r' (tl r)"
    by (meson parse_key_path_suffix suffix_order.le_less_trans suffix_order.less_le_trans)
  then show ?thesis using suffix_tl [of r] by (rule suffix_order.less_le_trans)
qed

lemma parse_pair_suffix: "parse_pair n F root current r = Some (Ok (x, r')) \<Longrightarrow> strict_suffix r' r"
proof -
  assume "parse_pair n F root current r = Some (Ok (x, r'))"
  then obtain kp r1 u r2 w r3 where k: "parse_key_path n r = Ok (kp, r1)"
    and e: "toml_expect n (CHR ''='') (skip_inline_ws r1) = Ok (u, r2)"
    and w: "toml_value (2 * length r2 + 2) n F 0 (skip_inline_ws r2) = Some (Ok (w, r3))"
    and f: "suffix r' r3"
    by (auto simp: parse_pair_def step_Ok case_Ok simp del: toml_value.simps dest: finish_line_suffix)
  have "suffix r' r1"
    using toml_expect_suffix [OF e] toml_value_suffix(1) [OF w] f skip_inline_ws_suffix by (meson suffix_chain)
  then show ?thesis using parse_key_path_suffix [OF k] by (rule suffix_order.le_less_trans)
qed

lemma parse_statement_suffix:
  "parse_statement n F root current r = Some (Ok (x, r')) \<Longrightarrow> r \<noteq> [] \<Longrightarrow> strict_suffix r' r"
  by (auto simp: parse_statement_def split: if_splits intro: parse_header_suffix parse_pair_suffix)

lemma parse_statement_total: "parse_statement n F root current r \<noteq> None"
proof -
  have "toml_value (2 * length r2 + 2) n F 0 (skip_inline_ws r2) \<noteq> None" for r2
    by (rule toml_value_total(1)) (use skip_lengths(1) [of r2] in linarith)
  then show ?thesis
    by (auto simp: parse_statement_def parse_pair_def step_thenM_def fuel_thenM_def
        simp del: toml_value.simps not_None_eq split: sum.splits option.splits)
qed

lemma parse_doc_total: "length r < fuel \<Longrightarrow> parse_doc fuel n F root current r \<noteq> None"
proof (induction fuel arbitrary: root current r)
  case (Suc fuel)
  obtain res where res: "parse_statement n F root current (skip_ws_nl_comments r) = Some res"
    using parse_statement_total by blast
  show ?case
  proof (cases "skip_ws_nl_comments r = []")
    case False
    show ?thesis
    proof (cases res)
      case (Inr y)
      obtain root' current' r' where y: "y = ((root', current'), r')" by (metis surj_pair)
      have "length r' < length r"
        using suffix_lengths(2) [OF parse_statement_suffix [OF res [unfolded Inr y] False]] skip_lengths(2) [of r]
        by linarith
      then show ?thesis using Suc res Inr y False by (simp add: Let_def)
    qed (use res False in \<open>simp add: Let_def\<close>)
  qed simp
qed simp

section \<open>Panics\<close>

text \<open>A unicode escape whose digits are cut off inside a character.\<close>

definition cut_escape :: "string \<Rightarrow> bool" where
  "cut_escape r = (case r of
     b # c # t \<Rightarrow> b = CHR 0x5C \<and>
       (c = CHR ''u'' \<and> \<not> char_boundary (drop 4 t) \<or> c = CHR ''U'' \<and> \<not> char_boundary (drop 8 t))
   | _ \<Rightarrow> False)"

definition has_cut :: "string \<Rightarrow> bool" where
  "has_cut r = list_ex cut_escape (suffixes r)"

lemma has_cut_iff: "has_cut r \<longleftrightarrow> (\<exists>t. suffix t r \<and> cut_escape t)"
  by (auto simp: has_cut_def list_ex_iff)

lemma has_cut_mono: "has_cut r' \<Longrightarrow> suffix r' r \<Longrightarrow> has_cut r"
  by (auto simp: has_cut_iff dest: suffix_order.trans)

lemma step_Panic:
  "step_then m f = Err TPanic \<longleftrightarrow> m = Err TPanic \<or> (\<exists>x r. m = Ok (x, r) \<and> f x r = Err TPanic)"
  "step_thenM m g = Some (Err TPanic) \<longleftrightarrow> m = Err TPanic \<or> (\<exists>x r. m = Ok (x, r) \<and> g x r = Some (Err TPanic))"
  "fuel_thenM q g = Some (Err TPanic) \<longleftrightarrow>
     q = Some (Err TPanic) \<or> (\<exists>x r. q = Some (Ok (x, r)) \<and> g x r = Some (Err TPanic))"
  by (auto simp: step_then_def step_thenM_def fuel_thenM_def split: sum.splits option.splits)

lemma case_Panic:
  "(case m of Err e \<Rightarrow> Err e | Ok x \<Rightarrow> f x) = Err TPanic \<longleftrightarrow> m = Err TPanic \<or> (\<exists>x. m = Ok x \<and> f x = Err TPanic)"
  "(case m of Err e \<Rightarrow> Some (Err e) | Ok x \<Rightarrow> g x) = Some (Err TPanic) \<longleftrightarrow>
     m = Err TPanic \<or> (\<exists>x. m = Ok x \<and> g x = Some (Err TPanic))"
  by (cases m; simp)+

lemma descend_Panic: "descend v seg g = Err TPanic \<Longrightarrow> \<exists>t. g t = Err TPanic"
  by (auto simp: descend_def not_a_table_def map_sum_def split: Value.splits sum.splits if_splits)

lemma map_sum_Panic: "map_sum id f m = Err TPanic \<longleftrightarrow> m = Err TPanic"
  by (cases m) simp_all

lemma tree_no_panic:
  assumes "\<And>t. use1 t \<noteq> Err TPanic"
  shows "resolve cur path use1 \<noteq> Err TPanic" "get_or_create cur path use1 \<noteq> Err TPanic"
proof -
  show "resolve cur path use1 \<noteq> Err TPanic"
    by (induction path arbitrary: cur) (auto simp: assms map_sum_Panic split: option.splits dest!: descend_Panic)
  show "get_or_create cur path use1 \<noteq> Err TPanic"
    by (induction path arbitrary: cur)
      (auto simp: assms map_sum_Panic Let_def split: option.splits prod.splits dest!: descend_Panic)
qed

lemma set_nested_no_panic: "set_nested base path v \<noteq> Err TPanic"
  by (auto simp: set_nested_def intro!: tree_no_panic(2) split: if_splits)

lemma append_no_panic: "append_array_table root path \<noteq> Err TPanic"
  by (auto simp: append_array_table_def tree_no_panic(2) split: option.splits Value.splits
      intro!: tree_no_panic(2) notI)

lemma expect_no_panic: "toml_expect n c r \<noteq> Err TPanic" "finish_line n r \<noteq> Err TPanic"
  by (auto simp: toml_expect_def finish_line_def Let_def split: option.splits list.splits if_splits)

lemma basic_string_loop_panic: "basic_string_loop o1 r = Err TPanic \<Longrightarrow> has_cut r"
proof (induction o1 r rule: basic_string_loop.induct)
  case (1 o1 r)
  note step = 1(2) [unfolded basic_string_loop.simps [of o1 r] Let_def]
  then obtain b r1 where d: "dropWhile basic_byte r = b # r1" by (auto split: list.splits)
  have b: "suffix (b # r1) r" using suffix_dropWhile [of basic_byte r] d by simp
  have nb: "b \<noteq> CHR 0x0A" "b \<noteq> CHR 0x22" using step d by auto
  moreover have "\<not> basic_byte b" using d by (metis hd_dropWhile list.distinct(1) list.sel(1))
  ultimately have bs: "b = CHR 0x5C" by (simp add: basic_byte_def)
  from step d nb consider "toml_parse_escape r1 = Err TPanic"
    | ch r2 where "toml_parse_escape r1 = Ok (ch, r2)" "basic_string_loop ((o1 @ takeWhile basic_byte r) @ utf8 ch) r2 = Err TPanic"
    by (auto simp: step_Panic)
  then show ?case
  proof cases
    case 1
    then have "cut_escape (b # r1)"
      using bs by (auto simp: toml_parse_escape_def toml_hex_def cut_escape_def split: list.splits option.splits if_splits)
    then show ?thesis using b has_cut_iff by blast
  next
    case 2
    then have "has_cut r2" using "1.IH" [OF refl d nb] by blast
    moreover have "suffix r2 r" using toml_parse_escape_suffix [OF 2(1)] b by (meson suffix_ConsD suffix_order.trans)
    ultimately show ?thesis by (rule has_cut_mono)
  qed
qed

lemma key_segment_panic: "parse_key_segment n r = Err TPanic \<Longrightarrow> has_cut r"
  by (auto simp: parse_key_segment_def toml_basic_string_def toml_literal_string_def Let_def
      split: if_splits option.splits dest!: basic_string_loop_panic intro: has_cut_mono suffix_tl)

lemma parse_key_path_panic: "parse_key_path n r = Err TPanic \<Longrightarrow> has_cut r"
proof -
  have "key_path_loop n path r = Err TPanic \<Longrightarrow> has_cut r" for path
  proof (induction n path r rule: key_path_loop.induct)
    case (1 n path r)
    note step = 1(2) [unfolded key_path_loop.simps [of n path r] step_Panic]
    consider "parse_key_segment n (skip_inline_ws r) = Err TPanic"
      | seg r1 r2 where "parse_key_segment n (skip_inline_ws r) = Ok (seg, r1)"
        "eat (CHR ''.'') (skip_inline_ws r1) = Some r2" "key_path_loop n (path @ [seg]) r2 = Err TPanic"
      using step by (auto split: option.splits)
    then show ?case
    proof cases
      case 1
      then show ?thesis by (rule has_cut_mono [OF key_segment_panic skip_inline_ws_suffix])
    next
      case 2
      have "suffix r2 r"
        using eat_after [OF skip_inline_ws_suffix 2(2)] parse_key_segment_suffix [OF 2(1)] skip_inline_ws_suffix [of r]
        by (meson suffix_chain)
      then show ?thesis using "1.IH" [OF 2(1,2,3)] has_cut_mono by blast
    qed
  qed
  then show "parse_key_path n r = Err TPanic \<Longrightarrow> has_cut r" by (simp add: parse_key_path_def)
qed

lemma parse_scalar_panic: "parse_scalar n F b r = Err TPanic \<Longrightarrow> has_cut (b # r)"
  by (auto simp: parse_scalar_def parse_atom_def step_Panic toml_basic_string_def toml_literal_string_def Let_def
      split: if_splits option.splits dest!: basic_string_loop_panic intro: has_cut_mono suffix_ConsI)

lemma toml_value_panic:
  "toml_value fuel n F depth r = Some (Err TPanic) \<Longrightarrow> has_cut r"
  "toml_array fuel n F depth items r = Some (Err TPanic) \<Longrightarrow> has_cut r"
  "toml_inline_table fuel n F depth entries r = Some (Err TPanic) \<Longrightarrow> has_cut r"
proof (induction fuel n F depth r and fuel n F depth items r and fuel n F depth entries r rule: toml_induct)
  case (2 fuel n F depth r)
  then obtain b r1 where ws: "skip_inline_ws r = b # r1" and d: "\<not> depth > max_depth"
    by (cases "skip_inline_ws r") (auto split: if_splits)
  have "has_cut (b # r1)"
  proof -
    consider "b = CHR ''[''" "toml_array fuel n F depth [] r1 = Some (Err TPanic)"
      | "b = CHR ''{''" "b \<noteq> CHR ''[''" "eat (CHR ''}'') (skip_ws_nl_comments r1) = None"
          "toml_inline_table fuel n F depth [] (skip_ws_nl_comments r1) = Some (Err TPanic)"
      | "parse_scalar n F b r1 = Err TPanic"
      using 2(3) ws d by (auto split: if_splits option.splits)
    then show ?thesis
    proof cases
      case 1
      then show ?thesis using 2(1) [OF d ws] by (auto intro: has_cut_mono suffix_ConsI)
    next
      case 2
      then have "has_cut (skip_ws_nl_comments r1)" using "2.IH"(2) [OF d ws 2(2,1,3)] by blast
      then show ?thesis using skip_ws_nl_comments_suffix [of r1] by (auto intro: has_cut_mono suffix_ConsI)
    qed (rule parse_scalar_panic)
  qed
  then show ?case using skip_inline_ws_suffix [of r] ws by (auto intro: has_cut_mono)
next
  case (4 fuel n F depth items r)
  have none: "eat (CHR '']'') (skip_ws_nl_comments r) = None" using 4(3) by (auto split: option.splits)
  consider "toml_value fuel n F (depth + 1) (skip_ws_nl_comments r) = Some (Err TPanic)"
    | w r1 r3 where "toml_value fuel n F (depth + 1) (skip_ws_nl_comments r) = Some (Ok (w, r1))"
        "eat (CHR '','') (skip_ws_nl_comments r1) = Some r3" "toml_array fuel n F depth (items @ [w]) r3 = Some (Err TPanic)"
    using 4(3) none by (auto simp: step_Panic Let_def separator_expected_def split: option.splits)
  then show ?case
  proof cases
    case 1
    then show ?thesis using 4(1) [OF none] skip_ws_nl_comments_suffix has_cut_mono by blast
  next
    case 2
    then have "has_cut r3" using 4(2) [OF none 2(1) refl refl 2(2,3)] by blast
    moreover have "suffix r3 r"
      using eat_after [OF skip_ws_nl_comments_suffix 2(2)] toml_value_suffix(1) [OF 2(1)] skip_ws_nl_comments_suffix [of r]
      by (meson suffix_chain)
    ultimately show ?thesis by (rule has_cut_mono)
  qed
next
  case (6 fuel n F depth entries r)
  note sfx = skip_ws_nl_comments_suffix [of r]
  consider (key) "parse_key_path n (skip_ws_nl_comments r) = Err TPanic"
    | (val) kp r1 u r2 where "parse_key_path n (skip_ws_nl_comments r) = Ok (kp, r1)"
        "toml_expect n (CHR ''='') r1 = Ok (u, r2)"
        "toml_value fuel n F (depth + 1) (skip_inline_ws r2) = Some (Err TPanic)"
    | (more) kp r1 u r2 w r3 es r5 where "parse_key_path n (skip_ws_nl_comments r) = Ok (kp, r1)"
        "toml_expect n (CHR ''='') r1 = Ok (u, r2)"
        "toml_value fuel n F (depth + 1) (skip_inline_ws r2) = Some (Ok (w, r3))" "set_nested entries kp w = Ok es"
        "eat (CHR '','') (skip_ws_nl_comments r3) = Some r5" "toml_inline_table fuel n F depth es r5 = Some (Err TPanic)"
    using 6(3) by (auto simp: step_Panic case_Panic Let_def separator_expected_def expect_no_panic set_nested_no_panic
        split: option.splits)
  then show ?case
  proof cases
    case key
    then show ?thesis by (rule has_cut_mono [OF parse_key_path_panic sfx])
  next
    case val
    have "suffix (skip_inline_ws r2) r"
      using parse_key_path_suffix [OF val(1)] toml_expect_suffix [OF val(2)] skip_inline_ws_suffix [of r2] sfx
      by (meson suffix_chain)
    then show ?thesis using 6(1) [OF val] has_cut_mono by blast
  next
    case more
    have "suffix (skip_inline_ws r2) r"
      using parse_key_path_suffix [OF more(1)] toml_expect_suffix [OF more(2)] skip_inline_ws_suffix [of r2] sfx
      by (meson suffix_chain)
    moreover have "suffix r5 r3" using eat_after [OF skip_ws_nl_comments_suffix more(5)] by (rule suffix_order.less_imp_le)
    ultimately have "suffix r5 r" using toml_value_suffix(1) [OF more(3)] by (meson suffix_order.trans)
    then show ?thesis using 6(2) [OF more(1,2,3,4) refl more(5,6)] has_cut_mono by blast
  qed
qed simp_all

lemma parse_header_panic: "parse_header n root r = Err TPanic \<Longrightarrow> has_cut r"
proof -
  assume h: "parse_header n root r = Err TPanic"
  have "\<exists>r1. suffix r1 (tl r) \<and> parse_key_path n r1 = Err TPanic"
    using h tree_no_panic(2) [of Ok root]
    by (cases "eat (CHR ''['') (tl r)")
      (auto simp: parse_header_def step_Panic case_Panic expect_no_panic append_no_panic
        intro: suffix_order.less_imp_le eat_suffix)
  then obtain r1 where "suffix r1 (tl r)" "has_cut r1" using parse_key_path_panic by blast
  then show ?thesis using suffix_tl [of r] by (meson has_cut_mono)
qed

lemma parse_pair_panic: "parse_pair n F root current r = Some (Err TPanic) \<Longrightarrow> has_cut r"
proof -
  assume p: "parse_pair n F root current r = Some (Err TPanic)"
  have res: "resolve root current (\<lambda>base. set_nested base kp w) \<noteq> Err TPanic" for kp w
    by (rule tree_no_panic(1)) (rule set_nested_no_panic)
  consider "parse_key_path n r = Err TPanic"
    | kp r1 u r2 where "parse_key_path n r = Ok (kp, r1)" "toml_expect n (CHR ''='') (skip_inline_ws r1) = Ok (u, r2)"
        "toml_value (2 * length r2 + 2) n F 0 (skip_inline_ws r2) = Some (Err TPanic)"
    using p by (auto simp: parse_pair_def step_Panic case_Panic expect_no_panic res simp del: toml_value.simps)
  then show ?thesis
  proof cases
    case 1
    then show ?thesis by (rule parse_key_path_panic)
  next
    case 2
    have "suffix (skip_inline_ws r2) r"
      using parse_key_path_suffix [OF 2(1)] toml_expect_suffix [OF 2(2)] skip_inline_ws_suffix by (meson suffix_chain)
    then show ?thesis using toml_value_panic(1) [OF 2(3)] by (rule has_cut_mono [rotated])
  qed
qed

lemma parse_doc_panic: "parse_doc fuel n F root current r = Some (Err TPanic) \<Longrightarrow> has_cut r"
proof (induction fuel arbitrary: root current r)
  case (Suc fuel)
  define s where "s = skip_ws_nl_comments r"
  have s: "suffix s r" unfolding s_def by blast
  consider "parse_statement n F root current s = Some (Err TPanic)"
    | root' current' r' where "s \<noteq> []" "parse_statement n F root current s = Some (Ok ((root', current'), r'))"
        "parse_doc fuel n F root' current' r' = Some (Err TPanic)"
    using Suc.prems by (auto simp: Let_def step_Panic simp flip: s_def split: if_splits)
  then have "has_cut s"
  proof cases
    case 1
    then show ?thesis
      by (auto simp: parse_statement_def split: if_splits intro: parse_header_panic parse_pair_panic)
  next
    case 2
    then show ?thesis
      using Suc.IH [OF 2(3)] parse_statement_suffix [OF 2(2,1)] by (auto intro: has_cut_mono suffix_order.less_imp_le)
  qed
  then show ?case using s by (rule has_cut_mono)
qed simp

lemma ascii_no_cut: "ascii r \<Longrightarrow> \<not> has_cut r"
proof
  assume a: "ascii r" and "has_cut r"
  then obtain t where t: "suffix t r" "cut_escape t" by (auto simp: has_cut_iff)
  have "char_boundary (drop k u)" if "suffix u r" for k u
  proof (cases "drop k u")
    case (Cons b v)
    then have "b \<in> set r" using that by (metis in_set_dropD list.set_intros(1) set_mono_suffix subsetD)
    then show ?thesis using a Cons by (auto simp: char_boundary_def ascii_def list_all_iff)
  qed (simp add: char_boundary_def)
  then show False
    using t by (auto simp: cut_escape_def split: list.splits dest: suffix_ConsD)
qed

section \<open>Properties\<close>

text \<open>A concrete number type for the witnesses: the integers, printed in decimal, with three more values.\<close>

definition int_toml :: "nat toml_ops" where
  "int_toml = float_ops.extend int_floats
     \<lparr>f_is_nan = (\<lambda>_. False), f_is_infinite = (\<lambda>_. False), f_negative = (\<lambda>_. False), f_nan = 0, f_inf = 0, f_neg_inf = 0\<rparr>"

text \<open>The radix parsers take a sign, so that signs pass where the formats have digits only.\<close>

lemma toml_signs_accepted:
  "toml_hex 4 ''+041'' = Ok (65, [])" "radix_int ''0x-5'' = Some (IntV (- 5) :: nat Value)"
  by (simp_all add: toml_hex_def char_boundary_def unsigned_from_radix_def nat_radix_def strip_plus_def to_digit_def
      to_digit16_def from_u32_def radix_int_def strip_prefix_def i64_from_radix_def)

text \<open>A slice of the input that ends inside a character.\<close>

lemma toml_hex_cuts_character: "toml_hex 4 (''000'' @ [CHR 0xC3, CHR 0xA9]) = Err TPanic"
  by (simp add: toml_hex_def char_boundary_def)

text \<open>C39: The TOML parser ends on every input with a document or an error, and it panics only if the input has a
  \<^verbatim>\<open>\u\<close> or \<^verbatim>\<open>\U\<close> escape whose four or eight bytes end inside a multi-byte character.\<close>

theorem toml_parse_total:
  "\<exists>res. toml_from_str F input = Some res \<and> (res = Err TPanic \<longrightarrow> has_cut input)"
  using parse_doc_total [of input "length input + 1" "length input" F "[]" "[]"]
    parse_doc_panic [of "length input + 1" "length input" F "[]" "[]" input]
  by (auto simp: toml_from_str_def simp del: parse_doc.simps)

theorem toml_parse_total_witness:
  "toml_from_str int_toml (''a='' @ [CHR 0x22, CHR 0x5C] @ ''u000'' @ [CHR 0xC3, CHR 0xA9, CHR 0x22]) = Some (Err TPanic) \<and>
   has_cut (''a='' @ [CHR 0x22, CHR 0x5C] @ ''u000'' @ [CHR 0xC3, CHR 0xA9, CHR 0x22])"
proof -
  have "toml_from_str int_toml (''a='' @ [CHR 0x22, CHR 0x5C] @ ''u000'' @ [CHR 0xC3, CHR 0xA9, CHR 0x22]) = Some (Err TPanic)"
    by code_simp
  then show ?thesis
    using toml_parse_total [of int_toml "''a='' @ [CHR 0x22, CHR 0x5C] @ ''u000'' @ [CHR 0xC3, CHR 0xA9, CHR 0x22]"] by simp
qed

end
