(* ===== verification/Codec_Toml_Inline.thy ===== *)
theory Codec_Toml_Inline
  imports Codec_Toml_Total
begin

text \<open>
  TOML strings, keys, atoms and inline values: parsing what the encoder printed. \<open>inline_text\<close> is the
  reference text of an inline value and \<open>tnormal\<close> the value that comes back.
\<close>

section \<open>Strings and keys\<close>

definition tquote :: "string \<Rightarrow> string" where
  "tquote s = [CHR 0x22] @ concat (map toml_escape s) @ [CHR 0x22]"

lemma write_basic_string_eq: "write_basic_string o1 s = o1 @ tquote s"
proof -
  have "write_basic_string_loop o1 clean s = o1 @ clean @ concat (map toml_escape s)" for o1 clean
    by (induction o1 clean s rule: write_basic_string_loop.induct) auto
  then show ?thesis by (simp add: write_basic_string_def tquote_def)
qed

text \<open>No byte of a valid string continues a character after a control byte.\<close>

definition continues :: "char \<Rightarrow> bool" where
  "continues b \<longleftrightarrow> 128 \<le> (of_char b :: nat) \<and> (of_char b :: nat) < 192"

fun clean_text :: "string \<Rightarrow> bool" where
  "clean_text (a # b # s) = ((of_char a < (128 :: nat) \<longrightarrow> \<not> continues b) \<and> clean_text (b # s))"
| "clean_text _ = True"

lemma clean_high: "list_all (\<lambda>b. 128 \<le> unat b) (to_bytes h) \<Longrightarrow> clean_text s \<Longrightarrow> clean_text (h @ s)"
proof (induction h)
  case (Cons a h)
  then show ?case by (cases "h @ s") auto
qed simp

lemma valid_head: "utf8_valid (to_bytes (b # s)) \<Longrightarrow> \<not> continues b"
  by (auto simp: continues_def follow_def Let_def split: option.splits)

lemma clean_Cons: "utf8_valid (to_bytes s) \<Longrightarrow> clean_text s \<Longrightarrow> clean_text (a # s)"
  by (cases s) (auto dest: valid_head simp del: utf8_valid.simps to_bytes_simps)

lemma valid_clean: "utf8_valid (to_bytes s) \<Longrightarrow> clean_text s"
proof (induction s rule: length_induct)
  case (1 s)
  show ?case
  proof (cases s)
    case (Cons c t)
    from 1(2) Cons obtain rs where rs: "follow (of_char c) = Some rs" "matching rs (to_bytes t) = length rs"
        "utf8_valid (drop (length rs) (to_bytes t))"
      by (cases "follow (of_char c)") auto
    have d: "drop (length rs) (to_bytes t) = to_bytes (drop (length rs) t)" by (simp add: to_bytes_def drop_map)
    then have ih: "clean_text (drop (length rs) t)" using 1(1) rs(3) Cons by simp
    show ?thesis
    proof (cases "of_char c < (128 :: nat)")
      case True
      then have "rs = []" using follow_low [OF rs(1)] by simp
      then show ?thesis using ih rs(3) d Cons clean_Cons by simp
    next
      case False
      have hi: "list_all (\<lambda>b. 128 \<le> unat b) (to_bytes (c # take (length rs) t))"
        using matching_high [OF rs(2) follow_ranges [OF rs(1)]] False by (simp add: to_bytes_def take_map)
      have "s = (c # take (length rs) t) @ drop (length rs) t" using Cons by simp
      then show ?thesis using clean_high [OF hi ih] by (simp only:)
    qed
  qed simp
qed

lemma basic_string_plain: "basic_byte b \<Longrightarrow> basic_string_loop o1 (b # r) = basic_string_loop (o1 @ [b]) r"
  by (subst (1 2) basic_string_loop.simps) (simp add: Let_def)

lemma basic_string_escape:
  "basic_string_loop o1 (CHR 0x5C # r) = step_then (toml_parse_escape r) (\<lambda>ch r2. basic_string_loop (o1 @ utf8 ch) r2)"
  by (subst basic_string_loop.simps) (simp add: Let_def basic_byte_def)

lemma basic_string_end: "basic_string_loop o1 (CHR 0x22 # r) = Ok (o1, r)"
  by (subst basic_string_loop.simps) (simp add: Let_def basic_byte_def)

lemma to_digit_hex_upper: "d < 16 \<Longrightarrow> to_digit 16 (hex_upper d) = Some d"
  by (auto simp: to_digit_def to_digit16_def hex_upper_def of_char_of)

lemma hex_upper_not_plus: "d < 16 \<Longrightarrow> hex_upper d \<noteq> CHR ''+''"
  using to_digit_hex_upper [of d] by (auto simp: to_digit_def to_digit16_def)

lemma hex4_upper_value:
  assumes "n < 256"
  shows "unsigned_from_radix 32 16 (hex4_upper n) = Some n"
proof -
  have "n div 16 < 16" using assms by (simp add: div_less_iff_less_mult)
  moreover have z: "n div 4096 = 0" "n div 256 = 0" using assms by simp_all
  ultimately have "n div 16 mod 16 * 16 + n mod 16 = n" using div_mult_mod_eq [of n 16] by simp
  then show ?thesis
    using assms by (simp add: unsigned_from_radix_def nat_radix_def hex4_upper_def strip_plus_def z
        hex_upper_not_plus to_digit_hex_upper)
qed

lemma parse_control_escape:
  assumes "n < 32" and "char_boundary r"
  shows "toml_parse_escape (CHR ''u'' # hex4_upper n @ r) = Ok (n, r)"
proof -
  have l: "length (hex4_upper n) = 4" by (simp add: hex4_upper_def)
  show ?thesis
    using assms l hex4_upper_value [of n]
    by (simp add: toml_parse_escape_def toml_simple_escape_def toml_hex_def from_u32_def)
qed

text \<open>The bytes that are escaped by a letter.\<close>

lemma basic_string_simple:
  assumes "toml_simple_escape c = Some (of_char d)" and "of_char d < (128 :: nat)"
  shows "basic_string_loop o1 (CHR 0x5C # c # r) = basic_string_loop (o1 @ [d]) r"
  using assms by (simp add: basic_string_escape toml_parse_escape_def utf8_def)

lemma basic_string_letters:
  "basic_string_loop o1 (CHR 0x5C # CHR 0x22 # r) = basic_string_loop (o1 @ [CHR 0x22]) r"
  "basic_string_loop o1 (CHR 0x5C # CHR 0x5C # r) = basic_string_loop (o1 @ [CHR 0x5C]) r"
  "basic_string_loop o1 (CHR 0x5C # CHR ''n'' # r) = basic_string_loop (o1 @ [CHR 0x0A]) r"
  "basic_string_loop o1 (CHR 0x5C # CHR ''r'' # r) = basic_string_loop (o1 @ [CHR 0x0D]) r"
  "basic_string_loop o1 (CHR 0x5C # CHR ''t'' # r) = basic_string_loop (o1 @ [CHR 0x09]) r"
  "basic_string_loop o1 (CHR 0x5C # CHR ''b'' # r) = basic_string_loop (o1 @ [CHR 0x08]) r"
  "basic_string_loop o1 (CHR 0x5C # CHR ''f'' # r) = basic_string_loop (o1 @ [CHR 0x0C]) r"
  by (rule basic_string_simple; simp add: toml_simple_escape_def)+

lemma toml_escape_cases:
  obtains (letter) "c \<in> {CHR 0x22, CHR 0x5C, CHR 0x0A, CHR 0x0D, CHR 0x09, CHR 0x08, CHR 0x0C}"
  | (control) "of_char c < (32 :: nat)" "toml_escape c = [CHR 0x5C, CHR ''u''] @ hex4_upper (of_char c)"
  | (plain) "toml_escape c = [c]" "basic_byte c" "\<not> of_char c < (32 :: nat)"
proof (cases "c \<in> {CHR 0x22, CHR 0x5C, CHR 0x0A, CHR 0x0D, CHR 0x09, CHR 0x08, CHR 0x0C}")
  case False
  then have c: "c \<noteq> CHR 0x22" "c \<noteq> CHR 0x5C" "c \<noteq> CHR 0x0A" "c \<noteq> CHR 0x0D" "c \<noteq> CHR 0x09" "c \<noteq> CHR 0x08" "c \<noteq> CHR 0x0C"
    by blast+
  show ?thesis
  proof (cases "of_char c < (32 :: nat)")
    case True
    then show ?thesis using control c unfolding toml_escape_def by presburger
  next
    case False
    then show ?thesis using plain c unfolding toml_escape_def basic_byte_def by presburger
  qed
qed

lemma basic_string_escaped:
  assumes "of_char c < (32 :: nat) \<longrightarrow> char_boundary r"
  shows "basic_string_loop o1 (toml_escape c @ r) = basic_string_loop (o1 @ [c]) r"
proof (cases c rule: toml_escape_cases)
  case letter
  then show ?thesis by (elim insertE emptyE) (simp_all add: toml_escape_def basic_string_letters)
next
  case control
  moreover have "utf8 (of_char c) = [c]" using control(1) by (simp add: utf8_def)
  ultimately show ?thesis using assms by (simp add: basic_string_escape parse_control_escape)
next
  case plain
  then show ?thesis by (simp add: basic_string_plain)
qed

lemma escape_boundary: "\<not> continues c \<Longrightarrow> char_boundary (toml_escape c @ r)"
  by (cases c rule: toml_escape_cases) (auto simp: toml_escape_def char_boundary_def continues_def)

lemma basic_string_text:
  "clean_text s \<Longrightarrow> basic_string_loop o1 (concat (map toml_escape s) @ CHR 0x22 # r) = Ok (o1 @ s, r)"
proof (induction s arbitrary: o1)
  case (Cons c s)
  have "of_char c < (32 :: nat) \<longrightarrow> char_boundary (concat (map toml_escape s) @ CHR 0x22 # r)"
  proof (cases s)
    case (Cons d t)
    then show ?thesis using Cons.prems escape_boundary by simp
  qed (simp add: char_boundary_def)
  moreover have "clean_text s" using Cons.prems by (cases s) simp_all
  ultimately show ?case using Cons.IH by (simp add: basic_string_escaped)
qed (simp add: basic_string_end)

lemma basic_string_printed: "text_valid s \<Longrightarrow> toml_basic_string (tquote s @ r) = Ok (s, r)"
  using basic_string_text [OF valid_clean, of s "[]" r] by (simp add: toml_basic_string_def tquote_def)

lemma bare_solid:
  "bare_byte b \<Longrightarrow> b \<noteq> CHR 0x22 \<and> b \<noteq> CHR 0x27 \<and> \<not> inline_ws b \<and> b \<noteq> CHR 0x0A \<and> b \<noteq> CHR ''#'' \<and> b \<noteq> CHR ''['' \<and>
     b \<noteq> CHR ''}'' \<and> b \<noteq> CHR ''.''"
  by (auto simp: bare_byte_def is_ascii_alphanumeric_def inline_ws_def)

lemma parse_key_printed:
  assumes "text_valid k" and "r = [] \<or> \<not> bare_byte (hd r)"
  shows "parse_key_segment n (key_repr k @ r) = Ok (k, r)"
proof (cases "k \<noteq> [] \<and> list_all bare_byte k")
  case True
  have "takeWhile bare_byte (k @ r) = k" "dropWhile bare_byte (k @ r) = r"
    using True assms(2) by (cases r; auto simp: list_all_iff)+
  moreover have "eat (CHR 0x22) (k @ r) = None" "eat (CHR 0x27) (k @ r) = None"
    using True bare_solid by (cases k; auto)+
  ultimately show ?thesis using True by (simp add: parse_key_segment_def key_repr_def)
next
  case False
  then have "key_repr k = tquote k" by (auto simp: key_repr_def write_basic_string_eq)
  then show ?thesis
    using basic_string_printed [OF assms(1), of r] by (simp add: parse_key_segment_def) (simp add: tquote_def)
qed

lemma key_repr_head: obtains b t where "key_repr k = b # t" "\<not> inline_ws b" "b \<noteq> CHR 0x0A" "b \<noteq> CHR ''#''"
    "b \<noteq> CHR ''[''" "b \<noteq> CHR ''}''"
proof (cases "k \<noteq> [] \<and> list_all bare_byte k")
  case True
  then obtain b t where "k = b # t" "bare_byte b" by (cases k) auto
  then show ?thesis using that [of b t] bare_solid [of b] True by (auto simp: key_repr_def)
next
  case False
  then have "key_repr k = tquote k" by (auto simp: key_repr_def write_basic_string_eq)
  then show ?thesis using that [of "CHR 0x22"] by (auto simp: tquote_def inline_ws_def)
qed

text \<open>A dotted path as it stands in a header.\<close>

fun path_text :: "string list \<Rightarrow> string" where
  "path_text [] = []"
| "path_text [k] = key_repr k"
| "path_text (k # ks) = key_repr k @ ''.'' @ path_text ks"

lemma skip_inline_solid: "\<not> inline_ws b \<Longrightarrow> skip_inline_ws (b # r) = b # r"
  by (simp add: skip_inline_ws_def)

lemma skip_key [simp]: "skip_inline_ws (key_repr k @ r) = key_repr k @ r"
  by (rule key_repr_head [of k]) (simp add: skip_inline_solid)

lemma key_path_printed:
  assumes "p \<noteq> []" and "list_all text_valid p" and "r = [] \<or> \<not> bare_byte (hd r)"
    and "eat (CHR ''.'') (skip_inline_ws r) = None"
  shows "key_path_loop n acc (path_text p @ r) = Ok (acc @ p, skip_inline_ws r)"
  using assms(1,2)
proof (induction p arbitrary: acc rule: path_text.induct)
  case (2 k)
  then show ?case
    using parse_key_printed [of k r n] assms(3,4) by (subst key_path_loop.simps) simp
next
  case (3 k k' ks)
  have dot: "skip_inline_ws (CHR ''.'' # t) = CHR ''.'' # t" for t by (rule skip_inline_solid) (simp add: inline_ws_def)
  have "\<not> bare_byte (CHR ''.'')" by (simp add: bare_byte_def is_ascii_alphanumeric_def)
  then have "parse_key_segment n (key_repr k @ CHR ''.'' # path_text (k' # ks) @ r) = Ok (k, CHR ''.'' # path_text (k' # ks) @ r)"
    using 3 by (intro parse_key_printed) auto
  then show ?case using 3 by (subst key_path_loop.simps) (simp add: dot)
qed simp

section \<open>Numbers and other atoms\<close>

definition solid_byte :: "char \<Rightarrow> bool" where
  "solid_byte c \<longleftrightarrow> 33 \<le> (of_char c :: nat) \<and> (of_char c :: nat) < 127"

lemma solid_trimmed: "list_all solid_byte t \<Longrightarrow> trim t = t"
proof (rule trim_id)
  assume t: "list_all solid_byte t"
  have ws: "list_all (\<lambda>w. list_ex (\<lambda>c. \<not> solid_byte c) w) white_space" by code_simp
  have "\<not> prefix w t \<and> \<not> suffix w t" if w: "w \<in> set white_space" for w
  proof -
    obtain c where "c \<in> set w" "\<not> solid_byte c" using bspec [OF ws [unfolded list_all_iff] w] unfolding list_ex_iff by blast
    moreover have "c \<in> set t" if "prefix w t \<or> suffix w t"
      using that \<open>c \<in> set w\<close> by (auto simp: prefix_def suffix_def)
    ultimately show ?thesis using t by (auto simp: list_all_iff)
  qed
  then show "trimmed t" by (simp add: trimmed_def list_all_iff)
qed

definition tstop :: "string \<Rightarrow> bool" where
  "tstop r \<longleftrightarrow> r = [] \<or> \<not> atom_byte (hd r)"

lemma tstop_simps [simp]: "tstop []" "tstop (c # r) \<longleftrightarrow> \<not> atom_byte c"
  by (simp_all add: tstop_def)

definition plain_atom :: "char \<Rightarrow> bool" where
  "plain_atom c \<longleftrightarrow> is_ascii_alphanumeric c \<or> c = CHR ''-'' \<or> c = CHR ''.''"

lemma plain_atom_solid: "plain_atom c \<Longrightarrow> solid_byte c \<and> atom_byte c \<and> c \<noteq> CHR 0x22 \<and> c \<noteq> CHR 0x27 \<and> c \<noteq> CHR ''['' \<and> c \<noteq> CHR ''{'' \<and> \<not> inline_ws c \<and> c \<noteq> CHR ''_''"
  by (auto simp: plain_atom_def is_ascii_alphanumeric_def solid_byte_def atom_byte_def inline_ws_def Let_def)

lemma parse_atom_printed:
  assumes "list_all plain_atom t" and "t \<noteq> []" and "tstop r"
  shows "parse_atom n F (t @ r) = Ok (atom F t, r)"
proof -
  have "takeWhile atom_byte (t @ r) = t" "dropWhile atom_byte (t @ r) = r"
    using assms plain_atom_solid by (cases r; auto simp: list_all_iff)+
  moreover have "trim t = t" using assms(1) plain_atom_solid by (intro solid_trimmed) (auto simp: list_all_iff)
  ultimately show ?thesis using assms(2) by (simp add: parse_atom_def)
qed

lemma toml_value_atom:
  assumes "list_all plain_atom t" and "t \<noteq> []" and "tstop r" and "d \<le> max_depth" and "fuel > 0"
  shows "toml_value fuel n F d (t @ r) = Some (Ok (atom F t, r))"
proof -
  obtain f where f: "fuel = Suc f" using assms(5) by (cases fuel) auto
  obtain b u where t: "t = b # u" using assms(2) by (cases t) auto
  then have b: "b \<noteq> CHR 0x22" "b \<noteq> CHR 0x27" "b \<noteq> CHR ''[''" "b \<noteq> CHR ''{''" "\<not> inline_ws b"
    using assms(1) plain_atom_solid by auto
  then show ?thesis
    using parse_atom_printed [OF assms(1-3), of n F] assms(4) f t
    by (simp add: skip_inline_solid parse_scalar_def)
qed

text \<open>Tokens of digits, sign and point.\<close>

definition number_byte :: "char \<Rightarrow> bool" where
  "number_byte c \<longleftrightarrow> is_digit c \<or> c = CHR ''-'' \<or> c = CHR ''.''"

lemma number_plain: "number_byte c \<Longrightarrow> plain_atom c"
  by (auto simp: number_byte_def plain_atom_def is_digit_def is_ascii_alphanumeric_def Let_def)

lemma no_letter:
  assumes "list_all number_byte t" and "\<not> number_byte c"
  shows "c \<notin> set t"
  using assms by (auto simp: list_all_iff)

lemma atom_number:
  assumes "list_all number_byte t"
  shows "atom F t = number_atom F t" and "filter (\<lambda>c. c \<noteq> CHR ''_'') t = t"
proof -
  have no: "CHR ''u'' \<notin> set t" "CHR ''a'' \<notin> set t" "CHR ''n'' \<notin> set t" "CHR ''x'' \<notin> set t" "CHR ''o'' \<notin> set t"
    "CHR ''b'' \<notin> set t" "CHR ''_'' \<notin> set t" "CHR ''e'' \<notin> set t" "CHR ''E'' \<notin> set t"
    by (rule no_letter [OF assms], simp add: number_byte_def is_digit_def)+
  then have "strip_prefix ''0x'' t = None" "strip_prefix ''0o'' t = None" "strip_prefix ''0b'' t = None"
    by (auto simp: strip_prefix_def prefix_def)
  then have "radix_int t = (None :: 'a Value option)" by (simp add: radix_int_def)
  moreover have "t \<notin> {''true'', ''false'', ''inf'', ''+inf'', ''-inf'', ''nan'', ''+nan'', ''-nan''}"
    using no by auto
  ultimately show "atom F t = number_atom F t" by (simp add: atom_def)
  show "filter (\<lambda>c. c \<noteq> CHR ''_'') t = t" using no(7) by (auto simp: filter_id_conv)
qed

lemma digits_number: "all_digits t \<Longrightarrow> list_all number_byte t"
  by (auto simp: all_digits_def list_all_iff number_byte_def)

lemma not_floaty: "list_all number_byte t \<Longrightarrow> floaty t \<longleftrightarrow> CHR ''.'' \<in> set t"
proof -
  assume t: "list_all number_byte t"
  have "CHR ''e'' \<notin> set t" "CHR ''E'' \<notin> set t"
    by (rule no_letter [OF t], simp add: number_byte_def is_digit_def)+
  then show ?thesis by (auto simp: floaty_def list_ex_iff)
qed

lemma int_text_number: "list_all number_byte (int_text i)" "CHR ''.'' \<notin> set (int_text i)" "int_text i \<noteq> []"
proof -
  have d: "list_all is_digit (decimal k)" for k using digits_of_decimal [of k] by (simp add: all_digits_def)
  then show "list_all number_byte (int_text i)"
    using digits_number [OF digits_of_decimal] by (auto simp: int_text_def number_byte_def)
  show "CHR ''.'' \<notin> set (int_text i)"
    using d [of "unat (unsigned_abs i)"] by (auto simp: int_text_def list_all_iff is_digit_def split: if_splits)
  show "int_text i \<noteq> []" by (simp add: int_text_def)
qed

lemma atom_int: "atom F (int_text i) = IntV i"
  using integer_text_round_trip [of undefined i] int_text_number [of i] not_floaty [OF int_text_number(1) [of i]]
  by (simp add: atom_number number_atom_def write_i64_eq)

lemma decimal_number: "list_all number_byte (decimal k)" "CHR ''.'' \<notin> set (decimal k)"
proof -
  show "list_all number_byte (decimal k)" by (rule digits_number) (rule digits_of_decimal)
  show "CHR ''.'' \<notin> set (decimal k)"
    using digits_of_decimal [of k] by (auto simp: all_digits_def list_all_iff is_digit_def)
qed

lemma atom_nat: "atom F (decimal (unat (u :: u64))) = (if unat u < 2 ^ 63 then IntV u else UInt u)"
proof -
  have "unat u < 2 ^ 64" using unsigned_less [of u, where ?'a = nat] by simp
  then show ?thesis
    using decimal_number [of "unat u"] not_floaty [OF decimal_number(1) [of "unat u"]]
    by (simp add: atom_number number_atom_def parse_i64_decimal parse_u64_decimal)
qed

text \<open>What the codec relies on from \<^verbatim>\<open>f64\<close>: a finite number is printed and read as for JSON; a number that is
  neither finite nor a NaN is one of the infinities.\<close>

definition toml_floats :: "'f toml_ops \<Rightarrow> bool" where
  "toml_floats F \<longleftrightarrow> float_ok (float_ops.truncate F) \<and>
     (\<forall>f. f_finite F f \<longleftrightarrow> \<not> f_is_nan F f \<and> \<not> f_is_infinite F f) \<and>
     (\<forall>f. f_is_infinite F f \<longrightarrow> f = (if f_negative F f then f_neg_inf F else f_inf F))"

definition tfloat_text :: "'f toml_ops \<Rightarrow> 'f \<Rightarrow> string" where
  "tfloat_text F f = write_float F [] f"

lemma write_float_eq: "write_float F o1 f = o1 @ tfloat_text F f"
  by (simp add: write_float_def tfloat_text_def Let_def)

lemma tfloat_text_finite:
  assumes "toml_floats F" and "f_finite F f"
  obtains sg ip ds where "sg = [] \<or> sg = ''-''" "all_digits ip" "all_digits ds"
    "tfloat_text F f = sg @ ip @ CHR ''.'' # ds" "f_parse F (sg @ ip @ CHR ''.'' # ds) = Some f"
proof -
  have ok: "float_ok (float_ops.truncate F)" and fin: "f_finite (float_ops.truncate F) f"
    and not: "\<not> f_is_nan F f" "\<not> f_is_infinite F f"
    using assms by (auto simp: toml_floats_def float_ops.defs)
  from ok fin obtain sg0 ip0 fp0 where form: "float_form (float_ops.truncate F) f sg0 ip0 fp0"
    unfolding float_ok_def by blast
  have "list_ex (\<lambda>b. b \<in> set ''.eEni'') (f_display F f) = list_ex (\<lambda>b. b \<in> set ''.eE'') (f_display F f)"
  proof -
    have "f_display F f = sg0 @ ip0 @ fp0" using form by (simp add: float_form_def float_ops.defs)
    moreover have "list_all number_byte (sg0 @ ip0 @ fp0)"
      using form digits_number [of ip0] digits_number [of "tl fp0"]
      by (cases fp0) (auto simp: float_form_def number_byte_def)
    ultimately have "list_all number_byte (f_display F f)" by simp
    then have "CHR ''n'' \<notin> set (f_display F f)" "CHR ''i'' \<notin> set (f_display F f)"
      by (rule no_letter, simp add: number_byte_def is_digit_def)+
    then show ?thesis by (auto simp: list_ex_iff)
  qed
  then have "tfloat_text F f = float_text (float_ops.truncate F) f"
    using not fin by (simp add: tfloat_text_def write_float_def float_text_def write_json_f64_def Let_def float_ops.defs)
  then show ?thesis
    using float_text_shape [OF ok fin] that by (metis float_ops.select_convs(3) float_ops.truncate_def)
qed

definition tnormal_float :: "'f toml_ops \<Rightarrow> 'f \<Rightarrow> 'f" where
  "tnormal_float F f = (if f_is_nan F f then f_nan F else f)"

lemma float_atom:
  assumes "toml_floats F"
  shows "list_all plain_atom (tfloat_text F f)" "tfloat_text F f \<noteq> []"
    "atom F (tfloat_text F f) = Float (tnormal_float F f)"
proof -
  consider (nan) "f_is_nan F f" | (inf) "\<not> f_is_nan F f" "f_is_infinite F f" | (fin) "\<not> f_is_nan F f" "f_finite F f"
    using assms by (auto simp: toml_floats_def)
  then have "list_all plain_atom (tfloat_text F f) \<and> tfloat_text F f \<noteq> [] \<and>
      atom F (tfloat_text F f) = Float (tnormal_float F f)"
  proof cases
    case nan
    then show ?thesis
      by (simp add: tfloat_text_def write_float_def atom_def tnormal_float_def plain_atom_def is_ascii_alphanumeric_def)
  next
    case inf
    then have "f = (if f_negative F f then f_neg_inf F else f_inf F)" using assms by (auto simp: toml_floats_def)
    then show ?thesis
      using inf by (simp add: tfloat_text_def write_float_def atom_def tnormal_float_def plain_atom_def
          is_ascii_alphanumeric_def split: if_splits)
  next
    case fin
    obtain sg ip ds where f: "sg = [] \<or> sg = ''-''" "all_digits ip" "all_digits ds"
      "tfloat_text F f = sg @ ip @ CHR ''.'' # ds" "f_parse F (sg @ ip @ CHR ''.'' # ds) = Some f"
      by (rule tfloat_text_finite [OF assms fin(2)])
    have num: "list_all number_byte (sg @ ip @ CHR ''.'' # ds)"
      using f digits_number [of ip] digits_number [of ds] by (auto simp: number_byte_def)
    have "floaty (sg @ ip @ CHR ''.'' # ds)" by (simp add: floaty_def)
    then have "atom F (sg @ ip @ CHR ''.'' # ds) = Float f"
      using f(5) by (simp only: atom_number [OF num] number_atom_def Let_def) simp
    then show ?thesis
      using num f(4) fin(1) number_plain by (auto simp: tnormal_float_def list_all_iff)
  qed
  then show "list_all plain_atom (tfloat_text F f)" "tfloat_text F f \<noteq> []"
    "atom F (tfloat_text F f) = Float (tnormal_float F f)" by blast+
qed

section \<open>Inline values\<close>

definition all_null :: "'f table \<Rightarrow> bool" where
  "all_null kvs \<longleftrightarrow> list_all (\<lambda>(_, v). is_null v) kvs"

lemma all_null_simps [simp]: "all_null []" "all_null ((k, v) # kvs) \<longleftrightarrow> is_null v \<and> all_null kvs"
  by (simp_all add: all_null_def)

fun tbytes_text :: "bytes \<Rightarrow> string" where
  "tbytes_text [] = []"
| "tbytes_text (b # bs) = decimal (unat b) @ (if bs = [] then [] else '', '' @ tbytes_text bs)"

fun inline_text :: "'f toml_ops \<Rightarrow> 'f Value \<Rightarrow> string"
  and items_text :: "'f toml_ops \<Rightarrow> 'f Value list \<Rightarrow> string"
  and entries_text :: "'f toml_ops \<Rightarrow> 'f table \<Rightarrow> string" where
  "inline_text F Null = tquote []"
| "inline_text F (Bool b) = (if b then ''true'' else ''false'')"
| "inline_text F (IntV i) = int_text i"
| "inline_text F (UInt u) = decimal (unat u)"
| "inline_text F (Float f) = tfloat_text F f"
| "inline_text F (Str s) = tquote s"
| "inline_text F (Bytes bs) = ''['' @ tbytes_text bs @ '']''"
| "inline_text F (Array vs) = ''['' @ items_text F vs @ '']''"
| "inline_text F (Object kvs) = (if all_null kvs then ''{}'' else ''{ '' @ entries_text F kvs @ '' }'')"
| "items_text F [] = []"
| "items_text F (v # vs) = inline_text F v @ (if vs = [] then [] else '', '' @ items_text F vs)"
| "entries_text F [] = []"
| "entries_text F ((k, v) # kvs) =
     (if is_null v then entries_text F kvs
      else key_repr k @ '' = '' @ inline_text F v @ (if all_null kvs then [] else '', '' @ entries_text F kvs))"

lemma write_inline_bytes_eq:
  "write_inline_bytes o1 i bs = o1 @ (if bs \<noteq> [] \<and> i > 0 then '', '' else []) @ tbytes_text bs"
  by (induction o1 i bs rule: write_inline_bytes.induct) (auto simp: write_u64_eq unat_ucast_byte)

lemma all_null_entries: "all_null kvs \<Longrightarrow> entries_text F kvs = []"
  by (induction kvs) auto

lemma write_inline_eq:
  "write_inline F o1 v = o1 @ inline_text F v"
  "inline_elems F o1 i vs = o1 @ (if vs \<noteq> [] \<and> i > 0 then '', '' else []) @ items_text F vs"
  "inline_entries F o1 fst1 kvs = o1 @ (if \<not> all_null kvs \<and> \<not> fst1 then '', '' else []) @ entries_text F kvs"
  by (induction F o1 v and F o1 i vs and F o1 fst1 kvs rule: write_inline_inline_elems_inline_entries.induct)
    (auto simp: write_i64_eq write_u64_eq write_float_eq write_basic_string_eq write_inline_bytes_eq write_key_def
      all_null_entries tquote_def all_null_def [symmetric])

text \<open>Values as they come back.\<close>

fun tnormal :: "'f toml_ops \<Rightarrow> 'f Value \<Rightarrow> 'f Value"
  and tnormal_list :: "'f toml_ops \<Rightarrow> 'f Value list \<Rightarrow> 'f Value list"
  and tnormal_entries :: "'f toml_ops \<Rightarrow> 'f table \<Rightarrow> 'f table" where
  "tnormal F Null = Str []"
| "tnormal F (Bool b) = Bool b"
| "tnormal F (IntV i) = IntV i"
| "tnormal F (UInt u) = (if unat u < 2 ^ 63 then IntV u else UInt u)"
| "tnormal F (Float f) = Float (tnormal_float F f)"
| "tnormal F (Str s) = Str s"
| "tnormal F (Bytes bs) = Array (map (\<lambda>b. IntV (ucast b)) bs)"
| "tnormal F (Array vs) = Array (tnormal_list F vs)"
| "tnormal F (Object kvs) = Object (tnormal_entries F kvs)"
| "tnormal_list F [] = []"
| "tnormal_list F (v # vs) = tnormal F v # tnormal_list F vs"
| "tnormal_entries F [] = []"
| "tnormal_entries F ((k, v) # kvs) =
     (if is_null v then tnormal_entries F kvs else (k, tnormal F v) # tnormal_entries F kvs)"

fun keys_distinct :: "'f Value \<Rightarrow> bool"
  and keys_distinct_list :: "'f Value list \<Rightarrow> bool"
  and keys_distinct_entries :: "'f table \<Rightarrow> bool" where
  "keys_distinct (Array vs) = keys_distinct_list vs"
| "keys_distinct (Object kvs) = keys_distinct_entries kvs"
| "keys_distinct _ = True"
| "keys_distinct_list [] = True"
| "keys_distinct_list (v # vs) = (keys_distinct v \<and> keys_distinct_list vs)"
| "keys_distinct_entries [] = True"
| "keys_distinct_entries ((k, v) # kvs) = (k \<notin> fst ` set kvs \<and> keys_distinct v \<and> keys_distinct_entries kvs)"

section \<open>Parsing inline values\<close>

lemma skip_nl_simps [simp]:
  "skip_ws_nl_comments (CHR '' '' # r) = skip_ws_nl_comments r"
  "skip_ws_nl_comments (CHR 0x0A # r) = skip_ws_nl_comments r"
  "skip_ws_nl_comments (CHR '','' # r) = CHR '','' # r"
  "skip_ws_nl_comments (CHR '']'' # r) = CHR '']'' # r"
  "skip_ws_nl_comments (CHR ''}'' # r) = CHR ''}'' # r"
  "skip_ws_nl_comments (CHR ''['' # r) = CHR ''['' # r"
  by (simp_all add: inline_ws_def)

lemma skip_nl_solid: "\<not> inline_ws b \<Longrightarrow> b \<noteq> CHR 0x0A \<Longrightarrow> b \<noteq> CHR ''#'' \<Longrightarrow> skip_ws_nl_comments (b # r) = b # r"
  by simp

declare skip_ws_nl_comments.simps(2) [simp del]

lemma skip_inline_simps [simp]:
  "skip_inline_ws (CHR '' '' # r) = skip_inline_ws r" "skip_inline_ws (CHR ''='' # r) = CHR ''='' # r"
  "skip_inline_ws (CHR '']'' # r) = CHR '']'' # r" "skip_inline_ws (CHR 0x0A # r) = CHR 0x0A # r"
  by (simp_all add: skip_inline_ws_def inline_ws_def)

definition value_head :: "char \<Rightarrow> bool" where
  "value_head b \<longleftrightarrow> \<not> inline_ws b \<and> b \<noteq> CHR 0x0A \<and> b \<noteq> CHR ''#'' \<and> b \<noteq> CHR '']''"

lemma plain_head: "plain_atom b \<Longrightarrow> value_head b"
  by (auto simp: plain_atom_def value_head_def inline_ws_def is_ascii_alphanumeric_def)

lemma list_head: "list_all P t \<Longrightarrow> t \<noteq> [] \<Longrightarrow> \<exists>b u. t = b # u \<and> P b"
  by (cases t) auto

lemma inline_text_head:
  assumes "toml_floats F"
  shows "\<exists>b t. inline_text F v = b # t \<and> value_head b"
proof -
  have atoms: "\<exists>b u. t = b # u \<and> value_head b" if "list_all plain_atom t" "t \<noteq> []" for t
    using list_head [OF that] plain_head by blast
  have num: "list_all plain_atom t" if "list_all number_byte t" for t
    using that number_plain by (auto simp: list_all_iff)
  have q: "value_head (CHR 0x22)" "value_head (CHR ''['')" "value_head (CHR ''{'')" "value_head (CHR ''t'')" "value_head (CHR ''f'')"
    by (simp_all add: value_head_def inline_ws_def)
  show ?thesis
    using atoms [OF float_atom(1,2) [OF assms]] atoms [OF num [OF int_text_number(1)] int_text_number(3)]
      atoms [OF num [OF decimal_number(1)] decimal_ne_Nil]
    by (cases v) (auto simp: q tquote_def)
qed

lemma value_skip: "value_head b \<Longrightarrow> skip_inline_ws (b # r) = b # r \<and> skip_ws_nl_comments (b # r) = b # r"
  by (simp add: value_head_def skip_inline_solid skip_nl_solid)

text \<open>One round of the loop over the elements, for each of the two separators.\<close>

lemma toml_array_step:
  assumes "toml_value fuel n F (Suc d) (b # t) = Some (Ok (v, r1))" and "value_head b"
  shows "r1 = CHR '','' # r \<Longrightarrow> toml_array (Suc fuel) n F d items (b # t) = toml_array fuel n F d (items @ [v]) r"
    "r1 = CHR '']'' # r \<Longrightarrow> toml_array (Suc fuel) n F d items (b # t) = Some (Ok (Array (items @ [v]), r))"
  using assms by (simp_all add: value_skip [THEN conjunct2] value_head_def del: toml_value.simps)

lemma toml_array_space: "toml_array fuel n F d items (CHR '' '' # r) = toml_array fuel n F d items r"
  by (cases fuel) (simp_all only: toml_array.simps skip_nl_simps)

lemma fuel_Suc: "k < fuel \<Longrightarrow> \<exists>f. fuel = Suc f"
  by (cases fuel) auto

lemma separators [simp]: "\<not> atom_byte (CHR '','')" "\<not> atom_byte (CHR '']'')" "\<not> atom_byte (CHR ''}'')"
    "\<not> atom_byte (CHR '' '')" "\<not> atom_byte (CHR 0x0A)"
  by (simp_all add: atom_byte_def inline_ws_def)

lemma parse_tbytes:
  "Suc d \<le> max_depth \<Longrightarrow> 2 * length (tbytes_text bs @ CHR '']'' # r) + 1 < fuel \<Longrightarrow>
     toml_array fuel n F d items (tbytes_text bs @ CHR '']'' # r) = Some (Ok (Array (items @ map (\<lambda>b. IntV (ucast b)) bs), r))"
proof (induction bs arbitrary: items fuel)
  case Nil
  then show ?case using fuel_Suc [OF Nil(2)] by auto
next
  case (Cons b bs)
  obtain f where f: "fuel = Suc f" using fuel_Suc [OF Cons.prems(2)] by blast
  have plain: "list_all plain_atom (decimal (unat b))"
    using decimal_number(1) number_plain by (auto simp: list_all_iff)
  obtain c u where cu: "decimal (unat b) = c # u" "value_head c"
    using list_head [OF plain decimal_ne_Nil] plain_head by blast
  have "unat b < 2 ^ 63" using unsigned_less [of b, where ?'a = nat] by (simp add: less_le_trans)
  then have a: "atom F (decimal (unat b)) = IntV (ucast b)"
    using atom_nat [of F "ucast b"] by (simp add: unat_ucast_byte)
  have v: "toml_value f n F (Suc d) (decimal (unat b) @ s) = Some (Ok (IntV (ucast b), s))" if "tstop s" for s
    using toml_value_atom [OF plain decimal_ne_Nil that Cons.prems(1), of f n F] a f Cons.prems(2) by simp
  show ?case
  proof (cases bs)
    case Nil
    then show ?thesis
      using toml_array_step(2) [OF v [of "CHR '']'' # r", unfolded cu append_Cons] cu(2) refl] cu f by simp
  next
    case (Cons b' bs')
    have "toml_array fuel n F d items (decimal (unat b) @ '', '' @ tbytes_text bs @ CHR '']'' # r) =
        toml_array f n F d (items @ [IntV (ucast b)]) (CHR '' '' # tbytes_text bs @ CHR '']'' # r)"
      using toml_array_step(1) [OF v [of "CHR '','' # CHR '' '' # tbytes_text bs @ CHR '']'' # r", unfolded cu append_Cons] cu(2) refl] cu f
      by simp
    then show ?thesis using Cons.IH [of f] Cons Cons.prems f by (simp add: toml_array_space)
  qed
qed

lemma toml_value_string:
  assumes "text_valid s" and "tstop r" and "d \<le> max_depth" and "fuel > 0"
  shows "toml_value fuel n F d (tquote s @ r) = Some (Ok (Str s, r))"
proof -
  obtain f where f: "fuel = Suc f" using assms(4) by (cases fuel) auto
  have q: "atom_byte (CHR 0x22)" by (simp add: atom_byte_def inline_ws_def)
  have "\<not> prefix [CHR 0x22, CHR 0x22, CHR 0x22] (tquote s @ r)"
  proof (cases s)
    case Nil
    then show ?thesis using assms(2) q by (cases r) (auto simp: tquote_def)
  next
    case (Cons c t)
    have "\<exists>e u. toml_escape c = e # u \<and> e \<noteq> CHR 0x22"
      by (cases c rule: toml_escape_cases) (auto simp: toml_escape_def basic_byte_def)
    then show ?thesis using Cons by (auto simp: tquote_def)
  qed
  then show ?thesis
    using basic_string_printed [OF assms(1), of r] assms(3) f
    by (simp add: tquote_def parse_scalar_def skip_inline_solid inline_ws_def)
qed

lemma toml_value_brackets:
  assumes "d \<le> max_depth"
  shows "toml_value (Suc f) n F d (CHR ''['' # r) = toml_array f n F d [] r"
    "toml_value (Suc f) n F d (CHR ''{'' # CHR ''}'' # r) = Some (Ok (Object [], r))"
    "toml_value (Suc f) n F d (CHR ''{'' # CHR '' '' # key_repr k @ r) = toml_inline_table f n F d [] (key_repr k @ r)"
proof -
  have ws: "\<not> inline_ws (CHR ''['')" "\<not> inline_ws (CHR ''{'')" by (simp_all add: inline_ws_def)
  show "toml_value (Suc f) n F d (CHR ''['' # r) = toml_array f n F d [] r"
    "toml_value (Suc f) n F d (CHR ''{'' # CHR ''}'' # r) = Some (Ok (Object [], r))"
    using assms ws by (simp_all add: skip_inline_solid)
  show "toml_value (Suc f) n F d (CHR ''{'' # CHR '' '' # key_repr k @ r) = toml_inline_table f n F d [] (key_repr k @ r)"
    using assms ws by (cases k rule: key_repr_head) (simp add: skip_inline_solid skip_nl_solid)
qed

lemma toml_value_bytes:
  assumes "Suc d \<le> max_depth" and "2 * length (tbytes_text bs) + 2 * length r + 4 < fuel"
  shows "toml_value fuel n F d (CHR ''['' # tbytes_text bs @ CHR '']'' # r) = Some (Ok (Array (map (\<lambda>b. IntV (ucast b)) bs), r))"
proof -
  obtain f where "fuel = Suc f" using fuel_Suc [OF assms(2)] by blast
  then show ?thesis
    using assms parse_tbytes [of d bs r f n F "[]"] by (simp add: toml_value_brackets(1) del: toml_value.simps)
qed

lemma set_nested_fresh: "k \<notin> fst ` set es \<Longrightarrow> set_nested es [k] v = Ok (es @ [(k, v)])"
  by (force simp: set_nested_def list_ex_iff)

lemma key_equals:
  assumes "text_valid k"
  shows "parse_key_path n (key_repr k @ '' = '' @ r) = Ok ([k], ''= '' @ r)"
    "skip_ws_nl_comments (key_repr k @ r) = key_repr k @ r"
proof -
  have "\<not> bare_byte (CHR '' '')" by (simp add: bare_byte_def is_ascii_alphanumeric_def)
  then show "parse_key_path n (key_repr k @ '' = '' @ r) = Ok ([k], ''= '' @ r)"
    using key_path_printed [of "[k]" "'' = '' @ r" n "[]"] assms by (simp add: parse_key_path_def)
  show "skip_ws_nl_comments (key_repr k @ r) = key_repr k @ r"
    by (cases k rule: key_repr_head) (simp add: skip_nl_solid)
qed

lemma inline_table_step:
  assumes "text_valid k" and "k \<notin> fst ` set es" and "value_head b"
    and "toml_value f n F (Suc d) (b # t) = Some (Ok (w, r1))"
  shows "skip_ws_nl_comments r1 = CHR '','' # r \<Longrightarrow>
      toml_inline_table (Suc f) n F d es (key_repr k @ '' = '' @ b # t) = toml_inline_table f n F d (es @ [(k, w)]) r"
    "skip_ws_nl_comments r1 = CHR ''}'' # r \<Longrightarrow>
      toml_inline_table (Suc f) n F d es (key_repr k @ '' = '' @ b # t) = Some (Ok (Object (es @ [(k, w)]), r))"
proof -
  have "toml_expect n (CHR ''='') (''= '' @ b # t) = Ok ((), CHR '' '' # b # t)"
    by (simp add: toml_expect_def)
  moreover have "skip_inline_ws (CHR '' '' # b # t) = b # t" using value_skip [OF assms(3)] by simp
  ultimately show "skip_ws_nl_comments r1 = CHR '','' # r \<Longrightarrow>
      toml_inline_table (Suc f) n F d es (key_repr k @ '' = '' @ b # t) = toml_inline_table f n F d (es @ [(k, w)]) r"
    "skip_ws_nl_comments r1 = CHR ''}'' # r \<Longrightarrow>
      toml_inline_table (Suc f) n F d es (key_repr k @ '' = '' @ b # t) = Some (Ok (Object (es @ [(k, w)]), r))"
    using assms by (simp_all add: key_equals [simplified] set_nested_fresh del: toml_value.simps)
qed

lemma inline_table_space: "toml_inline_table fuel n F d es (CHR '' '' # r) = toml_inline_table fuel n F d es r"
  by (cases fuel) (simp_all only: toml_inline_table.simps skip_nl_simps)

lemma toml_value_scalars:
  assumes "toml_floats F" and "tstop r" and "d \<le> max_depth" and "fuel > 0"
  shows "toml_value fuel n F d ((if b then ''true'' else ''false'') @ r) = Some (Ok (Bool b, r))"
    "toml_value fuel n F d (int_text i @ r) = Some (Ok (IntV i, r))"
    "toml_value fuel n F d (decimal (unat u) @ r) = Some (Ok (tnormal F (UInt u), r))"
    "toml_value fuel n F d (tfloat_text F f @ r) = Some (Ok (Float (tnormal_float F f), r))"
proof -
  note at = toml_value_atom [OF _ _ assms(2-4), of _ n F]
  have num: "list_all plain_atom t" if "list_all number_byte t" for t
    using that number_plain by (auto simp: list_all_iff)
  have w: "list_all plain_atom ''true''" "list_all plain_atom ''false''"
    by (simp_all add: plain_atom_def is_ascii_alphanumeric_def)
  have "atom F ''true'' = Bool True" "atom F ''false'' = Bool False" by (simp_all add: atom_def)
  then show "toml_value fuel n F d ((if b then ''true'' else ''false'') @ r) = Some (Ok (Bool b, r))"
    using at [OF w(1)] at [OF w(2)] by (simp del: toml_value.simps)
  show "toml_value fuel n F d (int_text i @ r) = Some (Ok (IntV i, r))"
    using at [OF num [OF int_text_number(1)] int_text_number(3)] by (simp only: atom_int)
  show "toml_value fuel n F d (decimal (unat u) @ r) = Some (Ok (tnormal F (UInt u), r))"
    using at [OF num [OF decimal_number(1)] decimal_ne_Nil] by (simp only: atom_nat tnormal.simps)
  show "toml_value fuel n F d (tfloat_text F f @ r) = Some (Ok (Float (tnormal_float F f), r))"
    using at [OF float_atom(1,2) [OF assms(1)]] by (simp only: float_atom(3) [OF assms(1)])
qed

lemma entries_text_head:
  assumes "\<not> all_null kvs"
  shows "\<exists>k t. entries_text F kvs = key_repr k @ t"
  using assms by (induction kvs) (auto, blast+)

lemma all_null_normal: "all_null kvs \<Longrightarrow> tnormal_entries F kvs = []"
  by (induction kvs) auto

lemma toml_value_printed:
  assumes "toml_floats F"
  shows "keys_distinct v \<Longrightarrow> strings_valid v \<Longrightarrow> d + depth_of v \<le> max_depth \<Longrightarrow> tstop r \<Longrightarrow>
      2 * length (inline_text F v @ r) < fuel \<Longrightarrow>
      toml_value fuel n F d (inline_text F v @ r) = Some (Ok (tnormal F v, r))"
    "keys_distinct_list vs \<Longrightarrow> strings_valid_list vs \<Longrightarrow> Suc d + depth_list vs \<le> max_depth \<Longrightarrow>
      2 * length (items_text F vs @ CHR '']'' # r) + 1 < fuel \<Longrightarrow>
      toml_array fuel n F d items (items_text F vs @ CHR '']'' # r) = Some (Ok (Array (items @ tnormal_list F vs), r))"
    "keys_distinct_entries kvs \<Longrightarrow> strings_valid_entries kvs \<Longrightarrow> Suc d + depth_entries kvs \<le> max_depth \<Longrightarrow>
      2 * length (entries_text F kvs @ '' }'' @ r) + 1 < fuel \<Longrightarrow> \<not> all_null kvs \<Longrightarrow>
      fst ` set es \<inter> fst ` set kvs = {} \<Longrightarrow>
      toml_inline_table fuel n F d es (entries_text F kvs @ '' }'' @ r) = Some (Ok (Object (es @ tnormal_entries F kvs), r))"
proof (induction v and vs and kvs arbitrary: fuel d r and fuel d r items and fuel d r es
    rule: keys_distinct_keys_distinct_list_keys_distinct_entries.induct)
  case (1 vs)
  obtain f where f: "fuel = Suc f" using fuel_Suc [OF 1(6)] by blast
  show ?case using 1(1) [where d = d and fuel = f and r = r and items = "[]"] 1(2-6) f toml_value_brackets(1) [of d f n F] by (simp del: toml_value.simps)
next
  case (2 kvs)
  obtain f where f: "fuel = Suc f" using fuel_Suc [OF 2(6)] by blast
  show ?case
  proof (cases "all_null kvs")
    case True
    then show ?thesis using f toml_value_brackets(2) [of d f n F r] 2(4)
      by (simp add: all_null_normal del: toml_value.simps)
  next
    case False
    obtain k t where kt: "entries_text F kvs = key_repr k @ t" using entries_text_head [OF False] by blast
    have "toml_inline_table f n F d [] (entries_text F kvs @ '' }'' @ r) = Some (Ok (Object (tnormal_entries F kvs), r))"
      using 2(1) [where d = d and fuel = f and r = r and es = "[]"] 2(2-6) f False by simp
    then show ?thesis
      using False f 2(4) toml_value_brackets(3) [of d f n F k "t @ '' }'' @ r"] by (simp add: kt del: toml_value.simps)
  qed
next
  case 4
  then obtain f where f: "fuel = Suc f" using fuel_Suc by blast
  then show ?case by simp
next
  case (5 v vs)
  obtain f where f: "fuel = Suc f" using fuel_Suc [OF 5(6)] by blast
  obtain b t where bt: "inline_text F v = b # t" "value_head b" using inline_text_head [OF assms, of v] by blast
  have v: "toml_value f n F (Suc d) (inline_text F v @ s) = Some (Ok (tnormal F v, s))"
    if "tstop s" "length (inline_text F v @ s) \<le> length (items_text F (v # vs) @ CHR '']'' # r)" for s
    using 5(1) [where d = "Suc d" and fuel = f and r = s] 5(3-6) f that by (simp del: toml_value.simps)
  show ?case
  proof (cases "vs = []")
    case True
    then show ?thesis
      using v [of "CHR '']'' # r"] toml_array_step(2) [of f n F d b "t @ CHR '']'' # r" "tnormal F v" _ r items] bt f
      by (simp del: toml_value.simps)
  next
    case False
    have "toml_array fuel n F d items (inline_text F v @ '', '' @ items_text F vs @ CHR '']'' # r) =
        toml_array f n F d (items @ [tnormal F v]) (CHR '' '' # items_text F vs @ CHR '']'' # r)"
      using v [of "'', '' @ items_text F vs @ CHR '']'' # r"] False bt f
        toml_array_step(1) [of f n F d b "t @ '', '' @ items_text F vs @ CHR '']'' # r" "tnormal F v"]
      by (simp del: toml_value.simps)
    then show ?thesis
      using 5(2) [where d = d and fuel = f and r = r and items = "items @ [tnormal F v]"] 5(3-6) False f
      by (simp add: toml_array_space)
  qed
next
  case (7 k v kvs)
  show ?case
  proof (cases "is_null v")
    case True
    then show ?thesis using 7(2) [where d = d and fuel = fuel and r = r and es = es] 7(3-8) by auto
  next
    case False
    obtain f where f: "fuel = Suc f" using fuel_Suc [OF 7(6)] by blast
    obtain b t where bt: "inline_text F v = b # t" "value_head b" using inline_text_head [OF assms, of v] by blast
    have k: "text_valid k" "k \<notin> fst ` set es" using 7(4,8) by auto
    have v: "toml_value f n F (Suc d) (inline_text F v @ s) = Some (Ok (tnormal F v, s))"
      if "tstop s" "length (inline_text F v @ s) \<le> length (entries_text F ((k, v) # kvs) @ '' }'' @ r)" for s
      using 7(1) [where d = "Suc d" and fuel = f and r = s] 7(3-6) f that by (simp del: toml_value.simps)
    show ?thesis
    proof (cases "all_null kvs")
      case True
      then show ?thesis
        using v [of "'' }'' @ r"] False bt f
          inline_table_step(2) [OF k bt(2), of f n F d "t @ '' }'' @ r" "tnormal F v" _ r]
        by (simp add: all_null_normal del: toml_value.simps)
    next
      case more: False
      have "toml_inline_table fuel n F d es (key_repr k @ '' = '' @ inline_text F v @ '', '' @ entries_text F kvs @ '' }'' @ r) =
          toml_inline_table f n F d (es @ [(k, tnormal F v)]) (CHR '' '' # entries_text F kvs @ '' }'' @ r)"
        using v [of "'', '' @ entries_text F kvs @ '' }'' @ r"] more False bt f
          inline_table_step(1) [OF k bt(2), of f n F d "t @ '', '' @ entries_text F kvs @ '' }'' @ r" "tnormal F v"]
        by (simp del: toml_value.simps)
      then show ?thesis
        using 7(2) [where d = d and fuel = f and r = r and es = "es @ [(k, tnormal F v)]"] 7(3-8) more False f
        by (auto simp: inline_table_space)
    qed
  qed
qed (use assms in \<open>auto simp: toml_value_scalars toml_value_string toml_value_bytes simp del: toml_value.simps\<close>)

end
