(* ===== verification/Codec_Toml_Correct.thy ===== *)
theory Codec_Toml_Correct
  imports Codec_Toml_Inline
begin

text \<open>
  The TOML codec reads back what it prints: the document with the keys of each table before its sub-tables,
  without its null entries. The document tree is reasoned about through \<open>focus\<close>, which splits a tree into
  the table at a path and the function that puts a table back there.
\<close>

section \<open>Focusing on a table\<close>

definition slot :: "'f Value \<Rightarrow> ('f table \<times> ('f table \<Rightarrow> 'f Value)) option" where
  "slot v = (case v of
     Object t \<Rightarrow> Some (t, Object)
   | Array a \<Rightarrow>
       if a = [] then None
       else (case last a of Object t \<Rightarrow> Some (t, \<lambda>u. Array (butlast a @ [Object u])) | _ \<Rightarrow> None)
   | _ \<Rightarrow> None)"

fun focus :: "'f table \<Rightarrow> string list \<Rightarrow> ('f table \<times> ('f table \<Rightarrow> 'f table)) option" where
  "focus cur [] = Some (cur, \<lambda>u. u)"
| "focus cur (seg # path) = (case position seg cur of
     None \<Rightarrow> None
   | Some i \<Rightarrow> (case slot (snd (cur ! i)) of
       None \<Rightarrow> None
     | Some (t, c) \<Rightarrow> (case focus t path of
         None \<Rightarrow> None
       | Some (t', c') \<Rightarrow> Some (t', \<lambda>u. cur[i := (fst (cur ! i), c (c' u))]))))"

lemma slot_put: "slot v = Some (t, c) \<Longrightarrow> slot (c u) = Some (u, c)"
  by (auto simp: slot_def split: Value.splits if_splits)

lemma descend_slot: "slot v = Some (t, c) \<Longrightarrow> descend v seg g = map_sum id c (g t)"
  by (auto simp: slot_def descend_def split: Value.splits if_splits)

lemma position_bound: "position seg cur = Some i \<Longrightarrow> i < length cur \<and> fst (cur ! i) = seg"
  by (induction cur arbitrary: i) (auto split: if_splits)

lemma position_update: "position seg (cur[i := (fst (cur ! i), v)]) = position seg cur"
proof (induction cur arbitrary: i)
  case (Cons x cur)
  then show ?case by (cases x; cases i) auto
qed simp

lemma position_fresh: "seg \<notin> fst ` set cur \<Longrightarrow> position seg cur = None"
  by (induction cur) auto

lemma position_snoc: "seg \<notin> fst ` set cur \<Longrightarrow> position seg (cur @ [(seg, v)]) = Some (length cur)"
  by (induction cur) auto

lemma focus_Cons:
  assumes "focus cur (seg # path) = Some (t, c)"
  obtains i w d c' where "position seg cur = Some i" "slot (snd (cur ! i)) = Some (w, d)" "focus w path = Some (t, c')"
    "c = (\<lambda>u. cur[i := (seg, d (c' u))])" "i < length cur" "fst (cur ! i) = seg"
proof -
  from assms obtain i where i: "position seg cur = Some i" by (auto split: option.splits)
  with assms obtain w d c' where "slot (snd (cur ! i)) = Some (w, d)" "focus w path = Some (t, c')"
      "c = (\<lambda>u. cur[i := (fst (cur ! i), d (c' u))])"
    by (auto split: option.splits)
  then show ?thesis using that i position_bound [OF i] by simp
qed

lemma resolve_focus: "focus cur path = Some (t, c) \<Longrightarrow> resolve cur path g = map_sum id c (g t)"
proof (induction path arbitrary: cur t c)
  case Nil
  then show ?case by (cases "g t") auto
next
  case (Cons seg path)
  from Cons.prems obtain i w d c' where f: "position seg cur = Some i" "slot (snd (cur ! i)) = Some (w, d)"
      "focus w path = Some (t, c')" "c = (\<lambda>u. cur[i := (seg, d (c' u))])" "i < length cur" "fst (cur ! i) = seg"
    by (rule focus_Cons)
  then show ?case using Cons.IH [OF f(3)] by (cases "g t") (simp_all add: descend_slot [OF f(2)])
qed

lemma get_or_create_focus:
  "focus cur path = Some (t, c) \<Longrightarrow> get_or_create cur (path @ path') g = map_sum id c (get_or_create t path' g)"
proof (induction path arbitrary: cur t c)
  case Nil
  then show ?case by (cases "get_or_create t path' g") auto
next
  case (Cons seg path)
  from Cons.prems obtain i w d c' where f: "position seg cur = Some i" "slot (snd (cur ! i)) = Some (w, d)"
      "focus w path = Some (t, c')" "c = (\<lambda>u. cur[i := (seg, d (c' u))])" "i < length cur" "fst (cur ! i) = seg"
    by (rule focus_Cons)
  then show ?case
    using Cons.IH [OF f(3)] by (cases "get_or_create t path' g") (simp_all add: descend_slot [OF f(2)])
qed

text \<open>Putting a table back and looking again gives that table, in the same place.\<close>

lemma focus_put: "focus cur path = Some (t, c) \<Longrightarrow> focus (c u) path = Some (u, c)"
proof (induction path arbitrary: cur t c)
  case (Cons seg path)
  from Cons.prems obtain i w d c' where f: "position seg cur = Some i" "slot (snd (cur ! i)) = Some (w, d)"
      "focus w path = Some (t, c')" "c = (\<lambda>u. cur[i := (seg, d (c' u))])" "i < length cur" "fst (cur ! i) = seg"
    by (rule focus_Cons)
  have "position seg (c u) = Some i" using position_update [of seg cur i] f by simp
  moreover have "snd (c u ! i) = d (c' u)" using f by simp
  ultimately show ?case
    using Cons.IH [OF f(3)] slot_put [OF f(2), of "c' u"] f(4,5) by simp
qed simp

lemma focus_append:
  "focus cur path = Some (t, c) \<Longrightarrow> focus t path' = Some (t', c') \<Longrightarrow> focus cur (path @ path') = Some (t', \<lambda>u. c (c' u))"
proof (induction path arbitrary: cur t c)
  case (Cons seg path)
  from Cons.prems(1) obtain i w d e where f: "position seg cur = Some i" "slot (snd (cur ! i)) = Some (w, d)"
      "focus w path = Some (t, e)" "c = (\<lambda>u. cur[i := (seg, d (e u))])" "i < length cur" "fst (cur ! i) = seg"
    by (rule focus_Cons)
  then show ?case using Cons.IH [OF f(3) Cons.prems(2)] by simp
qed simp

section \<open>The three kinds of statement\<close>

lemma set_pair:
  assumes "focus root p = Some (t, c)" and "k \<notin> fst ` set t"
  shows "resolve root p (\<lambda>base. set_nested base [k] v) = Ok (c (t @ [(k, v)]))"
  using set_nested_fresh [OF assms(2)] by (simp add: resolve_focus [OF assms(1)])

lemma create_table:
  assumes "focus root p = Some (t, c)" and "k \<notin> fst ` set t"
  shows "get_or_create root (p @ [k]) Ok = Ok (c (t @ [(k, Object [])]))"
    "focus (c (t @ [(k, Object [])])) (p @ [k]) = Some ([], \<lambda>u. c (t @ [(k, Object u)]))"
proof -
  show "get_or_create root (p @ [k]) Ok = Ok (c (t @ [(k, Object [])]))"
    using position_fresh [OF assms(2)] by (simp add: get_or_create_focus [OF assms(1)] descend_def)
  have "focus (t @ [(k, Object [])]) [k] = Some ([], \<lambda>u. t @ [(k, Object u)])"
    by (simp add: position_snoc [OF assms(2)] slot_def)
  then show "focus (c (t @ [(k, Object [])])) (p @ [k]) = Some ([], \<lambda>u. c (t @ [(k, Object u)]))"
    by (rule focus_append [OF focus_put [OF assms(1)]])
qed

text \<open>The table that holds the array of tables at key \<open>k\<close>, before its first element and after.\<close>

definition with_array :: "'f table \<Rightarrow> string \<Rightarrow> 'f Value list \<Rightarrow> 'f table" where
  "with_array t k vs = (if vs = [] then t else t @ [(k, Array vs)])"

lemma append_table:
  assumes "focus root p = Some (with_array t k vs, c)" and "k \<notin> fst ` set t"
  shows "append_array_table root (p @ [k]) = Ok (c (with_array t k (vs @ [Object []])))"
    "focus (c (with_array t k (vs @ [Object []]))) (p @ [k]) = Some ([], \<lambda>u. c (with_array t k (vs @ [Object u])))"
proof -
  show "append_array_table root (p @ [k]) = Ok (c (with_array t k (vs @ [Object []])))"
    using position_fresh [OF assms(2)] position_snoc [OF assms(2)] get_or_create_focus [OF assms(1), of "[]"]
    by (simp add: append_array_table_def with_array_def)
  have "focus (with_array t k (vs @ [Object []])) [k] = Some ([], \<lambda>u. with_array t k (vs @ [Object u]))"
    by (simp add: with_array_def position_snoc [OF assms(2)] slot_def)
  then show "focus (c (with_array t k (vs @ [Object []]))) (p @ [k]) = Some ([], \<lambda>u. c (with_array t k (vs @ [Object u])))"
    by (rule focus_append [OF focus_put [OF assms(1)]])
qed

text \<open>The document loop with as much fuel as it needs.\<close>

definition parse_all :: "nat \<Rightarrow> 'f toml_ops \<Rightarrow> 'f table \<Rightarrow> string list \<Rightarrow> string \<Rightarrow> ('f Value, toml_stop) result option" where
  "parse_all n F root current r = parse_doc (length r + 1) n F root current r"

lemma parse_doc_fuel:
  "length r < fuel \<Longrightarrow> length r < fuel' \<Longrightarrow> parse_doc fuel n F root current r = parse_doc fuel' n F root current r"
proof (induction fuel arbitrary: fuel' root current r)
  case (Suc fuel)
  then obtain f' where f': "fuel' = Suc f'" by (cases fuel') auto
  define s where "s = skip_ws_nl_comments r"
  have "parse_doc fuel n F root' current' r' = parse_doc f' n F root' current' r'"
    if "s \<noteq> []" "parse_statement n F root current s = Some (Ok ((root', current'), r'))" for root' current' r'
  proof -
    have "length r' < length r"
      using suffix_lengths(2) [OF parse_statement_suffix [OF that(2,1)]] skip_lengths(2) [of r, folded s_def] by linarith
    then show ?thesis using Suc.IH [of r' f'] Suc.prems f' by simp
  qed
  then show ?case
    unfolding f' by (auto simp: Let_def simp flip: s_def intro!: fuel_thenM_cong split: prod.splits)
qed simp

lemma parse_all_step:
  assumes "skip_ws_nl_comments r = s" and "s \<noteq> []"
    and "parse_statement n F root current s = Some (Ok ((root', current'), r'))"
  shows "parse_all n F root current r = parse_all n F root' current' r'"
proof -
  have "length r' < length r"
    using suffix_lengths(2) [OF parse_statement_suffix [OF assms(3,2)]] skip_lengths(2) [of r, unfolded assms(1)] by linarith
  then show ?thesis
    using assms parse_doc_fuel [of r' "length r" "length r' + 1" n F root' current']
    by (simp add: parse_all_def Let_def)
qed

lemma parse_all_end: "skip_ws_nl_comments r = [] \<Longrightarrow> parse_all n F root current r = Some (Ok (Object root))"
  by (simp add: parse_all_def)

lemma finish_newline: "finish_line n (CHR 0x0A # r) = Ok ((), r)"
  by (simp add: finish_line_def Let_def)

lemma parse_all_pair:
  assumes "toml_floats F" and "text_valid k" and "keys_distinct v" and "strings_valid v" and "depth_of v \<le> max_depth"
    and "focus root p = Some (t, c)" and "k \<notin> fst ` set t"
  shows "parse_all n F root p (key_repr k @ '' = '' @ inline_text F v @ CHR 0x0A # r) =
    parse_all n F (c (t @ [(k, tnormal F v)])) p r"
proof -
  obtain b u where bu: "inline_text F v = b # u" "value_head b" using inline_text_head [OF assms(1), of v] by blast
  have sk: "skip_inline_ws (CHR '' '' # inline_text F v @ CHR 0x0A # r) = inline_text F v @ CHR 0x0A # r"
    using bu value_skip [OF bu(2)] by simp
  have val: "toml_value (2 * length (CHR '' '' # inline_text F v @ CHR 0x0A # r) + 2) n F 0 (inline_text F v @ CHR 0x0A # r) =
      Some (Ok (tnormal F v, CHR 0x0A # r))"
    by (rule toml_value_printed(1) [OF assms(1,3,4)]) (use assms(5) in simp_all)
  have exp: "toml_expect n (CHR ''='') (skip_inline_ws (''= '' @ s)) = Ok ((), CHR '' '' # s)" for s
    by (simp add: toml_expect_def)
  have pair: "parse_pair n F root p (key_repr k @ '' = '' @ inline_text F v @ CHR 0x0A # r) =
      Some (Ok ((c (t @ [(k, tnormal F v)]), p), r))"
    unfolding parse_pair_def key_equals(1) [OF assms(2)] step_thenM_simps exp sk val fuel_thenM_simps
    by (simp add: set_pair [OF assms(6,7)] finish_newline)
  have "eat (CHR ''['') (key_repr k @ s) = None" for s
    by (cases k rule: key_repr_head) simp
  then show ?thesis
    using pair key_repr_head [of k] by (intro parse_all_step [OF key_equals(2) [OF assms(2)]]) (auto simp: parse_statement_def)
qed

lemma close_header:
  assumes "p \<noteq> []" and "list_all text_valid p"
  shows "parse_key_path n (path_text p @ CHR '']'' # r) = Ok (p, CHR '']'' # r)"
    "toml_expect n (CHR '']'') (CHR '']'' # r) = Ok ((), r)"
    "eat (CHR ''['') (path_text p @ r) = None"
proof -
  have "\<not> bare_byte (CHR '']'')" by (simp add: bare_byte_def is_ascii_alphanumeric_def)
  then show "parse_key_path n (path_text p @ CHR '']'' # r) = Ok (p, CHR '']'' # r)"
    using key_path_printed [OF assms, of "CHR '']'' # r" n "[]"] by (simp add: parse_key_path_def)
  show "toml_expect n (CHR '']'') (CHR '']'' # r) = Ok ((), r)" by (simp add: toml_expect_def)
  show "eat (CHR ''['') (path_text p @ r) = None"
    using assms(1) by (cases p rule: path_text.cases; cases "hd p" rule: key_repr_head) auto
qed

lemma parse_all_table:
  assumes "focus root p = Some (t, c)" and "k \<notin> fst ` set t" and "list_all text_valid (p @ [k])"
  shows "parse_all n F root current (CHR 0x0A # CHR ''['' # path_text (p @ [k]) @ CHR '']'' # CHR 0x0A # r) =
    parse_all n F (c (t @ [(k, Object [])])) (p @ [k]) r"
proof (rule parse_all_step)
  have ne: "p @ [k] \<noteq> []" by simp
  show "parse_statement n F root current (CHR ''['' # path_text (p @ [k]) @ CHR '']'' # CHR 0x0A # r) =
      Some (Ok ((c (t @ [(k, Object [])]), p @ [k]), r))"
    by (simp add: parse_statement_def parse_header_def close_header [OF ne assms(3)]
        create_table(1) [OF assms(1,2)] finish_newline)
qed simp_all

lemma parse_all_array_table:
  assumes "focus root p = Some (with_array t k vs, c)" and "k \<notin> fst ` set t" and "list_all text_valid (p @ [k])"
  shows "parse_all n F root current (CHR 0x0A # ''[['' @ path_text (p @ [k]) @ '']]'' @ CHR 0x0A # r) =
    parse_all n F (c (with_array t k (vs @ [Object []]))) (p @ [k]) r"
proof (rule parse_all_step)
  have ne: "p @ [k] \<noteq> []" by simp
  show "parse_statement n F root current (''[['' @ path_text (p @ [k]) @ '']]'' @ CHR 0x0A # r) =
      Some (Ok ((c (with_array t k (vs @ [Object []])), p @ [k]), r))"
    by (simp add: parse_statement_def parse_header_def close_header [OF ne assms(3)]
        append_table(1) [OF assms(1,2)] finish_newline)
qed simp_all

section \<open>Documents\<close>

fun scalars_text :: "'f toml_ops \<Rightarrow> 'f table \<Rightarrow> string" where
  "scalars_text F [] = []"
| "scalars_text F ((k, v) # kvs) =
     (if is_null v \<or> is_section v then [] else key_repr k @ '' = '' @ inline_text F v @ [CHR 0x0A]) @ scalars_text F kvs"

text \<open>The entries that stand in a table before its sub-tables, as they come back.\<close>

fun own_entries :: "'f toml_ops \<Rightarrow> 'f table \<Rightarrow> 'f table" where
  "own_entries F [] = []"
| "own_entries F ((k, v) # kvs) =
     (if is_null v \<or> is_section v then [] else [(k, tnormal F v)]) @ own_entries F kvs"

fun sections_text :: "'f toml_ops \<Rightarrow> string list \<Rightarrow> 'f table \<Rightarrow> string"
  and tables_text :: "'f toml_ops \<Rightarrow> string list \<Rightarrow> 'f Value list \<Rightarrow> string" where
  "sections_text F p [] = []"
| "sections_text F p ((k, v) # kvs) =
     (case v of
        Object t \<Rightarrow>
          if t \<noteq> [] then
            CHR 0x0A # CHR ''['' # path_text (p @ [k]) @ CHR '']'' # CHR 0x0A # scalars_text F t @ sections_text F (p @ [k]) t
          else []
      | Array a \<Rightarrow> if is_array_of_tables a then tables_text F (p @ [k]) a else []
      | _ \<Rightarrow> []) @ sections_text F p kvs"
| "tables_text F p [] = []"
| "tables_text F p (item # items) =
     (case item of
        Object t \<Rightarrow> CHR 0x0A # ''[['' @ path_text p @ '']]'' @ CHR 0x0A # scalars_text F t @ sections_text F p t
      | _ \<Rightarrow> []) @ tables_text F p items"

text \<open>The sub-tables of a table, as they come back.\<close>

fun canon_sections :: "'f toml_ops \<Rightarrow> 'f table \<Rightarrow> 'f table"
  and canon_items :: "'f toml_ops \<Rightarrow> 'f Value list \<Rightarrow> 'f Value list" where
  "canon_sections F [] = []"
| "canon_sections F ((k, v) # kvs) =
     (case v of
        Object t \<Rightarrow> if t \<noteq> [] then [(k, Object (own_entries F t @ canon_sections F t))] else []
      | Array a \<Rightarrow> if is_array_of_tables a then [(k, Array (canon_items F a))] else []
      | _ \<Rightarrow> []) @ canon_sections F kvs"
| "canon_items F [] = []"
| "canon_items F (item # items) =
     (case item of Object t \<Rightarrow> [Object (own_entries F t @ canon_sections F t)] | _ \<Rightarrow> []) @ canon_items F items"

text \<open>The nesting of the values that are printed inline is at most 128; tables nest without limit.\<close>

fun inline_depth_ok :: "'f table \<Rightarrow> bool"
  and items_depth_ok :: "'f Value list \<Rightarrow> bool" where
  "inline_depth_ok [] = True"
| "inline_depth_ok ((k, v) # kvs) =
     ((case v of
         Object t \<Rightarrow> inline_depth_ok t
       | Array a \<Rightarrow> if is_array_of_tables a then items_depth_ok a else depth_of v \<le> max_depth
       | _ \<Rightarrow> True) \<and> inline_depth_ok kvs)"
| "items_depth_ok [] = True"
| "items_depth_ok (item # items) = ((case item of Object t \<Rightarrow> inline_depth_ok t | _ \<Rightarrow> True) \<and> items_depth_ok items)"

lemma write_scalars_eq: "write_scalars F o1 kvs = o1 @ scalars_text F kvs"
  by (induction F o1 kvs rule: write_scalars.induct) (auto simp: write_inline_eq write_key_def)

lemma path_text_ne: "p \<noteq> [] \<Longrightarrow> path_text p \<noteq> []"
  by (cases p rule: path_text.cases; cases "hd p" rule: key_repr_head) auto

lemma header_join_path: "header_join (path_text p) k = path_text (p @ [k])"
proof -
  have "path_text (p @ [k]) = path_text p @ ''.'' @ key_repr k" if "p \<noteq> []"
    using that by (induction p rule: path_text.induct) auto
  then show ?thesis by (cases "p = []") (auto simp: header_join_def path_text_ne)
qed

lemma write_table_eq:
  "pre = path_text p \<Longrightarrow> write_sections F o1 kvs pre = o1 @ sections_text F p kvs"
  "pre = path_text p \<Longrightarrow> write_items F o1 items pre = o1 @ tables_text F p items"
  "pre = path_text p \<Longrightarrow> write_table F o1 kvs pre = o1 @ scalars_text F kvs @ sections_text F p kvs"
proof (induction F o1 kvs pre and F o1 items pre and F o1 kvs pre arbitrary: p and p and p
    rule: write_sections_write_items_write_table.induct)
  case (2 F o1 k v kvs pre)
  note IH = 2(1) [where p = "p @ [k]", unfolded 2(4) header_join_path] 2(2) [where p = "p @ [k]", unfolded 2(4) header_join_path]
    2(3) [where p = p, unfolded 2(4) header_join_path]
  show ?case unfolding 2(4) using IH
    by (cases v) (auto simp: Let_def header_join_path simp del: write_table.simps)
next
  case (4 F o1 item items header)
  note IH = 4(1) [where p = p] 4(2) [where p = p] 4(3)
  show ?case using IH by (cases item) (simp_all del: write_table.simps)
qed (simp_all add: write_scalars_eq)

lemma own_entries_keys: "fst ` set (own_entries F kvs) \<subseteq> fst ` set kvs"
  by (induction F kvs rule: own_entries.induct) auto

lemma not_section_depth:
  "inline_depth_ok ((k, v) # kvs) \<Longrightarrow> \<not> is_section v \<Longrightarrow> depth_of v \<le> max_depth"
  by (cases v) (auto simp: max_depth_def)

text \<open>\<open>lens c p\<close>: \<open>c\<close> puts a table at the path \<open>p\<close> of a tree.\<close>

definition lens :: "('f table \<Rightarrow> 'f table) \<Rightarrow> string list \<Rightarrow> bool" where
  "lens c p \<longleftrightarrow> (\<forall>u. focus (c u) p = Some (u, c))"

lemma lens_root: "lens (\<lambda>u. u) []"
  by (simp add: lens_def)

lemma lens_focus: "lens c p \<Longrightarrow> focus (c u) p = Some (u, c)"
  by (simp add: lens_def)

lemma lens_table: "lens c p \<Longrightarrow> k \<notin> fst ` set t \<Longrightarrow> lens (\<lambda>u. c (t @ [(k, Object u)])) (p @ [k])"
  unfolding lens_def
  by (auto intro!: focus_append [where c' = "\<lambda>u. t @ [(k, Object u)]"] simp: position_snoc slot_def)

lemma lens_array:
  "lens c p \<Longrightarrow> k \<notin> fst ` set t \<Longrightarrow> lens (\<lambda>u. c (with_array t k (vs @ [Object u]))) (p @ [k])"
  unfolding lens_def
  by (auto intro!: focus_append [where c' = "\<lambda>u. t @ [(k, Array (vs @ [Object u]))]"] simp: with_array_def position_snoc slot_def)

lemma parse_all_scalars:
  assumes "toml_floats F" and "lens c p"
  shows "keys_distinct_entries kvs \<Longrightarrow> strings_valid_entries kvs \<Longrightarrow> inline_depth_ok kvs \<Longrightarrow>
    fst ` set t \<inter> fst ` set kvs = {} \<Longrightarrow>
    parse_all n F (c t) p (scalars_text F kvs @ r) = parse_all n F (c (t @ own_entries F kvs)) p r"
proof (induction kvs arbitrary: t)
  case (Cons x kvs)
  obtain k v where x: "x = (k, v)" by (cases x)
  have ok: "text_valid k" "keys_distinct v" "strings_valid v" "k \<notin> fst ` set t" "k \<notin> fst ` set kvs"
    "keys_distinct_entries kvs" "strings_valid_entries kvs" "inline_depth_ok kvs" "fst ` set t \<inter> fst ` set kvs = {}"
    using Cons.prems by (auto simp: x)
  show ?case
  proof (cases "is_null v \<or> is_section v")
    case True
    then show ?thesis using Cons.IH [of t] ok by (simp add: x)
  next
    case False
    then have "depth_of v \<le> max_depth" using not_section_depth Cons.prems(3) x by blast
    then have "parse_all n F (c t) p (key_repr k @ '' = '' @ inline_text F v @ CHR 0x0A # scalars_text F kvs @ r) =
        parse_all n F (c (t @ [(k, tnormal F v)])) p (scalars_text F kvs @ r)"
      by (rule parse_all_pair [OF assms(1) ok(1-3) _ lens_focus [OF assms(2)] ok(4)])
    then show ?thesis using Cons.IH [of "t @ [(k, tnormal F v)]"] ok False by (simp add: x)
  qed
qed simp

lemma canon_keys: "fst ` set (canon_sections F kvs) \<subseteq> fst ` set kvs"
proof (induction kvs)
  case (Cons x kvs)
  obtain k v where "x = (k, v)" by (cases x)
  then show ?case using Cons by (cases v) auto
qed simp

lemma section_keys_disjoint:
  assumes "k \<notin> fst ` set kvs"
  shows "fst ` set (own_entries F kvs) \<inter> {k} = {}" "fst ` set (canon_sections F kvs) \<inter> {k} = {}"
  using assms own_entries_keys [of F kvs] canon_keys [of F kvs] by blast+

text \<open>The keys that a table gets from its own entries are not those of its sub-tables.\<close>

definition section_keys :: "'f table \<Rightarrow> string set" where
  "section_keys kvs = fst ` set (filter (\<lambda>(k, v). is_section v) kvs)"

lemma section_keys_simps [simp]:
  "section_keys [] = {}" "section_keys ((k, v) # kvs) = (if is_section v then insert k (section_keys kvs) else section_keys kvs)"
  by (auto simp: section_keys_def)

lemma section_keys_sub: "section_keys kvs \<subseteq> fst ` set kvs"
  by (auto simp: section_keys_def)

lemma own_section_disjoint: "keys_distinct_entries kvs \<Longrightarrow> fst ` set (own_entries F kvs) \<inter> section_keys kvs = {}"
proof (induction kvs)
  case (Cons x kvs)
  obtain k v where x: "x = (k, v)" by (cases x)
  have "k \<notin> fst ` set (own_entries F kvs)" "k \<notin> section_keys kvs"
    using Cons.prems x own_entries_keys [of F kvs] section_keys_sub [of kvs] by auto
  then show ?case using Cons x by auto
qed simp

lemma canon_items_ne: "is_array_of_tables a \<Longrightarrow> canon_items F a \<noteq> []"
  by (cases a; cases "hd a") (auto simp: is_array_of_tables_def)

text \<open>The conditions on a table, and reading the body of a table once its header has created it.\<close>

definition table_ok :: "'f table \<Rightarrow> bool" where
  "table_ok kvs \<longleftrightarrow> keys_distinct_entries kvs \<and> strings_valid_entries kvs \<and> inline_depth_ok kvs"

definition canon :: "'f toml_ops \<Rightarrow> 'f table \<Rightarrow> 'f table" where
  "canon F u = own_entries F u @ canon_sections F u"

lemma items_ok:
  "list_all is_object a \<Longrightarrow> keys_distinct_list a \<Longrightarrow> strings_valid_list a \<Longrightarrow> items_depth_ok a \<Longrightarrow>
     list_all (\<lambda>v. case v of Object u \<Rightarrow> table_ok u | _ \<Rightarrow> False) a"
proof (induction a)
  case (Cons x a)
  then show ?case by (cases x) (auto simp: table_ok_def)
qed simp

lemma parse_all_body:
  assumes "toml_floats F" and "lens c p" and "table_ok u"
    and "\<exists>current'. parse_all n F (c (own_entries F u)) p (sections_text F p u @ r) = parse_all n F (c (canon F u)) current' r"
  shows "\<exists>current'. parse_all n F (c []) p (scalars_text F u @ sections_text F p u @ r) = parse_all n F (c (canon F u)) current' r"
  using assms(4) parse_all_scalars [OF assms(1,2), of u "[]" n "sections_text F p u @ r"] assms(3)
  by (simp add: table_ok_def)

lemma parse_all_sections:
  assumes "toml_floats F"
  shows "table_ok kvs \<Longrightarrow> lens c p \<Longrightarrow> list_all text_valid p \<Longrightarrow> fst ` set t \<inter> section_keys kvs = {} \<Longrightarrow>
      \<exists>current'. parse_all n F (c t) current (sections_text F p kvs @ r) = parse_all n F (c (t @ canon_sections F kvs)) current' r"
    "list_all (\<lambda>v. case v of Object u \<Rightarrow> table_ok u | _ \<Rightarrow> False) items \<Longrightarrow> lens c p \<Longrightarrow>
      list_all text_valid (p @ [k]) \<Longrightarrow> k \<notin> fst ` set t \<Longrightarrow>
      \<exists>current'. parse_all n F (c (with_array t k vs)) current (tables_text F (p @ [k]) items @ r) =
        parse_all n F (c (with_array t k (vs @ canon_items F items))) current' r"
  using assms
proof (induction F kvs and F items arbitrary: c p t current r and c p t k vs current r
    rule: canon_sections_canon_items.induct)
  case (2 F k v kvs)
  have ok: "text_valid k" "k \<notin> fst ` set kvs" "table_ok kvs" using 2(4) by (auto simp: table_ok_def)
  have val: "list_all text_valid (p @ [k])" using 2(6) ok by simp
  have next_section: "\<exists>cur'. parse_all n F (c (t @ e)) cur (sections_text F p kvs @ r) =
      parse_all n F (c (t @ e @ canon_sections F kvs)) cur' r"
    if "fst ` set e \<subseteq> {k}" for e cur
  proof -
    have "fst ` set (t @ e) \<inter> section_keys kvs = {}"
      using 2(7) that ok(2) section_keys_sub [of kvs] by (auto split: if_splits)
    then show ?thesis
      using 2(3) [where c = c and p = p and t = "t @ e" and current = cur and r = r] 2(5,6,8) ok by simp
  qed
  have table: ?case if v: "v = Object u" "u \<noteq> []" for u
  proof -
    have k: "k \<notin> fst ` set t" and u: "table_ok u" using 2(4,7) v by (auto simp: table_ok_def)
    have l: "lens (\<lambda>w. c (t @ [(k, Object w)])) (p @ [k])" by (rule lens_table [OF 2(5) k])
    have "\<exists>cur'. parse_all n F (c (t @ [(k, Object (own_entries F u))])) (p @ [k])
          (sections_text F (p @ [k]) u @ sections_text F p kvs @ r) =
        parse_all n F (c (t @ [(k, Object (canon F u))])) cur' (sections_text F p kvs @ r)"
      using 2(2) [OF v, where c = "\<lambda>w. c (t @ [(k, Object w)])" and p = "p @ [k]" and t = "own_entries F u"]
        u l val 2(8) own_section_disjoint [of u F] by (simp add: canon_def table_ok_def)
    then obtain cur' where body: "parse_all n F (c (t @ [(k, Object [])])) (p @ [k])
          (scalars_text F u @ sections_text F (p @ [k]) u @ sections_text F p kvs @ r) =
        parse_all n F (c (t @ [(k, Object (canon F u))])) cur' (sections_text F p kvs @ r)"
      using parse_all_body [OF 2(8) l u] by blast
    show ?thesis
      using next_section [of "[(k, Object (canon F u))]" cur'] v body parse_all_table [OF lens_focus [OF 2(5)] k val]
      by (simp add: canon_def)
  qed
  have tables: ?case if v: "v = Array a" "is_array_of_tables a" for a
  proof -
    have k: "k \<notin> fst ` set t" using 2(7) v by simp
    have "list_all (\<lambda>v. case v of Object u \<Rightarrow> table_ok u | _ \<Rightarrow> False) a"
      using 2(4) v by (intro items_ok) (auto simp: table_ok_def is_array_of_tables_def)
    then obtain cur' where "parse_all n F (c t) current (tables_text F (p @ [k]) a @ sections_text F p kvs @ r) =
        parse_all n F (c (t @ [(k, Array (canon_items F a))])) cur' (sections_text F p kvs @ r)"
      using 2(1) [OF v, where c = c and p = p and k = k and t = t and vs = "[]" and current = current and r = "sections_text F p kvs @ r"]
        2(5,8) val k canon_items_ne [OF v(2), of F] by (auto simp: with_array_def)
    then show ?thesis using next_section [of "[(k, Array (canon_items F a))]" cur'] v by simp
  qed
  show ?case
  proof (cases "is_section v")
    case True
    then show ?thesis using table tables by (cases v) auto
  next
    case False
    then show ?thesis using next_section [of "[]" current] by (cases v) auto
  qed
next
  case (4 F item items)
  obtain u where u: "item = Object u" "table_ok u" using 4(3) by (cases item) auto
  have l: "lens (\<lambda>w. c (with_array t k (vs @ [Object w]))) (p @ [k])" by (rule lens_array [OF 4(4,6)])
  have "\<exists>cur'. parse_all n F (c (with_array t k (vs @ [Object (own_entries F u)]))) (p @ [k])
        (sections_text F (p @ [k]) u @ tables_text F (p @ [k]) items @ r) =
      parse_all n F (c (with_array t k (vs @ [Object (canon F u)]))) cur' (tables_text F (p @ [k]) items @ r)"
    using 4(1) [OF u(1), where c = "\<lambda>w. c (with_array t k (vs @ [Object w]))" and p = "p @ [k]" and t = "own_entries F u"]
      u l 4(5,7) own_section_disjoint [of u F] by (simp add: canon_def table_ok_def)
  then obtain cur' where body: "parse_all n F (c (with_array t k (vs @ [Object []]))) (p @ [k])
        (scalars_text F u @ sections_text F (p @ [k]) u @ tables_text F (p @ [k]) items @ r) =
      parse_all n F (c (with_array t k (vs @ [Object (canon F u)]))) cur' (tables_text F (p @ [k]) items @ r)"
    using parse_all_body [OF 4(7) l u(2)] by blast
  show ?case
    using 4(2) [where c = c and p = p and k = k and t = t and vs = "vs @ [Object (canon F u)]" and current = cur' and r = r]
      4(3-7) u body parse_all_array_table [OF lens_focus [OF 4(4)] 4(6,5)] by (simp add: canon_def)
qed (auto intro!: exI)

section \<open>Properties\<close>

text \<open>What comes back from the text of a document. A value that is not a table stands under the key \<^verbatim>\<open>value\<close>.\<close>

definition toml_normal :: "'f toml_ops \<Rightarrow> 'f Value \<Rightarrow> 'f Value" where
  "toml_normal F v = (case v of Object kvs \<Rightarrow> Object (canon F kvs) | _ \<Rightarrow> Object [(''value'', tnormal F v)])"

definition toml_ok :: "'f Value \<Rightarrow> bool" where
  "toml_ok v \<longleftrightarrow> (case v of Object kvs \<Rightarrow> table_ok kvs | _ \<Rightarrow> keys_distinct v \<and> strings_valid v \<and> depth_of v \<le> max_depth)"

lemma from_str_all: "toml_from_str F s = parse_all (length s) F [] [] s"
  by (simp only: toml_from_str_def parse_all_def)

lemma toml_document_printed:
  assumes "toml_floats F" and "table_ok kvs"
  shows "toml_from_str F (write_table F [] kvs []) = Some (Ok (Object (canon F kvs)))"
proof -
  have doc: "write_table F [] kvs [] = scalars_text F kvs @ sections_text F [] kvs"
    using write_table_eq(3) [of "[]" "[]" F "[]" kvs] by simp
  have sec: "\<exists>current'. parse_all n F (own_entries F kvs) [] (sections_text F [] kvs @ []) = parse_all n F (canon F kvs) current' []" for n
    using parse_all_sections(1) [OF assms lens_root, of "own_entries F kvs" n "[]" "[]"] assms(2) own_section_disjoint [of kvs F]
    by (simp add: canon_def table_ok_def)
  obtain current' where "parse_all (length (write_table F [] kvs [])) F [] [] (write_table F [] kvs []) =
      parse_all (length (write_table F [] kvs [])) F (canon F kvs) current' []"
    using parse_all_body [OF assms(1) lens_root assms(2) sec] doc by auto
  then show ?thesis by (simp add: from_str_all parse_all_end del: write_table.simps)
qed

lemma value_key: "key_repr ''value'' = ''value''" "text_valid ''value''"
proof -
  show "key_repr ''value'' = ''value''" by (simp add: key_repr_def bare_byte_def is_ascii_alphanumeric_def)
  show "text_valid ''value''" by (rule ascii_valid) simp
qed

lemma toml_value_document:
  assumes "toml_floats F" and "keys_distinct v" and "strings_valid v" and "depth_of v \<le> max_depth"
  shows "toml_from_str F (''value = '' @ inline_text F v @ [CHR 0x0A]) = Some (Ok (Object [(''value'', tnormal F v)]))"
  using parse_all_pair [OF assms(1) value_key(2) assms(2-4) lens_focus [OF lens_root], of "[]" _ "[]"]
  by (simp add: from_str_all parse_all_end value_key)

lemma toml_printed: "toml_floats F \<Longrightarrow> toml_ok v \<Longrightarrow> toml_from_str F (toml_encode F v) = Some (Ok (toml_normal F v))"
  by (cases v) (auto simp: toml_ok_def toml_encode_def toml_normal_def toml_document_printed
      toml_value_document [simplified] write_inline_eq(1) simp del: write_table.simps inline_text.simps tnormal.simps)

interpretation toml: codec "toml_encode F" "toml_from_str F" "toml_normal F" "\<lambda>v. toml_floats F \<and> toml_ok v"
  by unfold_locales (simp add: toml_printed)

lemma int_toml_ok: "toml_floats int_toml"
proof -
  have "float_ops.truncate int_toml = int_floats" by (simp add: int_toml_def float_ops.defs)
  moreover have "f_finite int_toml f" "\<not> f_is_nan int_toml f" "\<not> f_is_infinite int_toml f" for f
    by (simp_all add: int_toml_def float_ops.defs int_floats_def)
  ultimately show ?thesis using int_floats_ok by (simp add: toml_floats_def)
qed

text \<open>C14: Round trip of the TOML codec: the text of every document with distinct keys, whatever the depth of its tables,
  parses back to the document in the order TOML needs (in each table the plain entries before the
  sub-tables and arrays of tables, null entries left out), where inline values nest at most 128 deep.\<close>

theorem toml_round_trip:
  assumes "toml_floats F" and "toml_ok v"
  shows "toml_from_str F (toml_encode F v) = Some (Ok (toml_normal F v))"
  by (rule toml_printed [OF assms])

theorem toml_round_trip_witness:
  "toml_from_str int_toml (toml_encode int_toml (Object [(''db'', Object [(''host'', Str ''h''), (''none'', Null)]),
      (''up'', Bool True), (''l'', Array [Object [], Object [(''a.b'', Array [Null, Str ''x''])]])])) =
   Some (Ok (Object [(''up'', Bool True), (''db'', Object [(''host'', Str ''h'')]),
      (''l'', Array [Object [], Object [(''a.b'', Array [Str [], Str ''x''])]])]))"
proof -
  have "toml_ok (Object [(''db'', Object [(''host'', Str ''h''), (''none'', Null)]),
      (''up'', Bool True), (''l'', Array [Object [], Object [(''a.b'', Array [Null, Str ''x''])]])] :: nat Value)"
    by (simp add: toml_ok_def table_ok_def is_array_of_tables_def max_depth_def ascii_valid
        del: utf8_valid.simps to_bytes_simps)
  then show ?thesis
    using toml_round_trip [OF int_toml_ok] by (simp add: toml_normal_def canon_def is_array_of_tables_def)
qed

end
