(* ===== verification/Codec_Xml.thy ===== *)
theory Codec_Xml
  imports Codec_Toml
begin

text \<open>
  The XML codec of \<^verbatim>\<open>codec/xml.rs\<close>. The encoder appends to \<open>out\<close> in the order of the code. The parser state is
  the input that remains. The program moves its position past the end of the input when a comment or a
  declaration is not closed: there a skip returns \<open>None\<close>, and the slice that follows panics.
\<close>

section \<open>Encoder\<close>

definition xml_escape :: "char \<Rightarrow> string" where
  "xml_escape b =
     (if b = CHR ''<'' then ''&lt;''
      else if b = CHR ''>'' then ''&gt;''
      else if b = CHR ''&'' then ''&amp;''
      else [b])"

text \<open>The loop: \<open>clean\<close> is the run \<^verbatim>\<open>s[start..i]\<close> not yet copied.\<close>

fun escape_text_loop :: "string \<Rightarrow> string \<Rightarrow> string \<Rightarrow> string" where
  "escape_text_loop o1 clean [] = o1 @ clean"
| "escape_text_loop o1 clean (b # bs) =
     (if xml_escape b = [b] then escape_text_loop o1 (clean @ [b]) bs
      else escape_text_loop (o1 @ clean @ xml_escape b) [] bs)"

definition escape_text :: "string \<Rightarrow> string \<Rightarrow> string" where
  "escape_text o1 s = escape_text_loop o1 [] s"

text \<open>The loop over the bytes of \<^verbatim>\<open>Value::Bytes\<close>; the flag is \<^verbatim>\<open>i > 0\<close>.\<close>

fun xml_bytes_loop :: "string \<Rightarrow> bool \<Rightarrow> bytes \<Rightarrow> string" where
  "xml_bytes_loop o1 sep1 [] = o1"
| "xml_bytes_loop o1 sep1 (x # bs) =
     xml_bytes_loop (write_u64 (if sep1 then o1 @ '' '' else o1) (ucast x)) True bs"

fun xml_scalar :: "'f float_ops \<Rightarrow> string \<Rightarrow> 'f Value \<Rightarrow> string" where
  "xml_scalar F o1 Null = o1"
| "xml_scalar F o1 (Bool b) = o1 @ (if b then ''true'' else ''false'')"
| "xml_scalar F o1 (IntV i) = write_i64 o1 i"
| "xml_scalar F o1 (UInt u) = write_u64 o1 u"
| "xml_scalar F o1 (Float f) = write_f64 F o1 f"
| "xml_scalar F o1 (Str s) = escape_text o1 s"
| "xml_scalar F o1 (Bytes b) = xml_bytes_loop o1 False b"
| "xml_scalar F o1 (Array _) = o1"
| "xml_scalar F o1 (Object _) = o1"

abbreviation open_tag :: "string \<Rightarrow> string" where
  "open_tag tag \<equiv> ''<'' @ tag @ ''>''"

abbreviation close_tag :: "string \<Rightarrow> string" where
  "close_tag tag \<equiv> ''</'' @ tag @ ''>''"

function write_children :: "'f float_ops \<Rightarrow> string \<Rightarrow> string \<Rightarrow> 'f Value \<Rightarrow> string"
  and write_members :: "'f float_ops \<Rightarrow> string \<Rightarrow> (string \<times> 'f Value) list \<Rightarrow> string"
  and write_repeated :: "'f float_ops \<Rightarrow> string \<Rightarrow> string \<Rightarrow> 'f Value list \<Rightarrow> string"
  and write_element :: "'f float_ops \<Rightarrow> string \<Rightarrow> string \<Rightarrow> 'f Value \<Rightarrow> string" where
  "write_children F o1 item_tag v = (case v of
     Object kvs \<Rightarrow> write_members F o1 kvs
   | Array vs \<Rightarrow> write_repeated F o1 item_tag vs
   | _ \<Rightarrow> xml_scalar F o1 v)"
| "write_members F o1 [] = o1"
| "write_members F o1 ((k, v) # kvs) = write_members F (write_element F o1 k v) kvs"
| "write_repeated F o1 tag [] = o1"
| "write_repeated F o1 tag (v # vs) = write_repeated F (write_element F o1 tag v) tag vs"
| "write_element F o1 tag v = (case v of
     Array vs \<Rightarrow> if vs = [] then o1 @ open_tag tag @ close_tag tag else write_repeated F o1 tag vs
   | Object _ \<Rightarrow> write_children F (o1 @ open_tag tag) ''item'' v @ close_tag tag
   | Null \<Rightarrow> o1 @ open_tag tag @ close_tag tag
   | _ \<Rightarrow> xml_scalar F (o1 @ open_tag tag) v @ close_tag tag)"
  by pat_completeness auto
termination
  by (relation "measure (\<lambda>x. case x of
        Inl (Inl (F, o1, t, v)) \<Rightarrow> 2 * size v
      | Inl (Inr (F, o1, kvs)) \<Rightarrow> 2 * size (Object kvs) - 1
      | Inr (Inl (F, o1, t, vs)) \<Rightarrow> 2 * size (Array vs) - 1
      | Inr (Inr (F, o1, t, v)) \<Rightarrow> 2 * size v + 1)") auto

declare write_children.simps [simp del] write_element.simps [simp del]

definition xml_encode :: "'f float_ops \<Rightarrow> 'f Value \<Rightarrow> string" where
  "xml_encode F v = write_children F (open_tag ''root'') ''item'' v @ close_tag ''root''"

section \<open>Parser\<close>

subsection \<open>White space, comments and the prolog\<close>

definition xml_ws :: "char \<Rightarrow> bool" where
  "xml_ws b \<longleftrightarrow> b = CHR '' '' \<or> b = CHR 0x09 \<or> b = CHR 0x0A \<or> b = CHR 0x0D"

definition xml_skip_ws :: "string \<Rightarrow> string" where
  "xml_skip_ws r = dropWhile xml_ws r"

text \<open>What follows the next occurrence of a closing mark; \<open>None\<close>: the position is past the end.\<close>

definition skip_past :: "string \<Rightarrow> string \<Rightarrow> string option" where
  "skip_past mark r = map_option snd (split_once_str mark r)"

definition xml_skip_comment :: "string \<Rightarrow> string option" where
  "xml_skip_comment r = skip_past ''-->'' (drop 4 r)"

lemma skip_past_shorter: "skip_past d r = Some r' \<Longrightarrow> d \<noteq> [] \<Longrightarrow> length r' < length r"
  by (auto simp: skip_past_def split_once_str_shorter)

lemma skip_comment_shorter: "xml_skip_comment r = Some r' \<Longrightarrow> length r' < length r"
  using skip_past_shorter [of "''-->''" "drop 4 r" r'] by (simp add: xml_skip_comment_def)

text \<open>\<open>None\<close> is the panic of the slice after an unclosed declaration or comment.\<close>

function skip_prolog :: "string \<Rightarrow> string option" where
  "skip_prolog r =
     (let r = xml_skip_ws r
      in if prefix ''<?'' r then (case skip_past ''?>'' r of None \<Rightarrow> None | Some r' \<Rightarrow> skip_prolog r')
         else if prefix ''<!--'' r then (case xml_skip_comment r of None \<Rightarrow> None | Some r' \<Rightarrow> skip_prolog r')
         else Some r)"
  by pat_completeness auto
termination
proof (relation "measure length", goal_cases)
  case (2 r x x2)
  then show ?case using skip_past_shorter [of "''?>''" x x2] length_dropWhile_le [of xml_ws r] by (simp add: xml_skip_ws_def)
next
  case (3 r x x2)
  then show ?case using skip_comment_shorter [of x x2] length_dropWhile_le [of xml_ws r] by (simp add: xml_skip_ws_def)
qed simp

declare skip_prolog.simps [simp del]

subsection \<open>Names and entities\<close>

definition name_byte :: "char \<Rightarrow> bool" where
  "name_byte b \<longleftrightarrow> is_ascii_alphanumeric b \<or> b = CHR ''_'' \<or> b = CHR ''-'' \<or> b = CHR ''.'' \<or> b = CHR '':'' \<or> 128 \<le> (of_char b :: nat)"

definition read_name :: "string \<Rightarrow> string parsed" where
  "read_name r =
     (if takeWhile name_byte r = [] then Err (Parse ''expected element name'')
      else Ok (takeWhile name_byte r, dropWhile name_byte r))"

text \<open>\<^verbatim>\<open>parse::<u32>()\<close>\<close>

definition parse_u32 :: "string \<Rightarrow> nat option" where
  "parse_u32 s =
     (let d = strip_plus s in if all_digits d \<and> nat_of_digits d < 2 ^ 32 then Some (nat_of_digits d) else None)"

definition char_ref :: "nat option \<Rightarrow> (string, CodecError) result" where
  "char_ref code = (case Option.bind code from_u32 of Some c \<Rightarrow> Ok (utf8 c) | None \<Rightarrow> Err (Parse ''bad char reference''))"

definition entity :: "string \<Rightarrow> (string, CodecError) result" where
  "entity ent =
     (if ent = ''lt'' then Ok ''<''
      else if ent = ''gt'' then Ok ''>''
      else if ent = ''amp'' then Ok ''&''
      else if ent = ''quot'' then Ok [CHR 0x22]
      else if ent = ''apos'' then Ok [CHR 0x27]
      else if prefix ''#x'' ent \<or> prefix ''#X'' ent then char_ref (unsigned_from_radix 32 16 (drop 2 ent))
      else if prefix ''#'' ent then char_ref (parse_u32 (drop 1 ent))
      else Err (Parse (''unknown entity &'' @ ent @ '';'')))"

definition read_entity :: "string \<Rightarrow> string parsed" where
  "read_entity r =
     (let ent = takeWhile (\<lambda>b. b \<noteq> CHR '';'') r
      in case entity ent of
           Err e \<Rightarrow> Err e
         | Ok s \<Rightarrow> Ok (s, drop (length ent + 1) r))"

subsection \<open>Elements\<close>

fun skip_attributes :: "string \<Rightarrow> string" where
  "skip_attributes [] = []"
| "skip_attributes (b # r) = (if b = CHR ''>'' \<or> b = CHR ''/'' \<and> prefix ''>'' r then b # r else skip_attributes r)"

text \<open>\<^verbatim>\<open>push_child\<close>: the first child of that name collects the values of the later ones.\<close>

fun push_child :: "(string \<times> 'f Value) list \<Rightarrow> string \<Rightarrow> 'f Value \<Rightarrow> (string \<times> 'f Value) list" where
  "push_child [] tag v = [(tag, v)]"
| "push_child ((k, w) # cs) tag v =
     (if k = tag then (k, case w of Array a \<Rightarrow> Array (a @ [v]) | _ \<Rightarrow> Array [w, v]) # cs
      else (k, w) # push_child cs tag v)"

definition element_value :: "(string \<times> 'f Value) list \<Rightarrow> string \<Rightarrow> 'f Value" where
  "element_value children tx =
     (if children = [] then (if trim tx = [] then Null else Str (trim tx)) else Object children)"

definition close_element :: "string \<Rightarrow> (string \<times> 'f Value) list \<Rightarrow> string \<Rightarrow> string \<Rightarrow> 'f Value parsed" where
  "close_element tag children tx r =
     (case read_name r of
        Err e \<Rightarrow> Err e
      | Ok (close, r1) \<Rightarrow>
          (case eat (CHR ''>'') (xml_skip_ws r1) of
             None \<Rightarrow> Err (Parse ''malformed close tag'')
           | Some r2 \<Rightarrow>
               if close \<noteq> tag then Err (Parse (''mismatched tags: <'' @ tag @ ''> vs </'' @ close @ ''>''))
               else Ok (element_value children tx, r2)))"

text \<open>The start tag: its name and whether the element has content.\<close>

definition start_tag :: "string \<Rightarrow> (string \<times> bool) parsed" where
  "start_tag r =
     (case eat (CHR ''<'') (xml_skip_ws r) of
        None \<Rightarrow> Err (Parse (''expected '' @ [CHR 0x27] @ ''<'' @ [CHR 0x27] @ '' to start element''))
      | Some r1 \<Rightarrow>
          (case read_name r1 of
             Err e \<Rightarrow> Err e
           | Ok (tag, r2) \<Rightarrow>
               let r3 = skip_attributes r2
               in if prefix ''/>'' r3 then Ok ((tag, False), drop 2 r3)
                  else (case eat (CHR ''>'') r3 of
                    None \<Rightarrow> Err (Parse ''malformed start tag'')
                  | Some r4 \<Rightarrow> Ok ((tag, True), r4))))"

lemma read_name_shorter: "read_name r = Ok (n, r') \<Longrightarrow> length r' < length r"
  using takeWhile_dropWhile_id [of name_byte r]
  by (auto simp: read_name_def split: if_splits) (metis diff_less dropWhile_eq_drop length_drop length_greater_0_conv takeWhile.simps(1))

lemma skip_attributes_le: "length (skip_attributes r) \<le> length r"
  by (induction r) auto

lemma xml_skip_ws_le: "length (xml_skip_ws r) \<le> length r"
  by (simp add: xml_skip_ws_def length_dropWhile_le)

lemma eat_shorter: "eat c r = Some r' \<Longrightarrow> length r' < length r"
  by (auto simp: eat_def split: list.splits if_splits)

lemma start_tag_shorter: "start_tag r = Ok (x, r') \<Longrightarrow> length r' < length r"
  using xml_skip_ws_le [of r]
  by (auto simp: start_tag_def Let_def split: option.splits sum.splits if_splits
      dest!: eat_shorter read_name_shorter) (meson le_less_trans less_imp_le_nat order_less_le_trans skip_attributes_le diff_le_self)+

lemma close_element_shorter: "close_element tag cs tx r = Ok (v, r') \<Longrightarrow> length r' < length r"
proof -
  assume "close_element tag cs tx r = Ok (v, r')"
  then obtain n r1 where "read_name r = Ok (n, r1)" "eat (CHR ''>'') (xml_skip_ws r1) = Some r'"
    by (auto simp: close_element_def split: sum.splits option.splits if_splits)
  then have "length r1 < length r" "length r' < length (xml_skip_ws r1)" by (simp_all add: read_name_shorter eat_shorter)
  then show ?thesis using xml_skip_ws_le [of r1] by linarith
qed

lemma read_entity_le: "read_entity r = Ok (s, r') \<Longrightarrow> length r' \<le> length r"
  by (auto simp: read_entity_def Let_def split: sum.splits)

function xml_element :: "nat \<Rightarrow> string \<Rightarrow> (string \<times> 'f Value) parsed"
  and xml_content :: "nat \<Rightarrow> string \<Rightarrow> (string \<times> 'f Value) list \<Rightarrow> string \<Rightarrow> string \<Rightarrow> 'f Value parsed" where
  "xml_element depth r =
     (case start_tag r of
        Err e \<Rightarrow> Err e
      | Ok ((tag, has_content), r1) \<Rightarrow>
          if \<not> has_content then Ok ((tag, Null), r1)
          else (case xml_content depth tag [] [] r1 of
            Err e \<Rightarrow> Err e
          | Ok (v, r2) \<Rightarrow> Ok ((tag, v), r2)))"
| "xml_content depth tag children tx [] = Err (Parse ''unexpected end of input'')"
| "xml_content depth tag children tx (b # r) =
     (if b = CHR ''<'' then
        if prefix ''!--'' r then
          (case xml_skip_comment (b # r) of
             None \<Rightarrow> Err (Parse ''unexpected end of input'')
           | Some r1 \<Rightarrow> xml_content depth tag children tx r1)
        else if prefix ''/'' r then close_element tag children tx (tl r)
        else if depth + 1 > max_depth then Err (Parse ''nesting too deep'')
        else (case xml_element (depth + 1) (b # r) of
            Err e \<Rightarrow> Err e
          | Ok ((child_tag, child_val), r1) \<Rightarrow> xml_content depth tag (push_child children child_tag child_val) tx r1)
      else if b = CHR ''&'' then
        (case read_entity r of
           Err e \<Rightarrow> Err e
         | Ok (c, r1) \<Rightarrow> xml_content depth tag children (tx @ c) r1)
      else xml_content depth tag children (tx @ [b]) r)"
  by pat_completeness auto

text \<open>Parsing consumes input, so that the recursion ends.\<close>

termination
proof -
  have consumes: "xml_element_xml_content_dom (Inl (depth, r) :: nat \<times> string + nat \<times> string \<times> (string \<times> 'f Value) list \<times> string \<times> string) \<Longrightarrow>
       xml_element depth r = Ok (x :: string \<times> 'f Value, r') \<Longrightarrow> length r' < length r"
    and "xml_element_xml_content_dom (Inr (depth, tag, cs :: (string \<times> 'f Value) list, tx, r)) \<Longrightarrow>
       xml_content depth tag cs tx r = Ok (v, r') \<Longrightarrow> length r' < length r"
    for depth r x r' tag cs tx v
  proof (induction depth r and depth tag cs tx r arbitrary: x r' and v r' rule: xml_element_xml_content.pinduct)
    case (1 depth r)
    have ih: "length r2 < length r1" if "start_tag r = Ok ((tag, True), r1)" "xml_content depth tag [] [] r1 = Ok (v :: 'f Value, r2)" for tag r1 v r2
      using 1(2) [OF that(1) refl refl] that(2) by simp
    note eq = 1(3) [unfolded xml_element.psimps [OF 1(1)]]
    obtain tag has r1 where st: "start_tag r = Ok ((tag, has), r1)" using eq by (auto split: sum.splits)
    show ?case
    proof (cases has)
      case True
      then obtain v where "xml_content depth tag [] [] r1 = Ok (v :: 'f Value, r')" using eq st by (auto split: sum.splits)
      then show ?thesis using ih st True start_tag_shorter [OF st] by fastforce
    next
      case False
      then show ?thesis using eq st start_tag_shorter [OF st] by simp
    qed
  next
    case (2 depth tag children tx)
    then show ?case by (simp add: xml_content.psimps)
  next
    case (3 depth tag children tx b r)
    note eq = 3(7) [unfolded xml_content.psimps(2) [OF 3(1)]]
    consider (comment) r1 where "b = CHR ''<''" "prefix ''!--'' r" "xml_skip_comment (b # r) = Some r1" "xml_content depth tag children tx r1 = Ok (v, r')"
      | (close) "close_element tag children tx (tl r) = Ok (v, r')"
      | (child) t w r1 where "b = CHR ''<''" "\<not> prefix ''!--'' r" "\<not> prefix ''/'' r" "\<not> depth + 1 > max_depth"
          "xml_element (depth + 1) (b # r) = Ok ((t, w), r1)" "xml_content depth tag (push_child children t w) tx r1 = Ok (v, r')"
      | (entity) c r1 where "b \<noteq> CHR ''<''" "b = CHR ''&''" "read_entity r = Ok (c, r1)" "xml_content depth tag children (tx @ c) r1 = Ok (v, r')"
      | (plain) "b \<noteq> CHR ''<''" "b \<noteq> CHR ''&''" "xml_content depth tag children (tx @ [b]) r = Ok (v, r')"
      using eq by (auto split: if_splits sum.splits option.splits)
    then show ?case
    proof cases
      case comment
      then show ?thesis using 3(2) [OF comment(1-4)] skip_comment_shorter [OF comment(3)] by simp
    next
      case close
      then show ?thesis using close_element_shorter [OF close] by (cases r) auto
    next
      case child
      then show ?thesis using 3(3) [OF child(1-5)] 3(4) [OF child(1-5) refl refl child(6)] by simp
    next
      case entity
      then show ?thesis using 3(5) [OF entity(1-3) refl entity(4)] read_entity_le [OF entity(3)] by simp
    next
      case plain
      then show ?thesis using 3(6) [OF plain] by simp
    qed
  qed
  show ?thesis
    by (relation "measure (\<lambda>x. case x of Inl (d, r) \<Rightarrow> 2 * length r | Inr (d, t, cs, tx, r) \<Rightarrow> 2 * length r + 1)")
      (auto dest: consumes start_tag_shorter skip_comment_shorter read_entity_le)
qed

declare xml_element.simps [simp del]

definition xml_from_str :: "string \<Rightarrow> ('f Value, CodecError) result option" where
  "xml_from_str input = (case skip_prolog input of
     None \<Rightarrow> None
   | Some r \<Rightarrow> (case xml_element 0 r of
       Err e \<Rightarrow> Some (Err e)
     | Ok ((tag, v), _) \<Rightarrow> Some (Ok v)))"

end
