(* ===== verification/Codec_Yaml.thy ===== *)
theory Codec_Yaml
  imports Codec_Json Rust_Str
begin

text \<open>
  The YAML codec of \<^verbatim>\<open>codec/yaml.rs\<close>: the block-style encoder and the line-based parser. The encoder appends to \<open>out\<close>
  in the order of the code. The parser works on the lines that remain, \<^verbatim>\<open>lines[*idx..]\<close>; an index past the last
  line would panic, which is the value \<open>None\<close>.
\<close>

section \<open>Encoder\<close>

definition yaml_escape :: "char \<Rightarrow> string" where
  "yaml_escape b =
     (if b = CHR 0x22 then [CHR 0x5C, CHR 0x22]
      else if b = CHR 0x5C then [CHR 0x5C, CHR 0x5C]
      else if b = CHR 0x0A then [CHR 0x5C, CHR ''n'']
      else [b])"

text \<open>The loop: \<open>clean\<close> is the run \<^verbatim>\<open>s[start..i]\<close> not yet copied.\<close>

fun write_quoted_loop :: "string \<Rightarrow> string \<Rightarrow> string \<Rightarrow> string" where
  "write_quoted_loop o1 clean [] = o1 @ clean"
| "write_quoted_loop o1 clean (b # bs) =
     (if yaml_escape b = [b] then write_quoted_loop o1 (clean @ [b]) bs
      else write_quoted_loop (o1 @ clean @ yaml_escape b) [] bs)"

definition write_quoted :: "string \<Rightarrow> string \<Rightarrow> string" where
  "write_quoted o1 s = write_quoted_loop (o1 @ [CHR 0x22]) [] s @ [CHR 0x22]"

definition yaml_special :: "char \<Rightarrow> bool" where
  "yaml_special c \<longleftrightarrow> c = CHR '':'' \<or> c = CHR ''#'' \<or> c = CHR 0x0A \<or> c = CHR 0x22 \<or> c = CHR 0x27"

definition yaml_indicators :: string where
  "yaml_indicators = ''-?[]{}&*!|>%@'' @ [CHR 0x60]"

definition needs_quote :: "'f float_ops \<Rightarrow> string \<Rightarrow> bool" where
  "needs_quote F s \<longleftrightarrow>
     s = [] \<or> s \<noteq> trim s \<or>
     list_ex yaml_special s \<or>
     hd s \<in> set yaml_indicators \<or>
     s = ''null'' \<or> s = ''~'' \<or> s = ''true'' \<or> s = ''false'' \<or>
     parse_i64 s \<noteq> None \<or> f_parse F s \<noteq> None"

definition yaml_key :: "'f float_ops \<Rightarrow> string \<Rightarrow> string \<Rightarrow> string" where
  "yaml_key F o1 k = (if needs_quote F k then write_quoted o1 k else o1 @ k)"

text \<open>The loop over the bytes of \<^verbatim>\<open>Value::Bytes\<close>; the flag is \<^verbatim>\<open>i > 0\<close>.\<close>

fun yaml_bytes_loop :: "string \<Rightarrow> bool \<Rightarrow> bytes \<Rightarrow> string" where
  "yaml_bytes_loop inner sep1 [] = inner"
| "yaml_bytes_loop inner sep1 (x # bs) =
     yaml_bytes_loop (write_u64 (if sep1 then inner @ '','' else inner) (ucast x)) True bs"

fun yaml_write_scalar :: "'f float_ops \<Rightarrow> string \<Rightarrow> 'f Value \<Rightarrow> string" where
  "yaml_write_scalar F o1 Null = o1 @ ''null''"
| "yaml_write_scalar F o1 (Bool b) = o1 @ (if b then ''true'' else ''false'')"
| "yaml_write_scalar F o1 (IntV i) = write_i64 o1 i"
| "yaml_write_scalar F o1 (UInt u) = write_u64 o1 u"
| "yaml_write_scalar F o1 (Float f) = write_f64 F o1 f"
| "yaml_write_scalar F o1 (Str s) = (if needs_quote F s then write_quoted o1 s else o1 @ s)"
| "yaml_write_scalar F o1 (Bytes b) = write_quoted o1 (yaml_bytes_loop [] False b)"
| "yaml_write_scalar F o1 (Array _) = o1 @ ''null''"
| "yaml_write_scalar F o1 (Object _) = o1 @ ''null''"

definition yaml_pad :: "string \<Rightarrow> nat \<Rightarrow> string" where
  "yaml_pad o1 n = o1 @ replicate n (CHR '' '')"

function write_block :: "'f float_ops \<Rightarrow> string \<Rightarrow> 'f Value \<Rightarrow> nat \<Rightarrow> string"
  and write_entries :: "'f float_ops \<Rightarrow> string \<Rightarrow> (string \<times> 'f Value) list \<Rightarrow> nat \<Rightarrow> string"
  and write_elems :: "'f float_ops \<Rightarrow> string \<Rightarrow> 'f Value list \<Rightarrow> nat \<Rightarrow> string"
  and write_after_marker :: "'f float_ops \<Rightarrow> string \<Rightarrow> 'f Value \<Rightarrow> nat \<Rightarrow> string" where
  "write_block F o1 v indent = (case v of
     Object (e # es) \<Rightarrow> write_entries F o1 (e # es) indent
   | Array (x # xs) \<Rightarrow> write_elems F o1 (x # xs) indent
   | _ \<Rightarrow> yaml_write_scalar F (yaml_pad o1 indent) v @ [CHR 0x0A])"
| "write_entries F o1 [] indent = o1"
| "write_entries F o1 ((k, v) # es) indent =
     write_entries F (write_after_marker F (yaml_key F (yaml_pad o1 indent) k @ '':'') v indent) es indent"
| "write_elems F o1 [] indent = o1"
| "write_elems F o1 (v # vs) indent =
     write_elems F (write_after_marker F (yaml_pad o1 indent @ ''-'') v indent) vs indent"
| "write_after_marker F o1 v indent = (case v of
     Object (e # es) \<Rightarrow> write_block F (o1 @ [CHR 0x0A]) v (indent + 2)
   | Array (x # xs) \<Rightarrow> write_block F (o1 @ [CHR 0x0A]) v (indent + 2)
   | Object [] \<Rightarrow> o1 @ '' {}'' @ [CHR 0x0A]
   | Array [] \<Rightarrow> o1 @ '' []'' @ [CHR 0x0A]
   | _ \<Rightarrow> yaml_write_scalar F (o1 @ '' '') v @ [CHR 0x0A])"
  by pat_completeness auto
termination
  by (relation "measure (\<lambda>x. case x of
        Inl (Inl (F, o1, v, n)) \<Rightarrow> 2 * size v
      | Inl (Inr (F, o1, es, n)) \<Rightarrow> 2 * size (Object es) - 1
      | Inr (Inl (F, o1, vs, n)) \<Rightarrow> 2 * size (Array vs) - 1
      | Inr (Inr (F, o1, v, n)) \<Rightarrow> 2 * size v + 1)") auto

declare write_block.simps [simp del] write_after_marker.simps [simp del]

definition yaml_encode :: "'f float_ops \<Rightarrow> 'f Value \<Rightarrow> string" where
  "yaml_encode F v = write_block F [] v 0"

section \<open>Parser\<close>

subsection \<open>Scalars and keys\<close>

fun unquote_loop :: "string \<Rightarrow> string \<Rightarrow> string" where
  "unquote_loop o1 [] = o1"
| "unquote_loop o1 [c] = (if c = CHR 0x5C then o1 else o1 @ [c])"
| "unquote_loop o1 (c # d # r) =
     (if c = CHR 0x5C then
        unquote_loop (o1 @ [if d = CHR ''n'' then CHR 0x0A else if d = CHR ''t'' then CHR 0x09 else d]) r
      else unquote_loop (o1 @ [c]) (d # r))"

text \<open>\<^verbatim>\<open>t.len() >= 2 && t.starts_with(q) && t.ends_with(q)\<close>\<close>

definition wrapped_in :: "char \<Rightarrow> string \<Rightarrow> bool" where
  "wrapped_in q t \<longleftrightarrow> 2 \<le> length t \<and> hd t = q \<and> last t = q"

definition unquote :: "string \<Rightarrow> string" where
  "unquote s =
     (let t = trim s
      in if wrapped_in (CHR 0x22) t then unquote_loop [] (butlast (tl t))
         else if wrapped_in (CHR 0x27) t then butlast (tl t)
         else t)"

text \<open>The loop of \<^verbatim>\<open>mapping_key\<close>: \<open>pre1\<close> is \<^verbatim>\<open>s[..i]\<close>.\<close>

fun mapping_key_loop :: "string \<Rightarrow> string \<Rightarrow> (string \<times> string) option" where
  "mapping_key_loop pre1 [] = None"
| "mapping_key_loop pre1 (b # r) =
     (if b = CHR '':'' \<and> (r = [] \<or> hd r = CHR '' '') then Some (unquote (trim pre1), trim r)
      else mapping_key_loop (pre1 @ [b]) r)"

definition mapping_key :: "string \<Rightarrow> (string \<times> string) option" where
  "mapping_key s = mapping_key_loop [] s"

definition yaml_scalar :: "'f float_ops \<Rightarrow> string \<Rightarrow> 'f Value" where
  "yaml_scalar F s =
     (let t = trim s
      in if wrapped_in (CHR 0x22) t \<or> wrapped_in (CHR 0x27) t then Str (unquote t)
         else if t = [] \<or> t = ''null'' \<or> t = ''~'' then Null
         else if t = ''[]'' then Array []
         else if t = ''{}'' then Object []
         else if t = ''true'' then Bool True
         else if t = ''false'' then Bool False
         else case parse_i64 t of
           Some i \<Rightarrow> IntV i
         | None \<Rightarrow> (case parse_u64 t of
             Some u \<Rightarrow> UInt u
           | None \<Rightarrow> (case f_parse F t of
               Some f \<Rightarrow> Float f
             | None \<Rightarrow> Str t)))"

subsection \<open>Lines\<close>

type_synonym line = "nat \<times> string"

definition preprocess_line :: "string \<Rightarrow> line option" where
  "preprocess_line raw =
     (let content = trim_start raw
      in if content = [] \<or> prefix ''#'' content \<or> content = ''---'' then None
         else Some (length raw - length content, trim_end content))"

definition preprocess :: "string \<Rightarrow> line list" where
  "preprocess input = List.map_filter preprocess_line (str_lines input)"

subsection \<open>Blocks\<close>

type_synonym 'f yaml_res = "('f Value \<times> line list, CodecError) result option"

definition yaml_then :: "'f yaml_res \<Rightarrow> ('f Value \<Rightarrow> line list \<Rightarrow> 'f yaml_res) \<Rightarrow> 'f yaml_res" where
  "yaml_then m f = (case m of None \<Rightarrow> None | Some (Err e) \<Rightarrow> Some (Err e) | Some (Ok (v, ls)) \<Rightarrow> f v ls)"

lemma yaml_then_simps [simp]:
  "yaml_then None f = None" "yaml_then (Some (Err e)) f = Some (Err e)" "yaml_then (Some (Ok (v, ls))) f = f v ls"
  by (simp_all add: yaml_then_def)

lemma yaml_then_Ok: "yaml_then m f = Some (Ok y) \<longleftrightarrow> (\<exists>v ls. m = Some (Ok (v, ls)) \<and> f v ls = Some (Ok y))"
  by (auto simp: yaml_then_def split: option.splits sum.splits)

lemma yaml_then_cong [fundef_cong]:
  "m = m' \<Longrightarrow> (\<And>v ls. m' = Some (Ok (v, ls)) \<Longrightarrow> f v ls = g v ls) \<Longrightarrow> yaml_then m f = yaml_then m' g"
  by (auto simp: yaml_then_def split: option.splits sum.splits)

text \<open>Whether a deeper block follows.\<close>

definition nested_next :: "nat \<Rightarrow> line list \<Rightarrow> bool" where
  "nested_next indent ls \<longleftrightarrow> ls \<noteq> [] \<and> indent < fst (hd ls)"

function yaml_block :: "'f float_ops \<Rightarrow> nat \<Rightarrow> nat \<Rightarrow> line list \<Rightarrow> 'f yaml_res"
  and yaml_mapping :: "'f float_ops \<Rightarrow> nat \<Rightarrow> nat \<Rightarrow> (string \<times> 'f Value) list \<Rightarrow> line list \<Rightarrow> 'f yaml_res"
  and yaml_sequence :: "'f float_ops \<Rightarrow> nat \<Rightarrow> nat \<Rightarrow> 'f Value list \<Rightarrow> line list \<Rightarrow> 'f yaml_res" where
  "yaml_block F indent depth ls =
     (if depth > max_depth then Some (Err (Parse ''nesting too deep''))
      else case ls of
        [] \<Rightarrow> None
      | (ind, content) # r \<Rightarrow>
          if prefix ''-'' content then yaml_sequence F indent depth [] ls
          else if mapping_key content \<noteq> None then yaml_mapping F indent depth [] ls
          else Some (Ok (yaml_scalar F content, r)))"
| "yaml_mapping F indent depth entries ls = (case ls of
     [] \<Rightarrow> Some (Ok (Object entries, []))
   | (ind, content) # r \<Rightarrow>
       if ind < indent \<or> prefix ''-'' content then Some (Ok (Object entries, ls))
       else if ind > indent then Some (Err (Parse ''unexpected indentation in mapping''))
       else case mapping_key content of
         None \<Rightarrow> Some (Err (Parse (''expected '' @ [CHR 0x27] @ ''key: value'' @ [CHR 0x27] @ '', got: '' @ content)))
       | Some (key, rest) \<Rightarrow>
           if rest = [] then
             if nested_next indent r then
               yaml_then (yaml_block F (fst (hd r)) (depth + 1) r)
                 (\<lambda>v r'. yaml_mapping F indent depth (entries @ [(key, v)]) r')
             else yaml_mapping F indent depth (entries @ [(key, Null)]) r
           else yaml_mapping F indent depth (entries @ [(key, yaml_scalar F rest)]) r)"
| "yaml_sequence F indent depth items ls = (case ls of
     [] \<Rightarrow> Some (Ok (Array items, []))
   | (ind, content) # r \<Rightarrow>
       if ind < indent \<or> \<not> prefix ''-'' content then Some (Ok (Array items, ls))
       else if ind > indent then Some (Err (Parse ''unexpected indentation in sequence''))
       else let after = trim_start (tl content)
            in if after = [] then
                 if nested_next indent r then
                   yaml_then (yaml_block F (fst (hd r)) (depth + 1) r)
                     (\<lambda>v r'. yaml_sequence F indent depth (items @ [v]) r')
                 else yaml_sequence F indent depth (items @ [Null]) r
               else case mapping_key after of
                 Some (key, rest) \<Rightarrow> yaml_sequence F indent depth (items @ [Object [(key, yaml_scalar F rest)]]) r
               | None \<Rightarrow> yaml_sequence F indent depth (items @ [yaml_scalar F after]) r)"
  by pat_completeness auto

text \<open>What a block leaves is no longer than what it was given, so that the recursion ends.\<close>

termination
proof -
  have leaves: "yaml_block_yaml_mapping_yaml_sequence_dom (Inl (F, indent, depth, ls)) \<Longrightarrow>
       yaml_block F indent depth ls = Some (Ok (v, ls')) \<Longrightarrow> length ls' \<le> length ls"
    and "yaml_block_yaml_mapping_yaml_sequence_dom (Inr (Inl (F, indent, depth, entries, ls))) \<Longrightarrow>
       yaml_mapping F indent depth entries ls = Some (Ok (v, ls')) \<Longrightarrow> length ls' \<le> length ls"
    and "yaml_block_yaml_mapping_yaml_sequence_dom (Inr (Inr (F, indent, depth, items, ls))) \<Longrightarrow>
       yaml_sequence F indent depth items ls = Some (Ok (v, ls')) \<Longrightarrow> length ls' \<le> length ls"
    for F :: "'f float_ops" and indent depth ls v ls' entries items
  proof (induction F indent depth ls and F indent depth entries ls and F indent depth items ls
      arbitrary: v ls' and v ls' and v ls' rule: yaml_block_yaml_mapping_yaml_sequence.pinduct)
    case (1 F indent depth ls)
    from 1(4) show ?case
      unfolding yaml_block.psimps [OF 1(1)] using 1(2,3)
      by (cases ls) (auto split: if_splits)
  next
    case (2 F indent depth entries ls)
    note eq = 2(6) [unfolded yaml_mapping.psimps [OF 2(1)]]
    show ?case
    proof (cases ls)
      case Nil
      then show ?thesis using eq by simp
    next
      case (Cons l r)
      then obtain ind content where ls: "ls = (ind, content) # r" by (cases l) auto
      note IH = 2(2) [OF ls refl, simplified] 2(3) [OF ls refl, simplified] 2(4) [OF ls refl, simplified] 2(5) [OF ls refl, simplified]
      show ?thesis using eq ls
        by (auto simp: yaml_then_Ok Let_def split: if_splits option.splits)
          (use IH in \<open>fastforce intro: le_SucI order_trans\<close>)+
    qed
  next
    case (3 F indent depth items ls)
    note eq = 3(7) [unfolded yaml_sequence.psimps [OF 3(1)]]
    show ?case
    proof (cases ls)
      case Nil
      then show ?thesis using eq by simp
    next
      case (Cons l r)
      then obtain ind content where ls: "ls = (ind, content) # r" by (cases l) auto
      note IH = 3(2) [OF ls refl, simplified] 3(3) [OF ls refl, simplified] 3(4) [OF ls refl, simplified] 3(5) [OF ls refl, simplified] 3(6) [OF ls refl, simplified]
      show ?thesis using eq ls
        by (auto simp: yaml_then_Ok Let_def split: if_splits option.splits)
          (use IH in \<open>fastforce intro: le_SucI order_trans\<close>)+
    qed
  qed
  show ?thesis
    by (relation "measure (\<lambda>x. case x of
        Inl (F, i, d, ls) \<Rightarrow> 2 * length ls + 1
      | Inr (Inl (F, i, d, es, ls)) \<Rightarrow> 2 * length ls
      | Inr (Inr (F, i, d, es, ls)) \<Rightarrow> 2 * length ls)") (auto dest!: leaves)
qed

declare yaml_block.simps [simp del] yaml_mapping.simps [simp del] yaml_sequence.simps [simp del]

definition yaml_from_str :: "'f float_ops \<Rightarrow> string \<Rightarrow> ('f Value, CodecError) result option" where
  "yaml_from_str F input =
     (let ls = preprocess input
      in if ls = [] then Some (Ok Null)
         else case yaml_block F (fst (hd ls)) 0 ls of
           None \<Rightarrow> None
         | Some (Err e) \<Rightarrow> Some (Err e)
         | Some (Ok (v, _)) \<Rightarrow> Some (Ok v))"

end
