(* ===== verification/Rust_Trim.thy ===== *)
theory Rust_Trim
  imports Rust_Str
begin

text \<open>
  Laws of \<^verbatim>\<open>str::trim\<close> and its variants: when the ends of a string that is put together carry no white space.
\<close>

section \<open>White space at the ends\<close>

definition lead_ok :: "string \<Rightarrow> bool" where
  "lead_ok s \<longleftrightarrow> (\<forall>w\<in>set white_space. \<not> prefix w s)"

definition trail_ok :: "string \<Rightarrow> bool" where
  "trail_ok s \<longleftrightarrow> (\<forall>w\<in>set white_space. \<not> suffix w s)"

lemma trimmed_iff: "trimmed s \<longleftrightarrow> lead_ok s \<and> trail_ok s"
  by (auto simp: trimmed_def lead_ok_def trail_ok_def list_all_iff)

lemma trim_start_lead: "lead_ok s \<Longrightarrow> trim_start s = s"
  by (simp add: trim_start_def lead_ok_def drop_prefixes_id list_all_iff)

lemma trim_end_trail: "trail_ok s \<Longrightarrow> trim_end s = s"
  by (simp add: trim_end_def trail_ok_def drop_prefixes_id list_all_iff suffix_to_prefix)

lemma white_space_literal: "white_space =
   [[CHR 0x09], [CHR 0x0A], [CHR 0x0B], [CHR 0x0C], [CHR 0x0D], [CHR 0x20], [CHR 0xC2, CHR 0x85], [CHR 0xC2, CHR 0xA0], [CHR 0xE1,
    CHR 0x9A, CHR 0x80], [CHR 0xE2, CHR 0x80, CHR 0x80], [CHR 0xE2, CHR 0x80, CHR 0x81], [CHR 0xE2, CHR 0x80, CHR 0x82], [CHR 0xE2,
    CHR 0x80, CHR 0x83], [CHR 0xE2, CHR 0x80, CHR 0x84], [CHR 0xE2, CHR 0x80, CHR 0x85], [CHR 0xE2, CHR 0x80, CHR 0x86], [CHR 0xE2,
    CHR 0x80, CHR 0x87], [CHR 0xE2, CHR 0x80, CHR 0x88], [CHR 0xE2, CHR 0x80, CHR 0x89], [CHR 0xE2, CHR 0x80, CHR 0x8A], [CHR 0xE2,
    CHR 0x80, CHR 0xA8], [CHR 0xE2, CHR 0x80, CHR 0xA9], [CHR 0xE2, CHR 0x80, CHR 0xAF], [CHR 0xE2, CHR 0x81, CHR 0x9F], [CHR 0xE3,
    CHR 0x80, CHR 0x80]]"
  by code_simp

text \<open>Visible ASCII is no part of white space, and a blank is a white space of its own.\<close>

lemma white_visible: "w \<in> set white_space \<Longrightarrow> c \<in> set w \<Longrightarrow> \<not> (32 < (of_char c :: nat) \<and> (of_char c :: nat) < 128)"
  by (auto simp: white_space_literal)

lemma white_blank: "w \<in> set white_space \<Longrightarrow> CHR '' '' \<in> set w \<Longrightarrow> w = '' ''"
  by (auto simp: white_space_literal)

lemma lead_ok_append:
  assumes "lead_ok s" and "32 < (of_char c :: nat)" "(of_char c :: nat) < 128"
  shows "lead_ok (s @ c # r)"
  unfolding lead_ok_def
proof
  fix w assume w: "w \<in> set white_space"
  show "\<not> prefix w (s @ c # r)"
  proof
    assume "prefix w (s @ c # r)"
    then consider "prefix w s" | us where "w = s @ us" "prefix us (c # r)" by (auto simp: prefix_append)
    then show False
    proof cases
      case 1
      then show False using assms(1) w by (simp add: lead_ok_def)
    next
      case 2
      then show False
      proof (cases us)
        case Nil
        then show False using assms(1) w 2 by (auto simp: lead_ok_def)
      next
        case (Cons d us')
        then have "c \<in> set w" using 2 by simp
        then show False using white_visible [OF w] assms(2,3) by blast
      qed
    qed
  qed
qed

lemma trail_ok_append:
  assumes "trail_ok s" and "s \<noteq> []" and "c = CHR '' '' \<or> 32 < (of_char c :: nat) \<and> (of_char c :: nat) < 128"
  shows "trail_ok (r @ c # s)"
  unfolding trail_ok_def
proof
  fix w assume w: "w \<in> set white_space"
  show "\<not> suffix w (r @ c # s)"
  proof
    assume "suffix w (r @ c # s)"
    then obtain zs where "(r @ [c]) @ s = zs @ w" by (auto simp: suffix_def)
    then consider "suffix w s" | us where "w = us @ s" "r @ [c] = zs @ us"
      unfolding append_eq_append_conv2 [of "r @ [c]"] suffix_def by blast
    then show False
    proof cases
      case 1
      then show False using assms(1) w by (simp add: trail_ok_def)
    next
      case 2
      then show False
      proof (cases us rule: rev_cases)
        case Nil
        then show False using assms(1) w 2 by (auto simp: trail_ok_def)
      next
        case (snoc us' d)
        then have "w = us' @ c # s" using 2 by auto
        then have "c \<in> set w" "length w \<noteq> 1" using assms(2) by auto
        then show False using white_visible [OF w] white_blank [OF w] assms(3) by auto
      qed
    qed
  qed
qed

lemma lead_ok_hd: "32 < (of_char c :: nat) \<Longrightarrow> (of_char c :: nat) < 128 \<Longrightarrow> lead_ok (c # r)"
  using lead_ok_append [of "[]" c r] white_space_ne by (auto simp: lead_ok_def)

lemma trail_ok_last: "32 < (of_char c :: nat) \<Longrightarrow> (of_char c :: nat) < 128 \<Longrightarrow> trail_ok (r @ [c])"
  unfolding trail_ok_def
proof (intro ballI notI)
  fix w assume c: "32 < (of_char c :: nat)" "(of_char c :: nat) < 128" and w: "w \<in> set white_space" "suffix w (r @ [c])"
  then have "w \<noteq> []" using white_space_ne by auto
  then have "last w = c" using w(2) by (auto simp: suffix_def) (metis last_appendR last_snoc)
  then have "c \<in> set w" using \<open>w \<noteq> []\<close> by auto
  then show False using white_visible [OF w(1)] c by blast
qed

lemma drop_prefixes_le: "length (drop_prefixes ws s) \<le> length s"
proof (induction ws s rule: drop_prefixes.induct)
  case (1 ws s)
  then show ?case by (subst drop_prefixes.simps) (fastforce split: option.split)
qed

lemma drop_prefixes_fix:
  assumes "drop_prefixes ws s = s" and "[] \<notin> set ws" and "w \<in> set ws"
  shows "\<not> prefix w s"
proof
  assume p: "prefix w s"
  obtain v where v: "find (\<lambda>w. w \<noteq> [] \<and> prefix w s) ws = Some v"
    using p assms(2,3) by (cases "find (\<lambda>w. w \<noteq> [] \<and> prefix w s) ws") (auto simp: find_None_iff)
  then have "v \<noteq> []" "prefix v s" by (auto simp: find_Some_iff)
  then have "length (drop (length v) s) < length s" by (auto simp: prefix_def)
  moreover have "drop_prefixes ws s = drop_prefixes ws (drop (length v) s)" using v by (subst drop_prefixes.simps) simp
  ultimately show False using drop_prefixes_le [of ws "drop (length v) s"] assms(1) by simp
qed

lemma trim_fix: "trim s = s \<Longrightarrow> trimmed s"
proof -
  assume t: "trim s = s"
  have le: "length (trim_end x) \<le> length x" "length (trim_start x) \<le> length x" for x
    using drop_prefixes_le [of "map rev white_space" "rev x"] by (simp_all add: trim_end_def trim_start_def drop_prefixes_le)
  have "suffix (drop_prefixes ws x) x" for ws x
  proof (induction ws x rule: drop_prefixes.induct)
    case (1 ws x)
    then show ?case by (subst drop_prefixes.simps) (auto split: option.split intro: suffix_order.trans suffix_drop)
  qed
  then have suf: "suffix (trim_start s) s" by (simp add: trim_start_def)
  have "length (trim_start s) = length s" using t le(1) [of "trim_start s"] le(2) [of s] by (simp add: trim_def)
  then have st: "trim_start s = s" using suf by (metis suffix_length_less suffix_order.le_less less_irrefl)
  then have en: "trim_end s = s" using t by (simp add: trim_def)
  have ne: "[] \<notin> set (map rev white_space)" using white_space_ne by auto
  have "lead_ok s" using drop_prefixes_fix [OF _ white_space_ne] st by (auto simp: lead_ok_def trim_start_def)
  moreover have "drop_prefixes (map rev white_space) (rev s) = rev s" using en by (simp add: trim_end_def rev_swap)
  then have "trail_ok s" using drop_prefixes_fix [OF _ ne, of "rev s"] by (auto simp: trail_ok_def suffix_to_prefix)
  ultimately show "trimmed s" by (simp add: trimmed_iff)
qed

lemma trim_start_blank: "trim_start (CHR '' '' # s) = trim_start s"
proof -
  have w: "'' '' \<in> set white_space" by (simp add: white_space_literal)
  have "v = '' ''" if "v \<in> set white_space" "v \<noteq> []" "prefix v ('' '' @ s)" for v
  proof -
    have "CHR '' '' \<in> set v" using that(2,3) by (auto simp: prefix_Cons)
    then show ?thesis by (rule white_blank [OF that(1)])
  qed
  then show ?thesis using drop_prefixes_step [OF w, of s] by (simp add: trim_start_def)
qed

lemma trim_Nil [simp]: "trim_start [] = []" "trim [] = []"
proof -
  have "trimmed []" using white_space_ne by (auto simp: trimmed_def list_all_iff)
  then show "trim_start [] = []" "trim [] = []" by (simp_all add: trim_id trim_start_id)
qed

lemma trim_start_blanks: "lead_ok s \<Longrightarrow> trim_start (replicate n (CHR '' '') @ s) = s"
  by (induction n) (simp_all add: trim_start_blank trim_start_lead)

end
