(* ===== verification/Codec_Yaml_Correct.thy ===== *)
theory Codec_Yaml_Correct
  imports Codec_Yaml Codec_Json_Correct Rust_Trim
begin

text \<open>
  The YAML codec reads back what it writes. The text of a value is described by its lines; the lines of a document
  survive the line splitter, and the block parser rebuilds the value from them.
\<close>

section \<open>The text of a value\<close>

definition yquote :: "string \<Rightarrow> string" where
  "yquote s = [CHR 0x22] @ concat (map yaml_escape s) @ [CHR 0x22]"

definition ystring :: "'f float_ops \<Rightarrow> string \<Rightarrow> string" where
  "ystring F s = (if needs_quote F s then yquote s else s)"

fun csv :: "nat list \<Rightarrow> string" where
  "csv [] = []"
| "csv (b # bs) = decimal b @ concat (map (\<lambda>b. '','' @ decimal b) bs)"

text \<open>What stands on a line: scalars and empty containers.\<close>

fun yinline :: "'f float_ops \<Rightarrow> 'f Value \<Rightarrow> string" where
  "yinline F Null = ''null''"
| "yinline F (Bool b) = (if b then ''true'' else ''false'')"
| "yinline F (IntV i) = int_text i"
| "yinline F (UInt u) = decimal (unat u)"
| "yinline F (Float f) = (if f_finite F f then f_display F f else ''null'')"
| "yinline F (Str s) = ystring F s"
| "yinline F (Bytes b) = yquote (csv (map unat b))"
| "yinline F (Array vs) = ''[]''"
| "yinline F (Object kvs) = ''{}''"

fun is_block :: "'f Value \<Rightarrow> bool" where
  "is_block (Array vs) \<longleftrightarrow> vs \<noteq> []"
| "is_block (Object kvs) \<longleftrightarrow> kvs \<noteq> []"
| "is_block _ \<longleftrightarrow> False"

fun block_lines :: "'f float_ops \<Rightarrow> nat \<Rightarrow> 'f Value \<Rightarrow> line list"
  and entry_lines :: "'f float_ops \<Rightarrow> nat \<Rightarrow> (string \<times> 'f Value) list \<Rightarrow> line list"
  and elem_lines :: "'f float_ops \<Rightarrow> nat \<Rightarrow> 'f Value list \<Rightarrow> line list" where
  "block_lines F n (Object kvs) = entry_lines F n kvs"
| "block_lines F n (Array vs) = elem_lines F n vs"
| "block_lines F n v = []"
| "entry_lines F n [] = []"
| "entry_lines F n ((k, v) # es) =
     (if is_block v then (n, ystring F k @ '':'') # block_lines F (n + 2) v else [(n, ystring F k @ '': '' @ yinline F v)]) @
     entry_lines F n es"
| "elem_lines F n [] = []"
| "elem_lines F n (v # vs) =
     (if is_block v then (n, ''-'') # block_lines F (n + 2) v else [(n, ''- '' @ yinline F v)]) @ elem_lines F n vs"

definition line_text :: "line \<Rightarrow> string" where
  "line_text l = replicate (fst l) (CHR '' '') @ snd l @ [CHR 0x0A]"

definition lines_text :: "line list \<Rightarrow> string" where
  "lines_text ls = concat (map line_text ls)"

lemma lines_text_simps [simp]:
  "lines_text [] = []" "lines_text (l # ls) = line_text l @ lines_text ls" "lines_text (ls @ ls') = lines_text ls @ lines_text ls'"
  by (simp_all add: lines_text_def)

lemma write_quoted_loop_eq: "write_quoted_loop o1 clean s = o1 @ clean @ concat (map yaml_escape s)"
  by (induction s arbitrary: o1 clean) simp_all

lemma write_quoted_eq: "write_quoted o1 s = o1 @ yquote s"
  by (simp add: write_quoted_def yquote_def write_quoted_loop_eq)

lemma yaml_bytes_more: "yaml_bytes_loop inner True bs = inner @ concat (map (\<lambda>b. '','' @ decimal (unat b)) bs)"
  by (induction bs arbitrary: inner) (simp_all add: write_u64_eq unat_ucast_byte)

lemma yaml_bytes_eq: "yaml_bytes_loop [] False bs = csv (map unat bs)"
  by (cases bs) (simp_all add: yaml_bytes_more write_u64_eq unat_ucast_byte comp_def)

lemma yaml_write_scalar_eq: "\<not> is_block v \<Longrightarrow> v \<noteq> Array [] \<Longrightarrow> v \<noteq> Object [] \<Longrightarrow> yaml_write_scalar F o1 v = o1 @ yinline F v"
  by (cases v) (simp_all add: write_i64_eq write_u64_eq write_f64_def ystring_def write_quoted_eq yaml_bytes_eq)

lemma yaml_key_eq: "yaml_key F o1 k = o1 @ ystring F k"
  by (simp add: yaml_key_def ystring_def write_quoted_eq)

lemma write_block_eq:
  fixes F :: "'f float_ops"
  shows "is_block v \<Longrightarrow> write_block F o1 v n = o1 @ lines_text (block_lines F n v)"
    and "write_entries F o1 es n = o1 @ lines_text (entry_lines F n es)"
    and "write_elems F o1 vs n = o1 @ lines_text (elem_lines F n vs)"
    and "write_after_marker F o1 v n = o1 @
      (if is_block v then [CHR 0x0A] @ lines_text (block_lines F (n + 2) v) else '' '' @ yinline F v @ [CHR 0x0A])"
proof (induction F o1 v n and F o1 es n and F o1 vs n and F o1 v n
    rule: write_block_write_entries_write_elems_write_after_marker.induct)
  case (1 F o1 v indent)
  then show ?case by (subst write_block.simps) (auto split: Value.splits list.splits)
next
  case (3 F o1 k v es indent)
  then show ?case by (auto simp: yaml_pad_def yaml_key_eq line_text_def)
next
  case (5 F o1 v vs indent)
  then show ?case by (auto simp: yaml_pad_def line_text_def)
next
  case (6 F o1 v indent)
  then show ?case by (subst write_after_marker.simps) (auto simp: write_i64_eq write_u64_eq write_f64_def ystring_def write_quoted_eq yaml_bytes_eq
        split: Value.splits list.splits)
qed simp_all

section \<open>Lines survive the line splitter\<close>

definition line_ok :: "line \<Rightarrow> bool" where
  "line_ok l \<longleftrightarrow> (let c = snd l in c \<noteq> [] \<and> trimmed c \<and> CHR 0x0A \<notin> set c \<and> hd c \<noteq> CHR ''#'' \<and> c \<noteq> ''---'')"

lemma split_lines:
  "list_all (\<lambda>c. CHR 0x0A \<notin> set c) cs \<Longrightarrow> split_on (CHR 0x0A) (concat (map (\<lambda>c. c @ [CHR 0x0A]) cs)) = cs @ [[]]"
  by (induction cs) (simp_all add: split_on_clean)

lemma no_return: "trail_ok c \<Longrightarrow> c \<noteq> [] \<Longrightarrow> last c \<noteq> CHR 0x0D"
proof
  assume c: "trail_ok c" "c \<noteq> []" "last c = CHR 0x0D"
  have "[CHR 0x0D] \<in> set white_space" by (simp add: white_space_literal)
  moreover have "suffix [CHR 0x0D] c" using c(2,3) by (metis append_butlast_last_id suffix_def)
  ultimately show False using c(1) by (auto simp: trail_ok_def)
qed

lemma str_lines_text:
  assumes "list_all line_ok ls"
  shows "str_lines (lines_text ls) = map (\<lambda>l. replicate (fst l) (CHR '' '') @ snd l) ls"
proof -
  let ?cs = "map (\<lambda>l. replicate (fst l) (CHR '' '') @ snd l) ls"
  have "lines_text ls = concat (map (\<lambda>c. c @ [CHR 0x0A]) ?cs)" by (simp add: lines_text_def line_text_def [abs_def] comp_def)
  moreover have "list_all (\<lambda>c. CHR 0x0A \<notin> set c) ?cs" using assms by (auto simp: list_all_iff line_ok_def Let_def)
  ultimately have sp: "split_on (CHR 0x0A) (lines_text ls) = ?cs @ [[]]" by (simp only: split_lines)
  have "last c \<noteq> CHR 0x0D" if "c \<in> set ?cs" for c
    using that assms by (auto simp: list_all_iff line_ok_def Let_def trimmed_iff no_return)
  then have "map (\<lambda>l. if l \<noteq> [] \<and> last l = CHR 0x0D then butlast l else l) ?cs = ?cs" by (intro map_idI) auto
  then show ?thesis by (simp add: str_lines_def sp Let_def)
qed

lemma preprocess_text: "list_all line_ok ls \<Longrightarrow> preprocess (lines_text ls) = ls"
proof -
  assume ok: "list_all line_ok ls"
  have "preprocess_line (replicate (fst l) (CHR '' '') @ snd l) = Some l" if "l \<in> set ls" for l
  proof -
    have l: "snd l \<noteq> []" "trimmed (snd l)" "hd (snd l) \<noteq> CHR ''#''" "snd l \<noteq> ''---''"
      using ok that by (auto simp: list_all_iff line_ok_def Let_def)
    then have "\<not> prefix ''#'' (snd l)" by (cases "snd l") auto
    then show ?thesis using l
      by (simp add: preprocess_line_def Let_def trimmed_iff trim_start_blanks trim_end_trail)
  qed
  then have "List.map_filter (\<lambda>l. preprocess_line (replicate (fst l) (CHR '' '') @ snd l)) ls = ls"
    by (induction ls) (simp_all add: map_filter_simps)
  then show ?thesis by (simp add: preprocess_def str_lines_text [OF ok] map_filter_def filter_map comp_def)
qed

section \<open>Strings and keys\<close>

text \<open>No colon that a mapping could be split at: followed by a blank or last.\<close>

fun no_split :: "string \<Rightarrow> bool" where
  "no_split [] \<longleftrightarrow> True"
| "no_split [c] \<longleftrightarrow> c \<noteq> CHR '':''"
| "no_split (c # d # s) \<longleftrightarrow> \<not> (c = CHR '':'' \<and> d = CHR '' '') \<and> no_split (d # s)"

text \<open>The strings that may stand as keys and as items: they do not contain a colon and a blank.\<close>

definition colon_free :: "string \<Rightarrow> bool" where
  "colon_free s \<longleftrightarrow> no_split (s @ ''x'')"

lemma mapping_key_none: "no_split s \<Longrightarrow> mapping_key_loop p s = None"
  by (induction s arbitrary: p rule: no_split.induct) auto

lemma mapping_key_found:
  "no_split s \<Longrightarrow> r = [] \<or> hd r = CHR '' '' \<Longrightarrow>
     mapping_key_loop p (s @ CHR '':'' # r) = Some (unquote (trim (p @ s)), trim r)"
  by (induction s arbitrary: p rule: no_split.induct) auto

lemma no_split_clean: "CHR '':'' \<notin> set s \<Longrightarrow> no_split s"
  by (induction s rule: no_split.induct) auto

lemma no_split_quote: "colon_free s \<Longrightarrow> no_split (concat (map yaml_escape s) @ [CHR 0x22])"
  unfolding colon_free_def
proof (induction s rule: no_split.induct)
  case (3 c d s)
  have "hd (concat (map yaml_escape (d # s)) @ [CHR 0x22]) = (if yaml_escape d = [d] then d else CHR 0x5C)"
    by (simp add: yaml_escape_def)
  then obtain d' t where t: "concat (map yaml_escape (d # s)) @ [CHR 0x22] = d' # t" and d': "d' = d \<or> d' = CHR 0x5C"
    by (cases "concat (map yaml_escape (d # s)) @ [CHR 0x22]") auto
  have "no_split (d' # t)" using 3 by (simp flip: t)
  then have "no_split (yaml_escape c @ d' # t)" using 3(2) d' by (auto simp: yaml_escape_def)
  then show ?case using t by simp
qed (auto simp: yaml_escape_def)

lemma unquote_plain: "c \<noteq> CHR 0x5C \<Longrightarrow> unquote_loop o1 (c # t) = unquote_loop (o1 @ [c]) t"
  by (cases t) simp_all

lemma unquote_escaped: "unquote_loop o1 (concat (map yaml_escape s)) = o1 @ s"
proof (induction s arbitrary: o1)
  case (Cons c s)
  then show ?case using unquote_plain [of c o1 "concat (map yaml_escape s)"] by (simp add: yaml_escape_def [of c])
qed simp

text \<open>A text that may follow a marker.\<close>

definition tidy :: "string \<Rightarrow> bool" where
  "tidy t \<longleftrightarrow> t \<noteq> [] \<and> trimmed t \<and> CHR 0x0A \<notin> set t"

lemma yquote_tidy: "tidy (yquote s)"
proof -
  have "trail_ok (([CHR 0x22] @ concat (map yaml_escape s)) @ [CHR 0x22])" by (rule trail_ok_last) simp_all
  moreover have "lead_ok (CHR 0x22 # concat (map yaml_escape s) @ [CHR 0x22])" by (rule lead_ok_hd) simp_all
  moreover have "CHR 0x0A \<notin> set (yaml_escape c)" for c by (simp add: yaml_escape_def)
  ultimately show ?thesis by (auto simp: tidy_def trimmed_iff yquote_def)
qed

lemma unquoted:
  assumes "\<not> needs_quote F s"
  shows "s \<noteq> []" "trim s = s" "trimmed s" "CHR '':'' \<notin> set s" "CHR ''#'' \<notin> set s" "CHR 0x0A \<notin> set s" "CHR 0x22 \<notin> set s"
    "CHR 0x27 \<notin> set s" "hd s \<notin> set yaml_indicators" "s \<notin> {''null'', ''~'', ''true'', ''false''}" "parse_i64 s = None" "f_parse F s = None"
proof -
  have "s \<noteq> []" "s = trim s" "\<not> list_ex yaml_special s" "hd s \<notin> set yaml_indicators"
    and n: "s \<notin> {''null'', ''~'', ''true'', ''false''}" "parse_i64 s = None" "f_parse F s = None"
    using assms unfolding needs_quote_def by blast+
  moreover from this(3) have "c \<notin> set s" if "yaml_special c" for c using that by (auto simp: list_ex_iff)
  ultimately show "s \<noteq> []" "trim s = s" "trimmed s" "CHR '':'' \<notin> set s" "CHR ''#'' \<notin> set s" "CHR 0x0A \<notin> set s" "CHR 0x22 \<notin> set s"
    "CHR 0x27 \<notin> set s" "hd s \<notin> set yaml_indicators" by (simp_all add: yaml_special_def trim_fix)
  show "s \<notin> {''null'', ''~'', ''true'', ''false''}" "parse_i64 s = None" "f_parse F s = None" using n by blast+
qed

lemma ystring_tidy: "tidy (ystring F s)"
  using unquoted [of F s] yquote_tidy by (auto simp: ystring_def tidy_def)

lemma ystring_hd: "hd (ystring F s) \<noteq> CHR ''-''" "hd (ystring F s) \<noteq> CHR ''#''"
proof -
  have "hd (ystring F s) \<noteq> CHR ''-'' \<and> hd (ystring F s) \<noteq> CHR ''#''"
  proof (cases "needs_quote F s")
    case False
    then have "hd s \<in> set s" "hd s \<notin> set yaml_indicators" "CHR ''#'' \<notin> set s" by (simp_all add: unquoted)
    then have "hd s \<noteq> CHR ''#''" "hd s \<noteq> CHR ''-''" by (auto simp: yaml_indicators_def)
    then show ?thesis using False by (simp add: ystring_def)
  qed (simp add: ystring_def yquote_def)
  then show "hd (ystring F s) \<noteq> CHR ''-''" "hd (ystring F s) \<noteq> CHR ''#''" by blast+
qed

lemma ystring_no_split: "colon_free s \<Longrightarrow> no_split (ystring F s)"
proof (cases "needs_quote F s")
  case True
  assume "colon_free s"
  then have "no_split (concat (map yaml_escape s) @ [CHR 0x22])" by (rule no_split_quote)
  then have "no_split (CHR 0x22 # concat (map yaml_escape s) @ [CHR 0x22])"
    by (cases "concat (map yaml_escape s) @ [CHR 0x22]") simp_all
  then show ?thesis using True by (simp add: ystring_def yquote_def)
next
  case False
  then show ?thesis using unquoted(4) [OF False] by (simp add: ystring_def no_split_clean)
qed

lemma yquote_wrapped: "wrapped_in (CHR 0x22) (yquote s)"
  by (simp add: wrapped_in_def yquote_def)

lemma unquote_yquote: "unquote (yquote s) = s"
  using yquote_tidy [of s]
  by (simp add: unquote_def tidy_def trim_id yquote_wrapped Let_def) (simp add: yquote_def unquote_escaped butlast_append)

lemma not_wrapped: "q \<notin> set t \<Longrightarrow> \<not> wrapped_in q t"
  by (cases t) (auto simp: wrapped_in_def)

lemma unquote_ystring: "unquote (ystring F s) = s"
proof (cases "needs_quote F s")
  case True
  then show ?thesis by (simp add: ystring_def unquote_yquote)
next
  case False
  then show ?thesis using unquoted(2,7,8) [OF False] by (simp add: ystring_def unquote_def not_wrapped)
qed

lemma mapping_key_line:
  assumes "colon_free k"
  shows "mapping_key (ystring F k @ '':'') = Some (k, [])"
    and "tidy t \<Longrightarrow> mapping_key (ystring F k @ '': '' @ t) = Some (k, t)"
proof -
  have k: "unquote (trim (ystring F k)) = k"
    using ystring_tidy [of F k] by (simp add: tidy_def trim_id unquote_ystring)
  show "mapping_key (ystring F k @ '':'') = Some (k, [])"
    using mapping_key_found [OF ystring_no_split [OF assms], of "[]" "[]" F] by (simp add: mapping_key_def k)
  assume "tidy t"
  then have "trim (CHR '' '' # t) = t" by (simp add: trim_def trim_start_blank tidy_def trim_start_id trim_end_id)
  then show "mapping_key (ystring F k @ '': '' @ t) = Some (k, t)"
    using mapping_key_found [OF ystring_no_split [OF assms], of "CHR '' '' # t" "[]" F] by (simp add: mapping_key_def k)
qed

section \<open>Scalars\<close>

text \<open>What a value becomes: unsigned integers in range and integral floats read as integers, byte strings as text.\<close>

definition yaml_float :: "'f float_ops \<Rightarrow> 'f \<Rightarrow> 'f Value" where
  "yaml_float F f =
     (if \<not> f_finite F f then Null
      else case parse_i64 (f_display F f) of
        Some i \<Rightarrow> IntV i
      | None \<Rightarrow> (case parse_u64 (f_display F f) of Some u \<Rightarrow> UInt u | None \<Rightarrow> Float f))"

fun yaml_normal :: "'f float_ops \<Rightarrow> 'f Value \<Rightarrow> 'f Value"
  and yaml_normal_entries :: "'f float_ops \<Rightarrow> (string \<times> 'f Value) list \<Rightarrow> (string \<times> 'f Value) list"
  and yaml_normal_list :: "'f float_ops \<Rightarrow> 'f Value list \<Rightarrow> 'f Value list" where
  "yaml_normal F (UInt u) = (if unat u < 2 ^ 63 then IntV u else UInt u)"
| "yaml_normal F (Float f) = yaml_float F f"
| "yaml_normal F (Bytes b) = Str (csv (map unat b))"
| "yaml_normal F (Object kvs) = Object (yaml_normal_entries F kvs)"
| "yaml_normal F (Array vs) = Array (yaml_normal_list F vs)"
| "yaml_normal F v = v"
| "yaml_normal_entries F [] = []"
| "yaml_normal_entries F ((k, v) # es) = (k, yaml_normal F v) # yaml_normal_entries F es"
| "yaml_normal_list F [] = []"
| "yaml_normal_list F (v # vs) = yaml_normal F v # yaml_normal_list F vs"

text \<open>What the codec relies on from \<^verbatim>\<open>f64\<close>: \<open>float_ok\<close>, and every text that is a \<^verbatim>\<open>u64\<close> is an \<^verbatim>\<open>f64\<close>.\<close>

definition yaml_floats :: "'f float_ops \<Rightarrow> bool" where
  "yaml_floats F \<longleftrightarrow> float_ok F \<and> (\<forall>s. parse_u64 s \<noteq> None \<longrightarrow> f_parse F s \<noteq> None)"

definition num_byte :: "char \<Rightarrow> bool" where
  "num_byte c \<longleftrightarrow> is_digit c \<or> c = CHR ''-'' \<or> c = CHR ''.''"

lemma num_byte_visible: "num_byte c \<Longrightarrow> 32 < (of_char c :: nat) \<and> (of_char c :: nat) < 128"
  by (auto simp: num_byte_def is_digit_def)

lemma visible_tidy:
  assumes "list_all (\<lambda>c. 32 < (of_char c :: nat) \<and> (of_char c :: nat) < 128) t" and "t \<noteq> []"
  shows "tidy t"
proof -
  have "hd t \<in> set t" "last t \<in> set t" using assms(2) by simp_all
  then have "lead_ok (hd t # tl t)" "trail_ok (butlast t @ [last t])"
    using assms(1) lead_ok_hd trail_ok_last unfolding list_all_iff by blast+
  moreover have "CHR 0x0A \<notin> set t" using assms(1) by (auto simp: list_all_iff)
  ultimately show ?thesis using assms(2) by (simp add: tidy_def trimmed_iff)
qed

lemma num_tidy: "list_all num_byte t \<Longrightarrow> t \<noteq> [] \<Longrightarrow> tidy t"
  using num_byte_visible by (intro visible_tidy) (auto simp: list_all_iff)

lemma num_scalar:
  assumes "list_all num_byte t" and "t \<noteq> []"
  shows "yaml_scalar F t = (case parse_i64 t of Some i \<Rightarrow> IntV i | None \<Rightarrow> (case parse_u64 t of Some u \<Rightarrow> UInt u
    | None \<Rightarrow> (case f_parse F t of Some f \<Rightarrow> Float f | None \<Rightarrow> Str t)))"
proof -
  have "trim t = t" using num_tidy [OF assms] by (simp add: tidy_def trim_id)
  moreover have n: "c \<notin> set t" if "\<not> num_byte c" for c using assms(1) that by (auto simp: list_all_iff)
  then have "\<not> wrapped_in (CHR 0x22) t" "\<not> wrapped_in (CHR 0x27) t"
    by (simp_all add: not_wrapped num_byte_def is_digit_def)
  moreover have "\<not> list_all num_byte x" if "x \<in> {''null'', ''~'', ''[]'', ''{}'', ''true'', ''false''}" for x
    using that by (auto simp: num_byte_def is_digit_def)
  then have "t \<notin> {''null'', ''~'', ''[]'', ''{}'', ''true'', ''false''}" using assms(1) by blast
  ultimately show ?thesis using assms(2) by (simp add: yaml_scalar_def Let_def)
qed

lemma num_digits: "all_digits t \<Longrightarrow> list_all num_byte t \<and> t \<noteq> []"
  by (auto simp: all_digits_def list_all_iff num_byte_def)

lemma num_int_text: "list_all num_byte (int_text i) \<and> int_text i \<noteq> []"
  using num_digits [OF digits_of_decimal] by (auto simp: int_text_def num_byte_def)

lemma num_float:
  assumes "float_ok F" and "f_finite F f"
  shows "list_all num_byte (f_display F f) \<and> f_display F f \<noteq> [] \<and> f_parse F (f_display F f) = Some f"
proof -
  from assms obtain sg ip fp where form: "float_form F f sg ip fp" unfolding float_ok_def by blast
  note form = form [unfolded float_form_def]
  have "list_all num_byte ip" "ip \<noteq> []" using num_digits form by blast+
  moreover have "list_all num_byte fp"
  proof (cases fp)
    case (Cons c r)
    then show ?thesis using form num_digits [of r] by (auto simp: num_byte_def)
  qed simp
  moreover have "list_all num_byte sg" using form by (auto simp: num_byte_def)
  ultimately show ?thesis using form by simp
qed

lemma scalar_word: "t \<in> {''null'', ''true'', ''false'', ''[]'', ''{}''} \<Longrightarrow> tidy t \<and> no_split t \<and> hd t \<notin> {CHR ''-'', CHR ''#''}"
  by (elim insertE emptyE) (simp_all add: visible_tidy)

lemma scalar_string:
  assumes "yaml_floats F"
  shows "yaml_scalar F (ystring F s) = Str s"
proof (cases "needs_quote F s")
  case True
  have "trim (yquote s) = yquote s" using yquote_tidy [of s] by (simp add: tidy_def trim_id)
  then show ?thesis using True by (simp add: yaml_scalar_def ystring_def yquote_wrapped unquote_yquote)
next
  case False
  note u = unquoted [OF False]
  have "parse_u64 s = None" using assms u(12) unfolding yaml_floats_def by (metis)
  moreover have "s \<noteq> ''[]''" "s \<noteq> ''{}''" using u(9) by (auto simp: yaml_indicators_def)
  ultimately show ?thesis using False u(1,2,10,11,12) not_wrapped [OF u(7)] not_wrapped [OF u(8)]
    by (simp add: yaml_scalar_def ystring_def Let_def)
qed

lemma inline_tidy:
  assumes "yaml_floats F"
  shows "tidy (yinline F v)"
proof (cases v)
  case (Float f)
  then show ?thesis using num_float [of F f] num_tidy assms scalar_word [of "''null''"] by (auto simp: yaml_floats_def)
qed (use num_int_text num_digits [OF digits_of_decimal] num_tidy scalar_word ystring_tidy yquote_tidy in auto)

lemma inline_scalar:
  assumes "yaml_floats F" and "\<not> is_block v"
  shows "yaml_scalar F (yinline F v) = yaml_normal F v"
proof -
  have w: "trim t = t" if "t \<in> {''null'', ''true'', ''false'', ''[]'', ''{}''}" for t
    using scalar_word [OF that] by (simp add: tidy_def trim_id)
  have words: "yaml_scalar F ''null'' = Null" "yaml_scalar F ''true'' = Bool True" "yaml_scalar F ''false'' = Bool False"
    "yaml_scalar F ''[]'' = Array []" "yaml_scalar F ''{}'' = Object []"
    by (simp_all add: yaml_scalar_def w wrapped_in_def)
  show ?thesis
  proof (cases v)
    case (IntV i)
    then show ?thesis using num_int_text [of i] integer_text_round_trip [of undefined i]
      by (simp add: num_scalar write_i64_eq)
  next
    case (UInt u)
    have "unat u < 2 ^ 64" using unsigned_less [of u] by simp
    then show ?thesis using UInt num_digits [OF digits_of_decimal [of "unat u"]]
      by (simp add: num_scalar parse_i64_decimal parse_u64_decimal)
  next
    case (Float f)
    then show ?thesis using num_float [of F f] assms(1) words
      by (auto simp: num_scalar yaml_float_def yaml_floats_def split: option.splits)
  next
    case (Str s)
    then show ?thesis using scalar_string [OF assms(1)] by simp
  next
    case (Bytes b)
    have "trim (yquote x) = yquote x" for x using yquote_tidy [of x] by (simp add: tidy_def trim_id)
    then show ?thesis using Bytes by (simp add: yaml_scalar_def yquote_wrapped unquote_yquote)
  qed (use assms(2) words in auto)
qed

section \<open>Documents\<close>

text \<open>Keys and items that the line format can carry.\<close>

fun item_ok :: "'f Value \<Rightarrow> bool" where
  "item_ok (Str s) \<longleftrightarrow> colon_free s"
| "item_ok _ \<longleftrightarrow> True"

fun yaml_safe :: "'f Value \<Rightarrow> bool"
  and entries_safe :: "(string \<times> 'f Value) list \<Rightarrow> bool"
  and items_safe :: "'f Value list \<Rightarrow> bool" where
  "yaml_safe (Object kvs) \<longleftrightarrow> entries_safe kvs"
| "yaml_safe (Array vs) \<longleftrightarrow> items_safe vs"
| "yaml_safe _ \<longleftrightarrow> True"
| "entries_safe [] \<longleftrightarrow> True"
| "entries_safe ((k, v) # es) \<longleftrightarrow> colon_free k \<and> yaml_safe v \<and> entries_safe es"
| "items_safe [] \<longleftrightarrow> True"
| "items_safe (v # vs) \<longleftrightarrow> item_ok v \<and> yaml_safe v \<and> items_safe vs"

text \<open>How deep blocks nest; empty containers and scalars are no blocks.\<close>

fun block_depth :: "'f Value \<Rightarrow> nat"
  and entries_depth :: "(string \<times> 'f Value) list \<Rightarrow> nat"
  and items_depth :: "'f Value list \<Rightarrow> nat" where
  "block_depth (Object kvs) = (if kvs = [] then 0 else Suc (entries_depth kvs))"
| "block_depth (Array vs) = (if vs = [] then 0 else Suc (items_depth vs))"
| "block_depth _ = 0"
| "entries_depth [] = 0"
| "entries_depth ((k, v) # es) = max (block_depth v) (entries_depth es)"
| "items_depth [] = 0"
| "items_depth (v # vs) = max (block_depth v) (items_depth vs)"

lemma block_lines_head: "is_block v \<Longrightarrow> block_lines F n v \<noteq> [] \<and> fst (hd (block_lines F n v)) = n"
  by (cases v) (auto simp: neq_Nil_conv)

lemma entry_lines_head: "es \<noteq> [] \<Longrightarrow> entry_lines F n es \<noteq> [] \<and> fst (hd (entry_lines F n es)) = n"
  using block_lines_head [of "Object es"] by simp

lemma elem_lines_head: "vs \<noteq> [] \<Longrightarrow> elem_lines F n vs \<noteq> [] \<and> fst (hd (elem_lines F n vs)) = n"
  using block_lines_head [of "Array vs"] by simp

text \<open>What follows a block stands further left.\<close>

definition ends_block :: "nat \<Rightarrow> line list \<Rightarrow> bool" where
  "ends_block n ls \<longleftrightarrow> ls = [] \<or> fst (hd ls) < n"

lemma ends_nested: "ends_block n ls \<Longrightarrow> ends_block (n + 2) (entry_lines F n es @ ls) \<and> ends_block (n + 2) (elem_lines F n vs @ ls)"
  using entry_lines_head [of es F n] elem_lines_head [of vs F n]
  by (cases "es = []"; cases "vs = []") (auto simp: ends_block_def)

lemma nested_block: "is_block v \<Longrightarrow> nested_next n (block_lines F (n + 2) v @ ls) \<and> fst (hd (block_lines F (n + 2) v @ ls)) = n + 2"
  using block_lines_head [of v F "n + 2"] by (simp add: nested_next_def)

lemma item_no_split:
  assumes "yaml_floats F" and "item_ok v"
  shows "mapping_key (yinline F v) = None"
proof -
  have num: "no_split t" if "list_all num_byte t" for t
    using that by (intro no_split_clean) (auto simp: list_all_iff num_byte_def is_digit_def)
  have "no_split (yinline F v)"
  proof (cases v)
    case (Float f)
    then show ?thesis using num_float [of F f] num assms(1) scalar_word [of "''null''"] by (auto simp: yaml_floats_def)
  next
    case (Bytes b)
    have "CHR '':'' \<notin> set (decimal k)" for k
      using digits_of_decimal [of k] by (auto simp: all_digits_def list_all_iff is_digit_def)
    then have "CHR '':'' \<notin> set (csv ks)" for ks by (cases ks) auto
    then have "CHR '':'' \<notin> set (yquote (csv (map unat b)))" by (auto simp: yquote_def yaml_escape_def)
    then show ?thesis using Bytes by (simp add: no_split_clean)
  next
    case (Str s)
    then show ?thesis using assms(2) by (simp add: ystring_no_split)
  qed (use num num_int_text num_digits [OF digits_of_decimal] scalar_word in auto)
  then show ?thesis by (simp add: mapping_key_def mapping_key_none)
qed

lemma ystring_not_item: "\<not> prefix ''-'' (ystring F k @ r)"
  using ystring_hd(1) [of F k] ystring_tidy [of F k] by (cases "ystring F k") (auto simp: tidy_def)

lemma mapping_nested:
  assumes "colon_free k" and "is_block v" and "yaml_block F (n + 2) (Suc d) (block_lines F (n + 2) v @ ls) = Some (Ok (w, ls'))"
  shows "yaml_mapping F n d acc ((n, ystring F k @ '':'') # block_lines F (n + 2) v @ ls) = yaml_mapping F n d (acc @ [(k, w)]) ls'"
  using assms nested_block [OF assms(2), of n F ls] ystring_not_item [of F k "[]"]
  by (subst yaml_mapping.simps) (simp add: ystring_not_item mapping_key_line(1))

lemma mapping_inline:
  assumes "yaml_floats F" and "colon_free k" and "\<not> is_block v"
  shows "yaml_mapping F n d acc ((n, ystring F k @ '': '' @ yinline F v) # ls) = yaml_mapping F n d (acc @ [(k, yaml_normal F v)]) ls"
  using mapping_key_line(2) [OF assms(2) inline_tidy [OF assms(1)], of F v] inline_tidy [OF assms(1), of v]
    ystring_not_item [of F k] inline_scalar [OF assms(1,3)]
  by (subst yaml_mapping.simps) (simp add: tidy_def)

lemma sequence_nested:
  assumes "is_block v" and "yaml_block F (n + 2) (Suc d) (block_lines F (n + 2) v @ ls) = Some (Ok (w, ls'))"
  shows "yaml_sequence F n d acc ((n, ''-'') # block_lines F (n + 2) v @ ls) = yaml_sequence F n d (acc @ [w]) ls'"
  using assms nested_block [OF assms(1), of n F ls] by (subst yaml_sequence.simps) (simp add: Let_def)

lemma sequence_inline:
  assumes "yaml_floats F" and "item_ok v" and "\<not> is_block v"
  shows "yaml_sequence F n d acc ((n, ''- '' @ yinline F v) # ls) = yaml_sequence F n d (acc @ [yaml_normal F v]) ls"
  using inline_tidy [OF assms(1), of v] item_no_split [OF assms(1,2)] inline_scalar [OF assms(1,3)]
  by (subst yaml_sequence.simps) (simp add: trim_start_blank trim_start_id tidy_def)

lemma mapping_ends: "ends_block n ls \<Longrightarrow> yaml_mapping F n d acc ls = Some (Ok (Object acc, ls))"
  by (subst yaml_mapping.simps) (cases ls; auto simp: ends_block_def)

lemma sequence_ends: "ends_block n ls \<Longrightarrow> yaml_sequence F n d acc ls = Some (Ok (Array acc, ls))"
  by (subst yaml_sequence.simps) (cases ls; auto simp: ends_block_def)

lemma entry_head:
  assumes "yaml_floats F" and "es \<noteq> []" and "entries_safe es"
  obtains c r where "entry_lines F n es = (n, c) # r" "\<not> prefix ''-'' c" "mapping_key c \<noteq> None"
proof -
  obtain k v es' where es: "es = (k, v) # es'" using assms(2) by (cases es) auto
  then have k: "colon_free k" using assms(3) by simp
  show thesis
  proof (cases "is_block v")
    case True
    then show thesis using that es ystring_not_item [of F k "[]"] mapping_key_line(1) [OF k, of F] by simp
  next
    case False
    then show thesis using that es ystring_not_item [of F k] mapping_key_line(2) [OF k inline_tidy [OF assms(1)], of F v] by simp
  qed
qed

lemma elem_head:
  assumes "vs \<noteq> []"
  obtains c r where "elem_lines F n vs = (n, c) # r" "prefix ''-'' c"
proof -
  obtain v vs' where "vs = v # vs'" using assms by (cases vs) auto
  then show thesis using that by (cases "is_block v") simp_all
qed

lemma yaml_parse_lines:
  fixes F :: "'f float_ops"
  assumes F: "yaml_floats F"
  shows "is_block v \<Longrightarrow> yaml_safe v \<Longrightarrow> d + block_depth v \<le> Suc max_depth \<Longrightarrow> ends_block n ls \<Longrightarrow>
      yaml_block F n d (block_lines F n v @ ls) = Some (Ok (yaml_normal F v, ls))"
    and "entries_safe es \<Longrightarrow> d + entries_depth es \<le> max_depth \<Longrightarrow> ends_block n ls \<Longrightarrow>
      yaml_mapping F n d acc (entry_lines F n es @ ls) = Some (Ok (Object (acc @ yaml_normal_entries F es), ls))"
    and "items_safe vs \<Longrightarrow> d + items_depth vs \<le> max_depth \<Longrightarrow> ends_block n ls \<Longrightarrow>
      yaml_sequence F n d items (elem_lines F n vs @ ls) = Some (Ok (Array (items @ yaml_normal_list F vs), ls))"
proof (induction v and es and vs arbitrary: n d ls and n d ls acc and n d ls items rule: yaml_safe_entries_safe_items_safe.induct)
  case (1 kvs)
  then have kvs: "kvs \<noteq> []" "entries_safe kvs" by simp_all
  obtain c r where hd: "entry_lines F n kvs = (n, c) # r" "\<not> prefix ''-'' c" "mapping_key c \<noteq> None"
    by (rule entry_head [OF F kvs])
  have "yaml_mapping F n d [] (entry_lines F n kvs @ ls) = Some (Ok (Object (yaml_normal_entries F kvs), ls))"
    using 1 kvs by (subst "1.IH") simp_all
  then show ?case using 1(4) hd kvs by (subst yaml_block.simps) simp
next
  case (2 vs)
  then have vs: "vs \<noteq> []" by simp
  obtain c r where hd: "elem_lines F n vs = (n, c) # r" "prefix ''-'' c" by (rule elem_head [OF vs])
  have "yaml_sequence F n d [] (elem_lines F n vs @ ls) = Some (Ok (Array (yaml_normal_list F vs), ls))"
    using 2 vs by (subst "2.IH") simp_all
  then show ?case using 2(4) hd vs by (subst yaml_block.simps) simp
next
  case (4 n d ls acc)
  then show ?case by (simp add: mapping_ends)
next
  case (5 k v es)
  note ih = "5.IH"(2) [of d n ls]
  show ?case
  proof (cases "is_block v")
    case True
    have "yaml_block F (n + 2) (Suc d) (block_lines F (n + 2) v @ entry_lines F n es @ ls) =
        Some (Ok (yaml_normal F v, entry_lines F n es @ ls))"
      using 5 True ends_nested [OF 5(5), of F es] by (intro "5.IH"(1)) simp_all
    then show ?thesis using True 5 mapping_nested [of k v F n d "entry_lines F n es @ ls"] by (simp add: ih)
  next
    case False
    then show ?thesis using 5 mapping_inline [OF F _ False, of k n d acc "entry_lines F n es @ ls"] by (simp add: ih)
  qed
next
  case (6 n d ls items)
  then show ?case by (simp add: sequence_ends)
next
  case (7 v vs)
  note ih = "7.IH"(2) [of d n ls]
  show ?case
  proof (cases "is_block v")
    case True
    have "yaml_block F (n + 2) (Suc d) (block_lines F (n + 2) v @ elem_lines F n vs @ ls) =
        Some (Ok (yaml_normal F v, elem_lines F n vs @ ls))"
      using 7 True ends_nested [OF 7(5), of F "[]" vs] by (intro "7.IH"(1)) simp_all
    then show ?thesis using True 7 sequence_nested [of v F n d "elem_lines F n vs @ ls"] by (simp add: ih)
  next
    case False
    then show ?thesis using 7 sequence_inline [OF F _ False, of n d items "elem_lines F n vs @ ls"] by (simp add: ih)
  qed
qed simp_all

lemma tidy_marked:
  assumes "tidy t"
  shows "line_ok (n, ''- '' @ t)" and "line_ok (n, ystring F k @ '': '' @ t)" and "line_ok (n, ystring F k @ '':'')" and "line_ok (n, ''-'')"
proof -
  have t: "t \<noteq> []" "trail_ok t" "CHR 0x0A \<notin> set t" using assms by (simp_all add: tidy_def trimmed_iff)
  have k: "ystring F k \<noteq> []" "lead_ok (ystring F k)" "CHR 0x0A \<notin> set (ystring F k)"
    using ystring_tidy [of F k] by (simp_all add: tidy_def trimmed_iff)
  have hd: "hd (ystring F k @ r) = hd (ystring F k)" for r using k(1) by simp
  have m: "ystring F k @ r \<noteq> ''---''" for r using ystring_hd(1) [of F k] hd [of r] by (metis list.sel(1))
  have "trail_ok (''-'' @ CHR '' '' # t)" "trail_ok ((ystring F k @ '':'') @ CHR '' '' # t)"
    using trail_ok_append [OF t(2,1)] by blast+
  moreover have "lead_ok (CHR ''-'' # CHR '' '' # t)" by (rule lead_ok_hd) simp_all
  moreover have "''- '' @ t \<noteq> ''---''" by simp
  ultimately show "line_ok (n, ''- '' @ t)" using t by (simp add: line_ok_def trimmed_iff)
  have "lead_ok (ystring F k @ CHR '':'' # r)" for r using lead_ok_append [OF k(2), of "CHR '':''" r] by simp
  moreover have "trail_ok (ystring F k @ '':'')" by (rule trail_ok_last) simp_all
  ultimately show "line_ok (n, ystring F k @ '': '' @ t)" "line_ok (n, ystring F k @ '':'')"
    using \<open>trail_ok ((ystring F k @ '':'') @ CHR '' '' # t)\<close> t(3) k m ystring_hd(2) [of F k]
    by (simp_all add: line_ok_def trimmed_iff hd)
  have "trimmed ''-''" using lead_ok_hd [of "CHR ''-''" "[]"] trail_ok_last [of "CHR ''-''" "[]"] by (simp add: trimmed_iff)
  then show "line_ok (n, ''-'')" by (simp add: line_ok_def)
qed

lemma block_lines_ok:
  fixes F :: "'f float_ops"
  assumes "yaml_floats F"
  shows "list_all line_ok (block_lines F n v)"
    and "list_all line_ok (entry_lines F n es)"
    and "list_all line_ok (elem_lines F n vs)"
proof (induction v and es and vs arbitrary: n and n and n rule: yaml_safe_entries_safe_items_safe.induct)
qed (use tidy_marked [OF inline_tidy [OF assms]] in auto)

text \<open>A document that is no block must not read as one.\<close>

fun scalar_doc :: "'f float_ops \<Rightarrow> 'f Value \<Rightarrow> bool" where
  "scalar_doc F (IntV i) \<longleftrightarrow> 0 \<le> sint i"
| "scalar_doc F (Float f) \<longleftrightarrow> \<not> (f_finite F f \<and> prefix ''-'' (f_display F f))"
| "scalar_doc F (Str s) \<longleftrightarrow> colon_free s"
| "scalar_doc F (Array vs) \<longleftrightarrow> False"
| "scalar_doc F (Object kvs) \<longleftrightarrow> False"
| "scalar_doc F _ \<longleftrightarrow> True"

definition yaml_ok :: "'f float_ops \<Rightarrow> 'f Value \<Rightarrow> bool" where
  "yaml_ok F v \<longleftrightarrow> is_block v \<and> yaml_safe v \<and> block_depth v \<le> Suc max_depth \<or> scalar_doc F v"

lemma yaml_block_doc:
  assumes "yaml_floats F" "is_block v" "yaml_safe v" "block_depth v \<le> Suc max_depth"
  shows "yaml_from_str F (yaml_encode F v) = Some (Ok (yaml_normal F v))"
proof -
  have "yaml_encode F v = lines_text (block_lines F 0 v)" using assms(2) by (simp add: yaml_encode_def write_block_eq(1))
  then have p: "preprocess (yaml_encode F v) = block_lines F 0 v" using block_lines_ok(1) [OF assms(1)] by (simp add: preprocess_text)
  have "yaml_block F 0 0 (block_lines F 0 v @ []) = Some (Ok (yaml_normal F v, []))"
    using assms by (intro yaml_parse_lines(1)) (simp_all add: ends_block_def)
  then show ?thesis using p block_lines_head [OF assms(2), of F 0] by (simp add: yaml_from_str_def Let_def)
qed

lemma scalar_doc_head:
  assumes "yaml_floats F" and "scalar_doc F v"
  shows "hd (yinline F v) \<notin> {CHR ''-'', CHR ''#''}"
proof -
  have dec: "hd (decimal n) \<notin> {CHR ''-'', CHR ''#''}" for n
  proof -
    have "is_digit (hd (decimal n))" using digits_of_decimal [of n] by (simp add: all_digits_def list_all_iff)
    then show ?thesis by (auto simp: is_digit_def)
  qed
  have q: "hd (yquote s) \<notin> {CHR ''-'', CHR ''#''}" for s by (simp add: yquote_def)
  show ?thesis
  proof (cases v)
    case (Float f)
    show ?thesis
    proof (cases "f_finite F f")
      case True
      then have d: "list_all num_byte (f_display F f)" "f_display F f \<noteq> []" using num_float [of F f] assms(1) by (simp_all add: yaml_floats_def)
      then have "num_byte (hd (f_display F f))" by (simp add: list_all_iff)
      moreover have "\<not> num_byte (CHR ''#'')" by (simp add: num_byte_def is_digit_def)
      moreover have "hd (f_display F f) \<noteq> CHR ''-''" using assms(2) Float True d(2) by (cases "f_display F f") auto
      ultimately show ?thesis using Float True by auto
    qed (simp add: Float)
  next
    case (Str x)
    then show ?thesis using ystring_hd [of F x] by simp
  qed (use assms(2) dec q in \<open>auto simp: int_text_def\<close>)
qed

lemma yaml_scalar_doc:
  assumes "yaml_floats F" "scalar_doc F v"
  shows "yaml_from_str F (yaml_encode F v) = Some (Ok (yaml_normal F v))"
proof -
  have nb: "\<not> is_block v" "item_ok v" using assms(2) by (cases v; simp)+
  have h: "hd (yinline F v) \<noteq> CHR ''-''" "hd (yinline F v) \<noteq> CHR ''#''" using scalar_doc_head [OF assms] by auto
  have t: "yinline F v \<noteq> []" "tidy (yinline F v)" using inline_tidy [OF assms(1), of v] by (simp_all add: tidy_def)
  have m: "\<not> prefix ''-'' (yinline F v)" "yinline F v \<noteq> ''---''" using h t(1) by (cases "yinline F v"; auto)+
  have ok: "list_all line_ok [(0, yinline F v)]" using t m h by (simp add: line_ok_def tidy_def)
  have "yaml_encode F v = lines_text [(0, yinline F v)]"
    using assms(2) yaml_write_scalar_eq [of v F "[]"] nb
    by (cases v) (simp_all add: yaml_encode_def write_block.simps yaml_pad_def line_text_def)
  then have "preprocess (yaml_encode F v) = [(0, yinline F v)]" using preprocess_text [OF ok] by simp
  then show ?thesis using m item_no_split [OF assms(1) nb(2)] inline_scalar [OF assms(1) nb(1)]
    by (simp add: yaml_from_str_def yaml_block.simps)
qed

lemma yaml_printed: "yaml_floats F \<Longrightarrow> yaml_ok F v \<Longrightarrow> yaml_from_str F (yaml_encode F v) = Some (Ok (yaml_normal F v))"
  using yaml_block_doc yaml_scalar_doc unfolding yaml_ok_def by blast

interpretation yaml: codec "yaml_encode F" "yaml_from_str F" "yaml_normal F" "\<lambda>v. yaml_floats F \<and> yaml_ok F v"
  by unfold_locales (simp add: yaml_printed)

section \<open>The parser on every input\<close>

lemma yaml_no_panic:
  "ls \<noteq> [] \<Longrightarrow> yaml_block F n d ls \<noteq> None"
  "yaml_mapping F n d acc ls \<noteq> None"
  "yaml_sequence F n d items ls \<noteq> None"
proof (induction F n d ls and F n d acc ls and F n d items ls rule: yaml_block_yaml_mapping_yaml_sequence.induct)
  case (1 F indent depth ls)
  then show ?case by (subst yaml_block.simps) (auto split: list.split)
next
  case (2 F indent depth entries ls)
  then show ?case
    by (subst yaml_mapping.simps) (auto simp: yaml_then_def nested_next_def split: list.split option.split sum.split, blast)
next
  case (3 F indent depth items ls)
  then show ?case
    by (subst yaml_sequence.simps) (auto simp: yaml_then_def nested_next_def Let_def split: list.split option.split sum.split, blast+)
qed

section \<open>Properties\<close>

text \<open>C15: The YAML codec: the parser returns a value or an error on every input (it never indexes past the
  last line), and the text of a document parses back to its normal form in these cases: a sequence or mapping that is not
  empty, whose blocks nest at most 129 deep and in which no key and no string that is an item of a sequence contains a colon
  followed by a blank; or a lone scalar that is not a negative number and, if it is a string, contains no colon followed
  by a blank. Not covered are an empty sequence or mapping as the whole document, and the misreadings
  \<open>quoted_item_misread\<close>, \<open>negative_document_misread\<close> and \<open>empty_document_lost\<close> below. The normal form takes floats that print as
  integers for integers, and bytes for the string of their numbers.\<close>

theorem yaml_round_trip:
  assumes "yaml_floats F" and "yaml_ok F v"
  shows "yaml_from_str F (yaml_encode F v) = Some (Ok (yaml_normal F v)) \<and> (\<forall>input. yaml_from_str F input \<noteq> None)"
proof -
  have "yaml_from_str F input \<noteq> None" for input
    using yaml_no_panic(1) [of "preprocess input" F "fst (hd (preprocess input))" 0]
    unfolding yaml_from_str_def Let_def by (cases "preprocess input = []") (simp_all split: option.split sum.split)
  then show ?thesis using yaml_printed [OF assms] by blast
qed

text \<open>A number type whose texts may carry a plus sign, as those of \<^verbatim>\<open>f64\<close>.\<close>

definition plus_floats :: "nat float_ops" where
  "plus_floats = int_floats\<lparr>f_parse := (\<lambda>s. f_parse int_floats (strip_plus s))\<rparr>"

lemma plus_floats_ok: "yaml_floats plus_floats"
proof -
  have sp: "strip_plus (sg @ ip @ fp) = sg @ ip @ fp" if "sg = [] \<or> sg = ''-''" "all_digits ip" for sg ip fp
    using that by (cases ip) (auto simp: strip_plus_def all_digits_def is_digit_def)
  have "float_form plus_floats f sg ip fp" if "float_form int_floats f sg ip fp" for f sg ip fp
    using that sp by (auto simp: float_form_def plus_floats_def)
  then have "float_ok plus_floats" using int_floats_ok unfolding float_ok_def by (metis plus_floats_def float_ops.select_convs(1) float_ops.update_convs(3) float_ops.surjective)
  moreover have "f_parse plus_floats s \<noteq> None" if "parse_u64 s \<noteq> None" for s
  proof -
    have d: "all_digits (strip_plus s)" using that by (auto simp: parse_u64_def Let_def split: if_splits)
    then have t: "takeWhile is_digit (strip_plus s) = strip_plus s" by (simp add: all_digits_def list_all_iff takeWhile_eq_all_conv)
    show ?thesis using d by (simp add: plus_floats_def int_floats_def Let_def t del: takeWhile_eq_all_conv)
  qed
  ultimately show ?thesis by (simp add: yaml_floats_def)
qed

theorem yaml_round_trip_witness:
  "yaml_from_str plus_floats (yaml_encode plus_floats (Object [(''a:b'', Str ''true''), (''l'', Array [Array [], Str ''- x'',
      Object [(''k'', Bytes [1, 2]), (''n'', Null)]])])) =
   Some (Ok (Object [(''a:b'', Str ''true''), (''l'', Array [Array [], Str ''- x'', Object [(''k'', Str ''1,2''), (''n'', Null)]])]))"
proof -
  have c: "decimal (Suc 0) = ''1''" "decimal 2 = ''2''" by (simp_all add: decimal.simps digit_char_def char_of_def bit_Suc_0_iff)
  show ?thesis
    using yaml_round_trip [OF plus_floats_ok, of "Object [(''a:b'', Str ''true''), (''l'', Array [Array [], Str ''- x'',
      Object [(''k'', Bytes [1, 2]), (''n'', Null)]])]"]
    by (simp add: yaml_ok_def colon_free_def max_depth_def c)
qed

text \<open>A colon and a blank inside quotes are taken for a mapping, a lone negative number for a sequence, and what
  follows the first block is dropped.\<close>

lemma quoted_item_misread:
  assumes "preprocess input = [(0, ''- '' @ yquote ''a: b'')]"
  shows "yaml_from_str F input = Some (Ok (Array [Object [([CHR 0x22] @ ''a'', yaml_scalar F (''b'' @ [CHR 0x22]))]]))"
proof -
  have t: "trim (CHR '' '' # x) = x" "trim_start (CHR '' '' # x) = x" "trim x = x" if "tidy x" for x
    using that by (simp_all add: trim_def trim_start_blank tidy_def trim_start_id trim_end_id)
  have "tidy [CHR ''b'', CHR 0x22]" "tidy [CHR 0x22, CHR ''a'']" by (simp_all add: visible_tidy)
  moreover have "yquote ''a: b'' = [CHR 0x22] @ ''a: b'' @ [CHR 0x22]" by (simp add: yquote_def yaml_escape_def)
  ultimately show ?thesis using assms t [OF yquote_tidy [of "''a: b''"]]
    by (simp add: yaml_from_str_def yaml_block.simps yaml_sequence.simps mapping_key_def t unquote_def wrapped_in_def)
qed

lemma negative_document_misread:
  assumes "preprocess input = [(0, ''-5'')]"
  shows "yaml_from_str F input = Some (Ok (Array [yaml_scalar F ''5'']))"
proof -
  have "tidy ''5''" by (simp add: visible_tidy)
  then show ?thesis using assms
    by (simp add: yaml_from_str_def yaml_block.simps yaml_sequence.simps mapping_key_def tidy_def trim_start_id)
qed

lemma rest_of_document_dropped:
  assumes "preprocess input = (0, ''a: x'') # (0, ''- b'') # ls"
  shows "yaml_from_str F input = Some (Ok (Object [(''a'', yaml_scalar F ''x'')]))"
proof -
  have t: "trim (CHR '' '' # x) = x" "trim x = x" if "tidy x" for x
    using that by (simp_all add: trim_def trim_start_blank tidy_def trim_start_id trim_end_id)
  have "tidy ''x''" "tidy ''a''" by (simp_all add: visible_tidy)
  then show ?thesis using assms
    by (simp add: yaml_from_str_def yaml_block.simps yaml_mapping.simps mapping_key_def t unquote_def wrapped_in_def)
qed

text \<open>An empty sequence or mapping as the whole document is written as \<^verbatim>\<open>null\<close>.\<close>

lemma empty_document_lost:
  "yaml_encode F (Array []) = yaml_encode F Null" "yaml_encode F (Object []) = yaml_encode F Null"
  by (simp_all add: yaml_encode_def write_block.simps)

end
