(* ===== verification/Codec_Xml_Correct.thy ===== *)
theory Codec_Xml_Correct
  imports Codec_Xml Codec_Yaml_Correct
begin

text \<open>
  The XML codec reads back what it writes, up to the normal form of its convention: scalars become trimmed text,
  arrays repeated elements.
\<close>

section \<open>The text of a value\<close>

fun ssv :: "nat list \<Rightarrow> string" where
  "ssv [] = []"
| "ssv (b # bs) = decimal b @ concat (map (\<lambda>b. '' '' @ decimal b) bs)"

text \<open>The text of a scalar before escaping.\<close>

fun xml_raw :: "'f float_ops \<Rightarrow> 'f Value \<Rightarrow> string" where
  "xml_raw F (Bool b) = (if b then ''true'' else ''false'')"
| "xml_raw F (IntV i) = int_text i"
| "xml_raw F (UInt u) = decimal (unat u)"
| "xml_raw F (Float f) = (if f_finite F f then f_display F f else ''null'')"
| "xml_raw F (Str s) = s"
| "xml_raw F (Bytes b) = ssv (map unat b)"
| "xml_raw F _ = []"

fun xml_inline :: "'f float_ops \<Rightarrow> 'f Value \<Rightarrow> string" where
  "xml_inline F (Str s) = concat (map xml_escape s)"
| "xml_inline F v = xml_raw F v"

fun element_text :: "'f float_ops \<Rightarrow> string \<Rightarrow> 'f Value \<Rightarrow> string"
  and xml_members_text :: "'f float_ops \<Rightarrow> (string \<times> 'f Value) list \<Rightarrow> string"
  and repeated_text :: "'f float_ops \<Rightarrow> string \<Rightarrow> 'f Value list \<Rightarrow> string" where
  "element_text F tag (Object kvs) = open_tag tag @ xml_members_text F kvs @ close_tag tag"
| "element_text F tag (Array vs) = (if vs = [] then open_tag tag @ close_tag tag else repeated_text F tag vs)"
| "element_text F tag v = open_tag tag @ xml_inline F v @ close_tag tag"
| "xml_members_text F [] = []"
| "xml_members_text F ((k, v) # kvs) = element_text F k v @ xml_members_text F kvs"
| "repeated_text F tag [] = []"
| "repeated_text F tag (v # vs) = element_text F tag v @ repeated_text F tag vs"

definition children_text :: "'f float_ops \<Rightarrow> string \<Rightarrow> 'f Value \<Rightarrow> string" where
  "children_text F tag v = (case v of Object kvs \<Rightarrow> xml_members_text F kvs | Array vs \<Rightarrow> repeated_text F tag vs | _ \<Rightarrow> xml_inline F v)"

lemma escape_text_eq: "escape_text o1 s = o1 @ concat (map xml_escape s)"
proof -
  have "escape_text_loop o1 clean s = o1 @ clean @ concat (map xml_escape s)" for clean
    by (induction s arbitrary: o1 clean) simp_all
  then show ?thesis by (simp add: escape_text_def)
qed

lemma xml_bytes_eq: "xml_bytes_loop o1 False bs = o1 @ ssv (map unat bs)"
proof -
  have "xml_bytes_loop o1 True bs = o1 @ concat (map (\<lambda>b. '' '' @ decimal (unat b)) bs)" for o1 bs
    by (induction bs arbitrary: o1) (simp_all add: write_u64_eq unat_ucast_byte)
  then show ?thesis by (cases bs) (simp_all add: write_u64_eq unat_ucast_byte comp_def)
qed

lemma xml_scalar_eq: "xml_scalar F o1 v = o1 @ xml_inline F v"
  by (cases v) (simp_all add: write_i64_eq write_u64_eq write_f64_def escape_text_eq xml_bytes_eq)

lemma write_xml_eq:
  "write_children F o1 tag v = o1 @ children_text F tag v"
  "write_members F o1 kvs = o1 @ xml_members_text F kvs"
  "write_repeated F o1 tag vs = o1 @ repeated_text F tag vs"
  "write_element F o1 tag v = o1 @ element_text F tag v"
proof (induction F o1 tag v and F o1 kvs and F o1 tag vs and F o1 tag v
    rule: write_children_write_members_write_repeated_write_element.induct)
  case (1 F o1 item_tag v)
  then show ?case by (subst write_children.simps) (simp add: xml_scalar_eq children_text_def split: Value.split)
next
  case (6 F o1 tag v)
  then show ?case by (subst write_element.simps) (cases v; simp add: xml_scalar_eq children_text_def)
qed simp_all

section \<open>Its normal form\<close>

definition text_value :: "string \<Rightarrow> 'f Value" where
  "text_value s = (if trim s = [] then Null else Str (trim s))"

definition gather :: "'f Value list \<Rightarrow> 'f Value" where
  "gather ws = (case ws of [w] \<Rightarrow> w | _ \<Rightarrow> Array ws)"

text \<open>The values of the elements that stand for a value: arrays are flattened, an empty array is an empty element.\<close>

fun xml_values :: "'f float_ops \<Rightarrow> 'f Value \<Rightarrow> 'f Value list"
  and xml_members :: "'f float_ops \<Rightarrow> (string \<times> 'f Value) list \<Rightarrow> (string \<times> 'f Value) list"
  and xml_items :: "'f float_ops \<Rightarrow> 'f Value list \<Rightarrow> 'f Value list" where
  "xml_values F (Object kvs) = [if kvs = [] then Null else Object (xml_members F kvs)]"
| "xml_values F (Array vs) = (if vs = [] then [Null] else xml_items F vs)"
| "xml_values F v = [text_value (xml_raw F v)]"
| "xml_members F [] = []"
| "xml_members F ((k, v) # kvs) = (k, gather (xml_values F v)) # xml_members F kvs"
| "xml_items F [] = []"
| "xml_items F (v # vs) = xml_values F v @ xml_items F vs"

definition xml_normal :: "'f float_ops \<Rightarrow> 'f Value \<Rightarrow> 'f Value" where
  "xml_normal F v = (case v of
     Array vs \<Rightarrow> if vs = [] then Null else Object [(''item'', gather (xml_items F vs))]
   | _ \<Rightarrow> hd (xml_values F v))"

text \<open>Keys are element names, and an object has each key once.\<close>

definition name_ok :: "string \<Rightarrow> bool" where
  "name_ok k \<longleftrightarrow> k \<noteq> [] \<and> list_all name_byte k"

fun xml_keys_ok :: "'f Value \<Rightarrow> bool"
  and members_ok :: "(string \<times> 'f Value) list \<Rightarrow> bool"
  and repeated_ok :: "'f Value list \<Rightarrow> bool" where
  "xml_keys_ok (Object kvs) \<longleftrightarrow> members_ok kvs"
| "xml_keys_ok (Array vs) \<longleftrightarrow> repeated_ok vs"
| "xml_keys_ok _ \<longleftrightarrow> True"
| "members_ok [] \<longleftrightarrow> True"
| "members_ok ((k, v) # kvs) \<longleftrightarrow> name_ok k \<and> k \<notin> fst ` set kvs \<and> xml_keys_ok v \<and> members_ok kvs"
| "repeated_ok [] \<longleftrightarrow> True"
| "repeated_ok (v # vs) \<longleftrightarrow> xml_keys_ok v \<and> repeated_ok vs"

text \<open>How deep elements nest.\<close>

fun element_depth :: "'f Value \<Rightarrow> nat"
  and members_depth :: "(string \<times> 'f Value) list \<Rightarrow> nat"
  and repeated_depth :: "'f Value list \<Rightarrow> nat" where
  "element_depth (Object kvs) = Suc (members_depth kvs)"
| "element_depth (Array vs) = max 1 (repeated_depth vs)"
| "element_depth _ = 1"
| "members_depth [] = 0"
| "members_depth ((k, v) # kvs) = max (element_depth v) (members_depth kvs)"
| "repeated_depth [] = 0"
| "repeated_depth (v # vs) = max (element_depth v) (repeated_depth vs)"

definition push_all :: "(string \<times> 'f Value) list \<Rightarrow> string \<Rightarrow> 'f Value list \<Rightarrow> (string \<times> 'f Value) list" where
  "push_all cs tag ws = foldl (\<lambda>cs w. push_child cs tag w) cs ws"

definition is_array :: "'f Value \<Rightarrow> bool" where
  "is_array v \<longleftrightarrow> (case v of Array _ \<Rightarrow> True | _ \<Rightarrow> False)"

lemma push_child_fresh: "tag \<notin> fst ` set cs \<Longrightarrow> push_child cs tag v = cs @ [(tag, v)]"
  by (induction cs tag v rule: push_child.induct) auto

lemma push_child_again:
  "tag \<notin> fst ` set cs \<Longrightarrow> push_child (cs @ [(tag, w)]) tag v = cs @ [(tag, case w of Array a \<Rightarrow> Array (a @ [v]) | _ \<Rightarrow> Array [w, v])]"
  by (induction cs) auto

lemma push_all_fresh:
  assumes "tag \<notin> fst ` set cs" and "ws \<noteq> []" and "list_all (\<lambda>w. \<not> is_array w) ws"
  shows "push_all cs tag ws = cs @ [(tag, gather ws)]"
  using assms(2,3)
proof (induction ws rule: rev_induct)
  case (snoc w ws)
  show ?case
  proof (cases "ws = []")
    case True
    then show ?thesis using assms(1) by (simp add: push_all_def push_child_fresh gather_def)
  next
    case False
    then have "push_all cs tag (ws @ [w]) = push_child (cs @ [(tag, gather ws)]) tag w" using snoc by (simp add: push_all_def)
    then show ?thesis using assms(1) False snoc.prems(2)
      by (cases ws rule: rev_cases; cases "tl ws") (auto simp: push_child_again gather_def is_array_def split: Value.splits list.splits)
  qed
qed simp

lemma xml_values_plain:
  "xml_values F v \<noteq> [] \<and> list_all (\<lambda>w. \<not> is_array w) (xml_values F v)"
  "map fst (xml_members F kvs) = map fst kvs"
  "vs \<noteq> [] \<longrightarrow> xml_items F vs \<noteq> [] \<and> list_all (\<lambda>w. \<not> is_array w) (xml_items F vs)"
proof (induction F v and F kvs and F vs rule: xml_values_xml_members_xml_items.induct)
qed (auto simp: is_array_def text_value_def split: if_splits)

section \<open>Parsing the text\<close>

lemma name_bytes: "\<not> name_byte (CHR ''>'')" "\<not> name_byte (CHR ''!'')" "\<not> name_byte (CHR ''/'')" "\<not> name_byte (CHR ''<'')"
  by (simp_all add: name_byte_def is_ascii_alphanumeric_def Let_def)

lemma read_name_text: "name_ok k \<Longrightarrow> read_name (k @ CHR ''>'' # r) = Ok (k, CHR ''>'' # r)"
  using name_bytes(1) by (simp add: read_name_def name_ok_def list_all_iff takeWhile_append2 dropWhile_append2)

lemma start_tag_text: "name_ok k \<Longrightarrow> start_tag (open_tag k @ r) = Ok ((k, True), r)"
  by (simp add: start_tag_def xml_skip_ws_def xml_ws_def eat_def read_name_text)

lemma close_text: "name_ok tag \<Longrightarrow> xml_content d tag cs tx (close_tag tag @ r) = Ok (element_value cs tx, r)"
  by (simp add: close_element_def read_name_text xml_skip_ws_def xml_ws_def eat_def)

lemma plain_text:
  "list_all (\<lambda>c. c \<noteq> CHR ''<'' \<and> c \<noteq> CHR ''&'') s \<Longrightarrow> xml_content d tag cs tx (s @ r) = xml_content d tag cs (tx @ s) r"
  by (induction s arbitrary: tx) simp_all

lemma escaped_text: "xml_content d tag cs tx (concat (map xml_escape s) @ r) = xml_content d tag cs (tx @ s) r"
proof (induction s arbitrary: tx)
  case (Cons c s)
  have e: "read_entity (''lt;'' @ r) = Ok (''<'', r)" "read_entity (''gt;'' @ r) = Ok (''>'', r)" "read_entity (''amp;'' @ r) = Ok (''&'', r)" for r
    by (simp_all add: read_entity_def entity_def)
  have "xml_content d tag cs tx (xml_escape c @ x) = xml_content d tag cs (tx @ [c]) x" for x
    using e [of x] by (auto simp: xml_escape_def)
  then show ?case using Cons by simp
qed simp

lemma number_plain_text: "list_all num_byte s \<Longrightarrow> list_all (\<lambda>c. c \<noteq> CHR ''<'' \<and> c \<noteq> CHR ''&'') s"
  by (auto simp: list_all_iff num_byte_def is_digit_def)

lemma inline_text:
  assumes "float_ok F"
  shows "xml_content d tag cs tx (xml_inline F v @ r) = xml_content d tag cs (tx @ xml_raw F v) r"
proof -
  have dec: "list_all (\<lambda>c. c \<noteq> CHR ''<'' \<and> c \<noteq> CHR ''&'') (decimal n)" for n
    using num_digits [OF digits_of_decimal, of n] by (simp add: number_plain_text)
  then have "list_all (\<lambda>c. c \<noteq> CHR ''<'' \<and> c \<noteq> CHR ''&'') (ssv ns)" for ns by (cases ns) (auto simp: list_all_iff)
  moreover have "list_all (\<lambda>c. c \<noteq> CHR ''<'' \<and> c \<noteq> CHR ''&'') (f_display F f)" if "f_finite F f" for f
    using num_float [OF assms that] by (simp add: number_plain_text)
  moreover have "list_all (\<lambda>c. c \<noteq> CHR ''<'' \<and> c \<noteq> CHR ''&'') (int_text i)" for i
    using num_int_text [of i] by (simp add: number_plain_text)
  ultimately show ?thesis using dec by (cases v) (auto simp: escaped_text plain_text)
qed

declare xml_content.simps [simp del]

text \<open>One child element.\<close>

lemma child_text:
  assumes "name_ok k" and "d < max_depth" and "xml_content (Suc d) k [] [] (inner @ close_tag k @ r) = Ok (v, r)"
  shows "xml_content d tag cs tx (open_tag k @ inner @ close_tag k @ r) = xml_content d tag (push_child cs k v) tx r"
proof -
  obtain c k' where k: "k = c # k'" "name_byte c" using assms(1) by (cases k) (auto simp: name_ok_def)
  then have c: "c \<noteq> CHR ''!''" "c \<noteq> CHR ''/''" using name_bytes by auto
  have "xml_element (Suc d) (open_tag k @ inner @ close_tag k @ r) = Ok ((k, v), r)"
    using start_tag_text [OF assms(1), of "inner @ close_tag k @ r"] assms(3) by (subst xml_element.simps) simp
  then show ?thesis using assms(2) c k(1) by (simp add: xml_content.simps)
qed

lemma scalar_element:
  assumes "float_ok F" "name_ok k" "d + 1 \<le> max_depth"
  shows "xml_content d tag cs tx (CHR ''<'' # k @ CHR ''>'' # xml_inline F v @ CHR ''<'' # CHR ''/'' # k @ CHR ''>'' # r) =
    xml_content d tag (push_child cs k (text_value (xml_raw F v))) tx r"
proof -
  have "xml_content (Suc d) k [] [] (xml_inline F v @ close_tag k @ r) = Ok (text_value (xml_raw F v), r)"
    by (simp add: inline_text [OF assms(1)] close_text [OF assms(2), simplified] element_value_def text_value_def)
  then show ?thesis using child_text [OF assms(2), of d "xml_inline F v" r] assms(3) by simp
qed

lemma scalar_content:
  assumes "float_ok F" and "\<forall>kvs vs. v \<noteq> Object kvs \<and> v \<noteq> Array vs" and "name_ok k" and "d + element_depth v \<le> max_depth"
  shows "xml_content d tag cs tx (element_text F k v @ r) = xml_content d tag (push_all cs k (xml_values F v)) tx r"
proof -
  have "element_text F k v = open_tag k @ xml_inline F v @ close_tag k" "xml_values F v = ([text_value (xml_raw F v)] :: 'a Value list)"
    "element_depth v = 1" using assms(2) by (cases v; simp)+
  then show ?thesis using scalar_element [OF assms(1,3), of d tag cs tx v r] assms(4) by (simp add: push_all_def)
qed

lemma xml_content_text:
  fixes F :: "'f float_ops"
  assumes F: "float_ok F"
  shows "name_ok k \<Longrightarrow> xml_keys_ok v \<Longrightarrow> d + element_depth v \<le> max_depth \<Longrightarrow>
      xml_content d tag cs tx (element_text F k v @ r) = xml_content d tag (push_all cs k (xml_values F v)) tx r"
    and "members_ok kvs \<Longrightarrow> d + members_depth kvs \<le> max_depth \<Longrightarrow> fst ` set cs \<inter> fst ` set kvs = {} \<Longrightarrow>
      xml_content d tag cs tx (xml_members_text F kvs @ r) = xml_content d tag (cs @ xml_members F kvs) tx r"
    and "name_ok k \<Longrightarrow> repeated_ok vs \<Longrightarrow> d + repeated_depth vs \<le> max_depth \<Longrightarrow>
      xml_content d tag cs tx (repeated_text F k vs @ r) = xml_content d tag (push_all cs k (xml_items F vs)) tx r"
proof (induction v and kvs and vs arbitrary: d tag cs tx r k and d tag cs tx r and d tag cs tx r k
    rule: xml_keys_ok_members_ok_repeated_ok.induct)
  case (1 kvs)
  have "xml_content (Suc d) k [] [] (xml_members_text F kvs @ close_tag k @ r) = Ok (element_value (xml_members F kvs) [], r)"
    using 1(3,4) close_text [OF 1(2)] by (subst "1.IH") simp_all
  moreover have "element_value (xml_members F kvs) [] = (if kvs = [] then Null else Object (xml_members F kvs))"
    by (cases kvs) (auto simp: element_value_def)
  ultimately have inner: "xml_content (Suc d) k [] [] (xml_members_text F kvs @ close_tag k @ r) =
      Ok (if kvs = [] then Null else Object (xml_members F kvs), r)" by simp
  show ?case using child_text [OF 1(2) _ inner, of tag cs tx] 1(4) by (simp add: push_all_def)
next
  case (2 vs)
  show ?case
  proof (cases "vs = []")
    case True
    have "xml_content d tag cs tx (open_tag k @ [] @ close_tag k @ r) = xml_content d tag (push_child cs k Null) tx r"
      using 2(2,4) True close_text [OF 2(2), of "Suc d" "[]" "[]" r] by (intro child_text) (simp_all add: element_value_def)
    then show ?thesis using True by (simp add: push_all_def)
  next
    case False
    then show ?thesis using "2.IH" [OF 2(2)] 2(3,4) by simp
  qed
next
  case (5 k' v kvs)
  have "push_all cs k' (xml_values F v) = cs @ [(k', gather (xml_values F v))]"
    using 5(5) xml_values_plain(1) by (intro push_all_fresh) auto
  then show ?case using 5 by auto
next
  case (7 v vs)
  then show ?case by (simp add: push_all_def)
qed ((rule scalar_content [OF F]; simp) | simp add: push_all_def)+

section \<open>Properties\<close>

definition xml_ok :: "'f Value \<Rightarrow> bool" where
  "xml_ok v \<longleftrightarrow> xml_keys_ok v \<and> element_depth v \<le> Suc max_depth \<and> (\<forall>vs. v = Array vs \<longrightarrow> repeated_depth vs \<le> max_depth)"

lemma root_name: "name_ok ''root''" "name_ok ''item''"
  by (simp_all add: name_ok_def name_byte_def is_ascii_alphanumeric_def)

lemma children_parsed:
  fixes v :: "'f Value"
  assumes "float_ok F" and "xml_ok v"
  shows "xml_content 0 ''root'' [] [] (children_text F ''item'' v @ close_tag ''root'') = Ok (xml_normal F v, [])"
proof -
  have close: "xml_content 0 ''root'' cs tx (close_tag ''root'') = Ok (element_value cs tx :: 'f Value, [])" for cs tx
    using close_text [OF root_name(1), of 0 cs tx "[]"] by simp
  show ?thesis
  proof (cases v)
    case (Object kvs)
    then have "xml_content 0 ''root'' [] [] (xml_members_text F kvs @ close_tag ''root'') = Ok (element_value (xml_members F kvs) [], [])"
      using assms xml_content_text(2) [OF assms(1), of kvs 0 "[]" "''root''" "[]"] close by (simp add: xml_ok_def)
    then show ?thesis using Object by (cases kvs) (auto simp: children_text_def xml_normal_def element_value_def)
  next
    case (Array vs)
    then have "xml_content 0 ''root'' [] [] (repeated_text F ''item'' vs @ close_tag ''root'') =
        Ok (element_value (push_all [] ''item'' (xml_items F vs)) [], [])"
      using assms xml_content_text(3) [OF assms(1) root_name(2), of vs 0 "''root''" "[]" "[]"] close by (simp add: xml_ok_def)
    moreover have "push_all [] ''item'' (xml_items F vs) = [(''item'', gather (xml_items F vs))]" if "vs \<noteq> []"
      using push_all_fresh [of "''item''" "[]"] xml_values_plain(3) [of vs F] that by auto
    ultimately show ?thesis using Array
      by (cases "vs = []") (auto simp: children_text_def xml_normal_def element_value_def push_all_def)
  qed (use inline_text [OF assms(1), of 0 "''root''" "[] :: (string \<times> 'f Value) list" "[]" v] close in
      \<open>simp_all add: children_text_def xml_normal_def element_value_def text_value_def\<close>)
qed

lemma xml_printed:
  assumes "float_ok F" and "xml_ok v"
  shows "xml_from_str (xml_encode F v) = Some (Ok (xml_normal F v))"
proof -
  have t: "xml_encode F v = open_tag ''root'' @ children_text F ''item'' v @ close_tag ''root''"
    by (simp add: xml_encode_def write_xml_eq(1))
  then have "skip_prolog (xml_encode F v) = Some (xml_encode F v)"
    by (subst skip_prolog.simps) (simp add: xml_skip_ws_def xml_ws_def)
  moreover have "xml_element 0 (xml_encode F v) = Ok ((''root'', xml_normal F v), [])"
    using children_parsed [OF assms] start_tag_text [OF root_name(1)] unfolding t by (subst xml_element.simps) simp
  ultimately show ?thesis by (simp add: xml_from_str_def)
qed

interpretation xml: codec "xml_encode F" xml_from_str "xml_normal F" "\<lambda>v. float_ok F \<and> xml_ok v"
  by unfold_locales (simp add: xml_printed)

text \<open>C16: Round trip of the XML codec: the text of every value whose keys are element names, once in each object, and that
  nests at most 128 deep below the root parses back to its normal form: scalars as their trimmed text, arrays as
  the repeated elements of their key (one element alone as itself), nothing lost or reordered.\<close>

theorem xml_round_trip:
  assumes "float_ok F" and "xml_ok v"
  shows "xml_from_str (xml_encode F v) = Some (Ok (xml_normal F v))"
  by (rule xml_printed [OF assms])

theorem xml_round_trip_witness:
  "xml_from_str (xml_encode int_floats (Object [(''tags'', Array [Str ''a<b'', Str ''&'']), (''one'', Array [Str ''x'']),
      (''none'', Array []), (''o'', Object [(''ok'', Bool True)])])) =
   Some (Ok (Object [(''tags'', Array [Str ''a<b'', Str ''&'']), (''one'', Str ''x''), (''none'', Null), (''o'', Object [(''ok'', Str ''true'')])] :: nat Value))"
proof -
  have "name_ok ''tags''" "name_ok ''one''" "name_ok ''none''" "name_ok ''o''" "name_ok ''ok''"
    by (simp_all add: name_ok_def name_byte_def is_ascii_alphanumeric_def)
  moreover have "tidy ''a<b''" "tidy ''&''" "tidy ''x''" "tidy ''true''" by (simp_all add: visible_tidy)
  ultimately show ?thesis
    using xml_round_trip [OF int_floats_ok, of "Object [(''tags'', Array [Str ''a<b'', Str ''&'']), (''one'', Array [Str ''x'']),
      (''none'', Array []), (''o'', Object [(''ok'', Bool True)])]"]
    by (simp add: xml_ok_def xml_normal_def gather_def text_value_def max_depth_def tidy_def trim_id)
qed

text \<open>A declaration or a comment before the root that is not closed makes the parser panic; nothing else does.\<close>

lemma unclosed_declaration_panics: "xml_from_str ''<?xml'' = None"
  by (simp add: xml_from_str_def skip_prolog.simps xml_skip_ws_def xml_ws_def skip_past_def)

lemma no_prolog_no_panic:
  assumes "\<not> prefix ''<?'' (xml_skip_ws input)" and "\<not> prefix ''<!--'' (xml_skip_ws input)"
  shows "xml_from_str input \<noteq> None"
  using assms by (subst (asm) xml_skip_ws_def) (simp add: xml_from_str_def skip_prolog.simps xml_skip_ws_def split: sum.split)

end
