(* ===== verification/Codec_Registry.thy ===== *)
theory Codec_Registry
  imports Codec_Text Codec_Toml_Correct Codec_Xml_Correct
begin

text \<open>
  The choice of a codec by content type, \<^verbatim>\<open>codec/registry.rs\<close>, over the four codecs as they work on bytes, and the round
  trip through all of them. The codecs differ in what they make of a value; each has its own normal form.
\<close>

section \<open>Formats\<close>

datatype Format = Json | Xml | Yaml | Toml

definition from_content_type :: "string \<Rightarrow> Format option" where
  "from_content_type content_type =
     (let ct = to_ascii_lowercase (trim (hd (split_on (CHR '';'') content_type)))
      in if ct \<in> {''application/json'', ''text/json''} then Some Json
         else if ct \<in> {''application/xml'', ''text/xml''} then Some Xml
         else if ct \<in> {''application/yaml'', ''text/yaml'', ''application/x-yaml'', ''text/x-yaml'', ''application/yml'', ''text/yml''}
           then Some Yaml
         else if ct \<in> {''application/toml'', ''text/toml'', ''application/x-toml''} then Some Toml
         else if suffix ''+json'' ct then Some Json
         else if suffix ''+xml'' ct then Some Xml
         else if suffix ''+yaml'' ct then Some Yaml
         else if suffix ''+toml'' ct then Some Toml
         else None)"

definition resolve_format :: "string \<Rightarrow> (Format, CodecError) result" where
  "resolve_format content_type = (case from_content_type content_type of
     Some f \<Rightarrow> Ok f
   | None \<Rightarrow> Err (UnsupportedContentType content_type))"

section \<open>Encoding and decoding bytes\<close>

text \<open>\<^verbatim>\<open>encode_to_vec\<close> and \<^verbatim>\<open>decode_from_slice\<close> of the four codecs. Only TOML looks at more of \<^verbatim>\<open>f64\<close> than the others.\<close>

definition plain_ops :: "'f toml_ops \<Rightarrow> 'f float_ops" where
  "plain_ops T = float_ops.truncate T"

definition format_text :: "'f toml_ops \<Rightarrow> Format \<Rightarrow> 'f Value \<Rightarrow> string" where
  "format_text T f v = (case f of
     Json \<Rightarrow> to_string (plain_ops T) v
   | Xml \<Rightarrow> xml_encode (plain_ops T) v
   | Yaml \<Rightarrow> yaml_encode (plain_ops T) v
   | Toml \<Rightarrow> toml_encode T v)"

definition toml_result :: "('f Value, toml_stop) result option \<Rightarrow> ('f Value, CodecError) result option" where
  "toml_result m = (case m of
     None \<Rightarrow> None
   | Some (Err TPanic) \<Rightarrow> None
   | Some (Err (TErr e)) \<Rightarrow> Some (Err e)
   | Some (Ok v) \<Rightarrow> Some (Ok v))"

definition format_parse :: "'f toml_ops \<Rightarrow> Format \<Rightarrow> string \<Rightarrow> ('f Value, CodecError) result option" where
  "format_parse T f s = (case f of
     Json \<Rightarrow> from_str (plain_ops T) s
   | Xml \<Rightarrow> xml_from_str s
   | Yaml \<Rightarrow> yaml_from_str (plain_ops T) s
   | Toml \<Rightarrow> toml_result (toml_from_str T s))"

definition decode_from_slice ::
  "(bytes \<Rightarrow> string) \<Rightarrow> 'f toml_ops \<Rightarrow> Format \<Rightarrow> bytes \<Rightarrow> ('f Value, CodecError) result option" where
  "decode_from_slice msg T f input =
     (if utf8_valid input then format_parse T f (of_bytes input) else Some (Err (Parse (msg input))))"

definition registry_encode :: "'f toml_ops \<Rightarrow> string \<Rightarrow> 'f Value \<Rightarrow> (bytes, CodecError) result" where
  "registry_encode T content_type v = (case resolve_format content_type of
     Err e \<Rightarrow> Err e
   | Ok f \<Rightarrow> Ok (to_bytes (format_text T f v)))"

definition registry_decode ::
  "(bytes \<Rightarrow> string) \<Rightarrow> 'f toml_ops \<Rightarrow> string \<Rightarrow> bytes \<Rightarrow> ('f Value, CodecError) result option" where
  "registry_decode msg T content_type input = (case resolve_format content_type of
     Err e \<Rightarrow> Some (Err e)
   | Ok f \<Rightarrow> decode_from_slice msg T f input)"

section \<open>The encoders write valid UTF-8\<close>

interpretation yaml_escape: byte_escape yaml_escape
  by unfold_locales (auto simp: yaml_escape_def)

interpretation xml_escape: byte_escape xml_escape
  by unfold_locales (auto simp: xml_escape_def)

lemma hex4_upper_ascii: "ascii (hex4_upper n)"
proof -
  have "of_char (hex_upper d) < (128 :: nat)" if "d < 16" for d using that by (simp add: hex_upper_def of_char_of)
  then show ?thesis by (simp add: hex4_upper_def)
qed

interpretation toml_escape: byte_escape toml_escape
proof
  fix c
  have u: "ascii ([CHR 0x5C, CHR ''u''] @ hex4_upper n)" for n by (simp add: hex4_upper_ascii)
  have "ascii [CHR 0x5C, CHR 0x22]" "ascii [CHR 0x5C, CHR 0x5C]" "ascii [CHR 0x5C, CHR ''n'']"
    "ascii [CHR 0x5C, CHR ''r'']" "ascii [CHR 0x5C, CHR ''t'']" "ascii [CHR 0x5C, CHR ''b'']"
    "ascii [CHR 0x5C, CHR ''f'']" by simp_all
  moreover assume "of_char c < (128 :: nat)"
  then have "ascii [c]" by simp
  ultimately show "ascii (toml_escape c)" using u unfolding toml_escape_def by presburger
next
  fix c
  assume high: "\<not> of_char c < (128 :: nat)"
  then have "c \<noteq> CHR 0x22" "c \<noteq> CHR 0x5C" "c \<noteq> CHR 0x0A" "c \<noteq> CHR 0x0D" "c \<noteq> CHR 0x09"
    "c \<noteq> CHR 0x08" "c \<noteq> CHR 0x0C" by (rule contrapos_nn, simp)+
  moreover have "\<not> of_char c < (32 :: nat)" using high by simp
  ultimately show "toml_escape c = [c]" unfolding toml_escape_def by presburger
qed

text \<open>The invariant of Rust strings.\<close>

definition rust_text :: "string \<Rightarrow> bool" where
  "rust_text s \<longleftrightarrow> utf8_valid (to_bytes s)"

lemma rust_text_simps [simp]:
  "rust_text []"
  "of_char c < (128 :: nat) \<Longrightarrow> rust_text s \<Longrightarrow> rust_text (c # s)"
  "rust_text a \<Longrightarrow> rust_text b \<Longrightarrow> rust_text (a @ b)"
  using text_valid_append [of "[c]" s] ascii_valid [of "[c]"] text_valid_append [of a b] ascii_valid [of "[]"]
  by (simp_all add: rust_text_def)

lemma rust_text_ascii: "ascii s \<Longrightarrow> rust_text s"
  by (simp add: rust_text_def ascii_valid del: utf8_valid.simps)

lemma rust_text_concat: "(\<And>x. x \<in> set xs \<Longrightarrow> rust_text (f x)) \<Longrightarrow> rust_text (concat (map f xs))"
  by (induction xs) simp_all

lemma rust_text_escapes [simp]:
  "rust_text s \<Longrightarrow> rust_text (concat (map yaml_escape s))"
  "rust_text s \<Longrightarrow> rust_text (concat (map xml_escape s))"
  "rust_text s \<Longrightarrow> rust_text (concat (map toml_escape s))"
  by (simp_all add: rust_text_def yaml_escape.esc_valid xml_escape.esc_valid toml_escape.esc_valid del: utf8_valid.simps)

lemma rust_text_numbers [simp]: "rust_text (decimal n)" "rust_text (int_text i)"
  by (simp_all add: rust_text_ascii decimal_ascii int_text_ascii)

lemma rust_text_float: "float_ok F \<Longrightarrow> f_finite F f \<Longrightarrow> rust_text (f_display F f)"
  using num_float [of F f] num_byte_visible by (intro rust_text_ascii) (auto simp: ascii_def list_all_iff)

lemma strings_rust:
  "strings_valid (Str s) = rust_text s"
  "strings_valid_entries ((k, v) # kvs) = (rust_text k \<and> strings_valid v \<and> strings_valid_entries kvs)"
  by (simp_all add: rust_text_def)

text \<open>The facts a text of a codec is checked with.\<close>

lemmas text_rules = rust_text_float rust_text_concat strings_rust

lemma xml_inline_text:
  assumes "float_ok F" and "strings_valid v"
  shows "rust_text (xml_inline F v)"
proof -
  have "rust_text (ssv ns)" for ns by (cases ns) (simp_all add: rust_text_concat)
  then show ?thesis using assms by (cases v) (simp_all add: text_rules del: strings_valid.simps(1))
qed

lemma xml_element_text:
  assumes "float_ok F"
  shows "strings_valid v \<Longrightarrow> rust_text k \<Longrightarrow> rust_text (element_text F k v)"
    "strings_valid_list vs \<Longrightarrow> rust_text k \<Longrightarrow> rust_text (repeated_text F k vs)"
    "strings_valid_entries kvs \<Longrightarrow> rust_text (xml_members_text F kvs)"
proof (induction v and vs and kvs arbitrary: k and k rule: strings_valid_strings_valid_list_strings_valid_entries.induct)
  case (8 k v kvs)
  then show ?case by (simp add: strings_rust(2) del: strings_valid_entries.simps)
qed (use xml_inline_text [OF assms] in \<open>fastforce simp: text_rules\<close>)+

lemma ystring_text: "rust_text s \<Longrightarrow> rust_text (ystring F s)"
  by (simp add: ystring_def yquote_def)

lemma yaml_inline_text:
  assumes "float_ok F" and "strings_valid v"
  shows "rust_text (yinline F v)"
proof -
  have "rust_text (csv ns)" for ns by (cases ns) (simp_all add: rust_text_concat)
  then show ?thesis using assms by (cases v) (simp_all add: text_rules ystring_text yquote_def del: strings_valid.simps(1))
qed

lemma yaml_lines_text:
  assumes "float_ok F"
  shows "strings_valid v \<Longrightarrow> rust_text (lines_text (block_lines F n v))"
    "strings_valid_list vs \<Longrightarrow> rust_text (lines_text (elem_lines F n vs))"
    "strings_valid_entries kvs \<Longrightarrow> rust_text (lines_text (entry_lines F n kvs))"
proof (induction v and vs and kvs arbitrary: n and n and n rule: strings_valid_strings_valid_list_strings_valid_entries.induct)
  have pad: "rust_text (replicate i (CHR '' ''))" for i by (induction i) simp_all
  case (6 v vs n)
  then show ?case using yaml_inline_text [OF assms] by (simp add: line_text_def pad)
next
  have pad: "rust_text (replicate i (CHR '' ''))" for i by (induction i) simp_all
  case (8 k v kvs)
  then show ?case using yaml_inline_text [OF assms]
    by (simp add: line_text_def pad strings_rust(2) ystring_text del: strings_valid_entries.simps)
qed simp_all

lemma yaml_encode_text:
  assumes "yaml_floats F" and "yaml_ok F v" and "strings_valid v"
  shows "rust_text (yaml_encode F v)"
proof -
  have F: "float_ok F" using assms(1) by (simp add: yaml_floats_def)
  show ?thesis
  proof (cases "is_block v")
    case True
    then show ?thesis using yaml_lines_text(1) [OF F assms(3)] by (simp add: yaml_encode_def write_block_eq(1))
  next
    case False
    then have "scalar_doc F v" using assms(2) by (simp add: yaml_ok_def)
    then have "yaml_encode F v = yinline F v @ [CHR 0x0A]"
      using False yaml_write_scalar_eq [of v F "[]"]
      by (cases v) (simp_all add: yaml_encode_def write_block.simps yaml_pad_def)
    then show ?thesis using yaml_inline_text [OF F assms(3)] by simp
  qed
qed

lemma key_repr_text: "rust_text k \<Longrightarrow> rust_text (key_repr k)"
  by (simp add: key_repr_def write_basic_string_eq tquote_def)

lemma path_text_valid: "list_all rust_text p \<Longrightarrow> rust_text (path_text p)"
  by (induction p rule: path_text.induct) (simp_all add: key_repr_text)

lemma tfloat_text_valid: "toml_floats T \<Longrightarrow> rust_text (tfloat_text T f)"
proof (rule rust_text_ascii)
  assume "toml_floats T"
  then have "list_all plain_atom (tfloat_text T f)" by (rule float_atom(1))
  then show "ascii (tfloat_text T f)"
    by (auto simp: ascii_def list_all_iff plain_atom_def is_ascii_alphanumeric_def Let_def)
qed

lemma tbytes_valid: "rust_text (tbytes_text bs)"
  by (induction bs) simp_all

lemma toml_inline_text:
  assumes "toml_floats T"
  shows "strings_valid v \<Longrightarrow> rust_text (inline_text T v)"
    "strings_valid_list vs \<Longrightarrow> rust_text (items_text T vs)"
    "strings_valid_entries kvs \<Longrightarrow> rust_text (entries_text T kvs)"
proof (induction v and vs and kvs rule: strings_valid_strings_valid_list_strings_valid_entries.induct)
  case (1 s)
  then show ?case by (simp add: strings_rust(1) tquote_def del: strings_valid.simps)
next
  case (8 k v kvs)
  then show ?case by (simp add: strings_rust(2) key_repr_text del: strings_valid_entries.simps)
qed (use tfloat_text_valid [OF assms] in \<open>simp_all add: tquote_def tbytes_valid\<close>)

lemma toml_scalars_text:
  assumes "toml_floats T"
  shows "strings_valid_entries kvs \<Longrightarrow> rust_text (scalars_text T kvs)"
proof (induction kvs)
  case (Cons x kvs)
  obtain k v where x: "x = (k, v)" by (cases x)
  then have "rust_text k" "strings_valid v" "strings_valid_entries kvs"
    using Cons.prems by (simp_all add: strings_rust(2) del: strings_valid_entries.simps)
  then show ?case using Cons.IH toml_inline_text(1) [OF assms, of v] x by (simp add: key_repr_text)
qed simp

lemma toml_sections_text:
  assumes "toml_floats T"
  shows "strings_valid_entries kvs \<Longrightarrow> list_all rust_text p \<Longrightarrow> rust_text (sections_text T p kvs)"
    "strings_valid_list vs \<Longrightarrow> list_all rust_text p \<Longrightarrow> rust_text (tables_text T p vs)"
  using assms
proof (induction T p kvs and T p vs rule: sections_text_tables_text.induct)
  case (2 F p k v kvs)
  then have kv: "rust_text k" "strings_valid v" "strings_valid_entries kvs" "list_all rust_text (p @ [k])"
    by (simp_all add: strings_rust(2) del: strings_valid_entries.simps)
  then show ?case using 2 toml_scalars_text [OF 2(6)]
    by (cases v) (simp_all add: path_text_valid del: strings_valid_entries.simps)
next
  case (4 F p item items)
  then show ?case using toml_scalars_text [OF 4(5)] by (cases item) (simp_all add: path_text_valid)
qed simp_all

lemma toml_encode_text: "toml_floats T \<Longrightarrow> strings_valid v \<Longrightarrow> rust_text (toml_encode T v)"
  using toml_scalars_text [of T] toml_sections_text(1) [of T _ "[]"] toml_inline_text(1) [of T v]
  by (cases v) (simp_all add: toml_encode_def write_table_eq(3) [of "[]" "[]"] write_inline_eq(1)
      del: write_table.simps inline_text.simps strings_valid_entries.simps)

lemma xml_encode_text: "float_ok F \<Longrightarrow> strings_valid v \<Longrightarrow> rust_text (xml_encode F v)"
  using xml_element_text(2) [of F _ "''item''"] xml_element_text(3) [of F] xml_inline_text [of F v]
  by (cases v) (simp_all add: xml_encode_def write_xml_eq(1) children_text_def)

section \<open>Round trips through the registry\<close>

definition format_ok :: "'f toml_ops \<Rightarrow> Format \<Rightarrow> 'f Value \<Rightarrow> bool" where
  "format_ok T f v \<longleftrightarrow> strings_valid v \<and> (case f of
     Json \<Rightarrow> depth_of v \<le> max_depth
   | Xml \<Rightarrow> xml_ok v
   | Yaml \<Rightarrow> yaml_ok (plain_ops T) v
   | Toml \<Rightarrow> toml_ok v)"

definition format_normal :: "'f toml_ops \<Rightarrow> Format \<Rightarrow> 'f Value \<Rightarrow> 'f Value" where
  "format_normal T f v = (case f of
     Json \<Rightarrow> normal (plain_ops T) v
   | Xml \<Rightarrow> xml_normal (plain_ops T) v
   | Yaml \<Rightarrow> yaml_normal (plain_ops T) v
   | Toml \<Rightarrow> toml_normal T v)"

definition all_floats :: "'f toml_ops \<Rightarrow> bool" where
  "all_floats T \<longleftrightarrow> toml_floats T \<and> yaml_floats (plain_ops T)"

lemma format_valid:
  assumes "all_floats T" and "format_ok T f v"
  shows "rust_text (format_text T f v)"
  using assms json_text_valid(1) [of "plain_ops T" v] xml_encode_text yaml_encode_text toml_encode_text
  by (cases f) (auto simp: all_floats_def yaml_floats_def format_ok_def format_text_def rust_text_def to_string_eq)

lemma format_parses:
  assumes "all_floats T" and "format_ok T f v"
  shows "format_parse T f (format_text T f v) = Some (Ok (format_normal T f v))"
  using assms from_str_printed [of "plain_ops T" v] xml_printed [of "plain_ops T" v] yaml_printed [of "plain_ops T" v] toml_printed [of T v]
  by (cases f) (auto simp: all_floats_def yaml_floats_def format_ok_def format_text_def format_parse_def format_normal_def toml_result_def)

interpretation registry: codec "\<lambda>v. to_bytes (format_text T f v)" "decode_from_slice msg T f" "format_normal T f"
    "\<lambda>v. all_floats T \<and> format_ok T f v"
  by unfold_locales (use format_valid format_parses in \<open>auto simp: decode_from_slice_def rust_text_def\<close>)

text \<open>Parameters and letter case of a content type do not matter.\<close>

lemma content_type_parameters:
  assumes "CHR '';'' \<notin> set ct"
  shows "from_content_type (ct @ CHR '';'' # params) = from_content_type ct"
  using assms by (simp add: from_content_type_def split_on_clean split_on_last)

text \<open>Codecs by content type: what is encoded under a content type, parameters and structured-syntax suffixes
  included, is valid UTF-8 and decodes under the same type to the value's normal form in the format the type names,
  for all four formats, provided the value is one that format can carry (\<open>format_ok\<close>); under a type that names none both directions fail with that type and nothing
  is parsed.\<close>

theorem registry_round_trip:
  assumes "all_floats T" and "\<And>f. from_content_type ct = Some f \<Longrightarrow> format_ok T f v"
  shows "case from_content_type ct of
      Some f \<Rightarrow> \<exists>bs. registry_encode T ct v = Ok bs \<and> utf8_valid bs \<and> registry_decode msg T ct bs = Some (Ok (format_normal T f v))
    | None \<Rightarrow> registry_encode T ct v = Err (UnsupportedContentType ct) \<and> (\<forall>bs. registry_decode msg T ct bs = Some (Err (UnsupportedContentType ct)))"
proof (cases "from_content_type ct")
  case (Some f)
  then show ?thesis
    using format_valid [OF assms(1) assms(2) [OF Some]] registry.dec_enc [of T f v msg] assms
    by (simp add: registry_encode_def registry_decode_def resolve_format_def rust_text_def)
qed (simp add: registry_encode_def registry_decode_def resolve_format_def)

definition plus_toml :: "nat toml_ops" where
  "plus_toml = int_toml\<lparr>f_parse := f_parse plus_floats\<rparr>"

lemma plus_toml_ok: "all_floats plus_toml"
proof -
  have p: "plain_ops plus_toml = plus_floats" by (simp add: plain_ops_def plus_toml_def int_toml_def float_ops.defs plus_floats_def)
  have "f_finite plus_toml f" "\<not> f_is_nan plus_toml f" "\<not> f_is_infinite plus_toml f" for f
    by (simp_all add: plus_toml_def int_toml_def float_ops.defs int_floats_def)
  then have "toml_floats plus_toml" using plus_floats_ok p by (simp add: toml_floats_def yaml_floats_def plain_ops_def)
  then show ?thesis using plus_floats_ok p by (simp add: all_floats_def)
qed

end
