(* ===== verification/Rust_Char.thy ===== *)
theory Rust_Char
  imports Utf8 Rust_Str
begin

text \<open>
  The characters of a string. A Rust \<^verbatim>\<open>char\<close> is the list of the UTF-8 bytes that encode it, a character of
  ASCII a list of one byte.
\<close>

definition char_len :: "char \<Rightarrow> nat" where
  "char_len c = (case follow (of_char c) of Some rs \<Rightarrow> length rs | None \<Rightarrow> 0)"

text \<open>\<^verbatim>\<open>str::chars\<close>\<close>

function str_chars :: "string \<Rightarrow> string list" where
  "str_chars [] = []"
| "str_chars (c # s) = (c # take (char_len c) s) # str_chars (drop (char_len c) s)"
  by pat_completeness auto
termination by (relation "measure length") auto

lemma concat_str_chars [simp]: "concat (str_chars s) = s"
  by (induction s rule: str_chars.induct) simp_all

lemma str_chars_ne: "[] \<notin> set (str_chars s)"
  by (induction s rule: str_chars.induct) simp_all

lemma str_chars_Nil [simp]: "str_chars s = [] \<longleftrightarrow> s = []"
  by (cases s) simp_all

lemma char_len_ascii: "of_char c < (128 :: nat) \<Longrightarrow> char_len c = 0"
  by (simp add: char_len_def follow_def Let_def)

lemma str_chars_ascii: "ascii s \<Longrightarrow> str_chars s = map (\<lambda>c. [c]) s"
  by (induction s) (simp_all add: char_len_ascii)

text \<open>A character on its own, and strings that begin with one.\<close>

definition is_char :: "string \<Rightarrow> bool" where
  "is_char c \<longleftrightarrow> c \<noteq> [] \<and> length (tl c) = char_len (hd c)"

lemma str_chars_char: "is_char c \<Longrightarrow> str_chars (c @ s) = c # str_chars s"
  by (cases c) (simp_all add: is_char_def)

lemma str_chars_concat: "list_all is_char cs \<Longrightarrow> str_chars (concat cs) = cs"
  by (induction cs) (simp_all add: str_chars_char)

text \<open>\<^verbatim>\<open>format!("{:<w}")\<close>: filled up with spaces to \<open>w\<close> characters.\<close>

definition pad_right :: "nat \<Rightarrow> string \<Rightarrow> string" where
  "pad_right w s = s @ replicate (w - length (str_chars s)) (CHR '' '')"

end
