(* ===== verification/Codec_Traits.thy ===== *)
theory Codec_Traits
  imports Codec_Json_Correct Rust_Char
begin

text \<open>
  Typed encoding and decoding: the traits of \<^verbatim>\<open>codec/traits.rs\<close> with their implementations, the streaming side of
  \<^verbatim>\<open>codec/json.rs\<close>, and what the derive macros of \<^verbatim>\<open>ferroly-derive\<close> generate for structs and enums.
  A \<open>ty\<close> describes a type that implements the traits, a \<open>dyn\<close> a value of such a type; the four functions over
  \<open>ty\<close> pick the implementation as the trait system does.
\<close>

section \<open>Names on the wire\<close>

text \<open>\<^verbatim>\<open>ferroly-derive/src/case.rs\<close>, on identifiers of ASCII characters.\<close>

definition is_upper :: "char \<Rightarrow> bool" where
  "is_upper c \<longleftrightarrow> 65 \<le> (of_char c :: nat) \<and> (of_char c :: nat) \<le> 90"

definition ascii_upper :: "char \<Rightarrow> char" where
  "ascii_upper c = (if 97 \<le> (of_char c :: nat) \<and> (of_char c :: nat) \<le> 122 then char_of (of_char c - (32 :: nat)) else c)"

fun snake_loop :: "nat \<Rightarrow> string \<Rightarrow> string" where
  "snake_loop i [] = []"
| "snake_loop i (c # cs) = (if is_upper c then (if i > 0 then ''_'' else []) @ [ascii_lower c] else [c]) @ snake_loop (Suc i) cs"

definition to_snake :: "string \<Rightarrow> string" where
  "to_snake s = snake_loop 0 s"

fun camel_loop :: "bool \<Rightarrow> string list \<Rightarrow> string" where
  "camel_loop upper [] = []"
| "camel_loop upper ([] # parts) = camel_loop upper parts"
| "camel_loop upper ((c # cs) # parts) = (if upper then ascii_upper c else ascii_lower c) # cs @ camel_loop True parts"

definition to_camel :: "string \<Rightarrow> bool \<Rightarrow> string" where
  "to_camel s pascal = camel_loop pascal (split_on (CHR ''_'') s)"

definition apply_rename_all :: "string \<Rightarrow> string option \<Rightarrow> string" where
  "apply_rename_all name rule =
     (if rule = Some ''lowercase'' then map ascii_lower name
      else if rule = Some ''UPPERCASE'' then map ascii_upper name
      else if rule = Some ''snake_case'' then to_snake name
      else if rule = Some ''SCREAMING_SNAKE_CASE'' then map ascii_upper (to_snake name)
      else if rule = Some ''kebab-case'' then map (\<lambda>c. if c = CHR ''_'' then CHR ''-'' else c) (to_snake name)
      else if rule = Some ''camelCase'' then to_camel name False
      else if rule = Some ''PascalCase'' then to_camel name True
      else name)"

text \<open>A field or variant with its \<^verbatim>\<open>#[ferroly(..)]\<close> attributes.\<close>

record member =
  mb_ident :: string
  mb_rename :: "string option"
  mb_skip_none :: bool

definition wire_key :: "string option \<Rightarrow> member \<Rightarrow> string" where
  "wire_key rename_all m = (case mb_rename m of Some r \<Rightarrow> r | None \<Rightarrow> apply_rename_all (mb_ident m) rename_all)"

section \<open>Types and their values\<close>

datatype signed_ty = I8 | I16 | I32 | I64 | Isize
datatype unsigned_ty = U8 | U16 | U32 | U64 | Usize

fun signed_bits :: "signed_ty \<Rightarrow> nat" where
  "signed_bits I8 = 8" | "signed_bits I16 = 16" | "signed_bits I32 = 32" | "signed_bits I64 = 64" | "signed_bits Isize = 64"

fun unsigned_bits :: "unsigned_ty \<Rightarrow> nat" where
  "unsigned_bits U8 = 8" | "unsigned_bits U16 = 16" | "unsigned_bits U32 = 32" | "unsigned_bits U64 = 64" | "unsigned_bits Usize = 64"

fun signed_name :: "signed_ty \<Rightarrow> string" where
  "signed_name I8 = ''i8''" | "signed_name I16 = ''i16''" | "signed_name I32 = ''i32''" | "signed_name I64 = ''i64''"
| "signed_name Isize = ''isize''"

fun unsigned_name :: "unsigned_ty \<Rightarrow> string" where
  "unsigned_name U8 = ''u8''" | "unsigned_name U16 = ''u16''" | "unsigned_name U32 = ''u32''" | "unsigned_name U64 = ''u64''"
| "unsigned_name Usize = ''usize''"

datatype ty =
    Bool_t
  | Signed_t signed_ty
  | Unsigned_t unsigned_ty
  | F64_t
  | F32_t
  | String_t
  | Char_t
  | Unit_t
  | Value_t
  | Option_t ty
  | Vec_t ty
  | Box_t ty
  | Map_t ty
  | Struct_t "string option" "(member \<times> ty) list"
  | Enum_t "string option" "member list"

text \<open>
  A \<^verbatim>\<open>HashMap\<close> is the list of its entries in the order it iterates; a struct the list of its fields; a variant of an
  enum its position.
\<close>

datatype 'f dyn =
    D_bool bool
  | D_int int
  | D_float 'f
  | D_str string
  | D_unit
  | D_value "'f Value"
  | D_none
  | D_some "'f dyn"
  | D_vec "'f dyn list"
  | D_map "(string \<times> 'f dyn) list"
  | D_struct "'f dyn list"
  | D_enum nat

text \<open>Casts between \<^verbatim>\<open>f64\<close> and integers, and to \<^verbatim>\<open>f32\<close>, whose numbers are numbers of \<^verbatim>\<open>f64\<close>: rounding one, and the
  direct casts from integers.\<close>

record 'f float_casts =
  f_as_i64 :: "'f \<Rightarrow> i64"
  f_as_u64 :: "'f \<Rightarrow> u64"
  f_ge_zero :: "'f \<Rightarrow> bool"
  i64_as_f :: "i64 \<Rightarrow> 'f"
  u64_as_f :: "u64 \<Rightarrow> 'f"
  f_as_f32 :: "'f \<Rightarrow> 'f"
  i64_as_f32 :: "i64 \<Rightarrow> 'f"
  u64_as_f32 :: "u64 \<Rightarrow> 'f"

section \<open>Encoding\<close>

definition is_option :: "ty \<Rightarrow> bool" where
  "is_option t = (case t of Option_t _ \<Rightarrow> True | _ \<Rightarrow> False)"

text \<open>
  The implementations of \<^verbatim>\<open>Encode\<close>, each with its \<^verbatim>\<open>encode\<close> and its \<^verbatim>\<open>encode_to\<close>. A value that is not of the type has no
  encoding; \<open>Null\<close> stands in.
\<close>

definition encode_bool :: "'f dyn \<Rightarrow> 'f Value" where
  "encode_bool x = (case x of D_bool b \<Rightarrow> Bool b | _ \<Rightarrow> Null)"

definition encode_signed :: "'f dyn \<Rightarrow> 'f Value" where
  "encode_signed x = (case x of D_int i \<Rightarrow> IntV (word_of_int i) | _ \<Rightarrow> Null)"

definition encode_unsigned :: "'f dyn \<Rightarrow> 'f Value" where
  "encode_unsigned x = (case x of D_int i \<Rightarrow> UInt (word_of_int i) | _ \<Rightarrow> Null)"

definition encode_f64 :: "'f dyn \<Rightarrow> 'f Value" where
  "encode_f64 x = (case x of D_float f \<Rightarrow> Float f | _ \<Rightarrow> Null)"

definition encode_string :: "'f dyn \<Rightarrow> 'f Value" where
  "encode_string x = (case x of D_str s \<Rightarrow> Str s | _ \<Rightarrow> Null)"

definition encode_char :: "'f dyn \<Rightarrow> 'f Value" where
  "encode_char x = (case x of D_str s \<Rightarrow> Str s | _ \<Rightarrow> Null)"

definition encode_dyn_value :: "'f dyn \<Rightarrow> 'f Value" where
  "encode_dyn_value x = (case x of D_value v \<Rightarrow> v | _ \<Rightarrow> Null)"

definition encode_option :: "('f dyn \<Rightarrow> 'f Value) \<Rightarrow> 'f dyn \<Rightarrow> 'f Value" where
  "encode_option enc x = (case x of D_some y \<Rightarrow> enc y | _ \<Rightarrow> Null)"

definition encode_vec :: "('f dyn \<Rightarrow> 'f Value) \<Rightarrow> 'f dyn \<Rightarrow> 'f Value" where
  "encode_vec enc x = (case x of D_vec xs \<Rightarrow> Array (map enc xs) | _ \<Rightarrow> Null)"

definition encode_map :: "('f dyn \<Rightarrow> 'f Value) \<Rightarrow> 'f dyn \<Rightarrow> 'f Value" where
  "encode_map enc x = (case x of D_map kvs \<Rightarrow> Object (map (\<lambda>(k, y). (k, enc y)) kvs) | _ \<Rightarrow> Null)"

definition encode_enum :: "string list \<Rightarrow> 'f dyn \<Rightarrow> 'f Value" where
  "encode_enum ks x = (case x of D_enum i \<Rightarrow> Str (ks ! i) | _ \<Rightarrow> Null)"

lemmas encode_impls = encode_bool_def encode_signed_def encode_unsigned_def encode_f64_def encode_string_def encode_char_def
  encode_dyn_value_def encode_option_def encode_vec_def encode_map_def encode_enum_def

declare encode_impls [simp]

text \<open>\<^verbatim>\<open>Encode::encode\<close>; a struct pushes its fields in order, one marked \<^verbatim>\<open>skip_none\<close> only when it is there.\<close>

fun encode :: "ty \<Rightarrow> 'f dyn \<Rightarrow> 'f Value"
  and encode_fields :: "string option \<Rightarrow> (member \<times> ty) list \<Rightarrow> 'f dyn list \<Rightarrow> (string \<times> 'f Value) list" where
  "encode Bool_t x = encode_bool x"
| "encode (Signed_t w) x = encode_signed x"
| "encode (Unsigned_t w) x = encode_unsigned x"
| "encode F64_t x = encode_f64 x"
| "encode F32_t x = encode_f64 x"
| "encode String_t x = encode_string x"
| "encode Char_t x = encode_char x"
| "encode Unit_t x = Null"
| "encode Value_t x = encode_dyn_value x"
| "encode (Option_t t) x = encode_option (\<lambda>y. encode t y) x"
| "encode (Vec_t t) x = encode_vec (\<lambda>y. encode t y) x"
| "encode (Box_t t) x = encode t x"
| "encode (Map_t t) x = encode_map (\<lambda>y. encode t y) x"
| "encode (Struct_t ra fs) x = (case x of D_struct xs \<Rightarrow> Object (encode_fields ra fs xs) | _ \<Rightarrow> Null)"
| "encode (Enum_t ra ms) x = encode_enum (map (wire_key ra) ms) x"
| "encode_fields ra [] xs = []"
| "encode_fields ra ((m, t) # fs) xs = (case xs of
     [] \<Rightarrow> []
   | x # xs' \<Rightarrow> (if mb_skip_none m \<and> x = D_none then [] else [(wire_key ra m, encode t x)]) @ encode_fields ra fs xs')"

text \<open>The encoder of JSON, \<^verbatim>\<open>JsonEncoder\<close>: an element, and an entry with its key.\<close>

definition seq_entry :: "(JsonEncoder \<Rightarrow> JsonEncoder) \<Rightarrow> JsonEncoder \<Rightarrow> JsonEncoder" where
  "seq_entry put e = put (sep e)"

definition map_entry :: "string \<Rightarrow> (JsonEncoder \<Rightarrow> JsonEncoder) \<Rightarrow> JsonEncoder \<Rightarrow> JsonEncoder" where
  "map_entry k put e = put (push_str '':'' (let e = sep e in e\<lparr>out := write_string (out e) k\<rparr>))"

definition encode_null :: "JsonEncoder \<Rightarrow> JsonEncoder" where
  "encode_null e = push_str ''null'' e"

definition encode_str :: "string \<Rightarrow> JsonEncoder \<Rightarrow> JsonEncoder" where
  "encode_str s e = e\<lparr>out := write_string (out e) s\<rparr>"

text \<open>\<^verbatim>\<open>Encode::encode_to\<close> of the containers, and of every type.\<close>

definition option_to :: "('f dyn \<Rightarrow> JsonEncoder \<Rightarrow> JsonEncoder) \<Rightarrow> 'f dyn \<Rightarrow> JsonEncoder \<Rightarrow> JsonEncoder" where
  "option_to put x e = (case x of D_some y \<Rightarrow> put y e | _ \<Rightarrow> encode_null e)"

definition vec_to :: "('f dyn \<Rightarrow> JsonEncoder \<Rightarrow> JsonEncoder) \<Rightarrow> 'f dyn \<Rightarrow> JsonEncoder \<Rightarrow> JsonEncoder" where
  "vec_to put x e = (case x of D_vec xs \<Rightarrow> end_seq (fold (\<lambda>y. seq_entry (put y)) xs (begin_seq e)) | _ \<Rightarrow> encode_null e)"

definition map_to :: "('f dyn \<Rightarrow> JsonEncoder \<Rightarrow> JsonEncoder) \<Rightarrow> 'f dyn \<Rightarrow> JsonEncoder \<Rightarrow> JsonEncoder" where
  "map_to put x e = (case x of D_map kvs \<Rightarrow> end_map (fold (\<lambda>(k, y). map_entry k (put y)) kvs (begin_map e)) | _ \<Rightarrow> encode_null e)"

definition enum_to :: "string list \<Rightarrow> 'f dyn \<Rightarrow> JsonEncoder \<Rightarrow> JsonEncoder" where
  "enum_to ks x e = (case x of D_enum i \<Rightarrow> encode_str (ks ! i) e | _ \<Rightarrow> encode_null e)"

fun encode_to :: "'f float_ops \<Rightarrow> ty \<Rightarrow> 'f dyn \<Rightarrow> JsonEncoder \<Rightarrow> JsonEncoder"
  and fields_to :: "'f float_ops \<Rightarrow> string option \<Rightarrow> (member \<times> ty) list \<Rightarrow> 'f dyn list \<Rightarrow> JsonEncoder \<Rightarrow> JsonEncoder" where
  "encode_to F Bool_t x e = (case x of D_bool b \<Rightarrow> push_str (if b then ''true'' else ''false'') e | _ \<Rightarrow> encode_null e)"
| "encode_to F (Signed_t w) x e = (case x of D_int i \<Rightarrow> e\<lparr>out := write_i64 (out e) (word_of_int i)\<rparr> | _ \<Rightarrow> encode_null e)"
| "encode_to F (Unsigned_t w) x e = (case x of D_int i \<Rightarrow> e\<lparr>out := write_u64 (out e) (word_of_int i)\<rparr> | _ \<Rightarrow> encode_null e)"
| "encode_to F F64_t x e = (case x of D_float f \<Rightarrow> e\<lparr>out := write_json_f64 F (out e) f\<rparr> | _ \<Rightarrow> encode_null e)"
| "encode_to F F32_t x e = (case x of D_float f \<Rightarrow> e\<lparr>out := write_json_f64 F (out e) f\<rparr> | _ \<Rightarrow> encode_null e)"
| "encode_to F String_t x e = (case x of D_str s \<Rightarrow> encode_str s e | _ \<Rightarrow> encode_null e)"
| "encode_to F Char_t x e = (case x of D_str s \<Rightarrow> encode_str s e | _ \<Rightarrow> encode_null e)"
| "encode_to F Unit_t x e = encode_null e"
| "encode_to F Value_t x e = (case x of D_value v \<Rightarrow> emit_value F v e | _ \<Rightarrow> encode_null e)"
| "encode_to F (Option_t t) x e = option_to (\<lambda>y e. encode_to F t y e) x e"
| "encode_to F (Vec_t t) x e = vec_to (\<lambda>y e. encode_to F t y e) x e"
| "encode_to F (Box_t t) x e = encode_to F t x e"
| "encode_to F (Map_t t) x e = map_to (\<lambda>y e. encode_to F t y e) x e"
| "encode_to F (Struct_t ra fs) x e = (case x of D_struct xs \<Rightarrow> end_map (fields_to F ra fs xs (begin_map e)) | _ \<Rightarrow> encode_null e)"
| "encode_to F (Enum_t ra ms) x e = enum_to (map (wire_key ra) ms) x e"
| "fields_to F ra [] xs e = e"
| "fields_to F ra ((m, t) # fs) xs e = (case xs of
     [] \<Rightarrow> e
   | x # xs' \<Rightarrow> fields_to F ra fs xs'
       (if mb_skip_none m \<and> x = D_none then e else map_entry (wire_key ra m) (\<lambda>e. encode_to F t x e) e))"

definition json_encode :: "'f float_ops \<Rightarrow> ty \<Rightarrow> 'f dyn \<Rightarrow> string" where
  "json_encode F t x = out (encode_to F t x encoder_new)"

section \<open>Decoding from a value\<close>

definition decode_bool :: "'f Value \<Rightarrow> ('f dyn, CodecError) result" where
  "decode_bool v = (case v of
     Bool b \<Rightarrow> Ok (D_bool b)
   | Str s \<Rightarrow> if trim s = ''true'' then Ok (D_bool True) else if trim s = ''false'' then Ok (D_bool False) else Err (Expected ''bool'')
   | _ \<Rightarrow> Err (Expected ''bool''))"

definition decode_signed :: "'f float_casts \<Rightarrow> signed_ty \<Rightarrow> 'f Value \<Rightarrow> ('f dyn, CodecError) result" where
  "decode_signed C w v =
     (let n = (case v of
        IntV i \<Rightarrow> Ok i
      | UInt u \<Rightarrow> if unat u < 2 ^ 63 then Ok u else Err (OutOfRange (signed_name w))
      | Float f \<Rightarrow> Ok (f_as_i64 C f)
      | Str s \<Rightarrow> (case parse_i64 (trim s) of Some i \<Rightarrow> Ok i | None \<Rightarrow> Err (Expected ''integer''))
      | _ \<Rightarrow> Err (Expected ''integer''))
      in case n of
           Err e \<Rightarrow> Err e
         | Ok i \<Rightarrow> if - (2 ^ (signed_bits w - 1)) \<le> sint i \<and> sint i < 2 ^ (signed_bits w - 1) then Ok (D_int (sint i))
             else Err (OutOfRange (signed_name w)))"

definition decode_unsigned :: "'f float_casts \<Rightarrow> unsigned_ty \<Rightarrow> 'f Value \<Rightarrow> ('f dyn, CodecError) result" where
  "decode_unsigned C w v =
     (let n = (case v of
        UInt u \<Rightarrow> Ok u
      | IntV i \<Rightarrow> if sint i \<ge> 0 then Ok i else Err (Expected ''unsigned integer'')
      | Float f \<Rightarrow> if f_ge_zero C f then Ok (f_as_u64 C f) else Err (Expected ''unsigned integer'')
      | Str s \<Rightarrow> (case parse_u64 (trim s) of Some u \<Rightarrow> Ok u | None \<Rightarrow> Err (Expected ''unsigned integer''))
      | _ \<Rightarrow> Err (Expected ''unsigned integer''))
      in case n of
           Err e \<Rightarrow> Err e
         | Ok u \<Rightarrow> if uint u < 2 ^ unsigned_bits w then Ok (D_int (uint u)) else Err (OutOfRange (unsigned_name w)))"

definition decode_f64 :: "'f float_ops \<Rightarrow> 'f float_casts \<Rightarrow> 'f Value \<Rightarrow> ('f dyn, CodecError) result" where
  "decode_f64 F C v = (case v of
     Float f \<Rightarrow> Ok (D_float f)
   | IntV i \<Rightarrow> Ok (D_float (i64_as_f C i))
   | UInt u \<Rightarrow> Ok (D_float (u64_as_f C u))
   | Str s \<Rightarrow> (case f_parse F (trim s) of Some f \<Rightarrow> Ok (D_float f) | None \<Rightarrow> Err (Expected ''number''))
   | _ \<Rightarrow> Err (Expected ''number''))"

definition decode_f32 :: "'f float_ops \<Rightarrow> 'f float_casts \<Rightarrow> 'f Value \<Rightarrow> ('f dyn, CodecError) result" where
  "decode_f32 F C v = (case v of
     Float f \<Rightarrow> Ok (D_float (f_as_f32 C f))
   | IntV i \<Rightarrow> Ok (D_float (i64_as_f32 C i))
   | UInt u \<Rightarrow> Ok (D_float (u64_as_f32 C u))
   | Str s \<Rightarrow> (case f_parse F (trim s) of Some f \<Rightarrow> Ok (D_float (f_as_f32 C f)) | None \<Rightarrow> Err (Expected ''number''))
   | _ \<Rightarrow> Err (Expected ''number''))"

definition decode_str :: "'f Value \<Rightarrow> ('f dyn, CodecError) result" where
  "decode_str v = (case as_str v of Some s \<Rightarrow> Ok (D_str s) | None \<Rightarrow> Err (Expected ''string''))"

definition decode_char :: "'f Value \<Rightarrow> ('f dyn, CodecError) result" where
  "decode_char v = (case as_str v of
     Some s \<Rightarrow> (case str_chars s of [c] \<Rightarrow> Ok (D_str c) | _ \<Rightarrow> Err (Expected ''single-character string''))
   | None \<Rightarrow> Err (Expected ''single-character string''))"

definition decode_option :: "('f Value \<Rightarrow> ('f dyn, CodecError) result) \<Rightarrow> 'f Value \<Rightarrow> ('f dyn, CodecError) result" where
  "decode_option dec v = (case v of
     Null \<Rightarrow> Ok D_none
   | _ \<Rightarrow> (case dec v of Err e \<Rightarrow> Err e | Ok x \<Rightarrow> Ok (D_some x)))"

text \<open>\<^verbatim>\<open>iter().map(..).collect()\<close> into a result: the first error, or everything.\<close>

fun collect_results :: "('a \<Rightarrow> ('b, 'e) result) \<Rightarrow> 'a list \<Rightarrow> ('b list, 'e) result" where
  "collect_results f [] = Ok []"
| "collect_results f (x # xs) = (case f x of
     Err e \<Rightarrow> Err e
   | Ok y \<Rightarrow> (case collect_results f xs of Err e \<Rightarrow> Err e | Ok ys \<Rightarrow> Ok (y # ys)))"

definition decode_vec :: "('f Value \<Rightarrow> ('f dyn, CodecError) result) \<Rightarrow> 'f Value \<Rightarrow> ('f dyn, CodecError) result" where
  "decode_vec dec v = (case v of
     Null \<Rightarrow> Ok (D_vec [])
   | Array a \<Rightarrow> (case collect_results dec a of Err e \<Rightarrow> Err e | Ok xs \<Rightarrow> Ok (D_vec xs))
   | _ \<Rightarrow> (case dec v of Err e \<Rightarrow> Err e | Ok x \<Rightarrow> Ok (D_vec [x])))"

text \<open>\<^verbatim>\<open>HashMap::insert\<close> replaces the value of a key that is there.\<close>

fun hm_insert :: "string \<Rightarrow> 'a \<Rightarrow> (string \<times> 'a) list \<Rightarrow> (string \<times> 'a) list" where
  "hm_insert k x [] = [(k, x)]"
| "hm_insert k x ((l, y) # m) = (if l = k then (k, x) # m else (l, y) # hm_insert k x m)"

definition decode_map :: "('f Value \<Rightarrow> ('f dyn, CodecError) result) \<Rightarrow> 'f Value \<Rightarrow> ('f dyn, CodecError) result" where
  "decode_map dec v = (case as_object v of
     None \<Rightarrow> Err (Expected ''object'')
   | Some obj \<Rightarrow> (case collect_results (\<lambda>(k, v). case dec v of Err e \<Rightarrow> Err e | Ok x \<Rightarrow> Ok (k, x)) obj of
       Err e \<Rightarrow> Err e
     | Ok kvs \<Rightarrow> Ok (D_map (fold (\<lambda>(k, x). hm_insert k x) kvs []))))"

text \<open>
  What \<^verbatim>\<open>#[derive(Decode)]\<close> generates for a struct: a slot per field, filled by the arm of the first field with the key, then
  the fields built from the slots.
\<close>

fun fill_slot :: "string \<Rightarrow> string list \<Rightarrow> 'a \<Rightarrow> 'a option list \<Rightarrow> 'a option list" where
  "fill_slot k (l # ls) x (s # ss) = (if l = k then Some x # ss else s # fill_slot k ls x ss)"
| "fill_slot k _ x ss = ss"

fun scan_fields :: "(string \<times> ('f Value \<Rightarrow> ('f dyn, CodecError) result)) list \<Rightarrow> (string \<times> 'f Value) list \<Rightarrow> 'f dyn option list \<Rightarrow>
    ('f dyn option list, CodecError) result" where
  "scan_fields ds [] slots = Ok slots"
| "scan_fields ds ((k, v) # obj) slots = (case map_of ds k of
     None \<Rightarrow> scan_fields ds obj slots
   | Some dec \<Rightarrow> (case dec v of
       Err e \<Rightarrow> Err e
     | Ok x \<Rightarrow> scan_fields ds obj (fill_slot k (map fst ds) x slots)))"

fun build_fields :: "(string \<times> bool) list \<Rightarrow> 'f dyn option list \<Rightarrow> ('f dyn list, CodecError) result" where
  "build_fields ((k, opt) # fs) (s # ss) =
     (case (if opt then Ok (case s of Some x \<Rightarrow> x | None \<Rightarrow> D_none)
            else case s of Some x \<Rightarrow> Ok x | None \<Rightarrow> Err (MissingField k)) of
        Err e \<Rightarrow> Err e
      | Ok x \<Rightarrow> (case build_fields fs ss of Err e \<Rightarrow> Err e | Ok xs \<Rightarrow> Ok (x # xs)))"
| "build_fields _ _ = Ok []"

definition decode_struct :: "(string \<times> bool) list \<Rightarrow> (string \<times> ('f Value \<Rightarrow> ('f dyn, CodecError) result)) list \<Rightarrow> 'f Value \<Rightarrow>
    ('f dyn, CodecError) result" where
  "decode_struct plan ds v = (case as_object v of
     None \<Rightarrow> Err (Expected ''object'')
   | Some obj \<Rightarrow> (case scan_fields ds obj (replicate (length ds) None) of
       Err e \<Rightarrow> Err e
     | Ok slots \<Rightarrow> (case build_fields plan slots of Err e \<Rightarrow> Err e | Ok xs \<Rightarrow> Ok (D_struct xs))))"

fun variant_of :: "string list \<Rightarrow> string \<Rightarrow> nat option" where
  "variant_of [] s = None"
| "variant_of (k # ks) s = (if k = s then Some 0 else map_option Suc (variant_of ks s))"

definition decode_variant :: "string list \<Rightarrow> string \<Rightarrow> ('f dyn, CodecError) result" where
  "decode_variant ks s = (case variant_of ks s of Some i \<Rightarrow> Ok (D_enum i) | None \<Rightarrow> Err (UnknownVariant s))"

definition decode_enum :: "string list \<Rightarrow> 'f Value \<Rightarrow> ('f dyn, CodecError) result" where
  "decode_enum ks v = (case as_str v of None \<Rightarrow> Err (Expected ''string'') | Some s \<Rightarrow> decode_variant ks s)"

definition field_plan :: "string option \<Rightarrow> (member \<times> ty) list \<Rightarrow> (string \<times> bool) list" where
  "field_plan ra fs = map (\<lambda>(m, t). (wire_key ra m, is_option t)) fs"

text \<open>\<^verbatim>\<open>Decode::decode\<close>\<close>

fun decode :: "'f float_ops \<Rightarrow> 'f float_casts \<Rightarrow> ty \<Rightarrow> 'f Value \<Rightarrow> ('f dyn, CodecError) result"
  and field_decoders :: "'f float_ops \<Rightarrow> 'f float_casts \<Rightarrow> string option \<Rightarrow> (member \<times> ty) list \<Rightarrow>
    (string \<times> ('f Value \<Rightarrow> ('f dyn, CodecError) result)) list" where
  "decode F C Bool_t v = decode_bool v"
| "decode F C (Signed_t w) v = decode_signed C w v"
| "decode F C (Unsigned_t w) v = decode_unsigned C w v"
| "decode F C F64_t v = decode_f64 F C v"
| "decode F C F32_t v = decode_f32 F C v"
| "decode F C String_t v = decode_str v"
| "decode F C Char_t v = decode_char v"
| "decode F C Unit_t v = Ok D_unit"
| "decode F C Value_t v = Ok (D_value v)"
| "decode F C (Option_t t) v = decode_option (\<lambda>v. decode F C t v) v"
| "decode F C (Vec_t t) v = decode_vec (\<lambda>v. decode F C t v) v"
| "decode F C (Box_t t) v = decode F C t v"
| "decode F C (Map_t t) v = decode_map (\<lambda>v. decode F C t v) v"
| "decode F C (Struct_t ra fs) v = decode_struct (field_plan ra fs) (field_decoders F C ra fs) v"
| "decode F C (Enum_t ra ms) v = decode_enum (map (wire_key ra) ms) v"
| "field_decoders F C ra [] = []"
| "field_decoders F C ra ((m, t) # fs) = (wire_key ra m, \<lambda>v. decode F C t v) # field_decoders F C ra fs"

section \<open>Decoding from text\<close>

text \<open>
  The streaming side of the JSON parser. \<open>depth\<close> is \<^verbatim>\<open>self.depth\<close>; the first argument is fuel for the parser and for the
  loops.
\<close>

type_synonym 'a pull = "nat \<Rightarrow> string \<Rightarrow> 'a parsed option"

definition decode_value :: "nat \<Rightarrow> 'f float_ops \<Rightarrow> 'f Value pull" where
  "decode_value n F depth r = parse_value n F depth (skip_ws r)"

definition decode_string :: "string \<Rightarrow> string parsed" where
  "decode_string r = (case skip_ws r of
     b # r' \<Rightarrow> if b = CHR 0x22 then parse_string (b # r') else Err (Expected ''string'')
   | [] \<Rightarrow> Err (Expected ''string''))"

definition peek_null :: "string \<Rightarrow> bool" where
  "peek_null r \<longleftrightarrow> take 4 (skip_ws r) = ''null''"

definition decode_null :: "string \<Rightarrow> unit parsed" where
  "decode_null r = (case take_literal ''null'' (skip_ws r) of Some r' \<Rightarrow> Ok ((), r') | None \<Rightarrow> Err (Expected ''null''))"

text \<open>The closure sees what it has built so far, the rest of the input, and the depth.\<close>

fun seq_loop :: "nat \<Rightarrow> ('a \<Rightarrow> string \<Rightarrow> 'a parsed option) \<Rightarrow> 'a \<Rightarrow> string \<Rightarrow> 'a parsed option" where
  "seq_loop 0 f acc r = None"
| "seq_loop (Suc n) f acc r = (case f acc r of
     None \<Rightarrow> None
   | Some (Err e) \<Rightarrow> Some (Err e)
   | Some (Ok (acc', r1)) \<Rightarrow>
       (case eat (CHR '','') (skip_ws r1) of
          Some r2 \<Rightarrow> seq_loop n f acc' r2
        | None \<Rightarrow> (case eat (CHR '']'') (skip_ws r1) of
            Some r2 \<Rightarrow> Some (Ok (acc', r2))
          | None \<Rightarrow> Some (Err (Parse (''expected '' @ [CHR 0x27] @ '','' @ [CHR 0x27] @ '' or '' @
              [CHR 0x27] @ '']'' @ [CHR 0x27] @ '' in array''))))))"

definition read_seq :: "nat \<Rightarrow> ('a \<Rightarrow> 'a pull) \<Rightarrow> 'a \<Rightarrow> 'a pull" where
  "read_seq n f acc depth r = (case expect (CHR ''['') (skip_ws r) of
     Err e \<Rightarrow> Some (Err e)
   | Ok (_, r1) \<Rightarrow>
       if depth + 1 > max_depth then Some (Err (Parse ''nesting too deep''))
       else (case eat (CHR '']'') (skip_ws r1) of
         Some r2 \<Rightarrow> Some (Ok (acc, r2))
       | None \<Rightarrow> seq_loop n (\<lambda>acc. f acc (depth + 1)) acc (skip_ws r1)))"

fun map_loop :: "nat \<Rightarrow> (string \<Rightarrow> 'a \<Rightarrow> string \<Rightarrow> 'a parsed option) \<Rightarrow> 'a \<Rightarrow> string \<Rightarrow> 'a parsed option" where
  "map_loop 0 f acc r = None"
| "map_loop (Suc n) f acc r =
     (let r = skip_ws r
      in if eat (CHR 0x22) r = None then Some (Err (Parse ''expected object key''))
         else case parse_string r of
           Err e \<Rightarrow> Some (Err e)
         | Ok (key, r1) \<Rightarrow>
             (case expect (CHR '':'') (skip_ws r1) of
                Err e \<Rightarrow> Some (Err e)
              | Ok (_, r2) \<Rightarrow>
                  (case f key acc r2 of
                     None \<Rightarrow> None
                   | Some (Err e) \<Rightarrow> Some (Err e)
                   | Some (Ok (acc', r3)) \<Rightarrow>
                       (case eat (CHR '','') (skip_ws r3) of
                          Some r4 \<Rightarrow> map_loop n f acc' r4
                        | None \<Rightarrow> (case eat (CHR ''}'') (skip_ws r3) of
                            Some r4 \<Rightarrow> Some (Ok (acc', r4))
                          | None \<Rightarrow> Some (Err (Parse (''expected '' @ [CHR 0x27] @ '','' @ [CHR 0x27] @
                              '' or '' @ [CHR 0x27] @ ''}'' @ [CHR 0x27] @ '' in object'')))))))) "

definition read_map :: "nat \<Rightarrow> (string \<Rightarrow> 'a \<Rightarrow> 'a pull) \<Rightarrow> 'a \<Rightarrow> 'a pull" where
  "read_map n f acc depth r = (case expect (CHR ''{'') (skip_ws r) of
     Err e \<Rightarrow> Some (Err e)
   | Ok (_, r1) \<Rightarrow>
       if depth + 1 > max_depth then Some (Err (Parse ''nesting too deep''))
       else (case eat (CHR ''}'') (skip_ws r1) of
         Some r2 \<Rightarrow> Some (Ok (acc, r2))
       | None \<Rightarrow> map_loop n (\<lambda>k acc. f k acc (depth + 1)) acc (skip_ws r1)))"

definition skip_value :: "nat \<Rightarrow> 'f float_ops \<Rightarrow> unit pull" where
  "skip_value n F depth r = map_option (\<lambda>p. case p of Err e \<Rightarrow> Err e | Ok (_, r') \<Rightarrow> Ok ((), r')) (parse_value n F depth (skip_ws r))"

text \<open>The default of \<^verbatim>\<open>decode_from\<close>: pull a value and decode it.\<close>

definition via_value :: "nat \<Rightarrow> 'f float_ops \<Rightarrow> ('f Value \<Rightarrow> ('f dyn, CodecError) result) \<Rightarrow> 'f dyn pull" where
  "via_value n F dec depth r = (case decode_value n F depth r of
     None \<Rightarrow> None
   | Some (Err e) \<Rightarrow> Some (Err e)
   | Some (Ok (v, r')) \<Rightarrow> Some (case dec v of Err e \<Rightarrow> Err e | Ok x \<Rightarrow> Ok (x, r')))"

definition option_from :: "'f dyn pull \<Rightarrow> 'f dyn pull" where
  "option_from pull depth r =
     (if peek_null r then Some (case decode_null r of Err e \<Rightarrow> Err e | Ok (_, r') \<Rightarrow> Ok (D_none, r'))
      else case pull depth (skip_ws r) of
        None \<Rightarrow> None
      | Some (Err e) \<Rightarrow> Some (Err e)
      | Some (Ok (x, r')) \<Rightarrow> Some (Ok (D_some x, r')))"

definition vec_from :: "nat \<Rightarrow> 'f dyn pull \<Rightarrow> 'f dyn pull" where
  "vec_from n pull depth r = map_option (\<lambda>p. case p of Err e \<Rightarrow> Err e | Ok (xs, r') \<Rightarrow> Ok (D_vec xs, r'))
     (read_seq n (\<lambda>xs depth r. map_option (\<lambda>p. case p of Err e \<Rightarrow> Err e | Ok (x, r') \<Rightarrow> Ok (xs @ [x], r')) (pull depth r)) [] depth r)"

definition map_from :: "nat \<Rightarrow> 'f dyn pull \<Rightarrow> 'f dyn pull" where
  "map_from n pull depth r = map_option (\<lambda>p. case p of Err e \<Rightarrow> Err e | Ok (kvs, r') \<Rightarrow> Ok (D_map kvs, r'))
     (read_map n (\<lambda>k kvs depth r. map_option (\<lambda>p. case p of Err e \<Rightarrow> Err e | Ok (x, r') \<Rightarrow> Ok (hm_insert k x kvs, r')) (pull depth r))
        [] depth r)"

definition field_from :: "nat \<Rightarrow> 'f float_ops \<Rightarrow> (string \<times> 'f dyn pull) list \<Rightarrow> string \<Rightarrow> 'f dyn option list \<Rightarrow> 'f dyn option list pull" where
  "field_from n F ps k slots depth r = (case map_of ps k of
     None \<Rightarrow> map_option (\<lambda>p. case p of Err e \<Rightarrow> Err e | Ok (_, r') \<Rightarrow> Ok (slots, r')) (skip_value n F depth r)
   | Some pull \<Rightarrow> map_option (\<lambda>p. case p of Err e \<Rightarrow> Err e | Ok (x, r') \<Rightarrow> Ok (fill_slot k (map fst ps) x slots, r')) (pull depth r))"

definition struct_from :: "nat \<Rightarrow> 'f float_ops \<Rightarrow> (string \<times> bool) list \<Rightarrow> (string \<times> 'f dyn pull) list \<Rightarrow> 'f dyn pull" where
  "struct_from n F plan ps depth r = (case read_map n (field_from n F ps) (replicate (length ps) None) depth r of
     None \<Rightarrow> None
   | Some (Err e) \<Rightarrow> Some (Err e)
   | Some (Ok (slots, r')) \<Rightarrow> Some (case build_fields plan slots of Err e \<Rightarrow> Err e | Ok xs \<Rightarrow> Ok (D_struct xs, r')))"

definition enum_from :: "string list \<Rightarrow> 'f dyn pull" where
  "enum_from ks depth r = Some (case decode_string r of
     Err e \<Rightarrow> Err e
   | Ok (s, r') \<Rightarrow> (case decode_variant ks s of Err e \<Rightarrow> Err e | Ok x \<Rightarrow> Ok (x, r')))"

text \<open>\<^verbatim>\<open>Decode::decode_from\<close>\<close>

fun decode_from :: "nat \<Rightarrow> 'f float_ops \<Rightarrow> 'f float_casts \<Rightarrow> ty \<Rightarrow> 'f dyn pull"
  and field_pulls :: "nat \<Rightarrow> 'f float_ops \<Rightarrow> 'f float_casts \<Rightarrow> string option \<Rightarrow> (member \<times> ty) list \<Rightarrow> (string \<times> 'f dyn pull) list" where
  "decode_from n F C String_t depth r = Some (case decode_string r of Err e \<Rightarrow> Err e | Ok (s, r') \<Rightarrow> Ok (D_str s, r'))"
| "decode_from n F C (Option_t t) depth r = option_from (\<lambda>depth r. decode_from n F C t depth r) depth r"
| "decode_from n F C (Vec_t t) depth r = vec_from n (\<lambda>depth r. decode_from n F C t depth r) depth r"
| "decode_from n F C (Box_t t) depth r = decode_from n F C t depth r"
| "decode_from n F C (Map_t t) depth r = map_from n (\<lambda>depth r. decode_from n F C t depth r) depth r"
| "decode_from n F C (Struct_t ra fs) depth r = struct_from n F (field_plan ra fs) (field_pulls n F C ra fs) depth r"
| "decode_from n F C (Enum_t ra ms) depth r = enum_from (map (wire_key ra) ms) depth r"
| "decode_from n F C t depth r = via_value n F (decode F C t) depth r"
| "field_pulls n F C ra [] = []"
| "field_pulls n F C ra ((m, t) # fs) = (wire_key ra m, \<lambda>depth r. decode_from n F C t depth r) # field_pulls n F C ra fs"

definition json_decode :: "'f float_ops \<Rightarrow> 'f float_casts \<Rightarrow> ty \<Rightarrow> string \<Rightarrow> ('f dyn, CodecError) result option" where
  "json_decode F C t input = (case decode_from (2 * length input + 2) F C t 0 input of
     None \<Rightarrow> None
   | Some (Err e) \<Rightarrow> Some (Err e)
   | Some (Ok (x, r)) \<Rightarrow>
       Some (if skip_ws r \<noteq> [] then Err (Parse ''trailing characters after JSON value'') else Ok x))"

end
