(* ===== verification/Codec_Traits_Correct.thy ===== *)
theory Codec_Traits_Correct
  imports Codec_Traits
begin

text \<open>
  Typed codecs are correct: writing a value field by field gives the text of its tree, and reading, from a tree or straight
  from the text, gives the value back.
\<close>

section \<open>Streaming writes the text of the tree\<close>

lemma fold_seq_entry:
  "(\<And>x e. x \<in> set xs \<Longrightarrow> put x e = emit_value F (h x) e) \<Longrightarrow> fold (\<lambda>x. seq_entry (put x)) xs e = seq_entries F (map h xs) e"
  by (induction xs arbitrary: e) (simp_all add: seq_entry_def)

lemma fold_map_entry:
  "(\<And>k x e. (k, x) \<in> set kvs \<Longrightarrow> put x e = emit_value F (h x) e) \<Longrightarrow>
   fold (\<lambda>(k, x). map_entry k (put x)) kvs e = map_entries F (map (\<lambda>(k, x). (k, h x)) kvs) e"
proof (induction kvs arbitrary: e)
  case (Cons p kvs)
  obtain k x where p: "p = (k, x)" by (cases p)
  have "fold (\<lambda>(k, x). map_entry k (put x)) kvs e' = map_entries F (map (\<lambda>(k, x). (k, h x)) kvs) e'" for e'
    by (rule Cons.IH) (rule Cons.prems [OF list.set_intros(2)])
  moreover have "map_entry k (put x) e = emit_value F (h x) (push_str '':'' (let e = sep e in e\<lparr>out := write_string (out e) k\<rparr>))"
    unfolding map_entry_def by (rule Cons.prems [of k]) (simp add: p)
  ultimately show ?case using p by simp
qed simp

lemma encode_to_eq:
  "encode_to F t x e = emit_value F (encode t x) e"
  "fields_to F ra fs xs e = map_entries F (encode_fields ra fs xs) e"
proof (induction F t x e and F ra fs xs e rule: encode_to_fields_to.induct)
  case (11 F t x e)
  then show ?case
    by (auto simp: vec_to_def encode_null_def split: dyn.splits intro!: arg_cong [of _ _ end_seq] fold_seq_entry)
next
  case (13 F t x e)
  then show ?case
    by (auto simp: map_to_def encode_null_def split: dyn.splits intro!: arg_cong [of _ _ end_map] fold_map_entry)
next
  case (17 F ra m t fs xs e)
  then show ?case by (auto simp: map_entry_def split: list.splits)
qed (auto simp: option_to_def enum_to_def encode_null_def encode_str_def split: dyn.splits)

lemma json_encode_eq: "json_encode F t x = to_string F (encode t x)"
  by (simp add: json_encode_def to_string_def encode_to_eq)

section \<open>The values of a type\<close>

text \<open>
  The values that survive: integers in range, finite numbers (for \<^verbatim>\<open>f32\<close> those it has), single characters, maps and structs with distinct keys. A value
  inside an \<^verbatim>\<open>Option\<close> must not look like an absent one, and a raw \<^verbatim>\<open>Value\<close> must be one that JSON can tell from what it
  reads back.
\<close>

fun fits :: "'f float_ops \<Rightarrow> 'f float_casts \<Rightarrow> ty \<Rightarrow> 'f dyn \<Rightarrow> bool"
  and fields_fit :: "'f float_ops \<Rightarrow> 'f float_casts \<Rightarrow> (member \<times> ty) list \<Rightarrow> 'f dyn list \<Rightarrow> bool" where
  "fits F C Bool_t x = (case x of D_bool b \<Rightarrow> True | _ \<Rightarrow> False)"
| "fits F C (Signed_t w) x = (case x of D_int i \<Rightarrow> - (2 ^ (signed_bits w - 1)) \<le> i \<and> i < 2 ^ (signed_bits w - 1) | _ \<Rightarrow> False)"
| "fits F C (Unsigned_t w) x = (case x of D_int i \<Rightarrow> 0 \<le> i \<and> i < 2 ^ unsigned_bits w | _ \<Rightarrow> False)"
| "fits F C F64_t x = (case x of D_float f \<Rightarrow> f_finite F f | _ \<Rightarrow> False)"
| "fits F C F32_t x = (case x of D_float f \<Rightarrow> f_finite F f \<and> f_as_f32 C f = f | _ \<Rightarrow> False)"
| "fits F C String_t x = (case x of D_str s \<Rightarrow> True | _ \<Rightarrow> False)"
| "fits F C Char_t x = (case x of D_str s \<Rightarrow> is_char s | _ \<Rightarrow> False)"
| "fits F C Unit_t x = (case x of D_unit \<Rightarrow> True | _ \<Rightarrow> False)"
| "fits F C Value_t x = (case x of D_value v \<Rightarrow> normal F v = v | _ \<Rightarrow> False)"
| "fits F C (Option_t t) x = (case x of D_none \<Rightarrow> True | D_some y \<Rightarrow> fits F C t y \<and> encode t y \<noteq> Null | _ \<Rightarrow> False)"
| "fits F C (Vec_t t) x = (case x of D_vec xs \<Rightarrow> list_all (\<lambda>y. fits F C t y) xs | _ \<Rightarrow> False)"
| "fits F C (Box_t t) x = fits F C t x"
| "fits F C (Map_t t) x = (case x of D_map kvs \<Rightarrow> distinct (map fst kvs) \<and> list_all (\<lambda>(k, y). fits F C t y) kvs | _ \<Rightarrow> False)"
| "fits F C (Struct_t ra fs) x =
     (case x of D_struct xs \<Rightarrow> distinct (map (\<lambda>(m, t). wire_key ra m) fs) \<and> fields_fit F C fs xs | _ \<Rightarrow> False)"
| "fits F C (Enum_t ra ms) x = (case x of D_enum i \<Rightarrow> i < length ms \<and> distinct (map (wire_key ra) ms) | _ \<Rightarrow> False)"
| "fields_fit F C [] xs = (xs = [])"
| "fields_fit F C ((m, t) # fs) xs = (case xs of
     [] \<Rightarrow> False
   | x # xs' \<Rightarrow> fits F C t x \<and> (mb_skip_none m \<longrightarrow> is_option t) \<and> fields_fit F C fs xs')"

text \<open>The entries a struct is written as.\<close>

fun present :: "string option \<Rightarrow> (member \<times> ty) list \<Rightarrow> 'f dyn list \<Rightarrow> (string \<times> ty \<times> 'f dyn) list" where
  "present ra ((m, t) # fs) (x # xs) = (if mb_skip_none m \<and> x = D_none then [] else [(wire_key ra m, t, x)]) @ present ra fs xs"
| "present ra _ _ = []"

fun slots_of :: "(member \<times> ty) list \<Rightarrow> 'f dyn list \<Rightarrow> 'f dyn option list" where
  "slots_of ((m, t) # fs) (x # xs) = (if mb_skip_none m \<and> x = D_none then None else Some x) # slots_of fs xs"
| "slots_of _ _ = []"

lemma encode_fields_present: "encode_fields ra fs xs = map (\<lambda>(k, t, x). (k, encode t x)) (present ra fs xs)"
proof (induction fs arbitrary: xs)
  case (Cons p fs)
  then show ?case by (cases p; cases xs) auto
qed simp

lemma present_fits: "fields_fit F C fs xs \<Longrightarrow> (k, t, x) \<in> set (present ra fs xs) \<Longrightarrow> fits F C t x \<and> (\<exists>m. (m, t) \<in> set fs \<and> k = wire_key ra m)"
  by (induction ra fs xs rule: present.induct) (auto split: if_splits)

lemma fill_other: "\<forall>(k, t, x)\<in>set es. k \<noteq> l \<Longrightarrow>
  foldl (\<lambda>ss (k, t, x). fill_slot k (l # ls) x ss) (s # ss) es = s # foldl (\<lambda>ss (k, t, x). fill_slot k ls x ss) ss es"
  by (induction es arbitrary: ss) auto

lemma fill_present:
  "distinct (map (\<lambda>(m, t). wire_key ra m) fs) \<Longrightarrow> fields_fit F C fs xs \<Longrightarrow>
   foldl (\<lambda>ss (k, t, x). fill_slot k (map (\<lambda>(m, t). wire_key ra m) fs) x ss) (replicate (length fs) None) (present ra fs xs) = slots_of fs xs"
proof (induction fs arbitrary: xs)
  case (Cons p fs)
  obtain m t where p: "p = (m, t)" by (cases p)
  obtain x xs' where xs: "xs = x # xs'" using Cons.prems(2) p by (cases xs) auto
  have "\<forall>(k, t, x)\<in>set (present ra fs xs'). k \<noteq> wire_key ra m"
    using Cons.prems p xs present_fits [of F C fs xs'] by fastforce
  from fill_other [OF this] Cons.IH [of xs'] show ?case using Cons.prems p xs by simp
qed simp

lemma build_slots: "fields_fit F C fs xs \<Longrightarrow> build_fields (field_plan ra fs) (slots_of fs xs) = Ok xs"
  by (induction fs xs rule: slots_of.induct) (auto simp: field_plan_def split: option.splits)

lemma plan_length: "length (field_decoders F C ra fs) = length fs" "map fst (field_decoders F C ra fs) = map (\<lambda>(m, t). wire_key ra m) fs"
  "length (field_pulls n F C ra fs) = length fs" "map fst (field_pulls n F C ra fs) = map (\<lambda>(m, t). wire_key ra m) fs"
  by (induction fs) auto

lemma plan_lookup:
  "(m, t) \<in> set fs \<Longrightarrow> distinct (map (\<lambda>(m, t). wire_key ra m) fs) \<Longrightarrow> map_of (field_decoders F C ra fs) (wire_key ra m) = Some (decode F C t)"
  "(m, t) \<in> set fs \<Longrightarrow> distinct (map (\<lambda>(m, t). wire_key ra m) fs) \<Longrightarrow> map_of (field_pulls n F C ra fs) (wire_key ra m) = Some (decode_from n F C t)"
  by (induction fs) force+

lemma scan_present:
  "\<forall>(k, t, x)\<in>set es. map_of ds k = Some (dec t) \<and> dec t (g (encode t x)) = Ok x \<Longrightarrow>
   scan_fields ds (map (\<lambda>(k, t, x). (k, g (encode t x))) es) ss = Ok (foldl (\<lambda>ss (k, t, x). fill_slot k (map fst ds) x ss) ss es)"
  by (induction es arbitrary: ss) auto

lemma variant_of_nth: "i < length ks \<Longrightarrow> distinct ks \<Longrightarrow> variant_of ks (ks ! i) = Some i"
  by (induction ks arbitrary: i) (auto simp: nth_Cons split: nat.splits)

lemma hm_insert_new: "k \<notin> set (map fst m) \<Longrightarrow> hm_insert k x m = m @ [(k, x)]"
  by (induction m rule: hm_insert.induct) auto

lemma hm_collect: "distinct (map fst m @ map fst kvs) \<Longrightarrow> fold (\<lambda>(k, x). hm_insert k x) kvs m = m @ kvs"
  by (induction kvs arbitrary: m) (auto simp: hm_insert_new)

lemma collect_ok: "(\<And>x. x \<in> set xs \<Longrightarrow> f (h x) = Ok (p x)) \<Longrightarrow> collect_results f (map h xs) = Ok (map p xs)"
  by (induction xs) simp_all

lemma fits_float: "fits F C t x \<Longrightarrow> encode t x = Float f \<Longrightarrow> f_finite F f"
  by (induction t arbitrary: x) (auto split: dyn.splits if_splits)

section \<open>Reading a tree\<close>

text \<open>
  A way values travel: as they are, or through JSON text, which reads an unsigned number that fits as a signed one. Whatever a
  type writes into its tree, it reads back after the journey.
\<close>

locale transport =
  fixes F :: "'f float_ops" and g :: "'f Value \<Rightarrow> 'f Value"
  assumes t_null: "g Null = Null" and t_bool: "g (Bool b) = Bool b" and t_int: "g (IntV i) = IntV i"
    and t_uint: "g (UInt u) = UInt u \<or> unat u < 2 ^ 63 \<and> g (UInt u) = IntV u"
    and t_float: "f_finite F f \<Longrightarrow> g (Float f) = Float f" and t_str: "g (Str s) = Str s"
    and t_array: "g (Array vs) = Array (map g vs)" and t_object: "g (Object kvs) = Object (map (\<lambda>(k, v). (k, g v)) kvs)"
    and t_plain: "normal F v = v \<Longrightarrow> g v = v"
    and t_present: "v \<noteq> Null \<Longrightarrow> (\<And>f. v = Float f \<Longrightarrow> f_finite F f) \<Longrightarrow> g v \<noteq> Null"
begin

lemmas t_laws = t_null t_bool t_int t_float t_str t_array t_object

lemma signed_back:
  assumes "- (2 ^ (signed_bits w - 1)) \<le> i" "i < 2 ^ (signed_bits w - 1)"
  shows "decode_signed C w (g (IntV (word_of_int i))) = Ok (D_int i)"
proof -
  have "- (2 ^ 63) \<le> i" "i < 2 ^ 63" using assms by (cases w; simp)+
  then have "sint (word_of_int i :: i64) = i" by (simp add: sint_sbintrunc' signed_take_bit_int_eq_self)
  then show ?thesis using assms by (simp add: decode_signed_def t_int)
qed

lemma unsigned_back:
  assumes "0 \<le> i" "i < 2 ^ unsigned_bits w"
  shows "decode_unsigned C w (g (UInt (word_of_int i))) = Ok (D_int i)"
proof -
  have "i < 2 ^ 64" using assms by (cases w) simp_all
  then have u: "uint (word_of_int i :: u64) = i" using assms(1) by (simp add: uint_word_of_int_eq take_bit_int_eq_self)
  have "sint (word_of_int i :: i64) \<ge> 0" if "unat (word_of_int i :: u64) < 2 ^ 63" using that by (simp add: sint_i64)
  then show ?thesis using t_uint [of "word_of_int i"] assms u by (auto simp: decode_unsigned_def)
qed

lemma decode_transported: "fits F C t x \<Longrightarrow> decode F C t (g (encode t x)) = Ok x"
proof (induction t arbitrary: x)
  case (Signed_t w)
  then show ?case using signed_back by (auto split: dyn.splits)
next
  case (Unsigned_t w)
  then show ?case using unsigned_back by (auto split: dyn.splits)
next
  case (Option_t t)
  show ?case
  proof (cases x)
    case (D_some y)
    then have y: "fits F C t y" "encode t y \<noteq> Null" using Option_t.prems by simp_all
    have "g (encode t y) \<noteq> Null" using y fits_float by (intro t_present) blast+
    then show ?thesis using D_some Option_t.IH [OF y(1)] by (cases "g (encode t y)") (simp_all add: decode_option_def)
  qed (use Option_t.prems in \<open>simp_all add: decode_option_def t_null\<close>)
next
  case (Vec_t t)
  then obtain xs where xs: "x = D_vec xs" "\<forall>y\<in>set xs. fits F C t y" by (auto simp: list_all_iff split: dyn.splits)
  then have "collect_results (decode F C t) (map (\<lambda>y. g (encode t y)) xs) = Ok (map (\<lambda>y. y) xs)"
    by (intro collect_ok) (simp add: Vec_t.IH)
  then show ?case using xs by (simp add: decode_vec_def t_array comp_def)
next
  case (Map_t t)
  then obtain kvs where kvs: "x = D_map kvs" "distinct (map fst kvs)" "\<forall>(k, y)\<in>set kvs. fits F C t y"
    by (auto simp: list_all_iff split: dyn.splits)
  have "collect_results (\<lambda>(k, v). case decode F C t v of Err e \<Rightarrow> Err e | Ok x \<Rightarrow> Ok (k, x)) (map (\<lambda>(k, y). (k, g (encode t y))) kvs) =
      Ok (map (\<lambda>p. p) kvs)"
    using kvs(3) by (intro collect_ok) (auto simp: Map_t.IH)
  then show ?case using kvs hm_collect [of "[]" kvs] by (simp add: decode_map_def t_object case_prod_unfold comp_def)
next
  case (Struct_t ra fs)
  then obtain xs where xs: "x = D_struct xs" "distinct (map (\<lambda>(m, t). wire_key ra m) fs)" "fields_fit F C fs xs" by (auto split: dyn.splits)
  have "\<forall>(k, t, y)\<in>set (present ra fs xs). map_of (field_decoders F C ra fs) k = Some (decode F C t) \<and> decode F C t (g (encode t y)) = Ok y"
    using present_fits [OF xs(3)] plan_lookup(1) [OF _ xs(2), of _ _ F C] Struct_t.IH by (fastforce simp: snds.simps)
  from scan_present [OF this] show ?case
    using xs fill_present [OF xs(2,3)] build_slots [OF xs(3), of ra]
    by (simp add: decode_struct_def t_object encode_fields_present comp_def case_prod_unfold plan_length)
next
  case (Enum_t ra ms)
  then show ?case using variant_of_nth [of _ "map (wire_key ra) ms"]
    by (auto simp: decode_enum_def decode_variant_def t_str split: dyn.splits)
next
  case Char_t
  then show ?case using str_chars_char [of _ "[]"] by (auto simp: decode_char_def t_str split: dyn.splits)
qed (auto simp: decode_bool_def decode_f64_def decode_f32_def decode_str_def t_laws t_plain split: dyn.splits)

end

lemma normal_lists: "normal_list F vs = map (normal F) vs" "normal_entries F kvs = map (\<lambda>(k, v). (k, normal F v)) kvs"
proof -
  show "normal_list F vs = map (normal F) vs" by (induction vs) simp_all
  show "normal_entries F kvs = map (\<lambda>(k, v). (k, normal F v)) kvs" by (induction kvs) auto
qed

interpretation as_is: transport F "\<lambda>v. v"
  by unfold_locales simp_all

interpretation json_tree: transport F "normal F"
proof unfold_locales
  show "normal F v \<noteq> Null" if "v \<noteq> Null" "\<And>f. v = Float f \<Longrightarrow> f_finite F f" for v using that by (cases v) simp_all
qed (simp_all add: normal_lists)

section \<open>Reading the text\<close>

lemma text_present:
  assumes "float_ok F" and "v \<noteq> Null" and "\<And>f. v = Float f \<Longrightarrow> f_finite F f"
  shows "\<not> peek_null (json_text F v @ r)"
proof -
  have num: "\<not> peek_null ((sg @ t) @ u)" if "sg = [] \<or> sg = ''-''" "all_digits t" for sg t u
    using that by (cases t) (auto simp: all_digits_def peek_null_def skip_ws_def is_ws_def is_digit_def split: if_splits)
  show ?thesis
  proof (cases v)
    case (Float f)
    then have "f_finite F f" using assms(3) by simp
    then obtain sg ip fp where "float_form F f sg ip fp" using assms(1) by (auto simp: float_ok_def)
    then have "sg = [] \<or> sg = ''-''" "all_digits ip" "\<exists>u. json_text F v = (sg @ ip) @ u" using Float \<open>f_finite F f\<close>
      by (auto simp: float_form_def float_text_def write_json_f64_def Let_def)
    then obtain u where "sg = [] \<or> sg = ''-''" "all_digits ip" "json_text F v = (sg @ ip) @ u" by blast
    then show ?thesis using num [of sg ip "u @ r"] by simp
  next
    case (IntV i)
    then show ?thesis using num [of "if sint i < 0 then ''-'' else []" "decimal (unat (unsigned_abs i))" r] by (auto simp: int_text_def digits_of_decimal)
  next
    case (UInt u)
    then show ?thesis using num [of "[]" "decimal (unat u)" r] by (simp add: digits_of_decimal)
  qed (use assms(2) in \<open>simp_all add: peek_null_def skip_ws_def is_ws_def quote_def\<close>)
qed

lemma text_skip: "float_ok F \<Longrightarrow> skip_ws (json_text F v @ r) = json_text F v @ r"
  by (rule json_text_head [of F v]) (auto simp: opens_def)

lemma elems_length: "float_ok F \<Longrightarrow> length vs \<le> length (elems_text F vs)"
proof (induction vs)
  case (Cons v vs)
  obtain b t where "json_text F v = b # t" using json_text_head [OF Cons.prems] by metis
  then show ?case using Cons by auto
qed simp

lemma members_length: "length kvs \<le> length (members_text F kvs)"
  by (induction kvs) (auto simp: quote_def)

lemma elems_bound: "v \<in> set vs \<Longrightarrow> length (json_text F v) \<le> length (elems_text F vs)"
  by (induction vs) auto

lemma members_bound: "(k, v) \<in> set kvs \<Longrightarrow> length (json_text F v) \<le> length (members_text F kvs)"
  by (induction kvs) auto

lemma seq_loop_printed:
  assumes "float_ok F"
  shows "\<forall>x\<in>set xs. \<forall>acc r. stops r \<longrightarrow> f acc (json_text F (h x) @ r) = Some (Ok (step acc x, r)) \<Longrightarrow> length xs \<le> n \<Longrightarrow> xs \<noteq> [] \<Longrightarrow>
    seq_loop n f acc (elems_text F (map h xs) @ CHR '']'' # r) = Some (Ok (foldl step acc xs, r))"
proof (induction xs arbitrary: n acc)
  case (Cons x xs)
  obtain m where n: "n = Suc m" using Cons.prems(2) by (cases n) auto
  show ?case
  proof (cases "xs = []")
    case True
    then show ?thesis using Cons.prems(1) n by (simp add: is_digit_def float_mark_def)
  next
    case False
    then show ?thesis using Cons n by (simp add: is_digit_def float_mark_def)
  qed
qed simp

lemma map_loop_printed:
  "\<forall>e\<in>set es. \<forall>acc r. stops r \<longrightarrow> f (key e) acc (json_text F (h e) @ r) = Some (Ok (step acc e, r)) \<Longrightarrow> length es \<le> n \<Longrightarrow> es \<noteq> [] \<Longrightarrow>
    map_loop n f acc (members_text F (map (\<lambda>e. (key e, h e)) es) @ CHR ''}'' # r) = Some (Ok (foldl step acc es, r))"
proof (induction es arbitrary: n acc)
  case (Cons e es)
  obtain m where n: "n = Suc m" using Cons.prems(2) by (cases n) auto
  have q: "skip_ws (quote k @ u) = quote k @ u" "eat (CHR 0x22) (quote k @ u) \<noteq> None" for k u
    by (simp_all add: quote_def skip_ws_def is_ws_def)
  show ?case
  proof (cases "es = []")
    case True
    then show ?thesis using Cons.prems(1) n
      by (simp add: q parse_string_quote expect_def is_digit_def float_mark_def del: not_None_eq)
  next
    case False
    then show ?thesis using Cons n
      by (simp add: q parse_string_quote expect_def is_digit_def float_mark_def del: not_None_eq)
  qed
qed simp

lemma read_seq_printed:
  assumes "float_ok F" and "d < max_depth" and "length (elems_text F (map h xs)) \<le> n"
    and "\<forall>x\<in>set xs. \<forall>acc r. stops r \<longrightarrow> f acc (d + 1) (json_text F (h x) @ r) = Some (Ok (step acc x, r))"
  shows "read_seq n f acc d (json_text F (Array (map h xs)) @ r) = Some (Ok (foldl step acc xs, r))"
proof (cases xs)
  case Nil
  then show ?thesis using assms(2) by (simp add: read_seq_def expect_def is_ws_def)
next
  case (Cons y ys)
  obtain b t where b: "json_text F (h y) = b # t" "opens b" by (rule json_text_head [OF assms(1)])
  have "length xs \<le> n" using elems_length [OF assms(1), of "map h xs"] assms(3) by simp
  from seq_loop_printed [OF assms(1,4) this] Cons b assms(2) show ?thesis
    by (simp add: read_seq_def expect_def is_ws_def opens_def)
qed

lemma read_map_printed:
  assumes "d < max_depth" and "length (members_text F (map (\<lambda>e. (key e, h e)) es)) \<le> n"
    and "\<forall>e\<in>set es. \<forall>acc r. stops r \<longrightarrow> f (key e) acc (d + 1) (json_text F (h e) @ r) = Some (Ok (step acc e, r))"
  shows "read_map n f acc d (json_text F (Object (map (\<lambda>e. (key e, h e)) es)) @ r) = Some (Ok (foldl step acc es, r))"
proof (cases es)
  case Nil
  then show ?thesis using assms(1) by (simp add: read_map_def expect_def is_ws_def)
next
  case (Cons y ys)
  have "length es \<le> n" using members_length [of "map (\<lambda>e. (key e, h e)) es" F] assms(2) by simp
  from map_loop_printed [OF assms(3) this] Cons assms(1) show ?thesis
    by (simp add: read_map_def expect_def is_ws_def quote_def)
qed

lemma foldl_collect: "foldl (\<lambda>xs x. xs @ [x]) acc xs = acc @ xs"
  by (induction xs arbitrary: acc) simp_all

lemma foldl_insert: "distinct (map fst m @ map fst kvs) \<Longrightarrow> foldl (\<lambda>m (k, x). hm_insert k x m) m kvs = m @ kvs"
  by (induction kvs arbitrary: m) (auto simp: hm_insert_new)

lemma via_value_printed:
  assumes "float_ok F" and "fits F C t x" "stops r" "d + depth_of (encode t x) \<le> max_depth" "2 * length (json_text F (encode t x)) < n"
  shows "via_value n F (decode F C t) d (json_text F (encode t x) @ r) = Some (Ok (x, r))"
  using parse_printed(1) [OF assms(1,3,4,5)] json_tree.decode_transported [OF assms(2)]
  by (simp add: via_value_def decode_value_def text_skip [OF assms(1)])

lemma depth_list_bound: "v \<in> set vs \<Longrightarrow> depth_of v \<le> depth_list vs" "(k, v) \<in> set kvs \<Longrightarrow> depth_of v \<le> depth_entries kvs"
proof -
  show "v \<in> set vs \<Longrightarrow> depth_of v \<le> depth_list vs" by (induction vs) auto
  show "(k, v) \<in> set kvs \<Longrightarrow> depth_of v \<le> depth_entries kvs" by (induction kvs) auto
qed

lemma decode_from_printed:
  assumes F: "float_ok F"
  shows "fits F C t x \<Longrightarrow> stops r \<Longrightarrow> d + depth_of (encode t x) \<le> max_depth \<Longrightarrow> 2 * length (json_text F (encode t x)) < n \<Longrightarrow>
    decode_from n F C t d (json_text F (encode t x) @ r) = Some (Ok (x, r))"
proof (induction t arbitrary: x r d)
  case String_t
  then obtain s where "x = D_str s" by (auto split: dyn.splits)
  then show ?case using parse_string_quote [of s r] by (simp add: decode_string_def quote_def skip_ws_def is_ws_def)
next
  case (Option_t t)
  show ?case
  proof (cases x)
    case (D_some y)
    then have y: "fits F C t y" "encode t y \<noteq> Null" using Option_t.prems by simp_all
    have "\<not> peek_null (json_text F (encode t y) @ r)" using y(2) fits_float [OF y(1)] by (rule text_present [OF F])
    then show ?thesis using D_some Option_t.IH [OF y(1)] Option_t.prems by (simp add: option_from_def text_skip [OF F])
  qed (use Option_t.prems in \<open>simp_all add: option_from_def peek_null_def decode_null_def skip_ws_def is_ws_def take_literal_def\<close>)
next
  case (Vec_t t)
  then obtain xs where xs: "x = D_vec xs" "\<forall>y\<in>set xs. fits F C t y" by (auto simp: list_all_iff split: dyn.splits)
  have "read_seq n (\<lambda>xs d r. map_option (\<lambda>p. case p of Err e \<Rightarrow> Err e | Ok (x, r') \<Rightarrow> Ok (xs @ [x], r')) (decode_from n F C t d r)) [] d
      (json_text F (Array (map (encode t) xs)) @ r) = Some (Ok (foldl (\<lambda>xs x. xs @ [x]) [] xs, r))"
  proof (rule read_seq_printed [OF F], goal_cases)
    case 3
    have "decode_from n F C t (d + 1) (json_text F (encode t y) @ u) = Some (Ok (y, u))" if "y \<in> set xs" "stops u" for y u
      using that xs Vec_t.prems depth_list_bound(1) [of "encode t y" "map (encode t) xs"] elems_bound [of "encode t y" "map (encode t) xs" F]
      by (intro Vec_t.IH) auto
    then show ?case by simp
  qed (use Vec_t.prems xs in auto)
  then show ?case using xs by (simp add: vec_from_def foldl_collect)
next
  case (Map_t t)
  then obtain kvs where kvs: "x = D_map kvs" "distinct (map fst kvs)" "\<forall>(k, y)\<in>set kvs. fits F C t y"
    by (auto simp: list_all_iff split: dyn.splits)
  let ?es = "map (\<lambda>e. (fst e, encode t (snd e))) kvs"
  have es: "encode (Map_t t) x = Object ?es" using kvs(1) by (simp add: case_prod_unfold)
  have "read_map n (\<lambda>k kvs d r. map_option (\<lambda>p. case p of Err e \<Rightarrow> Err e | Ok (x, r') \<Rightarrow> Ok (hm_insert k x kvs, r')) (decode_from n F C t d r)) [] d
      (json_text F (Object ?es) @ r) = Some (Ok (foldl (\<lambda>m (k, x). hm_insert k x m) [] kvs, r))"
  proof (rule read_map_printed, goal_cases)
    case 3
    have "decode_from n F C t (d + 1) (json_text F (encode t y) @ u) = Some (Ok (y, u))" if "(k, y) \<in> set kvs" "stops u" for k y u
    proof -
      have "(k, encode t y) \<in> set ?es" using that(1) by force
      then show ?thesis using that kvs(3) Map_t.prems(3,4) [unfolded es] depth_list_bound(2) [of k "encode t y" ?es] members_bound [of k "encode t y" ?es F]
        by (intro Map_t.IH) auto
    qed
    then show ?case by (auto simp: case_prod_unfold)
  qed (use Map_t.prems(3,4) [unfolded es] in auto)
  then show ?case using kvs(1,2) es foldl_insert [of "[]" kvs] by (simp add: map_from_def case_prod_unfold)
next
  case (Struct_t ra fs)
  then obtain xs where xs: "x = D_struct xs" "distinct (map (\<lambda>(m, t). wire_key ra m) fs)" "fields_fit F C fs xs" by (auto split: dyn.splits)
  let ?ps = "field_pulls n F C ra fs"
  let ?es = "map (\<lambda>e. (fst e, encode (fst (snd e)) (snd (snd e)))) (present ra fs xs)"
  have es: "encode (Struct_t ra fs) x = Object ?es" using xs(1) by (simp add: encode_fields_present case_prod_unfold)
  have "read_map n (field_from n F ?ps) (replicate (length fs) None) d (json_text F (Object ?es) @ r) =
      Some (Ok (foldl (\<lambda>ss (k, t, x). fill_slot k (map fst ?ps) x ss) (replicate (length fs) None) (present ra fs xs), r))"
  proof (rule read_map_printed, goal_cases)
    case 3
    have "field_from n F ?ps k acc (d + 1) (json_text F (encode t y) @ u) = Some (Ok (fill_slot k (map fst ?ps) y acc, u))"
      if e: "(k, t, y) \<in> set (present ra fs xs)" and u: "stops u" for k t y acc u
    proof -
      from present_fits [OF xs(3) e] obtain m where m: "fits F C t y" "(m, t) \<in> set fs" "k = wire_key ra m" by blast
      have "(k, encode t y) \<in> set ?es" using e by force
      then have "decode_from n F C t (d + 1) (json_text F (encode t y) @ u) = Some (Ok (y, u))"
        using u m Struct_t.prems(3,4) [unfolded es] depth_list_bound(2) [of k "encode t y" ?es] members_bound [of k "encode t y" ?es F]
        by (intro Struct_t.IH [of "(m, t)"]) (auto simp: snds.simps)
      then show ?thesis using plan_lookup(2) [OF m(2) xs(2), of n F C] m(3) by (simp add: field_from_def)
    qed
    then show ?case by (auto simp: case_prod_unfold)
  qed (use Struct_t.prems(3,4) [unfolded es] in auto)
  then show ?case using xs es fill_present [OF xs(2,3)] build_slots [OF xs(3), of ra]
    by (simp add: struct_from_def plan_length)
next
  case (Enum_t ra ms)
  then obtain i where "x = D_enum i" "i < length ms" "distinct (map (wire_key ra) ms)" by (auto split: dyn.splits)
  then show ?case using parse_string_quote [of "wire_key ra (ms ! i)" r] variant_of_nth [of i "map (wire_key ra) ms"]
    by (simp add: enum_from_def decode_string_def decode_variant_def quote_def skip_ws_def is_ws_def)
next
  case (Box_t t)
  then show ?case by simp
qed (simp_all only: decode_from.simps via_value_printed [OF F])

section \<open>Decoding returns on every input\<close>

text \<open>A step of the parser: it returns on inputs up to a length, and consumes input when it succeeds.\<close>

definition steady :: "nat \<Rightarrow> (string \<Rightarrow> 'a parsed option) \<Rightarrow> bool" where
  "steady l f \<longleftrightarrow> (\<forall>u. length u \<le> l \<longrightarrow> f u \<noteq> None) \<and> (\<forall>u x u'. f u = Some (Ok (x, u')) \<longrightarrow> length u' < length u)"

lemma steady_mono: "steady l f \<Longrightarrow> l' \<le> l \<Longrightarrow> steady l' f"
  by (auto simp: steady_def)

lemma steadyD: "steady l f \<Longrightarrow> f u = Some (Ok (x, u')) \<Longrightarrow> length u' < length u"
  by (auto simp: steady_def)

lemma steady_map: "steady l f \<Longrightarrow> steady l (\<lambda>r. map_option (\<lambda>p. case p of Err e \<Rightarrow> Err e | Ok (x, r') \<Rightarrow> Ok (h x, r')) (f r))"
proof -
  assume f: "steady l f"
  have "length u' < length u" if "map_option (\<lambda>p. case p of Err e \<Rightarrow> Err e | Ok (x, r') \<Rightarrow> Ok (h x, r')) (f u) = Some (Ok (x, u'))" for u x u'
  proof -
    from that obtain p where p: "f u = Some p" by (cases "f u") auto
    with that obtain y where "f u = Some (Ok (y, u'))" by (cases p) auto
    then show ?thesis by (rule steadyD [OF f])
  qed
  then show ?thesis using f by (simp add: steady_def)
qed

lemma eat_byte_shorter: "eat c (skip_ws r) = Some r' \<Longrightarrow> length r' < length r"
  using skip_ws_length [of r] by (simp add: eat_Some)

lemma expect_shorter: "expect c (skip_ws r) = Ok (u, r') \<Longrightarrow> length r' < length r"
  using skip_ws_length [of r] by (simp add: expect_Ok)

lemma seq_loop_consumes:
  "\<forall>acc. steady l (f acc) \<Longrightarrow> seq_loop n f acc r = Some (Ok (x, r')) \<Longrightarrow> length r' < length r"
proof (induction n f acc r rule: seq_loop.induct)
  case (2 n f acc r)
  from "2.prems"(2) obtain acc1 r1 where f: "f acc r = Some (Ok (acc1, r1))" by (auto split: option.splits sum.splits)
  then have "length r1 < length r" using "2.prems"(1) by (auto simp: steady_def)
  moreover have "length r' < length r1"
  proof (cases "eat (CHR '','') (skip_ws r1)")
    case None
    then show ?thesis using "2.prems"(2) f eat_byte_shorter [of "CHR '']''" r1] by (auto split: option.splits)
  next
    case (Some r2)
    then have "length r' < length r2" using "2.IH" [OF f refl refl Some "2.prems"(1)] "2.prems"(2) f by simp
    then show ?thesis using eat_byte_shorter [OF Some] by simp
  qed
  ultimately show ?case by simp
qed simp

lemma seq_loop_total: "\<forall>acc. steady l (f acc) \<Longrightarrow> length r \<le> l \<Longrightarrow> length r < n \<Longrightarrow> seq_loop n f acc r \<noteq> None"
proof (induction n f acc r rule: seq_loop.induct)
  case (2 n f acc r)
  show ?case
  proof (cases "\<exists>acc1 r1 r2. f acc r = Some (Ok (acc1, r1)) \<and> eat (CHR '','') (skip_ws r1) = Some r2")
    case True
    then obtain acc1 r1 r2 where f: "f acc r = Some (Ok (acc1, r1))" "eat (CHR '','') (skip_ws r1) = Some r2" by blast
    have "length r2 < length r" using steadyD [OF spec [OF "2.prems"(1)] f(1)] eat_byte_shorter [OF f(2)] by simp
    then show ?thesis using "2.IH" [OF f(1) refl refl f(2) "2.prems"(1)] "2.prems"(2,3) f by simp
  next
    case False
    have "f acc r \<noteq> None" using "2.prems"(1,2) by (simp add: steady_def)
    then show ?thesis using False by (auto split: sum.splits option.splits)
  qed
qed simp

lemma map_loop_step:
  assumes "\<forall>k acc. steady l (f k acc)" and "parse_string (skip_ws r) = Ok (k, r1)" "expect (CHR '':'') (skip_ws r1) = Ok (u, r2)"
  shows "length r2 < length r" "f k acc r2 = Some (Ok (acc1, r3)) \<Longrightarrow> length r3 < length r"
proof -
  have "length r1 < length r" using parse_string_length [OF assms(2)] skip_ws_length [of r] by simp
  then show r2: "length r2 < length r" using expect_shorter [OF assms(3)] by simp
  show "length r3 < length r" if "f k acc r2 = Some (Ok (acc1, r3))"
  proof -
    have "length r3 < length r2" using assms(1) that by (auto simp: steady_def)
    then show ?thesis using r2 by simp
  qed
qed

lemma map_loop_consumes:
  "\<forall>k acc. steady l (f k acc) \<Longrightarrow> map_loop n f acc r = Some (Ok (x, r')) \<Longrightarrow> length r' < length r"
proof (induction n arbitrary: acc r)
  case (Suc n)
  from Suc.prems(2) obtain k r1 u r2 acc1 r3 where p: "parse_string (skip_ws r) = Ok (k, r1)" "expect (CHR '':'') (skip_ws r1) = Ok (u, r2)"
    "f k acc r2 = Some (Ok (acc1, r3))" by (auto simp: Let_def split: if_splits option.splits sum.splits)
  have r3: "length r3 < length r" by (rule map_loop_step(2) [OF Suc.prems(1) p(1,2,3)])
  show ?case
  proof (cases "eat (CHR '','') (skip_ws r3)")
    case None
    then show ?thesis using Suc.prems(2) p r3 eat_byte_shorter [of "CHR ''}''" r3] by (auto simp: Let_def split: if_splits option.splits)
  next
    case (Some r4)
    then have "length r' < length r4" using Suc.prems(2) p by (intro Suc.IH [OF Suc.prems(1), of acc1]) (simp add: Let_def split: if_splits)
    then show ?thesis using eat_byte_shorter [OF Some] r3 by simp
  qed
qed simp

lemma map_loop_total: "\<forall>k acc. steady l (f k acc) \<Longrightarrow> length r \<le> l \<Longrightarrow> length r < n \<Longrightarrow> map_loop n f acc r \<noteq> None"
proof (induction n arbitrary: acc r)
  case (Suc n)
  show ?case
  proof (cases "\<exists>k r1 r2. parse_string (skip_ws r) = Ok (k, r1) \<and> expect (CHR '':'') (skip_ws r1) = Ok ((), r2)")
    case True
    then obtain k r1 r2 where p: "parse_string (skip_ws r) = Ok (k, r1)" "expect (CHR '':'') (skip_ws r1) = Ok ((), r2)" by blast
    have r2: "length r2 < length r" by (rule map_loop_step(1) [OF Suc.prems(1) p])
    then have "f k acc r2 \<noteq> None" using Suc.prems(1,2) by (simp add: steady_def)
    moreover have "map_loop n f acc1 r4 \<noteq> None" if "f k acc r2 = Some (Ok (acc1, r3))" "eat (CHR '','') (skip_ws r3) = Some r4" for acc1 r3 r4
      using map_loop_step(2) [OF Suc.prems(1) p that(1)] eat_byte_shorter [OF that(2)] Suc.prems(2,3) by (intro Suc.IH [OF Suc.prems(1)]) simp_all
    ultimately show ?thesis using p by (auto simp: Let_def split: sum.splits option.splits)
  next
    case False
    then show ?thesis by (auto simp: Let_def split: sum.splits)
  qed
qed simp

lemma steady_read_seq:
  assumes "\<forall>acc. steady l (f acc (d + 1))" and "l \<le> n"
  shows "steady l (read_seq n f acc d)"
proof -
  have "read_seq n f acc d u \<noteq> None" if "length u \<le> l" for u
  proof (cases "expect (CHR ''['') (skip_ws u)")
    case (Inr p)
    then have "length (snd p) < length u" using expect_shorter by (metis prod.collapse)
    then have "length (skip_ws (snd p)) \<le> l" "length (skip_ws (snd p)) < n" using skip_ws_length [of "snd p"] that assms(2) by simp_all
    then show ?thesis using Inr seq_loop_total [OF assms(1)] by (auto simp: read_seq_def split: option.splits prod.splits)
  qed (simp add: read_seq_def)
  moreover have "length u' < length u" if res: "read_seq n f acc d u = Some (Ok (x, u'))" for u x u'
  proof -
    from res obtain p where p: "expect (CHR ''['') (skip_ws u) = Ok p" by (auto simp: read_seq_def split: sum.splits)
    then have "length (snd p) < length u" using expect_shorter by (metis prod.collapse)
    moreover have "length u' < length (snd p)"
      using res p eat_byte_shorter [of "CHR '']''" "snd p"] seq_loop_consumes [OF assms(1), of n acc "skip_ws (snd p)"] skip_ws_length [of "snd p"]
      by (auto simp: read_seq_def split: if_splits option.splits prod.splits)
    ultimately show ?thesis by simp
  qed
  ultimately show ?thesis by (simp add: steady_def)
qed

lemma steady_read_map:
  assumes "\<forall>k acc. steady l (f k acc (d + 1))" and "l \<le> n"
  shows "steady l (read_map n f acc d)"
proof -
  have "read_map n f acc d u \<noteq> None" if "length u \<le> l" for u
  proof (cases "expect (CHR ''{'') (skip_ws u)")
    case (Inr p)
    then have "length (snd p) < length u" using expect_shorter by (metis prod.collapse)
    then have "length (skip_ws (snd p)) \<le> l" "length (skip_ws (snd p)) < n" using skip_ws_length [of "snd p"] that assms(2) by simp_all
    then show ?thesis using Inr map_loop_total [OF assms(1)] by (auto simp: read_map_def split: option.splits prod.splits)
  qed (simp add: read_map_def)
  moreover have "length u' < length u" if res: "read_map n f acc d u = Some (Ok (x, u'))" for u x u'
  proof -
    from res obtain p where p: "expect (CHR ''{'') (skip_ws u) = Ok p" by (auto simp: read_map_def split: sum.splits)
    then have "length (snd p) < length u" using expect_shorter by (metis prod.collapse)
    moreover have "length u' < length (snd p)"
      using res p eat_byte_shorter [of "CHR ''}''" "snd p"] map_loop_consumes [OF assms(1), of n acc "skip_ws (snd p)"] skip_ws_length [of "snd p"]
      by (auto simp: read_map_def split: if_splits option.splits prod.splits)
    ultimately show ?thesis by simp
  qed
  ultimately show ?thesis by (simp add: steady_def)
qed

lemma steady_parse:
  assumes "2 * l < n"
  shows "steady l (\<lambda>r. parse_value n F d (skip_ws r))"
  unfolding steady_def
proof (intro conjI allI impI)
  show "parse_value n F d (skip_ws u) \<noteq> None" if "length u \<le> l" for u
    using that assms skip_ws_length [of u] by (intro parse_total(1)) simp
  show "length u' < length u" if "parse_value n F d (skip_ws u) = Some (Ok (x, u'))" for u x u'
    using parse_consumes(1) [OF that] skip_ws_length [of u] by simp
qed

lemma steady_via_value: "2 * l < n \<Longrightarrow> steady l (via_value n F dec d)"
proof -
  assume "2 * l < n"
  note p = steady_parse [OF this, of F d]
  have "via_value n F dec d u \<noteq> None" if "length u \<le> l" for u
    using p that by (auto simp: steady_def via_value_def decode_value_def split: option.splits sum.splits)
  moreover have "length u' < length u" if res: "via_value n F dec d u = Some (Ok (x, u'))" for u x u'
  proof -
    from res obtain v r where v: "parse_value n F d (skip_ws u) = Some (Ok (v, r))"
      by (auto simp: via_value_def decode_value_def split: option.splits sum.splits)
    then have "r = u'" using res by (auto simp: via_value_def decode_value_def split: sum.splits)
    then show ?thesis using steadyD [OF p v] by simp
  qed
  ultimately show ?thesis by (simp add: steady_def)
qed

lemma decode_string_shorter: "decode_string r = Ok (s, r') \<Longrightarrow> length r' < length r"
  using skip_ws_length [of r] by (auto simp: decode_string_def split: list.splits if_splits dest!: parse_string_length)

lemma steady_option:
  assumes "steady l (pull d)"
  shows "steady l (option_from pull d)"
proof -
  have "option_from pull d u \<noteq> None" if "length u \<le> l" for u
  proof -
    have "length (skip_ws u) \<le> l" using skip_ws_length [of u] that by simp
    then have "pull d (skip_ws u) \<noteq> None" using assms by (simp add: steady_def)
    then show ?thesis by (auto simp: option_from_def split: option.splits sum.splits)
  qed
  moreover have "length u' < length u" if res: "option_from pull d u = Some (Ok (x, u'))" for u x u'
  proof (cases "peek_null u")
    case True
    have "length (drop 4 (skip_ws u)) < length u" using True skip_ws_length [of u]
      by (cases "skip_ws u") (auto simp: peek_null_def)
    moreover have "u' = drop 4 (skip_ws u)" using res True
      by (auto simp: option_from_def decode_null_def take_literal_def numeral_eq_Suc split: option.splits sum.splits if_splits)
    ultimately show ?thesis by simp
  next
    case False
    with res obtain y where "pull d (skip_ws u) = Some (Ok (y, u'))" by (auto simp: option_from_def split: option.splits sum.splits)
    from steadyD [OF assms this] show ?thesis using skip_ws_length [of u] by simp
  qed
  ultimately show ?thesis by (simp add: steady_def)
qed

lemma steady_decode:
  assumes n: "2 * l < n"
  shows "steady l (decode_from n F C t d)"
proof (induction t arbitrary: d)
  case String_t
  have "length u' < length u" if "decode_from n F C String_t d u = Some (Ok (x, u'))" for u x u'
    using that decode_string_shorter [of u] by (auto split: sum.splits)
  then show ?case by (simp add: steady_def)
next
  case (Option_t t)
  have "decode_from n F C (Option_t t) d = option_from (decode_from n F C t) d" by (intro ext) simp
  then show ?case using steady_option [of l "decode_from n F C t" d] Option_t.IH by simp
next
  case (Vec_t t)
  let ?f = "\<lambda>acc depth r. map_option (\<lambda>p. case p of Err e \<Rightarrow> Err e | Ok (x, r') \<Rightarrow> Ok (acc @ [x], r')) (decode_from n F C t depth r)"
  have "\<forall>acc. steady l (?f acc (d + 1))" using Vec_t.IH by (intro allI steady_map)
  then have "steady l (read_seq n ?f [] d)" using n by (intro steady_read_seq) auto
  from steady_map [OF this, of D_vec] show ?case by (simp add: vec_from_def [abs_def])
next
  case (Map_t t)
  let ?f = "\<lambda>k acc depth r. map_option (\<lambda>p. case p of Err e \<Rightarrow> Err e | Ok (x, r') \<Rightarrow> Ok (hm_insert k x acc, r')) (decode_from n F C t depth r)"
  have "\<forall>k acc. steady l (?f k acc (d + 1))" using Map_t.IH by (intro allI steady_map)
  then have "steady l (read_map n ?f [] d)" using n by (intro steady_read_map) auto
  from steady_map [OF this, of D_map] show ?case by (simp add: map_from_def [abs_def])
next
  case (Struct_t ra fs)
  let ?ps = "field_pulls n F C ra fs"
  have "steady l (field_from n F ?ps k ss (d + 1))" for k ss
  proof (cases "map_of ?ps k")
    case None
    have "steady l (skip_value n F (d + 1))" using steady_map [OF steady_parse [OF n, of F "d + 1"], of "\<lambda>_. ()"]
      by (simp add: skip_value_def [abs_def])
    from steady_map [OF this, of "\<lambda>_. ss"] show ?thesis using None by (simp add: field_from_def [abs_def])
  next
    case (Some pull)
    have "(k, pull) \<in> set ?ps" using Some by (rule map_of_SomeD)
    then have "\<exists>(m, t)\<in>set fs. pull = decode_from n F C t" by (induction fs) auto
    then have "steady l (pull (d + 1))" using Struct_t.IH by (fastforce simp: snds.simps)
    from steady_map [OF this, of "\<lambda>x. fill_slot k (map fst ?ps) x ss"] show ?thesis using Some by (simp add: field_from_def [abs_def])
  qed
  then have r: "steady l (read_map n (field_from n F ?ps) (replicate (length ?ps) None) d)" using n by (intro steady_read_map) auto
  have "length u' < length u" if "decode_from n F C (Struct_t ra fs) d u = Some (Ok (x, u'))" for u x u'
  proof -
    from that obtain slots where "read_map n (field_from n F ?ps) (replicate (length ?ps) None) d u = Some (Ok (slots, u'))"
      by (auto simp: struct_from_def split: option.splits sum.splits)
    then show ?thesis by (rule steadyD [OF r])
  qed
  moreover have "decode_from n F C (Struct_t ra fs) d u \<noteq> None" if "length u \<le> l" for u
    using r that by (auto simp: steady_def struct_from_def split: option.splits sum.splits)
  ultimately show ?case by (simp add: steady_def)
next
  case (Enum_t ra ms)
  have "length u' < length u" if "decode_from n F C (Enum_t ra ms) d u = Some (Ok (x, u'))" for u x u'
    using that decode_string_shorter [of u] by (auto simp: enum_from_def split: sum.splits)
  then show ?case by (simp add: steady_def enum_from_def)
next
  case (Box_t t)
  have "decode_from n F C (Box_t t) d = decode_from n F C t d" by (intro ext) simp
  then show ?case using Box_t.IH by simp
qed (use steady_via_value [OF n] in \<open>simp_all add: steady_def\<close>)

lemma json_decode_total: "\<exists>res. json_decode F C t input = Some res"
proof -
  have "decode_from (2 * length input + 2) F C t 0 input \<noteq> None"
    using steady_decode [of "length input" "2 * length input + 2" F C t 0] by (simp add: steady_def)
  then show ?thesis by (auto simp: json_decode_def split: option.splits sum.splits)
qed

section \<open>Round trip\<close>

text \<open>C13: For every type built from the primitives, strings, options, vectors, boxes, maps and derived structs and enums, the
  JSON written field by field is the text of the encoded tree, and every fitting value that does not nest too deep is read back
  from its tree, from the tree parsed from its text, and straight from its text. On every text decoding returns.\<close>

theorem typed_json_round_trip:
  assumes "float_ok F" and "fits F C t x" and "depth_of (encode t x) \<le> max_depth"
  shows "json_encode F t x = to_string F (encode t x) \<and> decode F C t (encode t x) = Ok x \<and>
    map_option (\<lambda>p. case p of Err e \<Rightarrow> Err e | Ok v \<Rightarrow> decode F C t v) (from_str F (json_encode F t x)) = Some (Ok x) \<and>
    json_decode F C t (json_encode F t x) = Some (Ok x) \<and> (\<forall>input. \<exists>res. json_decode F C t input = Some res)"
proof -
  have "json_decode F C t (json_text F (encode t x)) = Some (Ok x)"
    using decode_from_printed [OF assms(1,2), of "[]" 0 "2 * length (json_text F (encode t x)) + 2"] assms(3)
    by (simp add: json_decode_def skip_ws_def)
  then show ?thesis
    using as_is.decode_transported [OF assms(2)] json_tree.decode_transported [OF assms(2)] from_str_printed [OF assms(1,3)]
    by (simp add: json_encode_eq to_string_eq json_decode_total)
qed

text \<open>A struct in camel case: a count, an optional field left out when absent, a list of variants, and a map.\<close>

definition sample_ty :: ty where
  "sample_ty = Struct_t (Some ''camelCase'')
     [(\<lparr>mb_ident = ''hit_count'', mb_rename = None, mb_skip_none = False\<rparr>, Unsigned_t U16),
      (\<lparr>mb_ident = ''note'', mb_rename = None, mb_skip_none = True\<rparr>, Option_t String_t),
      (\<lparr>mb_ident = ''kinds'', mb_rename = Some ''ks'', mb_skip_none = False\<rparr>,
        Vec_t (Enum_t (Some ''lowercase'') [\<lparr>mb_ident = ''Get'', mb_rename = None, mb_skip_none = False\<rparr>,
          \<lparr>mb_ident = ''Put'', mb_rename = None, mb_skip_none = False\<rparr>])),
      (\<lparr>mb_ident = ''extra'', mb_rename = None, mb_skip_none = False\<rparr>, Map_t (Option_t (Signed_t I8)))]"

definition sample_dyn :: "nat dyn" where
  "sample_dyn = D_struct [D_int 443, D_none, D_vec [D_enum 1, D_enum 0], D_map [(''a'', D_some (D_int (- 128))), (''b'', D_none)]]"

definition int_casts :: "nat float_casts" where
  "int_casts = \<lparr>f_as_i64 = of_nat, f_as_u64 = of_nat, f_ge_zero = (\<lambda>_. True), i64_as_f = unat, u64_as_f = unat,
     f_as_f32 = id, i64_as_f32 = unat, u64_as_f32 = unat\<rparr>"

theorem typed_json_round_trip_witness:
  "fits int_floats int_casts sample_ty sample_dyn \<and> json_decode int_floats int_casts sample_ty (json_encode int_floats sample_ty sample_dyn) = Some (Ok sample_dyn)"
proof -
  have "fits int_floats int_casts sample_ty sample_dyn"
    by (simp add: sample_ty_def sample_dyn_def wire_key_def apply_rename_all_def to_camel_def is_option_def ascii_lower_def ascii_upper_def)
  moreover have "depth_of (encode sample_ty sample_dyn) \<le> max_depth"
    by (simp add: sample_ty_def sample_dyn_def max_depth_def)
  ultimately show ?thesis using typed_json_round_trip [OF int_floats_ok] by blast
qed

text \<open>The text of that value.\<close>

lemma sample_text:
  "json_encode int_floats sample_ty sample_dyn = ''{\"hitCount\":443,\"ks\":[\"put\",\"get\"],\"extra\":{\"a\":-128,\"b\":null}}''"
  by code_simp

text \<open>An absent value inside an option cannot be told from an absent option.\<close>

lemma nested_option_collapses: "decode F C (Option_t (Option_t t)) (encode (Option_t (Option_t t)) (D_some D_none)) = Ok D_none"
  by (simp add: decode_option_def)

text \<open>A number that is not finite is written as \<^verbatim>\<open>null\<close>, which does not read back as a number.\<close>

lemma non_finite_unreadable:
  "\<not> f_finite F f \<Longrightarrow> json_decode F C F64_t (json_encode F F64_t (D_float f)) = Some (Err (Expected ''number''))"
  by (simp add: json_encode_eq to_string_eq float_text_def write_json_f64_def json_decode_def via_value_def decode_value_def
      skip_ws_def is_ws_def parse_null_def take_literal_def decode_f64_def eval_nat_numeral)

end
