(* ===== verification/Codec_Schema.thy ===== *)
theory Codec_Schema
  imports Codec_Value Rust_Char
begin

text \<open>
  The schema validator of \<^verbatim>\<open>codec/schema.rs\<close>. A run of \<^verbatim>\<open>check\<close> only appends to the list of violations; here
  it returns what it appends. Conversion of integers to \<^verbatim>\<open>f64\<close>, its comparison and its equality are
  parameters. The validator is shown to decide membership in a language of types.
\<close>

section \<open>Validator\<close>

record 'f schema_ops = "'f float_ops" +
  f_of_int :: "int \<Rightarrow> 'f"
  f_less :: "'f \<Rightarrow> 'f \<Rightarrow> bool"
  f_equal :: "'f \<Rightarrow> 'f \<Rightarrow> bool"

record Violation =
  v_path :: string
  v_message :: string

definition show_violation :: "Violation \<Rightarrow> string" where
  "show_violation x = (if v_path x = [] then ''/'' else v_path x) @ '': '' @ v_message x"

text \<open>The derived \<^verbatim>\<open>PartialEq\<close> of values.\<close>

fun value_eq :: "'f schema_ops \<Rightarrow> 'f Value \<Rightarrow> 'f Value \<Rightarrow> bool"
  and value_eq_list :: "'f schema_ops \<Rightarrow> 'f Value list \<Rightarrow> 'f Value list \<Rightarrow> bool"
  and value_eq_entries :: "'f schema_ops \<Rightarrow> (string \<times> 'f Value) list \<Rightarrow> (string \<times> 'f Value) list \<Rightarrow> bool" where
  "value_eq F Null v = (case v of Null \<Rightarrow> True | _ \<Rightarrow> False)"
| "value_eq F (Bool a) v = (case v of Bool b \<Rightarrow> a = b | _ \<Rightarrow> False)"
| "value_eq F (IntV a) v = (case v of IntV b \<Rightarrow> a = b | _ \<Rightarrow> False)"
| "value_eq F (UInt a) v = (case v of UInt b \<Rightarrow> a = b | _ \<Rightarrow> False)"
| "value_eq F (Float a) v = (case v of Float b \<Rightarrow> f_equal F a b | _ \<Rightarrow> False)"
| "value_eq F (Str a) v = (case v of Str b \<Rightarrow> a = b | _ \<Rightarrow> False)"
| "value_eq F (Bytes a) v = (case v of Bytes b \<Rightarrow> a = b | _ \<Rightarrow> False)"
| "value_eq F (Array a) v = (case v of Array b \<Rightarrow> value_eq_list F a b | _ \<Rightarrow> False)"
| "value_eq F (Object a) v = (case v of Object b \<Rightarrow> value_eq_entries F a b | _ \<Rightarrow> False)"
| "value_eq_list F [] bs = (bs = [])"
| "value_eq_list F (a # as) bs = (case bs of [] \<Rightarrow> False | b # bs \<Rightarrow> value_eq F a b \<and> value_eq_list F as bs)"
| "value_eq_entries F [] bs = (bs = [])"
| "value_eq_entries F ((k, a) # as) bs =
     (case bs of [] \<Rightarrow> False | (l, b) # bs \<Rightarrow> k = l \<and> value_eq F a b \<and> value_eq_entries F as bs)"

fun num :: "'f schema_ops \<Rightarrow> 'f Value \<Rightarrow> 'f option" where
  "num F (IntV i) = Some (f_of_int F (sint i))"
| "num F (UInt u) = Some (f_of_int F (uint u))"
| "num F (Float f) = Some f"
| "num F _ = None"

definition type_matches :: "string \<Rightarrow> 'f Value \<Rightarrow> bool" where
  "type_matches ty data =
     (if ty = ''string'' then (case data of Str _ \<Rightarrow> True | _ \<Rightarrow> False)
      else if ty = ''integer'' then (case data of IntV _ \<Rightarrow> True | UInt _ \<Rightarrow> True | _ \<Rightarrow> False)
      else if ty = ''number'' then (case data of IntV _ \<Rightarrow> True | UInt _ \<Rightarrow> True | Float _ \<Rightarrow> True | _ \<Rightarrow> False)
      else if ty = ''boolean'' then (case data of Bool _ \<Rightarrow> True | _ \<Rightarrow> False)
      else if ty = ''object'' then (case data of Object _ \<Rightarrow> True | _ \<Rightarrow> False)
      else if ty = ''array'' then (case data of Array _ \<Rightarrow> True | _ \<Rightarrow> False)
      else if ty = ''null'' then (case data of Null \<Rightarrow> True | _ \<Rightarrow> False)
      else True)"

definition num_field :: "'f schema_ops \<Rightarrow> 'f Value \<Rightarrow> string \<Rightarrow> 'f option" where
  "num_field F schema key = Option.bind (get schema key) (num F)"

text \<open>A bound with its message, for a number against the fields \<open>lo\<close> and \<open>hi\<close>.\<close>

definition check_bounds :: "'f schema_ops \<Rightarrow> 'f Value \<Rightarrow> string \<Rightarrow> string \<Rightarrow> string \<Rightarrow> string \<Rightarrow> 'f \<Rightarrow> string list" where
  "check_bounds F schema lo hi subject unit1 n =
     (case num_field F schema lo of
        Some m \<Rightarrow> if f_less F n m then [subject @ '' >= '' @ f_display F m @ unit1] else []
      | None \<Rightarrow> []) @
     (case num_field F schema hi of
        Some m \<Rightarrow> if f_less F m n then [subject @ '' <= '' @ f_display F m @ unit1] else []
      | None \<Rightarrow> [])"

definition check_const :: "'f schema_ops \<Rightarrow> 'f Value \<Rightarrow> 'f Value \<Rightarrow> string list" where
  "check_const F schema data =
     (case get schema ''const'' of
        Some c \<Rightarrow> if \<not> value_eq F data c then [''value does not equal const''] else []
      | None \<Rightarrow> []) @
     (case get schema ''enum'' of
        Some (Array choices) \<Rightarrow> if \<not> list_ex (\<lambda>c. value_eq F c data) choices then [''value not in enum''] else []
      | _ \<Rightarrow> [])"

definition check_number :: "'f schema_ops \<Rightarrow> 'f Value \<Rightarrow> 'f Value \<Rightarrow> string list" where
  "check_number F schema data = (case num F data of
     Some n \<Rightarrow> check_bounds F schema ''minimum'' ''maximum'' ''must be'' [] n
   | None \<Rightarrow> [])"

definition check_string :: "'f schema_ops \<Rightarrow> 'f Value \<Rightarrow> 'f Value \<Rightarrow> string list" where
  "check_string F schema data = (case data of
     Str s \<Rightarrow> check_bounds F schema ''minLength'' ''maxLength'' ''length must be'' [] (f_of_int F (int (length (str_chars s))))
   | _ \<Rightarrow> [])"

definition check_length :: "'f schema_ops \<Rightarrow> 'f Value \<Rightarrow> 'f Value list \<Rightarrow> string list" where
  "check_length F schema items =
     check_bounds F schema ''minItems'' ''maxItems'' ''must have'' '' items'' (f_of_int F (int (length items)))"

definition check_required :: "'f Value \<Rightarrow> 'f Value \<Rightarrow> string list" where
  "check_required schema data = (case get schema ''required'' of
     Some (Array req) \<Rightarrow> concat (map (\<lambda>key. case as_str key of
         Some k \<Rightarrow> if get data k = None then [''missing required property '' @ [CHR 0x27] @ k @ [CHR 0x27]] else []
       | None \<Rightarrow> []) req)
   | _ \<Rightarrow> [])"

definition at_path :: "string \<Rightarrow> string list \<Rightarrow> Violation list" where
  "at_path path msgs = map (\<lambda>m. \<lparr>v_path = path, v_message = m\<rparr>) msgs"

definition type_error :: "'f Value \<Rightarrow> 'f Value \<Rightarrow> string option" where
  "type_error schema data = (case Option.bind (get schema ''type'') as_str of
     Some ty \<Rightarrow> if \<not> type_matches ty data then Some (''expected type '' @ [CHR 0x27] @ ty @ [CHR 0x27]) else None
   | None \<Rightarrow> None)"

lemma find_key_size:
  assumes "find_key kvs k = Some w"
  shows "size w < size (Object kvs)"
proof -
  obtain x where x: "find (\<lambda>(k', _). k' = k) (rev kvs) = Some x" "w = snd x"
    using assms by (auto simp: find_key_def)
  have "x \<in> set (rev kvs)" using x(1) unfolding find_Some_iff by (metis nth_mem)
  then have "(fst x, w) \<in> set kvs" using x(2) by simp
  then have "size_prod (\<lambda>_. 0) size (fst x, w) \<le> size_list (size_prod (\<lambda>_. 0) size) kvs"
    by (intro size_list_estimation') auto
  then show ?thesis by simp
qed

lemma get_size: "get v k = Some w \<Longrightarrow> size w < size v"
  by (cases v) (auto simp: get_def dest: find_key_size simp del: Value.size)

function check :: "'f schema_ops \<Rightarrow> 'f Value \<Rightarrow> 'f Value \<Rightarrow> string \<Rightarrow> Violation list" where
  "check F schema data path = (case type_error schema data of
     Some m \<Rightarrow> at_path path [m]
   | None \<Rightarrow>
       at_path path (check_const F schema data) @ at_path path (check_number F schema data) @
       at_path path (check_string F schema data) @
       (case data of
          Array items \<Rightarrow> at_path path (check_length F schema items) @
            (case get schema ''items'' of
               Some item_schema \<Rightarrow>
                 concat (map (\<lambda>(i, elem). check F item_schema elem (path @ ''/'' @ decimal i)) (enumerate 0 items))
             | None \<Rightarrow> [])
        | _ \<Rightarrow> []) @
       (case data of
          Object _ \<Rightarrow> at_path path (check_required schema data) @
            (case get schema ''properties'' of
               Some (Object props) \<Rightarrow>
                 concat (map (\<lambda>(key, sub). case get data key of
                     Some v \<Rightarrow> check F sub v (path @ ''/'' @ key)
                   | None \<Rightarrow> []) props)
             | _ \<Rightarrow> [])
        | _ \<Rightarrow> []))"
  by pat_completeness auto
termination
proof (relation "measure (\<lambda>(F, schema, data, path). size data)", goal_cases)
  case (2 F schema data path items item_schema x i elem)
  then have "elem \<in> set items" by (auto simp: in_set_enumerate_eq)
  then have "size elem \<le> size_list size items" by (intro size_list_estimation') auto
  then show ?case using 2 by simp
next
  case (3 F schema data path kvs o1 props x key sub v)
  then show ?case using get_size [of data key v] by simp
qed simp

declare check.simps [simp del]

definition validate :: "'f schema_ops \<Rightarrow> 'f Value \<Rightarrow> 'f Value \<Rightarrow> (unit, Violation list) result" where
  "validate F schema data = (let out = check F schema data [] in if out = [] then Ok () else Err out)"

section \<open>Types\<close>

text \<open>A language of types, each with the schema that describes it. An object type lists its known
  properties and whether each is required; other properties are free.\<close>

datatype ty = TAny | TNull | TBool | TInt | TNum | TStr | TArr ty | TObj "(string \<times> bool \<times> ty) list"

definition type_only :: "string \<Rightarrow> (string \<times> 'f Value) list" where
  "type_only n = [(''type'', Str n)]"

fun schema_of :: "ty \<Rightarrow> 'f Value" where
  "schema_of TAny = Object []"
| "schema_of TNull = Object (type_only ''null'')"
| "schema_of TBool = Object (type_only ''boolean'')"
| "schema_of TInt = Object (type_only ''integer'')"
| "schema_of TNum = Object (type_only ''number'')"
| "schema_of TStr = Object (type_only ''string'')"
| "schema_of (TArr t) = Object (type_only ''array'' @ [(''items'', schema_of t)])"
| "schema_of (TObj fs) = Object (type_only ''object'' @
     [(''required'', Array (map (\<lambda>(k, r, t). Str k) (filter (\<lambda>(k, r, t). r) fs))),
      (''properties'', Object (map (\<lambda>(k, r, t). (k, schema_of t)) fs))])"

inductive has_type :: "'f Value \<Rightarrow> ty \<Rightarrow> bool" where
  any: "has_type v TAny"
| null: "has_type Null TNull"
| bool: "has_type (Bool b) TBool"
| int: "has_type (IntV i) TInt"
| uint: "has_type (UInt u) TInt"
| num_int: "has_type v TInt \<Longrightarrow> has_type v TNum"
| num_float: "has_type (Float f) TNum"
| str: "has_type (Str s) TStr"
| arr: "(\<And>v. v \<in> set vs \<Longrightarrow> has_type v t) \<Longrightarrow> has_type (Array vs) (TArr t)"
| obj: "(\<And>k r t. (k, r, t) \<in> set fs \<Longrightarrow> r \<Longrightarrow> get (Object kvs) k \<noteq> None) \<Longrightarrow>
    (\<And>k r t v. (k, r, t) \<in> set fs \<Longrightarrow> get (Object kvs) k = Some v \<Longrightarrow> has_type v t) \<Longrightarrow> has_type (Object kvs) (TObj fs)"

inductive_simps has_type_simps [simp]:
  "has_type v TAny" "has_type v TNull" "has_type v TBool" "has_type v TInt" "has_type v TStr"

inductive_simps has_type_num: "has_type v TNum"
inductive_simps has_type_arr: "has_type v (TArr t)"
inductive_simps has_type_obj: "has_type v (TObj fs)"

lemmas get_simps = get_def find_key_def type_only_def

text \<open>None of the schemas of types has a keyword that is not used for types.\<close>

lemma schema_of_fields [simp]:
  "get (schema_of T) ''const'' = None" "get (schema_of T) ''enum'' = None"
  "get (schema_of T) ''minimum'' = None" "get (schema_of T) ''maximum'' = None"
  "get (schema_of T) ''minLength'' = None" "get (schema_of T) ''maxLength'' = None"
  "get (schema_of T) ''minItems'' = None" "get (schema_of T) ''maxItems'' = None"
  by (cases T; simp add: get_simps)+

lemma schema_of_checks [simp]:
  "check_const F (schema_of T) v = []" "check_number F (schema_of T) v = []" "check_string F (schema_of T) v = []"
  "check_length F (schema_of T) vs = []" "at_path p [] = []"
  by (simp_all add: check_const_def check_number_def check_string_def check_length_def check_bounds_def num_field_def
      at_path_def split: option.split Value.split)

lemma at_path_Nil [simp]: "at_path p ms = [] \<longleftrightarrow> ms = []"
  by (simp add: at_path_def)

lemma check_array:
  fixes F :: "'f schema_ops"
  shows "check F (schema_of (TArr t)) (Array vs) p = [] \<longleftrightarrow>
     (\<forall>(i, v) \<in> set (enumerate 0 vs). check F (schema_of t) v (p @ ''/'' @ decimal i) = [])"
proof -
  have "type_error (schema_of (TArr t)) (Array vs) = None" "get (schema_of (TArr t) :: 'f Value) ''items'' = Some (schema_of t)"
    by (simp_all add: type_error_def type_matches_def get_simps)
  then show ?thesis by (subst check.simps) (auto simp del: schema_of.simps)
qed

lemma check_object:
  fixes F :: "'f schema_ops"
  shows "check F (schema_of (TObj fs)) (Object kvs) p = [] \<longleftrightarrow>
     (\<forall>(k, r, t) \<in> set fs. (r \<longrightarrow> get (Object kvs) k \<noteq> None) \<and>
        (\<forall>v. get (Object kvs) k = Some v \<longrightarrow> check F (schema_of t) v (p @ ''/'' @ k) = []))"
proof -
  have f: "type_error (schema_of (TObj fs)) (Object kvs) = None"
    "get (schema_of (TObj fs) :: 'f Value) ''required'' = Some (Array (map (\<lambda>(k, r, t). Str k) (filter (\<lambda>(k, r, t). r) fs)))"
    "get (schema_of (TObj fs) :: 'f Value) ''properties'' = Some (Object (map (\<lambda>(k, r, t). (k, schema_of t)) fs))"
    by (simp_all add: type_error_def type_matches_def get_simps)
  have req: "check_required (schema_of (TObj fs) :: 'f Value) (Object kvs) = [] \<longleftrightarrow>
      (\<forall>(k, r, t) \<in> set fs. r \<longrightarrow> get (Object kvs) k \<noteq> None)"
    using f(2) by (auto simp: check_required_def split: option.splits simp del: schema_of.simps)
  show ?thesis
    by (subst check.simps) (auto simp: f req split: option.splits simp del: schema_of.simps)
qed

lemma check_scalar:
  fixes F :: "'f schema_ops"
  assumes "\<And>t. T \<noteq> TArr t" "\<And>fs. T \<noteq> TObj fs"
  shows "check F (schema_of T) v p = [] \<longleftrightarrow> type_error (schema_of T) v = None"
proof -
  have "get (schema_of T :: 'f Value) ''items'' = None" "get (schema_of T :: 'f Value) ''required'' = None"
      "get (schema_of T :: 'f Value) ''properties'' = None"
    using assms by (cases T; simp add: get_simps)+
  then show ?thesis
    by (subst check.simps) (simp add: check_required_def split: option.split Value.split)
qed

lemma check_type_error: "type_error schema v \<noteq> None \<Longrightarrow> check F schema v p \<noteq> []"
  by (subst check.simps) auto

lemma scalar_type:
  assumes "\<And>t. T \<noteq> TArr t" "\<And>fs. T \<noteq> TObj fs"
  shows "type_error (schema_of T) v = None \<longleftrightarrow> has_type v T"
  using assms by (cases T; cases v) (simp_all add: type_error_def type_matches_def get_simps has_type_num)

lemma check_has_type: "check F (schema_of T) v p = [] \<longleftrightarrow> has_type v T"
proof (induction T arbitrary: v p)
  case (TArr t)
  have en: "(\<forall>(i, w) \<in> set (enumerate 0 vs). has_type w t) \<longleftrightarrow> (\<forall>w \<in> set vs. has_type w t)" for vs :: "'a Value list"
  proof -
    have "(\<forall>(i, w) \<in> set xs. has_type w t) \<longleftrightarrow> (\<forall>w \<in> set (map snd xs). has_type w t)" for xs :: "(nat \<times> 'a Value) list" by auto
    then show ?thesis by (simp only: map_snd_enumerate)
  qed
  show ?case
  proof (cases "\<exists>vs. v = Array vs")
    case True
    then show ?thesis by (auto simp: check_array has_type_arr TArr en simp del: schema_of.simps)
  next
    case False
    then have te: "type_error (schema_of (TArr t)) v \<noteq> None"
      by (cases v) (simp_all add: type_error_def type_matches_def get_simps)
    then show ?thesis using check_type_error [OF te, of F p] False by (auto simp: has_type_arr simp del: schema_of.simps)
  qed
next
  case (TObj fs)
  have IH: "check F (schema_of t) w q = [] \<longleftrightarrow> has_type w t" if "(k, r, t) \<in> set fs" for k r t w q
    using TObj [of "(k, r, t)" "(r, t)" t] that by simp
  show ?case
  proof (cases "\<exists>kvs. v = Object kvs")
    case True
    then obtain kvs where v: "v = Object kvs" by blast
    have "(\<forall>(k, r, t) \<in> set fs. (r \<longrightarrow> get v k \<noteq> None) \<and>
          (\<forall>w. get v k = Some w \<longrightarrow> check F (schema_of t) w (p @ ''/'' @ k) = [])) \<longleftrightarrow> has_type v (TObj fs)"
      unfolding has_type_obj v by (fastforce simp: IH)
    then show ?thesis using check_object v by blast
  next
    case False
    then have te: "type_error (schema_of (TObj fs)) v \<noteq> None"
      by (cases v) (simp_all add: type_error_def type_matches_def get_simps)
    then show ?thesis using check_type_error [OF te, of F p] False by (auto simp: has_type_obj simp del: schema_of.simps)
  qed
qed (simp_all only: check_scalar scalar_type ty.distinct simp_thms)

section \<open>Locating violations\<close>

text \<open>\<open>points v p w\<close>: the path \<open>p\<close> leads from \<open>v\<close> to \<open>w\<close>, by index into arrays and by key into objects.\<close>

inductive points :: "'f Value \<Rightarrow> string \<Rightarrow> 'f Value \<Rightarrow> bool" for v where
  here: "points v [] v"
| index: "points v p (Array ws) \<Longrightarrow> i < length ws \<Longrightarrow> points v (p @ ''/'' @ decimal i) (ws ! i)"
| key: "points v p w \<Longrightarrow> get w k = Some u \<Longrightarrow> points v (p @ ''/'' @ k) u"

lemma check_located:
  "points v0 p v \<Longrightarrow> x \<in> set (check F schema v p) \<Longrightarrow> \<exists>w. points v0 (v_path x) w"
proof (induction F schema v p rule: check.induct)
  case (1 F schema data path)
  have here: "v_path y = path" if "y \<in> set (at_path path ms)" for y ms
    using that by (auto simp: at_path_def)
  consider (own) "v_path x = path"
    | (elem) items it i e where "type_error schema data = None" "data = Array items" "get schema ''items'' = Some it"
        "(i, e) \<in> set (enumerate 0 items)" "x \<in> set (check F it e (path @ ''/'' @ decimal i))"
    | (field) kvs props k sub w where "type_error schema data = None" "data = Object kvs" "get schema ''properties'' = Some (Object props)"
        "(k, sub) \<in> set props" "get data k = Some w" "x \<in> set (check F sub w (path @ ''/'' @ k))"
    using 1(4) [unfolded check.simps [of F schema data path]] by (auto dest: here split: option.splits Value.splits) metis+
  then show ?case
  proof cases
    case own
    then show ?thesis using 1(3) by blast
  next
    case elem
    then have "points v0 (path @ ''/'' @ decimal i) e"
      using 1(3) points.index [of v0 path items i] by (auto simp: in_set_enumerate_eq)
    then show ?thesis using 1(1) [OF elem(1-4) refl _ elem(5)] by blast
  next
    case field
    then have "points v0 (path @ ''/'' @ k) w" using 1(3) points.key [of v0 path data k w] by simp
    then show ?thesis using 1(2) [OF field(1-3) refl field(4) refl field(5) _ field(6)] by blast
  qed
qed

section \<open>Properties\<close>

text \<open>C40: The schema validator decides types: a value passes the schema that describes a type (null, booleans, integers,
  numbers, strings, arrays of a type, objects with required and optional typed properties) exactly if it
  has that type.\<close>

theorem schema_decides_types: "validate F (schema_of T) v = Ok () \<longleftrightarrow> has_type v T"
  by (simp add: validate_def Let_def check_has_type)

text \<open>Every violation is located: its path leads to a value inside the data.\<close>

theorem schema_violations_located:
  assumes "validate F schema data = Err out" and "x \<in> set out"
  shows "\<exists>w. points data (v_path x) w"
  using assms check_located [OF points.here [of data], of x F schema] by (auto simp: validate_def Let_def split: if_splits)

end
