(* ===== verification/Ws_Frame.thy ===== *)
theory Ws_Frame
  imports Prelude
begin

text \<open>
  WebSocket frames, \<^verbatim>\<open>ws/frame.rs\<close>: opcodes, the two-byte header, the three length encodings and
  masking. The masking key that \<^verbatim>\<open>rand::fill\<close> draws is an argument. Byte order conversions of the
  standard library are written over \<^verbatim>\<open>nat\<close>.
\<close>

unbundle bit_operations_syntax

section \<open>Frames\<close>

datatype Opcode = Continuation | Text | Binary | Close | Ping | Pong

definition from_bits :: "u8 \<Rightarrow> Opcode option" where
  "from_bits b =
     (if b = 0x0 then Some Continuation
      else if b = 0x1 then Some Text
      else if b = 0x2 then Some Binary
      else if b = 0x8 then Some Close
      else if b = 0x9 then Some Ping
      else if b = 0xA then Some Pong
      else None)"

fun bits :: "Opcode \<Rightarrow> u8" where
  "bits Continuation = 0x0"
| "bits Text = 0x1"
| "bits Binary = 0x2"
| "bits Close = 0x8"
| "bits Ping = 0x9"
| "bits Pong = 0xA"

record Frame =
  fin :: bool
  opcode :: Opcode
  payload :: bytes

definition parse_header :: "u8 \<Rightarrow> u8 \<Rightarrow> (bool \<times> Opcode \<times> bool \<times> u8) option" where
  "parse_header b0 b1 = (case from_bits (b0 AND 0x0F) of
     None \<Rightarrow> None
   | Some op \<Rightarrow> Some (b0 AND 0x80 \<noteq> 0, op, b1 AND 0x80 \<noteq> 0, b1 AND 0x7F))"

text \<open>\<^verbatim>\<open>to_be_bytes\<close> and \<^verbatim>\<open>from_be_bytes\<close> of a \<open>k\<close>-byte unsigned integer.\<close>

fun to_be_bytes :: "nat \<Rightarrow> nat \<Rightarrow> bytes" where
  "to_be_bytes 0 v = []"
| "to_be_bytes (Suc k) v = to_be_bytes k (v div 256) @ [of_nat (v mod 256)]"

definition from_be_bytes :: "bytes \<Rightarrow> nat" where
  "from_be_bytes bs = foldl (\<lambda>a b. 256 * a + unat b) 0 bs"

definition apply_mask :: "bytes \<Rightarrow> bytes \<Rightarrow> bytes" where
  "apply_mask bs key = map (\<lambda>(i, b). b XOR key ! (i mod 4)) (enumerate 0 bs)"

definition encode :: "bool \<Rightarrow> Opcode \<Rightarrow> bytes \<Rightarrow> bool \<Rightarrow> bytes \<Rightarrow> bytes" where
  "encode f op pl msk key =
     (let mask_bit = (if msk then 0x80 else 0 :: u8); len = length pl
      in [(if f then 0x80 else 0) OR bits op] @
         (if len < 126 then [mask_bit OR of_nat len]
          else if len \<le> 65535 then [mask_bit OR 126] @ to_be_bytes 2 (len mod 2 ^ 16)
          else [mask_bit OR 127] @ to_be_bytes 8 (len mod 2 ^ 64)) @
         (if msk then key @ apply_mask pl key else pl))"

section \<open>Round trips\<close>

lemma from_bits_bits [simp]: "from_bits (bits op) = Some op"
  by (cases op) (simp_all add: from_bits_def)

lemma bits_small: "bits op AND 0x0F = bits op" "bits op AND 0x80 = 0"
  by (cases op; simp)+

lemma first_byte:
  "((if f then 0x80 else 0) OR bits op) AND 0x0F = bits op"
  "(((if f then 0x80 else 0) OR bits op) AND 0x80 \<noteq> 0) = f"
  by (cases op; simp)+

lemma low7:
  assumes "unat (w :: u8) < 128"
  shows "w AND 0x7F = w" "w AND 0x80 = 0"
proof -
  have "w AND mask 7 = take_bit 7 w" by (simp add: take_bit_eq_mask)
  also have "\<dots> = w"
    using assms by (simp add: word_unat_eq_iff unsigned_take_bit_eq take_bit_nat_eq_self)
  finally show m: "w AND 0x7F = w" by (simp add: mask_eq_exp_minus_1)
  have "w AND 0x80 = (w AND 0x7F) AND 0x80" by (simp only: m)
  also have "\<dots> = w AND (0x7F AND 0x80)" by (simp only: and.assoc)
  finally show "w AND 0x80 = 0" by simp
qed

lemma second_byte:
  assumes "unat (w :: u8) < 128"
  shows "((if m then 0x80 else 0) OR w) AND 0x7F = w" "(((if m then 0x80 else 0) OR w) AND 0x80 \<noteq> 0) = m"
  using low7 [OF assms] by (cases m; simp add: bit.conj_disj_distrib2)+

lemma parse_header_encode:
  assumes "unat w < 128"
  shows "parse_header ((if f then 0x80 else 0) OR bits op) ((if m then 0x80 else 0) OR w) = Some (f, op, m, w)"
  using first_byte [of f op] second_byte [OF assms, of m] by (simp add: parse_header_def)

lemma length_to_be_bytes [simp]: "length (to_be_bytes k v) = k"
  by (induction k arbitrary: v) simp_all

lemma from_be_to_be: "v < 256 ^ k \<Longrightarrow> from_be_bytes (to_be_bytes k v) = v"
proof (induction k arbitrary: v)
  case (Suc k)
  have "v div 256 < 256 ^ k" using Suc.prems by (simp add: div_less_iff_less_mult mult.commute)
  moreover have "unat (of_nat (v mod 256) :: u8) = v mod 256" by (simp add: unsigned_of_nat take_bit_eq_mod)
  ultimately show ?case using Suc.IH [of "v div 256"] by (simp add: from_be_bytes_def)
qed (simp add: from_be_bytes_def)

lemma length_apply_mask [simp]: "length (apply_mask bs key) = length bs"
  by (simp add: apply_mask_def)

lemma nth_apply_mask: "i < length bs \<Longrightarrow> apply_mask bs key ! i = bs ! i XOR key ! (i mod 4)"
  by (simp add: apply_mask_def nth_enumerate_eq)

lemma apply_mask_involution [simp]: "apply_mask (apply_mask bs key) key = bs"
  by (rule nth_equalityI) (simp_all add: nth_apply_mask xor.assoc)

end
