(* ===== verification/Ws_Conn.thy ===== *)
theory Ws_Conn
  imports Ws_Frame Utf8
begin

text \<open>
  The connection loops of \<^verbatim>\<open>ws/conn.rs\<close>: the buffered reader, frame decoding, reassembly of fragmented
  messages with ping replies, and the write loop. The peer's bytes arrive as a list of socket
  deliveries of any size; \<^verbatim>\<open>usize\<close> is 64 bits wide. A \<^verbatim>\<open>String\<close> is the list of its UTF-8 bytes.
\<close>

section \<open>The buffered reader\<close>

datatype IoError = UnexpectedEof | InvalidData string | Other

text \<open>What the socket holds for us: chunks as they arrive, or a transport error. The end of the list
  and an empty chunk read as end of file.\<close>

datatype Recv = Chunk bytes | Broken

definition sock_read :: "nat \<Rightarrow> Recv list \<Rightarrow> (bytes, IoError) result \<times> Recv list" where
  "sock_read k rs = (case rs of
     [] \<Rightarrow> (Ok [], [])
   | Broken # rs' \<Rightarrow> (Err Other, rs')
   | Chunk c # rs' \<Rightarrow> if length c \<le> k then (Ok c, rs') else (Ok (take k c), Chunk (drop k c) # rs'))"

definition READ_CHUNK :: nat where
  "READ_CHUNK = 64 * 1024"

record Reader =
  inner :: "Recv list"
  buf :: bytes
  pos :: nat
  max_frame_size :: "nat option"

definition reader_new :: "Recv list \<Rightarrow> bytes \<Rightarrow> nat option \<Rightarrow> Reader" where
  "reader_new i leftover mx = \<lparr>inner = i, buf = leftover, pos = 0, max_frame_size = mx\<rparr>"

text \<open>The loop of \<^verbatim>\<open>read_exact\<close>: \<open>acc\<close> is \<^verbatim>\<open>out\<close>.\<close>

function read_exact_loop :: "nat \<Rightarrow> bytes \<Rightarrow> Reader \<Rightarrow> (bytes, IoError) result \<times> Reader" where
  "read_exact_loop n acc r =
     (if \<not> length acc < n then (Ok acc, r)
      else if pos r < length (buf r) then
        let tk = min (n - length acc) (length (buf r) - pos r)
        in read_exact_loop n (acc @ take tk (drop (pos r) (buf r))) (r\<lparr>pos := pos r + tk\<rparr>)
      else case sock_read (min (n - length acc) READ_CHUNK) (inner r) of
          (Err e, i) \<Rightarrow> (Err e, r\<lparr>inner := i\<rparr>)
        | (Ok bs, i) \<Rightarrow> if bs = [] then (Err UnexpectedEof, r\<lparr>inner := i\<rparr>)
                       else read_exact_loop n (acc @ bs) (r\<lparr>inner := i\<rparr>))"
  by pat_completeness auto
termination
proof (relation "measure (\<lambda>(n, acc, r). n - length acc)", goal_cases)
  case (3 n acc r x i bs)
  then show ?case by (cases bs) simp_all
qed (auto simp: min_def)

declare read_exact_loop.simps [simp del]

definition read_exact :: "nat \<Rightarrow> Reader \<Rightarrow> (bytes, IoError) result \<times> Reader" where
  "read_exact n r = read_exact_loop n [] r"

text \<open>\<^verbatim>\<open>?\<close> on a reader operation.\<close>

definition and_then :: "(Reader \<Rightarrow> ('a, IoError) result \<times> Reader) \<Rightarrow>
    ('a \<Rightarrow> Reader \<Rightarrow> ('b, IoError) result \<times> Reader) \<Rightarrow> Reader \<Rightarrow> ('b, IoError) result \<times> Reader" where
  "and_then m f r = (case m r of (Err e, r') \<Rightarrow> (Err e, r') | (Ok x, r') \<Rightarrow> f x r')"

definition read_length :: "u8 \<Rightarrow> Reader \<Rightarrow> (nat, IoError) result \<times> Reader" where
  "read_length len7 =
     (if len7 = 126 then and_then (read_exact 2) (\<lambda>b r. (Ok (from_be_bytes b), r))
      else if len7 = 127 then and_then (read_exact 8) (\<lambda>b r.
        if from_be_bytes b > 2 ^ 63 - 1 then (Err (InvalidData ''frame length exceeds maximum''), r)
        else (Ok (from_be_bytes b), r))
      else (\<lambda>r. (Ok (unat len7), r)))"

definition read_payload :: "bool \<Rightarrow> Opcode \<Rightarrow> bool \<Rightarrow> nat \<Rightarrow> Reader \<Rightarrow> (Frame, IoError) result \<times> Reader" where
  "read_payload f op masked len =
     (if masked then and_then (read_exact 4) (\<lambda>key. and_then (read_exact len) (\<lambda>p r.
        (Ok \<lparr>fin = f, opcode = op, payload = apply_mask p key\<rparr>, r)))
      else and_then (read_exact len) (\<lambda>p r. (Ok \<lparr>fin = f, opcode = op, payload = p\<rparr>, r)))"

definition read_frame :: "Reader \<Rightarrow> (Frame, IoError) result \<times> Reader" where
  "read_frame = and_then (read_exact 2) (\<lambda>hdr. case parse_header (hdr ! 0) (hdr ! 1) of
     None \<Rightarrow> (\<lambda>r. (Err (InvalidData ''bad opcode''), r))
   | Some (f, op, masked, len7) \<Rightarrow> and_then (read_length len7) (\<lambda>len r.
       case max_frame_size r of
         Some mx \<Rightarrow> if len > mx then (Err (InvalidData ''frame exceeds max_frame_size''), r)
                    else read_payload f op masked len r
       | None \<Rightarrow> read_payload f op masked len r))"

section \<open>Reading is independent of how the bytes arrive\<close>

fun available :: "Recv list \<Rightarrow> bytes" where
  "available (Chunk (b # bs) # rs) = b # bs @ available rs"
| "available _ = []"

definition pending :: "Reader \<Rightarrow> bytes" where
  "pending r = drop (pos r) (buf r) @ available (inner r)"

lemma sock_read_available:
  assumes "0 < k" and "sock_read k rs = (res, rs')"
  shows "available rs = [] \<Longrightarrow> (\<exists>e. res = Err e) \<or> res = Ok []"
    and "available rs \<noteq> [] \<Longrightarrow> \<exists>bs. res = Ok bs \<and> bs \<noteq> [] \<and> length bs \<le> k \<and> available rs = bs @ available rs'"
proof -
  show "(\<exists>e. res = Err e) \<or> res = Ok []" if "available rs = []"
    using assms that by (cases rs rule: available.cases) (auto simp: sock_read_def)
  show "\<exists>bs. res = Ok bs \<and> bs \<noteq> [] \<and> length bs \<le> k \<and> available rs = bs @ available rs'" if "available rs \<noteq> []"
  proof -
    from that obtain b bs rs1 where rs: "rs = Chunk (b # bs) # rs1" by (cases rs rule: available.cases) auto
    show ?thesis
    proof (cases "length (b # bs) \<le> k")
      case True
      then show ?thesis using assms(2) rs by (simp add: sock_read_def)
    next
      case False
      then have "res = Ok (take k (b # bs))" "rs' = Chunk (drop k (b # bs)) # rs1"
        using assms(2) rs by (simp_all add: sock_read_def)
      moreover obtain d ds where "drop k (b # bs) = d # ds" using False by (cases "drop k (b # bs)") auto
      moreover have "take k (b # bs) @ drop k (b # bs) = b # bs" by (rule append_take_drop_id)
      ultimately show ?thesis using assms(1) rs False by auto
    qed
  qed
qed

definition exact_spec :: "nat \<Rightarrow> bytes \<Rightarrow> Reader \<Rightarrow> bool" where
  "exact_spec n acc r \<longleftrightarrow> (\<exists>r'. max_frame_size r' = max_frame_size r \<and>
    (if n \<le> length acc + length (pending r)
     then read_exact_loop n acc r = (Ok (acc @ take (n - length acc) (pending r)), r') \<and>
          pending r' = drop (n - length acc) (pending r)
     else \<exists>e. read_exact_loop n acc r = (Err e, r')))"

lemma exact_spec_step:
  assumes "exact_spec n (acc @ bs) r1" and "read_exact_loop n acc r = read_exact_loop n (acc @ bs) r1"
    and "pending r = bs @ pending r1" and "max_frame_size r1 = max_frame_size r" and "length bs \<le> n - length acc"
  shows "exact_spec n acc r"
  using assms unfolding exact_spec_def by (auto split: if_splits simp: add.assoc)

lemma read_exact_loop_spec:
  "length acc \<le> n \<Longrightarrow> exact_spec n acc r"
proof (induction n acc r rule: read_exact_loop.induct)
  case (1 n acc r)
  consider (full) "length acc = n" | (buffered) "length acc < n" "pos r < length (buf r)"
    | (socket) "length acc < n" "\<not> pos r < length (buf r)"
    using 1(3) by linarith
  then show ?case
  proof cases
    case full
    then have "read_exact_loop n acc r = (Ok acc, r)" by (subst read_exact_loop.simps) simp
    then show ?thesis using full by (auto simp: exact_spec_def)
  next
    case buffered
    define tk where "tk = min (n - length acc) (length (buf r) - pos r)"
    let ?bs = "take tk (drop (pos r) (buf r))"
    let ?r = "r\<lparr>pos := pos r + tk\<rparr>"
    have len: "length ?bs \<le> n - length acc" by (simp add: tk_def)
    have "drop (pos r) (buf r) = ?bs @ drop (pos r + tk) (buf r)"
      by (metis add.commute append_take_drop_id drop_drop)
    then have "pending r = ?bs @ pending ?r" by (simp add: pending_def)
    moreover have "exact_spec n (acc @ ?bs) ?r"
      using 1(1) [OF _ buffered(2) tk_def] buffered(1) len by simp
    moreover have "read_exact_loop n acc r = read_exact_loop n (acc @ ?bs) ?r"
      using buffered by (subst read_exact_loop.simps) (simp add: Let_def tk_def)
    ultimately show ?thesis using len by (intro exact_spec_step [of n acc ?bs ?r r]) simp_all
  next
    case socket
    obtain res i where rd: "sock_read (min (n - length acc) READ_CHUNK) (inner r) = (res, i)" by fastforce
    have pend: "pending (r\<lparr>inner := x\<rparr>) = available x" for x using socket by (simp add: pending_def)
    have k: "0 < min (n - length acc) READ_CHUNK" using socket by (simp add: READ_CHUNK_def)
    show ?thesis
    proof (cases "available (inner r) = []")
      case True
      then have "\<exists>e. read_exact_loop n acc r = (Err e, r\<lparr>inner := i\<rparr>)"
        using sock_read_available(1) [OF k rd] socket rd by (subst read_exact_loop.simps) auto
      moreover have "\<not> n \<le> length acc + length (pending r)" using socket True pend [of "inner r"] by simp
      ultimately show ?thesis unfolding exact_spec_def by (auto intro: exI [of _ "r\<lparr>inner := i\<rparr>"])
    next
      case False
      then obtain bs where bs: "res = Ok bs" "bs \<noteq> []" "length bs \<le> n - length acc"
          "available (inner r) = bs @ available i"
        using sock_read_available(2) [OF k rd] by auto
      have "read_exact_loop n acc r = read_exact_loop n (acc @ bs) (r\<lparr>inner := i\<rparr>)"
        using socket rd bs(1,2) by (subst read_exact_loop.simps) simp
      moreover have "pending r = bs @ pending (r\<lparr>inner := i\<rparr>)" using pend [of i] pend [of "inner r"] bs(4) by simp
      moreover have "exact_spec n (acc @ bs) (r\<lparr>inner := i\<rparr>)"
        using 1(2) [OF _ socket(2) rd [symmetric] bs(1) bs(2)] socket(1) bs(3) by simp
      ultimately show ?thesis using bs(3) by (intro exact_spec_step [of n acc bs "r\<lparr>inner := i\<rparr>" r]) simp_all
    qed
  qed
qed

text \<open>
  The contract the frame decoder relies on: a byte source hands out the pending bytes in order, and
  fails when they run short, whatever chunks they arrived in.
\<close>

locale byte_source =
  fixes rd :: "nat \<Rightarrow> 's \<Rightarrow> (bytes, IoError) result \<times> 's"
    and left :: "'s \<Rightarrow> bytes" and cfg :: "'s \<Rightarrow> 'c"
  assumes rd_enough: "n \<le> length (left s) \<Longrightarrow>
      \<exists>s'. rd n s = (Ok (take n (left s)), s') \<and> left s' = drop n (left s) \<and> cfg s' = cfg s"
    and rd_short: "length (left s) < n \<Longrightarrow> \<exists>e s'. rd n s = (Err e, s') \<and> cfg s' = cfg s"
begin

lemma rd_prefix:
  assumes "left s = xs @ ys"
  obtains s' where "rd (length xs) s = (Ok xs, s')" "left s' = ys" "cfg s' = cfg s"
  using rd_enough [of "length xs" s] assms by auto

lemma rd_Ok:
  assumes "rd n s = (Ok xs, s')"
  shows "left s = xs @ left s' \<and> length xs = n \<and> cfg s' = cfg s"
proof (cases "n \<le> length (left s)")
  case True
  then show ?thesis using rd_enough [OF True] assms by auto
next
  case False
  then show ?thesis using rd_short [of s n] assms by auto
qed

lemma rd_cfg: "rd n s = (res, s') \<Longrightarrow> cfg s' = cfg s"
  using rd_enough [of n s] rd_short [of s n] by (cases "n \<le> length (left s)") auto

end

interpretation rx: byte_source read_exact pending max_frame_size
proof
  fix n s
  have spec: "exact_spec n [] s" by (rule read_exact_loop_spec) simp
  show "\<exists>s'. read_exact n s = (Ok (take n (pending s)), s') \<and> pending s' = drop n (pending s) \<and>
      max_frame_size s' = max_frame_size s" if "n \<le> length (pending s)"
    using spec that by (auto simp: exact_spec_def read_exact_def)
  show "\<exists>e s'. read_exact n s = (Err e, s') \<and> max_frame_size s' = max_frame_size s" if "length (pending s) < n"
    using spec that by (auto simp: exact_spec_def read_exact_def)
qed

section \<open>Decoding an encoded frame\<close>

lemma and_then_Ok: "m r = (Ok x, r') \<Longrightarrow> and_then m f r = f x r'"
  by (simp add: and_then_def)

lemma and_thenE:
  assumes "and_then m f r = (Ok y, r')"
  obtains x r1 where "m r = (Ok x, r1)" "f x r1 = (Ok y, r')"
  using assms by (auto simp: and_then_def split: prod.splits sum.splits)

lemma read_prefix:
  assumes "pending r = xs @ ys" and "length xs = n"
  obtains r' where "read_exact n r = (Ok xs, r')" "pending r' = ys" "max_frame_size r' = max_frame_size r"
  using rx.rd_prefix [OF assms(1)] assms(2) by blast

definition length_bytes :: "nat \<Rightarrow> u8 \<times> bytes" where
  "length_bytes len =
     (if len < 126 then (of_nat len, [])
      else if len \<le> 65535 then (126, to_be_bytes 2 (len mod 2 ^ 16))
      else (127, to_be_bytes 8 (len mod 2 ^ 64)))"

lemma encode_shape:
  assumes "length_bytes (length pl) = (l7, ext)"
  shows "encode f op pl msk key = [(if f then 0x80 else 0) OR bits op, (if msk then 0x80 else 0) OR l7] @ ext @
    (if msk then key @ apply_mask pl key else pl)"
  using assms by (auto simp: encode_def length_bytes_def Let_def split: if_splits)

lemma length_bytes_small: "length_bytes n = (l7, ext) \<Longrightarrow> unat l7 < 128"
  by (auto simp: length_bytes_def unsigned_of_nat take_bit_nat_eq_self split: if_splits)

lemma read_length_bytes:
  assumes "length_bytes n = (l7, ext)" and "n < 2 ^ 63" and "pending r = ext @ ys"
  obtains r' where "read_length l7 r = (Ok n, r')" "pending r' = ys" "max_frame_size r' = max_frame_size r"
proof -
  consider (short) "n < 126" | (mid) "126 \<le> n" "n \<le> 65535" | (long) "65535 < n" by linarith
  then show ?thesis
  proof cases
    case short
    then have l: "unat l7 = n" "ext = []"
      using assms(1) by (auto simp: length_bytes_def unsigned_of_nat take_bit_nat_eq_self)
    then have "l7 \<noteq> 126" "l7 \<noteq> 127" using short by (auto simp: word_unat_eq_iff)
    then show ?thesis using that [of r] l assms(3) by (simp add: read_length_def)
  next
    case mid
    then have l: "l7 = 126" "ext = to_be_bytes 2 n" using assms(1) by (auto simp: length_bytes_def)
    then obtain r' where r': "read_exact 2 r = (Ok ext, r')" "pending r' = ys" "max_frame_size r' = max_frame_size r"
      using read_prefix [OF assms(3)] by auto
    have "from_be_bytes ext = n" using mid l(2) by (simp add: from_be_to_be)
    then show ?thesis using that [of r'] r' l(1) by (simp add: read_length_def and_then_Ok)
  next
    case long
    then have l: "l7 = 127" "ext = to_be_bytes 8 n" using assms(1,2) by (auto simp: length_bytes_def)
    then obtain r' where r': "read_exact 8 r = (Ok ext, r')" "pending r' = ys" "max_frame_size r' = max_frame_size r"
      using read_prefix [OF assms(3)] by auto
    have "from_be_bytes ext = n" using assms(2) l(2) by (simp add: from_be_to_be)
    then show ?thesis using that [of r'] r' l(1) assms(2) by (simp add: read_length_def and_then_Ok)
  qed
qed

lemma read_payload_masked:
  assumes "pending r = (if msk then key @ apply_mask pl key else pl) @ ys" and "msk \<Longrightarrow> length key = 4"
  obtains r' where "read_payload f op msk (length pl) r = (Ok \<lparr>fin = f, opcode = op, payload = pl\<rparr>, r')"
    "pending r' = ys" "max_frame_size r' = max_frame_size r"
proof (cases msk)
  case True
  then obtain r1 where r1: "read_exact 4 r = (Ok key, r1)" "pending r1 = apply_mask pl key @ ys"
      "max_frame_size r1 = max_frame_size r"
    using read_prefix [of r key "apply_mask pl key @ ys" 4] assms by auto
  obtain r2 where r2: "read_exact (length pl) r1 = (Ok (apply_mask pl key), r2)" "pending r2 = ys"
      "max_frame_size r2 = max_frame_size r1"
    by (rule read_prefix [OF r1(2)]) simp
  show ?thesis using that [of r2] True r1 r2 by (simp add: read_payload_def and_then_Ok)
next
  case False
  then obtain r2 where r2: "read_exact (length pl) r = (Ok pl, r2)" "pending r2 = ys"
      "max_frame_size r2 = max_frame_size r"
    using read_prefix [of r pl ys "length pl"] assms(1) by auto
  show ?thesis using that [of r2] False r2 by (simp add: read_payload_def and_then_Ok)
qed

definition within :: "nat option \<Rightarrow> nat \<Rightarrow> bool" where
  "within mx n \<longleftrightarrow> (case mx of None \<Rightarrow> True | Some m \<Rightarrow> n \<le> m)"

lemma read_frame_encode:
  assumes "pending r = encode f op pl msk key @ ys" and "length pl < 2 ^ 63" and "msk \<Longrightarrow> length key = 4"
    and "within (max_frame_size r) (length pl)"
  obtains r' where "read_frame r = (Ok \<lparr>fin = f, opcode = op, payload = pl\<rparr>, r')"
    "pending r' = ys" "max_frame_size r' = max_frame_size r"
proof -
  obtain l7 ext where l: "length_bytes (length pl) = (l7, ext)" by fastforce
  let ?b0 = "(if f then 0x80 else 0) OR bits op" and ?b1 = "(if msk then 0x80 else 0) OR l7"
  let ?tl = "if msk then key @ apply_mask pl key else pl"
  have p: "pending r = [?b0, ?b1] @ (ext @ ?tl @ ys)" using assms(1) encode_shape [OF l] by simp
  obtain r1 where r1: "read_exact 2 r = (Ok [?b0, ?b1], r1)" "pending r1 = ext @ ?tl @ ys"
      "max_frame_size r1 = max_frame_size r"
    by (rule read_prefix [OF p, of 2]) simp_all
  obtain r2 where r2: "read_length l7 r1 = (Ok (length pl), r2)" "pending r2 = ?tl @ ys"
      "max_frame_size r2 = max_frame_size r1"
    by (rule read_length_bytes [OF l assms(2) r1(2)])
  obtain r3 where r3: "read_payload f op msk (length pl) r2 = (Ok \<lparr>fin = f, opcode = op, payload = pl\<rparr>, r3)"
      "pending r3 = ys" "max_frame_size r3 = max_frame_size r2"
    by (rule read_payload_masked [OF r2(2) assms(3)])
  have "parse_header ?b0 ?b1 = Some (f, op, msk, l7)"
    by (rule parse_header_encode) (rule length_bytes_small [OF l])
  then have "read_frame r = (Ok \<lparr>fin = f, opcode = op, payload = pl\<rparr>, r3)"
    using r1 r2 r3(1) assms(4) by (auto simp: read_frame_def and_then_Ok within_def split: option.split)
  then show ?thesis using that r1 r2 r3 by simp
qed

text \<open>Whatever is received, a decoded frame consumed its header and respects the frame limit.\<close>

lemma read_length_Ok:
  assumes "read_length l7 r = (Ok n, r')"
  shows "length (pending r') \<le> length (pending r) \<and> max_frame_size r' = max_frame_size r \<and> n < 2 ^ 63"
proof -
  have "unat l7 < 2 ^ LENGTH(8)" by (rule unsigned_less)
  moreover have "from_be_bytes b < 2 ^ 16" if len2: "length b = 2" for b
  proof -
    obtain x y where "b = [x, y]" using len2 by (cases b rule: remdups_adj.cases) auto
    moreover have "unat x < 2 ^ LENGTH(8)" "unat y < 2 ^ LENGTH(8)" by (rule unsigned_less)+
    ultimately show ?thesis by (simp add: from_be_bytes_def)
  qed
  ultimately show ?thesis using assms
    by (fastforce simp: read_length_def split: if_splits elim!: and_thenE dest!: rx.rd_Ok)
qed

lemma read_payload_Ok:
  assumes "read_payload f op msk n r = (Ok fr, r')"
  shows "length (pending r') \<le> length (pending r) \<and> max_frame_size r' = max_frame_size r \<and> length (payload fr) = n"
  using assms by (auto simp: read_payload_def split: if_splits elim!: and_thenE dest!: rx.rd_Ok)

lemma read_frame_Ok:
  assumes "read_frame r = (Ok fr, r')"
  shows "length (pending r') < length (pending r) \<and> max_frame_size r' = max_frame_size r \<and>
    within (max_frame_size r) (length (payload fr)) \<and> length (payload fr) < 2 ^ 63"
proof -
  obtain hdr r1 where hdr: "read_exact 2 r = (Ok hdr, r1)"
    and rest: "(case parse_header (hdr ! 0) (hdr ! 1) of
     None \<Rightarrow> (\<lambda>r. (Err (InvalidData ''bad opcode''), r))
   | Some (f, op, masked, len7) \<Rightarrow> and_then (read_length len7) (\<lambda>len r.
       case max_frame_size r of
         Some mx \<Rightarrow> if len > mx then (Err (InvalidData ''frame exceeds max_frame_size''), r)
                    else read_payload f op masked len r
       | None \<Rightarrow> read_payload f op masked len r)) r1 = (Ok fr, r')"
    using assms unfolding read_frame_def by (rule and_thenE)
  from rest obtain f op masked l7 where h: "parse_header (hdr ! 0) (hdr ! 1) = Some (f, op, masked, l7)"
    by (auto split: option.splits)
  obtain n r2 where n: "read_length l7 r1 = (Ok n, r2)" and p: "read_payload f op masked n r2 = (Ok fr, r')"
    and w: "within (max_frame_size r2) n"
    using rest h by (auto simp: within_def split: option.splits if_splits elim!: and_thenE)
  have "length (pending r1) < length (pending r)" "max_frame_size r1 = max_frame_size r"
    using rx.rd_Ok [OF hdr] by auto
  then show ?thesis using read_length_Ok [OF n] read_payload_Ok [OF p] w by auto
qed

section \<open>The read loop\<close>

datatype Message = MText bytes | MBinary bytes

datatype Outgoing = Msg Message | OPong bytes | OClose

text \<open>\<open>delivered\<close> is what was sent on \<^verbatim>\<open>in_tx\<close>, \<open>queued\<close> what was sent on \<^verbatim>\<open>out_tx\<close>.\<close>

record Loop =
  frag :: "(Opcode \<times> bytes) option"
  delivered :: "Message list"
  queued :: "Outgoing list"

definition exceeds :: "nat option \<Rightarrow> nat \<Rightarrow> bool" where
  "exceeds mx len \<longleftrightarrow> (case mx of Some m \<Rightarrow> len > m | None \<Rightarrow> False)"

definition message_of :: "Opcode \<Rightarrow> bytes \<Rightarrow> Message" where
  "message_of op pl = (if op = Text then MText (utf8_lossy pl) else MBinary pl)"

text \<open>\<open>alive\<close> says whether the receiver still takes messages after those delivered so far.\<close>

definition emit :: "(Message list \<Rightarrow> bool) \<Rightarrow> Opcode \<Rightarrow> bytes \<Rightarrow> Loop \<Rightarrow> Loop \<times> bool" where
  "emit alive op pl st =
     (if alive (delivered st) then (st\<lparr>delivered := delivered st @ [message_of op pl]\<rparr>, True) else (st, False))"

text \<open>The body of the loop; the flag is false where it breaks.\<close>

definition handle_frame :: "nat option \<Rightarrow> (Message list \<Rightarrow> bool) \<Rightarrow> Frame \<Rightarrow> Loop \<Rightarrow> Loop \<times> bool" where
  "handle_frame mx alive fr st = (case opcode fr of
     Ping \<Rightarrow> (st\<lparr>queued := queued st @ [OPong (payload fr)]\<rparr>, True)
   | Pong \<Rightarrow> (st, True)
   | Close \<Rightarrow> (st\<lparr>queued := queued st @ [OClose]\<rparr>, False)
   | Continuation \<Rightarrow> (case frag st of
       None \<Rightarrow> (st, True)
     | Some (op, b) \<Rightarrow>
         let b' = b @ payload fr; st' = st\<lparr>frag := Some (op, b')\<rparr>
         in if exceeds mx (length b') then (st', False)
            else if fin fr then emit alive op b' (st'\<lparr>frag := None\<rparr>)
            else (st', True))
   | op \<Rightarrow>
       if fin fr then
         (if exceeds mx (length (payload fr)) then (st, False) else emit alive op (payload fr) st)
       else (st\<lparr>frag := Some (op, payload fr)\<rparr>, True))"

function read_loop :: "nat option \<Rightarrow> (Message list \<Rightarrow> bool) \<Rightarrow> Reader \<Rightarrow> Loop \<Rightarrow> Loop" where
  "read_loop mx alive r st = (case read_frame r of
     (Err _, _) \<Rightarrow> st
   | (Ok fr, r') \<Rightarrow>
       (case handle_frame mx alive fr st of
          (st', True) \<Rightarrow> read_loop mx alive r' st'
        | (st', False) \<Rightarrow> st'))"
  by pat_completeness auto
termination
  by (relation "measure (\<lambda>(mx, alive, r, st). length (pending r))") (auto dest: read_frame_Ok [OF sym])

declare read_loop.simps [simp del]

section \<open>The write loop\<close>

text \<open>
  \<open>key i\<close> is the masking key drawn for frame \<open>i\<close>. \<open>wr i\<close> is \<open>None\<close> when frame \<open>i\<close> is written and
  flushed, and \<open>Some k\<close> when the transport fails after \<open>k\<close> of its bytes. The result is what reaches
  the wire.
\<close>

fun outgoing_frame :: "Outgoing \<Rightarrow> Frame" where
  "outgoing_frame (Msg (MText t)) = \<lparr>fin = True, opcode = Text, payload = t\<rparr>"
| "outgoing_frame (Msg (MBinary b)) = \<lparr>fin = True, opcode = Binary, payload = b\<rparr>"
| "outgoing_frame (OPong p) = \<lparr>fin = True, opcode = Pong, payload = p\<rparr>"
| "outgoing_frame OClose = \<lparr>fin = True, opcode = Close, payload = []\<rparr>"

fun write_loop :: "bool \<Rightarrow> (nat \<Rightarrow> bytes) \<Rightarrow> (nat \<Rightarrow> nat option) \<Rightarrow> nat \<Rightarrow> Outgoing list \<Rightarrow> bytes" where
  "write_loop msk key wr i [] = []"
| "write_loop msk key wr i (m # q) =
     (let fr = outgoing_frame m; bs = encode (fin fr) (opcode fr) (payload fr) msk (key i)
      in case wr i of
           Some k \<Rightarrow> take k bs
         | None \<Rightarrow> if m = OClose then bs else bs @ write_loop msk key wr (Suc i) q)"

end
