(* ===== verification/Ws_Correct.thy ===== *)
theory Ws_Correct
  imports Ws_Conn
begin

text \<open>
  Correctness of the WebSocket connection: what one side writes, the other side delivers in order,
  whatever chunks the bytes arrive in; fragmented messages are reassembled with control frames in
  between; limits are enforced.
\<close>

section \<open>Frames instead of bytes\<close>

fun handle_frames :: "nat option \<Rightarrow> (Message list \<Rightarrow> bool) \<Rightarrow> Frame list \<Rightarrow> Loop \<Rightarrow> Loop \<times> bool" where
  "handle_frames mx alive [] st = (st, True)"
| "handle_frames mx alive (fr # frs) st = (case handle_frame mx alive fr st of
     (st', True) \<Rightarrow> handle_frames mx alive frs st'
   | (st', False) \<Rightarrow> (st', False))"

type_synonym sent_frame = "Frame \<times> bool \<times> bytes"

fun wire :: "sent_frame \<Rightarrow> bytes" where
  "wire (fr, msk, key) = encode (fin fr) (opcode fr) (payload fr) msk key"

fun sendable :: "nat option \<Rightarrow> sent_frame \<Rightarrow> bool" where
  "sendable fmax (fr, msk, key) \<longleftrightarrow>
     length (payload fr) < 2 ^ 63 \<and> (msk \<longrightarrow> length key = 4) \<and> within fmax (length (payload fr))"

lemma read_frame_eof:
  assumes "pending r = []"
  shows "\<exists>e r'. read_frame r = (Err e, r')"
proof -
  obtain e r' where "read_exact 2 r = (Err e, r')" using rx.rd_short [of r 2] assms by auto
  then show ?thesis by (simp add: read_frame_def and_then_def)
qed

lemma read_loop_wire:
  assumes "list_all (sendable (max_frame_size r)) ws" and "pending r = concat (map wire ws)"
  shows "read_loop mx alive r st = fst (handle_frames mx alive (map fst ws) st)"
  using assms
proof (induction ws arbitrary: r st)
  case Nil
  then show ?case using read_frame_eof [of r] by (subst read_loop.simps) auto
next
  case (Cons w ws)
  obtain fr msk key where w: "w = (fr, msk, key)" by (cases w)
  have p: "pending r = encode (fin fr) (opcode fr) (payload fr) msk key @ concat (map wire ws)"
    using Cons.prems(2) w by simp
  obtain r' where r': "read_frame r = (Ok \<lparr>fin = fin fr, opcode = opcode fr, payload = payload fr\<rparr>, r')"
      "pending r' = concat (map wire ws)" "max_frame_size r' = max_frame_size r"
    by (rule read_frame_encode [OF p]) (use Cons.prems(1) w in auto)
  obtain st' go where h: "handle_frame mx alive fr st = (st', go)" by fastforce
  have "read_frame r = (Ok fr, r')" using r'(1) by simp
  then have "read_loop mx alive r st = (if go then read_loop mx alive r' st' else st')"
    using h by (subst read_loop.simps) (cases go; simp)
  then show ?case using Cons.IH [of r' st'] Cons.prems(1) r' h w by (cases go) simp_all
qed

section \<open>Messages end to end\<close>

text \<open>What the peer of a write loop sees: everything up to the first close.\<close>

fun sent :: "Outgoing list \<Rightarrow> Outgoing list" where
  "sent [] = []"
| "sent (m # q) = (if m = OClose then [OClose] else m # sent q)"

fun messages :: "Outgoing list \<Rightarrow> Message list" where
  "messages [] = []"
| "messages (Msg m # q) = m # messages q"
| "messages (OPong p # q) = messages q"
| "messages (OClose # q) = []"

fun closes :: "Outgoing list \<Rightarrow> Outgoing list" where
  "closes [] = []"
| "closes (m # q) = (if m = OClose then [OClose] else closes q)"

definition sent_frames :: "bool \<Rightarrow> (nat \<Rightarrow> bytes) \<Rightarrow> nat \<Rightarrow> Outgoing list \<Rightarrow> sent_frame list" where
  "sent_frames msk key i q = map (\<lambda>(j, m). (outgoing_frame m, msk, key j)) (enumerate i (sent q))"

lemma sent_frames_simps [simp]:
  "sent_frames msk key i [] = []"
  "sent_frames msk key i (m # q) =
     (outgoing_frame m, msk, key i) # (if m = OClose then [] else sent_frames msk key (Suc i) q)"
  by (simp_all add: sent_frames_def)

lemma write_loop_wire:
  "write_loop msk key (\<lambda>_. None) i q = concat (map wire (sent_frames msk key i q))"
  by (induction q arbitrary: i) (simp_all add: Let_def)

fun valid_message :: "Message \<Rightarrow> bool" where
  "valid_message (MText t) = utf8_valid t"
| "valid_message (MBinary b) = True"

fun message_bytes :: "Message \<Rightarrow> bytes" where
  "message_bytes (MText t) = t"
| "message_bytes (MBinary b) = b"

definition fits :: "nat option \<Rightarrow> nat option \<Rightarrow> Outgoing \<Rightarrow> bool" where
  "fits fmax mx m \<longleftrightarrow> length (payload (outgoing_frame m)) < 2 ^ 63 \<and>
     within fmax (length (payload (outgoing_frame m))) \<and>
     (case m of Msg x \<Rightarrow> valid_message x \<and> within mx (length (message_bytes x)) | _ \<Rightarrow> True)"

lemma exceeds_within: "exceeds mx n \<longleftrightarrow> \<not> within mx n"
  by (cases mx) (auto simp: exceeds_def within_def)

lemma handle_message:
  assumes "valid_message x" and "within mx (length (message_bytes x))" and "alive (delivered st)"
  shows "handle_frame mx alive (outgoing_frame (Msg x)) st = (st\<lparr>delivered := delivered st @ [x]\<rparr>, True)"
  using assms by (cases x) (simp_all add: handle_frame_def exceeds_within emit_def message_of_def utf8_lossy_id)

lemma handle_sent:
  assumes "list_all (fits fmax mx) (sent q)" and "\<And>ms. alive ms"
  shows "fst (handle_frames mx alive (map outgoing_frame (sent q)) st) =
    st\<lparr>delivered := delivered st @ messages q, queued := queued st @ closes q\<rparr>"
  using assms(1)
proof (induction q arbitrary: st)
  case (Cons m q)
  show ?case
  proof (cases m)
    case (Msg x)
    then have "handle_frame mx alive (outgoing_frame (Msg x)) st = (st\<lparr>delivered := delivered st @ [x]\<rparr>, True)"
      using Cons.prems assms(2) by (intro handle_message) (simp_all add: fits_def)
    then show ?thesis using Cons.IH [of "st\<lparr>delivered := delivered st @ [x]\<rparr>"] Cons.prems Msg by simp
  next
    case (OPong p)
    then show ?thesis using Cons by (simp add: handle_frame_def)
  next
    case OClose
    then show ?thesis by (simp add: handle_frame_def)
  qed
qed simp

lemma sent_frames_sendable:
  assumes "list_all (fits fmax mx) (sent q)" and "\<And>i. msk \<Longrightarrow> length (key i) = 4"
  shows "list_all (sendable fmax) (sent_frames msk key i q)"
  using assms(1)
proof (induction q arbitrary: i)
  case (Cons m q)
  then show ?case using assms(2) by (simp add: fits_def split: if_splits)
qed simp

lemma map_fst_sent_frames: "map fst (sent_frames msk key i q) = map outgoing_frame (sent q)"
  by (induction q arbitrary: i) simp_all

section \<open>Fragmented messages\<close>

fun continuations :: "bytes list \<Rightarrow> Frame list" where
  "continuations [] = []"
| "continuations [p] = [\<lparr>fin = True, opcode = Continuation, payload = p\<rparr>]"
| "continuations (p # ps) = \<lparr>fin = False, opcode = Continuation, payload = p\<rparr> # continuations ps"

definition fragments :: "Opcode \<Rightarrow> bytes \<Rightarrow> bytes list \<Rightarrow> Frame list" where
  "fragments op p ps = \<lparr>fin = False, opcode = op, payload = p\<rparr> # continuations ps"

definition control :: "Frame \<Rightarrow> bool" where
  "control fr \<longleftrightarrow> opcode fr = Ping \<or> opcode fr = Pong"

definition pongs :: "Frame list \<Rightarrow> Outgoing list" where
  "pongs frs = map (\<lambda>fr. OPong (payload fr)) (filter (\<lambda>fr. opcode fr = Ping) frs)"

lemma handle_control:
  "control fr \<Longrightarrow> handle_frame mx alive fr st = (st\<lparr>queued := queued st @ pongs [fr]\<rparr>, True)"
  by (auto simp: control_def handle_frame_def pongs_def)

lemma pongs_Cons: "pongs (fr # frs) = pongs [fr] @ pongs frs"
  by (simp add: pongs_def)

lemma handle_all_control:
  "filter (\<lambda>fr. \<not> control fr) frs = [] \<Longrightarrow>
     handle_frames mx alive frs st = (st\<lparr>queued := queued st @ pongs frs\<rparr>, True)"
proof (induction frs arbitrary: st)
  case (Cons fr frs)
  then show ?case using pongs_Cons [of fr frs] by (simp add: handle_control split: if_splits)
qed (simp add: pongs_def)

lemma pongs_data [simp]: "\<not> control fr \<Longrightarrow> pongs (fr # frs) = pongs frs"
  by (simp add: pongs_def control_def)

lemma handle_continuations:
  assumes "filter (\<lambda>fr. \<not> control fr) frs = continuations ps" and "ps \<noteq> []"
    and "frag st = Some (op, b)" and "within mx (length b + length (concat ps))" and "alive (delivered st)"
  shows "handle_frames mx alive frs st =
    (st\<lparr>frag := None, delivered := delivered st @ [message_of op (b @ concat ps)], queued := queued st @ pongs frs\<rparr>, True)"
  using assms
proof (induction frs arbitrary: st b ps)
  case Nil
  then show ?case by (cases ps rule: continuations.cases) simp_all
next
  case (Cons fr frs)
  show ?case
  proof (cases "control fr")
    case True
    let ?st = "st\<lparr>queued := queued st @ pongs [fr]\<rparr>"
    have "handle_frames mx alive frs ?st = (?st\<lparr>frag := None, delivered := delivered st @ [message_of op (b @ concat ps)],
        queued := queued ?st @ pongs frs\<rparr>, True)"
      using Cons.IH [of ps ?st b] Cons.prems True by simp
    then show ?thesis using handle_control [OF True] pongs_Cons [of fr frs] by simp
  next
    case False
    show ?thesis
    proof (cases ps rule: continuations.cases)
      case (2 p)
      then have fr: "fr = \<lparr>fin = True, opcode = Continuation, payload = p\<rparr>"
        and rest: "filter (\<lambda>fr. \<not> control fr) frs = []"
        using Cons.prems(1) False by (auto split: if_splits)
      have "handle_frame mx alive fr st = (st\<lparr>frag := None, delivered := delivered st @ [message_of op (b @ p)]\<rparr>, True)"
        using Cons.prems(3-5) 2 fr by (simp add: handle_frame_def exceeds_within emit_def)
      then show ?thesis using handle_all_control [OF rest] 2 False by simp
    next
      case (3 p q qs)
      then have fr: "fr = \<lparr>fin = False, opcode = Continuation, payload = p\<rparr>"
        and rest: "filter (\<lambda>fr. \<not> control fr) frs = continuations (q # qs)"
        using Cons.prems(1) False by (auto split: if_splits)
      have "within mx (length (b @ p))" using Cons.prems(4) 3 by (cases mx) (simp_all add: within_def)
      then have "handle_frame mx alive fr st = (st\<lparr>frag := Some (op, b @ p)\<rparr>, True)"
        using Cons.prems(3) fr by (simp add: handle_frame_def exceeds_within Let_def)
      moreover have "handle_frames mx alive frs (st\<lparr>frag := Some (op, b @ p)\<rparr>) =
          (st\<lparr>frag := None, delivered := delivered st @ [message_of op ((b @ p) @ concat (q # qs))],
             queued := queued st @ pongs frs\<rparr>, True)"
        using Cons.IH [OF rest, of "st\<lparr>frag := Some (op, b @ p)\<rparr>" "b @ p"] Cons.prems(4,5) 3 by (simp add: add.assoc)
      ultimately show ?thesis using 3 False by simp
    qed (use Cons.prems(2) in simp)
  qed
qed

lemma handle_fragments:
  assumes "filter (\<lambda>fr. \<not> control fr) frs = fragments op p ps" and "ps \<noteq> []"
    and "op = Text \<or> op = Binary" and "within mx (length p + length (concat ps))" and "alive (delivered st)"
  shows "handle_frames mx alive frs st =
    (st\<lparr>frag := None, delivered := delivered st @ [message_of op (p @ concat ps)], queued := queued st @ pongs frs\<rparr>, True)"
  using assms
proof (induction frs arbitrary: st)
  case Nil
  then show ?case by (simp add: fragments_def)
next
  case (Cons fr frs)
  show ?case
  proof (cases "control fr")
    case True
    let ?st = "st\<lparr>queued := queued st @ pongs [fr]\<rparr>"
    have "handle_frames mx alive frs ?st = (?st\<lparr>frag := None, delivered := delivered st @ [message_of op (p @ concat ps)],
        queued := queued ?st @ pongs frs\<rparr>, True)"
      using Cons.IH [of ?st] Cons.prems True by simp
    then show ?thesis using handle_control [OF True] pongs_Cons [of fr frs] by simp
  next
    case False
    then have fr: "fr = \<lparr>fin = False, opcode = op, payload = p\<rparr>"
      and rest: "filter (\<lambda>fr. \<not> control fr) frs = continuations ps"
      using Cons.prems(1) by (auto simp: fragments_def)
    have "handle_frame mx alive fr st = (st\<lparr>frag := Some (op, p)\<rparr>, True)"
      using fr Cons.prems(3) by (auto simp: handle_frame_def)
    moreover have "handle_frames mx alive frs (st\<lparr>frag := Some (op, p)\<rparr>) =
        (st\<lparr>frag := None, delivered := delivered st @ [message_of op (p @ concat ps)], queued := queued st @ pongs frs\<rparr>, True)"
      using handle_continuations [OF rest Cons.prems(2), of "st\<lparr>frag := Some (op, p)\<rparr>" op p] Cons.prems(4,5) by simp
    ultimately show ?thesis using False by simp
  qed
qed

section \<open>Limits\<close>

fun message_within :: "nat \<Rightarrow> Message \<Rightarrow> bool" where
  "message_within m (MText t) \<longleftrightarrow> length t \<le> 3 * m \<and> utf8_valid t"
| "message_within m (MBinary b) \<longleftrightarrow> length b \<le> m"

definition loop_inv :: "nat \<Rightarrow> nat \<Rightarrow> Loop \<Rightarrow> bool" where
  "loop_inv f m st \<longleftrightarrow> list_all (message_within m) (delivered st) \<and>
     (case frag st of None \<Rightarrow> True | Some (op, b) \<Rightarrow> length b \<le> max f m + f)"

lemma message_of_within: "length pl \<le> m \<Longrightarrow> message_within m (message_of op pl)"
  using length_utf8_lossy [of pl] by (simp add: message_of_def utf8_lossy_valid)

lemma emit_inv:
  assumes "loop_inv f m st" and "length pl \<le> m"
  shows "loop_inv f m (fst (emit alive op pl st))"
  using assms message_of_within by (auto simp: loop_inv_def emit_def split: option.splits)

text \<open>The buffer may pass the limit by one frame just before the connection is dropped.\<close>

definition frag_inv :: "nat \<Rightarrow> nat \<Rightarrow> Loop \<Rightarrow> bool" where
  "frag_inv f m st \<longleftrightarrow> loop_inv f m st \<and> (case frag st of None \<Rightarrow> True | Some (op, b) \<Rightarrow> length b \<le> max f m)"

lemma handle_frame_inv:
  assumes "frag_inv f m st" and "length (payload fr) \<le> f"
    and "handle_frame (Some m) alive fr st = (st', go)"
  shows "loop_inv f m st' \<and> (go \<longrightarrow> frag_inv f m st')"
proof (cases "opcode fr = Continuation \<and> frag st \<noteq> None")
  case True
  then obtain op b where frag: "frag st = Some (op, b)" and op: "opcode fr = Continuation" by auto
  show ?thesis
    using assms frag op message_of_within [of "b @ payload fr" m op]
    by (auto simp: handle_frame_def Let_def exceeds_def emit_def frag_inv_def loop_inv_def split: if_splits)
next
  case False
  then show ?thesis
    using assms message_of_within [of "payload fr" m "opcode fr"]
    by (auto simp: handle_frame_def exceeds_def emit_def frag_inv_def loop_inv_def
        split: Opcode.splits if_splits option.splits)
qed

lemma read_loop_inv:
  assumes "frag_inv f m st" and "max_frame_size r = Some f"
  shows "loop_inv f m (read_loop (Some m) alive r st)"
  using assms
proof (induction "Some m" alive r st rule: read_loop.induct)
  case (1 alive r st)
  show ?case
  proof (cases "read_frame r")
    case (Pair res r')
    show ?thesis
    proof (cases res)
      case (Inl e)
      then show ?thesis using Pair 1(2) by (subst read_loop.simps) (simp add: frag_inv_def)
    next
      case (Inr fr)
      note rf = Pair [unfolded Inr]
      obtain st' go where h: "handle_frame (Some m) alive fr st = (st', go)" by fastforce
      have fr: "length (payload fr) \<le> f" "max_frame_size r' = Some f"
        using read_frame_Ok [OF rf] 1(3) by (simp_all add: within_def)
      note inv = handle_frame_inv [OF 1(2) fr(1) h]
      show ?thesis
      proof (cases go)
        case True
        have "loop_inv f m (read_loop (Some m) alive r' st')"
          using 1(1) [OF rf [symmetric] refl h [symmetric]] True inv fr(2) by simp
        then show ?thesis using rf h True by (subst read_loop.simps) simp
      next
        case False
        then show ?thesis using inv rf h by (subst read_loop.simps) simp
      qed
    qed
  qed
qed

section \<open>Chunking does not matter\<close>

definition same_input :: "Reader \<Rightarrow> Reader \<Rightarrow> bool" where
  "same_input r1 r2 \<longleftrightarrow> pending r1 = pending r2 \<and> max_frame_size r1 = max_frame_size r2"

fun agree :: "('a, IoError) result \<times> Reader \<Rightarrow> ('a, IoError) result \<times> Reader \<Rightarrow> bool" where
  "agree (Ok x, r1) (Ok y, r2) \<longleftrightarrow> x = y \<and> same_input r1 r2"
| "agree (Err _, r1) (Err _, r2) \<longleftrightarrow> True"
| "agree _ _ \<longleftrightarrow> False"

lemma agree_read_exact: "same_input r1 r2 \<Longrightarrow> agree (read_exact n r1) (read_exact n r2)"
  using rx.rd_enough [of n r1] rx.rd_enough [of n r2] rx.rd_short [of r1 n] rx.rd_short [of r2 n]
  by (cases "n \<le> length (pending r1)") (auto simp: same_input_def)

lemma agree_and_then:
  assumes "agree (m r1) (m r2)" and "\<And>x r1 r2. same_input r1 r2 \<Longrightarrow> agree (f x r1) (f x r2)"
  shows "agree (and_then m f r1) (and_then m f r2)"
  using assms by (auto simp: and_then_def split: prod.splits sum.splits)

lemma agree_read_length: "same_input r1 r2 \<Longrightarrow> agree (read_length l7 r1) (read_length l7 r2)"
  unfolding read_length_def by (auto intro!: agree_and_then agree_read_exact)

lemma agree_read_payload:
  "same_input r1 r2 \<Longrightarrow> agree (read_payload f op msk n r1) (read_payload f op msk n r2)"
  unfolding read_payload_def by (auto intro!: agree_and_then agree_read_exact)

lemma agree_read_frame: "same_input r1 r2 \<Longrightarrow> agree (read_frame r1) (read_frame r2)"
  unfolding read_frame_def
proof (rule agree_and_then [OF agree_read_exact], assumption)
  fix hdr r1 r2
  assume same: "same_input r1 r2"
  show "agree ((case parse_header (hdr ! 0) (hdr ! 1) of
     None \<Rightarrow> (\<lambda>r. (Err (InvalidData ''bad opcode''), r))
   | Some (f, op, masked, len7) \<Rightarrow> and_then (read_length len7) (\<lambda>len r.
       case max_frame_size r of
         Some mx \<Rightarrow> if len > mx then (Err (InvalidData ''frame exceeds max_frame_size''), r)
                    else read_payload f op masked len r
       | None \<Rightarrow> read_payload f op masked len r)) r1)
    ((case parse_header (hdr ! 0) (hdr ! 1) of
     None \<Rightarrow> (\<lambda>r. (Err (InvalidData ''bad opcode''), r))
   | Some (f, op, masked, len7) \<Rightarrow> and_then (read_length len7) (\<lambda>len r.
       case max_frame_size r of
         Some mx \<Rightarrow> if len > mx then (Err (InvalidData ''frame exceeds max_frame_size''), r)
                    else read_payload f op masked len r
       | None \<Rightarrow> read_payload f op masked len r)) r2)"
    using same
    by (auto split: option.split intro!: agree_and_then agree_read_length agree_read_payload)
      (auto simp: same_input_def)
qed

lemma read_loop_same_input:
  "same_input r1 r2 \<Longrightarrow> read_loop mx alive r1 st = read_loop mx alive r2 st"
proof (induction mx alive r1 st arbitrary: r2 rule: read_loop.induct)
  case (1 mx alive r1 st)
  have ag: "agree (read_frame r1) (read_frame r2)" using 1(2) by (rule agree_read_frame)
  obtain res1 r1' res2 r2' where rf: "read_frame r1 = (res1, r1')" "read_frame r2 = (res2, r2')"
    by (cases "read_frame r1"; cases "read_frame r2")
  show ?case
  proof (cases res1)
    case (Inl e1)
    then obtain e2 where "res2 = Err e2" using ag rf by (cases res2) simp_all
    then show ?thesis using rf Inl by (subst (1 2) read_loop.simps) simp
  next
    case (Inr fr)
    then have eq: "res2 = Ok fr" "same_input r1' r2'" using ag rf by (cases res2; simp)+
    obtain st' go where h: "handle_frame mx alive fr st = (st', go)" by fastforce
    have "read_loop mx alive r1' st' = read_loop mx alive r2' st'" if go
      using 1(1) [OF rf(1) [symmetric] Inr h [symmetric]] that eq(2) by simp
    then show ?thesis using rf Inr eq(1) h by (subst (1 2) read_loop.simps) (cases go; simp)
  qed
qed

section \<open>Properties\<close>

text \<open>C9: End to end: what one side queues up to its first close, the other side delivers in order and
  unchanged, and it answers the close, for masked and unmasked frames, every length encoding and
  any chunking of the bytes, when texts are valid UTF-8 and the limits of the receiver admit the
  messages.\<close>

theorem ws_end_to_end:
  assumes "pending r = write_loop msk key (\<lambda>_. None) 0 q"
    and "list_all (fits (max_frame_size r) mx) (sent q)" and "\<And>i. msk \<Longrightarrow> length (key i) = 4"
  shows "read_loop mx (\<lambda>_. True) r st =
    st\<lparr>delivered := delivered st @ messages q, queued := queued st @ closes q\<rparr>"
proof -
  have "list_all (sendable (max_frame_size r)) (sent_frames msk key 0 q)"
    by (rule sent_frames_sendable [OF assms(2)]) (rule assms(3))
  moreover have "pending r = concat (map wire (sent_frames msk key 0 q))"
    using assms(1) by (simp add: write_loop_wire)
  ultimately show ?thesis
    using read_loop_wire handle_sent [OF assms(2)] by (simp add: map_fst_sent_frames)
qed

lemma available_Chunk: "c \<noteq> [] \<Longrightarrow> available (Chunk c # rs) = c @ available rs"
  by (cases c) simp_all

definition demo_queue :: "Outgoing list" where
  "demo_queue = [Msg (MText [0x68, 0x69]), OPong [1], Msg (MBinary [1, 2, 3]), OClose, Msg (MBinary [9])]"

definition demo_start :: Loop where
  "demo_start = \<lparr>frag = None, delivered = [], queued = []\<rparr>"

definition demo_wire :: bytes where
  "demo_wire = write_loop True (\<lambda>_. [1, 2, 3, 4]) (\<lambda>_. None) 0 demo_queue"

theorem ws_end_to_end_witness:
  "read_loop (Some 3) (\<lambda>_. True) (reader_new [Chunk demo_wire] [] (Some 3)) demo_start =
     \<lparr>frag = None, delivered = [MText [0x68, 0x69], MBinary [1, 2, 3]], queued = [OClose]\<rparr>"
proof -
  have "demo_wire \<noteq> []" by (simp add: demo_wire_def demo_queue_def Let_def encode_def)
  then have "pending (reader_new [Chunk demo_wire] [] (Some 3)) = demo_wire"
    by (simp add: pending_def reader_new_def available_Chunk)
  moreover have "list_all (fits (Some 3) (Some 3)) (sent demo_queue)"
    by (simp add: demo_queue_def fits_def within_def follow_ascii)
  ultimately show ?thesis
    using ws_end_to_end [of "reader_new [Chunk demo_wire] [] (Some 3)" True "\<lambda>_. [1, 2, 3, 4]" demo_queue "Some 3" demo_start]
    by (simp add: demo_wire_def demo_start_def reader_new_def) (simp add: demo_queue_def)
qed

text \<open>A fragmented message, sent as a non-final text or binary frame and continuation frames with any
  pings and pongs in between, is delivered once, as the concatenation of its fragments, and every
  ping is answered with its payload in order.\<close>

theorem ws_reassembles_fragments:
  assumes "pending r = concat (map wire ws)" and "list_all (sendable (max_frame_size r)) ws"
    and "filter (\<lambda>fr. \<not> control fr) (map fst ws) = fragments op p ps" and "ps \<noteq> []"
    and "op = Text \<or> op = Binary" and "within mx (length (p @ concat ps))" and "alive (delivered st)"
  shows "read_loop mx alive r st =
    st\<lparr>frag := None, delivered := delivered st @ [message_of op (p @ concat ps)],
       queued := queued st @ pongs (map fst ws)\<rparr>"
  using read_loop_wire [OF assms(2,1)] handle_fragments [OF assms(3-5), of mx alive st] assms(6,7) by simp

definition demo_fragments :: "sent_frame list" where
  "demo_fragments =
     [(\<lparr>fin = False, opcode = Binary, payload = [1]\<rparr>, False, []),
      (\<lparr>fin = True, opcode = Ping, payload = [7]\<rparr>, True, [1, 2, 3, 4]),
      (\<lparr>fin = False, opcode = Continuation, payload = [2, 3]\<rparr>, False, []),
      (\<lparr>fin = True, opcode = Continuation, payload = [4]\<rparr>, False, [])]"

text \<open>C34: The read loop depends only on the bytes that arrive and not on how the socket splits them into
  deliveries or what the handshake left in the buffer.\<close>

theorem ws_chunking_irrelevant:
  assumes "pending r1 = pending r2" and "max_frame_size r1 = max_frame_size r2"
  shows "read_loop mx alive r1 st = read_loop mx alive r2 st"
  by (rule read_loop_same_input) (simp add: same_input_def assms)

theorem ws_chunking_irrelevant_witness:
  "read_loop None (\<lambda>_. True) (reader_new [Chunk [0x82], Chunk [1], Chunk [5]] [] None) demo_start =
   read_loop None (\<lambda>_. True) (reader_new [] [0x82, 1, 5] None) demo_start"
  by (rule ws_chunking_irrelevant) (simp_all add: reader_new_def pending_def)

text \<open>With a frame limit \<open>f\<close> and a message limit \<open>m\<close>, no byte stream makes the read loop deliver a
  binary message longer than \<open>m\<close> or a text that is not valid UTF-8 of at most three times \<open>m\<close> bytes
  (a lossy replacement takes three), and the reassembly buffer stays below a fixed bound.\<close>

theorem ws_limits:
  assumes "max_frame_size r = Some f"
  shows "loop_inv f m (read_loop (Some m) alive r \<lparr>frag = None, delivered = [], queued = []\<rparr>)"
  by (rule read_loop_inv [OF _ assms]) (simp add: frag_inv_def loop_inv_def)

text \<open>A frame encoded with any opcode, flag, mask and payload below \<open>2^63\<close> bytes decodes to the same
  frame, in all three length encodings, and leaves exactly the bytes after it.\<close>

theorem ws_frame_round_trip:
  assumes "pending r = encode f op pl msk key @ ys" and "length pl < 2 ^ 63" and "length key = 4"
    and "within (max_frame_size r) (length pl)"
  shows "\<exists>r'. read_frame r = (Ok \<lparr>fin = f, opcode = op, payload = pl\<rparr>, r') \<and> pending r' = ys"
  using read_frame_encode [OF assms(1,2) _ assms(4)] assms(3) by blast

text \<open>The payload length a header announces: the length marker and the extension bytes after it.\<close>

definition announces :: "u8 \<Rightarrow> bytes \<Rightarrow> nat \<Rightarrow> bool" where
  "announces l7 ext n \<longleftrightarrow>
     (if l7 = 126 then length ext = 2 \<and> n = from_be_bytes ext
      else if l7 = 127 then length ext = 8 \<and> n = from_be_bytes ext
      else ext = [] \<and> n = unat l7)"

lemma read_length_announced:
  assumes "announces l7 ext n" and "pending r = ext @ ys"
  obtains r' where "max_frame_size r' = max_frame_size r" "pending r' = ys"
    "read_length l7 r = (if l7 = 127 \<and> n \<ge> 2 ^ 63 then Err (InvalidData ''frame length exceeds maximum'') else Ok n, r')"
proof -
  obtain r' where r': "read_exact (length ext) r = (Ok ext, r')" "pending r' = ys" "max_frame_size r' = max_frame_size r"
    by (rule read_prefix [OF assms(2) refl])
  show ?thesis
  proof (cases "l7 = 126 \<or> l7 = 127")
    case True
    then show ?thesis using that [of r'] r' assms(1)
      by (auto simp: announces_def read_length_def and_then_Ok)
  next
    case False
    then show ?thesis using that [of r] assms by (simp add: announces_def read_length_def)
  qed
qed

text \<open>Hostile headers are refused before any payload is read: an unknown opcode, a 64-bit length with
  its top bit set, and an announced length above the frame limit each give an \<^verbatim>\<open>InvalidData\<close> error.\<close>

theorem ws_rejects_bad_header:
  assumes "pending r = b0 # b1 # ext @ ys" and "announces (b1 AND 0x7F) ext n"
    and "from_bits (b0 AND 0x0F) = None \<or> n \<ge> 2 ^ 63 \<or> \<not> within (max_frame_size r) n"
  shows "fst (read_frame r) = Err (InvalidData
    (if from_bits (b0 AND 0x0F) = None then ''bad opcode''
     else if b1 AND 0x7F = 127 \<and> n \<ge> 2 ^ 63 then ''frame length exceeds maximum''
     else ''frame exceeds max_frame_size''))"
proof -
  have p: "pending r = [b0, b1] @ ext @ ys" using assms(1) by simp
  obtain r1 where r1: "read_exact 2 r = (Ok [b0, b1], r1)" "pending r1 = ext @ ys"
      "max_frame_size r1 = max_frame_size r"
    by (rule read_prefix [OF p, of 2]) simp_all
  show ?thesis
  proof (cases "from_bits (b0 AND 0x0F)")
    case None
    then show ?thesis using r1 by (simp add: read_frame_def and_then_Ok parse_header_def)
  next
    case (Some op)
    obtain r2 where r2: "max_frame_size r2 = max_frame_size r1" "pending r2 = ys"
      "read_length (b1 AND 0x7F) r1 =
        (if b1 AND 0x7F = 127 \<and> n \<ge> 2 ^ 63 then Err (InvalidData ''frame length exceeds maximum'') else Ok n, r2)"
      by (rule read_length_announced [OF assms(2) r1(2)])
    have big: "b1 AND 0x7F = 127" if "n \<ge> 2 ^ 63"
    proof (rule ccontr)
      assume "b1 AND 0x7F \<noteq> 127"
      then have "n < 2 ^ 63" using assms(2) r2(3) read_length_Ok [of "b1 AND 0x7F" r1 n r2] by simp
      then show False using that by simp
    qed
    show ?thesis
      using Some r1 r2 big assms(3)
      by (auto simp: read_frame_def and_then_def parse_header_def within_def split: option.splits)
  qed
qed

end
