(* ===== verification/Hash.thy ===== *)
theory Hash
  imports Prelude
begin

text \<open>
  The streaming hashes of \<^verbatim>\<open>hash/mod.rs\<close>: SHA-256, SHA-1 and HMAC-SHA256 with their 64-byte block
  buffer. \<^verbatim>\<open>Sha256\<close> and \<^verbatim>\<open>Sha1\<close> have the same \<^verbatim>\<open>update\<close> and \<^verbatim>\<open>finalize\<close> up to the compression function, which is
  an argument here. Arrays are lists of fixed length; integers keep their width.
\<close>

unbundle bit_operations_syntax

section \<open>Compression functions\<close>

definition BLOCK :: nat where
  "BLOCK = 64"

definition SHA256_K :: "u32 list" where
  "SHA256_K =
    [0x428a2f98, 0x71374491, 0xb5c0fbcf, 0xe9b5dba5] @ [0x3956c25b, 0x59f111f1, 0x923f82a4, 0xab1c5ed5] @
    [0xd807aa98, 0x12835b01, 0x243185be, 0x550c7dc3] @ [0x72be5d74, 0x80deb1fe, 0x9bdc06a7, 0xc19bf174] @
    [0xe49b69c1, 0xefbe4786, 0x0fc19dc6, 0x240ca1cc] @ [0x2de92c6f, 0x4a7484aa, 0x5cb0a9dc, 0x76f988da] @
    [0x983e5152, 0xa831c66d, 0xb00327c8, 0xbf597fc7] @ [0xc6e00bf3, 0xd5a79147, 0x06ca6351, 0x14292967] @
    [0x27b70a85, 0x2e1b2138, 0x4d2c6dfc, 0x53380d13] @ [0x650a7354, 0x766a0abb, 0x81c2c92e, 0x92722c85] @
    [0xa2bfe8a1, 0xa81a664b, 0xc24b8b70, 0xc76c51a3] @ [0xd192e819, 0xd6990624, 0xf40e3585, 0x106aa070] @
    [0x19a4c116, 0x1e376c08, 0x2748774c, 0x34b0bcb5] @ [0x391c0cb3, 0x4ed8aa4a, 0x5b9cca4f, 0x682e6ff3] @
    [0x748f82ee, 0x78a5636f, 0x84c87814, 0x8cc70208] @ [0x90befffa, 0xa4506ceb, 0xbef9a3f7, 0xc67178f2]"

definition SHA256_H0 :: "u32 list" where
  "SHA256_H0 = [0x6a09e667, 0xbb67ae85, 0x3c6ef372, 0xa54ff53a, 0x510e527f, 0x9b05688c, 0x1f83d9ab, 0x5be0cd19]"

definition SHA1_H0 :: "u32 list" where
  "SHA1_H0 = [0x67452301, 0xEFCDAB89, 0x98BADCFE, 0x10325476, 0xC3D2E1F0]"

text \<open>\<^verbatim>\<open>u32::from_be_bytes\<close>, \<^verbatim>\<open>u32::to_be_bytes\<close> and \<^verbatim>\<open>u64::to_be_bytes\<close>.\<close>

definition u32_from_be :: "u8 \<Rightarrow> u8 \<Rightarrow> u8 \<Rightarrow> u8 \<Rightarrow> u32" where
  "u32_from_be a b c d = push_bit 24 (ucast a) OR push_bit 16 (ucast b) OR push_bit 8 (ucast c) OR ucast d"

definition u32_to_be :: "u32 \<Rightarrow> bytes" where
  "u32_to_be w = [ucast (drop_bit 24 w), ucast (drop_bit 16 w), ucast (drop_bit 8 w), ucast w]"

definition u64_to_be :: "u64 \<Rightarrow> bytes" where
  "u64_to_be w = u32_to_be (ucast (drop_bit 32 w)) @ u32_to_be (ucast w)"

text \<open>The first 16 words of the schedule.\<close>

definition block_words :: "bytes \<Rightarrow> u32 list" where
  "block_words block = map (\<lambda>i. let o1 = 4 * i
     in u32_from_be (block ! o1) (block ! (o1 + 1)) (block ! (o1 + 2)) (block ! (o1 + 3))) [0..<16]"

definition sha256_schedule :: "bytes \<Rightarrow> u32 list" where
  "sha256_schedule block = foldl (\<lambda>w i.
     let a = w ! (i - 15); b = w ! (i - 2);
         s0 = word_rotr 7 a XOR word_rotr 18 a XOR drop_bit 3 a;
         s1 = word_rotr 17 b XOR word_rotr 19 b XOR drop_bit 10 b
     in w @ [w ! (i - 16) + s0 + w ! (i - 7) + s1]) (block_words block) [16..<64]"

type_synonym regs8 = "u32 \<times> u32 \<times> u32 \<times> u32 \<times> u32 \<times> u32 \<times> u32 \<times> u32"

definition sha256_round :: "regs8 \<Rightarrow> u32 \<times> u32 \<Rightarrow> regs8" where
  "sha256_round v kw = (case v of (a, b, c, d, e, f, g, hh) \<Rightarrow>
     let s1 = word_rotr 6 e XOR word_rotr 11 e XOR word_rotr 25 e;
         ch = (e AND f) XOR ((NOT e) AND g);
         t1 = hh + s1 + ch + fst kw + snd kw;
         s0 = word_rotr 2 a XOR word_rotr 13 a XOR word_rotr 22 a;
         maj = (a AND b) XOR (a AND c) XOR (b AND c);
         t2 = s0 + maj
     in (t1 + t2, a, b, c, d + t1, e, f, g))"

definition sha256_compress :: "u32 list \<Rightarrow> bytes \<Rightarrow> u32 list" where
  "sha256_compress h block =
     (case foldl sha256_round (h ! 0, h ! 1, h ! 2, h ! 3, h ! 4, h ! 5, h ! 6, h ! 7)
             (zip SHA256_K (sha256_schedule block)) of
        (a, b, c, d, e, f, g, hh) \<Rightarrow> map2 (+) h [a, b, c, d, e, f, g, hh])"

definition sha1_schedule :: "bytes \<Rightarrow> u32 list" where
  "sha1_schedule block = foldl (\<lambda>w i.
     w @ [word_rotl 1 (w ! (i - 3) XOR w ! (i - 8) XOR w ! (i - 14) XOR w ! (i - 16))])
     (block_words block) [16..<80]"

type_synonym regs5 = "u32 \<times> u32 \<times> u32 \<times> u32 \<times> u32"

definition sha1_round :: "regs5 \<Rightarrow> nat \<times> u32 \<Rightarrow> regs5" where
  "sha1_round v iw = (case v of (a, b, c, d, e) \<Rightarrow>
     let (f, k) =
           (if fst iw \<le> 19 then ((b AND c) OR ((NOT b) AND d), 0x5A827999)
            else if fst iw \<le> 39 then (b XOR c XOR d, 0x6ED9EBA1)
            else if fst iw \<le> 59 then ((b AND c) OR (b AND d) OR (c AND d), 0x8F1BBCDC)
            else (b XOR c XOR d, 0xCA62C1D6));
         t = word_rotl 5 a + f + e + k + snd iw
     in (t, a, word_rotl 30 b, c, d))"

definition sha1_compress :: "u32 list \<Rightarrow> bytes \<Rightarrow> u32 list" where
  "sha1_compress h block =
     (case foldl sha1_round (h ! 0, h ! 1, h ! 2, h ! 3, h ! 4) (enumerate 0 (sha1_schedule block)) of
        (a, b, c, d, e) \<Rightarrow> map2 (+) h [a, b, c, d, e])"

section \<open>The block buffer\<close>

record Hasher =
  hs :: "u32 list"
  hbuf :: bytes
  buf_len :: nat
  total :: u64

definition hasher_new :: "u32 list \<Rightarrow> Hasher" where
  "hasher_new h0 = \<lparr>hs = h0, hbuf = replicate BLOCK 0, buf_len = 0, total = 0\<rparr>"

text \<open>\<^verbatim>\<open>buf[i..i + src.len()].copy_from_slice(src)\<close>\<close>

definition splice :: "'a list \<Rightarrow> nat \<Rightarrow> 'a list \<Rightarrow> 'a list" where
  "splice xs i ys = take i xs @ ys @ drop (i + length ys) xs"

type_synonym compressor = "u32 list \<Rightarrow> bytes \<Rightarrow> u32 list"

text \<open>The loop over whole blocks, with the rest of the input.\<close>

function absorb_blocks :: "compressor \<Rightarrow> u32 list \<Rightarrow> bytes \<Rightarrow> u32 list \<times> bytes" where
  "absorb_blocks compress h data =
     (if length data \<ge> BLOCK then absorb_blocks compress (compress h (take BLOCK data)) (drop BLOCK data)
      else (h, data))"
  by pat_completeness auto
termination by (relation "measure (\<lambda>(_, _, data). length data)") (auto simp: BLOCK_def)

declare absorb_blocks.simps [simp del]

definition fill_buffer :: "compressor \<Rightarrow> bytes \<Rightarrow> Hasher \<Rightarrow> Hasher \<times> bytes" where
  "fill_buffer compress data s =
     (if buf_len s > 0 then
        let tk = min (BLOCK - buf_len s) (length data);
            b = splice (hbuf s) (buf_len s) (take tk data); n = buf_len s + tk
        in (if n = BLOCK then s\<lparr>hs := compress (hs s) b, hbuf := b, buf_len := 0\<rparr>
            else s\<lparr>hbuf := b, buf_len := n\<rparr>, drop tk data)
      else (s, data))"

definition hasher_update :: "compressor \<Rightarrow> Hasher \<Rightarrow> bytes \<Rightarrow> Hasher" where
  "hasher_update compress s data =
     (let (s, data') = fill_buffer compress data (s\<lparr>total := total s + of_nat (length data)\<rparr>);
          (h, rest) = absorb_blocks compress (hs s) data';
          s = s\<lparr>hs := h\<rparr>
      in if rest \<noteq> [] then s\<lparr>hbuf := splice (hbuf s) 0 rest, buf_len := length rest\<rparr> else s)"

definition be_words :: "u32 list \<Rightarrow> bytes" where
  "be_words ws = concat (map u32_to_be ws)"

definition finalize :: "compressor \<Rightarrow> Hasher \<Rightarrow> bytes" where
  "finalize compress s =
     (let bit_len = total s * 8; i = buf_len s;
          b = splice (hbuf s) i (0x80 # replicate (BLOCK - (i + 1)) 0);
          (h, b) = (if i + 1 > BLOCK - 8 then (compress (hs s) b, replicate BLOCK 0) else (hs s, b));
          b = splice b (BLOCK - 8) (u64_to_be bit_len)
      in be_words (compress h b))"

definition sha256_new :: Hasher where
  "sha256_new = hasher_new SHA256_H0"

definition sha256_update :: "Hasher \<Rightarrow> bytes \<Rightarrow> Hasher" where
  "sha256_update = hasher_update sha256_compress"

definition sha256_finalize :: "Hasher \<Rightarrow> bytes" where
  "sha256_finalize = finalize sha256_compress"

definition sha256 :: "bytes \<Rightarrow> bytes" where
  "sha256 data = sha256_finalize (sha256_update sha256_new data)"

definition sha1_new :: Hasher where
  "sha1_new = hasher_new SHA1_H0"

definition sha1_update :: "Hasher \<Rightarrow> bytes \<Rightarrow> Hasher" where
  "sha1_update = hasher_update sha1_compress"

definition sha1_finalize :: "Hasher \<Rightarrow> bytes" where
  "sha1_finalize = finalize sha1_compress"

definition sha1 :: "bytes \<Rightarrow> bytes" where
  "sha1 data = sha1_finalize (sha1_update sha1_new data)"

section \<open>HMAC-SHA256\<close>

record HmacSha256 =
  hinner :: Hasher
  o_key :: bytes

definition key_block :: "bytes \<Rightarrow> bytes" where
  "key_block key = splice (replicate BLOCK 0) 0 (if length key > BLOCK then sha256 key else key)"

definition hmac_new :: "bytes \<Rightarrow> HmacSha256" where
  "hmac_new key =
     \<lparr>hinner = sha256_update sha256_new (map (\<lambda>b. 0x36 XOR b) (key_block key)),
      o_key = map (\<lambda>b. 0x5C XOR b) (key_block key)\<rparr>"

definition hmac_update :: "HmacSha256 \<Rightarrow> bytes \<Rightarrow> HmacSha256" where
  "hmac_update s data = s\<lparr>hinner := sha256_update (hinner s) data\<rparr>"

definition hmac_finalize :: "HmacSha256 \<Rightarrow> bytes" where
  "hmac_finalize s = sha256_finalize (sha256_update (sha256_update sha256_new (o_key s)) (sha256_finalize (hinner s)))"

definition hmac_sha256 :: "bytes \<Rightarrow> bytes \<Rightarrow> bytes" where
  "hmac_sha256 key msg = hmac_finalize (hmac_update (hmac_new key) msg)"

section \<open>Digests\<close>

definition hex_char :: "nat \<Rightarrow> char" where
  "hex_char d = ''0123456789abcdef'' ! d"

definition to_hex :: "bytes \<Rightarrow> string" where
  "to_hex bs = concat (map (\<lambda>b. [hex_char (unat (drop_bit 4 b)), hex_char (unat (b AND 0x0F))]) bs)"

definition ct_eq :: "bytes \<Rightarrow> bytes \<Rightarrow> bool" where
  "ct_eq a b \<longleftrightarrow> foldl (\<lambda>diff i. diff OR (a ! i XOR b ! i)) 0 [0..<length a] = 0"

section \<open>Reference: the padded message in blocks\<close>

definition zeros :: "nat \<Rightarrow> nat" where
  "zeros n = (119 - n mod 64) mod 64"

definition padding :: "nat \<Rightarrow> bytes" where
  "padding n = 0x80 # replicate (zeros n) 0 @ u64_to_be (of_nat n * 8)"

definition blocks :: "bytes \<Rightarrow> bytes list" where
  "blocks m = map (\<lambda>i. take 64 (drop (64 * i) m)) [0..<length m div 64]"

definition digest :: "compressor \<Rightarrow> u32 list \<Rightarrow> bytes \<Rightarrow> bytes" where
  "digest compress h0 m = be_words (foldl compress h0 (blocks (m @ padding (length m))))"

lemma length_u64_to_be [simp]: "length (u64_to_be w) = 8"
  by (simp add: u64_to_be_def u32_to_be_def)

lemma length_splice [simp]: "i + length ys \<le> length xs \<Longrightarrow> length (splice xs i ys) = length xs"
  by (simp add: splice_def)

lemma take_splice [simp]:
  "i + length ys \<le> length xs \<Longrightarrow> take (i + length ys) (splice xs i ys) = take i xs @ ys"
  by (simp add: splice_def)

lemma splice_tail: "length xs = i \<Longrightarrow> length zs = length ys \<Longrightarrow> splice (xs @ zs) i ys = xs @ ys"
  by (simp add: splice_def)

lemma zeros_eq: "zeros n = (if n mod 64 \<le> 55 then 55 - n mod 64 else 119 - n mod 64)"
proof -
  have k: "n mod 64 < 64" by simp
  have "(119 - n mod 64) mod 64 = 55 - n mod 64" if "n mod 64 \<le> 55"
  proof -
    have "119 - n mod 64 = 64 + (55 - n mod 64)" using that by simp
    then show ?thesis by (simp only: mod_add_self1) simp
  qed
  moreover have "(119 - n mod 64) mod 64 = 119 - n mod 64" if "\<not> n mod 64 \<le> 55"
    using that by simp
  ultimately show ?thesis by (simp add: zeros_def)
qed

lemma padded_length: "64 dvd length (m @ padding (length m))"
proof -
  obtain q where q: "length m = 64 * q + length m mod 64" by (metis mult_div_mod_eq)
  have k: "length m mod 64 < 64" by simp
  have "length (m @ padding (length m)) = length m + 9 + zeros (length m)" by (simp add: padding_def)
  also have "\<dots> = 64 * q + (if length m mod 64 \<le> 55 then 64 else 128)"
    using q k by (cases "length m mod 64 \<le> 55"; simp only: zeros_eq if_True if_False; linarith)
  finally show ?thesis by (simp only:) simp
qed

lemma blocks_Cons: "64 \<le> length m \<Longrightarrow> blocks m = take 64 m # blocks (drop 64 m)"
proof -
  assume m: "64 \<le> length m"
  then have "length m div 64 = Suc ((length m - 64) div 64)" by (simp add: le_div_geq)
  then show ?thesis unfolding blocks_def by (simp add: upt_conv_Cons map_Suc_upt [symmetric] o_def add.commute del: upt_Suc)
qed

lemma absorb_blocks_eq:
  "absorb_blocks c h m = (foldl c h (blocks m), drop (64 * (length m div 64)) m)"
proof (induction c h m rule: absorb_blocks.induct)
  case (1 c h m)
  show ?case
  proof (cases "64 \<le> length m")
    case True
    then have "length m div 64 = Suc ((length m - 64) div 64)" by (simp add: le_div_geq)
    then have "64 * ((length m - 64) div 64) + 64 = 64 * (length m div 64)" by simp
    then show ?thesis using 1 True by (subst absorb_blocks.simps) (simp add: BLOCK_def blocks_Cons add.commute)
  next
    case False
    then have "length m div 64 = 0" by simp
    then show ?thesis using False by (subst absorb_blocks.simps) (simp add: BLOCK_def blocks_def)
  qed
qed

lemma absorb_blocks_append:
  "absorb_blocks c h a = (h', r) \<Longrightarrow> absorb_blocks c h (a @ b) = absorb_blocks c h' (r @ b)"
proof (induction c h a rule: absorb_blocks.induct)
  case (1 c h a)
  show ?case
  proof (cases "BLOCK \<le> length a")
    case True
    then have "absorb_blocks c (c h (take BLOCK a)) (drop BLOCK a) = (h', r)"
      using 1(2) by (subst (asm) absorb_blocks.simps) simp
    then show ?thesis using 1(1) True by (subst absorb_blocks.simps) simp
  next
    case False
    then show ?thesis using 1(2) by (subst (asm) absorb_blocks.simps) simp
  qed
qed

lemma absorb_blocks_step:
  "length a = 64 \<Longrightarrow> absorb_blocks c h (a @ b) = absorb_blocks c (c h a) b"
  by (subst absorb_blocks.simps) (simp add: BLOCK_def)

lemma absorb_blocks_short: "length a < 64 \<Longrightarrow> absorb_blocks c h a = (h, a)"
  by (subst absorb_blocks.simps) (simp add: BLOCK_def)

lemma absorb_blocks_rest: "absorb_blocks c h m = (h', r) \<Longrightarrow> length r < 64 \<and> length r = length m mod 64"
  by (auto simp: absorb_blocks_eq minus_mult_div_eq_mod)

section \<open>The buffer holds what has not been compressed\<close>

definition absorbed :: "compressor \<Rightarrow> u32 list \<Rightarrow> bytes \<Rightarrow> Hasher \<Rightarrow> bool" where
  "absorbed c h0 m s \<longleftrightarrow> absorb_blocks c h0 m = (hs s, take (buf_len s) (hbuf s)) \<and>
     buf_len s < 64 \<and> length (hbuf s) = 64 \<and> total s = of_nat (length m)"

lemma absorbed_new: "absorbed c h0 [] (hasher_new h0)"
  by (simp add: absorbed_def hasher_new_def BLOCK_def absorb_blocks_short)

lemma fill_buffer_spec:
  assumes "fill_buffer c data s = (s', data')" and "buf_len s < 64" and "length (hbuf s) = 64"
  shows "absorb_blocks c (hs s) (take (buf_len s) (hbuf s) @ data) =
      absorb_blocks c (hs s') (take (buf_len s') (hbuf s') @ data')"
    and "buf_len s' = 0 \<or> data' = []" and "buf_len s' < 64" and "length (hbuf s') = 64" and "total s' = total s"
proof -
  define tk where "tk = min (64 - buf_len s) (length data)"
  define b where "b = splice (hbuf s) (buf_len s) (take tk data)"
  have len: "length (take tk data) = tk" "buf_len s + tk \<le> 64" using assms(2) by (simp_all add: tk_def)
  have b: "length b = 64" "take (buf_len s + tk) b = take (buf_len s) (hbuf s) @ take tk data"
    using take_splice [of "buf_len s" "take tk data" "hbuf s"] assms(3) len by (simp_all add: b_def)
  have split: "take (buf_len s) (hbuf s) @ data = take (buf_len s + tk) b @ drop tk data"
    by (simp add: b(2))
  have fb: "fill_buffer c data s = (if 0 < buf_len s
      then (if buf_len s + tk = 64 then s\<lparr>hs := c (hs s) b, hbuf := b, buf_len := 0\<rparr>
            else s\<lparr>hbuf := b, buf_len := buf_len s + tk\<rparr>, drop tk data) else (s, data))"
    by (simp add: fill_buffer_def BLOCK_def Let_def tk_def b_def)
  consider (empty) "buf_len s = 0" | (full) "0 < buf_len s" "buf_len s + tk = 64"
    | (part) "0 < buf_len s" "buf_len s + tk < 64" using len(2) by linarith
  then have "absorb_blocks c (hs s) (take (buf_len s) (hbuf s) @ data) =
      absorb_blocks c (hs s') (take (buf_len s') (hbuf s') @ data') \<and> (buf_len s' = 0 \<or> data' = []) \<and>
      buf_len s' < 64 \<and> length (hbuf s') = 64 \<and> total s' = total s"
  proof cases
    case empty
    then show ?thesis using assms fb by simp
  next
    case full
    then have "absorb_blocks c (hs s) (take (buf_len s) (hbuf s) @ data) = absorb_blocks c (c (hs s) b) (drop tk data)"
      using split b(1) absorb_blocks_step [OF b(1)] by simp
    then show ?thesis using assms(1) fb full b(1) by auto
  next
    case part
    then have "tk = length data" by (simp add: tk_def min_def split: if_splits)
    then show ?thesis using assms(1) fb part b split by auto
  qed
  then show "absorb_blocks c (hs s) (take (buf_len s) (hbuf s) @ data) =
      absorb_blocks c (hs s') (take (buf_len s') (hbuf s') @ data')"
    "buf_len s' = 0 \<or> data' = []" "buf_len s' < 64" "length (hbuf s') = 64" "total s' = total s" by blast+
qed

lemma absorbed_update:
  assumes "absorbed c h0 m s"
  shows "absorbed c h0 (m @ data) (hasher_update c s data)"
proof -
  let ?s = "s\<lparr>total := total s + of_nat (length data)\<rparr>"
  obtain s1 data1 where fb: "fill_buffer c data ?s = (s1, data1)" by fastforce
  obtain h r where ab: "absorb_blocks c (hs s1) data1 = (h, r)" by fastforce
  have r: "length r < 64" using absorb_blocks_rest [OF ab] by simp
  note fbs = fill_buffer_spec [OF fb]
  have pre: "absorb_blocks c h0 (m @ data) = absorb_blocks c (hs s1) (take (buf_len s1) (hbuf s1) @ data1)"
    using fbs(1) absorb_blocks_append [of c h0 m "hs s" "take (buf_len s) (hbuf s)" data] assms
    by (simp add: absorbed_def)
  have upd: "hasher_update c s data = (if r \<noteq> [] then s1\<lparr>hs := h, hbuf := splice (hbuf s1) 0 r, buf_len := length r\<rparr>
      else s1\<lparr>hs := h\<rparr>)"
    by (simp add: hasher_update_def fb ab Let_def)
  have tot: "total s1 = of_nat (length (m @ data))" using fbs(5) assms by (simp add: absorbed_def)
  have len: "buf_len s1 < 64" "length (hbuf s1) = 64" using fbs(3,4) assms by (simp_all add: absorbed_def)
  show ?thesis
  proof (cases "buf_len s1 = 0")
    case True
    then have "absorb_blocks c h0 (m @ data) = (h, r)" using pre ab by simp
    moreover have "take (length r) (splice (hbuf s1) 0 r) = r" by (simp add: splice_def)
    ultimately show ?thesis using upd tot len r True by (simp add: absorbed_def)
  next
    case False
    then have d: "data1 = []" using fbs(2) assms by (simp add: absorbed_def)
    then have hr: "h = hs s1" "r = []" using ab by (simp_all add: absorb_blocks_short)
    have "absorb_blocks c h0 (m @ data) = (hs s1, take (buf_len s1) (hbuf s1))"
      using pre d len by (simp add: absorb_blocks_short)
    then show ?thesis using upd tot len hr by (simp add: absorbed_def)
  qed
qed

lemma absorbed_finalize:
  assumes "absorbed c h0 m s"
  shows "finalize c s = digest c h0 m"
proof -
  let ?i = "buf_len s" and ?t = "take (buf_len s) (hbuf s)" and ?len = "u64_to_be (of_nat (length m) * 8)"
  have ab: "absorb_blocks c h0 m = (hs s, ?t)" and i: "?i < 64" and lb: "length (hbuf s) = 64"
    and tot: "total s = of_nat (length m)" using assms by (simp_all add: absorbed_def)
  have lt: "length ?t = ?i" using i lb by simp
  then have mod: "length m mod 64 = ?i" using absorb_blocks_rest [OF ab] by simp
  have "foldl c h0 (blocks (m @ padding (length m))) = fst (absorb_blocks c (hs s) (?t @ padding (length m)))"
    using absorb_blocks_append [OF ab, of "padding (length m)"] by (metis absorb_blocks_eq fst_conv)
  then have dig: "digest c h0 m = be_words (fst (absorb_blocks c (hs s) (?t @ padding (length m))))"
    by (simp add: digest_def)
  have b: "splice (hbuf s) ?i (0x80 # replicate (63 - ?i) 0) = ?t @ 0x80 # replicate (63 - ?i) 0"
    using i lb by (simp add: splice_def)
  show ?thesis
  proof (cases "?i \<le> 55")
    case True
    have "replicate (63 - ?i) (0 :: u8) = replicate (55 - ?i) 0 @ replicate 8 0"
      using True by (simp flip: replicate_add)
    then have "splice (hbuf s) ?i (0x80 # replicate (63 - ?i) 0) = (?t @ 0x80 # replicate (55 - ?i) 0) @ replicate 8 0"
      using b by (simp only: append_assoc append_Cons)
    then have "splice (splice (hbuf s) ?i (0x80 # replicate (63 - ?i) 0)) 56 ?len =
        (?t @ 0x80 # replicate (55 - ?i) 0) @ ?len"
      using True lt by (simp only:) (rule splice_tail; simp)
    then have "splice (splice (hbuf s) ?i (0x80 # replicate (63 - ?i) 0)) 56 ?len = ?t @ padding (length m)"
      using True by (simp add: padding_def zeros_eq mod)
    moreover have "absorb_blocks c (hs s) (?t @ padding (length m)) = (c (hs s) (?t @ padding (length m)), [])"
      using absorb_blocks_step [of "?t @ padding (length m)" c "hs s" "[]"] lt True
      by (simp add: padding_def zeros_eq mod absorb_blocks_short)
    ultimately show ?thesis using True by (simp add: dig finalize_def BLOCK_def Let_def tot)
  next
    case False
    have z: "zeros (length m) = (63 - ?i) + 56" using False i by (simp add: zeros_eq mod)
    have pad: "?t @ padding (length m) =
        (?t @ 0x80 # replicate (63 - ?i) 0) @ (replicate 56 0 @ ?len)"
      by (simp add: padding_def z replicate_add)
    have "absorb_blocks c (hs s) (?t @ padding (length m)) =
        absorb_blocks c (c (hs s) (?t @ 0x80 # replicate (63 - ?i) 0)) (replicate 56 0 @ ?len)"
      unfolding pad by (rule absorb_blocks_step) (use lt i in simp)
    also have "\<dots> = (c (c (hs s) (?t @ 0x80 # replicate (63 - ?i) 0)) (replicate 56 0 @ ?len), [])"
      using absorb_blocks_step [of "replicate 56 0 @ ?len" c _ "[]"] by (simp add: absorb_blocks_short)
    finally have "digest c h0 m = be_words (c (c (hs s) (?t @ 0x80 # replicate (63 - ?i) 0)) (replicate 56 0 @ ?len))"
      by (simp add: dig)
    moreover have "splice (replicate 64 0) 56 ?len = replicate 56 0 @ ?len" by (simp add: splice_def)
    ultimately show ?thesis using False b by (simp add: finalize_def BLOCK_def Let_def tot)
  qed
qed

section \<open>The contract of a streaming digest\<close>

text \<open>Clients feed bytes as they arrive and rely on the digest being the one of the whole message.\<close>

locale streaming_digest =
  fixes start :: 's and feed :: "'s \<Rightarrow> bytes \<Rightarrow> 's" and done_digest :: "'s \<Rightarrow> bytes"
    and spec :: "bytes \<Rightarrow> bytes" and holds :: "bytes \<Rightarrow> 's \<Rightarrow> bool"
  assumes start_holds: "holds [] start"
    and feed_holds: "holds m s \<Longrightarrow> holds (m @ d) (feed s d)"
    and done_spec: "holds m s \<Longrightarrow> done_digest s = spec m"
begin

lemma feeds_hold: "holds m s \<Longrightarrow> holds (m @ concat ds) (foldl feed s ds)"
proof (induction ds arbitrary: m s)
  case (Cons d ds)
  then show ?case using Cons.IH [OF feed_holds [OF Cons.prems], of d] by simp
qed simp

lemma streaming: "done_digest (foldl feed start ds) = spec (concat ds)"
  using done_spec [OF feeds_hold [OF start_holds], of ds] by simp

lemma one_shot: "done_digest (feed start m) = spec m"
  using streaming [of "[m]"] by simp

lemma streaming_one_shot: "done_digest (foldl feed start ds) = done_digest (feed start (concat ds))"
  by (simp add: streaming one_shot)

end

interpretation sha256: streaming_digest sha256_new sha256_update sha256_finalize
  "digest sha256_compress SHA256_H0" "absorbed sha256_compress SHA256_H0"
  by unfold_locales (simp_all add: sha256_new_def sha256_update_def sha256_finalize_def
      absorbed_new absorbed_update absorbed_finalize)

interpretation sha1: streaming_digest sha1_new sha1_update sha1_finalize
  "digest sha1_compress SHA1_H0" "absorbed sha1_compress SHA1_H0"
  by unfold_locales (simp_all add: sha1_new_def sha1_update_def sha1_finalize_def
      absorbed_new absorbed_update absorbed_finalize)

lemma sha256_eq: "sha256 m = digest sha256_compress SHA256_H0 m"
  by (simp add: sha256_def sha256.one_shot)

text \<open>RFC 2104, with the key padded to a block.\<close>

definition hmac_spec :: "bytes \<Rightarrow> bytes \<Rightarrow> bytes" where
  "hmac_spec key msg =
     (let k0 = (if length key > 64 then sha256 key else key); k = k0 @ replicate (64 - length k0) 0
      in sha256 (map (\<lambda>b. b XOR 0x5C) k @ sha256 (map (\<lambda>b. b XOR 0x36) k @ msg)))"

definition hmac_holds :: "bytes \<Rightarrow> bytes \<Rightarrow> HmacSha256 \<Rightarrow> bool" where
  "hmac_holds key m s \<longleftrightarrow> o_key s = o_key (hmac_new key) \<and>
     absorbed sha256_compress SHA256_H0 (map (\<lambda>b. 0x36 XOR b) (key_block key) @ m) (hinner s)"

lemma key_block_eq:
  "key_block key = (let k0 = (if length key > 64 then sha256 key else key) in k0 @ replicate (64 - length k0) 0)"
  by (simp add: key_block_def splice_def BLOCK_def Let_def)

interpretation hmac: streaming_digest "hmac_new key" hmac_update hmac_finalize "hmac_spec key" "hmac_holds key"
proof
  show "hmac_holds key [] (hmac_new key)"
    using sha256.feed_holds [OF sha256.start_holds, of "map (\<lambda>b. 0x36 XOR b) (key_block key)"]
    by (simp add: hmac_holds_def hmac_new_def)
  show "hmac_holds key (m @ d) (hmac_update s d)" if "hmac_holds key m s" for m s d
    using sha256.feed_holds [of "map (\<lambda>b. 0x36 XOR b) (key_block key) @ m" "hinner s" d] that
    by (simp add: hmac_holds_def hmac_update_def)
  show "hmac_finalize s = hmac_spec key m" if h: "hmac_holds key m s" for m s
  proof -
    have inner: "sha256_finalize (hinner s) = sha256 (map (\<lambda>b. b XOR 0x36) (key_block key) @ m)"
      using sha256.done_spec [of "map (\<lambda>b. 0x36 XOR b) (key_block key) @ m" "hinner s"] h
      by (simp add: hmac_holds_def sha256_eq xor.commute)
    have "hmac_finalize s = sha256_finalize (foldl sha256_update sha256_new [o_key s, sha256_finalize (hinner s)])"
      by (simp add: hmac_finalize_def)
    also have "\<dots> = sha256 (map (\<lambda>b. b XOR 0x5C) (key_block key) @ sha256 (map (\<lambda>b. b XOR 0x36) (key_block key) @ m))"
      using h by (simp only: sha256.streaming inner sha256_eq [symmetric])
        (simp add: hmac_holds_def hmac_new_def xor.commute)
    finally show ?thesis by (simp add: hmac_spec_def key_block_eq Let_def)
  qed
qed

section \<open>Properties\<close>

text \<open>Feeding a message in any pieces gives the same SHA-256 and SHA-1 digest as the one-shot
  functions, and those digests are the compression function folded over the 64-byte blocks of the
  message padded as FIPS 180 prescribes.\<close>

theorem sha_streaming:
  "sha256_finalize (foldl sha256_update sha256_new ds) = sha256 (concat ds) \<and>
   sha256 m = be_words (foldl sha256_compress SHA256_H0 (blocks (m @ padding (length m)))) \<and>
   sha1_finalize (foldl sha1_update sha1_new ds) = sha1 (concat ds) \<and>
   sha1 m = be_words (foldl sha1_compress SHA1_H0 (blocks (m @ padding (length m))))"
  using sha256.streaming [of ds] sha256.one_shot [of m]
    sha1.streaming [of ds] sha1.one_shot [of m] sha1.one_shot [of "concat ds"]
  by (simp add: sha256_eq sha256_def sha1_def digest_def)

text \<open>Streaming HMAC-SHA256 computes RFC 2104 for keys of every length: long keys are hashed, short
  ones padded with zeros, and the tag is the nested hash with the two pads.\<close>

theorem hmac_streaming:
  "hmac_finalize (foldl hmac_update (hmac_new key) ds) = hmac_spec key (concat ds) \<and>
   hmac_sha256 key msg = hmac_spec key msg"
  using hmac.streaming [of key ds] hmac.one_shot [of key msg] by (simp add: hmac_sha256_def)

lemma xor_zero_iff: "x XOR y = (0 :: u8) \<longleftrightarrow> x = y"
proof
  assume "x XOR y = 0"
  then have "(x XOR y) XOR y = y" by simp
  then show "x = y" by (simp add: xor.assoc)
qed simp

lemma or_fold_zero:
  "foldl (\<lambda>diff i. diff OR f i) d is = 0 \<longleftrightarrow> d = 0 \<and> list_all (\<lambda>i. f i = (0 :: u8)) is"
  by (induction "is" arbitrary: d) (auto simp: or_eq_0_iff)

text \<open>Constant-time comparison of two digests of the same length decides equality.\<close>

lemma ct_eq_correct:
  assumes "length a = length b"
  shows "ct_eq a b \<longleftrightarrow> a = b"
proof -
  have "ct_eq a b \<longleftrightarrow> list_all (\<lambda>i. a ! i XOR b ! i = 0) [0..<length a]"
    unfolding ct_eq_def using or_fold_zero [of "\<lambda>i. a ! i XOR b ! i" 0 "[0..<length a]"] by simp
  also have "\<dots> \<longleftrightarrow> a = b" using assms by (auto simp: list_all_iff xor_zero_iff intro: nth_equalityI)
  finally show ?thesis .
qed

end
