(* ===== verification/Base64.thy ===== *)
theory Base64
  imports Prelude
begin

text \<open>
  The two base64 encoders, \<^verbatim>\<open>base64_encode\<close> of \<^verbatim>\<open>ws/handshake.rs\<close> and \<^verbatim>\<open>b64url_encode\<close>/\<^verbatim>\<open>b64url_decode\<close> of
  \<^verbatim>\<open>auth/mod.rs\<close>, over the 24-bit groups they assemble in a \<^verbatim>\<open>u32\<close>.
\<close>

unbundle bit_operations_syntax

text \<open>\<^verbatim>\<open>slice::chunks(n)\<close>: pieces of \<open>n\<close>, the last one possibly shorter.\<close>

function chunks :: "nat \<Rightarrow> 'a list \<Rightarrow> 'a list list" where
  "chunks n xs = (if xs = [] \<or> n = 0 then [] else take n xs # chunks n (drop n xs))"
  by pat_completeness auto
termination by (relation "measure (\<lambda>(n, xs). length xs)") auto

declare chunks.simps [simp del]

lemma chunks_simps [simp]:
  "chunks n [] = []" "chunks 3 (a # b # c # r) = [a, b, c] # chunks 3 r"
  "chunks 4 (a # b # c # d # r) = [a, b, c, d] # chunks 4 r"
  "chunks 3 [a] = [[a]]" "chunks 3 [a, b] = [[a, b]]"
  "chunks 4 [a] = [[a]]" "chunks 4 [a, b] = [[a, b]]" "chunks 4 [a, b, c] = [[a, b, c]]"
  by (subst chunks.simps; simp add: chunks.simps [of _ "[]"])+

definition BASE64 :: string where
  "BASE64 = ''ABCDEFGHIJKLMNOPQRSTUVWXYZabcdefghijklmnopqrstuvwxyz0123456789+/''"

definition B64URL :: string where
  "B64URL = ''ABCDEFGHIJKLMNOPQRSTUVWXYZabcdefghijklmnopqrstuvwxyz0123456789-_''"

text \<open>\<^verbatim>\<open>chunk.get(i).unwrap_or(&0)\<close> and the 24-bit group.\<close>

definition byte_or_0 :: "bytes \<Rightarrow> nat \<Rightarrow> u32" where
  "byte_or_0 chunk i = (if i < length chunk then ucast (chunk ! i) else 0)"

definition group24 :: "bytes \<Rightarrow> u32" where
  "group24 chunk = push_bit 16 (byte_or_0 chunk 0) OR push_bit 8 (byte_or_0 chunk 1) OR byte_or_0 chunk 2"

definition sextet :: "string \<Rightarrow> u32 \<Rightarrow> nat \<Rightarrow> char" where
  "sextet alphabet n k = alphabet ! unat (drop_bit k n AND 63)"

definition b64url_chunk :: "bytes \<Rightarrow> string" where
  "b64url_chunk chunk =
     (let n = group24 chunk
      in [sextet B64URL n 18, sextet B64URL n 12] @
         (if length chunk > 1 then [sextet B64URL n 6] else []) @
         (if length chunk > 2 then [sextet B64URL n 0] else []))"

definition b64url_encode :: "bytes \<Rightarrow> string" where
  "b64url_encode input = concat (map b64url_chunk (chunks 3 input))"

definition base64_chunk :: "bytes \<Rightarrow> string" where
  "base64_chunk chunk =
     (let n = group24 chunk
      in [sextet BASE64 n 18, sextet BASE64 n 12,
          if length chunk > 1 then sextet BASE64 n 6 else CHR ''='',
          if length chunk > 2 then sextet BASE64 n 0 else CHR ''='' ])"

definition base64_encode :: "bytes \<Rightarrow> string" where
  "base64_encode input = concat (map base64_chunk (chunks 3 input))"

definition b64url_val :: "char \<Rightarrow> u32 option" where
  "b64url_val ch =
     (let c = of_char ch :: nat
      in if 65 \<le> c \<and> c \<le> 90 then Some (of_nat (c - 65))
         else if 97 \<le> c \<and> c \<le> 122 then Some (of_nat (c - 97 + 26))
         else if 48 \<le> c \<and> c \<le> 57 then Some (of_nat (c - 48 + 52))
         else if ch = CHR ''-'' then Some 62
         else if ch = CHR ''_'' then Some 63
         else None)"

fun group_of :: "u32 \<Rightarrow> string \<Rightarrow> u32 option" where
  "group_of n [] = Some n"
| "group_of n (c # cs) = (case b64url_val c of None \<Rightarrow> None | Some v \<Rightarrow> group_of (push_bit 6 n OR v) cs)"

definition decode_chunk :: "string \<Rightarrow> bytes option" where
  "decode_chunk chunk = (case group_of 0 chunk of
     None \<Rightarrow> None
   | Some n0 \<Rightarrow>
       let n = push_bit (6 * (4 - length chunk)) n0
       in if length chunk = 4 then Some [ucast (drop_bit 16 n), ucast (drop_bit 8 n), ucast n]
          else if length chunk = 3 then Some [ucast (drop_bit 16 n), ucast (drop_bit 8 n)]
          else if length chunk = 2 then Some [ucast (drop_bit 16 n)]
          else None)"

fun decode_chunks :: "string list \<Rightarrow> bytes option" where
  "decode_chunks [] = Some []"
| "decode_chunks (c # cs) = (case decode_chunk c of
     None \<Rightarrow> None
   | Some bs \<Rightarrow> (case decode_chunks cs of None \<Rightarrow> None | Some rest \<Rightarrow> Some (bs @ rest)))"

definition b64url_decode :: "string \<Rightarrow> bytes option" where
  "b64url_decode input = decode_chunks (chunks 4 (filter (\<lambda>b. b \<noteq> CHR ''='') input))"

section \<open>Round trip\<close>

lemma alphabet_values: "map b64url_val B64URL = map (\<lambda>s. Some (of_nat s)) [0..<64]"
  by (simp add: B64URL_def b64url_val_def upt_rec)

lemma alphabet_length: "length B64URL = 64" "length BASE64 = 64"
  by (simp_all add: B64URL_def BASE64_def)

lemma alphabet_clean: "CHR ''='' \<notin> set B64URL" "CHR ''.'' \<notin> set B64URL"
  by (simp_all add: B64URL_def)

lemma b64url_val_nth: "s < 64 \<Longrightarrow> b64url_val (B64URL ! s) = Some (of_nat s)"
  using arg_cong [OF alphabet_values, of "\<lambda>xs. xs ! s"] by (simp add: alphabet_length)

lemma sextet_small: "unat (drop_bit k n AND 63) < 64" for n :: u32
proof -
  have "drop_bit k n AND 63 = take_bit 6 (drop_bit k n)" by (simp add: take_bit_eq_mask mask_eq_exp_minus_1)
  then show ?thesis by (simp add: unsigned_take_bit_eq take_bit_nat_less_exp [of 6, simplified])
qed

lemma sextet_val [simp]: "b64url_val (sextet B64URL n k) = Some (drop_bit k n AND 63)"
  using b64url_val_nth [OF sextet_small, of k n] by (simp add: sextet_def)

lemma sextet_clean [simp]: "sextet B64URL n k \<noteq> CHR ''=''" "sextet B64URL n k \<noteq> CHR ''.''"
proof -
  have "sextet B64URL n k \<in> set B64URL"
    unfolding sextet_def by (rule nth_mem) (simp add: sextet_small alphabet_length)
  then show "sextet B64URL n k \<noteq> CHR ''=''" "sextet B64URL n k \<noteq> CHR ''.''" using alphabet_clean by metis+
qed

lemma encode_clean: "CHR ''='' \<notin> set (b64url_encode bs)" "CHR ''.'' \<notin> set (b64url_encode bs)"
  by (auto simp: b64url_encode_def b64url_chunk_def Let_def split: if_splits dest!: sym [of _ "sextet _ _ _"])

lemma and_63: "x AND 63 = take_bit 6 x" for x :: u32
  by (simp add: take_bit_eq_mask mask_eq_exp_minus_1)

text \<open>Appending a sextet on the right extends the window on the group.\<close>

lemma window:
  "push_bit 6 (take_bit j (drop_bit k6 n)) OR take_bit 6 (drop_bit k n) = take_bit (j + 6) (drop_bit k n)"
  if "k6 = k + 6" "k + j + 6 \<le> 24" for n :: u32
proof (rule bit_eqI)
  fix i
  assume "possible_bit TYPE(u32) i"
  show "bit (push_bit 6 (take_bit j (drop_bit k6 n)) OR take_bit 6 (drop_bit k n)) i \<longleftrightarrow>
    bit (take_bit (j + 6) (drop_bit k n)) i"
    using that by (cases "i < 6") (auto simp: bit_or_iff bit_push_bit_iff bit_take_bit_iff bit_drop_bit_eq ac_simps)
qed

lemma group_of_sextets:
  "group_of 0 [sextet B64URL n 18, sextet B64URL n 12] = Some (take_bit 12 (drop_bit 12 n))"
  "group_of 0 [sextet B64URL n 18, sextet B64URL n 12, sextet B64URL n 6] = Some (take_bit 18 (drop_bit 6 n))"
  "group_of 0 [sextet B64URL n 18, sextet B64URL n 12, sextet B64URL n 6, sextet B64URL n 0] = Some (take_bit 24 n)"
  by (simp_all add: and_63 window [of 18 12 6] window [of 12 6 12] window [of 6 0 18, simplified])

lemma bit_group24:
  "i < 8 \<Longrightarrow> bit (group24 [a, b, c]) (16 + i) = bit a i" "i < 8 \<Longrightarrow> bit (group24 [a, b, c]) (8 + i) = bit b i"
  "i < 8 \<Longrightarrow> bit (group24 [a, b, c]) i = bit c i"
  "i < 8 \<Longrightarrow> bit (group24 [a, b]) (16 + i) = bit a i" "i < 8 \<Longrightarrow> bit (group24 [a, b]) (8 + i) = bit b i"
  "i < 8 \<Longrightarrow> bit (group24 [a]) (16 + i) = bit a i"
  by (auto simp: group24_def byte_or_0_def bit_or_iff bit_push_bit_iff bit_ucast_iff dest: bit_imp_le_length)

lemma byte_eqI:
  fixes x :: u8
  assumes "\<And>i. i < 8 \<Longrightarrow> bit w i = bit x i"
  shows "ucast (w :: u32) = x"
  by (rule bit_eqI) (use assms in \<open>auto simp: bit_ucast_iff dest: bit_imp_le_length\<close>)

lemma decode_chunk_encode:
  "decode_chunk (b64url_chunk [a, b, c]) = Some [a, b, c]"
  "decode_chunk (b64url_chunk [a, b]) = Some [a, b]"
  "decode_chunk (b64url_chunk [a]) = Some [a]"
  by (auto simp: b64url_chunk_def decode_chunk_def Let_def group_of_sextets simp del: group_of.simps intro!: byte_eqI)
    (simp_all add: bit_drop_bit_eq bit_take_bit_iff bit_push_bit_iff bit_group24)

lemma chunks4_chunk:
  "chunks 4 (b64url_chunk [a, b, c] @ s) = b64url_chunk [a, b, c] # chunks 4 s"
  "chunks 4 (b64url_chunk [a, b]) = [b64url_chunk [a, b]]" "chunks 4 (b64url_chunk [a]) = [b64url_chunk [a]]"
  by (simp_all add: b64url_chunk_def Let_def)

lemma three_induct [case_names Nil One Two Three]:
  assumes "P []" "\<And>a. P [a]" "\<And>a b. P [a, b]" "\<And>a b c r. P r \<Longrightarrow> P (a # b # c # r)"
  shows "P xs"
proof (induction "length xs" arbitrary: xs rule: less_induct)
  case less
  show ?case
  proof (cases xs)
    case (Cons a r1)
    show ?thesis
    proof (cases r1)
      case Nil
      then show ?thesis using Cons assms(2) by simp
    next
      case (Cons b r2)
      then show ?thesis using \<open>xs = a # r1\<close> less assms(3,4) by (cases r2) simp_all
    qed
  qed (simp add: assms(1))
qed

lemma decode_chunks_encode: "decode_chunks (chunks 4 (b64url_encode bs)) = Some bs"
  by (induction bs rule: three_induct)
    (simp_all add: b64url_encode_def chunks4_chunk decode_chunk_encode)

lemma b64url_round_trip: "b64url_decode (b64url_encode bs) = Some bs"
proof -
  have "filter (\<lambda>b. b \<noteq> CHR ''='') (b64url_encode bs) = b64url_encode bs"
    using encode_clean(1) [of bs] by (simp add: filter_id_conv) metis
  then show ?thesis by (simp add: b64url_decode_def decode_chunks_encode)
qed

text \<open>The standard alphabet differs from the URL-safe one in two characters, and in the padding.\<close>

definition url_safe :: "char \<Rightarrow> char" where
  "url_safe c = (if c = CHR ''+'' then CHR ''-'' else if c = CHR ''/'' then CHR ''_'' else c)"

lemma url_safe_alphabet: "map url_safe BASE64 = B64URL"
  by (simp add: BASE64_def B64URL_def url_safe_def)

lemma url_safe_sextet: "url_safe (sextet BASE64 n k) = sextet B64URL n k"
  unfolding sextet_def url_safe_alphabet [symmetric]
  by (simp add: nth_map [of "unat (drop_bit k n AND 63)" BASE64] sextet_small alphabet_length)

lemma strip_base64_chunk: "filter (\<lambda>b. b \<noteq> CHR ''='') (map url_safe (base64_chunk c)) = b64url_chunk c"
  by (simp add: base64_chunk_def b64url_chunk_def Let_def url_safe_sextet) (simp add: url_safe_def)

lemma strip_base64: "filter (\<lambda>b. b \<noteq> CHR ''='') (map url_safe (base64_encode bs)) = b64url_encode bs"
  by (simp add: base64_encode_def b64url_encode_def map_concat filter_concat o_def strip_base64_chunk)

lemma base64_decodes: "b64url_decode (map url_safe (base64_encode bs)) = Some bs"
  by (simp add: b64url_decode_def strip_base64 decode_chunks_encode)

lemma length_base64: "length (base64_encode bs) = 4 * ((length bs + 2) div 3)"
proof (induction bs rule: three_induct)
  case (Three a b c r)
  have "(length (a # b # c # r) + 2) div 3 = (3 + (length r + 2)) div 3" by simp
  also have "\<dots> = (length r + 2) div 3 + 1" by simp
  finally have "(length (a # b # c # r) + 2) div 3 = (length r + 2) div 3 + 1" .
  then show ?case using Three by (simp add: base64_encode_def base64_chunk_def Let_def)
qed (simp_all add: base64_encode_def base64_chunk_def Let_def)

end
