(* ===== verification/Auth.thy ===== *)
theory Auth
  imports Codec_Text Hash Base64 Rust_Str
begin

text \<open>
  HS256 JSON web tokens of \<^verbatim>\<open>auth/mod.rs\<close>, over the JSON codec, HMAC-SHA256 and URL-safe base64, and the
  accept key of the WebSocket handshake, \<^verbatim>\<open>ws/handshake.rs\<close>. The clock is an argument.
\<close>

section \<open>Tokens\<close>

datatype JwtError = Malformed | UnsupportedAlg | InvalidSignature | Expired | NotYetValid

text \<open>What verification uses of \<^verbatim>\<open>f64\<close> besides its text: conversions \<^verbatim>\<open>as f64\<close> and comparison.\<close>

record 'f num_ops =
  f_of_i64 :: "i64 \<Rightarrow> 'f"
  f_of_u64 :: "u64 \<Rightarrow> 'f"
  f_le :: "'f \<Rightarrow> 'f \<Rightarrow> bool"
  f_lt :: "'f \<Rightarrow> 'f \<Rightarrow> bool"

definition jwt_header :: string where
  "jwt_header = ''{'' @ [CHR 0x22] @ ''alg'' @ [CHR 0x22] @ '':'' @ [CHR 0x22] @ ''HS256'' @ [CHR 0x22] @ '',''
     @ [CHR 0x22] @ ''typ'' @ [CHR 0x22] @ '':'' @ [CHR 0x22] @ ''JWT'' @ [CHR 0x22] @ ''}''"

definition encode_hs256 :: "'f float_ops \<Rightarrow> 'f Value \<Rightarrow> bytes \<Rightarrow> string" where
  "encode_hs256 F claims secret =
     (let header = b64url_encode (to_bytes jwt_header);
          body = b64url_encode (to_bytes (to_string F claims));
          signing_input = header @ ''.'' @ body;
          sig = hmac_sha256 secret (to_bytes signing_input)
      in signing_input @ ''.'' @ b64url_encode sig)"

text \<open>\<open>None\<close> when absent, \<open>Some None\<close> when present and not a number.\<close>

definition numeric_claim :: "'f num_ops \<Rightarrow> 'f Value \<Rightarrow> string \<Rightarrow> 'f option option" where
  "numeric_claim N claims key = map_option (\<lambda>v. case v of
     IntV i \<Rightarrow> Some (f_of_i64 N i)
   | UInt u \<Rightarrow> Some (f_of_u64 N u)
   | Float f \<Rightarrow> Some f
   | _ \<Rightarrow> None) (get claims key)"

definition constant_time_eq :: "bytes \<Rightarrow> bytes \<Rightarrow> bool" where
  "constant_time_eq a b \<longleftrightarrow> length a = length b \<and> foldl (\<lambda>diff (x, y). diff OR (x XOR y)) 0 (zip a b) = 0"

text \<open>The two time checks at the end of verification.\<close>

definition check_times :: "'f num_ops \<Rightarrow> i64 \<Rightarrow> 'f Value \<Rightarrow> ('f Value, JwtError) result" where
  "check_times N now claims =
     (let t = f_of_i64 N now;
          not_before = (case numeric_claim N claims ''nbf'' of
              Some (Some nbf) \<Rightarrow> if f_lt N t nbf then Err NotYetValid else Ok claims
            | Some None \<Rightarrow> Err Malformed
            | None \<Rightarrow> Ok claims)
      in case numeric_claim N claims ''exp'' of
           Some (Some e) \<Rightarrow> if f_le N e t then Err Expired else not_before
         | Some None \<Rightarrow> Err Malformed
         | None \<Rightarrow> not_before)"

text \<open>\<^verbatim>\<open>json::from_slice(&b64url_decode(part)?)\<close>, every failure being \<open>Malformed\<close>.\<close>

definition decode_part :: "(bytes \<Rightarrow> string) \<Rightarrow> 'f float_ops \<Rightarrow> string \<Rightarrow> ('f Value, JwtError) result option" where
  "decode_part msg F part = (case b64url_decode part of
     None \<Rightarrow> Some (Err Malformed)
   | Some bs \<Rightarrow> map_option (map_sum (\<lambda>_. Malformed) id) (from_slice msg F bs))"

definition check_signature :: "string \<Rightarrow> string \<Rightarrow> string \<Rightarrow> bytes \<Rightarrow> (unit, JwtError) result" where
  "check_signature h p s secret = (case b64url_decode s of
     None \<Rightarrow> Err Malformed
   | Some actual \<Rightarrow>
       if constant_time_eq (hmac_sha256 secret (to_bytes (h @ ''.'' @ p))) actual then Ok () else Err InvalidSignature)"

definition decode_hs256 :: "(bytes \<Rightarrow> string) \<Rightarrow> 'f float_ops \<Rightarrow> 'f num_ops \<Rightarrow> i64 \<Rightarrow> string \<Rightarrow> bytes \<Rightarrow>
    ('f Value, JwtError) result option" where
  "decode_hs256 msg F N now token secret = (case split_on (CHR ''.'') token of
     [h, p, s] \<Rightarrow>
       (case decode_part msg F h of
          None \<Rightarrow> None
        | Some (Err e) \<Rightarrow> Some (Err e)
        | Some (Ok header) \<Rightarrow>
            if Option.bind (get header ''alg'') as_str \<noteq> Some ''HS256'' then Some (Err UnsupportedAlg)
            else (case check_signature h p s secret of
              Err e \<Rightarrow> Some (Err e)
            | Ok _ \<Rightarrow>
                (case decode_part msg F p of
                   None \<Rightarrow> None
                 | Some (Err e) \<Rightarrow> Some (Err e)
                 | Some (Ok claims) \<Rightarrow> Some (check_times N now claims))))
   | _ \<Rightarrow> Some (Err Malformed))"

section \<open>The WebSocket accept key\<close>

definition WS_GUID :: string where
  "WS_GUID = ''258EAFA5-E914-47DA-95CA-C5AB0DC85B11''"

definition accept_key :: "string \<Rightarrow> string" where
  "accept_key client_key = base64_encode (sha1 (to_bytes (client_key @ WS_GUID)))"

section \<open>Correctness\<close>

lemma constant_time_eq_iff: "constant_time_eq a b \<longleftrightarrow> a = b"
proof -
  have fold: "foldl (\<lambda>diff (x, y). diff OR (x XOR y)) d (zip a b) = 0 \<longleftrightarrow> d = 0 \<and> a = b"
    if "length a = length b" for d :: u8
    using that by (induction a b arbitrary: d rule: list_induct2) (auto simp: or_eq_0_iff xor_zero_iff)
  show ?thesis unfolding constant_time_eq_def using fold [of 0] by auto
qed

text \<open>The header the encoder writes is the printed form of its object.\<close>

lemma jwt_header_text:
  "jwt_header = to_string F (Object [(''alg'', Str ''HS256''), (''typ'', Str ''JWT'')])"
  by (simp add: to_string_eq jwt_header_def quote_def escape_def)

lemma decode_part_printed:
  assumes "float_ok F" and "depth_of v \<le> max_depth" and "strings_valid v"
  shows "decode_part msg F (b64url_encode (to_bytes (to_string F v))) = Some (Ok (normal F v))"
  by (simp add: decode_part_def b64url_round_trip from_slice_printed [OF assms])

lemma decode_header:
  assumes "float_ok F"
  shows "decode_part msg F (b64url_encode (to_bytes jwt_header)) =
    Some (Ok (Object [(''alg'', Str ''HS256''), (''typ'', Str ''JWT'')]))"
proof -
  have "text_valid ''alg''" "text_valid ''HS256''" "text_valid ''typ''" "text_valid ''JWT''"
    by (rule ascii_valid, simp)+
  then show ?thesis
    using decode_part_printed [OF assms, of "Object [(''alg'', Str ''HS256''), (''typ'', Str ''JWT'')]" msg]
    unfolding jwt_header_text [of F] by (simp add: max_depth_def del: utf8_valid.simps to_bytes_simps)
qed

lemma check_signature_Ok: "check_signature h p s secret = Ok u \<longleftrightarrow>
    b64url_decode s = Some (hmac_spec secret (to_bytes (h @ ''.'' @ p)))"
proof -
  have "hmac_sha256 secret m = hmac_spec secret m" for m by (simp add: hmac_sha256_def hmac.one_shot)
  then show ?thesis by (auto simp: check_signature_def constant_time_eq_iff split: option.splits)
qed

lemma length_be_words: "length (be_words ws) = 4 * length ws"
  by (induction ws) (simp_all add: be_words_def u32_to_be_def)

lemma length_sha1: "length (sha1 m) = 20"
proof -
  have "length (foldl sha1_compress h bs) = 5" if "length h = 5" for h bs
    using that by (induction bs arbitrary: h) (simp_all add: sha1_compress_def split: prod.split)
  then show ?thesis by (simp add: sha1_def sha1.one_shot digest_def length_be_words SHA1_H0_def)
qed

section \<open>Properties\<close>

text \<open>The time checks accept exactly the claims whose expiry, if given, is a number after the present and whose start, if
  given, is a number not after it.\<close>

lemma check_times_Ok:
  "check_times N now claims = Ok c \<longleftrightarrow> c = claims \<and>
     (case numeric_claim N claims ''exp'' of None \<Rightarrow> True | Some None \<Rightarrow> False | Some (Some e) \<Rightarrow> \<not> f_le N e (f_of_i64 N now)) \<and>
     (case numeric_claim N claims ''nbf'' of None \<Rightarrow> True | Some None \<Rightarrow> False | Some (Some n) \<Rightarrow> \<not> f_lt N (f_of_i64 N now) n)"
  by (auto simp: check_times_def Let_def split: option.splits)

lemma minted_token_decodes:
  assumes "float_ok F" and "depth_of claims \<le> max_depth" and "strings_valid claims"
  shows "decode_hs256 msg F N now (encode_hs256 F claims secret) secret =
    Some (check_times N now (normal F claims))"
proof -
  let ?h = "b64url_encode (to_bytes jwt_header)" and ?p = "b64url_encode (to_bytes (to_string F claims))"
  let ?s = "b64url_encode (hmac_sha256 secret (to_bytes (?h @ ''.'' @ ?p)))"
  have "encode_hs256 F claims secret = ?h @ CHR ''.'' # ?p @ CHR ''.'' # ?s"
    by (simp add: encode_hs256_def Let_def)
  then have split: "split_on (CHR ''.'') (encode_hs256 F claims secret) = [?h, ?p, ?s]"
    by (simp add: split_on_clean split_on_last encode_clean(2))
  have "check_signature ?h ?p ?s secret = Ok ()"
    by (simp add: check_signature_def b64url_round_trip constant_time_eq_iff)
  moreover have "Option.bind (get (Object [(''alg'', Str ''HS256''), (''typ'', Str ''JWT'')] :: 'a Value) ''alg'') as_str =
      Some ''HS256''"
    by (simp add: get_def find_key_def)
  ultimately show ?thesis
    by (simp add: decode_hs256_def split decode_header [OF assms(1)] decode_part_printed [OF assms])
qed

definition nat_nums :: "nat num_ops" where
  "nat_nums = \<lparr>f_of_i64 = unat, f_of_u64 = unat, f_le = (\<le>), f_lt = (<)\<rparr>"

text \<open>C12: A token minted for claims that nest at most 128 deep and hold valid strings decodes under its own secret: to
  the claims as JSON represents them, exactly if their expiry, when given, is a number after the present and their start,
  when given, a number not after it; and otherwise to an error. Nothing else can refuse it.\<close>

theorem jwt_round_trip:
  assumes "float_ok F" and "depth_of claims \<le> max_depth" and "strings_valid claims" and "c = normal F claims"
  shows "(decode_hs256 msg F N now (encode_hs256 F claims secret) secret = Some (Ok c) \<longleftrightarrow>
      (case numeric_claim N c ''exp'' of None \<Rightarrow> True | Some None \<Rightarrow> False | Some (Some e) \<Rightarrow> \<not> f_le N e (f_of_i64 N now)) \<and>
      (case numeric_claim N c ''nbf'' of None \<Rightarrow> True | Some None \<Rightarrow> False | Some (Some n) \<Rightarrow> \<not> f_lt N (f_of_i64 N now) n)) \<and>
    (\<exists>r. decode_hs256 msg F N now (encode_hs256 F claims secret) secret = Some r \<and> (r = Ok c \<or> r \<in> {Err Expired, Err NotYetValid, Err Malformed}))"
proof -
  have "check_times N now c = Ok c \<or> check_times N now c \<in> {Err Expired, Err NotYetValid, Err Malformed}"
    by (auto simp: check_times_def Let_def split: option.splits)
  then show ?thesis unfolding minted_token_decodes [OF assms(1-3)] assms(4) [symmetric] by (simp add: check_times_Ok)
qed

theorem jwt_round_trip_witness:
  "decode_hs256 (\<lambda>_. []) int_floats nat_nums 5 (encode_hs256 int_floats (Object [(''exp'', IntV 9)]) [7]) [7] =
     Some (Ok (Object [(''exp'', IntV 9)])) \<and>
   decode_hs256 (\<lambda>_. []) int_floats nat_nums 9 (encode_hs256 int_floats (Object [(''exp'', IntV 9)]) [7]) [7] \<noteq>
     Some (Ok (Object [(''exp'', IntV 9)]))"
proof -
  let ?c = "Object [(''exp'', IntV 9)] :: nat Value"
  have "utf8_valid (to_bytes ''exp'')" by (rule ascii_valid) simp
  then have "strings_valid ?c" by simp
  then have ok: "depth_of ?c \<le> max_depth" "strings_valid ?c" "?c = normal int_floats ?c" by (simp_all add: max_depth_def)
  have "numeric_claim nat_nums ?c ''exp'' = Some (Some 9)" "numeric_claim nat_nums ?c ''nbf'' = None"
    by (simp_all add: numeric_claim_def get_def find_key_def nat_nums_def)
  then show ?thesis
    using jwt_round_trip [OF int_floats_ok ok, of "\<lambda>_. []" nat_nums 5 "[7]", THEN conjunct1]
      jwt_round_trip [OF int_floats_ok ok, of "\<lambda>_. []" nat_nums 9 "[7]", THEN conjunct1]
    by (simp add: nat_nums_def)
qed

text \<open>C5: Only authentic tokens are accepted: a token that verifies has exactly three parts, a header that
  names HS256, and a signature that decodes to the RFC 2104 tag of the first two parts under the
  secret; its claims are those of the payload and neither time check fails.\<close>

theorem jwt_authentic:
  assumes "decode_hs256 msg F N now token secret = Some (Ok claims)"
  shows "\<exists>h p s header. token = h @ ''.'' @ p @ ''.'' @ s \<and>
    b64url_decode s = Some (hmac_spec secret (to_bytes (h @ ''.'' @ p))) \<and>
    decode_part msg F h = Some (Ok header) \<and> Option.bind (get header ''alg'') as_str = Some ''HS256'' \<and>
    decode_part msg F p = Some (Ok claims) \<and> check_times N now claims = Ok claims"
proof -
  obtain h p s where split: "split_on (CHR ''.'') token = [h, p, s]"
    using assms by (auto simp: decode_hs256_def split: list.splits)
  obtain header where h: "decode_part msg F h = Some (Ok header)"
    using assms split by (auto simp: decode_hs256_def split: option.splits sum.splits)
  have alg: "Option.bind (get header ''alg'') as_str = Some ''HS256''"
    using assms split h by (auto simp: decode_hs256_def split: if_splits)
  obtain u where sig: "check_signature h p s secret = Ok u"
    using assms split h alg by (auto simp: decode_hs256_def split: sum.splits)
  obtain c where p: "decode_part msg F p = Some (Ok c)" "check_times N now c = Ok claims"
    using assms split h alg sig by (auto simp: decode_hs256_def split: option.splits sum.splits)
  have "c = claims" using p(2) by (auto simp: check_times_def Let_def split: option.splits if_splits)
  moreover have "token = h @ ''.'' @ p @ ''.'' @ s" using split_on_join [of "CHR ''.''" token] split by simp
  ultimately show ?thesis using h alg sig p by (auto simp: check_signature_Ok)
qed

theorem jwt_authentic_witness:
  "\<exists>h p s header. encode_hs256 int_floats Null [7] = h @ ''.'' @ p @ ''.'' @ s \<and>
    b64url_decode s = Some (hmac_spec [7] (to_bytes (h @ ''.'' @ p))) \<and>
    decode_part (\<lambda>_. []) int_floats h = Some (Ok header) \<and> Option.bind (get header ''alg'') as_str = Some ''HS256'' \<and>
    decode_part (\<lambda>_. []) int_floats p = Some (Ok Null) \<and> check_times nat_nums 0 (Null :: nat Value) = Ok Null"
proof (rule jwt_authentic)
  have "strings_valid (Null :: nat Value)" "depth_of (Null :: nat Value) \<le> max_depth" by simp_all
  from decode_part_printed [OF int_floats_ok this(2,1)]
  have p: "decode_part (\<lambda>_. []) int_floats (b64url_encode (to_bytes (to_string int_floats Null))) = Some (Ok Null)" by simp
  let ?h = "b64url_encode (to_bytes jwt_header)" and ?p = "b64url_encode (to_bytes (to_string int_floats Null))"
  let ?s = "b64url_encode (hmac_sha256 [7] (to_bytes (?h @ ''.'' @ ?p)))"
  have "split_on (CHR ''.'') (encode_hs256 int_floats Null [7]) = [?h, ?p, ?s]"
    by (simp add: encode_hs256_def Let_def split_on_clean split_on_last encode_clean(2))
  moreover have "check_signature ?h ?p ?s [7] = Ok ()"
    by (simp add: check_signature_def b64url_round_trip constant_time_eq_iff)
  ultimately show "decode_hs256 (\<lambda>_. []) int_floats nat_nums 0 (encode_hs256 int_floats Null [7]) [7] = Some (Ok Null)"
    using p by (simp add: decode_hs256_def decode_header [OF int_floats_ok] check_times_def numeric_claim_def
        get_def find_key_def)
qed

text \<open>The handshake's accept key is the 28-character base64 text of the SHA-1 digest of the client key
  followed by the GUID, and the digest can be read back from it.\<close>

theorem accept_key_correct:
  "length (accept_key k) = 28 \<and>
   b64url_decode (map url_safe (accept_key k)) =
     Some (be_words (foldl sha1_compress SHA1_H0
       (blocks (to_bytes (k @ WS_GUID) @ padding (length k + 36)))))"
proof -
  have "length (to_bytes (k @ WS_GUID)) = length k + 36" by (simp add: to_bytes_def WS_GUID_def)
  then have "sha1 (to_bytes (k @ WS_GUID)) =
      be_words (foldl sha1_compress SHA1_H0 (blocks (to_bytes (k @ WS_GUID) @ padding (length k + 36))))"
    by (simp add: sha1_def sha1.one_shot digest_def)
  moreover have "length (accept_key k) = 28"
    by (simp add: accept_key_def length_base64 length_sha1)
  ultimately show ?thesis by (simp add: accept_key_def base64_decodes)
qed

end
