(* ===== verification/Http_Core.thy ===== *)
theory Http_Core
  imports Codec_Value Rust_Str Utf8
begin

text \<open>
  The HTTP value types of \<^verbatim>\<open>http/core.rs\<close> and the request of \<^verbatim>\<open>http/message.rs\<close>: methods, the ordered
  case-insensitive header map with its injection guard, and URIs. Strings are lists of bytes.
\<close>

section \<open>Methods and headers\<close>

datatype HttpError = InvalidUrl string | Io | Tls string | Protocol string | Timeout

datatype Method = Get | Post | Put | Delete | Patch | Head | Options | Trace | Connect | Other string

fun method_str :: "Method \<Rightarrow> string" where
  "method_str Get = ''GET''"
| "method_str Post = ''POST''"
| "method_str Put = ''PUT''"
| "method_str Delete = ''DELETE''"
| "method_str Patch = ''PATCH''"
| "method_str Head = ''HEAD''"
| "method_str Options = ''OPTIONS''"
| "method_str Trace = ''TRACE''"
| "method_str Connect = ''CONNECT''"
| "method_str (Other s) = s"

definition method_parse :: "string \<Rightarrow> Method" where
  "method_parse s =
     (if s = ''GET'' then Get else if s = ''POST'' then Post else if s = ''PUT'' then Put
      else if s = ''DELETE'' then Delete else if s = ''PATCH'' then Patch else if s = ''HEAD'' then Head
      else if s = ''OPTIONS'' then Options else if s = ''TRACE'' then Trace
      else if s = ''CONNECT'' then Connect else Other s)"

type_synonym HeaderMap = "(string \<times> string) list"

definition CR :: char where "CR = CHR 0x0D"
definition LF :: char where "LF = CHR 0x0A"

definition strip_crlf :: "string \<Rightarrow> string" where
  "strip_crlf s = (if CR \<in> set s \<or> LF \<in> set s then filter (\<lambda>c. c \<noteq> CR \<and> c \<noteq> LF) s else s)"

definition header_set :: "HeaderMap \<Rightarrow> string \<Rightarrow> string \<Rightarrow> HeaderMap" where
  "header_set h name val =
     (let name = strip_crlf name
      in filter (\<lambda>(k, _). \<not> eq_ignore_ascii_case k name) h @ [(name, strip_crlf val)])"

definition header_append :: "HeaderMap \<Rightarrow> string \<Rightarrow> string \<Rightarrow> HeaderMap" where
  "header_append h name val = h @ [(strip_crlf name, strip_crlf val)]"

definition header_get :: "HeaderMap \<Rightarrow> string \<Rightarrow> string option" where
  "header_get h name = map_option snd (find (\<lambda>(k, _). eq_ignore_ascii_case k name) h)"

definition header_contains :: "HeaderMap \<Rightarrow> string \<Rightarrow> bool" where
  "header_contains h name \<longleftrightarrow> list_ex (\<lambda>(k, _). eq_ignore_ascii_case k name) h"

definition content_length :: "HeaderMap \<Rightarrow> nat option" where
  "content_length h = Option.bind (header_get h ''content-length'') (\<lambda>v. map_option unat (parse_u64 (trim v)))"

text \<open>The loop of \<^verbatim>\<open>content_length_checked\<close>: \<open>seen\<close> is the value found so far.\<close>

fun check_lengths :: "nat option \<Rightarrow> HeaderMap \<Rightarrow> (nat option, HttpError) result" where
  "check_lengths seen [] = Ok seen"
| "check_lengths seen ((k, v) # h) =
     (if eq_ignore_ascii_case k ''content-length'' then
        (case parse_u64 (trim v) of
           None \<Rightarrow> Err (Protocol ''invalid Content-Length'')
         | Some n \<Rightarrow>
             if seen \<noteq> None \<and> seen \<noteq> Some (unat n) then Err (Protocol ''conflicting Content-Length values'')
             else check_lengths (Some (unat n)) h)
      else check_lengths seen h)"

definition content_length_checked :: "HeaderMap \<Rightarrow> (nat option, HttpError) result" where
  "content_length_checked h = check_lengths None h"

definition is_chunked :: "HeaderMap \<Rightarrow> bool" where
  "is_chunked h = (case header_get h ''transfer-encoding'' of
     None \<Rightarrow> False
   | Some v \<Rightarrow> sublist ''chunked'' (to_ascii_lowercase v))"

section \<open>URIs\<close>

record Uri =
  scheme :: string
  host :: string
  port :: nat
  path :: string
  query :: "string option"

definition split_target :: "string \<Rightarrow> string \<times> string option" where
  "split_target target =
     (let (p, q) = (case split_once (CHR ''?'') target of Some (p, q) \<Rightarrow> (p, Some q) | None \<Rightarrow> (target, None))
      in (if p = [] then ''/'' else p, q))"

text \<open>\<^verbatim>\<open>p.parse::<u16>()\<close>\<close>

definition parse_u16 :: "string \<Rightarrow> nat option" where
  "parse_u16 s =
     (let d = strip_plus s
      in if all_digits d \<and> nat_of_digits d < 2 ^ 16 then Some (nat_of_digits d) else None)"

text \<open>\<^verbatim>\<open>url.split_once("://")\<close>\<close>

fun split_scheme :: "string \<Rightarrow> (string \<times> string) option" where
  "split_scheme [] = None"
| "split_scheme (c # s) =
     (case strip_prefix ''://'' (c # s) of
        Some r \<Rightarrow> Some ([], r)
      | None \<Rightarrow> map_option (\<lambda>(a, b). (c # a, b)) (split_scheme s))"

definition uri_parse :: "string \<Rightarrow> (Uri, HttpError) result" where
  "uri_parse url = (case split_scheme url of
     None \<Rightarrow> Err (InvalidUrl url)
   | Some (sch, rest) \<Rightarrow>
       let sch = to_ascii_lowercase sch
       in case (if sch = ''http'' \<or> sch = ''ws'' then Some 80
                else if sch = ''https'' \<or> sch = ''wss'' then Some 443 else None) of
            None \<Rightarrow> Err (InvalidUrl (''unsupported scheme: '' @ sch))
          | Some default_port \<Rightarrow>
              let auth = takeWhile (\<lambda>c. c \<noteq> CHR ''/'' \<and> c \<noteq> CHR ''?'') rest;
                  remainder = dropWhile (\<lambda>c. c \<noteq> CHR ''/'' \<and> c \<noteq> CHR ''?'') rest;
                  hp = (case rsplit_once (CHR '':'') auth of
                          Some (h, p) \<Rightarrow> map_option (Pair h) (parse_u16 p)
                        | None \<Rightarrow> Some (auth, default_port))
              in case hp of
                   None \<Rightarrow> Err (InvalidUrl url)
                 | Some (h, p) \<Rightarrow>
                     if h = [] then Err (InvalidUrl url)
                     else Ok \<lparr>scheme = sch, host = h, port = p,
                              path = fst (split_target remainder), query = snd (split_target remainder)\<rparr>)"

definition is_tls :: "Uri \<Rightarrow> bool" where
  "is_tls u \<longleftrightarrow> scheme u = ''https'' \<or> scheme u = ''wss''"

definition authority :: "Uri \<Rightarrow> string" where
  "authority u =
     (if port u = (if is_tls u then 443 else 80) then host u else host u @ '':'' @ decimal (port u))"

definition request_target :: "Uri \<Rightarrow> string" where
  "request_target u = (case query u of Some q \<Rightarrow> path u @ ''?'' @ q | None \<Rightarrow> path u)"

record Request =
  req_method :: Method
  uri :: Uri
  headers :: HeaderMap
  body :: string

section \<open>Lemmas\<close>

lemma method_round_trip:
  "method_parse (method_str m) = m \<or> (\<exists>s. m = Other s \<and> method_parse s \<noteq> Other s)"
  by (cases m) (auto simp: method_parse_def)

lemma CR_LF [simp]: "CR \<noteq> LF" "LF \<noteq> CR"
  by (simp_all add: CR_def LF_def)

lemma strip_crlf_eq: "strip_crlf s = filter (\<lambda>c. c \<noteq> CR \<and> c \<noteq> LF) s"
  by (auto simp: strip_crlf_def filter_id_conv intro!: sym [of _ s])

lemma strip_crlf_clean: "CR \<notin> set (strip_crlf s)" "LF \<notin> set (strip_crlf s)"
  by (auto simp: strip_crlf_eq)

lemma strip_crlf_id: "CR \<notin> set s \<Longrightarrow> LF \<notin> set s \<Longrightarrow> strip_crlf s = s"
  by (simp add: strip_crlf_def)

text \<open>No header name or value ever holds a line break.\<close>

definition no_breaks :: "HeaderMap \<Rightarrow> bool" where
  "no_breaks h \<longleftrightarrow> list_all (\<lambda>(k, v). CR \<notin> set k \<and> LF \<notin> set k \<and> CR \<notin> set v \<and> LF \<notin> set v) h"

lemma no_breaks_set: "no_breaks h \<Longrightarrow> no_breaks (header_set h k v)"
  by (auto simp: no_breaks_def header_set_def Let_def list_all_iff strip_crlf_clean)

lemma no_breaks_append: "no_breaks h \<Longrightarrow> no_breaks (header_append h k v)"
  by (auto simp: no_breaks_def header_append_def list_all_iff strip_crlf_clean)

lemma header_get_append: "header_get (a @ b) n = (case header_get a n of None \<Rightarrow> header_get b n | x \<Rightarrow> x)"
  by (induction a) (auto simp: header_get_def split: prod.splits option.splits)

lemma header_get_set:
  "header_get (header_set h k v) n =
     (if eq_ignore_ascii_case (strip_crlf k) n then Some (strip_crlf v) else header_get h n)"
proof -
  have "header_get (filter (\<lambda>(x, _). \<not> eq_ignore_ascii_case x k') h) n =
      (if eq_ignore_ascii_case k' n then None else header_get h n)" for k'
    by (induction h) (auto simp: header_get_def eq_ignore_ascii_case_def)
  moreover have "header_get [(a, b)] n = (if eq_ignore_ascii_case a n then Some b else None)" for a b
    by (simp add: header_get_def)
  ultimately show ?thesis
    by (simp add: header_set_def Let_def header_get_append split: option.split)
qed

text \<open>What the Content-Length guard accepts: all occurrences parse, to one value.\<close>

definition length_values :: "HeaderMap \<Rightarrow> u64 option list" where
  "length_values h = map (\<lambda>(k, v). parse_u64 (trim v)) (filter (\<lambda>(k, _). eq_ignore_ascii_case k ''content-length'') h)"

lemma length_values_simps [simp]:
  "length_values [] = []"
  "length_values ((k, v) # h) =
     (if eq_ignore_ascii_case k ''content-length'' then parse_u64 (trim v) # length_values h else length_values h)"
  by (simp_all add: length_values_def)

lemma check_lengths_same:
  "list_all (\<lambda>v. \<exists>w. v = Some w \<and> unat w = n) (length_values h) \<Longrightarrow> check_lengths (Some n) h = Ok (Some n)"
  by (induction h) (auto split: if_splits)

lemma check_lengths_absent: "length_values h = [] \<Longrightarrow> check_lengths seen h = Ok seen"
  by (induction h) (auto split: if_splits)

lemma check_lengths_first:
  "length_values h \<noteq> [] \<Longrightarrow> list_all (\<lambda>v. \<exists>w. v = Some w \<and> unat w = n) (length_values h) \<Longrightarrow>
     check_lengths None h = Ok (Some n)"
  by (induction h) (auto simp: check_lengths_same split: if_splits)

lemma check_lengths_keeps: "check_lengths (Some m) h = Ok r \<Longrightarrow> r = Some m"
  by (induction h) (auto split: option.splits if_splits)

lemma check_lengths_Ok:
  "check_lengths seen h = Ok (Some n) \<Longrightarrow> seen = None \<or> seen = Some n \<Longrightarrow>
     list_all (\<lambda>v. \<exists>w. v = Some w \<and> unat w = n) (length_values h)"
proof (induction h arbitrary: seen)
  case (Cons kv h)
  obtain k v where kv: "kv = (k, v)" by (cases kv)
  show ?case
  proof (cases "eq_ignore_ascii_case k ''content-length''")
    case True
    then obtain m where m: "parse_u64 (trim v) = Some m" "check_lengths (Some (unat m)) h = Ok (Some n)"
      using Cons.prems(1) kv by (auto split: option.splits if_splits)
    then have "unat m = n" using check_lengths_keeps [OF m(2)] by simp
    then show ?thesis using Cons.IH [OF m(2)] m(1) True kv by auto
  next
    case False
    then show ?thesis using Cons kv by simp
  qed
qed simp

lemma check_lengths_None: "check_lengths None h = Ok None \<Longrightarrow> length_values h = []"
  by (induction h) (auto split: option.splits if_splits dest: check_lengths_keeps)

lemma content_length_checked_iff:
  "content_length_checked h = Ok (Some n) \<longleftrightarrow>
     length_values h \<noteq> [] \<and> list_all (\<lambda>v. \<exists>w. v = Some w \<and> unat w = n) (length_values h)"
  "content_length_checked h = Ok None \<longleftrightarrow> length_values h = []"
proof -
  show "content_length_checked h = Ok (Some n) \<longleftrightarrow>
     length_values h \<noteq> [] \<and> list_all (\<lambda>v. \<exists>w. v = Some w \<and> unat w = n) (length_values h)"
  proof
    assume ok: "content_length_checked h = Ok (Some n)"
    then have ok': "check_lengths None h = Ok (Some n)" by (simp add: content_length_checked_def)
    moreover have "length_values h \<noteq> []"
      using ok' check_lengths_absent [of h None] by (intro notI) simp
    ultimately show "length_values h \<noteq> [] \<and> list_all (\<lambda>v. \<exists>w. v = Some w \<and> unat w = n) (length_values h)"
      using check_lengths_Ok [OF ok'] by simp
  next
    assume "length_values h \<noteq> [] \<and> list_all (\<lambda>v. \<exists>w. v = Some w \<and> unat w = n) (length_values h)"
    then show "content_length_checked h = Ok (Some n)"
      unfolding content_length_checked_def by (elim conjE) (rule check_lengths_first)
  qed
  show "content_length_checked h = Ok None \<longleftrightarrow> length_values h = []"
    unfolding content_length_checked_def by (rule iffI [OF check_lengths_None check_lengths_absent])
qed

end
