(* ===== verification/Http_Wire.thy ===== *)
theory Http_Wire
  imports Http_Core
begin

text \<open>
  HTTP/1.1 on the wire: \<^verbatim>\<open>http/io.rs\<close> and the connection loop of \<^verbatim>\<open>http/server.rs\<close>. A connection's input
  is the bytes that arrive and whether the transport then fails (an I/O error or a deadline) rather
  than ends. Handlers are functions from request to response, writes succeed, and a streamed body is
  the list of chunks its channel yields.
\<close>

type_synonym stream = "string \<times> bool"

section \<open>Request and response heads\<close>

definition MAX_LINE_BYTES :: nat where "MAX_LINE_BYTES = 16 * 1024"
definition MAX_HEADERS :: nat where "MAX_HEADERS = 128"
definition MAX_HEADER_TOTAL_BYTES :: nat where "MAX_HEADER_TOTAL_BYTES = 64 * 1024"

fun line_loop :: "nat \<Rightarrow> string \<Rightarrow> stream \<Rightarrow> (string, HttpError) result \<times> stream" where
  "line_loop cap b ([], broken) = (if broken then Err Io else Ok b, ([], broken))"
| "line_loop cap b (x # r, broken) =
     (if length (b @ [x]) > cap then (Err (Protocol ''request or header line too long''), (r, broken))
      else if x = LF then (Ok (b @ [x]), (r, broken))
      else line_loop cap (b @ [x]) (r, broken))"

text \<open>The line and the number of bytes read.\<close>

definition read_line_capped :: "nat \<Rightarrow> stream \<Rightarrow> (string \<times> nat, HttpError) result \<times> stream" where
  "read_line_capped cap s = (case line_loop cap [] s of
     (Err e, s') \<Rightarrow> (Err e, s')
   | (Ok b, s') \<Rightarrow> (Ok (lossy b, length b), s'))"

definition trim_end_crlf :: "string \<Rightarrow> string" where
  "trim_end_crlf s = rev (dropWhile (\<lambda>c. c = CR \<or> c = LF) (rev s))"

lemma line_loop_consumes:
  "line_loop cap b s = (Ok l, s') \<Longrightarrow> length (fst s') + length l = length (fst s) + length b"
  by (induction cap b s rule: line_loop.induct) (auto split: if_splits)

lemma read_line_capped_consumes:
  "read_line_capped cap s = (Ok (l, n), s') \<Longrightarrow> length (fst s') + n = length (fst s)"
  by (auto simp: read_line_capped_def split: prod.splits sum.splits dest: line_loop_consumes)

function headers_loop :: "nat \<Rightarrow> nat \<Rightarrow> HeaderMap \<Rightarrow> stream \<Rightarrow> (HeaderMap, HttpError) result \<times> stream" where
  "headers_loop tot count h s = (case read_line_capped MAX_LINE_BYTES s of
     (Err e, s') \<Rightarrow> (Err e, s')
   | (Ok (line, n), s') \<Rightarrow>
       if n = 0 then (Ok h, s')
       else if tot + n > MAX_HEADER_TOTAL_BYTES then (Err (Protocol ''header block too large''), s')
       else if trim_end_crlf line = [] then (Ok h, s')
       else if count + 1 > MAX_HEADERS then (Err (Protocol ''too many headers''), s')
       else headers_loop (tot + n) (count + 1)
              (case split_once (CHR '':'') (trim_end_crlf line) of
                 Some (k, v) \<Rightarrow> header_append h (trim k) (trim v)
               | None \<Rightarrow> h) s')"
  by pat_completeness auto
termination
  by (relation "measure (\<lambda>(_, _, _, s). length (fst s))") (auto dest!: read_line_capped_consumes [OF sym])

declare headers_loop.simps [simp del]

definition read_headers :: "stream \<Rightarrow> (HeaderMap, HttpError) result \<times> stream" where
  "read_headers s = headers_loop 0 0 [] s"

definition read_request_head :: "stream \<Rightarrow> (Method \<times> string \<times> HeaderMap, HttpError) result \<times> stream" where
  "read_request_head s = (case read_line_capped MAX_LINE_BYTES s of
     (Err e, s') \<Rightarrow> (Err e, s')
   | (Ok (line, n), s') \<Rightarrow>
       if n = 0 then (Err (Protocol ''empty request''), s')
       else (case split_on (CHR '' '') (trim_end line) of
           m # target # _ \<Rightarrow> (case read_headers s' of
               (Err e, s'') \<Rightarrow> (Err e, s'')
             | (Ok h, s'') \<Rightarrow> (Ok (method_parse m, target, h), s''))
         | _ \<Rightarrow> (Err (Protocol ''no target''), s')))"

definition crlf :: string where
  "crlf = [CR, LF]"

definition header_line :: "string \<times> string \<Rightarrow> string" where
  "header_line kv = fst kv @ '': '' @ snd kv @ crlf"

definition write_request :: "Request \<Rightarrow> string" where
  "write_request req =
     method_str (req_method req) @ '' '' @ request_target (uri req) @ '' HTTP/1.1'' @ crlf @
     (if header_contains (headers req) ''host'' then [] else ''Host: '' @ authority (uri req) @ crlf) @
     concat (map header_line (headers req)) @
     (if body req \<noteq> [] \<and> \<not> header_contains (headers req) ''content-length''
      then ''Content-Length: '' @ decimal (length (body req)) @ crlf else []) @
     crlf @ body req"

section \<open>Chunked bodies\<close>

text \<open>\<^verbatim>\<open>AsyncBufReadExt::read_line\<close>: up to and including the next line feed; not UTF-8 is an error.\<close>

definition read_line :: "stream \<Rightarrow> (string, HttpError) result \<times> stream" where
  "read_line s =
     (let line = takeWhile (\<lambda>c. c \<noteq> LF) (fst s); rest = dropWhile (\<lambda>c. c \<noteq> LF) (fst s)
      in if rest = [] \<and> snd s then (Err Io, ([], snd s))
         else let l = line @ take 1 rest
              in (if utf8_valid (to_bytes l) then Ok l else Err Io, (drop 1 rest, snd s)))"

definition read_n :: "nat \<Rightarrow> stream \<Rightarrow> (string, HttpError) result \<times> stream" where
  "read_n n s = (if n \<le> length (fst s) then (Ok (take n (fst s)), (drop n (fst s), snd s)) else (Err Io, ([], snd s)))"

definition hex_value :: "char \<Rightarrow> nat option" where
  "hex_value b =
     (let c = of_char b
      in if 48 \<le> c \<and> c \<le> 57 then Some (c - 48)
         else if 97 \<le> c \<and> c \<le> 102 then Some (c - 87)
         else if 65 \<le> c \<and> c \<le> 70 then Some (c - 55)
         else None)"

text \<open>\<^verbatim>\<open>u64::from_str_radix(s, 16)\<close>\<close>

fun hex_digits :: "nat \<Rightarrow> string \<Rightarrow> nat option" where
  "hex_digits a [] = Some a"
| "hex_digits a (c # cs) = (case hex_value c of None \<Rightarrow> None | Some d \<Rightarrow> hex_digits (16 * a + d) cs)"

definition parse_hex :: "string \<Rightarrow> nat option" where
  "parse_hex s =
     (let d = strip_plus s
      in if d = [] then None
         else case hex_digits 0 d of Some v \<Rightarrow> if v < 2 ^ 64 then Some v else None | None \<Rightarrow> None)"

lemma read_line_consumes:
  "read_line s = (Ok l, s') \<Longrightarrow> fst s = l @ fst s' \<and> snd s' = snd s"
proof -
  assume "read_line s = (Ok l, s')"
  then have l: "l = takeWhile (\<lambda>c. c \<noteq> LF) (fst s) @ take 1 (dropWhile (\<lambda>c. c \<noteq> LF) (fst s))"
    and s': "s' = (drop 1 (dropWhile (\<lambda>c. c \<noteq> LF) (fst s)), snd s)"
    by (auto simp: read_line_def Let_def split: if_splits)
  have "l @ fst s' = takeWhile (\<lambda>c. c \<noteq> LF) (fst s) @ dropWhile (\<lambda>c. c \<noteq> LF) (fst s)"
    unfolding l s' by (simp only: append_assoc fst_conv append_take_drop_id)
  then show ?thesis using s' by simp
qed

lemma read_n_consumes: "read_n n s = (Ok b, s') \<Longrightarrow> fst s = b @ fst s' \<and> length b = n \<and> snd s' = snd s"
  by (auto simp: read_n_def split: if_splits)

text \<open>Trailers up to the blank line.\<close>

function skip_trailers :: "stream \<Rightarrow> (unit, HttpError) result \<times> stream" where
  "skip_trailers s = (case read_line s of
     (Err e, s') \<Rightarrow> (Err e, s')
   | (Ok l, s') \<Rightarrow> if l = [] \<or> trim l = [] then (Ok (), s') else skip_trailers s')"
  by pat_completeness auto
termination
  by (relation "measure (\<lambda>s. length (fst s))") (auto dest!: read_line_consumes [OF sym])

declare skip_trailers.simps [simp del]

definition chunk_size_text :: "string \<Rightarrow> string" where
  "chunk_size_text line = trim (hd (split_on (CHR '';'') (trim line)))"

function chunked_loop :: "nat \<Rightarrow> string \<Rightarrow> stream \<Rightarrow> (string option, HttpError) result \<times> stream" where
  "chunked_loop mx acc s = (case read_line s of
     (Err e, s1) \<Rightarrow> (Err e, s1)
   | (Ok line, s1) \<Rightarrow>
       if line = [] then (Err (Protocol ''unexpected EOF in chunked body''), s1)
       else (case parse_hex (chunk_size_text line) of
           None \<Rightarrow> (Err (Protocol (''bad chunk size: '' @ chunk_size_text line)), s1)
         | Some sz \<Rightarrow>
             if sz = 0 then
               (case skip_trailers s1 of (Err e, s2) \<Rightarrow> (Err e, s2) | (Ok _, s2) \<Rightarrow> (Ok (Some acc), s2))
             else if min (length acc + sz) (2 ^ 64 - 1) > mx then (Ok None, s1)
             else (case read_n sz s1 of
                 (Err e, s2) \<Rightarrow> (Err e, s2)
               | (Ok b, s2) \<Rightarrow> (case read_n 2 s2 of
                   (Err e, s3) \<Rightarrow> (Err e, s3)
                 | (Ok _, s3) \<Rightarrow> chunked_loop mx (acc @ b) s3))))"
  by pat_completeness auto
termination
  by (relation "measure (\<lambda>(_, _, s). length (fst s))")
    (auto dest!: read_line_consumes [OF sym] read_n_consumes [OF sym])

declare chunked_loop.simps [simp del]

definition read_chunked_body :: "stream \<Rightarrow> nat \<Rightarrow> (string option, HttpError) result \<times> stream" where
  "read_chunked_body s mx = chunked_loop mx [] s"

section \<open>Responses\<close>

record HttpResponse =
  status :: nat
  resp_headers :: HeaderMap
  resp_body :: string
  resp_stream :: "string list option"

definition response_new :: "nat \<Rightarrow> HttpResponse" where
  "response_new st = \<lparr>status = st, resp_headers = [], resp_body = [], resp_stream = None\<rparr>"

definition with_header :: "string \<Rightarrow> string \<Rightarrow> HttpResponse \<Rightarrow> HttpResponse" where
  "with_header k v r = r\<lparr>resp_headers := header_set (resp_headers r) k v\<rparr>"

definition text_response :: "nat \<Rightarrow> string \<Rightarrow> HttpResponse" where
  "text_response st t = (with_header ''Content-Type'' ''text/plain; charset=utf-8'' (response_new st))\<lparr>resp_body := t\<rparr>"

definition reason :: "nat \<Rightarrow> string" where
  "reason c =
     (if c = 200 then ''OK'' else if c = 201 then ''Created'' else if c = 202 then ''Accepted''
      else if c = 204 then ''No Content'' else if c = 301 then ''Moved Permanently'' else if c = 302 then ''Found''
      else if c = 304 then ''Not Modified'' else if c = 400 then ''Bad Request'' else if c = 401 then ''Unauthorized''
      else if c = 403 then ''Forbidden'' else if c = 404 then ''Not Found'' else if c = 405 then ''Method Not Allowed''
      else if c = 409 then ''Conflict'' else if c = 413 then ''Payload Too Large''
      else if c = 422 then ''Unprocessable Entity'' else if c = 429 then ''Too Many Requests''
      else if c = 500 then ''Internal Server Error'' else if c = 502 then ''Bad Gateway''
      else if c = 503 then ''Service Unavailable'' else [])"

text \<open>\<^verbatim>\<open>{:X}\<close>\<close>

function upper_hex :: "nat \<Rightarrow> string" where
  "upper_hex n = (if n < 16 then [''0123456789ABCDEF'' ! n] else upper_hex (n div 16) @ [''0123456789ABCDEF'' ! (n mod 16)])"
  by pat_completeness auto
termination by (relation "measure id") auto

declare upper_hex.simps [simp del]

fun write_chunks :: "string list \<Rightarrow> string" where
  "write_chunks [] = ''0'' @ crlf @ crlf"
| "write_chunks (c # cs) = (if c = [] then [] else upper_hex (length c) @ crlf @ c @ crlf) @ write_chunks cs"

definition write_response :: "HttpResponse \<Rightarrow> Method \<Rightarrow> bool \<Rightarrow> string" where
  "write_response resp m keep_alive =
     (let no_content = (status resp = 204 \<or> status resp = 304);
          bodyless = (m = Head \<or> no_content);
          streaming = (resp_stream resp \<noteq> None \<and> \<not> bodyless)
      in ''HTTP/1.1 '' @ decimal (status resp) @ '' '' @ reason (status resp) @ crlf @
         concat (map header_line (resp_headers resp)) @
         (if streaming then
            if header_contains (resp_headers resp) ''transfer-encoding'' then [] else ''Transfer-Encoding: chunked'' @ crlf
          else if \<not> header_contains (resp_headers resp) ''content-length'' \<and> \<not> no_content
            then ''Content-Length: '' @ decimal (length (resp_body resp)) @ crlf else []) @
         (if header_contains (resp_headers resp) ''connection'' then []
          else (if keep_alive then ''Connection: keep-alive'' else ''Connection: close'') @ crlf) @
         crlf @
         (if bodyless then []
          else case resp_stream resp of Some chunks \<Rightarrow> write_chunks chunks | None \<Rightarrow> resp_body resp))"

section \<open>The connection loop\<close>

record ServerConfig =
  max_body_bytes :: nat
  max_keep_alive_requests :: nat

definition expects_continue :: "HeaderMap \<Rightarrow> bool" where
  "expects_continue h = (case header_get h ''expect'' of
     None \<Rightarrow> False | Some v \<Rightarrow> eq_ignore_ascii_case (trim v) ''100-continue'')"

definition wants_keep_alive :: "HeaderMap \<Rightarrow> bool" where
  "wants_keep_alive h = (case header_get h ''connection'' of
     None \<Rightarrow> True
   | Some v \<Rightarrow> \<not> list_ex (\<lambda>t. trim t = ''close'') (split_on (CHR '','') (to_ascii_lowercase v)))"

text \<open>How the body is read: a refusal with its status and text, or the body.\<close>

datatype body_read = Refuse nat string | Body string | Fails HttpError

definition read_body :: "ServerConfig \<Rightarrow> HeaderMap \<Rightarrow> nat option \<Rightarrow> stream \<Rightarrow> body_read \<times> stream" where
  "read_body cfg h cl s =
     (if is_chunked h then
        (case read_chunked_body s (max_body_bytes cfg) of
           (Err e, s') \<Rightarrow> (Fails e, s')
         | (Ok (Some b), s') \<Rightarrow> (Body b, s')
         | (Ok None, s') \<Rightarrow> (Refuse 413 ''payload too large'', s'))
      else case cl of
          Some len \<Rightarrow>
            if len > max_body_bytes cfg then (Refuse 413 ''payload too large'', s)
            else (case read_n len s of (Err e, s') \<Rightarrow> (Fails e, s') | (Ok b, s') \<Rightarrow> (Body b, s'))
        | None \<Rightarrow> (Body [], s))"

text \<open>One request: the bytes written, the request the handler saw, whether the connection may go on, and
  the input left.\<close>

definition handle_one :: "ServerConfig \<Rightarrow> (Request \<Rightarrow> HttpResponse) \<Rightarrow> Method \<times> string \<times> HeaderMap \<Rightarrow> nat \<Rightarrow> stream \<Rightarrow>
    string \<times> Request list \<times> (bool, HttpError) result \<times> stream" where
  "handle_one cfg handler head served s = (case head of (m, target, h) \<Rightarrow>
     (case content_length_checked h of
        Err _ \<Rightarrow> (write_response (text_response 400 ''invalid Content-Length'') m False, [], Ok False, s)
      | Ok cl \<Rightarrow>
          if is_chunked h \<and> cl \<noteq> None then
            (write_response (text_response 400 ''conflicting Content-Length and Transfer-Encoding'') m False, [], Ok False, s)
          else
            let has_body = (is_chunked h \<or> (case cl of Some n \<Rightarrow> n > 0 | None \<Rightarrow> False));
                cont = (if has_body \<and> expects_continue h then ''HTTP/1.1 100 Continue'' @ crlf @ crlf else [])
            in case read_body cfg h cl s of
                 (Fails e, s') \<Rightarrow> (cont, [], Err e, s')
               | (Refuse st t, s') \<Rightarrow> (cont @ write_response (text_response st t) m False, [], Ok False, s')
               | (Body b, s') \<Rightarrow>
                   let req = \<lparr>req_method = m,
                          uri = \<lparr>scheme = [], host = (case header_get h ''host'' of Some x \<Rightarrow> x | None \<Rightarrow> []), port = 0,
                                 path = fst (split_target target), query = snd (split_target target)\<rparr>,
                          headers = h, body = b\<rparr>;
                       ka = wants_keep_alive h
                   in (cont @ write_response (handler req) m (ka \<and> served < max_keep_alive_requests cfg), [req], Ok ka, s')))"

lemma line_loop_le: "length (fst (snd (line_loop cap b s))) \<le> length (fst s)"
  by (induction cap b s rule: line_loop.induct) auto

lemma read_line_capped_le: "read_line_capped cap s = (res, s') \<Longrightarrow> length (fst s') \<le> length (fst s)"
  using line_loop_le [of cap "[]" s] by (auto simp: read_line_capped_def split: prod.splits sum.splits)

lemma headers_loop_le: "length (fst (snd (headers_loop t c h s))) \<le> length (fst s)"
proof (induction t c h s rule: headers_loop.induct)
  case (1 t c h s)
  obtain res s1 where r: "read_line_capped MAX_LINE_BYTES s = (res, s1)" by (cases "read_line_capped MAX_LINE_BYTES s")
  have le: "length (fst s1) \<le> length (fst s)" by (rule read_line_capped_le [OF r])
  show ?case
  proof (cases res)
    case (Inl e)
    then show ?thesis using r le by (subst headers_loop.simps) simp
  next
    case (Inr ln)
    obtain line n where ln: "ln = (line, n)" by (cases ln)
    note rd = r [unfolded Inr ln]
    show ?thesis
      using 1 [OF rd [symmetric] refl refl] le rd by (subst headers_loop.simps) (auto intro: order_trans)
  qed
qed

lemma read_request_head_lt:
  assumes "read_request_head s = (Ok h, s')"
  shows "length (fst s') < length (fst s)"
proof -
  obtain line n s1 where r: "read_line_capped MAX_LINE_BYTES s = (Ok (line, n), s1)" "n \<noteq> 0"
    using assms by (auto simp: read_request_head_def split: prod.splits sum.splits if_splits)
  then obtain hd' s2 where "read_headers s1 = (hd', s2)" "s' = s2"
    using assms by (auto simp: read_request_head_def split: prod.splits sum.splits list.splits)
  then have "length (fst s') \<le> length (fst s1)" using headers_loop_le [of 0 0 "[]" s1] by (simp add: read_headers_def)
  then show ?thesis using read_line_capped_consumes [OF r(1)] r(2) by simp
qed

lemma read_line_le: "length (fst (snd (read_line s))) \<le> length (fst s)"
  using length_dropWhile_le [of "\<lambda>c. c \<noteq> LF" "fst s"] by (auto simp: read_line_def Let_def)

lemma skip_trailers_le: "length (fst (snd (skip_trailers s))) \<le> length (fst s)"
proof (induction s rule: skip_trailers.induct)
  case (1 s)
  obtain res s1 where r: "read_line s = (res, s1)" by (cases "read_line s")
  have le: "length (fst s1) \<le> length (fst s)" using read_line_le [of s] r by simp
  show ?case
  proof (cases res)
    case (Inl e)
    then show ?thesis using r le by (subst skip_trailers.simps) simp
  next
    case (Inr l)
    then show ?thesis using 1 [OF r [symmetric] Inr] le r by (subst skip_trailers.simps) (auto intro: order_trans)
  qed
qed

lemma read_n_le: "length (fst (snd (read_n n s))) \<le> length (fst s)"
  by (simp add: read_n_def)

lemma chunked_loop_le: "length (fst (snd (chunked_loop mx acc s))) \<le> length (fst s)"
proof (induction mx acc s rule: chunked_loop.induct)
  case (1 mx acc s)
  obtain res s1 where r: "read_line s = (res, s1)" by (cases "read_line s")
  have le: "length (fst s1) \<le> length (fst s)" using read_line_le [of s] r by simp
  show ?case
  proof (cases res)
    case (Inl e)
    then show ?thesis using r le by (subst chunked_loop.simps) simp
  next
    case (Inr line)
    note rl = r [unfolded Inr]
    show ?thesis
    proof (cases "\<exists>sz. line \<noteq> [] \<and> parse_hex (chunk_size_text line) = Some sz \<and> sz \<noteq> 0 \<and>
        \<not> min (length acc + sz) (2 ^ 64 - 1) > mx")
      case False
      then show ?thesis using rl le skip_trailers_le [of s1]
        by (subst chunked_loop.simps) (auto split: option.split prod.split sum.split)
    next
      case True
      then obtain sz where sz: "line \<noteq> []" "parse_hex (chunk_size_text line) = Some sz" "sz \<noteq> 0"
          "\<not> min (length acc + sz) (2 ^ 64 - 1) > mx" by blast
      obtain resn s2 where n: "read_n sz s1 = (resn, s2)" by (cases "read_n sz s1")
      obtain resc s3 where c: "read_n 2 s2 = (resc, s3)" by (cases "read_n 2 s2")
      have le2: "length (fst s2) \<le> length (fst s1)" "length (fst s3) \<le> length (fst s2)"
        using read_n_le [of sz s1] read_n_le [of 2 s2] n c by simp_all
      have ih: "length (fst (snd (chunked_loop mx (acc @ b) s3))) \<le> length (fst s3)"
        if "resn = Ok b" "resc = Ok d" for b d
        using 1 [OF r [symmetric] Inr sz n [symmetric] that(1) c [symmetric] that(2)] .
      have eq: "chunked_loop mx acc s = (case resn of Err e \<Rightarrow> (Err e, s2)
          | Ok b \<Rightarrow> (case resc of Err e \<Rightarrow> (Err e, s3) | Ok _ \<Rightarrow> chunked_loop mx (acc @ b) s3))"
        using rl sz n c by (subst chunked_loop.simps) (auto split: sum.split)
      show ?thesis using ih le le2 unfolding eq by (cases resn; cases resc; force)
    qed
  qed
qed

lemma read_body_le: "length (fst (snd (read_body cfg h cl s))) \<le> length (fst s)"
  using chunked_loop_le [of "max_body_bytes cfg" "[]" s] read_n_le [of "the cl" s]
  by (auto simp: read_body_def read_chunked_body_def split: option.splits prod.splits sum.splits)

lemma handle_one_le:
  assumes "handle_one cfg handler head served s = (w, reqs, res, s')"
  shows "length (fst s') \<le> length (fst s)"
proof -
  obtain m target h where head: "head = (m, target, h)" by (cases head)
  show ?thesis
  proof (cases "content_length_checked h")
    case (Inl e)
    then show ?thesis using assms head by (simp add: handle_one_def)
  next
    case (Inr cl)
    then show ?thesis using assms head read_body_le [of cfg h cl s]
      by (auto simp: handle_one_def Let_def split: if_splits prod.splits body_read.splits)
  qed
qed

text \<open>\<open>drain i\<close>: shutdown was signalled before request \<open>i\<close>. The result is what was written and the requests
  the handler saw.\<close>

function serve_conn :: "ServerConfig \<Rightarrow> (Request \<Rightarrow> HttpResponse) \<Rightarrow> (nat \<Rightarrow> bool) \<Rightarrow> nat \<Rightarrow> stream \<Rightarrow>
    string \<times> Request list" where
  "serve_conn cfg handler drain served s =
     (if drain served then ([], [])
      else case read_request_head s of
          (Err _, _) \<Rightarrow> ([], [])
        | (Ok head, s1) \<Rightarrow>
            (case handle_one cfg handler head (served + 1) s1 of
               (w, reqs, Err _, s2) \<Rightarrow> (w, reqs)
             | (w, reqs, Ok ka, s2) \<Rightarrow>
                 if ka \<and> served + 1 < max_keep_alive_requests cfg then
                   (case serve_conn cfg handler drain (served + 1) s2 of (w', reqs') \<Rightarrow> (w @ w', reqs @ reqs'))
                 else (w, reqs)))"
  by pat_completeness auto
termination
  by (relation "measure (\<lambda>(_, _, _, _, s). length (fst s))")
    (auto dest!: read_request_head_lt [OF sym] handle_one_le [OF sym])

declare serve_conn.simps [simp del]

end
