(* ===== verification/Http_Correct.thy ===== *)
theory Http_Correct
  imports Http_Wire "HOL-Library.Sublist"
begin

text \<open>
  Correctness of the HTTP wire format: what the client writes the server reads back, bodies are framed
  exactly so that kept-alive connections stay in step, ambiguous framings are refused, and heads are
  bounded.
\<close>

section \<open>White space at the ends\<close>

definition ascii_space :: "char \<Rightarrow> bool" where
  "ascii_space c \<longleftrightarrow> of_char c \<in> {9, 10, 11, 12, 13, 32 :: nat}"

lemma white_space_cases:
  assumes "w \<in> set white_space"
  shows "(\<exists>c. w = [c] \<and> ascii_space c) \<or> (w \<noteq> [] \<and> 128 \<le> (of_char (hd w) :: nat) \<and> 128 \<le> (of_char (last w) :: nat))"
  using assms by (auto simp: white_space_def ascii_space_def of_char_of)

lemma white_space_single: "ascii_space c \<Longrightarrow> [c] \<in> set white_space"
proof -
  assume "ascii_space c"
  then have "c \<in> char_of ` {9, 10, 11, 12, 13, 32 :: nat}"
    unfolding ascii_space_def by (intro image_eqI [of _ _ "of_char c"]) simp_all
  then show ?thesis by (auto simp: white_space_def)
qed

text \<open>Both lists of words, forward and reversed, treat an ASCII byte the same way.\<close>

definition word_list :: "string list \<Rightarrow> bool" where
  "word_list ws \<longleftrightarrow> (\<forall>w \<in> set ws. (\<exists>c. w = [c] \<and> ascii_space c) \<or> w \<noteq> [] \<and> 128 \<le> (of_char (hd w) :: nat)) \<and>
     (\<forall>c. ascii_space c \<longrightarrow> [c] \<in> set ws)"

lemma word_list_ws: "word_list white_space" "word_list (map rev white_space)"
proof -
  show "word_list white_space"
    unfolding word_list_def using white_space_cases white_space_single by blast
  have "(\<exists>c. rev w = [c] \<and> ascii_space c) \<or> rev w \<noteq> [] \<and> 128 \<le> (of_char (hd (rev w)) :: nat)"
    if "w \<in> set white_space" for w
    using white_space_cases [OF that] by (auto simp: hd_rev)
  moreover have "[c] \<in> rev ` set white_space" if "ascii_space c" for c
    using white_space_single [OF that] by force
  ultimately show "word_list (map rev white_space)" by (auto simp: word_list_def)
qed

lemma drop_prefixes_ascii:
  assumes "word_list ws" and "of_char c < (128 :: nat)"
  shows "ascii_space c \<Longrightarrow> drop_prefixes ws (c # s) = drop_prefixes ws s"
    and "\<not> ascii_space c \<Longrightarrow> drop_prefixes ws (c # s) = c # s"
proof -
  have one: "w = [c] \<and> ascii_space c" if hyp: "w \<in> set ws" "w \<noteq> []" "prefix w (c # s)" for w
  proof -
    obtain w' where w': "w = c # w'" using hyp(2,3) by (cases w) auto
    have "(\<exists>c. w = [c] \<and> ascii_space c) \<or> 128 \<le> (of_char (hd w) :: nat)"
      using assms(1) hyp(1) by (auto simp: word_list_def)
    then show ?thesis using assms(2) w' by auto
  qed
  show "drop_prefixes ws (c # s) = drop_prefixes ws s" if sp: "ascii_space c"
  proof -
    have "[c] \<in> set ws" using assms(1) sp by (simp add: word_list_def)
    then have "drop_prefixes ws ([c] @ s) = drop_prefixes ws s"
      by (rule drop_prefixes_step) (use one in simp_all)
    then show ?thesis by simp
  qed
  show "drop_prefixes ws (c # s) = c # s" if "\<not> ascii_space c"
  proof -
    have "find (\<lambda>w. w \<noteq> [] \<and> prefix w (c # s)) ws = None" using one that by (auto simp: find_None_iff)
    then show ?thesis by (subst drop_prefixes.simps) simp
  qed
qed

lemma drop_prefixes_Nil: "drop_prefixes ws [] = []"
proof -
  have "find (\<lambda>w. w \<noteq> [] \<and> prefix w []) ws = None" by (auto simp: find_None_iff)
  then show ?thesis by (subst drop_prefixes.simps) simp
qed

lemma trim_start_Cons:
  "of_char c < (128 :: nat) \<Longrightarrow> trim_start (c # s) = (if ascii_space c then trim_start s else c # s)"
  using drop_prefixes_ascii [OF word_list_ws(1)] by (simp add: trim_start_def)

lemma trim_end_snoc:
  "of_char c < (128 :: nat) \<Longrightarrow> trim_end (s @ [c]) = (if ascii_space c then trim_end s else s @ [c])"
  using drop_prefixes_ascii [OF word_list_ws(2)] by (simp add: trim_end_def)

lemma trim_start_Nil [simp]: "trim_start [] = []"
  by (simp add: trim_start_def drop_prefixes_Nil)

lemma trim_end_Nil [simp]: "trim_end [] = []"
  by (simp add: trim_end_def drop_prefixes_Nil)

text \<open>Visible ASCII.\<close>

definition visible :: "string \<Rightarrow> bool" where
  "visible s \<longleftrightarrow> list_all (\<lambda>c. 32 < (of_char c :: nat) \<and> of_char c < (127 :: nat)) s"

lemma visible_char: "32 < (of_char c :: nat) \<and> of_char c < (127 :: nat) \<Longrightarrow> \<not> ascii_space c \<and> of_char c < (128 :: nat) \<and>
    c \<noteq> CR \<and> c \<noteq> LF \<and> c \<noteq> CHR '' ''"
  by (auto simp: ascii_space_def CR_def LF_def)

lemma visible_clean: "visible s \<Longrightarrow> CR \<notin> set s \<and> LF \<notin> set s \<and> CHR '' '' \<notin> set s"
  using visible_char by (fastforce simp: visible_def list_all_iff)

lemma visible_valid: "visible s \<Longrightarrow> utf8_valid (to_bytes s)"
  by (intro ascii_valid) (auto simp: visible_def ascii_def list_all_iff)

lemma trim_end_visible:
  assumes "visible t" and "t \<noteq> []"
  shows "trim_end (s @ t) = s @ t"
proof -
  obtain t' c where t: "t = t' @ [c]" using assms(2) by (cases t rule: rev_cases) auto
  then have "32 < (of_char c :: nat) \<and> of_char c < (127 :: nat)" using assms(1) by (simp add: visible_def)
  then show ?thesis using trim_end_snoc [of c "s @ t'"] visible_char t by simp
qed

lemma trim_visible: "visible s \<Longrightarrow> trim s = s"
proof (cases s)
  case (Cons c r)
  assume v: "visible s"
  then have "32 < (of_char c :: nat) \<and> of_char c < (127 :: nat)" using Cons by (simp add: visible_def)
  then have "trim_start s = s" using trim_start_Cons [of c r] visible_char Cons by simp
  then show ?thesis using trim_end_visible [OF v, of "[]"] Cons by (simp add: trim_def)
qed (simp add: trim_def)

lemma digits_visible: "all_digits s \<Longrightarrow> visible s"
  by (auto simp: all_digits_def visible_def list_all_iff is_digit_def)

lemma crlf_space: "ascii_space CR" "ascii_space LF" "ascii_space (CHR '' '')"
    "of_char CR < (128 :: nat)" "of_char LF < (128 :: nat)"
  by (simp_all add: ascii_space_def CR_def LF_def)

lemma trim_end_crlf_visible: "visible t \<Longrightarrow> t \<noteq> [] \<Longrightarrow> trim_end (s @ t @ crlf) = s @ t"
  using trim_end_snoc [of LF "s @ t @ [CR]"] trim_end_snoc [of CR "s @ t"] trim_end_visible [of t s]
  by (simp add: crlf_def crlf_space)

section \<open>Reading what was written\<close>

lemma line_loop_line:
  "LF \<notin> set l \<Longrightarrow> length b + length l + 1 \<le> cap \<Longrightarrow>
     line_loop cap b (l @ LF # r, br) = (Ok (b @ l @ [LF]), (r, br))"
  by (induction l arbitrary: b) auto

lemma read_line_capped_line:
  assumes "LF \<notin> set l" and "length l + 2 \<le> cap" and "utf8_valid (to_bytes l)"
  shows "read_line_capped cap (l @ crlf @ r, br) = (Ok (l @ crlf, length l + 2), (r, br))"
proof -
  have "line_loop cap [] ((l @ [CR]) @ LF # r, br) = (Ok ([] @ (l @ [CR]) @ [LF]), (r, br))"
    by (rule line_loop_line) (use assms in auto)
  moreover have "utf8_valid (to_bytes (l @ crlf))"
    using utf8_valid_append [OF assms(3) ascii_valid [of crlf]] by (simp add: crlf_def CR_def LF_def)
  ultimately show ?thesis by (simp add: read_line_capped_def crlf_def lossy_id)
qed

definition header_ok :: "string \<times> string \<Rightarrow> bool" where
  "header_ok kv \<longleftrightarrow> (case kv of (k, v) \<Rightarrow>
     CR \<notin> set k \<and> LF \<notin> set k \<and> CR \<notin> set v \<and> LF \<notin> set v \<and> CHR '':'' \<notin> set k \<and>
     trim k = k \<and> trim v = v \<and> trim_start v = v \<and> utf8_valid (to_bytes k) \<and> utf8_valid (to_bytes v) \<and>
     length (header_line kv) \<le> MAX_LINE_BYTES)"

definition head_size :: "HeaderMap \<Rightarrow> nat" where
  "head_size hs = length (concat (map header_line hs))"

lemma trim_end_crlf_line:
  assumes "c \<noteq> CR" "c \<noteq> LF"
  shows "trim_end_crlf (s @ [c] @ crlf) = s @ [c]"
  using assms by (simp add: trim_end_crlf_def crlf_def)

lemma header_line_strip:
  assumes "header_ok (k, v)"
  shows "trim_end_crlf (header_line (k, v)) = k @ '': '' @ v"
proof -
  obtain s c where sc: "k @ '': '' @ v = s @ [c]" "c \<noteq> CR" "c \<noteq> LF"
  proof (cases v rule: rev_cases)
    case Nil
    then show ?thesis using that [of "k @ '':''" "CHR '' ''"] by (simp add: CR_def LF_def)
  next
    case (snoc v' d)
    then show ?thesis using that [of "k @ '': '' @ v'" d] assms by (auto simp: header_ok_def)
  qed
  have "header_line (k, v) = s @ [c] @ crlf" using sc(1) by (simp add: header_line_def)
  then show ?thesis using trim_end_crlf_line [OF sc(2,3), of s] sc(1) by simp
qed

lemma header_line_split:
  assumes "header_ok (k, v)"
  shows "split_once (CHR '':'') (k @ '': '' @ v) = Some (k, CHR '' '' # v)"
  using assms by (simp add: split_once_Some header_ok_def)

lemma trim_space: "header_ok (k, v) \<Longrightarrow> trim (CHR '' '' # v) = v"
  using trim_start_Cons [of "CHR '' ''" v] by (auto simp: trim_def header_ok_def crlf_space)

lemma headers_loop_lines:
  assumes "list_all header_ok hs" and "count + length hs \<le> MAX_HEADERS"
    and "tot + head_size hs + 2 \<le> MAX_HEADER_TOTAL_BYTES"
  shows "headers_loop tot count h (concat (map header_line hs) @ crlf @ r, br) = (Ok (h @ hs), (r, br))"
  using assms
proof (induction hs arbitrary: tot count h)
  case Nil
  have "read_line_capped MAX_LINE_BYTES (crlf @ r, br) = (Ok (crlf, 2), (r, br))"
    using read_line_capped_line [of "[]" MAX_LINE_BYTES r br] by (simp add: MAX_LINE_BYTES_def)
  moreover have "trim_end_crlf crlf = []" by (simp add: trim_end_crlf_def crlf_def)
  ultimately show ?case using Nil by (subst headers_loop.simps) (simp add: head_size_def)
next
  case (Cons kv hs)
  obtain k v where kv: "kv = (k, v)" by (cases kv)
  have ok: "header_ok (k, v)" using Cons.prems(1) kv by simp
  let ?r = "concat (map header_line hs) @ crlf @ r"
  have len: "length (k @ '': '' @ v) + 2 = length (header_line (k, v))"
    by (simp add: header_line_def crlf_def)
  have valid: "utf8_valid (to_bytes (k @ '': '' @ v))"
    using utf8_valid_append [OF _ utf8_valid_append [OF ascii_valid [of "'': ''"]], of "to_bytes k" "to_bytes v"] ok
    by (simp add: header_ok_def)
  have "read_line_capped MAX_LINE_BYTES ((k @ '': '' @ v) @ crlf @ ?r, br) =
      (Ok ((k @ '': '' @ v) @ crlf, length (k @ '': '' @ v) + 2), (?r, br))"
    by (rule read_line_capped_line [OF _ _ valid]) (use ok len in \<open>auto simp: header_ok_def LF_def\<close>)
  then have rd: "read_line_capped MAX_LINE_BYTES (concat (map header_line (kv # hs)) @ crlf @ r, br) =
      (Ok (header_line (k, v), length (header_line (k, v))), (?r, br))"
    using len by (simp add: kv header_line_def)
  have ne: "header_line (k, v) \<noteq> []" by (simp add: header_line_def)
  have app: "header_append h k v = h @ [(k, v)]"
    using ok by (simp add: header_append_def strip_crlf_id header_ok_def)
  have sz: "head_size (kv # hs) = length (header_line (k, v)) + head_size hs" by (simp add: head_size_def kv)
  have "headers_loop tot count h (concat (map header_line (kv # hs)) @ crlf @ r, br) =
      headers_loop (tot + length (header_line (k, v))) (count + 1) (h @ [(k, v)]) (?r, br)"
    using rd Cons.prems(2,3) sz ok len header_line_strip [OF ok] header_line_split [OF ok] trim_space [OF ok] app ne
    by (subst headers_loop.simps) (simp add: header_ok_def)
  also have "\<dots> = (Ok ((h @ [(k, v)]) @ hs), (r, br))"
    by (rule Cons.IH) (use Cons.prems sz in simp_all)
  finally show ?case by (simp add: kv)
qed

definition wire_headers :: "Request \<Rightarrow> HeaderMap" where
  "wire_headers req =
     (if header_contains (headers req) ''host'' then [] else [(''Host'', authority (uri req))]) @ headers req @
     (if body req \<noteq> [] \<and> \<not> header_contains (headers req) ''content-length''
      then [(''Content-Length'', decimal (length (body req)))] else [])"

definition request_line :: "Request \<Rightarrow> string" where
  "request_line req = method_str (req_method req) @ '' '' @ request_target (uri req) @ '' HTTP/1.1''"

lemma write_request_eq:
  "write_request req = request_line req @ crlf @ concat (map header_line (wire_headers req)) @ crlf @ body req"
  by (simp add: write_request_def request_line_def wire_headers_def header_line_def)

text \<open>A request the client may send: visible method and target, header lines that survive parsing, within
  the limits of the head.\<close>

definition head_ok :: "Request \<Rightarrow> bool" where
  "head_ok req \<longleftrightarrow> method_parse (method_str (req_method req)) = req_method req \<and>
     visible (method_str (req_method req)) \<and> visible (request_target (uri req)) \<and>
     length (request_line req) + 2 \<le> MAX_LINE_BYTES \<and> list_all header_ok (wire_headers req) \<and>
     length (wire_headers req) \<le> MAX_HEADERS \<and> head_size (wire_headers req) + 2 \<le> MAX_HEADER_TOTAL_BYTES"

lemma read_request_head_written:
  assumes "head_ok req"
  shows "read_request_head (write_request req @ r, br) =
    (Ok (req_method req, request_target (uri req), wire_headers req), (body req @ r, br))"
proof -
  let ?m = "method_str (req_method req)" and ?t = "request_target (uri req)"
  let ?rest = "concat (map header_line (wire_headers req)) @ crlf @ body req @ r"
  have vis: "visible ?m" "visible ?t" using assms by (simp_all add: head_ok_def)
  have v1: "visible ''HTTP/1.1''" by (simp add: visible_def)
  have line: "request_line req = ?m @ CHR '' '' # ?t @ CHR '' '' # ''HTTP/1.1''" by (simp add: request_line_def)
  have "utf8_valid (to_bytes (?m @ '' '' @ ?t @ '' '' @ ''HTTP/1.1''))"
    using vis v1 by (simp only: to_bytes_append) (intro utf8_valid_append visible_valid ascii_valid; simp)
  then have valid: "utf8_valid (to_bytes (request_line req))" by (simp add: line)
  have "read_line_capped MAX_LINE_BYTES (request_line req @ crlf @ ?rest, br) =
      (Ok (request_line req @ crlf, length (request_line req) + 2), (?rest, br))"
    by (rule read_line_capped_line [OF _ _ valid])
      (use assms vis visible_clean in \<open>auto simp: head_ok_def line LF_def\<close>)
  moreover have "write_request req @ r = request_line req @ crlf @ ?rest" by (simp add: write_request_eq)
  moreover have "trim_end (request_line req @ crlf) = request_line req"
    using trim_end_crlf_visible [OF v1, of "?m @ CHR '' '' # ?t @ '' ''"] by (simp add: line)
  moreover have "split_on (CHR '' '') (request_line req) = [?m, ?t, ''HTTP/1.1'']"
    using split_on_clean [of "CHR '' ''" ?m "?t @ CHR '' '' # ''HTTP/1.1''"] split_on_clean [of "CHR '' ''" ?t "''HTTP/1.1''"]
      split_on_last [of "CHR '' ''" "''HTTP/1.1''"] visible_clean [OF vis(1)] visible_clean [OF vis(2)]
    by (simp add: line)
  moreover have "read_headers (?rest, br) = (Ok (wire_headers req), (body req @ r, br))"
    using headers_loop_lines [of "wire_headers req" 0 0 "[]" "body req @ r" br] assms
    by (simp add: read_headers_def head_ok_def)
  ultimately show ?thesis using assms by (simp add: read_request_head_def head_ok_def)
qed

section \<open>Bodies\<close>

lemma read_n_exact: "length b = n \<Longrightarrow> read_n n (b @ r, br) = (Ok b, (r, br))"
  by (auto simp: read_n_def)

lemma read_line_line:
  assumes "LF \<notin> set l" and "utf8_valid (to_bytes l)"
  shows "read_line (l @ crlf @ r, br) = (Ok (l @ crlf), (r, br))"
proof -
  have tw: "takeWhile (\<lambda>c. c \<noteq> LF) (l @ crlf @ r) = l @ [CR]" "dropWhile (\<lambda>c. c \<noteq> LF) (l @ crlf @ r) = LF # r"
    using assms(1) by (auto simp: crlf_def takeWhile_append dropWhile_append)
  have "utf8_valid (to_bytes (l @ crlf))"
    using utf8_valid_append [OF assms(2) ascii_valid [of crlf]] by (simp add: crlf_def CR_def LF_def)
  then show ?thesis using tw by (simp add: read_line_def Let_def crlf_def)
qed

lemma hex_alphabet: "list_all (\<lambda>d. hex_value (''0123456789ABCDEF'' ! d) = Some d \<and>
    32 < (of_char (''0123456789ABCDEF'' ! d) :: nat) \<and> of_char (''0123456789ABCDEF'' ! d) < (127 :: nat) \<and>
    ''0123456789ABCDEF'' ! d \<notin> {CHR ''+'', CHR '';''}) [0..<16]"
  by (simp add: upt_rec hex_value_def)

lemma hex_digit_facts:
  assumes "d < 16"
  shows "hex_value (''0123456789ABCDEF'' ! d) = Some d" "visible [''0123456789ABCDEF'' ! d]"
    "''0123456789ABCDEF'' ! d \<noteq> CHR ''+''" "''0123456789ABCDEF'' ! d \<noteq> CHR '';''"
  using hex_alphabet assms by (auto simp: list_all_iff visible_def)

lemma hex_digits_append:
  "hex_digits a (s @ t) = (case hex_digits a s of None \<Rightarrow> None | Some b \<Rightarrow> hex_digits b t)"
  by (induction a s rule: hex_digits.induct) (auto split: option.split)

lemma hex_digits_upper: "hex_digits 0 (upper_hex n) = Some n"
proof (induction n rule: upper_hex.induct)
  case (1 n)
  show ?case
  proof (cases "n < 16")
    case True
    then show ?thesis by (subst upper_hex.simps) (simp add: hex_digit_facts)
  next
    case False
    then show ?thesis using 1 by (subst upper_hex.simps) (simp add: hex_digits_append hex_digit_facts)
  qed
qed

lemma upper_hex_shape: "visible (upper_hex n) \<and> upper_hex n \<noteq> [] \<and> CHR ''+'' \<notin> set (upper_hex n) \<and> CHR '';'' \<notin> set (upper_hex n)"
proof (induction n rule: upper_hex.induct)
  case (1 n)
  have d: "n mod 16 < 16" by simp
  show ?case
  proof (cases "n < 16")
    case True
    show ?thesis using hex_digit_facts [OF True] True by (subst (1 2 3 4) upper_hex.simps) auto
  next
    case False
    then show ?thesis using 1 hex_digit_facts [OF d]
      by (subst (1 2 3 4) upper_hex.simps) (auto simp: visible_def)
  qed
qed

lemma chunk_size_upper: "chunk_size_text (upper_hex n @ crlf) = upper_hex n"
proof -
  have v: "visible (upper_hex n)" "upper_hex n \<noteq> []" "CHR '';'' \<notin> set (upper_hex n)"
    using upper_hex_shape by auto
  obtain c t where ct: "upper_hex n = c # t" using v(2) by (cases "upper_hex n") auto
  have "32 < (of_char c :: nat) \<and> of_char c < (127 :: nat)" using v(1) ct by (simp add: visible_def)
  then have "trim_start (upper_hex n @ crlf) = upper_hex n @ crlf"
    using trim_start_Cons [of c "t @ crlf"] visible_char ct by simp
  then have "trim (upper_hex n @ crlf) = upper_hex n"
    using trim_end_crlf_visible [OF v(1,2), of "[]"] by (simp add: trim_def)
  then show ?thesis using split_on_last [OF v(3)] trim_visible [OF v(1)] by (simp add: chunk_size_text_def)
qed

lemma parse_hex_upper: "n < 2 ^ 64 \<Longrightarrow> parse_hex (upper_hex n) = Some n"
  using upper_hex_shape [of n] hex_digits_upper [of n]
  by (auto simp: parse_hex_def strip_plus_def Let_def split: list.splits)

lemma skip_trailers_blank: "skip_trailers (crlf @ r, br) = (Ok (), (r, br))"
proof -
  have "read_line (crlf @ r, br) = (Ok crlf, (r, br))" using read_line_line [of "[]" r br] by simp
  moreover have "trim crlf = []"
    using trim_start_Cons [of CR "[LF]"] trim_start_Cons [of LF "[]"] by (simp add: trim_def crlf_def crlf_space)
  ultimately show ?thesis by (subst skip_trailers.simps) simp
qed

lemma upper_hex_zero: "upper_hex 0 = ''0''"
  by (subst upper_hex.simps) simp

lemma read_size_line: "read_line (upper_hex n @ crlf @ r, br) = (Ok (upper_hex n @ crlf), (r, br))"
  using read_line_line [of "upper_hex n" r br] upper_hex_shape [of n] visible_clean visible_valid by blast

lemma chunked_loop_written:
  assumes "length acc + length (concat cs) \<le> mx" and "mx < 2 ^ 64"
  shows "chunked_loop mx acc (write_chunks cs @ r, br) = (Ok (Some (acc @ concat cs)), (r, br))"
  using assms(1)
proof (induction cs arbitrary: acc)
  case Nil
  have "read_line (write_chunks [] @ r, br) = (Ok (''0'' @ crlf), (crlf @ r, br))"
    using read_size_line [of 0 "crlf @ r" br] by (simp add: upper_hex_zero)
  moreover have "parse_hex (chunk_size_text (''0'' @ crlf)) = Some 0"
    using parse_hex_upper [of 0] chunk_size_upper [of 0] by (simp add: upper_hex_zero)
  ultimately show ?case using skip_trailers_blank [of r br] by (subst chunked_loop.simps) simp
next
  case (Cons c cs)
  show ?case
  proof (cases "c = []")
    case True
    then show ?thesis using Cons by simp
  next
    case False
    let ?r = "write_chunks cs @ r"
    have w: "write_chunks (c # cs) @ r = upper_hex (length c) @ crlf @ (c @ crlf @ ?r)" using False by simp
    have rl: "read_line (write_chunks (c # cs) @ r, br) = (Ok (upper_hex (length c) @ crlf), (c @ crlf @ ?r, br))"
      unfolding w by (rule read_size_line)
    have sz: "parse_hex (chunk_size_text (upper_hex (length c) @ crlf)) = Some (length c)"
      unfolding chunk_size_upper by (rule parse_hex_upper) (use Cons.prems assms(2) in simp)
    have n1: "read_n (length c) (c @ crlf @ ?r, br) = (Ok c, (crlf @ ?r, br))" by (rule read_n_exact) simp
    have n2: "read_n 2 (crlf @ ?r, br) = (Ok crlf, (?r, br))" by (rule read_n_exact) (simp add: crlf_def)
    have small: "\<not> mx < length acc + length c" using Cons.prems by simp
    have "chunked_loop mx acc (write_chunks (c # cs) @ r, br) = chunked_loop mx (acc @ c) (?r, br)"
      using rl sz n1 n2 small False by (subst chunked_loop.simps) (simp add: crlf_def)
    then show ?thesis using Cons.IH [of "acc @ c"] Cons.prems by simp
  qed
qed

section \<open>One request on the server\<close>

lemma header_get_None: "header_get h n = None \<longleftrightarrow> \<not> header_contains h n"
  by (induction h) (auto simp: header_get_def header_contains_def)

lemma header_contains_append [simp]: "header_contains (a @ b) n \<longleftrightarrow> header_contains a n \<or> header_contains b n"
  by (simp add: header_contains_def)

lemma length_values_append [simp]: "length_values (a @ b) = length_values a @ length_values b"
  by (induction a) (auto simp: length_values_def)

lemma length_values_none: "\<not> header_contains h ''content-length'' \<Longrightarrow> length_values h = []"
  by (induction h) (auto simp: header_contains_def)

lemma names:
  "\<not> eq_ignore_ascii_case ''Host'' ''content-length''" "eq_ignore_ascii_case ''Content-Length'' ''content-length''"
  "\<not> eq_ignore_ascii_case ''Host'' ''transfer-encoding''" "\<not> eq_ignore_ascii_case ''Content-Length'' ''transfer-encoding''"
  by code_simp+

text \<open>The body is announced by the length the client adds.\<close>

definition body_ok :: "ServerConfig \<Rightarrow> Request \<Rightarrow> bool" where
  "body_ok cfg req \<longleftrightarrow> \<not> header_contains (headers req) ''content-length'' \<and>
     \<not> header_contains (headers req) ''transfer-encoding'' \<and>
     length (body req) \<le> max_body_bytes cfg \<and> length (body req) < 2 ^ 64"

lemma wire_lengths:
  assumes "body_ok cfg req"
  shows "content_length_checked (wire_headers req) = Ok (if body req = [] then None else Some (length (body req)))"
proof -
  have "parse_u64 (trim (decimal (length (body req)))) = Some (of_nat (length (body req)))"
    using assms trim_visible [OF digits_visible [OF digits_of_decimal]] by (simp add: parse_u64_decimal body_ok_def)
  moreover have "unat (of_nat (length (body req)) :: u64) = length (body req)"
    using assms by (simp add: unsigned_of_nat take_bit_nat_eq_self body_ok_def)
  moreover have "length_values (headers req) = []" using assms by (simp add: length_values_none body_ok_def)
  ultimately have lv: "length_values (wire_headers req) = (if body req = [] then [] else [Some (of_nat (length (body req)))])"
    using assms by (simp add: wire_headers_def names body_ok_def)
  show ?thesis
    using content_length_checked_iff(1) [of "wire_headers req" "length (body req)"]
      content_length_checked_iff(2) [of "wire_headers req"] lv
      \<open>unat (of_nat (length (body req)) :: u64) = length (body req)\<close> by simp
qed

lemma wire_not_chunked: "body_ok cfg req \<Longrightarrow> \<not> is_chunked (wire_headers req)"
  using header_get_None [of "wire_headers req" "''transfer-encoding''"]
  by (auto simp: is_chunked_def body_ok_def wire_headers_def header_contains_def names split: option.splits if_splits)

text \<open>The request as the handler sees it.\<close>

definition server_view :: "Request \<Rightarrow> Request" where
  "server_view req =
     \<lparr>req_method = req_method req,
      uri = \<lparr>scheme = [], host = (case header_get (wire_headers req) ''host'' of Some x \<Rightarrow> x | None \<Rightarrow> []), port = 0,
             path = fst (split_target (request_target (uri req))), query = snd (split_target (request_target (uri req)))\<rparr>,
      headers = wire_headers req, body = body req\<rparr>"

definition reply :: "ServerConfig \<Rightarrow> (Request \<Rightarrow> HttpResponse) \<Rightarrow> nat \<Rightarrow> Request \<Rightarrow> string" where
  "reply cfg handler served req =
     (if body req \<noteq> [] \<and> expects_continue (wire_headers req) then ''HTTP/1.1 100 Continue'' @ crlf @ crlf else []) @
     write_response (handler (server_view req)) (req_method req)
       (wants_keep_alive (wire_headers req) \<and> served < max_keep_alive_requests cfg)"

lemma handle_one_written:
  assumes "body_ok cfg req"
  shows "handle_one cfg handler (req_method req, request_target (uri req), wire_headers req) served (body req @ r, br) =
    (reply cfg handler served req, [server_view req], Ok (wants_keep_alive (wire_headers req)), (r, br))"
proof -
  have nc: "\<not> is_chunked (wire_headers req)" by (rule wire_not_chunked [OF assms])
  let ?cl = "if body req = [] then None else Some (length (body req))"
  have rb: "read_body cfg (wire_headers req) ?cl (body req @ r, br) = (Body (body req), (r, br))"
    using nc assms read_n_exact [of "body req" "length (body req)" r br] by (simp add: read_body_def body_ok_def)
  have hb: "(is_chunked (wire_headers req) \<or> (case ?cl of Some n \<Rightarrow> n > 0 | None \<Rightarrow> False)) = (body req \<noteq> [])"
    using nc by simp
  show ?thesis
    unfolding handle_one_def wire_lengths [OF assms] prod.case sum.case rb body_read.case
    using nc hb by (simp add: Let_def reply_def server_view_def)
qed

text \<open>Pipelined requests: the handler sees exactly those sent, in order, up to the first that does not keep
  the connection alive and to the cap.\<close>

fun replies :: "ServerConfig \<Rightarrow> (Request \<Rightarrow> HttpResponse) \<Rightarrow> nat \<Rightarrow> Request list \<Rightarrow> string \<times> Request list" where
  "replies cfg handler served [] = ([], [])"
| "replies cfg handler served (req # reqs) =
     (if wants_keep_alive (wire_headers req) \<and> served + 1 < max_keep_alive_requests cfg then
        (reply cfg handler (served + 1) req @ fst (replies cfg handler (served + 1) reqs),
         server_view req # snd (replies cfg handler (served + 1) reqs))
      else (reply cfg handler (served + 1) req, [server_view req]))"

lemma read_request_head_empty: "\<exists>e s'. read_request_head ([], br) = (Err e, s')"
  by (cases "read_request_head ([], br)") (cases br; auto simp: read_request_head_def read_line_capped_def)

lemma serve_conn_written:
  assumes "list_all (\<lambda>req. head_ok req \<and> body_ok cfg req) reqs"
  shows "serve_conn cfg handler (\<lambda>_. False) served (concat (map write_request reqs), br) = replies cfg handler served reqs"
  using assms
proof (induction reqs arbitrary: served)
  case Nil
  obtain e s' where "read_request_head ([], br) = (Err e, s')" using read_request_head_empty by blast
  then show ?case by (subst serve_conn.simps) simp
next
  case (Cons req reqs)
  let ?r = "concat (map write_request reqs)"
  have h: "read_request_head (write_request req @ ?r, br) =
      (Ok (req_method req, request_target (uri req), wire_headers req), (body req @ ?r, br))"
    by (rule read_request_head_written) (use Cons.prems in simp)
  have o: "handle_one cfg handler (req_method req, request_target (uri req), wire_headers req) (served + 1) (body req @ ?r, br) =
      (reply cfg handler (served + 1) req, [server_view req], Ok (wants_keep_alive (wire_headers req)), (?r, br))"
    by (rule handle_one_written) (use Cons.prems in simp)
  have ih: "serve_conn cfg handler (\<lambda>_. False) (served + 1) (?r, br) = replies cfg handler (served + 1) reqs"
    by (rule Cons.IH) (use Cons.prems in simp)
  show ?case
    using h o ih by (subst serve_conn.simps) (simp add: case_prod_unfold)
qed

section \<open>Bounds on what a connection can cause\<close>

lemma headers_loop_bounds:
  assumes "headers_loop tot count h s = (Ok hs, s')" and "tot \<le> MAX_HEADER_TOTAL_BYTES"
    and "length h \<le> count" and "count \<le> MAX_HEADERS" and "no_breaks h"
  shows "length hs \<le> MAX_HEADERS \<and> no_breaks hs \<and> tot + length (fst s) \<le> MAX_HEADER_TOTAL_BYTES + length (fst s')"
  using assms
proof (induction tot count h s arbitrary: hs s' rule: headers_loop.induct)
  case (1 tot count h s)
  obtain line n s1 where r: "read_line_capped MAX_LINE_BYTES s = (Ok (line, n), s1)"
    using "1.prems"(1) by (subst (asm) headers_loop.simps) (auto split: prod.splits sum.splits)
  have cons: "length (fst s1) + n = length (fst s)" by (rule read_line_capped_consumes [OF r])
  let ?h = "case split_once (CHR '':'') (trim_end_crlf line) of
    Some (k, v) \<Rightarrow> header_append h (trim k) (trim v) | None \<Rightarrow> h"
  consider (stop) "hs = h" "s' = s1" "tot + n \<le> MAX_HEADER_TOTAL_BYTES"
    | (more) "n \<noteq> 0" "tot + n \<le> MAX_HEADER_TOTAL_BYTES" "trim_end_crlf line \<noteq> []" "count + 1 \<le> MAX_HEADERS"
        "headers_loop (tot + n) (count + 1) ?h s1 = (Ok hs, s')"
    using "1.prems"(1,2) r by (subst (asm) headers_loop.simps) (auto split: if_splits)
  then show ?case
  proof cases
    case stop
    then show ?thesis using "1.prems" cons by simp
  next
    case more
    have h: "length ?h \<le> count + 1" "no_breaks ?h"
      using "1.prems"(3,5) no_breaks_append by (auto simp: header_append_def split: option.split)
    have "length hs \<le> MAX_HEADERS \<and> no_breaks hs \<and> tot + n + length (fst s1) \<le> MAX_HEADER_TOTAL_BYTES + length (fst s')"
      by (rule "1.IH" [OF r [symmetric] refl refl _ _ _ _ more(5)]) (use more h in simp_all)
    then show ?thesis using cons by simp
  qed
qed

text \<open>
  The size of a header block as the handler sees it: the bytes of its names and values. A line is decoded lossily, which can
  make three bytes of one.
\<close>

definition header_bytes :: "HeaderMap \<Rightarrow> nat" where
  "header_bytes h = sum_list (map (\<lambda>(k, v). length k + length v) h)"

lemma drop_prefixes_suffix: "suffix (drop_prefixes ws x) x"
proof (induction ws x rule: drop_prefixes.induct)
  case (1 ws x)
  then show ?case by (subst drop_prefixes.simps) (auto split: option.split intro: suffix_order.trans suffix_drop)
qed

lemma trim_end_prefix: "prefix (trim_end s) s"
  using drop_prefixes_suffix [of "map rev white_space" "rev s"] by (simp add: trim_end_def suffix_to_prefix)

lemma trim_sublist: "sublist (trim s) s"
proof -
  have "prefix (trim s) (trim_start s)" by (simp add: trim_def trim_end_prefix)
  moreover have "suffix (trim_start s) s" by (simp add: trim_start_def drop_prefixes_suffix)
  ultimately show ?thesis by (meson prefix_imp_sublist suffix_imp_sublist sublist_order.order_trans)
qed

lemma append_header_bytes: "header_bytes (header_append h k v) \<le> header_bytes h + length k + length v"
proof -
  have "length (strip_crlf s) \<le> length s" for s by (simp add: strip_crlf_def)
  from this [of k] this [of v] show ?thesis by (simp add: header_append_def header_bytes_def)
qed

lemma line_header_bytes:
  "header_bytes (case split_once (CHR '':'') (trim_end_crlf line) of
     Some (k, v) \<Rightarrow> header_append h (trim k) (trim v) | None \<Rightarrow> h) \<le> header_bytes h + length line"
proof (cases "split_once (CHR '':'') (trim_end_crlf line)")
  case (Some kv)
  obtain k v where kv: "kv = (k, v)" by (cases kv)
  have "trim_end_crlf line = k @ CHR '':'' # v" using Some kv by (simp add: split_once_Some)
  moreover have "length (trim_end_crlf line) \<le> length line"
    using length_dropWhile_le [of _ "rev line"] by (simp add: trim_end_crlf_def)
  ultimately have "length k + length v \<le> length line" by simp
  moreover have "length (trim s) \<le> length s" for s by (rule sublist_length_le [OF trim_sublist])
  from this [of k] this [of v]
  have "header_bytes (header_append h (trim k) (trim v)) \<le> header_bytes h + length k + length v"
    using append_header_bytes [of h "trim k" "trim v"] by linarith
  ultimately show ?thesis using Some kv by simp
qed simp

lemma headers_loop_total:
  "headers_loop tot count h s = (Ok hs, s') \<Longrightarrow> header_bytes h \<le> 3 * tot \<Longrightarrow> tot \<le> MAX_HEADER_TOTAL_BYTES \<Longrightarrow>
     header_bytes hs \<le> 3 * MAX_HEADER_TOTAL_BYTES"
proof (induction tot count h s arbitrary: hs s' rule: headers_loop.induct)
  case (1 tot count h s)
  obtain line n s1 where r: "read_line_capped MAX_LINE_BYTES s = (Ok (line, n), s1)"
    using "1.prems"(1) by (subst (asm) headers_loop.simps) (auto split: prod.splits sum.splits)
  let ?h = "case split_once (CHR '':'') (trim_end_crlf line) of
    Some (k, v) \<Rightarrow> header_append h (trim k) (trim v) | None \<Rightarrow> h"
  have "length (lossy x) \<le> 3 * length x" for x
    using length_utf8_lossy [of "to_bytes x"] by (simp add: lossy_def of_bytes_def to_bytes_def)
  then have "length line \<le> 3 * n"
    using r unfolding read_line_capped_def by (auto split: prod.splits sum.splits)
  then have h: "header_bytes ?h \<le> 3 * (tot + n)" using line_header_bytes [of h line] "1.prems"(2) by simp
  consider (stop) "hs = h" | (more) "n \<noteq> 0" "tot + n \<le> MAX_HEADER_TOTAL_BYTES" "trim_end_crlf line \<noteq> []"
      "count + 1 \<le> MAX_HEADERS" "headers_loop (tot + n) (count + 1) ?h s1 = (Ok hs, s')"
    using "1.prems"(1) r by (subst (asm) headers_loop.simps) (auto split: if_splits)
  then show ?case
  proof cases
    case stop
    then show ?thesis using "1.prems"(2,3) by simp
  next
    case more
    show ?thesis by (rule "1.IH" [OF r [symmetric] refl refl _ _ _ _ more(5) h]) (use more in simp_all)
  qed
qed

lemma line_loop_cap: "line_loop cap b s = (Ok l, s') \<Longrightarrow> length b \<le> cap \<Longrightarrow> length l \<le> cap"
  by (induction cap b s rule: line_loop.induct) (auto split: if_splits)

lemma read_request_head_bounds:
  assumes "read_request_head s = (Ok (m, t, h), s')"
  shows "length h \<le> MAX_HEADERS \<and> header_bytes h \<le> 3 * MAX_HEADER_TOTAL_BYTES \<and> no_breaks h \<and>
    length (fst s) \<le> MAX_LINE_BYTES + MAX_HEADER_TOTAL_BYTES + length (fst s')"
proof -
  obtain line n s1 where r: "read_line_capped MAX_LINE_BYTES s = (Ok (line, n), s1)"
    and h: "headers_loop 0 0 [] s1 = (Ok h, s')"
    using assms by (auto simp: read_request_head_def read_headers_def split: prod.splits sum.splits if_splits list.splits)
  have "length h \<le> MAX_HEADERS \<and> no_breaks h \<and> 0 + length (fst s1) \<le> MAX_HEADER_TOTAL_BYTES + length (fst s')"
    by (rule headers_loop_bounds [OF h]) (simp_all add: no_breaks_def)
  moreover have "n \<le> MAX_LINE_BYTES"
    using r by (auto simp: read_line_capped_def split: prod.splits sum.splits dest: line_loop_cap)
  moreover have "header_bytes h \<le> 3 * MAX_HEADER_TOTAL_BYTES"
    by (rule headers_loop_total [OF h]) (simp_all add: header_bytes_def)
  ultimately show ?thesis using read_line_capped_consumes [OF r] by simp
qed

lemma chunked_loop_bound:
  "chunked_loop mx acc s = (Ok (Some b), s') \<Longrightarrow> length acc \<le> mx \<Longrightarrow> mx < 2 ^ 64 - 1 \<Longrightarrow> length b \<le> mx"
proof (induction mx acc s arbitrary: b s' rule: chunked_loop.induct)
  case (1 mx acc s)
  obtain line s1 where r: "read_line s = (Ok line, s1)"
    using "1.prems"(1) by (subst (asm) chunked_loop.simps) (auto split: prod.splits sum.splits)
  then obtain sz where sz: "line \<noteq> []" "parse_hex (chunk_size_text line) = Some sz"
    using "1.prems"(1) by (subst (asm) chunked_loop.simps) (auto split: prod.splits if_splits option.splits)
  consider (last) "b = acc" | (more) x d s2 s3 where "sz \<noteq> 0" "\<not> min (length acc + sz) (2 ^ 64 - 1) > mx"
      "read_n sz s1 = (Ok x, s2)" "read_n 2 s2 = (Ok d, s3)" "chunked_loop mx (acc @ x) s3 = (Ok (Some b), s')"
    using "1.prems"(1) r sz by (subst (asm) chunked_loop.simps) (auto split: prod.splits if_splits option.splits sum.splits)
  then show ?case
  proof cases
    case last
    then show ?thesis using "1.prems"(2) by simp
  next
    case more
    have "length (acc @ x) \<le> mx" using more(2) read_n_consumes [OF more(3)] "1.prems"(3) by (auto simp: min_def split: if_splits)
    then show ?thesis
      using "1.IH" [OF r [symmetric] refl sz more(1,2) more(3) [symmetric] refl more(4) [symmetric] refl more(5)] "1.prems"(3) by blast
  qed
qed

definition request_bounded :: "ServerConfig \<Rightarrow> Request \<Rightarrow> bool" where
  "request_bounded cfg req \<longleftrightarrow> length (headers req) \<le> MAX_HEADERS \<and>
     header_bytes (headers req) \<le> 3 * MAX_HEADER_TOTAL_BYTES \<and> no_breaks (headers req) \<and>
     length (body req) \<le> max_body_bytes cfg"

text \<open>
  What a request says about the length of its body, as HTTP defines it: the values of all its Content-Length headers, and
  whether one of its Transfer-Encoding headers lists the coding \<^verbatim>\<open>chunked\<close>.
\<close>

definition codings :: "HeaderMap \<Rightarrow> string list" where
  "codings h = map snd (filter (\<lambda>(k, _). eq_ignore_ascii_case k ''transfer-encoding'') h)"

definition lists_chunked :: "string \<Rightarrow> bool" where
  "lists_chunked v \<longleftrightarrow> ''chunked'' \<in> set (map (\<lambda>x. to_ascii_lowercase (trim x)) (split_on (CHR '','') v))"

text \<open>
  A request is framed if its Content-Length headers agree on one number, which is then the length of its body, a chunked
  coding comes without any, and with neither header there is no body. Of requests with more than one Transfer-Encoding
  header nothing is said about the coding: see \<open>chunked_first_only\<close> below.
\<close>

definition framed :: "Request \<Rightarrow> bool" where
  "framed req \<longleftrightarrow>
     (\<exists>n. list_all (\<lambda>v. \<exists>w. v = Some w \<and> unat w = n) (length_values (headers req)) \<and>
        (length_values (headers req) \<noteq> [] \<longrightarrow> length (body req) = n)) \<and>
     (length (codings (headers req)) \<le> 1 \<and> list_ex lists_chunked (codings (headers req)) \<longrightarrow> length_values (headers req) = []) \<and>
     (length_values (headers req) = [] \<and> codings (headers req) = [] \<longrightarrow> body req = [])"

lemma lists_chunked_sublist: "lists_chunked v \<Longrightarrow> sublist ''chunked'' (to_ascii_lowercase v)"
proof -
  assume "lists_chunked v"
  then obtain x where x: "x \<in> set (split_on (CHR '','') v)" "''chunked'' = to_ascii_lowercase (trim x)"
    by (auto simp: lists_chunked_def)
  have "prefix (hd (split_on c s)) s \<and> (\<forall>y \<in> set (split_on c s). sublist y s)" for c s
    by (induction s) (auto simp: sublist_Cons_right dest: list.set_sel(2) [rotated])
  then have "sublist (trim x) v" using x(1) trim_sublist sublist_order.order_trans by blast
  then show ?thesis unfolding x(2) to_ascii_lowercase_def by (rule map_mono_sublist)
qed

lemma is_chunked_codings: "is_chunked h = (case codings h of [] \<Rightarrow> False | v # _ \<Rightarrow> sublist ''chunked'' (to_ascii_lowercase v))"
  by (induction h) (auto simp: is_chunked_def codings_def header_get_def split: option.splits list.splits)

lemma chunked_header:
  assumes "length (codings h) \<le> 1" and "list_ex lists_chunked (codings h)"
  shows "is_chunked h"
  using assms lists_chunked_sublist by (cases "codings h") (auto simp: is_chunked_codings)

lemma read_body_bound:
  assumes "read_body cfg h cl s = (Body b, s')" and "max_body_bytes cfg < 2 ^ 64 - 1"
  shows "length b \<le> max_body_bytes cfg"
proof (cases "is_chunked h")
  case True
  then show ?thesis using assms chunked_loop_bound [of "max_body_bytes cfg" "[]" s b s']
    by (auto simp: read_body_def read_chunked_body_def split: prod.splits sum.splits option.splits)
next
  case False
  then show ?thesis using assms(1)
    by (auto simp: read_body_def split: prod.splits sum.splits option.splits if_splits dest!: read_n_consumes)
qed

lemma handle_one_reqs:
  assumes "handle_one cfg handler (m, t, h) served s = (w, reqs, res, s')"
  shows "reqs = [] \<or> (\<exists>req cl. reqs = [req] \<and> headers req = h \<and> content_length_checked h = Ok cl \<and>
    (is_chunked h \<longrightarrow> cl = None) \<and> read_body cfg h cl s = (Body (body req), s'))"
proof (cases "content_length_checked h")
  case (Inl e)
  then show ?thesis using assms by (simp add: handle_one_def)
next
  case (Inr cl)
  obtain br s1 where rb: "read_body cfg h cl s = (br, s1)" by (cases "read_body cfg h cl s")
  show ?thesis
    using assms rb Inr by (cases br) (auto simp: handle_one_def Let_def split: if_splits)
qed

lemma read_body_framed:
  assumes "content_length_checked h = Ok cl" and "is_chunked h \<longrightarrow> cl = None" and "read_body cfg h cl s = (Body (body req), s')"
    and "headers req = h"
  shows "framed req"
proof (cases cl)
  case None
  then have "length_values h = []" using assms(1) content_length_checked_iff(2) [of h] by simp
  moreover have "body req = []" if "codings h = []"
    using assms(3) that None by (simp add: read_body_def is_chunked_codings)
  ultimately show ?thesis using assms(4) by (simp add: framed_def)
next
  case (Some n)
  then have lv: "list_all (\<lambda>v. \<exists>w. v = Some w \<and> unat w = n) (length_values h)" "length_values h \<noteq> []"
    and nc: "\<not> is_chunked h"
    using assms(1,2) content_length_checked_iff(1) [of h n] by auto
  have "length (body req) = n"
    using assms(3) nc Some by (auto simp: read_body_def split: if_splits prod.splits sum.splits dest!: read_n_consumes)
  then show ?thesis using lv nc chunked_header [of h] assms(4) by (auto simp: framed_def)
qed

lemma handle_one_ok:
  assumes "handle_one cfg handler (m, t, h) served s = (w, reqs, res, s')"
    and "length h \<le> MAX_HEADERS" "header_bytes h \<le> 3 * MAX_HEADER_TOTAL_BYTES" "no_breaks h" "max_body_bytes cfg < 2 ^ 64 - 1"
  shows "length reqs \<le> 1 \<and> list_all (\<lambda>req. request_bounded cfg req \<and> framed req) reqs"
proof -
  have "request_bounded cfg req \<and> framed req"
    if hyp: "headers req = h" "content_length_checked h = Ok cl" "is_chunked h \<longrightarrow> cl = None"
      "read_body cfg h cl s = (Body (body req), s')" for req cl
  proof -
    have "framed req" by (rule read_body_framed [OF hyp(2,3,4,1)])
    then show ?thesis using read_body_bound [OF hyp(4) assms(5)] assms(2-4) hyp(1) by (simp add: request_bounded_def)
  qed
  then show ?thesis using handle_one_reqs [OF assms(1)] by fastforce
qed

lemma serve_conn_ok:
  "max_body_bytes cfg < 2 ^ 64 - 1 \<Longrightarrow>
     length (snd (serve_conn cfg handler drain served s)) \<le> max 1 (max_keep_alive_requests cfg - served) \<and>
     list_all (\<lambda>req. request_bounded cfg req \<and> framed req) (snd (serve_conn cfg handler drain served s))"
proof (induction cfg handler drain served s rule: serve_conn.induct)
  case (1 cfg handler drain served s)
  show ?case
  proof (cases "drain served \<or> (\<exists>e s1. read_request_head s = (Err e, s1))")
    case True
    then show ?thesis by (subst (1 2) serve_conn.simps) auto
  next
    case False
    then have nd: "\<not> drain served" by simp
    obtain hd' s1 where "read_request_head s = (Ok hd', s1)"
      using False by (metis sum.exhaust surj_pair)
    moreover obtain m t h where hd': "hd' = (m, t, h)" by (cases hd')
    ultimately have rh: "read_request_head s = (Ok (m, t, h), s1)" by simp
    obtain w reqs res s2 where o: "handle_one cfg handler (m, t, h) (served + 1) s1 = (w, reqs, res, s2)"
      by (cases "handle_one cfg handler (m, t, h) (served + 1) s1")
    have ok: "length reqs \<le> 1 \<and> list_all (\<lambda>req. request_bounded cfg req \<and> framed req) reqs"
      using handle_one_ok [OF o] read_request_head_bounds [OF rh] "1.prems" by blast
    show ?thesis
    proof (cases "res = Ok True \<and> served + 1 < max_keep_alive_requests cfg")
      case True
      then have res: "res = Ok True" by simp
      obtain w' reqs' where next': "serve_conn cfg handler drain (served + 1) s2 = (w', reqs')"
        by (cases "serve_conn cfg handler drain (served + 1) s2")
      have "length reqs' \<le> max 1 (max_keep_alive_requests cfg - (served + 1)) \<and>
          list_all (\<lambda>req. request_bounded cfg req \<and> framed req) reqs'"
        using "1.IH" [OF nd rh [symmetric] refl o [symmetric] refl refl res] True "1.prems" next' by simp
      moreover have "serve_conn cfg handler drain served s = (w @ w', reqs @ reqs')"
        using nd rh o True next' by (subst serve_conn.simps) simp
      ultimately show ?thesis using ok True by (auto simp: max_def split: if_splits)
    next
      case no: False
      have "snd (serve_conn cfg handler drain served s) = reqs"
        using nd rh o no by (subst serve_conn.simps) (cases res; auto)
      then show ?thesis using ok by (simp add: le_max_iff_disj)
    qed
  qed
qed

section \<open>The properties\<close>

text \<open>A request used in the witnesses.\<close>

definition sample :: "string \<Rightarrow> Request" where
  "sample b = \<lparr>req_method = Post, uri = \<lparr>scheme = ''http'', host = ''h'', port = 80, path = ''/p'', query = None\<rparr>,
     headers = [(''A'', ''b'')], body = b\<rparr>"

definition small_server :: ServerConfig where
  "small_server = \<lparr>max_body_bytes = 8, max_keep_alive_requests = 2\<rparr>"

lemma visible_header_ok:
  assumes "visible k" "visible v" "CHR '':'' \<notin> set k" "length k + length v + 4 \<le> MAX_LINE_BYTES"
  shows "header_ok (k, v)"
proof -
  have "trim_start v = v"
    using assms(2) trim_start_Cons visible_char by (cases v) (auto simp: visible_def)
  then show ?thesis
    using assms visible_clean visible_valid trim_visible by (auto simp: header_ok_def header_line_def crlf_def)
qed

lemma sample_names:
  "\<not> eq_ignore_ascii_case ''A'' ''host''" "\<not> eq_ignore_ascii_case ''A'' ''content-length''"
  "\<not> eq_ignore_ascii_case ''A'' ''transfer-encoding''" "\<not> eq_ignore_ascii_case ''A'' ''connection''"
  "\<not> eq_ignore_ascii_case ''Host'' ''connection''" "\<not> eq_ignore_ascii_case ''Content-Length'' ''connection''"
  "eq_ignore_ascii_case ''content-length'' ''content-length''"
  by code_simp+

lemma sample_headers:
  "wire_headers (sample b) = [(''Host'', ''h''), (''A'', ''b'')] @ (if b = [] then [] else [(''Content-Length'', decimal (length b))])"
  by (simp add: wire_headers_def sample_def header_contains_def sample_names authority_def is_tls_def)

lemma sample_keep_alive: "wants_keep_alive (wire_headers (sample b))"
  by (simp add: sample_headers wants_keep_alive_def header_get_def sample_names)

lemma sample_ok: "length b < 10 \<Longrightarrow> head_ok (sample b)"
proof -
  assume b: "length b < 10"
  then have d: "length (decimal (length b)) = 1" by (subst decimal.simps) simp
  have "visible (decimal (length b))" by (rule digits_visible [OF digits_of_decimal])
  then have "list_all header_ok (wire_headers (sample b))"
    using d by (simp add: sample_headers) (intro conjI impI visible_header_ok; simp add: visible_def MAX_LINE_BYTES_def)
  moreover have "head_size (wire_headers (sample b)) \<le> 50"
    using d by (simp add: sample_headers head_size_def header_line_def crlf_def)
  ultimately show ?thesis
    by (simp add: head_ok_def sample_def request_line_def request_target_def method_parse_def visible_def MAX_LINE_BYTES_def
        MAX_HEADERS_def MAX_HEADER_TOTAL_BYTES_def sample_headers [unfolded sample_def])
qed

lemma sample_body_ok: "length b \<le> 8 \<Longrightarrow> body_ok small_server (sample b)"
  by (simp add: body_ok_def sample_def small_server_def header_contains_def sample_names)

text \<open>C25: a connection that carries any sequence of pipelined client requests stays in step: the handler sees
  exactly the requests sent, in order, each with its own headers and body, up to the first that closes
  the connection or to the keep-alive cap, and the replies are written in the same order.\<close>

theorem http_pipeline_in_step:
  assumes "list_all (\<lambda>req. head_ok req \<and> body_ok cfg req) reqs"
  shows "serve_conn cfg handler (\<lambda>_. False) 0 (concat (map write_request reqs), br) = replies cfg handler 0 reqs"
  by (rule serve_conn_written [OF assms])

theorem http_pipeline_in_step_witness:
  "map body (snd (serve_conn small_server (\<lambda>req. response_new 204) (\<lambda>_. False) 0
     (concat (map write_request [sample ''hi'', sample []]), True))) = [''hi'', []]"
  using http_pipeline_in_step [of small_server "[sample ''hi'', sample []]" "\<lambda>req. response_new 204" True]
    sample_ok sample_body_ok sample_keep_alive by (simp add: server_view_def small_server_def) (simp add: sample_def)

text \<open>C26: with a body cap below \<open>2^64 - 1\<close> and whatever bytes a peer sends, every request that reaches the handler has at most 128 headers, whose names and
  values together have at most three times 64 KiB (a block of at most 64 KiB on the wire, decoded lossily) and no line
  break, and a body within the configured cap. Its Content-Length headers, if any, agree on one number and the body has
  that length; without Content-Length and Transfer-Encoding there is no body; and a request with a single
  Transfer-Encoding header that lists \<^verbatim>\<open>chunked\<close> has no Content-Length. (With several Transfer-Encoding headers the
  server looks at the first only: \<open>chunked_first_only\<close>.) One connection causes at most the configured number of
  requests, or one if that number is zero.\<close>

theorem http_requests_guarded:
  assumes "max_body_bytes cfg < 2 ^ 64 - 1"
  shows "length (snd (serve_conn cfg handler drain 0 s)) \<le> max 1 (max_keep_alive_requests cfg) \<and>
    list_all (\<lambda>req. request_bounded cfg req \<and> framed req) (snd (serve_conn cfg handler drain 0 s))"
  using serve_conn_ok [OF assms, of handler drain 0 s] by simp

theorem http_requests_guarded_witness:
  "let reqs = snd (serve_conn small_server (\<lambda>_. response_new 204) (\<lambda>_. False) 0 (write_request (sample ''hi''), True))
   in length reqs \<le> 2 \<and> (\<forall>req \<in> set reqs. length (body req) \<le> 8 \<and> framed req)"
  using http_requests_guarded [of small_server "\<lambda>_. response_new 204" "\<lambda>_. False" "(write_request (sample ''hi''), True)"]
  by (simp add: small_server_def list_all_iff request_bounded_def Let_def)


lemma short_lengths: "parse_u64 (trim ''1'') = Some 1" "parse_u64 (trim ''2'') = Some 2" "parse_u64 (trim ''+1'') = Some 1"
  using trim_visible [of "''1''"] trim_visible [of "''2''"] trim_visible [of "''+1''"]
  by (simp_all add: visible_def parse_u64_def strip_plus_def all_digits_def is_digit_def nat_of_digits_def digit_val_def)


text \<open>The guard looks at the first Transfer-Encoding only: with an innocent one first, a request that announces
  both framings passes to the handler.\<close>

lemma chunked_first_only:
  "\<not> is_chunked [(''Transfer-Encoding'', ''identity''), (''Transfer-Encoding'', ''chunked''), (''Content-Length'', ''+1'')]"
  "content_length_checked [(''Transfer-Encoding'', ''identity''), (''Transfer-Encoding'', ''chunked''), (''Content-Length'', ''+1'')] =
    Ok (Some 1)"
proof -
  have n: "eq_ignore_ascii_case ''Transfer-Encoding'' ''transfer-encoding''"
    "\<not> eq_ignore_ascii_case ''Transfer-Encoding'' ''content-length''" by code_simp+
  have "\<not> sublist ''chunked'' (to_ascii_lowercase ''identity'')" by code_simp
  then show "\<not> is_chunked [(''Transfer-Encoding'', ''identity''), (''Transfer-Encoding'', ''chunked''), (''Content-Length'', ''+1'')]"
    using n by (simp add: is_chunked_def header_get_def)
  show "content_length_checked [(''Transfer-Encoding'', ''identity''), (''Transfer-Encoding'', ''chunked''), (''Content-Length'', ''+1'')] =
      Ok (Some 1)"
    using n by (simp add: content_length_checked_def names short_lengths)
qed

end
