(* ===== verification/Http_Client.thy ===== *)
theory Http_Client
  imports Http_Correct
begin

text \<open>
  The HTTP client: the streaming response body of \<^verbatim>\<open>http/message.rs\<close>, the connection pool of
  \<^verbatim>\<open>http/pool.rs\<close> and the exchange of \<^verbatim>\<open>http/client.rs\<close>, with the end-to-end theorem against the
  server. A connection is the input still to come from its peer. How many bytes one read delivers is
  up to the transport: the argument \<open>some\<close> decides, within the buffer and what is there, and the
  theorems hold for every choice.
\<close>

section \<open>Response bodies\<close>

definition MAX_CHUNK_SIZE :: nat where "MAX_CHUNK_SIZE = 64 * 1024 * 1024"

datatype Framing = Length nat | Chunked | Eof | Done

type_synonym PoolKey = "string \<times> nat \<times> bool"
type_synonym Pool = "PoolKey \<Rightarrow> stream list"

definition MAX_IDLE_PER_HOST :: nat where "MAX_IDLE_PER_HOST = 32"

definition pool_take :: "Pool \<Rightarrow> PoolKey \<Rightarrow> stream option \<times> Pool" where
  "pool_take pool key = (case pool key of [] \<Rightarrow> (None, pool) | c # cs \<Rightarrow> (Some c, pool(key := cs)))"

definition pool_put :: "PoolKey \<Rightarrow> stream \<Rightarrow> Pool \<Rightarrow> Pool" where
  "pool_put key c pool = (if length (pool key) < MAX_IDLE_PER_HOST then pool(key := pool key @ [c]) else pool)"

record Body =
  reader :: "stream option"
  framing :: Framing
  reclaim_key :: "PoolKey option"

definition reclaim :: "Body \<Rightarrow> Pool \<Rightarrow> Body \<times> Pool" where
  "reclaim b pool = (case reclaim_key b of
     None \<Rightarrow> (b, pool)
   | Some key \<Rightarrow> (case reader b of
       None \<Rightarrow> (b\<lparr>reclaim_key := None\<rparr>, pool)
     | Some c \<Rightarrow> (b\<lparr>reclaim_key := None, reader := None\<rparr>, pool_put key c pool)))"

text \<open>One \<^verbatim>\<open>read\<close> into a buffer of \<open>want\<close> bytes; no bytes means the end.\<close>

definition read_some :: "(string \<Rightarrow> nat) \<Rightarrow> nat \<Rightarrow> stream \<Rightarrow> (string, HttpError) result \<times> stream" where
  "read_some some want s =
     (if fst s = [] then (if snd s then Err Io else Ok [], s)
      else let n = min want (max 1 (some (fst s))) in (Ok (take n (fst s)), (drop n (fst s), snd s)))"

definition next_chunk :: "(string \<Rightarrow> nat) \<Rightarrow> Body \<Rightarrow> Pool \<Rightarrow> (string option, HttpError) result \<times> Body \<times> Pool" where
  "next_chunk some b pool = (case reader b of
     None \<Rightarrow> (Ok None, b, pool)
   | Some s \<Rightarrow> (case framing b of
       Done \<Rightarrow> (Ok None, reclaim b pool)
     | Length n \<Rightarrow>
         if n = 0 then (Ok None, reclaim (b\<lparr>framing := Done\<rparr>) pool)
         else (case read_some some (min n 16384) s of
             (Err e, s') \<Rightarrow> (Err e, b\<lparr>reader := Some s'\<rparr>, pool)
           | (Ok d, s') \<Rightarrow>
               if d = [] then (Ok None, b\<lparr>framing := Done, reader := None\<rparr>, pool)
               else (Ok (Some d), b\<lparr>framing := Length (n - length d), reader := Some s'\<rparr>, pool))
     | Chunked \<Rightarrow> (case read_line s of
           (Err e, s1) \<Rightarrow> (Err e, b\<lparr>reader := Some s1\<rparr>, pool)
         | (Ok line, s1) \<Rightarrow> (case parse_hex (chunk_size_text line) of
             None \<Rightarrow> (Err (Protocol (''bad chunk size: '' @ chunk_size_text line)), b\<lparr>reader := Some s1\<rparr>, pool)
           | Some sz \<Rightarrow>
               if sz > MAX_CHUNK_SIZE then (Err (Protocol ''chunk size exceeds maximum''), b\<lparr>reader := Some s1\<rparr>, pool)
               else if sz = 0 then
                 (case skip_trailers s1 of
                    (Err e, s2) \<Rightarrow> (Err e, b\<lparr>reader := Some s2\<rparr>, pool)
                  | (Ok _, s2) \<Rightarrow> (Ok None, reclaim (b\<lparr>framing := Done, reader := Some s2\<rparr>) pool))
               else (case read_n sz s1 of
                   (Err e, s2) \<Rightarrow> (Err e, b\<lparr>reader := Some s2\<rparr>, pool)
                 | (Ok d, s2) \<Rightarrow> (case read_n 2 s2 of
                     (Err e, s3) \<Rightarrow> (Err e, b\<lparr>reader := Some s3\<rparr>, pool)
                   | (Ok _, s3) \<Rightarrow> (Ok (Some d), b\<lparr>reader := Some s3\<rparr>, pool)))))
     | Eof \<Rightarrow> (case read_some some 16384 s of
           (Err e, s') \<Rightarrow> (Err e, b\<lparr>reader := Some s'\<rparr>, pool)
         | (Ok d, s') \<Rightarrow>
             if d = [] then (Ok None, b\<lparr>framing := Done, reader := None\<rparr>, pool)
             else (Ok (Some d), b\<lparr>reader := Some s'\<rparr>, pool))))"

lemma read_some_consumes:
  "read_some some want s = (Ok d, s') \<Longrightarrow> d \<noteq> [] \<Longrightarrow>
     fst s = d @ fst s' \<and> snd s' = snd s \<and> length d \<le> want"
  by (auto simp: read_some_def Let_def split: if_splits)

lemma next_chunk_consumes:
  assumes "next_chunk some b pool = (Ok (Some d), b', pool')"
  shows "\<exists>s s'. reader b = Some s \<and> reader b' = Some s' \<and> length (fst s') < length (fst s)"
proof -
  obtain s where s: "reader b = Some s" using assms by (cases "reader b") (auto simp: next_chunk_def)
  show ?thesis
  proof (cases "framing b")
    case (Length n)
    then show ?thesis using assms s
      by (auto simp: next_chunk_def split: if_splits prod.splits sum.splits dest!: read_some_consumes)
  next
    case Chunked
    then show ?thesis using assms s
      by (auto simp: next_chunk_def split: if_splits prod.splits sum.splits option.splits
          dest!: read_line_consumes read_n_consumes)
  next
    case Eof
    then show ?thesis using assms s
      by (auto simp: next_chunk_def split: if_splits prod.splits sum.splits dest!: read_some_consumes)
  qed (use assms s in \<open>simp add: next_chunk_def\<close>)
qed

text \<open>\<^verbatim>\<open>Response::bytes\<close>: the whole remaining body. Each chunk takes from the input, so the loop ends.\<close>

function bytes_loop :: "(string \<Rightarrow> nat) \<Rightarrow> string \<Rightarrow> Body \<Rightarrow> Pool \<Rightarrow> (string, HttpError) result \<times> Pool" where
  "bytes_loop some out b pool = (case next_chunk some b pool of
     (Err e, b', pool') \<Rightarrow> (Err e, pool')
   | (Ok None, b', pool') \<Rightarrow> (Ok out, pool')
   | (Ok (Some d), b', pool') \<Rightarrow> bytes_loop some (out @ d) b' pool')"
  by pat_completeness auto
termination
  by (relation "measure (\<lambda>(_, _, b, _). case reader b of None \<Rightarrow> 0 | Some s \<Rightarrow> length (fst s))")
    (auto dest!: next_chunk_consumes [OF sym])

declare bytes_loop.simps [simp del]

section \<open>The exchange\<close>

definition read_response_head :: "stream \<Rightarrow> (nat \<times> HeaderMap, HttpError) result \<times> stream" where
  "read_response_head s = (case read_line_capped MAX_LINE_BYTES s of
     (Err e, s') \<Rightarrow> (Err e, s')
   | (Ok (line, n), s') \<Rightarrow>
       if n = 0 then (Err (Protocol ''empty response''), s')
       else (case (case split_on (CHR '' '') (trim_end line) of _ # c # _ \<Rightarrow> parse_u16 c | _ \<Rightarrow> None) of
           None \<Rightarrow> (Err (Protocol (''bad status line: '' @ trim line)), s')
         | Some code \<Rightarrow> (case read_headers s' of
             (Err e, s'') \<Rightarrow> (Err e, s'') | (Ok h, s'') \<Rightarrow> (Ok (code, h), s''))))"

definition response_framing :: "nat \<Rightarrow> HeaderMap \<Rightarrow> Framing" where
  "response_framing code h =
     (if code = 204 \<or> code = 304 \<or> (100 \<le> code \<and> code < 200) then Done
      else if is_chunked h then Chunked
      else case content_length h of Some len \<Rightarrow> Length len | None \<Rightarrow> Eof)"

definition response_keep_alive :: "HeaderMap \<Rightarrow> bool" where
  "response_keep_alive h = (case header_get h ''connection'' of
     Some v \<Rightarrow> \<not> list_ex (\<lambda>t. trim t = ''close'') (split_on (CHR '','') (to_ascii_lowercase v))
   | None \<Rightarrow> True)"

record Response =
  rstatus :: nat
  rheaders :: HeaderMap
  rbody :: Body

text \<open>\<open>peer\<close> is what the other side answers to the bytes written; it arrives after any input left.\<close>

definition exchange :: "(string \<Rightarrow> string) \<Rightarrow> stream \<Rightarrow> Request \<Rightarrow> PoolKey \<Rightarrow> (Response, HttpError) result" where
  "exchange peer conn req key =
     (case read_response_head (fst conn @ peer (write_request req), snd conn) of
        (Err e, _) \<Rightarrow> Err e
      | (Ok (code, h), s) \<Rightarrow>
          let fr = response_framing code h;
              reusable = (response_keep_alive h \<and> fr \<noteq> Eof)
          in Ok \<lparr>rstatus = code, rheaders = h,
                 rbody = \<lparr>reader = Some s, framing = fr, reclaim_key = (if reusable then Some key else None)\<rparr>\<rparr>)"

text \<open>\<open>pooled\<close> answers on a connection taken from the pool and \<open>fresh\<close> on a new one; \<open>connect\<close> may fail.
  The result carries the bytes sent, one entry per connection used.\<close>

definition send_inner :: "(stream \<Rightarrow> string \<Rightarrow> string) \<Rightarrow> (string \<Rightarrow> string) \<Rightarrow> (stream, HttpError) result \<Rightarrow> Request \<Rightarrow> Pool \<Rightarrow>
    (Response, HttpError) result \<times> Pool \<times> string list" where
  "send_inner pooled fresh connect req pool =
     (let key = (host (uri req), port (uri req), is_tls (uri req));
          again = (\<lambda>pool sent. case connect of
             Err e \<Rightarrow> (Err e, pool, sent)
           | Ok c \<Rightarrow> (exchange fresh c req key, pool, sent @ [write_request req]))
      in case pool_take pool key of
           (Some c, pool') \<Rightarrow> (case exchange (pooled c) c req key of
               Ok resp \<Rightarrow> (Ok resp, pool', [write_request req])
             | Err _ \<Rightarrow> again pool' [write_request req])
         | (None, pool') \<Rightarrow> again pool' [])"

section \<open>Bodies are delivered exactly\<close>

text \<open>Where a completely read connection goes.\<close>

definition give_back :: "PoolKey option \<Rightarrow> stream \<Rightarrow> Pool \<Rightarrow> Pool" where
  "give_back k s pool = (case k of None \<Rightarrow> pool | Some key \<Rightarrow> pool_put key s pool)"

lemma reclaim_gives_back:
  "reader b = Some s \<Longrightarrow> snd (reclaim b pool) = give_back (reclaim_key b) s pool"
  by (simp add: reclaim_def give_back_def split: option.split)

lemma bytes_length:
  "bytes_loop some out \<lparr>reader = Some (d @ r, br), framing = Length (length d), reclaim_key = k\<rparr> pool =
     (Ok (out @ d), give_back k (r, br) pool)"
proof (induction d arbitrary: out rule: length_induct)
  case (1 d)
  let ?b = "\<lparr>reader = Some (d @ r, br), framing = Length (length d), reclaim_key = k\<rparr>"
  show ?case
  proof (cases "d = []")
    case True
    have "snd (reclaim (?b\<lparr>framing := Done\<rparr>) pool) = give_back k (r, br) pool"
      using True by (subst reclaim_gives_back [of _ "(r, br)"]) simp_all
    then show ?thesis using True by (subst bytes_loop.simps) (simp add: next_chunk_def case_prod_unfold)
  next
    case False
    define n where "n = min (min (length d) 16384) (max 1 (some (d @ r)))"
    have n: "0 < n" "n \<le> length d" using False by (auto simp: n_def min_def max_def)
    have rd: "read_some some (min (length d) 16384) (d @ r, br) = (Ok (take n d), (drop n d @ r, br))"
      using False n unfolding n_def by (simp add: read_some_def Let_def)
    have "next_chunk some ?b pool =
        (Ok (Some (take n d)), \<lparr>reader = Some (drop n d @ r, br), framing = Length (length (drop n d)), reclaim_key = k\<rparr>, pool)"
      using rd False n by (simp add: next_chunk_def)
    then have "bytes_loop some out ?b pool =
        bytes_loop some (out @ take n d) \<lparr>reader = Some (drop n d @ r, br), framing = Length (length (drop n d)), reclaim_key = k\<rparr> pool"
      by (subst bytes_loop.simps) simp
    also have "\<dots> = (Ok ((out @ take n d) @ drop n d), give_back k (r, br) pool)"
      by (rule 1 [rule_format]) (use n in simp)
    finally show ?thesis by simp
  qed
qed

lemma bytes_chunked:
  assumes "list_all (\<lambda>c. length c \<le> MAX_CHUNK_SIZE) cs"
  shows "bytes_loop some out \<lparr>reader = Some (write_chunks cs @ r, br), framing = Chunked, reclaim_key = k\<rparr> pool =
     (Ok (out @ concat cs), give_back k (r, br) pool)"
  using assms
proof (induction cs arbitrary: out)
  case Nil
  let ?b = "\<lparr>reader = Some (write_chunks [] @ r, br), framing = Chunked, reclaim_key = k\<rparr>"
  have "read_line (write_chunks [] @ r, br) = (Ok (''0'' @ crlf), (crlf @ r, br))"
    using read_size_line [of 0 "crlf @ r" br] by (simp add: upper_hex_zero)
  moreover have "parse_hex (chunk_size_text (''0'' @ crlf)) = Some 0"
    using parse_hex_upper [of 0] chunk_size_upper [of 0] by (simp add: upper_hex_zero)
  moreover have "snd (reclaim (?b\<lparr>framing := Done, reader := Some (r, br)\<rparr>) pool) = give_back k (r, br) pool"
    by (subst reclaim_gives_back [of _ "(r, br)"]) simp_all
  ultimately show ?case using skip_trailers_blank [of r br]
    by (subst bytes_loop.simps) (simp add: next_chunk_def case_prod_unfold)
next
  case (Cons c cs)
  show ?case
  proof (cases "c = []")
    case True
    then show ?thesis using Cons by simp
  next
    case False
    let ?r = "write_chunks cs @ r"
    have rl: "read_line (write_chunks (c # cs) @ r, br) = (Ok (upper_hex (length c) @ crlf), (c @ crlf @ ?r, br))"
      using read_size_line [of "length c" "c @ crlf @ ?r" br] False by simp
    have sz: "parse_hex (chunk_size_text (upper_hex (length c) @ crlf)) = Some (length c)"
      unfolding chunk_size_upper by (rule parse_hex_upper) (use Cons.prems in \<open>simp add: MAX_CHUNK_SIZE_def\<close>)
    have n1: "read_n (length c) (c @ crlf @ ?r, br) = (Ok c, (crlf @ ?r, br))" by (rule read_n_exact) simp
    have n2: "read_n 2 (crlf @ ?r, br) = (Ok crlf, (?r, br))" by (rule read_n_exact) (simp add: crlf_def)
    have "bytes_loop some out \<lparr>reader = Some (write_chunks (c # cs) @ r, br), framing = Chunked, reclaim_key = k\<rparr> pool =
        bytes_loop some (out @ c) \<lparr>reader = Some (?r, br), framing = Chunked, reclaim_key = k\<rparr> pool"
      using rl sz n1 n2 False Cons.prems by (subst bytes_loop.simps) (simp add: next_chunk_def)
    then show ?thesis using Cons by simp
  qed
qed

lemma bytes_none:
  "bytes_loop some out \<lparr>reader = Some (r, br), framing = Done, reclaim_key = k\<rparr> pool = (Ok out, give_back k (r, br) pool)"
proof -
  have "snd (reclaim \<lparr>reader = Some (r, br), framing = Done, reclaim_key = k\<rparr> pool) = give_back k (r, br) pool"
    by (subst reclaim_gives_back [of _ "(r, br)"]) simp_all
  then show ?thesis by (subst bytes_loop.simps) (simp add: next_chunk_def case_prod_unfold)
qed

section \<open>The client reads what the server writes\<close>

definition no_content :: "HttpResponse \<Rightarrow> bool" where
  "no_content resp \<longleftrightarrow> status resp = 204 \<or> status resp = 304"

text \<open>The headers as they go out, for a method that has a body in its answer.\<close>

definition answer_headers :: "HttpResponse \<Rightarrow> bool \<Rightarrow> HeaderMap" where
  "answer_headers resp ka = resp_headers resp @
     (if resp_stream resp \<noteq> None \<and> \<not> no_content resp then [(''Transfer-Encoding'', ''chunked'')]
      else if no_content resp then [] else [(''Content-Length'', decimal (length (resp_body resp)))]) @
     [(''Connection'', if ka then ''keep-alive'' else ''close'')]"

definition answer_body :: "HttpResponse \<Rightarrow> string" where
  "answer_body resp = (if no_content resp then [] else case resp_stream resp of Some cs \<Rightarrow> concat cs | None \<Rightarrow> resp_body resp)"

text \<open>A response the handler may give: its headers survive the wire and do not touch the framing, the
  status is final, and no chunk exceeds what the client accepts.\<close>

definition answer_ok :: "HttpResponse \<Rightarrow> bool" where
  "answer_ok resp \<longleftrightarrow> 200 \<le> status resp \<and> status resp < 2 ^ 16 \<and>
     \<not> header_contains (resp_headers resp) ''content-length'' \<and>
     \<not> header_contains (resp_headers resp) ''transfer-encoding'' \<and>
     \<not> header_contains (resp_headers resp) ''connection'' \<and>
     list_all header_ok (resp_headers resp) \<and> length (resp_headers resp) + 2 \<le> MAX_HEADERS \<and>
     head_size (resp_headers resp) + 100 \<le> MAX_HEADER_TOTAL_BYTES \<and> length (resp_body resp) < 2 ^ 64 \<and>
     (case resp_stream resp of None \<Rightarrow> True | Some cs \<Rightarrow> list_all (\<lambda>c. length c \<le> MAX_CHUNK_SIZE) cs)"

definition payload :: "HttpResponse \<Rightarrow> string" where
  "payload resp = (if no_content resp then [] else case resp_stream resp of Some cs \<Rightarrow> write_chunks cs | None \<Rightarrow> resp_body resp)"

definition status_line :: "HttpResponse \<Rightarrow> string" where
  "status_line resp = ''HTTP/1.1 '' @ decimal (status resp) @ '' '' @ reason (status resp)"

lemma write_response_eq:
  assumes "answer_ok resp" and "m \<noteq> Head"
  shows "write_response resp m ka =
    status_line resp @ crlf @ concat (map header_line (answer_headers resp ka)) @ crlf @ payload resp"
  using assms
  by (simp add: write_response_def status_line_def answer_headers_def payload_def no_content_def answer_ok_def header_line_def)

lemma decimal_short: "n < 10 ^ Suc k \<Longrightarrow> length (decimal n) \<le> Suc k"
proof (induction k arbitrary: n)
  case 0
  then show ?case by (subst decimal.simps) simp
next
  case (Suc k)
  have "length (decimal (n div 10)) \<le> Suc k" by (rule Suc.IH) (use Suc.prems in \<open>simp add: less_mult_imp_div_less mult.commute\<close>)
  then show ?case by (subst decimal.simps) simp
qed

lemma reason_shape:
  "reason c \<noteq> [] \<longrightarrow> visible [last (reason c)]" "ascii (reason c)" "LF \<notin> set (reason c)" "length (reason c) \<le> 21"
  by (simp_all add: reason_def visible_def ascii_def LF_def)

lemma status_line_trim: "\<exists>t. split_on (CHR '' '') (trim_end (status_line resp @ crlf)) = ''HTTP/1.1'' # decimal (status resp) # t"
proof -
  let ?d = "decimal (status resp)" and ?c = "CHR '' ''"
  have v: "visible ?d" "?d \<noteq> []" using digits_visible [OF digits_of_decimal] by simp_all
  have clean: "?c \<notin> set ''HTTP/1.1''" "?c \<notin> set ?d" using visible_clean [OF v(1)] by simp_all
  show ?thesis
  proof (cases "reason (status resp) = []")
    case True
    have "trim_end (status_line resp @ crlf) = ''HTTP/1.1'' @ ?c # ?d"
      using True trim_end_snoc [of LF "''HTTP/1.1 '' @ ?d @ '' '' @ [CR]"] trim_end_snoc [of CR "''HTTP/1.1 '' @ ?d @ '' ''"]
        trim_end_snoc [of ?c "''HTTP/1.1 '' @ ?d"] trim_end_visible [OF v, of "''HTTP/1.1 ''"]
      by (simp add: status_line_def crlf_def crlf_space)
    then show ?thesis using split_on_clean [OF clean(1), of ?d] split_on_last [OF clean(2)] by auto
  next
    case False
    then obtain s x where sx: "reason (status resp) = s @ [x]" by (cases "reason (status resp)" rule: rev_cases) auto
    then have "visible [x]" using reason_shape(1) [of "status resp"] by simp
    then have "trim_end (status_line resp @ crlf) = ''HTTP/1.1'' @ ?c # (?d @ ?c # s @ [x])"
      using trim_end_crlf_visible [of "[x]" "''HTTP/1.1 '' @ ?d @ '' '' @ s"] sx by (simp add: status_line_def)
    then show ?thesis using split_on_clean [OF clean(1)] split_on_clean [OF clean(2)] by auto
  qed
qed

lemma parse_u16_decimal: "n < 2 ^ 16 \<Longrightarrow> parse_u16 (decimal n) = Some n"
  by (simp add: parse_u16_def Let_def digits_of_decimal)

lemma answer_headers_ok:
  assumes "answer_ok resp"
  shows "list_all header_ok (answer_headers resp ka) \<and> length (answer_headers resp ka) \<le> MAX_HEADERS \<and>
    head_size (answer_headers resp ka) + 2 \<le> MAX_HEADER_TOTAL_BYTES"
proof -
  have d: "length (decimal (length (resp_body resp))) \<le> 20"
    using decimal_short [of "length (resp_body resp)" 19] assms by (simp add: answer_ok_def)
  have v: "visible (decimal (length (resp_body resp)))" by (rule digits_visible [OF digits_of_decimal])
  have "header_ok (''Content-Length'', decimal (length (resp_body resp)))"
    by (rule visible_header_ok) (use d v in \<open>simp_all add: visible_def MAX_LINE_BYTES_def\<close>)
  moreover have "header_ok (''Transfer-Encoding'', ''chunked'')" "header_ok (''Connection'', ''keep-alive'')"
    "header_ok (''Connection'', ''close'')"
    by (rule visible_header_ok; simp add: visible_def MAX_LINE_BYTES_def)+
  ultimately show ?thesis
    using assms d by (simp add: answer_headers_def answer_ok_def head_size_def header_line_def crlf_def)
qed

definition response_head :: "HttpResponse \<Rightarrow> bool \<Rightarrow> string" where
  "response_head resp ka = status_line resp @ crlf @ concat (map header_line (answer_headers resp ka)) @ crlf"

lemma read_response_head_lines:
  assumes "answer_ok resp"
  shows "read_response_head (response_head resp ka @ r, br) = (Ok (status resp, answer_headers resp ka), (r, br))"
proof -
  let ?rest = "concat (map header_line (answer_headers resp ka)) @ crlf @ r"
  let ?d = "decimal (status resp)"
  have "length ?d \<le> 5" using decimal_short [of "status resp" 4] assms by (simp add: answer_ok_def)
  then have len: "length (status_line resp) + 2 \<le> MAX_LINE_BYTES"
    using reason_shape(4) [of "status resp"] by (simp add: status_line_def MAX_LINE_BYTES_def)
  have "ascii ?d" using digits_visible [OF digits_of_decimal, of "status resp"] by (auto simp: visible_def ascii_def list_all_iff)
  then have "ascii (status_line resp)" using reason_shape(2) by (simp add: status_line_def ascii_def)
  then have valid: "utf8_valid (to_bytes (status_line resp))" by (rule ascii_valid)
  have "LF \<notin> set (status_line resp)"
    using reason_shape(3) visible_clean [OF digits_visible [OF digits_of_decimal]] by (simp add: status_line_def) (simp add: LF_def)
  then have rd: "read_line_capped MAX_LINE_BYTES (status_line resp @ crlf @ ?rest, br) =
      (Ok (status_line resp @ crlf, length (status_line resp) + 2), (?rest, br))"
    by (rule read_line_capped_line) (rule len, rule valid)
  have w: "response_head resp ka @ r = status_line resp @ crlf @ ?rest" by (simp add: response_head_def)
  have hs: "read_headers (?rest, br) = (Ok (answer_headers resp ka), (r, br))"
    using headers_loop_lines [of "answer_headers resp ka" 0 0 "[]" r br] answer_headers_ok [OF assms, of ka]
    by (simp add: read_headers_def)
  obtain t where "split_on (CHR '' '') (trim_end (status_line resp @ crlf)) = ''HTTP/1.1'' # ?d # t"
    using status_line_trim by blast
  then show ?thesis unfolding read_response_head_def w rd
    using hs assms by (simp add: parse_u16_decimal answer_ok_def)
qed

lemma read_response_head_written:
  assumes "answer_ok resp" and "m \<noteq> Head"
  shows "read_response_head (write_response resp m ka @ r, br) =
    (Ok (status resp, answer_headers resp ka), (payload resp @ r, br))"
  using read_response_head_lines [OF assms(1), of ka "payload resp @ r" br]
  by (simp add: write_response_eq [OF assms] response_head_def)

lemma answer_names:
  "eq_ignore_ascii_case ''Transfer-Encoding'' ''transfer-encoding''" "\<not> eq_ignore_ascii_case ''Connection'' ''transfer-encoding''"
  "\<not> eq_ignore_ascii_case ''Transfer-Encoding'' ''connection''" "eq_ignore_ascii_case ''Connection'' ''connection''"
  "sublist ''chunked'' (to_ascii_lowercase ''chunked'')"
  by code_simp+

lemma answer_framing:
  assumes "answer_ok resp"
  shows "response_framing (status resp) (answer_headers resp ka) =
    (if no_content resp then Done else if resp_stream resp \<noteq> None then Chunked else Length (length (resp_body resp)))"
proof -
  let ?h = "resp_headers resp" and ?n = "length (resp_body resp)"
  have none: "header_get ?h ''transfer-encoding'' = None" "header_get ?h ''content-length'' = None"
    using assms by (simp_all add: header_get_None answer_ok_def)
  have ch: "is_chunked (answer_headers resp ka) \<longleftrightarrow> resp_stream resp \<noteq> None \<and> \<not> no_content resp"
    using none by (simp add: is_chunked_def answer_headers_def header_get_append)
      (simp add: header_get_def answer_names names)
  have "parse_u64 (trim (decimal ?n)) = Some (of_nat ?n)" "unat (of_nat ?n :: u64) = ?n"
    using assms trim_visible [OF digits_visible [OF digits_of_decimal]]
    by (simp_all add: parse_u64_decimal answer_ok_def unsigned_of_nat take_bit_nat_eq_self)
  then have "content_length (answer_headers resp ka) = Some ?n" if "resp_stream resp = None" "\<not> no_content resp"
    using none that by (simp add: content_length_def answer_headers_def header_get_append)
      (simp add: header_get_def names)
  then show ?thesis using ch assms by (auto simp: response_framing_def no_content_def answer_ok_def)
qed

lemma answer_keep_alive:
  assumes "answer_ok resp"
  shows "response_keep_alive (answer_headers resp ka) = ka"
proof -
  have none: "header_get (resp_headers resp) ''connection'' = None"
    using assms by (simp add: header_get_None answer_ok_def)
  have "header_get (answer_headers resp ka) ''connection'' = Some (if ka then ''keep-alive'' else ''close'')"
    using none by (simp add: answer_headers_def header_get_append) (simp add: header_get_def answer_names sample_names)
  moreover have "to_ascii_lowercase ''close'' = ''close''" "to_ascii_lowercase ''keep-alive'' = ''keep-alive''"
    by code_simp+
  moreover have "trim ''close'' = ''close''" "trim ''keep-alive'' = ''keep-alive''"
    by (rule trim_visible, simp add: visible_def)+
  moreover have "split_on (CHR '','') ''close'' = [''close'']" "split_on (CHR '','') ''keep-alive'' = [''keep-alive'']"
    by (rule split_on_last, simp)+
  ultimately show ?thesis by (simp add: response_keep_alive_def)
qed

section \<open>Text responses\<close>

abbreviation text_headers :: HeaderMap where
  "text_headers \<equiv> header_set [] ''Content-Type'' ''text/plain; charset=utf-8''"

lemma text_headers_plain:
  "\<not> header_contains text_headers ''content-length''" "\<not> header_contains text_headers ''transfer-encoding''"
  "\<not> header_contains text_headers ''connection''" "length text_headers = 1" "head_size text_headers = 41"
  by code_simp+

lemma text_headers_ok: "list_all header_ok text_headers"
proof -
  have "text_headers = [(''Content-Type'', ''text/plain; charset=utf-8'')]" by code_simp
  moreover have "trimmed ''Content-Type''" "trimmed ''text/plain; charset=utf-8''" by code_simp+
  moreover have "utf8_valid (to_bytes ''Content-Type'')" "utf8_valid (to_bytes ''text/plain; charset=utf-8'')" by code_simp+
  ultimately show ?thesis
    by (simp add: header_ok_def trim_id trim_start_id header_line_def crlf_def CR_def LF_def MAX_LINE_BYTES_def)
qed

lemma text_response_ok:
  assumes "200 \<le> st" "st < 2 ^ 16" "length t < 2 ^ 64"
  shows "answer_ok (text_response st t)"
  using assms text_headers_plain text_headers_ok
  by (simp add: answer_ok_def text_response_def with_header_def response_new_def MAX_HEADERS_def MAX_HEADER_TOTAL_BYTES_def)

section \<open>Client and server together\<close>

text \<open>What the client gets of a request that the server answers on a fresh connection.\<close>

definition answered :: "ServerConfig \<Rightarrow> (Request \<Rightarrow> HttpResponse) \<Rightarrow> Request \<Rightarrow> PoolKey \<Rightarrow> Response" where
  "answered cfg handler req key =
     (let resp = handler (server_view req);
          ka = (wants_keep_alive (wire_headers req) \<and> 1 < max_keep_alive_requests cfg)
      in \<lparr>rstatus = status resp, rheaders = answer_headers resp ka,
          rbody = \<lparr>reader = Some (payload resp, False),
                   framing = (if no_content resp then Done else if resp_stream resp \<noteq> None then Chunked
                              else Length (length (resp_body resp))),
                   reclaim_key = (if ka then Some key else None)\<rparr>\<rparr>)"

lemma exchange_answered:
  assumes "head_ok req" "body_ok cfg req" "req_method req \<noteq> Head" "\<not> expects_continue (wire_headers req)"
    and "answer_ok (handler (server_view req))"
  shows "exchange (\<lambda>w. fst (serve_conn cfg handler (\<lambda>_. False) 0 (w, False))) ([], False) req key =
    Ok (answered cfg handler req key)"
proof -
  let ?resp = "handler (server_view req)"
  let ?ka = "wants_keep_alive (wire_headers req) \<and> 1 < max_keep_alive_requests cfg"
  have "serve_conn cfg handler (\<lambda>_. False) 0 (concat (map write_request [req]), False) = replies cfg handler 0 [req]"
    by (rule serve_conn_written) (use assms in simp)
  then have w: "fst (serve_conn cfg handler (\<lambda>_. False) 0 (write_request req, False)) = write_response ?resp (req_method req) ?ka"
    using assms(4) by (simp add: reply_def)
  have "read_response_head (write_response ?resp (req_method req) ?ka, False) =
      (Ok (status ?resp, answer_headers ?resp ?ka), (payload ?resp, False))"
    using read_response_head_written [OF assms(5,3), of ?ka "[]" False] by simp
  then show ?thesis
    unfolding exchange_def fst_conv snd_conv append_Nil w
    by (auto simp: answer_framing [OF assms(5)] answer_keep_alive [OF assms(5)] answered_def Let_def)
qed

lemma answered_bytes:
  assumes "answer_ok (handler (server_view req))"
  shows "bytes_loop some [] (rbody (answered cfg handler req key)) pool =
    (Ok (answer_body (handler (server_view req))),
     give_back (reclaim_key (rbody (answered cfg handler req key))) ([], False) pool)"
proof -
  let ?resp = "handler (server_view req)"
  consider (none) "no_content ?resp" | (stream) cs where "\<not> no_content ?resp" "resp_stream ?resp = Some cs"
    | (fixed) "\<not> no_content ?resp" "resp_stream ?resp = None" by blast
  then show ?thesis
  proof cases
    case none
    then show ?thesis using bytes_none by (simp add: answered_def Let_def payload_def answer_body_def)
  next
    case stream
    then have "list_all (\<lambda>c. length c \<le> MAX_CHUNK_SIZE) cs" using assms by (simp add: answer_ok_def)
    from bytes_chunked [OF this, of some "[]" "[]"] show ?thesis
      using stream by (simp add: answered_def Let_def payload_def answer_body_def)
  next
    case fixed
    then show ?thesis using bytes_length [of some "[]" "resp_body ?resp" "[]"]
      by (simp add: answered_def Let_def payload_def answer_body_def)
  qed
qed

lemma expect_names: "\<not> eq_ignore_ascii_case ''A'' ''expect''" "\<not> eq_ignore_ascii_case ''Host'' ''expect''"
  "\<not> eq_ignore_ascii_case ''Content-Length'' ''expect''"
  by code_simp+



section \<open>What the pool holds\<close>

text \<open>Per host the pool hands out connections in the order they came back and keeps at most 32.\<close>

lemma pool_put_bound: "length (pool k) \<le> MAX_IDLE_PER_HOST \<Longrightarrow> length (pool_put key c pool k) \<le> MAX_IDLE_PER_HOST"
  by (auto simp: pool_put_def)

text \<open>Only a body read to its end gives its connection back.\<close>

lemma reclaim_pool: "snd (reclaim b pool) = pool \<or>
    (\<exists>key s. reclaim_key b = Some key \<and> reader b = Some s \<and> snd (reclaim b pool) = pool_put key s pool)"
  by (auto simp: reclaim_def split: option.splits)

text \<open>A \<open>HEAD\<close> answer has no body, but the client frames it by its \<open>Content-Length\<close>: the body it then reads
  is whatever the connection brings next.\<close>

lemma head_response_misframed:
  assumes "answer_ok resp" "resp_stream resp = None" "\<not> no_content resp" "resp_body resp \<noteq> []"
  shows "read_response_head (write_response resp Head ka @ r, br) = (Ok (status resp, answer_headers resp ka), (r, br)) \<and>
    response_framing (status resp) (answer_headers resp ka) = Length (length (resp_body resp))"
proof -
  have "write_response resp Head ka = response_head resp ka"
    using assms by (simp add: write_response_def response_head_def status_line_def answer_headers_def header_line_def
        no_content_def answer_ok_def)
  then show ?thesis using read_response_head_lines [OF assms(1)] answer_framing [OF assms(1)] assms(2,3) by simp
qed

text \<open>An interim \<open>100 Continue\<close> is taken for the final answer, and its connection goes back to the pool with
  the real one unread.\<close>

lemma interim_response_misframed:
  "response_framing 100 h = Done" "bytes_loop some [] \<lparr>reader = Some s, framing = Done, reclaim_key = Some key\<rparr> (\<lambda>_. []) =
    (Ok [], (\<lambda>_. [])(key := [s]))"
proof -
  show "response_framing 100 h = Done" by (simp add: response_framing_def)
  show "bytes_loop some [] \<lparr>reader = Some s, framing = Done, reclaim_key = Some key\<rparr> (\<lambda>_. []) = (Ok [], (\<lambda>_. [])(key := [s]))"
    using bytes_none [of some "[]" "fst s" "snd s" "Some key"] by (simp add: give_back_def pool_put_def MAX_IDLE_PER_HOST_def)
qed

text \<open>A body cut short of its declared length reads as a complete one.\<close>

lemma truncated_body_accepted:
  "bytes_loop some [] \<lparr>reader = Some ([], False), framing = Length (Suc n), reclaim_key = k\<rparr> pool = (Ok [], pool)"
  by (subst bytes_loop.simps) (simp add: next_chunk_def read_some_def)

text \<open>A request on a pooled connection whose answer does not arrive is sent a second time, whatever its method
  and whether or not the peer received the first.\<close>

lemma request_sent_twice:
  assumes "pool (host (uri req), port (uri req), is_tls (uri req)) = c # cs"
    and "exchange (pooled c) c req (host (uri req), port (uri req), is_tls (uri req)) = Err e"
  shows "snd (snd (send_inner pooled fresh (Ok conn) req pool)) = [write_request req, write_request req]"
  using assms by (simp add: send_inner_def pool_take_def Let_def)

end
