(* ===== verification/Http_Download.thy ===== *)
theory Http_Download
  imports Http_Core
begin

text \<open>
  Building requests, \<^verbatim>\<open>http/message.rs\<close>, and the resumable download of \<^verbatim>\<open>http/download.rs\<close>. Sending is an
  argument: the response's status, the chunks its body yields and the error that may follow them. The
  file is its content, or absent; what the file system does to an attempt is an argument too: whether the file's size
  can be read, whether it can be opened or created, how many bytes can be written before a write fails, and whether the
  final flush succeeds.
\<close>

definition request_new :: "Method \<Rightarrow> Uri \<Rightarrow> Request" where
  "request_new m u = \<lparr>req_method = m, uri = u, headers = [], body = []\<rparr>"

definition builder :: "Method \<Rightarrow> string \<Rightarrow> (Request, HttpError) result" where
  "builder m url = (case uri_parse url of Err e \<Rightarrow> Err e | Ok u \<Rightarrow> Ok (request_new m u))"

definition builder_header :: "string \<Rightarrow> string \<Rightarrow> Request \<Rightarrow> Request" where
  "builder_header k v req = req\<lparr>headers := header_set (headers req) k v\<rparr>"

definition builder_body :: "string \<Rightarrow> Request \<Rightarrow> Request" where
  "builder_body b req = req\<lparr>body := b\<rparr>"

definition range :: "nat \<Rightarrow> nat option \<Rightarrow> Request \<Rightarrow> Request" where
  "range start stop req =
     builder_header ''range''
       (case stop of Some e \<Rightarrow> ''bytes='' @ decimal start @ ''-'' @ decimal e | None \<Rightarrow> ''bytes='' @ decimal start @ ''-'') req"

type_synonym answer = "nat \<times> string list \<times> HttpError option"

record disk =
  stat_ok :: bool
  open_ok :: bool
  room :: "nat option"
  flush_ok :: bool

fun write_all :: "bool \<Rightarrow> nat option \<Rightarrow> string \<Rightarrow> nat \<Rightarrow> string list \<Rightarrow> HttpError option \<Rightarrow> (nat, HttpError) result \<times> string" where
  "write_all flushes free file tot [] None = (if flushes then Ok tot else Err Io, file)"
| "write_all flushes free file tot [] (Some e) = (Err e, file)"
| "write_all flushes free file tot (c # cs) err =
     (case free of
        None \<Rightarrow> write_all flushes None (file @ c) (tot + length c) cs err
      | Some r \<Rightarrow>
          if length c \<le> r then write_all flushes (Some (r - length c)) (file @ c) (tot + length c) cs err
          else (Err Io, file @ take r c))"

definition download_to_file :: "disk \<Rightarrow> (Request \<Rightarrow> (answer, HttpError) result) \<Rightarrow> string \<Rightarrow> string option \<Rightarrow>
    (nat, HttpError) result \<times> string option" where
  "download_to_file d send url file =
     (let existing = (case file of Some f \<Rightarrow> if stat_ok d then length f else 0 | None \<Rightarrow> 0)
      in case builder Get url of
           Err e \<Rightarrow> (Err e, file)
         | Ok b \<Rightarrow>
             (case send (if existing > 0 then range existing None b else b) of
                Err e \<Rightarrow> (Err e, file)
              | Ok (st, chunks, err) \<Rightarrow>
                  if st = 206 then
                    (case file of
                       None \<Rightarrow> (Err Io, None)
                     | Some f \<Rightarrow>
                         if open_ok d
                         then (case write_all (flush_ok d) (room d) f existing chunks err of (r, f') \<Rightarrow> (r, Some f'))
                         else (Err Io, file))
                  else if st = 416 then (Ok existing, file)
                  else if 200 \<le> st \<and> st < 300 then
                    (if open_ok d
                     then (case write_all (flush_ok d) (room d) [] 0 chunks err of (r, f') \<Rightarrow> (r, Some f'))
                     else (Err Io, file))
                  else (Err (Protocol (''unexpected status '' @ decimal st @ '' downloading '' @ url)), file)))"

section \<open>Resuming\<close>

text \<open>
  A server that serves \<open>res\<close>: the whole for a plain request; for a range within it the rest, or the whole when it
  ignores ranges; 416, or the whole, for a range that starts at or past the end. The network may cut the body anywhere,
  and the client may see that as an error or, as \<open>Body::next_chunk\<close> does when the peer closes early, as the ordinary end
  of the body. \<open>whole\<close> says that this answer is not cut short silently.
\<close>

definition delivers :: "bool \<Rightarrow> string \<Rightarrow> string list \<times> HttpError option \<Rightarrow> bool" where
  "delivers whole x a \<longleftrightarrow> prefix (concat (fst a)) x \<and> (whole \<longrightarrow> snd a = None \<longrightarrow> concat (fst a) = x)"

definition serves :: "bool \<Rightarrow> string \<Rightarrow> (Request \<Rightarrow> (answer, HttpError) result) \<Rightarrow> bool" where
  "serves whole res send \<longleftrightarrow> (\<forall>req st a. send req = Ok (st, a) \<longrightarrow>
     (case header_get (headers req) ''range'' of
        None \<Rightarrow> st = 200 \<and> delivers whole res a
      | Some v \<Rightarrow> \<forall>k. v = ''bytes='' @ decimal k @ ''-'' \<longrightarrow>
          st = 200 \<and> delivers whole res a \<or>
          (if k < length res then st = 206 \<and> delivers whole (drop k res) a else st = 416)))"

lemma write_all_prefix:
  "write_all fl free f t cs err = (r, f') \<Longrightarrow>
     (\<exists>w. f' = f @ w \<and> prefix w (concat cs)) \<and>
     (\<forall>n. r = Ok n \<longrightarrow> err = None \<and> f' = f @ concat cs \<and> n = t + length (concat cs))"
proof (induction fl free f t cs err arbitrary: r f' rule: write_all.induct)
  case (3 fl free f t c cs err)
  have step: ?case if "(\<exists>w. f' = (f @ c) @ w \<and> prefix w (concat cs)) \<and>
       (\<forall>n. r = Ok n \<longrightarrow> err = None \<and> f' = (f @ c) @ concat cs \<and> n = (t + length c) + length (concat cs))"
    using that by force
  show ?case
  proof (cases free)
    case None
    then show ?thesis using step 3(1) [OF None] 3(3) by simp
  next
    case (Some k)
    show ?thesis
    proof (cases "length c \<le> k")
      case True
      then show ?thesis using step 3(2) [OF Some True] 3(3) Some by simp
    next
      case False
      then have "r = Err Io" "f' = f @ take k c" using 3(3) Some by auto
      then show ?thesis by (simp add: take_is_prefix prefix_prefix)
    qed
  qed
qed (auto split: if_splits)

lemma range_header:
  "header_get (headers (range k None (request_new m u))) ''range'' = Some (''bytes='' @ decimal k @ ''-'')"
proof -
  have "\<not> CR \<in> set (decimal k)" "\<not> LF \<in> set (decimal k)"
    using digits_of_decimal [of k] by (auto simp: all_digits_def list_all_iff is_digit_def CR_def LF_def)
  then have "strip_crlf (''bytes='' @ decimal k @ ''-'') = ''bytes='' @ decimal k @ ''-''"
    by (intro strip_crlf_id) (auto simp: CR_def LF_def)
  moreover have "strip_crlf ''range'' = ''range''" by (rule strip_crlf_id) (simp_all add: CR_def LF_def)
  ultimately show ?thesis
    by (simp add: range_def builder_header_def header_get_set eq_ignore_ascii_case_def)
qed

text \<open>What one attempt does: it keeps the file a prefix of the resource, reports the size of the file when it succeeds,
  and then, unless the answer was cut short silently, the file is the resource.\<close>

definition attempt_ok :: "bool \<Rightarrow> string \<Rightarrow> (nat, HttpError) result \<times> string option \<Rightarrow> bool" where
  "attempt_ok whole res x \<longleftrightarrow> (case snd x of None \<Rightarrow> True | Some f \<Rightarrow> prefix f res) \<and>
     (\<forall>n. fst x = Ok n \<longrightarrow> (\<exists>f. snd x = Some f \<and> n = length f \<and> (whole \<longrightarrow> f = res)))"

lemma written_ok:
  assumes "delivers whole (drop (length f) res) (cs, err)" and "prefix f res"
    and "write_all fl free f (length f) cs err = (r, f')"
  shows "attempt_ok whole res (r, Some f')"
proof -
  obtain t where t: "res = f @ t" using assms(2) by (auto elim: prefixE)
  obtain w where w: "f' = f @ w" "prefix w (concat cs)"
    and n: "\<forall>n. r = Ok n \<longrightarrow> err = None \<and> f' = f @ concat cs \<and> n = length f + length (concat cs)"
    using write_all_prefix [OF assms(3)] by blast
  have "prefix (concat cs) t" and "whole \<longrightarrow> err = None \<longrightarrow> concat cs = t"
    using assms(1) t by (simp_all add: delivers_def)
  then show ?thesis using w n t by (auto simp: attempt_ok_def intro: prefix_order.trans)
qed

lemma download_step:
  assumes "serves whole res send" and "uri_parse url = Ok u"
    and "case file of None \<Rightarrow> True | Some f \<Rightarrow> prefix f res"
  shows "attempt_ok whole res (download_to_file d send url file)"
proof -
  let ?n = "case file of Some f \<Rightarrow> if stat_ok d then length f else 0 | None \<Rightarrow> 0"
  let ?b = "request_new Get u"
  let ?req = "if ?n > 0 then range ?n None ?b else ?b"
  have b: "builder Get url = Ok ?b" using assms(2) by (simp add: builder_def)
  have same: "attempt_ok whole res (Err e, file)" for e using assms(3) by (simp add: attempt_ok_def)
  have fresh: "attempt_ok whole res (r, Some f')"
    if "delivers whole res (cs, err)" "write_all fl free [] 0 cs err = (r, f')" for cs err fl free r f'
    using written_ok [of whole "[]" res cs err] that by simp
  show ?thesis
  proof (cases "send ?req")
    case (Inl e)
    then show ?thesis using same b by (simp add: download_to_file_def Let_def)
  next
    case (Inr a)
    obtain st cs err where a: "a = (st, cs, err)" by (cases a)
    note ans = assms(1) [unfolded serves_def, rule_format, OF Inr [unfolded a]]
    consider (whole) "st = 200" "delivers whole res (cs, err)"
      | (rest) f where "file = Some f" "?n = length f" "f \<noteq> []" "st = 206" "delivers whole (drop (length f) res) (cs, err)"
      | (past) f where "file = Some f" "?n = length f" "length res \<le> length f" "st = 416"
    proof (cases "?n > 0")
      case False
      then show ?thesis using ans whole by (simp add: request_new_def header_get_def)
    next
      case True
      then obtain f where f: "file = Some f" "?n = length f" "f \<noteq> []" by (cases "file") (auto split: if_splits)
      then show ?thesis using ans range_header [of "length f" Get u] whole rest past
        by (auto split: if_splits)
    qed
    then show ?thesis
    proof cases
      case whole
      then show ?thesis using Inr a b same fresh
        by (auto simp: download_to_file_def Let_def split: prod.splits)
    next
      case (rest f)
      then show ?thesis using Inr a b same assms(3) written_ok [of whole f res cs err]
        by (auto simp: download_to_file_def Let_def split: prod.splits)
    next
      case (past f)
      then have "f = res" using assms(3) by (auto simp: prefix_def)
      then show ?thesis using past Inr a b by (auto simp: download_to_file_def Let_def attempt_ok_def)
    qed
  qed
qed

text \<open>The file after a number of attempts, whatever became of each.\<close>

fun attempts :: "string \<Rightarrow> string option \<Rightarrow> (disk \<times> (Request \<Rightarrow> (answer, HttpError) result)) list \<Rightarrow> string option" where
  "attempts url file [] = file"
| "attempts url file ((d, send) # tries) = attempts url (snd (download_to_file d send url file)) tries"

lemma attempts_prefix:
  assumes "uri_parse url = Ok u"
  shows "list_all (\<lambda>t. serves False res (snd t)) tries \<Longrightarrow> (case file of None \<Rightarrow> True | Some f \<Rightarrow> prefix f res) \<Longrightarrow>
    (case attempts url file tries of None \<Rightarrow> True | Some f \<Rightarrow> prefix f res)"
proof (induction tries arbitrary: "file")
  case (Cons t tries)
  obtain d send where t: "t = (d, send)" by (cases t)
  have "case snd (download_to_file d send url file) of None \<Rightarrow> True | Some f \<Rightarrow> prefix f res"
    using download_step [of False res send url u "file" d] assms Cons.prems t by (simp add: attempt_ok_def)
  then show ?case using Cons t by simp
qed simp

text \<open>C36: a download started from nothing never corrupts the file. After any number of attempts against a server
  of the resource, each cut off anywhere, by an error or by a silent end of the body, with the file system failing in
  any of them, the file is absent or holds a prefix of the resource. When the next attempt succeeds, it reports the
  number of bytes in the file, and unless its answer is one that ends short without an error, the file is the
  resource, whole and once.\<close>

theorem download_resumes:
  assumes "uri_parse url = Ok u" and "list_all (\<lambda>t. serves False res (snd t)) tries" and "serves whole res send"
    and "download_to_file d send url (attempts url None tries) = (r, file')"
  shows "(\<forall>f. attempts url None tries = Some f \<longrightarrow> prefix f res) \<and> (\<forall>f. file' = Some f \<longrightarrow> prefix f res) \<and>
    (\<forall>n. r = Ok n \<longrightarrow> (\<exists>f. file' = Some f \<and> n = length f \<and> (whole \<longrightarrow> f = res)))"
proof -
  have before_ok: "case attempts url None tries of None \<Rightarrow> True | Some f \<Rightarrow> prefix f res"
    using attempts_prefix [OF assms(1,2), of None] by simp
  from download_step [OF assms(3,1) before_ok, of d] before_ok show ?thesis
    unfolding assms(4) by (auto simp: attempt_ok_def)
qed

definition good_disk :: disk where
  "good_disk = \<lparr>stat_ok = True, open_ok = True, room = None, flush_ok = True\<rparr>"

definition serve_abc :: "nat \<Rightarrow> HttpError option \<Rightarrow> Request \<Rightarrow> (answer, HttpError) result" where
  "serve_abc n err req = (case header_get (headers req) ''range'' of
     None \<Rightarrow> Ok (200, [take n ''abc''], err)
   | Some v \<Rightarrow> if v = ''bytes=2-'' then Ok (206, [take n ''c''], err) else Err Timeout)"

lemma char_two: "char_of (50 :: nat) = CHR ''2''"
  by code_simp

lemma decimal_two: "decimal k = ''2'' \<longleftrightarrow> k = 2"
proof
  assume "decimal k = ''2''"
  then have "nat_of_digits (decimal k) = nat_of_digits ''2''" by simp
  moreover have "nat_of_digits ''2'' = 2" by (simp add: nat_of_digits_def digit_val_def)
  ultimately show "k = 2" by simp
qed (subst decimal.simps, simp add: digit_char_def char_two)

lemma serves_abc: "serves False ''abc'' (serve_abc n err)" "serves True ''abc'' (serve_abc 3 None)"
  unfolding serves_def serve_abc_def delivers_def
  by (auto simp: take_is_prefix decimal_two eq_commute [of "''2''"] split: option.splits if_splits)

lemma abc_steps:
  assumes "builder Get ''http://h'' = Ok (request_new Get u)"
  shows "download_to_file good_disk (serve_abc 2 err) ''http://h'' None =
      ((case err of None \<Rightarrow> Ok 2 | Some e \<Rightarrow> Err e), Some ''ab'')"
    "download_to_file good_disk (serve_abc 3 None) ''http://h'' (Some ''ab'') = (Ok 3, Some ''abc'')"
proof -
  have "header_get (headers (request_new Get u)) ''range'' = None" by (simp add: request_new_def header_get_def)
  then show "download_to_file good_disk (serve_abc 2 err) ''http://h'' None =
      ((case err of None \<Rightarrow> Ok 2 | Some e \<Rightarrow> Err e), Some ''ab'')"
    by (cases err) (simp_all add: download_to_file_def assms serve_abc_def good_disk_def)
  have "decimal 2 = ''2''" by (simp add: decimal_two)
  then show "download_to_file good_disk (serve_abc 3 None) ''http://h'' (Some ''ab'') = (Ok 3, Some ''abc'')"
    using range_header [of 2 Get u]
    by (simp add: download_to_file_def assms serve_abc_def good_disk_def numeral_2_eq_2 [symmetric])
qed

lemma builder_h: "\<exists>u. uri_parse ''http://h'' = Ok u \<and> builder Get ''http://h'' = Ok (request_new Get u)"
  by (simp add: builder_def uri_parse_def strip_prefix_def to_ascii_lowercase_def ascii_lower_def rsplit_once_def split_target_def Let_def)

theorem download_resumes_witness:
  "download_to_file good_disk (serve_abc 3 None) ''http://h'' (attempts ''http://h'' None [(good_disk, serve_abc 2 (Some Timeout))]) =
     (Ok 3, Some ''abc'') \<and> prefix ''ab'' ''abc''"
proof -
  obtain u where u: "uri_parse ''http://h'' = Ok u" "builder Get ''http://h'' = Ok (request_new Get u)" using builder_h by blast
  have a: "attempts ''http://h'' None [(good_disk, serve_abc 2 (Some Timeout))] = Some ''ab''"
    using abc_steps(1) [OF u(2)] by simp
  obtain r f where rf: "download_to_file good_disk (serve_abc 3 None) ''http://h'' (attempts ''http://h'' None [(good_disk, serve_abc 2 (Some Timeout))]) = (r, f)"
    by fastforce
  have "r = Ok 3" using abc_steps(2) [OF u(2)] rf [unfolded a] by simp
  then show ?thesis
    using download_resumes [OF u(1) _ serves_abc(2) rf] serves_abc(1) a rf by auto
qed

text \<open>A body that ends short without an error is a download that succeeds with the wrong size.\<close>

lemma truncated_download_succeeds:
  "download_to_file good_disk (serve_abc 2 None) ''http://h'' None = (Ok 2, Some ''ab'')"
  using builder_h abc_steps(1) [of _ None] by auto

end
