(* ===== verification/Sse.thy ===== *)
theory Sse
  imports Http_Core
begin

text \<open>
  Server-sent events, \<^verbatim>\<open>http/sse.rs\<close>: the wire frame of an event and the incremental decoder, with the
  round trip over any splitting of the stream into chunks.
\<close>

section \<open>Events and their frames\<close>

record Event =
  ev_data :: string
  ev_event :: "string option"
  ev_id :: "string option"
  ev_retry :: "u64 option"
  ev_comment :: "string option"

definition empty_event :: Event where
  "empty_event = \<lparr>ev_data = [], ev_event = None, ev_id = None, ev_retry = None, ev_comment = None\<rparr>"

definition event_new :: "string \<Rightarrow> Event" where
  "event_new d = empty_event\<lparr>ev_data := d\<rparr>"

definition keep_alive :: "string \<Rightarrow> Event" where
  "keep_alive t = empty_event\<lparr>ev_comment := Some t\<rparr>"

definition field_line :: "string \<Rightarrow> string \<Rightarrow> string" where
  "field_line name v = name @ '': '' @ v @ [LF]"

definition to_frame :: "Event \<Rightarrow> string" where
  "to_frame e =
     (case ev_comment e of None \<Rightarrow> [] | Some c \<Rightarrow> concat (map (field_line []) (split_on LF c))) @
     (case ev_event e of None \<Rightarrow> [] | Some v \<Rightarrow> field_line ''event'' v) @
     (case ev_id e of None \<Rightarrow> [] | Some v \<Rightarrow> field_line ''id'' v) @
     (case ev_retry e of None \<Rightarrow> [] | Some r \<Rightarrow> field_line ''retry'' (decimal (unat r))) @
     (if ev_data e \<noteq> [] \<or> ev_comment e = None \<and> ev_event e = None
      then concat (map (field_line ''data'') (split_on LF (ev_data e))) else []) @
     [LF]"

section \<open>The decoder\<close>

record SseDecoder =
  buf :: string
  cur :: Event
  dirty :: bool

definition decoder_new :: SseDecoder where
  "decoder_new = \<lparr>buf = [], cur = empty_event, dirty = False\<rparr>"

definition strip_space :: "string \<Rightarrow> string" where
  "strip_space s = (case strip_prefix '' '' s of Some r \<Rightarrow> r | None \<Rightarrow> s)"

definition field :: "string \<Rightarrow> Event \<Rightarrow> Event" where
  "field line e = (case strip_prefix '':'' line of
     Some rest \<Rightarrow>
       let c = (case ev_comment e of None \<Rightarrow> [] | Some c \<Rightarrow> c)
       in e\<lparr>ev_comment := Some ((if c = [] then [] else c @ [LF]) @ strip_space rest)\<rparr>
   | None \<Rightarrow>
       (let (name, val) = (case split_once (CHR '':'') line of Some (n, v) \<Rightarrow> (n, strip_space v) | None \<Rightarrow> (line, []))
        in if name = ''data'' then e\<lparr>ev_data := ev_data e @ val @ [LF]\<rparr>
           else if name = ''event'' then e\<lparr>ev_event := Some val\<rparr>
           else if name = ''id'' then e\<lparr>ev_id := Some val\<rparr>
           else if name = ''retry'' then (case parse_u64 val of Some ms \<Rightarrow> e\<lparr>ev_retry := Some ms\<rparr> | None \<Rightarrow> e)
           else e))"

text \<open>One line, without its line feed.\<close>

definition take_line :: "string \<Rightarrow> SseDecoder \<Rightarrow> SseDecoder \<times> Event list" where
  "take_line raw d =
     (let line = lossy (if raw \<noteq> [] \<and> last raw = CR then butlast raw else raw)
      in if line = [] then
           if dirty d then
             let e = cur d;
                 e = (if ev_data e \<noteq> [] \<and> last (ev_data e) = LF then e\<lparr>ev_data := butlast (ev_data e)\<rparr> else e)
             in (d\<lparr>cur := empty_event, dirty := False\<rparr>, [e])
           else (d, [])
         else (d\<lparr>cur := field line (cur d), dirty := True\<rparr>, []))"

lemma take_line_buf [simp]: "buf (fst (take_line raw d)) = buf d"
  by (simp add: take_line_def Let_def)

lemma take_line_keeps: "take_line raw d = (d1, es) \<Longrightarrow> buf d1 = buf d"
  using take_line_buf [of raw d] by simp

function drain_lines :: "SseDecoder \<Rightarrow> SseDecoder \<times> Event list" where
  "drain_lines d = (case split_once LF (buf d) of
     None \<Rightarrow> (d, [])
   | Some (raw, rest) \<Rightarrow>
       (let (d1, es) = take_line raw (d\<lparr>buf := rest\<rparr>); (d2, es') = drain_lines d1 in (d2, es @ es')))"
  by pat_completeness auto
termination
  by (relation "measure (\<lambda>d. length (buf d))") (auto simp: split_once_Some dest!: take_line_keeps [OF sym])

declare drain_lines.simps [simp del]

definition push :: "SseDecoder \<Rightarrow> string \<Rightarrow> SseDecoder \<times> Event list" where
  "push d bytes = drain_lines (d\<lparr>buf := buf d @ bytes\<rparr>)"

text \<open>Feeding a list of chunks one after the other.\<close>

fun push_all :: "SseDecoder \<Rightarrow> string list \<Rightarrow> SseDecoder \<times> Event list" where
  "push_all d [] = (d, [])"
| "push_all d (b # bs) = (let (d1, es) = push d b; (d2, es') = push_all d1 bs in (d2, es @ es'))"

section \<open>Chunks do not matter\<close>

lemma drain_append:
  "drain_lines (d\<lparr>buf := buf d @ b\<rparr>) =
     (let (d1, es) = drain_lines d; (d2, es') = drain_lines (d1\<lparr>buf := buf d1 @ b\<rparr>) in (d2, es @ es'))"
proof (induction d rule: drain_lines.induct)
  case (1 d)
  show ?case
  proof (cases "split_once LF (buf d)")
    case None
    then have "drain_lines d = (d, [])" by (subst drain_lines.simps) simp
    then show ?thesis by simp
  next
    case (Some rr)
    obtain raw rest where rr: "rr = (raw, rest)" by (cases rr)
    have b: "split_once LF (buf d @ b) = Some (raw, rest @ b)"
      using Some rr by (simp add: split_once_Some)
    obtain d1 es where t: "take_line raw (d\<lparr>buf := rest\<rparr>) = (d1, es)" by (cases "take_line raw (d\<lparr>buf := rest\<rparr>)")
    have d1: "buf d1 = rest" using take_line_buf [of raw "d\<lparr>buf := rest\<rparr>"] t by simp
    have t': "take_line raw (d\<lparr>buf := rest @ b\<rparr>) = (d1\<lparr>buf := rest @ b\<rparr>, es)"
      using t by (auto simp: take_line_def Let_def split: if_splits)
    have ih: "drain_lines (d1\<lparr>buf := rest @ b\<rparr>) =
        (let (d1', es) = drain_lines d1; (d2, es') = drain_lines (d1'\<lparr>buf := buf d1' @ b\<rparr>) in (d2, es @ es'))"
      using 1 [OF Some rr [symmetric] t [symmetric] refl] d1 by simp
    have l: "drain_lines (d\<lparr>buf := buf d @ b\<rparr>) = (let (d2, es') = drain_lines (d1\<lparr>buf := rest @ b\<rparr>) in (d2, es @ es'))"
      using b t' by (subst drain_lines.simps) (simp add: Let_def)
    have r: "drain_lines d = (let (d2, es') = drain_lines d1 in (d2, es @ es'))"
      using Some rr t by (subst drain_lines.simps) (simp add: Let_def)
    show ?thesis unfolding l r ih by (simp add: Let_def case_prod_unfold)
  qed
qed

lemma drain_again: "drain_lines (fst (drain_lines d)) = (fst (drain_lines d), [])"
proof (induction d rule: drain_lines.induct)
  case (1 d)
  show ?case
  proof (cases "split_once LF (buf d)")
    case None
    then show ?thesis by (subst (1 2 3) drain_lines.simps) simp
  next
    case (Some rr)
    obtain raw rest where rr: "rr = (raw, rest)" by (cases rr)
    obtain d1 es where t: "take_line raw (d\<lparr>buf := rest\<rparr>) = (d1, es)" by (cases "take_line raw (d\<lparr>buf := rest\<rparr>)")
    have "fst (drain_lines d) = fst (drain_lines d1)"
      using Some rr t by (subst drain_lines.simps) (simp add: Let_def case_prod_unfold)
    then show ?thesis using 1 [OF Some rr [symmetric] t [symmetric] refl] by simp
  qed
qed

lemma push_append: "push d (a @ b) = (let (d1, es) = push d a; (d2, es') = push d1 b in (d2, es @ es'))"
  using drain_append [of "d\<lparr>buf := buf d @ a\<rparr>" b] by (simp add: push_def)

lemma push_all_concat: "drain_lines d = (d, []) \<Longrightarrow> push_all d bs = push d (concat bs)"
proof (induction bs arbitrary: d)
  case Nil
  then show ?case by (simp add: push_def)
next
  case (Cons b bs)
  obtain d1 es where p: "push d b = (d1, es)" by (cases "push d b")
  have "drain_lines d1 = (d1, [])" using drain_again [of "d\<lparr>buf := buf d @ b\<rparr>"] p by (simp add: push_def)
  then show ?case using Cons.IH p by (simp add: push_append)
qed

section \<open>Decoding what was framed\<close>

definition line_ok :: "string \<Rightarrow> bool" where
  "line_ok l \<longleftrightarrow> CR \<notin> set l \<and> LF \<notin> set l \<and> utf8_valid (to_bytes l)"

text \<open>An event the frame can carry: its one-line fields have no line break, a comment does not begin with one,
  no carriage return, and the text is UTF-8.\<close>

definition event_ok :: "Event \<Rightarrow> bool" where
  "event_ok e \<longleftrightarrow> list_all line_ok (split_on LF (ev_data e)) \<and>
     (case ev_event e of None \<Rightarrow> True | Some v \<Rightarrow> line_ok v) \<and> (case ev_id e of None \<Rightarrow> True | Some v \<Rightarrow> line_ok v) \<and>
     (case ev_comment e of None \<Rightarrow> True | Some c \<Rightarrow> list_all line_ok (split_on LF c) \<and> (c = [] \<or> hd c \<noteq> LF))"

text \<open>The fields of an event in the order of its frame.\<close>

definition fields_of :: "Event \<Rightarrow> (string \<times> string) list" where
  "fields_of e =
     (case ev_comment e of None \<Rightarrow> [] | Some c \<Rightarrow> map (Pair []) (split_on LF c)) @
     (case ev_event e of None \<Rightarrow> [] | Some v \<Rightarrow> [(''event'', v)]) @
     (case ev_id e of None \<Rightarrow> [] | Some v \<Rightarrow> [(''id'', v)]) @
     (case ev_retry e of None \<Rightarrow> [] | Some r \<Rightarrow> [(''retry'', decimal (unat r))]) @
     (if ev_data e \<noteq> [] \<or> ev_comment e = None \<and> ev_event e = None then map (Pair ''data'') (split_on LF (ev_data e)) else [])"

definition apply_field :: "string \<times> string \<Rightarrow> Event \<Rightarrow> Event" where
  "apply_field kv = field (fst kv @ '': '' @ snd kv)"

lemma to_frame_fields: "to_frame e = concat (map (\<lambda>(n, v). field_line n v) (fields_of e)) @ [LF]"
  by (auto simp: to_frame_def fields_of_def comp_def split: option.split)

lemma fields_ne: "fields_of e \<noteq> []"
  by (auto simp: fields_of_def split: option.split)

definition names_ok :: "string \<times> string \<Rightarrow> bool" where
  "names_ok kv \<longleftrightarrow> fst kv \<in> {[], ''data'', ''event'', ''id'', ''retry''} \<and> line_ok (snd kv)"

lemma decimal_line_ok: "line_ok (decimal n)"
proof -
  have "list_all is_digit (decimal n)" using digits_of_decimal [of n] by (simp add: all_digits_def)
  then have "ascii (decimal n) \<and> CR \<notin> set (decimal n) \<and> LF \<notin> set (decimal n)"
    by (auto simp: ascii_def list_all_iff is_digit_def CR_def LF_def)
  then show ?thesis using ascii_valid by (simp add: line_ok_def)
qed

lemma fields_ok: "event_ok e \<Longrightarrow> list_all names_ok (fields_of e)"
  by (auto simp: event_ok_def fields_of_def names_ok_def list_all_iff decimal_line_ok split: option.splits)

lemma line_step:
  assumes "names_ok (n, v)"
  shows "drain_lines (d\<lparr>buf := field_line n v @ rest\<rparr>) =
    drain_lines (d\<lparr>buf := rest, cur := apply_field (n, v) (cur d), dirty := True\<rparr>)"
proof -
  let ?l = "n @ '': '' @ v"
  have n: "CR \<notin> set n" "LF \<notin> set n" "ascii n" "ascii '': ''" using assms by (auto simp: names_ok_def CR_def LF_def ascii_def)
  then have valid: "utf8_valid (to_bytes ?l)"
    using assms utf8_valid_append [OF ascii_valid [OF n(3)] utf8_valid_append [OF ascii_valid [OF n(4)]], of "to_bytes v"]
    by (simp add: names_ok_def line_ok_def)
  have clean: "LF \<notin> set ?l" "CR \<notin> set ?l"
    using assms n by (auto simp: names_ok_def line_ok_def LF_def CR_def)
  then have "last ?l \<noteq> CR" using last_in_set [of ?l] by fastforce
  then have t: "take_line ?l (d\<lparr>buf := rest\<rparr>) =
      (d\<lparr>buf := rest, cur := apply_field (n, v) (cur d), dirty := True\<rparr>, [])"
    using lossy_id [OF valid] by (simp add: take_line_def Let_def apply_field_def)
  have "split_once LF (field_line n v @ rest) = Some (?l, rest)"
    using clean(1) by (simp add: split_once_Some field_line_def)
  then show ?thesis using t by (subst drain_lines.simps) (simp add: Let_def case_prod_unfold)
qed

lemma fields_step:
  "list_all names_ok fs \<Longrightarrow>
     drain_lines (d\<lparr>buf := concat (map (\<lambda>(n, v). field_line n v) fs) @ rest\<rparr>) =
     drain_lines (d\<lparr>buf := rest, cur := fold apply_field fs (cur d), dirty := dirty d \<or> fs \<noteq> []\<rparr>)"
proof (induction fs arbitrary: d)
  case (Cons kv fs)
  obtain n v where kv: "kv = (n, v)" by (cases kv)
  have "drain_lines (d\<lparr>buf := field_line n v @ (concat (map (\<lambda>(n, v). field_line n v) fs) @ rest)\<rparr>) =
      drain_lines (d\<lparr>buf := concat (map (\<lambda>(n, v). field_line n v) fs) @ rest, cur := apply_field (n, v) (cur d), dirty := True\<rparr>)"
    by (rule line_step) (use Cons.prems kv in simp)
  also have "\<dots> = drain_lines (d\<lparr>buf := rest, cur := fold apply_field fs (apply_field (n, v) (cur d)), dirty := True\<rparr>)"
    using Cons.IH [of "d\<lparr>cur := apply_field (n, v) (cur d), dirty := True\<rparr>"] Cons.prems
    by (cases d) simp
  finally show ?case by (simp add: kv)
qed simp

lemma apply_named [simp]:
  "apply_field ([], v) e = e\<lparr>ev_comment := Some (case ev_comment e of None \<Rightarrow> v | Some c \<Rightarrow> if c = [] then v else c @ LF # v)\<rparr>"
  "apply_field (''event'', v) e = e\<lparr>ev_event := Some v\<rparr>"
  "apply_field (''id'', v) e = e\<lparr>ev_id := Some v\<rparr>"
  "apply_field (''data'', v) e = e\<lparr>ev_data := ev_data e @ v @ [LF]\<rparr>"
  "apply_field (''retry'', decimal (unat r)) e = e\<lparr>ev_retry := Some r\<rparr>"
proof -
  have r: "parse_u64 (decimal (unat r)) = Some r"
    using parse_u64_decimal [of "unat r"] unsigned_less [of r] by simp
  have sp: "strip_space (CHR '' '' # s) = s" for s by (simp add: strip_space_def strip_prefix_def)
  show "apply_field ([], v) e = e\<lparr>ev_comment := Some (case ev_comment e of None \<Rightarrow> v | Some c \<Rightarrow> if c = [] then v else c @ LF # v)\<rparr>"
    by (simp add: apply_field_def field_def strip_prefix_def sp Let_def split: option.split)
  show "apply_field (''event'', v) e = e\<lparr>ev_event := Some v\<rparr>" "apply_field (''id'', v) e = e\<lparr>ev_id := Some v\<rparr>"
    "apply_field (''data'', v) e = e\<lparr>ev_data := ev_data e @ v @ [LF]\<rparr>"
    "apply_field (''retry'', decimal (unat r)) e = e\<lparr>ev_retry := Some r\<rparr>"
    by (simp_all add: apply_field_def field_def strip_prefix_def sp r)
qed

lemma fold_data: "fold apply_field (map (Pair ''data'') ls) e = e\<lparr>ev_data := ev_data e @ concat (map (\<lambda>l. l @ [LF]) ls)\<rparr>"
  by (induction ls arbitrary: e) simp_all

lemma fold_comment:
  "ev_comment e = Some a \<Longrightarrow> a \<noteq> [] \<Longrightarrow>
     fold apply_field (map (Pair []) ls) e = e\<lparr>ev_comment := Some (a @ concat (map (Cons LF) ls))\<rparr>"
  by (induction ls arbitrary: e a) simp_all

lemma split_on_hd_tl: "hd (split_on c s) @ concat (map (Cons c) (tl (split_on c s))) = s"
proof (induction s)
  case (Cons x xs)
  then show ?case by (cases "split_on c xs") auto
qed simp

lemma fold_comment_split:
  assumes "ev_comment e = None" and "c = [] \<or> hd c \<noteq> LF"
  shows "fold apply_field (map (Pair []) (split_on LF c)) e = e\<lparr>ev_comment := Some c\<rparr>"
proof (cases c)
  case (Cons x xs)
  obtain l ls where l: "split_on LF c = l # ls" by (cases "split_on LF c") simp_all
  then have "l \<noteq> []" using Cons assms(2) by auto
  then show ?thesis using l split_on_hd_tl [of LF c] assms(1) by (simp add: fold_comment)
qed (use assms in simp)

lemma decode_fields:
  assumes "event_ok e"
  shows "fold apply_field (fields_of e) empty_event = e\<lparr>ev_data :=
    (if ev_data e \<noteq> [] \<or> ev_comment e = None \<and> ev_event e = None then ev_data e @ [LF] else [])\<rparr>"
  using assms
  by (auto simp: fields_of_def fold_data fold_comment_split split_on_join event_ok_def empty_event_def split: option.split)

lemma push_frame:
  assumes "event_ok e"
  shows "push decoder_new (to_frame e) = (decoder_new, [e])"
proof -
  let ?x = "fold apply_field (fields_of e) empty_event"
  have "push decoder_new (to_frame e) = drain_lines (decoder_new\<lparr>buf := [LF], cur := ?x, dirty := True\<rparr>)"
    using fields_step [OF fields_ok [OF assms], of "[LF]" decoder_new] fields_ne [of e]
    by (simp add: push_def to_frame_fields decoder_new_def)
  also have "\<dots> = (decoder_new, [e])"
  proof -
    have l: "lossy [] = []" by (rule lossy_id) (simp add: ascii_valid [of "[]", simplified])
    have "take_line [] (decoder_new\<lparr>cur := ?x, dirty := True\<rparr>) = (decoder_new, [e])"
      unfolding decode_fields [OF assms] by (simp add: take_line_def l Let_def decoder_new_def)
    moreover have "drain_lines decoder_new = (decoder_new, [])" by (subst drain_lines.simps) (simp add: decoder_new_def)
    ultimately show ?thesis by (subst drain_lines.simps) (simp add: decoder_new_def)
  qed
  finally show ?thesis .
qed

lemma push_frames: "list_all event_ok es \<Longrightarrow> push decoder_new (concat (map to_frame es)) = (decoder_new, es)"
proof (induction es)
  case Nil
  show ?case by (simp add: push_def) (subst drain_lines.simps, simp add: decoder_new_def)
next
  case (Cons e es)
  then show ?case by (simp add: push_append push_frame)
qed

text \<open>C35: events streamed as frames decode to exactly those events, in order, however the stream is cut into
  chunks, even inside a line or a character, and the decoder ends with nothing pending. This is for events of valid UTF-8
  without carriage returns, whose event name and identifier have no line break and whose comment does not begin with
  one; data and comments may have several lines. (Line breaks in the other fields are not escaped:
  \<open>event_name_injects\<close>.)\<close>

theorem sse_round_trip:
  assumes "list_all event_ok es" and "concat chunks = concat (map to_frame es)"
  shows "push_all decoder_new chunks = (decoder_new, es)"
proof -
  have "drain_lines decoder_new = (decoder_new, [])" by (subst drain_lines.simps) (simp add: decoder_new_def)
  then show ?thesis using push_all_concat [of decoder_new chunks] push_frames [OF assms(1)] assms(2) by simp
qed

theorem sse_round_trip_witness:
  "push_all decoder_new [''da'', ''ta: h'', ''i'' @ [LF], [LF]] = (decoder_new, [event_new ''hi''])"
proof (rule sse_round_trip)
  have "line_ok ''hi''" using ascii_valid [of "''hi''"] by (simp add: line_ok_def CR_def LF_def)
  then show "list_all event_ok [event_new ''hi'']" by (simp add: event_ok_def event_new_def empty_event_def LF_def)
  show "concat [''da'', ''ta: h'', ''i'' @ [LF], [LF]] = concat (map to_frame [event_new ''hi''])"
    by (simp add: to_frame_def event_new_def empty_event_def field_line_def LF_def)
qed

text \<open>A line break in a one-line field is not escaped: it forges fields and events.\<close>

lemma event_name_injects:
  "to_frame ((event_new ''x'')\<lparr>ev_event := Some (''a'' @ [LF] @ ''data: forged'' @ [LF, LF] @ ''event: b'')\<rparr>) =
    to_frame ((event_new ''forged'')\<lparr>ev_event := Some ''a''\<rparr>) @ to_frame ((event_new ''x'')\<lparr>ev_event := Some ''b''\<rparr>)"
  by (simp add: to_frame_def event_new_def empty_event_def field_line_def LF_def)

end
