(* ===== verification/Turbo.thy ===== *)
theory Turbo
  imports Http_Wire Auth
begin

text \<open>
  The router of \<^verbatim>\<open>turbo/mod.rs\<close>: patterns, parameters, registration, groups, filters, the authenticator,
  middlewares and dispatch. Handlers, filters and middlewares are functions; a middleware gets the rest
  of the chain as a function.
\<close>

section \<open>The request context\<close>

record Ctx =
  request :: Request
  params :: "string \<rightharpoonup> string"

datatype ParamError = Missing string | Invalid string string

text \<open>\<^verbatim>\<open>u8::from_str_radix(h, 16)\<close> on two bytes: a sign is allowed.\<close>

definition hex_byte :: "char \<Rightarrow> char \<Rightarrow> char option" where
  "hex_byte a b = (case parse_hex [a, b] of Some v \<Rightarrow> if v < 256 then Some (char_of v) else None | None \<Rightarrow> None)"

fun percent_bytes :: "string \<Rightarrow> string" where
  "percent_bytes [] = []"
| "percent_bytes (c # cs) =
     (if c = CHR ''+'' then CHR '' '' # percent_bytes cs
      else if c = CHR ''%'' then
        (case cs of
           a # b # r \<Rightarrow> (case hex_byte a b of Some x \<Rightarrow> x # percent_bytes r | None \<Rightarrow> c # percent_bytes cs)
         | _ \<Rightarrow> c # percent_bytes cs)
      else c # percent_bytes cs)"

definition percent_decode :: "string \<Rightarrow> string" where
  "percent_decode s = lossy (percent_bytes s)"

fun find_pair :: "string \<Rightarrow> string list \<Rightarrow> string option" where
  "find_pair name [] = None"
| "find_pair name (pair # pairs) =
     (let (k, v) = (case split_once (CHR ''='') pair of Some kv \<Rightarrow> kv | None \<Rightarrow> (pair, []))
      in if k = name then Some (percent_decode v) else find_pair name pairs)"

definition query_param :: "Ctx \<Rightarrow> string \<Rightarrow> string option" where
  "query_param ctx name = (case query (uri (request ctx)) of
     None \<Rightarrow> None
   | Some q \<Rightarrow> find_pair name (split_on (CHR ''&'') q))"

definition query_int :: "Ctx \<Rightarrow> string \<Rightarrow> i64 option" where
  "query_int ctx name = Option.bind (query_param ctx name) (\<lambda>v. parse_i64 (trim v))"

definition query_bool :: "Ctx \<Rightarrow> string \<Rightarrow> bool option" where
  "query_bool ctx name = Option.bind (query_param ctx name) (\<lambda>v.
     let w = to_ascii_lowercase (trim v)
     in if w \<in> {''true'', ''1'', ''yes'', ''on''} then Some True
        else if w \<in> {''false'', ''0'', ''no'', ''off''} then Some False else None)"

text \<open>\<open>parse\<close> is the target type's \<^verbatim>\<open>FromStr\<close>, with its error's text.\<close>

definition param_as :: "(string \<Rightarrow> ('t, string) result) \<Rightarrow> Ctx \<Rightarrow> string \<Rightarrow> ('t, ParamError) result" where
  "param_as parse ctx name = (case params ctx name of
     None \<Rightarrow> Err (Missing name)
   | Some raw \<Rightarrow> (case parse raw of Ok t \<Rightarrow> Ok t | Err e \<Rightarrow> Err (Invalid name e)))"

definition query_as :: "(string \<Rightarrow> ('t, string) result) \<Rightarrow> Ctx \<Rightarrow> string \<Rightarrow> ('t, ParamError) result" where
  "query_as parse ctx name = (case query_param ctx name of
     None \<Rightarrow> Err (Missing name)
   | Some raw \<Rightarrow> (case parse (trim raw) of Ok t \<Rightarrow> Ok t | Err e \<Rightarrow> Err (Invalid name e)))"

definition ctx_header :: "Ctx \<Rightarrow> string \<Rightarrow> string option" where
  "ctx_header ctx name = header_get (headers (request ctx)) name"

fun negotiate_parts :: "string list \<Rightarrow> string option" where
  "negotiate_parts [] = None"
| "negotiate_parts (part # parts) =
     (let ct = trim (hd (split_on (CHR '';'') part))
      in if ct \<in> {''*/*'', ''application/*'', ''application/json'', ''text/json''} then Some ''application/json''
         else if ct \<in> {''application/xml'', ''text/xml''} then Some ''application/xml''
         else if ct \<in> {''application/yaml'', ''text/yaml'', ''application/x-yaml'', ''text/x-yaml'',
                        ''application/yml'', ''text/yml''} then Some ''application/yaml''
         else if ct \<in> {''application/toml'', ''text/toml'', ''application/x-toml''} then Some ''application/toml''
         else negotiate_parts parts)"

definition negotiate_content_type :: "string \<Rightarrow> string option" where
  "negotiate_content_type accept =
     (if trim accept = [] then Some ''application/json'' else negotiate_parts (split_on (CHR '','') accept))"

text \<open>\<open>encode ct\<close> is the codec of the content type applied to the value.\<close>

definition respond :: "(string \<Rightarrow> (string, 'e) result) \<Rightarrow> Ctx \<Rightarrow> nat \<Rightarrow> HttpResponse" where
  "respond encode ctx st =
     (case negotiate_content_type (case ctx_header ctx ''accept'' of Some a \<Rightarrow> a | None \<Rightarrow> []) of
        Some ct \<Rightarrow>
          (case encode ct of
             Ok b \<Rightarrow> (with_header ''content-type'' ct (response_new st))\<lparr>resp_body := b\<rparr>
           | Err _ \<Rightarrow> text_response 500 ''500 response encode error'')
      | None \<Rightarrow> text_response 406 ''406 Not Acceptable'')"

section \<open>Routes\<close>

datatype Seg = Static string | Param string

type_synonym Handler = "Ctx \<Rightarrow> HttpResponse"
type_synonym Filter = "Ctx \<Rightarrow> HttpResponse option"
type_synonym Middleware = "Ctx \<Rightarrow> (Ctx \<Rightarrow> HttpResponse) \<Rightarrow> HttpResponse"

record Route =
  methods :: "Method list"
  segments :: "Seg list"
  trailing_slash :: bool
  handler :: Handler

record Router =
  routes :: "Route list"
  filters :: "Filter list"
  auth :: "Filter option"
  middlewares :: "Middleware list"
  not_found :: "Handler option"
  method_not_allowed :: "Handler option"
  strict_slash :: bool

definition router_new :: Router where
  "router_new = \<lparr>routes = [], filters = [], auth = None, middlewares = [], not_found = None,
     method_not_allowed = None, strict_slash = False\<rparr>"

definition path_parts :: "string \<Rightarrow> string list" where
  "path_parts pth = filter (\<lambda>s. s \<noteq> []) (split_on (CHR ''/'') pth)"

definition parse_pattern :: "string \<Rightarrow> Seg list" where
  "parse_pattern pth =
     map (\<lambda>s. case strip_prefix '':'' s of Some name \<Rightarrow> Param name | None \<Rightarrow> Static s) (path_parts pth)"

fun match_segs :: "Seg list \<Rightarrow> string list \<Rightarrow> (string \<rightharpoonup> string) \<Rightarrow> (string \<rightharpoonup> string) option" where
  "match_segs (Static s # segs) (part # parts) ps = (if s \<noteq> part then None else match_segs segs parts ps)"
| "match_segs (Param name # segs) (part # parts) ps = match_segs segs parts (ps(name \<mapsto> part))"
| "match_segs _ _ ps = Some ps"

definition match_path :: "Seg list \<Rightarrow> string \<Rightarrow> (string \<rightharpoonup> string) option" where
  "match_path segs pth =
     (let parts = path_parts pth
      in if length parts \<noteq> length segs then None else match_segs segs parts Map.empty)"

definition ends_in_slash :: "string \<Rightarrow> bool" where
  "ends_in_slash pth \<longleftrightarrow> length pth > 1 \<and> last pth = CHR ''/''"

definition route_for :: "string \<Rightarrow> Handler \<Rightarrow> Method list \<Rightarrow> Route" where
  "route_for pth h ms =
     \<lparr>methods = ms, segments = parse_pattern pth, trailing_slash = ends_in_slash pth, handler = h\<rparr>"

definition router_add :: "string \<Rightarrow> Handler \<Rightarrow> Method list \<Rightarrow> Router \<Rightarrow> Router" where
  "router_add pth h ms r = r\<lparr>routes := routes r @ [route_for pth h ms]\<rparr>"

definition router_get :: "string \<Rightarrow> Handler \<Rightarrow> Router \<Rightarrow> Router" where
  "router_get pth h = router_add pth h [Get]"

definition router_post :: "string \<Rightarrow> Handler \<Rightarrow> Router \<Rightarrow> Router" where
  "router_post pth h = router_add pth h [Post]"

definition router_put :: "string \<Rightarrow> Handler \<Rightarrow> Router \<Rightarrow> Router" where
  "router_put pth h = router_add pth h [Put]"

definition router_delete :: "string \<Rightarrow> Handler \<Rightarrow> Router \<Rightarrow> Router" where
  "router_delete pth h = router_add pth h [Delete]"

definition router_patch :: "string \<Rightarrow> Handler \<Rightarrow> Router \<Rightarrow> Router" where
  "router_patch pth h = router_add pth h [Patch]"

definition router_head :: "string \<Rightarrow> Handler \<Rightarrow> Router \<Rightarrow> Router" where
  "router_head pth h = router_add pth h [Head]"

definition router_options :: "string \<Rightarrow> Handler \<Rightarrow> Router \<Rightarrow> Router" where
  "router_options pth h = router_add pth h [Options]"

definition set_strict_slash :: "bool \<Rightarrow> Router \<Rightarrow> Router" where
  "set_strict_slash b r = r\<lparr>strict_slash := b\<rparr>"

definition router_filter :: "Filter \<Rightarrow> Router \<Rightarrow> Router" where
  "router_filter f r = r\<lparr>filters := filters r @ [f]\<rparr>"

definition router_auth :: "Filter \<Rightarrow> Router \<Rightarrow> Router" where
  "router_auth f r = r\<lparr>auth := Some f\<rparr>"

definition layer :: "Middleware \<Rightarrow> Router \<Rightarrow> Router" where
  "layer m r = r\<lparr>middlewares := middlewares r @ [m]\<rparr>"

definition on_not_found :: "Handler \<Rightarrow> Router \<Rightarrow> Router" where
  "on_not_found h r = r\<lparr>not_found := Some h\<rparr>"

definition on_method_not_allowed :: "Handler \<Rightarrow> Router \<Rightarrow> Router" where
  "on_method_not_allowed h r = r\<lparr>method_not_allowed := Some h\<rparr>"

text \<open>\<open>verify\<close> is \<^verbatim>\<open>decode_hs256\<close> under the secret at the time of the request.\<close>

definition bearer_token :: "Ctx \<Rightarrow> string option" where
  "bearer_token ctx = Option.bind (ctx_header ctx ''authorization'') (\<lambda>h.
     case strip_prefix ''Bearer '' h of Some t \<Rightarrow> Some t | None \<Rightarrow> strip_prefix ''bearer '' h)"

definition jwt_filter :: "(bytes \<Rightarrow> string) \<Rightarrow> 'f float_ops \<Rightarrow> 'f num_ops \<Rightarrow> i64 \<Rightarrow> bytes \<Rightarrow> Filter" where
  "jwt_filter msg F N now secret ctx = (case bearer_token ctx of
     Some t \<Rightarrow>
       (case decode_hs256 msg F N now t secret of
          Some (Ok _) \<Rightarrow> None
        | _ \<Rightarrow> Some (text_response 401 ''401 invalid token''))
   | None \<Rightarrow> Some (text_response 401 ''401 missing bearer token''))"

definition jwt_auth :: "(bytes \<Rightarrow> string) \<Rightarrow> 'f float_ops \<Rightarrow> 'f num_ops \<Rightarrow> i64 \<Rightarrow> bytes \<Rightarrow> Router \<Rightarrow> Router" where
  "jwt_auth msg F N now secret = router_auth (jwt_filter msg F N now secret)"

section \<open>Groups\<close>

record Group =
  gprefix :: string
  groutes :: "Route list"
  gfilters :: "Filter list"

definition group_new :: "string \<Rightarrow> Group" where
  "group_new p = \<lparr>gprefix = rev (dropWhile (\<lambda>c. c = CHR ''/'') (rev p)), groutes = [], gfilters = []\<rparr>"

definition group_add :: "string \<Rightarrow> Handler \<Rightarrow> Method list \<Rightarrow> Group \<Rightarrow> Group" where
  "group_add pth h ms g = g\<lparr>groutes := groutes g @ [route_for (gprefix g @ pth) h ms]\<rparr>"

definition group_get :: "string \<Rightarrow> Handler \<Rightarrow> Group \<Rightarrow> Group" where
  "group_get pth h = group_add pth h [Get]"

definition group_post :: "string \<Rightarrow> Handler \<Rightarrow> Group \<Rightarrow> Group" where
  "group_post pth h = group_add pth h [Post]"

definition group_put :: "string \<Rightarrow> Handler \<Rightarrow> Group \<Rightarrow> Group" where
  "group_put pth h = group_add pth h [Put]"

definition group_delete :: "string \<Rightarrow> Handler \<Rightarrow> Group \<Rightarrow> Group" where
  "group_delete pth h = group_add pth h [Delete]"

definition group_patch :: "string \<Rightarrow> Handler \<Rightarrow> Group \<Rightarrow> Group" where
  "group_patch pth h = group_add pth h [Patch]"

definition group_filter :: "Filter \<Rightarrow> Group \<Rightarrow> Group" where
  "group_filter f g =
     g\<lparr>gfilters := gfilters g @ [\<lambda>ctx. if prefix (gprefix g) (path (uri (request ctx))) then f ctx else None]\<rparr>"

definition router_group :: "string \<Rightarrow> (Group \<Rightarrow> Group) \<Rightarrow> Router \<Rightarrow> Router" where
  "router_group p build r =
     (let g = build (group_new p)
      in r\<lparr>routes := routes r @ groutes g, filters := filters r @ gfilters g\<rparr>)"

section \<open>Dispatch\<close>

fun first_reply :: "Filter list \<Rightarrow> Ctx \<Rightarrow> HttpResponse option" where
  "first_reply [] ctx = None"
| "first_reply (f # fs) ctx = (case f ctx of Some resp \<Rightarrow> Some resp | None \<Rightarrow> first_reply fs ctx)"

text \<open>The loop over the routes: the chosen handler with its parameters, whether a route has the path, and the
  methods it allows.\<close>

type_synonym search = "(Handler \<times> (string \<rightharpoonup> string)) option \<times> bool \<times> Method list"

definition add_method :: "Method list \<Rightarrow> Method \<Rightarrow> Method list" where
  "add_method al m = (if m \<in> set al then al else al @ [m])"

fun search_routes :: "bool \<Rightarrow> Method \<Rightarrow> string \<Rightarrow> Route list \<Rightarrow> search \<Rightarrow> search" where
  "search_routes strict m pth [] acc = acc"
| "search_routes strict m pth (r # rs) (chosen, path_exists, allowed) =
     (if strict \<and> trailing_slash r \<noteq> ends_in_slash pth then search_routes strict m pth rs (chosen, path_exists, allowed)
      else case match_path (segments r) pth of
          None \<Rightarrow> search_routes strict m pth rs (chosen, path_exists, allowed)
        | Some ps \<Rightarrow>
            search_routes strict m pth rs
              (if Option.is_none chosen \<and> m \<in> set (methods r) then Some (handler r, ps) else chosen, True,
               foldl add_method allowed (methods r)))"

fun join :: "string \<Rightarrow> string list \<Rightarrow> string" where
  "join d [] = []"
| "join d [x] = x"
| "join d (x # y # ys) = x @ d @ join d (y # ys)"

definition core_dispatch :: "Router \<Rightarrow> Ctx \<Rightarrow> HttpResponse" where
  "core_dispatch sh ctx = (case first_reply (case auth sh of Some a \<Rightarrow> [a] | None \<Rightarrow> []) ctx of
     Some resp \<Rightarrow> resp
   | None \<Rightarrow> (case first_reply (filters sh) ctx of
       Some resp \<Rightarrow> resp
     | None \<Rightarrow>
         (case search_routes (strict_slash sh) (req_method (request ctx)) (path (uri (request ctx))) (routes sh) (None, False, []) of
            (Some (h, ps), _, _) \<Rightarrow> h \<lparr>request = request ctx, params = ps\<rparr>
          | (None, True, allowed) \<Rightarrow>
              with_header ''Allow'' (join '', '' (map method_str allowed))
                (case method_not_allowed sh of
                   Some h \<Rightarrow> h ctx
                 | None \<Rightarrow> text_response 405 ''405 Method Not Allowed'')
          | (None, False, _) \<Rightarrow>
              (case not_found sh of Some h \<Rightarrow> h ctx | None \<Rightarrow> text_response 404 ''404 Not Found''))))"

text \<open>\<^verbatim>\<open>Next::run\<close> from the middleware at index \<open>i\<close> on.\<close>

function next_run :: "Router \<Rightarrow> nat \<Rightarrow> Ctx \<Rightarrow> HttpResponse" where
  "next_run sh i ctx =
     (if i < length (middlewares sh) then (middlewares sh ! i) ctx (next_run sh (i + 1)) else core_dispatch sh ctx)"
  by pat_completeness auto
termination by (relation "measure (\<lambda>(sh, i, _). length (middlewares sh) - i)") auto

declare next_run.simps [simp del]

definition router_handle :: "Router \<Rightarrow> Request \<Rightarrow> HttpResponse" where
  "router_handle sh req = next_run sh 0 \<lparr>request = req, params = Map.empty\<rparr>"

end
