(* ===== verification/Turbo_Correct.thy ===== *)
theory Turbo_Correct
  imports Turbo Http_Correct
begin

text \<open>
  Correctness of the router: patterns match exactly the paths they describe, dispatch is the first
  matching route after authenticator and filters, middlewares nest, and the token gate is tight.
\<close>

section \<open>Patterns and paths\<close>

fun param_names :: "Seg list \<Rightarrow> string list" where
  "param_names [] = []"
| "param_names (Static s # segs) = param_names segs"
| "param_names (Param n # segs) = n # param_names segs"

fun fill :: "(string \<rightharpoonup> string) \<Rightarrow> Seg \<Rightarrow> string" where
  "fill ps (Static s) = s"
| "fill ps (Param n) = the (ps n)"

lemma dom_the: "dom f = insert n A \<Longrightarrow> f n = Some (the (f n))"
  by (metis domD insertI1 option.sel)

lemma match_segs_exact:
  assumes "length parts = length segs" and "distinct (param_names segs)" and "dom ps0 \<inter> set (param_names segs) = {}"
  shows "match_segs segs parts ps0 = Some ps \<longleftrightarrow>
    parts = map (fill ps) segs \<and> dom ps = dom ps0 \<union> set (param_names segs) \<and> (\<forall>n \<in> dom ps0. ps n = ps0 n)"
  using assms
proof (induction segs arbitrary: parts ps0)
  case Nil
  then show ?case by (auto intro: map_le_antisym simp: map_le_def)
next
  case (Cons seg segs)
  obtain x xs where parts: "parts = x # xs" "length xs = length segs" using Cons.prems(1) by (cases parts) auto
  show ?case
  proof (cases seg)
    case (Static s)
    then show ?thesis using Cons parts by auto
  next
    case (Param n)
    have n: "n \<notin> set (param_names segs)" "n \<notin> dom ps0" using Cons.prems(2,3) Param by auto
    have d: "dom (ps0(n \<mapsto> x)) \<inter> set (param_names segs) = {}" using Cons.prems(3) n Param by auto
    have "match_segs (seg # segs) parts ps0 = Some ps \<longleftrightarrow>
        xs = map (fill ps) segs \<and> dom ps = dom (ps0(n \<mapsto> x)) \<union> set (param_names segs) \<and>
        (\<forall>k \<in> dom (ps0(n \<mapsto> x)). ps k = (ps0(n \<mapsto> x)) k)"
      unfolding parts(1) Param match_segs.simps by (rule Cons.IH [OF parts(2) _ d]) (use Cons.prems(2) Param in simp)
    also have "\<dots> \<longleftrightarrow> parts = map (fill ps) (seg # segs) \<and> dom ps = dom ps0 \<union> set (param_names (seg # segs)) \<and>
        (\<forall>k \<in> dom ps0. ps k = ps0 k)"
      using n parts Param by (auto intro: dom_the)
    finally show ?thesis .
  qed
qed

lemma match_path_exact:
  assumes "distinct (param_names segs)"
  shows "match_path segs pth = Some ps \<longleftrightarrow> path_parts pth = map (fill ps) segs \<and> dom ps = set (param_names segs)"
proof (cases "length (path_parts pth) = length segs")
  case True
  then show ?thesis using match_segs_exact [OF True assms, of Map.empty ps] by (simp add: match_path_def Let_def)
next
  case False
  then show ?thesis by (auto simp: match_path_def Let_def dest: arg_cong [of _ _ length])
qed

text \<open>Paths written out of their parts.\<close>

definition plain_part :: "string \<Rightarrow> bool" where
  "plain_part s \<longleftrightarrow> s \<noteq> [] \<and> CHR ''/'' \<notin> set s"

definition slashed :: "string list \<Rightarrow> string" where
  "slashed parts = concat (map (Cons (CHR ''/'')) parts)"

lemma split_slashed: "list_all plain_part parts \<Longrightarrow> split_on (CHR ''/'') (slashed parts) = [] # parts"
proof (induction parts)
  case (Cons x xs)
  show ?case
  proof (cases xs)
    case Nil
    then show ?thesis using Cons.prems by (simp add: slashed_def plain_part_def split_on_last)
  next
    case (Cons y ys)
    have x: "CHR ''/'' \<notin> set x" using Cons.prems by (simp add: plain_part_def)
    have "slashed xs = CHR ''/'' # tl (slashed xs)" using Cons by (simp add: slashed_def)
    then have "split_on (CHR ''/'') (slashed (x # xs)) = [] # x # tl (split_on (CHR ''/'') (slashed xs))"
      using split_on_clean [OF x, of "tl (slashed xs)"] by (simp add: slashed_def) (metis list.sel(3) split_on.simps(2))
    then show ?thesis using Cons.IH Cons.prems by simp
  qed
qed (simp add: slashed_def)

lemma path_parts_slashed: "list_all plain_part parts \<Longrightarrow> path_parts (slashed parts) = parts"
  by (simp add: path_parts_def split_slashed) (auto simp: filter_id_conv list_all_iff plain_part_def)

lemma path_parts_append: "path_parts (a @ CHR ''/'' # b) = path_parts a @ path_parts b"
proof -
  have "split_on (CHR ''/'') (a @ CHR ''/'' # b) = split_on (CHR ''/'') a @ split_on (CHR ''/'') b"
  proof (induction a)
    case (Cons x xs)
    then show ?case by (cases "split_on (CHR ''/'') xs") (auto simp: split_on_ne)
  qed simp
  then show ?thesis by (simp add: path_parts_def)
qed

section \<open>The search\<close>

definition hit :: "Router \<Rightarrow> string \<Rightarrow> Route \<Rightarrow> (string \<rightharpoonup> string) option" where
  "hit sh pth r =
     (if strict_slash sh \<and> trailing_slash r \<noteq> ends_in_slash pth then None else match_path (segments r) pth)"

text \<open>The methods allowed on a path, each once, in the order of registration.\<close>

definition allowed_methods :: "Router \<Rightarrow> string \<Rightarrow> Method list" where
  "allowed_methods sh pth = rev (remdups (rev (concat (map methods (filter (\<lambda>r. hit sh pth r \<noteq> None) (routes sh))))))"

lemma add_methods: "distinct al \<Longrightarrow> foldl add_method al ms = rev (remdups (rev (al @ ms)))"
proof (induction ms arbitrary: al)
  case Nil
  then show ?case by (simp add: distinct_remdups_id)
next
  case (Cons m ms)
  have "distinct (add_method al m)" using Cons.prems by (simp add: add_method_def)
  then have "foldl add_method al (m # ms) = rev (remdups (rev (add_method al m @ ms)))"
    using Cons.IH by simp
  also have "remdups (rev (add_method al m @ ms)) = remdups (rev (al @ m # ms))"
  proof (cases "m \<in> set al")
    case True
    have "remdups (ys @ m # rev al) = remdups (ys @ rev al)" for ys using True by (induction ys) auto
    then show ?thesis using True by (simp add: add_method_def)
  qed (simp add: add_method_def)
  finally show ?case .
qed

lemma search_routes_spec:
  "distinct al \<Longrightarrow> search_routes (strict_slash sh) m pth rs (c, e, al) =
     ((case c of Some x \<Rightarrow> Some x
       | None \<Rightarrow> (case find (\<lambda>r. m \<in> set (methods r) \<and> hit sh pth r \<noteq> None) rs of
           Some r \<Rightarrow> Some (handler r, the (hit sh pth r)) | None \<Rightarrow> None)),
      e \<or> list_ex (\<lambda>r. hit sh pth r \<noteq> None) rs,
      foldl add_method al (concat (map methods (filter (\<lambda>r. hit sh pth r \<noteq> None) rs))))"
proof (induction rs arbitrary: c e al)
  case Nil
  then show ?case by (simp split: option.split)
next
  case (Cons r rs)
  have d: "distinct (foldl add_method al (methods r))" using add_methods [OF Cons.prems] by simp
  show ?case
  proof (cases "hit sh pth r")
    case None
    then have l: "search_routes (strict_slash sh) m pth (r # rs) (c, e, al) = search_routes (strict_slash sh) m pth rs (c, e, al)"
      by (auto simp: hit_def split: if_splits)
    show ?thesis unfolding l Cons.IH [OF Cons.prems] using None by (simp split: option.split)
  next
    case (Some ps)
    then have l: "search_routes (strict_slash sh) m pth (r # rs) (c, e, al) =
        search_routes (strict_slash sh) m pth rs
          (if Option.is_none c \<and> m \<in> set (methods r) then Some (handler r, ps) else c, True, foldl add_method al (methods r))"
      by (auto simp: hit_def split: if_splits)
    show ?thesis unfolding l Cons.IH [OF d] using Some by (simp split: option.split)
  qed
qed

section \<open>Reference dispatch\<close>

text \<open>The documented order: the authenticator, then the filters as registered, then the first route that has the
  path and the method; a path without the method is 405 with its methods, no path is 404.\<close>

definition dispatch_spec :: "Router \<Rightarrow> Ctx \<Rightarrow> HttpResponse" where
  "dispatch_spec sh ctx =
     (let m = req_method (request ctx); pth = path (uri (request ctx))
      in case find (\<lambda>f. f ctx \<noteq> None) ((case auth sh of Some a \<Rightarrow> [a] | None \<Rightarrow> []) @ filters sh) of
           Some f \<Rightarrow> the (f ctx)
         | None \<Rightarrow>
             (case find (\<lambda>r. m \<in> set (methods r) \<and> hit sh pth r \<noteq> None) (routes sh) of
                Some r \<Rightarrow> handler r \<lparr>request = request ctx, params = the (hit sh pth r)\<rparr>
              | None \<Rightarrow>
                  if list_ex (\<lambda>r. hit sh pth r \<noteq> None) (routes sh) then
                    with_header ''Allow'' (join '', '' (map method_str (allowed_methods sh pth)))
                      (case method_not_allowed sh of Some h \<Rightarrow> h ctx | None \<Rightarrow> text_response 405 ''405 Method Not Allowed'')
                  else (case not_found sh of Some h \<Rightarrow> h ctx | None \<Rightarrow> text_response 404 ''404 Not Found'')))"

lemma first_reply_find: "first_reply fs ctx = (case find (\<lambda>f. f ctx \<noteq> None) fs of Some f \<Rightarrow> f ctx | None \<Rightarrow> None)"
  by (induction fs) (auto split: option.split)

lemma find_append: "find P (a @ b) = (case find P a of Some x \<Rightarrow> Some x | None \<Rightarrow> find P b)"
  by (induction a) auto

lemma core_dispatch_eq: "core_dispatch sh ctx = dispatch_spec sh ctx"
proof -
  let ?auth = "case auth sh of Some a \<Rightarrow> [a] | None \<Rightarrow> []"
  have replies: "\<exists>y. f ctx = Some y" if "find (\<lambda>f. f ctx \<noteq> None) fs = Some f" for f :: Filter and fs
    using that by (induction fs) (auto split: if_splits)
  have s: "search_routes (strict_slash sh) (req_method (request ctx)) (path (uri (request ctx))) (routes sh) (None, False, []) =
      ((case find (\<lambda>r. req_method (request ctx) \<in> set (methods r) \<and> hit sh (path (uri (request ctx))) r \<noteq> None) (routes sh) of
          Some r \<Rightarrow> Some (handler r, the (hit sh (path (uri (request ctx))) r)) | None \<Rightarrow> None),
       list_ex (\<lambda>r. hit sh (path (uri (request ctx))) r \<noteq> None) (routes sh),
       allowed_methods sh (path (uri (request ctx))))"
    using search_routes_spec [of "[]" sh] add_methods [of "[]"] by (simp add: allowed_methods_def)
  show ?thesis
  proof (cases "find (\<lambda>f. f ctx \<noteq> None) (?auth @ filters sh)")
    case None
    then have "first_reply ?auth ctx = None" "first_reply (filters sh) ctx = None"
      by (auto simp: first_reply_find find_append split: option.splits)
    then show ?thesis using None unfolding core_dispatch_def dispatch_spec_def s Let_def
      by (simp split: option.split)
  next
    case (Some f)
    then obtain y where "f ctx = Some y" using replies by blast
    then show ?thesis using Some
      by (auto simp: core_dispatch_def dispatch_spec_def first_reply_find find_append Let_def split: option.splits if_splits)
  qed
qed

text \<open>Middlewares wrap the dispatch like the layers of an onion, the first registered outermost.\<close>

lemma next_run_eq:
  "i \<le> length (middlewares sh) \<Longrightarrow> next_run sh i = foldr (\<lambda>mw k ctx. mw ctx k) (drop i (middlewares sh)) (core_dispatch sh)"
proof (induction "length (middlewares sh) - i" arbitrary: i)
  case 0
  then show ?case by (intro ext) (subst next_run.simps, simp)
next
  case (Suc n)
  then have i: "i < length (middlewares sh)" by simp
  then have "next_run sh (i + 1) = foldr (\<lambda>mw k ctx. mw ctx k) (drop (i + 1) (middlewares sh)) (core_dispatch sh)"
    using Suc by simp
  then show ?case using i by (intro ext) (subst next_run.simps, simp add: Cons_nth_drop_Suc [symmetric])
qed

section \<open>Query strings\<close>

text \<open>The encoding of a form value, for reference: unreserved bytes as they are, the others in hexadecimal.\<close>

definition unreserved :: "char \<Rightarrow> bool" where
  "unreserved c \<longleftrightarrow> (let n = (of_char c :: nat) in 48 \<le> n \<and> n \<le> 57 \<or> 65 \<le> n \<and> n \<le> 90 \<or> 97 \<le> n \<and> n \<le> 122) \<or>
     c \<in> set ''-_.~''"

definition percent_encode :: "string \<Rightarrow> string" where
  "percent_encode s = concat (map (\<lambda>c. if unreserved c then [c] else
     [CHR ''%'', ''0123456789ABCDEF'' ! (of_char c div 16), ''0123456789ABCDEF'' ! (of_char c mod 16)]) s)"

lemma hex_byte_char: "hex_byte (''0123456789ABCDEF'' ! (of_char c div 16)) (''0123456789ABCDEF'' ! (of_char c mod 16)) = Some c"
proof -
  have lt: "of_char c < (256 :: nat)" by (rule nat_of_char_less_256)
  then have d: "of_char c div 16 < (16 :: nat)" "of_char c mod 16 < (16 :: nat)" by (simp_all add: less_mult_imp_div_less)
  have big: "of_char c < (18446744073709551616 :: nat)" by (rule less_trans [OF lt]) simp
  let ?a = "''0123456789ABCDEF'' ! (of_char c div 16)"
  have "parse_hex [?a, ''0123456789ABCDEF'' ! (of_char c mod 16)] = Some (of_char c)"
    using hex_digit_facts [OF d(1)] hex_digit_facts [OF d(2)]
    by (simp add: parse_hex_def strip_plus_def Let_def big)
  then show ?thesis using lt by (simp add: hex_byte_def)
qed

lemma percent_bytes_encode: "percent_bytes (percent_encode s) = s"
proof (induction s)
  case (Cons c s)
  have "c \<noteq> CHR ''+''" "c \<noteq> CHR ''%''" if "unreserved c" using that by (auto simp: unreserved_def)
  then show ?case using Cons hex_byte_char [of c] by (auto simp: percent_encode_def)
qed (simp add: percent_encode_def)

lemma percent_encode_clean: "CHR ''&'' \<notin> set (percent_encode s)"
proof -
  have "CHR ''&'' \<noteq> ''0123456789ABCDEF'' ! d" if "d < 16" for d
  proof
    assume "CHR ''&'' = ''0123456789ABCDEF'' ! d"
    then have "hex_value (CHR ''&'') = Some d" using hex_digit_facts(1) [OF that] by simp
    then show False by (simp add: hex_value_def)
  qed
  moreover have "of_char c div 16 < (16 :: nat)" for c :: char
    using nat_of_char_less_256 [of c] by (simp add: less_mult_imp_div_less)
  moreover have "\<not> unreserved (CHR ''&'')" by (simp add: unreserved_def)
  ultimately show ?thesis by (auto simp: percent_encode_def)
qed

definition query_string :: "(string \<times> string) list \<Rightarrow> string" where
  "query_string kvs = join ''&'' (map (\<lambda>(k, v). k @ ''='' @ percent_encode v) kvs)"

definition key_ok :: "string \<Rightarrow> bool" where
  "key_ok k \<longleftrightarrow> CHR ''&'' \<notin> set k \<and> CHR ''='' \<notin> set k"

lemma split_query:
  "kvs \<noteq> [] \<Longrightarrow> list_all (key_ok \<circ> fst) kvs \<Longrightarrow>
     split_on (CHR ''&'') (query_string kvs) = map (\<lambda>(k, v). k @ ''='' @ percent_encode v) kvs"
proof (induction kvs)
  case (Cons kv kvs)
  obtain k v where kv: "kv = (k, v)" by (cases kv)
  have c: "CHR ''&'' \<notin> set (k @ ''='' @ percent_encode v)"
    using Cons.prems(2) percent_encode_clean [of v] kv by (auto simp: key_ok_def)
  show ?case
  proof (cases kvs)
    case Nil
    then show ?thesis using split_on_last [OF c] kv by (simp add: query_string_def)
  next
    case (Cons y ys)
    have "query_string (kv # kvs) = (k @ ''='' @ percent_encode v) @ CHR ''&'' # query_string kvs"
      using Cons kv by (simp add: query_string_def)
    then show ?thesis using split_on_clean [OF c, of "query_string kvs"] Cons.IH Cons.prems Cons kv by simp
  qed
qed simp

lemma find_pair_query:
  "list_all (key_ok \<circ> fst) kvs \<Longrightarrow>
     find_pair name (map (\<lambda>(k, v). k @ ''='' @ percent_encode v) kvs) = map_option lossy (map_of kvs name)"
proof (induction kvs)
  case (Cons kv kvs)
  obtain k v where kv: "kv = (k, v)" by (cases kv)
  have "split_once (CHR ''='') (k @ ''='' @ percent_encode v) = Some (k, percent_encode v)"
    using Cons.prems kv by (simp add: split_once_Some key_ok_def)
  then show ?case using Cons kv by (simp add: percent_decode_def percent_bytes_encode)
qed simp

section \<open>The properties\<close>

text \<open>C10: a request runs through the middlewares, first registered outermost, to the documented dispatch: the
  authenticator before all filters, filters in order, then the first registered route with that path
  and method; a path registered under other methods answers 405 listing each of them once, and an
  unknown path 404.\<close>

theorem turbo_dispatch_correct:
  "router_handle sh req =
     foldr (\<lambda>mw k ctx. mw ctx k) (middlewares sh) (dispatch_spec sh) \<lparr>request = req, params = Map.empty\<rparr>"
proof -
  have "core_dispatch sh = dispatch_spec sh" by (rule ext) (rule core_dispatch_eq)
  then show ?thesis using next_run_eq [of 0 sh] by (simp add: router_handle_def)
qed

text \<open>A pattern with distinct parameter names matches exactly the paths whose non-empty segments are its own with
  the parameters filled in, and captures precisely those values.\<close>

theorem turbo_match_exact:
  assumes "distinct (param_names (parse_pattern pat))"
  shows "match_path (parse_pattern pat) pth = Some ps \<longleftrightarrow>
    path_parts pth = map (fill ps) (parse_pattern pat) \<and> dom ps = set (param_names (parse_pattern pat))"
  by (rule match_path_exact [OF assms])

text \<open>With the token authenticator nothing else runs without a valid token: a request whose bearer token does
  not verify under the secret is answered 401 whatever the filters and routes, and one whose token
  verifies is dispatched as if there were no authenticator.\<close>

theorem turbo_jwt_gate:
  "core_dispatch (jwt_auth msg F N now secret sh) ctx =
     (case bearer_token ctx of
        None \<Rightarrow> text_response 401 ''401 missing bearer token''
      | Some t \<Rightarrow>
          if \<exists>claims. decode_hs256 msg F N now t secret = Some (Ok claims) then core_dispatch (sh\<lparr>auth := None\<rparr>) ctx
          else text_response 401 ''401 invalid token'')"
  by (auto simp: core_dispatch_def jwt_auth_def router_auth_def jwt_filter_def split: option.split sum.split)

text \<open>Every parameter of a query string written from key/value pairs is read back as it was, the first of its
  name, whatever bytes its value holds.\<close>

theorem turbo_query_round_trip:
  assumes "query (uri (request ctx)) = Some (query_string kvs)" and "kvs \<noteq> []" and "list_all (key_ok \<circ> fst) kvs"
  shows "query_param ctx name = map_option lossy (map_of kvs name)"
  by (simp only: query_param_def assms(1) option.case split_query [OF assms(2,3)] find_pair_query [OF assms(3)])

definition query_ctx :: "(string \<times> string) list \<Rightarrow> Ctx" where
  "query_ctx kvs = \<lparr>request = \<lparr>req_method = Get, uri = \<lparr>scheme = [], host = [], port = 0, path = ''/'',
     query = Some (query_string kvs)\<rparr>, headers = [], body = []\<rparr>, params = Map.empty\<rparr>"

text \<open>A group's filter sees every request for one of the group's routes whose path is written without empty
  segments.\<close>

theorem turbo_group_filter_covers:
  assumes "list_all plain_part ps" "list_all (\<lambda>s. hd s \<noteq> CHR '':'') ps" and "sub = [] \<or> hd sub = CHR ''/''"
    and "list_all plain_part qs"
    and "match_path (segments (route_for (slashed ps @ sub) h ms)) (slashed qs) = Some params'"
  shows "prefix (slashed ps) (slashed qs)"
proof -
  have pp: "path_parts (slashed ps @ sub) = ps @ path_parts sub"
  proof (cases sub)
    case (Cons c s)
    then have "sub = CHR ''/'' # s" using assms(3) by simp
    moreover have "path_parts (CHR ''/'' # s) = path_parts s" by (simp add: path_parts_def)
    ultimately show ?thesis using path_parts_append [of "slashed ps" s] path_parts_slashed [OF assms(1)] by simp
  next
    case Nil
    moreover have "path_parts [] = []" by (simp add: path_parts_def)
    ultimately show ?thesis by (simp add: path_parts_slashed [OF assms(1)])
  qed
  have st: "map (\<lambda>s. case strip_prefix '':'' s of Some name \<Rightarrow> Param name | None \<Rightarrow> Static s) ps = map Static ps"
    using assms(1,2) by (induction ps) (auto simp: strip_prefix_def plain_part_def neq_Nil_conv)
  have m: "match_segs (map Static ps @ segs) parts ps0 = Some ps1 \<Longrightarrow> length parts = length ps + length segs \<Longrightarrow> prefix ps parts"
    for segs parts ps0 ps1
  proof (induction ps arbitrary: parts)
    case (Cons x xs)
    then show ?case by (cases parts) (auto split: if_splits)
  qed simp
  have "prefix ps qs"
    using m [of _ qs Map.empty] assms(5) by (auto simp: route_for_def parse_pattern_def pp st match_path_def path_parts_slashed [OF assms(4)]
        Let_def split: if_splits)
  then show ?thesis by (auto simp: slashed_def elim!: prefixE)
qed

text \<open>The filter tests the raw path but the routes ignore empty segments: a doubled slash goes round the filter.
  And a path that merely begins with the same letters is filtered though it is not under the prefix.\<close>

definition guarded :: Router where
  "guarded = router_group ''/api'' (\<lambda>g. group_add ''/x'' (\<lambda>_. response_new 200) [Get] (group_filter (\<lambda>_. Some (response_new 403)) g))
     (router_get ''/apiary'' (\<lambda>_. response_new 200) router_new)"

definition get_path :: "string \<Rightarrow> Request" where
  "get_path p = \<lparr>req_method = Get, uri = \<lparr>scheme = [], host = [], port = 0, path = p, query = None\<rparr>, headers = [], body = []\<rparr>"

lemma group_filter_bypassed:
  "status (router_handle guarded (get_path ''/api/x'')) = 403"
  "status (router_handle guarded (get_path ''//api/x'')) = 200"
  "status (router_handle guarded (get_path ''/apiary'')) = 403"
  by (simp_all add: router_handle_def next_run.simps core_dispatch_def guarded_def router_group_def group_new_def group_filter_def
      group_add_def router_get_def router_add_def router_new_def route_for_def parse_pattern_def path_parts_def strip_prefix_def
      get_path_def match_path_def response_new_def)

text \<open>A sign passes for a hexadecimal digit.\<close>

lemma percent_sign_accepted: "percent_decode ''%+A'' = [CHR 0x0A]"
proof -
  have "char_of (10 :: nat) = CHR 0x0A" by code_simp
  then have "percent_bytes ''%+A'' = [CHR 0x0A]"
    by (simp add: hex_byte_def parse_hex_def strip_plus_def hex_value_def)
  moreover have "lossy [CHR 0x0A] = [CHR 0x0A]" by (rule lossy_id [OF ascii_valid]) simp
  ultimately show ?thesis by (simp add: percent_decode_def)
qed

end
