(* ===== verification/Turbo_Rate.thy ===== *)
theory Turbo_Rate
  imports Prelude
begin

text \<open>
  The token-bucket filter of \<^verbatim>\<open>Router::rate_limit\<close>, \<^verbatim>\<open>turbo/mod.rs\<close>: its state under the mutex, with the clock
  in nanoseconds as an argument. The operations on \<^verbatim>\<open>f64\<close> it uses are a parameter; what the theorem needs of
  them are facts of IEEE arithmetic for a finite, non-negative rate and burst.
\<close>

section \<open>The filter\<close>

record 'f f64_ops =
  f_add :: "'f \<Rightarrow> 'f \<Rightarrow> 'f"
  f_sub :: "'f \<Rightarrow> 'f \<Rightarrow> 'f"
  f_mul :: "'f \<Rightarrow> 'f \<Rightarrow> 'f"
  f_min :: "'f \<Rightarrow> 'f \<Rightarrow> 'f"
  f_less :: "'f \<Rightarrow> 'f \<Rightarrow> bool"
  f_ge :: "'f \<Rightarrow> 'f \<Rightarrow> bool"
  f_one :: 'f
  as_secs_f64 :: "nat \<Rightarrow> 'f"

definition SWEEP_INTERVAL :: nat where
  "SWEEP_INTERVAL = 60 * 1000000000"

record 'f RateState =
  buckets :: "(string \<times> 'f \<times> nat) list"
  last_sweep :: nat

definition rate_new :: "nat \<Rightarrow> 'f RateState" where
  "rate_new now = \<lparr>buckets = [], last_sweep = now\<rparr>"

text \<open>\<^verbatim>\<open>(tokens + elapsed * per_second).min(burst)\<close>; \<^verbatim>\<open>duration_since\<close> saturates at zero.\<close>

definition refill :: "'f f64_ops \<Rightarrow> 'f \<Rightarrow> 'f \<Rightarrow> 'f \<Rightarrow> nat \<Rightarrow> nat \<Rightarrow> 'f" where
  "refill A per_second burst tokens since now =
     f_min A (f_add A tokens (f_mul A (as_secs_f64 A (now - since)) per_second)) burst"

definition sweep :: "'f f64_ops \<Rightarrow> 'f \<Rightarrow> 'f \<Rightarrow> nat \<Rightarrow> 'f RateState \<Rightarrow> 'f RateState" where
  "sweep A per_second burst now st =
     (if now - last_sweep st \<ge> SWEEP_INTERVAL then
        \<lparr>buckets = filter (\<lambda>(_, tokens, since). f_less A (refill A per_second burst tokens since now) burst) (buckets st),
         last_sweep = now\<rparr>
      else st)"

text \<open>The request of one key: whether it passes, and the new state.\<close>

definition take_token :: "'f f64_ops \<Rightarrow> 'f \<Rightarrow> 'f \<Rightarrow> string \<Rightarrow> nat \<Rightarrow> 'f RateState \<Rightarrow> bool \<times> 'f RateState" where
  "take_token A per_second burst key now st =
     (let (tokens, since) = (case map_of (buckets st) key of Some e \<Rightarrow> e | None \<Rightarrow> (burst, now));
          filled = refill A per_second burst tokens since now;
          ok = f_ge A filled (f_one A)
      in (ok, st\<lparr>buckets := AList.update key (if ok then f_sub A filled (f_one A) else filled, now) (buckets st)\<rparr>))"

definition rate_limit :: "'f f64_ops \<Rightarrow> 'f \<Rightarrow> 'f \<Rightarrow> string \<Rightarrow> nat \<Rightarrow> 'f RateState \<Rightarrow> bool \<times> 'f RateState" where
  "rate_limit A per_second burst key now st = take_token A per_second burst key now (sweep A per_second burst now st)"

text \<open>The decisions on a sequence of requests.\<close>

fun decisions :: "(string \<Rightarrow> nat \<Rightarrow> 's \<Rightarrow> bool \<times> 's) \<Rightarrow> (string \<times> nat) list \<Rightarrow> 's \<Rightarrow> bool list" where
  "decisions step [] st = []"
| "decisions step ((key, now) # reqs) st =
     (let (ok, st') = step key now st in ok # decisions step reqs st')"

section \<open>The sweep loses nothing\<close>

text \<open>Facts of floating point for a finite non-negative rate and a finite burst: addition and multiplication are
  monotone, elapsed time is monotone, the minimum is one of its arguments, and zero elapsed time does
  not take tokens away.\<close>

definition ieee_laws :: "'f f64_ops \<Rightarrow> 'f \<Rightarrow> 'f \<Rightarrow> bool" where
  "ieee_laws A per_second burst \<longleftrightarrow>
     (\<forall>t d d'. d \<le> d' \<longrightarrow> f_ge A (f_add A t (f_mul A (as_secs_f64 A d) per_second)) burst \<longrightarrow>
        f_ge A (f_add A t (f_mul A (as_secs_f64 A d') per_second)) burst) \<and>
     (\<forall>x. f_ge A x burst \<longrightarrow> f_min A x burst = burst) \<and>
     (\<forall>x. \<not> f_less A (f_min A x burst) burst \<longrightarrow> f_ge A x burst) \<and>
     f_ge A (f_add A burst (f_mul A (as_secs_f64 A 0) per_second)) burst"

lemma refill_full_later:
  assumes "ieee_laws A rate burst" and "\<not> f_less A (refill A rate burst tokens since now) burst" and "now \<le> now'"
  shows "refill A rate burst tokens since now' = burst"
proof -
  have "f_ge A (f_add A tokens (f_mul A (as_secs_f64 A (now - since)) rate)) burst"
    using assms(1,2) unfolding ieee_laws_def refill_def by blast
  moreover have "now - since \<le> now' - since" using assms(3) by simp
  ultimately have "f_ge A (f_add A tokens (f_mul A (as_secs_f64 A (now' - since)) rate)) burst"
    using assms(1) unfolding ieee_laws_def by blast
  then show ?thesis using assms(1) by (simp add: ieee_laws_def refill_def)
qed

lemma refill_fresh: "ieee_laws A rate burst \<Longrightarrow> refill A rate burst burst now now = burst"
  by (simp add: ieee_laws_def refill_def)

text \<open>The swept state against the one never swept: a missing bucket is full from now on.\<close>

definition same_buckets :: "'f f64_ops \<Rightarrow> 'f \<Rightarrow> 'f \<Rightarrow> nat \<Rightarrow> 'f RateState \<Rightarrow> 'f RateState \<Rightarrow> bool" where
  "same_buckets A rate burst now st st' \<longleftrightarrow>
     (\<forall>key. map_of (buckets st) key = map_of (buckets st') key \<or>
        map_of (buckets st) key = None \<and>
        (\<exists>tokens since. map_of (buckets st') key = Some (tokens, since) \<and>
           (\<forall>n \<ge> now. refill A rate burst tokens since n = burst))) \<and>
     distinct (map fst (buckets st))"

lemma same_bucketsD:
  "same_buckets A rate burst now st st' \<Longrightarrow> map_of (buckets st) key = map_of (buckets st') key \<or>
     map_of (buckets st) key = None \<and> (\<exists>tokens since. map_of (buckets st') key = Some (tokens, since) \<and>
       (\<forall>n \<ge> now. refill A rate burst tokens since n = burst))"
  by (simp add: same_buckets_def)

lemma map_of_filter_entries:
  "distinct (map fst xs) \<Longrightarrow> map_of (filter P xs) k = (case map_of xs k of Some v \<Rightarrow> if P (k, v) then Some v else None | None \<Rightarrow> None)"
proof (induction xs)
  case (Cons x xs)
  have "map_of (filter P xs) (fst x) = None" using Cons.prems by (force simp: map_of_eq_None_iff)
  then show ?case using Cons by (cases x) (auto split: option.splits)
qed simp

lemma distinct_filter_entries: "distinct (map fst xs) \<Longrightarrow> distinct (map fst (filter P xs))"
  by (induction xs) auto

lemma sweep_same:
  assumes "ieee_laws A rate burst" and "same_buckets A rate burst now0 st st'" and "now0 \<le> now"
  shows "same_buckets A rate burst now (sweep A rate burst now st) st'"
proof -
  have d: "distinct (map fst (buckets st))" using assms(2) by (simp add: same_buckets_def)
  have old: "same_buckets A rate burst now st st'" using assms(2,3) unfolding same_buckets_def by (meson order_trans)
  show ?thesis
  proof (cases "now - last_sweep st \<ge> SWEEP_INTERVAL")
    case True
    let ?P = "\<lambda>(_, tokens, since). f_less A (refill A rate burst tokens since now) burst"
    have b: "buckets (sweep A rate burst now st) = filter ?P (buckets st)" using True by (simp add: sweep_def)
    have "map_of (filter ?P (buckets st)) k = map_of (buckets st') k \<or>
        map_of (filter ?P (buckets st)) k = None \<and> (\<exists>t s. map_of (buckets st') k = Some (t, s) \<and> (\<forall>n \<ge> now. refill A rate burst t s n = burst))"
      for k
    proof (cases "map_of (buckets st) k")
      case None
      then show ?thesis using same_bucketsD [OF old, of k] map_of_filter_entries [OF d, of ?P k] by auto
    next
      case (Some v)
      obtain t s where v: "v = (t, s)" by (cases v)
      have "map_of (buckets st') k = Some (t, s)" using same_bucketsD [OF old, of k] Some v by auto
      then show ?thesis using Some v map_of_filter_entries [OF d, of ?P k] refill_full_later [OF assms(1), of t s now] by auto
    qed
    then show ?thesis using distinct_filter_entries [OF d] by (simp add: same_buckets_def b)
  qed (use old in \<open>simp add: sweep_def\<close>)
qed

lemma same_update:
  assumes "same_buckets A rate burst now st st'"
  shows "same_buckets A rate burst now (st\<lparr>buckets := AList.update k e (buckets st)\<rparr>) (st'\<lparr>buckets := AList.update k e (buckets st')\<rparr>)"
proof -
  have "map_of (AList.update k e (buckets st)) k' = map_of (AList.update k e (buckets st')) k' \<or>
      map_of (AList.update k e (buckets st)) k' = None \<and> (\<exists>t s. map_of (AList.update k e (buckets st')) k' = Some (t, s) \<and>
        (\<forall>n \<ge> now. refill A rate burst t s n = burst))" for k'
    using same_bucketsD [OF assms, of k'] by (simp add: update_conv)
  moreover have "distinct (map fst (AList.update k e (buckets st)))"
    using assms by (simp add: same_buckets_def distinct_update)
  ultimately show ?thesis by (simp add: same_buckets_def)
qed

lemma take_token_same:
  assumes "ieee_laws A rate burst" and "same_buckets A rate burst now st st'"
    and "take_token A rate burst key now st = (ok, st1)" and "take_token A rate burst key now st' = (ok', st1')"
  shows "ok = ok' \<and> same_buckets A rate burst now st1 st1'"
proof -
  define fill where "fill = (\<lambda>x :: 'a RateState. case (case map_of (buckets x) key of Some e \<Rightarrow> e | None \<Rightarrow> (burst, now)) of
    (t, s) \<Rightarrow> refill A rate burst t s now)"
  have eq: "fill st = fill st'"
    using same_bucketsD [OF assms(2), of key] refill_fresh [OF assms(1), of now] by (auto simp: fill_def)
  have tt: "take_token A rate burst key now x = (f_ge A (fill x) (f_one A),
      x\<lparr>buckets := AList.update key (if f_ge A (fill x) (f_one A) then f_sub A (fill x) (f_one A) else fill x, now) (buckets x)\<rparr>)" for x
    by (simp add: take_token_def fill_def Let_def split: prod.split)
  show ?thesis
    using assms(3,4) eq same_update [OF assms(2)] by (auto simp: tt)
qed

lemma rate_limit_same:
  assumes "ieee_laws A rate burst" and "sorted (now0 # map snd reqs)" and "same_buckets A rate burst now0 st st'"
  shows "decisions (rate_limit A rate burst) reqs st = decisions (take_token A rate burst) reqs st'"
  using assms(2,3)
proof (induction reqs arbitrary: now0 st st')
  case (Cons req reqs)
  obtain key now where req: "req = (key, now)" by (cases req)
  have s: "same_buckets A rate burst now (sweep A rate burst now st) st'"
    by (rule sweep_same [OF assms(1) Cons.prems(2)]) (use Cons.prems(1) req in simp)
  obtain ok st1 where t: "take_token A rate burst key now (sweep A rate burst now st) = (ok, st1)"
    by (cases "take_token A rate burst key now (sweep A rate burst now st)")
  obtain ok' st1' where t': "take_token A rate burst key now st' = (ok', st1')"
    by (cases "take_token A rate burst key now st'")
  have "ok = ok' \<and> same_buckets A rate burst now st1 st1'" by (rule take_token_same [OF assms(1) s t t'])
  then show ?case using Cons.IH [of now st1 st1'] Cons.prems(1) t t' by (simp add: req rate_limit_def)
qed simp

text \<open>Dropping refilled buckets is lossless: on every sequence of requests in the order of time, the limiter that
  sweeps idle buckets takes exactly the decisions of one that keeps every bucket for ever.\<close>

theorem rate_limit_sweep_lossless:
  assumes "ieee_laws A per_second burst" and "sorted (start # map snd reqs)"
  shows "decisions (rate_limit A per_second burst) reqs (rate_new start) = decisions (take_token A per_second burst) reqs (rate_new start)"
  by (rule rate_limit_same [OF assms]) (simp add: same_buckets_def rate_new_def)

text \<open>Exact arithmetic is an instance: amounts in units of a billionth of a token.\<close>

definition exact_ops :: "nat f64_ops" where
  "exact_ops = \<lparr>f_add = (+), f_sub = (-), f_mul = (*), f_min = min, f_less = (<), f_ge = (\<ge>), f_one = 1000000000, as_secs_f64 = id\<rparr>"

end
