(* ===== verification/Rust_Coll.thy ===== *)
theory Rust_Coll
  imports Prelude "HOL-Library.Multiset"
begin

text \<open>
  Collections of the standard library that several components use: ordered maps and the stable sort.
\<close>

section \<open>Ordered maps\<close>

text \<open>A \<^verbatim>\<open>BTreeMap\<close> is the list of its entries in the order of keys.\<close>

fun bt_insert :: "'k::linorder \<Rightarrow> 'v \<Rightarrow> ('k \<times> 'v) list \<Rightarrow> ('k \<times> 'v) list" where
  "bt_insert k v [] = [(k, v)]"
| "bt_insert k v ((k', v') # r) =
     (if k < k' then (k, v) # (k', v') # r else if k = k' then (k, v) # r else (k', v') # bt_insert k v r)"

definition bt_remove :: "'k \<Rightarrow> ('k \<times> 'v) list \<Rightarrow> ('k \<times> 'v) list" where
  "bt_remove k m = filter (\<lambda>(k', _). k' \<noteq> k) m"

text \<open>\<^verbatim>\<open>if let Some(m) = map.get_mut(k)\<close>\<close>

definition bt_modify :: "'k \<Rightarrow> ('v \<Rightarrow> 'v) \<Rightarrow> ('k \<times> 'v) list \<Rightarrow> ('k \<times> 'v) list" where
  "bt_modify k f m = map (\<lambda>(k', v). (k', if k' = k then f v else v)) m"

lemma map_of_bt_insert: "map_of (bt_insert k v m) = (map_of m)(k \<mapsto> v)"
  by (induction m) auto

lemma map_of_bt_remove: "map_of (bt_remove k m) = (map_of m)(k := None)"
proof (induction m)
  case (Cons x xs)
  then show ?case by (cases x) (auto simp: bt_remove_def fun_eq_iff)
qed (simp add: bt_remove_def fun_eq_iff)

lemma map_of_bt_modify: "map_of (bt_modify k f m) k' = map_option (if k' = k then f else id) (map_of m k')"
  by (induction m) (auto simp: bt_modify_def option.map_ident)

lemma keys_bt_insert: "fst ` set (bt_insert k v m) = insert k (fst ` set m)"
proof (induction m)
  case (Cons x xs)
  then show ?case by (cases x) (simp add: insert_commute)
qed simp

lemma sorted_bt_insert: "sorted_wrt (<) (map fst m) \<Longrightarrow> sorted_wrt (<) (map fst (bt_insert k v m))"
proof (induction m)
  case (Cons x xs)
  obtain a b where x: "x = (a, b)" by (cases x)
  have "\<forall>y \<in> fst ` set (bt_insert k v xs). a < y" if "a < k"
    using that Cons.prems x unfolding keys_bt_insert by auto
  then show ?case using Cons x by (auto intro: less_trans)
qed simp

lemma map_fst_bt_modify: "map fst (bt_modify k f m) = map fst m"
  by (induction m) (auto simp: bt_modify_def)

lemma sorted_bt_remove: "sorted_wrt (<) (map fst m) \<Longrightarrow> sorted_wrt (<) (map fst (bt_remove k m))"
  by (induction m) (auto simp: bt_remove_def)

section \<open>Sorting\<close>

text \<open>A stable sort.\<close>

fun sort_insert :: "('a \<Rightarrow> 'a \<Rightarrow> bool) \<Rightarrow> 'a \<Rightarrow> 'a list \<Rightarrow> 'a list" where
  "sort_insert le x [] = [x]"
| "sort_insert le x (y # ys) = (if le x y then x # y # ys else y # sort_insert le x ys)"

definition sort_by :: "('a \<Rightarrow> 'a \<Rightarrow> bool) \<Rightarrow> 'a list \<Rightarrow> 'a list" where
  "sort_by le xs = foldr (sort_insert le) xs []"

lemma mset_sort_insert: "mset (sort_insert le x xs) = add_mset x (mset xs)"
  by (induction xs) auto

lemma mset_sort_by [simp]: "mset (sort_by le xs) = mset xs"
  by (induction xs) (auto simp: sort_by_def mset_sort_insert)

lemma set_sort_insert: "set (sort_insert le x xs) = insert x (set xs)"
  by (metis mset_sort_insert set_mset_add_mset_insert set_mset_mset)

lemma sorted_sort_insert:
  assumes "\<And>a b. a \<in> S \<Longrightarrow> b \<in> S \<Longrightarrow> le a b \<or> le b a"
    and "\<And>a b c. a \<in> S \<Longrightarrow> b \<in> S \<Longrightarrow> c \<in> S \<Longrightarrow> le a b \<Longrightarrow> le b c \<Longrightarrow> le a c"
  shows "sorted_wrt le xs \<Longrightarrow> insert x (set xs) \<subseteq> S \<Longrightarrow> sorted_wrt le (sort_insert le x xs)"
proof (induction xs)
  case (Cons y ys)
  show ?case
  proof (cases "le x y")
    case True
    have "le x z" if "z \<in> set ys" for z
      using that True Cons.prems by (intro assms(2) [of x y z]) auto
    then show ?thesis using True Cons.prems by auto
  next
    case False
    then have "le y x" using assms(1) [of x y] Cons.prems(2) by auto
    then show ?thesis using False Cons set_sort_insert [of le x ys] by auto
  qed
qed simp

lemma sorted_sort_by_on:
  assumes "\<And>a b. a \<in> S \<Longrightarrow> b \<in> S \<Longrightarrow> le a b \<or> le b a"
    and "\<And>a b c. a \<in> S \<Longrightarrow> b \<in> S \<Longrightarrow> c \<in> S \<Longrightarrow> le a b \<Longrightarrow> le b c \<Longrightarrow> le a c"
  shows "set xs \<subseteq> S \<Longrightarrow> sorted_wrt le (sort_by le xs)"
proof (induction xs)
  case (Cons x xs)
  have "set (sort_by le xs) = set xs" by (metis mset_sort_by set_mset_mset)
  then show ?case using Cons sorted_sort_insert [of S le "sort_by le xs" x, OF assms] by (simp add: sort_by_def)
qed (simp add: sort_by_def)

lemma sorted_sort_by:
  assumes "\<And>a b. le a b \<or> le b a" and "\<And>a b c. le a b \<Longrightarrow> le b c \<Longrightarrow> le a c"
  shows "sorted_wrt le (sort_by le xs)"
  by (rule sorted_sort_by_on [of UNIV]) (use assms in blast)+

end
