(* ===== verification/Genai_Select.thy ===== *)
theory Genai_Select
  imports Rust_Str Rust_Coll Codec_Value "HOL-Library.Char_ord" "HOL-Library.List_Lexorder"
begin

text \<open>
  Choosing a model, \<^verbatim>\<open>genai/router\<close>: model metadata, tasks, the registry merged from provider catalogs and
  configuration, the ranking strategies and the resolution of a task into a route. The operations on
  \<^verbatim>\<open>f64\<close> are a parameter; strings compare bytewise, as \<^verbatim>\<open>str\<close> does.
\<close>

section \<open>Models and tasks\<close>

datatype Capability = Text | Chat | Streaming | Vision | Audio | ToolUse | JsonMode | Embeddings | Reasoning

fun cap_debug :: "Capability \<Rightarrow> string" where
  "cap_debug Text = ''Text''"
| "cap_debug Chat = ''Chat''"
| "cap_debug Streaming = ''Streaming''"
| "cap_debug Vision = ''Vision''"
| "cap_debug Audio = ''Audio''"
| "cap_debug ToolUse = ''ToolUse''"
| "cap_debug JsonMode = ''JsonMode''"
| "cap_debug Embeddings = ''Embeddings''"
| "cap_debug Reasoning = ''Reasoning''"

text \<open>What routing uses of \<^verbatim>\<open>f64\<close>; \<open>p_fmt4\<close> is the format \<^verbatim>\<open>{:.4}\<close>.\<close>

record 'f price_ops =
  p_of_u32 :: "u32 \<Rightarrow> 'f"
  p_of_usize :: "nat \<Rightarrow> 'f"
  p_zero :: 'f
  p_one :: 'f
  p_million :: 'f
  p_add :: "'f \<Rightarrow> 'f \<Rightarrow> 'f"
  p_sub :: "'f \<Rightarrow> 'f \<Rightarrow> 'f"
  p_mul :: "'f \<Rightarrow> 'f \<Rightarrow> 'f"
  p_div :: "'f \<Rightarrow> 'f \<Rightarrow> 'f"
  p_neg :: "'f \<Rightarrow> 'f"
  p_lt :: "'f \<Rightarrow> 'f \<Rightarrow> bool"
  p_fmt4 :: "'f \<Rightarrow> string"

record 'f ModelInfo =
  mi_name :: string
  mi_provider :: string
  mi_display_name :: string
  mi_capabilities :: "Capability list"
  mi_max_input_tokens :: u32
  mi_max_output_tokens :: u32
  mi_input_cost :: 'f
  mi_output_cost :: 'f
  mi_metadata :: "(string \<times> string) list"

definition model_new :: "'f price_ops \<Rightarrow> string \<Rightarrow> string \<Rightarrow> 'f ModelInfo" where
  "model_new P prov nm = \<lparr>mi_name = nm, mi_provider = prov, mi_display_name = nm, mi_capabilities = [],
     mi_max_input_tokens = 0, mi_max_output_tokens = 0, mi_input_cost = p_zero P, mi_output_cost = p_zero P, mi_metadata = []\<rparr>"

definition mi_has :: "'f ModelInfo \<Rightarrow> Capability \<Rightarrow> bool" where
  "mi_has m c \<longleftrightarrow> c \<in> set (mi_capabilities m)"

definition est_cost :: "'f price_ops \<Rightarrow> 'f ModelInfo \<Rightarrow> u32 \<Rightarrow> u32 \<Rightarrow> 'f" where
  "est_cost P m i out =
     p_add P (p_mul P (p_div P (p_of_u32 P i) (p_million P)) (mi_input_cost m))
       (p_mul P (p_div P (p_of_u32 P out) (p_million P)) (mi_output_cost m))"

definition parse_capability :: "string \<Rightarrow> Capability option" where
  "parse_capability s =
     (let w = to_ascii_lowercase (trim s)
      in if w = ''text'' then Some Text
         else if w = ''chat'' then Some Chat
         else if w \<in> {''streaming'', ''stream''} then Some Streaming
         else if w \<in> {''vision'', ''image''} then Some Vision
         else if w = ''audio'' then Some Audio
         else if w \<in> {''tool_calling'', ''tool_use'', ''tooluse'', ''tools''} then Some ToolUse
         else if w \<in> {''json_mode'', ''jsonmode'', ''json''} then Some JsonMode
         else if w \<in> {''embeddings'', ''embedding''} then Some Embeddings
         else if w \<in> {''reasoning'', ''reason''} then Some Reasoning
         else None)"

datatype TaskKind = KChat | KCodeGen | KSummarize | KExtract | KClassify | KReason

datatype Priority = Speed | Cost | Quality

record 'f Task =
  t_kind :: "TaskKind option"
  t_tags :: "string list"
  t_est_input_tokens :: u32
  t_est_output_tokens :: u32
  t_max_cost_usd :: 'f
  t_priority :: Priority
  t_required :: "Capability list"
  t_pin :: "(string \<times> string) option"
  t_deadline :: "nat option"

definition task_new :: "'f price_ops \<Rightarrow> 'f Task" where
  "task_new P = \<lparr>t_kind = None, t_tags = [], t_est_input_tokens = 0, t_est_output_tokens = 0, t_max_cost_usd = p_zero P,
     t_priority = Quality, t_required = [], t_pin = None, t_deadline = None\<rparr>"

fun default_output_estimate :: "TaskKind option \<Rightarrow> u32" where
  "default_output_estimate (Some KClassify) = 64"
| "default_output_estimate (Some KExtract) = 256"
| "default_output_estimate (Some KChat) = 512"
| "default_output_estimate (Some KSummarize) = 512"
| "default_output_estimate (Some KCodeGen) = 1024"
| "default_output_estimate (Some KReason) = 2048"
| "default_output_estimate None = 512"

definition output_estimate :: "'f Task \<Rightarrow> u32" where
  "output_estimate task = (if t_est_output_tokens task > 0 then t_est_output_tokens task else default_output_estimate (t_kind task))"

section \<open>The registry\<close>

definition model_key :: "string \<Rightarrow> string \<Rightarrow> string" where
  "model_key prov nm = prov @ ''/'' @ nm"

type_synonym 'f registry = "(string \<times> 'f ModelInfo) list"

definition reg_all :: "'f registry \<Rightarrow> 'f ModelInfo list" where
  "reg_all reg = map snd reg"

definition reg_get :: "'f registry \<Rightarrow> string \<Rightarrow> string \<Rightarrow> 'f ModelInfo option" where
  "reg_get reg prov nm = map_of reg (model_key prov nm)"

definition reg_filter :: "('f ModelInfo \<Rightarrow> bool) \<Rightarrow> 'f registry \<Rightarrow> 'f ModelInfo list" where
  "reg_filter p reg = filter p (reg_all reg)"

text \<open>A provider is its name and its catalog; the set is sorted by name, the last of a name wins.\<close>

type_synonym 'f provider_set = "(string \<times> 'f ModelInfo list) list"

definition provider_set_new :: "(string \<times> 'f ModelInfo list) list \<Rightarrow> 'f provider_set" where
  "provider_set_new ps = foldl (\<lambda>m (n, c). bt_insert n c m) [] ps"

record RuleConfig =
  rc_kind :: string
  rc_provider :: string
  rc_model :: string

record 'f CostOverride =
  co_provider :: string
  co_model :: string
  co_input_cost :: 'f
  co_output_cost :: 'f

record DisabledCaps =
  dc_provider :: string
  dc_model :: string
  dc_capabilities :: "string list"

record 'f CustomModel =
  cm_provider :: string
  cm_name :: string
  cm_capabilities :: "string list"
  cm_max_input_tokens :: u32
  cm_max_output_tokens :: u32
  cm_input_cost :: 'f
  cm_output_cost :: 'f

definition to_model_info :: "'f price_ops \<Rightarrow> 'f CustomModel \<Rightarrow> 'f ModelInfo" where
  "to_model_info P c = (model_new P (cm_provider c) (cm_name c))
     \<lparr>mi_capabilities := List.map_filter parse_capability (cm_capabilities c),
      mi_max_input_tokens := cm_max_input_tokens c, mi_max_output_tokens := cm_max_output_tokens c,
      mi_input_cost := cm_input_cost c, mi_output_cost := cm_output_cost c\<rparr>"

record 'f RoutingConfig =
  default_strategy :: "string option"
  cfg_fallback_depth :: "nat option"
  cfg_rules :: "RuleConfig list"
  cost_overrides :: "'f CostOverride list"
  disabled_models :: "(string \<times> string) list"
  disabled_capabilities :: "DisabledCaps list"
  custom_models :: "'f CustomModel list"

datatype GenAiError = Template string | TemplateNotFound string | Unsupported string Capability | Transport string
  | Api nat string | ResponseParse string | GConfig string

datatype RouterError = NoRoute string | AllRoutesFailed nat GenAiError | UnknownProvider string | DeadlineExceeded
  | GenAi GenAiError | RConfig string

definition base_models :: "'f provider_set \<Rightarrow> 'f registry" where
  "base_models ps = foldl (\<lambda>reg m. bt_insert (model_key (mi_provider m) (mi_name m)) m reg) [] (concat (map snd ps))"

definition override_cost :: "'f registry \<Rightarrow> 'f CostOverride \<Rightarrow> 'f registry" where
  "override_cost reg ov =
     bt_modify (model_key (co_provider ov) (co_model ov)) (\<lambda>m. m\<lparr>mi_input_cost := co_input_cost ov, mi_output_cost := co_output_cost ov\<rparr>) reg"

definition disable_caps :: "'f registry \<Rightarrow> DisabledCaps \<Rightarrow> 'f registry" where
  "disable_caps reg dc =
     bt_modify (model_key (dc_provider dc) (dc_model dc))
       (\<lambda>m. m\<lparr>mi_capabilities := filter (\<lambda>c. c \<notin> set (List.map_filter parse_capability (dc_capabilities dc))) (mi_capabilities m)\<rparr>) reg"

fun add_custom :: "'f price_ops \<Rightarrow> 'f provider_set \<Rightarrow> 'f registry \<Rightarrow> 'f CustomModel list \<Rightarrow> ('f registry, RouterError) result" where
  "add_custom P ps reg [] = Ok reg"
| "add_custom P ps reg (c # cs) =
     (if cm_provider c \<notin> fst ` set ps then
        Err (RConfig (''custom model '' @ [CHR 0x27] @ cm_name c @ [CHR 0x27] @ '' names unregistered provider '' @
               [CHR 0x27] @ cm_provider c @ [CHR 0x27]))
      else add_custom P ps (bt_insert (model_key (cm_provider c) (cm_name c)) (to_model_info P c) reg) cs)"

definition build_registry :: "'f price_ops \<Rightarrow> 'f provider_set \<Rightarrow> 'f RoutingConfig \<Rightarrow> ('f registry, RouterError) result" where
  "build_registry P ps cfg =
     (let reg = base_models ps;
          reg = foldl override_cost reg (cost_overrides cfg);
          reg = foldl disable_caps reg (disabled_capabilities cfg);
          reg = foldl (\<lambda>reg (p, m). bt_remove (model_key p m) reg) reg (disabled_models cfg)
      in add_custom P ps reg (custom_models cfg))"

section \<open>Ranking\<close>

record 'f Candidate =
  c_provider :: string
  c_model :: string
  c_score :: 'f
  c_est_cost :: 'f

record Exclusion =
  x_provider :: string
  x_model :: string
  x_reason :: string

type_synonym 'f Ranking = "'f Candidate list \<times> Exclusion list"

definition satisfies :: "'f ModelInfo \<Rightarrow> Capability list \<Rightarrow> bool" where
  "satisfies m required \<longleftrightarrow> list_all (mi_has m) required"

fun join_strs :: "string \<Rightarrow> string list \<Rightarrow> string" where
  "join_strs d [] = []"
| "join_strs d [x] = x"
| "join_strs d (x # y # ys) = x @ d @ join_strs d (y # ys)"

definition reject_reason :: "'f price_ops \<Rightarrow> 'f ModelInfo \<Rightarrow> 'f Task \<Rightarrow> u32 \<Rightarrow> string option" where
  "reject_reason P m task out =
     (if \<not> satisfies m (t_required task) then
        Some (''missing capability: '' @ join_strs '', '' (map cap_debug (filter (\<lambda>c. \<not> mi_has m c) (t_required task))))
      else if t_est_input_tokens task > 0 \<and> mi_max_input_tokens m > 0 \<and> t_est_input_tokens task > mi_max_input_tokens m then
        Some (''input '' @ decimal (unat (t_est_input_tokens task)) @ '' > max_input_tokens '' @ decimal (unat (mi_max_input_tokens m)))
      else if p_lt P (p_zero P) (t_max_cost_usd task) \<and> p_lt P (t_max_cost_usd task) (est_cost P m (t_est_input_tokens task) out) then
        Some (''est cost '' @ p_fmt4 P (est_cost P m (t_est_input_tokens task) out) @ '' > budget '' @ p_fmt4 P (t_max_cost_usd task))
      else None)"

fun score :: "'f price_ops \<Rightarrow> 'f ModelInfo \<Rightarrow> Priority \<Rightarrow> 'f \<Rightarrow> 'f" where
  "score P m Cost c = p_neg P c"
| "score P m Speed c = p_neg P (p_of_u32 P (mi_max_input_tokens m))"
| "score P m Quality c = p_of_u32 P (mi_max_input_tokens m)"

text \<open>The comparison of \<^verbatim>\<open>sort_by\<close>: not greater. Incomparable scores count as equal.\<close>

definition ranked_before :: "'f price_ops \<Rightarrow> 'f Candidate \<Rightarrow> 'f Candidate \<Rightarrow> bool" where
  "ranked_before P a b \<longleftrightarrow>
     p_lt P (c_score b) (c_score a) \<or>
     \<not> p_lt P (c_score a) (c_score b) \<and> (c_provider a < c_provider b \<or> c_provider a = c_provider b \<and> c_model a \<le> c_model b)"

fun judge_models :: "'f price_ops \<Rightarrow> 'f Task \<Rightarrow> 'f ModelInfo list \<Rightarrow> 'f Ranking" where
  "judge_models P task [] = ([], [])"
| "judge_models P task (m # ms) =
     (let (cs, xs) = judge_models P task ms; out = output_estimate task
      in case reject_reason P m task out of
           Some reason \<Rightarrow> (cs, \<lparr>x_provider = mi_provider m, x_model = mi_name m, x_reason = reason\<rparr> # xs)
         | None \<Rightarrow>
             let cost = est_cost P m (t_est_input_tokens task) out
             in (\<lparr>c_provider = mi_provider m, c_model = mi_name m, c_score = score P m (t_priority task) cost, c_est_cost = cost\<rparr> # cs, xs))"

definition capability_rank :: "'f price_ops \<Rightarrow> 'f Task \<Rightarrow> 'f registry \<Rightarrow> 'f Ranking" where
  "capability_rank P task reg =
     (let (cs, xs) = judge_models P task (reg_all reg) in (sort_by (ranked_before P) cs, xs))"

text \<open>The cost of a target that may be missing from the registry.\<close>

definition make_candidate :: "'f price_ops \<Rightarrow> 'f registry \<Rightarrow> string \<Rightarrow> string \<Rightarrow> 'f Task \<Rightarrow> 'f \<Rightarrow> 'f Candidate" where
  "make_candidate P reg prov nm task sc =
     \<lparr>c_provider = prov, c_model = nm, c_score = sc,
      c_est_cost = (case reg_get reg prov nm of
         Some m \<Rightarrow> est_cost P m (t_est_input_tokens task) (output_estimate task) | None \<Rightarrow> p_zero P)\<rparr>"

record RuleBased =
  rules :: "(TaskKind \<times> string \<times> string) list"
  rb_default :: "(string \<times> string) option"

definition rule_rank :: "'f price_ops \<Rightarrow> RuleBased \<Rightarrow> 'f Task \<Rightarrow> 'f registry \<Rightarrow> 'f Ranking" where
  "rule_rank P rb task reg =
     (let matched = (case t_kind task of
            Some k \<Rightarrow> map (\<lambda>(i, _, p, m). make_candidate P reg p m task (p_neg P (p_of_usize P i)))
                       (List.enumerate 0 (filter (\<lambda>(k', _, _). k' = k) (rules rb)))
          | None \<Rightarrow> []);
          last_one = (case rb_default rb of
            Some (p, m) \<Rightarrow> [make_candidate P reg p m task (p_sub P (p_neg P (p_of_usize P (length matched))) (p_one P))]
          | None \<Rightarrow> [])
      in (matched @ last_one, []))"

fun composite_rank :: "('f Task \<Rightarrow> 'f registry \<Rightarrow> 'f Ranking) list \<Rightarrow> 'f Task \<Rightarrow> 'f registry \<Rightarrow> 'f Ranking" where
  "composite_rank [] task reg = ([], [])"
| "composite_rank (s # ss) task reg = (let r = s task reg in if fst r \<noteq> [] then r else composite_rank ss task reg)"

section \<open>Resolution\<close>

record 'f Route =
  primary :: "'f Candidate"
  fallbacks :: "'f Candidate list"

definition route_attempts :: "'f Route \<Rightarrow> 'f Candidate list" where
  "route_attempts r = primary r # fallbacks r"

record 'f RouteDecision =
  d_strategy :: string
  d_chosen :: "'f Candidate"
  d_fallbacks :: "'f Candidate list"
  d_considered :: "'f Candidate list"
  d_excluded :: "Exclusion list"
  d_pinned :: bool

definition resolve_inner :: "'f price_ops \<Rightarrow> string \<Rightarrow> ('f Task \<Rightarrow> 'f registry \<Rightarrow> 'f Ranking) \<Rightarrow> nat \<Rightarrow> 'f registry \<Rightarrow> 'f Task \<Rightarrow>
    ('f Route \<times> 'f RouteDecision, RouterError) result" where
  "resolve_inner P sname rank depth reg task = (case t_pin task of
     Some (p, m) \<Rightarrow>
       let chosen = make_candidate P reg p m task (p_zero P)
       in Ok (\<lparr>primary = chosen, fallbacks = []\<rparr>,
              \<lparr>d_strategy = ''pin'', d_chosen = chosen, d_fallbacks = [], d_considered = [chosen], d_excluded = [], d_pinned = True\<rparr>)
   | None \<Rightarrow> (case rank task reg of
       ([], _) \<Rightarrow> Err (NoRoute (''no model satisfied the task (strategy: '' @ sname @ '')''))
     | (c # cs, xs) \<Rightarrow>
         Ok (\<lparr>primary = c, fallbacks = take depth cs\<rparr>,
             \<lparr>d_strategy = sname, d_chosen = c, d_fallbacks = take depth cs, d_considered = c # cs, d_excluded = xs, d_pinned = False\<rparr>)))"

text \<open>The embedding router resolves with \<open>Embeddings\<close> required.\<close>

definition embedding_resolve :: "string \<Rightarrow> ('f Task \<Rightarrow> 'f registry \<Rightarrow> 'f Ranking) \<Rightarrow> nat \<Rightarrow> 'f registry \<Rightarrow> 'f Task \<Rightarrow>
    ('f Route, RouterError) result" where
  "embedding_resolve sname rank depth reg task =
     (let task = (if Embeddings \<in> set (t_required task) then task else task\<lparr>t_required := t_required task @ [Embeddings]\<rparr>)
      in case rank task reg of
           ([], _) \<Rightarrow> Err (NoRoute (''no embedding model satisfied the task (strategy: '' @ sname @ '')''))
         | (c # cs, _) \<Rightarrow> Ok \<lparr>primary = c, fallbacks = take depth cs\<rparr>)"

end
