(* ===== verification/Genai_Exec.thy ===== *)
theory Genai_Exec
  imports Genai_Select Breaker Retry
begin

text \<open>
  Running a routed call, \<^verbatim>\<open>genai/router/default_router.rs\<close> and \<^verbatim>\<open>execute.rs\<close>: the fallback loop over the
  candidates, each call under the model's circuit breaker, the retry policy and the deadline. Providers
  act on a world that carries the clock; the breakers are those of theory \<open>Breaker\<close> and the retry loop
  that of theory \<open>Retry\<close>. The loop also records what happened to each candidate and every operation on a
  breaker.
\<close>

section \<open>Requests\<close>

datatype 'v ResponseFormat = FText | FJson | FJsonSchema 'v

record ('q, 'v) CompletionRequest =
  q_model :: string
  q_max_tokens :: "u32 option"
  q_response_format :: "'v ResponseFormat option"
  q_rest :: 'q

definition clamp_options :: "('q, 'v) CompletionRequest \<Rightarrow> 'f ModelInfo \<Rightarrow> 'f Task \<Rightarrow> ('q, 'v) CompletionRequest" where
  "clamp_options req info task =
     (let req = (case q_max_tokens req of
            Some mx \<Rightarrow> if mi_max_output_tokens info > 0 \<and> mx > mi_max_output_tokens info
                       then req\<lparr>q_max_tokens := Some (mi_max_output_tokens info)\<rparr> else req
          | None \<Rightarrow> req)
      in if JsonMode \<in> set (t_required task) \<and> q_response_format req = None
         then req\<lparr>q_response_format := Some FJson\<rparr> else req)"

fun is_retryable :: "GenAiError \<Rightarrow> string option \<Rightarrow> bool" where
  "is_retryable err finish =
     (if finish = Some ''content_filter'' \<or> finish = Some ''content-filter'' then False
      else case err of
          Transport _ \<Rightarrow> True
        | Api st _ \<Rightarrow> st = 429 \<or> 500 \<le> st \<and> st \<le> 599
        | _ \<Rightarrow> False)"

section \<open>The router\<close>

text \<open>The environment: the clock of a world, the registered providers and their calls, and the timer: \<open>expires d w w'\<close>
  is the world when a timer of \<open>d\<close> fires during a call that would have led from \<open>w\<close> to \<open>w'\<close>, if it does.\<close>

record ('w, 'q, 'v, 'r) env =
  clock :: "'w \<Rightarrow> nat"
  registered :: "string \<Rightarrow> bool"
  complete :: "string \<Rightarrow> ('q, 'v) CompletionRequest \<Rightarrow> 'w \<Rightarrow> ('r, GenAiError) result \<times> 'w"
  expires :: "nat \<Rightarrow> 'w \<Rightarrow> 'w \<Rightarrow> 'w option"

type_synonym breaker_map = "string \<Rightarrow> State option"

record 'f DefaultRouter =
  dr_registry :: "'f registry"
  dr_retry :: "RetryPolicy option"
  dr_breaker_cfg :: "CircuitBreakerConfig option"
  dr_fallback_depth :: nat

definition candidate_key :: "'f Candidate \<Rightarrow> string" where
  "candidate_key c = c_provider c @ ''/'' @ c_model c"

text \<open>\<^verbatim>\<open>or_insert_with\<close>\<close>

definition breaker_for :: "breaker_map \<Rightarrow> string \<Rightarrow> State" where
  "breaker_for bs k = (case bs k of Some s \<Rightarrow> s | None \<Rightarrow> breaker_new)"

definition remaining :: "'f Task \<Rightarrow> nat \<Rightarrow> (nat option, RouterError) result" where
  "remaining task now = (case t_deadline task of
     Some dl \<Rightarrow> if now \<ge> dl then Err DeadlineExceeded else Ok (Some (dl - now))
   | None \<Rightarrow> Ok None)"

definition call_with_retry :: "('w, 'q, 'v, 'r) env \<Rightarrow> RetryPolicy option \<Rightarrow> string \<Rightarrow> ('q, 'v) CompletionRequest \<Rightarrow> 'w \<Rightarrow>
    ('r, GenAiError) result \<times> 'w" where
  "call_with_retry E pol prov req w = (case pol of
     Some p \<Rightarrow> (case retry p (\<lambda>e. is_retryable e None) (complete E prov req) w of (r, w', _) \<Rightarrow> (r, w'))
   | None \<Rightarrow> complete E prov req w)"

text \<open>What became of a candidate, and the operations on its breaker.\<close>

datatype 'r fate = Unregistered | Refused | Answered 'r | Failed GenAiError | TimedOut

type_synonym ('f, 'r) trace = "('f Candidate \<times> 'r fate) list"
type_synonym breaker_log = "(string \<times> breaker_op) list"

record 'w exec_state =
  ex_breakers :: breaker_map
  ex_world :: 'w
  ex_log :: breaker_log

text \<open>\<open>b.can_execute().is_err()\<close> on the breaker of a candidate, if breaking is configured.\<close>

definition admit :: "('w, 'q, 'v, 'r) env \<Rightarrow> CircuitBreakerConfig option \<Rightarrow> string \<Rightarrow> 'w exec_state \<Rightarrow> bool \<times> 'w exec_state" where
  "admit E cfg k st = (case cfg of
     None \<Rightarrow> (True, st)
   | Some bc \<Rightarrow>
       (case can_execute bc (clock E (ex_world st)) (breaker_for (ex_breakers st) k) of
          (r, s) \<Rightarrow> (is_ok r, st\<lparr>ex_breakers := (ex_breakers st)(k \<mapsto> s),
                               ex_log := ex_log st @ [(k, Can_execute (clock E (ex_world st)))]\<rparr>)))"

definition report :: "('w, 'q, 'v, 'r) env \<Rightarrow> CircuitBreakerConfig option \<Rightarrow> string \<Rightarrow> bool \<Rightarrow> 'w exec_state \<Rightarrow> 'w exec_state" where
  "report E cfg k ok st = (case cfg of
     None \<Rightarrow> st
   | Some bc \<Rightarrow>
       st\<lparr>ex_breakers := (ex_breakers st)(k \<mapsto> on_execution bc (clock E (ex_world st)) ok (breaker_for (ex_breakers st) k)),
          ex_log := ex_log st @ [(k, On_execution (clock E (ex_world st)) ok)]\<rparr>)"

definition prepare :: "'f registry \<Rightarrow> 'f Task \<Rightarrow> ('q, 'v) CompletionRequest \<Rightarrow> 'f Candidate \<Rightarrow> ('q, 'v) CompletionRequest" where
  "prepare reg task request c =
     (let req = request\<lparr>q_model := c_model c\<rparr>
      in case reg_get reg (c_provider c) (c_model c) of Some info \<Rightarrow> clamp_options req info task | None \<Rightarrow> req)"

definition exhausted :: "nat \<Rightarrow> GenAiError option \<Rightarrow> ('r, RouterError) result" where
  "exhausted tried final = (case final of
     Some e \<Rightarrow> Err (AllRoutesFailed tried e)
   | None \<Rightarrow> Err (NoRoute ''no attemptable candidate (providers unregistered)''))"

text \<open>The body of the loop of \<^verbatim>\<open>execute\<close> for one candidate, and of \<^verbatim>\<open>execute_stream\<close> (\<open>stream\<close>), which calls
  \<^verbatim>\<open>complete_stream\<close> once and does not report a timer that fires.\<close>

definition attempt :: "('w, 'q, 'v, 'r) env \<Rightarrow> 'f DefaultRouter \<Rightarrow> bool \<Rightarrow> 'f Task \<Rightarrow> ('q, 'v) CompletionRequest \<Rightarrow> nat option \<Rightarrow>
    'f Candidate \<Rightarrow> 'w exec_state \<Rightarrow> 'r fate \<times> 'w exec_state" where
  "attempt E dr stream task request limit c st =
     (if \<not> registered E (c_provider c) then (Unregistered, st)
      else case admit E (dr_breaker_cfg dr) (candidate_key c) st of
          (False, st1) \<Rightarrow> (Refused, st1)
        | (True, st1) \<Rightarrow>
            (case call_with_retry E (if stream then None else dr_retry dr) (c_provider c)
                    (prepare (dr_registry dr) task request c) (ex_world st1) of
               (res, w') \<Rightarrow>
                 (case Option.bind limit (\<lambda>d. expires E d (ex_world st1) w') of
                    Some w'' \<Rightarrow>
                      (let st2 = st1\<lparr>ex_world := w''\<rparr>
                       in (TimedOut, if stream then st2 else report E (dr_breaker_cfg dr) (candidate_key c) False st2))
                  | None \<Rightarrow>
                      (case res of Ok resp \<Rightarrow> Answered resp | Err e \<Rightarrow> Failed e,
                       report E (dr_breaker_cfg dr) (candidate_key c) (is_ok res) (st1\<lparr>ex_world := w'\<rparr>)))))"

fun attempt_loop :: "('w, 'q, 'v, 'r) env \<Rightarrow> 'f DefaultRouter \<Rightarrow> bool \<Rightarrow> 'f Task \<Rightarrow> ('q, 'v) CompletionRequest \<Rightarrow> 'f Candidate list \<Rightarrow>
    GenAiError option \<Rightarrow> nat \<Rightarrow> 'w exec_state \<Rightarrow> ('r, RouterError) result \<times> ('f, 'r) trace \<times> 'w exec_state" where
  "attempt_loop E dr stream task request [] final tried st = (exhausted tried final, [], st)"
| "attempt_loop E dr stream task request (c # cs) final tried st =
     (case remaining task (clock E (ex_world st)) of
        Err e \<Rightarrow> (Err e, [], st)
      | Ok limit \<Rightarrow>
          (case attempt E dr stream task request limit c st of (fate, st1) \<Rightarrow>
             let go_on = (\<lambda>final tried.
                   case attempt_loop E dr stream task request cs final tried st1 of (r, tr, st') \<Rightarrow> (r, (c, fate) # tr, st'))
             in case fate of
                  Answered resp \<Rightarrow> (Ok resp, [(c, fate)], st1)
                | TimedOut \<Rightarrow> (Err DeadlineExceeded, [(c, fate)], st1)
                | Failed e \<Rightarrow> if \<not> is_retryable e None then (Err (GenAi e), [(c, fate)], st1) else go_on (Some e) (tried + 1)
                | _ \<Rightarrow> go_on final tried))"

definition execute :: "('w, 'q, 'v, 'r) env \<Rightarrow> 'f DefaultRouter \<Rightarrow> 'f Route \<Rightarrow> 'f Task \<Rightarrow> ('q, 'v) CompletionRequest \<Rightarrow> 'w exec_state \<Rightarrow>
    ('r, RouterError) result \<times> ('f, 'r) trace \<times> 'w exec_state" where
  "execute E dr rt task request st = attempt_loop E dr False task request (route_attempts rt) None 0 st"

definition execute_stream :: "('w, 'q, 'v, 'r) env \<Rightarrow> 'f DefaultRouter \<Rightarrow> 'f Route \<Rightarrow> 'f Task \<Rightarrow> ('q, 'v) CompletionRequest \<Rightarrow> 'w exec_state \<Rightarrow>
    ('r, RouterError) result \<times> ('f, 'r) trace \<times> 'w exec_state" where
  "execute_stream E dr rt task request st = attempt_loop E dr True task request (route_attempts rt) None 0 st"

definition route_call :: "'f price_ops \<Rightarrow> ('w, 'q, 'v, 'r) env \<Rightarrow> string \<Rightarrow> ('f Task \<Rightarrow> 'f registry \<Rightarrow> 'f Ranking) \<Rightarrow> 'f DefaultRouter \<Rightarrow>
    'f Task \<Rightarrow> ('q, 'v) CompletionRequest \<Rightarrow> 'w exec_state \<Rightarrow> ('r, RouterError) result \<times> ('f, 'r) trace \<times> 'w exec_state" where
  "route_call P E sname rank dr task request st =
     (case resolve_inner P sname rank (dr_fallback_depth dr) (dr_registry dr) task of
        Err e \<Rightarrow> (Err e, [], st)
      | Ok (rt, _) \<Rightarrow> execute E dr rt task request st)"

definition route_stream :: "'f price_ops \<Rightarrow> ('w, 'q, 'v, 'r) env \<Rightarrow> string \<Rightarrow> ('f Task \<Rightarrow> 'f registry \<Rightarrow> 'f Ranking) \<Rightarrow> 'f DefaultRouter \<Rightarrow>
    'f Task \<Rightarrow> ('q, 'v) CompletionRequest \<Rightarrow> 'w exec_state \<Rightarrow> ('r, RouterError) result \<times> ('f, 'r) trace \<times> 'w exec_state" where
  "route_stream P E sname rank dr task request st =
     (case resolve_inner P sname rank (dr_fallback_depth dr) (dr_registry dr) task of
        Err e \<Rightarrow> (Err e, [], st)
      | Ok (rt, _) \<Rightarrow> execute_stream E dr rt task request st)"

definition reload :: "'f registry \<Rightarrow> 'f DefaultRouter \<Rightarrow> 'f DefaultRouter" where
  "reload reg dr = dr\<lparr>dr_registry := reg\<rparr>"

section \<open>Embeddings\<close>

text \<open>The embedding router has neither breakers, retries nor a deadline.\<close>

fun embed_loop :: "(string \<Rightarrow> ('q \<Rightarrow> 'w \<Rightarrow> ('r, GenAiError) result \<times> 'w) option) \<Rightarrow> (string \<Rightarrow> 'q) \<Rightarrow> 'f Candidate list \<Rightarrow>
    GenAiError option \<Rightarrow> nat \<Rightarrow> 'w \<Rightarrow> ('r, RouterError) result \<times> 'w" where
  "embed_loop embedders with_model [] final tried w =
     (case final of Some e \<Rightarrow> Err (AllRoutesFailed tried e) | None \<Rightarrow> Err (NoRoute ''no attemptable embedder''), w)"
| "embed_loop embedders with_model (c # cs) final tried w = (case embedders (c_provider c) of
     None \<Rightarrow> embed_loop embedders with_model cs final tried w
   | Some em \<Rightarrow>
       (case em (with_model (c_model c)) w of
          (Ok resp, w') \<Rightarrow> (Ok resp, w')
        | (Err e, w') \<Rightarrow>
            if \<not> is_retryable e None then (Err (GenAi e), w')
            else embed_loop embedders with_model cs (Some e) (tried + 1) w'))"

definition embed_call :: "string \<Rightarrow> ('f Task \<Rightarrow> 'f registry \<Rightarrow> 'f Ranking) \<Rightarrow> nat \<Rightarrow> 'f registry \<Rightarrow>
    (string \<Rightarrow> ('q \<Rightarrow> 'w \<Rightarrow> ('r, GenAiError) result \<times> 'w) option) \<Rightarrow> (string \<Rightarrow> 'q) \<Rightarrow> 'f Task \<Rightarrow> 'w \<Rightarrow> ('r, RouterError) result \<times> 'w" where
  "embed_call sname rank depth reg embedders with_model task w = (case embedding_resolve sname rank depth reg task of
     Err e \<Rightarrow> (Err e, w)
   | Ok rt \<Rightarrow> embed_loop embedders with_model (route_attempts rt) None 0 w)"

end
