(* ===== verification/Genai_Correct.thy ===== *)
theory Genai_Correct
  imports Genai_Exec
begin

text \<open>
  Correctness of the model router: the registry merges catalogs and configuration in the documented order,
  the capability strategy selects exactly the admissible models best first, the fallback loop ends with the
  first decisive outcome, and every call admitted by a circuit breaker is reported to it.
\<close>

section \<open>The registry\<close>

text \<open>Every entry sits under the key of its own model.\<close>

definition keyed :: "'f registry \<Rightarrow> bool" where
  "keyed reg \<longleftrightarrow> list_all (\<lambda>(k, m). k = model_key (mi_provider m) (mi_name m)) reg"

definition reg_ok :: "'f registry \<Rightarrow> bool" where
  "reg_ok reg \<longleftrightarrow> sorted_wrt (<) (map fst reg) \<and> keyed reg"

lemma keyed_bt_insert: "keyed reg \<Longrightarrow> keyed (bt_insert (model_key (mi_provider m) (mi_name m)) m reg)"
  by (induction reg) (auto simp: keyed_def)

lemma reg_ok_insert: "reg_ok reg \<Longrightarrow> reg_ok (bt_insert (model_key (mi_provider m) (mi_name m)) m reg)"
  by (simp add: reg_ok_def keyed_bt_insert sorted_bt_insert)

lemma reg_ok_modify:
  assumes "reg_ok reg" and "\<And>m. mi_provider (f m) = mi_provider m \<and> mi_name (f m) = mi_name m"
  shows "reg_ok (bt_modify k f reg)"
  using assms by (auto simp: reg_ok_def map_fst_bt_modify) (auto simp: keyed_def bt_modify_def list_all_iff)

lemma reg_ok_remove: "reg_ok reg \<Longrightarrow> reg_ok (bt_remove k reg)"
  by (auto simp: reg_ok_def sorted_bt_remove) (auto simp: keyed_def bt_remove_def list_all_iff)

lemma foldl_keeps: "I r \<Longrightarrow> (\<And>r x. I r \<Longrightarrow> I (f r x)) \<Longrightarrow> I (foldl f r xs)"
  by (induction xs arbitrary: r) auto

lemma reg_ok_Nil: "reg_ok []"
  by (simp add: reg_ok_def keyed_def)

lemma base_ok: "reg_ok (base_models ps)"
  unfolding base_models_def by (rule foldl_keeps [of reg_ok, OF reg_ok_Nil]) (rule reg_ok_insert)

lemma add_custom_ok: "reg_ok reg \<Longrightarrow> add_custom P ps reg cs = Ok reg' \<Longrightarrow> reg_ok reg'"
proof (induction cs arbitrary: reg)
  case (Cons c cs)
  have "mi_provider (to_model_info P c) = cm_provider c" "mi_name (to_model_info P c) = cm_name c"
    by (simp_all add: to_model_info_def model_new_def)
  then have "reg_ok (bt_insert (model_key (cm_provider c) (cm_name c)) (to_model_info P c) reg)"
    using reg_ok_insert [OF Cons.prems(1), of "to_model_info P c"] by simp
  then show ?case using Cons by (auto split: if_splits)
qed simp

lemma build_ok: "build_registry P ps cfg = Ok reg \<Longrightarrow> reg_ok reg"
proof -
  assume b: "build_registry P ps cfg = Ok reg"
  have "reg_ok (foldl override_cost (base_models ps) (cost_overrides cfg))"
    by (rule foldl_keeps [of reg_ok, OF base_ok]) (simp add: override_cost_def reg_ok_modify)
  then have "reg_ok (foldl disable_caps (foldl override_cost (base_models ps) (cost_overrides cfg)) (disabled_capabilities cfg))"
    by (rule foldl_keeps [of reg_ok]) (simp add: disable_caps_def reg_ok_modify)
  then have "reg_ok (foldl (\<lambda>reg (p, m). bt_remove (model_key p m) reg)
      (foldl disable_caps (foldl override_cost (base_models ps) (cost_overrides cfg)) (disabled_capabilities cfg)) (disabled_models cfg))"
    by (rule foldl_keeps [of reg_ok]) (auto simp: reg_ok_remove)
  then show ?thesis using b add_custom_ok by (simp add: build_registry_def Let_def) blast
qed

text \<open>What the configuration makes of one model.\<close>

definition with_costs :: "'f CostOverride list \<Rightarrow> string \<Rightarrow> 'f ModelInfo \<Rightarrow> 'f ModelInfo" where
  "with_costs ovs k m = foldl (\<lambda>m ov. if model_key (co_provider ov) (co_model ov) = k
     then m\<lparr>mi_input_cost := co_input_cost ov, mi_output_cost := co_output_cost ov\<rparr> else m) m ovs"

definition without_caps :: "DisabledCaps list \<Rightarrow> string \<Rightarrow> 'f ModelInfo \<Rightarrow> 'f ModelInfo" where
  "without_caps dcs k m = foldl (\<lambda>m dc. if model_key (dc_provider dc) (dc_model dc) = k
     then m\<lparr>mi_capabilities := filter (\<lambda>c. c \<notin> set (List.map_filter parse_capability (dc_capabilities dc))) (mi_capabilities m)\<rparr> else m) m dcs"

lemma lookup_costs: "map_of (foldl override_cost reg ovs) k = map_option (with_costs ovs k) (map_of reg k)"
proof (induction ovs arbitrary: reg)
  case Nil
  then show ?case by (simp add: with_costs_def option.map_ident)
next
  case (Cons ov ovs)
  then show ?case by (simp add: override_cost_def map_of_bt_modify with_costs_def option.map_comp comp_def)
qed

lemma lookup_caps: "map_of (foldl disable_caps reg dcs) k = map_option (without_caps dcs k) (map_of reg k)"
proof (induction dcs arbitrary: reg)
  case Nil
  then show ?case by (simp add: without_caps_def option.map_ident)
next
  case (Cons dc dcs)
  then show ?case by (simp add: disable_caps_def map_of_bt_modify without_caps_def option.map_comp comp_def)
qed

lemma lookup_disabled:
  "map_of (foldl (\<lambda>reg (p, m). bt_remove (model_key p m) reg) reg dms) k =
     (if k \<in> (\<lambda>(p, m). model_key p m) ` set dms then None else map_of reg k)"
  by (induction dms arbitrary: reg) (auto simp: map_of_bt_remove split: if_splits)

lemma find_snoc: "find Q (xs @ [x]) = (case find Q xs of Some y \<Rightarrow> Some y | None \<Rightarrow> if Q x then Some x else None)"
  by (induction xs) auto

lemma lookup_custom:
  "add_custom P ps reg cs = Ok reg' \<Longrightarrow>
     map_of reg' k = (case find (\<lambda>c. model_key (cm_provider c) (cm_name c) = k) (rev cs) of
       Some c \<Rightarrow> Some (to_model_info P c) | None \<Rightarrow> map_of reg k)"
proof (induction cs arbitrary: reg)
  case (Cons c cs)
  have "add_custom P ps (bt_insert (model_key (cm_provider c) (cm_name c)) (to_model_info P c) reg) cs = Ok reg'"
    using Cons.prems by (simp split: if_splits)
  then show ?case using Cons.IH by (auto simp: find_snoc map_of_bt_insert split: option.split)
qed simp

lemma lookup_base:
  "map_of (base_models ps) k = find (\<lambda>m. model_key (mi_provider m) (mi_name m) = k) (rev (concat (map snd ps)))"
proof -
  have "map_of (foldl (\<lambda>reg m. bt_insert (model_key (mi_provider m) (mi_name m)) m reg) reg ms) k =
      (case find (\<lambda>m. model_key (mi_provider m) (mi_name m) = k) (rev ms) of Some m \<Rightarrow> Some m | None \<Rightarrow> map_of reg k)"
    for reg and ms :: "'a ModelInfo list"
    by (induction ms arbitrary: reg) (auto simp: find_snoc map_of_bt_insert split: option.split)
  from this [of "[]" "concat (map snd ps)"] show ?thesis by (simp add: base_models_def split: option.split)
qed

section \<open>Ranking\<close>

text \<open>No price is a NaN: the comparison is a strict weak order.\<close>

definition price_order :: "'f price_ops \<Rightarrow> bool" where
  "price_order P \<longleftrightarrow> (\<forall>a. \<not> p_lt P a a) \<and> (\<forall>a b c. p_lt P a b \<longrightarrow> p_lt P b c \<longrightarrow> p_lt P a c) \<and>
     (\<forall>a b c. p_lt P a c \<longrightarrow> p_lt P a b \<or> p_lt P b c)"

text \<open>Whole numbers are such prices.\<close>

definition int_prices :: "int price_ops" where
  "int_prices = \<lparr>p_of_u32 = uint, p_of_usize = int, p_zero = 0, p_one = 1, p_million = 1000000, p_add = (+), p_sub = (-),
     p_mul = (*), p_div = (div), p_neg = uminus, p_lt = (<), p_fmt4 = (\<lambda>_. [])\<rparr>"

lemma ranked_total: "ranked_before P a b \<or> ranked_before P b a"
  by (auto simp: ranked_before_def)

lemma ranked_trans:
  assumes "price_order P" "ranked_before P a b" "ranked_before P b c"
  shows "ranked_before P a c"
proof -
  have irr: "\<not> p_lt P x x" and tr: "p_lt P x y \<Longrightarrow> p_lt P y z \<Longrightarrow> p_lt P x z"
    and neg: "p_lt P x z \<Longrightarrow> p_lt P x y \<or> p_lt P y z" for x y z
    using assms(1) unfolding price_order_def by blast+
  consider "p_lt P (c_score b) (c_score a)" | "\<not> p_lt P (c_score b) (c_score a)" "p_lt P (c_score c) (c_score b)"
    | "\<not> p_lt P (c_score b) (c_score a)" "\<not> p_lt P (c_score c) (c_score b)" by blast
  then show ?thesis
  proof cases
    case 1
    then have "p_lt P (c_score c) (c_score a)"
      using assms(3) tr [of "c_score c" "c_score b" "c_score a"] neg [of "c_score b" "c_score a" "c_score c"]
      by (auto simp: ranked_before_def)
    then show ?thesis by (simp add: ranked_before_def)
  next
    case 2
    then have "p_lt P (c_score c) (c_score a)"
      using assms(2) neg [of "c_score c" "c_score b" "c_score a"] by (auto simp: ranked_before_def)
    then show ?thesis by (simp add: ranked_before_def)
  next
    case 3
    then show ?thesis using assms(2,3) neg [of "c_score a" "c_score c" "c_score b"] by (auto simp: ranked_before_def)
  qed
qed

text \<open>The models a task admits, in the words of the documentation.\<close>

definition admissible :: "'f price_ops \<Rightarrow> 'f Task \<Rightarrow> 'f ModelInfo \<Rightarrow> bool" where
  "admissible P task m \<longleftrightarrow> set (t_required task) \<subseteq> set (mi_capabilities m) \<and>
     (t_est_input_tokens task = 0 \<or> mi_max_input_tokens m = 0 \<or> t_est_input_tokens task \<le> mi_max_input_tokens m) \<and>
     (p_lt P (p_zero P) (t_max_cost_usd task) \<longrightarrow>
        \<not> p_lt P (t_max_cost_usd task) (est_cost P m (t_est_input_tokens task) (output_estimate task)))"

definition candidate_of :: "'f price_ops \<Rightarrow> 'f Task \<Rightarrow> 'f ModelInfo \<Rightarrow> 'f Candidate" where
  "candidate_of P task m =
     (let cost = est_cost P m (t_est_input_tokens task) (output_estimate task)
      in \<lparr>c_provider = mi_provider m, c_model = mi_name m, c_score = score P m (t_priority task) cost, c_est_cost = cost\<rparr>)"

lemma reject_iff: "reject_reason P m task (output_estimate task) = None \<longleftrightarrow> admissible P task m"
proof -
  have "satisfies m (t_required task) \<longleftrightarrow> set (t_required task) \<subseteq> set (mi_capabilities m)"
    by (auto simp: satisfies_def list_all_iff mi_has_def)
  moreover have "w > 0 \<longleftrightarrow> w \<noteq> 0" for w :: u32 by (simp add: word_gt_0)
  ultimately show ?thesis by (auto simp: reject_reason_def admissible_def not_less)
qed

lemma judge_eq:
  "judge_models P task ms =
     (map (candidate_of P task) (filter (admissible P task) ms),
      map (\<lambda>m. \<lparr>x_provider = mi_provider m, x_model = mi_name m, x_reason = the (reject_reason P m task (output_estimate task))\<rparr>)
        (filter (\<lambda>m. \<not> admissible P task m) ms))"
proof (induction ms)
  case (Cons m ms)
  show ?case
  proof (cases "reject_reason P m task (output_estimate task)")
    case None
    then have "admissible P task m" by (simp add: reject_iff)
    then show ?thesis using Cons None by (simp add: candidate_of_def Let_def)
  next
    case (Some r)
    then have "\<not> admissible P task m" by (simp flip: reject_iff)
    then show ?thesis using Cons Some by simp
  qed
qed simp

lemma capability_rank_spec:
  assumes "price_order P"
  shows "sorted_wrt (ranked_before P) (fst (capability_rank P task reg)) \<and>
    mset (fst (capability_rank P task reg)) = mset (map (candidate_of P task) (filter (admissible P task) (reg_all reg)))"
  using sorted_sort_by [of "ranked_before P", OF ranked_total ranked_trans [OF assms]]
  by (simp add: capability_rank_def judge_eq)

text \<open>The merged registry holds every model under its own key, in key order, and each key resolves as documented: to the
  last custom model configured for it; else to nothing when the model is disabled; else to the catalog entry of the last
  provider offering it, with its cost overrides applied and its disabled capabilities taken away.\<close>
theorem registry_merge_order:
  assumes "build_registry P ps cfg = Ok reg"
  shows "reg_ok reg \<and> reg_get reg prov nm =
    (case find (\<lambda>c. model_key (cm_provider c) (cm_name c) = model_key prov nm) (rev (custom_models cfg)) of
       Some c \<Rightarrow> Some (to_model_info P c)
     | None \<Rightarrow> if model_key prov nm \<in> (\<lambda>(p, m). model_key p m) ` set (disabled_models cfg) then None
         else map_option (without_caps (disabled_capabilities cfg) (model_key prov nm) \<circ> with_costs (cost_overrides cfg) (model_key prov nm))
           (find (\<lambda>m. model_key (mi_provider m) (mi_name m) = model_key prov nm) (rev (concat (map snd ps)))))"
proof -
  have "map_of (base_models ps) k = find (\<lambda>m. model_key (mi_provider m) (mi_name m) = k) (rev (concat (map snd ps)))" for k
    by (rule lookup_base)
  then show ?thesis using build_ok [OF assms] assms unfolding reg_get_def
    by (auto simp: build_registry_def Let_def lookup_custom lookup_disabled lookup_caps lookup_costs option.map_comp
        split: option.split)
qed

text \<open>C29: With prices that order (no NaN) and no pin, resolving a task with the capability strategy fails exactly when no
  registered model is admissible. Otherwise the candidates considered are those of the admissible models, best
  score first and ties by provider and model name; the route tries the best of them and at most \<open>depth\<close> fallbacks; and the
  models excluded are exactly the inadmissible ones.\<close>
theorem capability_route:
  assumes "price_order P" and "t_pin task = None"
  shows "case resolve_inner P sname (capability_rank P) depth reg task of
      Err e \<Rightarrow> filter (admissible P task) (reg_all reg) = [] \<and> e = NoRoute (''no model satisfied the task (strategy: '' @ sname @ '')'')
    | Ok (rt, d) \<Rightarrow>
        sorted_wrt (ranked_before P) (d_considered d) \<and>
        mset (d_considered d) = mset (map (candidate_of P task) (filter (admissible P task) (reg_all reg))) \<and>
        route_attempts rt = take (Suc depth) (d_considered d) \<and>
        map (\<lambda>x. (x_provider x, x_model x)) (d_excluded d) =
          map (\<lambda>m. (mi_provider m, mi_name m)) (filter (\<lambda>m. \<not> admissible P task m) (reg_all reg))"
proof -
  obtain cs xs where r: "capability_rank P task reg = (cs, xs)" by fastforce
  have cs: "sorted_wrt (ranked_before P) cs" "mset cs = mset (map (candidate_of P task) (filter (admissible P task) (reg_all reg)))"
    using capability_rank_spec [OF assms(1), of task reg] r by simp_all
  have xs: "map (\<lambda>x. (x_provider x, x_model x)) xs =
      map (\<lambda>m. (mi_provider m, mi_name m)) (filter (\<lambda>m. \<not> admissible P task m) (reg_all reg))"
    using r by (auto simp: capability_rank_def judge_eq)
  show ?thesis
  proof (cases cs)
    case Nil
    then have "filter (admissible P task) (reg_all reg) = []" using cs(2) by simp
    then show ?thesis using assms(2) r Nil by (simp add: resolve_inner_def)
  next
    case (Cons c cs')
    then show ?thesis using assms(2) r cs xs by (simp add: resolve_inner_def route_attempts_def)
  qed
qed

theorem capability_route_witness:
  "let P = int_prices;
       reg = [(''a/x'', (model_new P ''a'' ''x'')\<lparr>mi_capabilities := [Chat], mi_max_input_tokens := 100\<rparr>),
              (''a/y'', (model_new P ''a'' ''y'')\<lparr>mi_capabilities := [Chat], mi_max_input_tokens := 200\<rparr>)]
   in case resolve_inner P ''capability'' (capability_rank P) 1 reg ((task_new P)\<lparr>t_required := [Chat]\<rparr>) of
        Err e \<Rightarrow> False
      | Ok (rt, d) \<Rightarrow> sorted_wrt (ranked_before P) (d_considered d) \<and> length (d_considered d) = 2 \<and>
          map c_model (route_attempts rt) = [''y'', ''x'']"
proof -
  define reg where "reg = [(''a/x'', (model_new int_prices ''a'' ''x'')\<lparr>mi_capabilities := [Chat], mi_max_input_tokens := 100\<rparr>),
              (''a/y'', (model_new int_prices ''a'' ''y'')\<lparr>mi_capabilities := [Chat], mi_max_input_tokens := 200\<rparr>)]"
  have o: "price_order int_prices" by (auto simp: price_order_def int_prices_def)
  have "length (fst (capability_rank int_prices ((task_new int_prices)\<lparr>t_required := [Chat]\<rparr>) reg)) = 2"
    "map c_model (fst (capability_rank int_prices ((task_new int_prices)\<lparr>t_required := [Chat]\<rparr>) reg)) = [''y'', ''x'']"
    unfolding reg_def by code_simp+
  then show ?thesis
    using capability_route [OF o, where task = "(task_new int_prices)\<lparr>t_required := [Chat]\<rparr>" and sname = "''capability''" and depth = 1 and reg = reg]
    unfolding Let_def reg_def [symmetric]
    by (auto simp: resolve_inner_def task_new_def route_attempts_def split: sum.splits prod.splits list.splits)
qed

section \<open>The fallback loop\<close>

text \<open>The outcomes after which the loop goes on to the next candidate.\<close>

fun passed_over :: "'r fate \<Rightarrow> bool" where
  "passed_over Unregistered = True"
| "passed_over Refused = True"
| "passed_over (Failed e) = is_retryable e None"
| "passed_over _ = False"

fun never_called :: "'r fate \<Rightarrow> bool" where
  "never_called Unregistered = True"
| "never_called Refused = True"
| "never_called _ = False"

fun failure_of :: "'r fate \<Rightarrow> GenAiError list" where
  "failure_of (Failed e) = [e]"
| "failure_of _ = []"

definition failures_of :: "('f, 'r) trace \<Rightarrow> GenAiError list" where
  "failures_of tr = concat (map (failure_of \<circ> snd) tr)"

text \<open>What a fate says of the environment: an answer or an error is what the provider of that candidate returned for
  the request prepared for its model.\<close>

definition fate_real :: "('w, 'q, 'v, 'r) env \<Rightarrow> 'f DefaultRouter \<Rightarrow> bool \<Rightarrow> 'f Task \<Rightarrow> ('q, 'v) CompletionRequest \<Rightarrow> 'f Candidate \<times> 'r fate \<Rightarrow> bool" where
  "fate_real E dr stream task request x =
     (let call = call_with_retry E (if stream then None else dr_retry dr) (c_provider (fst x)) (prepare (dr_registry dr) task request (fst x))
      in registered E (c_provider (fst x)) = (snd x \<noteq> Unregistered) \<and>
         (case snd x of
            Unregistered \<Rightarrow> True
          | Refused \<Rightarrow> dr_breaker_cfg dr \<noteq> None
          | Answered resp \<Rightarrow> \<exists>w w'. call w = (Ok resp, w')
          | Failed e \<Rightarrow> \<exists>w w'. call w = (Err e, w')
          | TimedOut \<Rightarrow> t_deadline task \<noteq> None))"

text \<open>How the result follows from the trace; \<open>errs\<close> and \<open>tried\<close> are the failures before it.\<close>

fun verdict :: "'f Task \<Rightarrow> 'f Candidate list \<Rightarrow> GenAiError list \<Rightarrow> ('f, 'r) trace \<Rightarrow> ('r, RouterError) result \<Rightarrow> bool" where
  "verdict task cs errs tr (Ok resp) \<longleftrightarrow> (\<exists>tr' c. tr = tr' @ [(c, Answered resp)] \<and> list_all (passed_over \<circ> snd) tr')"
| "verdict task cs errs tr (Err (GenAi e)) \<longleftrightarrow>
     (\<exists>tr' c. tr = tr' @ [(c, Failed e)] \<and> list_all (passed_over \<circ> snd) tr') \<and> \<not> is_retryable e None"
| "verdict task cs errs tr (Err (AllRoutesFailed n e)) \<longleftrightarrow>
     map fst tr = cs \<and> list_all (passed_over \<circ> snd) tr \<and> errs @ failures_of tr \<noteq> [] \<and>
     n = length (errs @ failures_of tr) \<and> e = last (errs @ failures_of tr)"
| "verdict task cs errs tr (Err (NoRoute reason)) \<longleftrightarrow>
     map fst tr = cs \<and> list_all (never_called \<circ> snd) tr \<and> errs = []"
| "verdict task cs errs tr (Err DeadlineExceeded) \<longleftrightarrow>
     t_deadline task \<noteq> None \<and>
     (list_all (passed_over \<circ> snd) tr \<and> length tr < length cs \<or>
      (\<exists>tr' c. tr = tr' @ [(c, TimedOut)] \<and> list_all (passed_over \<circ> snd) tr'))"
| "verdict task cs errs tr (Err _) \<longleftrightarrow> False"

lemma verdict_Cons:
  assumes "verdict task cs (errs @ failure_of f) tr r" and "passed_over f"
  shows "verdict task (c # cs) errs ((c, f) # tr) r"
proof -
  have snoc: "(\<exists>tr'' c''. (c, f) # tr = tr'' @ [(c'', g)] \<and> list_all (passed_over \<circ> snd) tr'')"
    if "\<exists>tr'' c''. tr = tr'' @ [(c'', g)] \<and> list_all (passed_over \<circ> snd) tr''" for g
  proof -
    from that obtain tr'' c'' where t: "tr = tr'' @ [(c'', g)]" "list_all (passed_over \<circ> snd) tr''" by blast
    then have "(c, f) # tr = ((c, f) # tr'') @ [(c'', g)]" "list_all (passed_over \<circ> snd) ((c, f) # tr'')"
      using assms(2) by simp_all
    then show ?thesis by blast
  qed
  have nc: "never_called f" if "errs @ failure_of f = []" using that assms(2) by (cases f) auto
  show ?thesis
    using assms snoc nc by (cases "(task, cs, errs, tr, r)" rule: verdict.cases) (auto simp: failures_of_def)
qed

definition loop_ok where
  "loop_ok E dr stream task request cs errs res \<longleftrightarrow>
     (case res of (r, tr, st') \<Rightarrow>
        map fst tr = take (length tr) cs \<and> verdict task cs errs tr r \<and> list_all (fate_real E dr stream task request) tr)"

lemma loop_ok_Cons:
  assumes "loop_ok E dr stream task request cs (errs @ failure_of f) res" and "passed_over f"
    and "fate_real E dr stream task request (c, f)"
  shows "loop_ok E dr stream task request (c # cs) errs (case res of (r, tr, st') \<Rightarrow> (r, (c, f) # tr, st'))"
  using assms verdict_Cons [of task cs errs f _ _ c] by (auto simp: loop_ok_def split: prod.splits)

lemma attempt_real:
  assumes "attempt E dr stream task request limit c st = (f, st')" and "remaining task now = Ok limit"
  shows "fate_real E dr stream task request (c, f)"
proof -
  have "t_deadline task \<noteq> None" if "limit = Some d" for d
    using assms(2) that by (auto simp: remaining_def split: option.splits)
  moreover have "dr_breaker_cfg dr \<noteq> None" if "admit E (dr_breaker_cfg dr) (candidate_key c) st = (False, st1)" for st1
    using that by (auto simp: admit_def split: option.splits)
  ultimately show ?thesis using assms(1)
    by (auto simp: attempt_def fate_real_def Let_def bind_eq_Some_conv split: if_splits prod.splits bool.splits option.splits sum.splits)
      blast+
qed

lemma attempt_loop_ok:
  assumes "final = (if errs = [] then None else Some (last errs))" and "tried = length errs"
  shows "loop_ok E dr stream task request cs errs (attempt_loop E dr stream task request cs final tried st)"
  using assms
proof (induction cs arbitrary: errs final tried st)
  case Nil
  then show ?case by (auto simp: loop_ok_def exhausted_def failures_of_def)
next
  case (Cons c cs)
  show ?case
  proof (cases "remaining task (clock E (ex_world st))")
    case (Inl e)
    then show ?thesis by (auto simp: loop_ok_def remaining_def split: option.splits if_splits)
  next
    case (Inr limit)
    obtain f st1 where a: "attempt E dr stream task request limit c st = (f, st1)" by fastforce
    note real = attempt_real [OF a Inr]
    have step: "loop_ok E dr stream task request (c # cs) errs
        (case attempt_loop E dr stream task request cs final' tried' st1 of (r, tr, st') \<Rightarrow> (r, (c, f) # tr, st'))"
      if "passed_over f" "final' = (if errs @ failure_of f = [] then None else Some (last (errs @ failure_of f)))"
        "tried' = length (errs @ failure_of f)" for final' tried'
      by (rule loop_ok_Cons [OF Cons.IH [OF that(2,3)] that(1) real])
    have "t_deadline task \<noteq> None" if "f = TimedOut" using real that by (simp add: fate_real_def)
    then show ?thesis
      using Inr a step real Cons.prems
      by (cases f) (auto simp: loop_ok_def simp del: is_retryable.simps)
  qed
qed

text \<open>C11: Executing a route tries its candidates in order and stops at the first decisive one: a candidate is passed over only
  when its provider is not registered, its breaker refuses it, or it failed with a retryable error. The result is
  the answer or the non-retryable error of the last candidate tried, \<open>AllRoutesFailed\<close> with the number of calls and the
  last error when every candidate was passed over and some was called, \<open>NoRoute\<close> when none was called, and
  \<open>DeadlineExceeded\<close> only for a task with a deadline. Each answer or error is what that candidate's own provider
  returned for the request rewritten to its model.\<close>
theorem router_fallback_correct:
  "case execute E dr rt task request st of (r, tr, st') \<Rightarrow>
     map fst tr = take (length tr) (route_attempts rt) \<and> verdict task (route_attempts rt) [] tr r \<and>
     list_all (fate_real E dr False task request) tr"
  using attempt_loop_ok [of None "[]" 0 E dr False task request "route_attempts rt" st]
  by (simp add: loop_ok_def execute_def split: prod.splits)

section \<open>Breakers\<close>

text \<open>What the router owes a breaker for a fate, each operation with the breaker's answer to it: a question for every
  candidate of a registered provider, answered with a refusal exactly for the refused ones, and a report for every call
  it admitted.\<close>

type_synonym breaker_answer = "(unit, CircuitOpenError) result option"

fun owed :: "'r fate \<Rightarrow> (bool option \<times> breaker_answer) list" where
  "owed Unregistered = []"
| "owed Refused = [(None, Some (Err CircuitOpenError))]"
| "owed (Answered resp) = [(None, Some (Ok ())), (Some True, None)]"
| "owed (Failed e) = [(None, Some (Ok ())), (Some False, None)]"
| "owed TimedOut = [(None, Some (Ok ())), (Some False, None)]"

fun op_kind :: "breaker_op \<Rightarrow> bool option" where
  "op_kind (Can_execute now) = None"
| "op_kind (On_execution now ok) = Some ok"

definition ops_on :: "string \<Rightarrow> breaker_log \<Rightarrow> breaker_op list" where
  "ops_on k lg = map snd (filter (\<lambda>x. fst x = k) lg)"

definition answers_on :: "string \<Rightarrow> (string \<times> bool option \<times> breaker_answer) list \<Rightarrow> breaker_answer list" where
  "answers_on k ks = map (snd \<circ> snd) (filter (\<lambda>x. fst x = k) ks)"

text \<open>Going from one state to another by logged operations on the breakers only, with the answers given.\<close>

definition advances :: "CircuitBreakerConfig \<Rightarrow> 'w exec_state \<Rightarrow> (string \<times> bool option \<times> breaker_answer) list \<Rightarrow> 'w exec_state \<Rightarrow> bool" where
  "advances bc st kinds st' \<longleftrightarrow> (\<exists>lg. ex_log st' = ex_log st @ lg \<and>
     map (\<lambda>(k, x). (k, op_kind x)) lg = map (\<lambda>(k, q, a). (k, q)) kinds \<and>
     (\<forall>k. run_io (breaker_io bc) (breaker_for (ex_breakers st) k) (ops_on k lg) =
        (answers_on k kinds, breaker_for (ex_breakers st') k)))"

lemma advances_refl: "advances bc st [] st"
  by (auto simp: advances_def ops_on_def answers_on_def)

lemma advances_trans:
  assumes "advances bc st ks st'" and "advances bc st' ks' st''"
  shows "advances bc st (ks @ ks') st''"
proof -
  from assms obtain lg lg' where
    "ex_log st' = ex_log st @ lg" "map (\<lambda>(k, x). (k, op_kind x)) lg = map (\<lambda>(k, q, a). (k, q)) ks"
    "\<forall>k. run_io (breaker_io bc) (breaker_for (ex_breakers st) k) (ops_on k lg) =
       (answers_on k ks, breaker_for (ex_breakers st') k)"
    "ex_log st'' = ex_log st' @ lg'" "map (\<lambda>(k, x). (k, op_kind x)) lg' = map (\<lambda>(k, q, a). (k, q)) ks'"
    "\<forall>k. run_io (breaker_io bc) (breaker_for (ex_breakers st') k) (ops_on k lg') =
       (answers_on k ks', breaker_for (ex_breakers st'') k)"
    unfolding advances_def by blast
  then show ?thesis unfolding advances_def
    by (intro exI [of _ "lg @ lg'"]) (simp add: ops_on_def answers_on_def run_io_append)
qed

lemma advances_world [simp]:
  "advances bc st ks (st'\<lparr>ex_world := w\<rparr>) = advances bc st ks st'" "advances bc (st\<lparr>ex_world := w\<rparr>) ks st' = advances bc st ks st'"
  by (simp_all add: advances_def)

lemma advances_admit:
  "admit E (Some bc) k st = (ok, st') \<Longrightarrow>
     advances bc st [(k, None, Some (if ok then Ok () else Err CircuitOpenError))] st'"
  by (auto simp: admit_def advances_def ops_on_def answers_on_def breaker_for_def can_execute_def is_ok_def
      split: prod.splits option.splits CircuitState.splits if_splits)

lemma advances_report: "advances bc st [(k, Some ok, None)] (report E (Some bc) k ok st)"
  by (auto simp: report_def advances_def ops_on_def answers_on_def breaker_for_def split: option.splits)

lemma advances_admit_report:
  assumes "admit E (Some bc) k st = (True, st')"
  shows "advances bc st [(k, None, Some (Ok ())), (k, Some b, None)] (report E (Some bc) k b (st'\<lparr>ex_world := w\<rparr>))"
  using advances_trans [OF advances_admit [OF assms], of "[(k, Some b, None)]"]
    advances_report [of bc "st'\<lparr>ex_world := w\<rparr>" k b E] by simp

lemma advances_attempt:
  assumes "dr_breaker_cfg dr = Some bc" and "attempt E dr False task request limit c st = (f, st')"
  shows "advances bc st (map (Pair (candidate_key c)) (owed f)) st'"
proof (cases "registered E (c_provider c)")
  case True
  obtain ok st1 where a: "admit E (Some bc) (candidate_key c) st = (ok, st1)" by fastforce
  show ?thesis
  proof (cases ok)
    case False
    then show ?thesis using assms True a advances_admit [OF a] by (auto simp: attempt_def)
  next
    case ok: True
    note pair = advances_admit_report [OF a [unfolded eqTrueI [OF ok]]]
    show ?thesis using assms True a ok pair
      by (auto simp: attempt_def Let_def is_ok_def split: prod.splits option.splits sum.splits)
  qed
qed (use assms advances_refl in \<open>auto simp: attempt_def\<close>)

abbreviation owed_by :: "('f, 'r) trace \<Rightarrow> (string \<times> bool option \<times> breaker_answer) list" where
  "owed_by tr \<equiv> concat (map (\<lambda>(c, f). map (Pair (candidate_key c)) (owed f)) tr)"

lemma advances_loop:
  assumes "dr_breaker_cfg dr = Some bc" and "attempt_loop E dr False task request cs final tried st = (r, tr, st')"
  shows "advances bc st (owed_by tr) st'"
  using assms(2)
proof (induction cs arbitrary: final tried st r tr)
  case Nil
  then show ?case by (auto simp: advances_refl)
next
  case (Cons c cs)
  show ?case
  proof (cases "remaining task (clock E (ex_world st))")
    case (Inl e)
    then show ?thesis using Cons.prems by (auto simp: advances_refl)
  next
    case (Inr limit)
    obtain f st1 where a: "attempt E dr False task request limit c st = (f, st1)" by fastforce
    note first = advances_attempt [OF assms(1) a]
    have rest: "advances bc st (owed_by tr) st'"
      if "(case attempt_loop E dr False task request cs final' tried' st1 of (r', tr', st'') \<Rightarrow> (r', (c, f) # tr', st'')) = (r, tr, st')" for final' tried'
      using that first Cons.IH [of final' tried' st1] by (auto split: prod.splits intro: advances_trans)
    then show ?thesis using Inr a first Cons.prems rest by (cases f) (auto simp del: is_retryable.simps split: if_splits)
  qed
qed

text \<open>C28: When \<open>execute\<close> runs a route under circuit breaking, the operations performed on the breakers and the answers
  they give are exactly those the fates of the candidates demand: a question for each candidate of a registered provider,
  answered with a refusal exactly for those passed over as refused, and one report of the outcome for each call a
  breaker admitted, a call cut off by the deadline of \<open>execute\<close> included. Every breaker ends in the state those
  operations lead to, so its invariant is kept. (Streaming execution does not report a call cut off by the deadline:
  see \<open>stream_timeout_wedges_breaker\<close> below.)\<close>
theorem router_reports_calls:
  assumes "dr_breaker_cfg dr = Some bc" and "ex_log st = []" and "\<And>k. breaker_inv bc (breaker_for (ex_breakers st) k)"
    and "execute E dr rt task request st = (r, tr, st')"
    and "demanded = concat (map (\<lambda>(c, f). map (Pair (candidate_key c)) (owed f)) tr)"
  shows "map (\<lambda>(k, x). (k, op_kind x)) (ex_log st') = map (\<lambda>(k, q, a). (k, q)) demanded \<and>
    run_io (breaker_io bc) (breaker_for (ex_breakers st) k) (ops_on k (ex_log st')) =
      (answers_on k demanded, breaker_for (ex_breakers st') k) \<and>
    breaker_inv bc (breaker_for (ex_breakers st') k)"
proof -
  have "advances bc st (owed_by tr) st'" using assms advances_loop by (metis execute_def)
  then have *: "map (\<lambda>(k, x). (k, op_kind x)) (ex_log st') = map (\<lambda>(k, q, a). (k, q)) demanded \<and>
    run_io (breaker_io bc) (breaker_for (ex_breakers st) k) (ops_on k (ex_log st')) =
      (answers_on k demanded, breaker_for (ex_breakers st') k)"
    using assms(2,5) by (auto simp: advances_def)
  then have "breaker_for (ex_breakers st') k =
      run (breaker_step bc) (breaker_for (ex_breakers st) k) (ops_on k (ex_log st'))"
    using snd_run_io [of "breaker_io bc" "breaker_for (ex_breakers st) k" "ops_on k (ex_log st')"]
    by (simp add: breaker_step_def [abs_def])
  then show ?thesis using * cb.run_inv [OF assms(3) [of k]] by simp
qed

text \<open>A clock that is the world itself, one provider, every call of which takes five units and fails.\<close>

definition failing_env :: "(nat, unit, unit, unit) env" where
  "failing_env = \<lparr>clock = id, registered = (\<lambda>p. p = ''a''), complete = (\<lambda>p q w. (Err (Transport ''reset''), w + 5)),
     expires = (\<lambda>d w w'. if w + d < w' then Some (w + d) else None)\<rparr>"

definition sample_candidate :: "string \<Rightarrow> int Candidate" where
  "sample_candidate p = \<lparr>c_provider = p, c_model = ''m'', c_score = 0, c_est_cost = 0\<rparr>"

definition sample_router :: "int DefaultRouter" where
  "sample_router = \<lparr>dr_registry = [], dr_retry = None,
     dr_breaker_cfg = Some \<lparr>failure_threshold = 1, success_threshold = 1, max_half_open = 1, timeout = 10\<rparr>, dr_fallback_depth = 1\<rparr>"

definition sample_request :: "(unit, unit) CompletionRequest" where
  "sample_request = \<lparr>q_model = [], q_max_tokens = None, q_response_format = None, q_rest = ()\<rparr>"

lemmas sample_defs = failing_env_def sample_candidate_def sample_router_def sample_request_def route_attempts_def
  attempt_def admit_def report_def remaining_def exhausted_def breaker_for_def candidate_key_def call_with_retry_def prepare_def
  reg_get_def model_key_def can_execute_def on_execution_def trip_def breaker_new_def is_ok_def elapsed_def

theorem router_reports_calls_witness:
  "case execute failing_env sample_router \<lparr>primary = sample_candidate ''a'', fallbacks = [sample_candidate ''b'']\<rparr> (task_new int_prices)
       sample_request \<lparr>ex_breakers = Map.empty, ex_world = 7, ex_log = []\<rparr> of
     (r, tr, st') \<Rightarrow> r = Err (AllRoutesFailed 1 (Transport ''reset'')) \<and>
       map (\<lambda>(k, x). (k, op_kind x)) (ex_log st') = [(''a/m'', None), (''a/m'', Some False)] \<and>
       breaker_inv \<lparr>failure_threshold = 1, success_threshold = 1, max_half_open = 1, timeout = 10\<rparr> (breaker_for (ex_breakers st') ''a/m'')"
proof -
  let ?bc = "\<lparr>failure_threshold = 1, success_threshold = 1, max_half_open = 1, timeout = 10\<rparr>"
  let ?st = "\<lparr>ex_breakers = Map.empty, ex_world = 7, ex_log = []\<rparr>"
  obtain r tr st' where e: "execute failing_env sample_router \<lparr>primary = sample_candidate ''a'', fallbacks = [sample_candidate ''b'']\<rparr>
      (task_new int_prices) sample_request ?st = (r, tr, st')" by (metis prod_cases3)
  then have r: "r = Err (AllRoutesFailed 1 (Transport ''reset''))" and tr: "tr = [(sample_candidate ''a'', Failed (Transport ''reset'')), (sample_candidate ''b'', Unregistered)]"
    by (auto simp: execute_def task_new_def sample_defs)
  have "dr_breaker_cfg sample_router = Some ?bc" "ex_log ?st = []" "breaker_inv ?bc (breaker_for (ex_breakers ?st) k)" for k
    by (simp_all add: sample_router_def breaker_for_def breaker_inv_new)
  note rep = router_reports_calls [OF this e refl, of "''a/m''"]
  have "map (\<lambda>(k, x). (k, op_kind x)) (ex_log st') = [(''a/m'', None), (''a/m'', Some False)]"
    using rep [THEN conjunct1] tr by (simp add: candidate_key_def sample_candidate_def)
  moreover have "breaker_inv ?bc (breaker_for (ex_breakers st') ''a/m'')" using rep by blast
  ultimately show ?thesis unfolding e using r by simp
qed

text \<open>Streaming is different: a stream that the deadline cuts off is never reported. Here the breaker of \<^verbatim>\<open>a/m\<close> opened at
  time 0 and admits a trial at time 20; the deadline ends the trial, its slot is never given back, and the breaker refuses
  every later call, whenever it comes.\<close>
lemma stream_timeout_wedges_breaker:
  "case execute_stream failing_env sample_router \<lparr>primary = sample_candidate ''a'', fallbacks = []\<rparr>
       ((task_new int_prices)\<lparr>t_deadline := Some 22\<rparr>) sample_request
       \<lparr>ex_breakers = [''a/m'' \<mapsto> trip 0 breaker_new], ex_world = 20, ex_log = []\<rparr> of
     (r, tr, st') \<Rightarrow> r = Err DeadlineExceeded \<and>
       (\<forall>now. can_execute \<lparr>failure_threshold = 1, success_threshold = 1, max_half_open = 1, timeout = 10\<rparr> now
          (breaker_for (ex_breakers st') ''a/m'') = (Err CircuitOpenError, breaker_for (ex_breakers st') ''a/m''))"
  by (simp add: execute_stream_def task_new_def sample_defs)

text \<open>The rule strategy does not look at the capabilities a task requires, so an embedding router ranking with it may
  choose a model that cannot embed.\<close>
lemma rule_rank_ignores_required: "rule_rank P rb (task\<lparr>t_required := caps\<rparr>) reg = rule_rank P rb task reg"
proof -
  have "make_candidate P reg p m (task\<lparr>t_required := caps\<rparr>) sc = make_candidate P reg p m task sc" for p m sc
    by (simp add: make_candidate_def output_estimate_def split: option.split)
  then show ?thesis by (simp add: rule_rank_def cong: option.case_cong)
qed

text \<open>The key of a model joins provider and name by a slash, so names that contain one can collide.\<close>
lemma model_key_collision: "model_key ''a/b'' ''c'' = model_key ''a'' ''b/c''"
  by (simp add: model_key_def)

end
