(* ===== verification/Genai_Message.thy ===== *)
theory Genai_Message
  imports Genai_Select Codec_Json_Correct Rust_Char
begin

text \<open>
  Messages, \<^verbatim>\<open>genai/message.rs\<close>, the template engine, \<^verbatim>\<open>genai/template.rs\<close>, and prompt stores,
  \<^verbatim>\<open>genai/prompt.rs\<close>. The braces and dots that the engine looks for are single bytes, so that it is modelled on
  bytes. Variables are already encoded to a \<open>Value\<close>.
\<close>

section \<open>Messages\<close>

datatype Role = System | User | Assistant | Tool

fun role_as_str :: "Role \<Rightarrow> string" where
  "role_as_str System = ''system''"
| "role_as_str User = ''user''"
| "role_as_str Assistant = ''assistant''"
| "role_as_str Tool = ''tool''"

datatype 'f MessagePart =
    PText string
  | PImage bytes string
  | PFileRef string string
  | PToolCall string string "'f Value"
  | PToolResult string "'f Value"

record 'f Message =
  msg_role :: Role
  msg_id :: "string option"
  parts :: "'f MessagePart list"

definition message_text :: "Role \<Rightarrow> string \<Rightarrow> string \<Rightarrow> 'f Message" where
  "message_text r i t = \<lparr>msg_role = r, msg_id = Some i, parts = [PText t]\<rparr>"

definition message_binary :: "Role \<Rightarrow> string \<Rightarrow> bytes \<Rightarrow> string \<Rightarrow> 'f Message" where
  "message_binary r i bs mime = \<lparr>msg_role = r, msg_id = Some i, parts = [PImage bs mime]\<rparr>"

definition message_file_ref :: "Role \<Rightarrow> string \<Rightarrow> string \<Rightarrow> string \<Rightarrow> 'f Message" where
  "message_file_ref r i uri mime = \<lparr>msg_role = r, msg_id = Some i, parts = [PFileRef uri mime]\<rparr>"

definition message_json :: "'f float_ops \<Rightarrow> Role \<Rightarrow> string \<Rightarrow> 'f Value \<Rightarrow> 'f Message" where
  "message_json F r i v = message_text r i (to_string F v)"

definition message_user :: "string \<Rightarrow> 'f Message" where
  "message_user t = \<lparr>msg_role = User, msg_id = None, parts = [PText t]\<rparr>"

definition message_system :: "string \<Rightarrow> 'f Message" where
  "message_system t = \<lparr>msg_role = System, msg_id = None, parts = [PText t]\<rparr>"

definition add_text_part :: "string \<Rightarrow> 'f Message \<Rightarrow> 'f Message" where
  "add_text_part t m = m\<lparr>parts := parts m @ [PText t]\<rparr>"

definition add_binary_part :: "bytes \<Rightarrow> string \<Rightarrow> 'f Message \<Rightarrow> 'f Message" where
  "add_binary_part bs mime m = m\<lparr>parts := parts m @ [PImage bs mime]\<rparr>"

fun part_text :: "'f MessagePart \<Rightarrow> string option" where
  "part_text (PText t) = Some t"
| "part_text _ = None"

definition text_content :: "'f Message \<Rightarrow> string" where
  "text_content m = concat (List.map_filter part_text (parts m))"

section \<open>Templates\<close>

fun value_to_string :: "'f float_ops \<Rightarrow> 'f Value option \<Rightarrow> string" where
  "value_to_string F None = []"
| "value_to_string F (Some v) = (case v of
     Null \<Rightarrow> []
   | Str s \<Rightarrow> s
   | Bool b \<Rightarrow> if b then ''true'' else ''false''
   | IntV i \<Rightarrow> write_i64 [] i
   | UInt u \<Rightarrow> write_u64 [] u
   | Float f \<Rightarrow> f_display F f
   | _ \<Rightarrow> to_string F v)"

fun lookup_segs :: "'f Value \<Rightarrow> string list \<Rightarrow> 'f Value option" where
  "lookup_segs cur [] = Some cur"
| "lookup_segs cur (seg # segs) =
     (if seg = [] then lookup_segs cur segs else Option.bind (get cur seg) (\<lambda>c. lookup_segs c segs))"

definition lookup_path :: "'f Value \<Rightarrow> string \<Rightarrow> 'f Value option" where
  "lookup_path v path = lookup_segs v (split_on (CHR ''.'') path)"

definition expr_path :: "string \<Rightarrow> string" where
  "expr_path expr = trim (dropWhile (\<lambda>c. c = CHR ''.'') (trim expr))"

text \<open>The loop: a \<^verbatim>\<open>{{\<close> is matched with the next \<^verbatim>\<open>}}\<close>.\<close>

function render_loop :: "'f float_ops \<Rightarrow> 'f Value \<Rightarrow> string \<Rightarrow> string \<Rightarrow> (string, GenAiError) result" where
  "render_loop F vars o1 [] = Ok o1"
| "render_loop F vars o1 (c # r) =
     (if c = CHR ''{'' \<and> r \<noteq> [] \<and> hd r = CHR ''{'' then
        (case split_once_str ''}}'' (tl r) of
           None \<Rightarrow> Err (Template (''unclosed '' @ [CHR 0x27] @ ''{{'' @ [CHR 0x27] @ '' in template''))
         | Some (expr, r') \<Rightarrow> render_loop F vars (o1 @ value_to_string F (lookup_path vars (expr_path expr))) r')
      else render_loop F vars (o1 @ [c]) r)"
  by pat_completeness auto
termination
proof (relation "measure (\<lambda>(F, vars, o1, r). length r)", goal_cases)
  case (2 F vars o1 c r x expr r')
  then show ?case using split_once_str_shorter [of "''}}''" "tl r" expr r'] by auto
qed auto

definition render_value :: "'f float_ops \<Rightarrow> string \<Rightarrow> 'f Value \<Rightarrow> (string, GenAiError) result" where
  "render_value F tmpl vars = render_loop F vars [] tmpl"

section \<open>Prompt stores\<close>

record PromptTemplate =
  tmpl_id :: string
  tmpl_name :: string
  tmpl_source :: string

definition template_new :: "string \<Rightarrow> string \<Rightarrow> string \<Rightarrow> PromptTemplate" where
  "template_new i n t = \<lparr>tmpl_id = i, tmpl_name = n, tmpl_source = t\<rparr>"

definition template_render :: "'f float_ops \<Rightarrow> PromptTemplate \<Rightarrow> 'f Value \<Rightarrow> (string, GenAiError) result" where
  "template_render F t vars = render_value F (tmpl_source t) vars"

type_synonym prompt_store = "string \<rightharpoonup> PromptTemplate"

definition store_new :: prompt_store where
  "store_new = Map.empty"

definition store_add :: "PromptTemplate \<Rightarrow> prompt_store \<Rightarrow> prompt_store" where
  "store_add t st = st(tmpl_id t \<mapsto> t)"

definition store_get :: "prompt_store \<Rightarrow> string \<Rightarrow> PromptTemplate option" where
  "store_get st i = st i"

text \<open>\<open>look\<close> is \<^verbatim>\<open>get\<close> of any implementation of \<^verbatim>\<open>PromptStore\<close>.\<close>

definition from_prompt_id ::
  "'f float_ops \<Rightarrow> (string \<Rightarrow> PromptTemplate option) \<Rightarrow> Role \<Rightarrow> string \<Rightarrow> 'f Value \<Rightarrow> ('f Message, GenAiError) result" where
  "from_prompt_id F look r i vars = (case look i of
     None \<Rightarrow> Err (TemplateNotFound i)
   | Some t \<Rightarrow> (case template_render F t vars of
       Err e \<Rightarrow> Err e
     | Ok s \<Rightarrow> Ok \<lparr>msg_role = r, msg_id = Some i, parts = [PText s]\<rparr>))"

section \<open>What a template means\<close>

text \<open>A template is a sequence of literal text and placeholders.\<close>

datatype piece = Lit string | Hole string

fun piece_text :: "piece \<Rightarrow> string" where
  "piece_text (Lit s) = s"
| "piece_text (Hole e) = ''{{'' @ e @ ''}}''"

fun piece_value :: "'f float_ops \<Rightarrow> 'f Value \<Rightarrow> piece \<Rightarrow> string" where
  "piece_value F vars (Lit s) = s"
| "piece_value F vars (Hole e) = value_to_string F (lookup_path vars (expr_path e))"

text \<open>Literal text opens no placeholder, also not together with the brace that may follow it.\<close>

fun opens_none :: "string \<Rightarrow> bool" where
  "opens_none [] = True"
| "opens_none [c] = (c \<noteq> CHR ''{'')"
| "opens_none (c # d # s) = (\<not> (c = CHR ''{'' \<and> d = CHR ''{'') \<and> opens_none (d # s))"

fun piece_ok :: "piece \<Rightarrow> bool" where
  "piece_ok (Lit s) = opens_none s"
| "piece_ok (Hole e) = (CHR ''}'' \<notin> set e)"

lemma render_lit: "opens_none s \<Longrightarrow> render_loop F vars o1 (s @ r) = render_loop F vars (o1 @ s) r"
proof (induction s arbitrary: o1 rule: opens_none.induct)
  case (3 c d s)
  then have "\<not> (c = CHR ''{'' \<and> (d # s @ r) \<noteq> [] \<and> hd (d # s @ r) = CHR ''{'')" by auto
  then have "render_loop F vars o1 (c # d # s @ r) = render_loop F vars (o1 @ [c]) (d # s @ r)" by (simp only: render_loop.simps if_False)
  then show ?case using 3 by simp
qed simp_all

lemma split_close: "CHR ''}'' \<notin> set e \<Longrightarrow> split_once_str ''}}'' (e @ ''}}'' @ r) = Some (e, r)"
  by (induction e) auto

lemma render_hole:
  "CHR ''}'' \<notin> set e \<Longrightarrow> render_loop F vars o1 (''{{'' @ e @ ''}}'' @ r) =
     render_loop F vars (o1 @ value_to_string F (lookup_path vars (expr_path e))) r"
  using split_close [of e r] by simp

lemma render_pieces:
  "list_all piece_ok ps \<Longrightarrow>
     render_loop F vars o1 (concat (map piece_text ps) @ r) = render_loop F vars (o1 @ concat (map (piece_value F vars) ps)) r"
proof (induction ps arbitrary: o1)
  case (Cons x ps)
  show ?case
  proof (cases x)
    case (Lit s)
    then show ?thesis using Cons by (simp add: render_lit del: render_loop.simps)
  next
    case (Hole e)
    then show ?thesis using Cons render_hole [of e F vars o1 "concat (map piece_text ps) @ r"] by (simp del: render_loop.simps)
  qed
qed simp

text \<open>A brace pair that is never closed.\<close>

lemma split_none: "\<not> (\<exists>a b. s = a @ ''}}'' @ b) \<Longrightarrow> split_once_str ''}}'' s = None"
proof (induction s)
  case (Cons c s)
  have "take 2 (c # s) \<noteq> ''}}''"
  proof
    assume "take 2 (c # s) = ''}}''"
    then have "c # s = [] @ ''}}'' @ drop 2 (c # s)" by (metis append_Nil append_take_drop_id)
    then show False using Cons.prems by blast
  qed
  moreover have "\<not> (\<exists>a b. s = a @ ''}}'' @ b)" using Cons.prems by (metis append_Cons)
  ultimately show ?case using Cons.IH by (simp add: numeral_eq_Suc)
qed simp

section \<open>The contract of a prompt store\<close>

locale prompts =
  fixes look :: "'s \<Rightarrow> string \<Rightarrow> PromptTemplate option"
    and add :: "PromptTemplate \<Rightarrow> 's \<Rightarrow> 's"
  assumes look_add: "look (add t s) i = (if i = tmpl_id t then Some t else look s i)"
begin

lemma look_latest: "look (fold add ts s) i = (case find (\<lambda>t. tmpl_id t = i) (rev ts) of Some t \<Rightarrow> Some t | None \<Rightarrow> look s i)"
proof (induction ts rule: rev_induct)
  case (snoc t ts)
  then show ?case by (simp add: look_add)
qed simp

lemma prompt_latest:
  assumes "find (\<lambda>t. tmpl_id t = i) (rev ts) = Some t" and "template_render F t vars = Ok txt"
  shows "from_prompt_id F (look (fold add ts s)) r i vars = Ok \<lparr>msg_role = r, msg_id = Some i, parts = [PText txt]\<rparr>"
  using assms by (simp add: from_prompt_id_def look_latest)

end

interpretation in_memory: prompts store_get store_add
  by unfold_locales (simp add: store_get_def store_add_def)

section \<open>Properties\<close>

text \<open>Prompts: a message made from a stored template is the text of the latest template added under that id,
  every placeholder replaced by the value its path names (nothing if there is none) and everything else kept.
  What a value contains is not looked at again, so that braces inside values cannot inject placeholders.\<close>

theorem prompt_renders:
  assumes "find (\<lambda>t. tmpl_id t = i) (rev ts) = Some t"
    and "tmpl_source t = concat (map piece_text ps)" and "list_all piece_ok ps"
  shows "from_prompt_id F (store_get (fold store_add ts st)) r i vars =
    Ok \<lparr>msg_role = r, msg_id = Some i, parts = [PText (concat (map (piece_value F vars) ps))]\<rparr>"
proof (rule in_memory.prompt_latest [OF assms(1)])
  show "template_render F t vars = Ok (concat (map (piece_value F vars) ps))"
    using render_pieces [OF assms(3), of F vars "[]" "[]"] assms(2) by (simp add: template_render_def render_value_def)
qed

text \<open>A template with an opening that is never closed is refused.\<close>

lemma unclosed_refused:
  assumes "list_all piece_ok ps" and "\<not> (\<exists>a b. s = a @ ''}}'' @ b)"
  shows "render_value F (concat (map piece_text ps) @ ''{{'' @ s) vars =
    Err (Template (''unclosed '' @ [CHR 0x27] @ ''{{'' @ [CHR 0x27] @ '' in template''))"
  using render_pieces [OF assms(1), of F vars "[]" "''{{'' @ s"] split_none [OF assms(2)]
  by (simp add: render_value_def)

text \<open>A JSON message carries text that parses back to the value.\<close>

lemma message_json_parses:
  assumes "float_ok F" and "depth_of v \<le> max_depth"
  shows "from_str F (text_content (message_json F r i v)) = Some (Ok (normal F v))"
  using from_str_printed [OF assms] by (simp add: text_content_def message_json_def message_text_def map_filter_simps)

end
