(* ===== verification/Genai_Providers.thy ===== *)
theory Genai_Providers
  imports Genai_Message Genai_Exec Http_Download Base64 Codec_Traits
begin

text \<open>
  The built-in providers, \<^verbatim>\<open>genai/providers\<close>: request bodies, response parsing and streaming for OpenAI, Claude and
  Ollama, and credentials, \<^verbatim>\<open>clients/auth.rs\<close>. Sending is an argument: the status, the chunks of the body and the error that
  may follow them. The text of an I/O error and the conversions of \<^verbatim>\<open>f64\<close> are arguments too.
\<close>

section \<open>Errors as text\<close>

fun codec_error_str :: "CodecError \<Rightarrow> string" where
  "codec_error_str (UnsupportedContentType ct) = ''no codec registered for content type: '' @ ct"
| "codec_error_str (Parse m) = ''parse error: '' @ m"
| "codec_error_str (Expected w) = ''expected '' @ w"
| "codec_error_str (MissingField n) = ''missing field: '' @ n"
| "codec_error_str (UnknownVariant n) = ''unknown variant: '' @ n"
| "codec_error_str (OutOfRange t) = ''value out of range for '' @ t"
| "codec_error_str (Message m) = m"

fun http_error_str :: "string \<Rightarrow> HttpError \<Rightarrow> string" where
  "http_error_str io (InvalidUrl u) = ''invalid url: '' @ u"
| "http_error_str io Io = ''io error: '' @ io"
| "http_error_str io (Tls m) = ''tls error: '' @ m"
| "http_error_str io (Protocol m) = ''malformed http: '' @ m"
| "http_error_str io Timeout = ''timed out''"

text \<open>The parser of theory \<open>Codec_Json\<close> returns on every text, so that the last branch is never taken.\<close>

definition parse_json :: "'f float_ops \<Rightarrow> string \<Rightarrow> ('f Value, GenAiError) result" where
  "parse_json F s = (case from_str F s of
     Some (Ok v) \<Rightarrow> Ok v
   | Some (Err e) \<Rightarrow> Err (ResponseParse (codec_error_str e))
   | None \<Rightarrow> Err (ResponseParse []))"

section \<open>Credentials\<close>

datatype AuthProvider = BearerAuth string | ApiKeyAuth string string | BasicAuth string string

definition auth_base64 :: "bytes \<Rightarrow> string" where
  "auth_base64 bs = base64_encode bs"

fun auth_apply :: "AuthProvider \<Rightarrow> Request \<Rightarrow> Request" where
  "auth_apply (BearerAuth token) req = req\<lparr>headers := header_set (headers req) ''Authorization'' (''Bearer '' @ token)\<rparr>"
| "auth_apply (ApiKeyAuth header key) req = req\<lparr>headers := header_set (headers req) header key\<rparr>"
| "auth_apply (BasicAuth user pass) req =
     req\<lparr>headers := header_set (headers req) ''Authorization'' (''Basic '' @ auth_base64 (to_bytes (user @ '':'' @ pass)))\<rparr>"

section \<open>Requests and responses\<close>

record 'f ToolDefinition =
  td_name :: string
  td_description :: string
  td_parameters :: "'f Value"

datatype ToolChoice = ChooseAuto | ChooseNone | ChooseRequired | ChooseNamed string

text \<open>What the router passes through of a request; \<^verbatim>\<open>f32\<close> options as the \<^verbatim>\<open>f64\<close> they are widened to.\<close>

record 'f request_rest =
  rq_messages :: "'f Message list"
  rq_tools :: "'f ToolDefinition list"
  rq_tool_choice :: "ToolChoice option"
  rq_temperature :: "'f option"
  rq_top_p :: "'f option"
  rq_system_instructions :: "string option"
  rq_custom :: "(string \<times> 'f Value) list"

type_synonym 'f chat_request = "('f request_rest, 'f Value) CompletionRequest"

record Usage =
  us_prompt_tokens :: "u32 option"
  us_completion_tokens :: "u32 option"
  us_total_tokens :: "u32 option"

record 'f CompletionResponse =
  cr_model :: string
  cr_message :: "'f Message"
  cr_finish_reason :: "string option"
  cr_usage :: "Usage option"

record CompletionChunk =
  ck_delta :: string
  ck_finish_reason :: "string option"
  ck_usage :: "Usage option"

definition get_str :: "'f Value \<Rightarrow> string \<Rightarrow> string option" where
  "get_str v k = Option.bind (get v k) as_str"

text \<open>\<^verbatim>\<open>.and_then(Value::as_u64).map(|v| v as u32)\<close>\<close>

definition get_u32 :: "'f Value \<Rightarrow> string \<Rightarrow> u32 option" where
  "get_u32 v k = map_option ucast (Option.bind (get v k) as_u64)"

definition str_or_empty :: "string option \<Rightarrow> string" where
  "str_or_empty s = (case s of Some t \<Rightarrow> t | None \<Rightarrow> [])"

definition opt_field :: "string \<Rightarrow> 'a option \<Rightarrow> ('a \<Rightarrow> 'f Value) \<Rightarrow> (string \<times> 'f Value) list" where
  "opt_field k x f = (case x of Some y \<Rightarrow> [(k, f y)] | None \<Rightarrow> [])"

definition u32_value :: "u32 \<Rightarrow> 'f Value" where
  "u32_value n = UInt (ucast n)"

definition to_base64 :: "bytes \<Rightarrow> string" where
  "to_base64 bs = base64_encode bs"

section \<open>OpenAI\<close>

fun openai_part :: "'f MessagePart \<Rightarrow> 'f Value option" where
  "openai_part (PText t) = Some (Object [(''type'', Str ''text''), (''text'', Str t)])"
| "openai_part (PImage bs mime) =
     Some (Object [(''type'', Str ''image_url''),
       (''image_url'', Object [(''url'', Str (''data:'' @ mime @ '';base64,'' @ to_base64 bs))])])"
| "openai_part (PFileRef link mime) = Some (Object [(''type'', Str ''image_url''), (''image_url'', Object [(''url'', Str link)])])"
| "openai_part _ = None"

definition openai_message :: "'f Message \<Rightarrow> 'f Value" where
  "openai_message m =
     (if list_all (\<lambda>p. part_text p \<noteq> None) (parts m)
      then Object [(''role'', Str (role_as_str (msg_role m))), (''content'', Str (text_content m))]
      else Object [(''role'', Str (role_as_str (msg_role m))), (''content'', Array (List.map_filter openai_part (parts m)))])"

definition openai_tool :: "'f ToolDefinition \<Rightarrow> 'f Value" where
  "openai_tool t = Object [(''type'', Str ''function''),
     (''function'', Object [(''name'', Str (td_name t)), (''description'', Str (td_description t)), (''parameters'', td_parameters t)])]"

fun openai_choice :: "ToolChoice \<Rightarrow> 'f Value" where
  "openai_choice ChooseAuto = Str ''auto''"
| "openai_choice ChooseNone = Str ''none''"
| "openai_choice ChooseRequired = Str ''required''"
| "openai_choice (ChooseNamed n) = Object [(''type'', Str ''function''), (''function'', Object [(''name'', Str n)])]"

fun openai_format :: "'f Value ResponseFormat option \<Rightarrow> (string \<times> 'f Value) list" where
  "openai_format (Some FJson) = [(''response_format'', Object [(''type'', Str ''json_object'')])]"
| "openai_format (Some (FJsonSchema schema)) =
     [(''response_format'', Object [(''type'', Str ''json_schema''),
        (''json_schema'', Object [(''name'', Str ''response''), (''schema'', schema)])])]"
| "openai_format _ = []"

definition system_first :: "'f request_rest \<Rightarrow> 'f Value list" where
  "system_first r = (case rq_system_instructions r of
     Some sys \<Rightarrow> [Object [(''role'', Str ''system''), (''content'', Str sys)]]
   | None \<Rightarrow> [])"

definition openai_body :: "'f chat_request \<Rightarrow> bool \<Rightarrow> 'f Value" where
  "openai_body q stream =
     (let r = q_rest q; messages = system_first r @ map openai_message (rq_messages r)
      in Object (
        [(''model'', Str (q_model q)), (''messages'', Array messages), (''stream'', Bool stream)] @
        opt_field ''temperature'' (rq_temperature r) Float @
        opt_field ''max_tokens'' (q_max_tokens q) u32_value @
        opt_field ''top_p'' (rq_top_p r) Float @
        (if rq_tools r = [] then [] else [(''tools'', Array (map openai_tool (rq_tools r)))]) @
        opt_field ''tool_choice'' (rq_tool_choice r) openai_choice @
        openai_format (q_response_format q)))"

definition openai_call :: "'f float_ops \<Rightarrow> 'f Value \<Rightarrow> 'f MessagePart" where
  "openai_call F call =
     (let func = get call ''function''
      in PToolCall (str_or_empty (get_str call ''id''))
        (str_or_empty (Option.bind func (\<lambda>f. get_str f ''name'')))
        (case Option.bind func (\<lambda>f. get_str f ''arguments'') of
           None \<Rightarrow> Null
         | Some s \<Rightarrow> (case parse_json F s of Ok v \<Rightarrow> v | Err _ \<Rightarrow> Null)))"

definition openai_usage :: "'f Value \<Rightarrow> Usage" where
  "openai_usage u = \<lparr>us_prompt_tokens = get_u32 u ''prompt_tokens'', us_completion_tokens = get_u32 u ''completion_tokens'',
     us_total_tokens = get_u32 u ''total_tokens''\<rparr>"

definition openai_parse_response :: "'f float_ops \<Rightarrow> 'f Value \<Rightarrow> ('f CompletionResponse, GenAiError) result" where
  "openai_parse_response F v =
     (case Option.bind (get v ''choices'') (\<lambda>c. get_index c 0) of
        None \<Rightarrow> Err (ResponseParse ''missing choices'')
      | Some choice \<Rightarrow>
          let msg = get choice ''message'';
              texts = (case Option.bind msg (\<lambda>m. get_str m ''content'') of Some t \<Rightarrow> if t \<noteq> [] then [PText t] else [] | None \<Rightarrow> []);
              calls = (case Option.bind msg (\<lambda>m. Option.bind (get m ''tool_calls'') as_array) of
                Some cs \<Rightarrow> map (openai_call F) cs | None \<Rightarrow> [])
          in Ok \<lparr>cr_model = str_or_empty (get_str v ''model''),
               cr_message = \<lparr>msg_role = Assistant, msg_id = None, parts = texts @ calls\<rparr>,
               cr_finish_reason = get_str choice ''finish_reason'',
               cr_usage = map_option openai_usage (get v ''usage'')\<rparr>)"

text \<open>\<^verbatim>\<open>sse_data\<close> of \<^verbatim>\<open>providers/sse.rs\<close>\<close>

definition sse_data :: "string \<Rightarrow> string option" where
  "sse_data line = map_option trim (strip_prefix ''data:'' line)"

definition openai_parse_line :: "'f float_ops \<Rightarrow> string \<Rightarrow> (CompletionChunk, GenAiError) result option" where
  "openai_parse_line F line = (case sse_data line of
     None \<Rightarrow> None
   | Some data \<Rightarrow>
       if data = [] \<or> data = ''[DONE]'' then None
       else Some (case parse_json F data of
         Err e \<Rightarrow> Err e
       | Ok v \<Rightarrow>
           let choice = Option.bind (get v ''choices'') (\<lambda>c. get_index c 0)
           in Ok \<lparr>ck_delta = str_or_empty (Option.bind choice (\<lambda>c. Option.bind (get c ''delta'') (\<lambda>d. get_str d ''content''))),
                ck_finish_reason = Option.bind choice (\<lambda>c. get_str c ''finish_reason''), ck_usage = None\<rparr>))"

section \<open>Claude\<close>

definition DEFAULT_MAX_TOKENS :: u32 where
  "DEFAULT_MAX_TOKENS = 1024"

fun claude_role :: "Role \<Rightarrow> string" where
  "claude_role Assistant = ''assistant''"
| "claude_role _ = ''user''"

fun claude_part :: "'f float_ops \<Rightarrow> 'f MessagePart \<Rightarrow> 'f Value" where
  "claude_part F (PText t) = Object [(''type'', Str ''text''), (''text'', Str t)]"
| "claude_part F (PImage bs mime) = Object [(''type'', Str ''image''),
     (''source'', Object [(''type'', Str ''base64''), (''media_type'', Str mime), (''data'', Str (to_base64 bs))])]"
| "claude_part F (PFileRef link mime) = Object [(''type'', Str ''text''), (''text'', Str link)]"
| "claude_part F (PToolCall i n args) =
     Object [(''type'', Str ''tool_use''), (''id'', Str i), (''name'', Str n), (''input'', args)]"
| "claude_part F (PToolResult i res) =
     Object [(''type'', Str ''tool_result''), (''tool_use_id'', Str i), (''content'', Str (to_string F res))]"

definition claude_message :: "'f float_ops \<Rightarrow> 'f Message \<Rightarrow> 'f Value" where
  "claude_message F m = Object [(''role'', Str (claude_role (msg_role m))), (''content'', Array (map (claude_part F) (parts m)))]"

definition join :: "string \<Rightarrow> string list \<Rightarrow> string" where
  "join s xs = (case xs of [] \<Rightarrow> [] | y # ys \<Rightarrow> y @ concat (map (\<lambda>x. s @ x) ys))"

definition claude_system :: "'f request_rest \<Rightarrow> string option" where
  "claude_system r = (case rq_system_instructions r of
     Some s \<Rightarrow> Some s
   | None \<Rightarrow>
       let sys = join [CHR 0x0A] (map text_content (filter (\<lambda>m. msg_role m = System) (rq_messages r)))
       in if sys = [] then None else Some sys)"

definition claude_tool :: "'f ToolDefinition \<Rightarrow> 'f Value" where
  "claude_tool t = Object [(''name'', Str (td_name t)), (''description'', Str (td_description t)), (''input_schema'', td_parameters t)]"

fun claude_choice :: "ToolChoice \<Rightarrow> 'f Value" where
  "claude_choice ChooseAuto = Object [(''type'', Str ''auto'')]"
| "claude_choice ChooseRequired = Object [(''type'', Str ''any'')]"
| "claude_choice ChooseNone = Object [(''type'', Str ''none'')]"
| "claude_choice (ChooseNamed n) = Object [(''type'', Str ''tool''), (''name'', Str n)]"

definition claude_body :: "'f float_ops \<Rightarrow> 'f chat_request \<Rightarrow> bool \<Rightarrow> 'f Value" where
  "claude_body F q stream =
     (let r = q_rest q;
          messages = map (claude_message F) (filter (\<lambda>m. msg_role m \<noteq> System) (rq_messages r));
          max_tokens = (case q_max_tokens q of Some n \<Rightarrow> n | None \<Rightarrow> DEFAULT_MAX_TOKENS)
      in Object (
        [(''model'', Str (q_model q)), (''max_tokens'', u32_value max_tokens), (''messages'', Array messages), (''stream'', Bool stream)] @
        opt_field ''system'' (claude_system r) Str @
        opt_field ''temperature'' (rq_temperature r) Float @
        opt_field ''top_p'' (rq_top_p r) Float @
        (if rq_tools r = [] then [] else [(''tools'', Array (map claude_tool (rq_tools r)))]) @
        opt_field ''tool_choice'' (rq_tool_choice r) claude_choice))"

definition claude_block :: "'f Value \<Rightarrow> 'f MessagePart list" where
  "claude_block b =
     (if get_str b ''type'' = Some ''text'' then (case get_str b ''text'' of Some t \<Rightarrow> [PText t] | None \<Rightarrow> [])
      else if get_str b ''type'' = Some ''tool_use'' then
        [PToolCall (str_or_empty (get_str b ''id'')) (str_or_empty (get_str b ''name''))
           (case get b ''input'' of Some v \<Rightarrow> v | None \<Rightarrow> Null)]
      else [])"

text \<open>The sum wraps, as in a release build; a debug build stops on overflow.\<close>

definition claude_usage :: "'f Value \<Rightarrow> Usage" where
  "claude_usage u =
     (let inp = get_u32 u ''input_tokens''; outp = get_u32 u ''output_tokens''
      in \<lparr>us_prompt_tokens = inp, us_completion_tokens = outp,
          us_total_tokens = (case (inp, outp) of (Some i, Some o1) \<Rightarrow> Some (i + o1) | _ \<Rightarrow> None)\<rparr>)"

definition claude_parse_response :: "'f Value \<Rightarrow> ('f CompletionResponse, GenAiError) result" where
  "claude_parse_response v = (case Option.bind (get v ''content'') as_array of
     None \<Rightarrow> Err (ResponseParse ''missing content'')
   | Some blocks \<Rightarrow>
       Ok \<lparr>cr_model = str_or_empty (get_str v ''model''),
         cr_message = \<lparr>msg_role = Assistant, msg_id = None, parts = concat (map claude_block blocks)\<rparr>,
         cr_finish_reason = get_str v ''stop_reason'',
         cr_usage = map_option claude_usage (get v ''usage'')\<rparr>)"

definition claude_parse_line :: "'f float_ops \<Rightarrow> string \<Rightarrow> (CompletionChunk, GenAiError) result option" where
  "claude_parse_line F line = (case sse_data line of
     None \<Rightarrow> None
   | Some data \<Rightarrow>
       if data = [] then None
       else case parse_json F data of
         Err e \<Rightarrow> Some (Err e)
       | Ok v \<Rightarrow>
           if get_str v ''type'' = Some ''content_block_delta'' then
             Some (Ok \<lparr>ck_delta = str_or_empty (Option.bind (get v ''delta'') (\<lambda>d. get_str d ''text'')),
               ck_finish_reason = None, ck_usage = None\<rparr>)
           else if get_str v ''type'' = Some ''message_delta'' then
             Some (Ok \<lparr>ck_delta = [], ck_finish_reason = Option.bind (get v ''delta'') (\<lambda>d. get_str d ''stop_reason''), ck_usage = None\<rparr>)
           else None)"

section \<open>Ollama\<close>

definition ollama_message :: "'f Message \<Rightarrow> 'f Value" where
  "ollama_message m = Object [(''role'', Str (role_as_str (msg_role m))), (''content'', Str (text_content m))]"

definition ollama_body :: "'f chat_request \<Rightarrow> bool \<Rightarrow> 'f Value" where
  "ollama_body q stream =
     (let r = q_rest q;
          messages = system_first r @ map ollama_message (rq_messages r);
          options = opt_field ''temperature'' (rq_temperature r) Float @ opt_field ''top_p'' (rq_top_p r) Float @
            opt_field ''num_predict'' (q_max_tokens q) u32_value
      in Object (
        [(''model'', Str (q_model q)), (''messages'', Array messages), (''stream'', Bool stream)] @
        (if options = [] then [] else [(''options'', Object options)]) @
        (if q_response_format q = Some FJson then [(''format'', Str ''json'')] else [])))"

definition ollama_parse_response :: "'f Value \<Rightarrow> ('f CompletionResponse, GenAiError) result" where
  "ollama_parse_response v =
     Ok \<lparr>cr_model = str_or_empty (get_str v ''model''),
       cr_message = \<lparr>msg_role = Assistant, msg_id = None,
         parts = [PText (str_or_empty (Option.bind (get v ''message'') (\<lambda>m. get_str m ''content'')))]\<rparr>,
       cr_finish_reason = (case get_str v ''done_reason'' of
           Some s \<Rightarrow> Some s
         | None \<Rightarrow> if Option.bind (get v ''done'') as_bool = Some True then Some ''stop'' else None),
       cr_usage = Some \<lparr>us_prompt_tokens = get_u32 v ''prompt_eval_count'', us_completion_tokens = get_u32 v ''eval_count'',
         us_total_tokens = None\<rparr>\<rparr>"

definition ollama_ndjson_line :: "'f float_ops \<Rightarrow> string \<Rightarrow> (CompletionChunk, GenAiError) result" where
  "ollama_ndjson_line F line = (case parse_json F line of
     Err e \<Rightarrow> Err e
   | Ok v \<Rightarrow>
       Ok \<lparr>ck_delta = str_or_empty (Option.bind (get v ''message'') (\<lambda>m. get_str m ''content'')),
         ck_finish_reason = (if Option.bind (get v ''done'') as_bool = Some True then Some ''stop'' else None), ck_usage = None\<rparr>)"

definition ollama_parse_line :: "'f float_ops \<Rightarrow> string \<Rightarrow> (CompletionChunk, GenAiError) result option" where
  "ollama_parse_line F line = (if trim line = [] then None else Some (ollama_ndjson_line F line))"

section \<open>Streams\<close>

text \<open>\<^verbatim>\<open>LineBuffer\<close> of \<^verbatim>\<open>providers/sse.rs\<close>.\<close>

definition MAX_BUFFERED_BYTES :: nat where
  "MAX_BUFFERED_BYTES = 2 ^ 20"

definition lb_push :: "string \<Rightarrow> string \<Rightarrow> string" where
  "lb_push buf bytes =
     (let buf = buf @ lossy bytes
      in if length buf > MAX_BUFFERED_BYTES \<and> CHR 0x0A \<notin> set buf then [] else buf)"

function lb_drain :: "string \<Rightarrow> string list \<times> string" where
  "lb_drain buf =
     (if CHR 0x0A \<in> set buf
      then let line = takeWhile (\<lambda>c. c \<noteq> CHR 0x0A) buf; (lines, rest) = lb_drain (tl (dropWhile (\<lambda>c. c \<noteq> CHR 0x0A) buf))
           in (trim_end (line @ [CHR 0x0A]) # lines, rest)
      else ([], buf))"
  by pat_completeness auto
termination
proof (relation "measure length")
  show "(tl (dropWhile (\<lambda>c. c \<noteq> CHR 0x0A) buf), buf) \<in> measure length" if "CHR 0x0A \<in> set buf" for buf
  proof -
    have "dropWhile (\<lambda>c. c \<noteq> CHR 0x0A) buf \<noteq> []" using that by (simp add: dropWhile_eq_Nil_conv)
    then show ?thesis using length_dropWhile_le [of "\<lambda>c. c \<noteq> CHR 0x0A" buf] by (cases "dropWhile (\<lambda>c. c \<noteq> CHR 0x0A) buf") auto
  qed
qed simp

declare lb_drain.simps [simp del]

definition lb_remainder :: "string \<Rightarrow> string" where
  "lb_remainder buf = trim_end buf"

text \<open>
  \<^verbatim>\<open>pump\<close>: what arrives at the receiver, which accepts \<open>n\<close> chunks before it is dropped. \<open>None\<close> at the end is
  the end of the body, an error ends the stream with a message.
\<close>

fun pump :: "string \<Rightarrow> (string \<Rightarrow> (CompletionChunk, GenAiError) result option) \<Rightarrow> nat \<Rightarrow> string \<Rightarrow> string list \<Rightarrow> HttpError option \<Rightarrow>
    (CompletionChunk, GenAiError) result list" where
  "pump io parse n buf [] None =
     (let rem = lb_remainder buf
      in if rem = [] then [] else take n (case parse rem of Some c \<Rightarrow> [c] | None \<Rightarrow> []))"
| "pump io parse n buf [] (Some e) = take n [Err (Transport (http_error_str io e))]"
| "pump io parse n buf (bs # rest_chunks) err =
     (let (lines, rest) = lb_drain (lb_push buf bs); sent = List.map_filter parse lines
      in if length sent > n then take n sent else sent @ pump io parse (n - length sent) rest rest_chunks err)"

section \<open>Calls\<close>

record provider_env =
  pe_send :: "Request \<Rightarrow> (answer, HttpError) result"
  pe_io :: string

definition is_success :: "nat \<Rightarrow> bool" where
  "is_success status \<longleftrightarrow> 200 \<le> status \<and> status < 300"

text \<open>\<^verbatim>\<open>Response::text\<close>\<close>

definition resp_text :: "string list \<times> HttpError option \<Rightarrow> (string, HttpError) result" where
  "resp_text b = (case snd b of Some e \<Rightarrow> Err e | None \<Rightarrow> Ok (lossy (concat (fst b))))"

definition post_json :: "'f float_ops \<Rightarrow> provider_env \<Rightarrow> string \<Rightarrow> (string \<times> string) list \<Rightarrow> AuthProvider option \<Rightarrow> 'f Value \<Rightarrow>
    (Request, GenAiError) result" where
  "post_json F E endpoint hs auth v = (case builder Post endpoint of
     Err e \<Rightarrow> Err (GConfig (http_error_str (pe_io E) e))
   | Ok req \<Rightarrow>
       let req = builder_body (to_string F v) (foldl (\<lambda>req (k, x). builder_header k x req) req (hs @ [(''content-type'', ''application/json'')]))
       in Ok (case auth of Some au \<Rightarrow> auth_apply au req | None \<Rightarrow> req))"

text \<open>The body of \<^verbatim>\<open>complete\<close> and \<^verbatim>\<open>embed\<close>, the same code for each provider.\<close>

definition run_call :: "'f float_ops \<Rightarrow> provider_env \<Rightarrow> (Request, GenAiError) result \<Rightarrow> ('f Value \<Rightarrow> ('r, GenAiError) result) \<Rightarrow>
    ('r, GenAiError) result" where
  "run_call F E req parse = (case req of
     Err e \<Rightarrow> Err e
   | Ok req \<Rightarrow> (case pe_send E req of
       Err e \<Rightarrow> Err (Transport (http_error_str (pe_io E) e))
     | Ok (status, b) \<Rightarrow> (case resp_text b of
         Err e \<Rightarrow> Err (Transport (http_error_str (pe_io E) e))
       | Ok txt \<Rightarrow>
           if \<not> is_success status then Err (Api status txt)
           else case parse_json F txt of Err e \<Rightarrow> Err e | Ok v \<Rightarrow> parse v)))"

text \<open>The body of \<^verbatim>\<open>complete_stream\<close>: what arrives at a receiver that accepts \<open>n\<close> chunks.\<close>

definition run_stream :: "provider_env \<Rightarrow> (Request, GenAiError) result \<Rightarrow> (string \<Rightarrow> (CompletionChunk, GenAiError) result option) \<Rightarrow> nat \<Rightarrow>
    ((CompletionChunk, GenAiError) result list, GenAiError) result" where
  "run_stream E req parse n = (case req of
     Err e \<Rightarrow> Err e
   | Ok req \<Rightarrow> (case pe_send E req of
       Err e \<Rightarrow> Err (Transport (http_error_str (pe_io E) e))
     | Ok (status, bss, err) \<Rightarrow>
         if \<not> is_success status then Err (Api status (case resp_text (bss, err) of Ok t \<Rightarrow> t | Err _ \<Rightarrow> []))
         else Ok (pump (pe_io E) parse n [] bss err)))"

definition openai_request :: "'f float_ops \<Rightarrow> provider_env \<Rightarrow> string \<Rightarrow> string \<Rightarrow> 'f Value \<Rightarrow> (Request, GenAiError) result" where
  "openai_request F E base key v = post_json F E (base @ ''/v1/chat/completions'') [] (Some (BearerAuth key)) v"

definition openai_complete :: "'f float_ops \<Rightarrow> provider_env \<Rightarrow> string \<Rightarrow> string \<Rightarrow> 'f chat_request \<Rightarrow> ('f CompletionResponse, GenAiError) result" where
  "openai_complete F E base key q = run_call F E (openai_request F E base key (openai_body q False)) (openai_parse_response F)"

definition openai_stream :: "'f float_ops \<Rightarrow> provider_env \<Rightarrow> string \<Rightarrow> string \<Rightarrow> 'f chat_request \<Rightarrow> nat \<Rightarrow>
    ((CompletionChunk, GenAiError) result list, GenAiError) result" where
  "openai_stream F E base key q n = run_stream E (openai_request F E base key (openai_body q True)) (openai_parse_line F) n"

definition claude_request :: "'f float_ops \<Rightarrow> provider_env \<Rightarrow> string \<Rightarrow> AuthProvider \<Rightarrow> 'f Value \<Rightarrow> (Request, GenAiError) result" where
  "claude_request F E base auth v = post_json F E (base @ ''/v1/messages'') [(''anthropic-version'', ''2023-06-01'')] (Some auth) v"

definition claude_complete :: "'f float_ops \<Rightarrow> provider_env \<Rightarrow> string \<Rightarrow> AuthProvider \<Rightarrow> 'f chat_request \<Rightarrow>
    ('f CompletionResponse, GenAiError) result" where
  "claude_complete F E base auth q = run_call F E (claude_request F E base auth (claude_body F q False)) claude_parse_response"

definition claude_stream :: "'f float_ops \<Rightarrow> provider_env \<Rightarrow> string \<Rightarrow> AuthProvider \<Rightarrow> 'f chat_request \<Rightarrow> nat \<Rightarrow>
    ((CompletionChunk, GenAiError) result list, GenAiError) result" where
  "claude_stream F E base auth q n = run_stream E (claude_request F E base auth (claude_body F q True)) (claude_parse_line F) n"

definition ollama_request :: "'f float_ops \<Rightarrow> provider_env \<Rightarrow> string \<Rightarrow> 'f Value \<Rightarrow> (Request, GenAiError) result" where
  "ollama_request F E base v = post_json F E (base @ ''/api/chat'') [] None v"

definition ollama_complete :: "'f float_ops \<Rightarrow> provider_env \<Rightarrow> string \<Rightarrow> 'f chat_request \<Rightarrow> ('f CompletionResponse, GenAiError) result" where
  "ollama_complete F E base q = run_call F E (ollama_request F E base (ollama_body q False)) ollama_parse_response"

definition ollama_stream :: "'f float_ops \<Rightarrow> provider_env \<Rightarrow> string \<Rightarrow> 'f chat_request \<Rightarrow> nat \<Rightarrow>
    ((CompletionChunk, GenAiError) result list, GenAiError) result" where
  "ollama_stream F E base q n = run_stream E (ollama_request F E base (ollama_body q True)) (ollama_parse_line F) n"

section \<open>Embeddings\<close>

record 'f EmbedResponse =
  er_model :: string
  er_embeddings :: "'f list list"
  er_usage :: "Usage option"

text \<open>\<^verbatim>\<open>num_f32\<close>: the last step, the rounding of \<^verbatim>\<open>f64\<close> to \<^verbatim>\<open>f32\<close>, is an argument.\<close>

definition as_f64 :: "'f float_casts \<Rightarrow> 'f Value \<Rightarrow> 'f option" where
  "as_f64 C v = (case v of Float f \<Rightarrow> Some f | IntV i \<Rightarrow> Some (i64_as_f C i) | UInt u \<Rightarrow> Some (u64_as_f C u) | _ \<Rightarrow> None)"

definition num_f32 :: "('f \<Rightarrow> 'f) \<Rightarrow> 'f float_casts \<Rightarrow> 'f Value \<Rightarrow> 'f option" where
  "num_f32 to_f32 C v = map_option to_f32 (as_f64 C v)"

fun all_some :: "'a option list \<Rightarrow> 'a list option" where
  "all_some [] = Some []"
| "all_some (None # _) = None"
| "all_some (Some x # xs) = map_option (Cons x) (all_some xs)"

definition number_row :: "('f \<Rightarrow> 'f) \<Rightarrow> 'f float_casts \<Rightarrow> string \<Rightarrow> 'f Value list option \<Rightarrow> ('f list, GenAiError) result" where
  "number_row r C missing row = (case row of
     None \<Rightarrow> Err (ResponseParse missing)
   | Some vs \<Rightarrow> (case all_some (map (num_f32 r C) vs) of
       None \<Rightarrow> Err (ResponseParse ''non-numeric embedding value'')
     | Some fs \<Rightarrow> Ok fs))"

definition quoted :: "string \<Rightarrow> string" where
  "quoted s = CHR 0x27 # s @ [CHR 0x27]"

definition openai_embeddings :: "('f \<Rightarrow> 'f) \<Rightarrow> 'f float_casts \<Rightarrow> string \<Rightarrow> 'f Value \<Rightarrow> ('f EmbedResponse, GenAiError) result" where
  "openai_embeddings r C model v = (case Option.bind (get v ''data'') as_array of
     None \<Rightarrow> Err (ResponseParse (''missing '' @ quoted ''data'' @ '' array''))
   | Some items \<Rightarrow>
       (case collect_results (\<lambda>item. number_row r C (''missing '' @ quoted ''embedding'') (Option.bind (get item ''embedding'') as_array)) items of
          Err e \<Rightarrow> Err e
        | Ok rows \<Rightarrow> Ok \<lparr>er_model = (case get_str v ''model'' of Some m \<Rightarrow> m | None \<Rightarrow> model), er_embeddings = rows,
            er_usage = map_option (\<lambda>u. \<lparr>us_prompt_tokens = get_u32 u ''prompt_tokens'', us_completion_tokens = None,
              us_total_tokens = get_u32 u ''total_tokens''\<rparr>) (get v ''usage'')\<rparr>))"

definition ollama_embeddings :: "('f \<Rightarrow> 'f) \<Rightarrow> 'f float_casts \<Rightarrow> string \<Rightarrow> 'f Value \<Rightarrow> ('f EmbedResponse, GenAiError) result" where
  "ollama_embeddings r C model v = (case Option.bind (get v ''embeddings'') as_array of
     None \<Rightarrow> Err (ResponseParse (''missing '' @ quoted ''embeddings'' @ '' array''))
   | Some rows \<Rightarrow>
       (case collect_results (\<lambda>row. number_row r C ''embedding is not an array'' (as_array row)) rows of
          Err e \<Rightarrow> Err e
        | Ok rows \<Rightarrow> Ok \<lparr>er_model = (case get_str v ''model'' of Some m \<Rightarrow> m | None \<Rightarrow> model), er_embeddings = rows, er_usage = None\<rparr>))"

definition embed_body :: "string \<Rightarrow> string list \<Rightarrow> 'f Value" where
  "embed_body model inputs = Object [(''model'', Str model), (''input'', Array (map Str inputs))]"

definition openai_embed :: "'f float_ops \<Rightarrow> ('f \<Rightarrow> 'f) \<Rightarrow> 'f float_casts \<Rightarrow> provider_env \<Rightarrow> string \<Rightarrow> string \<Rightarrow> string \<Rightarrow> string list \<Rightarrow>
    ('f EmbedResponse, GenAiError) result" where
  "openai_embed F r C E base key model inputs =
     run_call F E (post_json F E (base @ ''/v1/embeddings'') [] (Some (BearerAuth key)) (embed_body model inputs)) (openai_embeddings r C model)"

definition ollama_embed :: "'f float_ops \<Rightarrow> ('f \<Rightarrow> 'f) \<Rightarrow> 'f float_casts \<Rightarrow> provider_env \<Rightarrow> string \<Rightarrow> string \<Rightarrow> string list \<Rightarrow>
    ('f EmbedResponse, GenAiError) result" where
  "ollama_embed F r C E base model inputs =
     run_call F E (post_json F E (base @ ''/api/embed'') [] None (embed_body model inputs)) (ollama_embeddings r C model)"

end
