(* ===== verification/Genai_Providers_Correct.thy ===== *)
theory Genai_Providers_Correct
  imports Genai_Providers Http_Correct Rust_Trim
begin

text \<open>
  Provider streams: the receiver gets what the lines of the body parse to, however the network cuts the body, so that the text
  of a completion is reassembled.
\<close>

section \<open>Lines\<close>

abbreviation nl :: char where
  "nl \<equiv> CHR 0x0A"

text \<open>
  What a body parses to: its complete lines, then what is left when the body ends, or the error that cut it off.
\<close>

definition body_chunks :: "string \<Rightarrow> (string \<Rightarrow> (CompletionChunk, GenAiError) result option) \<Rightarrow> string \<Rightarrow> HttpError option \<Rightarrow>
    (CompletionChunk, GenAiError) result list" where
  "body_chunks io parse s err =
     List.map_filter parse (map (\<lambda>l. trim_end (l @ [nl])) (butlast (split_on nl s))) @
     (case err of
        Some e \<Rightarrow> [Err (Transport (http_error_str io e))]
      | None \<Rightarrow> (let l = trim_end (last (split_on nl s)) in if l = [] then [] else case parse l of Some c \<Rightarrow> [c] | None \<Rightarrow> []))"

lemma drain_split: "lb_drain s = (map (\<lambda>l. trim_end (l @ [nl])) (butlast (split_on nl s)), last (split_on nl s))"
proof (induction s rule: lb_drain.induct)
  case (1 s)
  show ?case
  proof (cases "nl \<in> set s")
    case True
    let ?a = "takeWhile (\<lambda>c. c \<noteq> nl) s" and ?d = "dropWhile (\<lambda>c. c \<noteq> nl) s"
    have "?d \<noteq> []" using True by (simp add: dropWhile_eq_Nil_conv)
    then have d: "?d = nl # tl ?d" using hd_dropWhile [of "\<lambda>c. c \<noteq> nl" s] by (cases ?d) auto
    have a: "nl \<notin> set ?a" by (auto dest: set_takeWhileD)
    have "s = ?a @ nl # tl ?d" using takeWhile_dropWhile_id [of "\<lambda>c. c \<noteq> nl" s] d by simp
    then have s: "split_on nl s = ?a # split_on nl (tl ?d)" using split_on_clean [OF a] by metis
    show ?thesis using 1 [OF True refl] True by (subst lb_drain.simps) (simp add: s)
  next
    case False
    then show ?thesis by (subst lb_drain.simps) (simp add: split_on_last)
  qed
qed

lemma split_on_append:
  "split_on c (a @ b) = butlast (split_on c a) @ (last (split_on c a) @ hd (split_on c b)) # tl (split_on c b)"
proof (induction a)
  case Nil
  then show ?case by (cases "split_on c b") simp_all
next
  case (Cons x a)
  obtain p ps where a: "split_on c a = p # ps" by (cases "split_on c a") auto
  then show ?case using Cons.IH by (cases ps) auto
qed

lemma split_on_hd: "c \<notin> set a \<Longrightarrow> split_on c (a @ b) = (a @ hd (split_on c b)) # tl (split_on c b)"
  by (simp add: split_on_append split_on_last)

lemma last_split_clean: "c \<notin> set (last (split_on c s))"
  using split_on_pieces [of "last (split_on c s)" c s] by simp

text \<open>Cutting the text after any byte: the lines of the first part, then those of what was left over with the second.\<close>

lemma split_on_resume:
  "butlast (split_on c (a @ b)) = butlast (split_on c a) @ butlast (split_on c (last (split_on c a) @ b))"
  "last (split_on c (a @ b)) = last (split_on c (last (split_on c a) @ b))"
  using split_on_hd [OF last_split_clean, of c a b] by (simp_all add: split_on_append [of c a b] butlast_append)

section \<open>The pump\<close>

lemma map_filter_append: "List.map_filter f (xs @ ys) = List.map_filter f xs @ List.map_filter f ys"
  by (simp add: List.map_filter_def)

lemma push_whole:
  assumes "lossy bs = bs" and "\<forall>p\<in>set (split_on nl (buf @ bs @ r)). length p \<le> MAX_BUFFERED_BYTES"
  shows "lb_push buf bs = buf @ bs"
proof (cases "nl \<in> set (buf @ bs)")
  case True
  then show ?thesis using assms(1) by (simp add: lb_push_def)
next
  case False
  then have "hd (split_on nl (buf @ bs @ r)) = (buf @ bs) @ hd (split_on nl r)" using split_on_hd [of nl "buf @ bs" r] by simp
  moreover have "hd (split_on nl (buf @ bs @ r)) \<in> set (split_on nl (buf @ bs @ r))" by simp
  ultimately have "length (buf @ bs) \<le> MAX_BUFFERED_BYTES" using assms(2) by fastforce
  then show ?thesis using assms(1) by (simp add: lb_push_def)
qed

lemma pump_lines:
  assumes "nl \<notin> set buf" and "\<forall>bs\<in>set bss. lossy bs = bs" and "\<forall>p\<in>set (split_on nl (buf @ concat bss)). length p \<le> MAX_BUFFERED_BYTES"
  shows "pump io parse n buf bss err = take n (body_chunks io parse (buf @ concat bss) err)"
  using assms
proof (induction bss arbitrary: buf n)
  case Nil
  then show ?case by (cases err) (simp_all add: body_chunks_def split_on_last lb_remainder_def Let_def List.map_filter_def)
next
  case (Cons bs bss)
  let ?s = "buf @ bs"
  have push: "lb_push buf bs = ?s" using Cons.prems push_whole [of bs buf "concat bss"] by simp
  let ?rest = "last (split_on nl ?s)"
  have lines: "body_chunks io parse (?s @ concat bss) err =
      List.map_filter parse (map (\<lambda>l. trim_end (l @ [nl])) (butlast (split_on nl ?s))) @ body_chunks io parse (?rest @ concat bss) err"
    by (cases err) (simp_all add: body_chunks_def split_on_resume [of nl ?s "concat bss", simplified] map_filter_append)
  have "set (split_on nl (?rest @ concat bss)) \<subseteq> set (split_on nl (?s @ concat bss))"
    using split_on_hd [OF last_split_clean, of nl ?s "concat bss"] split_on_append [of nl ?s "concat bss"] by auto
  then have "pump io parse m ?rest bss err = take m (body_chunks io parse (?rest @ concat bss) err)" for m
    using Cons.prems by (intro Cons.IH last_split_clean) auto
  then show ?case using lines by (simp add: push drain_split Let_def)
qed

section \<open>Completions are reassembled\<close>

text \<open>
  A streaming API writes its body line by line; what each line means to a client is a relation between lines and
  chunks, and the parser of the provider has to agree with it on every line.
\<close>

definition render :: "string list \<Rightarrow> string" where
  "render ls = concat (map (\<lambda>l. l @ [nl]) ls)"

lemma split_render: "\<forall>l\<in>set ls. nl \<notin> set l \<Longrightarrow> split_on nl (render ls) = ls @ [[]]"
  by (induction ls) (simp_all add: render_def split_on_clean)

locale chat_stream =
  fixes parse :: "string \<Rightarrow> (CompletionChunk, GenAiError) result option" and means :: "string \<Rightarrow> CompletionChunk option \<Rightarrow> bool"
  assumes parse_means: "means l x \<Longrightarrow> nl \<notin> set l \<Longrightarrow> parse (trim_end (l @ [nl])) = map_option Ok x"
begin

lemma lines_parse:
  assumes "list_all2 means ls xs" and "\<forall>l\<in>set ls. nl \<notin> set l"
  shows "List.map_filter parse (map (\<lambda>l. trim_end (l @ [nl])) ls) = map Ok (List.map_filter id xs)"
  using assms by (induction rule: list_all2_induct) (auto simp: List.map_filter_def parse_means)

lemma reassembled:
  assumes "concat bss = render ls" and "list_all2 means ls xs" and "\<forall>bs\<in>set bss. lossy bs = bs"
    and "\<forall>l\<in>set ls. nl \<notin> set l \<and> length l \<le> MAX_BUFFERED_BYTES"
  shows "pump io parse n [] bss None = take n (map Ok (List.map_filter id xs))"
proof -
  have lines: "split_on nl (concat bss) = ls @ [[]]" unfolding assms(1) using assms(4) by (intro split_render) auto
  then have "\<forall>p\<in>set (split_on nl ([] @ concat bss)). length p \<le> MAX_BUFFERED_BYTES" using assms(4) by auto
  then have "pump io parse n [] bss None = take n (body_chunks io parse (concat bss) None)"
    using pump_lines [of "[]" bss io parse n None] assms(3) by simp
  moreover have "trim_end [] = []" by (simp add: trim_end_def drop_prefixes_id white_space_literal)
  ultimately show ?thesis using lines lines_parse [OF assms(2)] assms(4)
    by (simp add: body_chunks_def butlast_append)
qed

end

text \<open>
  The three APIs. A document of a stream may hold any fields beside those named here, and may be written in any way a
  JSON reader accepts. OpenAI: the first choice has a delta, whose content may be missing or null, and a finish reason,
  which may be missing or null; the chunk with the usage has no choices. Claude: text deltas, deltas of a tool's input,
  which have no text, the message delta with its stop reason, and events of other types. Ollama: the content of a
  message and whether it is the last.
\<close>

datatype api = OpenAi | Claude | Ollama

fun api_parse :: "'f float_ops \<Rightarrow> api \<Rightarrow> string \<Rightarrow> (CompletionChunk, GenAiError) result option" where
  "api_parse F OpenAi = openai_parse_line F"
| "api_parse F Claude = claude_parse_line F"
| "api_parse F Ollama = ollama_parse_line F"

inductive optional_text :: "'f Value option \<Rightarrow> string option \<Rightarrow> bool" where
  missing: "optional_text None None"
| null: "optional_text (Some Null) None"
| given: "optional_text (Some (Str s)) (Some s)"

definition piece :: "string option \<Rightarrow> string option \<Rightarrow> CompletionChunk" where
  "piece d r = \<lparr>ck_delta = (case d of None \<Rightarrow> [] | Some t \<Rightarrow> t), ck_finish_reason = r, ck_usage = None\<rparr>"

inductive api_document :: "api \<Rightarrow> 'f Value \<Rightarrow> CompletionChunk option \<Rightarrow> bool" where
  openai_choice: "get v ''choices'' = Some (Array (c # cs)) \<Longrightarrow> get c ''delta'' = Some dl \<Longrightarrow>
    optional_text (get dl ''content'') d \<Longrightarrow> optional_text (get c ''finish_reason'') r \<Longrightarrow>
    api_document OpenAi v (Some (piece d r))"
| openai_usage: "get v ''choices'' = Some (Array []) \<Longrightarrow> api_document OpenAi v (Some (piece None None))"
| claude_text: "get v ''type'' = Some (Str ''content_block_delta'') \<Longrightarrow> get v ''delta'' = Some dl \<Longrightarrow>
    optional_text (get dl ''text'') d \<Longrightarrow> api_document Claude v (Some (piece d None))"
| claude_delta: "get v ''type'' = Some (Str ''message_delta'') \<Longrightarrow> get v ''delta'' = Some dl \<Longrightarrow>
    optional_text (get dl ''stop_reason'') r \<Longrightarrow> api_document Claude v (Some (piece None r))"
| claude_other: "get v ''type'' = Some (Str t) \<Longrightarrow> t \<notin> {''content_block_delta'', ''message_delta''} \<Longrightarrow>
    api_document Claude v None"
| ollama_message: "get v ''message'' = Some m \<Longrightarrow> get m ''content'' = Some (Str d) \<Longrightarrow> get v ''done'' = Some (Bool b) \<Longrightarrow>
    api_document Ollama v (Some (piece (Some d) (if b then Some ''stop'' else None)))"

text \<open>
  Lines, with or without a carriage return at the end: OpenAI and Claude send server-sent events, whose other fields,
  comments and blank lines carry no text, OpenAI ends with \<^verbatim>\<open>[DONE]\<close>; Ollama sends one document a line.
\<close>

inductive api_line :: "'f float_ops \<Rightarrow> api \<Rightarrow> string \<Rightarrow> CompletionChunk option \<Rightarrow> bool" for F where
  sse_document: "a \<noteq> Ollama \<Longrightarrow> from_str F (''{'' @ u @ ''}'') = Some (Ok v) \<Longrightarrow> api_document a v x \<Longrightarrow>
    blank \<in> {'''', '' ''} \<Longrightarrow> cr \<in> {'''', [CHR 0x0D]} \<Longrightarrow>
    api_line F a (''data:'' @ blank @ (''{'' @ u @ ''}'') @ cr) x"
| sse_other: "a \<noteq> Ollama \<Longrightarrow> \<not> prefix ''data:'' l \<Longrightarrow> api_line F a l None"
| openai_done: "cr \<in> {'''', [CHR 0x0D]} \<Longrightarrow> api_line F OpenAi (''data: [DONE]'' @ cr) None"
| json_document: "from_str F (''{'' @ u @ ''}'') = Some (Ok v) \<Longrightarrow> api_document Ollama v x \<Longrightarrow>
    cr \<in> {'''', [CHR 0x0D]} \<Longrightarrow> api_line F Ollama ((''{'' @ u @ ''}'') @ cr) x"
| json_blank: "cr \<in> {'''', [CHR 0x0D]} \<Longrightarrow> api_line F Ollama cr None"

lemma line_end:
  assumes "trail_ok l" and "cr \<in> {'''', [CHR 0x0D]}"
  shows "trim_end (l @ cr @ [nl]) = l"
proof -
  have "trim_end (l @ [nl]) = l" using assms(1) by (simp add: trim_end_snoc ascii_space_def trim_end_trail)
  moreover have "trim_end ((l @ [CHR 0x0D]) @ [nl]) = l"
    using assms(1) trim_end_snoc [of nl "l @ [CHR 0x0D]"] by (simp add: ascii_space_def trim_end_snoc trim_end_trail)
  ultimately show ?thesis using assms(2) by auto
qed

lemma braces_trail: "trail_ok (r @ ''{'' @ u @ ''}'')"
  using trail_ok_last [of "CHR ''}''" "r @ ''{'' @ u"] by simp

lemma braces_trim: "trim (''{'' @ u @ ''}'') = ''{'' @ u @ ''}''"
proof -
  have "lead_ok (''{'' @ u @ ''}'')" using lead_ok_hd [of "CHR ''{''"] by simp
  then show ?thesis using braces_trail [of "[]" u] by (simp add: trim_id trimmed_iff)
qed

lemma sse_line_data:
  assumes "blank \<in> {'''', '' ''}" and "cr \<in> {'''', [CHR 0x0D]}"
  shows "sse_data (trim_end ((''data:'' @ blank @ (''{'' @ u @ ''}'') @ cr) @ [nl])) = Some (''{'' @ u @ ''}'')"
proof -
  have "trim_end ((''data:'' @ blank @ (''{'' @ u @ ''}'') @ cr) @ [nl]) = ''data:'' @ blank @ ''{'' @ u @ ''}''"
    using line_end [OF braces_trail [of "''data:'' @ blank" u] assms(2)] by simp
  moreover have "trim (blank @ ''{'' @ u @ ''}'') = ''{'' @ u @ ''}''"
    using assms(1) braces_trim [of u] by (auto simp: trim_def trim_start_blank)
  ultimately show ?thesis by (simp add: sse_data_def strip_prefix_def)
qed

lemma sse_other_data:
  assumes "\<not> prefix ''data:'' l"
  shows "sse_data (trim_end (l @ [nl])) = None"
proof -
  have "prefix (trim_end (l @ [nl])) (l @ [nl])" by (rule trim_end_prefix)
  moreover have "\<not> prefix ''data:'' (l @ [nl])" using assms by (auto simp: prefix_snoc)
  ultimately have "\<not> prefix ''data:'' (trim_end (l @ [nl]))" by (meson prefix_order.trans)
  then show ?thesis by (auto simp: sse_data_def strip_prefix_def)
qed

lemma done_data:
  assumes "cr \<in> {'''', [CHR 0x0D]}"
  shows "sse_data (trim_end ((''data: [DONE]'' @ cr) @ [nl])) = Some ''[DONE]''"
proof -
  have "trim_end ((''data: [DONE]'' @ cr) @ [nl]) = ''data: [DONE]''"
    using line_end [OF _ assms, of "''data: [DONE]''"] trail_ok_last [of "CHR '']''" "''data: [DONE''"] by simp
  moreover have "trimmed ''[DONE]''"
    using trail_ok_last [of "CHR '']''" "''[DONE''"] lead_ok_hd [of "CHR ''[''"] by (simp add: trimmed_iff)
  then have "trim ''[DONE]'' = ''[DONE]''" by (rule trim_id)
  ultimately show ?thesis by (simp add: sse_data_def strip_prefix_def trim_def trim_start_blank)
qed

lemma blank_end: "cr \<in> {'''', [CHR 0x0D]} \<Longrightarrow> trim (trim_end (cr @ [nl])) = []"
  using line_end [of "[]" cr] trim_id [of "[]"] by (simp add: trail_ok_def trimmed_iff lead_ok_def white_space_literal)

lemma openai_document_parses:
  "api_document OpenAi v x \<Longrightarrow> from_str F (''{'' @ u @ ''}'') = Some (Ok v) \<Longrightarrow> sse_data l = Some (''{'' @ u @ ''}'') \<Longrightarrow>
   openai_parse_line F l = map_option Ok x"
  by (auto simp: openai_parse_line_def parse_json_def get_index_def str_or_empty_def get_str_def piece_def
      elim!: api_document.cases optional_text.cases)

lemma claude_document_parses:
  "api_document Claude v x \<Longrightarrow> from_str F (''{'' @ u @ ''}'') = Some (Ok v) \<Longrightarrow> sse_data l = Some (''{'' @ u @ ''}'') \<Longrightarrow>
   claude_parse_line F l = map_option Ok x"
  by (auto simp: claude_parse_line_def parse_json_def str_or_empty_def get_str_def piece_def
      elim!: api_document.cases optional_text.cases)

lemma ollama_document_parses:
  "api_document Ollama v x \<Longrightarrow> from_str F (''{'' @ u @ ''}'') = Some (Ok v) \<Longrightarrow>
   ollama_parse_line F (''{'' @ u @ ''}'') = map_option Ok x"
  by (auto simp: ollama_parse_line_def ollama_ndjson_line_def braces_trim [simplified] parse_json_def str_or_empty_def get_str_def piece_def
      elim!: api_document.cases)

lemma api_line_parses:
  assumes "api_line F a l x"
  shows "api_parse F a (trim_end (l @ [nl])) = map_option Ok x"
  using assms
proof cases
  case (sse_document u v blank cr)
  then show ?thesis
    using sse_line_data [of blank cr u] openai_document_parses [of v x F u] claude_document_parses [of v x F u] by (cases a) auto
next
  case sse_other
  then show ?thesis using sse_other_data [of l] by (cases a) (simp_all add: openai_parse_line_def claude_parse_line_def)
next
  case (openai_done cr)
  then show ?thesis using done_data [of cr] by (simp add: openai_parse_line_def)
next
  case (json_document u v cr)
  then show ?thesis using line_end [OF braces_trail [of "[]" u], of cr] ollama_document_parses [of v x F u] by auto
next
  case json_blank
  then show ?thesis using blank_end [of l] by (simp add: ollama_parse_line_def)
qed

interpretation api: chat_stream "api_parse F a" "api_line F a"
  by unfold_locales (rule api_line_parses)


text \<open>A stream of Claude cut inside a line, with an event name, a ping, other fields and its own stop reason.\<close>

definition sample_docs :: "nat Value list" where
  "sample_docs =
     [Object [(''type'', Str ''ping'')],
      Object [(''type'', Str ''content_block_delta''), (''index'', Null), (''delta'', Object [(''type'', Str ''text_delta''), (''text'', Str ''Hi'')])],
      Object [(''type'', Str ''message_delta''), (''delta'', Object [(''stop_reason'', Str ''end_turn'')])]]"

definition sample_lines :: "string list" where
  "sample_lines =
     [''event: ping'', ''data: {\"type\":\"ping\"}'', '''',
      ''data: {\"type\":\"content_block_delta\",\"index\":null,\"delta\":{\"type\":\"text_delta\",\"text\":\"Hi\"}}'', '''',
      ''data:{\"type\":\"message_delta\",\"delta\":{\"stop_reason\":\"end_turn\"}}'' @ [CHR 0x0D], '''']"

definition sample_bss :: "string list" where
  "sample_bss = [take 30 (render sample_lines), drop 30 (render sample_lines)]"

definition sample_request :: Request where
  "sample_request = request_new Post (case uri_parse ''http://h'' of Ok u \<Rightarrow> u)"

lemma get_cons: "get (Object ((k, v) # kvs)) k' = (case get (Object kvs) k' of Some w \<Rightarrow> Some w | None \<Rightarrow> if k = k' then Some v else None)"
proof -
  have "find P (xs @ [x]) = (case find P xs of Some y \<Rightarrow> Some y | None \<Rightarrow> if P x then Some x else None)" for P xs and x :: "string \<times> 'a Value"
    by (induction xs) auto
  then show ?thesis by (auto simp: get_def find_key_def split: option.splits)
qed

lemma get_nil [simp]: "get (Object []) k = None"
  by (simp add: get_def find_key_def)

lemma sample_line:
  assumes "v \<in> set sample_docs" and "to_string int_floats v = ''{'' @ u @ ''}''" and "api_document Claude v x"
    and "blank \<in> {'''', '' ''}" and "cr \<in> {'''', [CHR 0x0D]}"
  shows "api_line int_floats Claude (''data:'' @ blank @ (''{'' @ u @ ''}'') @ cr) x"
proof (rule sse_document)
  have "depth_of v \<le> max_depth" "normal int_floats v = v" using assms(1) by (auto simp: sample_docs_def max_depth_def)
  then show "from_str int_floats (''{'' @ u @ ''}'') = Some (Ok v)"
    using from_str_printed [OF int_floats_ok, of v] assms(2) by simp
qed (use assms in auto)

lemma sample_means:
  "list_all2 (api_line int_floats Claude) sample_lines
     [None, None, None, Some (piece (Some ''Hi'') None), None, Some (piece None (Some ''end_turn'')), None]"
proof -
  have "api_document Claude (Object [(''type'', Str ''ping'')]) None"
    by (rule claude_other [of _ "''ping''"]) (simp_all add: get_cons)
  moreover have "api_document Claude (sample_docs ! 1) (Some (piece (Some ''Hi'') None))"
    by (rule claude_text) (auto simp: sample_docs_def get_cons intro: given)
  moreover have "api_document Claude (sample_docs ! 2) (Some (piece None (Some ''end_turn'')))"
    by (rule claude_delta) (auto simp: sample_docs_def get_cons intro: given)
  ultimately have docs:
    "api_line int_floats Claude ''data: {\"type\":\"ping\"}'' None"
    "api_line int_floats Claude ''data: {\"type\":\"content_block_delta\",\"index\":null,\"delta\":{\"type\":\"text_delta\",\"text\":\"Hi\"}}''
       (Some (piece (Some ''Hi'') None))"
    "api_line int_floats Claude (''data:{\"type\":\"message_delta\",\"delta\":{\"stop_reason\":\"end_turn\"}}'' @ [CHR 0x0D])
       (Some (piece None (Some ''end_turn'')))"
    using sample_line [of "sample_docs ! 0" "''\"type\":\"ping\"''" None "'' ''" "''''"]
      sample_line [of "sample_docs ! 1" "''\"type\":\"content_block_delta\",\"index\":null,\"delta\":{\"type\":\"text_delta\",\"text\":\"Hi\"}''" _ "'' ''" "''''"]
      sample_line [of "sample_docs ! 2" "''\"type\":\"message_delta\",\"delta\":{\"stop_reason\":\"end_turn\"}''" _ "''''" "[CHR 0x0D]"]
    by (simp_all add: sample_docs_def to_string_eq quote_def escape_def)
  have "api_line int_floats Claude ''event: ping'' None" "api_line int_floats Claude '''' None"
    by (rule sse_other; simp)+
  then show ?thesis using docs by (simp add: sample_lines_def)
qed


text \<open>Where the code does less than it seems to.\<close>

text \<open>A character of two bytes that arrives in two chunks becomes two replacement characters.\<close>

lemma split_character_corrupted:
  "lb_push (lb_push [] [CHR 0xC3]) [CHR 0xA9] = [CHR 0xEF, CHR 0xBF, CHR 0xBD, CHR 0xEF, CHR 0xBF, CHR 0xBD]"
proof -
  have "lossy [CHR 0xC3] = [CHR 0xEF, CHR 0xBF, CHR 0xBD]" "lossy [CHR 0xA9] = [CHR 0xEF, CHR 0xBF, CHR 0xBD]" by code_simp+
  then show ?thesis by (simp add: lb_push_def MAX_BUFFERED_BYTES_def)
qed

text \<open>The result of a tool never reaches OpenAI.\<close>

lemma openai_drops_tool_results:
  "openai_message \<lparr>msg_role = Tool, msg_id = None, parts = [PToolResult i v]\<rparr> = Object [(''role'', Str ''tool''), (''content'', Array [])]"
  by (simp add: openai_message_def map_filter_simps)

text \<open>With system instructions given, Claude does not see the system messages of the conversation.\<close>

lemma claude_drops_system_messages:
  "rq_system_instructions (q_rest q) = Some s \<Longrightarrow>
   claude_body F (q\<lparr>q_rest := (q_rest q)\<lparr>rq_messages := filter (\<lambda>m. msg_role m \<noteq> System) (rq_messages (q_rest q))\<rparr>\<rparr>) st = claude_body F q st"
  by (simp add: claude_body_def claude_system_def Let_def)

text \<open>No provider sends the options set with \<^verbatim>\<open>custom\<close>.\<close>

lemma custom_options_unsent:
  "openai_body (q\<lparr>q_rest := (q_rest q)\<lparr>rq_custom := c\<rparr>\<rparr>) st = openai_body q st"
  "claude_body F (q\<lparr>q_rest := (q_rest q)\<lparr>rq_custom := c\<rparr>\<rparr>) st = claude_body F q st"
  "ollama_body (q\<lparr>q_rest := (q_rest q)\<lparr>rq_custom := c\<rparr>\<rparr>) st = ollama_body q st"
  by (simp_all add: openai_body_def claude_body_def ollama_body_def system_first_def claude_system_def Let_def split: option.splits)

end
