(* ===== verification/Messaging.thy ===== *)
theory Messaging
  imports Rust_Str Codec_Value "HOL-Library.Multiset"
begin

text \<open>
  The in-process message bus, \<^verbatim>\<open>messaging/mod.rs\<close>: destinations with competing listeners, bounded channels, redelivery
  and dead letters. The tasks of the program (blocked senders, consumer loops, handler jobs, detached requeues) are
  explicit in the state, and one \<open>action\<close> is one task running to its next suspension point, so that a sequence of actions is an
  interleaving of the program. The hasher behind routing keys and the handlers' verdicts are arbitrary.
  An observer is installed, so that its calls record what happens to a message; a caller that drops the future of its send before
  it is done is not modelled.
\<close>

section \<open>Messages\<close>

record 'f BusMessage =
  m_headers :: "'f Value"
  m_body :: bytes
  m_routing_key :: "string option"
  m_delivery_count :: u32

definition message_new :: "bytes \<Rightarrow> 'f BusMessage" where
  "message_new body = \<lparr>m_headers = Null, m_body = body, m_routing_key = None, m_delivery_count = 0\<rparr>"

definition msg_with_header :: "string \<Rightarrow> 'f Value \<Rightarrow> 'f BusMessage \<Rightarrow> 'f BusMessage" where
  "msg_with_header k v m = (case m_headers m of
     Object ob \<Rightarrow> m\<lparr>m_headers := Object (ob @ [(k, v)])\<rparr>
   | _ \<Rightarrow> m\<lparr>m_headers := Object [(k, v)]\<rparr>)"

definition with_routing_key :: "string \<Rightarrow> 'f BusMessage \<Rightarrow> 'f BusMessage" where
  "with_routing_key k m = m\<lparr>m_routing_key := Some k\<rparr>"

datatype Ack = AckOk | AckRetry | AckReject

definition fallible_ack :: "(unit, 'e) result \<Rightarrow> Ack" where
  "fallible_ack r = (case r of Ok _ \<Rightarrow> AckOk | Err _ \<Rightarrow> AckRetry)"

record SendOptions =
  so_routing_key :: "string option"
  block_on_full :: bool

record ListenerOptions =
  buffer_size :: nat
  concurrency :: "nat option"
  max_delivery_attempts :: u32
  dead_letter :: "string option"

definition default_listener :: ListenerOptions where
  "default_listener = \<lparr>buffer_size = 256, concurrency = None, max_delivery_attempts = 3, dead_letter = None\<rparr>"

datatype MessagingError = NoListeners string | BufferFull string | ChanClosed string

text \<open>What an observer is told.\<close>

datatype 'f event = On_send string "'f BusMessage" | On_receive string "'f BusMessage" | On_ack string "'f BusMessage"
  | On_nack string "'f BusMessage" bool | On_dead_letter string "'f BusMessage" bool

definition dest_name :: "string \<Rightarrow> string" where
  "dest_name addr = (case split_once_str ''://'' addr of Some (_, n) \<Rightarrow> n | None \<Rightarrow> addr)"

definition chan_addr :: "string \<Rightarrow> string" where
  "chan_addr nm = ''chan://'' @ nm"

section \<open>The state of the bus\<close>

text \<open>A channel and the consumer loop that owns its receiver: \<open>ch_held\<close> is a message received and waiting for a permit,
  \<open>ch_spawned\<close> the jobs of a concurrent listener that were spawned and not polled yet, \<open>ch_jobs\<close> the handler invocations in
  progress. \<open>ch_accepted\<close> and \<open>ch_handled\<close> record what was put into the channel
  and handed to the handler.\<close>

record 'f chan =
  ch_name :: string
  ch_opts :: ListenerOptions
  ch_open :: bool
  ch_queue :: "'f BusMessage list"
  ch_held :: "'f BusMessage option"
  ch_spawned :: "'f BusMessage list"
  ch_jobs :: "'f BusMessage list"
  ch_accepted :: "'f BusMessage list"
  ch_handled :: "'f BusMessage list"

record DestState =
  listeners :: "nat list"
  round_robin :: u64

text \<open>A send past \<^verbatim>\<open>pick\<close> holding the sender of channel \<open>c\<close>, for a client or (\<open>Some is_dlq\<close>) for a detached task;
  and a detached task not yet started.\<close>

datatype 'f bus_task = Sending "bool option" string "'f BusMessage" bool nat | Requeue string "'f BusMessage" bool

text \<open>\<open>outcomes\<close> are the results returned to clients. \<open>submitted\<close>, \<open>rejected\<close> and \<open>crashed\<close> record the messages clients sent,
  handlers rejected, and lost with a handler that panicked.\<close>

record 'f Bus =
  destinations :: "string \<Rightarrow> DestState option"
  chans :: "'f chan list"
  bus_tasks :: "'f bus_task list"
  events :: "'f event list"
  outcomes :: "('f BusMessage \<times> (unit, MessagingError) result) list"
  submitted :: "'f BusMessage list"
  rejected :: "'f BusMessage list"
  crashed :: "'f BusMessage list"

definition bus_new :: "'f Bus" where
  "bus_new = \<lparr>destinations = Map.empty, chans = [], bus_tasks = [], events = [], outcomes = [], submitted = [], rejected = [], crashed = []\<rparr>"

definition emit_event :: "'f event \<Rightarrow> 'f Bus \<Rightarrow> 'f Bus" where
  "emit_event e b = b\<lparr>events := events b @ [e]\<rparr>"

definition upd_chan :: "nat \<Rightarrow> ('f chan \<Rightarrow> 'f chan) \<Rightarrow> 'f Bus \<Rightarrow> 'f Bus" where
  "upd_chan c f b = b\<lparr>chans := (chans b)[c := f (chans b ! c)]\<rparr>"

definition drop_nth :: "nat \<Rightarrow> 'a list \<Rightarrow> 'a list" where
  "drop_nth i xs = take i xs @ drop (Suc i) xs"

section \<open>Sending\<close>

definition pick :: "(string \<Rightarrow> nat) \<Rightarrow> string \<Rightarrow> string option \<Rightarrow> 'f Bus \<Rightarrow> nat option \<times> 'f Bus" where
  "pick H nm key b = (case destinations b nm of
     None \<Rightarrow> (None, b)
   | Some st \<Rightarrow>
       let live = filter (\<lambda>c. ch_open (chans b ! c)) (listeners st);
           put = (\<lambda>st. b\<lparr>destinations := (destinations b)(nm \<mapsto> st)\<rparr>)
       in if live = [] then (None, put (st\<lparr>listeners := []\<rparr>))
          else case key of
              Some k \<Rightarrow> (Some (live ! (H k mod length live)), put (st\<lparr>listeners := live\<rparr>))
            | None \<Rightarrow> (Some (live ! (unat (round_robin st) mod length live)),
                       put (st\<lparr>listeners := live, round_robin := round_robin st + 1\<rparr>)))"

definition send :: "(string \<Rightarrow> nat) \<Rightarrow> string \<Rightarrow> 'f BusMessage \<Rightarrow> SendOptions \<Rightarrow> 'f Bus \<Rightarrow> 'f Bus" where
  "send H addr m opts b =
     (let b = b\<lparr>submitted := submitted b @ [m]\<rparr>;
          key = (case so_routing_key opts of Some k \<Rightarrow> Some k | None \<Rightarrow> m_routing_key m)
      in case pick H (dest_name addr) key b of
           (None, b) \<Rightarrow> b\<lparr>outcomes := outcomes b @ [(m, Err (NoListeners (dest_name addr)))]\<rparr>
         | (Some c, b) \<Rightarrow>
             let b = emit_event (On_send addr m) b
             in b\<lparr>bus_tasks := bus_tasks b @ [Sending None addr m (block_on_full opts) c]\<rparr>)"

text \<open>The end of a send: a client gets its result; a detached task reports to the observer.\<close>

definition sent :: "bool option \<Rightarrow> string \<Rightarrow> 'f BusMessage \<Rightarrow> (unit, MessagingError) result \<Rightarrow> 'f Bus \<Rightarrow> 'f Bus" where
  "sent who addr m r b = (case who of
     None \<Rightarrow> b\<lparr>outcomes := outcomes b @ [(m, r)]\<rparr>
   | Some is_dlq \<Rightarrow>
       (case r of
          Ok _ \<Rightarrow> if is_dlq then emit_event (On_dead_letter addr m True) b else b
        | Err _ \<Rightarrow> emit_event (On_dead_letter addr m False) b))"

definition enqueue :: "'f BusMessage \<Rightarrow> 'f chan \<Rightarrow> 'f chan" where
  "enqueue m ch = ch\<lparr>ch_queue := ch_queue ch @ [m], ch_accepted := ch_accepted ch @ [m]\<rparr>"

text \<open>\<^verbatim>\<open>tx.send(msg).await\<close> and \<^verbatim>\<open>tx.try_send(msg)\<close>: a full channel blocks the one and fails the other.\<close>

definition resume_send :: "nat \<Rightarrow> 'f Bus \<Rightarrow> 'f Bus option" where
  "resume_send i b =
     (if i \<ge> length (bus_tasks b) then None
      else case bus_tasks b ! i of
          Requeue addr m is_dlq \<Rightarrow> None
        | Sending who addr m block c \<Rightarrow>
            let b' = b\<lparr>bus_tasks := drop_nth i (bus_tasks b)\<rparr>; ch = chans b ! c
            in if \<not> ch_open ch then Some (sent who addr m (Err (ChanClosed (dest_name addr))) b')
               else if length (ch_queue ch) \<ge> buffer_size (ch_opts ch) then
                 (if block then None else Some (sent who addr m (Err (BufferFull (dest_name addr))) b'))
               else Some (sent who addr m (Ok ()) (upd_chan c (enqueue m) b')))"

text \<open>The body of \<^verbatim>\<open>spawn_guaranteed_send\<close> up to its first suspension: \<^verbatim>\<open>send\<close> with default options but blocking.\<close>

definition start_requeue :: "(string \<Rightarrow> nat) \<Rightarrow> nat \<Rightarrow> 'f Bus \<Rightarrow> 'f Bus option" where
  "start_requeue H i b =
     (if i \<ge> length (bus_tasks b) then None
      else case bus_tasks b ! i of
          Sending who addr m block c \<Rightarrow> None
        | Requeue addr m is_dlq \<Rightarrow>
            let b = b\<lparr>bus_tasks := drop_nth i (bus_tasks b)\<rparr>
            in case pick H (dest_name addr) (m_routing_key m) b of
                 (None, b) \<Rightarrow> Some (sent (Some is_dlq) addr m (Err (NoListeners (dest_name addr))) b)
               | (Some c, b) \<Rightarrow>
                   let b = emit_event (On_send addr m) b
                   in Some (b\<lparr>bus_tasks := bus_tasks b @ [Sending (Some is_dlq) addr m True c]\<rparr>))"

section \<open>Listening\<close>

text \<open>A channel of capacity zero panics.\<close>

definition add_listener :: "string \<Rightarrow> ListenerOptions \<Rightarrow> 'f Bus \<Rightarrow> 'f Bus option" where
  "add_listener addr opts b =
     (if buffer_size opts = 0 then None
      else let nm = dest_name addr; c = length (chans b);
               st = (case destinations b nm of Some st \<Rightarrow> st | None \<Rightarrow> \<lparr>listeners = [], round_robin = 0\<rparr>);
               ch = \<lparr>ch_name = nm, ch_opts = opts, ch_open = True, ch_queue = [], ch_held = None, ch_spawned = [], ch_jobs = [],
                     ch_accepted = [], ch_handled = []\<rparr>
           in Some (b\<lparr>chans := chans b @ [ch],
                      destinations := (destinations b)(nm \<mapsto> st\<lparr>listeners := listeners st @ [c]\<rparr>)\<rparr>))"

text \<open>The consumer loop. \<^verbatim>\<open>rx.recv()\<close> runs when the loop is back at its head: nothing held and, without concurrency, no
  job in progress.\<close>

definition at_head :: "'f chan \<Rightarrow> bool" where
  "at_head ch \<longleftrightarrow> ch_open ch \<and> ch_held ch = None \<and> (concurrency (ch_opts ch) = None \<longrightarrow> ch_jobs ch = [])"

definition receive :: "nat \<Rightarrow> 'f Bus \<Rightarrow> 'f Bus option" where
  "receive c b =
     (if c \<ge> length (chans b) \<or> \<not> at_head (chans b ! c) then None
      else case ch_queue (chans b ! c) of
          [] \<Rightarrow> None
        | m # q \<Rightarrow> Some (upd_chan c (\<lambda>ch. ch\<lparr>ch_queue := q, ch_held := Some m\<rparr>) b))"

text \<open>The permit, which a spawned job keeps until it ends. A serial listener then runs \<^verbatim>\<open>process\<close> itself, up to the call of the
  handler; a concurrent one spawns it as a task.\<close>

definition permits :: "ListenerOptions \<Rightarrow> nat" where
  "permits opts = (case concurrency opts of Some n \<Rightarrow> max n 1 | None \<Rightarrow> 1)"

definition start_job :: "nat \<Rightarrow> 'f Bus \<Rightarrow> 'f Bus option" where
  "start_job c b =
     (if c \<ge> length (chans b) \<or>
         length (ch_spawned (chans b ! c)) + length (ch_jobs (chans b ! c)) \<ge> permits (ch_opts (chans b ! c)) then None
      else case ch_held (chans b ! c) of
          None \<Rightarrow> None
        | Some m \<Rightarrow>
            if concurrency (ch_opts (chans b ! c)) = None then
              Some (emit_event (On_receive (chan_addr (ch_name (chans b ! c))) m)
                (upd_chan c (\<lambda>ch. ch\<lparr>ch_held := None, ch_jobs := ch_jobs ch @ [m], ch_handled := ch_handled ch @ [m]\<rparr>) b))
            else Some (upd_chan c (\<lambda>ch. ch\<lparr>ch_held := None, ch_spawned := ch_spawned ch @ [m]\<rparr>) b))"

text \<open>The first poll of the spawned job \<open>i\<close>: \<^verbatim>\<open>process\<close> up to the call of the handler. The runtime polls spawned tasks in any
  order.\<close>

definition poll_job :: "nat \<Rightarrow> nat \<Rightarrow> 'f Bus \<Rightarrow> 'f Bus option" where
  "poll_job c i b =
     (if c \<ge> length (chans b) \<or> i \<ge> length (ch_spawned (chans b ! c)) then None
      else let m = ch_spawned (chans b ! c) ! i
           in Some (emit_event (On_receive (chan_addr (ch_name (chans b ! c))) m)
                (upd_chan c (\<lambda>ch. ch\<lparr>ch_spawned := drop_nth i (ch_spawned ch), ch_jobs := ch_jobs ch @ [m],
                   ch_handled := ch_handled ch @ [m]\<rparr>) b)))"

text \<open>The rest of \<^verbatim>\<open>process\<close>, once the handler of job \<open>i\<close> returned its verdict. The counter wraps, as in a release build.\<close>

definition settle :: "string \<Rightarrow> ListenerOptions \<Rightarrow> 'f BusMessage \<Rightarrow> Ack \<Rightarrow> 'f Bus \<Rightarrow> 'f Bus" where
  "settle addr opts m ack b = (case ack of
     AckOk \<Rightarrow> emit_event (On_ack addr m) b
   | AckReject \<Rightarrow> emit_event (On_nack addr m False) (b\<lparr>rejected := rejected b @ [m]\<rparr>)
   | AckRetry \<Rightarrow>
       let m = m\<lparr>m_delivery_count := m_delivery_count m + 1\<rparr>;
           will_requeue = m_delivery_count m < max_delivery_attempts opts;
           b = emit_event (On_nack addr m will_requeue) b
       in if will_requeue then b\<lparr>bus_tasks := bus_tasks b @ [Requeue addr m False]\<rparr>
          else case dead_letter opts of
              Some dlq \<Rightarrow> b\<lparr>bus_tasks := bus_tasks b @ [Requeue dlq m True]\<rparr>
            | None \<Rightarrow> emit_event (On_dead_letter addr m False) b)"

definition finish_job :: "nat \<Rightarrow> nat \<Rightarrow> Ack \<Rightarrow> 'f Bus \<Rightarrow> 'f Bus option" where
  "finish_job c i ack b =
     (if c \<ge> length (chans b) \<or> i \<ge> length (ch_jobs (chans b ! c)) then None
      else let ch = chans b ! c
           in Some (settle (chan_addr (ch_name ch)) (ch_opts ch) (ch_jobs ch ! i) ack
                (upd_chan c (\<lambda>ch. ch\<lparr>ch_jobs := drop_nth i (ch_jobs ch)\<rparr>) b)))"

text \<open>A handler that panics ends its task: a spawned job only, or the consumer loop itself, whose receiver goes with it.\<close>

definition crash_job :: "nat \<Rightarrow> nat \<Rightarrow> 'f Bus \<Rightarrow> 'f Bus option" where
  "crash_job c i b =
     (if c \<ge> length (chans b) \<or> i \<ge> length (ch_jobs (chans b ! c)) then None
      else let ch = chans b ! c; b = b\<lparr>crashed := crashed b @ [ch_jobs ch ! i]\<rparr>;
               b = upd_chan c (\<lambda>ch. ch\<lparr>ch_jobs := drop_nth i (ch_jobs ch)\<rparr>) b
           in if concurrency (ch_opts ch) \<noteq> None then Some b
              else Some (upd_chan c (\<lambda>ch. ch\<lparr>ch_open := False, ch_queue := []\<rparr>) (b\<lparr>crashed := crashed b @ ch_queue ch\<rparr>)))"

text \<open>\<^verbatim>\<open>rx.recv()\<close> returns \<^verbatim>\<open>None\<close> when the queue is empty and no sender is left.\<close>

definition has_sender :: "nat \<Rightarrow> 'f Bus \<Rightarrow> bool" where
  "has_sender c b \<longleftrightarrow> list_ex (\<lambda>t. case t of Sending _ _ _ _ c' \<Rightarrow> c' = c | _ \<Rightarrow> False) (bus_tasks b) \<or>
     (case destinations b (ch_name (chans b ! c)) of Some st \<Rightarrow> c \<in> set (listeners st) | None \<Rightarrow> False)"

definition end_loop :: "nat \<Rightarrow> 'f Bus \<Rightarrow> 'f Bus option" where
  "end_loop c b =
     (if c \<ge> length (chans b) \<or> \<not> at_head (chans b ! c) \<or> ch_queue (chans b ! c) \<noteq> [] \<or> has_sender c b then None
      else Some (upd_chan c (\<lambda>ch. ch\<lparr>ch_open := False\<rparr>) b))"

text \<open>\<^verbatim>\<open>Component::stop\<close> of the provider.\<close>

definition stop_bus :: "'f Bus \<Rightarrow> 'f Bus" where
  "stop_bus b = b\<lparr>destinations := Map.empty\<rparr>"

section \<open>Interleavings\<close>

datatype 'f action = Send string "'f BusMessage" SendOptions | Resume_send nat | Start_requeue nat
  | Add_listener string ListenerOptions | Receive nat | Start_job nat | Poll_job nat nat | Finish_job nat nat Ack | Crash_job nat nat
  | End_loop nat | Stop_bus

fun bus_do :: "(string \<Rightarrow> nat) \<Rightarrow> 'f action \<Rightarrow> 'f Bus \<Rightarrow> 'f Bus option" where
  "bus_do H (Send addr m opts) b = Some (send H addr m opts b)"
| "bus_do H (Resume_send i) b = resume_send i b"
| "bus_do H (Start_requeue i) b = start_requeue H i b"
| "bus_do H (Add_listener addr opts) b = add_listener addr opts b"
| "bus_do H (Receive c) b = receive c b"
| "bus_do H (Start_job c) b = start_job c b"
| "bus_do H (Poll_job c i) b = poll_job c i b"
| "bus_do H (Finish_job c i ack) b = finish_job c i ack b"
| "bus_do H (Crash_job c i) b = crash_job c i b"
| "bus_do H (End_loop c) b = end_loop c b"
| "bus_do H Stop_bus b = Some (stop_bus b)"

inductive bus_run :: "(string \<Rightarrow> nat) \<Rightarrow> 'f action list \<Rightarrow> 'f Bus \<Rightarrow> bool" for H where
  bus_init: "bus_run H [] bus_new"
| bus_step: "bus_run H as b \<Longrightarrow> bus_do H a b = Some b' \<Longrightarrow> bus_run H (as @ [a]) b'"

end
