(* ===== verification/Messaging_Correct.thy ===== *)
theory Messaging_Correct
  imports Messaging
begin

text \<open>
  Correctness of the message bus over every interleaving of its tasks: no message is lost or duplicated, buffers and
  concurrency stay within their bounds, a serial listener sees messages in the order they were accepted, redelivery is
  bounded, and picking a listener is fair and abides routing keys.
\<close>

section \<open>Lists and channels\<close>

lemma mset_drop_nth: "i < length xs \<Longrightarrow> mset xs = add_mset (xs ! i) (mset (drop_nth i xs))"
  by (subst id_take_nth_drop [of i xs]) (auto simp: drop_nth_def)

lemma set_drop_nth: "set (drop_nth i xs) \<subseteq> set xs"
  by (auto simp: drop_nth_def dest: in_set_takeD in_set_dropD)

lemma length_drop_nth: "i < length xs \<Longrightarrow> length (drop_nth i xs) = length xs - 1"
  by (simp add: drop_nth_def)

lemma dest_name_chan [simp]: "dest_name (chan_addr nm) = nm"
  by (simp add: dest_name_def chan_addr_def)

definition listed :: "'f Bus \<Rightarrow> string \<Rightarrow> nat set" where
  "listed b nm = (case destinations b nm of Some st \<Rightarrow> set (listeners st) | None \<Rightarrow> {})"

lemma pick_frame:
  assumes "pick H nm key b = (r, b')"
  shows "chans b' = chans b" "bus_tasks b' = bus_tasks b" "events b' = events b" "outcomes b' = outcomes b"
    "submitted b' = submitted b" "rejected b' = rejected b" "crashed b' = crashed b" "listed b' nm' \<subseteq> listed b nm'"
  using assms by (auto simp: pick_def Let_def listed_def split: option.splits if_splits)

lemma pick_Some:
  assumes "pick H nm key b = (Some c, b')"
  shows "c \<in> listed b nm" "ch_open (chans b ! c)"
proof -
  obtain st where st: "destinations b nm = Some st" using assms by (auto simp: pick_def split: option.splits)
  define live where "live = filter (\<lambda>c. ch_open (chans b ! c)) (listeners st)"
  obtain i where "live \<noteq> []" "c = live ! (i mod length live)"
    using assms st by (auto simp: pick_def Let_def live_def split: option.splits if_splits)
  then have "c \<in> set live" by simp
  then show "c \<in> listed b nm" "ch_open (chans b ! c)" by (auto simp: live_def listed_def st)
qed

section \<open>Well-formed states\<close>

text \<open>A channel keeps its bounds. With a serial listener, what was accepted is what was handled, then what is held, then the
  queue; only a crash of the consumer loop loses the tail of it. With a concurrent one each message accepted is in one of
  these places or spawned, in no particular order.\<close>

definition held_list :: "'f chan \<Rightarrow> 'f BusMessage list" where
  "held_list ch = (case ch_held ch of None \<Rightarrow> [] | Some m \<Rightarrow> [m])"

definition serial_ok :: "'f chan \<Rightarrow> bool" where
  "serial_ok ch \<longleftrightarrow> ch_spawned ch = [] \<and> (ch_jobs ch \<noteq> [] \<longrightarrow> ch_held ch = None) \<and> prefix (ch_handled ch) (ch_accepted ch) \<and>
     (ch_open ch \<longrightarrow> ch_accepted ch = ch_handled ch @ held_list ch @ ch_queue ch)"

definition concurrent_ok :: "'f chan \<Rightarrow> bool" where
  "concurrent_ok ch \<longleftrightarrow>
     mset (ch_accepted ch) = mset (ch_handled ch) + mset (ch_spawned ch) + mset (held_list ch) + mset (ch_queue ch)"

definition chan_ok :: "'f chan \<Rightarrow> bool" where
  "chan_ok ch \<longleftrightarrow> length (ch_queue ch) \<le> buffer_size (ch_opts ch) \<and>
     length (ch_spawned ch) + length (ch_jobs ch) \<le> permits (ch_opts ch) \<and>
     (if concurrency (ch_opts ch) = None then serial_ok ch else concurrent_ok ch) \<and>
     (\<not> ch_open ch \<longrightarrow> ch_held ch = None \<and> ch_queue ch = [])"

lemmas chan_ok_defs = chan_ok_def serial_ok_def concurrent_ok_def held_list_def

fun task_ok :: "'f Bus \<Rightarrow> 'f bus_task \<Rightarrow> bool" where
  "task_ok b (Sending who addr m block c) \<longleftrightarrow> c < length (chans b) \<and> ch_name (chans b ! c) = dest_name addr"
| "task_ok b (Requeue addr m is_dlq) \<longleftrightarrow> True"

definition bus_ok :: "'f Bus \<Rightarrow> bool" where
  "bus_ok b \<longleftrightarrow> (\<forall>ch \<in> set (chans b). chan_ok ch) \<and>
     (\<forall>nm. \<forall>c \<in> listed b nm. c < length (chans b) \<and> ch_name (chans b ! c) = nm) \<and> (\<forall>t \<in> set (bus_tasks b). task_ok b t)"

lemma bus_ok_cong:
  assumes "bus_ok b" and "chans b' = chans b" and "set (bus_tasks b') \<subseteq> set (bus_tasks b)" and "\<And>nm. listed b' nm \<subseteq> listed b nm"
  shows "bus_ok b'"
proof -
  have "task_ok b' t = task_ok b t" for t using assms(2) by (cases t) auto
  then show ?thesis using assms unfolding bus_ok_def by (metis in_mono)
qed

lemma listed_fields [simp]:
  "listed (b\<lparr>chans := x1\<rparr>) = listed b" "listed (b\<lparr>bus_tasks := x2\<rparr>) = listed b" "listed (b\<lparr>events := x3\<rparr>) = listed b"
  "listed (b\<lparr>outcomes := x4\<rparr>) = listed b" "listed (b\<lparr>submitted := x5\<rparr>) = listed b" "listed (b\<lparr>rejected := x6\<rparr>) = listed b"
  "listed (b\<lparr>crashed := x7\<rparr>) = listed b"
  by (auto simp: listed_def fun_eq_iff)

lemma task_ok_fields [simp]:
  "task_ok (b\<lparr>bus_tasks := x2\<rparr>) = task_ok b" "task_ok (b\<lparr>events := x3\<rparr>) = task_ok b"
  "task_ok (b\<lparr>outcomes := x4\<rparr>) = task_ok b" "task_ok (b\<lparr>submitted := x5\<rparr>) = task_ok b" "task_ok (b\<lparr>rejected := x6\<rparr>) = task_ok b"
  "task_ok (b\<lparr>crashed := x7\<rparr>) = task_ok b" "task_ok (b\<lparr>destinations := x8\<rparr>) = task_ok b"
  by (rule ext, case_tac x, simp_all)+

lemma bus_ok_fields [simp]:
  "bus_ok (b\<lparr>events := x3\<rparr>) = bus_ok b" "bus_ok (b\<lparr>outcomes := x4\<rparr>) = bus_ok b" "bus_ok (b\<lparr>submitted := x5\<rparr>) = bus_ok b"
  "bus_ok (b\<lparr>rejected := x6\<rparr>) = bus_ok b" "bus_ok (b\<lparr>crashed := x7\<rparr>) = bus_ok b"
  by (simp_all add: bus_ok_def)

lemma bus_ok_emit [simp]: "bus_ok (emit_event e b) = bus_ok b"
  by (simp add: emit_event_def)

lemma bus_ok_sent [simp]: "bus_ok (sent who addr m r b) = bus_ok b"
  by (simp add: sent_def split: option.split sum.split)

lemma bus_ok_add_task: "bus_ok b \<Longrightarrow> task_ok b t \<Longrightarrow> bus_ok (b\<lparr>bus_tasks := bus_tasks b @ [t]\<rparr>)"
  by (auto simp: bus_ok_def)

lemma bus_ok_drop_task: "bus_ok b \<Longrightarrow> bus_ok (b\<lparr>bus_tasks := drop_nth i (bus_tasks b)\<rparr>)"
  by (rule bus_ok_cong [of b]) (simp_all add: set_drop_nth)

lemma bus_ok_upd:
  assumes "bus_ok b" and "c < length (chans b)" and "chan_ok (f (chans b ! c))" and "ch_name (f (chans b ! c)) = ch_name (chans b ! c)"
  shows "bus_ok (upd_chan c f b)"
proof -
  have nm: "ch_name ((chans b)[c := f (chans b ! c)] ! c') = ch_name (chans b ! c')" if "c' < length (chans b)" for c'
    using assms(2,4) that by (cases "c' = c") auto
  have t: "task_ok (upd_chan c f b) t" if "task_ok b t" for t
    using that nm by (cases t) (auto simp: upd_chan_def)
  have l: "c' < length (chans (upd_chan c f b)) \<and> ch_name (chans (upd_chan c f b) ! c') = nm'" if "c' \<in> listed b nm'" for nm' c'
    using assms(1) that nm by (auto simp: bus_ok_def upd_chan_def)
  have "chan_ok ch" if "ch \<in> set (chans (upd_chan c f b))" for ch
    using that assms(1,3) set_update_subset_insert [of "chans b" c "f (chans b ! c)"] by (auto simp: bus_ok_def upd_chan_def)
  moreover have "listed (upd_chan c f b) = listed b" "bus_tasks (upd_chan c f b) = bus_tasks b" by (simp_all add: upd_chan_def)
  ultimately show ?thesis using assms(1) t l unfolding bus_ok_def by simp
qed

lemma bus_ok_pick:
  assumes "bus_ok b" and "pick H nm key b = (r, b')"
  shows "bus_ok b'"
  by (rule bus_ok_cong [OF assms(1)]) (use pick_frame [OF assms(2)] in auto)

lemma task_ok_pick:
  assumes "bus_ok b" and "pick H (dest_name addr) key b = (Some c, b')"
  shows "task_ok b' (Sending who addr m block c)"
  using assms pick_Some [OF assms(2)] pick_frame [OF assms(2)] by (auto simp: bus_ok_def)

lemma bus_ok_picked:
  assumes "bus_ok b" and "pick H (dest_name addr) key b = (Some c, b')"
  shows "bus_ok (emit_event e b'\<lparr>bus_tasks := bus_tasks b' @ [Sending who addr m block c]\<rparr>)"
proof -
  have "bus_ok (emit_event e b')" "task_ok (emit_event e b') (Sending who addr m block c)"
    using bus_ok_pick [OF assms] task_ok_pick [OF assms] by (simp_all add: emit_event_def)
  then have "bus_ok ((emit_event e b')\<lparr>bus_tasks := bus_tasks (emit_event e b') @ [Sending who addr m block c]\<rparr>)"
    by (rule bus_ok_add_task)
  then show ?thesis by (simp add: emit_event_def)
qed

lemma chan_okD: "bus_ok b \<Longrightarrow> c < length (chans b) \<Longrightarrow> chan_ok (chans b ! c)"
  by (simp add: bus_ok_def)

text \<open>Every action keeps the state well-formed.\<close>

lemma bus_ok_send: "bus_ok b \<Longrightarrow> bus_ok (send H addr m opts b)"
  using bus_ok_pick [of "b\<lparr>submitted := submitted b @ [m]\<rparr>"] bus_ok_picked [of "b\<lparr>submitted := submitted b @ [m]\<rparr>"]
  by (auto simp: send_def Let_def emit_event_def split: prod.splits option.splits)

lemma bus_ok_resume_send:
  assumes "bus_ok b" and "resume_send i b = Some b'"
  shows "bus_ok b'"
proof -
  obtain who addr m block c where t: "i < length (bus_tasks b)" "bus_tasks b ! i = Sending who addr m block c"
    using assms(2) by (auto simp: resume_send_def split: if_splits bus_task.splits)
  let ?b = "b\<lparr>bus_tasks := drop_nth i (bus_tasks b)\<rparr>"
  have ok: "bus_ok ?b" by (rule bus_ok_drop_task [OF assms(1)])
  have c: "c < length (chans b)" using assms(1) t by (metis bus_ok_def nth_mem task_ok.simps(1))
  have "bus_ok (upd_chan c (enqueue m) ?b)" if "ch_open (chans b ! c)" "length (ch_queue (chans b ! c)) < buffer_size (ch_opts (chans b ! c))"
    using chan_okD [OF assms(1) c] that c by (intro bus_ok_upd [OF ok]) (auto simp: chan_ok_defs enqueue_def split: if_splits)
  then show ?thesis using assms(2) t ok
    by (auto simp: resume_send_def Let_def not_le split: if_splits)
qed

lemma bus_ok_start_requeue:
  assumes "bus_ok b" and "start_requeue H i b = Some b'"
  shows "bus_ok b'"
  using assms bus_ok_pick [OF bus_ok_drop_task [OF assms(1), of i]] bus_ok_picked [OF bus_ok_drop_task [OF assms(1), of i]]
  by (auto simp: start_requeue_def Let_def emit_event_def split: if_splits bus_task.splits prod.splits option.splits)

lemma bus_ok_add_listener:
  assumes "bus_ok b" and "add_listener addr opts b = Some b'"
  shows "bus_ok b'"
proof -
  have b': "chans b' = chans b @ [\<lparr>ch_name = dest_name addr, ch_opts = opts, ch_open = True, ch_queue = [], ch_held = None, ch_spawned = [], ch_jobs = [],
      ch_accepted = [], ch_handled = []\<rparr>]" "bus_tasks b' = bus_tasks b"
    "listed b' nm = listed b nm \<union> (if nm = dest_name addr then {length (chans b)} else {})" for nm
    using assms(2) by (auto simp: add_listener_def Let_def listed_def split: if_splits option.splits)
  have "task_ok b' t" if "task_ok b t" for t using that b' by (cases t) (auto simp: nth_append)
  moreover have "chan_ok ch" if "ch \<in> set (chans b')" for ch
  proof (cases "ch \<in> set (chans b)")
    case False
    then show ?thesis using that b' by (simp add: chan_ok_defs)
  qed (use assms(1) in \<open>simp add: bus_ok_def\<close>)
  moreover have "c < length (chans b') \<and> ch_name (chans b' ! c) = nm" if "c \<in> listed b' nm" for c nm
    using that assms(1) b' by (auto simp: bus_ok_def nth_append split: if_splits)
  ultimately show ?thesis using assms(1) b'(2) unfolding bus_ok_def by simp
qed

lemma bus_ok_receive:
  assumes "bus_ok b" and "receive c b = Some b'"
  shows "bus_ok b'"
proof -
  have c: "c < length (chans b)" "at_head (chans b ! c)" using assms(2) by (auto simp: receive_def split: if_splits)
  obtain m q where q: "ch_queue (chans b ! c) = m # q" using assms(2) by (auto simp: receive_def split: if_splits list.splits)
  have "bus_ok (upd_chan c (\<lambda>ch. ch\<lparr>ch_queue := q, ch_held := Some m\<rparr>) b)"
    using chan_okD [OF assms(1) c(1)] q c by (intro bus_ok_upd [OF assms(1)]) (auto simp: chan_ok_defs at_head_def split: if_splits)
  then show ?thesis using assms(2) c q by (simp add: receive_def)
qed

lemma bus_ok_start_job:
  assumes "bus_ok b" and "start_job c b = Some b'"
  shows "bus_ok b'"
proof -
  have c: "c < length (chans b)"
    "length (ch_spawned (chans b ! c)) + length (ch_jobs (chans b ! c)) < permits (ch_opts (chans b ! c))"
    using assms(2) by (auto simp: start_job_def split: if_splits)
  obtain m where m: "ch_held (chans b ! c) = Some m" using assms(2) by (auto simp: start_job_def split: if_splits option.splits)
  have serial: "bus_ok (upd_chan c (\<lambda>ch. ch\<lparr>ch_held := None, ch_jobs := ch_jobs ch @ [m], ch_handled := ch_handled ch @ [m]\<rparr>) b)"
    if "concurrency (ch_opts (chans b ! c)) = None"
    using chan_okD [OF assms(1) c(1)] m c that by (intro bus_ok_upd [OF assms(1)]) (auto simp: chan_ok_defs)
  have spawned: "bus_ok (upd_chan c (\<lambda>ch. ch\<lparr>ch_held := None, ch_spawned := ch_spawned ch @ [m]\<rparr>) b)"
    if "concurrency (ch_opts (chans b ! c)) \<noteq> None"
    using chan_okD [OF assms(1) c(1)] m c that by (intro bus_ok_upd [OF assms(1)]) (auto simp: chan_ok_defs)
  show ?thesis using assms(2) c m serial spawned by (auto simp: start_job_def split: if_splits)
qed

lemma bus_ok_poll_job:
  assumes "bus_ok b" and "poll_job c i b = Some b'"
  shows "bus_ok b'"
proof -
  have c: "c < length (chans b)" "i < length (ch_spawned (chans b ! c))" using assms(2) by (auto simp: poll_job_def split: if_splits)
  let ?f = "\<lambda>ch. ch\<lparr>ch_spawned := drop_nth i (ch_spawned ch), ch_jobs := ch_jobs ch @ [ch_spawned (chans b ! c) ! i],
    ch_handled := ch_handled ch @ [ch_spawned (chans b ! c) ! i]\<rparr>"
  have "bus_ok (upd_chan c ?f b)"
    using chan_okD [OF assms(1) c(1)] c mset_drop_nth [OF c(2)] length_drop_nth [OF c(2)]
    by (intro bus_ok_upd [OF assms(1)]) (auto simp: chan_ok_defs split: if_splits)
  then show ?thesis using assms(2) c by (auto simp: poll_job_def Let_def)
qed

lemma bus_ok_settle: "bus_ok b \<Longrightarrow> bus_ok (settle addr opts m ack b)"
  by (auto simp: settle_def Let_def bus_ok_add_task split: Ack.split option.split)

lemma bus_ok_jobs_dropped:
  assumes "bus_ok b" and "c < length (chans b)" and "i < length (ch_jobs (chans b ! c))"
  shows "bus_ok (upd_chan c (\<lambda>ch. ch\<lparr>ch_jobs := drop_nth i (ch_jobs ch)\<rparr>) b)"
  using chan_okD [OF assms(1,2)] assms(2,3)
  by (intro bus_ok_upd [OF assms(1)]) (auto simp: chan_ok_defs length_drop_nth split: if_splits)

lemma bus_ok_finish_job: "bus_ok b \<Longrightarrow> finish_job c i ack b = Some b' \<Longrightarrow> bus_ok b'"
  by (auto simp: finish_job_def Let_def bus_ok_settle bus_ok_jobs_dropped split: if_splits)

lemma bus_ok_crash_job:
  assumes "bus_ok b" and "crash_job c i b = Some b'"
  shows "bus_ok b'"
proof -
  have c: "c < length (chans b)" "i < length (ch_jobs (chans b ! c))" using assms(2) by (auto simp: crash_job_def split: if_splits)
  let ?b = "upd_chan c (\<lambda>ch. ch\<lparr>ch_jobs := drop_nth i (ch_jobs ch)\<rparr>) (b\<lparr>crashed := crashed b @ [ch_jobs (chans b ! c) ! i]\<rparr>)"
  have ok: "bus_ok ?b" using bus_ok_jobs_dropped [of "b\<lparr>crashed := crashed b @ [ch_jobs (chans b ! c) ! i]\<rparr>" c i] assms(1) c by simp
  have "bus_ok (upd_chan c (\<lambda>ch. ch\<lparr>ch_open := False, ch_queue := []\<rparr>) (?b\<lparr>crashed := crashed ?b @ ch_queue (chans b ! c)\<rparr>))"
    if "concurrency (ch_opts (chans b ! c)) = None"
  proof (rule bus_ok_upd)
    have ch: "chans ?b ! c = (chans b ! c)\<lparr>ch_jobs := drop_nth i (ch_jobs (chans b ! c))\<rparr>" using c by (simp add: upd_chan_def)
    show "bus_ok (?b\<lparr>crashed := crashed ?b @ ch_queue (chans b ! c)\<rparr>)" using ok by (simp only: bus_ok_fields)
    show "c < length (chans (?b\<lparr>crashed := crashed ?b @ ch_queue (chans b ! c)\<rparr>))" using c by (simp add: upd_chan_def)
    show "chan_ok ((chans (?b\<lparr>crashed := crashed ?b @ ch_queue (chans b ! c)\<rparr>) ! c)\<lparr>ch_open := False, ch_queue := []\<rparr>)"
      using chan_okD [OF assms(1) c(1)] that c ch by (auto simp: chan_ok_defs length_drop_nth)
  qed (simp add: upd_chan_def)
  then show ?thesis using assms(2) c ok by (auto simp: crash_job_def Let_def split: if_splits)
qed

lemma bus_ok_end_loop:
  assumes "bus_ok b" and "end_loop c b = Some b'"
  shows "bus_ok b'"
proof -
  have c: "c < length (chans b)" "at_head (chans b ! c)" "ch_queue (chans b ! c) = []"
    using assms(2) by (auto simp: end_loop_def split: if_splits)
  have "bus_ok (upd_chan c (\<lambda>ch. ch\<lparr>ch_open := False\<rparr>) b)"
    using chan_okD [OF assms(1) c(1)] c by (intro bus_ok_upd [OF assms(1)]) (auto simp: chan_ok_defs at_head_def split: if_splits)
  then show ?thesis using assms(2) by (auto simp: end_loop_def split: if_splits)
qed

lemma bus_ok_stop: "bus_ok b \<Longrightarrow> bus_ok (stop_bus b)"
  by (rule bus_ok_cong [of b]) (auto simp: stop_bus_def listed_def)

lemmas bus_ok_actions = bus_ok_send bus_ok_resume_send bus_ok_start_requeue bus_ok_add_listener bus_ok_receive bus_ok_start_job bus_ok_poll_job
  bus_ok_finish_job bus_ok_crash_job bus_ok_end_loop bus_ok_stop

lemma bus_ok_do: "bus_ok b \<Longrightarrow> bus_do H a b = Some b' \<Longrightarrow> bus_ok b'"
  by (cases a) (auto dest: bus_ok_actions intro: bus_ok_actions)

lemma bus_ok_new: "bus_ok bus_new"
  by (simp add: bus_ok_def bus_new_def listed_def)

lemma bus_run_ok: "bus_run H as b \<Longrightarrow> bus_ok b"
  by (induction rule: bus_run.induct) (auto simp: bus_ok_new intro: bus_ok_do)

section \<open>Every message is accounted for\<close>

text \<open>A message up to its delivery counter, and where messages are: in a channel, with a task, or at an end of their way.\<close>

definition payload :: "'f BusMessage \<Rightarrow> 'f BusMessage" where
  "payload m = m\<lparr>m_delivery_count := 0\<rparr>"

definition payloads :: "'f BusMessage list \<Rightarrow> 'f BusMessage multiset" where
  "payloads ms = image_mset payload (mset ms)"

definition chan_msgs :: "'f chan \<Rightarrow> 'f BusMessage list" where
  "chan_msgs ch = ch_queue ch @ held_list ch @ ch_spawned ch @ ch_jobs ch"

fun task_msg :: "'f bus_task \<Rightarrow> 'f BusMessage" where
  "task_msg (Sending who addr m block c) = m"
| "task_msg (Requeue addr m is_dlq) = m"

definition in_flight :: "'f Bus \<Rightarrow> 'f BusMessage list" where
  "in_flight b = concat (map chan_msgs (chans b)) @ map task_msg (bus_tasks b)"

fun failed_send :: "'f BusMessage \<times> (unit, MessagingError) result \<Rightarrow> 'f BusMessage list" where
  "failed_send (m, Ok u) = []"
| "failed_send (m, Err e) = [m]"

fun acked :: "'f event \<Rightarrow> 'f BusMessage list" where
  "acked (On_ack addr m) = [m]"
| "acked _ = []"

fun dropped :: "'f event \<Rightarrow> 'f BusMessage list" where
  "dropped (On_dead_letter addr m False) = [m]"
| "dropped _ = []"

definition balanced :: "'f Bus \<Rightarrow> bool" where
  "balanced b \<longleftrightarrow> payloads (submitted b) =
     payloads (in_flight b) + payloads (concat (map failed_send (outcomes b))) + payloads (concat (map acked (events b))) +
     payloads (concat (map dropped (events b))) + payloads (rejected b) + payloads (crashed b)"

lemma payload_simps [simp]:
  "payload (m\<lparr>m_delivery_count := n\<rparr>) = payload m" "payloads [] = {#}" "payloads (m # ms) = add_mset (payload m) (payloads ms)"
  "payloads (xs @ ys) = payloads xs + payloads ys"
  by (simp_all add: payload_def payloads_def)

lemma payloads_drop_nth: "i < length xs \<Longrightarrow> payloads (map f xs) = add_mset (payload (f (xs ! i))) (payloads (map f (drop_nth i xs)))"
  by (simp add: payloads_def mset_drop_nth [of i xs])

lemma payloads_chan:
  assumes "c < length cs"
  obtains R where "payloads (concat (map chan_msgs cs)) = R + payloads (chan_msgs (cs ! c))"
    and "\<And>ch. payloads (concat (map chan_msgs (cs[c := ch]))) = R + payloads (chan_msgs ch)"
proof (rule that)
  let ?R = "payloads (concat (map chan_msgs (take c cs))) + payloads (concat (map chan_msgs (drop (Suc c) cs)))"
  show u: "payloads (concat (map chan_msgs (cs[c := ch]))) = ?R + payloads (chan_msgs ch)" for ch
    using assms by (simp add: upd_conv_take_nth_drop)
  show "payloads (concat (map chan_msgs cs)) = ?R + payloads (chan_msgs (cs ! c))"
    using u [of "cs ! c"] by simp
qed

lemma balanced_pick: "pick H nm key b = (r, b') \<Longrightarrow> balanced b' = balanced b"
  using pick_frame [of H nm key b r b'] by (simp add: balanced_def in_flight_def)

lemma balanced_send: "balanced b \<Longrightarrow> balanced (send H addr m opts b)"
proof -
  assume b: "balanced b"
  let ?b = "b\<lparr>submitted := submitted b @ [m]\<rparr>"
  obtain r b' where p: "pick H (dest_name addr) (case so_routing_key opts of Some k \<Rightarrow> Some k | None \<Rightarrow> m_routing_key m) ?b = (r, b')"
    by fastforce
  show ?thesis using b pick_frame [OF p]
    by (cases r) (simp_all add: send_def Let_def p balanced_def in_flight_def emit_event_def)
qed

lemma balanced_resume_send:
  assumes "balanced b" and "bus_ok b" and "resume_send i b = Some b'"
  shows "balanced b'"
proof -
  obtain who addr m block c where t: "i < length (bus_tasks b)" "bus_tasks b ! i = Sending who addr m block c"
    using assms(3) by (auto simp: resume_send_def split: if_splits bus_task.splits)
  have c: "c < length (chans b)" using assms(2) t by (metis bus_ok_def nth_mem task_ok.simps(1))
  obtain R where R: "payloads (concat (map chan_msgs (chans b))) = R + payloads (chan_msgs (chans b ! c))"
    "\<And>ch. payloads (concat (map chan_msgs ((chans b)[c := ch]))) = R + payloads (chan_msgs ch)" by (rule payloads_chan [OF c]) blast
  have e: "payloads (chan_msgs (enqueue m ch)) = add_mset (payload m) (payloads (chan_msgs ch))" for ch
    by (simp add: chan_msgs_def enqueue_def held_list_def)
  show ?thesis using assms(1,3) t payloads_drop_nth [OF t(1), of task_msg]
    by (auto simp: resume_send_def Let_def balanced_def in_flight_def sent_def emit_event_def upd_chan_def R e
        split: if_splits option.splits)
qed

lemma balanced_start_requeue:
  assumes "balanced b" and "start_requeue H i b = Some b'"
  shows "balanced b'"
proof -
  obtain addr m is_dlq where t: "i < length (bus_tasks b)" "bus_tasks b ! i = Requeue addr m is_dlq"
    using assms(2) by (auto simp: start_requeue_def split: if_splits bus_task.splits)
  obtain r b1 where p: "pick H (dest_name addr) (m_routing_key m) (b\<lparr>bus_tasks := drop_nth i (bus_tasks b)\<rparr>) = (r, b1)" by fastforce
  show ?thesis using assms t payloads_drop_nth [OF t(1), of task_msg] pick_frame [OF p]
    by (cases r) (auto simp: start_requeue_def Let_def p balanced_def in_flight_def sent_def emit_event_def)
qed

lemma balanced_add_listener: "balanced b \<Longrightarrow> add_listener addr opts b = Some b' \<Longrightarrow> balanced b'"
  by (auto simp: add_listener_def Let_def balanced_def in_flight_def chan_msgs_def held_list_def split: if_splits)

text \<open>A change of one channel that keeps its messages keeps the balance.\<close>

lemma balanced_upd:
  assumes "balanced b" and "c < length (chans b)" and "payloads (chan_msgs (f (chans b ! c))) = payloads (chan_msgs (chans b ! c))"
  shows "balanced (upd_chan c f b)"
proof -
  obtain R where "payloads (concat (map chan_msgs (chans b))) = R + payloads (chan_msgs (chans b ! c))"
    "\<And>ch. payloads (concat (map chan_msgs ((chans b)[c := ch]))) = R + payloads (chan_msgs ch)" by (rule payloads_chan [OF assms(2)]) blast
  then show ?thesis using assms(1,3) by (simp add: balanced_def in_flight_def upd_chan_def)
qed

lemma balanced_receive: "balanced b \<Longrightarrow> receive c b = Some b' \<Longrightarrow> balanced b'"
  by (auto simp: receive_def at_head_def chan_msgs_def held_list_def intro!: balanced_upd split: if_splits list.splits)

lemma balanced_emit: "acked e = [] \<Longrightarrow> dropped e = [] \<Longrightarrow> balanced (emit_event e b) = balanced b"
  by (simp add: balanced_def in_flight_def emit_event_def)

lemma balanced_start_job:
  assumes "balanced b" and "start_job c b = Some b'"
  shows "balanced b'"
proof -
  have c: "c < length (chans b)" using assms(2) by (auto simp: start_job_def split: if_splits)
  obtain m where m: "ch_held (chans b ! c) = Some m" using assms(2) by (auto simp: start_job_def split: if_splits option.splits)
  have "balanced (upd_chan c (\<lambda>ch. ch\<lparr>ch_held := None, ch_jobs := ch_jobs ch @ [m], ch_handled := ch_handled ch @ [m]\<rparr>) b)"
    "balanced (upd_chan c (\<lambda>ch. ch\<lparr>ch_held := None, ch_spawned := ch_spawned ch @ [m]\<rparr>) b)"
    using assms(1) c m by (auto intro!: balanced_upd simp: chan_msgs_def held_list_def)
  then show ?thesis using assms(2) m by (auto simp: start_job_def balanced_emit split: if_splits)
qed

lemma balanced_poll_job:
  assumes "balanced b" and "poll_job c i b = Some b'"
  shows "balanced b'"
proof -
  have c: "c < length (chans b)" "i < length (ch_spawned (chans b ! c))" using assms(2) by (auto simp: poll_job_def split: if_splits)
  let ?f = "\<lambda>ch. ch\<lparr>ch_spawned := drop_nth i (ch_spawned ch), ch_jobs := ch_jobs ch @ [ch_spawned (chans b ! c) ! i],
    ch_handled := ch_handled ch @ [ch_spawned (chans b ! c) ! i]\<rparr>"
  have "balanced (upd_chan c ?f b)"
    using assms(1) c payloads_drop_nth [OF c(2), of id] by (intro balanced_upd) (auto simp: chan_msgs_def held_list_def)
  then show ?thesis using assms(2) c by (auto simp: poll_job_def Let_def balanced_emit)
qed

lemma balanced_finish_job:
  assumes "balanced b" and "finish_job c i ack b = Some b'"
  shows "balanced b'"
proof -
  have c: "c < length (chans b)" "i < length (ch_jobs (chans b ! c))" using assms(2) by (auto simp: finish_job_def split: if_splits)
  obtain R where R: "payloads (concat (map chan_msgs (chans b))) = R + payloads (chan_msgs (chans b ! c))"
    "\<And>ch. payloads (concat (map chan_msgs ((chans b)[c := ch]))) = R + payloads (chan_msgs ch)" by (rule payloads_chan [OF c(1)]) blast
  show ?thesis using assms c payloads_drop_nth [OF c(2), of id]
    by (cases ack) (auto simp: finish_job_def Let_def settle_def balanced_def in_flight_def emit_event_def upd_chan_def R chan_msgs_def held_list_def
        split: option.splits)
qed

lemma balanced_crash_job:
  assumes "balanced b" and "crash_job c i b = Some b'"
  shows "balanced b'"
proof -
  have c: "c < length (chans b)" "i < length (ch_jobs (chans b ! c))" using assms(2) by (auto simp: crash_job_def split: if_splits)
  obtain R where R: "payloads (concat (map chan_msgs (chans b))) = R + payloads (chan_msgs (chans b ! c))"
    "\<And>ch. payloads (concat (map chan_msgs ((chans b)[c := ch]))) = R + payloads (chan_msgs ch)" by (rule payloads_chan [OF c(1)]) blast
  show ?thesis using assms c payloads_drop_nth [OF c(2), of id]
    by (auto simp: crash_job_def Let_def balanced_def in_flight_def upd_chan_def R chan_msgs_def held_list_def split: if_splits option.splits)
qed

lemma balanced_end_loop: "balanced b \<Longrightarrow> end_loop c b = Some b' \<Longrightarrow> balanced b'"
  by (auto simp: end_loop_def chan_msgs_def held_list_def intro!: balanced_upd split: if_splits)

lemma balanced_stop: "balanced b \<Longrightarrow> balanced (stop_bus b)"
  by (simp add: stop_bus_def balanced_def in_flight_def)

lemmas balanced_actions = balanced_send balanced_resume_send balanced_start_requeue balanced_add_listener balanced_receive balanced_start_job balanced_poll_job
  balanced_finish_job balanced_crash_job balanced_end_loop balanced_stop

lemma balanced_do: "balanced b \<Longrightarrow> bus_ok b \<Longrightarrow> bus_do H a b = Some b' \<Longrightarrow> balanced b'"
  by (cases a) (auto dest: balanced_actions intro: balanced_actions)

lemma balanced_new: "balanced bus_new"
  by (simp add: balanced_def in_flight_def bus_new_def)

lemma bus_run_balanced: "bus_run H as b \<Longrightarrow> balanced b"
  by (induction rule: bus_run.induct) (auto simp: balanced_new intro: balanced_do bus_run_ok)

section \<open>Redelivery is bounded\<close>

text \<open>The listeners of destination \<open>d\<close> ask for at most \<open>N\<close> attempts, and \<open>d\<close> is nobody's dead-letter destination.\<close>

fun abides :: "string \<Rightarrow> u32 \<Rightarrow> 'f action \<Rightarrow> bool" where
  "abides d N (Send addr m opts) \<longleftrightarrow> (dest_name addr = d \<longrightarrow> m_delivery_count m < N)"
| "abides d N (Add_listener addr opts) \<longleftrightarrow> (dest_name addr = d \<longrightarrow> max_delivery_attempts opts \<le> N) \<and>
     (case dead_letter opts of Some a \<Rightarrow> dest_name a \<noteq> d | None \<Rightarrow> True)"
| "abides d N _ \<longleftrightarrow> True"

definition chan_within :: "string \<Rightarrow> u32 \<Rightarrow> 'f chan \<Rightarrow> bool" where
  "chan_within d N ch \<longleftrightarrow> (case dead_letter (ch_opts ch) of Some a \<Rightarrow> dest_name a \<noteq> d | None \<Rightarrow> True) \<and>
     (ch_name ch = d \<longrightarrow> max_delivery_attempts (ch_opts ch) \<le> N \<and> (\<forall>m \<in> set (chan_msgs ch). m_delivery_count m < N))"

fun task_within :: "string \<Rightarrow> u32 \<Rightarrow> 'f bus_task \<Rightarrow> bool" where
  "task_within d N (Sending who addr m block c) \<longleftrightarrow> (dest_name addr = d \<longrightarrow> m_delivery_count m < N)"
| "task_within d N (Requeue addr m is_dlq) \<longleftrightarrow> (dest_name addr = d \<longrightarrow> m_delivery_count m < N)"

fun event_within :: "string \<Rightarrow> u32 \<Rightarrow> 'f event \<Rightarrow> bool" where
  "event_within d N (On_receive addr m) \<longleftrightarrow> (dest_name addr = d \<longrightarrow> m_delivery_count m < N)"
| "event_within d N _ \<longleftrightarrow> True"

definition within :: "string \<Rightarrow> u32 \<Rightarrow> 'f Bus \<Rightarrow> bool" where
  "within d N b \<longleftrightarrow> (\<forall>ch \<in> set (chans b). chan_within d N ch) \<and> (\<forall>t \<in> set (bus_tasks b). task_within d N t) \<and>
     (\<forall>e \<in> set (events b). event_within d N e)"

lemma within_fields [simp]:
  "within d N (b\<lparr>outcomes := x4\<rparr>) = within d N b" "within d N (b\<lparr>submitted := x5\<rparr>) = within d N b"
  "within d N (b\<lparr>rejected := x6\<rparr>) = within d N b" "within d N (b\<lparr>crashed := x7\<rparr>) = within d N b"
  "within d N (b\<lparr>destinations := x8\<rparr>) = within d N b"
  by (simp_all add: within_def)

lemma within_emit [simp]: "within d N (emit_event e b) \<longleftrightarrow> event_within d N e \<and> within d N b"
  by (auto simp: within_def emit_event_def)

lemma within_add_task: "within d N (b\<lparr>bus_tasks := bus_tasks b @ [t]\<rparr>) \<longleftrightarrow> task_within d N t \<and> within d N b"
  by (auto simp: within_def)

lemma within_drop_task: "within d N b \<Longrightarrow> within d N (b\<lparr>bus_tasks := drop_nth i (bus_tasks b)\<rparr>)"
  using set_drop_nth [of i "bus_tasks b"] by (auto simp: within_def)

lemma within_sent [simp]: "within d N (sent who addr m r b) = within d N b"
  by (auto simp: sent_def split: option.split sum.split)

lemma within_upd:
  assumes "within d N b" and "c < length (chans b)" and "chan_within d N (chans b ! c) \<Longrightarrow> chan_within d N (f (chans b ! c))"
  shows "within d N (upd_chan c f b)"
  using assms set_update_subset_insert [of "chans b" c "f (chans b ! c)"] by (auto simp: within_def upd_chan_def)

lemma within_pick: "pick H nm key b = (r, b') \<Longrightarrow> within d N b' = within d N b"
  using pick_frame [of H nm key b r b'] by (simp add: within_def)

lemma within_sub:
  assumes "chan_within d N ch" and "ch_name ch' = ch_name ch" and "ch_opts ch' = ch_opts ch"
    and "set (chan_msgs ch') \<subseteq> set (chan_msgs ch)"
  shows "chan_within d N ch'"
  using assms unfolding chan_within_def by (simp add: subset_iff)

lemma within_send: "within d N b \<Longrightarrow> abides d N (Send addr m opts) \<Longrightarrow> within d N (send H addr m opts b)"
  by (auto simp: send_def Let_def within_add_task dest: within_pick [of _ _ _ _ _ _ d N] split: prod.splits option.splits)

lemma within_resume_send:
  assumes "within d N b" and "bus_ok b" and "resume_send i b = Some b'"
  shows "within d N b'"
proof -
  obtain who addr m block c where t: "i < length (bus_tasks b)" "bus_tasks b ! i = Sending who addr m block c"
    using assms(3) by (auto simp: resume_send_def split: if_splits bus_task.splits)
  have c: "c < length (chans b)" "ch_name (chans b ! c) = dest_name addr"
    using assms(2) t by (metis bus_ok_def nth_mem task_ok.simps(1))+
  have m: "dest_name addr = d \<Longrightarrow> m_delivery_count m < N" using assms(1) t by (metis within_def nth_mem task_within.simps(1))
  have w: "within d N (b\<lparr>bus_tasks := drop_nth i (bus_tasks b)\<rparr>)" by (rule within_drop_task [OF assms(1)])
  have "within d N (upd_chan c (enqueue m) (b\<lparr>bus_tasks := drop_nth i (bus_tasks b)\<rparr>))"
    using c m by (intro within_upd [OF w]) (auto simp: chan_within_def chan_msgs_def enqueue_def held_list_def)
  then show ?thesis using assms(3) t w by (auto simp: resume_send_def Let_def split: if_splits)
qed

lemma within_start_requeue:
  assumes "within d N b" and "start_requeue H i b = Some b'"
  shows "within d N b'"
proof -
  obtain addr m is_dlq where t: "i < length (bus_tasks b)" "bus_tasks b ! i = Requeue addr m is_dlq"
    using assms(2) by (auto simp: start_requeue_def split: if_splits bus_task.splits)
  have m: "dest_name addr = d \<Longrightarrow> m_delivery_count m < N" using assms(1) t by (metis within_def nth_mem task_within.simps(2))
  obtain r b1 where p: "pick H (dest_name addr) (m_routing_key m) (b\<lparr>bus_tasks := drop_nth i (bus_tasks b)\<rparr>) = (r, b1)" by fastforce
  have "within d N b1" using within_pick [OF p] within_drop_task [OF assms(1)] by blast
  then show ?thesis using assms(2) t m by (cases r) (auto simp: start_requeue_def p Let_def within_add_task)
qed

lemma within_add_listener:
  "within d N b \<Longrightarrow> abides d N (Add_listener addr opts) \<Longrightarrow> add_listener addr opts b = Some b' \<Longrightarrow> within d N b'"
  by (auto simp: add_listener_def Let_def within_def chan_within_def chan_msgs_def held_list_def split: if_splits)

lemma within_receive: "within d N b \<Longrightarrow> receive c b = Some b' \<Longrightarrow> within d N b'"
  by (auto simp: receive_def chan_msgs_def held_list_def intro!: within_upd elim!: within_sub split: if_splits list.splits)

lemma within_start_job:
  assumes "within d N b" and "start_job c b = Some b'"
  shows "within d N b'"
proof -
  have c: "c < length (chans b)" using assms(2) by (auto simp: start_job_def split: if_splits)
  obtain m where m: "ch_held (chans b ! c) = Some m" using assms(2) by (auto simp: start_job_def split: if_splits option.splits)
  have "m_delivery_count m < N" if "ch_name (chans b ! c) = d"
    using that m c assms(1) by (auto simp: within_def chan_within_def chan_msgs_def held_list_def)
  moreover have "within d N (upd_chan c (\<lambda>ch. ch\<lparr>ch_held := None, ch_jobs := ch_jobs ch @ [m], ch_handled := ch_handled ch @ [m]\<rparr>) b)"
    "within d N (upd_chan c (\<lambda>ch. ch\<lparr>ch_held := None, ch_spawned := ch_spawned ch @ [m]\<rparr>) b)"
    using m by (auto intro!: within_upd [OF assms(1) c] simp: chan_msgs_def held_list_def elim!: within_sub)
  ultimately show ?thesis using assms(2) m by (auto simp: start_job_def split: if_splits)
qed

lemma within_poll_job:
  assumes "within d N b" and "poll_job c i b = Some b'"
  shows "within d N b'"
proof -
  have c: "c < length (chans b)" "i < length (ch_spawned (chans b ! c))" using assms(2) by (auto simp: poll_job_def split: if_splits)
  let ?m = "ch_spawned (chans b ! c) ! i"
  let ?f = "\<lambda>ch. ch\<lparr>ch_spawned := drop_nth i (ch_spawned ch), ch_jobs := ch_jobs ch @ [?m], ch_handled := ch_handled ch @ [?m]\<rparr>"
  have "m_delivery_count ?m < N" if "ch_name (chans b ! c) = d"
    using that c assms(1) by (auto simp: within_def chan_within_def chan_msgs_def)
  moreover have "within d N (upd_chan c ?f b)"
  proof (rule within_upd [OF assms(1) c(1)])
    show "chan_within d N (?f (chans b ! c))" if "chan_within d N (chans b ! c)"
      using set_drop_nth [of i "ch_spawned (chans b ! c)"] nth_mem [OF c(2)]
      by (intro within_sub [OF that]) (auto simp: chan_msgs_def held_list_def)
  qed
  ultimately show ?thesis using assms(2) c by (auto simp: poll_job_def Let_def)
qed

lemma within_jobs_dropped:
  assumes "within d N b" and "c < length (chans b)"
  shows "within d N (upd_chan c (\<lambda>ch. ch\<lparr>ch_jobs := drop_nth i (ch_jobs ch)\<rparr>) b)"
proof (rule within_upd [OF assms])
  show "chan_within d N ((chans b ! c)\<lparr>ch_jobs := drop_nth i (ch_jobs (chans b ! c))\<rparr>)" if "chan_within d N (chans b ! c)"
    using set_drop_nth [of i "ch_jobs (chans b ! c)"] by (intro within_sub [OF that]) (auto simp: chan_msgs_def held_list_def)
qed

lemma within_finish_job:
  assumes "within d N b" and "finish_job c i ack b = Some b'"
  shows "within d N b'"
proof -
  have c: "c < length (chans b)" using assms(2) by (auto simp: finish_job_def split: if_splits)
  have "chan_within d N (chans b ! c)" using assms(1) c by (simp add: within_def)
  then show ?thesis using assms(2) within_jobs_dropped [OF assms(1) c]
    by (cases ack) (auto simp: finish_job_def Let_def settle_def within_add_task chan_within_def split: if_splits option.splits)
qed

lemma within_crash_job:
  assumes "within d N b" and "crash_job c i b = Some b'"
  shows "within d N b'"
proof -
  have c: "c < length (chans b)" using assms(2) by (auto simp: crash_job_def split: if_splits)
  let ?b = "upd_chan c (\<lambda>ch. ch\<lparr>ch_jobs := drop_nth i (ch_jobs ch)\<rparr>) (b\<lparr>crashed := crashed b @ [ch_jobs (chans b ! c) ! i]\<rparr>)"
  have w: "within d N ?b" using within_jobs_dropped [of d N "b\<lparr>crashed := crashed b @ [ch_jobs (chans b ! c) ! i]\<rparr>" c i] assms(1) c by simp
  have "within d N (upd_chan c (\<lambda>ch. ch\<lparr>ch_open := False, ch_queue := []\<rparr>) (?b\<lparr>crashed := crashed ?b @ ch_queue (chans b ! c)\<rparr>))"
  proof (rule within_upd)
    show "within d N (?b\<lparr>crashed := crashed ?b @ ch_queue (chans b ! c)\<rparr>)" using w by (simp only: within_fields)
  qed (use c in \<open>auto simp: upd_chan_def chan_msgs_def held_list_def elim!: within_sub\<close>)
  then show ?thesis using assms(2) w by (auto simp: crash_job_def Let_def split: if_splits)
qed

lemma within_end_loop: "within d N b \<Longrightarrow> end_loop c b = Some b' \<Longrightarrow> within d N b'"
  by (auto simp: end_loop_def chan_msgs_def held_list_def intro!: within_upd elim!: within_sub split: if_splits)

lemma within_stop: "within d N b \<Longrightarrow> within d N (stop_bus b)"
  by (simp add: stop_bus_def)

lemmas within_actions = within_send within_resume_send within_start_requeue within_add_listener within_receive within_start_job within_poll_job
  within_finish_job within_crash_job within_end_loop within_stop

lemma within_do: "within d N b \<Longrightarrow> bus_ok b \<Longrightarrow> abides d N a \<Longrightarrow> bus_do H a b = Some b' \<Longrightarrow> within d N b'"
  by (cases a) (auto dest: within_actions intro: within_actions simp del: abides.simps)

lemma within_new: "within d N bus_new"
  by (simp add: within_def bus_new_def)

lemma bus_run_within: "bus_run H as b \<Longrightarrow> list_all (abides d N) as \<Longrightarrow> within d N b"
  by (induction rule: bus_run.induct) (auto simp: within_new intro: within_do bus_run_ok)

section \<open>Picking a listener\<close>

fun picks :: "(string \<Rightarrow> nat) \<Rightarrow> string \<Rightarrow> nat \<Rightarrow> 'f Bus \<Rightarrow> nat option list \<times> 'f Bus" where
  "picks H nm 0 b = ([], b)"
| "picks H nm (Suc n) b = (case pick H nm None b of (r, b') \<Rightarrow> (case picks H nm n b' of (rs, b'') \<Rightarrow> (r # rs, b'')))"

definition live_listeners :: "'f Bus \<Rightarrow> string \<Rightarrow> nat list" where
  "live_listeners b nm = (case destinations b nm of Some st \<Rightarrow> filter (\<lambda>c. ch_open (chans b ! c)) (listeners st) | None \<Rightarrow> [])"

lemma pick_unkeyed:
  assumes "destinations b nm = Some st" and "live_listeners b nm \<noteq> []"
  shows "pick H nm None b = (Some (live_listeners b nm ! (unat (round_robin st) mod length (live_listeners b nm))),
    b\<lparr>destinations := (destinations b)(nm \<mapsto> st\<lparr>listeners := live_listeners b nm, round_robin := round_robin st + 1\<rparr>)\<rparr>)"
  using assms by (simp add: pick_def live_listeners_def Let_def)

lemma pick_keyed:
  assumes "live_listeners b nm \<noteq> []"
  shows "fst (pick H nm (Some k) b) = Some (live_listeners b nm ! (H k mod length (live_listeners b nm)))"
  using assms by (auto simp: pick_def live_listeners_def Let_def split: option.splits)

lemma picks_spec:
  assumes "destinations b nm = Some st" and "live_listeners b nm = live" and "live \<noteq> []" and "unat (round_robin st) + n < 2 ^ 64"
  shows "fst (picks H nm n b) = map (\<lambda>i. Some (live ! ((unat (round_robin st) + i) mod length live))) [0..<n] \<and>
    live_listeners (snd (picks H nm n b)) nm = live"
  using assms
proof (induction n arbitrary: b st)
  case (Suc n)
  define b' where "b' = b\<lparr>destinations := (destinations b)(nm \<mapsto> st\<lparr>listeners := live, round_robin := round_robin st + 1\<rparr>)\<rparr>"
  have p: "pick H nm None b = (Some (live ! (unat (round_robin st) mod length live)), b')"
    using pick_unkeyed [OF Suc.prems(1)] Suc.prems by (simp add: b'_def)
  have l: "live_listeners b' nm = live" using Suc.prems(1,2) by (auto simp: live_listeners_def b'_def)
  have rr: "unat (round_robin st + 1) = Suc (unat (round_robin st))" using Suc.prems(4) by (simp add: unat_word_ariths)
  have "fst (picks H nm n b') = map (\<lambda>i. Some (live ! ((Suc (unat (round_robin st)) + i) mod length live))) [0..<n] \<and>
      live_listeners (snd (picks H nm n b')) nm = live"
    using Suc.IH [of b' "st\<lparr>listeners := live, round_robin := round_robin st + 1\<rparr>"] l Suc.prems(3,4) rr by (simp add: b'_def)
  then show ?case by (simp add: p map_upt_Suc case_prod_beta del: upt_Suc)
qed simp

lemma mset_rotate: "mset (rotate n xs) = mset xs"
proof (induction n)
  case (Suc n)
  have "mset (rotate1 ys) = mset ys" for ys :: "'a list" by (cases ys) simp_all
  then show ?case using Suc by simp
qed simp

section \<open>Running a script\<close>

fun bus_exec :: "(string \<Rightarrow> nat) \<Rightarrow> 'f action list \<Rightarrow> 'f Bus \<Rightarrow> 'f Bus option" where
  "bus_exec H [] b = Some b"
| "bus_exec H (a # as) b = Option.bind (bus_do H a b) (bus_exec H as)"

lemma bus_exec_run: "bus_run H as b \<Longrightarrow> bus_exec H as' b = Some b' \<Longrightarrow> bus_run H (as @ as') b'"
proof (induction as' arbitrary: as b)
  case (Cons a as')
  then obtain b1 where "bus_do H a b = Some b1" "bus_exec H as' b1 = Some b'" by (auto simp: bind_eq_Some_conv)
  then show ?case using Cons.IH [of "as @ [a]" b1] bus_step [OF Cons.prems(1)] by simp
qed simp

lemmas bus_exec_new = bus_exec_run [OF bus_init, simplified]

text \<open>One message, tried once and due for redelivery.\<close>

definition retry_script :: "unit action list" where
  "retry_script = [Add_listener ''chan://q'' default_listener, Send ''chan://q'' (message_new [7]) \<lparr>so_routing_key = None, block_on_full = False\<rparr>,
     Resume_send 0, Receive 0, Start_job 0, Finish_job 0 0 AckRetry]"

lemmas bus_defs = bus_new_def add_listener_def default_listener_def dest_name_def send_def pick_def message_new_def emit_event_def
  resume_send_def drop_nth_def upd_chan_def enqueue_def sent_def receive_def at_head_def start_job_def poll_job_def permits_def chan_addr_def
  finish_job_def settle_def start_requeue_def

definition retried :: "unit BusMessage" where
  "retried = (message_new [7])\<lparr>m_delivery_count := 1\<rparr>"

definition retry_state :: "unit Bus" where
  "retry_state = \<lparr>destinations = [''q'' \<mapsto> \<lparr>listeners = [0], round_robin = 1\<rparr>],
     chans = [\<lparr>ch_name = ''q'', ch_opts = default_listener, ch_open = True, ch_queue = [], ch_held = None, ch_spawned = [], ch_jobs = [],
       ch_accepted = [message_new [7]], ch_handled = [message_new [7]]\<rparr>],
     bus_tasks = [Requeue ''chan://q'' retried False],
     events = [On_send ''chan://q'' (message_new [7]), On_receive ''chan://q'' (message_new [7]), On_nack ''chan://q'' retried True],
     outcomes = [(message_new [7], Ok ())], submitted = [message_new [7]], rejected = [], crashed = []\<rparr>"

lemma retry_run: "bus_run H retry_script retry_state"
  by (rule bus_exec_new) (simp add: retry_script_def retry_state_def retried_def bus_defs Let_def)

section \<open>Properties\<close>

text \<open>C2: After any interleaving of clients, consumers, redeliveries, crashes and shutdown, every message a client submitted is
  accounted for exactly once: it is in a channel, with a task, refused to its sender, acknowledged, rejected, reported to
  the observer as dropped, or it went down with a handler that panicked. No message is lost silently and none is
  duplicated.\<close>
theorem bus_conserves_messages:
  assumes "bus_run H as b"
  shows "payloads (submitted b) =
    payloads (in_flight b) + payloads (concat (map failed_send (outcomes b))) + payloads (concat (map acked (events b))) +
    payloads (concat (map dropped (events b))) + payloads (rejected b) + payloads (crashed b)"
  using bus_run_balanced [OF assms] by (simp add: balanced_def)

theorem bus_conserves_messages_witness:
  "bus_run length retry_script retry_state \<and> in_flight retry_state = [retried] \<and>
   payloads (submitted retry_state) = payloads (in_flight retry_state)"
  using bus_conserves_messages [OF retry_run [of length]] retry_run by (simp add: retry_state_def in_flight_def chan_msgs_def held_list_def)

text \<open>C30: In every reachable state each channel holds at most \<open>buffer_size\<close> messages and has at most its number of
  permits of handlers spawned or running (one, without concurrency). A serial listener (no concurrency) is given the
  messages in the order its channel accepted them, none skipped while it is open. A concurrent listener gives every
  message accepted to exactly one handler invocation, or still has it spawned, held or queued; no order is promised.\<close>
theorem bus_bounded_and_ordered:
  assumes "bus_run H as b" and "c < length (chans b)" and "ch = chans b ! c"
  shows "length (ch_queue ch) \<le> buffer_size (ch_opts ch) \<and>
    length (ch_spawned ch) + length (ch_jobs ch) \<le> (case concurrency (ch_opts ch) of Some n \<Rightarrow> max n 1 | None \<Rightarrow> 1) \<and>
    (if concurrency (ch_opts ch) = None
     then prefix (ch_handled ch) (ch_accepted ch) \<and>
       (ch_open ch \<longrightarrow> ch_accepted ch = ch_handled ch @ held_list ch @ ch_queue ch)
     else mset (ch_accepted ch) = mset (ch_handled ch) + mset (ch_spawned ch) + mset (held_list ch) + mset (ch_queue ch))"
  using chan_okD [OF bus_run_ok [OF assms(1)] assms(2)] assms(3)
  by (auto simp: chan_ok_def permits_def serial_ok_def concurrent_ok_def split: if_splits)

theorem bus_bounded_and_ordered_witness:
  "length (ch_queue (chans retry_state ! 0)) \<le> 256 \<and> prefix (ch_handled (chans retry_state ! 0)) (ch_accepted (chans retry_state ! 0))"
  using bus_bounded_and_ordered [OF retry_run _ refl, of 0] by (simp add: retry_state_def default_listener_def)

text \<open>With two permits the handlers of a concurrent listener can start in the other order.\<close>
lemma concurrent_jobs_reorder:
  "map_option (\<lambda>b. map m_body (ch_handled (chans b ! 0))) (bus_exec length
     [Add_listener ''chan://q'' (default_listener\<lparr>concurrency := Some 2\<rparr>),
      Send ''chan://q'' (message_new [1]) \<lparr>so_routing_key = None, block_on_full = False\<rparr>, Resume_send 0,
      Send ''chan://q'' (message_new [2]) \<lparr>so_routing_key = None, block_on_full = False\<rparr>, Resume_send 0,
      Receive 0, Start_job 0, Receive 0, Start_job 0, Poll_job 0 1, Poll_job 0 0] (bus_new :: unit Bus)) = Some [[2], [1]]"
  by (simp add: bus_defs Let_def)

text \<open>If the listeners of a destination ask for at most \<open>N\<close> delivery attempts, its messages are sent fresh and it is nobody's
  dead-letter destination, then no handler on it is ever given a message that has already been tried \<open>N\<close> times, however
  retries interleave.\<close>
theorem bus_attempts_bounded:
  assumes "bus_run H as b" and "list_all (abides d N) as" and "On_receive (chan_addr d) m \<in> set (events b)"
  shows "m_delivery_count m < N"
  using bus_run_within [OF assms(1,2)] assms(3) by (force simp: within_def)

text \<open>Unkeyed messages go round: as many picks as there are live listeners choose each of them exactly once (up to the wrap
  of the counter). A routing key always goes to the same listener while the set of live listeners is unchanged.\<close>
theorem bus_pick_fair:
  assumes "destinations b nm = Some st" and "live_listeners b nm \<noteq> []" and "unat (round_robin st) + length (live_listeners b nm) < 2 ^ 64"
  shows "case picks H nm (length (live_listeners b nm)) b of (rs, b') \<Rightarrow>
    mset rs = mset (map Some (live_listeners b nm)) \<and> fst (pick H nm (Some k) b') = fst (pick H nm (Some k) b)"
proof -
  let ?live = "live_listeners b nm" and ?r = "unat (round_robin st)"
  have "map (\<lambda>i. ?live ! ((?r + i) mod length ?live)) [0..<length ?live] = rotate ?r ?live"
    by (rule nth_equalityI) (simp_all add: nth_rotate add.commute)
  from arg_cong [OF this, of "map Some"]
  have "map (\<lambda>i. Some (?live ! ((?r + i) mod length ?live))) [0..<length ?live] = map Some (rotate ?r ?live)"
    by (simp add: comp_def)
  moreover have "mset (rotate ?r ?live) = mset ?live" by (rule mset_rotate)
  ultimately show ?thesis
    using picks_spec [OF assms(1) refl assms(2,3), of H] assms(2) by (auto simp: pick_keyed case_prod_beta)
qed

text \<open>A routing key given with a send is used for the first delivery only: the message itself does not carry it, so a
  redelivery goes round instead. Two listeners, a message sent with key \<^verbatim>\<open>k\<close> to the second of them and retried once.\<close>
lemma override_key_lost_on_redelivery:
  "Option.bind (bus_exec length
     [Add_listener ''chan://q'' default_listener, Add_listener ''chan://q'' default_listener,
      Send ''chan://q'' (message_new [7]) \<lparr>so_routing_key = Some ''k'', block_on_full = False\<rparr>,
      Resume_send 0, Receive 1, Start_job 1, Finish_job 1 0 AckRetry, Start_requeue 0] bus_new)
     (\<lambda>b. Some (bus_tasks b)) = Some [Sending (Some False) ''chan://q'' retried True 0]"
  by (simp add: retried_def bus_defs Let_def)

text \<open>A dead-lettered message keeps its delivery count, so the listener of the dead-letter destination gets a single
  attempt whatever it asks for: its first retry is already the last.\<close>
lemma dead_letter_gets_one_attempt:
  assumes "m_delivery_count m \<ge> max_delivery_attempts opts" and "m_delivery_count m + 1 > m_delivery_count m"
  shows "bus_tasks (settle addr opts m AckRetry b) =
    bus_tasks b @ (case dead_letter opts of Some dlq \<Rightarrow> [Requeue dlq (m\<lparr>m_delivery_count := m_delivery_count m + 1\<rparr>) True] | None \<Rightarrow> [])"
  using assms by (auto simp: settle_def Let_def emit_event_def split: option.split)

end
