(* ===== verification/Config.thy ===== *)
theory Config
  imports Rust_Str Codec_Json Codec_Text "HOL-Library.Char_ord" "HOL-Library.List_Lexorder" "HOL-Library.Product_Lexorder"
begin

text \<open>
  Layered configuration, \<^verbatim>\<open>config.rs\<close>: layers from files, the environment and the command line, deep-merged with later
  layers winning, and read by dotted paths. The readers of YAML and XML and Unicode lower-casing are parameters.
\<close>

section \<open>Entries\<close>

type_synonym 'f entries = "(string \<times> 'f Value) list"

datatype ConfigError = UnsupportedFormat string | Io string | MissingKey string | Codec CodecError

text \<open>Replacing the value of the first entry of a key, or appending one.\<close>

fun upsert :: "string \<Rightarrow> 'f Value \<Rightarrow> 'f entries \<Rightarrow> 'f entries" where
  "upsert k v [] = [(k, v)]"
| "upsert k v ((k', v') # es) = (if k' = k then (k, v) # es else (k', v') # upsert k v es)"

text \<open>\<^verbatim>\<open>insert_nested\<close> for the path \<open>s # ss\<close>; an intermediate value that is not an object becomes one.\<close>

fun insert_nested :: "'f entries \<Rightarrow> string \<Rightarrow> string list \<Rightarrow> 'f Value \<Rightarrow> 'f entries" where
  "insert_nested es s [] v = upsert s v es"
| "insert_nested es s (s' # ss) v =
     (let child = (case map_of es s of Some (Object c) \<Rightarrow> c | _ \<Rightarrow> [])
      in upsert s (Object (insert_nested child s' ss v)) es)"

text \<open>The guard \<^verbatim>\<open>!segs.iter().any(|s| s.is_empty())\<close> of the dotted keys.\<close>

fun insert_path :: "'f entries \<Rightarrow> string list \<Rightarrow> 'f Value \<Rightarrow> 'f entries" where
  "insert_path es [] v = es"
| "insert_path es (s # ss) v = (if [] \<in> set (s # ss) then es else insert_nested es s ss v)"

section \<open>Merging\<close>

function (sequential) merge :: "'f Value \<Rightarrow> 'f Value \<Rightarrow> 'f Value"
  and merge_entries :: "'f entries \<Rightarrow> 'f entries \<Rightarrow> 'f entries" where
  "merge (Object b) (Object ov) = Object (merge_entries b ov)"
| "merge b ov = ov"
| "merge_entries b [] = b"
| "merge_entries b ((k, v) # ov) = (case map_of b k of
     Some bv \<Rightarrow> merge_entries (upsert k (merge bv v) b) ov
   | None \<Rightarrow> merge_entries (b @ [(k, v)]) ov)"
  by pat_completeness auto
termination
  by (relation "measure (\<lambda>x. case x of Inl (_, v) \<Rightarrow> size v | Inr (_, es) \<Rightarrow> size_list (size_prod (\<lambda>_. 0) size) es)") auto

section \<open>Reading\<close>

text \<open>\<^verbatim>\<open>navigate\<close> along the segments of a key; empty segments are skipped.\<close>

fun nav :: "'f Value \<Rightarrow> string list \<Rightarrow> 'f Value option" where
  "nav v [] = Some v"
| "nav v (s # ss) = Option.bind (get v s) (\<lambda>v'. nav v' ss)"

definition navigate :: "'f Value \<Rightarrow> string \<Rightarrow> 'f Value option" where
  "navigate v key = nav v (filter (\<lambda>s. s \<noteq> []) (split_on (CHR ''.'') key))"

text \<open>\<^verbatim>\<open>Config::get\<close> with the decoder of its type.\<close>

definition config_get :: "('f Value \<Rightarrow> ('t, CodecError) result) \<Rightarrow> 'f Value \<Rightarrow> string \<Rightarrow> ('t, ConfigError) result" where
  "config_get dec v key = (case navigate v key of
     None \<Rightarrow> Err (MissingKey key)
   | Some x \<Rightarrow> (case dec x of Ok t \<Rightarrow> Ok t | Err e \<Rightarrow> Err (Codec e)))"

section \<open>Layers\<close>

definition builder_new :: "'f Value" where
  "builder_new = Object []"

text \<open>The flags of a command line: \<^verbatim>\<open>--k=v\<close>, \<^verbatim>\<open>--k v\<close> and a bare \<^verbatim>\<open>--k\<close>.\<close>

fun arg_flags :: "string list \<Rightarrow> (string \<times> string) list" where
  "arg_flags [] = []"
| "arg_flags (arg # rest) = (case strip_prefix ''--'' arg of
     None \<Rightarrow> arg_flags rest
   | Some flag \<Rightarrow>
       (case split_once (CHR ''='') flag of
          Some (k, v) \<Rightarrow> (k, v) # arg_flags rest
        | None \<Rightarrow>
            (case rest of
               [] \<Rightarrow> [(flag, ''true'')]
             | n # rest' \<Rightarrow> if prefix ''--'' n then (flag, ''true'') # arg_flags rest else (flag, n) # arg_flags rest')))"

definition arg_entries :: "string list \<Rightarrow> 'f entries" where
  "arg_entries args = foldl (\<lambda>es (k, v). insert_path es (split_on (CHR ''.'') k) (Str v)) [] (arg_flags args)"

definition merge_args :: "string list \<Rightarrow> 'f Value \<Rightarrow> 'f Value" where
  "merge_args args v = merge v (Object (arg_entries args))"

definition parse_properties :: "string \<Rightarrow> 'f Value" where
  "parse_properties input = Object (foldl (\<lambda>es line.
       let line = trim line
       in if line = [] \<or> hd line = CHR ''#'' \<or> hd line = CHR ''!'' then es
          else case split_once (CHR ''='') line of
              None \<Rightarrow> es
            | Some (k, v) \<Rightarrow> insert_path es (map trim (split_on (CHR ''.'') (trim k))) (Str (trim v)))
     [] (str_lines input))"

text \<open>\<open>lower\<close> is \<^verbatim>\<open>str::to_lowercase\<close>; \<open>vars\<close> the environment in the order the system gives it.\<close>

definition env_path :: "(string \<Rightarrow> string) \<Rightarrow> string \<Rightarrow> string \<Rightarrow> string list option" where
  "env_path lower pre k = (case strip_prefix pre k of
     None \<Rightarrow> None
   | Some rest \<Rightarrow> if rest = [] then None else Some (map lower (split_str ''__'' rest)))"

definition env_to_value :: "(string \<Rightarrow> string) \<Rightarrow> string \<Rightarrow> (string \<times> string) list \<Rightarrow> 'f Value" where
  "env_to_value lower pre vars = Object (foldl (\<lambda>es (k, v).
       case env_path lower pre k of
         Some (s # ss) \<Rightarrow> insert_nested es s ss (Str v)
       | _ \<Rightarrow> es) [] (sort vars))"

definition merge_env :: "(string \<Rightarrow> string) \<Rightarrow> string \<Rightarrow> (string \<times> string) list \<Rightarrow> 'f Value \<Rightarrow> 'f Value" where
  "merge_env lower pre vars v = merge v (env_to_value lower pre vars)"

datatype FileFormat = FmtJson | FmtYaml | FmtXml | FmtProperties

definition file_format :: "string option \<Rightarrow> FileFormat option" where
  "file_format ext = (case map_option to_ascii_lowercase ext of
     None \<Rightarrow> None
   | Some e \<Rightarrow>
       if e = ''json'' then Some FmtJson
       else if e = ''yaml'' \<or> e = ''yml'' then Some FmtYaml
       else if e = ''xml'' then Some FmtXml
       else if e = ''properties'' \<or> e = ''props'' \<or> e = ''env'' then Some FmtProperties
       else None)"

text \<open>\<open>content\<close> is what reading the file gives; \<open>msg\<close> is the display of an encoding error. The outer \<open>option\<close> is that of the JSON
  reader.\<close>

definition load_file :: "(bytes \<Rightarrow> string) \<Rightarrow> 'f float_ops \<Rightarrow> (string \<Rightarrow> ('f Value, CodecError) result) \<Rightarrow> (string \<Rightarrow> ('f Value, CodecError) result) \<Rightarrow>
    string \<Rightarrow> string option \<Rightarrow> (bytes, string) result \<Rightarrow> ('f Value, ConfigError) result option" where
  "load_file msg F yaml xml shown ext content = (case file_format ext of
     None \<Rightarrow> Some (Err (UnsupportedFormat shown))
   | Some fmt \<Rightarrow>
       (case content of
          Err e \<Rightarrow> Some (Err (Io e))
        | Ok bs \<Rightarrow>
            (case fmt of
               FmtJson \<Rightarrow> map_option (map_sum Codec id) (from_slice msg F bs)
             | _ \<Rightarrow>
                 if \<not> utf8_valid bs then Some (Err (Io (msg bs)))
                 else (case fmt of
                    FmtYaml \<Rightarrow> Some (map_sum Codec id (yaml (of_bytes bs)))
                  | FmtXml \<Rightarrow> Some (map_sum Codec id (xml (of_bytes bs)))
                  | _ \<Rightarrow> Some (Ok (parse_properties (of_bytes bs)))))))"

definition merge_file :: "(bytes \<Rightarrow> string) \<Rightarrow> 'f float_ops \<Rightarrow> (string \<Rightarrow> ('f Value, CodecError) result) \<Rightarrow> (string \<Rightarrow> ('f Value, CodecError) result) \<Rightarrow>
    string \<Rightarrow> string option \<Rightarrow> (bytes, string) result \<Rightarrow> 'f Value \<Rightarrow> ('f Value, ConfigError) result option" where
  "merge_file msg F yaml xml shown ext content v =
     map_option (map_sum id (merge v)) (load_file msg F yaml xml shown ext content)"

end
