(* ===== verification/Config_Correct.thy ===== *)
theory Config_Correct
  imports Config
begin

text \<open>
  Correctness of layered configuration: a leaf comes from the last layer that says anything about it, nothing is invented,
  and a command-line flag is found under its dotted key. Objects must have distinct keys, as every layer but a parsed file has
  by construction; the last section shows what goes wrong otherwise.
\<close>

section \<open>Objects with distinct keys\<close>

fun keys_ok :: "'f Value \<Rightarrow> bool" where
  "keys_ok (Object es) \<longleftrightarrow> distinct (map fst es) \<and> (\<forall>e \<in> set es. keys_ok (snd e))"
| "keys_ok _ \<longleftrightarrow> True"

definition entries_ok :: "'f entries \<Rightarrow> bool" where
  "entries_ok es \<longleftrightarrow> distinct (map fst es) \<and> (\<forall>e \<in> set es. keys_ok (snd e))"

lemma keys_ok_Object [simp]: "keys_ok (Object es) = entries_ok es"
  by (simp add: entries_ok_def)

declare keys_ok.simps(1) [simp del]

lemma entries_ok_simps [simp]:
  "entries_ok []" "entries_ok ((k, v) # es) \<longleftrightarrow> k \<notin> fst ` set es \<and> keys_ok v \<and> entries_ok es"
  by (auto simp: entries_ok_def)

lemma get_distinct: "entries_ok es \<Longrightarrow> get (Object es) k = map_of es k"
proof -
  assume "entries_ok es"
  then have d: "distinct (map fst es)" by (simp add: entries_ok_def)
  have "map_option snd (find (\<lambda>(k', _). k' = k) xs) = map_of xs k" for xs :: "'a entries"
    by (induction xs) auto
  then have "find_key es k = map_of (rev es) k" by (simp add: find_key_def)
  also have "map_of (rev es) k = map_of es k" using d
  proof (induction es)
    case (Cons e es)
    then have "map_of es (fst e) = None" by (simp add: map_of_eq_None_iff)
    then show ?case using Cons by (auto simp: map_add_def split: option.split)
  qed simp
  finally show ?thesis by (simp add: get_def)
qed

lemma get_not_object: "(\<And>es. v \<noteq> Object es) \<Longrightarrow> get v k = None"
  by (cases v) (auto simp: get_def)

lemma entries_ok_value: "entries_ok es \<Longrightarrow> map_of es k = Some v \<Longrightarrow> keys_ok v"
  by (auto simp: entries_ok_def dest: map_of_SomeD)

lemma map_of_upsert: "map_of (upsert k v es) = (map_of es)(k \<mapsto> v)"
  by (induction es) (auto simp: fun_eq_iff)

lemma keys_upsert: "fst ` set (upsert k v es) = insert k (fst ` set es)"
proof (induction es)
  case (Cons e es)
  then show ?case by (cases e) (simp add: insert_commute)
qed simp

lemma entries_ok_upsert: "entries_ok es \<Longrightarrow> keys_ok v \<Longrightarrow> entries_ok (upsert k v es)"
proof (induction es)
  case (Cons e es)
  obtain k' v' where "e = (k', v')" by (cases e)
  then show ?case using Cons keys_upsert [of k v es] by auto
qed simp

lemma entries_ok_snoc: "entries_ok es \<Longrightarrow> keys_ok v \<Longrightarrow> map_of es k = None \<Longrightarrow> entries_ok (es @ [(k, v)])"
  by (auto simp: entries_ok_def map_of_eq_None_iff)

lemma map_of_merge:
  "entries_ok ov \<Longrightarrow> map_of (merge_entries b ov) k = (case map_of ov k of
     None \<Rightarrow> map_of b k
   | Some v \<Rightarrow> (case map_of b k of Some bv \<Rightarrow> Some (merge bv v) | None \<Rightarrow> Some v))"
proof (induction ov arbitrary: b)
  case (Cons e ov)
  obtain k' v where e: "e = (k', v)" by (cases e)
  have "map_of ov k' = None" using Cons.prems e by (simp add: map_of_eq_None_iff)
  then show ?case using Cons e by (auto simp: map_of_upsert map_add_def split: option.splits)
qed simp

lemma merge_ok:
  fixes b ov :: "'f Value" and be oe :: "'f entries"
  shows "keys_ok b \<Longrightarrow> keys_ok ov \<Longrightarrow> keys_ok (merge b ov)"
  "entries_ok be \<Longrightarrow> entries_ok oe \<Longrightarrow> entries_ok (merge_entries be oe)"
proof (induction b ov and be oe rule: merge_merge_entries.induct)
  case (4 b k v ov)
  show ?case
  proof (cases "map_of b k")
    case None
    then show ?thesis using 4 entries_ok_snoc by auto
  next
    case (Some bv)
    then show ?thesis using 4 entries_ok_value [OF 4(4) Some] entries_ok_upsert by auto
  qed
qed auto

section \<open>Paths\<close>

fun is_object :: "'f Value \<Rightarrow> bool" where
  "is_object (Object es) = True"
| "is_object _ = False"

text \<open>A layer says nothing about a path when its objects end before it.\<close>

fun leaves_alone :: "'f Value \<Rightarrow> string list \<Rightarrow> bool" where
  "leaves_alone (Object es) (s # ss) \<longleftrightarrow> (case get (Object es) s of None \<Rightarrow> True | Some v \<Rightarrow> leaves_alone v ss)"
| "leaves_alone _ _ \<longleftrightarrow> False"

lemma get_Some_object: "get v k = Some x \<Longrightarrow> \<exists>es. v = Object es"
  by (cases v) (auto simp: get_def)

lemma nav_merge_leaf:
  assumes "keys_ok b" "keys_ok ov" "nav ov p = Some v" "\<not> is_object v"
  shows "nav (merge b ov) p = Some v"
  using assms
proof (induction p arbitrary: b ov)
  case Nil
  then show ?case by (cases ov) auto
next
  case (Cons s ss)
  then obtain x where x: "get ov s = Some x" "nav x ss = Some v" by (auto simp: bind_eq_Some_conv)
  obtain oe where ov: "ov = Object oe" using get_Some_object [OF x(1)] by blast
  have o: "map_of oe s = Some x" "entries_ok oe" using x(1) Cons.prems(2) ov by (simp_all add: get_distinct)
  show ?case
  proof (cases "is_object b")
    case False
    then have "merge b ov = ov" by (cases b) (simp_all add: ov)
    then show ?thesis using Cons.prems by simp
  next
    case True
    then obtain be where b: "b = Object be" by (cases b) auto
    have "entries_ok be" "entries_ok (merge_entries be oe)" using Cons.prems(1) o(2) merge_ok(2) b by auto
    then show ?thesis using o x Cons.IH [of _ x] Cons.prems(4) entries_ok_value
      by (auto simp: b ov get_distinct map_of_merge split: option.split)
  qed
qed

lemma leaves_alone_None: "leaves_alone ov p \<Longrightarrow> nav ov p = None"
proof (induction p arbitrary: ov)
  case Nil
  then show ?case by (cases ov) auto
next
  case (Cons s ss)
  then show ?case by (cases ov) (auto split: option.splits)
qed

lemma nav_merge_through:
  assumes "keys_ok b" "keys_ok ov" "leaves_alone ov p"
  shows "nav (merge b ov) p = nav b p"
  using assms
proof (induction p arbitrary: b ov)
  case Nil
  then show ?case by (cases ov) auto
next
  case (Cons s ss)
  then obtain oe where ov: "ov = Object oe" by (cases ov) auto
  have oe: "entries_ok oe" using Cons.prems(2) ov by simp
  show ?case
  proof (cases "is_object b")
    case True
    then obtain be where b: "b = Object be" by (cases b) auto
    have be: "entries_ok be" "entries_ok (merge_entries be oe)" using Cons.prems(1) oe merge_ok(2) b by auto
    show ?thesis
    proof (cases "map_of oe s")
      case None
      then show ?thesis using be oe by (simp add: b ov get_distinct map_of_merge)
    next
      case (Some x)
      then have la: "leaves_alone x ss" "keys_ok x" using Cons.prems(3) oe entries_ok_value ov by (auto simp: get_distinct)
      show ?thesis
      proof (cases "map_of be s")
        case None
        then show ?thesis using leaves_alone_None [OF la(1)] be oe Some by (simp add: b ov get_distinct map_of_merge)
      next
        case (Some bv)
        then show ?thesis
          using Cons.IH [OF entries_ok_value [OF be(1) Some] la(2,1)] be oe \<open>map_of oe s = Some x\<close>
          by (simp add: b ov get_distinct map_of_merge)
      qed
    qed
  next
    case False
    then have "merge b ov = ov" "get b s = None" by (cases b; simp add: ov get_def)+
    then show ?thesis using leaves_alone_None [OF Cons.prems(3)] by simp
  qed
qed

lemma nav_merge_origin:
  assumes "keys_ok b" "keys_ok ov" "nav (merge b ov) p = Some v" "\<not> is_object v"
  shows "nav b p = Some v \<or> nav ov p = Some v"
  using assms
proof (induction p arbitrary: b ov)
  case Nil
  then show ?case by (cases b; cases ov) auto
next
  case (Cons s ss)
  show ?case
  proof (cases "is_object b \<and> is_object ov")
    case True
    then obtain be oe where e: "b = Object be" "ov = Object oe" by (cases b; cases ov) auto
    have ok: "entries_ok be" "entries_ok oe" "entries_ok (merge_entries be oe)" using Cons.prems(1,2) e merge_ok(2) by auto
    then show ?thesis
      using Cons.prems(3,4) Cons.IH entries_ok_value [OF ok(1)] entries_ok_value [OF ok(2)]
      by (auto simp: e get_distinct map_of_merge split: option.splits)
  next
    case False
    then have "merge b ov = ov" by (cases b; cases ov) auto
    then show ?thesis using Cons.prems(3) by simp
  qed
qed

section \<open>Inserting\<close>

lemma child_ok: "entries_ok es \<Longrightarrow> entries_ok (case map_of es s of Some (Object c) \<Rightarrow> c | _ \<Rightarrow> [])"
  using entries_ok_value [of es s "Object c" for c] by (auto split: option.split Value.split)

lemma insert_nested_ok: "entries_ok es \<Longrightarrow> keys_ok v \<Longrightarrow> entries_ok (insert_nested es s ss v)"
proof (induction ss arbitrary: es s)
  case (Cons s' ss)
  have "entries_ok (case map_of es s of Some (Object c) \<Rightarrow> c | _ \<Rightarrow> [])" by (rule child_ok [OF Cons.prems(1)])
  then show ?case using Cons by (simp add: Let_def entries_ok_upsert)
qed (simp add: entries_ok_upsert)

lemma nav_insert: "entries_ok es \<Longrightarrow> keys_ok v \<Longrightarrow> nav (Object (insert_nested es s ss v)) (s # ss) = Some v"
proof (induction ss arbitrary: es s)
  case Nil
  then show ?case by (simp add: get_distinct entries_ok_upsert map_of_upsert)
next
  case (Cons s' ss)
  let ?c = "case map_of es s of Some (Object c) \<Rightarrow> c | _ \<Rightarrow> []"
  have c: "entries_ok ?c" by (rule child_ok [OF Cons.prems(1)])
  have "entries_ok (upsert s (Object (insert_nested ?c s' ss v)) es)"
    using Cons.prems c by (simp add: entries_ok_upsert insert_nested_ok)
  then show ?case using Cons.IH [OF c Cons.prems(2), of s'] by (simp add: Let_def get_distinct map_of_upsert)
qed

definition apart :: "string list \<Rightarrow> string list \<Rightarrow> bool" where
  "apart p q \<longleftrightarrow> \<not> prefix p q \<and> \<not> prefix q p"

lemma nav_insert_apart:
  "entries_ok es \<Longrightarrow> keys_ok v \<Longrightarrow> apart (s # ss) q \<Longrightarrow> nav (Object (insert_nested es s ss v)) q = nav (Object es) q"
proof (induction ss arbitrary: es s q)
  case Nil
  then obtain t ts where q: "q = t # ts" "t \<noteq> s" by (cases q) (auto simp: apart_def)
  then show ?case using Nil by (simp add: get_distinct entries_ok_upsert map_of_upsert)
next
  case (Cons s' ss)
  let ?c = "case map_of es s of Some (Object c) \<Rightarrow> c | _ \<Rightarrow> []"
  have c: "entries_ok ?c" by (rule child_ok [OF Cons.prems(1)])
  have u: "entries_ok (upsert s (Object (insert_nested ?c s' ss v)) es)"
    using Cons.prems c by (simp add: entries_ok_upsert insert_nested_ok)
  obtain t ts where q: "q = t # ts" using Cons.prems(3) by (cases q) (auto simp: apart_def)
  show ?case
  proof (cases "t = s")
    case False
    then show ?thesis using Cons.prems(1) u by (simp add: q Let_def get_distinct map_of_upsert)
  next
    case True
    then have a: "apart (s' # ss) ts" using Cons.prems(3) q by (auto simp: apart_def)
    then have ts: "ts \<noteq> []" by (auto simp: apart_def)
    have "nav (Object ?c) ts = Option.bind (map_of es s) (\<lambda>x. nav x ts)"
    proof (cases ts)
      case (Cons a list)
      then show ?thesis by (cases "map_of es s") (auto simp: get_def find_key_def split: Value.split)
    qed (use ts in simp)
    then show ?thesis using Cons.IH [OF c Cons.prems(2) a] Cons.prems(1) u True
      by (simp add: q Let_def get_distinct map_of_upsert)
  qed
qed

section \<open>Layers\<close>

text \<open>The layers a builder can make itself have distinct keys.\<close>

lemma insert_path_ok: "entries_ok es \<Longrightarrow> keys_ok v \<Longrightarrow> entries_ok (insert_path es p v)"
  by (cases p) (auto simp: insert_nested_ok)

lemma foldl_ok: "entries_ok es \<Longrightarrow> (\<And>es x. entries_ok es \<Longrightarrow> entries_ok (f es x)) \<Longrightarrow> entries_ok (foldl f es xs)"
  by (induction xs arbitrary: es) auto

lemma arg_entries_ok: "entries_ok (arg_entries args)"
  unfolding arg_entries_def by (rule foldl_ok) (auto simp: insert_path_ok)

lemma parse_properties_ok: "keys_ok (parse_properties input)"
  unfolding parse_properties_def keys_ok_Object by (rule foldl_ok) (auto simp: Let_def insert_path_ok split: option.split)

lemma env_to_value_ok: "keys_ok (env_to_value lower pre vars)"
  unfolding env_to_value_def keys_ok_Object by (rule foldl_ok) (auto simp: insert_nested_ok split: option.split list.split)

lemma layers_ok: "keys_ok b \<Longrightarrow> list_all keys_ok ls \<Longrightarrow> keys_ok (foldl merge b ls)"
  by (induction ls arbitrary: b) (auto simp: merge_ok)

lemma nav_layers_through:
  "keys_ok b \<Longrightarrow> list_all keys_ok ls \<Longrightarrow> list_all (\<lambda>l. leaves_alone l p) ls \<Longrightarrow> nav (foldl merge b ls) p = nav b p"
  by (induction ls arbitrary: b) (auto simp: merge_ok nav_merge_through)

lemma nav_layers_origin:
  "keys_ok b \<Longrightarrow> list_all keys_ok ls \<Longrightarrow> nav (foldl merge b ls) p = Some v \<Longrightarrow> \<not> is_object v \<Longrightarrow>
     nav b p = Some v \<or> (\<exists>l \<in> set ls. nav l p = Some v)"
proof (induction ls arbitrary: b)
  case (Cons l ls)
  then show ?case using merge_ok(1) [of b l] nav_merge_origin [of b l p v] by auto
qed simp

lemma nav_empty: "nav builder_new p = Some v \<Longrightarrow> is_object v"
  by (cases p) (auto simp: builder_new_def get_def find_key_def)

section \<open>Flags\<close>

lemma arg_flags_append:
  assumes "prefix ''--'' a"
  shows "arg_flags (xs @ a # ys) = arg_flags xs @ arg_flags (a # ys)"
proof (induction xs rule: length_induct)
  case (1 xs)
  then have IH: "arg_flags (zs @ a # ys) = arg_flags zs @ arg_flags (a # ys)" if "length zs < length xs" for zs using that by blast
  show ?case
  proof (cases xs)
    case (Cons arg rest)
    have r: "arg_flags (rest @ a # ys) = arg_flags rest @ arg_flags (a # ys)" using IH Cons by simp
    have t: "arg_flags (tl rest @ a # ys) = arg_flags (tl rest) @ arg_flags (a # ys)" using IH Cons by simp
    show ?thesis
    proof (cases rest)
      case Nil
      then show ?thesis using Cons assms by (auto simp: arg_flags.simps(2) [of arg] simp del: arg_flags.simps(2) split: option.split)
    next
      case (Cons n rest')
      then show ?thesis using \<open>xs = arg # rest\<close> r t
        by (auto simp: arg_flags.simps(2) [of arg] simp del: arg_flags.simps(2) split: option.split)
    qed
  qed simp
qed

lemma arg_flags_set: "CHR ''='' \<notin> set k \<Longrightarrow> arg_flags ((''--'' @ k @ ''='' @ v) # ys) = (k, v) # arg_flags ys"
  by (simp add: strip_prefix_def split_once_Some [THEN iffD2])

definition flag_entries :: "'f entries \<Rightarrow> (string \<times> string) list \<Rightarrow> 'f entries" where
  "flag_entries es kvs = foldl (\<lambda>es (k, v). insert_path es (split_on (CHR ''.'') k) (Str v)) es kvs"

lemma flag_entries_ok: "entries_ok es \<Longrightarrow> entries_ok (flag_entries es kvs)"
  unfolding flag_entries_def by (rule foldl_ok) (auto simp: insert_path_ok)

text \<open>A flag with an empty segment is ignored; another one must not meet the path.\<close>

definition flag_apart :: "string list \<Rightarrow> string \<times> string \<Rightarrow> bool" where
  "flag_apart p kv \<longleftrightarrow> [] \<in> set (split_on (CHR ''.'') (fst kv)) \<or> apart (split_on (CHR ''.'') (fst kv)) p"

lemma nav_flags_apart:
  "entries_ok es \<Longrightarrow> list_all (flag_apart p) kvs \<Longrightarrow> nav (Object (flag_entries es kvs)) p = nav (Object es) p"
proof (induction kvs arbitrary: es)
  case (Cons kv kvs)
  obtain k v where kv: "kv = (k, v)" by (cases kv)
  obtain s ss where k: "split_on (CHR ''.'') k = s # ss" by (metis split_on_ne list.exhaust)
  have "nav (Object (insert_path es (s # ss) (Str v))) p = nav (Object es) p"
    using Cons.prems kv k nav_insert_apart [of es "Str v" s ss p] by (auto simp: flag_apart_def)
  then show ?case using Cons.IH [of "insert_path es (s # ss) (Str v)"] Cons.prems kv k insert_path_ok [of es "Str v" "s # ss"]
    by (simp add: flag_entries_def)
qed (simp add: flag_entries_def)

section \<open>Properties\<close>

text \<open>C37: A configuration built from layers none of whose objects has a key twice answers for a path what the last layer
  that says anything about it says: a leaf of one layer is the result whenever every later layer leaves the path alone; and
  a leaf that the configuration has is a leaf of one of its layers. (A file that repeats a key is outside of this:
  \<open>duplicate_key_defeats_override\<close>.)\<close>
theorem config_last_layer_wins:
  assumes "list_all keys_ok (before @ l # after)"
  shows "(\<forall>v. nav l p = Some v \<and> \<not> is_object v \<and> list_all (\<lambda>l'. leaves_alone l' p) after \<longrightarrow>
      nav (foldl merge builder_new (before @ l # after)) p = Some v) \<and>
    (\<forall>v. nav (foldl merge builder_new (before @ l # after)) p = Some v \<and> \<not> is_object v \<longrightarrow>
      (\<exists>l' \<in> set (before @ l # after). nav l' p = Some v))"
proof -
  have n: "keys_ok builder_new" by (simp add: builder_new_def)
  have b: "keys_ok (foldl merge builder_new before)" using assms layers_ok [OF n, of before] by simp
  have "nav (foldl merge builder_new (before @ l # after)) p = Some v"
    if "nav l p = Some v" "\<not> is_object v" "list_all (\<lambda>l'. leaves_alone l' p) after" for v
    using nav_layers_through [of "merge (foldl merge builder_new before) l" after p] nav_merge_leaf [OF b, of l p v] merge_ok(1) [OF b, of l]
      assms that by simp
  then show ?thesis using nav_layers_origin [OF n assms, of p] nav_empty [of p] by blast
qed

theorem config_last_layer_wins_witness:
  "nav (foldl merge builder_new ([Object [(''db'', Object [(''host'', Str ''a''), (''port'', IntV 1)])]] @ Object [(''db'', Object [(''host'', Str ''b'')])] #
     [Object [(''log'', Str ''x'')] :: unit Value])) [''db'', ''host''] = Some (Str ''b'')"
proof -
  let ?l = "Object [(''db'', Object [(''host'', Str ''b'')])] :: unit Value"
  have "nav ?l [''db'', ''host''] = Some (Str ''b'')" "leaves_alone (Object [(''log'', Str ''x'')] :: unit Value) [''db'', ''host'']"
    by code_simp+
  then show ?thesis
    using config_last_layer_wins [of "[Object [(''db'', Object [(''host'', Str ''a''), (''port'', IntV 1)])]]" ?l "[Object [(''log'', Str ''x'')]]" "[''db'', ''host'']"]
    by simp
qed

text \<open>A command-line flag \<^verbatim>\<open>--a.b.c=v\<close> is what the configuration gives for the key \<^verbatim>\<open>a.b.c\<close>, whatever the layers below, whatever
  stands before it on the command line, and whatever follows, as long as no later flag sets that path, a part of it
  or something under it.\<close>
theorem config_flag_found:
  fixes base :: "'f Value"
  assumes "keys_ok base" and "CHR ''='' \<notin> set k" and "[] \<notin> set (split_on (CHR ''.'') k)"
    and "list_all (flag_apart (split_on (CHR ''.'') k)) (arg_flags ys)"
  shows "navigate (merge_args (xs @ (''--'' @ k @ ''='' @ v) # ys) base) k = Some (Str v)"
proof -
  let ?p = "split_on (CHR ''.'') k"
  obtain s ss where p: "?p = s # ss" by (metis split_on_ne list.exhaust)
  have f: "filter (\<lambda>s. s \<noteq> []) ?p = ?p" using assms(3) by (auto intro: filter_True)
  let ?e0 = "flag_entries [] (arg_flags xs) :: 'f entries"
  have e0: "entries_ok ?e0" by (simp add: flag_entries_ok)
  have ok: "entries_ok (insert_path ?e0 ?p (Str v))" using e0 by (simp add: insert_path_ok)
  have "arg_entries (xs @ (''--'' @ k @ ''='' @ v) # ys) = flag_entries (insert_path ?e0 ?p (Str v)) (arg_flags ys)"
    using arg_flags_append [of "''--'' @ k @ ''='' @ v" xs ys] arg_flags_set [OF assms(2), of v ys]
    by (simp add: arg_entries_def flag_entries_def)
  then have "nav (Object (arg_entries (xs @ (''--'' @ k @ ''='' @ v) # ys))) ?p = nav (Object (insert_path ?e0 ?p (Str v))) ?p"
    using nav_flags_apart [OF ok assms(4)] by simp
  also have "\<dots> = Some (Str v)" using nav_insert [OF e0, of "Str v" s ss] assms(3) p by simp
  finally show ?thesis
    using nav_merge_leaf [OF assms(1), of "Object (arg_entries (xs @ (''--'' @ k @ ''='' @ v) # ys))" ?p "Str v"]
    by (simp add: merge_args_def navigate_def f arg_entries_ok)
qed

section \<open>Duplicate keys and case\<close>

text \<open>Merging writes the first entry of a key and reading takes the last, so an override of a key that a file has twice
  is lost.\<close>
lemma duplicate_key_defeats_override:
  "navigate (merge_args [''--port=3''] (Object [(''port'', IntV 1), (''port'', IntV 2)] :: unit Value)) ''port'' = Some (IntV 2)"
  by code_simp

text \<open>Variables are sorted by their names as they are and lower-cased afterwards, so a scalar can follow, and wipe out, the
  nested form it collides with.\<close>
lemma env_scalar_wipes_nested:
  "navigate (env_to_value to_ascii_lowercase ''APP_'' [(''APP_DB__HOST'', ''h''), (''APP_db'', ''x'')] :: unit Value) ''db.host'' = None"
  by code_simp

end
