(* ===== verification/Metrics.thy ===== *)
theory Metrics
  imports Rust_Str Rust_Coll Codec_Value "HOL-Library.Char_ord" "HOL-Library.List_Lexorder" "HOL-Library.Product_Lexorder"
begin

text \<open>
  The metrics registry, \<^verbatim>\<open>metrics/mod.rs\<close>: counters, gauges and histograms on atomics, shared through handles, and their text
  exposition. \<^verbatim>\<open>Histogram::observe\<close> is not atomic: it is modelled by its atomic steps, so that observations interleave. The
  type \<open>'f\<close> stands for the bit patterns of \<^verbatim>\<open>f64\<close>, with the operations used.
\<close>

text \<open>\<open>mo_whole v\<close> is \<^verbatim>\<open>v as i64\<close> when \<^verbatim>\<open>v == v.trunc() && v.abs() < 1e15\<close>.\<close>

record 'f metric_ops =
  mo_nan :: "'f \<Rightarrow> bool"
  mo_lt :: "'f \<Rightarrow> 'f \<Rightarrow> bool"
  mo_le :: "'f \<Rightarrow> 'f \<Rightarrow> bool"
  mo_add :: "'f \<Rightarrow> 'f \<Rightarrow> 'f"
  mo_zero :: 'f
  mo_of_u64 :: "u64 \<Rightarrow> 'f"
  mo_of_i64 :: "i64 \<Rightarrow> 'f"
  mo_infinite :: "'f \<Rightarrow> bool"
  mo_whole :: "'f \<Rightarrow> i64 option"
  mo_display :: "'f \<Rightarrow> string"

section \<open>Counters and gauges\<close>

definition counter_inc_by :: "u64 \<Rightarrow> u64 \<Rightarrow> u64" where
  "counter_inc_by n c = c + n"

definition counter_inc :: "u64 \<Rightarrow> u64" where
  "counter_inc c = counter_inc_by 1 c"

datatype gauge_op = GSet i64 | GInc | GDec | GAdd i64

fun gauge_do :: "gauge_op \<Rightarrow> i64 \<Rightarrow> i64" where
  "gauge_do (GSet n) g = n"
| "gauge_do GInc g = g + 1"
| "gauge_do GDec g = g - 1"
| "gauge_do (GAdd n) g = g + n"

section \<open>Histograms\<close>

record 'f Histogram =
  h_bounds :: "'f list"
  h_counts :: "u64 list"
  h_sum :: 'f
  h_count :: u64

definition hist_new :: "'f metric_ops \<Rightarrow> 'f list \<Rightarrow> 'f Histogram" where
  "hist_new F bs =
     (let bs = sort_by (\<lambda>a b. \<not> mo_lt F b a) (filter (\<lambda>b. \<not> mo_nan F b) bs)
      in \<lparr>h_bounds = bs, h_counts = replicate (length bs + 1) 0, h_sum = mo_zero F, h_count = 0\<rparr>)"

text \<open>\<^verbatim>\<open>bounds.iter().position(|&b| v <= b).unwrap_or(bounds.len())\<close>\<close>

fun bucket :: "'f metric_ops \<Rightarrow> 'f list \<Rightarrow> 'f \<Rightarrow> nat" where
  "bucket F [] v = 0"
| "bucket F (b # bs) v = (if mo_le F v b then 0 else Suc (bucket F bs v))"

text \<open>Where a thread is in \<^verbatim>\<open>observe(v)\<close>: before it, after the bucket, after the count, in the loop with the sum it last saw, done.\<close>

datatype 'f observing = Enter 'f | Placed 'f | Tallied 'f | Seen 'f 'f | Observed 'f

text \<open>One atomic operation of one thread; \<open>spurious\<close> is a weak compare-and-swap that fails for no reason.\<close>

fun observe_step :: "'f metric_ops \<Rightarrow> bool \<Rightarrow> 'f observing \<Rightarrow> 'f Histogram \<Rightarrow> 'f observing \<times> 'f Histogram" where
  "observe_step F spurious (Enter v) h =
     (let i = bucket F (h_bounds h) v in (Placed v, h\<lparr>h_counts := (h_counts h)[i := h_counts h ! i + 1]\<rparr>))"
| "observe_step F spurious (Placed v) h = (Tallied v, h\<lparr>h_count := h_count h + 1\<rparr>)"
| "observe_step F spurious (Tallied v) h = (Seen v (h_sum h), h)"
| "observe_step F spurious (Seen v cur) h =
     (if h_sum h = cur \<and> \<not> spurious then (Observed v, h\<lparr>h_sum := mo_add F cur v\<rparr>) else (Seen v (h_sum h), h))"
| "observe_step F spurious (Observed v) h = (Observed v, h)"

text \<open>Threads observing one histogram; an operation names the thread that moves.\<close>

definition observe_run :: "'f metric_ops \<Rightarrow> 'f Histogram \<times> 'f observing list \<Rightarrow> nat \<times> bool \<Rightarrow> 'f Histogram \<times> 'f observing list" where
  "observe_run F s x = (case (s, x) of ((h, ts), (i, spurious)) \<Rightarrow>
     if i < length ts then (case observe_step F spurious (ts ! i) h of (t, h') \<Rightarrow> (h', ts[i := t])) else (h, ts))"

text \<open>The running total of \<^verbatim>\<open>encode\<close> over the buckets.\<close>

fun cumulate :: "u64 \<Rightarrow> u64 list \<Rightarrow> u64 list" where
  "cumulate acc [] = []"
| "cumulate acc (c # cs) = (acc + c) # cumulate (acc + c) cs"

section \<open>The registry\<close>

text \<open>Instruments are shared by reference: the registry maps a name and a label set to a position in the store.\<close>

datatype 'f Instrument = CounterI u64 | GaugeI i64 | HistogramI "'f Histogram"

fun type_str :: "'f Instrument \<Rightarrow> string" where
  "type_str (CounterI c) = ''counter''"
| "type_str (GaugeI g) = ''gauge''"
| "type_str (HistogramI h) = ''histogram''"

type_synonym labels = "(string \<times> string) list"

record Family =
  fam_help :: string
  fam_series :: "(labels \<times> nat) list"

record 'f Metrics =
  families :: "(string \<times> Family) list"
  store :: "'f Instrument list"

definition metrics_new :: "'f Metrics" where
  "metrics_new = \<lparr>families = [], store = []\<rparr>"

definition sorted_labels :: "labels \<Rightarrow> labels" where
  "sorted_labels ls = sort ls"

definition family_of :: "'f Metrics \<Rightarrow> string \<Rightarrow> string \<Rightarrow> Family" where
  "family_of M nm help = (case map_of (families M) nm of Some fam \<Rightarrow> fam | None \<Rightarrow> \<lparr>fam_help = help, fam_series = []\<rparr>)"

text \<open>\<^verbatim>\<open>counter\<close>, \<^verbatim>\<open>gauge\<close> and \<^verbatim>\<open>histogram\<close>: the series is created on first use; an instrument of another kind under the
  same labels is left alone and a detached handle returned.\<close>

definition instrument :: "'f Instrument \<Rightarrow> string \<Rightarrow> string \<Rightarrow> labels \<Rightarrow> 'f Metrics \<Rightarrow> nat \<times> 'f Metrics" where
  "instrument fresh nm help ls M =
     (let fam = family_of M nm help; key = sorted_labels ls; new = length (store M)
      in case map_of (fam_series fam) key of
           None \<Rightarrow>
             (new, M\<lparr>families := bt_insert nm (fam\<lparr>fam_series := bt_insert key new (fam_series fam)\<rparr>) (families M),
                     store := store M @ [fresh]\<rparr>)
         | Some i \<Rightarrow>
             let M = M\<lparr>families := bt_insert nm fam (families M)\<rparr>
             in if type_str (store M ! i) = type_str fresh then (i, M) else (new, M\<lparr>store := store M @ [fresh]\<rparr>))"

definition counter :: "string \<Rightarrow> string \<Rightarrow> labels \<Rightarrow> 'f Metrics \<Rightarrow> nat \<times> 'f Metrics" where
  "counter = instrument (CounterI 0)"

definition gauge :: "string \<Rightarrow> string \<Rightarrow> labels \<Rightarrow> 'f Metrics \<Rightarrow> nat \<times> 'f Metrics" where
  "gauge = instrument (GaugeI 0)"

definition histogram :: "'f metric_ops \<Rightarrow> 'f list \<Rightarrow> string \<Rightarrow> string \<Rightarrow> labels \<Rightarrow> 'f Metrics \<Rightarrow> nat \<times> 'f Metrics" where
  "histogram F bs = instrument (HistogramI (hist_new F bs))"

text \<open>An operation through a handle.\<close>

definition inc_handle :: "nat \<Rightarrow> u64 \<Rightarrow> 'f Metrics \<Rightarrow> 'f Metrics" where
  "inc_handle i n M = (case store M ! i of
     CounterI c \<Rightarrow> M\<lparr>store := (store M)[i := CounterI (counter_inc_by n c)]\<rparr>
   | _ \<Rightarrow> M)"

section \<open>Exposition\<close>

definition replace_char :: "char \<Rightarrow> string \<Rightarrow> string \<Rightarrow> string" where
  "replace_char c t s = concat (map (\<lambda>x. if x = c then t else [x]) s)"

definition escape_label :: "string \<Rightarrow> string" where
  "escape_label v = replace_char (CHR 0x0A) [CHR 0x5C, CHR ''n''] (replace_char (CHR 0x22) [CHR 0x5C, CHR 0x22]
     (replace_char (CHR 0x5C) [CHR 0x5C, CHR 0x5C] v))"

definition escape_help :: "string \<Rightarrow> string" where
  "escape_help v = replace_char (CHR 0x0A) [CHR 0x5C, CHR ''n''] (replace_char (CHR 0x5C) [CHR 0x5C, CHR 0x5C] v)"

definition format_f64 :: "'f metric_ops \<Rightarrow> 'f \<Rightarrow> string" where
  "format_f64 F v =
     (if mo_infinite F v then (if mo_lt F (mo_zero F) v then ''+Inf'' else ''-Inf'')
      else case mo_whole F v of Some i \<Rightarrow> write_i64 [] i | None \<Rightarrow> mo_display F v)"

fun join_comma :: "string list \<Rightarrow> string" where
  "join_comma [] = []"
| "join_comma [x] = x"
| "join_comma (x # y # ys) = x @ '','' @ join_comma (y # ys)"

definition sample_line :: "'f metric_ops \<Rightarrow> string \<Rightarrow> labels \<Rightarrow> labels \<Rightarrow> 'f \<Rightarrow> string" where
  "sample_line F nm base extra v =
     (let parts = map (\<lambda>(k, l). k @ ''='' @ [CHR 0x22] @ escape_label l @ [CHR 0x22]) (base @ extra)
      in if parts = [] then nm @ '' '' @ format_f64 F v @ [CHR 0x0A]
         else nm @ ''{'' @ join_comma parts @ ''} '' @ format_f64 F v @ [CHR 0x0A])"

definition hist_lines :: "'f metric_ops \<Rightarrow> string \<Rightarrow> labels \<Rightarrow> 'f Histogram \<Rightarrow> string" where
  "hist_lines F nm ls h =
     concat (map (\<lambda>(le, c). sample_line F (nm @ ''_bucket'') ls [(''le'', le)] (mo_of_u64 F c))
       (zip (map (format_f64 F) (h_bounds h) @ [''+Inf'']) (cumulate 0 (h_counts h)))) @
     sample_line F (nm @ ''_sum'') ls [] (h_sum h) @ sample_line F (nm @ ''_count'') ls [] (mo_of_u64 F (h_count h))"

definition series_lines :: "'f metric_ops \<Rightarrow> string \<Rightarrow> labels \<times> 'f Instrument \<Rightarrow> string" where
  "series_lines F nm x = (case x of (ls, inst) \<Rightarrow> (case inst of
     CounterI c \<Rightarrow> sample_line F nm ls [] (mo_of_u64 F c)
   | GaugeI g \<Rightarrow> sample_line F nm ls [] (mo_of_i64 F g)
   | HistogramI h \<Rightarrow> hist_lines F nm ls h))"

definition encode_metrics :: "'f metric_ops \<Rightarrow> 'f Metrics \<Rightarrow> string" where
  "encode_metrics F M = concat (map (\<lambda>(nm, fam).
       let kind = (case fam_series fam of [] \<Rightarrow> ''untyped'' | (_, i) # _ \<Rightarrow> type_str (store M ! i))
       in ''# HELP '' @ nm @ '' '' @ escape_help (fam_help fam) @ [CHR 0x0A] @
          ''# TYPE '' @ nm @ '' '' @ kind @ [CHR 0x0A] @
          concat (map (\<lambda>(ls, i). series_lines F nm (ls, store M ! i)) (fam_series fam)))
     (families M))"

section \<open>Concurrent observations\<close>

fun value_of :: "'f observing \<Rightarrow> 'f" where
  "value_of (Enter v) = v"
| "value_of (Placed v) = v"
| "value_of (Tallied v) = v"
| "value_of (Seen v cur) = v"
| "value_of (Observed v) = v"

fun placed :: "'f observing \<Rightarrow> bool" where
  "placed (Enter v) = False"
| "placed _ = True"

fun tallied :: "'f observing \<Rightarrow> bool" where
  "tallied (Enter v) = False"
| "tallied (Placed v) = False"
| "tallied _ = True"

fun observed :: "'f observing \<Rightarrow> bool" where
  "observed (Observed v) = True"
| "observed _ = False"

text \<open>What the histogram holds while threads are at work: each bucket counts the threads that placed a value in it, the count those
  that tallied, and the sum is that of the finished values in some order.\<close>

definition hist_inv :: "'f metric_ops \<Rightarrow> 'f list \<Rightarrow> 'f list \<Rightarrow> 'f Histogram \<times> 'f observing list \<Rightarrow> bool" where
  "hist_inv F bs vs s \<longleftrightarrow> (case s of (h, ts) \<Rightarrow>
     map value_of ts = vs \<and> h_bounds h = bs \<and> length (h_counts h) = Suc (length bs) \<and>
     (\<forall>i \<le> length bs. h_counts h ! i = of_nat (length (filter (\<lambda>t. placed t \<and> bucket F bs (value_of t) = i) ts))) \<and>
     h_count h = of_nat (length (filter tallied ts)) \<and>
     (\<exists>order. mset order = mset (map value_of (filter observed ts)) \<and> h_sum h = foldl (mo_add F) (mo_zero F) order))"

lemma bucket_le: "bucket F bs v \<le> length bs"
  by (induction bs) auto

lemma mset_filter_update:
  assumes "i < length ts"
  obtains R where "filter_mset P (mset ts) = (if P (ts ! i) then {#ts ! i#} else {#}) + R"
    and "\<And>t. filter_mset P (mset (ts[i := t])) = (if P t then {#t#} else {#}) + R"
proof (rule that)
  let ?R = "filter_mset P (mset (take i ts @ drop (Suc i) ts))"
  show u: "filter_mset P (mset (ts[i := t])) = (if P t then {#t#} else {#}) + ?R" for t
    using assms by (simp add: upd_conv_take_nth_drop)
  show "filter_mset P (mset ts) = (if P (ts ! i) then {#ts ! i#} else {#}) + ?R"
    using u [of "ts ! i"] by simp
qed

lemma length_filter_mset: "length (filter P xs) = size (filter_mset P (mset xs))"
  by (metis mset_filter size_mset)

lemma length_filter_update:
  assumes "i < length ts"
  shows "length (filter P (ts[i := t])) + (if P (ts ! i) then 1 else 0) = length (filter P ts) + (if P t then 1 else 0)"
  by (rule mset_filter_update [OF assms, of P]) (simp add: length_filter_mset)

lemma observe_inv:
  assumes "hist_inv F bs vs (h, ts)" and i: "i < length ts"
    and t: "observe_step F spurious (ts ! i) h = (t, h')"
  shows "hist_inv F bs vs (h', ts[i := t])"
proof -
  have inv: "map value_of ts = vs" "h_bounds h = bs" "length (h_counts h) = Suc (length bs)"
    "\<And>j. j \<le> length bs \<Longrightarrow> h_counts h ! j = of_nat (length (filter (\<lambda>t. placed t \<and> bucket F bs (value_of t) = j) ts))"
    "h_count h = of_nat (length (filter tallied ts))"
    using assms(1) by (auto simp: hist_inv_def)
  obtain order where ord: "mset order = image_mset value_of (filter_mset observed (mset ts))" "h_sum h = foldl (mo_add F) (mo_zero F) order"
    using assms(1) by (auto simp: hist_inv_def)
  have v: "value_of t = value_of (ts ! i)" using t by (cases "ts ! i") (auto simp: Let_def split: if_splits)
  have vals: "map value_of (ts[i := t]) = vs" using inv(1) v by (metis map_update list_update_id nth_map i)
  have mono: "placed (ts ! i) \<Longrightarrow> placed t" "tallied (ts ! i) \<Longrightarrow> tallied t"
    using t by (cases "ts ! i"; auto simp: Let_def split: if_splits)+
  have placed_upd: "length (filter (\<lambda>t. placed t \<and> bucket F bs (value_of t) = j) (ts[i := t])) =
      length (filter (\<lambda>t. placed t \<and> bucket F bs (value_of t) = j) ts) + (if placed t \<and> \<not> placed (ts ! i) \<and> bucket F bs (value_of t) = j then 1 else 0)" for j
    using length_filter_update [OF i, of "\<lambda>t. placed t \<and> bucket F bs (value_of t) = j" t] v mono(1)
    by (auto split: if_splits)
  have tallied_upd: "length (filter tallied (ts[i := t])) = length (filter tallied ts) + (if tallied t \<and> \<not> tallied (ts ! i) then 1 else 0)"
    using length_filter_update [OF i, of tallied t] mono(2) by (auto split: if_splits)
  obtain R where R: "filter_mset observed (mset ts) = (if observed (ts ! i) then {#ts ! i#} else {#}) + R"
    "\<And>t. filter_mset observed (mset (ts[i := t])) = (if observed t then {#t#} else {#}) + R"
    by (rule mset_filter_update [OF i, of observed]) blast
  have sum: "\<exists>order. mset order = image_mset value_of (filter_mset observed (mset (ts[i := t]))) \<and> h_sum h' = foldl (mo_add F) (mo_zero F) order"
  proof (cases "observed t \<and> \<not> observed (ts ! i)")
    case True
    then obtain w where w: "t = Observed w" "h_sum h' = mo_add F (h_sum h) w"
      using t by (cases "ts ! i") (auto simp: Let_def split: if_splits)
    then show ?thesis using ord R True by (intro exI [of _ "order @ [w]"]) simp
  next
    case False
    then have "h_sum h' = h_sum h" "observed t = observed (ts ! i)" "observed t \<Longrightarrow> t = ts ! i"
      using t by (cases "ts ! i"; auto simp: Let_def split: if_splits)+
    then show ?thesis using ord R by (intro exI [of _ order]) auto
  qed
  have "h_counts h' ! j = h_counts h ! j + (if placed t \<and> \<not> placed (ts ! i) \<and> bucket F bs (value_of t) = j then 1 else 0)"
    if "j \<le> length bs" for j
    using t that inv(2,3) by (cases "ts ! i") (auto simp: Let_def nth_list_update split: if_splits)
  moreover have "h_bounds h' = bs" "length (h_counts h') = Suc (length bs)"
    "h_count h' = h_count h + (if tallied t \<and> \<not> tallied (ts ! i) then 1 else 0)"
    using t inv(2,3) by (cases "ts ! i"; auto simp: Let_def split: if_splits)+
  ultimately show ?thesis
    using vals inv placed_upd tallied_upd sum by (auto simp: hist_inv_def simp flip: mset_filter mset_map)
qed

interpretation hist: state_machine "\<lambda>s. s = (hist_new F bounds, map Enter vs)" "observe_run F"
  "hist_inv F (h_bounds (hist_new F bounds)) vs" for F bounds vs
proof unfold_locales
  show "hist_inv F (h_bounds (hist_new F bounds)) vs s" if "s = (hist_new F bounds, map Enter vs)" for s
  proof -
    have "filter observed (map Enter vs) = []" "filter placed (map Enter vs) = []" "filter tallied (map Enter vs) = []"
      by (auto simp: filter_empty_conv)
    then show ?thesis using that
      by (auto simp: hist_inv_def hist_new_def Let_def filter_empty_conv comp_def simp del: replicate_Suc intro!: exI [of _ "[]"])
  qed
  show "hist_inv F (h_bounds (hist_new F bounds)) vs (observe_run F s x)" if "hist_inv F (h_bounds (hist_new F bounds)) vs s" for s x
    using that observe_inv [of F "h_bounds (hist_new F bounds)" vs "fst s" "snd s" "fst x" "snd x"]
    by (auto simp: observe_run_def split: prod.splits)
qed

text \<open>The order of floating-point numbers away from NaN.\<close>

definition float_order :: "'f metric_ops \<Rightarrow> bool" where
  "float_order F \<longleftrightarrow> (\<forall>a b. \<not> mo_nan F a \<longrightarrow> \<not> mo_nan F b \<longrightarrow> (\<not> mo_lt F b a) = mo_le F a b \<and> (mo_le F a b \<or> mo_le F b a)) \<and>
     (\<forall>a b c. mo_le F a b \<longrightarrow> mo_le F b c \<longrightarrow> mo_le F a c)"

lemma hist_bounds_sorted:
  assumes "float_order F"
  shows "sorted_wrt (mo_le F) (h_bounds (hist_new F bounds))"
proof -
  let ?xs = "filter (\<lambda>b. \<not> mo_nan F b) bounds" and ?le = "\<lambda>a b. \<not> mo_lt F b a"
  let ?S = "{x. \<not> mo_nan F x}"
  have le: "?le a b = mo_le F a b" if "a \<in> ?S" "b \<in> ?S" for a b
    using assms that by (simp add: float_order_def)
  have total: "?le a b \<or> ?le b a" if "a \<in> ?S" "b \<in> ?S" for a b
    using assms that unfolding float_order_def by blast
  have trans: "?le a c" if "a \<in> ?S" "b \<in> ?S" "c \<in> ?S" "?le a b" "?le b c" for a b c
    using assms that le unfolding float_order_def by blast
  have "sorted_wrt ?le (sort_by ?le ?xs)" by (rule sorted_sort_by_on [of ?S, OF total trans]) auto
  moreover have "set (sort_by ?le ?xs) \<subseteq> ?S" 
  proof -
    have "set (sort_by ?le ?xs) = set ?xs" by (metis mset_sort_by set_mset_mset)
    then show ?thesis by auto
  qed
  ultimately have "sorted_wrt (mo_le F) (sort_by ?le ?xs)"
    using le by (auto intro!: sorted_wrt_mono_rel [of "sort_by ?le ?xs" ?le "mo_le F"])
  then show ?thesis by (simp add: hist_new_def Let_def)
qed

lemma bucket_iff:
  assumes "float_order F" and "sorted_wrt (mo_le F) bs" and "i < length bs"
  shows "bucket F bs v \<le> i \<longleftrightarrow> mo_le F v (bs ! i)"
  using assms(2,3)
proof (induction bs arbitrary: i)
  case (Cons b bs)
  have "mo_le F v (bs ! j)" if "mo_le F v b" "j < length bs" for j
    using Cons.prems(1) that assms(1) unfolding float_order_def by (metis nth_mem sorted_wrt.simps(2))
  then show ?case using Cons by (cases i) auto
qed simp

lemma cumulate_eq: "cumulate acc cs = map (\<lambda>i. acc + sum_list (take (Suc i) cs)) [0..<length cs]"
proof (induction cs arbitrary: acc)
  case (Cons c cs)
  then show ?case by (simp add: map_upt_Suc add.assoc del: upt_Suc)
qed simp

lemma sum_buckets:
  assumes "length cs = Suc n" and "\<And>i. i \<le> n \<Longrightarrow> cs ! i = of_nat (length (filter (\<lambda>v. f v = i) vs))"
  shows "i \<le> n \<Longrightarrow> sum_list (take (Suc i) cs) = (of_nat (length (filter (\<lambda>v. f v \<le> i) vs)) :: u64)"
proof (induction i)
  case 0
  then show ?case using assms(1) assms(2) [of 0] by (cases cs) auto
next
  case (Suc i)
  have "length (filter (\<lambda>v. f v \<le> Suc i) vs) = length (filter (\<lambda>v. f v \<le> i) vs) + length (filter (\<lambda>v. f v = Suc i) vs)"
    by (induction vs) auto
  then show ?case using Suc assms by (simp add: take_Suc_conv_app_nth)
qed

lemma filter_map_length: "length (filter P (map f xs)) = length (filter (P \<circ> f) xs)"
  by (simp add: filter_map)

lemma observe_alone:
  assumes "i < length ts"
  shows "observed (snd (run (observe_run F) (h, ts) (replicate 4 (i, False))) ! i)"
  using assms by (cases "ts ! i") (simp_all add: observe_run_def numeral_eq_Suc Let_def)

text \<open>The state once every thread is done.\<close>

lemma hist_quiescent:
  assumes "hist_inv F bs vs (h, ts)" and "list_all observed ts"
  shows "h_count h = of_nat (length vs)" "\<exists>order. mset order = mset vs \<and> h_sum h = foldl (mo_add F) (mo_zero F) order"
    "length (h_counts h) = Suc (length bs)"
    "\<And>i. i \<le> length bs \<Longrightarrow> h_counts h ! i = of_nat (length (filter (\<lambda>v. bucket F bs v = i) vs))"
proof -
  have "placed t" "tallied t" if "observed t" for t :: "'a observing" using that by (cases t; simp)+
  then have fs: "filter (\<lambda>t. placed t \<and> bucket F bs (value_of t) = i) ts = filter (\<lambda>t. bucket F bs (value_of t) = i) ts"
    "filter tallied ts = ts" "filter observed ts = ts" for i
    using assms(2) by (auto simp: list_all_iff intro: filter_cong)
  have vs: "map value_of ts = vs" "length ts = length vs" using assms(1) by (auto simp: hist_inv_def)
  show "h_count h = of_nat (length vs)" using assms(1) fs(2) vs(2) by (simp add: hist_inv_def)
  show "\<exists>order. mset order = mset vs \<and> h_sum h = foldl (mo_add F) (mo_zero F) order"
    using assms(1) unfolding hist_inv_def prod.case fs(3) vs(1) by blast
  show "length (h_counts h) = Suc (length bs)" using assms(1) by (simp add: hist_inv_def)
  show "h_counts h ! i = of_nat (length (filter (\<lambda>v. bucket F bs v = i) vs))" if "i \<le> length bs" for i
    using assms(1) that fs(1) [of i] filter_map_length [of "\<lambda>v. bucket F bs v = i" value_of ts] vs(1) by (simp add: hist_inv_def comp_def)
qed

lemma cumulate_buckets:
  assumes "float_order F" and "sorted_wrt (mo_le F) bs" and "length cs = Suc (length bs)"
    and "\<And>i. i \<le> length bs \<Longrightarrow> cs ! i = of_nat (length (filter (\<lambda>v. bucket F bs v = i) vs))"
  shows "cumulate 0 cs = map (\<lambda>b. of_nat (length (filter (\<lambda>v. mo_le F v b) vs))) bs @ [of_nat (length vs)]"
proof (rule nth_equalityI)
  fix i assume "i < length (cumulate 0 cs)"
  then have i: "i < length cs" "i \<le> length bs" using assms(3) by (simp_all add: cumulate_eq)
  have "cumulate 0 cs ! i = of_nat (length (filter (\<lambda>v. bucket F bs v \<le> i) vs))"
    using i sum_buckets [OF assms(3,4) i(2)] by (simp add: cumulate_eq del: upt_Suc)
  moreover have "filter (\<lambda>v. bucket F bs v \<le> i) vs = (if i = length bs then vs else filter (\<lambda>v. mo_le F v (bs ! i)) vs)"
    using i(2) bucket_iff [OF assms(1,2), of i] by (auto simp: bucket_le)
  ultimately show "cumulate 0 cs ! i = (map (\<lambda>b. of_nat (length (filter (\<lambda>v. mo_le F v b) vs))) bs @ [of_nat (length vs)]) ! i"
    using i(2) by (simp add: nth_append)
qed (simp add: cumulate_eq assms(3))

text \<open>C38: However observations of one histogram interleave, spurious failures of the compare-and-swap included, no update is lost: once
  every thread is done the count is their number, the sum is that of their values in some order, and the exposed
  cumulative buckets count exactly the values at or below each bound. A thread that runs alone is done within four steps.\<close>
theorem histogram_exact:
  assumes "float_order F" and "run (observe_run F) (hist_new F bounds, map Enter vs) sched = (h, ts)"
  shows "(list_all observed ts \<longrightarrow>
      h_count h = of_nat (length vs) \<and>
      (\<exists>order. mset order = mset vs \<and> h_sum h = foldl (mo_add F) (mo_zero F) order) \<and>
      cumulate 0 (h_counts h) = map (\<lambda>b. of_nat (length (filter (\<lambda>v. mo_le F v b) vs))) (h_bounds h) @ [of_nat (length vs)]) \<and>
    (\<forall>i < length vs. observed (snd (run (observe_run F) (h, ts) (replicate 4 (i, False))) ! i))"
proof -
  let ?bs = "h_bounds (hist_new F bounds)"
  have inv: "hist_inv F ?bs vs (h, ts)" using hist.reachable_inv [of "(hist_new F bounds, map Enter vs)"] assms(2) by metis
  then have len: "length ts = length vs" and bs: "h_bounds h = ?bs" by (auto simp: hist_inv_def)
  have "cumulate 0 (h_counts h) = map (\<lambda>b. of_nat (length (filter (\<lambda>v. mo_le F v b) vs))) ?bs @ [of_nat (length vs)]" if "list_all observed ts"
    by (rule cumulate_buckets [OF assms(1) hist_bounds_sorted [OF assms(1)] hist_quiescent(3,4) [OF inv that]])
  then show ?thesis using observe_alone [of _ ts F h] hist_quiescent(1,2) [OF inv] len bs by simp
qed

definition int_metrics :: "int metric_ops" where
  "int_metrics = \<lparr>mo_nan = (\<lambda>_. False), mo_lt = (<), mo_le = (\<le>), mo_add = (+), mo_zero = 0, mo_of_u64 = uint, mo_of_i64 = sint,
     mo_infinite = (\<lambda>_. False), mo_whole = (\<lambda>v. Some (word_of_int v)), mo_display = (\<lambda>_. [])\<rparr>"

theorem histogram_exact_witness:
  "let s = run (observe_run int_metrics) (hist_new int_metrics [10, 5], map Enter [3, 7, 99])
       [(0, False), (1, False), (0, False), (1, False), (0, False), (1, False), (1, False), (0, False), (0, False), (0, False),
        (2, False), (2, False), (2, False), (2, True), (2, False)]
   in list_all observed (snd s) \<and> h_count (fst s) = 3 \<and> cumulate 0 (h_counts (fst s)) = [1, 2, 3]"
proof -
  let ?sched = "[(0, False), (1, False), (0, False), (1, False), (0, False), (1, False), (1, False), (0, False), (0, False), (0, False),
    (2, False), (2, False), (2, False), (2, True), (2, False)]"
  obtain h ts where s: "run (observe_run int_metrics) (hist_new int_metrics [10, 5], map Enter [3, 7, 99]) ?sched = (h, ts)" by fastforce
  have o: "float_order int_metrics" by (auto simp: float_order_def int_metrics_def)
  have "list_all observed (snd (run (observe_run int_metrics) (hist_new int_metrics [10, 5], map Enter [3, 7, 99]) ?sched))"
    "h_bounds (fst (run (observe_run int_metrics) (hist_new int_metrics [10, 5], map Enter [3, 7, 99]) ?sched)) = [5, 10]"
    by code_simp+
  then show ?thesis using histogram_exact [OF o s] unfolding s Let_def by (simp add: int_metrics_def)
qed

section \<open>Handles\<close>

datatype 'f metric_op = Instrument "'f Instrument" string string labels | Inc nat u64

fun metric_do :: "'f Metrics \<Rightarrow> 'f metric_op \<Rightarrow> 'f Metrics" where
  "metric_do M (Instrument fresh nm help ls) = snd (instrument fresh nm help ls M)"
| "metric_do M (Inc i n) = (if i < length (store M) then inc_handle i n M else M)"

text \<open>The series of a name and labels is instrument \<open>i\<close>.\<close>

definition series_at :: "'f Metrics \<Rightarrow> string \<Rightarrow> labels \<Rightarrow> nat \<Rightarrow> bool" where
  "series_at M nm key i \<longleftrightarrow> i < length (store M) \<and> (\<exists>fam. map_of (families M) nm = Some fam \<and> map_of (fam_series fam) key = Some i)"

lemma series_at_do: "series_at M nm key i \<Longrightarrow> series_at (metric_do M x) nm key i"
proof (cases x)
  case (Instrument fresh nm' h ls)
  assume "series_at M nm key i"
  then show ?thesis using Instrument
    by (auto simp: series_at_def instrument_def Let_def family_of_def map_of_bt_insert split: option.splits if_splits)
next
  case (Inc j n)
  assume "series_at M nm key i"
  then show ?thesis using Inc by (auto simp: series_at_def inc_handle_def split: Instrument.split)
qed

fun added_to :: "nat \<Rightarrow> 'f metric_op list \<Rightarrow> u64" where
  "added_to i [] = 0"
| "added_to i (Inc j n # xs) = (if j = i then n else 0) + added_to i xs"
| "added_to i (_ # xs) = added_to i xs"

lemma counter_do:
  assumes "i < length (store M)" and "store M ! i = CounterI c"
  shows "i < length (store (metric_do M x)) \<and> store (metric_do M x) ! i = CounterI (c + added_to i [x])"
proof (cases x)
  case (Instrument fresh nm' h ls)
  then show ?thesis using assms by (auto simp: instrument_def Let_def nth_append split: option.splits)
next
  case (Inc j n)
  then show ?thesis using assms by (auto simp: inc_handle_def counter_inc_by_def nth_list_update split: Instrument.split)
qed

lemma counter_run:
  "i < length (store M) \<Longrightarrow> store M ! i = CounterI c \<Longrightarrow>
     i < length (store (run metric_do M xs)) \<and> store (run metric_do M xs) ! i = CounterI (c + added_to i xs)"
proof (induction xs arbitrary: M c)
  case (Cons x xs)
  have "added_to i (x # xs) = added_to i [x] + added_to i xs" by (cases x) auto
  then show ?case using Cons.IH [of "metric_do M x" "c + added_to i [x]"] counter_do [OF Cons.prems, of x] by (simp add: add.assoc)
qed simp

lemma series_run: "series_at M nm key i \<Longrightarrow> series_at (run metric_do M xs) nm key i"
  by (induction xs arbitrary: M) (simp_all add: series_at_do)

text \<open>A counter that was created for a name and labels stays the one series of that name and those labels, in whatever order they are
  given: after any sequence of registrations and increments asking for it returns the same handle, and it holds
  exactly the sum (modulo 64 bits) of what was added through that handle.\<close>
theorem counter_shared:
  assumes "map_of (fam_series (family_of M nm help)) (sorted_labels ls) = None"
    and "counter nm help ls M = (i, M1)" and "mset ls' = mset ls"
  shows "fst (counter nm help' ls' (run metric_do M1 xs)) = i \<and> store (run metric_do M1 xs) ! i = CounterI (added_to i xs)"
proof -
  have i: "i < length (store M1)" "store M1 ! i = CounterI 0" and s: "series_at M1 nm (sorted_labels ls) i"
    using assms(1,2) by (auto simp: counter_def instrument_def Let_def series_at_def map_of_bt_insert)
  have c: "store (run metric_do M1 xs) ! i = CounterI (added_to i xs)" using counter_run [OF i, of xs] by simp
  have "sorted_labels ls' = sorted_labels ls" using assms(3) by (metis sorted_labels_def sorted_list_of_multiset_mset)
  then show ?thesis using series_run [OF s, of xs] c
    by (auto simp: counter_def instrument_def Let_def series_at_def family_of_def)
qed

text \<open>The kind of a family is that of its first series; a second label set may register another kind under the same name, and
  the exposition then shows a gauge under the type \<^verbatim>\<open>counter\<close>.\<close>
lemma kinds_mix:
  "let M = snd (gauge ''x'' ''h'' [(''a'', ''2'')] (snd (counter ''x'' ''h'' [(''a'', ''1'')] (metrics_new :: unit Metrics))))
   in map type_str (store M) = [''counter'', ''gauge''] \<and> map (length \<circ> fam_series \<circ> snd) (families M) = [2]"
  by code_simp

end
