(* ===== verification/Health.thy ===== *)
theory Health
  imports Codec_Json_Correct
begin

text \<open>
  Health checks, \<^verbatim>\<open>lifecycle/health.rs\<close>: a registry of named checks, its aggregate, and the report it renders as JSON with an
  escaper of its own. The report is shown to be what the JSON reader of \<open>Codec_Json\<close> reads back.
\<close>

section \<open>The registry\<close>

datatype HealthStatus = Up | Degraded | Down

fun status_str :: "HealthStatus \<Rightarrow> string" where
  "status_str Up = ''up''"
| "status_str Degraded = ''degraded''"
| "status_str Down = ''down''"

text \<open>A check reads, and may change, the world.\<close>

type_synonym 'w check = "'w \<Rightarrow> HealthStatus \<times> 'w"
type_synonym 'w health_registry = "(string \<times> 'w check) list"
type_synonym health_report = "(string \<times> HealthStatus) list"

definition register_check :: "string \<Rightarrow> 'w check \<Rightarrow> 'w health_registry \<Rightarrow> 'w health_registry" where
  "register_check nm ck reg = reg @ [(nm, ck)]"

fun run_checks :: "'w health_registry \<Rightarrow> 'w \<Rightarrow> health_report \<times> 'w" where
  "run_checks [] w = ([], w)"
| "run_checks ((nm, ck) # reg) w = (case ck w of (st, w1) \<Rightarrow> (case run_checks reg w1 of (rs, w2) \<Rightarrow> ((nm, st) # rs, w2)))"

text \<open>The loop of \<^verbatim>\<open>overall\<close>, which returns at the first check that is down.\<close>

fun worst_of :: "HealthStatus \<Rightarrow> health_report \<Rightarrow> HealthStatus" where
  "worst_of worst [] = worst"
| "worst_of worst ((nm, st) # rs) = (case st of
     Down \<Rightarrow> Down
   | Degraded \<Rightarrow> worst_of Degraded rs
   | Up \<Rightarrow> worst_of worst rs)"

definition overall :: "'w health_registry \<Rightarrow> 'w \<Rightarrow> HealthStatus \<times> 'w" where
  "overall reg w = (case run_checks reg w of (rs, w') \<Rightarrow> (worst_of Up rs, w'))"

definition is_ready :: "'w health_registry \<Rightarrow> 'w \<Rightarrow> bool \<times> 'w" where
  "is_ready reg w = (case run_checks reg w of (rs, w') \<Rightarrow> (list_all (\<lambda>(_, st). st = Up) rs, w'))"

text \<open>The loop of \<^verbatim>\<open>to_json\<close>, which goes through all checks.\<close>

fun aggregate :: "HealthStatus \<Rightarrow> health_report \<Rightarrow> HealthStatus" where
  "aggregate acc [] = acc"
| "aggregate acc ((nm, st) # rs) =
     aggregate (if st = Down then Down else if acc = Up \<and> st = Degraded then Degraded else acc) rs"

definition escape_json :: "char \<Rightarrow> string" where
  "escape_json c =
     (if c = CHR 0x22 then [CHR 0x5C, CHR 0x22]
      else if c = CHR 0x5C then [CHR 0x5C, CHR 0x5C]
      else if c = CHR 0x0A then [CHR 0x5C, CHR ''n'']
      else if c = CHR 0x0D then [CHR 0x5C, CHR ''r'']
      else if c = CHR 0x09 then [CHR 0x5C, CHR ''t'']
      else if of_char c < (32 :: nat) then [CHR 0x5C, CHR ''u''] @ hex4 (of_char c)
      else [c])"

definition escape_json_into :: "string \<Rightarrow> string \<Rightarrow> string" where
  "escape_json_into o1 s = o1 @ concat (map escape_json s)"

definition checks_loop :: "string \<Rightarrow> health_report \<Rightarrow> string" where
  "checks_loop o1 rs = foldl (\<lambda>o1 (i, nm, st).
       escape_json_into ((if i > 0 then o1 @ '','' else o1) @ [CHR 0x22]) nm @
         [CHR 0x22, CHR '':'', CHR 0x22] @ status_str st @ [CHR 0x22])
     o1 (List.enumerate (0 :: nat) rs)"

definition report_json :: "health_report \<Rightarrow> string" where
  "report_json rs =
     checks_loop (''{'' @ [CHR 0x22] @ ''overall'' @ [CHR 0x22, CHR '':'', CHR 0x22] @ status_str (aggregate Up rs) @
       [CHR 0x22] @ '','' @ [CHR 0x22] @ ''checks'' @ [CHR 0x22] @ '':{'') rs @ ''}}''"

definition to_json :: "'w health_registry \<Rightarrow> 'w \<Rightarrow> string \<times> 'w" where
  "to_json reg w = (case run_checks reg w of (rs, w') \<Rightarrow> (report_json rs, w'))"

section \<open>The aggregate\<close>

definition worst_status :: "health_report \<Rightarrow> HealthStatus" where
  "worst_status rs = (if Down \<in> snd ` set rs then Down else if Degraded \<in> snd ` set rs then Degraded else Up)"

lemma worst_of_eq: "worst \<noteq> Down \<Longrightarrow> worst_of worst rs = (if worst_status rs = Up then worst else worst_status rs)"
proof (induction rs arbitrary: worst)
  case (Cons r rs)
  then show ?case by (cases r; cases "snd r"; cases worst) (auto simp: worst_status_def split: if_splits)
qed (simp add: worst_status_def)

lemma aggregate_eq: "aggregate acc rs = (if acc = Down \<or> worst_status rs = Up then acc else worst_status rs)"
proof (induction rs arbitrary: acc)
  case (Cons r rs)
  then show ?case by (cases r; cases "snd r"; cases acc) (auto simp: worst_status_def split: if_splits)
qed (simp add: worst_status_def)

lemma ready_iff: "list_all (\<lambda>(_, st). st = Up) rs \<longleftrightarrow> worst_status rs = Up"
proof -
  have "st = Up \<longleftrightarrow> st \<noteq> Down \<and> st \<noteq> Degraded" for st by (cases st) auto
  then show ?thesis by (force simp: list_all_iff worst_status_def)
qed

section \<open>Reading the report back\<close>

definition json_quote :: "string \<Rightarrow> string" where
  "json_quote s = CHR 0x22 # concat (map escape_json s) @ [CHR 0x22]"

lemma parse_escape_json: "parse_string_escaped acc (escape_json c @ r) = parse_string_escaped (acc @ [c]) r"
  by (simp add: escape_json_def parse_simple simple_escapes parse_control parse_plain del: parse_string_escaped.simps)

lemma parse_json_quote: "parse_string (json_quote s @ r) = Ok (s, r)"
proof -
  have "parse_string_escaped acc (concat (map escape_json s) @ t) = parse_string_escaped (acc @ s) t" for acc t
    by (induction s arbitrary: acc) (simp_all add: parse_escape_json)
  then show ?thesis by (simp add: json_quote_def parse_string_slow)
qed

lemma status_quote: "json_quote (status_str st) = [CHR 0x22] @ status_str st @ [CHR 0x22]"
  by (cases st) (simp_all add: json_quote_def escape_json_def)

lemma parse_value_json_quote: "parse_value (Suc fuel) F d (json_quote s @ r) = Some (Ok (Str s, r))"
  using parse_json_quote [of s r] by (simp add: json_quote_def)

lemma parse_member_json:
  assumes "parse_value fuel F d r = Some (Ok (v, r1))"
  shows "r1 = CHR '','' # r2 \<Longrightarrow>
      parse_members (Suc fuel) F d entries (json_quote k @ CHR '':'' # r) = parse_members fuel F d (entries @ [(k, v)]) r2"
    "r1 = CHR ''}'' # r2 \<Longrightarrow>
      parse_members (Suc fuel) F d entries (json_quote k @ CHR '':'' # r) = Some (Ok (Object (entries @ [(k, v)]), r2))"
proof -
  have q: "skip_ws (json_quote k @ s) = json_quote k @ s" for s by (simp add: json_quote_def)
  have c: "expect (CHR '':'') (CHR '':'' # r) = Ok ((), r)" by (simp add: expect_def)
  show "parse_members (Suc fuel) F d entries (json_quote k @ CHR '':'' # r) = parse_members fuel F d (entries @ [(k, v)]) r2"
    if "r1 = CHR '','' # r2" using assms that by (simp add: q c parse_json_quote)
  show "parse_members (Suc fuel) F d entries (json_quote k @ CHR '':'' # r) = Some (Ok (Object (entries @ [(k, v)]), r2))"
    if "r1 = CHR ''}'' # r2" using assms that by (simp add: q c parse_json_quote)
qed

fun checks_text :: "health_report \<Rightarrow> string" where
  "checks_text [] = []"
| "checks_text [(nm, st)] = json_quote nm @ CHR '':'' # json_quote (status_str st)"
| "checks_text ((nm, st) # r # rs) = json_quote nm @ CHR '':'' # json_quote (status_str st) @ CHR '','' # checks_text (r # rs)"

definition check_values :: "health_report \<Rightarrow> (string \<times> 'f Value) list" where
  "check_values rs = map (\<lambda>(nm, st). (nm, Str (status_str st))) rs"

lemma piece: "escape_json_into (o1 @ [CHR 0x22]) nm @ [CHR 0x22, CHR '':'', CHR 0x22] @ status_str st @ [CHR 0x22] =
    o1 @ json_quote nm @ CHR '':'' # json_quote (status_str st)"
  by (simp add: escape_json_into_def status_quote) (simp add: json_quote_def)

lemma checks_step: "checks_loop o1 (r # rs) = foldl (\<lambda>o1 (nm, st). o1 @ '','' @ json_quote nm @ CHR '':'' # json_quote (status_str st))
    (o1 @ json_quote (fst r) @ CHR '':'' # json_quote (status_str (snd r))) rs"
proof -
  have "foldl (\<lambda>o1 (i, nm, st).
       escape_json_into ((if i > 0 then o1 @ '','' else o1) @ [CHR 0x22]) nm @
         [CHR 0x22, CHR '':'', CHR 0x22] @ status_str st @ [CHR 0x22]) o2 (List.enumerate (Suc n) xs) =
      foldl (\<lambda>o1 (nm, st). o1 @ '','' @ json_quote nm @ CHR '':'' # json_quote (status_str st)) o2 xs" for o2 n xs
    by (induction xs arbitrary: o2 n) (simp_all only: foldl.simps enumerate_simps prod.case piece zero_less_Suc if_True append_assoc split_paired_all)
  then show ?thesis by (cases r) (simp only: checks_loop_def foldl.simps enumerate_simps prod.case piece less_irrefl if_False append_assoc fst_conv snd_conv)
qed

lemma checks_loop_eq: "checks_loop o1 rs = o1 @ checks_text rs"
proof (cases rs)
  case (Cons r rs')
  have "foldl (\<lambda>o1 (nm, st). o1 @ '','' @ json_quote nm @ CHR '':'' # json_quote (status_str st))
      (o2 @ json_quote (fst x) @ CHR '':'' # json_quote (status_str (snd x))) xs = o2 @ checks_text (x # xs)" for o2 x xs
  proof (induction xs arbitrary: o2 x)
    case Nil
    then show ?case by (cases x) simp
  next
    case (Cons y ys)
    show ?case using Cons [of "o2 @ json_quote (fst x) @ CHR '':'' # json_quote (status_str (snd x)) @ '',''" y]
      by (cases x; cases y) simp
  qed
  then show ?thesis by (simp add: Cons checks_step)
qed (simp add: checks_loop_def)

lemma parse_checks:
  "rs \<noteq> [] \<Longrightarrow> length rs < fuel \<Longrightarrow>
     parse_members fuel F d es (checks_text rs @ CHR ''}'' # r) = Some (Ok (Object (es @ check_values rs), r))"
proof (induction rs arbitrary: fuel es rule: checks_text.induct)
  case (2 nm st)
  then obtain f where f: "fuel = Suc (Suc f)" by (cases fuel; cases "fuel - 1") auto
  show ?case
    using parse_member_json(2) [OF parse_value_json_quote, of "CHR ''}'' # r" r f F d es nm "status_str st"] f
    by (simp add: check_values_def del: parse_members.simps parse_value.simps)
next
  case (3 nm st x xs)
  then obtain f where f: "fuel = Suc (Suc f)" by (cases fuel; cases "fuel - 1") auto
  have "parse_members (Suc f) F d (es @ [(nm, Str (status_str st))]) (checks_text (x # xs) @ CHR ''}'' # r) =
      Some (Ok (Object (es @ check_values ((nm, st) # x # xs)), r))"
    using 3(1) [of "Suc f" "es @ [(nm, Str (status_str st))]"] 3(3) f by (simp add: check_values_def del: checks_text.simps)
  then show ?case
    using parse_member_json(1) [OF parse_value_json_quote, of "CHR '','' # checks_text (x # xs) @ CHR ''}'' # r" _ f F d es nm "status_str st"] f
    by (simp add: check_values_def del: parse_members.simps parse_value.simps)
qed simp

lemma length_checks: "length rs \<le> length (checks_text rs)"
  by (induction rs rule: checks_text.induct) (auto simp: json_quote_def)

lemma report_text:
  "report_json rs = ''{'' @ json_quote ''overall'' @ CHR '':'' # json_quote (status_str (worst_status rs)) @ CHR '','' #
     json_quote ''checks'' @ CHR '':'' # ''{'' @ checks_text rs @ ''}}''"
proof -
  have "json_quote ''overall'' = [CHR 0x22] @ ''overall'' @ [CHR 0x22]" "json_quote ''checks'' = [CHR 0x22] @ ''checks'' @ [CHR 0x22]"
    by (simp_all add: json_quote_def escape_json_def)
  then show ?thesis by (simp add: report_json_def checks_loop_eq aggregate_eq status_quote)
qed

lemma parse_checks_object:
  assumes "Suc (length rs) < fuel" and "d < max_depth"
  shows "parse_value fuel F d (''{'' @ checks_text rs @ CHR ''}'' # r) = Some (Ok (Object (check_values rs), r))"
proof (cases rs)
  case Nil
  then show ?thesis using assms by (cases fuel) (simp_all add: check_values_def)
next
  case (Cons x xs)
  obtain f where f: "fuel = Suc f" using assms by (cases fuel) auto
  obtain t where t: "checks_text rs = CHR 0x22 # t" using Cons by (cases x; cases xs) (auto simp: json_quote_def)
  have "parse_value fuel F d (''{'' @ checks_text rs @ CHR ''}'' # r) = parse_members f F (Suc d) [] (checks_text rs @ CHR ''}'' # r)"
    using parse_value_open(2) [OF assms(2), of "CHR 0x22" f F "t @ CHR ''}'' # r"] f t by (simp add: opens_def del: parse_value.simps parse_members.simps)
  then show ?thesis using parse_checks [of rs f F "Suc d" "[]" r] assms f Cons by simp
qed

lemma report_parses:
  "from_str F (report_json rs) =
     Some (Ok (Object [(''overall'', Str (status_str (worst_status rs))), (''checks'', Object (check_values rs))]))"
proof -
  let ?c = "''{'' @ checks_text rs @ CHR ''}'' # ''}''"
  let ?t = "json_quote ''overall'' @ CHR '':'' # json_quote (status_str (worst_status rs)) @ CHR '','' # json_quote ''checks'' @ CHR '':'' # ?c"
  let ?n = "2 * length (report_json rs) + 2"
  have shape: "report_json rs = CHR ''{'' # ?t" by (simp add: report_text)
  obtain f where n: "?n = Suc (Suc (Suc (Suc f)))" and f: "Suc (length rs) < Suc f" using length_checks [of rs]
    by (intro that [of "?n - 4"]) (simp_all add: report_text json_quote_def)
  have d: "0 < max_depth" "Suc 0 < max_depth" by (simp_all add: max_depth_def)
  have "parse_members (Suc (Suc f)) F (Suc 0) es (json_quote ''checks'' @ CHR '':'' # ?c) = Some (Ok (Object (es @ [(''checks'', Object (check_values rs))]), []))" for es
    by (rule parse_member_json(2) [OF parse_checks_object refl]) (use f d in simp_all)
  moreover have "parse_members (Suc (Suc (Suc f))) F (Suc 0) [] ?t =
      parse_members (Suc (Suc f)) F (Suc 0) ([] @ [(''overall'', Str (status_str (worst_status rs)))]) (json_quote ''checks'' @ CHR '':'' # ?c)"
    by (rule parse_member_json(1) [OF parse_value_json_quote refl])
  moreover have "parse_value ?n F 0 (CHR ''{'' # ?t) = parse_members (Suc (Suc (Suc f))) F (Suc 0) [] ?t"
    unfolding n using parse_value_open(2) [OF d(1), of "CHR 0x22" "Suc (Suc (Suc f))" F "tl ?t"]
    by (simp add: json_quote_def [of "''overall''"] opens_def del: parse_value.simps parse_members.simps)
  ultimately have "parse_value ?n F 0 (report_json rs) =
      Some (Ok (Object [(''overall'', Str (status_str (worst_status rs))), (''checks'', Object (check_values rs))], []))"
    using shape by simp
  moreover have "skip_ws (report_json rs) = report_json rs" by (simp add: shape)
  ultimately show ?thesis by (simp add: from_str_def skip_ws_def del: parse_value.simps)
qed

text \<open>The health report is valid JSON that reads back as the aggregate and every check with its status, whatever the names of the
  checks; the aggregate is \<open>Down\<close> if some check is, else \<open>Degraded\<close> if some check is, else \<open>Up\<close>; readiness holds exactly when
  it is \<open>Up\<close>; and each of the three runs every check exactly once.\<close>
theorem health_report_parses:
  "case run_checks reg w of (rs, w') \<Rightarrow>
     to_json reg w = (report_json rs, w') \<and>
     from_str F (report_json rs) =
       Some (Ok (Object [(''overall'', Str (status_str (worst_status rs))), (''checks'', Object (map (\<lambda>(nm, st). (nm, Str (status_str st))) rs))])) \<and>
     overall reg w = (worst_status rs, w') \<and> is_ready reg w = (worst_status rs = Up, w')"
  by (auto simp: to_json_def report_parses check_values_def overall_def is_ready_def ready_iff worst_of_eq split: prod.split)

end
