(* ===== verification/Cli.thy ===== *)
theory Cli
  imports Rust_Char
begin

text \<open>
  Command-line parsing, \<^verbatim>\<open>cli/mod.rs\<close>. The argument vector is the list of the tokens that remain:
  \<^verbatim>\<open>argv[i..]\<close>. The environment of the process and Unicode upper-casing are parameters.
\<close>

section \<open>Declarations\<close>

datatype CliError =
    UnknownFlag string
  | MissingValue string
  | MissingRequired string
  | InvalidValue string string
  | HelpRequested string

record Arg =
  arg_name :: string
  short :: "string option"
  long :: "string option"
  arg_help :: "string option"
  required :: bool
  arg_default :: "string option"
  arg_env :: "string option"
  boolean :: bool

definition Arg_new :: "string \<Rightarrow> Arg" where
  "Arg_new n = \<lparr>arg_name = n, short = None, long = None, arg_help = None, required = False, arg_default = None,
     arg_env = None, boolean = False\<rparr>"

definition set_short :: "string \<Rightarrow> Arg \<Rightarrow> Arg" where "set_short c a = a\<lparr>short := Some c\<rparr>"
definition set_long :: "string \<Rightarrow> Arg \<Rightarrow> Arg" where "set_long l a = a\<lparr>long := Some l\<rparr>"
definition set_help :: "string \<Rightarrow> Arg \<Rightarrow> Arg" where "set_help h a = a\<lparr>arg_help := Some h\<rparr>"
definition set_required :: "Arg \<Rightarrow> Arg" where "set_required a = a\<lparr>required := True\<rparr>"
definition set_default :: "string \<Rightarrow> Arg \<Rightarrow> Arg" where "set_default v a = a\<lparr>arg_default := Some v\<rparr>"
definition set_env :: "string \<Rightarrow> Arg \<Rightarrow> Arg" where "set_env v a = a\<lparr>arg_env := Some v\<rparr>"
definition set_boolean :: "Arg \<Rightarrow> Arg" where "set_boolean a = a\<lparr>boolean := True\<rparr>"

datatype Command = Command
  (cmd_name: string) (about: "string option") (version: "string option")
  (flags: "Arg list") (positionals: "Arg list") (subcommands: "Command list")

definition Command_new :: "string \<Rightarrow> Command" where
  "Command_new n = Command n None None [] [] []"

fun set_about :: "string \<Rightarrow> Command \<Rightarrow> Command" where
  "set_about a (Command n _ v fs ps ss) = Command n (Some a) v fs ps ss"

fun set_version :: "string \<Rightarrow> Command \<Rightarrow> Command" where
  "set_version v (Command n a _ fs ps ss) = Command n a (Some v) fs ps ss"

fun add_flag :: "Arg \<Rightarrow> Command \<Rightarrow> Command" where
  "add_flag x (Command n a v fs ps ss) = Command n a v (fs @ [x]) ps ss"

fun add_positional :: "Arg \<Rightarrow> Command \<Rightarrow> Command" where
  "add_positional x (Command n a v fs ps ss) = Command n a v fs (ps @ [x]) ss"

fun add_subcommand :: "Command \<Rightarrow> Command \<Rightarrow> Command" where
  "add_subcommand x (Command n a v fs ps ss) = Command n a v fs ps (ss @ [x])"

definition find_long :: "Command \<Rightarrow> string \<Rightarrow> Arg option" where
  "find_long cmd key = find (\<lambda>a. long a = Some key) (flags cmd)"

definition find_short :: "Command \<Rightarrow> string \<Rightarrow> Arg option" where
  "find_short cmd c = find (\<lambda>a. short a = Some c) (flags cmd)"

definition find_subcommand :: "Command \<Rightarrow> string \<Rightarrow> Command option" where
  "find_subcommand cmd n = find (\<lambda>s. cmd_name s = n) (subcommands cmd)"

section \<open>Help\<close>

record cli_env =
  env_var :: "string \<Rightarrow> string option"
  to_uppercase :: "string \<Rightarrow> string"

abbreviation newline :: string where "newline \<equiv> [CHR 0x0A]"

definition help_positional :: "Arg \<Rightarrow> string" where
  "help_positional p = (if required p then '' <'' @ arg_name p @ ''>'' else '' ['' @ arg_name p @ '']'')"

definition help_option :: "cli_env \<Rightarrow> Arg \<Rightarrow> string" where
  "help_option E a =
     (let col = (case short a of Some c \<Rightarrow> ''-'' @ c @ '', '' | None \<Rightarrow> ''    '') @
            (case long a of Some l \<Rightarrow> ''--'' @ l | None \<Rightarrow> arg_name a) @
            (if boolean a then [] else '' <'' @ to_uppercase E (arg_name a) @ ''>'');
          desc = (case arg_help a of Some h \<Rightarrow> h | None \<Rightarrow> []) @
            (case arg_default a of Some d \<Rightarrow> '' [default: '' @ d @ '']'' | None \<Rightarrow> []) @
            (case arg_env a of Some e \<Rightarrow> '' [env: '' @ e @ '']'' | None \<Rightarrow> [])
      in ''  '' @ pad_right 28 col @ desc @ newline)"

definition help_command :: "Command \<Rightarrow> string" where
  "help_command s = ''  '' @ pad_right 14 (cmd_name s) @ (case about s of Some t \<Rightarrow> t | None \<Rightarrow> []) @ newline"

definition cli_help :: "cli_env \<Rightarrow> Command \<Rightarrow> string" where
  "cli_help E cmd =
     (case version cmd of Some v \<Rightarrow> cmd_name cmd @ '' '' @ v @ newline | None \<Rightarrow> cmd_name cmd @ newline) @
     (case about cmd of Some t \<Rightarrow> t @ newline | None \<Rightarrow> []) @
     newline @ ''Usage: '' @ cmd_name cmd @ '' [OPTIONS]'' @ concat (map help_positional (positionals cmd)) @
     (if subcommands cmd \<noteq> [] then '' <COMMAND>'' else []) @ newline @
     newline @ ''Options:'' @ newline @ concat (map (help_option E) (flags cmd)) @
     ''  '' @ pad_right 28 ''-h, --help'' @ ''Print help'' @ newline @
     (if subcommands cmd \<noteq> [] then newline @ ''Commands:'' @ newline @ concat (map help_command (subcommands cmd)) else [])"

section \<open>Parsing\<close>

datatype Matches = Matches
  (m_values: "string \<rightharpoonup> string") (m_bools: "string \<rightharpoonup> bool") (m_positionals: "string list")
  (m_subcommand: "(string \<times> Matches) option")

record scan =
  sc_values :: "string \<rightharpoonup> string"
  sc_bools :: "string \<rightharpoonup> bool"
  sc_positionals :: "string list"
  sc_no_more_flags :: bool

definition scan_start :: scan where
  "scan_start = \<lparr>sc_values = Map.empty, sc_bools = Map.empty, sc_positionals = [], sc_no_more_flags = False\<rparr>"

definition set_value :: "Arg \<Rightarrow> string \<Rightarrow> scan \<Rightarrow> scan" where
  "set_value a v st = st\<lparr>sc_values := (sc_values st)(arg_name a \<mapsto> v)\<rparr>"

definition set_switch :: "Arg \<Rightarrow> scan \<Rightarrow> scan" where
  "set_switch a st = st\<lparr>sc_bools := (sc_bools st)(arg_name a \<mapsto> True)\<rparr>"

text \<open>The value that follows in the next token.\<close>

definition next_value :: "string \<Rightarrow> string list \<Rightarrow> (string \<times> string list, CliError) result" where
  "next_value flag rest = (case rest of [] \<Rightarrow> Err (MissingValue flag) | v # rest' \<Rightarrow> Ok (v, rest'))"

definition long_option :: "Command \<Rightarrow> string \<Rightarrow> string list \<Rightarrow> scan \<Rightarrow> (scan \<times> string list, CliError) result" where
  "long_option cmd body rest st =
     (let (key, inl) = (case split_once (CHR ''='') body of Some (k, v) \<Rightarrow> (k, Some v) | None \<Rightarrow> (body, None))
      in case find_long cmd key of
           None \<Rightarrow> Err (UnknownFlag (''--'' @ key))
         | Some arg \<Rightarrow>
             if boolean arg then Ok (set_switch arg st, rest)
             else (case inl of
               Some v \<Rightarrow> Ok (set_value arg v st, rest)
             | None \<Rightarrow> (case next_value (''--'' @ key) rest of
                 Err e \<Rightarrow> Err e
               | Ok (v, rest') \<Rightarrow> Ok (set_value arg v st, rest'))))"

fun short_options :: "Command \<Rightarrow> string list \<Rightarrow> string list \<Rightarrow> scan \<Rightarrow> (scan \<times> string list, CliError) result" where
  "short_options cmd [] rest st = Ok (st, rest)"
| "short_options cmd (c # cs) rest st =
     (case find_short cmd c of
        None \<Rightarrow> Err (UnknownFlag (''-'' @ c))
      | Some arg \<Rightarrow>
          if boolean arg then short_options cmd cs rest (set_switch arg st)
          else if concat cs \<noteq> [] then Ok (set_value arg (concat cs) st, rest)
          else (case next_value (''-'' @ c) rest of
            Err e \<Rightarrow> Err e
          | Ok (v, rest') \<Rightarrow> Ok (set_value arg v st, rest')))"

text \<open>The precedence of the command line, the environment and the default.\<close>

fun resolve_flags :: "cli_env \<Rightarrow> Arg list \<Rightarrow> (string \<rightharpoonup> string) \<Rightarrow> (string \<rightharpoonup> string, CliError) result" where
  "resolve_flags E [] vals = Ok vals"
| "resolve_flags E (arg # args) vals =
     (if boolean arg \<or> vals (arg_name arg) \<noteq> None then resolve_flags E args vals
      else case Option.bind (arg_env arg) (env_var E) of
        Some v \<Rightarrow> resolve_flags E args (vals(arg_name arg \<mapsto> v))
      | None \<Rightarrow> (case arg_default arg of
          Some d \<Rightarrow> resolve_flags E args (vals(arg_name arg \<mapsto> d))
        | None \<Rightarrow> if required arg then Err (MissingRequired (arg_name arg)) else resolve_flags E args vals))"

fun check_positionals :: "nat \<Rightarrow> Arg list \<Rightarrow> string list \<Rightarrow> (unit, CliError) result" where
  "check_positionals idx [] given = Ok ()"
| "check_positionals idx (p # ps) given =
     (if required p \<and> \<not> idx < length given then Err (MissingRequired (arg_name p))
      else check_positionals (Suc idx) ps given)"

definition finish_parse ::
  "cli_env \<Rightarrow> Command \<Rightarrow> scan \<Rightarrow> (string \<times> Matches) option \<Rightarrow> (Matches, CliError) result" where
  "finish_parse E cmd st sub = (case resolve_flags E (flags cmd) (sc_values st) of
     Err e \<Rightarrow> Err e
   | Ok vals \<Rightarrow>
       (case (if sub = None then check_positionals 0 (positionals cmd) (sc_positionals st) else Ok ()) of
          Err e \<Rightarrow> Err e
        | Ok _ \<Rightarrow> Ok (Matches vals (sc_bools st) (sc_positionals st) sub)))"

lemma next_value_length: "next_value flag rest = Ok (v, rest') \<Longrightarrow> length rest' < length rest"
  by (auto simp: next_value_def split: list.splits)

lemma long_option_length: "long_option cmd body rest st = Ok (st', rest') \<Longrightarrow> length rest' \<le> length rest"
  by (auto simp: long_option_def Let_def split: option.splits prod.splits if_splits sum.splits dest: next_value_length)

lemma short_options_length: "short_options cmd cs rest st = Ok (st', rest') \<Longrightarrow> length rest' \<le> length rest"
  by (induction cmd cs rest st rule: short_options.induct)
    (auto split: option.splits if_splits sum.splits dest: next_value_length)

text \<open>The loop over the tokens, and \<^verbatim>\<open>parse_slice\<close>. A child command gets the tokens after its name.\<close>

function parse_loop :: "cli_env \<Rightarrow> Command \<Rightarrow> scan \<Rightarrow> string list \<Rightarrow>
    (scan \<times> (string \<times> Matches) option, CliError) result"
  and parse_slice :: "cli_env \<Rightarrow> Command \<Rightarrow> string list \<Rightarrow> (Matches, CliError) result" where
  "parse_loop E cmd st [] = Ok (st, None)"
| "parse_loop E cmd st (tok # rest) =
     (if \<not> sc_no_more_flags st \<and> tok = ''--'' then parse_loop E cmd (st\<lparr>sc_no_more_flags := True\<rparr>) rest
      else if \<not> sc_no_more_flags st \<and> (tok = ''--help'' \<or> tok = ''-h'') then Err (HelpRequested (cli_help E cmd))
      else if \<not> sc_no_more_flags st \<and> prefix ''--'' tok then
        (case long_option cmd (drop 2 tok) rest st of
           Err e \<Rightarrow> Err e
         | Ok (st', rest') \<Rightarrow> parse_loop E cmd st' rest')
      else if \<not> sc_no_more_flags st \<and> prefix ''-'' tok \<and> length tok > 1 then
        (case short_options cmd (str_chars (drop 1 tok)) rest st of
           Err e \<Rightarrow> Err e
         | Ok (st', rest') \<Rightarrow> parse_loop E cmd st' rest')
      else case (if \<not> sc_no_more_flags st \<and> sc_positionals st = [] then find_subcommand cmd tok else None) of
        Some sub \<Rightarrow> (case parse_slice E sub rest of
          Err e \<Rightarrow> Err e
        | Ok child \<Rightarrow> Ok (st, Some (cmd_name sub, child)))
      | None \<Rightarrow> parse_loop E cmd (st\<lparr>sc_positionals := sc_positionals st @ [tok]\<rparr>) rest)"
| "parse_slice E cmd argv = (case parse_loop E cmd scan_start argv of
     Err e \<Rightarrow> Err e
   | Ok (st, sub) \<Rightarrow> finish_parse E cmd st sub)"
  by pat_completeness auto
termination
  by (relation "measure (\<lambda>x. case x of Inl (_, _, _, argv) \<Rightarrow> 2 * length argv | Inr (_, _, argv) \<Rightarrow> 2 * length argv + 1)")
    (auto dest!: long_option_length short_options_length)

declare parse_slice.simps [simp del]

definition cli_parse :: "cli_env \<Rightarrow> Command \<Rightarrow> string list \<Rightarrow> (Matches, CliError) result" where
  "cli_parse E cmd args = parse_slice E cmd args"

section \<open>Reading the result\<close>

definition get_value :: "Matches \<Rightarrow> string \<Rightarrow> string option" where
  "get_value m n = m_values m n"

definition get_bool :: "Matches \<Rightarrow> string \<Rightarrow> bool" where
  "get_bool m n = (case m_bools m n of Some b \<Rightarrow> b | None \<Rightarrow> False)"

text \<open>\<open>conv\<close> is \<^verbatim>\<open>T::from_str\<close>.\<close>

definition get_as :: "(string \<Rightarrow> 't option) \<Rightarrow> Matches \<Rightarrow> string \<Rightarrow> ('t option, CliError) result" where
  "get_as conv m n = (case m_values m n of
     None \<Rightarrow> Ok None
   | Some raw \<Rightarrow> (case conv raw of Some t \<Rightarrow> Ok (Some t) | None \<Rightarrow> Err (InvalidValue n raw)))"

end
