(* ===== verification/Cli_Correct.thy ===== *)
theory Cli_Correct
  imports Cli
begin

text \<open>
  The command-line parser against a grammar of command lines: every way to spell an option, switch or word is a
  \<open>usage\<close>, whose meaning does not mention tokens. Parsing the spelling of any list of usages gives their
  meaning, completed from the environment and the defaults.
\<close>

section \<open>Command lines\<close>

datatype usage =
    Long_eq Arg string
  | Long_next Arg string
  | Long_switch Arg
  | Switches "Arg list"
  | Short_joined "Arg list" Arg string
  | Short_next "Arg list" Arg string
  | Word string

definition long_of :: "Arg \<Rightarrow> string" where "long_of a = the (long a)"
definition short_of :: "Arg \<Rightarrow> string" where "short_of a = the (short a)"

definition cluster :: "Arg list \<Rightarrow> string" where
  "cluster bs = concat (map short_of bs)"

fun spell :: "usage \<Rightarrow> string list" where
  "spell (Long_eq a v) = [''--'' @ long_of a @ ''='' @ v]"
| "spell (Long_next a v) = [''--'' @ long_of a, v]"
| "spell (Long_switch a) = [''--'' @ long_of a]"
| "spell (Switches bs) = [''-'' @ cluster bs]"
| "spell (Short_joined bs a v) = [''-'' @ cluster bs @ short_of a @ v]"
| "spell (Short_next bs a v) = [''-'' @ cluster bs @ short_of a, v]"
| "spell (Word w) = [w]"

fun use_values :: "usage \<Rightarrow> (string \<times> string) list" where
  "use_values (Long_eq a v) = [(arg_name a, v)]"
| "use_values (Long_next a v) = [(arg_name a, v)]"
| "use_values (Short_joined bs a v) = [(arg_name a, v)]"
| "use_values (Short_next bs a v) = [(arg_name a, v)]"
| "use_values _ = []"

fun use_switches :: "usage \<Rightarrow> string list" where
  "use_switches (Long_switch a) = [arg_name a]"
| "use_switches (Switches bs) = map arg_name bs"
| "use_switches (Short_joined bs a v) = map arg_name bs"
| "use_switches (Short_next bs a v) = map arg_name bs"
| "use_switches _ = []"

fun use_words :: "usage \<Rightarrow> string list" where
  "use_words (Word w) = [w]"
| "use_words _ = []"

text \<open>The last value of an option wins.\<close>

definition given_values :: "usage list \<Rightarrow> string \<rightharpoonup> string" where
  "given_values us = map_of (rev (concat (map use_values us)))"

definition given_switches :: "usage list \<Rightarrow> string \<rightharpoonup> bool" where
  "given_switches us = (\<lambda>n. if n \<in> set (concat (map use_switches us)) then Some True else None)"

definition given_words :: "usage list \<Rightarrow> string list" where
  "given_words us = concat (map use_words us)"

subsection \<open>Well-formed usages\<close>

definition long_ok :: "Command \<Rightarrow> Arg \<Rightarrow> bool" where
  "long_ok cmd a \<longleftrightarrow> long a \<noteq> None \<and> find_long cmd (long_of a) = Some a \<and> CHR ''='' \<notin> set (long_of a)"

text \<open>A long name that is not \<^verbatim>\<open>--\<close> or \<^verbatim>\<open>--help\<close> when it stands alone.\<close>

definition alone_ok :: "Arg \<Rightarrow> bool" where
  "alone_ok a \<longleftrightarrow> long_of a \<noteq> [] \<and> long_of a \<noteq> ''help''"

definition short_ok :: "Command \<Rightarrow> Arg \<Rightarrow> bool" where
  "short_ok cmd a \<longleftrightarrow> short a \<noteq> None \<and> find_short cmd (short_of a) = Some a \<and> is_char (short_of a)"

definition switches_ok :: "Command \<Rightarrow> Arg list \<Rightarrow> bool" where
  "switches_ok cmd bs \<longleftrightarrow> list_all (\<lambda>b. boolean b \<and> short_ok cmd b) bs"

text \<open>A group of short options begins neither \<^verbatim>\<open>--\<close> nor is it \<^verbatim>\<open>-h\<close>.\<close>

definition group_ok :: "string \<Rightarrow> bool" where
  "group_ok t \<longleftrightarrow> t \<noteq> [] \<and> \<not> prefix ''-'' t \<and> t \<noteq> ''h''"

fun use_ok :: "Command \<Rightarrow> usage \<Rightarrow> bool" where
  "use_ok cmd (Long_eq a v) = (\<not> boolean a \<and> long_ok cmd a)"
| "use_ok cmd (Long_next a v) = (\<not> boolean a \<and> long_ok cmd a \<and> alone_ok a)"
| "use_ok cmd (Long_switch a) = (boolean a \<and> long_ok cmd a \<and> alone_ok a)"
| "use_ok cmd (Switches bs) = (switches_ok cmd bs \<and> group_ok (cluster bs))"
| "use_ok cmd (Short_joined bs a v) =
     (switches_ok cmd bs \<and> \<not> boolean a \<and> short_ok cmd a \<and> v \<noteq> [] \<and> group_ok (cluster bs @ short_of a @ v))"
| "use_ok cmd (Short_next bs a v) =
     (switches_ok cmd bs \<and> \<not> boolean a \<and> short_ok cmd a \<and> group_ok (cluster bs @ short_of a))"
| "use_ok cmd (Word w) = (find_subcommand cmd w = None \<and> (prefix ''-'' w \<longrightarrow> w = ''-''))"

section \<open>Scanning\<close>

text \<open>The state of the loop after the usages \<open>us\<close>, starting in \<open>st\<close>.\<close>

definition after :: "usage list \<Rightarrow> scan \<Rightarrow> scan" where
  "after us st = st\<lparr>sc_values := sc_values st ++ given_values us, sc_bools := sc_bools st ++ given_switches us,
     sc_positionals := sc_positionals st @ given_words us\<rparr>"

lemma given_simps:
  "given_values [] = Map.empty" "given_switches [] = Map.empty" "given_words [] = []"
  "given_values (u # us) = map_of (rev (use_values u)) ++ given_values us"
  "given_switches (u # us) = given_switches [u] ++ given_switches us"
  "given_words (u # us) = use_words u @ given_words us"
  by (auto simp: given_values_def given_switches_def given_words_def map_add_def fun_eq_iff split: option.splits)

lemma after_Nil [simp]: "after [] st = st"
  by (simp add: after_def given_simps)

lemma after_Cons: "after (u # us) st = after us (after [u] st)"
proof -
  have "given_values [u] = map_of (rev (use_values u))" by (simp add: given_simps)
  then show ?thesis
    by (simp add: after_def given_simps(4,5,6) [of u us] given_simps(6) [of u "[]"] given_simps(3) map_add_assoc)
qed

lemma after_no_more [simp]: "sc_no_more_flags (after us st) = sc_no_more_flags st"
  by (simp add: after_def)

lemma long_option_eq:
  assumes "long_ok cmd a" and "\<not> boolean a"
  shows "long_option cmd (long_of a @ ''='' @ v) rest st = Ok (set_value a v st, rest)"
proof -
  have "split_once (CHR ''='') (long_of a @ CHR ''='' # v) = Some (long_of a, v)"
    using assms(1) by (simp add: split_once_Some long_ok_def)
  then show ?thesis using assms by (simp add: long_option_def long_ok_def)
qed

lemma long_option_alone:
  assumes "long_ok cmd a"
  shows "boolean a \<Longrightarrow> long_option cmd (long_of a) rest st = Ok (set_switch a st, rest)"
    "\<not> boolean a \<Longrightarrow> long_option cmd (long_of a) (v # rest) st = Ok (set_value a v st, rest)"
proof -
  have "split_once (CHR ''='') (long_of a) = None" using assms by (simp add: split_once_None long_ok_def)
  then show "boolean a \<Longrightarrow> long_option cmd (long_of a) rest st = Ok (set_switch a st, rest)"
    "\<not> boolean a \<Longrightarrow> long_option cmd (long_of a) (v # rest) st = Ok (set_value a v st, rest)"
    using assms by (simp_all add: long_option_def long_ok_def next_value_def)
qed

fun switch_all :: "Arg list \<Rightarrow> scan \<Rightarrow> scan" where
  "switch_all [] st = st"
| "switch_all (b # bs) st = switch_all bs (set_switch b st)"

lemma short_options_switches:
  "switches_ok cmd bs \<Longrightarrow> short_options cmd (map short_of bs @ cs) rest st = short_options cmd cs rest (switch_all bs st)"
  by (induction bs arbitrary: st) (auto simp: switches_ok_def short_ok_def)

lemma chars_cluster: "switches_ok cmd bs \<Longrightarrow> str_chars (cluster bs @ t) = map short_of bs @ str_chars t"
  by (induction bs) (auto simp: switches_ok_def short_ok_def cluster_def str_chars_char)

lemma switch_all_after: "switch_all bs st = st\<lparr>sc_bools := sc_bools st ++ (\<lambda>n. if n \<in> arg_name ` set bs then Some True else None)\<rparr>"
  by (induction bs arbitrary: st) (auto simp: set_switch_def map_add_def fun_eq_iff)

text \<open>One step of the loop on a token that begins with one or two dashes.\<close>

lemma loop_long:
  assumes "\<not> sc_no_more_flags st" and "b \<noteq> []" and "b \<noteq> ''help''" and "long_option cmd b rest st = Ok (st', rest')"
  shows "parse_loop E cmd st ((''--'' @ b) # rest) = parse_loop E cmd st' rest'"
  using assms by simp

lemma loop_short:
  assumes "\<not> sc_no_more_flags st" and "group_ok t" and "short_options cmd (str_chars t) rest st = Ok (st', rest')"
  shows "parse_loop E cmd st ((''-'' @ t) # rest) = parse_loop E cmd st' rest'"
  using assms by (cases t) (auto simp: group_ok_def)

lemma value_after: "use_values u = [(arg_name a, v)] \<Longrightarrow> use_switches u = map arg_name bs \<Longrightarrow> use_words u = [] \<Longrightarrow>
    set_value a v (switch_all bs st) = after [u] st"
  by (simp add: after_def set_value_def switch_all_after given_values_def given_switches_def given_words_def fun_eq_iff)

lemma switch_after: "use_values u = [] \<Longrightarrow> use_switches u = map arg_name bs \<Longrightarrow> use_words u = [] \<Longrightarrow>
    switch_all bs st = after [u] st"
  by (simp add: after_def switch_all_after given_values_def given_switches_def given_words_def fun_eq_iff)

lemma eq_not_help: "a @ ''='' @ v \<noteq> ''help''"
proof
  assume "a @ ''='' @ v = ''help''"
  then have "CHR ''='' \<in> set ''help''" by (metis append_Cons in_set_conv_decomp)
  then show False by simp
qed

lemma parse_loop_use:
  assumes "use_ok cmd u" and nm: "\<not> sc_no_more_flags st"
  shows "parse_loop E cmd st (spell u @ rest) = parse_loop E cmd (after [u] st) rest"
proof (cases u)
  case (Long_eq a v)
  have "long_option cmd (long_of a @ ''='' @ v) rest st = Ok (set_value a v st, rest)"
    using assms(1) Long_eq by (intro long_option_eq) simp_all
  then show ?thesis
    using loop_long [OF nm _ eq_not_help] value_after [of u a v "[]" st] Long_eq by simp
next
  case (Long_next a v)
  then have "long_option cmd (long_of a) (v # rest) st = Ok (set_value a v st, rest)"
    using assms(1) by (intro long_option_alone) simp_all
  then show ?thesis
    using loop_long [OF nm, of "long_of a"] value_after [of u a v "[]" st] Long_next assms(1) by (simp add: alone_ok_def)
next
  case (Long_switch a)
  then have "long_option cmd (long_of a) rest st = Ok (set_switch a st, rest)"
    using assms(1) by (intro long_option_alone) simp_all
  then show ?thesis
    using loop_long [OF nm, of "long_of a"] switch_after [of u "[a]" st] Long_switch assms(1) by (simp add: alone_ok_def)
next
  case (Switches bs)
  then have "short_options cmd (str_chars (cluster bs)) rest st = Ok (switch_all bs st, rest)"
    using assms(1) chars_cluster [of cmd bs "[]"] short_options_switches [of cmd bs "[]" rest st] by simp
  then show ?thesis
    using loop_short [OF nm] switch_after [of u bs st] Switches assms(1) by simp
next
  case (Short_joined bs a v)
  then have "short_options cmd (str_chars (cluster bs @ short_of a @ v)) rest st = Ok (set_value a v (switch_all bs st), rest)"
    using assms(1) chars_cluster [of cmd bs "short_of a @ v"] short_options_switches [of cmd bs "short_of a # str_chars v" rest st]
    by (simp add: short_ok_def str_chars_char)
  then show ?thesis
    using loop_short [OF nm] value_after [of u a v bs st] Short_joined assms(1) by simp
next
  case (Short_next bs a v)
  then have "short_options cmd (str_chars (cluster bs @ short_of a)) (v # rest) st = Ok (set_value a v (switch_all bs st), rest)"
    using assms(1) chars_cluster [of cmd bs "short_of a"] short_options_switches [of cmd bs "[short_of a]" "v # rest" st]
      str_chars_char [of "short_of a" "[]"]
    by (simp add: short_ok_def next_value_def)
  then show ?thesis
    using loop_short [OF nm] value_after [of u a v bs st] Short_next assms(1) by simp
next
  case (Word w)
  have "after [u] st = st\<lparr>sc_positionals := sc_positionals st @ [w]\<rparr>"
    using Word by (simp add: after_def given_values_def given_switches_def given_words_def)
  moreover have "\<not> prefix ''--'' w" "\<not> (prefix ''-'' w \<and> length w > 1)" "w \<noteq> ''--help''" "w \<noteq> ''-h''" "w \<noteq> ''--''"
    using assms(1) Word by (auto simp: prefix_def)
  ultimately show ?thesis using assms(1) Word by auto
qed

lemma parse_loop_uses:
  "list_all (use_ok cmd) us \<Longrightarrow> \<not> sc_no_more_flags st \<Longrightarrow>
     parse_loop E cmd st (concat (map spell us) @ rest) = parse_loop E cmd (after us st) rest"
proof (induction us arbitrary: st)
  case (Cons u us)
  then show ?case using parse_loop_use [of cmd u st E "concat (map spell us) @ rest"] by (simp add: after_Cons [of u us])
qed simp

lemma parse_loop_rest:
  "sc_no_more_flags st \<Longrightarrow> parse_loop E cmd st ps = Ok (st\<lparr>sc_positionals := sc_positionals st @ ps\<rparr>, None)"
  by (induction ps arbitrary: st) simp_all

section \<open>Completing the values\<close>

definition fallback :: "cli_env \<Rightarrow> Arg \<Rightarrow> string option" where
  "fallback E a = (case Option.bind (arg_env a) (env_var E) of Some v \<Rightarrow> Some v | None \<Rightarrow> arg_default a)"

text \<open>The value of each option: from the command line, else from its environment variable, else its default.\<close>

definition completed :: "cli_env \<Rightarrow> Arg list \<Rightarrow> (string \<rightharpoonup> string) \<Rightarrow> (string \<rightharpoonup> string)" where
  "completed E args given n = (case given n of
     Some v \<Rightarrow> Some v
   | None \<Rightarrow> Option.bind (find (\<lambda>a. \<not> boolean a \<and> arg_name a = n) args) (fallback E))"

definition missing_option :: "cli_env \<Rightarrow> Arg list \<Rightarrow> (string \<rightharpoonup> string) \<Rightarrow> Arg option" where
  "missing_option E args given =
     find (\<lambda>a. \<not> boolean a \<and> required a \<and> given (arg_name a) = None \<and> fallback E a = None) args"

definition option_names :: "Arg list \<Rightarrow> string list" where
  "option_names args = map arg_name (filter (\<lambda>a. \<not> boolean a) args)"

lemma missing_option_cong:
  assumes "k \<notin> set (option_names args)"
  shows "missing_option E args (given(k := x)) = missing_option E args given"
    "find (\<lambda>a. \<not> boolean a \<and> arg_name a = k) args = None"
  using assms by (auto simp: missing_option_def option_names_def find_None_iff intro!: find_cong)

lemma resolve_flags_spec:
  "distinct (option_names args) \<Longrightarrow> resolve_flags E args given =
     (case missing_option E args given of Some a \<Rightarrow> Err (MissingRequired (arg_name a)) | None \<Rightarrow> Ok (completed E args given))"
proof (induction args arbitrary: given)
  case Nil
  then show ?case by (simp add: missing_option_def completed_def fun_eq_iff split: option.splits)
next
  case (Cons a args)
  have d: "distinct (option_names args)" using Cons.prems by (auto simp: option_names_def split: if_splits)
  show ?case
  proof (cases "boolean a \<or> given (arg_name a) \<noteq> None")
    case True
    then have "completed E (a # args) given = completed E args given" "missing_option E (a # args) given = missing_option E args given"
      by (auto simp: completed_def missing_option_def fun_eq_iff split: option.splits)
    then show ?thesis using Cons.IH [OF d] True by (auto split: option.split)
  next
    case False
    then have fresh: "arg_name a \<notin> set (option_names args)" using Cons.prems by (auto simp: option_names_def)
    show ?thesis
    proof (cases "fallback E a")
      case None
      then have "completed E (a # args) given = completed E args given"
        using missing_option_cong(2) [OF fresh] by (auto simp: completed_def fun_eq_iff split: option.splits)
      moreover have "missing_option E (a # args) given = (if required a then Some a else missing_option E args given)"
        using None False by (simp add: missing_option_def)
      ultimately show ?thesis using Cons.IH [OF d] None False by (auto simp: fallback_def split: option.splits)
    next
      case (Some v)
      have comp: "completed E (a # args) given = completed E args (given(arg_name a \<mapsto> v))"
        using Some False by (auto simp: completed_def fun_eq_iff split: option.splits)
      have miss: "missing_option E (a # args) given = missing_option E args (given(arg_name a \<mapsto> v))"
        using Some missing_option_cong(1) [OF fresh] by (simp add: missing_option_def)
      have "resolve_flags E (a # args) given = resolve_flags E args (given(arg_name a \<mapsto> v))"
        using Some False by (auto simp: fallback_def split: option.splits)
      then show ?thesis by (simp only: Cons.IH [OF d] comp miss)
    qed
  qed
qed

definition missing_positional :: "Arg list \<Rightarrow> string list \<Rightarrow> Arg option" where
  "missing_positional ps given = find required (drop (length given) ps)"

lemma check_positionals_spec:
  "check_positionals idx ps given =
     (case find required (drop (length given - idx) ps) of Some p \<Rightarrow> Err (MissingRequired (arg_name p)) | None \<Rightarrow> Ok ())"
proof (induction ps arbitrary: idx)
  case (Cons p ps)
  show ?case
  proof (cases "idx < length given")
    case True
    then have "length given - idx = Suc (length given - Suc idx)" by simp
    then show ?thesis using Cons.IH [of "Suc idx"] True by simp
  qed (use Cons.IH [of "Suc idx"] in auto)
qed simp

text \<open>What the parser returns for the given values, switches and words.\<close>

definition outcome :: "cli_env \<Rightarrow> Command \<Rightarrow> (string \<rightharpoonup> string) \<Rightarrow> (string \<rightharpoonup> bool) \<Rightarrow> string list \<Rightarrow>
    (string \<times> Matches) option \<Rightarrow> (Matches, CliError) result" where
  "outcome E cmd vals bools ws sub = (case missing_option E (flags cmd) vals of
     Some a \<Rightarrow> Err (MissingRequired (arg_name a))
   | None \<Rightarrow> (case (if sub = None then missing_positional (positionals cmd) ws else None) of
       Some p \<Rightarrow> Err (MissingRequired (arg_name p))
     | None \<Rightarrow> Ok (Matches (completed E (flags cmd) vals) bools ws sub)))"

lemma finish_parse_spec:
  "distinct (option_names (flags cmd)) \<Longrightarrow>
     finish_parse E cmd st sub = outcome E cmd (sc_values st) (sc_bools st) (sc_positionals st) sub"
  by (auto simp: finish_parse_def outcome_def resolve_flags_spec check_positionals_spec missing_positional_def
      split: option.splits)

text \<open>
  The declarations the documentation speaks for: options have distinct names, a switch is not required and names no
  environment variable or default, and neither does a positional. (The parser ignores all of these on switches and
  positionals: \<open>required_switch_not_asked_for\<close> and \<open>positional_default_ignored\<close> below.)
\<close>

definition plain_declarations :: "Command \<Rightarrow> bool" where
  "plain_declarations cmd \<longleftrightarrow> distinct (option_names (flags cmd)) \<and>
     list_all (\<lambda>a. boolean a \<longrightarrow> \<not> required a \<and> arg_default a = None \<and> arg_env a = None) (flags cmd) \<and>
     list_all (\<lambda>p. arg_default p = None \<and> arg_env p = None) (positionals cmd)"

text \<open>A line ends after the uses, or goes on with \<^verbatim>\<open>--\<close> and any tokens, or with a subcommand and its tokens.\<close>

lemma parse_line_only:
  assumes "list_all (use_ok cmd) us" and "distinct (option_names (flags cmd))"
  shows "cli_parse E cmd (concat (map spell us)) = outcome E cmd (given_values us) (given_switches us) (given_words us) None"
proof -
  have nm: "\<not> sc_no_more_flags scan_start" by (simp add: scan_start_def)
  show ?thesis
    using parse_loop_uses [OF assms(1) nm, of E "[]"]
    by (simp add: cli_parse_def parse_slice.simps finish_parse_spec [OF assms(2)]) (simp add: after_def scan_start_def)
qed

lemma parse_dashes:
  assumes "list_all (use_ok cmd) us" and "distinct (option_names (flags cmd))"
  shows "cli_parse E cmd (concat (map spell us) @ ''--'' # ps) =
    outcome E cmd (given_values us) (given_switches us) (given_words us @ ps) None"
proof -
  have nm: "\<not> sc_no_more_flags scan_start" by (simp add: scan_start_def)
  show ?thesis
    using parse_loop_uses [OF assms(1) nm, of E "''--'' # ps"] nm
    by (simp add: cli_parse_def parse_slice.simps parse_loop_rest finish_parse_spec [OF assms(2)])
      (simp add: after_def scan_start_def)
qed

lemma parse_subcommand:
  assumes "list_all (use_ok cmd) us" and "distinct (option_names (flags cmd))" and "given_words us = []"
    and "find_subcommand cmd w = Some sub" and "\<not> prefix ''-'' w"
  shows "cli_parse E cmd (concat (map spell us) @ w # rest) = (case cli_parse E sub rest of
    Err e \<Rightarrow> Err e
  | Ok child \<Rightarrow> outcome E cmd (given_values us) (given_switches us) [] (Some (cmd_name sub, child)))"
proof -
  have nm: "\<not> sc_no_more_flags scan_start" by (simp add: scan_start_def)
  have "w \<noteq> ''--''" "w \<noteq> ''--help''" "w \<noteq> ''-h''" "\<not> prefix ''--'' w" using assms(5) by (auto simp: prefix_def)
  then show ?thesis
    using parse_loop_uses [OF assms(1) nm, of E "w # rest"] nm assms(3,4,5)
    by (simp add: cli_parse_def parse_slice.simps [of E cmd] finish_parse_spec [OF assms(2)] after_def scan_start_def
        split: sum.split)
qed

section \<open>Properties\<close>

text \<open>C24: The parser reads every spelling. For a command whose options have distinct names, whose switches are not required
  and carry no default or environment variable, and whose positionals carry neither: a line of options and switches in
  long, \<^verbatim>\<open>=\<close>, short, joined and clustered form (of names other than those of the help switch) mixed with words that name no
  subcommand and begin with no dash, or are one, which may end there, with a value as its last token
  too, or go on with \<^verbatim>\<open>--\<close> and any tokens, gives for each option the last value given, else that of its environment
  variable, else its default; exactly the switches given; and all words and following tokens in order. It is an error
  exactly if a required option or positional is left without a value, and names the first such, options first. Where
  options and switches are followed by the name of a subcommand, the tokens after it are parsed by the subcommand: its
  error is the result, and otherwise its result stands beside the options of the parent, whose required positionals
  are not asked for.\<close>

theorem cli_parse_correct:
  assumes "list_all (use_ok cmd) us" and "plain_declarations cmd"
  shows "cli_parse E cmd (concat (map spell us)) = outcome E cmd (given_values us) (given_switches us) (given_words us) None \<and>
    cli_parse E cmd (concat (map spell us) @ ''--'' # ps) =
      outcome E cmd (given_values us) (given_switches us) (given_words us @ ps) None \<and>
    (given_words us = [] \<and> find_subcommand cmd w = Some sub \<and> \<not> prefix ''-'' w \<longrightarrow>
      cli_parse E cmd (concat (map spell us) @ w # rest) = (case cli_parse E sub rest of
        Err e \<Rightarrow> Err e
      | Ok child \<Rightarrow> outcome E cmd (given_values us) (given_switches us) [] (Some (cmd_name sub, child))))"
  using assms parse_line_only parse_dashes parse_subcommand by (simp add: plain_declarations_def)

text \<open>A command and an environment for the witnesses.\<close>

definition sample_env :: cli_env where
  "sample_env = \<lparr>env_var = (\<lambda>v. if v = ''PORT'' then Some ''81'' else None), to_uppercase = id\<rparr>"

definition name_arg :: Arg where "name_arg = set_required (set_long ''name'' (set_short ''n'' (Arg_new ''name'')))"
definition port_arg :: Arg where
  "port_arg = set_default ''80'' (set_env ''PORT'' (set_long ''port'' (set_short ''p'' (Arg_new ''port''))))"
definition verbose_arg :: Arg where "verbose_arg = set_boolean (set_long ''verbose'' (set_short ''v'' (Arg_new ''verbose'')))"

definition sample_command :: Command where
  "sample_command = add_subcommand (add_positional (set_required (Arg_new ''file'')) (Command_new ''serve''))
     (add_flag verbose_arg (add_flag port_arg (add_flag name_arg (Command_new ''tool''))))"

lemmas sample_defs = sample_command_def name_arg_def port_arg_def verbose_arg_def Arg_new_def Command_new_def
  set_required_def set_long_def set_short_def set_default_def set_env_def set_boolean_def

lemmas use_ok_defs = long_ok_def short_ok_def alone_ok_def switches_ok_def group_ok_def find_long_def find_short_def
  find_subcommand_def long_of_def short_of_def cluster_def is_char_def char_len_ascii option_names_def plain_declarations_def

lemmas outcome_defs = outcome_def missing_option_def missing_positional_def given_values_def given_switches_def given_words_def
  completed_def fallback_def sample_env_def get_value_def get_bool_def

theorem cli_parse_correct_witness:
  "(\<exists>m. cli_parse sample_env sample_command [''-vnbob'', ''w'', ''--name'', ''eve''] = Ok m \<and>
     get_value m ''name'' = Some ''eve'' \<and> get_value m ''port'' = Some ''81'' \<and> get_bool m ''verbose'' \<and>
     m_positionals m = [''w'']) \<and>
   (\<exists>m. cli_parse sample_env sample_command [''-vnbob'', ''w'', ''--name'', ''eve'', ''--'', ''-x''] = Ok m \<and>
     get_value m ''name'' = Some ''eve'' \<and> m_positionals m = [''w'', ''-x'']) \<and>
   (\<exists>m child. cli_parse sample_env sample_command [''-n'', ''eve'', ''serve'', ''f''] = Ok m \<and>
     get_value m ''name'' = Some ''eve'' \<and> m_subcommand m = Some (''serve'', child) \<and> m_positionals child = [''f''])"
proof -
  let ?us = "[Short_joined [verbose_arg] name_arg ''bob'', Word ''w'', Long_next name_arg ''eve'']"
  let ?serve = "add_positional (set_required (Arg_new ''file'')) (Command_new ''serve'')"
  have ok: "list_all (use_ok sample_command) ?us" "list_all (use_ok sample_command) [Short_next [] name_arg ''eve'']"
    "plain_declarations sample_command"
    "list_all (use_ok ?serve) [Word ''f'']" "plain_declarations ?serve"
    by (simp_all add: use_ok_defs sample_defs)
  note line = cli_parse_correct [OF ok(1,3), of sample_env "[''-x'']"]
  have l1: "\<exists>m. cli_parse sample_env sample_command [''-vnbob'', ''w'', ''--name'', ''eve''] = Ok m \<and>
     get_value m ''name'' = Some ''eve'' \<and> get_value m ''port'' = Some ''81'' \<and> get_bool m ''verbose'' \<and>
     m_positionals m = [''w'']"
    using line [THEN conjunct1] by (simp add: use_ok_defs sample_defs outcome_defs)
  have l2: "\<exists>m. cli_parse sample_env sample_command [''-vnbob'', ''w'', ''--name'', ''eve'', ''--'', ''-x''] = Ok m \<and>
     get_value m ''name'' = Some ''eve'' \<and> m_positionals m = [''w'', ''-x'']"
    using line [THEN conjunct2, THEN conjunct1] by (simp add: use_ok_defs sample_defs outcome_defs)
  note lines = l1 l2
  have "\<exists>child. cli_parse sample_env ?serve [''f''] = Ok child \<and> m_positionals child = [''f'']"
    using cli_parse_correct [OF ok(4,5), of sample_env, THEN conjunct1] by (simp add: use_ok_defs sample_defs outcome_defs)
  then obtain child where child: "cli_parse sample_env ?serve [''f''] = Ok child" "m_positionals child = [''f'']" by blast
  have sub: "find_subcommand sample_command ''serve'' = Some ?serve" "cmd_name ?serve = ''serve''"
    by (simp_all add: find_subcommand_def sample_defs)
  let ?u = "[Short_next [] name_arg ''eve'']"
  have "given_words ?u = []" "\<not> prefix ''-'' ''serve''" by (simp_all add: given_words_def)
  then have "cli_parse sample_env sample_command (concat (map spell ?u) @ ''serve'' # [''f'']) =
      outcome sample_env sample_command (given_values ?u) (given_switches ?u) [] (Some (''serve'', child))"
    using cli_parse_correct [OF ok(2,3), of sample_env "[]" "''serve''" ?serve "[''f'']", THEN conjunct2, THEN conjunct2] sub child(1)
    by simp
  moreover have "concat (map spell ?u) = [''-n'', ''eve'']" by (simp add: cluster_def short_of_def sample_defs)
  ultimately have eq: "cli_parse sample_env sample_command [''-n'', ''eve'', ''serve'', ''f''] =
      outcome sample_env sample_command (given_values ?u) (given_switches ?u) [] (Some (''serve'', child))" by simp
  have "\<exists>m. outcome sample_env sample_command (given_values ?u) (given_switches ?u) [] (Some (''serve'', child)) = Ok m \<and>
     get_value m ''name'' = Some ''eve'' \<and> m_subcommand m = Some (''serve'', child)"
    by (simp add: outcome_defs sample_defs)
  then have "\<exists>m. cli_parse sample_env sample_command [''-n'', ''eve'', ''serve'', ''f''] = Ok m \<and>
     get_value m ''name'' = Some ''eve'' \<and> m_subcommand m = Some (''serve'', child)"
    unfolding eq .
  with lines show ?thesis using child(2) by blast
qed

section \<open>Divergences\<close>

text \<open>A value attached to a switch is dropped: \<^verbatim>\<open>--verbose=false\<close> turns the switch on.\<close>

lemma switch_value_dropped:
  assumes "long_ok cmd a" and "boolean a"
  shows "long_option cmd (long_of a @ ''='' @ v) rest st = Ok (set_switch a st, rest)"
proof -
  have "split_once (CHR ''='') (long_of a @ CHR ''='' # v) = Some (long_of a, v)"
    using assms(1) by (simp add: split_once_Some long_ok_def)
  then show ?thesis using assms by (simp add: long_option_def long_ok_def)
qed

text \<open>A required switch may be absent.\<close>

lemma required_switch_not_asked_for: "boolean a \<Longrightarrow> resolve_flags E [a] vals = Ok vals"
  by simp

text \<open>A default of a positional is never used.\<close>

lemma positional_default_ignored:
  "cli_parse E (add_positional (set_default d (set_required (Arg_new n))) (Command_new c)) [] = Err (MissingRequired n)"
  by (simp add: cli_parse_def parse_slice.simps finish_parse_def set_default_def set_required_def Arg_new_def Command_new_def
      scan_start_def)

end
