(* ===== verification/Obs.thy ===== *)
theory Obs
  imports Codec_Json_Correct Ws_Frame
begin

text \<open>
  Span tracing, \<^verbatim>\<open>obs/mod.rs\<close>: the level filter, identifiers from shared counters, the stack of entered spans of
  each thread, guards, events and the exporter. Each operation is a function of the whole state; threads interleave as a
  sequence of operations, since they share only atomic counters, the filter and the exporter behind its lock. The clocks
  are arguments.
\<close>

section \<open>Levels\<close>

datatype Level = Trace | Debug | Info | Warn | Error

fun level_str :: "Level \<Rightarrow> string" where
  "level_str Trace = ''trace''"
| "level_str Debug = ''debug''"
| "level_str Info = ''info''"
| "level_str Warn = ''warn''"
| "level_str Error = ''error''"

fun level_u8 :: "Level \<Rightarrow> u8" where
  "level_u8 Trace = 0"
| "level_u8 Debug = 1"
| "level_u8 Info = 2"
| "level_u8 Warn = 3"
| "level_u8 Error = 4"

definition level_from_u8 :: "u8 \<Rightarrow> Level" where
  "level_from_u8 v = (if v = 0 then Trace else if v = 1 then Debug else if v = 2 then Info else if v = 3 then Warn else Error)"

section \<open>Identifiers\<close>

definition HEX :: string where
  "HEX = ''0123456789abcdef''"

definition hex :: "bytes \<Rightarrow> string" where
  "hex bs = concat (map (\<lambda>b. [HEX ! unat (drop_bit 4 b), HEX ! unat (b AND 0x0F)]) bs)"

definition u64_be :: "u64 \<Rightarrow> bytes" where
  "u64_be n = to_be_bytes 8 (unat n)"

section \<open>Spans\<close>

record 'f SpanEvent =
  ev_level :: Level
  ev_message :: string
  ev_fields :: "(string \<times> 'f Value) list"
  ev_unix_nanos :: nat

record 'f FinishedSpan =
  fs_name :: string
  fs_trace_id :: string
  fs_span_id :: string
  fs_parent_id :: "string option"
  fs_level :: Level
  fs_start_unix_nanos :: nat
  fs_duration_nanos :: nat
  fs_fields :: "(string \<times> 'f Value) list"
  fs_events :: "'f SpanEvent list"

record 'f Live =
  l_name :: string
  l_level :: Level
  l_trace_id :: string
  l_span_id :: string
  l_parent_id :: "string option"
  l_start :: nat
  l_start_unix_nanos :: nat
  l_fields :: "(string \<times> 'f Value) list"
  l_events :: "'f SpanEvent list"

record 'f Span =
  sp_name :: string
  sp_level :: Level
  sp_fields :: "(string \<times> 'f Value) list"

definition span_new :: "string \<Rightarrow> 'f Span" where
  "span_new n = \<lparr>sp_name = n, sp_level = Info, sp_fields = []\<rparr>"

definition span_level :: "Level \<Rightarrow> 'f Span \<Rightarrow> 'f Span" where
  "span_level l s = s\<lparr>sp_level := l\<rparr>"

definition span_field :: "string \<Rightarrow> 'f Value \<Rightarrow> 'f Span \<Rightarrow> 'f Span" where
  "span_field k v s = s\<lparr>sp_fields := sp_fields s @ [(k, v)]\<rparr>"

section \<open>State\<close>

text \<open>An exporter is its state with what \<^verbatim>\<open>export\<close> and \<^verbatim>\<open>flush\<close> do to it.\<close>

record ('f, 'e) Exporter =
  ex_export :: "'f FinishedSpan \<Rightarrow> 'e \<Rightarrow> 'e"
  ex_flush :: "'e \<Rightarrow> 'e"

text \<open>The clocks at an operation: \<^verbatim>\<open>Instant::now\<close> and the time since the epoch, in nanoseconds.\<close>

record clock =
  instant :: nat
  unix_nanos :: nat

text \<open>
  The statics of the module and the thread-local stacks; the last entry of a stack is the current span.
  \<open>obs_exporter\<close> is the slot, and \<^verbatim>\<open>HAS_EXPORTER\<close> is set exactly when it is filled.
\<close>

record ('f, 'e) obs =
  obs_level :: u8
  obs_seed :: "u64 option"
  span_counter :: u64
  trace_counter :: u64
  stacks :: "nat \<Rightarrow> 'f Live list"
  obs_exporter :: "'e option"

definition obs_start :: "('f, 'e) obs" where
  "obs_start = \<lparr>obs_level = level_u8 Info, obs_seed = None, span_counter = 0, trace_counter = 0, stacks = (\<lambda>_. []), obs_exporter = None\<rparr>"

definition set_level :: "Level \<Rightarrow> ('f, 'e) obs \<Rightarrow> ('f, 'e) obs" where
  "set_level l s = s\<lparr>obs_level := level_u8 l\<rparr>"

definition get_level :: "('f, 'e) obs \<Rightarrow> Level" where
  "get_level s = level_from_u8 (obs_level s)"

definition enabled :: "('f, 'e) obs \<Rightarrow> Level \<Rightarrow> bool" where
  "enabled s l \<longleftrightarrow> obs_level s \<le> level_u8 l"

definition set_exporter :: "'e \<Rightarrow> ('f, 'e) obs \<Rightarrow> ('f, 'e) obs" where
  "set_exporter e s = s\<lparr>obs_exporter := Some e\<rparr>"

definition obs_flush :: "('f, 'e) Exporter \<Rightarrow> ('f, 'e) obs \<Rightarrow> ('f, 'e) obs" where
  "obs_flush X s = s\<lparr>obs_exporter := map_option (ex_flush X) (obs_exporter s)\<rparr>"

definition export :: "('f, 'e) Exporter \<Rightarrow> 'f FinishedSpan \<Rightarrow> ('f, 'e) obs \<Rightarrow> ('f, 'e) obs" where
  "export X f s = s\<lparr>obs_exporter := map_option (ex_export X f) (obs_exporter s)\<rparr>"

definition seed :: "clock \<Rightarrow> ('f, 'e) obs \<Rightarrow> u64 \<times> ('f, 'e) obs" where
  "seed c s = (case obs_seed s of
     Some n \<Rightarrow> (n, s)
   | None \<Rightarrow> (of_nat (unix_nanos c), s\<lparr>obs_seed := Some (of_nat (unix_nanos c))\<rparr>))"

definition new_span_id :: "('f, 'e) obs \<Rightarrow> string \<times> ('f, 'e) obs" where
  "new_span_id s = (let n = span_counter s + 1 in (hex (u64_be n), s\<lparr>span_counter := n\<rparr>))"

definition new_trace_id :: "clock \<Rightarrow> ('f, 'e) obs \<Rightarrow> string \<times> ('f, 'e) obs" where
  "new_trace_id c s =
     (let n = trace_counter s + 1; (sd, s) = seed c (s\<lparr>trace_counter := n\<rparr>)
      in (hex (u64_be sd @ u64_be n), s))"

section \<open>Entering, recording and finishing\<close>

text \<open>\<^verbatim>\<open>Span::enter\<close> on thread \<open>t\<close>; the flag is \<^verbatim>\<open>active\<close> of the guard.\<close>

definition enter :: "nat \<Rightarrow> clock \<Rightarrow> 'f Span \<Rightarrow> ('f, 'e) obs \<Rightarrow> bool \<times> ('f, 'e) obs" where
  "enter t c sp s =
     (if \<not> enabled s (sp_level sp) then (False, s)
      else
        let ((tid, pid), s1) =
              (if stacks s t = [] then (let (i, s1) = new_trace_id c s in ((i, None), s1))
               else ((l_trace_id (last (stacks s t)), Some (l_span_id (last (stacks s t)))), s));
            (sid, s2) = new_span_id s1;
            live = \<lparr>l_name = sp_name sp, l_level = sp_level sp, l_trace_id = tid, l_span_id = sid, l_parent_id = pid,
              l_start = instant c, l_start_unix_nanos = unix_nanos c, l_fields = sp_fields sp, l_events = []\<rparr>
        in (True, s2\<lparr>stacks := (stacks s2)(t := stacks s2 t @ [live])\<rparr>))"

text \<open>\<^verbatim>\<open>stack.last_mut()\<close>\<close>

definition on_top :: "('f Live \<Rightarrow> 'f Live) \<Rightarrow> nat \<Rightarrow> ('f, 'e) obs \<Rightarrow> ('f, 'e) obs" where
  "on_top f t s =
     (if stacks s t = [] then s
      else s\<lparr>stacks := (stacks s)(t := butlast (stacks s t) @ [f (last (stacks s t))])\<rparr>)"

definition guard_record :: "bool \<Rightarrow> nat \<Rightarrow> string \<Rightarrow> 'f Value \<Rightarrow> ('f, 'e) obs \<Rightarrow> ('f, 'e) obs" where
  "guard_record active t k v s = (if \<not> active then s else on_top (\<lambda>l. l\<lparr>l_fields := l_fields l @ [(k, v)]\<rparr>) t s)"

definition guard_event ::
  "bool \<Rightarrow> nat \<Rightarrow> clock \<Rightarrow> Level \<Rightarrow> string \<Rightarrow> (string \<times> 'f Value) list \<Rightarrow> ('f, 'e) obs \<Rightarrow> ('f, 'e) obs" where
  "guard_event active t c lv msg fs s =
     (if \<not> active \<or> \<not> enabled s lv then s
      else on_top (\<lambda>l. l\<lparr>l_events := l_events l @ [\<lparr>ev_level = lv, ev_message = msg, ev_fields = fs, ev_unix_nanos = unix_nanos c\<rparr>]\<rparr>) t s)"

definition finish :: "clock \<Rightarrow> 'f Live \<Rightarrow> 'f FinishedSpan" where
  "finish c l = \<lparr>fs_name = l_name l, fs_trace_id = l_trace_id l, fs_span_id = l_span_id l, fs_parent_id = l_parent_id l,
     fs_level = l_level l, fs_start_unix_nanos = l_start_unix_nanos l, fs_duration_nanos = instant c - l_start l,
     fs_fields = l_fields l, fs_events = l_events l\<rparr>"

definition guard_drop :: "('f, 'e) Exporter \<Rightarrow> bool \<Rightarrow> nat \<Rightarrow> clock \<Rightarrow> ('f, 'e) obs \<Rightarrow> ('f, 'e) obs" where
  "guard_drop X active t c s =
     (if \<not> active \<or> stacks s t = [] then s
      else export X (finish c (last (stacks s t))) (s\<lparr>stacks := (stacks s)(t := butlast (stacks s t))\<rparr>))"

text \<open>\<^verbatim>\<open>obs::event\<close>\<close>

definition event ::
  "('f, 'e) Exporter \<Rightarrow> nat \<Rightarrow> clock \<Rightarrow> Level \<Rightarrow> string \<Rightarrow> (string \<times> 'f Value) list \<Rightarrow> ('f, 'e) obs \<Rightarrow> ('f, 'e) obs" where
  "event X t c lv msg fs s =
     (if \<not> enabled s lv then s
      else
        let ev = \<lparr>ev_level = lv, ev_message = msg, ev_fields = fs, ev_unix_nanos = unix_nanos c\<rparr>
        in if stacks s t \<noteq> [] then on_top (\<lambda>l. l\<lparr>l_events := l_events l @ [ev]\<rparr>) t s
           else
             let (tid, s1) = new_trace_id c s; (sid, s2) = new_span_id s1
             in export X \<lparr>fs_name = ''event'', fs_trace_id = tid, fs_span_id = sid, fs_parent_id = None, fs_level = lv,
                  fs_start_unix_nanos = unix_nanos c, fs_duration_nanos = 0, fs_fields = [], fs_events = [ev]\<rparr> s2)"

section \<open>The JSON exporter\<close>

definition u128_value :: "nat \<Rightarrow> 'f Value" where
  "u128_value v = (if v < 2 ^ 64 then UInt (of_nat v) else Str (decimal v))"

definition fields_value :: "(string \<times> 'f Value) list \<Rightarrow> 'f Value" where
  "fields_value fs = Object fs"

definition event_value :: "'f SpanEvent \<Rightarrow> 'f Value" where
  "event_value ev = Object
     [(''level'', Str (level_str (ev_level ev))),
      (''message'', Str (ev_message ev)),
      (''fields'', fields_value (ev_fields ev)),
      (''unix_nanos'', u128_value (ev_unix_nanos ev))]"

definition span_to_value :: "'f FinishedSpan \<Rightarrow> 'f Value" where
  "span_to_value s = Object
     [(''name'', Str (fs_name s)),
      (''trace_id'', Str (fs_trace_id s)),
      (''span_id'', Str (fs_span_id s)),
      (''parent_id'', case fs_parent_id s of Some p \<Rightarrow> Str p | None \<Rightarrow> Null),
      (''level'', Str (level_str (fs_level s))),
      (''start_unix_nanos'', u128_value (fs_start_unix_nanos s)),
      (''duration_nanos'', u128_value (fs_duration_nanos s)),
      (''fields'', fields_value (fs_fields s)),
      (''events'', Array (map event_value (fs_events s)))]"

text \<open>The writer is what has been written to it.\<close>

definition json_exporter :: "'f float_ops \<Rightarrow> ('f, string) Exporter" where
  "json_exporter F = \<lparr>ex_export = (\<lambda>s w. w @ to_string F (span_to_value s) @ [CHR 0x0A]), ex_flush = (\<lambda>w. w)\<rparr>"

section \<open>Identifiers are fresh\<close>

lemma hex_simps [simp]: "hex [] = []" "hex (b # bs) = [HEX ! unat (drop_bit 4 b), HEX ! unat (b AND 0x0F)] @ hex bs"
  by (simp_all add: hex_def)

lemma HEX_inj: "i < 16 \<Longrightarrow> j < 16 \<Longrightarrow> HEX ! i = HEX ! j \<Longrightarrow> i = j"
proof -
  have "distinct HEX" "length HEX = 16" by (simp_all add: HEX_def)
  then show "i < 16 \<Longrightarrow> j < 16 \<Longrightarrow> HEX ! i = HEX ! j \<Longrightarrow> i = j" by (simp add: nth_eq_iff_index_eq)
qed

lemma nibbles:
  fixes b :: u8
  shows "unat (drop_bit 4 b) = unat b div 16" "unat (b AND 0x0F) = unat b mod 16"
proof -
  show "unat (drop_bit 4 b) = unat b div 16" by (simp add: drop_bit_eq_div unat_div_distrib)
  have "b AND 0x0F = take_bit 4 b" by (simp add: take_bit_eq_mask mask_eq_decr_exp and.commute)
  then show "unat (b AND 0x0F) = unat b mod 16" by (simp add: take_bit_eq_mod unat_mod_distrib)
qed

lemma hex_byte_inj:
  fixes b c :: u8
  assumes "HEX ! unat (drop_bit 4 b) = HEX ! unat (drop_bit 4 c)" and "HEX ! unat (b AND 0x0F) = HEX ! unat (c AND 0x0F)"
  shows "b = c"
proof -
  have lt: "unat x < 256" for x :: u8 using unsigned_less [of x] by simp
  then have q: "unat x div 16 < 16" for x :: u8 using lt [of x] by linarith
  have "unat b div 16 = unat c div 16" using assms(1) HEX_inj q by (simp add: nibbles)
  moreover have "unat b mod 16 = unat c mod 16" using assms(2) HEX_inj by (simp add: nibbles)
  ultimately have "unat b = unat c" by (metis div_mult_mod_eq)
  then show ?thesis by (simp only: word_unat_eq_iff)
qed

lemma hex_inj: "length bs = length cs \<Longrightarrow> hex bs = hex cs \<Longrightarrow> bs = cs"
  by (induction bs cs rule: list_induct2) (auto dest: hex_byte_inj)

lemma u64_be_inj: "u64_be m = u64_be n \<Longrightarrow> m = n"
proof -
  have lt: "unat x < 256 ^ 8" for x :: u64 using unsigned_less [of x] by simp
  assume "u64_be m = u64_be n"
  then have "from_be_bytes (to_be_bytes 8 (unat m)) = from_be_bytes (to_be_bytes 8 (unat n))" by (simp only: u64_be_def)
  then have "unat m = unat n" by (simp only: from_be_to_be [OF lt])
  then show ?thesis by (simp only: word_unat_eq_iff)
qed

lemma span_id_inj: "hex (u64_be m) = hex (u64_be n) \<Longrightarrow> m = n"
  by (intro u64_be_inj hex_inj) (simp_all add: u64_be_def)

lemma trace_id_inj: "hex (u64_be d @ u64_be m) = hex (u64_be d @ u64_be n) \<Longrightarrow> m = n"
proof -
  assume "hex (u64_be d @ u64_be m) = hex (u64_be d @ u64_be n)"
  then have "u64_be d @ u64_be m = u64_be d @ u64_be n" by (intro hex_inj) (simp_all add: u64_be_def)
  then show ?thesis by (simp add: u64_be_inj)
qed

section \<open>Interleavings\<close>

datatype 'f action =
    Enter nat clock "'f Span"
  | Record bool nat string "'f Value"
  | Note bool nat clock Level string "(string \<times> 'f Value) list"
  | Finish bool nat clock
  | Emit nat clock Level string "(string \<times> 'f Value) list"
  | Set_level Level

fun obs_do :: "('f, 'e) Exporter \<Rightarrow> 'f action \<Rightarrow> ('f, 'e) obs \<Rightarrow> ('f, 'e) obs" where
  "obs_do X (Enter t c sp) s = snd (enter t c sp s)"
| "obs_do X (Record active t k v) s = guard_record active t k v s"
| "obs_do X (Note active t c lv msg fs) s = guard_event active t c lv msg fs s"
| "obs_do X (Finish active t c) s = guard_drop X active t c s"
| "obs_do X (Emit t c lv msg fs) s = event X t c lv msg fs s"
| "obs_do X (Set_level l) s = set_level l s"

definition obs_run :: "('f, 'e) Exporter \<Rightarrow> 'f action list \<Rightarrow> ('f, 'e) obs \<Rightarrow> ('f, 'e) obs" where
  "obs_run X acts s = foldl (\<lambda>s a. obs_do X a s) s acts"

text \<open>An exporter that collects what it is given.\<close>

definition collector :: "('f, 'f FinishedSpan list) Exporter" where
  "collector = \<lparr>ex_export = (\<lambda>f log. log @ [f]), ex_flush = (\<lambda>log. log)\<rparr>"

text \<open>Two threads, the first with a nested span, the second with an event outside any span.\<close>

definition two_threads :: "nat action list" where
  "two_threads =
     (let c = (\<lambda>k. \<lparr>instant = k, unix_nanos = 1000 + k\<rparr>)
      in [Enter 0 (c 1) (span_new ''a''), Enter 1 (c 2) (span_new ''b''), Enter 0 (c 3) (span_new ''c''), Record True 0 ''k'' (Bool True),
          Finish True 0 (c 4), Finish True 1 (c 5), Emit 1 (c 6) Warn ''e'' [], Finish True 0 (c 7)])"

text \<open>
  Changing exporters: what the exporter keeps steers nothing else, so a relation that one exported span preserves is preserved
  by every operation.
\<close>

definition carry :: "'g option \<Rightarrow> ('f, 'e) obs \<Rightarrow> ('f, 'g) obs" where
  "carry e s = \<lparr>obs_level = obs_level s, obs_seed = obs_seed s, span_counter = span_counter s, trace_counter = trace_counter s,
     stacks = stacks s, obs_exporter = e\<rparr>"

lemma carry_fields [simp]:
  "obs_level (carry e s) = obs_level s" "obs_seed (carry e s) = obs_seed s" "span_counter (carry e s) = span_counter s"
  "trace_counter (carry e s) = trace_counter s" "stacks (carry e s) = stacks s" "obs_exporter (carry e s) = e"
  by (simp_all add: carry_def)

lemma carry_update:
  "carry e (s\<lparr>stacks := st\<rparr>) = (carry e s)\<lparr>stacks := st\<rparr>"
  "carry e (s\<lparr>obs_level := lv\<rparr>) = (carry e s)\<lparr>obs_level := lv\<rparr>"
  "carry e (s\<lparr>span_counter := m\<rparr>) = (carry e s)\<lparr>span_counter := m\<rparr>"
  "carry e (s\<lparr>trace_counter := m\<rparr>) = (carry e s)\<lparr>trace_counter := m\<rparr>"
  "carry e (s\<lparr>obs_seed := sd\<rparr>) = (carry e s)\<lparr>obs_seed := sd\<rparr>"
  "carry e (s\<lparr>obs_exporter := x\<rparr>) = carry e s"
  "(carry e s)\<lparr>obs_exporter := e'\<rparr> = carry e' s"
  by (simp_all add: carry_def)

lemma carry_new_trace_id: "new_trace_id c (carry e s) = (let (i, s') = new_trace_id c s in (i, carry e s'))"
  by (simp add: new_trace_id_def seed_def Let_def carry_update split: option.splits)

lemma carry_new_span_id: "new_span_id (carry e s) = (let (i, s') = new_span_id s in (i, carry e s'))"
  by (simp add: new_span_id_def Let_def carry_update)

lemma carry_enabled [simp]: "enabled (carry e s) l = enabled s l"
  by (simp add: enabled_def)

lemma carry_on_top: "on_top f t (carry e s) = carry e (on_top f t s)"
  by (simp add: on_top_def carry_update)

lemma carry_enter: "snd (enter t c sp (carry e s)) = carry e (snd (enter t c sp s))"
  by (simp add: enter_def carry_new_trace_id carry_new_span_id carry_update Let_def split: prod.splits)

lemma mint_keeps_exporter:
  "new_trace_id c s = (i, s') \<Longrightarrow> obs_exporter s' = obs_exporter s"
  "new_span_id s = (i, s') \<Longrightarrow> obs_exporter s' = obs_exporter s"
  by (auto simp: new_trace_id_def seed_def new_span_id_def Let_def split: option.splits)

lemma on_top_keeps_exporter [simp]: "obs_exporter (on_top f t s) = obs_exporter s"
  by (simp add: on_top_def)

lemma enter_keeps_exporter: "obs_exporter (snd (enter t c sp s)) = obs_exporter s"
  by (auto simp: enter_def Let_def mint_keeps_exporter split: prod.splits)

lemma exporter_stays_do: "obs_exporter (obs_do X x s) = None \<Longrightarrow> obs_exporter s = None"
proof (cases x)
  case (Emit t c lv msg fs)
  assume none: "obs_exporter (obs_do X x s) = None"
  obtain i s1 j s2 where m: "new_trace_id c s = (i, s1)" "new_span_id s1 = (j, s2)" by fastforce
  then show ?thesis using none Emit mint_keeps_exporter(1) [OF m(1)] mint_keeps_exporter(2) [OF m(2)]
    by (simp add: event_def export_def Let_def split: if_splits)
qed (auto simp: enter_keeps_exporter guard_record_def guard_event_def guard_drop_def export_def set_level_def split: if_splits)

lemma exporter_stays: "obs_exporter s \<noteq> None \<Longrightarrow> obs_exporter (obs_run X acts s) \<noteq> None"
proof (induction acts arbitrary: s)
  case (Cons x acts)
  have "obs_exporter (obs_do X x s) \<noteq> None" using Cons.prems by (rule contrapos_nn) (rule exporter_stays_do)
  from Cons.IH [OF this] show ?case by (simp add: obs_run_def)
qed (simp add: obs_run_def)

definition alike :: "('e \<Rightarrow> 'g \<Rightarrow> bool) \<Rightarrow> ('f, 'e) obs \<Rightarrow> ('f, 'g) obs \<Rightarrow> bool" where
  "alike R s s' \<longleftrightarrow> s' = carry (obs_exporter s') s \<and> rel_option R (obs_exporter s) (obs_exporter s')"

locale exporter_relation =
  fixes X :: "('f, 'e) Exporter" and Y :: "('f, 'g) Exporter" and R :: "'e \<Rightarrow> 'g \<Rightarrow> bool"
  assumes related_export: "R e g \<Longrightarrow> R (ex_export X f e) (ex_export Y f g)"
begin

lemma alike_export: "rel_option R (obs_exporter s) e \<Longrightarrow> alike R (export X f s) (export Y f (carry e s))"
  by (cases e; cases "obs_exporter s") (simp_all add: alike_def export_def carry_update related_export)

lemma alike_do:
  assumes "alike R s s'"
  shows "alike R (obs_do X x s) (obs_do Y x s')"
proof -
  obtain e where e: "s' = carry e s" "rel_option R (obs_exporter s) e" using assms unfolding alike_def by blast
  have same: "alike R s1 (carry e s1)" if "obs_exporter s1 = obs_exporter s" for s1 using e(2) that by (simp add: alike_def)
  show ?thesis
  proof (cases x)
    case (Finish active t c)
    have "rel_option R (obs_exporter (s\<lparr>stacks := st\<rparr>)) e" for st using e(2) by simp
    from alike_export [OF this] show ?thesis using Finish e(1) same [of s]
      by (simp add: guard_drop_def carry_update)
  next
    case (Emit t c lv msg fs)
    show ?thesis
    proof (cases "enabled s lv \<and> stacks s t = []")
      case True
      obtain i s1 j s2 where m: "new_trace_id c s = (i, s1)" "new_span_id s1 = (j, s2)" by fastforce
      have "rel_option R (obs_exporter s2) e" using e(2) mint_keeps_exporter(1) [OF m(1)] mint_keeps_exporter(2) [OF m(2)] by simp
      from alike_export [OF this] show ?thesis using Emit e(1) True m
        by (simp add: event_def carry_new_trace_id carry_new_span_id Let_def)
    next
      case False
      then show ?thesis using Emit e(1) same by (auto simp: event_def carry_on_top Let_def)
    qed
  qed (simp_all add: e(1) carry_enter enter_keeps_exporter carry_on_top carry_update [symmetric] same
      guard_record_def guard_event_def set_level_def)
qed

lemma alike_run: "alike R s s' \<Longrightarrow> alike R (obs_run X acts s) (obs_run Y acts s')"
  by (induction acts arbitrary: s s') (simp_all add: obs_run_def alike_do)

end

lemma alike_start: "R e g \<Longrightarrow> alike R (set_exporter e obs_start) (set_exporter g obs_start)"
  by (simp add: alike_def carry_def set_exporter_def obs_start_def)

text \<open>What the JSON exporter has written are the lines of the collected spans.\<close>

definition json_lines :: "'f float_ops \<Rightarrow> 'f FinishedSpan list \<Rightarrow> string" where
  "json_lines F log = concat (map (\<lambda>f. to_string F (span_to_value f) @ [CHR 0x0A]) log)"

interpretation json_sink: exporter_relation collector "json_exporter F" "\<lambda>log w. w = json_lines F log"
  by unfold_locales (simp add: collector_def json_exporter_def json_lines_def)

lemma json_export_lines:
  "obs_exporter (obs_run (json_exporter F) acts (set_exporter [] obs_start)) =
   map_option (json_lines F) (obs_exporter (obs_run collector acts (set_exporter [] obs_start)))"
proof -
  have "alike (\<lambda>log w. w = json_lines F log) (set_exporter [] obs_start) (set_exporter [] obs_start)"
    by (rule alike_start) (simp add: json_lines_def)
  from json_sink.alike_run [OF this, of acts]
  have "rel_option (\<lambda>log w. w = json_lines F log) (obs_exporter (obs_run collector acts (set_exporter [] obs_start)))
    (obs_exporter (obs_run (json_exporter F) acts (set_exporter [] obs_start)))" by (simp add: alike_def)
  then show ?thesis by (auto elim: option.rel_cases)
qed

text \<open>Keys of a log and of the stacks, none twice, from a set of minted ones.\<close>

definition keyed :: "'k set \<Rightarrow> 'k list \<Rightarrow> (nat \<Rightarrow> 'k list) \<Rightarrow> bool" where
  "keyed S L K \<longleftrightarrow> distinct L \<and> set L \<subseteq> S \<and>
     (\<forall>t. distinct (K t) \<and> set (K t) \<subseteq> S \<and> set (K t) \<inter> set L = {} \<and> (\<forall>t'. t \<noteq> t' \<longrightarrow> set (K t) \<inter> set (K t') = {}))"

lemma keyedD:
  assumes "keyed S L K"
  shows "distinct L" "set L \<subseteq> S" "distinct (K t)" "set (K t) \<subseteq> S" "set (K t) \<inter> set L = {}"
    "t \<noteq> t' \<Longrightarrow> set (K t) \<inter> set (K t') = {}"
  using assms unfolding keyed_def by blast+

lemma keyedI:
  assumes "distinct L" "set L \<subseteq> S" "\<And>t. distinct (K t)" "\<And>t. set (K t) \<subseteq> S" "\<And>t. set (K t) \<inter> set L = {}"
    "\<And>t t'. t \<noteq> t' \<Longrightarrow> set (K t) \<inter> set (K t') = {}"
  shows "keyed S L K"
  using assms unfolding keyed_def by blast

lemma keyed_push:
  assumes "keyed S L K" and "x \<notin> S"
  shows "keyed (insert x S) L (K(t := K t @ [x]))"
proof (rule keyedI)
  note D = keyedD [OF assms(1)]
  have x: "x \<notin> set L" "x \<notin> set (K u)" for u using D(2) D(4) [of u] assms(2) by blast+
  show "distinct L" "set L \<subseteq> insert x S" using D(1,2) by blast+
  show "distinct ((K(t := K t @ [x])) u)" "set ((K(t := K t @ [x])) u) \<subseteq> insert x S"
    "set ((K(t := K t @ [x])) u) \<inter> set L = {}" for u
    using D(3-5) [of u] x by auto
  show "set ((K(t := K t @ [x])) u) \<inter> set ((K(t := K t @ [x])) v) = {}" if "u \<noteq> v" for u v
    using D(6) [OF that] x that by auto
qed

lemma keyed_pop:
  assumes "keyed S L K" and "K t = ks @ [x]"
  shows "keyed S (L @ [x]) (K(t := ks))"
proof (rule keyedI)
  note D = keyedD [OF assms(1)]
  have k: "distinct (ks @ [x])" "set (ks @ [x]) \<subseteq> S" "set (ks @ [x]) \<inter> set L = {}"
    using D(3-5) [of t] by (simp_all only: assms(2))
  have o: "set (ks @ [x]) \<inter> set (K u) = {}" if "u \<noteq> t" for u using D(6) [of t u] that by (simp only: assms(2))
  show "distinct (L @ [x])" "set (L @ [x]) \<subseteq> S" using D(1,2) k by auto
  show "distinct ((K(t := ks)) u)" "set ((K(t := ks)) u) \<subseteq> S" for u using D(3,4) [of u] k by auto
  show "set ((K(t := ks)) u) \<inter> set (L @ [x]) = {}" for u using D(5) [of u] k o [of u] by auto
  show "set ((K(t := ks)) u) \<inter> set ((K(t := ks)) v) = {}" if "u \<noteq> v" for u v
    using D(6) [OF that] o [of u] o [of v] that by auto
qed

lemma keyed_emit:
  assumes "keyed S L K" and "x \<notin> S"
  shows "keyed (insert x S) (L @ [x]) K"
proof (rule keyedI)
  note D = keyedD [OF assms(1)]
  have x: "x \<notin> set L" "x \<notin> set (K u)" for u using D(2) D(4) [of u] assms(2) by blast+
  show "distinct (L @ [x])" "set (L @ [x]) \<subseteq> insert x S" using D(1,2) x by auto
  show "distinct (K u)" "set (K u) \<subseteq> insert x S" "set (K u) \<inter> set (L @ [x]) = {}" for u using D(3-5) [of u] x by auto
  show "set (K u) \<inter> set (K v) = {}" if "u \<noteq> v" for u v by (rule D(6) [OF that])
qed

section \<open>The forest of spans\<close>

text \<open>What links spans: identifier, parent and trace.\<close>

record node =
  nid :: string
  npar :: "string option"
  ntrace :: string

definition live_node :: "'f Live \<Rightarrow> node" where
  "live_node l = \<lparr>nid = l_span_id l, npar = l_parent_id l, ntrace = l_trace_id l\<rparr>"

definition span_node :: "'f FinishedSpan \<Rightarrow> node" where
  "span_node f = \<lparr>nid = fs_span_id f, npar = fs_parent_id f, ntrace = fs_trace_id f\<rparr>"

text \<open>A stack: each span below is the parent of the one above, all in one trace.\<close>

fun linked :: "node option \<Rightarrow> node \<Rightarrow> bool" where
  "linked None x \<longleftrightarrow> npar x = None"
| "linked (Some p) x \<longleftrightarrow> npar x = Some (nid p) \<and> ntrace x = ntrace p"

fun chained :: "node option \<Rightarrow> node list \<Rightarrow> bool" where
  "chained below [] \<longleftrightarrow> True"
| "chained below (x # xs) \<longleftrightarrow> linked below x \<and> chained (Some x) xs"

lemma chained_snoc: "chained below (xs @ [x]) \<longleftrightarrow> chained below xs \<and> linked (if xs = [] then below else Some (last xs)) x"
  by (induction xs arbitrary: below) auto

definition roots :: "node list \<Rightarrow> string list" where
  "roots ks = map ntrace (filter (\<lambda>k. npar k = None) ks)"

text \<open>The parent of a finished span finished later, or it is still open.\<close>

definition parent_kept :: "node list \<Rightarrow> (nat \<Rightarrow> node list) \<Rightarrow> nat \<Rightarrow> bool" where
  "parent_kept L K i \<longleftrightarrow> (\<forall>p. npar (L ! i) = Some p \<longrightarrow>
     (\<exists>j. i < j \<and> j < length L \<and> nid (L ! j) = p \<and> ntrace (L ! j) = ntrace (L ! i)) \<or>
     (\<exists>t. \<exists>k\<in>set (K t). nid k = p \<and> ntrace k = ntrace (L ! i)))"

definition span_id :: "nat \<Rightarrow> string" where
  "span_id k = hex (u64_be (of_nat k))"

definition trace_id :: "u64 \<Rightarrow> nat \<Rightarrow> string" where
  "trace_id d k = hex (u64_be d @ u64_be (of_nat k))"

definition forest :: "nat \<Rightarrow> nat \<Rightarrow> u64 \<Rightarrow> node list \<Rightarrow> (nat \<Rightarrow> node list) \<Rightarrow> bool" where
  "forest a b d L K \<longleftrightarrow>
     keyed (span_id ` {1..a}) (map nid L) (\<lambda>t. map nid (K t)) \<and>
     keyed (trace_id d ` {1..b}) (roots L) (\<lambda>t. roots (K t)) \<and>
     (\<forall>t. chained None (K t)) \<and> (\<forall>i < length L. parent_kept L K i)"

lemma roots_simps [simp]: "roots (xs @ ys) = roots xs @ roots ys" "roots [] = []"
  "roots [x] = (if npar x = None then [ntrace x] else [])"
  by (simp_all add: roots_def)

lemma of_nat_u64_inj: "i < 2 ^ 64 \<Longrightarrow> j < 2 ^ 64 \<Longrightarrow> (of_nat i :: u64) = of_nat j \<Longrightarrow> i = j"
  by (auto simp: word_unat_eq_iff unsigned_of_nat take_bit_nat_eq_self)

lemma fresh_span_id:
  assumes "Suc a < 2 ^ 64"
  shows "span_id (Suc a) \<notin> span_id ` {1..a}" "insert (span_id (Suc a)) (span_id ` {1..a}) = span_id ` {1..Suc a}"
proof -
  show "span_id (Suc a) \<notin> span_id ` {1..a}"
  proof
    assume "span_id (Suc a) \<in> span_id ` {1..a}"
    then obtain k where k: "k \<le> a" "hex (u64_be (of_nat (Suc a))) = hex (u64_be (of_nat k))" by (auto simp: span_id_def)
    then have "(of_nat (Suc a) :: u64) = of_nat k" by (intro span_id_inj)
    then have "Suc a = k" using assms k(1) by (intro of_nat_u64_inj) simp_all
    then show False using k(1) by simp
  qed
  show "insert (span_id (Suc a)) (span_id ` {1..a}) = span_id ` {1..Suc a}" by (simp add: atLeastAtMostSuc_conv)
qed

lemma fresh_trace_id:
  assumes "Suc b < 2 ^ 64"
  shows "trace_id d (Suc b) \<notin> trace_id d ` {1..b}" "insert (trace_id d (Suc b)) (trace_id d ` {1..b}) = trace_id d ` {1..Suc b}"
proof -
  show "trace_id d (Suc b) \<notin> trace_id d ` {1..b}"
  proof
    assume "trace_id d (Suc b) \<in> trace_id d ` {1..b}"
    then obtain k where k: "k \<le> b" "hex (u64_be d @ u64_be (of_nat (Suc b))) = hex (u64_be d @ u64_be (of_nat k))"
      by (auto simp: trace_id_def)
    then have "(of_nat (Suc b) :: u64) = of_nat k" by (intro trace_id_inj)
    then have "Suc b = k" using assms k(1) by (intro of_nat_u64_inj) simp_all
    then show False using k(1) by simp
  qed
  show "insert (trace_id d (Suc b)) (trace_id d ` {1..b}) = trace_id d ` {1..Suc b}" by (simp add: atLeastAtMostSuc_conv)
qed

lemma keyed_push_stack:
  assumes "keyed S L (\<lambda>u. f (K u))" and "x \<notin> S" and "f ks = f (K t) @ [x]"
  shows "keyed (insert x S) L (\<lambda>u. f ((K(t := ks)) u))"
proof -
  have "(\<lambda>u. f ((K(t := ks)) u)) = (\<lambda>u. f (K u))(t := f (K t) @ [x])" using assms(3) by auto
  then show ?thesis using keyed_push [OF assms(1,2), of t] by simp
qed

lemma keyed_pop_stack:
  assumes "keyed S L (\<lambda>u. f (K u))" and "f (K t) = f ks @ [x]"
  shows "keyed S (L @ [x]) (\<lambda>u. f ((K(t := ks)) u))"
proof -
  have "(\<lambda>u. f ((K(t := ks)) u)) = (\<lambda>u. f (K u))(t := f ks)" by auto
  then show ?thesis using keyed_pop [OF assms] by simp
qed

lemma parent_kept_mono: "parent_kept L K i \<Longrightarrow> \<forall>t. set (K t) \<subseteq> set (K' t) \<Longrightarrow> parent_kept L K' i"
  unfolding parent_kept_def by blast

lemma forest_child:
  assumes "forest a b d L K" and "Suc a < 2 ^ 64" and "K t \<noteq> []"
    and x: "nid x = span_id (Suc a)" "linked (Some (last (K t))) x"
  shows "forest (Suc a) b d L (K(t := K t @ [x]))"
  unfolding forest_def
proof (intro conjI allI impI)
  note inv = assms(1) [unfolded forest_def]
  show "keyed (span_id ` {1..Suc a}) (map nid L) (\<lambda>u. map nid ((K(t := K t @ [x])) u))"
    unfolding fresh_span_id(2) [OF assms(2), symmetric]
    by (rule keyed_push_stack [where f = "map nid" and K = K, OF conjunct1 [OF inv] fresh_span_id(1) [OF assms(2)]]) (simp add: x(1))
  have "(\<lambda>u. roots ((K(t := K t @ [x])) u)) = (\<lambda>u. roots (K u))" using x(2) by (auto simp: fun_eq_iff)
  then show "keyed (trace_id d ` {1..b}) (roots L) (\<lambda>u. roots ((K(t := K t @ [x])) u))" using inv by simp
  show "chained None ((K(t := K t @ [x])) u)" for u using inv assms(3) x(2) by (simp add: chained_snoc)
  show "parent_kept L (K(t := K t @ [x])) i" if "i < length L" for i
    using inv that by (auto intro: parent_kept_mono)
qed

lemma forest_root:
  assumes "forest a b d L K" and "Suc a < 2 ^ 64" "Suc b < 2 ^ 64" and "K t = []"
    and x: "nid x = span_id (Suc a)" "npar x = None" "ntrace x = trace_id d (Suc b)"
  shows "forest (Suc a) (Suc b) d L (K(t := [x]))"
  unfolding forest_def
proof (intro conjI allI impI)
  note inv = assms(1) [unfolded forest_def]
  show "keyed (span_id ` {1..Suc a}) (map nid L) (\<lambda>u. map nid ((K(t := [x])) u))"
    unfolding fresh_span_id(2) [OF assms(2), symmetric]
    by (rule keyed_push_stack [where f = "map nid" and K = K, OF conjunct1 [OF inv] fresh_span_id(1) [OF assms(2)]]) (simp add: x(1) assms(4))
  show "keyed (trace_id d ` {1..Suc b}) (roots L) (\<lambda>u. roots ((K(t := [x])) u))"
    unfolding fresh_trace_id(2) [OF assms(3), symmetric]
    by (rule keyed_push_stack [where f = roots and K = K, OF conjunct1 [OF conjunct2 [OF inv]] fresh_trace_id(1) [OF assms(3)]]) (simp add: x assms(4))
  show "chained None ((K(t := [x])) u)" for u using inv x(2) by simp
  show "parent_kept L (K(t := [x])) i" if "i < length L" for i
    by (rule parent_kept_mono [of L K]) (use inv that assms(4) in simp_all)
qed

lemma parent_kept_snoc: "i < length L \<Longrightarrow> parent_kept L K i \<Longrightarrow> \<forall>t. set (K t) \<subseteq> set (K' t) \<union> {x} \<Longrightarrow> parent_kept (L @ [x]) K' i"
proof -
  assume i: "i < length L" and kept: "parent_kept L K i" and sub: "\<forall>t. set (K t) \<subseteq> set (K' t) \<union> {x}"
  show ?thesis unfolding parent_kept_def
  proof (intro allI impI)
    fix p assume "npar ((L @ [x]) ! i) = Some p"
    then have p: "npar (L ! i) = Some p" using i by (simp add: nth_append)
    from kept p consider j where "i < j" "j < length L" "nid (L ! j) = p" "ntrace (L ! j) = ntrace (L ! i)"
      | t k where "k \<in> set (K t)" "nid k = p" "ntrace k = ntrace (L ! i)" unfolding parent_kept_def by blast
    then show "(\<exists>j>i. j < length (L @ [x]) \<and> nid ((L @ [x]) ! j) = p \<and> ntrace ((L @ [x]) ! j) = ntrace ((L @ [x]) ! i)) \<or>
        (\<exists>t. \<exists>k\<in>set (K' t). nid k = p \<and> ntrace k = ntrace ((L @ [x]) ! i))"
    proof cases
      case 1
      then show ?thesis using i by (intro disjI1 exI [of _ j]) (simp add: nth_append)
    next
      case 2
      show ?thesis
      proof (cases "k = x")
        case True
        then show ?thesis using i 2 by (intro disjI1 exI [of _ "length L"]) (simp add: nth_append)
      next
        case False
        then show ?thesis using i 2 sub by (intro disjI2 exI [of _ t] bexI [of _ k]) (auto simp: nth_append)
      qed
    qed
  qed
qed

lemma forest_finish:
  assumes "forest a b d L K" and K: "K t = ks @ [x]"
  shows "forest a b d (L @ [x]) (K(t := ks))"
  unfolding forest_def
proof (intro conjI allI impI)
  note inv = assms(1) [unfolded forest_def]
  have "keyed (span_id ` {1..a}) (map nid L @ [nid x]) (\<lambda>u. map nid ((K(t := ks)) u))"
    by (rule keyed_pop_stack [where f = "map nid" and K = K, OF conjunct1 [OF inv]]) (simp add: K)
  then show "keyed (span_id ` {1..a}) (map nid (L @ [x])) (\<lambda>u. map nid ((K(t := ks)) u))" by simp
  show "keyed (trace_id d ` {1..b}) (roots (L @ [x])) (\<lambda>u. roots ((K(t := ks)) u))"
  proof (cases "npar x = None")
    case True
    then have "keyed (trace_id d ` {1..b}) (roots L @ [ntrace x]) (\<lambda>u. roots ((K(t := ks)) u))"
      by (intro keyed_pop_stack [where f = roots and K = K, OF conjunct1 [OF conjunct2 [OF inv]]]) (simp add: K)
    then show ?thesis using True by simp
  next
    case False
    then have "(\<lambda>u. roots ((K(t := ks)) u)) = (\<lambda>u. roots (K u))" using K by (auto simp: fun_eq_iff)
    then show ?thesis using conjunct1 [OF conjunct2 [OF inv]] by (simp only: roots_simps False if_False append_Nil2)
  qed
  have ch: "chained None (ks @ [x])" using inv K by metis
  then show "chained None ((K(t := ks)) u)" for u using inv by (simp add: chained_snoc)
  show "parent_kept (L @ [x]) (K(t := ks)) i" if "i < length (L @ [x])" for i
  proof (cases "i < length L")
    case True
    then show ?thesis using inv K by (intro parent_kept_snoc [of i L K]) auto
  next
    case False
    then have "i = length L" using that by simp
    then show ?thesis using ch by (auto simp: parent_kept_def chained_snoc split: if_splits intro!: exI [of _ t] bexI [of _ "last ks"])
  qed
qed

lemma forest_emit:
  assumes "forest a b d L K" and "Suc a < 2 ^ 64" "Suc b < 2 ^ 64"
    and x: "nid x = span_id (Suc a)" "npar x = None" "ntrace x = trace_id d (Suc b)"
  shows "forest (Suc a) (Suc b) d (L @ [x]) K"
  unfolding forest_def
proof (intro conjI allI impI)
  note inv = assms(1) [unfolded forest_def]
  show "keyed (span_id ` {1..Suc a}) (map nid (L @ [x])) (\<lambda>u. map nid (K u))"
    using keyed_emit [OF conjunct1 [OF inv] fresh_span_id(1) [OF assms(2)]] x(1) by (simp only: fresh_span_id(2) [OF assms(2)] map_append list.map)
  show "keyed (trace_id d ` {1..Suc b}) (roots (L @ [x])) (\<lambda>u. roots (K u))"
    using keyed_emit [OF conjunct1 [OF conjunct2 [OF inv]] fresh_trace_id(1) [OF assms(3)]] x
    by (simp add: fresh_trace_id(2) [OF assms(3)] del: One_nat_def)
  show "chained None (K u)" for u using inv by blast
  show "parent_kept (L @ [x]) K i" if "i < length (L @ [x])" for i
  proof (cases "i < length L")
    case True
    then show ?thesis using inv by (intro parent_kept_snoc [of i L K]) auto
  next
    case False
    then show ?thesis using that x(2) by (simp add: parent_kept_def nth_append)
  qed
qed

section \<open>Every interleaving keeps the forest\<close>

text \<open>After at most \<open>n\<close> operations: counters count what was minted, and log and stacks form a forest.\<close>

definition obs_inv :: "nat \<Rightarrow> ('f, 'f FinishedSpan list) obs \<Rightarrow> bool" where
  "obs_inv n s \<longleftrightarrow> (\<exists>log a b. obs_exporter s = Some log \<and> a \<le> n \<and> b \<le> n \<and>
     span_counter s = of_nat a \<and> trace_counter s = of_nat b \<and> (obs_seed s = None \<longrightarrow> b = 0) \<and>
     forest a b (the (obs_seed s)) (map span_node log) (\<lambda>t. map live_node (stacks s t)))"

lemma forest_any_seed: "forest a 0 d L K \<Longrightarrow> forest a 0 d' L K"
  by (simp add: forest_def)

lemma last_map: "xs \<noteq> [] \<Longrightarrow> last (map f xs) = f (last xs)"
  by (induction xs) auto

lemma map_top: "xs \<noteq> [] \<Longrightarrow> map f xs = map f (butlast xs) @ [f (last xs)]"
  by (induction xs) auto

lemma finish_node: "span_node (finish c l) = live_node l"
  by (simp add: span_node_def finish_def live_node_def)

lemma stack_upd: "(\<lambda>u. map f ((S(t := xs)) u)) = (\<lambda>u. map f (S u))(t := map f xs)"
  by auto

text \<open>Adding fields or events to the current span keeps its links.\<close>

lemma obs_inv_touch:
  assumes "obs_inv n s" and "\<And>l. live_node (f l) = live_node l"
  shows "obs_inv n (on_top f t s)"
proof (cases "stacks s t = []")
  case True
  then show ?thesis using assms(1) by (simp add: on_top_def)
next
  case False
  then have "map live_node (butlast (stacks s t) @ [f (last (stacks s t))]) = map live_node (stacks s t)"
    using assms(2) by (simp add: map_top [of "stacks s t"])
  then have "(\<lambda>u. map live_node (stacks (on_top f t s) u)) = (\<lambda>u. map live_node (stacks s u))"
    using False by (auto simp: on_top_def fun_eq_iff)
  then show ?thesis using assms(1) False by (simp add: obs_inv_def on_top_def)
qed

lemma obs_invI:
  "obs_exporter s = Some log \<Longrightarrow> a \<le> n \<Longrightarrow> b \<le> n \<Longrightarrow> span_counter s = of_nat a \<Longrightarrow> trace_counter s = of_nat b \<Longrightarrow>
   (obs_seed s = None \<Longrightarrow> b = 0) \<Longrightarrow> forest a b (the (obs_seed s)) (map span_node log) (\<lambda>t. map live_node (stacks s t)) \<Longrightarrow>
   obs_inv n s"
  unfolding obs_inv_def by (rule exI [of _ log], rule exI [of _ a], rule exI [of _ b]) simp

lemma obs_invE:
  assumes "obs_inv n s"
  obtains log a b where "obs_exporter s = Some log" "a \<le> n" "b \<le> n" "span_counter s = of_nat a" "trace_counter s = of_nat b"
    "obs_seed s = None \<longrightarrow> b = 0" "forest a b (the (obs_seed s)) (map span_node log) (\<lambda>t. map live_node (stacks s t))"
  using assms unfolding obs_inv_def by (elim exE conjE) (rule that)

lemma obs_inv_mono: "obs_inv n s \<Longrightarrow> n \<le> m \<Longrightarrow> obs_inv m s"
proof -
  assume "obs_inv n s" and nm: "n \<le> m"
  from this(1) show ?thesis
  proof (rule obs_invE)
    fix log a b
    assume "obs_exporter s = Some log" "a \<le> n" "b \<le> n" "span_counter s = of_nat a" "trace_counter s = of_nat b"
      "obs_seed s = None \<longrightarrow> b = 0" "forest a b (the (obs_seed s)) (map span_node log) (\<lambda>t. map live_node (stacks s t))"
    then show "obs_inv m s" using nm by (intro obs_invI [of s log a m b]) simp_all
  qed
qed

text \<open>What minting a trace does, whether or not the seed was set.\<close>

lemma new_trace_id_mints:
  assumes "obs_seed s = None \<longrightarrow> b = 0" and "trace_counter s = of_nat b" and "new_trace_id c s = (tid, s')"
    and "forest a b (the (obs_seed s)) L K"
  obtains d where "tid = trace_id d (Suc b)" "s' = s\<lparr>trace_counter := of_nat (Suc b), obs_seed := Some d\<rparr>" "forest a b d L K"
proof -
  let ?d = "case obs_seed s of None \<Rightarrow> of_nat (unix_nanos c) | Some n \<Rightarrow> n"
  show thesis
  proof (rule that)
    show "tid = trace_id ?d (Suc b)" "s' = s\<lparr>trace_counter := of_nat (Suc b), obs_seed := Some ?d\<rparr>"
      using assms(2,3) by (cases s; auto simp: new_trace_id_def seed_def trace_id_def Let_def add.commute split: option.splits prod.splits)+
    show "forest a b ?d L K" using assms(1,4) forest_any_seed by (cases "obs_seed s") auto
  qed
qed

lemma obs_inv_enter:
  assumes "obs_inv n s" and "Suc n < 2 ^ 64"
  shows "obs_inv (Suc n) (snd (enter t c sp s))"
proof (cases "enabled s (sp_level sp)")
  case False
  then show ?thesis using obs_inv_mono [OF assms(1)] by (simp add: enter_def)
next
  case on: True
  from assms(1) obtain log a b where i: "obs_exporter s = Some log" "a \<le> n" "b \<le> n" "span_counter s = of_nat a"
    "trace_counter s = of_nat b" "obs_seed s = None \<longrightarrow> b = 0"
    "forest a b (the (obs_seed s)) (map span_node log) (\<lambda>t. map live_node (stacks s t))" by (rule obs_invE)
  show ?thesis
  proof (cases "stacks s t = []")
    case True
    obtain tid s1 where mint: "new_trace_id c s = (tid, s1)" by (cases "new_trace_id c s")
    from new_trace_id_mints [OF i(6,5) mint i(7)] obtain d where
      d: "tid = trace_id d (Suc b)" "s1 = s\<lparr>trace_counter := of_nat (Suc b), obs_seed := Some d\<rparr>"
        "forest a b d (map span_node log) (\<lambda>t. map live_node (stacks s t))" by blast
    let ?x = "\<lparr>nid = span_id (Suc a), npar = None, ntrace = tid\<rparr>"
    have "forest (Suc a) (Suc b) d (map span_node log) ((\<lambda>t. map live_node (stacks s t))(t := [?x]))"
      by (rule forest_root [OF d(3)]) (use i(2,3) assms(2) True d(1) in simp_all)
    then show ?thesis using on True mint d(2) i
      by (intro obs_invI [of _ log "Suc a" "Suc n" "Suc b"])
        (simp_all add: enter_def new_span_id_def Let_def stack_upd live_node_def span_id_def add.commute del: fun_upd_apply)
  next
    case False
    let ?top = "last (stacks s t)"
    let ?x = "\<lparr>nid = span_id (Suc a), npar = Some (l_span_id ?top), ntrace = l_trace_id ?top\<rparr>"
    have "forest (Suc a) b (the (obs_seed s)) (map span_node log)
        ((\<lambda>t. map live_node (stacks s t))(t := map live_node (stacks s t) @ [?x]))"
      by (rule forest_child [OF i(7)]) (use i(2) assms(2) False in \<open>simp_all add: last_map live_node_def\<close>)
    then show ?thesis using on False i
      by (intro obs_invI [of _ log "Suc a" "Suc n" b])
        (simp_all add: enter_def new_span_id_def Let_def stack_upd live_node_def span_id_def add.commute del: fun_upd_apply)
  qed
qed

lemma obs_inv_finish:
  assumes "obs_inv n s"
  shows "obs_inv n (guard_drop collector active t c s)"
proof (cases "\<not> active \<or> stacks s t = []")
  case True
  then show ?thesis using assms by (auto simp: guard_drop_def)
next
  case False
  from assms obtain log a b where i: "obs_exporter s = Some log" "a \<le> n" "b \<le> n" "span_counter s = of_nat a"
    "trace_counter s = of_nat b" "obs_seed s = None \<longrightarrow> b = 0"
    "forest a b (the (obs_seed s)) (map span_node log) (\<lambda>t. map live_node (stacks s t))" by (rule obs_invE)
  from False have "map live_node (stacks s t) = map live_node (butlast (stacks s t)) @ [live_node (last (stacks s t))]"
    by (intro map_top) simp
  from forest_finish [OF i(7) this]
  have "forest a b (the (obs_seed s)) (map span_node log @ [span_node (finish c (last (stacks s t)))])
      ((\<lambda>t. map live_node (stacks s t))(t := map live_node (butlast (stacks s t))))"
    by (simp only: finish_node)
  then show ?thesis using False i
    by (intro obs_invI [of _ "log @ [finish c (last (stacks s t))]" a n b])
      (simp_all add: guard_drop_def export_def collector_def stack_upd del: fun_upd_apply)
qed

lemma obs_inv_event:
  assumes "obs_inv n s" and "Suc n < 2 ^ 64"
  shows "obs_inv (Suc n) (event collector t c lv msg fs s)"
proof (cases "\<not> enabled s lv \<or> stacks s t \<noteq> []")
  case True
  have "obs_inv (Suc n) s" using obs_inv_mono [OF assms(1)] by simp
  then show ?thesis using True by (auto simp: event_def Let_def live_node_def intro: obs_inv_touch)
next
  case False
  from assms(1) obtain log a b where i: "obs_exporter s = Some log" "a \<le> n" "b \<le> n" "span_counter s = of_nat a"
    "trace_counter s = of_nat b" "obs_seed s = None \<longrightarrow> b = 0"
    "forest a b (the (obs_seed s)) (map span_node log) (\<lambda>t. map live_node (stacks s t))" by (rule obs_invE)
  obtain tid s1 where mint: "new_trace_id c s = (tid, s1)" by (cases "new_trace_id c s")
  from new_trace_id_mints [OF i(6,5) mint i(7)] obtain d where
    d: "tid = trace_id d (Suc b)" "s1 = s\<lparr>trace_counter := of_nat (Suc b), obs_seed := Some d\<rparr>"
      "forest a b d (map span_node log) (\<lambda>t. map live_node (stacks s t))" by blast
  let ?f = "\<lparr>fs_name = ''event'', fs_trace_id = tid, fs_span_id = span_id (Suc a), fs_parent_id = None, fs_level = lv,
    fs_start_unix_nanos = unix_nanos c, fs_duration_nanos = 0, fs_fields = [],
    fs_events = [\<lparr>ev_level = lv, ev_message = msg, ev_fields = fs, ev_unix_nanos = unix_nanos c\<rparr>]\<rparr>"
  have "forest (Suc a) (Suc b) d (map span_node log @ [\<lparr>nid = span_id (Suc a), npar = None, ntrace = tid\<rparr>])
      (\<lambda>t. map live_node (stacks s t))"
    by (rule forest_emit [OF d(3)]) (use i(2,3) assms(2) d(1) in simp_all)
  then have "forest (Suc a) (Suc b) d (map span_node (log @ [?f])) (\<lambda>t. map live_node (stacks s t))"
    by (simp add: span_node_def)
  then show ?thesis using False mint d(2) i
    by (intro obs_invI [of _ "log @ [?f]" "Suc a" "Suc n" "Suc b"])
      (simp_all add: event_def new_span_id_def Let_def export_def collector_def span_id_def add.commute)
qed

lemma obs_inv_do: "obs_inv n s \<Longrightarrow> Suc n < 2 ^ 64 \<Longrightarrow> obs_inv (Suc n) (obs_do collector x s)"
proof (cases x)
  case (Record active t k v)
  assume "obs_inv n s" then have "obs_inv (Suc n) s" by (rule obs_inv_mono) simp
  then show ?thesis using Record by (auto simp: guard_record_def live_node_def intro: obs_inv_touch)
next
  case (Note active t c lv msg fs)
  assume "obs_inv n s" then have "obs_inv (Suc n) s" by (rule obs_inv_mono) simp
  then show ?thesis using Note by (auto simp: guard_event_def live_node_def intro: obs_inv_touch)
next
  case (Set_level l)
  assume "obs_inv n s" then have "obs_inv (Suc n) s" by (rule obs_inv_mono) simp
  then show ?thesis using Set_level by (simp add: obs_inv_def set_level_def)
qed (auto intro: obs_inv_enter obs_inv_event obs_inv_finish obs_inv_mono)

lemma obs_inv_run: "obs_inv n s \<Longrightarrow> n + length acts < 2 ^ 64 \<Longrightarrow> obs_inv (n + length acts) (obs_run collector acts s)"
proof (induction acts arbitrary: n s)
  case (Cons x acts)
  have "obs_inv (Suc n) (obs_do collector x s)" using Cons.prems by (intro obs_inv_do) simp_all
  from Cons.IH [OF this] Cons.prems(2) show ?case by (simp add: obs_run_def)
qed (simp add: obs_run_def)

lemma obs_inv_start: "obs_inv 0 (set_exporter [] obs_start)"
  by (simp add: obs_inv_def set_exporter_def obs_start_def forest_def keyed_def)

text \<open>C17: However the operations of the threads interleave, as long as fewer than 2 to the 64 are made, the exporter receives
  no span identifier twice and no two roots of one trace, and the parent of an exported span, in the same trace, is exported
  after it or still open.\<close>

theorem obs_span_forest:
  assumes "length acts < 2 ^ 64"
  shows "\<exists>log. obs_exporter (obs_run collector acts (set_exporter [] obs_start)) = Some log \<and>
    distinct (map fs_span_id log) \<and>
    distinct (map fs_trace_id (filter (\<lambda>f. fs_parent_id f = None) log)) \<and>
    (\<forall>i < length log. \<forall>p. fs_parent_id (log ! i) = Some p \<longrightarrow>
       (\<exists>j. i < j \<and> j < length log \<and> fs_span_id (log ! j) = p \<and> fs_trace_id (log ! j) = fs_trace_id (log ! i)) \<or>
       (\<exists>t. \<exists>l\<in>set (stacks (obs_run collector acts (set_exporter [] obs_start)) t).
          l_span_id l = p \<and> l_trace_id l = fs_trace_id (log ! i)))"
proof -
  let ?s = "obs_run collector acts (set_exporter [] obs_start)"
  have "obs_inv (length acts) ?s" using obs_inv_run [OF obs_inv_start, of acts] assms by simp
  then obtain log a b where log: "obs_exporter ?s = Some log"
    and f: "forest a b (the (obs_seed ?s)) (map span_node log) (\<lambda>t. map live_node (stacks ?s t))" by (rule obs_invE)
  have "roots (map span_node log) = map fs_trace_id (filter (\<lambda>f. fs_parent_id f = None) log)"
    by (induction log) (simp_all add: roots_def span_node_def)
  moreover have "map nid (map span_node log) = map fs_span_id log" by (simp add: span_node_def)
  ultimately have d: "distinct (map fs_span_id log)" "distinct (map fs_trace_id (filter (\<lambda>f. fs_parent_id f = None) log))"
    using f keyedD(1) unfolding forest_def by metis+
  have "\<forall>i < length log. parent_kept (map span_node log) (\<lambda>t. map live_node (stacks ?s t)) i" using f by (simp add: forest_def)
  then show ?thesis using log d
    by (intro exI [of _ log]) (simp add: parent_kept_def span_node_def live_node_def cong: conj_cong)
qed

theorem obs_span_forest_witness:
  "\<exists>log. obs_exporter (obs_run collector two_threads (set_exporter [] obs_start)) = Some log \<and> distinct (map fs_span_id log)"
  using obs_span_forest [of two_threads] by (auto simp: two_threads_def)

text \<open>
  A guard does not know its span: fields recorded through the guard of the outer of two entered spans go to the inner one.
\<close>

lemma outer_record_on_inner:
  "stacks s t = [outer, inner] \<Longrightarrow>
   stacks (guard_record True t k v s) t = [outer, inner\<lparr>l_fields := l_fields inner @ [(k, v)]\<rparr>]"
  by (simp add: guard_record_def on_top_def)

text \<open>The filter compares as the levels are ordered, and reads back what was set.\<close>

lemma level_round_trip: "get_level (set_level l s) = l"
  by (cases l) (simp_all add: get_level_def set_level_def level_from_u8_def)

end
