(* ===== verification/Obs_Otlp.thy ===== *)
theory Obs_Otlp
  imports Obs Http_Download
begin

text \<open>
  The OTLP exporter, \<^verbatim>\<open>obs/otlp.rs\<close>: the document of a batch, and the background task that batches the spans it
  receives over its channel. The requests handed to the HTTP client are collected; what becomes of them is ignored, as in the
  code.
\<close>

section \<open>Documents\<close>

definition any_value :: "'f float_ops \<Rightarrow> 'f Value \<Rightarrow> 'f Value" where
  "any_value F v = (case v of
     Str s \<Rightarrow> Object [(''stringValue'', Str s)]
   | Bool b \<Rightarrow> Object [(''boolValue'', Bool b)]
   | IntV i \<Rightarrow> Object [(''intValue'', Str (int_text i))]
   | UInt u \<Rightarrow> Object [(''intValue'', Str (decimal (unat u)))]
   | Float f \<Rightarrow> Object [(''doubleValue'', Float f)]
   | _ \<Rightarrow> Object [(''stringValue'', Str (to_string F v))])"

definition attribute :: "'f float_ops \<Rightarrow> string \<Rightarrow> 'f Value \<Rightarrow> 'f Value" where
  "attribute F k v = Object [(''key'', Str k), (''value'', any_value F v)]"

definition attributes :: "'f float_ops \<Rightarrow> (string \<times> 'f Value) list \<Rightarrow> 'f Value" where
  "attributes F fs = Array (map (\<lambda>(k, v). attribute F k v) fs)"

definition u128_saturating_add :: "nat \<Rightarrow> nat \<Rightarrow> nat" where
  "u128_saturating_add m n = min (m + n) (2 ^ 128 - 1)"

definition otlp_span :: "'f float_ops \<Rightarrow> 'f FinishedSpan \<Rightarrow> 'f Value" where
  "otlp_span F s =
     (let stop = u128_saturating_add (fs_start_unix_nanos s) (fs_duration_nanos s)
      in Object (
        [(''traceId'', Str (fs_trace_id s)),
         (''spanId'', Str (fs_span_id s)),
         (''name'', Str (fs_name s)),
         (''kind'', IntV 1),
         (''startTimeUnixNano'', Str (decimal (fs_start_unix_nanos s))),
         (''endTimeUnixNano'', Str (decimal stop)),
         (''attributes'', attributes F (fs_fields s))] @
        (case fs_parent_id s of Some p \<Rightarrow> [(''parentSpanId'', Str p)] | None \<Rightarrow> []) @
        (if fs_events s \<noteq> [] then
           [(''events'', Array (map (\<lambda>e. Object
              [(''timeUnixNano'', Str (decimal (ev_unix_nanos e))),
               (''name'', Str (ev_message e)),
               (''attributes'', attributes F (ev_fields e))]) (fs_events s)))]
         else [])))"

definition otlp_document :: "'f float_ops \<Rightarrow> string \<Rightarrow> 'f FinishedSpan list \<Rightarrow> 'f Value" where
  "otlp_document F service spans =
     (let span_values = map (otlp_span F) spans;
          resource = Object [(''attributes'', Array [attribute F ''service.name'' (Str service)])];
          scope_spans = Object [(''scope'', Object [(''name'', Str ''ferroly'')]), (''spans'', Array span_values)];
          resource_spans = Object [(''resource'', resource), (''scopeSpans'', Array [scope_spans])]
      in Object [(''resourceSpans'', Array [resource_spans])])"

section \<open>The background task\<close>

definition BATCH_LIMIT :: nat where
  "BATCH_LIMIT = 512"

datatype 'f Msg = SpanMsg "'f FinishedSpan" | FlushMsg

text \<open>
  The channel, whether a sender is left, whether the task runs, its buffer, and the requests it has handed to the client.
\<close>

record 'f otlp =
  chan :: "'f Msg list"
  senders :: bool
  task_on :: bool
  buf :: "'f FinishedSpan list"
  posted :: "Request list"

definition otlp_new :: "'f otlp" where
  "otlp_new = \<lparr>chan = [], senders = True, task_on = True, buf = [], posted = []\<rparr>"

text \<open>\<^verbatim>\<open>tx.send\<close> fails once the receiver is gone.\<close>

definition tx_send :: "'f Msg \<Rightarrow> 'f otlp \<Rightarrow> 'f otlp" where
  "tx_send m s = (if task_on s then s\<lparr>chan := chan s @ [m]\<rparr> else s)"

definition otlp_exporter :: "('f, 'f otlp) Exporter" where
  "otlp_exporter = \<lparr>ex_export = (\<lambda>f. tx_send (SpanMsg f)), ex_flush = tx_send FlushMsg\<rparr>"

definition post :: "'f float_ops \<Rightarrow> string \<Rightarrow> string \<Rightarrow> 'f otlp \<Rightarrow> 'f otlp" where
  "post F endpoint service s =
     (if buf s = [] then s
      else
        let payload = to_string F (otlp_document F service (buf s)); s = s\<lparr>buf := []\<rparr>
        in case builder Post endpoint of
             Ok req \<Rightarrow>
               s\<lparr>posted := posted s @ [builder_body payload (builder_header ''content-type'' ''application/json'' req)]\<rparr>
           | Err _ \<Rightarrow> s)"

text \<open>Which branch of \<^verbatim>\<open>select!\<close> runs; receiving from an empty channel waits while a sender is left.\<close>

datatype wake = Recv | Tick

definition otlp_wake :: "'f float_ops \<Rightarrow> string \<Rightarrow> string \<Rightarrow> wake \<Rightarrow> 'f otlp \<Rightarrow> 'f otlp" where
  "otlp_wake F endpoint service w s =
     (if \<not> task_on s then s
      else case w of
        Tick \<Rightarrow> post F endpoint service s
      | Recv \<Rightarrow> (case chan s of
            SpanMsg f # rest \<Rightarrow>
              (let s = s\<lparr>chan := rest, buf := buf s @ [f]\<rparr>
               in if length (buf s) \<ge> BATCH_LIMIT then post F endpoint service s else s)
          | FlushMsg # rest \<Rightarrow> post F endpoint service (s\<lparr>chan := rest\<rparr>)
          | [] \<Rightarrow> if senders s then s else (post F endpoint service s)\<lparr>task_on := False\<rparr>))"

text \<open>The program and the task interleaved: an operation of \<^verbatim>\<open>obs\<close>, a flush, or a turn of the task.\<close>

datatype 'f step = Act "'f action" | Flush | Wake wake

fun otlp_do :: "'f float_ops \<Rightarrow> string \<Rightarrow> string \<Rightarrow> 'f step \<Rightarrow> ('f, 'f otlp) obs \<Rightarrow> ('f, 'f otlp) obs" where
  "otlp_do F endpoint service (Act x) s = obs_do otlp_exporter x s"
| "otlp_do F endpoint service Flush s = obs_flush otlp_exporter s"
| "otlp_do F endpoint service (Wake w) s = s\<lparr>obs_exporter := map_option (otlp_wake F endpoint service w) (obs_exporter s)\<rparr>"

definition otlp_run :: "'f float_ops \<Rightarrow> string \<Rightarrow> string \<Rightarrow> 'f step list \<Rightarrow> ('f, 'f otlp) obs \<Rightarrow> ('f, 'f otlp) obs" where
  "otlp_run F endpoint service xs s = foldl (\<lambda>s x. otlp_do F endpoint service x s) s xs"

fun acts_of :: "'f step list \<Rightarrow> 'f action list" where
  "acts_of [] = []"
| "acts_of (Act x # xs) = x # acts_of xs"
| "acts_of (_ # xs) = acts_of xs"

section \<open>Documents are shallow\<close>

text \<open>Nested field values are rendered as strings, so a document never reaches the nesting limit of the JSON parser.\<close>

lemma depth_list_le: "depth_list vs \<le> n \<longleftrightarrow> (\<forall>v\<in>set vs. depth_of v \<le> n)"
  by (induction vs) auto

lemma depth_entries_append: "depth_entries (xs @ ys) = max (depth_entries xs) (depth_entries ys)"
  by (induction xs) auto

lemma depth_any_value: "depth_of (any_value F v) = 1"
  by (cases v) (simp_all add: any_value_def)

lemma depth_attribute: "depth_of (attribute F k v) = 2"
  by (simp add: attribute_def depth_any_value)

lemma depth_attributes: "depth_of (attributes F fs) \<le> 3"
  by (auto simp: attributes_def depth_list_le depth_attribute numeral_3_eq_3)

lemma depth_otlp_span: "depth_of (otlp_span F s) \<le> 6"
proof -
  have e: "depth_list (map (\<lambda>e. Object [(''timeUnixNano'', Str (decimal (ev_unix_nanos e))), (''name'', Str (ev_message e)),
      (''attributes'', attributes F (ev_fields e))]) es) \<le> 4" for es
    unfolding depth_list_le using depth_attributes [of F] by (auto simp: numeral_eq_Suc)
  show ?thesis using depth_attributes [of F "fs_fields s"] e [of "fs_events s"]
    by (cases "fs_parent_id s") (simp_all add: otlp_span_def Let_def depth_entries_append)
qed

lemma depth_otlp_document: "depth_of (otlp_document F service spans) \<le> 12"
proof -
  have "depth_list (map (otlp_span F) spans) \<le> 6" unfolding depth_list_le using depth_otlp_span [of F] by auto
  then show ?thesis by (simp add: otlp_document_def Let_def depth_attribute)
qed

lemma otlp_document_parses:
  "float_ok F \<Longrightarrow> from_str F (to_string F (otlp_document F service spans)) = Some (Ok (normal F (otlp_document F service spans)))"
  using depth_otlp_document [of F service spans] by (intro from_str_printed) (simp_all add: max_depth_def)

section \<open>Nothing is lost or repeated\<close>

fun spans_of :: "'f Msg list \<Rightarrow> 'f FinishedSpan list" where
  "spans_of [] = []"
| "spans_of (SpanMsg f # ms) = f # spans_of ms"
| "spans_of (FlushMsg # ms) = spans_of ms"

lemma spans_of_append [simp]: "spans_of (xs @ ys) = spans_of xs @ spans_of ys"
  by (induction xs rule: spans_of.induct) simp_all

definition batch_request :: "'f float_ops \<Rightarrow> Request \<Rightarrow> string \<Rightarrow> 'f FinishedSpan list \<Rightarrow> Request" where
  "batch_request F req service b =
     builder_body (to_string F (otlp_document F service b)) (builder_header ''content-type'' ''application/json'' req)"

text \<open>The batches posted, the buffer and the channel hold exactly the exported spans, in order.\<close>

definition batched :: "'f float_ops \<Rightarrow> Request \<Rightarrow> string \<Rightarrow> 'f otlp \<Rightarrow> 'f FinishedSpan list \<Rightarrow> 'f FinishedSpan list list \<Rightarrow> bool" where
  "batched F req service s log bs \<longleftrightarrow>
     posted s = map (batch_request F req service) bs \<and> concat bs @ buf s @ spans_of (chan s) = log \<and>
     (\<forall>b\<in>set bs. b \<noteq> [] \<and> length b \<le> BATCH_LIMIT)"

definition otlp_inv :: "'f float_ops \<Rightarrow> Request \<Rightarrow> string \<Rightarrow> 'f otlp \<Rightarrow> 'f FinishedSpan list \<Rightarrow> bool" where
  "otlp_inv F req service s log \<longleftrightarrow> task_on s \<and> senders s \<and> length (buf s) < BATCH_LIMIT \<and> (\<exists>bs. batched F req service s log bs)"

lemma batched_post:
  assumes "builder Post endpoint = Ok req" and "length (buf s) \<le> BATCH_LIMIT" and "batched F req service s log bs"
  shows "\<exists>bs. batched F req service (post F endpoint service s) log bs"
proof (cases "buf s = []")
  case True
  then show ?thesis using assms(3) by (auto simp: post_def)
next
  case False
  then have "batched F req service (post F endpoint service s) log (bs @ [buf s])"
    using assms by (simp add: post_def batched_def Let_def batch_request_def ball_Un)
  then show ?thesis by blast
qed

lemma post_fields [simp]:
  "buf (post F endpoint service s) = []" "task_on (post F endpoint service s) = task_on s"
  "senders (post F endpoint service s) = senders s" "chan (post F endpoint service s) = chan s"
  by (auto simp: post_def Let_def split: sum.splits)

lemma otlp_inv_send:
  "otlp_inv F req service s log \<Longrightarrow> otlp_inv F req service (tx_send (SpanMsg f) s) (log @ [f])"
  "otlp_inv F req service s log \<Longrightarrow> otlp_inv F req service (tx_send FlushMsg s) log"
  by (auto simp: otlp_inv_def tx_send_def batched_def)

lemma otlp_inv_post:
  assumes "builder Post endpoint = Ok req" and "length (buf s) \<le> BATCH_LIMIT" "task_on s" "senders s" "batched F req service s log bs"
  shows "otlp_inv F req service (post F endpoint service s) log"
  using batched_post [OF assms(1,2,5)] assms(3,4) by (simp add: otlp_inv_def BATCH_LIMIT_def)

lemma otlp_inv_wake:
  assumes "builder Post endpoint = Ok req" and "otlp_inv F req service s log"
  shows "otlp_inv F req service (otlp_wake F endpoint service w s) log"
proof -
  from assms(2) obtain bs where i: "task_on s" "senders s" "length (buf s) < BATCH_LIMIT" "batched F req service s log bs"
    by (auto simp: otlp_inv_def)
  show ?thesis
  proof (cases w)
    case Tick
    then show ?thesis using i otlp_inv_post [OF assms(1) _ i(1,2,4)] by (simp add: otlp_wake_def)
  next
    case Recv
    show ?thesis
    proof (cases "chan s")
      case Nil
      then show ?thesis using Recv i assms(2) by (simp add: otlp_wake_def)
    next
      case (Cons m rest)
      show ?thesis
      proof (cases m)
        case (SpanMsg f)
        let ?s = "s\<lparr>chan := rest, buf := buf s @ [f]\<rparr>"
        have "batched F req service ?s log bs" using i(4) Cons SpanMsg by (simp add: batched_def)
        then show ?thesis using i otlp_inv_post [OF assms(1), of ?s F service log bs] Recv Cons SpanMsg
          by (auto simp: otlp_wake_def Let_def otlp_inv_def)
      next
        case FlushMsg
        have "batched F req service (s\<lparr>chan := rest\<rparr>) log bs" using i(4) Cons FlushMsg by (simp add: batched_def)
        then show ?thesis using i otlp_inv_post [OF assms(1), of "s\<lparr>chan := rest\<rparr>" F service log bs] Recv Cons FlushMsg
          by (simp add: otlp_wake_def)
      qed
    qed
  qed
qed

interpretation otlp_sink: exporter_relation otlp_exporter collector "otlp_inv F req service"
  by unfold_locales (simp add: otlp_exporter_def collector_def otlp_inv_send)

lemma alike_run_otlp:
  assumes "builder Post endpoint = Ok req"
  shows "alike (otlp_inv F req service) s s' \<Longrightarrow>
    alike (otlp_inv F req service) (otlp_run F endpoint service xs s) (obs_run collector (acts_of xs) s')"
proof (induction xs arbitrary: s s')
  case (Cons x xs)
  have other: "alike (otlp_inv F req service) (s\<lparr>obs_exporter := map_option g (obs_exporter s)\<rparr>) s'"
    if "\<And>e log. otlp_inv F req service e log \<Longrightarrow> otlp_inv F req service (g e) log" for g
    using Cons.prems that unfolding alike_def carry_update by (auto simp: option.rel_map elim!: option.rel_mono_strong)
  show ?case
  proof (cases x)
    case (Act y)
    from otlp_sink.alike_do [OF Cons.prems, of y] have
      "alike (otlp_inv F req service) (obs_do otlp_exporter y s) (obs_do collector y s')" .
    from Cons.IH [OF this] show ?thesis using Act by (simp add: otlp_run_def obs_run_def)
  next
    case Flush
    have "alike (otlp_inv F req service) (obs_flush otlp_exporter s) s'"
      unfolding obs_flush_def by (rule other) (simp add: otlp_exporter_def otlp_inv_send)
    from Cons.IH [OF this] show ?thesis using Flush by (simp add: otlp_run_def)
  next
    case (Wake w)
    from other [of "otlp_wake F endpoint service w"]
    have "alike (otlp_inv F req service) (otlp_do F endpoint service (Wake w) s) s'" by (simp add: otlp_inv_wake [OF assms])
    from Cons.IH [OF this] show ?thesis using Wake by (simp add: otlp_run_def)
  qed
qed (simp add: otlp_run_def obs_run_def)

text \<open>C18: However the program, its flushes and the background task interleave, the requests posted to the collector, the
  task's buffer and its channel hold exactly the spans finished so far, in order and each once; every request carries between
  one and 512 spans in a body that the JSON parser reads back.\<close>

theorem otlp_delivers:
  assumes "builder Post endpoint = Ok req" and "float_ok F"
  shows "\<exists>st bs. obs_exporter (otlp_run F endpoint service xs (set_exporter otlp_new obs_start)) = Some st \<and>
    posted st = map (batch_request F req service) bs \<and>
    obs_exporter (obs_run collector (acts_of xs) (set_exporter [] obs_start)) = Some (concat bs @ buf st @ spans_of (chan st)) \<and>
    (\<forall>b\<in>set bs. 1 \<le> length b \<and> length b \<le> BATCH_LIMIT \<and>
       from_str F (body (batch_request F req service b)) = Some (Ok (normal F (otlp_document F service b))))"
proof -
  have "alike (otlp_inv F req service) (set_exporter otlp_new obs_start) (set_exporter [] obs_start)"
    by (rule alike_start) (simp add: otlp_inv_def otlp_new_def batched_def BATCH_LIMIT_def)
  from alike_run_otlp [OF assms(1) this, of xs]
  have r: "rel_option (otlp_inv F req service) (obs_exporter (otlp_run F endpoint service xs (set_exporter otlp_new obs_start)))
    (obs_exporter (obs_run collector (acts_of xs) (set_exporter [] obs_start)))" by (simp add: alike_def)
  moreover have "obs_exporter (obs_run collector (acts_of xs) (set_exporter [] obs_start)) \<noteq> None"
    by (rule exporter_stays) (simp add: set_exporter_def)
  ultimately obtain st log where
    "obs_exporter (otlp_run F endpoint service xs (set_exporter otlp_new obs_start)) = Some st"
    "obs_exporter (obs_run collector (acts_of xs) (set_exporter [] obs_start)) = Some log" "otlp_inv F req service st log"
    by (auto elim: option.rel_cases)
  then show ?thesis by (auto simp: otlp_inv_def batched_def batch_request_def builder_body_def otlp_document_parses [OF assms(2)] Suc_le_eq)
qed

theorem otlp_delivers_witness:
  "\<exists>st bs. obs_exporter (otlp_run int_floats ''http://h/v1/traces'' ''svc'' (map Act two_threads @ [Flush, Wake Recv, Wake Tick])
      (set_exporter otlp_new obs_start)) = Some st \<and>
    obs_exporter (obs_run collector (acts_of (map Act two_threads @ [Flush, Wake Recv, Wake Tick])) (set_exporter [] obs_start))
      = Some (concat bs @ buf st @ spans_of (chan st)) \<and>
    posted st = map (batch_request int_floats
      (case builder Post ''http://h/v1/traces'' of Ok req \<Rightarrow> req) ''svc'') bs"
proof -
  obtain req where "builder Post ''http://h/v1/traces'' = Ok req" by (cases "builder Post ''http://h/v1/traces''") (simp_all, code_simp)
  then show ?thesis
    using otlp_delivers [of "''http://h/v1/traces''" req int_floats "''svc''" "map Act two_threads @ [Flush, Wake Recv, Wake Tick]"]
    by (auto simp: int_floats_ok)
qed

text \<open>When the exporter is dropped, the task posts whatever is left and ends.\<close>

lemma otlp_shutdown_posts_all:
  assumes "builder Post endpoint = Ok req"
  shows "chan s = ms \<Longrightarrow> task_on s \<Longrightarrow> \<not> senders s \<Longrightarrow> length (buf s) < BATCH_LIMIT \<Longrightarrow> batched F req service s log bs \<Longrightarrow>
    \<exists>st bs'. st = (otlp_wake F endpoint service Recv ^^ Suc (length ms)) s \<and> \<not> task_on st \<and> batched F req service st log bs' \<and>
      concat bs' = log"
proof (induction ms arbitrary: s bs)
  case Nil
  obtain bs' where b: "batched F req service (post F endpoint service s) log bs'"
    using batched_post [OF assms _ Nil(5)] Nil(4) by auto
  then have "batched F req service ((post F endpoint service s)\<lparr>task_on := False\<rparr>) log bs'" by (simp add: batched_def)
  moreover have "concat bs' = log" using b Nil(1) by (simp add: batched_def)
  ultimately show ?case using Nil by (auto simp: otlp_wake_def)
next
  case (Cons m ms)
  let ?s = "otlp_wake F endpoint service Recv s"
  have "\<exists>bs'. batched F req service ?s log bs' \<and> chan ?s = ms \<and> task_on ?s \<and> \<not> senders ?s \<and> length (buf ?s) < BATCH_LIMIT"
  proof (cases m)
    case (SpanMsg f)
    let ?t = "s\<lparr>chan := ms, buf := buf s @ [f]\<rparr>"
    have t: "batched F req service ?t log bs" using Cons.prems(1,5) SpanMsg by (simp add: batched_def)
    show ?thesis using batched_post [OF assms _ t] t Cons.prems SpanMsg
      by (cases "length (buf ?t) \<ge> BATCH_LIMIT") (auto simp: otlp_wake_def Let_def BATCH_LIMIT_def)
  next
    case FlushMsg
    have t: "batched F req service (s\<lparr>chan := ms\<rparr>) log bs" using Cons.prems(1,5) FlushMsg by (simp add: batched_def)
    show ?thesis using batched_post [OF assms _ t] Cons.prems FlushMsg by (auto simp: otlp_wake_def BATCH_LIMIT_def)
  qed
  then obtain bs' where "batched F req service ?s log bs'" "chan ?s = ms" "task_on ?s" "\<not> senders ?s" "length (buf ?s) < BATCH_LIMIT" by blast
  from Cons.IH [OF this(2-5) this(1)] show ?case by (simp only: funpow_Suc_right o_apply list.size(4) add_Suc_right add_0_right)
qed

text \<open>An endpoint that is no URL loses every span: the buffer is cleared before the request is built.\<close>

lemma otlp_bad_endpoint: "builder Post endpoint = Err e \<Longrightarrow> post F endpoint service s = s\<lparr>buf := []\<rparr>"
  by (cases s) (simp add: post_def Let_def)

end
