(* ===== verification/Vectorstore.thy ===== *)
theory Vectorstore
  imports Rust_Coll Codec_Value "HOL-Library.Char_ord" "HOL-Library.List_Lexorder"
begin

text \<open>
  Vector search (\<^verbatim>\<open>vectorstore/mod.rs\<close>): the similarity metrics, the trait \<^verbatim>\<open>VectorStore\<close> as the locale
  \<open>vector_store\<close>, and the in-memory backend. The arithmetic of \<^verbatim>\<open>f32\<close> and the iteration order of the backend's
  \<^verbatim>\<open>HashMap\<close> are parameters. A \<^verbatim>\<open>debug_assert\<close> that fires is the value \<open>None\<close>.
\<close>

section \<open>Data\<close>

datatype Ordering = Less | Equal | Greater

fun ordering_then :: "Ordering \<Rightarrow> Ordering \<Rightarrow> Ordering" where
  "ordering_then Equal o2 = o2"
| "ordering_then o1 o2 = o1"

definition str_cmp :: "string \<Rightarrow> string \<Rightarrow> Ordering" where
  "str_cmp a b = (if a < b then Less else if a = b then Equal else Greater)"

text \<open>What the store uses of \<^verbatim>\<open>f32\<close>. \<open>r_empty_sum\<close> is what \<^verbatim>\<open>Iterator::sum\<close> starts from, a zero.\<close>

record 'r f32_ops =
  r_add :: "'r \<Rightarrow> 'r \<Rightarrow> 'r"
  r_sub :: "'r \<Rightarrow> 'r \<Rightarrow> 'r"
  r_mul :: "'r \<Rightarrow> 'r \<Rightarrow> 'r"
  r_div :: "'r \<Rightarrow> 'r \<Rightarrow> 'r"
  r_neg :: "'r \<Rightarrow> 'r"
  r_sqrt :: "'r \<Rightarrow> 'r"
  r_zero :: 'r
  r_empty_sum :: 'r
  r_is_nan :: "'r \<Rightarrow> bool"
  r_cmp :: "'r \<Rightarrow> 'r \<Rightarrow> Ordering option"

datatype Metric = Cosine | Dot | Euclidean

record ('r, 'f) Doc =
  doc_id :: string
  doc_vector :: "'r list"
  doc_metadata :: "'f Value"

definition doc_new :: "string \<Rightarrow> 'r list \<Rightarrow> ('r, 'f) Doc" where
  "doc_new i v = \<lparr>doc_id = i, doc_vector = v, doc_metadata = Null\<rparr>"

definition with_metadata :: "'f Value \<Rightarrow> ('r, 'f) Doc \<Rightarrow> ('r, 'f) Doc" where
  "with_metadata m d = d\<lparr>doc_metadata := m\<rparr>"

record 'r Query =
  q_vector :: "'r list"
  top_k :: nat
  q_metric :: Metric

definition query_new :: "'r list \<Rightarrow> nat \<Rightarrow> 'r Query" where
  "query_new v k = \<lparr>q_vector = v, top_k = k, q_metric = Cosine\<rparr>"

definition query_metric :: "Metric \<Rightarrow> 'r Query \<Rightarrow> 'r Query" where
  "query_metric m q = q\<lparr>q_metric := m\<rparr>"

record ('r, 'f) Hit =
  hit_id :: string
  hit_score :: 'r
  hit_doc :: "('r, 'f) Doc"

datatype VectorStoreError = DimMismatch (expected: nat) (got: nat) | Backend string

section \<open>Metrics\<close>

definition sum_f32 :: "'r f32_ops \<Rightarrow> 'r list \<Rightarrow> 'r" where
  "sum_f32 R xs = foldl (r_add R) (r_empty_sum R) xs"

definition dot_self :: "'r f32_ops \<Rightarrow> 'r list \<Rightarrow> 'r" where
  "dot_self R a = sum_f32 R (map (\<lambda>x. r_mul R x x) a)"

definition dot_product :: "bool \<Rightarrow> 'r f32_ops \<Rightarrow> 'r list \<Rightarrow> 'r list \<Rightarrow> 'r option" where
  "dot_product debug R a b =
     (if debug \<and> length a \<noteq> length b then None
      else Some (sum_f32 R (map (\<lambda>(x, y). r_mul R x y) (zip a b))))"

definition cosine :: "bool \<Rightarrow> 'r f32_ops \<Rightarrow> 'r list \<Rightarrow> 'r list \<Rightarrow> 'r option" where
  "cosine debug R a b =
     (if debug \<and> length a \<noteq> length b then None
      else map_option (\<lambda>d.
        let na = r_sqrt R (dot_self R a); nb = r_sqrt R (dot_self R b)
        in if r_cmp R na (r_zero R) = Some Equal \<or> r_cmp R nb (r_zero R) = Some Equal then r_zero R
           else r_div R d (r_mul R na nb)) (dot_product debug R a b))"

definition euclidean :: "bool \<Rightarrow> 'r f32_ops \<Rightarrow> 'r list \<Rightarrow> 'r list \<Rightarrow> 'r option" where
  "euclidean debug R a b =
     (if debug \<and> length a \<noteq> length b then None
      else Some (r_sqrt R (sum_f32 R (map (\<lambda>(x, y). let d = r_sub R x y in r_mul R d d) (zip a b)))))"

fun metric_score :: "bool \<Rightarrow> 'r f32_ops \<Rightarrow> Metric \<Rightarrow> 'r list \<Rightarrow> 'r list \<Rightarrow> 'r option" where
  "metric_score debug R Cosine a b = cosine debug R a b"
| "metric_score debug R Dot a b = dot_product debug R a b"
| "metric_score debug R Euclidean a b = map_option (r_neg R) (euclidean debug R a b)"

section \<open>The in-memory backend\<close>

record ('r, 'f) MemoryStore =
  docs :: "(string \<times> ('r, 'f) Doc) list"
  dim :: "nat option"

definition memory_store_new :: "('r, 'f) MemoryStore" where
  "memory_store_new = \<lparr>docs = [], dim = None\<rparr>"

definition store_len :: "('r, 'f) MemoryStore \<Rightarrow> nat" where
  "store_len st = length (docs st)"

text \<open>\<^verbatim>\<open>HashMap::insert\<close> and \<^verbatim>\<open>HashMap::remove\<close>; the order of the entries means nothing, an iteration sees them in the order
  of the parameter \<open>iter\<close>.\<close>

definition hm_insert :: "'k \<Rightarrow> 'v \<Rightarrow> ('k \<times> 'v) list \<Rightarrow> ('k \<times> 'v) list" where
  "hm_insert k v m = (k, v) # filter (\<lambda>e. fst e \<noteq> k) m"

definition hm_remove :: "'k \<Rightarrow> ('k \<times> 'v) list \<Rightarrow> ('k \<times> 'v) list" where
  "hm_remove k m = filter (\<lambda>e. fst e \<noteq> k) m"

fun check_dims :: "nat option \<Rightarrow> ('r, 'f) Doc list \<Rightarrow> nat option \<times> (unit, VectorStoreError) result" where
  "check_dims d [] = (d, Ok ())"
| "check_dims d (doc # ds) =
     (let e = (case d of None \<Rightarrow> length (doc_vector doc) | Some e \<Rightarrow> e)
      in if length (doc_vector doc) \<noteq> e then (Some e, Err (DimMismatch e (length (doc_vector doc))))
         else check_dims (Some e) ds)"

definition store_upsert :: "('r, 'f) Doc list \<Rightarrow> ('r, 'f) MemoryStore \<Rightarrow> ('r, 'f) MemoryStore \<times> (unit, VectorStoreError) result" where
  "store_upsert ds st = (case check_dims (dim st) ds of
     (d, Err e) \<Rightarrow> (st\<lparr>dim := d\<rparr>, Err e)
   | (d, Ok _) \<Rightarrow> (st\<lparr>dim := d, docs := fold (\<lambda>doc. hm_insert (doc_id doc) doc) ds (docs st)\<rparr>, Ok ()))"

definition store_delete :: "string list \<Rightarrow> ('r, 'f) MemoryStore \<Rightarrow> ('r, 'f) MemoryStore \<times> (unit, VectorStoreError) result" where
  "store_delete ids st = (st\<lparr>docs := fold hm_remove ids (docs st)\<rparr>, Ok ())"

definition hit_cmp :: "'r f32_ops \<Rightarrow> ('r, 'f) Hit \<Rightarrow> ('r, 'f) Hit \<Rightarrow> Ordering" where
  "hit_cmp R a b =
     (let by_score = (case r_cmp R (hit_score b) (hit_score a) of
            Some ord \<Rightarrow> ord
          | None \<Rightarrow> (case (r_is_nan R (hit_score a), r_is_nan R (hit_score b)) of
              (True, False) \<Rightarrow> Greater
            | (False, True) \<Rightarrow> Less
            | _ \<Rightarrow> Equal))
      in ordering_then by_score (str_cmp (hit_id a) (hit_id b)))"

fun collect_hits :: "bool \<Rightarrow> 'r f32_ops \<Rightarrow> 'r Query \<Rightarrow> ('r, 'f) Doc list \<Rightarrow> ('r, 'f) Hit list option" where
  "collect_hits debug R q [] = Some []"
| "collect_hits debug R q (doc # ds) = (case metric_score debug R (q_metric q) (q_vector q) (doc_vector doc) of
     None \<Rightarrow> None
   | Some x \<Rightarrow> map_option (\<lambda>hs. \<lparr>hit_id = doc_id doc, hit_score = x, hit_doc = doc\<rparr> # hs) (collect_hits debug R q ds))"

definition store_search :: "bool \<Rightarrow> 'r f32_ops \<Rightarrow> ((string \<times> ('r, 'f) Doc) list \<Rightarrow> (string \<times> ('r, 'f) Doc) list) \<Rightarrow> 'r Query \<Rightarrow>
    ('r, 'f) MemoryStore \<Rightarrow> (('r, 'f) Hit list, VectorStoreError) result option" where
  "store_search debug R iter q st =
     (case dim st of
        Some d \<Rightarrow> if length (q_vector q) \<noteq> d then Some (Err (DimMismatch d (length (q_vector q))))
                  else map_option (\<lambda>hs. Ok (take (top_k q) (sort_by (\<lambda>a b. hit_cmp R a b \<noteq> Greater) hs)))
                         (collect_hits debug R q (map snd (iter (docs st))))
      | None \<Rightarrow> map_option (\<lambda>hs. Ok (take (top_k q) (sort_by (\<lambda>a b. hit_cmp R a b \<noteq> Greater) hs)))
                         (collect_hits debug R q (map snd (iter (docs st)))))"

section \<open>The contract of a store\<close>

text \<open>The trait \<^verbatim>\<open>VectorStore\<close>: what a client may rely on, whatever the backend. \<open>view\<close> is the collection the store stands for.\<close>

locale vector_store =
  fixes ready :: "'s \<Rightarrow> bool"
    and view :: "'s \<Rightarrow> string \<Rightarrow> ('r, 'f) Doc option"
    and ups :: "('r, 'f) Doc list \<Rightarrow> 's \<Rightarrow> 's \<times> (unit, VectorStoreError) result"
    and del :: "string list \<Rightarrow> 's \<Rightarrow> 's \<times> (unit, VectorStoreError) result"
    and find :: "'r Query \<Rightarrow> 's \<Rightarrow> (('r, 'f) Hit list, VectorStoreError) result option"
  assumes ready_ups: "ready st \<Longrightarrow> ready (fst (ups ds st))"
    and ready_del: "ready st \<Longrightarrow> ready (fst (del ids st))"
    and ups_ok: "ready st \<Longrightarrow> snd (ups ds st) = Ok () \<Longrightarrow>
      view (fst (ups ds st)) = view st ++ map_of (rev (map (\<lambda>d. (doc_id d, d)) ds))"
    and ups_err: "ready st \<Longrightarrow> snd (ups ds st) \<noteq> Ok () \<Longrightarrow> view (fst (ups ds st)) = view st"
    and del_ok: "ready st \<Longrightarrow> snd (del ids st) = Ok () \<and> view (fst (del ids st)) = view st |` (- set ids)"
    and finite_view: "ready st \<Longrightarrow> finite (dom (view st))"
    and find_hits: "ready st \<Longrightarrow> find q st = Some (Ok hs) \<Longrightarrow>
      distinct (map hit_id hs) \<and> length hs = min (top_k q) (card (dom (view st))) \<and>
      (\<forall>h \<in> set hs. view st (hit_id h) = Some (hit_doc h) \<and> hit_id h = doc_id (hit_doc h))"
begin

lemma found_all:
  assumes "ready st" "find q st = Some (Ok hs)" "card (dom (view st)) \<le> top_k q"
  shows "hit_id ` set hs = dom (view st)"
proof (rule card_subset_eq)
  show "finite (dom (view st))" using assms(1) by (rule finite_view)
  show "hit_id ` set hs \<subseteq> dom (view st)" using find_hits [OF assms(1,2)] by auto
  have "card (hit_id ` set hs) = length hs" using find_hits [OF assms(1,2)] distinct_card [of "map hit_id hs"] by simp
  then show "card (hit_id ` set hs) = card (dom (view st))" using find_hits [OF assms(1,2)] assms(3) by simp
qed

text \<open>A document that was accepted is found by a search wide enough, with the content it was given last.\<close>

lemma upserted_found:
  assumes "ready st" "snd (ups ds st) = Ok ()" "d \<in> set ds" "\<forall>d' \<in> set ds. doc_id d' = doc_id d \<longrightarrow> d' = d"
    and "find q (fst (ups ds st)) = Some (Ok hs)" "card (dom (view (fst (ups ds st)))) \<le> top_k q"
  shows "d \<in> hit_doc ` set hs"
proof -
  have r: "ready (fst (ups ds st))" using assms(1) by (rule ready_ups)
  have "map_of (rev (map (\<lambda>d. (doc_id d, d)) ds)) (doc_id d) = Some d"
  proof -
    have "doc_id d \<in> fst ` set (rev (map (\<lambda>d. (doc_id d, d)) ds))" using assms(3) by force
    then obtain d' where "map_of (rev (map (\<lambda>d. (doc_id d, d)) ds)) (doc_id d) = Some d'"
      by (metis (no_types, lifting) domIff dom_map_of_conv_image_fst not_Some_eq)
    then show ?thesis using map_of_SomeD assms(4) by fastforce
  qed
  then have v: "view (fst (ups ds st)) (doc_id d) = Some d" by (simp add: ups_ok [OF assms(1,2)])
  then obtain h where h: "h \<in> set hs" "hit_id h = doc_id d" using found_all [OF r assms(5,6)] by (metis (no_types, lifting) domI imageE)
  have "view (fst (ups ds st)) (hit_id h) = Some (hit_doc h)" using find_hits [OF r assms(5)] h(1) by blast
  then have "hit_doc h = d" using h(2) v by simp
  then show ?thesis using h(1) by blast
qed

text \<open>A document that was removed is never found.\<close>

lemma deleted_not_found:
  assumes "ready st" "i \<in> set ids" "find q (fst (del ids st)) = Some (Ok hs)"
  shows "i \<notin> hit_id ` set hs"
proof
  assume "i \<in> hit_id ` set hs"
  then have "view (fst (del ids st)) i \<noteq> None" using find_hits [OF ready_del [OF assms(1)] assms(3)] by auto
  then show False using del_ok [OF assms(1)] assms(2) by simp
qed

end

section \<open>The in-memory backend keeps the contract\<close>

text \<open>What \<^verbatim>\<open>partial_cmp\<close> of \<^verbatim>\<open>f32\<close> is documented to do: undefined exactly on NaN, and a total order otherwise.\<close>

definition f32_ok :: "'r f32_ops \<Rightarrow> bool" where
  "f32_ok R \<longleftrightarrow>
     (\<forall>a b. (r_cmp R a b = None) = (r_is_nan R a \<or> r_is_nan R b)) \<and>
     (\<forall>a b. (r_cmp R a b = Some Less) = (r_cmp R b a = Some Greater)) \<and>
     (\<forall>a b. r_cmp R a b = Some Equal \<longrightarrow> r_cmp R b a = Some Equal) \<and>
     (\<forall>a b c. r_cmp R a b = Some Less \<longrightarrow> r_cmp R b c = Some Less \<longrightarrow> r_cmp R a c = Some Less) \<and>
     (\<forall>a b c. r_cmp R a b = Some Equal \<longrightarrow> \<not> r_is_nan R c \<longrightarrow> r_cmp R a c = r_cmp R b c)"

text \<open>The invariant: entries sit under their own ids, once, and all have the dimension of the collection.\<close>

definition store_inv :: "('r, 'f) MemoryStore \<Rightarrow> bool" where
  "store_inv st \<longleftrightarrow> distinct (map fst (docs st)) \<and>
     (\<forall>(k, d) \<in> set (docs st). k = doc_id d \<and> dim st = Some (length (doc_vector d)))"

lemma store_inv_new: "store_inv memory_store_new"
  by (simp add: store_inv_def memory_store_new_def)

lemma map_of_filter_key: "map_of (filter (\<lambda>e. fst e \<noteq> k) m) = (map_of m)(k := None)"
  by (induction m) (auto simp: fun_eq_iff)

lemma map_of_hm_insert: "map_of (hm_insert k v m) = (map_of m)(k \<mapsto> v)"
  by (simp add: hm_insert_def map_of_filter_key)

lemma map_of_hm_inserts:
  "map_of (fold (\<lambda>d. hm_insert (doc_id d) d) ds m) = map_of m ++ map_of (rev (map (\<lambda>d. (doc_id d, d)) ds))"
  by (induction ds arbitrary: m) (auto simp: map_of_hm_insert map_add_def fun_eq_iff split: option.splits)

lemma map_of_hm_removes: "map_of (fold hm_remove ids m) = map_of m |` (- set ids)"
  by (induction ids arbitrary: m) (auto simp: hm_remove_def map_of_filter_key restrict_map_def fun_eq_iff)

lemma distinct_hm_insert: "distinct (map fst m) \<Longrightarrow> distinct (map fst (hm_insert k v m))"
  by (auto simp: hm_insert_def distinct_map_filter)

lemma distinct_hm_inserts: "distinct (map fst m) \<Longrightarrow> distinct (map fst (fold (\<lambda>d. hm_insert (doc_id d) d) ds m))"
  by (induction ds arbitrary: m) (simp_all add: distinct_hm_insert)

lemma distinct_hm_removes: "distinct (map fst m) \<Longrightarrow> distinct (map fst (fold hm_remove ids m))"
  by (induction ids arbitrary: m) (simp_all add: hm_remove_def distinct_map_filter)

lemma set_hm_inserts:
  "set (fold (\<lambda>d. hm_insert (doc_id d) d) ds m) \<subseteq> set m \<union> (\<lambda>d. (doc_id d, d)) ` set ds"
proof (induction ds arbitrary: m)
  case (Cons d ds)
  show ?case using Cons.IH [of "hm_insert (doc_id d) d m"] by (auto simp: hm_insert_def)
qed simp

lemma set_hm_removes: "set (fold hm_remove ids m) \<subseteq> set m"
proof (induction ids arbitrary: m)
  case (Cons i ids)
  show ?case using Cons.IH [of "hm_remove i m"] by (auto simp: hm_remove_def)
qed simp

lemma check_dims_ok:
  "check_dims d ds = (d', Ok ()) \<longleftrightarrow>
     (\<forall>doc \<in> set ds. d' = Some (length (doc_vector doc))) \<and> (d \<noteq> None \<or> ds = [] \<longrightarrow> d' = d)"
  by (induction ds arbitrary: d) (auto simp: Let_def split: option.splits)

lemma check_dims_kept: "check_dims (Some e) ds = (d', r) \<Longrightarrow> d' = Some e"
  by (induction ds) (auto simp: Let_def split: if_splits)

lemma store_upsert_inv:
  assumes "store_inv st"
  shows "store_inv (fst (store_upsert ds st))"
proof -
  obtain d r where c: "check_dims (dim st) ds = (d, r)" by (cases "check_dims (dim st) ds")
  have kept: "d = dim st" if "docs st \<noteq> []"
  proof -
    from that obtain k doc where "(k, doc) \<in> set (docs st)" by (cases "docs st") auto
    then have "dim st = Some (length (doc_vector doc))" using assms by (auto simp: store_inv_def)
    then show ?thesis using check_dims_kept c by metis
  qed
  show ?thesis
  proof (cases r)
    case (Inl e)
    then show ?thesis using assms kept c by (cases "docs st = []") (auto simp: store_upsert_def store_inv_def)
  next
    case (Inr u)
    have ok: "\<forall>doc \<in> set ds. d = Some (length (doc_vector doc))" using c Inr check_dims_ok [of "dim st" ds d] by simp
    have "k = doc_id doc \<and> d = Some (length (doc_vector doc))"
      if "(k, doc) \<in> set (fold (\<lambda>d. hm_insert (doc_id d) d) ds (docs st))" for k doc
    proof -
      have "(k, doc) \<in> set (docs st) \<or> k = doc_id doc \<and> doc \<in> set ds" using that set_hm_inserts [of ds "docs st"] by auto
      then show ?thesis
      proof
        assume m: "(k, doc) \<in> set (docs st)"
        then have "d = dim st" using kept by force
        then show ?thesis using m assms by (auto simp: store_inv_def)
      qed (use ok in blast)
    qed
    then show ?thesis using Inr c assms by (auto simp: store_upsert_def store_inv_def distinct_hm_inserts)
  qed
qed

lemma store_delete_inv: "store_inv st \<Longrightarrow> store_inv (fst (store_delete ids st))"
  using set_hm_removes [of ids "docs st"] by (auto simp: store_delete_def store_inv_def distinct_hm_removes)


text \<open>The hits a search ranks, and the ranking: by score, NaN last, then by id.\<close>

definition hit_of :: "'r f32_ops \<Rightarrow> 'r Query \<Rightarrow> ('r, 'f) Doc \<Rightarrow> ('r, 'f) Hit" where
  "hit_of R q d = \<lparr>hit_id = doc_id d, hit_score = the (metric_score False R (q_metric q) (q_vector q) (doc_vector d)), hit_doc = d\<rparr>"

definition ranks_before :: "'r f32_ops \<Rightarrow> ('r, 'f) Hit \<Rightarrow> ('r, 'f) Hit \<Rightarrow> bool" where
  "ranks_before R a b \<longleftrightarrow>
     (if r_is_nan R (hit_score a) then r_is_nan R (hit_score b) \<and> hit_id a < hit_id b
      else r_is_nan R (hit_score b) \<or> r_cmp R (hit_score a) (hit_score b) = Some Greater \<or>
        r_cmp R (hit_score a) (hit_score b) = Some Equal \<and> hit_id a < hit_id b)"

lemma metric_score_defined:
  "length a = length b \<Longrightarrow> metric_score debug R m a b = Some (the (metric_score False R m a b))"
  by (cases m) (auto simp: cosine_def dot_product_def euclidean_def)

lemma collect_hits_eq:
  "\<forall>d \<in> set ds. length (doc_vector d) = length (q_vector q) \<Longrightarrow> collect_hits debug R q ds = Some (map (hit_of R q) ds)"
proof (induction ds)
  case (Cons d ds)
  then have s: "metric_score debug R (q_metric q) (q_vector q) (doc_vector d) =
      Some (the (metric_score False R (q_metric q) (q_vector q) (doc_vector d)))"
    by (intro metric_score_defined) simp
  show ?case using Cons by (simp add: s) (simp add: hit_of_def)
qed simp

lemma f32_okD:
  assumes "f32_ok R"
  shows "r_cmp R a b = None \<longleftrightarrow> r_is_nan R a \<or> r_is_nan R b"
    and "r_cmp R a b = Some Less \<longleftrightarrow> r_cmp R b a = Some Greater"
    and "r_cmp R a b = Some Equal \<Longrightarrow> r_cmp R b a = Some Equal"
    and "r_cmp R a b = Some Less \<Longrightarrow> r_cmp R b c = Some Less \<Longrightarrow> r_cmp R a c = Some Less"
    and "r_cmp R a b = Some Equal \<Longrightarrow> \<not> r_is_nan R c \<Longrightarrow> r_cmp R a c = r_cmp R b c"
  using assms unfolding f32_ok_def by blast+

lemma ordering_then_Greater: "ordering_then a b = Greater \<longleftrightarrow> a = Greater \<or> a = Equal \<and> b = Greater"
  by (cases a) auto

lemma hit_cmp_Greater:
  assumes "f32_ok R"
  shows "hit_cmp R a b = Greater \<longleftrightarrow> ranks_before R b a"
proof (cases "r_cmp R (hit_score b) (hit_score a)")
  case None
  then have "r_is_nan R (hit_score a) \<or> r_is_nan R (hit_score b)" using f32_okD(1) [OF assms] by metis
  then show ?thesis using None
    by (auto simp: hit_cmp_def ranks_before_def Let_def str_cmp_def ordering_then_Greater split: bool.splits)
next
  case (Some ord)
  then have "\<not> r_is_nan R (hit_score a)" "\<not> r_is_nan R (hit_score b)" using f32_okD(1) [OF assms] by (metis option.distinct(1))+
  then show ?thesis using Some by (auto simp: hit_cmp_def ranks_before_def Let_def str_cmp_def ordering_then_Greater)
qed

lemma ranks_before_trans:
  assumes "f32_ok R" "ranks_before R a b" "ranks_before R b c"
  shows "ranks_before R a c"
proof -
  have greater: "r_cmp R x z = Some Greater" if "r_cmp R x y = Some Greater" "r_cmp R y z = Some Greater" for x y z
    using that f32_okD(2,4) [OF assms(1)] by metis
  have left: "r_cmp R x z = r_cmp R y z" if "r_cmp R x y = Some Equal" "\<not> r_is_nan R z" for x y z
    using that by (rule f32_okD(5) [OF assms(1)])
  have right: "r_cmp R x z = Some Greater" if "r_cmp R x y = Some Greater" "r_cmp R y z = Some Equal" for x y z
    using that f32_okD [OF assms(1)] by (metis option.distinct(1))
  show ?thesis using assms(2,3) unfolding ranks_before_def
    by (auto split: if_splits dest: greater right simp: left)
qed

lemma ranks_before_total:
  assumes "f32_ok R" "hit_id a \<noteq> hit_id b"
  shows "ranks_before R a b \<or> ranks_before R b a"
proof (cases "r_cmp R (hit_score a) (hit_score b)")
  case None
  then show ?thesis using assms(2) f32_okD(1) [OF assms(1)] by (auto simp: ranks_before_def)
next
  case (Some ord)
  then have "\<not> r_is_nan R (hit_score a)" "\<not> r_is_nan R (hit_score b)" using f32_okD(1) [OF assms(1)] by (metis option.distinct(1))+
  then show ?thesis using Some assms(2) f32_okD(2,3) [OF assms(1)] by (cases ord) (auto simp: ranks_before_def)
qed

lemma ranks_before_irrefl: "f32_ok R \<Longrightarrow> \<not> ranks_before R a a"
  unfolding ranks_before_def by (metis Ordering.distinct(3) f32_okD(2) less_irrefl option.inject)

text \<open>The sort of a search puts hits of different ids in the order of the ranking.\<close>

lemma sorted_hits:
  fixes hs :: "('r, 'f) Hit list"
  assumes R: "f32_ok R" and d: "distinct (map hit_id hs)"
  shows "sorted_wrt (ranks_before R) (sort_by (\<lambda>a b. hit_cmp R a b \<noteq> Greater) hs)"
proof -
  let ?le = "\<lambda>a b. hit_cmp R a b \<noteq> Greater" and ?s = "sort_by (\<lambda>a b. hit_cmp R a b \<noteq> Greater) hs"
  have inj: "inj_on hit_id (set hs)" using d by (simp add: distinct_map)
  have "sorted_wrt ?le ?s"
  proof (rule sorted_sort_by_on [of "set hs"])
    show "?le a b \<or> ?le b a" for a b :: "('r, 'f) Hit"
      unfolding hit_cmp_Greater [OF R] using ranks_before_trans [OF R, of a b a] ranks_before_irrefl [OF R, of a] by blast
    show "?le a c" if "a \<in> set hs" "b \<in> set hs" "c \<in> set hs" "?le a b" "?le b c" for a b c
      using that unfolding hit_cmp_Greater [OF R] by (metis R inj inj_onD ranks_before_total ranks_before_trans)
  qed simp
  moreover have "distinct (map hit_id ?s)"
    using d by (metis distinct_map mset_eq_setD mset_sort_by mset_eq_imp_distinct_iff)
  ultimately have "sorted_wrt (\<lambda>a b. ?le a b \<and> hit_id a \<noteq> hit_id b) ?s"
    by (auto simp: sorted_wrt_iff_nth_less distinct_conv_nth)
  then show ?thesis by (rule sorted_wrt_mono_rel [rotated]) (use ranks_before_total [OF R] in \<open>auto simp: hit_cmp_Greater [OF R]\<close>)
qed

lemma sorted_wrt_unique:
  assumes "\<And>a b. r a b \<Longrightarrow> \<not> r b a" "sorted_wrt r xs" "sorted_wrt r ys" "mset xs = mset ys"
  shows "xs = ys"
  using assms(2-4)
proof (induction xs arbitrary: ys)
  case (Cons x xs)
  then obtain y ys' where ys: "ys = y # ys'" by (cases ys) auto
  have "x \<in> set ys" "y \<in> set (x # xs)" using Cons.prems(3) ys by (metis list.set_intros(1) mset_eq_setD)+
  then have "x = y" using Cons.prems(1,2) ys assms(1) by auto
  then show ?case using Cons ys by simp
qed simp

text \<open>What a search owes its caller: the \<open>top_k\<close> first of the ranking of the collection.\<close>

definition top_hits :: "'r f32_ops \<Rightarrow> 'r Query \<Rightarrow> (string \<rightharpoonup> ('r, 'f) Doc) \<Rightarrow> ('r, 'f) Hit list \<Rightarrow> bool" where
  "top_hits R q M hs \<longleftrightarrow>
     sorted_wrt (ranks_before R) hs \<and> length hs = min (top_k q) (card (dom M)) \<and> set hs \<subseteq> hit_of R q ` ran M \<and>
     (\<forall>h \<in> hit_of R q ` ran M - set hs. \<forall>h' \<in> set hs. ranks_before R h' h)"

definition reorders :: "('a list \<Rightarrow> 'a list) \<Rightarrow> bool" where
  "reorders iter \<longleftrightarrow> (\<forall>m. mset (iter m) = mset m)"

lemma hit_of_sel [simp]: "hit_id (hit_of R q d) = doc_id d" "hit_doc (hit_of R q d) = d"
  by (simp_all add: hit_of_def)

lemma sorted_take_drop:
  assumes "sorted_wrt r xs" "x \<in> set (take k xs)" "y \<in> set (drop k xs)"
  shows "r x y"
  using assms by (metis append_take_drop_id sorted_wrt_append)

lemma sorted_top_hits:
  assumes "f32_ok R" "distinct (map fst m)" "\<forall>(k, d) \<in> set m. k = doc_id d" "mset m' = mset m"
  shows "top_hits R q (map_of m) (take (top_k q) (sort_by (\<lambda>a b. hit_cmp R a b \<noteq> Greater) (map (hit_of R q) (map snd m'))))"
proof -
  let ?hs = "map (hit_of R q) (map snd m')" and ?s = "sort_by (\<lambda>a b. hit_cmp R a b \<noteq> Greater) (map (hit_of R q) (map snd m'))"
  have set: "set m' = set m" using assms(4) by (rule mset_eq_setD)
  have "map hit_id ?hs = map fst m'" using assms(3) set by auto
  moreover have "distinct (map fst m')" using assms(2,4) by (metis mset_map mset_eq_imp_distinct_iff)
  ultimately have "distinct (map hit_id ?hs)" by (simp only:)
  then have sorted: "sorted_wrt (ranks_before R) ?s" by (rule sorted_hits [OF assms(1)])
  have s: "set ?s = hit_of R q ` ran (map_of m)"
  proof -
    have "set ?s = set ?hs" by (metis mset_eq_setD mset_sort_by)
    then show ?thesis using set by (simp add: ran_distinct [OF assms(2)] image_image)
  qed
  have "length ?s = length m" using assms(4) by (metis length_map mset_sort_by size_mset)
  moreover have "card (dom (map_of m)) = length m"
    using assms(2) by (metis dom_map_of_conv_image_fst distinct_card length_map set_map)
  ultimately have "length (take (top_k q) ?s) = min (top_k q) (card (dom (map_of m)))" by simp
  moreover have "set ?s - set (take (top_k q) ?s) \<subseteq> set (drop (top_k q) ?s)"
    by (metis Diff_subset_conv append_take_drop_id set_append order_refl)
  ultimately show ?thesis
    unfolding top_hits_def using sorted_take_drop [OF sorted] sorted s by (auto simp: sorted_wrt_take dest: in_set_takeD)
qed

lemma store_search_ranked:
  assumes "f32_ok R" "reorders iter" "store_inv st" "dim st = None \<or> dim st = Some (length (q_vector q))"
  shows "\<exists>hs. store_search debug R iter q st = Some (Ok hs) \<and> top_hits R q (map_of (docs st)) hs"
proof -
  have m: "mset (iter (docs st)) = mset (docs st)" using assms(2) by (simp add: reorders_def)
  then have set: "set (iter (docs st)) = set (docs st)" by (rule mset_eq_setD)
  have "\<forall>d \<in> set (map snd (iter (docs st))). length (doc_vector d) = length (q_vector q)"
    using assms(3,4) by (auto simp: set store_inv_def)
  then have c: "collect_hits debug R q (map snd (iter (docs st))) = Some (map (hit_of R q) (map snd (iter (docs st))))"
    by (rule collect_hits_eq)
  have "top_hits R q (map_of (docs st))
      (take (top_k q) (sort_by (\<lambda>a b. hit_cmp R a b \<noteq> Greater) (map (hit_of R q) (map snd (iter (docs st))))))"
    by (rule sorted_top_hits [OF assms(1) _ _ m]) (use assms(3) in \<open>auto simp: store_inv_def\<close>)
  then show ?thesis using assms(4) unfolding store_search_def c by auto
qed

lemma store_search_inv:
  assumes "store_search debug R iter q st = Some (Ok hs)"
  shows "dim st = None \<or> dim st = Some (length (q_vector q))"
  using assms by (auto simp: store_search_def split: option.splits if_splits)

lemma sorted_distinct:
  assumes "\<And>a. \<not> r a a" "sorted_wrt r xs"
  shows "distinct xs"
  using assms(2) by (induction xs) (use assms(1) in auto)

lemma top_hits_distinct: "f32_ok R \<Longrightarrow> top_hits R q M hs \<Longrightarrow> distinct hs"
  by (rule sorted_distinct [of "ranks_before R"]) (simp_all add: ranks_before_irrefl top_hits_def)

lemma top_hits_unique:
  assumes "f32_ok R" "top_hits R q M hs" "top_hits R q M hs'"
  shows "hs' = hs"
proof -
  have asym: "\<not> ranks_before R b a" if "ranks_before R a b" for a b :: "('a, 'b) Hit"
    using that ranks_before_trans [OF assms(1)] ranks_before_irrefl [OF assms(1)] by blast
  have d: "distinct hs" "distinct hs'" using assms by (simp_all add: top_hits_distinct)
  have len: "length hs = length hs'" using assms(2,3) by (simp add: top_hits_def)
  have "set hs' \<subseteq> set hs"
  proof (rule ccontr)
    assume "\<not> set hs' \<subseteq> set hs"
    then obtain h' where h': "h' \<in> set hs'" "h' \<notin> set hs" by blast
    then have "\<not> set hs \<subseteq> set hs'" using card_subset_eq [of "set hs'" "set hs"] distinct_card [OF d(1)] distinct_card [OF d(2)] len by auto
    then obtain h where h: "h \<in> set hs" "h \<notin> set hs'" by blast
    have "ranks_before R h h'" "ranks_before R h' h" using h h' assms(2,3) unfolding top_hits_def by blast+
    then show False using asym by blast
  qed
  then have "set hs' = set hs" using card_subset_eq [of "set hs" "set hs'"] distinct_card [OF d(1)] distinct_card [OF d(2)] len by simp
  then have "mset hs' = mset hs" using d by (simp add: set_eq_iff_mset_eq_distinct)
  then show ?thesis using assms(2,3) asym by (intro sorted_wrt_unique [of "ranks_before R"]) (auto simp: top_hits_def)
qed

lemma top_hits_sound:
  assumes "f32_ok R" "top_hits R q (map_of (docs st)) hs" "store_inv st"
  shows "distinct (map hit_id hs) \<and> (\<forall>h \<in> set hs. map_of (docs st) (hit_id h) = Some (hit_doc h) \<and> hit_id h = doc_id (hit_doc h))"
proof -
  have own: "map_of (docs st) (doc_id d) = Some d" if "d \<in> ran (map_of (docs st))" for d
  proof -
    from that obtain k where k: "map_of (docs st) k = Some d" by (auto simp: ran_def)
    then have "k = doc_id d" using assms(3) map_of_SomeD [OF k] by (auto simp: store_inv_def)
    then show ?thesis using k by simp
  qed
  then have h: "\<forall>h \<in> set hs. map_of (docs st) (hit_id h) = Some (hit_doc h) \<and> hit_id h = doc_id (hit_doc h) \<and> h = hit_of R q (hit_doc h)"
    using assms(2) by (auto simp: top_hits_def)
  then have "inj_on hit_id (set hs)" by (metis inj_onI option.inject)
  moreover have "distinct hs" using assms(1,2) by (rule top_hits_distinct)
  ultimately have "distinct (map hit_id hs)" by (simp add: distinct_map)
  then show ?thesis using h by blast
qed

interpretation mem: vector_store "\<lambda>st. f32_ok R \<and> reorders iter \<and> store_inv st" "\<lambda>st. map_of (docs st)"
  store_upsert store_delete "store_search debug R iter"
proof (unfold_locales, goal_cases)
  case (2 st ids)
  then show ?case by (simp add: store_delete_inv)
next
  case (3 st ds)
  then show ?case by (auto simp: store_upsert_def map_of_hm_inserts split: prod.splits sum.splits)
next
  case (4 st ds)
  then show ?case by (auto simp: store_upsert_def split: prod.splits sum.splits)
next
  case (7 st q hs)
  then have "dim st = None \<or> dim st = Some (length (q_vector q))" by (intro store_search_inv [of debug R iter q st hs])
  then have "top_hits R q (map_of (docs st)) hs" using 7 store_search_ranked [of R iter st q debug] by auto
  then have "distinct (map hit_id hs) \<and> (\<forall>h \<in> set hs. map_of (docs st) (hit_id h) = Some (hit_doc h) \<and> hit_id h = doc_id (hit_doc h))"
    "length hs = min (top_k q) (card (dom (map_of (docs st))))" using 7 top_hits_sound [of R q st hs] by (auto simp: top_hits_def)
  then show ?case by blast
qed (auto simp: store_upsert_inv store_delete_inv store_delete_def map_of_hm_removes finite_dom_map_of)

section \<open>Every history\<close>

datatype ('r, 'f) store_op = Upsert "('r, 'f) Doc list" | Delete "string list"

fun store_step :: "('r, 'f) store_op \<Rightarrow> ('r, 'f) MemoryStore \<Rightarrow> ('r, 'f) MemoryStore" where
  "store_step (Upsert ds) st = fst (store_upsert ds st)"
| "store_step (Delete ids) st = fst (store_delete ids st)"

text \<open>The reference: a collection is a dimension, fixed by the first document offered, and a finite map; a batch enters it
  as a whole or not at all.\<close>

definition fixed_dim :: "nat option \<Rightarrow> ('r, 'f) Doc list \<Rightarrow> nat option" where
  "fixed_dim d ds = (if d = None \<and> ds \<noteq> [] then Some (length (doc_vector (hd ds))) else d)"

fun coll_step :: "('r, 'f) store_op \<Rightarrow> nat option \<times> (string \<rightharpoonup> ('r, 'f) Doc) \<Rightarrow> nat option \<times> (string \<rightharpoonup> ('r, 'f) Doc)" where
  "coll_step (Upsert ds) (d, M) =
     (fixed_dim d ds,
      if \<forall>doc \<in> set ds. fixed_dim d ds = Some (length (doc_vector doc)) then M ++ map_of (rev (map (\<lambda>doc. (doc_id doc, doc)) ds)) else M)"
| "coll_step (Delete ids) (d, M) = (d, M |` (- set ids))"

lemma check_dims_fixed:
  "fst (check_dims d ds) = fixed_dim d ds"
  "snd (check_dims d ds) = Ok () \<longleftrightarrow> (\<forall>doc \<in> set ds. fixed_dim d ds = Some (length (doc_vector doc)))"
proof -
  obtain d' r where c: "check_dims d ds = (d', r)" by (cases "check_dims d ds")
  have "d' = fixed_dim d ds"
  proof (cases "d = None \<and> ds \<noteq> []")
    case True
    then obtain x xs where ds: "ds = x # xs" by (cases ds) auto
    then show ?thesis using True c check_dims_kept [of "length (doc_vector x)" xs] by (auto simp: fixed_dim_def)
  next
    case False
    then show ?thesis using c check_dims_kept [of _ ds d' r] by (cases d) (auto simp: fixed_dim_def)
  qed
  then show "fst (check_dims d ds) = fixed_dim d ds" using c by simp
  show "snd (check_dims d ds) = Ok () \<longleftrightarrow> (\<forall>doc \<in> set ds. fixed_dim d ds = Some (length (doc_vector doc)))"
    using c \<open>d' = fixed_dim d ds\<close> check_dims_ok [of d ds d'] by (auto simp: fixed_dim_def)
qed

lemma store_refines:
  assumes "store_inv st"
  shows "(\<lambda>s. (dim s, map_of (docs s))) (store_step a st) = coll_step a (dim st, map_of (docs st)) \<and> store_inv (store_step a st)"
proof (cases a)
  case (Upsert ds)
  obtain d r where c: "check_dims (dim st) ds = (d, r)" by (cases "check_dims (dim st) ds")
  then have d: "d = fixed_dim (dim st) ds" "r = Ok () \<longleftrightarrow> (\<forall>doc \<in> set ds. fixed_dim (dim st) ds = Some (length (doc_vector doc)))"
    using check_dims_fixed [of "dim st" ds] by simp_all
  have "(dim (store_step a st), map_of (docs (store_step a st))) = coll_step a (dim st, map_of (docs st))"
    unfolding Upsert coll_step.simps d(2) [symmetric] using c d(1)
    by (cases r) (simp_all add: store_upsert_def map_of_hm_inserts)
  then show ?thesis using assms Upsert by (simp add: store_upsert_inv)
next
  case (Delete ids)
  then show ?thesis using assms store_delete_inv [of st ids] by (simp add: store_delete_def map_of_hm_removes)
qed

lemma store_run_refines:
  assumes "store_inv st"
  shows "(dim (fold store_step ops st), map_of (docs (fold store_step ops st))) = fold coll_step ops (dim st, map_of (docs st)) \<and>
    store_inv (fold store_step ops st)"
  using assms
proof (induction ops arbitrary: st)
  case (Cons a ops)
  then show ?case using Cons.IH [of "store_step a st"] store_refines [of st a] by simp
qed simp

text \<open>C22: After any history of upserts and deletes, the in-memory store answers a query from the reference collection that
  history gives (a batch enters as a whole or not at all): a query of another dimension is refused with both
  dimensions, any other gets exactly the first \<open>top_k\<close> documents in the ranking, best score first, NaN last, ties by id,
  whatever the iteration order of the hash map, and no assertion of a debug build fires.\<close>
theorem vector_search_correct:
  assumes "f32_ok R" "reorders iter"
  shows "let st = fold store_step ops memory_store_new; coll = fold coll_step ops (None, Map.empty)
    in if fst coll = None \<or> fst coll = Some (length (q_vector q))
       then \<exists>hs. store_search debug R iter q st = Some (Ok hs) \<and> top_hits R q (snd coll) hs \<and>
         (\<forall>hs'. top_hits R q (snd coll) hs' \<longrightarrow> hs' = hs)
       else store_search debug R iter q st = Some (Err (DimMismatch (the (fst coll)) (length (q_vector q))))"
proof -
  let ?st = "fold store_step ops memory_store_new"
  have r: "fold coll_step ops (None, Map.empty) = (dim ?st, map_of (docs ?st))" "store_inv ?st"
    using store_run_refines [OF store_inv_new, of ops] by (simp_all add: memory_store_new_def)
  show ?thesis
  proof (cases "dim ?st = None \<or> dim ?st = Some (length (q_vector q))")
    case True
    then show ?thesis using store_search_ranked [OF assms r(2) True, of debug] top_hits_unique [OF assms(1)]
      unfolding r(1) Let_def by auto
  next
    case False
    then show ?thesis unfolding r(1) Let_def by (auto simp: store_search_def)
  qed
qed

text \<open>Numbers in place of \<^verbatim>\<open>f32\<close> for concrete runs.\<close>

definition int_f32 :: "int f32_ops" where
  "int_f32 = \<lparr>r_add = (+), r_sub = (-), r_mul = (*), r_div = (div), r_neg = uminus, r_sqrt = id, r_zero = 0, r_empty_sum = 0,
     r_is_nan = (\<lambda>_. False), r_cmp = (\<lambda>a b. Some (if a < b then Less else if a = b then Equal else Greater))\<rparr>"

lemma int_f32_ok: "f32_ok int_f32"
  by (simp add: f32_ok_def int_f32_def)

theorem vector_search_correct_witness:
  "store_search True int_f32 rev \<lparr>q_vector = [1, 2, 3], top_k = 1, q_metric = Dot\<rparr>
     (fold store_step [Upsert [doc_new ''a'' [1, 0], (doc_new ''b'' [2, 5] :: (int, unit) Doc)]] memory_store_new) = Some (Err (DimMismatch 2 3))"
  using vector_search_correct [OF int_f32_ok, of rev "[Upsert [doc_new ''a'' [1, 0], (doc_new ''b'' [2, 5] :: (int, unit) Doc)]]"
      "\<lparr>q_vector = [1, 2, 3], top_k = 1, q_metric = Dot\<rparr>" True]
  by (simp add: reorders_def fixed_dim_def doc_new_def Let_def)

lemma best_first:
  "store_search True int_f32 rev \<lparr>q_vector = [1, 2], top_k = 1, q_metric = Dot\<rparr>
     (fold store_step [Upsert [doc_new ''a'' [1, 0], (doc_new ''b'' [2, 5] :: (int, unit) Doc)]] memory_store_new) =
   Some (Ok [\<lparr>hit_id = ''b'', hit_score = 12, hit_doc = doc_new ''b'' [2, 5]\<rparr>])"
  by code_simp

section \<open>Consequences\<close>

text \<open>A store finds what it was given and not what was taken away.\<close>

lemmas upserted_documents_found = mem.upserted_found
lemmas deleted_documents_gone = mem.deleted_not_found

text \<open>A batch refused as a whole still fixes the dimension of an empty store.\<close>

lemma refused_batch_fixes_dimension:
  assumes "length v \<noteq> length w"
  shows "store_upsert [doc_new i v, doc_new j w] memory_store_new =
      (\<lparr>docs = [], dim = Some (length v)\<rparr>, Err (DimMismatch (length v) (length w)))"
    and "snd (store_upsert [doc_new j w] (fst (store_upsert [doc_new i v, doc_new j w] memory_store_new))) =
      Err (DimMismatch (length v) (length w))"
  using assms by (simp_all add: store_upsert_def memory_store_new_def doc_new_def Let_def)

end
