(* ===== verification/Log_Time.thy ===== *)
theory Log_Time
  imports Codec_Value
begin

text \<open>
  The timestamps of log records (\<^verbatim>\<open>log.rs\<close>, \<^verbatim>\<open>rfc3339\<close> and \<^verbatim>\<open>civil_from_days\<close>): the closed formula for the Gregorian date
  of a day, against the calendar itself, which goes from one date to the next by the lengths of the months.
  The code's \<^verbatim>\<open>i64\<close> and \<^verbatim>\<open>u64\<close> hold days counted from a \<^verbatim>\<open>u64\<close> of seconds, far from their bounds, so the model uses \<open>int\<close>
  and \<open>nat\<close>.
\<close>

section \<open>The code\<close>

definition day_of_era :: "int \<Rightarrow> int \<times> nat" where
  "day_of_era z0 =
     (let z = z0 + 719468; n = (if z \<ge> 0 then z else z - 146096); era = sgn n * (\<bar>n\<bar> div 146097)
      in (era, nat (z - era * 146097)))"

definition year_of_era :: "nat \<Rightarrow> nat" where
  "year_of_era doe = (doe - doe div 1460 + doe div 36524 - doe div 146096) div 365"

definition day_of_year :: "nat \<Rightarrow> nat \<Rightarrow> nat" where
  "day_of_year doe yoe = doe - (365 * yoe + yoe div 4 - yoe div 100)"

definition month_day :: "nat \<Rightarrow> nat \<times> nat" where
  "month_day doy =
     (let mp = (5 * doy + 2) div 153
      in (if mp < 10 then mp + 3 else mp - 9, doy - (153 * mp + 2) div 5 + 1))"

definition civil_from_days :: "int \<Rightarrow> int \<times> nat \<times> nat" where
  "civil_from_days z =
     (let (era, doe) = day_of_era z; yoe = year_of_era doe; y = int yoe + era * 400;
          (month, day) = month_day (day_of_year doe yoe)
      in (if month \<le> 2 then y + 1 else y, month, day))"

section \<open>The calendar\<close>

definition is_leap :: "int \<Rightarrow> bool" where
  "is_leap y \<longleftrightarrow> y mod 4 = 0 \<and> (y mod 100 \<noteq> 0 \<or> y mod 400 = 0)"

definition month_length :: "int \<Rightarrow> nat \<Rightarrow> nat" where
  "month_length y m = (if m = 2 then (if is_leap y then 29 else 28) else if m \<in> {4, 6, 9, 11} then 30 else 31)"

fun next_date :: "int \<times> nat \<times> nat \<Rightarrow> int \<times> nat \<times> nat" where
  "next_date (y, m, d) =
     (if d < month_length y m then (y, m, d + 1) else if m < 12 then (y, m + 1, 1) else (y + 1, 1, 1))"

section \<open>Years of an era begin in March\<close>

definition year_start :: "nat \<Rightarrow> nat" where
  "year_start y = 365 * y + y div 4 - y div 100"

lemma div_antimono: "0 < a \<Longrightarrow> a \<le> b \<Longrightarrow> (n :: nat) div b \<le> n div a"
  by (rule div_le_mono2)

lemma div_Suc_cases: "0 < n \<Longrightarrow> Suc d div n = (if n dvd Suc d then Suc (d div n) else d div n)" for n d :: nat
  by (simp add: div_Suc dvd_eq_mod_eq_0)

definition shifted :: "nat \<Rightarrow> nat" where
  "shifted d = d - d div 1460 + d div 36524 - d div 146096"

lemma year_of_era_shifted: "year_of_era d = shifted d div 365"
  by (simp add: year_of_era_def shifted_def)

lemma shifted_Suc: "shifted d \<le> shifted (Suc d)"
proof -
  have *: "146096 dvd Suc d \<Longrightarrow> 36524 dvd Suc d" by (rule dvd_trans [of _ 146096]) simp_all
  have "d div 1460 \<le> d" "d div 146096 \<le> d div 36524" using div_antimono [of 36524 146096 d] by simp_all
  then show ?thesis using * by (auto simp: shifted_def div_Suc_cases simp del: div_Suc intro!: diff_le_mono)
qed

lemma shifted_mono: "d \<le> d' \<Longrightarrow> shifted d \<le> shifted d'"
  by (rule lift_Suc_mono_le [of shifted]) (simp_all add: shifted_Suc)

text \<open>The formula is right on the first and on the last day of each year of an era, checked by evaluation.\<close>

definition era_check :: "int \<Rightarrow> bool" where
  "era_check y =
     (let s = 365 * y + y div 4 - y div 100; e = 364 + 365 * y + (y + 1) div 4 - (y + 1) div 100
      in (s - s div 1460 + s div 36524 - s div 146096) div 365 = y \<and> (e - e div 1460 + e div 36524 - e div 146096) div 365 = y)"

lemma era_checked: "list_all era_check [0..398]"
  by code_simp

lemma int_year_start: "int (year_start y) = 365 * int y + int y div 4 - int y div 100"
proof -
  have "y div 100 \<le> 365 * y + y div 4" using div_antimono [of 4 100 y] by linarith
  then show ?thesis by (simp add: year_start_def of_nat_diff zdiv_int)
qed

lemma int_sum_diff: "a \<le> d \<Longrightarrow> c \<le> b \<Longrightarrow> int (d - a + b - c) = int d - int a + int b - int c"
  by simp

lemma int_year_of_era: "int (year_of_era d) = (int d - int d div 1460 + int d div 36524 - int d div 146096) div 365"
  using int_sum_diff [of "d div 1460" d "d div 146096" "d div 36524"] div_antimono [of 36524 146096 d]
  by (simp only: year_of_era_def zdiv_int of_nat_numeral)

lemma year_bounds:
  assumes "y < 399"
  shows "year_of_era (year_start y) = y" "year_of_era (year_start (Suc y) - 1) = y"
proof -
  have c: "era_check (int y)" using era_checked assms by (simp add: list_all_iff)
  have "int (year_of_era (year_start y)) = int y"
    unfolding int_year_of_era int_year_start using c unfolding era_check_def Let_def by blast
  then show "year_of_era (year_start y) = y" by simp
  have "int (year_start (Suc y)) = 365 + 365 * int y + (int y + 1) div 4 - (int y + 1) div 100"
    unfolding int_year_start by (simp add: algebra_simps)
  moreover have "0 < year_start (Suc y)" using div_antimono [of 4 100 "Suc y"] by (simp add: year_start_def)
  ultimately have e: "int (year_start (Suc y) - 1) = 364 + 365 * int y + (int y + 1) div 4 - (int y + 1) div 100" by linarith
  have "int (year_of_era (year_start (Suc y) - 1)) = int y"
    unfolding int_year_of_era e using c unfolding era_check_def Let_def by blast
  then show "year_of_era (year_start (Suc y) - 1) = y" by simp
qed

lemma year_of_era_between:
  assumes "year_of_era a = y" "year_of_era b = y" "a \<le> doe" "doe \<le> b"
  shows "year_of_era doe = y"
proof -
  have "year_of_era a \<le> year_of_era doe" "year_of_era doe \<le> year_of_era b"
    using assms(3,4) by (simp_all add: year_of_era_shifted div_le_mono shifted_mono)
  then show ?thesis using assms(1,2) by simp
qed

text \<open>Where the years of an era end; the last one is a day longer than the pattern.\<close>

definition year_end :: "nat \<Rightarrow> nat" where
  "year_end y = (if y = 399 then 146097 else year_start (Suc y))"

lemma year_of_era_in:
  assumes "y < 400" "year_start y \<le> doe" "doe < year_end y"
  shows "year_of_era doe = y"
proof (cases "y = 399")
  case True
  have "year_of_era (year_start 399) = 399" "year_of_era 146096 = 399" by (simp_all add: year_start_def year_of_era_def)
  moreover have "year_start 399 \<le> doe" "doe \<le> 146096" using assms True by (simp_all add: year_end_def)
  ultimately show ?thesis unfolding True by (rule year_of_era_between)
next
  case False
  then have y: "y < 399" "doe < year_start (Suc y)" using assms by (simp_all add: year_end_def)
  then have "doe \<le> year_start (Suc y) - 1" by linarith
  then show ?thesis by (rule year_of_era_between [OF year_bounds [OF y(1)] assms(2)])
qed

lemma year_exists:
  assumes "doe < 146097"
  shows "\<exists>y < 400. year_start y \<le> doe \<and> doe < year_end y"
proof (cases "year_start 399 \<le> doe")
  case True
  then show ?thesis using assms by (intro exI [of _ 399]) (simp add: year_end_def)
next
  case False
  have "doe < year_start n \<Longrightarrow> \<exists>y < n. year_start y \<le> doe \<and> doe < year_start (Suc y)" for n
    by (induction n) (auto simp: year_start_def [of 0] intro: less_SucI, metis less_SucI lessI linorder_not_less)
  from this [of 399] False obtain y where "y < 399" "year_start y \<le> doe" "doe < year_start (Suc y)" by auto
  then show ?thesis by (intro exI [of _ y]) (simp add: year_end_def)
qed

section \<open>The length of a year\<close>

lemma is_leap_era: "is_leap (400 * e + k) = is_leap k"
proof -
  have "400 * e + k = 4 * (100 * e) + k" "400 * e + k = 100 * (4 * e) + k" by simp_all
  then have "(400 * e + k) mod 4 = k mod 4" "(400 * e + k) mod 100 = k mod 100" "(400 * e + k) mod 400 = k mod 400"
    by (metis mod_mult_self4)+
  then show ?thesis by (simp add: is_leap_def)
qed

lemma is_leap_int: "is_leap (int n) \<longleftrightarrow> 4 dvd n \<and> (\<not> 100 dvd n \<or> 400 dvd n)"
proof -
  have "int n mod int k = 0 \<longleftrightarrow> k dvd n" for k by (simp only: int_dvd_int_iff flip: dvd_eq_mod_eq_0)
  from this [of 4] this [of 100] this [of 400] show ?thesis by (simp only: is_leap_def of_nat_numeral)
qed

lemma year_start_Suc:
  "year_start (Suc y) + (if 100 dvd Suc y then 1 else 0) = year_start y + 365 + (if 4 dvd Suc y then 1 else 0)"
proof -
  have "y div 100 \<le> y div 4" "Suc y div 100 \<le> Suc y div 4" by (simp_all only: div_antimono)
  moreover have "Suc y div 4 = y div 4 + (if 4 dvd Suc y then 1 else 0)" "Suc y div 100 = y div 100 + (if 100 dvd Suc y then 1 else 0)"
    by (simp_all add: div_Suc_cases del: div_Suc)
  ultimately show ?thesis unfolding year_start_def by (simp split del: if_split) linarith
qed

lemma year_length:
  assumes "y < 400"
  shows "year_end y = year_start y + (if is_leap (400 * era + int y + 1) then 366 else 365)"
proof -
  have "400 * era + int y + 1 = 400 * era + int (Suc y)" by simp
  then have leap: "is_leap (400 * era + int y + 1) \<longleftrightarrow> 4 dvd Suc y \<and> (\<not> 100 dvd Suc y \<or> 400 dvd Suc y)"
    by (simp only: is_leap_era is_leap_int)
  show ?thesis
  proof (cases "y = 399")
    case True
    then show ?thesis unfolding leap by (simp add: year_end_def year_start_def)
  next
    case False
    then have "\<not> 400 dvd Suc y" using assms by (auto dest: dvd_imp_le)
    moreover have "100 dvd Suc y \<Longrightarrow> 4 dvd Suc y" by (rule dvd_trans [of 4 100]) simp_all
    ultimately show ?thesis unfolding leap using False year_start_Suc [of y] by (auto simp: year_end_def split: if_splits)
  qed
qed

section \<open>Months\<close>

text \<open>The formula for months goes through the calendar from the first of March to the end of February, checked by evaluation.\<close>

definition month_check :: "int \<Rightarrow> bool" where
  "month_check d =
     (let mp = (5 * d + 2) div 153; mp' = (5 * d + 7) div 153;
          m = (if mp < 10 then mp + 3 else mp - 9); m' = (if mp' < 10 then mp' + 3 else mp' - 9);
          k = d - (153 * mp + 2) div 5 + 1; k' = d + 1 - (153 * mp' + 2) div 5 + 1;
          n = (if m = 2 then 28 else if m = 4 \<or> m = 6 \<or> m = 9 \<or> m = 11 then 30 else 31)
      in 1 \<le> m \<and> m \<le> 12 \<and> (m = 2 \<longrightarrow> k < 28) \<and> (if k < n then m' = m \<and> k' = k + 1 else m' = (if m < 12 then m + 1 else 1) \<and> k' = 1))"

lemma months_checked: "list_all month_check [0..363]"
  by code_simp

lemma int_month_day:
  "int (fst (month_day d)) = (let mp = (5 * int d + 2) div 153 in if mp < 10 then mp + 3 else mp - 9)"
  "int (snd (month_day d)) = (let mp = (5 * int d + 2) div 153 in int d - (153 * mp + 2) div 5 + 1)"
proof -
  obtain mp where mp: "mp = (5 * d + 2) div 153" by simp
  have i: "(5 * int d + 2) div 153 = int mp" by (simp add: mp zdiv_int)
  show "int (fst (month_day d)) = (let mp = (5 * int d + 2) div 153 in if mp < 10 then mp + 3 else mp - 9)"
    unfolding i month_day_def mp [symmetric] Let_def by (simp add: of_nat_diff)
  have "153 * mp \<le> 5 * d + 2" by (simp add: mp)
  then have "(153 * mp + 2) div 5 \<le> d" by linarith
  then show "int (snd (month_day d)) = (let mp = (5 * int d + 2) div 153 in int d - (153 * mp + 2) div 5 + 1)"
    unfolding i month_day_def mp [symmetric] Let_def by (simp add: of_nat_diff zdiv_int)
qed

text \<open>The date that the formula gives for a year that begins in March and a day of it.\<close>

definition date_in :: "int \<Rightarrow> nat \<Rightarrow> int \<times> nat \<times> nat" where
  "date_in y doy = (let (m, d) = month_day doy in (if m \<le> 2 then y + 1 else y, m, d))"

lemma month_day_ends: "month_day 364 = (2, 28)" "month_day 365 = (2, 29)" "month_day 0 = (3, 1)"
  by (simp_all add: month_day_def)

lemma next_in_year:
  assumes "doy < 364"
  shows "next_date (date_in y doy) = date_in y (Suc doy)"
proof -
  obtain m d m' d' where md: "month_day doy = (m, d)" "month_day (Suc doy) = (m', d')" by fastforce
  have c: "month_check (int doy)" using months_checked assms by (simp add: list_all_iff)
  have S: "int (Suc doy) = int doy + 1" "5 * (int doy + 1) + 2 = 5 * int doy + 7" by simp_all
  have i: "int m = (let mp = (5 * int doy + 2) div 153 in if mp < 10 then mp + 3 else mp - 9)"
    "int d = (let mp = (5 * int doy + 2) div 153 in int doy - (153 * mp + 2) div 5 + 1)"
    "int m' = (let mp = (5 * int doy + 7) div 153 in if mp < 10 then mp + 3 else mp - 9)"
    "int d' = (let mp = (5 * int doy + 7) div 153 in int doy + 1 - (153 * mp + 2) div 5 + 1)"
    using int_month_day [of doy] int_month_day [of "Suc doy"] unfolding S md fst_conv snd_conv by blast+
  have "1 \<le> int m \<and> int m \<le> 12 \<and> (int m = 2 \<longrightarrow> int d < 28) \<and> (if int d < (if int m = 2 then 28 else if int m = 4 \<or> int m = 6 \<or> int m = 9 \<or> int m = 11 then 30 else 31)
      then int m' = int m \<and> int d' = int d + 1 else int m' = (if int m < 12 then int m + 1 else 1) \<and> int d' = 1)"
    using c unfolding month_check_def Let_def i by blast
  then have step: "1 \<le> m" "m \<le> 12" "m = 2 \<Longrightarrow> d < 28"
    "if d < (if m = 2 then 28 else if m = 4 \<or> m = 6 \<or> m = 9 \<or> m = 11 then 30 else 31) then m' = m \<and> d' = d + 1
     else m' = (if m < 12 then m + 1 else 1) \<and> d' = 1" by (auto split: if_splits)
  show ?thesis
  proof (cases "m = 2")
    case True
    then show ?thesis using step by (simp add: date_in_def md month_length_def)
  next
    case False
    then show ?thesis using step(1,2,4) by (auto simp: date_in_def md month_length_def split: if_splits)
  qed
qed

lemma next_from_28:
  "next_date (date_in y 364) = (if is_leap (y + 1) then date_in y 365 else date_in (y + 1) 0)"
  "is_leap (y + 1) \<Longrightarrow> next_date (date_in y 365) = date_in (y + 1) 0"
  by (simp_all add: date_in_def month_day_ends month_length_def)

section \<open>The formula is the calendar\<close>

lemma ceil_div: "- ((146096 - z) div 146097) = z div (146097 :: int)"
proof -
  have "(146096 - z) div 146097 = - (z div 146097)"
  proof (rule int_div_pos_eq)
    show "146096 - z = 146097 * - (z div 146097) + (146096 - z mod 146097)"
      using div_mult_mod_eq [of z 146097] by (simp add: algebra_simps)
    show "0 \<le> 146096 - z mod 146097" "146096 - z mod 146097 < 146097" using pos_mod_bound [of 146097 z] pos_mod_sign [of 146097 z] by linarith+
  qed
  then show ?thesis by simp
qed

lemma day_of_era_eq: "day_of_era z = ((z + 719468) div 146097, nat ((z + 719468) mod 146097))"
proof -
  obtain z' where z': "z' = z + 719468" by simp
  have "sgn n * (\<bar>n\<bar> div 146097) = z' div 146097" if "n = (if 0 \<le> z' then z' else z' - 146096)" for n
    using that ceil_div [of z'] by (auto simp: sgn_if)
  then show ?thesis unfolding day_of_era_def Let_def z' [symmetric] by (simp add: minus_div_mult_eq_mod)
qed

lemma year_end_le: "y < 400 \<Longrightarrow> year_end y \<le> 146097"
proof -
  assume "y < 400"
  have "year_start (Suc y) \<le> 145734" if "Suc y \<le> 399" using that by (simp add: year_start_def del: div_Suc)
  then show ?thesis using \<open>y < 400\<close> by (auto simp: year_end_def)
qed

lemma civil_in:
  assumes "y < 400" "doy < (if is_leap (400 * era + int y + 1) then 366 else 365)"
  shows "civil_from_days (era * 146097 + int (year_start y + doy) - 719468) = date_in (400 * era + int y) doy"
proof -
  have doe: "year_start y + doy < year_end y" using assms year_length [OF assms(1), of era] by simp
  then have "year_start y + doy < 146097" using year_end_le [OF assms(1)] by simp
  then have d: "day_of_era (era * 146097 + int (year_start y + doy) - 719468) = (era, year_start y + doy)"
    by (simp add: day_of_era_eq)
  have "year_of_era (year_start y + doy) = y" using assms(1) doe by (intro year_of_era_in) simp_all
  moreover have "day_of_year (year_start y + doy) y = doy" by (simp add: day_of_year_def year_start_def)
  ultimately show ?thesis
    unfolding civil_from_days_def d date_in_def Let_def by (cases "month_day doy") (simp add: mult.commute add.commute)
qed

lemma day_split:
  obtains era y doy where "y < 400" "doy < (if is_leap (400 * era + int y + 1) then 366 else 365)"
    "z = era * 146097 + int (year_start y + doy) - 719468"
proof -
  obtain doe where doe: "int doe = (z + 719468) mod 146097" by (metis nonneg_int_cases pos_mod_sign zero_less_numeral)
  then have "doe < 146097" using pos_mod_bound [of 146097 "z + 719468"] by simp
  then obtain y where y: "y < 400" "year_start y \<le> doe" "doe < year_end y" using year_exists by blast
  then obtain doy where doy: "doe = year_start y + doy" using le_Suc_ex by blast
  let ?era = "(z + 719468) div 146097"
  have "z = ?era * 146097 + int (year_start y + doy) - 719468"
    using doe doy div_mult_mod_eq [of "z + 719468" 146097] by simp
  moreover have "doy < (if is_leap (400 * ?era + int y + 1) then 366 else 365)"
    using y doy year_length [OF y(1), of ?era] by simp
  ultimately show thesis using y(1) that by blast
qed

lemma civil_next: "civil_from_days (z + 1) = next_date (civil_from_days z)"
proof -
  obtain era y doy where s: "y < 400" "doy < (if is_leap (400 * era + int y + 1) then 366 else 365)"
    "z = era * 146097 + int (year_start y + doy) - 719468" by (rule day_split)
  let ?Y = "400 * era + int y"
  have now: "civil_from_days z = date_in ?Y doy" unfolding s(3) by (rule civil_in [OF s(1,2)])
  show ?thesis
  proof (cases "Suc doy < (if is_leap (?Y + 1) then 366 else 365)")
    case True
    have "z + 1 = era * 146097 + int (year_start y + Suc doy) - 719468" using s(3) by simp
    then have "civil_from_days (z + 1) = date_in ?Y (Suc doy)" by (simp only: civil_in [OF s(1) True])
    also have "\<dots> = next_date (date_in ?Y doy)"
      using True next_in_year [of doy ?Y] next_from_28(1) [of ?Y] by (cases "doy = 364") (auto split: if_splits)
    finally show ?thesis unfolding now .
  next
    case False
    then have ends: "year_end y = year_start y + Suc doy" using s(2) year_length [OF s(1), of era] by (auto split: if_splits)
    have "civil_from_days (z + 1) = date_in (?Y + 1) 0"
    proof (cases "y = 399")
      case True
      then have "z + 1 = (era + 1) * 146097 + int (year_start 0 + 0) - 719468"
        using ends s(3) by (simp add: year_end_def year_start_def [of 0])
      moreover have "civil_from_days ((era + 1) * 146097 + int (year_start 0 + 0) - 719468) = date_in (400 * (era + 1) + int 0) 0"
        by (rule civil_in) simp_all
      ultimately have "civil_from_days (z + 1) = date_in (400 * (era + 1) + int 0) 0" by (simp only:)
      then show ?thesis using True by (simp add: algebra_simps)
    next
      case False
      then have "z + 1 = era * 146097 + int (year_start (Suc y) + 0) - 719468" using ends s(3) by (simp add: year_end_def)
      moreover have "civil_from_days (era * 146097 + int (year_start (Suc y) + 0) - 719468) = date_in (400 * era + int (Suc y)) 0"
        by (rule civil_in) (use False s(1) in simp_all)
      ultimately have "civil_from_days (z + 1) = date_in (400 * era + int (Suc y)) 0" by (simp only:)
      then show ?thesis by (simp add: algebra_simps)
    qed
    also have "\<dots> = next_date (date_in ?Y doy)"
      using False s(2) next_from_28 [of ?Y] by (cases "doy = 364"; cases "doy = 365") (auto split: if_splits)
    finally show ?thesis unfolding now .
  qed
qed

lemma civil_epoch: "civil_from_days 0 = (1970, 1, 1)"
  by (simp add: civil_from_days_def day_of_era_eq year_of_era_def day_of_year_def month_day_def Let_def)

section \<open>Timestamps\<close>

text \<open>\<^verbatim>\<open>{:0w}\<close> of a number that is not negative.\<close>

definition zero_pad :: "nat \<Rightarrow> nat \<Rightarrow> string" where
  "zero_pad w n = (let t = write_u64_loop n [] in replicate (w - length t) (CHR ''0'') @ t)"

text \<open>A \<^verbatim>\<open>SystemTime\<close> at or after the epoch is its whole seconds and its milliseconds; one before it is the epoch.\<close>

definition rfc3339 :: "nat \<times> nat \<Rightarrow> string" where
  "rfc3339 t =
     (let (secs, millis) = t; (year, month, day) = civil_from_days (int (secs div 86400)); rem = secs mod 86400
      in zero_pad 4 (nat year) @ ''-'' @ zero_pad 2 month @ ''-'' @ zero_pad 2 day @ ''T'' @
         zero_pad 2 (rem div 3600) @ '':'' @ zero_pad 2 ((rem mod 3600) div 60) @ '':'' @ zero_pad 2 (rem mod 60) @ ''.'' @
         zero_pad 3 millis @ ''Z'')"

text \<open>A date of the calendar.\<close>

fun valid_date :: "int \<times> nat \<times> nat \<Rightarrow> bool" where
  "valid_date (y, m, d) \<longleftrightarrow> 1 \<le> m \<and> m \<le> 12 \<and> 1 \<le> d \<and> d \<le> month_length y m"

lemma next_date_valid: "valid_date x \<Longrightarrow> valid_date (next_date x)"
  by (cases x) (auto simp: month_length_def)

text \<open>C23: The date in a log timestamp is the date of the calendar: the closed formula gives, for every day after the epoch, what
  counting that many days from 1970-01-01 by the lengths of the months and the leap-year rule gives, a valid date; and a
  day later is the next date, also before the epoch.\<close>
theorem civil_from_days_correct:
  "civil_from_days (int n) = (next_date ^^ n) (1970, 1, 1) \<and> valid_date (civil_from_days (int n)) \<and>
   civil_from_days (z + 1) = next_date (civil_from_days z)"
proof -
  have "civil_from_days (int n) = (next_date ^^ n) (1970, 1, 1)"
  proof (induction n)
    case (Suc n)
    have "civil_from_days (int (Suc n)) = next_date (civil_from_days (int n))" using civil_next [of "int n"] by (simp add: add.commute)
    then show ?case using Suc by simp
  qed (simp add: civil_epoch)
  moreover have "valid_date ((next_date ^^ n) (1970, 1, 1))"
    by (induction n) (simp add: month_length_def, simp add: next_date_valid)
  ultimately show ?thesis by (simp add: civil_next)
qed

end
