(* ===== verification/Log.thy ===== *)
theory Log
  imports Log_Time Codec_Json_Correct Rust_Char
begin

text \<open>
  The logger (\<^verbatim>\<open>log.rs\<close>): levels and filters, the two line formats, the synchronous sink, and the asynchronous appender,
  whose logging threads and background thread interleave freely. The writer behind a sink is a parameter: \<open>wr b w\<close>
  is \<^verbatim>\<open>write_all(b)\<close> on the writer in state \<open>w\<close>, with whether it succeeded, and \<open>fl w\<close> is \<^verbatim>\<open>flush()\<close>.
\<close>

section \<open>Levels and configuration\<close>

datatype LogLevel = Trace | Debug | Info | Warn | Error

fun log_level_u8 :: "LogLevel \<Rightarrow> nat" where
  "log_level_u8 Trace = 0" | "log_level_u8 Debug = 1" | "log_level_u8 Info = 2" | "log_level_u8 Warn = 3" | "log_level_u8 Error = 4"

fun log_level_str :: "LogLevel \<Rightarrow> string" where
  "log_level_str Trace = ''trace''" | "log_level_str Debug = ''debug''" | "log_level_str Info = ''info''"
| "log_level_str Warn = ''warn''" | "log_level_str Error = ''error''"

text \<open>\<^verbatim>\<open>to_uppercase\<close> of the names of levels.\<close>

fun log_level_upper :: "LogLevel \<Rightarrow> string" where
  "log_level_upper Trace = ''TRACE''" | "log_level_upper Debug = ''DEBUG''" | "log_level_upper Info = ''INFO''"
| "log_level_upper Warn = ''WARN''" | "log_level_upper Error = ''ERROR''"

datatype LogFormat = Plain | Json

type_synonym 'f log_fields = "(string \<times> 'f Value) list"

record 'f Logger =
  log_format :: LogFormat
  min_level :: LogLevel
  log_ctx :: "'f log_fields"

text \<open>The statics: \<^verbatim>\<open>MAX_LEVEL\<close>, \<^verbatim>\<open>PROVIDERS\<close> (functions of the context of the call) and \<^verbatim>\<open>GLOBAL\<close>.\<close>

record ('c, 'f) log_statics =
  max_level :: nat
  providers :: "('c \<Rightarrow> 'f log_fields) list"
  global_logger :: "'f Logger option"

definition log_statics_new :: "('c, 'f) log_statics" where
  "log_statics_new = \<lparr>max_level = log_level_u8 Info, providers = [], global_logger = None\<rparr>"

definition set_max_level :: "LogLevel \<Rightarrow> ('c, 'f) log_statics \<Rightarrow> ('c, 'f) log_statics" where
  "set_max_level l g = g\<lparr>max_level := log_level_u8 l\<rparr>"

definition add_context_provider :: "('c \<Rightarrow> 'f log_fields) \<Rightarrow> ('c, 'f) log_statics \<Rightarrow> ('c, 'f) log_statics" where
  "add_context_provider p g = g\<lparr>providers := providers g @ [p]\<rparr>"

definition context_fields :: "('c, 'f) log_statics \<Rightarrow> 'c \<Rightarrow> 'f log_fields" where
  "context_fields g c = concat (map (\<lambda>p. p c) (providers g))"

definition level_enabled :: "('c, 'f) log_statics \<Rightarrow> LogLevel \<Rightarrow> bool" where
  "level_enabled g l \<longleftrightarrow> max_level g \<le> log_level_u8 l"

definition logger_new :: "'f Logger" where
  "logger_new = \<lparr>log_format = Plain, min_level = Trace, log_ctx = []\<rparr>"

definition logger_json :: "'f Logger" where
  "logger_json = logger_new\<lparr>log_format := Json\<rparr>"

definition logger_format :: "LogFormat \<Rightarrow> 'f Logger \<Rightarrow> 'f Logger" where
  "logger_format f lg = lg\<lparr>log_format := f\<rparr>"

definition logger_level :: "LogLevel \<Rightarrow> 'f Logger \<Rightarrow> 'f Logger" where
  "logger_level l lg = lg\<lparr>min_level := l\<rparr>"

definition logger_with :: "string \<Rightarrow> 'f Value \<Rightarrow> 'f Logger \<Rightarrow> 'f Logger" where
  "logger_with k v lg = lg\<lparr>log_ctx := log_ctx lg @ [(k, v)]\<rparr>"

definition set_global :: "'f Logger \<Rightarrow> ('c, 'f) log_statics \<Rightarrow> ('c, 'f) log_statics" where
  "set_global lg g = g\<lparr>global_logger := Some lg\<rparr>"

definition the_global :: "('c, 'f) log_statics \<Rightarrow> 'f Logger" where
  "the_global g = (case global_logger g of Some lg \<Rightarrow> lg | None \<Rightarrow> logger_new)"

section \<open>Lines\<close>

definition sanitize :: "string \<Rightarrow> string" where
  "sanitize msg = map (\<lambda>c. if c = CHR 0x0A \<or> c = CHR 0x0D then CHR '' '' else c) msg"

fun value_plain :: "'f float_ops \<Rightarrow> 'f Value \<Rightarrow> string" where
  "value_plain F (Str s) = s"
| "value_plain F v = to_string F v"

definition plain_field :: "'f float_ops \<Rightarrow> string \<times> 'f Value \<Rightarrow> string" where
  "plain_field F kv = '' '' @ fst kv @ ''='' @ value_plain F (snd kv)"

definition format_plain :: "'f float_ops \<Rightarrow> 'f Logger \<Rightarrow> string \<Rightarrow> LogLevel \<Rightarrow> string \<Rightarrow> 'f log_fields \<Rightarrow> 'f log_fields \<Rightarrow> string" where
  "format_plain F lg ts l msg provided fs =
     ts @ '' '' @ pad_right 5 (log_level_upper l) @ '' '' @ sanitize msg @
     concat (map (plain_field F) (provided @ log_ctx lg)) @ concat (map (plain_field F) fs)"

definition format_json :: "'f float_ops \<Rightarrow> 'f Logger \<Rightarrow> string \<Rightarrow> LogLevel \<Rightarrow> string \<Rightarrow> 'f log_fields \<Rightarrow> 'f log_fields \<Rightarrow> string" where
  "format_json F lg ts l msg provided fs = to_string F (Object
     ([(''ts'', Str ts), (''level'', Str (log_level_str l)), (''msg'', Str msg)] @ provided @ log_ctx lg @ fs))"

text \<open>What \<^verbatim>\<open>Logger::log\<close> formats at the time \<open>now\<close> in the context \<open>c\<close>; \<open>None\<close> when a filter drops the record.\<close>

definition log_line :: "'f float_ops \<Rightarrow> ('c, 'f) log_statics \<Rightarrow> 'c \<Rightarrow> nat \<times> nat \<Rightarrow> 'f Logger \<Rightarrow> LogLevel \<Rightarrow> string \<Rightarrow> 'f log_fields \<Rightarrow> string option" where
  "log_line F g c now lg l msg fs =
     (if log_level_u8 l < log_level_u8 (min_level lg) \<or> \<not> level_enabled g l then None
      else let ts = rfc3339 now; provided = context_fields g c
           in Some (case log_format lg of
                Plain \<Rightarrow> format_plain F lg ts l msg provided fs
              | Json \<Rightarrow> format_json F lg ts l msg provided fs))"

section \<open>Sinks\<close>

text \<open>The commands to the background thread; a flush is known by its acknowledgement channel, here a number.\<close>

datatype Cmd = Write string | Flush nat

text \<open>The background thread: at \<^verbatim>\<open>recv\<close>, working on a command, or ended.\<close>

datatype worker_state = Waiting | Busy Cmd | Gone

record 'w appender =
  queue :: "Cmd list"
  capacity :: nat
  worker :: worker_state
  dropped_count :: u64
  writer :: 'w
  senders_gone :: bool

definition async_to :: "'w \<Rightarrow> nat \<Rightarrow> 'w appender" where
  "async_to w cap = \<lparr>queue = [], capacity = cap, worker = Waiting, dropped_count = 0, writer = w, senders_gone = False\<rparr>"

text \<open>\<^verbatim>\<open>try_send\<close> on a \<^verbatim>\<open>sync_channel\<close>: there is room, or the channel is a rendezvous and the receiver waits.\<close>

definition try_send :: "Cmd \<Rightarrow> 'w appender \<Rightarrow> 'w appender option" where
  "try_send c a =
     (if worker a \<noteq> Gone \<and> (length (queue a) < capacity a \<or> capacity a = 0 \<and> worker a = Waiting \<and> queue a = [])
      then Some (a\<lparr>queue := queue a @ [c]\<rparr>) else None)"

definition emit_async :: "string \<Rightarrow> 'w appender \<Rightarrow> 'w appender" where
  "emit_async line a = (case try_send (Write (line @ [CHR 0x0A])) a of
     Some a' \<Rightarrow> a'
   | None \<Rightarrow> a\<lparr>dropped_count := dropped_count a + 1\<rparr>)"

datatype 'w Sink = Sync bool 'w | Async "'w appender"

text \<open>A synchronous sink is skipped when its lock is poisoned; failures of the writer are ignored.\<close>

fun emit_line :: "(string \<Rightarrow> 'w \<Rightarrow> 'w \<times> bool) \<Rightarrow> string \<Rightarrow> 'w Sink \<Rightarrow> 'w Sink" where
  "emit_line wr line (Sync poisoned w) =
     (if poisoned then Sync poisoned w else Sync poisoned (fst (wr [CHR 0x0A] (fst (wr line w)))))"
| "emit_line wr line (Async a) = Async (emit_async line a)"

definition log_record :: "(string \<Rightarrow> 'w \<Rightarrow> 'w \<times> bool) \<Rightarrow> 'f float_ops \<Rightarrow> ('c, 'f) log_statics \<Rightarrow> 'c \<Rightarrow> nat \<times> nat \<Rightarrow> 'f Logger \<Rightarrow>
    LogLevel \<Rightarrow> string \<Rightarrow> 'f log_fields \<Rightarrow> 'w Sink \<Rightarrow> 'w Sink" where
  "log_record wr F g c now lg l msg fs s = (case log_line F g c now lg l msg fs of None \<Rightarrow> s | Some line \<Rightarrow> emit_line wr line s)"

text \<open>The free functions log with the global logger.\<close>

definition log_global :: "(string \<Rightarrow> 'w \<Rightarrow> 'w \<times> bool) \<Rightarrow> 'f float_ops \<Rightarrow> ('c, 'f) log_statics \<Rightarrow> 'c \<Rightarrow> nat \<times> nat \<Rightarrow>
    LogLevel \<Rightarrow> string \<Rightarrow> 'f log_fields \<Rightarrow> 'w Sink \<Rightarrow> 'w Sink" where
  "log_global wr F g c now l msg fs s = log_record wr F g c now (the_global g) l msg fs s"

fun sink_dropped :: "'w Sink \<Rightarrow> u64" where
  "sink_dropped (Sync p w) = 0"
| "sink_dropped (Async a) = dropped_count a"

text \<open>The two halves of \<^verbatim>\<open>Logger::flush\<close>: the marker goes in behind what is queued (the call blocks while there is no room),
  and the call returns when the marker was acknowledged, or when the thread is gone.\<close>

definition flush_send :: "nat \<Rightarrow> 'w appender \<Rightarrow> 'w appender option" where
  "flush_send n a = try_send (Flush n) a"

text \<open>The loop of the background thread, at its two points of interleaving. The thread ends on a failed write, dropping the
  channel with what is in it, and when the channel is empty and every logger is gone.\<close>

definition worker_recv :: "'w appender \<Rightarrow> 'w appender option" where
  "worker_recv a = (case (worker a, queue a) of
     (Waiting, c # cs) \<Rightarrow> Some (a\<lparr>worker := Busy c, queue := cs\<rparr>)
   | (Waiting, []) \<Rightarrow> if senders_gone a then Some (a\<lparr>worker := Gone\<rparr>) else None
   | _ \<Rightarrow> None)"

definition worker_run :: "(string \<Rightarrow> 'w \<Rightarrow> 'w \<times> bool) \<Rightarrow> ('w \<Rightarrow> 'w) \<Rightarrow> 'w appender \<Rightarrow> 'w appender option" where
  "worker_run wr fl a = (case worker a of
     Busy (Write b) \<Rightarrow>
       (let (w, ok) = wr b (writer a)
        in Some (if ok then a\<lparr>writer := fl w, worker := Waiting\<rparr> else a\<lparr>writer := w, worker := Gone, queue := []\<rparr>))
   | Busy (Flush n) \<Rightarrow> Some (a\<lparr>writer := fl (writer a), worker := Waiting\<rparr>)
   | _ \<Rightarrow> None)"

end
