(* ===== verification/Log_Correct.thy ===== *)
theory Log_Correct
  imports Log "HOL-Library.Sublist"
begin

text \<open>
  Correctness of the logger: over every interleaving of logging calls, flushes and the background thread, records are
  written in order, none twice and none out of nothing; what the channel does not take is counted, and what it took is written or
  pending until a write fails. A record of the JSON format is one line that parses back to what was logged.
\<close>

section \<open>Runs of the asynchronous appender\<close>

text \<open>The appender with its history: the lines offered by logging calls (their number), those the channel took, those the
  writer took, how many had been taken when a flush marker went in, and the flushes acknowledged.\<close>

record 'w log_run =
  app :: "'w appender"
  offered :: nat
  accepted :: "string list"
  wrote :: "string list"
  marks :: "nat \<rightharpoonup> nat"
  acked :: "nat set"

definition log_run_new :: "'w \<Rightarrow> nat \<Rightarrow> 'w log_run" where
  "log_run_new w cap = \<lparr>app = async_to w cap, offered = 0, accepted = [], wrote = [], marks = Map.empty, acked = {}\<rparr>"

definition line_of :: "string \<Rightarrow> string" where
  "line_of s = s @ [CHR 0x0A]"

fun cmd_lines :: "Cmd \<Rightarrow> string list" where
  "cmd_lines (Write b) = [b]"
| "cmd_lines (Flush n) = []"

fun cmd_acks :: "Cmd \<Rightarrow> nat set" where
  "cmd_acks (Write b) = {}"
| "cmd_acks (Flush n) = {n}"

fun busy_cmds :: "worker_state \<Rightarrow> Cmd list" where
  "busy_cmds (Busy c) = [c]"
| "busy_cmds Waiting = []"
| "busy_cmds Gone = []"

inductive log_step :: "(string \<Rightarrow> 'w \<Rightarrow> 'w \<times> bool) \<Rightarrow> ('w \<Rightarrow> 'w) \<Rightarrow> 'w log_run \<Rightarrow> 'w log_run \<Rightarrow> bool"
  for wr fl where
  log: "\<not> senders_gone (app s) \<Longrightarrow> log_step wr fl s (s\<lparr>app := emit_async line (app s), offered := Suc (offered s),
      accepted := (if try_send (Write (line_of line)) (app s) = None then accepted s else accepted s @ [line_of line])\<rparr>)"
| flush: "\<not> senders_gone (app s) \<Longrightarrow> flush_send n (app s) = Some a \<Longrightarrow> marks s n = None \<Longrightarrow>
    log_step wr fl s (s\<lparr>app := a, marks := (marks s)(n \<mapsto> length (accepted s))\<rparr>)"
| close: "log_step wr fl s (s\<lparr>app := (app s)\<lparr>senders_gone := True\<rparr>\<rparr>)"
| recv: "worker_recv (app s) = Some a \<Longrightarrow> log_step wr fl s (s\<lparr>app := a\<rparr>)"
| work: "worker (app s) = Busy c \<Longrightarrow> worker_run wr fl (app s) = Some a \<Longrightarrow>
    log_step wr fl s (s\<lparr>app := a, wrote := (if worker a = Gone then wrote s else wrote s @ cmd_lines c), acked := acked s \<union> cmd_acks c\<rparr>)"

inductive log_reachable :: "(string \<Rightarrow> 'w \<Rightarrow> 'w \<times> bool) \<Rightarrow> ('w \<Rightarrow> 'w) \<Rightarrow> 'w \<Rightarrow> nat \<Rightarrow> 'w log_run \<Rightarrow> bool"
  for wr fl w cap where
  start: "log_reachable wr fl w cap (log_run_new w cap)"
| more: "log_reachable wr fl w cap s \<Longrightarrow> log_step wr fl s s' \<Longrightarrow> log_reachable wr fl w cap s'"

definition pending :: "'w appender \<Rightarrow> Cmd list" where
  "pending a = busy_cmds (worker a) @ queue a"

definition lines_of :: "Cmd list \<Rightarrow> string list" where
  "lines_of cs = concat (map cmd_lines cs)"

fun markers_ok :: "(nat \<rightharpoonup> nat) \<Rightarrow> nat \<Rightarrow> Cmd list \<Rightarrow> bool" where
  "markers_ok ms k [] = True"
| "markers_ok ms k (Write b # cs) = markers_ok ms (Suc k) cs"
| "markers_ok ms k (Flush n # cs) = (ms n = Some k \<and> markers_ok ms k cs)"

text \<open>The invariant: what was taken is what was written and what is pending; a pending marker stands behind exactly the
  lines taken before it.\<close>

definition log_inv :: "nat \<Rightarrow> 'w log_run \<Rightarrow> bool" where
  "log_inv cap s \<longleftrightarrow>
     capacity (app s) = cap \<and> length (queue (app s)) \<le> max 1 cap \<and>
     length (accepted s) \<le> offered s \<and> dropped_count (app s) = of_nat (offered s - length (accepted s)) \<and>
     prefix (wrote s) (accepted s) \<and>
     (worker (app s) = Gone \<longrightarrow> queue (app s) = []) \<and>
     (worker (app s) \<noteq> Gone \<longrightarrow> accepted s = wrote s @ lines_of (pending (app s))) \<and>
     markers_ok (marks s) (length (wrote s)) (pending (app s)) \<and>
     (\<forall>n \<in> acked s. \<exists>k. marks s n = Some k \<and> k \<le> length (wrote s))"


lemma lines_of_simps [simp]: "lines_of [] = []" "lines_of (c # cs) = cmd_lines c @ lines_of cs" "lines_of (cs @ ds) = lines_of cs @ lines_of ds"
  by (simp_all add: lines_of_def)

lemma markers_ok_Cons: "markers_ok ms k (c # cs) \<longleftrightarrow> (\<forall>n. c = Flush n \<longrightarrow> ms n = Some k) \<and> markers_ok ms (k + length (cmd_lines c)) cs"
  by (cases c) simp_all

lemma markers_ok_snoc:
  "markers_ok ms k (cs @ [c]) \<longleftrightarrow> markers_ok ms k cs \<and> (\<forall>n. c = Flush n \<longrightarrow> ms n = Some (k + length (lines_of cs)))"
  by (induction cs arbitrary: k) (auto simp: markers_ok_Cons add.assoc)

lemma markers_ok_fresh: "markers_ok ms k cs \<Longrightarrow> ms n = None \<Longrightarrow> markers_ok (ms(n \<mapsto> j)) k cs"
  by (induction ms k cs rule: markers_ok.induct) auto

lemma try_send_Some:
  assumes "try_send c a = Some a'"
  shows "a' = a\<lparr>queue := queue a @ [c]\<rparr>" "worker a \<noteq> Gone" "length (queue a) < max 1 (capacity a)"
  using assms by (auto simp: try_send_def split: if_splits)

lemma pending_upd [simp]:
  "pending (a\<lparr>queue := queue a @ [c]\<rparr>) = pending a @ [c]" "pending (a\<lparr>dropped_count := d\<rparr>) = pending a"
  "pending (a\<lparr>senders_gone := g\<rparr>) = pending a"
  by (simp_all add: pending_def)

lemma log_inv_log:
  assumes "log_inv cap s"
  shows "log_inv cap (s\<lparr>app := emit_async line (app s), offered := Suc (offered s),
      accepted := (if try_send (Write (line_of line)) (app s) = None then accepted s else accepted s @ [line_of line])\<rparr>)"
proof (cases "try_send (Write (line_of line)) (app s)")
  case None
  then have "emit_async line (app s) = (app s)\<lparr>dropped_count := dropped_count (app s) + 1\<rparr>"
    by (simp add: emit_async_def line_of_def)
  moreover have "Suc (offered s) - length (accepted s) = Suc (offered s - length (accepted s))"
    using assms by (simp add: log_inv_def Suc_diff_le)
  ultimately show ?thesis using None assms by (simp add: log_inv_def)
next
  case (Some a)
  then have "emit_async line (app s) = a" by (simp add: emit_async_def line_of_def)
  then show ?thesis using Some assms try_send_Some [OF Some] by (auto simp: log_inv_def markers_ok_snoc)
qed

lemma log_inv_flush:
  assumes "log_inv cap s" "flush_send n (app s) = Some a" "marks s n = None"
  shows "log_inv cap (s\<lparr>app := a, marks := (marks s)(n \<mapsto> length (accepted s))\<rparr>)"
proof -
  note t = try_send_Some [OF assms(2) [unfolded flush_send_def]]
  have "markers_ok ((marks s)(n \<mapsto> length (accepted s))) (length (wrote s)) (pending (app s))"
    using assms by (intro markers_ok_fresh) (simp_all add: log_inv_def)
  then have "markers_ok ((marks s)(n \<mapsto> length (accepted s))) (length (wrote s)) (pending a)"
    using assms(1) t by (simp add: markers_ok_snoc log_inv_def)
  moreover have "n \<notin> acked s" using assms(1,3) by (auto simp: log_inv_def)
  ultimately show ?thesis using assms(1) t by (auto simp: log_inv_def)
qed

lemma log_inv_recv:
  assumes "log_inv cap s" "worker_recv (app s) = Some a"
  shows "log_inv cap (s\<lparr>app := a\<rparr>)"
proof -
  have "pending a = pending (app s)" "length (queue a) \<le> length (queue (app s))" "worker (app s) \<noteq> Gone"
    "worker a = Gone \<longrightarrow> queue a = []" "capacity a = capacity (app s)" "dropped_count a = dropped_count (app s)"
    using assms(2) by (auto simp: worker_recv_def pending_def split: worker_state.splits list.splits if_splits)
  then show ?thesis using assms(1) by (auto simp: log_inv_def)
qed

lemma log_inv_work:
  assumes "log_inv cap s" "worker (app s) = Busy c" "worker_run wr fl (app s) = Some a"
  shows "log_inv cap (s\<lparr>app := a, wrote := (if worker a = Gone then wrote s else wrote s @ cmd_lines c), acked := acked s \<union> cmd_acks c\<rparr>)"
proof -
  have kept: "capacity a = cap" "dropped_count a = dropped_count (app s)" "worker a = Gone \<longrightarrow> queue a = [] \<and> cmd_acks c = {}"
    "worker a \<noteq> Gone \<longrightarrow> worker a = Waiting \<and> queue a = queue (app s)" "length (queue a) \<le> length (queue (app s))"
    using assms by (auto simp: worker_run_def log_inv_def split: Cmd.splits prod.splits if_splits)
  have p: "pending (app s) = c # queue (app s)" using assms(2) by (simp add: pending_def)
  have inv: "accepted s = wrote s @ cmd_lines c @ lines_of (queue (app s))"
    "\<forall>n. c = Flush n \<longrightarrow> marks s n = Some (length (wrote s))" "markers_ok (marks s) (length (wrote s) + length (cmd_lines c)) (queue (app s))"
    "\<forall>n \<in> acked s. \<exists>k. marks s n = Some k \<and> k \<le> length (wrote s)"
    using assms(1,2) by (simp_all add: log_inv_def p markers_ok_Cons)
  show ?thesis
  proof (cases "worker a = Gone")
    case True
    then show ?thesis using assms(1) kept by (auto simp: log_inv_def pending_def)
  next
    case False
    then have q: "pending a = queue (app s)" using kept by (simp add: pending_def)
    have "\<forall>n \<in> acked s \<union> cmd_acks c. \<exists>k. marks s n = Some k \<and> k \<le> length (wrote s @ cmd_lines c)"
      using inv(2,4) by (cases c) (auto simp: trans_le_add1)
    then show ?thesis using False assms(1) kept inv q by (auto simp: log_inv_def)
  qed
qed

lemma log_inv_step: "log_step wr fl s s' \<Longrightarrow> log_inv cap s \<Longrightarrow> log_inv cap s'"
proof (induction rule: log_step.induct)
  case (close s)
  then show ?case by (simp add: log_inv_def)
qed (simp_all add: log_inv_log log_inv_flush log_inv_recv log_inv_work)

lemma log_reachable_inv: "log_reachable wr fl w cap s \<Longrightarrow> log_inv cap s"
proof (induction rule: log_reachable.induct)
  case start
  show ?case by (simp add: log_inv_def log_run_new_def async_to_def pending_def)
qed (rule log_inv_step)

text \<open>A writer that never fails keeps the thread until every logger is gone and everything is written.\<close>

lemma log_reachable_kept:
  assumes "log_reachable wr fl w cap s" "\<And>b w. snd (wr b w)" "worker (app s) = Gone"
  shows "senders_gone (app s) \<and> wrote s = accepted s"
  using assms(1,3)
proof (induction rule: log_reachable.induct)
  case (more s s')
  note inv = log_reachable_inv [OF more.hyps(1)]
  from more.hyps(2) inv more.IH more.prems show ?case
  proof (induction rule: log_step.induct)
    case (log s line)
    then show ?case by (auto simp: emit_async_def try_send_def split: if_splits)
  next
    case (flush s n a)
    then show ?case by (auto simp: flush_send_def try_send_def split: if_splits)
  next
    case (recv s a)
    then show ?case by (auto simp: worker_recv_def pending_def log_inv_def split: worker_state.splits list.splits if_splits)
  next
    case (work s c a)
    then show ?case using assms(2) by (auto simp: worker_run_def split: Cmd.splits prod.splits if_splits) (metis snd_conv)+
  qed auto
qed (simp add: log_run_new_def async_to_def)

text \<open>The background thread alone writes out what is pending.\<close>

inductive worker_steps :: "(string \<Rightarrow> 'w \<Rightarrow> 'w \<times> bool) \<Rightarrow> ('w \<Rightarrow> 'w) \<Rightarrow> 'w log_run \<Rightarrow> 'w log_run \<Rightarrow> bool"
  for wr fl where
  idle: "worker_steps wr fl s s"
| recv: "worker_recv (app s) = Some a \<Longrightarrow> worker_steps wr fl (s\<lparr>app := a\<rparr>) s' \<Longrightarrow> worker_steps wr fl s s'"
| work: "worker (app s) = Busy c \<Longrightarrow> worker_run wr fl (app s) = Some a \<Longrightarrow>
    worker_steps wr fl (s\<lparr>app := a, wrote := (if worker a = Gone then wrote s else wrote s @ cmd_lines c), acked := acked s \<union> cmd_acks c\<rparr>) s' \<Longrightarrow>
    worker_steps wr fl s s'"

lemma busy_runs:
  assumes "\<And>b w. snd (wr b w)" "worker a = Busy c"
  shows "\<exists>a'. worker_run wr fl a = Some a' \<and> worker a' = Waiting \<and> queue a' = queue a"
proof (cases c)
  case (Write b)
  then show ?thesis using assms(1) [of b "writer a"] assms(2) by (cases "wr b (writer a)") (simp add: worker_run_def)
qed (use assms(2) in \<open>simp add: worker_run_def\<close>)

lemma worker_drains:
  assumes "\<And>b w. snd (wr b w)" "worker (app s) \<noteq> Gone"
  shows "\<exists>s'. worker_steps wr fl s s' \<and> wrote s' = wrote s @ lines_of (pending (app s)) \<and> pending (app s') = [] \<and>
    (\<forall>n. Flush n \<in> set (pending (app s)) \<longrightarrow> n \<in> acked s') \<and> acked s \<subseteq> acked s'"
  using assms(2)
proof (induction "2 * length (queue (app s)) + length (busy_cmds (worker (app s)))" arbitrary: s rule: less_induct)
  case less
  show ?case
  proof (cases "worker (app s)")
    case Waiting
    show ?thesis
    proof (cases "queue (app s)")
      case Nil
      then show ?thesis using Waiting by (intro exI [of _ s]) (simp add: worker_steps.idle pending_def)
    next
      case (Cons c cs)
      let ?a = "(app s)\<lparr>worker := Busy c, queue := cs\<rparr>"
      have r: "worker_recv (app s) = Some ?a" using Waiting Cons by (simp add: worker_recv_def)
      have p: "pending ?a = pending (app s)" using Waiting Cons by (simp add: pending_def)
      have "\<exists>s'. worker_steps wr fl (s\<lparr>app := ?a\<rparr>) s' \<and> wrote s' = wrote s @ lines_of (pending ?a) \<and> pending (app s') = [] \<and>
          (\<forall>n. Flush n \<in> set (pending ?a) \<longrightarrow> n \<in> acked s') \<and> acked s \<subseteq> acked s'"
        using less.hyps [of "s\<lparr>app := ?a\<rparr>"] Waiting Cons by simp
      then show ?thesis unfolding p using worker_steps.recv [OF r] by blast
    qed
  next
    case (Busy c)
    obtain a where a: "worker_run wr fl (app s) = Some a" "worker a = Waiting" "queue a = queue (app s)"
      using Busy busy_runs [of wr "app s" c fl] assms(1) by blast
    let ?t = "s\<lparr>app := a, wrote := (if worker a = Gone then wrote s else wrote s @ cmd_lines c), acked := acked s \<union> cmd_acks c\<rparr>"
    have "\<exists>s'. worker_steps wr fl ?t s' \<and> wrote s' = wrote ?t @ lines_of (pending a) \<and> pending (app s') = [] \<and>
        (\<forall>n. Flush n \<in> set (pending a) \<longrightarrow> n \<in> acked s') \<and> acked ?t \<subseteq> acked s'"
      using less.hyps [of ?t] Busy a by simp
    then obtain s' where s': "worker_steps wr fl ?t s'" "wrote s' = wrote ?t @ lines_of (pending a)" "pending (app s') = []"
      "\<forall>n. Flush n \<in> set (pending a) \<longrightarrow> n \<in> acked s'" "acked ?t \<subseteq> acked s'" by blast
    have "pending (app s) = c # pending a" using Busy a by (simp add: pending_def)
    moreover have "wrote ?t = wrote s @ cmd_lines c" "acked ?t = acked s \<union> cmd_acks c" using a(2) by simp_all
    moreover have "n \<in> cmd_acks c" if "c = Flush n" for n using that by simp
    ultimately show ?thesis using s'(2-5) worker_steps.work [OF Busy a(1) s'(1)] by (intro exI [of _ s']) auto
  next
    case Gone
    then show ?thesis using less.prems by simp
  qed
qed

text \<open>C21: The asynchronous log, over every interleaving of logging calls, flushes, shutdown and the background thread: the
  channel never holds more than its capacity (one record for a rendezvous channel); every record offered was either taken by
  the channel or is in the drop counter (modulo its 64 bits); records are written in the order they were taken, none twice; a
  flush that was acknowledged has every record taken before it written. As long as the background thread is there, the
  records taken are those written followed by those pending, so none is lost. A write that fails ends the thread, and the
  records then pending are lost without being counted (\<open>failed_write_loses_queue\<close>); with a writer that does not fail, the
  thread is there until the loggers are gone and then everything taken is written, and at any time its own steps write
  out what is pending and acknowledge every flush waiting.\<close>
theorem log_async_correct:
  assumes "log_reachable wr fl w cap s"
  shows "length (queue (app s)) \<le> max 1 cap \<and>
    (\<exists>k. offered s = length (accepted s) + k \<and> dropped_count (app s) = of_nat k) \<and>
    prefix (wrote s) (accepted s) \<and>
    (worker (app s) \<noteq> Gone \<longrightarrow> accepted s = wrote s @ lines_of (pending (app s))) \<and>
    (\<forall>n \<in> acked s. \<exists>k. marks s n = Some k \<and> take k (accepted s) = take k (wrote s) \<and> k \<le> length (wrote s)) \<and>
    ((\<forall>b w. snd (wr b w)) \<longrightarrow>
       (if worker (app s) = Gone then senders_gone (app s) \<and> wrote s = accepted s
        else \<exists>s'. worker_steps wr fl s s' \<and> wrote s' = accepted s \<and> (\<forall>n. Flush n \<in> set (pending (app s)) \<longrightarrow> n \<in> acked s')))"
proof -
  have inv: "log_inv cap s" using assms by (rule log_reachable_inv)
  have 1: "\<exists>k. offered s = length (accepted s) + k \<and> dropped_count (app s) = of_nat k"
    using inv by (intro exI [of _ "offered s - length (accepted s)"]) (simp add: log_inv_def)
  have pre: "take k (accepted s) = take k (wrote s)" if "k \<le> length (wrote s)" for k
    using inv that by (auto simp: log_inv_def prefix_def)
  have 2: "\<forall>n \<in> acked s. \<exists>k. marks s n = Some k \<and> take k (accepted s) = take k (wrote s) \<and> k \<le> length (wrote s)"
    using inv pre unfolding log_inv_def by meson
  have 3: "if worker (app s) = Gone then senders_gone (app s) \<and> wrote s = accepted s
      else \<exists>s'. worker_steps wr fl s s' \<and> wrote s' = accepted s \<and> (\<forall>n. Flush n \<in> set (pending (app s)) \<longrightarrow> n \<in> acked s')"
    if "\<forall>b w. snd (wr b w)"
  proof (cases "worker (app s) = Gone")
    case True
    then show ?thesis using log_reachable_kept [OF assms] that by simp
  next
    case False
    then have "accepted s = wrote s @ lines_of (pending (app s))" using inv by (simp add: log_inv_def)
    then show ?thesis using worker_drains [of wr s fl] that False by auto
  qed
  have 4: "length (queue (app s)) \<le> max 1 cap" "prefix (wrote s) (accepted s)"
    "worker (app s) \<noteq> Gone \<longrightarrow> accepted s = wrote s @ lines_of (pending (app s))" using inv by (simp_all add: log_inv_def)
  show ?thesis using 1 2 3 4 by blast
qed

text \<open>A concrete run: a channel of one place takes the first line and drops the second.\<close>

definition one_then_full :: "string log_run" where
  "one_then_full = \<lparr>app = \<lparr>queue = [Write (line_of ''a'')], capacity = 1, worker = Waiting, dropped_count = 1, writer = [], senders_gone = False\<rparr>,
     offered = 2, accepted = [line_of ''a''], wrote = [], marks = Map.empty, acked = {}\<rparr>"

lemma one_then_full_reachable: "log_reachable (\<lambda>b w. (w @ b, True)) id [] 1 one_then_full"
proof -
  let ?s = "log_run_new [] 1 :: string log_run"
  have "log_reachable (\<lambda>b w. (w @ b, True)) id [] 1 (?s\<lparr>app := emit_async ''a'' (app ?s), offered := Suc (offered ?s),
      accepted := (if try_send (Write (line_of ''a'')) (app ?s) = None then accepted ?s else accepted ?s @ [line_of ''a''])\<rparr>)" (is "log_reachable _ _ _ _ ?t")
    by (rule log_reachable.more [OF log_reachable.start log_step.log]) (simp add: log_run_new_def async_to_def)
  then have "log_reachable (\<lambda>b w. (w @ b, True)) id [] 1 (?t\<lparr>app := emit_async ''b'' (app ?t), offered := Suc (offered ?t),
      accepted := (if try_send (Write (line_of ''b'')) (app ?t) = None then accepted ?t else accepted ?t @ [line_of ''b''])\<rparr>)"
    by (rule log_reachable.more [OF _ log_step.log]) (simp add: log_run_new_def async_to_def emit_async_def try_send_def)
  then show ?thesis by (simp add: one_then_full_def log_run_new_def async_to_def emit_async_def try_send_def line_of_def numeral_2_eq_2)
qed

theorem log_async_correct_witness:
  "\<exists>s'. worker_steps (\<lambda>b w. (w @ b, True)) id one_then_full s' \<and> wrote s' = [line_of ''a'']"
  using log_async_correct [OF one_then_full_reachable] by (auto simp: one_then_full_def)

section \<open>Records\<close>

text \<open>Printed JSON is one line: control characters are escaped.\<close>

definition printable :: "char \<Rightarrow> bool" where
  "printable c \<longleftrightarrow> 32 \<le> (of_char c :: nat)"

lemma printable_hex: "printable (hex_digit d)" if "d < 16"
  using that by (simp add: hex_digit_def printable_def of_char_of)

lemma printable_escape: "list_all printable (escape b)"
proof -
  have "printable (CHR 0x5C)" "printable (CHR 0x22)" "printable (CHR ''n'')" "printable (CHR ''r'')" "printable (CHR ''t'')"
    "printable (CHR ''b'')" "printable (CHR ''f'')" "printable (CHR ''u'')" by (simp_all add: printable_def)
  then show ?thesis by (simp add: escape_def hex4_def printable_hex) (simp add: printable_def)
qed

lemma printable_quote: "list_all printable (quote s)"
proof -
  have "list_all printable (concat (map escape s))" by (induction s) (simp_all add: printable_escape)
  then show ?thesis by (simp add: quote_def) (simp add: printable_def)
qed

lemma printable_digits: "list_all is_digit s \<Longrightarrow> list_all printable s"
  by (auto simp: list_all_iff is_digit_def printable_def)

lemma printable_decimal: "list_all printable (decimal n)"
  using digits_of_decimal [of n] by (intro printable_digits) (simp add: all_digits_def)

lemma printable_int: "list_all printable (int_text i)"
  using printable_decimal by (simp add: int_text_def) (simp add: printable_def)

lemma printable_bytes: "list_all printable (bytes_text bs)"
proof (induction bs)
  case (Cons b bs)
  then show ?case using printable_decimal [of "unat b"] by simp (simp add: printable_def)
qed simp

lemma printable_float:
  assumes "float_ok F"
  shows "list_all printable (float_text F f)"
proof (cases "f_finite F f")
  case True
  from float_text_shape [OF assms True] obtain sg ip ds where t: "sg = [] \<or> sg = ''-''" "all_digits ip" "all_digits ds"
    "float_text F f = sg @ ip @ CHR ''.'' # ds" by metis
  have "list_all printable sg" "printable (CHR ''.'')" using t(1) by (auto simp: printable_def)
  then show ?thesis using t(2-4) by (simp add: all_digits_def printable_digits)
next
  case False
  then show ?thesis by (simp add: float_text_def write_json_f64_def printable_def)
qed

lemma printable_json:
  "float_ok F \<Longrightarrow> list_all printable (json_text F v)" "float_ok F \<Longrightarrow> list_all printable (elems_text F vs)"
  "float_ok F \<Longrightarrow> list_all printable (members_text F kvs)"
proof (induction F v and F vs and F kvs rule: json_text_elems_text_members_text.induct)
qed (simp_all add: printable_quote printable_decimal printable_int printable_bytes printable_float, simp_all add: printable_def)

text \<open>A record of the JSON format.\<close>

definition record_value :: "'f Logger \<Rightarrow> string \<Rightarrow> LogLevel \<Rightarrow> string \<Rightarrow> 'f log_fields \<Rightarrow> 'f log_fields \<Rightarrow> 'f Value" where
  "record_value lg ts l msg provided fs =
     Object ([(''ts'', Str ts), (''level'', Str (log_level_str l)), (''msg'', Str msg)] @ provided @ log_ctx lg @ fs)"

lemma json_record_line:
  assumes "float_ok F" "depth_of (record_value lg ts l msg provided fs) \<le> max_depth"
  shows "CHR 0x0A \<notin> set (format_json F lg ts l msg provided fs)"
    and "from_str F (format_json F lg ts l msg provided fs) = Some (Ok (normal F (record_value lg ts l msg provided fs)))"
proof -
  have f: "format_json F lg ts l msg provided fs = to_string F (record_value lg ts l msg provided fs)"
    by (simp add: format_json_def record_value_def)
  show "CHR 0x0A \<notin> set (format_json F lg ts l msg provided fs)"
    using printable_json(1) [OF assms(1), of "record_value lg ts l msg provided fs"]
    unfolding f to_string_eq list_all_iff by (auto simp: printable_def)
  show "from_str F (format_json F lg ts l msg provided fs) = Some (Ok (normal F (record_value lg ts l msg provided fs)))"
    unfolding f using assms by (intro json.dec_enc conjI)
qed

text \<open>What passes the filters of a logger and of the process.\<close>

lemma log_line_filtered:
  "log_line F g c now lg l msg fs = None \<longleftrightarrow> log_level_u8 l < log_level_u8 (min_level lg) \<or> log_level_u8 l < max_level g"
  by (auto simp: log_line_def level_enabled_def Let_def)

text \<open>The plain format keeps a message on its line, but not the value of a field.\<close>

lemma sanitize_one_line: "CHR 0x0A \<notin> set (sanitize msg)" "CHR 0x0D \<notin> set (sanitize msg)" "length (sanitize msg) = length msg"
  by (auto simp: sanitize_def split: if_splits)

lemma plain_field_breaks_line:
  "format_plain F lg ts l msg provided (fs @ [(k, Str (v @ CHR 0x0A # forged))]) =
     format_plain F lg ts l msg provided (fs @ [(k, Str v)]) @ CHR 0x0A # forged"
  by (simp add: format_plain_def plain_field_def)

text \<open>A writer that fails loses the records that were taken and not yet written, and the counter does not show them.\<close>

lemma failed_write_loses_queue:
  assumes "worker a = Busy (Write b)" "wr b (writer a) = (w, False)"
  shows "worker_run wr fl a = Some (a\<lparr>writer := w, worker := Gone, queue := []\<rparr>)"
  using assms by (simp add: worker_run_def)

end
