(* ===== verification/Rest.thy ===== *)
theory Rest
  imports Retry Genai_Providers Http_Client Http_Download Turbo_Correct
begin

text \<open>
  The REST client (\<^verbatim>\<open>rest/client\<close>): a request builder over the HTTP client, with path and query parameters, credentials and the
  retry loop. The network is an argument (what a connection answers, whether dialling succeeds, whether the time limit
  expires and what was sent by then) and moves with each exchange.
\<close>

section \<open>The network and one exchange\<close>

record 'n network =
  on_pooled :: "'n \<Rightarrow> stream \<Rightarrow> string \<Rightarrow> string"
  on_fresh :: "'n \<Rightarrow> string \<Rightarrow> string"
  dial :: "'n \<Rightarrow> Uri \<Rightarrow> (stream, HttpError) result"
  cut_off :: "'n \<Rightarrow> string list option"
  reads :: "'n \<Rightarrow> string \<Rightarrow> nat"
  after :: "'n \<Rightarrow> string list \<Rightarrow> 'n"

text \<open>\<^verbatim>\<open>http::Client::send\<close> with its timeout, then \<^verbatim>\<open>Response::bytes\<close>. A request cut off by the timeout has left its
  connection behind, whatever it had sent.\<close>

definition http_fetch :: "'n network \<Rightarrow> nat option \<Rightarrow> Request \<Rightarrow> Pool \<times> 'n \<Rightarrow> (nat \<times> HeaderMap \<times> string, HttpError) result \<times> Pool \<times> 'n" where
  "http_fetch N limit req w =
     (let (pool, n) = w
      in case (if limit = None then None else cut_off N n) of
           Some sent \<Rightarrow> (Err Timeout, snd (pool_take pool (host (uri req), port (uri req), is_tls (uri req))), after N n sent)
         | None \<Rightarrow>
             (let (r, pool', sent) = send_inner (on_pooled N n) (on_fresh N n) (dial N n (uri req)) req pool; n' = after N n sent
              in case r of
                   Err e \<Rightarrow> (Err e, pool', n')
                 | Ok resp \<Rightarrow> (case bytes_loop (reads N n) [] (rbody resp) pool' of
                       (Err e, pool'') \<Rightarrow> (Err e, pool'', n')
                     | (Ok b, pool'') \<Rightarrow> (Ok (rstatus resp, rheaders resp, b), pool'', n'))))"

section \<open>The client\<close>

datatype ClientError = InvalidRequest string | Transport HttpError | Codec CodecError

record ClientOptions =
  opt_timeout :: "nat option"
  opt_auth :: "AuthProvider option"
  opt_retry :: "RetryPolicy option"
  opt_content_type :: "string option"

definition default_options :: ClientOptions where
  "default_options = \<lparr>opt_timeout = None, opt_auth = None, opt_retry = None, opt_content_type = None\<rparr>"

definition request_timeout :: "nat \<Rightarrow> ClientOptions \<Rightarrow> ClientOptions" where
  "request_timeout d opts = opts\<lparr>opt_timeout := Some d\<rparr>"

definition options_auth :: "AuthProvider \<Rightarrow> ClientOptions \<Rightarrow> ClientOptions" where
  "options_auth a opts = opts\<lparr>opt_auth := Some a\<rparr>"

definition retry_policy :: "RetryPolicy \<Rightarrow> ClientOptions \<Rightarrow> ClientOptions" where
  "retry_policy p opts = opts\<lparr>opt_retry := Some p\<rparr>"

definition default_content_type :: "string \<Rightarrow> ClientOptions \<Rightarrow> ClientOptions" where
  "default_content_type ct opts = opts\<lparr>opt_content_type := Some ct\<rparr>"

record RestClient =
  rc_timeout :: "nat option"
  rc_auth :: "AuthProvider option"
  rc_retry :: "RetryPolicy option"
  rc_content_type :: string

definition with_options :: "ClientOptions \<Rightarrow> RestClient" where
  "with_options opts = \<lparr>rc_timeout = opt_timeout opts, rc_auth = opt_auth opts, rc_retry = opt_retry opts,
     rc_content_type = (case opt_content_type opts of Some ct \<Rightarrow> ct | None \<Rightarrow> ''application/json'')\<rparr>"

record RequestBuilder =
  rb_client :: RestClient
  rb_method :: Method
  rb_url :: string
  rb_path_params :: "(string \<times> string) list"
  rb_query :: "(string \<times> string) list"
  rb_headers :: "(string \<times> string) list"
  rb_content_type :: string
  rb_body :: "string option"
  rb_err :: "ClientError option"

definition rest_request :: "RestClient \<Rightarrow> string \<Rightarrow> Method \<Rightarrow> RequestBuilder" where
  "rest_request c url m = \<lparr>rb_client = c, rb_method = m, rb_url = url, rb_path_params = [], rb_query = [], rb_headers = [],
     rb_content_type = rc_content_type c, rb_body = None, rb_err = None\<rparr>"

definition rest_get :: "RestClient \<Rightarrow> string \<Rightarrow> RequestBuilder" where
  "rest_get c url = rest_request c url Get"

definition rest_post :: "RestClient \<Rightarrow> string \<Rightarrow> RequestBuilder" where
  "rest_post c url = rest_request c url Post"

definition rest_put :: "RestClient \<Rightarrow> string \<Rightarrow> RequestBuilder" where
  "rest_put c url = rest_request c url Put"

definition rest_delete :: "RestClient \<Rightarrow> string \<Rightarrow> RequestBuilder" where
  "rest_delete c url = rest_request c url Delete"

definition add_query :: "string \<Rightarrow> string \<Rightarrow> RequestBuilder \<Rightarrow> RequestBuilder" where
  "add_query k v b = b\<lparr>rb_query := rb_query b @ [(k, v)]\<rparr>"

definition path_param :: "string \<Rightarrow> string \<Rightarrow> RequestBuilder \<Rightarrow> RequestBuilder" where
  "path_param k v b = b\<lparr>rb_path_params := rb_path_params b @ [(k, v)]\<rparr>"

definition add_header :: "string \<Rightarrow> string \<Rightarrow> RequestBuilder \<Rightarrow> RequestBuilder" where
  "add_header k v b = b\<lparr>rb_headers := rb_headers b @ [(k, v)]\<rparr>"

definition set_content_type :: "string \<Rightarrow> RequestBuilder \<Rightarrow> RequestBuilder" where
  "set_content_type ct b = b\<lparr>rb_content_type := ct\<rparr>"

text \<open>\<open>enc ct\<close> is the codec of the content type applied to the value.\<close>

definition encode_body :: "(string \<Rightarrow> (string, CodecError) result) \<Rightarrow> RequestBuilder \<Rightarrow> RequestBuilder" where
  "encode_body enc b = (case enc (rb_content_type b) of
     Ok bytes \<Rightarrow> b\<lparr>rb_body := Some bytes\<rparr>
   | Err e \<Rightarrow> b\<lparr>rb_err := Some (Codec e)\<rparr>)"

definition body_bytes :: "string \<Rightarrow> RequestBuilder \<Rightarrow> RequestBuilder" where
  "body_bytes bytes b = b\<lparr>rb_body := Some bytes\<rparr>"

subsection \<open>URLs\<close>

definition hex_upper_digit :: "nat \<Rightarrow> char" where
  "hex_upper_digit d = ''0123456789ABCDEF'' ! d"

fun url_encode :: "string \<Rightarrow> string" where
  "url_encode [] = []"
| "url_encode (b # bs) =
     (if 65 \<le> (of_char b :: nat) \<and> (of_char b :: nat) \<le> 90 \<or> 97 \<le> (of_char b :: nat) \<and> (of_char b :: nat) \<le> 122 \<or>
         48 \<le> (of_char b :: nat) \<and> (of_char b :: nat) \<le> 57 \<or> b \<in> {CHR ''-'', CHR ''_'', CHR ''.'', CHR ''~''}
      then b # url_encode bs
      else [CHR ''%'', hex_upper_digit (of_char b div 16), hex_upper_digit (of_char b mod 16)] @ url_encode bs)"

fun query_pairs :: "(string \<times> string) list \<Rightarrow> string" where
  "query_pairs [] = []"
| "query_pairs [(k, v)] = url_encode k @ ''='' @ url_encode v"
| "query_pairs ((k, v) # r) = url_encode k @ ''='' @ url_encode v @ ''&'' @ query_pairs r"

definition append_query :: "string \<Rightarrow> (string \<times> string) list \<Rightarrow> string" where
  "append_query url q =
     (if q = [] then url else url @ (if CHR ''?'' \<in> set url then ''&'' else ''?'') @ query_pairs q)"

text \<open>\<^verbatim>\<open>str::replace\<close> with a pattern that is not empty: from left to right, without overlaps.\<close>

function str_replace :: "string \<Rightarrow> string \<Rightarrow> string \<Rightarrow> string" where
  "str_replace pat v s =
     (if pat = [] \<or> s = [] then s
      else if take (length pat) s = pat then v @ str_replace pat v (drop (length pat) s)
      else hd s # str_replace pat v (tl s))"
  by pat_completeness auto
termination
  by (relation "measure (\<lambda>(_, _, s). length s)") (auto simp: length_greater_0_conv)

declare str_replace.simps [simp del]

fun str_contains :: "string \<Rightarrow> string \<Rightarrow> bool" where
  "str_contains pat [] = (pat = [])"
| "str_contains pat (c # s) = (take (length pat) (c # s) = pat \<or> str_contains pat s)"

definition placeholder :: "string \<Rightarrow> string" where
  "placeholder k = ''${'' @ k @ ''}''"

definition substitute_path :: "string \<Rightarrow> (string \<times> string) list \<Rightarrow> (string, ClientError) result" where
  "substitute_path url ps =
     (let t = fold (\<lambda>(k, v) s. str_replace (placeholder k) v s) ps url
      in if str_contains ''${'' t then Err (InvalidRequest (''unsubstituted path placeholder in: '' @ t)) else Ok t)"

subsection \<open>Sending\<close>

fun rest_is_retryable :: "ClientError \<Rightarrow> bool" where
  "rest_is_retryable (Transport e) = True"
| "rest_is_retryable (InvalidRequest m) = False"
| "rest_is_retryable (Codec e) = False"

definition is_idempotent :: "Method \<Rightarrow> bool" where
  "is_idempotent m \<longleftrightarrow> m \<in> {Get, Head, Put, Delete, Options, Trace}"

record RestResponse =
  rr_status :: nat
  rr_content_type :: "string option"
  rr_body :: string

text \<open>\<open>msg\<close> is the text of an \<^verbatim>\<open>HttpError\<close>.\<close>

definition rest_http_request :: "(HttpError \<Rightarrow> string) \<Rightarrow> RequestBuilder \<Rightarrow> string \<Rightarrow> (Request, ClientError) result" where
  "rest_http_request msg b url = (case builder (rb_method b) (append_query url (rb_query b)) of
     Err e \<Rightarrow> Err (InvalidRequest (msg e))
   | Ok req0 \<Rightarrow>
       let req1 = fold (\<lambda>(k, v) r. r\<lparr>headers := header_set (headers r) k v\<rparr>) (rb_headers b) req0;
           req2 = (case rb_body b of
                     None \<Rightarrow> req1
                   | Some bs \<Rightarrow> req1\<lparr>headers := header_set (headers req1) ''content-type'' (rb_content_type b), body := bs\<rparr>)
       in Ok (case rc_auth (rb_client b) of Some a \<Rightarrow> auth_apply a req2 | None \<Rightarrow> req2))"

definition execute_once :: "(HttpError \<Rightarrow> string) \<Rightarrow> 'n network \<Rightarrow> RequestBuilder \<Rightarrow> string \<Rightarrow> (Pool \<times> 'n, RestResponse, ClientError) operation" where
  "execute_once msg N b url w = (case rest_http_request msg b url of
     Err e \<Rightarrow> (Err e, w)
   | Ok req \<Rightarrow> (case http_fetch N (rc_timeout (rb_client b)) req w of
         (Err e, w') \<Rightarrow> (Err (Transport e), w')
       | (Ok (code, h, bs), w') \<Rightarrow> (Ok \<lparr>rr_status = code, rr_content_type = header_get h ''content-type'', rr_body = bs\<rparr>, w')))"

definition rest_send :: "(HttpError \<Rightarrow> string) \<Rightarrow> 'n network \<Rightarrow> RequestBuilder \<Rightarrow> Pool \<times> 'n \<Rightarrow>
    (RestResponse, ClientError) result \<times> (Pool \<times> 'n) \<times> nat list" where
  "rest_send msg N b w = (case rb_err b of
     Some e \<Rightarrow> (Err e, w, [])
   | None \<Rightarrow> (case substitute_path (rb_url b) (rb_path_params b) of
         Err e \<Rightarrow> (Err e, w, [])
       | Ok url \<Rightarrow> (case rc_retry (rb_client b) of
             Some p \<Rightarrow> if is_idempotent (rb_method b) then retry p rest_is_retryable (execute_once msg N b url) w
                       else (let (r, w') = execute_once msg N b url w in (r, w', []))
           | None \<Rightarrow> (let (r, w') = execute_once msg N b url w in (r, w', [])))))"

definition rest_is_success :: "RestResponse \<Rightarrow> bool" where
  "rest_is_success r \<longleftrightarrow> 200 \<le> rr_status r \<and> rr_status r < 300"

definition response_text :: "RestResponse \<Rightarrow> string" where
  "response_text r = lossy (rr_body r)"

text \<open>\<open>dec ct\<close> is the codec of the content type.\<close>

definition response_decode :: "(string \<Rightarrow> string \<Rightarrow> ('t, CodecError) result) \<Rightarrow> RestResponse \<Rightarrow> ('t, ClientError) result" where
  "response_decode dec r =
     (case dec (case rr_content_type r of Some ct \<Rightarrow> ct | None \<Rightarrow> ''application/json'') (rr_body r) of
        Ok t \<Rightarrow> Ok t
      | Err e \<Rightarrow> Err (Codec e))"

end
