(* ===== verification/Rest_Correct.thy ===== *)
theory Rest_Correct
  imports Rest
begin

text \<open>
  Correctness of the REST client, with the HTTP client and server, the router and the retry loop it runs on: what the builder is
  given reaches the handler, the handler's answer comes back, and the attempts made are those of the policy.
\<close>

section \<open>Query strings reach the router\<close>

lemma url_encode_eq: "url_encode s = percent_encode s"
proof (induction s)
  case (Cons c s)
  have "65 \<le> (of_char c :: nat) \<and> (of_char c :: nat) \<le> 90 \<or> 97 \<le> (of_char c :: nat) \<and> (of_char c :: nat) \<le> 122 \<or>
      48 \<le> (of_char c :: nat) \<and> (of_char c :: nat) \<le> 57 \<or> c \<in> {CHR ''-'', CHR ''_'', CHR ''.'', CHR ''~''} \<longleftrightarrow> unreserved c"
    by (auto simp: unreserved_def Let_def)
  then have "url_encode (c # s) = (if unreserved c then [c] else [CHR ''%'', hex_upper_digit (of_char c div 16), hex_upper_digit (of_char c mod 16)]) @ url_encode s"
    unfolding url_encode.simps by (simp only: if_distrib) auto
  then show ?case using Cons by (simp add: percent_encode_def hex_upper_digit_def)
qed (simp add: percent_encode_def)

lemma percent_encode_inj: "percent_encode a = percent_encode b \<Longrightarrow> a = b"
  by (metis percent_bytes_encode)

lemma percent_encode_id: "list_all unreserved s \<Longrightarrow> percent_encode s = s"
  by (induction s) (simp_all add: percent_encode_def)

lemma percent_encode_no: "\<not> unreserved c \<Longrightarrow> c \<noteq> CHR ''%'' \<Longrightarrow> c \<notin> set (percent_encode s)"
proof -
  assume c: "\<not> unreserved c" "c \<noteq> CHR ''%''"
  have "list_all unreserved ''0123456789ABCDEF''" by (simp add: unreserved_def)
  then have "unreserved (''0123456789ABCDEF'' ! d)" if "d < 16" for d using that by (simp add: list_all_length)
  moreover have "of_char x div 16 < (16 :: nat)" for x :: char
    using nat_of_char_less_256 [of x] by (simp add: less_mult_imp_div_less)
  ultimately show ?thesis using c by (auto simp: percent_encode_def)
qed

definition encoded_keys :: "(string \<times> string) list \<Rightarrow> (string \<times> string) list" where
  "encoded_keys q = map (\<lambda>(k, v). (percent_encode k, v)) q"

lemma query_pairs_eq: "query_pairs q = query_string (encoded_keys q)"
  by (induction q rule: query_pairs.induct) (simp_all add: query_string_def encoded_keys_def url_encode_eq)

lemma encoded_keys_ok: "list_all (key_ok \<circ> fst) (encoded_keys q)"
proof -
  have "\<not> unreserved (CHR ''&'')" "\<not> unreserved (CHR ''='')" by (simp_all add: unreserved_def)
  then have "key_ok (percent_encode k)" for k by (simp add: key_ok_def percent_encode_no)
  then show ?thesis by (auto simp: encoded_keys_def list_all_iff)
qed

lemma map_of_encoded: "map_of (encoded_keys q) (percent_encode k) = map_of q k"
  by (induction q) (auto simp: encoded_keys_def dest: percent_encode_inj)

lemma split_scheme_append: "split_scheme url = Some (a, b) \<Longrightarrow> split_scheme (url @ x) = Some (a, b @ x)"
proof (induction url arbitrary: a)
  case (Cons c s)
  show ?case
  proof (cases "prefix ''://'' (c # s)")
    case True
    then obtain r where "c # s = ''://'' @ r" by (auto simp: prefix_def)
    then show ?thesis using Cons.prems by (simp add: strip_prefix_def)
  next
    case False
    then obtain a' where a': "split_scheme s = Some (a', b)" "a = c # a'" using Cons.prems by (auto simp: strip_prefix_def)
    then have "s \<noteq> []" "s \<noteq> [d]" for d by (auto simp: strip_prefix_def split: if_splits)
    then obtain d e r where "s = d # e # r" by (metis list.exhaust)
    then have "\<not> prefix ''://'' (c # s @ x)" using False by simp
    then show ?thesis using Cons.IH [OF a'(1)] a'(2) by (simp add: strip_prefix_def)
  qed
qed simp

text \<open>A query appended to a URL that has none becomes its query, and the rest stays.\<close>

lemma split_target_append:
  assumes "snd (split_target r) = None"
  shows "split_target (r @ CHR ''?'' # q) = (fst (split_target r), Some q)"
proof -
  have "CHR ''?'' \<notin> set r" using assms by (auto simp: split_target_def Let_def split_once_None [symmetric] split: option.splits)
  then have "split_once (CHR ''?'') r = None" "split_once (CHR ''?'') (r @ CHR ''?'' # q) = Some (r, q)"
    by (simp_all add: split_once_None split_once_Some)
  then show ?thesis by (simp add: split_target_def)
qed

definition in_authority :: "char \<Rightarrow> bool" where
  "in_authority c \<longleftrightarrow> c \<noteq> CHR ''/'' \<and> c \<noteq> CHR ''?''"

definition scheme_port :: "string \<Rightarrow> nat option" where
  "scheme_port sch = (if sch = ''http'' \<or> sch = ''ws'' then Some 80 else if sch = ''https'' \<or> sch = ''wss'' then Some 443 else None)"

definition host_port :: "nat \<Rightarrow> string \<Rightarrow> (string \<times> nat) option" where
  "host_port dp a = (case rsplit_once (CHR '':'') a of Some (h, p) \<Rightarrow> map_option (Pair h) (parse_u16 p) | None \<Rightarrow> Some (a, dp))"

lemma uri_parse_Ok:
  "uri_parse url = Ok u \<longleftrightarrow> (\<exists>sch rest dp h p. split_scheme url = Some (sch, rest) \<and> scheme_port (to_ascii_lowercase sch) = Some dp \<and>
     host_port dp (takeWhile in_authority rest) = Some (h, p) \<and> h \<noteq> [] \<and>
     u = \<lparr>scheme = to_ascii_lowercase sch, host = h, port = p, path = fst (split_target (dropWhile in_authority rest)),
          query = snd (split_target (dropWhile in_authority rest))\<rparr>)"
proof (cases "split_scheme url")
  case (Some sr)
  obtain sch rest where sr: "sr = (sch, rest)" by (cases sr)
  have a: "(\<lambda>c. c \<noteq> CHR ''/'' \<and> c \<noteq> CHR ''?'') = in_authority" by (auto simp: in_authority_def)
  have "uri_parse url = (case scheme_port (to_ascii_lowercase sch) of
      None \<Rightarrow> Err (InvalidUrl (''unsupported scheme: '' @ to_ascii_lowercase sch))
    | Some dp \<Rightarrow> (case host_port dp (takeWhile in_authority rest) of
        None \<Rightarrow> Err (InvalidUrl url)
      | Some (h, p) \<Rightarrow> if h = [] then Err (InvalidUrl url)
          else Ok \<lparr>scheme = to_ascii_lowercase sch, host = h, port = p, path = fst (split_target (dropWhile in_authority rest)),
                   query = snd (split_target (dropWhile in_authority rest))\<rparr>))"
    by (simp only: uri_parse_def Some sr option.case prod.case Let_def scheme_port_def host_port_def a)
  then show ?thesis using Some sr by (auto split: option.split prod.split)
qed (simp add: uri_parse_def)

lemma split_scheme_eq: "split_scheme url = Some (sch, rest) \<Longrightarrow> url = sch @ ''://'' @ rest"
  by (induction url arbitrary: sch) (auto simp: strip_prefix_def prefix_def split: if_splits)

lemma scheme_port_plain: "scheme_port (to_ascii_lowercase sch) = Some dp \<Longrightarrow> CHR ''?'' \<notin> set sch"
proof
  assume "scheme_port (to_ascii_lowercase sch) = Some dp" "CHR ''?'' \<in> set sch"
  then have "CHR ''?'' \<in> set (to_ascii_lowercase sch)" by (force simp: to_ascii_lowercase_def ascii_lower_def)
  then show False using \<open>scheme_port (to_ascii_lowercase sch) = Some dp\<close> by (auto simp: scheme_port_def split: if_splits)
qed

lemma uri_parse_query:
  assumes "uri_parse url = Ok u" "query u = None"
  shows "uri_parse (url @ CHR ''?'' # q) = Ok (u\<lparr>query := Some q\<rparr>)" "CHR ''?'' \<notin> set url"
proof -
  obtain sch rest dp h p where u: "split_scheme url = Some (sch, rest)" "scheme_port (to_ascii_lowercase sch) = Some dp"
    "host_port dp (takeWhile in_authority rest) = Some (h, p)" "h \<noteq> []"
    "u = \<lparr>scheme = to_ascii_lowercase sch, host = h, port = p, path = fst (split_target (dropWhile in_authority rest)),
          query = snd (split_target (dropWhile in_authority rest))\<rparr>"
    using assms(1) unfolding uri_parse_Ok by blast
  have n: "snd (split_target (dropWhile in_authority rest)) = None" using assms(2) u(5) by simp
  have "\<not> in_authority (CHR ''?'')" by (simp add: in_authority_def)
  then have "takeWhile in_authority (rest @ CHR ''?'' # q) = takeWhile in_authority rest"
    "dropWhile in_authority (rest @ CHR ''?'' # q) = dropWhile in_authority rest @ CHR ''?'' # q"
    by (induction rest) auto
  then show "uri_parse (url @ CHR ''?'' # q) = Ok (u\<lparr>query := Some q\<rparr>)"
    unfolding uri_parse_Ok using u split_scheme_append [OF u(1), of "CHR ''?'' # q"] split_target_append [OF n, of q] by auto
  have "CHR ''?'' \<notin> set (dropWhile in_authority rest)"
    using n by (auto simp: split_target_def Let_def split_once_None [symmetric] split: option.splits)
  moreover have "CHR ''?'' \<notin> set (takeWhile in_authority rest)" by (auto dest: set_takeWhileD simp: in_authority_def)
  ultimately have "CHR ''?'' \<notin> set rest" by (metis Un_iff set_append takeWhile_dropWhile_id)
  then show "CHR ''?'' \<notin> set url" using split_scheme_eq [OF u(1)] scheme_port_plain [OF u(2)] by simp
qed

text \<open>What the router reads of a query that the client appended.\<close>

lemma split_target_path: "CHR ''?'' \<notin> set (fst (split_target r))"
proof (cases "split_once (CHR ''?'') r")
  case None
  then have "CHR ''?'' \<notin> set r" by (metis split_once_None)
  then show ?thesis by (simp add: split_target_def None)
next
  case (Some pq)
  then have "CHR ''?'' \<notin> set (fst pq)" by (cases pq) (simp add: split_once_Some)
  then show ?thesis by (cases pq) (simp add: split_target_def Some)
qed

lemma path_no_query: "uri_parse url = Ok u \<Longrightarrow> CHR ''?'' \<notin> set (path u)"
  unfolding uri_parse_Ok using split_target_path by auto

lemma server_sees_query:
  assumes "CHR ''?'' \<notin> set (path (uri req))" "query (uri req) = Some q"
  shows "query (uri (server_view req)) = Some q"
proof -
  have "split_once (CHR ''?'') (path (uri req) @ CHR ''?'' # q) = Some (path (uri req), q)" using assms(1) by (simp add: split_once_Some)
  then show ?thesis using assms(2) by (simp add: server_view_def request_target_def split_target_def)
qed

lemma router_reads_query:
  assumes "CHR ''?'' \<notin> set (path (uri req))" "query (uri req) = Some (query_pairs q)" "q \<noteq> []"
  shows "query_param \<lparr>request = server_view req, params = ps\<rparr> (percent_encode name) = map_option lossy (map_of q name)"
proof -
  have "encoded_keys q \<noteq> []" using assms(3) by (simp add: encoded_keys_def)
  then show ?thesis
    using server_sees_query [OF assms(1,2)] split_query [OF _ encoded_keys_ok, of q] find_pair_query [OF encoded_keys_ok, of "percent_encode name" q]
    by (simp add: query_param_def query_pairs_eq map_of_encoded)
qed

section \<open>The request that is sent\<close>

lemma auth_apply_keeps [simp]: "uri (auth_apply a req) = uri req" "req_method (auth_apply a req) = req_method req"
  by (cases a; simp)+

lemma header_fold_keeps:
  "uri (fold (\<lambda>(k, v) r. r\<lparr>headers := header_set (headers r) k v\<rparr>) kvs req) = uri req \<and>
   req_method (fold (\<lambda>(k, v) r. r\<lparr>headers := header_set (headers r) k v\<rparr>) kvs req) = req_method req"
  by (induction kvs arbitrary: req) auto

lemma rest_request_target:
  assumes "rest_http_request msg b url = Ok req"
  shows "uri_parse (append_query url (rb_query b)) = Ok (uri req)" "req_method req = rb_method b"
proof -
  obtain u where u: "uri_parse (append_query url (rb_query b)) = Ok u"
    using assms by (auto simp: rest_http_request_def builder_def split: sum.splits)
  then have "uri req = u \<and> req_method req = rb_method b"
    using assms header_fold_keeps [of "rb_headers b" "request_new (rb_method b) u"]
    by (auto simp: rest_http_request_def builder_def Let_def request_new_def split: option.splits)
  then show "uri_parse (append_query url (rb_query b)) = Ok (uri req)" "req_method req = rb_method b" using u by simp_all
qed

lemma rest_query_read:
  assumes "rest_http_request msg b url = Ok req" "uri_parse url = Ok u" "query u = None" "list_all unreserved name"
    and "\<forall>(k, v) \<in> set (rb_query b). utf8_valid (to_bytes v)"
  shows "query_param \<lparr>request = server_view req, params = ps\<rparr> name = map_of (rb_query b) name"
proof (cases "rb_query b = []")
  case True
  then have "uri req = u" using rest_request_target(1) [OF assms(1)] assms(2) by (simp add: append_query_def)
  then have "query (uri (server_view req)) = None"
    using path_no_query [OF assms(2)] assms(3) by (simp add: server_view_def request_target_def split_target_def flip: split_once_None)
  then show ?thesis using True by (simp add: query_param_def)
next
  case False
  have "append_query url (rb_query b) = url @ CHR ''?'' # query_pairs (rb_query b)"
    using False uri_parse_query(2) [OF assms(2,3)] by (simp add: append_query_def)
  then have u: "uri req = u\<lparr>query := Some (query_pairs (rb_query b))\<rparr>"
    using rest_request_target(1) [OF assms(1)] uri_parse_query(1) [OF assms(2,3), of "query_pairs (rb_query b)"] by simp
  have "map_option lossy (map_of (rb_query b) name) = map_of (rb_query b) name"
    using assms(5) by (cases "map_of (rb_query b) name") (auto dest!: map_of_SomeD simp: lossy_id)
  then show ?thesis using router_reads_query [of req "rb_query b" ps name] path_no_query [OF assms(2)] u False
    by (simp add: percent_encode_id [OF assms(4)])
qed

section \<open>Attempts\<close>

lemma execute_Ok_once:
  assumes "rb_err b = None" "substitute_path (rb_url b) (rb_path_params b) = Ok url" "execute_once msg N b url w = (Ok r, w')"
  shows "rest_send msg N b w = (Ok r, w', [])"
  using assms retry_loop_stop [of rest_is_retryable "execute_once msg N b url" w]
  by (auto simp: rest_send_def retry_def split: option.split)

text \<open>A request that may not be repeated, or a client without a policy, makes one attempt, whatever comes of it; a policy makes
  further attempts on transport errors only.\<close>

lemma rest_attempts:
  assumes "rb_err b = None" "substitute_path (rb_url b) (rb_path_params b) = Ok url"
  shows "rc_retry (rb_client b) = None \<or> \<not> is_idempotent (rb_method b) \<Longrightarrow>
      rest_send msg N b w = (fst (execute_once msg N b url w), snd (execute_once msg N b url w), [])"
    and "rc_retry (rb_client b) = Some p \<Longrightarrow> is_idempotent (rb_method b) \<Longrightarrow>
      \<exists>n \<le> unat (max_retries p). (\<forall>i < n. \<exists>e. outcome (execute_once msg N b url) w i = Err (Transport e)) \<and>
        rest_send msg N b w = (outcome (execute_once msg N b url) w n, world (execute_once msg N b url) w (Suc n), map (\<lambda>i. backoff_for p (of_nat i)) [0..<n])"
proof -
  show "rc_retry (rb_client b) = None \<or> \<not> is_idempotent (rb_method b) \<Longrightarrow>
      rest_send msg N b w = (fst (execute_once msg N b url w), snd (execute_once msg N b url w), [])"
    using assms by (auto simp: rest_send_def split: option.split prod.split)
  assume p: "rc_retry (rb_client b) = Some p" "is_idempotent (rb_method b)"
  have t: "\<exists>e. r = Err (Transport e)" if "retryable rest_is_retryable r" for r :: "(RestResponse, ClientError) result"
    using that by (cases r) (auto simp: retryable_def elim: rest_is_retryable.elims)
  obtain n where n: "n \<le> unat (max_retries p)" "\<forall>i < n. retryable rest_is_retryable (outcome (execute_once msg N b url) w i)"
    "retry_loop p rest_is_retryable (execute_once msg N b url) 0 w =
       (outcome (execute_once msg N b url) w n, world (execute_once msg N b url) w (Suc n), map (\<lambda>i. backoff_for p (0 + of_nat i)) [0..<n])"
    using retry_loop_spec [of 0 p rest_is_retryable "execute_once msg N b url" w] by auto
  then show "\<exists>n \<le> unat (max_retries p). (\<forall>i < n. \<exists>e. outcome (execute_once msg N b url) w i = Err (Transport e)) \<and>
      rest_send msg N b w = (outcome (execute_once msg N b url) w n, world (execute_once msg N b url) w (Suc n), map (\<lambda>i. backoff_for p (of_nat i)) [0..<n])"
    using assms p t by (intro exI [of _ n]) (auto simp: rest_send_def retry_def)
qed

section \<open>End to end\<close>

text \<open>A network on which a fresh connection reaches a server with this router.\<close>

definition reaches :: "'n network \<Rightarrow> 'n \<Rightarrow> ServerConfig \<Rightarrow> Router \<Rightarrow> bool" where
  "reaches N n cfg sh \<longleftrightarrow> cut_off N n = None \<and> (\<forall>u. dial N n u = Ok ([], False)) \<and>
     on_fresh N n = (\<lambda>w. fst (serve_conn cfg (router_handle sh) (\<lambda>_. False) 0 (w, False)))"

lemma rest_exchange:
  assumes "rest_http_request msg b url = Ok req" "reaches N n cfg sh" "pool (host (uri req), port (uri req), is_tls (uri req)) = []"
    and "head_ok req" "body_ok cfg req" "req_method req \<noteq> Head" "\<not> expects_continue (wire_headers req)"
    and "answer_ok (router_handle sh (server_view req))"
  shows "\<exists>r pool'. execute_once msg N b url (pool, n) = (Ok r, (pool', after N n [write_request req])) \<and>
    rr_status r = status (router_handle sh (server_view req)) \<and> rr_body r = answer_body (router_handle sh (server_view req))"
proof -
  let ?h = "router_handle sh" and ?key = "(host (uri req), port (uri req), is_tls (uri req))"
  have e: "exchange (on_fresh N n) ([], False) req ?key = Ok (answered cfg ?h req ?key)"
    using exchange_answered [of req cfg ?h ?key, OF assms(4-8)] assms(2) by (simp add: reaches_def)
  have "send_inner (on_pooled N n) (on_fresh N n) (dial N n (uri req)) req pool = (Ok (answered cfg ?h req ?key), pool, [write_request req])"
    using e assms(2,3) by (simp add: send_inner_def pool_take_def reaches_def Let_def)
  moreover have "bytes_loop (reads N n) [] (rbody (answered cfg ?h req ?key)) pool =
      (Ok (answer_body (?h (server_view req))), give_back (reclaim_key (rbody (answered cfg ?h req ?key))) ([], False) pool)"
    by (rule answered_bytes [of ?h req]) (rule assms(8))
  ultimately have "\<exists>pool'. http_fetch N limit req (pool, n) =
      (Ok (status (?h (server_view req)), rheaders (answered cfg ?h req ?key), answer_body (?h (server_view req))), pool', after N n [write_request req])"
    for limit
    using assms(2) by (auto simp: http_fetch_def reaches_def answered_def Let_def)
  then obtain pool' where "http_fetch N (rc_timeout (rb_client b)) req (pool, n) =
      (Ok (status (?h (server_view req)), rheaders (answered cfg ?h req ?key), answer_body (?h (server_view req))), pool', after N n [write_request req])"
    by blast
  then show ?thesis using assms(1) by (simp add: execute_once_def)
qed

text \<open>C20: A request through the REST client over a fresh connection to a server with a router, end to end, where the answer is not
  a server error or there is nothing to repeat it (no retry policy, or a method that is not idempotent); the request is not HEAD,
  does not expect a 100 Continue, fits the limits of the server, its URL has no query of its own and its query values are
  UTF-8; and the router's answer is one the server can write. It is sent exactly once, without waiting; the caller gets the status and the whole body of the router's answer. Of the query, for names made of
  unreserved characters: a handler of that router reads under such a name the first value the caller gave under it,
  whatever bytes it has, and nothing if the caller gave none. (Names with other characters are not found by the
  handler: \<open>reserved_name_lost\<close>. A server error under a policy: \<open>server_errors_not_retried\<close>.)\<close>
theorem rest_end_to_end:
  assumes "rb_err b = None" "substitute_path (rb_url b) (rb_path_params b) = Ok url"
    and "rest_http_request msg b url = Ok req" "reaches N n cfg sh" "pool (host (uri req), port (uri req), is_tls (uri req)) = []"
    and "head_ok req" "body_ok cfg req" "rb_method b \<noteq> Head" "\<not> expects_continue (wire_headers req)"
    and "answer_ok (router_handle sh (server_view req))"
    and "uri_parse url = Ok u" "query u = None" "\<forall>(k, v) \<in> set (rb_query b). utf8_valid (to_bytes v)"
    and "rc_retry (rb_client b) = None \<or> \<not> is_idempotent (rb_method b) \<or> status (router_handle sh (server_view req)) < 500"
  shows "(\<exists>r pool'. rest_send msg N b (pool, n) = (Ok r, (pool', after N n [write_request req]), []) \<and>
      rr_status r = status (router_handle sh (server_view req)) \<and> rr_body r = answer_body (router_handle sh (server_view req))) \<and>
    (\<forall>name ps. list_all unreserved name \<longrightarrow> query_param \<lparr>request = server_view req, params = ps\<rparr> name = map_of (rb_query b) name)"
proof -
  have m: "req_method req \<noteq> Head" using assms(8) rest_request_target(2) [OF assms(3)] by simp
  obtain r pool' where x: "execute_once msg N b url (pool, n) = (Ok r, (pool', after N n [write_request req]))"
    "rr_status r = status (router_handle sh (server_view req))" "rr_body r = answer_body (router_handle sh (server_view req))"
    using rest_exchange [of msg b url req N n cfg sh pool, OF assms(3,4,5,6,7) m assms(9,10)] by blast
  then have "rest_send msg N b (pool, n) = (Ok r, (pool', after N n [write_request req]), [])"
    using execute_Ok_once [OF assms(1,2)] by blast
  then show ?thesis using x rest_query_read [OF assms(3,11,12) _ assms(13)] by blast
qed

text \<open>A concrete call: a GET with the query value \<^verbatim>\<open>a b\<close> to a server whose router is empty.\<close>

definition rest_sample :: RequestBuilder where
  "rest_sample = add_query ''q'' ''a b'' (rest_request (with_options default_options) ''http://h/p'' Get)"

definition rest_sample_request :: Request where
  "rest_sample_request = \<lparr>req_method = Get, uri = \<lparr>scheme = ''http'', host = ''h'', port = 80, path = ''/p'', query = Some ''q=a%20b''\<rparr>,
     headers = [], body = []\<rparr>"

definition direct :: "Router \<Rightarrow> unit network" where
  "direct sh = \<lparr>on_pooled = (\<lambda>_ _ _. []), on_fresh = (\<lambda>_ w. fst (serve_conn small_server (router_handle sh) (\<lambda>_. False) 0 (w, False))),
     dial = (\<lambda>_ _. Ok ([], False)), cut_off = (\<lambda>_. None), reads = (\<lambda>_ _. 1), after = (\<lambda>n _. n)\<rparr>"

lemma rest_sample_headers: "wire_headers rest_sample_request = [(''Host'', ''h'')]"
  by (simp add: wire_headers_def rest_sample_request_def header_contains_def authority_def is_tls_def)

lemma rest_sample_ok: "head_ok rest_sample_request" "body_ok small_server rest_sample_request"
proof -
  have "list_all header_ok (wire_headers rest_sample_request)"
    by (simp add: rest_sample_headers) (intro visible_header_ok; simp add: visible_def MAX_LINE_BYTES_def)
  moreover have "head_size (wire_headers rest_sample_request) \<le> 50"
    by (simp add: rest_sample_headers head_size_def header_line_def crlf_def)
  ultimately show "head_ok rest_sample_request"
    by (simp add: head_ok_def rest_sample_request_def request_line_def request_target_def method_parse_def visible_def MAX_LINE_BYTES_def
        MAX_HEADERS_def MAX_HEADER_TOTAL_BYTES_def rest_sample_headers [unfolded rest_sample_request_def])
  show "body_ok small_server rest_sample_request"
    by (simp add: body_ok_def rest_sample_request_def small_server_def header_contains_def)
qed

lemma rest_sample_built:
  "substitute_path (rb_url rest_sample) (rb_path_params rest_sample) = Ok ''http://h/p''"
  "rest_http_request (\<lambda>_. []) rest_sample ''http://h/p'' = Ok rest_sample_request"
  "uri_parse ''http://h/p'' = Ok \<lparr>scheme = ''http'', host = ''h'', port = 80, path = ''/p'', query = None\<rparr>"
  by code_simp+

lemma empty_router: "router_handle router_new req = text_response 404 ''404 Not Found''"
  by (simp add: router_handle_def next_run_eq core_dispatch_def router_new_def)

theorem rest_end_to_end_witness:
  "(\<exists>r. fst (rest_send (\<lambda>_. []) (direct router_new) rest_sample (\<lambda>_. [], ())) = Ok r \<and> rr_status r = 404) \<and>
   query_param \<lparr>request = server_view rest_sample_request, params = Map.empty\<rparr> ''q'' = Some ''a b''"
proof -
  have e: "\<not> expects_continue (wire_headers rest_sample_request)"
    by (simp add: rest_sample_headers expects_continue_def header_get_def expect_names)
  have a: "answer_ok (router_handle router_new (server_view rest_sample_request))" by (simp add: empty_router text_response_ok)
  have f: "rb_err rest_sample = None" "rb_method rest_sample \<noteq> Head" "rb_query rest_sample = [(''q'', ''a b'')]"
    by (simp_all add: rest_sample_def rest_request_def add_query_def)
  have v: "\<forall>(k, v) \<in> set (rb_query rest_sample). utf8_valid (to_bytes v)" unfolding f by code_simp
  have n: "reaches (direct router_new) () small_server router_new" by (simp add: reaches_def direct_def)
  have code: "status (router_handle router_new (server_view rest_sample_request)) = 404"
    by (simp add: empty_router text_response_def with_header_def response_new_def)
  then have once: "rc_retry (rb_client rest_sample) = None \<or> \<not> is_idempotent (rb_method rest_sample) \<or>
      status (router_handle router_new (server_view rest_sample_request)) < 500" by simp
  have u: "list_all unreserved ''q''" by (simp add: unreserved_def)
  note t = rest_end_to_end [OF f(1) rest_sample_built(1,2) n _ rest_sample_ok f(2) e a rest_sample_built(3) _ v once, of "\<lambda>_. []"]
  show ?thesis using t u f(3) code by auto
qed

section \<open>Where the pieces do not fit\<close>

text \<open>A server error is a response, not a failure: the policy does not repeat the request.\<close>

lemma server_errors_not_retried:
  assumes "execute_once msg N b url w = (Ok r, w')" "500 \<le> rr_status r"
  shows "retry p rest_is_retryable (execute_once msg N b url) w = (Ok r, w', [])"
  using retry_loop_stop [of rest_is_retryable "execute_once msg N b url" w p 0] assms(1) by (simp add: retry_def)

text \<open>The client encodes query names, the router compares them as they came: a name with a reserved character is not found.\<close>

lemma reserved_name_lost:
  assumes "CHR ''?'' \<notin> set (path (uri req))" "query (uri req) = Some (query_pairs [(k, v)])" "\<not> list_all unreserved k"
  shows "query_param \<lparr>request = server_view req, params = ps\<rparr> k = None"
proof -
  have "percent_encode k \<noteq> k"
  proof
    assume eq: "percent_encode k = k"
    have "length k < length (percent_encode k)" using assms(3)
    proof (induction k)
      case (Cons c k)
      have "length k \<le> length (percent_encode k)" by (induction k) (simp_all add: percent_encode_def)
      then show ?case using Cons by (auto simp: percent_encode_def)
    qed simp
    then show False using eq by simp
  qed
  then show ?thesis
    using server_sees_query [OF assms(1,2)] split_query [OF _ encoded_keys_ok, of "[(k, v)]"] find_pair_query [OF encoded_keys_ok, of k "[(k, v)]"]
    by (simp add: query_param_def query_pairs_eq encoded_keys_def)
qed

text \<open>A path parameter goes into the URL as it is, also when it has a question mark or slashes in it.\<close>

lemma path_value_verbatim:
  "substitute_path ''http://h/items/${id}'' [(''id'', ''1?admin=true'')] = Ok ''http://h/items/1?admin=true''"
  by code_simp

end
