(* ===== verification/Rest_Server.thy ===== *)
theory Rest_Server
  imports Turbo_Correct Health Lifecycle
begin

text \<open>
  The REST server (\<^verbatim>\<open>rest/server/mod.rs\<close>): a router built with a common prefix, health endpoints, and the server as a component
  that is started and stopped. Binding a socket is an argument: the address, or the error's text.
\<close>

section \<open>Building\<close>

record ServerOptions =
  so_id :: string
  path_prefix :: string
  listen_host :: string
  listen_port :: nat

definition default_server_options :: ServerOptions where
  "default_server_options = \<lparr>so_id = ''ferroly-rest'', path_prefix = [], listen_host = ''0.0.0.0'', listen_port = 8080\<rparr>"

record ServerBuilder =
  sb_options :: ServerOptions
  sb_router :: Router

definition server_builder :: "ServerOptions \<Rightarrow> ServerBuilder" where
  "server_builder opts = \<lparr>sb_options = opts, sb_router = router_new\<rparr>"

definition trim_end_slashes :: "string \<Rightarrow> string" where
  "trim_end_slashes s = rev (dropWhile (\<lambda>c. c = CHR ''/'') (rev s))"

definition prefixed :: "ServerBuilder \<Rightarrow> string \<Rightarrow> string" where
  "prefixed b p = (let pre = trim_end_slashes (path_prefix (sb_options b)) in if pre = [] then p else pre @ p)"

definition add_route :: "string \<Rightarrow> Handler \<Rightarrow> Method list \<Rightarrow> ServerBuilder \<Rightarrow> ServerBuilder" where
  "add_route p h ms b = b\<lparr>sb_router := router_add (prefixed b p) h ms (sb_router b)\<rparr>"

definition server_get :: "string \<Rightarrow> Handler \<Rightarrow> ServerBuilder \<Rightarrow> ServerBuilder" where
  "server_get p h b = b\<lparr>sb_router := router_get (prefixed b p) h (sb_router b)\<rparr>"

definition server_post :: "string \<Rightarrow> Handler \<Rightarrow> ServerBuilder \<Rightarrow> ServerBuilder" where
  "server_post p h b = b\<lparr>sb_router := router_post (prefixed b p) h (sb_router b)\<rparr>"

definition server_put :: "string \<Rightarrow> Handler \<Rightarrow> ServerBuilder \<Rightarrow> ServerBuilder" where
  "server_put p h b = b\<lparr>sb_router := router_put (prefixed b p) h (sb_router b)\<rparr>"

definition server_delete :: "string \<Rightarrow> Handler \<Rightarrow> ServerBuilder \<Rightarrow> ServerBuilder" where
  "server_delete p h b = b\<lparr>sb_router := router_delete (prefixed b p) h (sb_router b)\<rparr>"

definition map_router :: "(Router \<Rightarrow> Router) \<Rightarrow> ServerBuilder \<Rightarrow> ServerBuilder" where
  "map_router f b = b\<lparr>sb_router := f (sb_router b)\<rparr>"

text \<open>\<^verbatim>\<open>health_endpoints_split\<close>; a request runs the checks in the world \<open>w\<close> it finds, \<open>/health\<close> once for the code and once for the
  report.\<close>

definition health_handler :: "'w health_registry \<Rightarrow> 'w \<Rightarrow> Handler" where
  "health_handler reg w = (\<lambda>_.
     let (st, w') = overall reg w; code = (if st = Down then 503 else 200)
     in (with_header ''content-type'' ''application/json'' (response_new code))\<lparr>resp_body := fst (to_json reg w')\<rparr>)"

definition ready_handler :: "'w health_registry \<Rightarrow> 'w \<Rightarrow> Handler" where
  "ready_handler reg w = (\<lambda>_. if fst (is_ready reg w) then text_response 200 ''ready'' else text_response 503 ''not ready'')"

definition health_endpoints_split :: "'w health_registry \<Rightarrow> 'w health_registry \<Rightarrow> 'w \<Rightarrow> ServerBuilder \<Rightarrow> ServerBuilder" where
  "health_endpoints_split liveness readiness w b =
     map_router (\<lambda>r. router_get ''/ready'' (ready_handler readiness w) (router_get ''/health'' (health_handler liveness w) r)) b"

definition health_endpoints :: "'w health_registry \<Rightarrow> 'w \<Rightarrow> ServerBuilder \<Rightarrow> ServerBuilder" where
  "health_endpoints reg w b = health_endpoints_split reg reg w b"

section \<open>The component\<close>

text \<open>\<open>sv_serving\<close> is the accept loop spawned by \<^verbatim>\<open>start\<close>, with the handler it owns.\<close>

record 'a RestServer =
  sv_id :: id
  sv_handler :: "Router option"
  sv_addr :: "'a option"
  sv_serving :: "Router option"
  sv_state :: ComponentState

definition server_build :: "ServerBuilder \<Rightarrow> 'a RestServer" where
  "server_build b = \<lparr>sv_id = so_id (sb_options b), sv_handler = Some (sb_router b), sv_addr = None, sv_serving = None, sv_state = Unknown\<rparr>"

definition server_start :: "('a, string) result \<Rightarrow> 'a RestServer \<Rightarrow> (unit, LifecycleError) result \<times> 'a RestServer" where
  "server_start bound sv = (case sv_handler sv of
     None \<Rightarrow> (Err (ComponentAlreadyStarted (sv_id sv)), sv)
   | Some h \<Rightarrow> (case bound of
         Err e \<Rightarrow> (Err (ComponentFailure (sv_id sv) e), sv\<lparr>sv_handler := None\<rparr>)
       | Ok addr \<Rightarrow> (Ok (), sv\<lparr>sv_handler := None, sv_addr := Some addr, sv_serving := Some h, sv_state := Running\<rparr>)))"

definition server_stop :: "'a RestServer \<Rightarrow> (unit, LifecycleError) result \<times> 'a RestServer" where
  "server_stop sv = (Ok (), sv\<lparr>sv_serving := None, sv_state := Stopped\<rparr>)"

section \<open>Its life\<close>

datatype 'a server_op = Start "('a, string) result" | Stop

fun server_step :: "'a server_op \<Rightarrow> 'a RestServer \<Rightarrow> 'a RestServer" where
  "server_step (Start bound) sv = snd (server_start bound sv)"
| "server_step Stop sv = snd (server_stop sv)"

definition server_inv :: "Router \<Rightarrow> 'a RestServer \<Rightarrow> bool" where
  "server_inv r sv \<longleftrightarrow> (sv_handler sv = None \<or> sv_handler sv = Some r) \<and> (sv_serving sv = None \<or> sv_serving sv = Some r) \<and>
     (sv_serving sv \<noteq> None \<longleftrightarrow> sv_state sv = Running) \<and> (sv_serving sv \<noteq> None \<longrightarrow> sv_handler sv = None \<and> sv_addr sv \<noteq> None)"

lemma server_step_inv: "server_inv r sv \<Longrightarrow> server_inv r (server_step op sv)"
  by (cases op) (auto simp: server_inv_def server_start_def server_stop_def split: option.split sum.split)

lemma server_run_inv: "server_inv r sv \<Longrightarrow> server_inv r (fold server_step ops sv)"
  by (induction ops arbitrary: sv) (simp_all add: server_step_inv)

text \<open>Whatever the manager does to it, a server that is running serves the router it was built with, on the address it
  reports.\<close>

lemma running_server_serves:
  assumes "sv = fold server_step ops (server_build b)"
  shows "sv_state sv = Running \<longleftrightarrow> sv_serving sv = Some (sb_router b)" "sv_state sv = Running \<Longrightarrow> sv_addr sv \<noteq> None"
proof -
  have "server_inv (sb_router b) sv"
    unfolding assms by (rule server_run_inv) (simp add: server_inv_def server_build_def)
  then show "sv_state sv = Running \<longleftrightarrow> sv_serving sv = Some (sb_router b)" "sv_state sv = Running \<Longrightarrow> sv_addr sv \<noteq> None"
    unfolding server_inv_def by auto
qed

text \<open>A failed bind takes the handler with it: the server can then never be started, and says it has been.\<close>

lemma failed_bind_is_final:
  assumes "sv_handler sv \<noteq> None"
  shows "fst (server_start (Err e) sv) = Err (ComponentFailure (sv_id sv) e)"
    and "fst (server_start (Ok addr) (snd (server_start (Err e) sv))) = Err (ComponentAlreadyStarted (sv_id sv))"
  using assms by (auto simp: server_start_def)

section \<open>Routes\<close>

text \<open>Routes sit under the prefix, with or without slashes at its end; the probes do not.\<close>

lemma prefixed_slashes: "prefixed (b\<lparr>sb_options := (sb_options b)\<lparr>path_prefix := p @ ''/''\<rparr>\<rparr>) x = prefixed (b\<lparr>sb_options := (sb_options b)\<lparr>path_prefix := p\<rparr>\<rparr>) x"
  by (simp add: prefixed_def trim_end_slashes_def)

text \<open>A route registered under the prefix answers there: it is the router's own registration at the joined path.\<close>

lemma prefixed_plain: "trim_end_slashes (path_prefix (sb_options b)) = [] \<Longrightarrow> prefixed b p = p"
  by (simp add: prefixed_def)

lemma routes_keep_prefix: "prefixed (server_get p h b) x = prefixed b x" "prefixed (map_router f b) x = prefixed b x"
  by (simp_all add: prefixed_def server_get_def map_router_def)

lemma health_code:
  "status (health_handler reg w ctx) = (if list_ex (\<lambda>(_, st). st = Down) (fst (run_checks reg w)) then 503 else 200)"
proof -
  have "s \<noteq> Down \<Longrightarrow> worst_of s rs = Down \<longleftrightarrow> list_ex (\<lambda>(_, st). st = Down) rs" for s rs
    by (induction s rs rule: worst_of.induct) (auto split: HealthStatus.splits)
  then show ?thesis
    by (simp add: health_handler_def overall_def with_header_def response_new_def Let_def split: prod.split)
qed

lemma ready_code: "status (ready_handler reg w ctx) = (if list_all (\<lambda>(_, st). st = Up) (fst (run_checks reg w)) then 200 else 503)"
  by (simp add: ready_handler_def is_ready_def text_response_def with_header_def response_new_def split: prod.split)

end
