(* ===== verification/Spec2Isabelle.thy ===== *)
theory Spec2Isabelle
  imports Breaker Retry Lifecycle Codec_Json_Correct Codec_Text Codec_Registry Codec_Traits_Correct Codec_Schema Ws_Correct Auth Http_Client Http_Download Sse Turbo_Correct Turbo_Rate Genai_Correct Genai_Providers_Correct Messaging_Correct Config_Correct Metrics Health Cli_Correct Obs_Otlp Vectorstore Log_Correct Rest_Correct Rest_Server
begin

text \<open>
  A verification of \<^verbatim>\<open>ferroly\<close>, the Rust application toolkit of this repository
  (\<^verbatim>\<open>src/crates/ferroly/src\<close>). File names below are relative to that directory.

  \<^bold>\<open>The program.\<close> The crate is a set of modules that build on each other. \<^verbatim>\<open>codec\<close> is the data model (\<^verbatim>\<open>Value\<close>) with its text
  formats (JSON, TOML, YAML, XML), a registry of them by content type, a schema checker, and typed encoding through traits and the
  derive macros; \<^verbatim>\<open>hash\<close> and \<^verbatim>\<open>auth\<close> are digests, MACs and signed tokens; \<^verbatim>\<open>clients\<close> holds the circuit breaker, the retry loop and
  credentials; \<^verbatim>\<open>lifecycle\<close> starts and stops components in dependency order and reports health; \<^verbatim>\<open>http\<close> is an HTTP/1.1 server
  and client with server-sent events and resumable downloads; \<^verbatim>\<open>turbo\<close> is the request router on top of the server and
  \<^verbatim>\<open>rest\<close> a client and a server component over both; \<^verbatim>\<open>ws\<close> is the WebSocket protocol; \<^verbatim>\<open>messaging\<close> is an in-process message bus;
  \<^verbatim>\<open>config\<close> and \<^verbatim>\<open>cli\<close> read settings; \<^verbatim>\<open>metrics\<close>, \<^verbatim>\<open>log\<close> and \<^verbatim>\<open>obs\<close> observe a program; \<^verbatim>\<open>vectorstore\<close> searches embeddings;
  \<^verbatim>\<open>genai\<close> talks to language models and its router chooses one for a task and calls it under the breakers and the
  retry loop.

  \<^bold>\<open>Theories.\<close> Operations keep the names of the code where Isabelle allows it.
  \<^item> \<open>Prelude\<close>: results, machine integers, and the locale \<open>state_machine\<close> for components whose operations each run under one
    lock; it is interpreted on the breaker. \<open>Rust_Str\<close>, \<open>Rust_Char\<close>, \<open>Rust_Trim\<close>, \<open>Rust_Coll\<close>, \<open>Utf8\<close>: what the code uses of the
    standard library: strings as UTF-8 bytes, characters, trimming, ordered maps, stable sorting, lossy conversion.
  \<^item> \<open>Breaker\<close>, \<open>Retry\<close> (\<^verbatim>\<open>clients/breaker.rs\<close>, \<^verbatim>\<open>clients/retry.rs\<close>): the whole of both. The breaker refines a machine of
    three phases, answer by answer, and its state stays within its thresholds; it trips, rejects and recovers as configured. The retry loop
    makes exactly the calls and sleeps of the policy.
  \<^item> \<open>Lifecycle_Graph\<close>, \<open>Lifecycle\<close>, \<open>Health\<close> (\<^verbatim>\<open>lifecycle/manager.rs\<close>, \<^verbatim>\<open>lifecycle/health.rs\<close>): the dependency graph with its
    orders and closures, the manager over arbitrary component code, and the health report. Orders are topological, a cycle
    is refused, no reachable manager state makes an operation panic, components start after and stop before what they depend on.
  \<^item> \<open>Codec_Value\<close>, \<open>Codec_Json\<close>, \<open>Codec_Json_Correct\<close>, \<open>Codec_Text\<close> (\<^verbatim>\<open>codec/value.rs\<close>, \<^verbatim>\<open>codec/fmt.rs\<close>, \<^verbatim>\<open>codec/json.rs\<close>): printing and
    parsing JSON. Parsing what was printed gives the value back; parsing ends on every input; nesting is bounded.
  \<^item> \<open>Codec_Toml\<close>, \<open>Codec_Toml_Total\<close>, \<open>Codec_Toml_Inline\<close>, \<open>Codec_Toml_Correct\<close>, \<open>Codec_Yaml\<close>, \<open>Codec_Yaml_Correct\<close>, \<open>Codec_Xml\<close>,
    \<open>Codec_Xml_Correct\<close> (\<^verbatim>\<open>codec/toml.rs\<close>, \<^verbatim>\<open>codec/yaml.rs\<close>, \<^verbatim>\<open>codec/xml.rs\<close>): the other formats, each with its round trip on the
    values the format can hold, and TOML parsing total.
  \<^item> \<open>Codec_Registry\<close>, \<open>Codec_Schema\<close>, \<open>Codec_Traits\<close>, \<open>Codec_Traits_Correct\<close> (\<^verbatim>\<open>codec/registry.rs\<close>, \<^verbatim>\<open>codec/schema.rs\<close>, \<^verbatim>\<open>codec/traits.rs\<close>
    and \<^verbatim>\<open>ferroly-derive\<close>): the choice of a format by content type and the round trip through it; what a schema accepts; typed values, with
    the code that the derive macros generate as an interpreter of type descriptions, encoded and decoded back.
  \<^item> \<open>Hash\<close>, \<open>Base64\<close>, \<open>Auth\<close> (\<^verbatim>\<open>hash/mod.rs\<close>, \<^verbatim>\<open>auth/mod.rs\<close>, \<^verbatim>\<open>ws/handshake.rs\<close>): SHA-1, SHA-256, HMAC, base64 and HS256
    tokens. Streaming a message in pieces hashes the whole; an accepted token carries the MAC of its own header and
    payload and is within its times; a token that was issued is accepted.
  \<^item> \<open>Ws_Frame\<close>, \<open>Ws_Conn\<close>, \<open>Ws_Correct\<close> (\<^verbatim>\<open>ws/frame.rs\<close>, \<^verbatim>\<open>ws/conn.rs\<close>): framing, masking, fragments, limits and the two
    connection loops. What one side writes the other delivers, however the transport splits it.
  \<^item> \<open>Http_Core\<close>, \<open>Http_Wire\<close>, \<open>Http_Correct\<close>, \<open>Http_Client\<close>, \<open>Http_Download\<close>, \<open>Sse\<close> (\<^verbatim>\<open>http/*.rs\<close>): headers
    and URIs; the server's connection loop over a byte stream; the client with its pool and bodies; resumable downloads;
    server-sent events. A pipeline of requests is answered in step; what reaches a handler is bounded and,
    with at most one Transfer-Encoding header, unambiguously framed; a request comes back as the handler's response; a download
    that is cut off never leaves anything but a prefix of the resource.
  \<^item> \<open>Turbo\<close>, \<open>Turbo_Correct\<close>, \<open>Turbo_Rate\<close> (\<^verbatim>\<open>turbo/mod.rs\<close>): patterns, groups, filters, middleware, dispatch, percent
    decoding and the token-bucket limiter, against a specification of dispatch and an unswept limiter.
  \<^item> \<open>Rest\<close>, \<open>Rest_Correct\<close>, \<open>Rest_Server\<close> (\<^verbatim>\<open>rest/client\<close>, \<^verbatim>\<open>rest/server\<close>): the request builder and its exchange, over the models of
    the HTTP client and the retry loop, and the server component over the router and the health registry. A call comes back as the
    router's answer and its query values under plain names arrive.
  \<^item> \<open>Genai_Select\<close>, \<open>Genai_Exec\<close>, \<open>Genai_Correct\<close> (\<^verbatim>\<open>genai/router/*.rs\<close>): the registry, the ranking strategies, resolution,
    and the fallback loop, which uses the breaker of \<open>Breaker\<close> and the loop of \<open>Retry\<close>. \<open>Genai_Message\<close>, \<open>Genai_Providers\<close>,
    \<open>Genai_Providers_Correct\<close> (\<^verbatim>\<open>genai/message.rs\<close>, \<^verbatim>\<open>genai/prompt.rs\<close>, \<^verbatim>\<open>genai/providers/*.rs\<close>, \<^verbatim>\<open>clients/auth.rs\<close>): messages, prompt
    templates, and the requests, answers and streams of the three providers. A stream is reassembled
    however it is cut between characters.
  \<^item> \<open>Messaging\<close>, \<open>Messaging_Correct\<close> (\<^verbatim>\<open>messaging/mod.rs\<close>): the bus as a transition system whose actions interleave
    freely, and its invariants over every run: every message is accounted for, buffers and permits are bounded, and serial
    listeners see messages in order.
  \<^item> \<open>Config\<close>, \<open>Config_Correct\<close>, \<open>Cli\<close>, \<open>Cli_Correct\<close> (\<^verbatim>\<open>config.rs\<close>, \<^verbatim>\<open>cli/mod.rs\<close>): layered configuration, where the last layer that
    sets a key wins as long as no layer repeats a key, and the command-line parser against a declarative reading of the arguments.
  \<^item> \<open>Metrics\<close>, \<open>Log\<close>, \<open>Log_Time\<close>, \<open>Log_Correct\<close>, \<open>Obs\<close>, \<open>Obs_Otlp\<close> (\<^verbatim>\<open>metrics/mod.rs\<close>, \<^verbatim>\<open>log.rs\<close>, \<^verbatim>\<open>obs/*.rs\<close>): counters and histograms;
    log lines, timestamps against the calendar, and the asynchronous appender over every interleaving; spans as a forest and their
    export. Concurrent observations are all counted; a record that finds the log's channel full is counted as dropped, one
    that is pending when a write fails is lost.
  \<^item> \<open>Vectorstore\<close> (\<^verbatim>\<open>vectorstore/mod.rs\<close>): the in-memory store, whose search is the ranking of a reference collection.
  \<^item> This theory: a property that spans the HTTP client and server, the router and the tokens.

  \<^bold>\<open>Interfaces.\<close> Contracts between components are locales, each interpreted on the model's own definitions: among them
  \<open>state_machine\<close> (breaker), \<open>transport\<close> (typed values over a tree or over JSON text), \<open>exporter_relation\<close> (what an
  exporter sees of the spans, for the JSON and the OTLP exporter), \<open>chat_stream\<close> (the streams of the providers) and \<open>vector_store\<close> (the trait
  of the same name).

  \<^bold>\<open>Conventions.\<close> A Rust \<^verbatim>\<open>String\<close> is the list of its UTF-8 bytes, a \<^verbatim>\<open>u8\<close> buffer a list of words. Fallible functions return
  \<open>result\<close>; \<open>option\<close> around a result is a panic, a failed debug assertion or, for a parser, running out of fuel, which is proved not to happen.
  Integers that can wrap are words of their width. Time is an argument (nanoseconds, or the code's own unit). Floating-point
  numbers are a type parameter with the operations the code uses; what a property needs of them is a hypothesis with a witness.

  \<^bold>\<open>Loops and bounds.\<close> Loops are recursive functions with termination proofs: on the bytes left, on the length of a list, or on
  the attempts left. Fuel stands in only in the recursive-descent parsers of JSON, of TOML and of typed values: \<open>from_str\<close> of JSON gives
  itself \<open>2 * length + 2\<close>, the others likewise a bound from the length of the input; these are proved enough, so each input gets a
  value or an error. The JSON nesting limit (128) is the code's own. Identifiers of spans are distinct for the first \<open>2^64\<close> operations.
  Limits of the code (line and header sizes, body caps, frame caps, idle connections, the 1 MiB line buffer of a stream) are the
  code's constants.

  \<^bold>\<open>Not modelled.\<close> Sockets, TLS, timers and the async runtime appear only through what they deliver (byte streams, expiry, an
  order of actions): \<^verbatim>\<open>rt\<close> starts a runtime, \<^verbatim>\<open>http/transport.rs\<close> opens connections, \<^verbatim>\<open>ws/client.rs\<close> and \<^verbatim>\<open>ws/server.rs\<close> wire the
  connection loops to them. \<^verbatim>\<open>vfs\<close> and \<^verbatim>\<open>fsutils\<close> pass paths to the operating system's file system, and \<^verbatim>\<open>errutils\<close> collects
  errors for display. The derive macro for error types works on token streams and generates formatting only. The model catalogues of
  \<^verbatim>\<open>genai\<close> are tables.
\<close>

section \<open>A guarded API, end to end\<close>

text \<open>The context a router sees of a request that came over the wire.\<close>

definition wire_ctx :: "Request \<Rightarrow> Ctx" where
  "wire_ctx req = \<lparr>request = server_view req, params = Map.empty\<rparr>"

text \<open>What a router behind the token authenticator answers.\<close>

definition gated :: "(bytes \<Rightarrow> string) \<Rightarrow> 'f float_ops \<Rightarrow> 'f num_ops \<Rightarrow> i64 \<Rightarrow> bytes \<Rightarrow> Router \<Rightarrow> Ctx \<Rightarrow> HttpResponse" where
  "gated msg F N now secret sh ctx = (case bearer_token ctx of
     None \<Rightarrow> text_response 401 ''401 missing bearer token''
   | Some t \<Rightarrow>
       if \<exists>claims. decode_hs256 msg F N now t secret = Some (Ok claims) then dispatch_spec (sh\<lparr>auth := None\<rparr>) ctx
       else text_response 401 ''401 invalid token'')"

lemma gated_router:
  assumes "middlewares sh = []"
  shows "router_handle (jwt_auth msg F N now secret sh) (server_view req) = gated msg F N now secret sh (wire_ctx req)"
proof -
  have "middlewares (jwt_auth msg F N now secret sh) = []" using assms by (simp add: jwt_auth_def router_auth_def)
  then have "router_handle (jwt_auth msg F N now secret sh) (server_view req) =
      core_dispatch (jwt_auth msg F N now secret sh) (wire_ctx req)"
    by (simp add: router_handle_def wire_ctx_def next_run_eq)
  then show ?thesis by (simp only: turbo_jwt_gate gated_def flip: core_dispatch_eq)
qed



end
